(* ===== verification/Prelude.thy ===== *)
theory Prelude
  imports Main "HOL-Library.Word"
begin

text \<open>
  Shared vocabulary of the development: the machine types of the C sources, the
  two alignment helpers that several kernel files declare with the same body, and
  generic facts on words, lists and loops. The collection \<open>word_nat\<close> holds the
  equations that turn a word expression into arithmetic on \<open>nat\<close>; the component
  theories pass it to \<open>simp\<close> instead of repeating bit-level reasoning.
\<close>

unbundle bit_operations_syntax

type_synonym u8 = "8 word"
type_synonym u16 = "16 word"
type_synonym u32 = "32 word"
type_synonym u64 = "64 word"

named_theorems word_nat \<open>word operations as arithmetic on natural numbers\<close>

section \<open>Alignment\<close>

definition align_up :: "u64 \<Rightarrow> u64 \<Rightarrow> u64" where
  "align_up value align = (value + align - 1) AND NOT (align - 1)"

definition align_down :: "u64 \<Rightarrow> u64 \<Rightarrow> u64" where
  "align_down value align = value AND NOT (align - 1)"

section \<open>Words as natural numbers\<close>

lemma unat_take_bit_mod [word_nat]:
  "unat (take_bit k (x::'a::len word)) = unat x mod 2 ^ k"
  unfolding take_bit_eq_mod [symmetric]
  by (rule bit_eqI) (auto simp: bit_simps dest: bit_imp_le_length)

lemma unat_and_mask [word_nat]:
  "unat ((x::'a::len word) AND mask k) = unat x mod 2 ^ k"
  by (simp add: unat_take_bit_mod flip: take_bit_eq_mask)

lemma unat_and_not_mask [word_nat]:
  "unat (x AND NOT (mask k) :: 'a::len word) = unat x div 2 ^ k * 2 ^ k"
proof -
  have "unat (x AND NOT (mask k)) = push_bit k (drop_bit k (unat x))"
    by (rule bit_eqI) (auto simp: bit_simps dest: bit_imp_le_length)
  then show ?thesis by (simp add: push_bit_eq_mult drop_bit_eq_div)
qed

lemma unat_drop_bit_div [word_nat]:
  "unat (drop_bit k (x::'a::len word)) = unat x div 2 ^ k"
  by (simp only: unat_drop_bit_eq) (simp only: drop_bit_eq_div)

lemma unat_push_bit_mod:
  "unat (push_bit k (x::'a::len word)) = unat x * 2 ^ k mod 2 ^ LENGTH('a)"
proof -
  have "unat (push_bit k x) = take_bit LENGTH('a) (push_bit k (unat x))"
    by (rule bit_eqI) (auto simp: bit_simps dest: bit_imp_le_length)
  then show ?thesis by (simp add: push_bit_eq_mult take_bit_eq_mod)
qed

lemma unat_push_bit_mult:
  "unat x * 2 ^ k < 2 ^ LENGTH('a) \<Longrightarrow>
   unat (push_bit k (x::'a::len word)) = unat x * 2 ^ k"
  by (simp add: unat_push_bit_mod)

lemma mask_numerals:
  "(7::u64) = mask 3" "(15::u64) = mask 4" "(4095::u64) = mask 12"
  by (simp_all add: mask_eq_exp_minus_1)

lemma unat_and_7 [word_nat]: "unat ((x::u64) AND 7) = unat x mod 8"
  by (simp only: mask_numerals(1) unat_and_mask) simp

lemma unat_and_4095 [word_nat]: "unat ((x::u64) AND 4095) = unat x mod 4096"
  by (simp only: mask_numerals(3) unat_and_mask) simp

lemma unat_drop_3 [word_nat]: "unat (drop_bit 3 (x::u64)) = unat x div 8"
  by (simp only: unat_drop_bit_div) simp

lemma unat_drop_12 [word_nat]: "unat (drop_bit 12 (x::u64)) = unat x div 4096"
  by (simp only: unat_drop_bit_div) simp

lemma unat_add_lt:
  "unat (x::'a::len word) + unat y < 2 ^ LENGTH('a) \<Longrightarrow> unat (x + y) = unat x + unat y"
  by (simp add: unat_word_ariths)

lemma unat_Suc_less:
  assumes "(x::'a::len word) < y"
  shows "unat (x + 1) = Suc (unat x)"
proof -
  have "x \<noteq> - 1" using assms by auto
  then have "1 + x \<noteq> 0" by (metis add.commute eq_neg_iff_add_eq_0)
  then show ?thesis using unatSuc [of x] by (simp add: add.commute)
qed

lemma word_of_unat: "of_nat (unat (x::'a::len word)) = x"
  by simp

lemma word_eq_by_unat: "unat x = unat y \<Longrightarrow> x = (y::'a::len word)"
  by (metis word_of_unat)

lemma unat_bound: "unat (x::'a::len word) < 2 ^ LENGTH('a)"
  by (rule unsigned_less)

lemma unat_ucast_small:
  "unat (x :: 'b::len word) < 2 ^ LENGTH('a) \<Longrightarrow> unat (ucast x :: 'a::len word) = unat x"
  by (simp add: unsigned_ucast_eq take_bit_nat_eq_self)

lemma unat_ucast_u32_u64: "unat (ucast (x :: u32) :: u64) = unat x"
  using unat_bound [of x] by (intro unat_ucast_small) simp

lemma unat_sub_le: "(y::'a::len word) \<le> x \<Longrightarrow> unat (x - y) = unat x - unat y"
  by (rule unat_sub)

lemma align_down_pow2:
  "unat (v AND NOT (2 ^ k - 1 :: u64)) = unat v div 2 ^ k * 2 ^ k"
  by (simp only: mask_eq_exp_minus_1 [symmetric] unat_and_not_mask)

lemma unat_exp_minus_1: "k < LENGTH('a) \<Longrightarrow> unat (2 ^ k - 1 :: 'a::len word) = 2 ^ k - 1"
proof -
  assume k: "k < LENGTH('a)"
  have "unat (mask k :: 'a word) = mask k"
    using k by (auto intro!: bit_eqI simp: bit_simps)
  then show ?thesis by (simp add: mask_eq_exp_minus_1)
qed

lemma align_up_pow2:
  assumes "unat v + (2 ^ k - 1) < 2 ^ 64" and "k < 64"
  shows "unat (align_up v (2 ^ k)) = (unat v + (2 ^ k - 1)) div 2 ^ k * 2 ^ k"
proof -
  have "unat (v + (2 ^ k - 1)) = unat v + (2 ^ k - 1)"
    using assms by (simp add: unat_word_ariths unat_exp_minus_1)
  then show ?thesis
    unfolding align_up_def add_diff_eq [symmetric] align_down_pow2 by simp
qed

section \<open>Lists\<close>

lemma find_in: "find P xs = Some x \<Longrightarrow> P x \<and> x \<in> set xs"
  by (induction xs) (auto split: if_splits)

end
