(* ===== verification/Vga.thy ===== *)
theory Vga
  imports Prelude
begin

text \<open>
  The 80x25 text console of \<open>kernel/vga.c\<close>: the shadow array \<open>cells\<close>, the text
  buffer at 0xB8000 that every write mirrors (\<open>text_mem\<close>), the cursor, and the bytes
  handed to \<open>serial_putc\<close>. A C array write outside the 2000 cells is undefined; the
  model records it in the ghost flag \<open>vga_oob\<close>, and the lemmas show which calls
  leave the flag alone. C \<open>int\<close> rows and columns are \<open>int\<close>.
\<close>

definition VGA_WIDTH :: int where "VGA_WIDTH = 80"
definition VGA_HEIGHT :: int where "VGA_HEIGHT = 25"

record vga =
  cells :: "u16 list"
  text_mem :: "u16 list"
  cursor_row :: int
  cursor_col :: int
  serial_out :: string
  vga_oob :: bool

definition vga_poke :: "int \<Rightarrow> char \<Rightarrow> vga \<Rightarrow> vga" where
  "vga_poke pos c v =
     (let w = (of_char c :: u16) OR push_bit 8 0x0F in
      if 0 \<le> pos \<and> pos < VGA_WIDTH * VGA_HEIGHT
      then v\<lparr>cells := (cells v)[nat pos := w], text_mem := (text_mem v)[nat pos := w]\<rparr>
      else v\<lparr>vga_oob := True\<rparr>)"

definition vga_clear :: "vga \<Rightarrow> vga" where
  "vga_clear v =
     (fold (\<lambda>i. vga_poke (int i) CHR '' '') [0..<nat (VGA_WIDTH * VGA_HEIGHT)] v)
       \<lparr>cursor_row := 3, cursor_col := 0\<rparr>"

definition vga_set_cursor :: "int \<Rightarrow> int \<Rightarrow> vga \<Rightarrow> vga" where
  "vga_set_cursor row col v = v\<lparr>cursor_row := row, cursor_col := col\<rparr>"

definition cell_char :: "u16 \<Rightarrow> char" where
  "cell_char w = char_of (unat w)"

definition vga_scroll :: "vga \<Rightarrow> vga" where
  "vga_scroll v =
     (let last = nat (VGA_WIDTH * (VGA_HEIGHT - 1));
          v1 = fold (\<lambda>i u. vga_poke (int i) (cell_char (cells u ! (i + nat VGA_WIDTH))) u)
                 [0..<last] v;
          v2 = fold (\<lambda>i. vga_poke (int i) CHR '' '')
                 [last..<nat (VGA_WIDTH * VGA_HEIGHT)] v1
      in v2\<lparr>cursor_row := VGA_HEIGHT - 1\<rparr>)"

text \<open>\<open>(cursor_col + 4) & ~3\<close> on a non-negative int is rounding down to a multiple of 4.\<close>

definition vga_advance :: "vga \<Rightarrow> vga" where
  "vga_advance v =
     (if VGA_WIDTH \<le> cursor_col v
      then v\<lparr>cursor_col := 0, cursor_row := cursor_row v + 1\<rparr> else v)"

definition vga_putc :: "char \<Rightarrow> vga \<Rightarrow> vga" where
  "vga_putc c v =
     (let v1 =
        (if c = CHR 0x0A then v\<lparr>cursor_col := 0, cursor_row := cursor_row v + 1\<rparr>
         else if c = CHR 0x09 then vga_advance (v\<lparr>cursor_col := (cursor_col v + 4) div 4 * 4\<rparr>)
         else if c = CHR 0x08 then
           (if 0 < cursor_col v
            then (let v' = v\<lparr>cursor_col := cursor_col v - 1\<rparr> in
                  vga_poke (cursor_row v' * VGA_WIDTH + cursor_col v') CHR '' '' v')
            else v)
         else (let v' = vga_poke (cursor_row v * VGA_WIDTH + cursor_col v) c v in
               vga_advance (v'\<lparr>cursor_col := cursor_col v' + 1\<rparr>)));
        v2 = (if VGA_HEIGHT \<le> cursor_row v1 then vga_scroll v1 else v1)
      in v2\<lparr>serial_out := serial_out v2 @ [c]\<rparr>)"

definition vga_char_at :: "vga \<Rightarrow> int \<Rightarrow> int \<Rightarrow> char" where
  "vga_char_at v row col =
     (if row < 0 \<or> VGA_HEIGHT \<le> row \<or> col < 0 \<or> VGA_WIDTH \<le> col then CHR '' ''
      else cell_char (cells v ! nat (row * VGA_WIDTH + col)))"

fun poke_run :: "int \<Rightarrow> int \<Rightarrow> string \<Rightarrow> vga \<Rightarrow> vga" where
  "poke_run pos col [] v = v"
| "poke_run pos col (c # cs) v =
     (if col < VGA_WIDTH then poke_run (pos + 1) (col + 1) cs (vga_poke pos c v) else v)"

definition off_screen :: "int \<Rightarrow> int \<Rightarrow> bool" where
  "off_screen row col \<longleftrightarrow> row < 0 \<or> VGA_HEIGHT \<le> row \<or> col < 0 \<or> VGA_WIDTH \<le> col"

definition vga_write_at :: "int \<Rightarrow> int \<Rightarrow> string option \<Rightarrow> vga \<Rightarrow> vga" where
  "vga_write_at row col msg v =
     (case msg of
        None \<Rightarrow> v
      | Some m \<Rightarrow> if off_screen row col then v
                  else poke_run (row * VGA_WIDTH + col) col m v)"

definition hex_digit :: "nat \<Rightarrow> char" where
  "hex_digit n = (if n < 10 then char_of (48 + n) else char_of (97 + (n - 10)))"

definition hex64 :: "u64 \<Rightarrow> string" where
  "hex64 w = map (\<lambda>i. hex_digit (unat (drop_bit (i * 4) w AND 0xF))) (rev [0..<16])"

definition vga_write_hex64_at :: "int \<Rightarrow> int \<Rightarrow> u64 \<Rightarrow> vga \<Rightarrow> vga" where
  "vga_write_hex64_at row col w v =
     (if off_screen row col then v else poke_run (row * VGA_WIDTH + col) col (hex64 w) v)"

text \<open>The digit loop fills \<open>buf\<close> from the low digit and stops after ten digits.\<close>

fun dec_digits :: "nat \<Rightarrow> nat \<Rightarrow> string" where
  "dec_digits 0 v = []"
| "dec_digits (Suc room) v =
     (if 0 < v then char_of (48 + v mod 10) # dec_digits room (v div 10) else [])"

definition dec_string :: "u32 \<Rightarrow> string" where
  "dec_string v = (if v = 0 then ''0'' else rev (dec_digits 10 (unat v)))"

definition vga_write_dec_at :: "int \<Rightarrow> int \<Rightarrow> u32 \<Rightarrow> vga \<Rightarrow> vga" where
  "vga_write_dec_at row col w v =
     (if off_screen row col then v else poke_run (row * VGA_WIDTH + col) col (dec_string w) v)"

section \<open>Well-formed consoles and what each call keeps\<close>

definition vga_wf :: "vga \<Rightarrow> bool" where
  "vga_wf v \<longleftrightarrow> length (cells v) = 2000 \<and> length (text_mem v) = 2000 \<and>
     cells v = text_mem v \<and> \<not> vga_oob v \<and>
     0 \<le> cursor_row v \<and> cursor_row v < VGA_HEIGHT \<and>
     0 \<le> cursor_col v \<and> cursor_col v < VGA_WIDTH"

definition grid_wf :: "vga \<Rightarrow> bool" where
  "grid_wf v \<longleftrightarrow> length (cells v) = 2000 \<and> cells v = text_mem v \<and> \<not> vga_oob v"

lemmas vga_dims = VGA_WIDTH_def VGA_HEIGHT_def

lemma vga_poke_frame [simp]:
  "cursor_row (vga_poke p c v) = cursor_row v"
  "cursor_col (vga_poke p c v) = cursor_col v"
  "serial_out (vga_poke p c v) = serial_out v"
  by (simp_all add: vga_poke_def Let_def)

lemma vga_poke_grid: "grid_wf v \<Longrightarrow> 0 \<le> p \<Longrightarrow> p < 2000 \<Longrightarrow> grid_wf (vga_poke p c v)"
  by (auto simp: vga_poke_def grid_wf_def vga_dims Let_def)

lemma grid_wf_cursor [simp]:
  "grid_wf (v\<lparr>cursor_row := r\<rparr>) = grid_wf v" "grid_wf (v\<lparr>cursor_col := r\<rparr>) = grid_wf v"
  "grid_wf (v\<lparr>serial_out := s\<rparr>) = grid_wf v"
  by (simp_all add: grid_wf_def)

lemma fold_poke_grid:
  "grid_wf v \<Longrightarrow> \<forall>i \<in> set is. i < 2000 \<Longrightarrow>
   grid_wf (fold (\<lambda>i u. vga_poke (int i) (f i u) u) is v)"
  by (induction "is" arbitrary: v) (simp_all add: vga_poke_grid)

lemma fold_poke_cursor [simp]:
  "cursor_row (fold (\<lambda>i u. vga_poke (int i) (f i u) u) is v) = cursor_row v"
  "cursor_col (fold (\<lambda>i u. vga_poke (int i) (f i u) u) is v) = cursor_col v"
  "serial_out (fold (\<lambda>i u. vga_poke (int i) (f i u) u) is v) = serial_out v"
  by (induction "is" arbitrary: v) auto

lemma poke_run_frame [simp]:
  "cursor_row (poke_run p col m v) = cursor_row v"
  "cursor_col (poke_run p col m v) = cursor_col v"
  "serial_out (poke_run p col m v) = serial_out v"
  by (induction p col m v rule: poke_run.induct) auto

lemma poke_run_grid:
  "grid_wf v \<Longrightarrow> 0 \<le> col \<Longrightarrow> 0 \<le> row \<Longrightarrow> row < 25 \<Longrightarrow>
   grid_wf (poke_run (row * 80 + col) col m v)"
proof (induction m arbitrary: col v)
  case (Cons c m)
  show ?case
  proof (cases "col < 80")
    case True
    have "grid_wf (vga_poke (row * 80 + col) c v)"
      using Cons.prems True by (intro vga_poke_grid) auto
    then show ?thesis using Cons.IH [of _ "col + 1"] Cons.prems
      by (simp add: vga_dims add.assoc)
  qed (use Cons.prems in \<open>simp add: vga_dims\<close>)
qed simp

lemma vga_wf_grid: "vga_wf v \<longleftrightarrow> grid_wf v \<and>
    0 \<le> cursor_row v \<and> cursor_row v < 25 \<and> 0 \<le> cursor_col v \<and> cursor_col v < 80"
  by (auto simp: vga_wf_def grid_wf_def vga_dims)

lemma vga_write_at_wf: "vga_wf v \<Longrightarrow> vga_wf (vga_write_at row col m v)"
  by (auto simp: vga_wf_grid vga_write_at_def off_screen_def vga_dims
      intro: poke_run_grid split: option.splits)

lemma vga_write_hex64_at_wf: "vga_wf v \<Longrightarrow> vga_wf (vga_write_hex64_at row col w v)"
  by (auto simp: vga_wf_grid vga_write_hex64_at_def off_screen_def vga_dims intro: poke_run_grid)

lemma vga_write_dec_at_wf: "vga_wf v \<Longrightarrow> vga_wf (vga_write_dec_at row col w v)"
  by (auto simp: vga_wf_grid vga_write_dec_at_def off_screen_def vga_dims intro: poke_run_grid)

lemma fold_poke_upt:
  "grid_wf v \<Longrightarrow> b \<le> 2000 \<Longrightarrow> grid_wf (fold (\<lambda>i u. vga_poke (int i) (f i u) u) [a..<b] v)"
  by (rule fold_poke_grid) auto

lemma vga_scroll_grid: "grid_wf v \<Longrightarrow> grid_wf (vga_scroll v)"
  by (simp add: vga_scroll_def Let_def vga_dims fold_poke_upt del: upt_rec_numeral)

lemma vga_scroll_cursor [simp]:
  "cursor_row (vga_scroll v) = 24" "cursor_col (vga_scroll v) = cursor_col v"
  "serial_out (vga_scroll v) = serial_out v"
  by (simp_all add: vga_scroll_def Let_def vga_dims del: upt_rec_numeral)

lemma vga_advance_grid [simp]: "grid_wf (vga_advance v) = grid_wf v"
  by (simp add: vga_advance_def)

text \<open>
  \<open>vga_putc\<close> on a console whose cursor is on the screen writes only inside the
  2000 cells, keeps the shadow array equal to the text buffer, and leaves the cursor on
  the screen again, whatever the character; the byte also goes to the serial port.
\<close>

theorem vga_putc_wf:
  assumes "vga_wf v"
  shows "vga_wf (vga_putc c v) \<and> serial_out (vga_putc c v) = serial_out v @ [c]"
proof -
  have pos: "0 \<le> cursor_row v * 80 + cursor_col v" "cursor_row v * 80 + cursor_col v < 2000"
    using assms by (auto simp: vga_wf_grid)
  show ?thesis
    using assms pos
    by (auto simp: vga_wf_grid vga_putc_def Let_def vga_dims vga_advance_def
        intro!: vga_scroll_grid vga_poke_grid)
qed

theorem vga_putc_wf_witness:
  "vga_wf (vga_putc CHR ''x'' \<lparr>cells = replicate 2000 0, text_mem = replicate 2000 0,
     cursor_row = 24, cursor_col = 79, serial_out = [], vga_oob = False\<rparr>)"
  by (rule vga_putc_wf [THEN conjunct1]) (simp add: vga_wf_def vga_dims)

end
