(* ===== verification/E820.thy ===== *)
theory E820
  imports Vga
begin

text \<open>
  The BIOS memory map as stage 2 leaves it for the kernel (\<open>kernel/e820.h\<close>,
  \<open>kernel/e820.c\<close>). \<open>struct e820_map\<close> has a fixed array of 32 entries; the three
  consumers (\<open>e820_print\<close>, \<open>pmm_init\<close>, \<open>vmm_map_usable\<close>) clip the count the same
  way, which \<open>e820_clip\<close> states once. A null map pointer is \<open>None\<close>.
\<close>

definition E820_MAX :: u32 where "E820_MAX = 32"
definition E820_ENTRY_SIZE :: u32 where "E820_ENTRY_SIZE = 24"
definition E820_TYPE_USABLE :: u32 where "E820_TYPE_USABLE = 1"

record e820_entry =
  e_base :: u64
  e_length :: u64
  e_type :: u32
  e_acpi :: u32

record e820_map =
  e_count :: u32
  e_entry_size :: u32
  e_entries :: "e820_entry list"

definition e820_clip :: "e820_map option \<Rightarrow> u32" where
  "e820_clip m =
     (case m of
        None \<Rightarrow> 0
      | Some mp \<Rightarrow>
          if e_entry_size mp = E820_ENTRY_SIZE
          then (if E820_MAX < e_count mp then E820_MAX else e_count mp) else 0)"

text \<open>The entries the loops \<open>for (i = 0; i < n; i++)\<close> visit, in order.\<close>

definition e820_seen :: "e820_map option \<Rightarrow> e820_entry list" where
  "e820_seen m = (case m of None \<Rightarrow> [] | Some mp \<Rightarrow> take (unat (e820_clip m)) (e_entries mp))"

definition e820_type_name :: "u32 \<Rightarrow> string" where
  "e820_type_name t =
     (if t = 1 then ''usable'' else if t = 2 then ''reserved'' else if t = 3 then ''acpi''
      else if t = 4 then ''nvs'' else ''?'')"

fun e820_rows :: "e820_entry list \<Rightarrow> int \<Rightarrow> vga \<Rightarrow> int \<times> vga" where
  "e820_rows [] row v = (row, v)"
| "e820_rows (e # es) row v =
     (if row < VGA_HEIGHT - 2
      then e820_rows es (row + 1)
             (vga_write_at row 34 (Some (e820_type_name (e_type e)))
               (vga_write_hex64_at row 17 (e_length e)
                 (vga_write_hex64_at row 0 (e_base e) v)))
      else (row, v))"

definition e820_print :: "e820_map option \<Rightarrow> vga \<Rightarrow> int \<times> vga" where
  "e820_print m v =
     e820_rows (e820_seen m) 3
       (vga_write_dec_at 2 4 (e820_clip m) (vga_write_at 2 0 (Some ''mem '') v))"

lemma e820_clip_le: "unat (e820_clip m) \<le> 32"
  by (auto simp: e820_clip_def E820_MAX_def word_less_nat_alt split: option.splits)

lemma e820_seen_length: "length (e820_seen m) \<le> 32"
  using e820_clip_le [of m] by (auto simp: e820_seen_def split: option.splits)

lemma e820_rows_wf:
  "e820_rows es row v = (row', v') \<Longrightarrow> vga_wf v \<Longrightarrow> row \<le> 23 \<Longrightarrow>
   vga_wf v' \<and> row \<le> row' \<and> row' \<le> 23"
proof (induction es row v rule: e820_rows.induct)
  case (2 e es row v)
  then show ?case
    by (auto simp: vga_dims vga_write_at_wf vga_write_hex64_at_wf split: if_splits)
qed simp

lemma e820_print_wf:
  assumes "e820_print m v = (row, v')" and "vga_wf v"
  shows "vga_wf v' \<and> 3 \<le> row \<and> row \<le> 23"
  using assms
  by (auto simp: e820_print_def vga_write_at_wf vga_write_dec_at_wf dest!: e820_rows_wf)

end
