(* ===== verification/Pmm.thy ===== *)
theory Pmm
  imports E820
begin

text \<open>
  The physical page allocator of \<open>kernel/pmm.c\<close>: a bitmap with one bit per 4 KiB
  frame (set = used), a running count of free frames and a reserved prefix. The four
  static counters are fields of the record \<open>pmm\<close>; \<open>bits\<close> is the byte array at
  \<open>bitmap_phys\<close>. Frame numbers, addresses and counters are 64-bit words and wrap as in C.
  The abstraction \<open>free_frames\<close> is the set of free frame numbers; the invariant
  \<open>pmm_inv\<close> ties it to the counter, to the array's length and to the reserved prefix.
\<close>

section \<open>State and operations\<close>

abbreviation PAGE_SIZE :: u64 where "PAGE_SIZE \<equiv> 0x1000"
definition KERNEL_PHYS :: u64 where "KERNEL_PHYS = 0x100000"
definition KERNEL_SIZE :: u64 where "KERNEL_SIZE = 304 * 512"
definition IDENTITY_END :: u64 where "IDENTITY_END = 0x200000"

record pmm =
  bitmap_phys :: u64
  frame_count :: u64
  free_count :: u64
  reserved_end :: u64
  bits :: "u8 list"

definition pmm_byte :: "u64 \<Rightarrow> nat" where
  "pmm_byte frame = unat (drop_bit 3 frame)"

definition pmm_bit :: "u64 \<Rightarrow> u8" where
  "pmm_bit frame = push_bit (unat (frame AND 7)) 1"

definition pmm_mark_used :: "u64 \<Rightarrow> pmm \<Rightarrow> pmm" where
  "pmm_mark_used frame s =
     (if frame_count s \<le> frame \<or> bitmap_phys s = 0 then s
      else let byte = pmm_byte frame; m = pmm_bit frame in
        if bits s ! byte AND m = 0
        then s\<lparr>bits := (bits s)[byte := bits s ! byte OR m], free_count := free_count s - 1\<rparr>
        else s)"

definition pmm_mark_free :: "u64 \<Rightarrow> pmm \<Rightarrow> pmm" where
  "pmm_mark_free frame s =
     (if frame_count s \<le> frame \<or> bitmap_phys s = 0 then s
      else let byte = pmm_byte frame; m = pmm_bit frame in
        if bits s ! byte AND m \<noteq> 0
        then s\<lparr>bits := (bits s)[byte := bits s ! byte AND NOT m], free_count := free_count s + 1\<rparr>
        else s)"

text \<open>
  The page loops \<open>while (start < end) { \<dots>; start += PAGE_SIZE; }\<close>. The inner test only
  makes the recursion well-founded: it is taken when \<open>start + PAGE_SIZE\<close> wraps, which
  \<open>for_pages_unfold\<close> excludes for the page-aligned bounds both callers pass.
\<close>

function for_pages :: "(u64 \<Rightarrow> 's \<Rightarrow> 's) \<Rightarrow> u64 \<Rightarrow> u64 \<Rightarrow> 's \<Rightarrow> 's" where
  "for_pages f start end s =
     (if start < end
      then (if start + PAGE_SIZE < start then f start s
            else for_pages f (start + PAGE_SIZE) end (f start s))
      else s)"
  by pat_completeness auto
termination
proof (relation "measure (\<lambda>(f, start, end, s). unat end - unat start)")
  fix f :: "u64 \<Rightarrow> 's \<Rightarrow> 's" and start "end" :: u64 and s :: 's
  assume "start < end" "\<not> start + PAGE_SIZE < start"
  then have "unat start < unat end" "unat (start + PAGE_SIZE) = unat start + 4096"
    using unat_plus_simple [of start PAGE_SIZE] by (auto simp: not_less unat_mono)
  then show "((f, start + PAGE_SIZE, end, f start s), f, start, end, s)
      \<in> measure (\<lambda>(f, start, end, s). unat end - unat start)" by simp
qed simp

definition pmm_mark_region_free :: "u64 \<Rightarrow> u64 \<Rightarrow> pmm \<Rightarrow> pmm" where
  "pmm_mark_region_free base len s =
     (if len = 0 then s
      else let end = base + len in
        if end < base then s
        else for_pages (\<lambda>start. pmm_mark_free (drop_bit 12 start))
               (align_up base PAGE_SIZE) (align_down end PAGE_SIZE) s)"

fun max_usable :: "e820_entry list \<Rightarrow> u64 \<Rightarrow> u64" where
  "max_usable [] max_phys = max_phys"
| "max_usable (e # es) max_phys =
     (if e_type e \<noteq> E820_TYPE_USABLE \<or> e_length e = 0 then max_usable es max_phys
      else let end = e_base e + e_length e in
        if end < e_base e then max_usable es max_phys
        else max_usable es (if max_phys < end then end else max_phys))"

definition pmm_free_usable :: "e820_entry list \<Rightarrow> pmm \<Rightarrow> pmm" where
  "pmm_free_usable es s =
     fold (\<lambda>e s. if e_type e = E820_TYPE_USABLE
                 then pmm_mark_region_free (e_base e) (e_length e) s else s) es s"

definition pmm_init :: "e820_map option \<Rightarrow> pmm" where
  "pmm_init m =
     (let zero = \<lparr>bitmap_phys = 0, frame_count = 0, free_count = 0, reserved_end = 0, bits = []\<rparr>;
          es = e820_seen m;
          max_phys = max_usable es 0;
          bm = align_up (KERNEL_PHYS + KERNEL_SIZE) PAGE_SIZE in
      if IDENTITY_END \<le> bm then zero
      else let room_frames = push_bit 3 (IDENTITY_END - bm);
               fc0 = drop_bit 12 max_phys;
               fc = (if room_frames < fc0 then room_frames else fc0) in
        if fc = 0 then zero
        else let bitmap_bytes = drop_bit 3 (fc + 7) in
          if IDENTITY_END < bm + bitmap_bytes then zero
          else let s0 = zero\<lparr>bitmap_phys := bm, frame_count := fc,
                             bits := replicate (unat bitmap_bytes) 0xFF\<rparr>;
                   s1 = pmm_free_usable es s0;
                   res = align_up (bm + bitmap_bytes) PAGE_SIZE;
                   s2 = s1\<lparr>reserved_end := res\<rparr>
               in for_pages (\<lambda>addr. pmm_mark_used (drop_bit 12 addr)) 0 res s2)"

function pmm_scan :: "pmm \<Rightarrow> u64 \<Rightarrow> u64 option" where
  "pmm_scan s frame =
     (if frame < frame_count s
      then (if bits s ! pmm_byte frame AND pmm_bit frame = 0 then Some frame
            else pmm_scan s (frame + 1))
      else None)"
  by pat_completeness auto
termination
  by (relation "measure (\<lambda>(s, frame). unat (frame_count s) - unat frame)")
     (auto simp: unat_Suc_less word_less_nat_alt)

definition pmm_alloc_frame :: "u64 \<Rightarrow> pmm \<Rightarrow> u64 \<times> pmm" where
  "pmm_alloc_frame start_frame s =
     (if bitmap_phys s = 0 then (0, s)
      else case pmm_scan s start_frame of
             None \<Rightarrow> (0, s)
           | Some frame \<Rightarrow> (push_bit 12 frame, pmm_mark_used frame s))"

definition pmm_alloc :: "pmm \<Rightarrow> u64 \<times> pmm" where
  "pmm_alloc s = pmm_alloc_frame 0 s"

definition pmm_alloc_above :: "u64 \<Rightarrow> pmm \<Rightarrow> u64 \<times> pmm" where
  "pmm_alloc_above min_phys s = pmm_alloc_frame (drop_bit 12 (align_up min_phys PAGE_SIZE)) s"

text \<open>The inner loop of \<open>pmm_alloc_span\<close> stops at the first used frame of the run.\<close>

definition span_clear :: "pmm \<Rightarrow> u64 \<Rightarrow> u64 \<Rightarrow> bool" where
  "span_clear s frame pages =
     list_all (\<lambda>i. bits s ! pmm_byte (frame + of_nat i) AND pmm_bit (frame + of_nat i) = 0)
       [0..<unat pages]"

text \<open>The conjuncts \<open>pages \<noteq> 0\<close> and \<open>pages \<le> frame_count\<close> repeat the caller's guard.\<close>

function span_scan :: "pmm \<Rightarrow> u64 \<Rightarrow> u64 \<Rightarrow> u64 option" where
  "span_scan s pages frame =
     (if pages \<noteq> 0 \<and> pages \<le> frame_count s \<and> frame \<le> frame_count s - pages
      then (if span_clear s frame pages then Some frame else span_scan s pages (frame + 1))
      else None)"
  by pat_completeness auto
termination
proof (relation "measure (\<lambda>(s, pages, frame). unat (frame_count s) - unat frame)")
  fix s :: pmm and pages frame :: u64
  assume a: "pages \<noteq> 0 \<and> pages \<le> frame_count s \<and> frame \<le> frame_count s - pages"
  then have "0 < unat pages" "unat pages \<le> unat (frame_count s)"
    "unat frame \<le> unat (frame_count s) - unat pages"
    using unat_sub [of pages "frame_count s"] by (auto simp: word_le_nat_alt unat_gt_0)
  then have "frame < frame_count s" by (simp add: word_less_nat_alt)
  then show "((s, pages, frame + 1), s, pages, frame)
      \<in> measure (\<lambda>(s, pages, frame). unat (frame_count s) - unat frame)"
    by (auto simp: unat_Suc_less word_less_nat_alt)
qed simp

definition pmm_alloc_span :: "u64 \<Rightarrow> pmm \<Rightarrow> u64 \<times> pmm" where
  "pmm_alloc_span pages s =
     (if bitmap_phys s = 0 \<or> pages = 0 \<or> frame_count s < pages then (0, s)
      else let start = drop_bit 12 (align_up IDENTITY_END PAGE_SIZE) in
        if frame_count s \<le> start then (0, s)
        else case span_scan s pages start of
               None \<Rightarrow> (0, s)
             | Some frame \<Rightarrow>
                 (push_bit 12 frame,
                  fold (\<lambda>i. pmm_mark_used (frame + of_nat i)) [0..<unat pages] s))"

definition pmm_free :: "u64 \<Rightarrow> pmm \<Rightarrow> pmm" where
  "pmm_free phys s =
     (if phys < reserved_end s \<or> phys AND (PAGE_SIZE - 1) \<noteq> 0 then s
      else pmm_mark_free (drop_bit 12 phys) s)"

definition pmm_free_count :: "pmm \<Rightarrow> u64" where
  "pmm_free_count s = free_count s"

definition pmm_print :: "int \<Rightarrow> pmm \<Rightarrow> vga \<Rightarrow> int \<times> pmm \<times> vga" where
  "pmm_print row s v =
     (if VGA_HEIGHT - 2 \<le> row then (row, s, v)
      else let v1 = vga_write_dec_at row 4 (ucast (free_count s)) (vga_write_at row 0 (Some ''pmm '') v);
               row1 = row + 1;
               (a, s1) = pmm_alloc s;
               (b, s2) = pmm_alloc s1;
               (c, s3) = pmm_alloc s2;
               v2 = vga_write_hex64_at row1 34 c (vga_write_hex64_at row1 17 b
                      (vga_write_hex64_at row1 0 a v1))
           in (row1 + 1, pmm_free c (pmm_free b (pmm_free a s3)), v2))"

declare for_pages.simps [simp del] pmm_scan.simps [simp del] span_scan.simps [simp del]

section \<open>The free set and the invariant\<close>

definition frame_bit :: "pmm \<Rightarrow> nat \<Rightarrow> bool" where
  "frame_bit s n \<longleftrightarrow> bit (bits s ! (n div 8)) (n mod 8)"

definition free_frames :: "pmm \<Rightarrow> nat set" where
  "free_frames s = {n. n < unat (frame_count s) \<and> \<not> frame_bit s n}"

definition pmm_wf :: "pmm \<Rightarrow> bool" where
  "pmm_wf s \<longleftrightarrow>
     (bitmap_phys s = 0 \<longrightarrow> frame_count s = 0) \<and>
     unat (frame_count s) \<le> 0x6D0000 \<and>
     length (bits s) = (unat (frame_count s) + 7) div 8 \<and>
     unat (free_count s) = card (free_frames s)"

definition pmm_inv :: "pmm \<Rightarrow> bool" where
  "pmm_inv s \<longleftrightarrow> pmm_wf s \<and>
     (frame_count s \<noteq> 0 \<longrightarrow> 0 < reserved_end s) \<and>
     (\<forall>n \<in> free_frames s. unat (reserved_end s) \<le> n * 4096)"

lemma pmm_byte_nat [word_nat]: "pmm_byte frame = unat frame div 8"
  by (simp add: pmm_byte_def word_nat)

lemma pmm_bit_nat [word_nat]: "pmm_bit frame = 2 ^ (unat frame mod 8)"
  by (simp add: pmm_bit_def word_nat)

lemma bit_test: "k < 8 \<Longrightarrow> (b::u8) AND 2 ^ k = 0 \<longleftrightarrow> \<not> bit b k"
  using bit_iff_and_push_bit_not_eq_0 [of b k] by auto

lemma bit_set_iff: "k < 8 \<Longrightarrow> bit ((b::u8) OR 2 ^ k) j \<longleftrightarrow> bit b j \<or> j = k"
  by (auto simp: bit_simps)

lemma bit_clear_iff: "k < 8 \<Longrightarrow> bit ((b::u8) AND NOT (2 ^ k)) j \<longleftrightarrow> bit b j \<and> j \<noteq> k"
  by (auto simp: bit_simps dest: bit_imp_le_length)

lemma pmm_test: "bits s ! pmm_byte f AND pmm_bit f = 0 \<longleftrightarrow> \<not> frame_bit s (unat f)"
  by (simp add: frame_bit_def word_nat bit_test)

lemma div_mod_8_eq: "(n::nat) div 8 = m div 8 \<Longrightarrow> n mod 8 = m mod 8 \<Longrightarrow> n = m"
  by (metis div_mult_mod_eq)

lemma free_frames_finite [simp]: "finite (free_frames s)"
  by (simp add: free_frames_def)

lemma free_frames_bound: "n \<in> free_frames s \<Longrightarrow> n < unat (frame_count s)"
  by (simp add: free_frames_def)

lemma free_frames_reserved [simp]: "free_frames (s\<lparr>reserved_end := r\<rparr>) = free_frames s"
  by (simp add: free_frames_def frame_bit_def)

lemma pmm_wf_reserved [simp]: "pmm_wf (s\<lparr>reserved_end := r\<rparr>) = pmm_wf s"
  by (simp add: pmm_wf_def)

lemma pmm_mark_frame [simp]:
  "frame_count (pmm_mark_used f s) = frame_count s" "bitmap_phys (pmm_mark_used f s) = bitmap_phys s"
  "reserved_end (pmm_mark_used f s) = reserved_end s"
  "frame_count (pmm_mark_free f s) = frame_count s" "bitmap_phys (pmm_mark_free f s) = bitmap_phys s"
  "reserved_end (pmm_mark_free f s) = reserved_end s"
  by (simp_all add: pmm_mark_used_def pmm_mark_free_def Let_def)

lemma byte_in_range:
  "pmm_wf s \<Longrightarrow> unat f < unat (frame_count s) \<Longrightarrow> pmm_byte f < length (bits s)"
  by (auto simp: pmm_wf_def word_nat)

lemma card_free_bound: "card (free_frames s) \<le> unat (frame_count s)"
  using card_mono [of "{..<unat (frame_count s)}" "free_frames s"]
  by (auto simp: free_frames_def)

lemma free_frames_used:
  assumes "pmm_wf s"
  shows "free_frames (pmm_mark_used f s) = free_frames s - {unat f}"
proof (cases "frame_count s \<le> f \<or> bitmap_phys s = 0")
  case True
  with assms show ?thesis
    by (auto simp: pmm_mark_used_def pmm_wf_def free_frames_def word_le_nat_alt)
next
  case False
  then have f: "unat f < unat (frame_count s)" by (simp add: word_le_nat_alt)
  have "n div 8 < length (bits s)" if "n < unat (frame_count s)" for n
    using assms that by (auto simp: pmm_wf_def)
  with False f show ?thesis
    by (auto simp: pmm_mark_used_def Let_def pmm_test free_frames_def frame_bit_def
        word_nat nth_list_update bit_test bit_set_iff dest: div_mod_8_eq)
qed

lemma free_frames_free:
  assumes "pmm_wf s"
  shows "free_frames (pmm_mark_free f s) =
    (if unat f < unat (frame_count s) then insert (unat f) (free_frames s) else free_frames s)"
proof (cases "frame_count s \<le> f \<or> bitmap_phys s = 0")
  case True
  with assms show ?thesis
    by (auto simp: pmm_mark_free_def pmm_wf_def word_le_nat_alt)
next
  case False
  then have f: "unat f < unat (frame_count s)" by (simp add: word_le_nat_alt)
  have "n div 8 < length (bits s)" if "n < unat (frame_count s)" for n
    using assms that by (auto simp: pmm_wf_def)
  with False f show ?thesis
    by (auto simp: pmm_mark_free_def Let_def pmm_test free_frames_def frame_bit_def
        word_nat nth_list_update bit_test bit_clear_iff dest: div_mod_8_eq)
qed

lemma free_count_used:
  "free_count (pmm_mark_used f s) =
     (if unat f \<in> free_frames s \<and> bitmap_phys s \<noteq> 0 then free_count s - 1 else free_count s)"
  by (auto simp: pmm_mark_used_def Let_def pmm_test free_frames_def word_le_nat_alt)

lemma free_count_free:
  "free_count (pmm_mark_free f s) =
     (if unat f < unat (frame_count s) \<and> unat f \<notin> free_frames s \<and> bitmap_phys s \<noteq> 0
      then free_count s + 1 else free_count s)"
  by (auto simp: pmm_mark_free_def Let_def pmm_test free_frames_def word_le_nat_alt)

lemma length_bits_mark [simp]:
  "length (bits (pmm_mark_used f s)) = length (bits s)"
  "length (bits (pmm_mark_free f s)) = length (bits s)"
  by (simp_all add: pmm_mark_used_def pmm_mark_free_def Let_def)

lemma free_nonempty_bitmap: "pmm_wf s \<Longrightarrow> n \<in> free_frames s \<Longrightarrow> bitmap_phys s \<noteq> 0"
  by (auto simp: pmm_wf_def free_frames_def)

lemma pmm_wf_used:
  assumes "pmm_wf s" shows "pmm_wf (pmm_mark_used f s)"
proof (cases "unat f \<in> free_frames s")
  case True
  then have "0 < card (free_frames s)" by (auto simp: card_gt_0_iff)
  then have "1 \<le> free_count s" using assms by (simp add: pmm_wf_def word_le_nat_alt)
  then have "unat (free_count s - 1) = unat (free_count s) - 1" by (simp add: unat_sub)
  with True assms free_nonempty_bitmap [OF assms True] show ?thesis
    by (simp add: pmm_wf_def free_count_used free_frames_used)
qed (use assms in \<open>auto simp: pmm_wf_def free_count_used free_frames_used\<close>)

lemma pmm_wf_free:
  assumes "pmm_wf s" shows "pmm_wf (pmm_mark_free f s)"
proof (cases "unat f < unat (frame_count s) \<and> unat f \<notin> free_frames s")
  case True
  have "unat (free_count s) \<le> 0x6D0000"
    using assms card_free_bound [of s] by (simp add: pmm_wf_def)
  then have "unat (free_count s + 1) = unat (free_count s) + 1"
    by (simp add: unat_word_ariths)
  moreover have "bitmap_phys s \<noteq> 0" using True assms by (auto simp: pmm_wf_def)
  ultimately show ?thesis using True assms
    by (auto simp: pmm_wf_def free_count_free free_frames_free)
qed (use assms in \<open>auto simp: pmm_wf_def free_count_free free_frames_free insert_absorb\<close>)

section \<open>Page loops\<close>

lemma aligned_step:
  assumes "start < end" "unat start mod 4096 = 0" "unat end mod 4096 = 0"
  shows "unat (start + PAGE_SIZE) = unat start + 4096" "\<not> start + PAGE_SIZE < start"
proof -
  have lt: "unat start < unat end" using assms(1) by (simp add: word_less_nat_alt)
  have "unat end < 2 ^ 64" by (rule order_less_le_trans [OF unsigned_less]) simp
  moreover obtain a b where "unat start = 4096 * a" "unat end = 4096 * b"
    using assms(2,3) by (auto elim!: dvdE simp: mod_eq_0_iff_dvd)
  moreover have "unat start + 4096 \<le> unat end" using lt calculation by simp
  ultimately have "unat start + 4096 < 2 ^ 64" by linarith
  then show u: "unat (start + PAGE_SIZE) = unat start + 4096" by (simp add: unat_word_ariths)
  show "\<not> start + PAGE_SIZE < start" by (simp add: word_less_nat_alt u)
qed

text \<open>The C loop equation, for the page-aligned bounds of both callers.\<close>

lemma for_pages_unfold:
  assumes "unat start mod 4096 = 0" "unat end mod 4096 = 0"
  shows "for_pages f start end s =
    (if start < end then for_pages f (start + PAGE_SIZE) end (f start s) else s)"
  using assms aligned_step(2) [of start "end"] by (simp add: for_pages.simps [of f start])

lemma for_pages_fold:
  assumes "unat start mod 4096 = 0" "unat end mod 4096 = 0"
  shows "for_pages f start end s =
    fold (\<lambda>k. f (of_nat (k * 4096))) [unat start div 4096..<unat end div 4096] s"
  using assms
proof (induction f start "end" s rule: for_pages.induct)
  case (1 f start "end" s)
  show ?case
  proof (cases "start < end")
    case True
    note step = aligned_step [OF True "1.prems"]
    have eq: "unat (start + PAGE_SIZE) div 4096 = Suc (unat start div 4096)"
      using step(1) by simp
    have lt: "unat start div 4096 < unat end div 4096"
      using True "1.prems" by (auto elim!: dvdE simp: mod_eq_0_iff_dvd word_less_nat_alt)
    have "unat start div 4096 * 4096 = unat start" using "1.prems"(1) by auto
    then have st: "of_nat (unat start div 4096 * 4096) = start" by (simp only: word_of_unat)
    have "for_pages f start end s = for_pages f (start + PAGE_SIZE) end (f start s)"
      using True "1.prems" by (simp add: for_pages_unfold)
    also have "\<dots> = fold (\<lambda>k. f (of_nat (k * 4096)))
        [unat (start + PAGE_SIZE) div 4096..<unat end div 4096] (f start s)"
      using "1.IH" True step "1.prems" by simp
    also have "\<dots> = fold (\<lambda>k. f (of_nat (k * 4096))) [unat start div 4096..<unat end div 4096] s"
      using lt st by (simp only: eq upt_conv_Cons) simp
    finally show ?thesis .
  next
    case False
    then have "unat end div 4096 \<le> unat start div 4096"
      by (simp add: div_le_mono word_less_nat_alt)
    with False show ?thesis by (simp add: for_pages.simps)
  qed
qed

lemma unat_frame_of_page:
  assumes "k * 4096 < 2 ^ 64"
  shows "unat (drop_bit 12 (of_nat (k * 4096) :: u64)) = k"
proof -
  have "unat (of_nat (k * 4096) :: u64) = k * 4096"
    using assms by (subst unat_of_nat) (simp add: mod_less)
  then show ?thesis by (simp only: unat_drop_12)
qed

text \<open>Marking the frames \<open>a..<b\<close> in turn, for any list of words that names them.\<close>

lemma fold_mark_free:
  assumes "pmm_wf s" "\<And>k. k < b \<Longrightarrow> unat (g k) = k"
  shows "pmm_wf (fold (\<lambda>k. pmm_mark_free (g k)) [a..<b] s) \<and>
    frame_count (fold (\<lambda>k. pmm_mark_free (g k)) [a..<b] s) = frame_count s \<and>
    bitmap_phys (fold (\<lambda>k. pmm_mark_free (g k)) [a..<b] s) = bitmap_phys s \<and>
    free_frames (fold (\<lambda>k. pmm_mark_free (g k)) [a..<b] s) =
      free_frames s \<union> ({a..<b} \<inter> {..<unat (frame_count s)})"
  using assms(2)
proof (induction b)
  case (Suc b)
  have "unat (g b) = b" using Suc.prems by simp
  then show ?case using assms(1) Suc.IH Suc.prems
    by (cases "a \<le> b") (auto simp: pmm_wf_free free_frames_free)
qed (use assms(1) in simp)

lemma fold_mark_used:
  assumes "pmm_wf s" "\<And>k. k < b \<Longrightarrow> unat (g k) = k"
  shows "pmm_wf (fold (\<lambda>k. pmm_mark_used (g k)) [a..<b] s) \<and>
    frame_count (fold (\<lambda>k. pmm_mark_used (g k)) [a..<b] s) = frame_count s \<and>
    reserved_end (fold (\<lambda>k. pmm_mark_used (g k)) [a..<b] s) = reserved_end s \<and>
    free_frames (fold (\<lambda>k. pmm_mark_used (g k)) [a..<b] s) = free_frames s - {a..<b}"
  using assms(2)
proof (induction b)
  case (Suc b)
  have "unat (g b) = b" using Suc.prems by simp
  then show ?case using assms(1) Suc.IH Suc.prems
    by (cases "a \<le> b") (auto simp: pmm_wf_used free_frames_used)
qed (use assms(1) in simp)

section \<open>Regions of the memory map\<close>

text \<open>Frame \<open>n\<close> lies wholly inside the usable region of the entry.\<close>

definition page_inside :: "e820_entry \<Rightarrow> nat \<Rightarrow> bool" where
  "page_inside e n \<longleftrightarrow> e_type e = E820_TYPE_USABLE \<and> unat (e_base e) \<le> n * 4096 \<and>
     (n + 1) * 4096 \<le> unat (e_base e) + unat (e_length e) \<and>
     unat (e_base e) + unat (e_length e) < 2 ^ 64"

definition entry_sane :: "e820_entry \<Rightarrow> bool" where
  "entry_sane e \<longleftrightarrow> e_type e = E820_TYPE_USABLE \<longrightarrow> unat (e_base e) + 4095 < 2 ^ 64"

lemma align_up_page:
  "unat v + 4095 < 2 ^ 64 \<Longrightarrow> unat (align_up v PAGE_SIZE) = (unat v + 4095) div 4096 * 4096"
  using align_up_pow2 [of v 12] by simp

lemma align_down_page: "unat (align_down v PAGE_SIZE) = unat v div 4096 * 4096"
  using align_down_pow2 [of v 12] by (simp add: align_down_def)

lemma align_up_page_mod: "unat (align_up v PAGE_SIZE) mod 4096 = 0"
  using align_down_pow2 [of "v + PAGE_SIZE - 1" 12] by (simp add: align_up_def)

lemma pages_between:
  "n \<in> {(b + 4095) div 4096..<e div 4096} \<longleftrightarrow> b \<le> n * 4096 \<and> (n + 1) * 4096 \<le> (e::nat)"
  by auto

lemma page_index_word: "k < b \<Longrightarrow> b * 4096 \<le> unat (e::u64) \<Longrightarrow>
   unat (drop_bit 12 (of_nat (k * 4096) :: u64)) = k"
proof -
  assume "k < b" "b * 4096 \<le> unat e"
  then have "k * 4096 < unat e" by simp
  also have "unat e < 2 ^ 64" by (rule order_less_le_trans [OF unsigned_less]) simp
  finally show ?thesis by (rule unat_frame_of_page)
qed

lemma region_free_spec:
  fixes base len :: u64
  assumes "pmm_wf s" and "unat base + 4095 < 2 ^ 64"
  defines "s' \<equiv> pmm_mark_region_free base len s"
  shows "pmm_wf s' \<and> frame_count s' = frame_count s \<and> bitmap_phys s' = bitmap_phys s \<and>
    free_frames s' = free_frames s \<union>
      {n. n < unat (frame_count s) \<and> unat base \<le> n * 4096 \<and>
          (n + 1) * 4096 \<le> unat base + unat len \<and> unat base + unat len < 2 ^ 64}"
proof (cases "len = 0 \<or> base + len < base")
  case True
  then have "{n. n < unat (frame_count s) \<and> unat base \<le> n * 4096 \<and>
      (n + 1) * 4096 \<le> unat base + unat len \<and> unat base + unat len < 2 ^ 64} = {}"
    by (auto simp: word_less_nat_alt unat_word_ariths)
  with True assms(1) show ?thesis by (auto simp: s'_def pmm_mark_region_free_def Let_def)
next
  case False
  then have "base \<le> base + len" by (simp add: not_less)
  then have u: "unat (base + len) = unat base + unat len" by (simp only: unat_plus_simple)
  have lt: "unat base + unat len < 2 ^ 64"
    using unat_bound [of "base + len"] by (simp add: u)
  let ?a = "(unat base + 4095) div 4096" and ?b = "(unat base + unat len) div 4096"
  let ?g = "\<lambda>k. drop_bit 12 (of_nat (k * 4096) :: u64)"
  have s': "s' = fold (\<lambda>k. pmm_mark_free (?g k)) [?a..<?b] s"
    using False assms(2)
    by (simp add: s'_def pmm_mark_region_free_def Let_def for_pages_fold align_up_page_mod
        align_up_page align_down_page u)
  have "\<And>k. k < ?b \<Longrightarrow> unat (?g k) = k"
    using page_index_word [of _ ?b "base + len"] by (simp add: u del: of_nat_mult)
  from fold_mark_free [OF assms(1) this, of _ ?a] have
    "pmm_wf s' \<and> frame_count s' = frame_count s \<and> bitmap_phys s' = bitmap_phys s \<and>
     free_frames s' = free_frames s \<union> ({?a..<?b} \<inter> {..<unat (frame_count s)})"
    by (simp only: s')
  moreover have "{?a..<?b} \<inter> {..<unat (frame_count s)} =
     {n. n < unat (frame_count s) \<and> unat base \<le> n * 4096 \<and> (n + 1) * 4096 \<le> unat base + unat len
        \<and> unat base + unat len < 2 ^ 64}"
    using lt by (simp only: set_eq_iff Int_iff pages_between lessThan_iff mem_Collect_eq) blast
  ultimately show ?thesis by simp
qed

lemma free_usable_spec:
  assumes "pmm_wf s" and "\<forall>e \<in> set es. entry_sane e"
  shows "pmm_wf (pmm_free_usable es s) \<and> frame_count (pmm_free_usable es s) = frame_count s \<and>
    bitmap_phys (pmm_free_usable es s) = bitmap_phys s \<and>
    free_frames (pmm_free_usable es s) = free_frames s \<union>
      {n. n < unat (frame_count s) \<and> (\<exists>e \<in> set es. page_inside e n)}"
  using assms
proof (induction es arbitrary: s)
  case Nil
  then show ?case by (simp add: pmm_free_usable_def)
next
  case (Cons e es)
  define s1 where "s1 = (if e_type e = E820_TYPE_USABLE
    then pmm_mark_region_free (e_base e) (e_length e) s else s)"
  have s1: "pmm_wf s1 \<and> frame_count s1 = frame_count s \<and> bitmap_phys s1 = bitmap_phys s \<and>
    free_frames s1 = free_frames s \<union> {n. n < unat (frame_count s) \<and> page_inside e n}"
    using Cons.prems region_free_spec [of s "e_base e" "e_length e"]
    by (auto simp: s1_def entry_sane_def page_inside_def)
  have "pmm_free_usable (e # es) s = pmm_free_usable es s1"
    by (simp add: pmm_free_usable_def s1_def)
  with s1 Cons.IH [of s1] Cons.prems(2) show ?case by auto
qed

lemma max_usable_bound: "unat m \<le> unat (max_usable es m)"
proof (induction es m rule: max_usable.induct)
  case (2 e es m)
  then show ?case by (auto simp: Let_def word_less_nat_alt split: if_splits)
qed simp

lemma kernel_end: "align_up (KERNEL_PHYS + KERNEL_SIZE) PAGE_SIZE = 0x126000"
  by (simp add: align_up_def KERNEL_PHYS_def KERNEL_SIZE_def)

lemma bit_FF: "k < 8 \<Longrightarrow> bit (0xFF :: int) k"
proof -
  assume "k < 8"
  moreover have "(0xFF :: int) = mask 8" by (simp add: mask_eq_exp_minus_1)
  ultimately show ?thesis by (simp only: bit_mask_iff) simp
qed

definition pmm_frames :: "e820_map option \<Rightarrow> u64" where
  "pmm_frames m = (let fc0 = drop_bit 12 (max_usable (e820_seen m) 0) in
     if 0x6D0000 < fc0 then 0x6D0000 else fc0)"

lemma pmm_frames_le: "unat (pmm_frames m) \<le> 0x6D0000"
  by (auto simp: pmm_frames_def Let_def word_less_nat_alt)

definition pmm_bitmap_end :: "u64 \<Rightarrow> u64" where
  "pmm_bitmap_end fc = 0x126000 + drop_bit 3 (fc + 7)"

lemma bitmap_end_nat:
  "unat fc \<le> 0x6D0000 \<Longrightarrow> unat (drop_bit 3 (fc + 7)) = (unat fc + 7) div 8 \<and>
   unat (pmm_bitmap_end fc) = 0x126000 + (unat fc + 7) div 8"
proof -
  assume fc: "unat fc \<le> 0x6D0000"
  then have a: "unat (drop_bit 3 (fc + 7)) = (unat fc + 7) div 8"
    by (simp add: unat_drop_3 unat_word_ariths)
  have "(unat fc + 7) div 8 \<le> 0xDA000" using fc by simp
  then have "unat (0x126000 + drop_bit 3 (fc + 7)) = 0x126000 + (unat fc + 7) div 8"
    by (subst unat_add_lt) (simp_all add: a)
  with a show ?thesis by (simp add: pmm_bitmap_end_def)
qed

lemma pmm_init_eq:
  "pmm_init m =
     (if pmm_frames m = 0
      then \<lparr>bitmap_phys = 0, frame_count = 0, free_count = 0, reserved_end = 0, bits = []\<rparr>
      else for_pages (\<lambda>addr. pmm_mark_used (drop_bit 12 addr)) 0
             (align_up (pmm_bitmap_end (pmm_frames m)) PAGE_SIZE)
             ((pmm_free_usable (e820_seen m)
                \<lparr>bitmap_phys = 0x126000, frame_count = pmm_frames m, free_count = 0,
                 reserved_end = 0,
                 bits = replicate (unat (drop_bit 3 (pmm_frames m + 7))) 0xFF\<rparr>)
              \<lparr>reserved_end := align_up (pmm_bitmap_end (pmm_frames m)) PAGE_SIZE\<rparr>))"
proof -
  have room: "push_bit 3 (IDENTITY_END - 0x126000) = 0x6D0000"
    by (simp add: IDENTITY_END_def push_bit_eq_mult)
  have "unat (pmm_bitmap_end (pmm_frames m)) \<le> 0x200000"
    using pmm_frames_le [of m] bitmap_end_nat [of "pmm_frames m"] by simp
  then have "\<not> IDENTITY_END < 0x126000 + drop_bit 3 (pmm_frames m + 7)"
    by (simp add: IDENTITY_END_def word_less_nat_alt pmm_bitmap_end_def)
  then show ?thesis
    unfolding pmm_init_def kernel_end room Let_def pmm_frames_def [symmetric, unfolded Let_def]
    by (simp add: IDENTITY_END_def pmm_bitmap_end_def)
qed

lemma pmm_init_spec:
  assumes "\<forall>e \<in> set (e820_seen m). entry_sane e"
  shows "pmm_inv (pmm_init m) \<and> frame_count (pmm_init m) = pmm_frames m \<and>
    free_frames (pmm_init m) =
      {n. n < unat (pmm_frames m) \<and> (\<exists>e \<in> set (e820_seen m). page_inside e n) \<and>
          unat (reserved_end (pmm_init m)) \<le> n * 4096}"
proof (cases "pmm_frames m = 0")
  case True
  then show ?thesis
    by (simp add: pmm_init_eq pmm_inv_def pmm_wf_def free_frames_def)
next
  case False
  let ?fc = "pmm_frames m"
  let ?res = "align_up (pmm_bitmap_end ?fc) PAGE_SIZE"
  define s0 where "s0 = \<lparr>bitmap_phys = 0x126000, frame_count = ?fc, free_count = 0,
    reserved_end = 0, bits = replicate (unat (drop_bit 3 (?fc + 7))) (0xFF::u8)\<rparr>"
  note be = bitmap_end_nat [OF pmm_frames_le [of m]]
  have ff0: "free_frames s0 = {}"
    using be by (auto simp: free_frames_def frame_bit_def s0_def intro!: bit_FF)
  then have "pmm_wf s0" using be pmm_frames_le [of m] by (simp add: pmm_wf_def s0_def)
  then have s1: "pmm_wf (pmm_free_usable (e820_seen m) s0) \<and>
    frame_count (pmm_free_usable (e820_seen m) s0) = ?fc \<and>
    free_frames (pmm_free_usable (e820_seen m) s0) =
      {n. n < unat ?fc \<and> (\<exists>e \<in> set (e820_seen m). page_inside e n)}"
    using free_usable_spec [of s0 "e820_seen m"] assms ff0 by (simp add: s0_def)
  define s2 where "s2 = (pmm_free_usable (e820_seen m) s0)\<lparr>reserved_end := ?res\<rparr>"
  let ?k = "unat ?res div 4096"
  let ?g = "\<lambda>k. drop_bit 12 (of_nat (k * 4096) :: u64)"
  have "pmm_init m = fold (\<lambda>k. pmm_mark_used (?g k)) [0..<?k] s2"
    using False by (simp add: pmm_init_eq for_pages_fold align_up_page_mod s2_def s0_def)
  moreover have "\<And>k. k < ?k \<Longrightarrow> unat (?g k) = k"
    using page_index_word [of _ ?k ?res] by (simp del: of_nat_mult)
  moreover have "pmm_wf s2" using s1 by (simp add: s2_def)
  ultimately have i: "pmm_wf (pmm_init m) \<and> frame_count (pmm_init m) = ?fc \<and>
    reserved_end (pmm_init m) = ?res \<and>
    free_frames (pmm_init m) = {n. n < unat ?fc \<and> (\<exists>e \<in> set (e820_seen m). page_inside e n)} - {0..<?k}"
    using fold_mark_used [of s2 ?k ?g 0] s1 by (simp add: s2_def)
  have res: "unat ?res = ?k * 4096" using align_up_page_mod [of "pmm_bitmap_end ?fc"] by auto
  have "0x126000 \<le> unat ?res"
    using be pmm_frames_le [of m] by (simp add: align_up_page)
  then have "0 < ?res" by (simp add: word_less_nat_alt)
  moreover have "n \<notin> {0..<?k} \<longleftrightarrow> unat ?res \<le> n * 4096" for n using res by auto
  ultimately show ?thesis using i by (auto simp: pmm_inv_def)
qed

section \<open>Allocation\<close>

lemma pmm_scan_Some:
  "pmm_scan s f = Some g \<Longrightarrow> unat f \<le> unat g \<and> unat g \<in> free_frames s \<and>
     (\<forall>n. unat f \<le> n \<and> n < unat g \<longrightarrow> n \<notin> free_frames s)"
proof (induction s f rule: pmm_scan.induct)
  case (1 s f)
  show ?case
  proof (cases "f < frame_count s \<and> frame_bit s (unat f)")
    case True
    with "1" have "unat (f + 1) \<le> unat g \<and> unat g \<in> free_frames s \<and>
      (\<forall>n. unat (f + 1) \<le> n \<and> n < unat g \<longrightarrow> n \<notin> free_frames s)"
      by (simp add: pmm_scan.simps [of s f] pmm_test)
    with True show ?thesis
      by (auto simp: unat_Suc_less free_frames_def le_eq_less_or_eq [of "unat f"] Suc_le_eq)
  next
    case False
    with "1.prems" show ?thesis
      by (auto simp: pmm_scan.simps [of s f] pmm_test free_frames_def word_less_nat_alt
          split: if_splits)
  qed
qed

lemma pmm_scan_None:
  "pmm_scan s f = None \<Longrightarrow> unat f \<le> n \<Longrightarrow> n \<notin> free_frames s"
proof (induction s f rule: pmm_scan.induct)
  case (1 s f)
  show ?case
  proof (cases "f < frame_count s")
    case True
    with "1.prems"(1) have fb: "frame_bit s (unat f)" "pmm_scan s (f + 1) = None"
      by (auto simp: pmm_scan.simps [of s f] pmm_test split: if_splits)
    show ?thesis
    proof (cases "n = unat f")
      case False
      with "1.prems"(2) True have "unat (f + 1) \<le> n" by (simp add: unat_Suc_less)
      with "1.IH" True fb show ?thesis by (simp add: pmm_test)
    qed (use fb in \<open>simp add: free_frames_def\<close>)
  next
    case False
    with "1.prems"(2) show ?thesis by (auto simp: free_frames_def word_less_nat_alt)
  qed
qed

lemma frame_addr:
  "pmm_wf s \<Longrightarrow> n \<in> free_frames s \<Longrightarrow> unat (f::u64) = n \<Longrightarrow> unat (push_bit 12 f) = n * 4096"
  using free_frames_bound [of n s]
  by (subst unat_push_bit_mult) (auto simp: pmm_wf_def)

lemma pmm_inv_wf: "pmm_inv s \<Longrightarrow> pmm_wf s"
  by (simp add: pmm_inv_def)

lemma free_frame_pos:
  assumes "pmm_inv s" "n \<in> free_frames s" shows "0 < n"
proof -
  have "frame_count s \<noteq> 0" using assms(2) by (auto simp: free_frames_def)
  then have "0 < unat (reserved_end s)" "unat (reserved_end s) \<le> n * 4096"
    using assms by (auto simp: pmm_inv_def word_less_nat_alt)
  then show ?thesis by (cases n) auto
qed

lemma pmm_inv_used: "pmm_inv s \<Longrightarrow> pmm_inv (pmm_mark_used f s)"
  by (auto simp: pmm_inv_def pmm_wf_used free_frames_used)

text \<open>
  The functional behaviour of the allocator: it returns the address of the least free
  frame at or after the start and marks exactly that frame, or returns 0 with the state
  unchanged when there is none.
\<close>

lemma pmm_alloc_frame_spec:
  assumes "pmm_inv s" and "pmm_alloc_frame st s = (p, s')"
  shows "pmm_inv s' \<and>
    (if p = 0 then s' = s \<and> (\<forall>n \<in> free_frames s. n < unat st)
     else \<exists>n \<in> free_frames s. unat p = n * 4096 \<and> unat st \<le> n \<and>
        (\<forall>m \<in> free_frames s. unat st \<le> m \<longrightarrow> n \<le> m) \<and> free_frames s' = free_frames s - {n})"
proof (cases "bitmap_phys s = 0 \<or> pmm_scan s st = None")
  case True
  then have "p = 0" "s' = s" using assms(2) by (auto simp: pmm_alloc_frame_def split: if_splits)
  moreover have "\<forall>n \<in> free_frames s. n < unat st"
    using True free_nonempty_bitmap [OF pmm_inv_wf [OF assms(1)]] pmm_scan_None [of s st]
    by (meson not_le_imp_less)
  ultimately show ?thesis using assms(1) by simp
next
  case False
  then obtain g where g: "pmm_scan s st = Some g" "p = push_bit 12 g" "s' = pmm_mark_used g s"
    using assms(2) by (auto simp: pmm_alloc_frame_def)
  note sc = pmm_scan_Some [OF g(1)] and wf = pmm_inv_wf [OF assms(1)]
  have p: "unat p = unat g * 4096" using frame_addr [OF wf] sc g(2) by blast
  moreover have "0 < unat g" using free_frame_pos [OF assms(1)] sc by blast
  ultimately have "p \<noteq> 0" by auto
  moreover have "pmm_inv s'" by (simp add: g(3) pmm_inv_used assms(1))
  ultimately show ?thesis
    using p sc by (auto simp: g(3) free_frames_used [OF wf] not_le_imp_less
        intro!: bexI [of _ "unat g"] leI)
qed

section \<open>Freeing\<close>

lemma page_offset_zero: "(p::u64) AND (PAGE_SIZE - 1) = 0 \<longleftrightarrow> unat p mod 4096 = 0"
  using unat_and_4095 [of p] by (auto simp: unat_eq_0 [symmetric])

lemma pmm_free_spec:
  assumes "pmm_inv s"
  shows "pmm_inv (pmm_free p s) \<and> free_frames (pmm_free p s) =
    (if unat (reserved_end s) \<le> unat p \<and> unat p mod 4096 = 0 \<and> unat p div 4096 < unat (frame_count s)
     then insert (unat p div 4096) (free_frames s) else free_frames s)"
proof (cases "p < reserved_end s \<or> p AND (PAGE_SIZE - 1) \<noteq> 0")
  case True
  then show ?thesis using assms page_offset_zero [of p]
    by (auto simp: pmm_free_def word_less_nat_alt)
next
  case False
  then have p: "unat (reserved_end s) \<le> unat p" "unat p mod 4096 = 0"
    using page_offset_zero [of p] by (auto simp: word_less_nat_alt)
  then have r: "unat (reserved_end s) \<le> unat p div 4096 * 4096" by auto
  have eq: "pmm_free p s = pmm_mark_free (drop_bit 12 p) s" using False by (simp add: pmm_free_def)
  have ff: "free_frames (pmm_free p s) = (if unat p div 4096 < unat (frame_count s)
      then insert (unat p div 4096) (free_frames s) else free_frames s)"
    using assms by (simp only: eq free_frames_free pmm_inv_wf unat_drop_12)
  have "pmm_inv (pmm_free p s)"
    using assms r unfolding pmm_inv_def ff by (simp add: eq pmm_wf_free)
  with ff p show ?thesis by simp
qed

lemma or_and_not_id:
  assumes "(x::u8) AND m = 0" shows "(x OR m) AND NOT m = x"
proof (rule bit_word_eqI)
  fix n assume "n < LENGTH(8)"
  moreover have "\<not> bit (x AND m) n" using assms by simp
  ultimately show "bit ((x OR m) AND NOT m) n \<longleftrightarrow> bit x n"
    by (auto simp: bit_simps)
qed

lemma mark_free_used:
  assumes "pmm_wf s" "unat f \<in> free_frames s"
  shows "pmm_mark_free f (pmm_mark_used f s) = s"
proof -
  have f: "\<not> frame_count s \<le> f" "bitmap_phys s \<noteq> 0" "\<not> frame_bit s (unat f)"
    using assms(2) free_nonempty_bitmap [OF assms]
    by (simp_all add: free_frames_def word_le_nat_alt)
  let ?b = "pmm_byte f" and ?m = "pmm_bit f"
  have z: "bits s ! ?b AND ?m = 0" using f(3) by (simp add: pmm_test)
  have len: "?b < length (bits s)"
    using byte_in_range [OF assms(1)] assms(2) by (simp add: free_frames_def)
  have "(bits s ! ?b OR ?m) AND ?m \<noteq> 0"
    by (subst pmm_bit_nat, subst bit_test) (simp_all add: pmm_bit_nat bit_set_iff)
  with f z len show ?thesis
    by (simp add: pmm_mark_used_def pmm_mark_free_def Let_def or_and_not_id)
qed

lemma pmm_alloc_free:
  assumes "pmm_inv s" "pmm_alloc_frame st s = (p, s')" "p \<noteq> 0"
  shows "pmm_free p s' = s"
proof -
  obtain g where g: "pmm_scan s st = Some g" "p = push_bit 12 g" "s' = pmm_mark_used g s"
    using assms(2,3) by (auto simp: pmm_alloc_frame_def split: if_splits option.splits)
  have gf: "unat g \<in> free_frames s" using pmm_scan_Some [OF g(1)] by simp
  note wf = pmm_inv_wf [OF assms(1)]
  have p: "unat p = unat g * 4096" using frame_addr [OF wf gf] g(2) by simp
  then have "drop_bit 12 p = g" by (intro word_eq_by_unat) (simp only: unat_drop_12)
  moreover have "\<not> p < reserved_end s" using assms(1) gf p by (auto simp: pmm_inv_def word_less_nat_alt)
  moreover have "p AND (PAGE_SIZE - 1) = 0" using p page_offset_zero [of p] by simp
  ultimately show ?thesis
    using mark_free_used [OF wf gf] by (simp add: pmm_free_def g(3))
qed

section \<open>Runs of frames\<close>

lemma span_word:
  assumes "pages \<le> frame_count s" "frame \<le> frame_count s - pages" "i < unat pages"
  shows "unat (frame + of_nat i) = unat frame + i" "unat frame + i < unat (frame_count s)"
proof -
  have "unat frame \<le> unat (frame_count s) - unat pages"
    using assms(1,2) by (simp add: word_le_nat_alt unat_sub)
  moreover have "unat pages \<le> unat (frame_count s)" using assms(1) by (simp add: word_le_nat_alt)
  ultimately show lt: "unat frame + i < unat (frame_count s)" using assms(3) by linarith
  also have "\<dots> < 2 ^ 64" by (rule order_less_le_trans [OF unsigned_less]) simp
  finally have "unat frame + i < 2 ^ 64" .
  then show "unat (frame + of_nat i) = unat frame + i"
    by (simp add: unat_word_ariths unat_of_nat)
qed

lemma span_scan_Some:
  "span_scan s pages fr = Some g \<Longrightarrow> pages \<noteq> 0 \<and> pages \<le> frame_count s \<and>
     g \<le> frame_count s - pages \<and> unat fr \<le> unat g \<and> span_clear s g pages"
proof (induction s pages fr rule: span_scan.induct)
  case (1 s pages fr)
  show ?case
  proof (cases "pages \<noteq> 0 \<and> pages \<le> frame_count s \<and> fr \<le> frame_count s - pages
      \<and> \<not> span_clear s fr pages")
    case True
    then have "fr < frame_count s"
      using span_word(2) [of pages s fr 0] by (simp add: word_less_nat_alt unat_gt_0)
    then have "unat (fr + 1) = Suc (unat fr)" by (rule unat_Suc_less)
    with True "1" show ?thesis by (simp add: span_scan.simps [of s pages fr])
  next
    case False
    with "1.prems" show ?thesis by (simp add: span_scan.simps [of s pages fr] split: if_splits)
  qed
qed

lemma fold_used_free:
  "pmm_inv s \<Longrightarrow> pmm_inv (fold (\<lambda>i. pmm_mark_used (h i)) is s) \<and>
   free_frames (fold (\<lambda>i. pmm_mark_used (h i)) is s) = free_frames s - (\<lambda>i. unat (h i)) ` set is"
  by (induction "is" arbitrary: s) (auto simp: pmm_inv_used free_frames_used pmm_inv_wf)

lemma pmm_alloc_span_spec:
  assumes "pmm_inv s" "pmm_alloc_span pages s = (p, s')"
  shows "pmm_inv s' \<and>
    (if p = 0 then s' = s
     else \<exists>n. unat p = n * 4096 \<and> 512 \<le> n \<and> {n..<n + unat pages} \<subseteq> free_frames s \<and>
            free_frames s' = free_frames s - {n..<n + unat pages})"
proof (cases "bitmap_phys s = 0 \<or> pages = 0 \<or> frame_count s < pages \<or>
    frame_count s \<le> 512 \<or> span_scan s pages 512 = None")
  case True
  then have "p = 0 \<and> s' = s" using assms(2)
    by (auto simp: pmm_alloc_span_def align_up_def IDENTITY_END_def Let_def split: if_splits)
  then show ?thesis using assms(1) by simp
next
  case False
  then obtain g where g: "span_scan s pages 512 = Some g" "p = push_bit 12 g"
    "s' = fold (\<lambda>i. pmm_mark_used (g + of_nat i)) [0..<unat pages] s"
    using assms(2) by (auto simp: pmm_alloc_span_def align_up_def IDENTITY_END_def Let_def)
  note sc = span_scan_Some [OF g(1)]
  have w: "unat (g + of_nat i) = unat g + i" "unat g + i < unat (frame_count s)"
    if "i < unat pages" for i using span_word [of pages s g i] sc that by auto
  have img: "(\<lambda>i. unat (g + of_nat i)) ` set [0..<unat pages] = {unat g..<unat g + unat pages}"
  proof -
    have "(\<lambda>i. unat (g + of_nat i)) ` set [0..<unat pages] = (\<lambda>i. unat g + i) ` {0..<unat pages}"
      by (rule image_cong) (auto simp: w)
    then show ?thesis by (simp add: add.commute)
  qed
  have free: "{unat g..<unat g + unat pages} \<subseteq> free_frames s"
  proof
    fix n assume "n \<in> {unat g..<unat g + unat pages}"
    then obtain i where i: "n = unat g + i" "i < unat pages"
      by (metis atLeastLessThan_iff le_Suc_ex nat_add_left_cancel_less)
    have "\<not> frame_bit s (unat (g + of_nat i))"
      using sc i(2) by (simp add: span_clear_def list_all_iff pmm_test)
    with w [OF i(2)] i(1) show "n \<in> free_frames s" by (simp add: free_frames_def)
  qed
  have pages: "0 < unat pages" using sc by (simp add: unat_gt_0)
  then have gf: "unat g \<in> free_frames s" using free by auto
  have p: "unat p = unat g * 4096" using frame_addr [OF pmm_inv_wf [OF assms(1)] gf] g(2) by simp
  moreover have "512 \<le> unat g" using sc by simp
  ultimately have "p \<noteq> 0" by auto
  moreover have "pmm_inv s'" "free_frames s' = free_frames s - {unat g..<unat g + unat pages}"
    using fold_used_free [OF assms(1), of "\<lambda>i. g + of_nat i" "[0..<unat pages]"]
    by (simp_all only: g(3) img)
  ultimately show ?thesis using p free \<open>512 \<le> unat g\<close> by auto
qed

section \<open>The interface to the rest of the kernel\<close>

text \<open>
  What the heap, the pipes, the page tables and the FAT buffers rely on: a page they get
  was free and is theirs alone until they put it back, and putting it back restores the
  pool. \<open>avail\<close> is the set of page numbers that can still be handed out.
\<close>

locale page_source =
  fixes inv :: "'s \<Rightarrow> bool"
    and avail :: "'s \<Rightarrow> nat set"
    and get :: "'s \<Rightarrow> u64 \<times> 's"
    and put :: "u64 \<Rightarrow> 's \<Rightarrow> 's"
  assumes get_inv: "inv s \<Longrightarrow> get s = (p, s') \<Longrightarrow> inv s'"
    and get_page: "inv s \<Longrightarrow> get s = (p, s') \<Longrightarrow> p \<noteq> 0 \<Longrightarrow>
          \<exists>n \<in> avail s. unat p = n * 4096 \<and> avail s' = avail s - {n}"
    and get_fail: "inv s \<Longrightarrow> get s = (0, s') \<Longrightarrow> s' = s"
    and put_get: "inv s \<Longrightarrow> get s = (p, s') \<Longrightarrow> p \<noteq> 0 \<Longrightarrow> put p s' = s"
begin

lemma page_of_get: "inv s \<Longrightarrow> get s = (p, s') \<Longrightarrow> p \<noteq> 0 \<Longrightarrow>
    unat p div 4096 \<in> avail s \<and> unat p mod 4096 = 0 \<and> avail s' = avail s - {unat p div 4096}"
  using get_page by fastforce

lemma two_pages_distinct:
  assumes "inv s" "get s = (p, s1)" "get s1 = (q, s2)" "p \<noteq> 0" "q \<noteq> 0"
  shows "p \<noteq> q"
  using page_of_get [OF assms(1,2,4)] page_of_get [OF get_inv [OF assms(1,2)] assms(3,5)] by auto

lemma avail_shrinks: "inv s \<Longrightarrow> get s = (p, s') \<Longrightarrow> avail s' \<subseteq> avail s"
  using get_page get_fail by (cases "p = 0") fastforce+

end

lemma page_source_frame:
  "page_source pmm_inv free_frames (pmm_alloc_frame st) pmm_free"
proof
  fix s p s' assume a: "pmm_inv s" "pmm_alloc_frame st s = (p, s')"
  note spec = pmm_alloc_frame_spec [OF a]
  show "pmm_inv s'" using spec by simp
  show "p \<noteq> 0 \<Longrightarrow> \<exists>n \<in> free_frames s. unat p = n * 4096 \<and> free_frames s' = free_frames s - {n}"
    using spec by auto
  show "p \<noteq> 0 \<Longrightarrow> pmm_free p s' = s" using pmm_alloc_free [OF a] by simp
next
  fix s s' assume "pmm_inv s" "pmm_alloc_frame st s = (0, s')"
  from pmm_alloc_frame_spec [OF this] show "s' = s" by simp
qed

interpretation any_page: page_source pmm_inv free_frames pmm_alloc pmm_free
  using page_source_frame [of 0] by (simp add: pmm_alloc_def [abs_def])

interpretation page_above: page_source pmm_inv free_frames "pmm_alloc_above m" pmm_free
  using page_source_frame [of "drop_bit 12 (align_up m PAGE_SIZE)"]
  by (simp add: pmm_alloc_above_def [abs_def])

lemma pmm_free_0: "pmm_inv s \<Longrightarrow> pmm_free 0 s = s"
  by (auto simp: pmm_free_def pmm_mark_free_def pmm_inv_def word_le_nat_alt Let_def)

lemma pmm_free_frame [simp]:
  "frame_count (pmm_free p s) = frame_count s" "reserved_end (pmm_free p s) = reserved_end s"
  by (simp_all add: pmm_free_def)

section \<open>Call sequences\<close>

datatype pmm_call = Call_alloc | Call_alloc_above u64 | Call_alloc_span u64 | Call_free u64

fun pmm_do :: "pmm_call \<Rightarrow> pmm \<Rightarrow> pmm" where
  "pmm_do Call_alloc s = snd (pmm_alloc s)"
| "pmm_do (Call_alloc_above m) s = snd (pmm_alloc_above m s)"
| "pmm_do (Call_alloc_span n) s = snd (pmm_alloc_span n s)"
| "pmm_do (Call_free p) s = pmm_free p s"

lemma pmm_alloc_span_inv: "pmm_inv s \<Longrightarrow> pmm_inv (snd (pmm_alloc_span n s))"
  using pmm_alloc_span_spec [of s n] by (cases "pmm_alloc_span n s") auto

lemma pmm_do_inv: "pmm_inv s \<Longrightarrow> pmm_inv (pmm_do c s)"
proof (cases c)
  case Call_alloc
  assume "pmm_inv s"
  with any_page.get_inv [of s] Call_alloc show ?thesis by (cases "pmm_alloc s") auto
next
  case (Call_alloc_above m)
  assume "pmm_inv s"
  with page_above.get_inv [of s m] Call_alloc_above show ?thesis
    by (cases "pmm_alloc_above m s") auto
qed (simp_all add: pmm_alloc_span_inv pmm_free_spec)

lemma pmm_calls_inv: "pmm_inv s \<Longrightarrow> pmm_inv (fold pmm_do cs s)"
  by (induction cs arbitrary: s) (simp_all add: pmm_do_inv)

section \<open>Properties\<close>

text \<open>A small machine for the witnesses: 16 frames, the last four free, one page reserved.\<close>

definition pmm_tiny :: pmm where
  "pmm_tiny = \<lparr>bitmap_phys = 0x126000, frame_count = 16, free_count = 4,
     reserved_end = 0x1000, bits = [0xFF, 0x0F]\<rparr>"

lemma free_frames_filter:
  "free_frames s = set (filter (\<lambda>n. \<not> frame_bit s n) [0..<unat (frame_count s)])"
  by (auto simp: free_frames_def)

lemma free_frames_tiny: "free_frames pmm_tiny = {12, 13, 14, 15}"
proof -
  have "filter (\<lambda>n. \<not> frame_bit pmm_tiny n) [0..<16] = [12, 13, 14, 15]" by code_simp
  then show ?thesis by (simp only: free_frames_filter) (simp add: pmm_tiny_def)
qed

lemma pmm_inv_tiny: "pmm_inv pmm_tiny"
  using free_frames_tiny by (simp add: pmm_inv_def pmm_wf_def) (simp add: pmm_tiny_def)

subsection \<open>The memory map as a specification\<close>

text \<open>
  The end of the usable memory that an entry describes, 0 when it describes none: another type, no bytes,
  or an end beyond the address space.
\<close>

definition ram_end :: "e820_entry \<Rightarrow> nat" where
  "ram_end e =
     (let top = unat (e_base e) + unat (e_length e) in
      if e_type e = E820_TYPE_USABLE \<and> e_length e \<noteq> 0 \<and> top < 2 ^ 64 then top else 0)"

definition ram_top :: "e820_map option \<Rightarrow> nat" where
  "ram_top m = Max (insert 0 (ram_end ` set (e820_seen m)))"

text \<open>
  The frames that the bitmap covers: those below the end of usable memory, and at most eight for each
  byte between the kernel image and 2 MiB. The first frame after the kernel image and the bitmap.
\<close>

definition frames_of :: "e820_map option \<Rightarrow> nat" where
  "frames_of m = min (ram_top m div 4096) (8 * (0x200000 - (0x100000 + 304 * 512)))"

definition first_frame :: "e820_map option \<Rightarrow> nat" where
  "first_frame m = (0x100000 + 304 * 512 + (frames_of m + 7) div 8 + 4095) div 4096"

lemma max_usable_fold: "unat (max_usable es m) = fold max (map ram_end es) (unat m)"
proof (induction es m rule: max_usable.induct)
  case (2 e es m)
  have w: "e_base e + e_length e < e_base e \<longleftrightarrow> \<not> unat (e_base e) + unat (e_length e) < 2 ^ 64"
    using no_olen_add_nat [of "e_base e" "e_length e"] by (auto simp: not_le [symmetric] word_le_nat_alt no_olen_add_nat)
  show ?case
  proof (cases "e_type e = E820_TYPE_USABLE \<and> e_length e \<noteq> 0 \<and> unat (e_base e) + unat (e_length e) < 2 ^ 64")
    case True
    then have u: "unat (e_base e + e_length e) = ram_end e" by (simp add: ram_end_def unat_add_lt)
    show ?thesis using 2(3) True w u by (auto simp: Let_def word_less_nat_alt max_def)
  next
    case False
    then have "ram_end e = 0" by (auto simp: ram_end_def Let_def)
    then show ?thesis using 2 False w by (auto simp: Let_def)
  qed
qed simp

lemma max_usable_ram: "unat (max_usable (e820_seen m) 0) = ram_top m"
  using Max.set_eq_fold [of 0 "map ram_end (e820_seen m)"] by (simp add: max_usable_fold ram_top_def)

lemma frames_of_init: "unat (pmm_frames m) = frames_of m"
  by (simp add: pmm_frames_def frames_of_def Let_def word_less_nat_alt unat_drop_12 max_usable_ram)

lemma first_frame_init: "unat (align_up (pmm_bitmap_end (pmm_frames m)) PAGE_SIZE) = first_frame m * 4096"
  using bitmap_end_nat [OF pmm_frames_le [of m]] pmm_frames_le [of m]
  by (simp add: align_up_page first_frame_def flip: frames_of_init)

lemma init_reserved: "pmm_frames m \<noteq> 0 \<Longrightarrow> unat (reserved_end (pmm_init m)) = first_frame m * 4096"
proof -
  assume a: "pmm_frames m \<noteq> 0"
  have "reserved_end (fold (\<lambda>k. pmm_mark_used (g k)) ks s) = reserved_end s" for g :: "nat \<Rightarrow> u64" and ks s
    by (induction ks arbitrary: s) simp_all
  then show ?thesis using a by (simp add: pmm_init_eq for_pages_fold align_up_page_mod first_frame_init)
qed

text \<open>A page inside usable memory lies below its end.\<close>

lemma page_inside_below: "e \<in> set (e820_seen m) \<Longrightarrow> page_inside e n \<Longrightarrow> n < ram_top m div 4096"
proof -
  assume e: "e \<in> set (e820_seen m)" and p: "page_inside e n"
  have "e_length e \<noteq> 0" using p by (auto simp: page_inside_def)
  then have "(n + 1) * 4096 \<le> ram_end e" using p by (simp add: page_inside_def ram_end_def)
  moreover have "ram_end e \<le> ram_top m" using e by (auto simp: ram_top_def intro!: Max_ge)
  ultimately have "Suc n * 4096 \<le> ram_top m" by simp
  then show ?thesis by (simp add: less_eq_div_iff_mult_less_eq flip: Suc_le_eq)
qed

lemma init_free_frames:
  assumes "\<forall>e \<in> set (e820_seen m). entry_sane e"
  shows "free_frames (pmm_init m) = {n. first_frame m \<le> n \<and> n < 0x6D0000 \<and> (\<exists>e \<in> set (e820_seen m). page_inside e n)}"
proof (cases "pmm_frames m = 0")
  case True
  then have "ram_top m div 4096 = 0" using frames_of_init [of m] by (auto simp: frames_of_def min_def split: if_splits)
  then show ?thesis using pmm_init_spec [OF assms] True page_inside_below [of _ m] by auto
next
  case False
  have below: "n < frames_of m \<longleftrightarrow> n < 0x6D0000" if "e \<in> set (e820_seen m)" "page_inside e n" for e n
    using page_inside_below [OF that] by (auto simp: frames_of_def)
  have "unat (reserved_end (pmm_init m)) \<le> n * 4096 \<longleftrightarrow> first_frame m \<le> n" for n using False by (simp add: init_reserved)
  then show ?thesis using pmm_init_spec [OF assms] below by (auto simp: frames_of_init)
qed

definition map_demo :: "e820_map option" where
  "map_demo = Some \<lparr>e_count = 2, e_entry_size = 24,
     e_entries = [\<lparr>e_base = 0x0, e_length = 0x9FC00, e_type = 1, e_acpi = 0\<rparr>, \<lparr>e_base = 0x100000, e_length = 0x300000, e_type = 1, e_acpi = 0\<rparr>]\<rparr>"

lemma map_demo_seen:
  "e820_seen map_demo = [\<lparr>e_base = 0x0, e_length = 0x9FC00, e_type = 1, e_acpi = 0\<rparr>, \<lparr>e_base = 0x100000, e_length = 0x300000, e_type = 1, e_acpi = 0\<rparr>]"
  by (simp add: map_demo_def e820_seen_def e820_clip_def E820_ENTRY_SIZE_def E820_MAX_def)

lemma map_demo_frames: "frames_of map_demo = 1024" "first_frame map_demo = 295"
proof -
  show f: "frames_of map_demo = 1024" by (simp add: frames_of_def ram_top_def map_demo_seen ram_end_def E820_TYPE_USABLE_def)
  show "first_frame map_demo = 295" by (simp add: first_frame_def f)
qed

lemma map_demo_sane: "\<forall>e \<in> set (e820_seen map_demo). entry_sane e"
  by (simp add: map_demo_seen entry_sane_def)

lemma map_demo_inside: "(\<exists>e \<in> set (e820_seen map_demo). page_inside e n) \<longleftrightarrow> n < 159 \<or> 256 \<le> n \<and> n < 1024"
  by (auto simp: map_demo_seen page_inside_def E820_TYPE_USABLE_def)

lemma map_demo_free: "{n. first_frame map_demo \<le> n \<and> n < 0x6D0000 \<and> (\<exists>e \<in> set (e820_seen map_demo). page_inside e n)} = {295..<1024}"
  unfolding map_demo_inside map_demo_frames by (rule set_eqI) (simp, arith)

text \<open>
  C33. What \<open>pmm_init\<close> makes of a memory map. The bitmap covers the frames below the end of usable memory, but
  at most 0x6D0000 of them, as many as its room up to 2 MiB has bits; free are exactly the
  covered frames that lie wholly inside a usable region and behind the kernel image and the bitmap;
  the free counter is their number, and the reserved prefix ends where the bitmap does. The
  hypothesis excludes usable entries that start in the last page of the 64-bit address space.
\<close>

theorem pmm_init_correct:
  assumes "\<forall>e \<in> set (e820_seen m). entry_sane e"
  shows "unat (frame_count (pmm_init m)) = frames_of m \<and>
    (frames_of m \<noteq> 0 \<longrightarrow> unat (reserved_end (pmm_init m)) = first_frame m * 4096) \<and>
    free_frames (pmm_init m) = {n. first_frame m \<le> n \<and> n < 0x6D0000 \<and> (\<exists>e \<in> set (e820_seen m). page_inside e n)} \<and>
    unat (pmm_free_count (pmm_init m)) = card (free_frames (pmm_init m))"
proof -
  note spec = pmm_init_spec [OF assms]
  then have wf: "pmm_wf (pmm_init m)" and fc: "frame_count (pmm_init m) = pmm_frames m"
    by (blast intro: pmm_inv_wf)+
  have "frames_of m \<noteq> 0 \<Longrightarrow> pmm_frames m \<noteq> 0" using frames_of_init [of m] by auto
  then show ?thesis using wf fc init_free_frames [OF assms] by (simp add: pmm_wf_def pmm_free_count_def frames_of_init init_reserved)
qed

theorem pmm_init_correct_witness:
  "free_frames (pmm_init map_demo) = {295..<1024} \<and> pmm_free_count (pmm_init map_demo) = 729"
proof -
  note T = pmm_init_correct [OF map_demo_sane, unfolded map_demo_free]
  then have "free_frames (pmm_init map_demo) = {295..<1024}" by simp
  moreover have "unat (pmm_free_count (pmm_init map_demo)) = 729" using T calculation by simp
  ultimately show ?thesis by (simp add: word_unat_eq_iff)
qed

text \<open>
  \<open>pmm_alloc_above\<close> is a first-fit search: it returns the address of the lowest free
  page at or above \<open>min_phys\<close> and takes only that page, or returns 0, leaving the state
  alone, when no such page is free.
\<close>

theorem pmm_alloc_above_first_fit:
  assumes "pmm_inv s" and "unat m + 4095 < 2 ^ 64" and "pmm_alloc_above m s = (p, s')"
  shows "(if p = 0 then s' = s \<and> (\<forall>n \<in> free_frames s. n * 4096 < unat m)
     else \<exists>n \<in> free_frames s. unat p = n * 4096 \<and> unat m \<le> n * 4096 \<and>
        (\<forall>k \<in> free_frames s. unat m \<le> k * 4096 \<longrightarrow> n \<le> k) \<and> free_frames s' = free_frames s - {n})"
proof -
  have st: "unat (drop_bit 12 (align_up m PAGE_SIZE)) = (unat m + 4095) div 4096"
    using assms(2) by (simp add: unat_drop_12 align_up_page)
  have iff: "(unat m + 4095) div 4096 \<le> n \<longleftrightarrow> unat m \<le> n * 4096" for n by auto
  show ?thesis
    using pmm_alloc_frame_spec [OF assms(1) assms(3) [unfolded pmm_alloc_above_def]]
    by (auto simp: st iff not_le [symmetric] split: if_splits)
qed

theorem pmm_alloc_above_first_fit_witness:
  "\<exists>n \<in> free_frames pmm_tiny. unat (fst (pmm_alloc_above 0xD000 pmm_tiny)) = n * 4096"
proof -
  have "fst (pmm_alloc_above 0xD000 pmm_tiny) \<noteq> 0" by code_simp
  moreover have "unat (0xD000 :: u64) + 4095 < 2 ^ 64" by simp
  ultimately show ?thesis
    using pmm_alloc_above_first_fit [OF pmm_inv_tiny _ surjective_pairing, of "0xD000"]
    by (auto split: if_splits)
qed

text \<open>
  Freeing the page that an allocation just returned restores the allocator exactly:
  bitmap, counter and all.
\<close>

theorem pmm_alloc_free_roundtrip:
  assumes "pmm_inv s" and "pmm_alloc_above m s = (p, s')" and "p \<noteq> 0"
  shows "pmm_free p s' = s"
  using assms by (rule page_above.put_get)

theorem pmm_alloc_free_roundtrip_witness:
  "pmm_free (fst (pmm_alloc_above 0xD000 pmm_tiny)) (snd (pmm_alloc_above 0xD000 pmm_tiny)) = pmm_tiny"
proof -
  have "fst (pmm_alloc_above 0xD000 pmm_tiny) \<noteq> 0" by code_simp
  then show ?thesis using pmm_alloc_free_roundtrip [OF pmm_inv_tiny surjective_pairing] by blast
qed

text \<open>
  \<open>pmm_alloc_span\<close> returns a run of frames that were all free, at or above 2 MiB, and
  takes exactly that run; on failure nothing changes.
\<close>

theorem pmm_alloc_span_correct:
  assumes "pmm_inv s" and "pmm_alloc_span pages s = (p, s')"
  shows "if p = 0 then s' = s
     else \<exists>n. unat p = n * 4096 \<and> unat IDENTITY_END \<le> unat p \<and>
        {n..<n + unat pages} \<subseteq> free_frames s \<and> free_frames s' = free_frames s - {n..<n + unat pages}"
  using pmm_alloc_span_spec [OF assms] by (auto simp: IDENTITY_END_def split: if_splits)

theorem pmm_alloc_span_correct_witness: "snd (pmm_alloc_span 2 pmm_tiny) = pmm_tiny"
proof -
  have "fst (pmm_alloc_span 2 pmm_tiny) = 0" by code_simp
  then show ?thesis using pmm_alloc_span_correct [OF pmm_inv_tiny surjective_pairing] by metis
qed

lemma pmm_do_frame: "frame_count (pmm_do c s) = frame_count s \<and> reserved_end (pmm_do c s) = reserved_end s"
proof -
  have f: "frame_count (fold (\<lambda>i. pmm_mark_used (g i)) ks s) = frame_count s \<and> reserved_end (fold (\<lambda>i. pmm_mark_used (g i)) ks s) = reserved_end s"
    for g :: "nat \<Rightarrow> u64" and ks s by (induction ks arbitrary: s) simp_all
  show ?thesis
    by (cases c) (simp_all add: pmm_alloc_def pmm_alloc_above_def pmm_alloc_frame_def pmm_alloc_span_def Let_def f split: option.split)
qed

lemma pmm_calls_frame: "frame_count (fold pmm_do cs s) = frame_count s \<and> reserved_end (fold pmm_do cs s) = reserved_end s"
  by (induction cs arbitrary: s) (simp_all add: pmm_do_frame)

lemma pmm_alloc_lowest:
  assumes "pmm_inv s" "pmm_alloc s = (p, s')"
  shows "if p = 0 then free_frames s = {} \<and> s' = s
    else unat p = 4096 * Min (free_frames s) \<and> free_frames s' = free_frames s - {Min (free_frames s)}"
proof -
  note spec = pmm_alloc_frame_spec [OF assms(1) assms(2) [unfolded pmm_alloc_def]]
  have "n = Min (free_frames s)" if "n \<in> free_frames s" "\<forall>k \<in> free_frames s. n \<le> k" for n
    using that by (intro Min_eqI [symmetric]) auto
  then show ?thesis using spec by (auto split: if_splits)
qed

text \<open>
  C20. Whatever sequence of calls the kernel makes after \<open>pmm_init\<close>, with any arguments, the
  bitmap covers the same frames, the free counter is the number of clear bits, and no frame of the
  reserved prefix (frame 0, the kernel image, the bitmap itself) is ever free: the next allocation takes
  the lowest free frame, and fails only when there is none. The hypothesis excludes
  memory maps with a usable entry in the last page of the 64-bit address space, for which
  \<open>pmm_region_wrap_frees_all\<close> shows the opposite.
\<close>

theorem pmm_calls_safe:
  fixes cs :: "pmm_call list" and m :: "e820_map option"
  assumes "\<forall>e \<in> set (e820_seen m). entry_sane e"
  defines "s \<equiv> fold pmm_do cs (pmm_init m)"
  shows "unat (frame_count s) = frames_of m \<and> unat (free_count s) = card (free_frames s) \<and>
    (\<forall>n \<in> free_frames s. first_frame m \<le> n \<and> n < frames_of m) \<and>
    (case pmm_alloc s of (p, s') \<Rightarrow>
       if p = 0 then free_frames s = {} \<and> s' = s
       else unat p = 4096 * Min (free_frames s) \<and> free_frames s' = free_frames s - {Min (free_frames s)})"
proof -
  have i: "pmm_inv s" unfolding s_def using pmm_init_spec [OF assms(1)] by (simp add: pmm_calls_inv)
  have fc: "unat (frame_count s) = frames_of m" using pmm_init_spec [OF assms(1)] by (simp add: s_def pmm_calls_frame frames_of_init)
  have "first_frame m \<le> n" "n < frames_of m" if n: "n \<in> free_frames s" for n
  proof -
    show b: "n < frames_of m" using free_frames_bound [OF n] fc by simp
    then have "pmm_frames m \<noteq> 0" using frames_of_init [of m] by auto
    then show "first_frame m \<le> n" using i n by (auto simp: pmm_inv_def s_def pmm_calls_frame init_reserved)
  qed
  moreover have "unat (free_count s) = card (free_frames s)" using i by (simp add: pmm_inv_def pmm_wf_def)
  moreover obtain p s' where a: "pmm_alloc s = (p, s')" by fastforce
  ultimately show ?thesis using fc pmm_alloc_lowest [OF i a] by simp
qed

theorem pmm_calls_safe_witness:
  "fst (pmm_alloc (pmm_init map_demo)) = 0x127000 \<and>
   unat (free_count (fold pmm_do [Call_alloc, Call_free 0x1000, Call_alloc_span 3] (pmm_init map_demo))) =
     card (free_frames (fold pmm_do [Call_alloc, Call_free 0x1000, Call_alloc_span 3] (pmm_init map_demo))) \<and>
   free_frames (fold pmm_do [Call_alloc, Call_free 0x1000, Call_alloc_span 3] (pmm_init map_demo)) \<subseteq> {295..<1024}"
proof -
  have f: "free_frames (pmm_init map_demo) = {295..<1024}" using init_free_frames [OF map_demo_sane] by (simp only: map_demo_free)
  have m: "Min (free_frames (pmm_init map_demo)) = 295" unfolding f by (rule Min_eqI) auto
  have "unat (fst (pmm_alloc (pmm_init map_demo))) = 4096 * 295"
    using pmm_calls_safe [OF map_demo_sane, of "[]"] m f by (auto split: prod.splits if_splits)
  then have "fst (pmm_alloc (pmm_init map_demo)) = 0x127000" by (simp add: word_unat_eq_iff)
  then show ?thesis
    using pmm_calls_safe [OF map_demo_sane, of "[Call_alloc, Call_free 0x1000, Call_alloc_span 3]"] by (auto simp: map_demo_frames)
qed

text \<open>
  The alignment of a region's start is not checked for wrap-around: a usable entry
  that starts in the last page of the address space makes \<open>pmm_mark_region_free\<close> free
  every frame the bitmap covers, although the entry contains no whole page.
\<close>

theorem pmm_region_wrap_frees_all:
  assumes "pmm_wf s" and "bitmap_phys s \<noteq> 0"
  shows "free_frames (pmm_mark_region_free 0xFFFFFFFFFFFFF800 0x400 s) = {..<unat (frame_count s)}"
proof -
  let ?g = "\<lambda>k. drop_bit 12 (of_nat (k * 4096) :: u64)"
  let ?b = "unat (0xFFFFFFFFFFFFF000 :: u64) div 4096"
  have e: "pmm_mark_region_free 0xFFFFFFFFFFFFF800 0x400 s =
      fold (\<lambda>k. pmm_mark_free (?g k)) [0..<?b] s"
    by (simp add: pmm_mark_region_free_def align_up_def align_down_def for_pages_fold
        del: upt_rec_numeral)
  have g: "\<And>k. k < ?b \<Longrightarrow> unat (?g k) = k"
    using page_index_word [of _ ?b "0xFFFFFFFFFFFFF000"] by (simp del: of_nat_mult)
  have "unat (frame_count s) \<le> ?b" using assms(1) by (simp add: pmm_wf_def)
  then have "{0..<?b} \<inter> {..<unat (frame_count s)} = {..<unat (frame_count s)}" by auto
  moreover have "free_frames s \<subseteq> {..<unat (frame_count s)}" by (auto simp: free_frames_def)
  moreover have "free_frames (fold (\<lambda>k. pmm_mark_free (?g k)) [0..<?b] s) =
      free_frames s \<union> ({0..<?b} \<inter> {..<unat (frame_count s)})"
    using fold_mark_free [OF assms(1) g, of ?b 0] by blast
  ultimately show ?thesis unfolding e by blast
qed

theorem pmm_region_wrap_frees_all_witness:
  "free_frames (pmm_mark_region_free 0xFFFFFFFFFFFFF800 0x400 pmm_tiny) = {..<16}"
proof -
  have "bitmap_phys pmm_tiny \<noteq> 0" "unat (frame_count pmm_tiny) = 16" by (simp_all add: pmm_tiny_def)
  then show ?thesis
    using pmm_region_wrap_frees_all [OF pmm_inv_wf [OF pmm_inv_tiny]] by simp
qed

end
