(* ===== verification/Cow.thy ===== *)
theory Cow
  imports Pmm
begin

text \<open>
  The copy-on-write reference table of \<open>kernel/vmm.c\<close> (\<open>cow_tab\<close>): up to 256 entries of a
  frame address and its number of mappings. A frame with no entry has one mapping. The table
  is a list of pairs; the loops that look for an entry stop at the first match, which
  \<open>cow_index\<close> states once. The locale \<open>refcount\<close> is the contract the page-table code relies on.
\<close>

definition COW_MAX :: nat where "COW_MAX = 256"

type_synonym cow_table = "(u64 \<times> u32) list"

definition cow_hit :: "cow_table \<Rightarrow> u64 \<Rightarrow> nat \<Rightarrow> bool" where
  "cow_hit tab phys i \<longleftrightarrow> snd (tab ! i) \<noteq> 0 \<and> fst (tab ! i) = phys"

definition cow_index :: "cow_table \<Rightarrow> u64 \<Rightarrow> nat option" where
  "cow_index tab phys = List.find (cow_hit tab phys) [0..<length tab]"

definition cow_refs :: "cow_table \<Rightarrow> u64 \<Rightarrow> u32" where
  "cow_refs tab phys = (case cow_index tab phys of Some i \<Rightarrow> snd (tab ! i) | None \<Rightarrow> 1)"

definition cow_clear :: "u64 \<Rightarrow> cow_table \<Rightarrow> cow_table" where
  "cow_clear phys tab = (case cow_index tab phys of Some i \<Rightarrow> tab[i := (0, 0)] | None \<Rightarrow> tab)"

definition cow_empty :: "cow_table \<Rightarrow> nat option" where
  "cow_empty tab = List.find (\<lambda>i. snd (tab ! i) = 0) [0..<length tab]"

text \<open>The result is \<open>True\<close> for the source's return value 0.\<close>

definition cow_share_frame :: "u64 \<Rightarrow> cow_table \<Rightarrow> bool \<times> cow_table" where
  "cow_share_frame phys tab =
     (case cow_index tab phys of
        Some i \<Rightarrow> (True, tab[i := (fst (tab ! i), snd (tab ! i) + 1)])
      | None \<Rightarrow> (case cow_empty tab of
          None \<Rightarrow> (False, tab)
        | Some e \<Rightarrow> (True, tab[e := (phys, 2)])))"

text \<open>The result is \<open>True\<close> when the caller held the last mapping and frees the frame.\<close>

definition cow_put :: "u64 \<Rightarrow> cow_table \<Rightarrow> bool \<times> cow_table" where
  "cow_put phys tab =
     (case cow_index tab phys of
        None \<Rightarrow> (True, tab)
      | Some i \<Rightarrow> let r = snd (tab ! i) - 1 in
          if r \<noteq> 0 then (False, tab[i := (fst (tab ! i), r)]) else (True, tab[i := (0, r)]))"

definition cow_unshare :: "u64 \<Rightarrow> cow_table \<Rightarrow> cow_table" where
  "cow_unshare phys tab =
     (case cow_index tab phys of
        None \<Rightarrow> tab
      | Some i \<Rightarrow> if snd (tab ! i) \<le> 2 then tab[i := (0, 0)]
                   else tab[i := (fst (tab ! i), snd (tab ! i) - 1)])"

section \<open>The table as a reference count\<close>

definition cow_wf :: "cow_table \<Rightarrow> bool" where
  "cow_wf tab \<longleftrightarrow> length tab = COW_MAX \<and>
     (\<forall>i < length tab. \<forall>j < length tab.
        snd (tab ! i) \<noteq> 0 \<longrightarrow> snd (tab ! j) \<noteq> 0 \<longrightarrow> fst (tab ! i) = fst (tab ! j) \<longrightarrow> i = j)"

definition cow_count :: "cow_table \<Rightarrow> u64 \<Rightarrow> nat" where
  "cow_count tab phys = unat (cow_refs tab phys)"

lemma cow_wf_unique:
  "cow_wf tab \<Longrightarrow> i < length tab \<Longrightarrow> j < length tab \<Longrightarrow> snd (tab ! i) \<noteq> 0 \<Longrightarrow> snd (tab ! j) \<noteq> 0 \<Longrightarrow>
   fst (tab ! i) = fst (tab ! j) \<Longrightarrow> i = j"
  by (auto simp: cow_wf_def)

lemma cow_index_Some:
  assumes "cow_wf tab"
  shows "cow_index tab phys = Some i \<longleftrightarrow> i < length tab \<and> snd (tab ! i) \<noteq> 0 \<and> fst (tab ! i) = phys"
proof
  assume "cow_index tab phys = Some i"
  then show "i < length tab \<and> snd (tab ! i) \<noteq> 0 \<and> fst (tab ! i) = phys"
    by (auto simp: cow_index_def find_Some_iff cow_hit_def)
next
  assume i: "i < length tab \<and> snd (tab ! i) \<noteq> 0 \<and> fst (tab ! i) = phys"
  have "\<not> cow_hit tab phys j" if "j < i" for j
    using cow_wf_unique [OF assms, of j i] i that by (auto simp: cow_hit_def)
  then show "cow_index tab phys = Some i"
    using i unfolding cow_index_def find_Some_iff by (intro exI [of _ i]) (simp add: cow_hit_def)
qed

lemma cow_index_None:
  "cow_index tab phys = None \<longleftrightarrow> (\<forall>i < length tab. snd (tab ! i) \<noteq> 0 \<longrightarrow> fst (tab ! i) \<noteq> phys)"
  by (auto simp: cow_index_def find_None_iff cow_hit_def)

lemma cow_empty_Some: "cow_empty tab = Some e \<Longrightarrow> e < length tab \<and> snd (tab ! e) = 0"
  by (auto simp: cow_empty_def find_Some_iff)

text \<open>
  One entry changes: entry \<open>i\<close>, which holds \<open>phys\<close> or nothing, becomes \<open>(phys, r)\<close> or empty. The
  table stays well formed, and only the count of \<open>phys\<close> changes.
\<close>

lemma cow_update:
  assumes wf: "cow_wf tab" and i: "i < length tab"
    and own: "cow_index tab phys = Some i \<or> cow_index tab phys = None \<and> snd (tab ! i) = 0"
    and new: "x = (phys, r) \<or> snd x = 0 \<and> r = 0"
  shows "cow_wf (tab[i := x]) \<and>
    cow_refs (tab[i := x]) q = (if q = phys then (if r = 0 then 1 else r) else cow_refs tab q)"
proof
  let ?t = "tab[i := x]"
  have other: "fst (tab ! j) \<noteq> phys" if "j \<noteq> i" "j < length tab" "snd (tab ! j) \<noteq> 0" for j
    using own that cow_wf_unique [OF wf i that(2)] unfolding cow_index_Some [OF wf] cow_index_None
    by metis
  have x: "snd x \<noteq> 0 \<Longrightarrow> fst x = phys \<and> snd x = r" "snd x = 0 \<Longrightarrow> r = 0" using new by auto
  show wf': "cow_wf ?t"
    unfolding cow_wf_def
  proof (intro conjI allI impI)
    show "length ?t = COW_MAX" using wf by (simp add: cow_wf_def)
    fix j k assume jk: "j < length ?t" "k < length ?t" "snd (?t ! j) \<noteq> 0" "snd (?t ! k) \<noteq> 0"
      "fst (?t ! j) = fst (?t ! k)"
    show "j = k"
    proof (cases "j = i \<or> k = i")
      case True
      then show ?thesis
      proof
        assume "j = i"
        then have "fst (?t ! k) = phys" using jk x(1) i by simp
        then show ?thesis using \<open>j = i\<close> other [of k] jk by (metis length_list_update nth_list_update_neq)
      next
        assume "k = i"
        then have "fst (?t ! j) = phys" using jk x(1) i by simp
        then show ?thesis using \<open>k = i\<close> other [of j] jk by (metis length_list_update nth_list_update_neq)
      qed
    next
      case False
      then have "snd (tab ! j) \<noteq> 0" "snd (tab ! k) \<noteq> 0" "fst (tab ! j) = fst (tab ! k)"
        "j < length tab" "k < length tab" using jk by auto
      then show ?thesis using wf unfolding cow_wf_def by blast
    qed
  qed
  show "cow_refs ?t q = (if q = phys then (if r = 0 then 1 else r) else cow_refs tab q)"
  proof (cases "q = phys")
    case True
    show ?thesis
    proof (cases "r = 0")
      case r0: True
      then have "snd x = 0" using new by auto
      then have "snd (?t ! j) \<noteq> 0 \<Longrightarrow> j \<noteq> i" for j using i by auto
      then have "cow_index ?t phys = None" unfolding cow_index_None
        using other by (metis length_list_update nth_list_update_neq)
      then show ?thesis using True r0 by (simp add: cow_refs_def)
    next
      case False
      then have "x = (phys, r)" using new by auto
      then have "cow_index ?t phys = Some i" unfolding cow_index_Some [OF wf'] using i False by simp
      then show ?thesis using True False i \<open>x = (phys, r)\<close> by (simp add: cow_refs_def)
    qed
  next
    case q: False
    have notq: "\<not> (snd (tab ! i) \<noteq> 0 \<and> fst (tab ! i) = q)"
      using own q unfolding cow_index_Some [OF wf] by auto
    have "\<not> (snd x \<noteq> 0 \<and> fst x = q)" using x q by auto
    then have eq: "j < length tab \<Longrightarrow> (snd (?t ! j) \<noteq> 0 \<and> fst (?t ! j) = q) \<longleftrightarrow> (snd (tab ! j) \<noteq> 0 \<and> fst (tab ! j) = q)" for j
      using notq by (cases "j = i") auto
    show ?thesis
    proof (cases "cow_index tab q")
      case None
      then have "cow_index ?t q = None" using eq unfolding cow_index_None by auto
      then show ?thesis using None q by (simp add: cow_refs_def)
    next
      case (Some j)
      then have j: "j < length tab" "snd (tab ! j) \<noteq> 0" "fst (tab ! j) = q" by (auto simp: cow_index_Some [OF wf])
      then have "j \<noteq> i" using notq by auto
      moreover have "cow_index ?t q = Some j" using eq [OF j(1)] j by (simp add: cow_index_Some [OF wf'])
      ultimately show ?thesis using Some q by (simp add: cow_refs_def)
    qed
  qed
qed

lemma cow_refs_nz: "cow_wf tab \<Longrightarrow> cow_refs tab p \<noteq> 0"
  by (auto simp: cow_refs_def cow_index_Some split: option.split)

lemma cow_index_refs:
  assumes "cow_wf tab" "cow_index tab p = Some i"
  shows "cow_refs tab p = snd (tab ! i) \<and> fst (tab ! i) = p \<and> i < length tab"
  using assms(2) cow_index_Some [OF assms(1), of p i] by (simp add: cow_refs_def)

lemma cow_share_ok:
  assumes wf: "cow_wf tab" and s: "cow_share_frame p tab = (True, tab')" and lt: "cow_count tab p < 2 ^ 32 - 1"
  shows "cow_wf tab' \<and> cow_count tab' q = (if q = p then cow_count tab p + 1 else cow_count tab q)"
proof (cases "cow_index tab p")
  case (Some i)
  then have t: "tab' = tab[i := (p, cow_refs tab p + 1)]" and i: "i < length tab"
    using s cow_index_refs [OF wf Some] by (auto simp: cow_share_frame_def)
  have u: "unat (cow_refs tab p + 1) = cow_count tab p + 1"
    using lt by (simp add: cow_count_def unat_word_ariths)
  then have nz: "cow_refs tab p + 1 \<noteq> 0" by (metis Suc_eq_plus1 nat.simps(3) unat_0)
  show ?thesis
    using cow_update [OF wf i, of p "(p, cow_refs tab p + 1)" "cow_refs tab p + 1" q] Some t u nz
    by (auto simp: cow_count_def)
next
  case None
  then obtain e where e: "cow_empty tab = Some e" and t: "tab' = tab[e := (p, 2)]"
    using s by (auto simp: cow_share_frame_def split: option.splits)
  have "cow_refs tab p = 1" using None by (simp add: cow_refs_def)
  then show ?thesis
    using cow_update [OF wf, of e p "(p, 2)" 2 q] None cow_empty_Some [OF e] t
    by (auto simp: cow_count_def)
qed

lemma cow_share_fail: "cow_share_frame p tab = (False, tab') \<Longrightarrow> tab' = tab"
  by (auto simp: cow_share_frame_def split: option.splits)

lemma cow_put_ok:
  assumes wf: "cow_wf tab" and s: "cow_put p tab = (l, tab')"
  shows "cow_wf tab' \<and> l = (cow_count tab p = 1) \<and>
    cow_count tab' q = (if q = p \<and> \<not> l then cow_count tab p - 1 else cow_count tab q)"
proof (cases "cow_index tab p")
  case None
  then show ?thesis using s wf by (auto simp: cow_put_def cow_count_def cow_refs_def)
next
  case (Some i)
  have i: "i < length tab" using Some wf by (simp add: cow_index_Some)
  note r = cow_index_refs [OF wf Some]
  have nz: "cow_refs tab p \<noteq> 0" by (rule cow_refs_nz [OF wf])
  then have u: "unat (cow_refs tab p - 1) = cow_count tab p - 1"
    by (simp add: cow_count_def unat_minus_one)
  have one: "cow_refs tab p - 1 = 0 \<longleftrightarrow> cow_count tab p = 1"
    using nz u by (metis unsigned_eq_0_iff cow_count_def diff_is_0_eq le_antisym less_one not_le unsigned_eq_0_iff)
  show ?thesis
  proof (cases "cow_refs tab p - 1 = 0")
    case True
    then have t: "l" "tab' = tab[i := (0, 0)]" using s Some r by (auto simp: cow_put_def Let_def)
    show ?thesis using cow_update [OF wf i, of p "(0, 0)" 0 q] Some t True one
      by (auto simp: cow_count_def)
  next
    case False
    then have t: "\<not> l" "tab' = tab[i := (p, cow_refs tab p - 1)]"
      using s Some r by (auto simp: cow_put_def Let_def)
    show ?thesis
      using cow_update [OF wf i, of p "(p, cow_refs tab p - 1)" "cow_refs tab p - 1" q] Some t False one u
      by (auto simp: cow_count_def)
  qed
qed

lemma cow_clear_ok:
  assumes wf: "cow_wf tab"
  shows "cow_wf (cow_clear p tab) \<and> cow_count (cow_clear p tab) q = (if q = p then 1 else cow_count tab q)"
proof (cases "cow_index tab p")
  case (Some i)
  then have i: "i < length tab" using wf by (simp add: cow_index_Some)
  show ?thesis using cow_update [OF wf i, of p "(0, 0)" 0 q] Some by (auto simp: cow_clear_def cow_count_def)
qed (use wf in \<open>auto simp: cow_clear_def cow_count_def cow_refs_def\<close>)

lemma cow_unshare_ok:
  assumes wf: "cow_wf tab" and ge: "2 \<le> cow_count tab p"
  shows "cow_wf (cow_unshare p tab) \<and>
    cow_count (cow_unshare p tab) q = (if q = p then cow_count tab p - 1 else cow_count tab q)"
proof -
  obtain i where Some: "cow_index tab p = Some i"
    using ge by (cases "cow_index tab p") (auto simp: cow_count_def cow_refs_def)
  have i: "i < length tab" using Some wf by (simp add: cow_index_Some)
  note r = cow_index_refs [OF wf Some]
  have nz: "cow_refs tab p \<noteq> 0" by (rule cow_refs_nz [OF wf])
  then have u: "unat (cow_refs tab p - 1) = cow_count tab p - 1"
    by (simp add: cow_count_def unat_minus_one)
  have two: "cow_refs tab p \<le> 2 \<longleftrightarrow> cow_count tab p = 2"
    using ge by (auto simp: cow_count_def word_le_nat_alt)
  show ?thesis
  proof (cases "cow_refs tab p \<le> 2")
    case True
    then have "cow_unshare p tab = tab[i := (0, 0)]" using Some r by (simp add: cow_unshare_def)
    then show ?thesis using cow_update [OF wf i, of p "(0, 0)" 0 q] Some two True by (auto simp: cow_count_def)
  next
    case False
    then have t: "cow_unshare p tab = tab[i := (p, cow_refs tab p - 1)]"
      using Some r by (simp add: cow_unshare_def)
    have "cow_refs tab p - 1 \<noteq> 0" using u two False ge by auto
    then show ?thesis
      using cow_update [OF wf i, of p "(p, cow_refs tab p - 1)" "cow_refs tab p - 1" q] Some t u
      by (auto simp: cow_count_def)
  qed
qed

section \<open>The contract of a reference count\<close>

fun share_n :: "(u64 \<Rightarrow> 't \<Rightarrow> bool \<times> 't) \<Rightarrow> u64 \<Rightarrow> nat \<Rightarrow> 't \<Rightarrow> bool \<times> 't" where
  "share_n share p 0 t = (True, t)"
| "share_n share p (Suc n) t = (case share p t of (ok, t') \<Rightarrow> if ok then share_n share p n t' else (False, t'))"

fun put_n :: "(u64 \<Rightarrow> 't \<Rightarrow> bool \<times> 't) \<Rightarrow> u64 \<Rightarrow> nat \<Rightarrow> 't \<Rightarrow> bool list \<times> 't" where
  "put_n put p 0 t = ([], t)"
| "put_n put p (Suc n) t = (case put p t of (l, t') \<Rightarrow> (case put_n put p n t' of (ls, t'') \<Rightarrow> (l # ls, t'')))"

locale refcount =
  fixes wf :: "'t \<Rightarrow> bool"
    and count :: "'t \<Rightarrow> u64 \<Rightarrow> nat"
    and share put :: "u64 \<Rightarrow> 't \<Rightarrow> bool \<times> 't"
    and unshare :: "u64 \<Rightarrow> 't \<Rightarrow> 't"
    and limit :: nat
  assumes count_pos: "wf t \<Longrightarrow> 0 < count t p"
    and share_ok: "wf t \<Longrightarrow> share p t = (True, t') \<Longrightarrow> count t p < limit \<Longrightarrow>
      wf t' \<and> count t' q = (if q = p then count t p + 1 else count t q)"
    and put_ok: "wf t \<Longrightarrow> put p t = (l, t') \<Longrightarrow> wf t' \<and> l = (count t p = 1) \<and>
      count t' q = (if q = p \<and> \<not> l then count t p - 1 else count t q)"
    and unshare_ok: "wf t \<Longrightarrow> 2 \<le> count t p \<Longrightarrow> wf (unshare p t) \<and>
      count (unshare p t) q = (if q = p then count t p - 1 else count t q)"
begin

lemma share_unshare:
  "wf t \<Longrightarrow> share p t = (True, t') \<Longrightarrow> count t p < limit \<Longrightarrow>
   wf (unshare p t') \<and> count (unshare p t') q = count t q"
  using share_ok [of t p t' p] share_ok [of t p t' q] unshare_ok [of t' p q] count_pos [of t p] by auto

lemma share_n_ok:
  "wf t \<Longrightarrow> share_n share p n t = (True, t') \<Longrightarrow> count t p + n \<le> limit \<Longrightarrow>
   wf t' \<and> count t' q = (if q = p then count t p + n else count t q)"
proof (induction n arbitrary: t)
  case (Suc n)
  obtain t1 where t1: "share p t = (True, t1)" "share_n share p n t1 = (True, t')"
    using Suc.prems(2) by (auto split: prod.splits if_splits)
  have 1: "wf t1" "count t1 r = (if r = p then count t p + 1 else count t r)" for r
    using share_ok [OF Suc.prems(1) t1(1)] Suc.prems(3) by auto
  show ?case using Suc.IH [OF 1(1) t1(2)] 1(2) Suc.prems(3) by auto
qed simp

lemma put_n_ok:
  "wf t \<Longrightarrow> count t p = Suc n \<Longrightarrow> fst (put_n put p (Suc n) t) = replicate n False @ [True]"
proof (induction n arbitrary: t)
  case 0
  then show ?case using put_ok by (auto split: prod.splits)
next
  case (Suc n)
  obtain l t' where p: "put p t = (l, t')" by fastforce
  have "\<not> l" "wf t'" "count t' p = Suc n" using put_ok [OF Suc.prems(1) p] Suc.prems(2) by auto
  then show ?case using Suc.IH [of t'] p by (auto split: prod.splits)
qed

end

interpretation cow: refcount cow_wf cow_count cow_share_frame cow_put cow_unshare "2 ^ 32 - 1"
proof
  show "cow_wf t \<Longrightarrow> 0 < cow_count t p" for t p
    unfolding cow_count_def unat_gt_0 by (rule cow_refs_nz)
qed (fact cow_share_ok cow_put_ok cow_unshare_ok)+

definition cow_demo :: cow_table where "cow_demo = replicate 256 (0, 0)"

lemma cow_wf_demo: "cow_wf cow_demo"
  by (auto simp: cow_wf_def cow_demo_def COW_MAX_def)

text \<open>
  Reference counting of shared frames: after a frame with one mapping has been shared \<open>n\<close>
  times, each of the first \<open>n\<close> releases reports that mappings remain, and the last one, and no
  other, reports that the frame is to be freed; the counts of other frames do not change.
\<close>

theorem cow_last_put_frees:
  assumes "cow_wf tab" "cow_count tab p = 1" "share_n cow_share_frame p n tab = (True, tab')"
    and "n + 1 < 2 ^ 32"
  shows "fst (put_n cow_put p (Suc n) tab') = replicate n False @ [True] \<and>
    (q \<noteq> p \<longrightarrow> cow_count tab' q = cow_count tab q)"
proof -
  have "cow_count tab p + n \<le> 2 ^ 32 - 1" using assms by simp
  note s = cow.share_n_ok [OF assms(1,3) this]
  have "cow_wf tab'" "cow_count tab' p = Suc n" using s [of p] assms(2) by auto
  then show ?thesis using cow.put_n_ok s [of q] by simp
qed

theorem cow_last_put_frees_witness:
  "\<exists>tab'. share_n cow_share_frame 0x200000 1 cow_demo = (True, tab') \<and>
     fst (put_n cow_put 0x200000 (Suc 1) tab') = [False, True]"
proof -
  have i: "cow_index cow_demo 0x200000 = None"
    unfolding cow_index_None by (simp add: cow_demo_def)
  have "cow_empty cow_demo = Some 0"
    by (simp add: cow_empty_def cow_demo_def upt_conv_Cons)
  then obtain tab' where t: "share_n cow_share_frame 0x200000 1 cow_demo = (True, tab')"
    using i by (simp add: cow_share_frame_def)
  moreover have "cow_count cow_demo 0x200000 = 1" using i by (simp add: cow_count_def cow_refs_def)
  ultimately show ?thesis using cow_last_put_frees [OF cow_wf_demo _ t, of 0] by auto
qed

end
