(* ===== verification/Hhdm.thy ===== *)
theory Hhdm
  imports Prelude
begin

text \<open>
  The higher-half direct map of \<open>kernel/vmm.c\<close>: \<open>phys_to_virt\<close> and \<open>virt_to_phys\<close>, with the
  static flag \<open>hhdm_ready\<close> as an argument.
\<close>

definition HHDM_BASE :: u64 where "HHDM_BASE = 0xFFFF800000000000"

definition phys_to_virt :: "bool \<Rightarrow> u64 \<Rightarrow> u64" where
  "phys_to_virt hhdm_ready phys = (if \<not> hhdm_ready then phys else HHDM_BASE + phys)"

definition virt_to_phys :: "bool \<Rightarrow> u64 \<Rightarrow> u64" where
  "virt_to_phys hhdm_ready virt = (if hhdm_ready \<and> HHDM_BASE \<le> virt then virt - HHDM_BASE else virt)"

lemma unat_HHDM_BASE: "unat HHDM_BASE = 0xFFFF800000000000"
  by (simp add: HHDM_BASE_def)

lemma unat_phys_to_virt:
  "unat p < 0x800000000000 \<Longrightarrow>
   unat (phys_to_virt r p) = (if r then 0xFFFF800000000000 + unat p else unat p)"
  by (simp add: phys_to_virt_def unat_add_lt unat_HHDM_BASE)

lemma virt_to_phys_inverse:
  assumes "unat p < 0x800000000000"
  shows "virt_to_phys r (phys_to_virt r p) = p"
proof (cases r)
  case True
  then have "HHDM_BASE \<le> phys_to_virt r p"
    unfolding word_le_nat_alt unat_phys_to_virt [OF assms] unat_HHDM_BASE by simp
  then show ?thesis using True by (simp add: virt_to_phys_def phys_to_virt_def)
qed (simp add: virt_to_phys_def phys_to_virt_def)

end
