(* ===== verification/Vmm.thy ===== *)
theory Vmm
  imports Cow Hhdm Vga
begin

text \<open>
  The page tables of \<open>kernel/vmm.c\<close>. Physical memory is a function from the physical address
  of an aligned 64-bit word to its value: every access of the page-table code is a 64-bit one
  through the identity map or the direct map, so a table pointer is the physical address of
  the table and \<open>table[i]\<close> is the word at \<open>table + 8 * i\<close>; a page of bytes is 512 words. The
  register CR3 is a field; reloading it with its own value, as \<open>vmm_flush_if_current\<close> does,
  changes nothing. A result \<open>True\<close> is the source's 0, \<open>False\<close> its -1.
\<close>

abbreviation PML4_PHYS :: u64 where "PML4_PHYS \<equiv> 0x1000"
abbreviation PD_PHYS :: u64 where "PD_PHYS \<equiv> 0x3000"
abbreviation PAGE_4K :: u64 where "PAGE_4K \<equiv> 0x1000"
abbreviation PAGE_2M :: u64 where "PAGE_2M \<equiv> 0x200000"
abbreviation PDE_PRESENT :: u64 where "PDE_PRESENT \<equiv> 1"
abbreviation PDE_WRITE :: u64 where "PDE_WRITE \<equiv> 2"
abbreviation PTE_USER :: u64 where "PTE_USER \<equiv> 4"
abbreviation PDE_PWT :: u64 where "PDE_PWT \<equiv> 8"
abbreviation PDE_PCD :: u64 where "PDE_PCD \<equiv> 16"
abbreviation PDE_LARGE :: u64 where "PDE_LARGE \<equiv> 0x80"
abbreviation PTE_WANT_WRITE :: u64 where "PTE_WANT_WRITE \<equiv> 0x200"
definition PDE_HUGE :: u64 where "PDE_HUGE = PDE_PRESENT OR PDE_WRITE OR PDE_LARGE"
definition PTE_FLAGS :: u64 where "PTE_FLAGS = PDE_PRESENT OR PDE_WRITE"
definition PTE_USER_FLAGS :: u64 where "PTE_USER_FLAGS = PTE_FLAGS OR PTE_USER OR PTE_WANT_WRITE"
definition PTE_USER_RO :: u64 where "PTE_USER_RO = PDE_PRESENT OR PTE_USER"
definition ADDR_MASK :: u64 where "ADDR_MASK = NOT 0xFFF"
definition PROBE_MARK :: u64 where "PROBE_MARK = 0x56414D50"
definition HHDM_PML4_INDEX :: u64 where "HHDM_PML4_INDEX = 256"
definition KERNEL_PML4_INDEX :: u64 where "KERNEL_PML4_INDEX = 511"

record vmm =
  pm :: pmm
  pmem :: "u64 \<Rightarrow> u64"
  cow_tab :: cow_table
  first_4k_mapped :: u64
  hhdm_ready :: bool
  cr3_reg :: u64

section \<open>Tables in physical memory\<close>

definition tab_get :: "vmm \<Rightarrow> u64 \<Rightarrow> u64 \<Rightarrow> u64" where
  "tab_get v table idx = pmem v (table + 8 * idx)"

definition tab_set :: "u64 \<Rightarrow> u64 \<Rightarrow> u64 \<Rightarrow> vmm \<Rightarrow> vmm" where
  "tab_set table idx e v = v\<lparr>pmem := (pmem v)(table + 8 * idx := e)\<rparr>"

text \<open>A loop over the indices of a table; the second form stops at the first failure.\<close>

definition for_idx :: "nat \<Rightarrow> (u64 \<Rightarrow> 's \<Rightarrow> 's) \<Rightarrow> 's \<Rightarrow> 's" where
  "for_idx n f s = fold (\<lambda>i. f (of_nat i)) [0..<n] s"

fun try_idx :: "(u64 \<Rightarrow> 's \<Rightarrow> bool \<times> 's) \<Rightarrow> nat list \<Rightarrow> 's \<Rightarrow> bool \<times> 's" where
  "try_idx f [] s = (True, s)"
| "try_idx f (i # is) s = (case f (of_nat i) s of (ok, s') \<Rightarrow> if ok then try_idx f is s' else (False, s'))"

definition zero_table :: "u64 \<Rightarrow> vmm \<Rightarrow> vmm" where
  "zero_table t v = for_idx 512 (\<lambda>i. tab_set t i 0) v"

definition alloc_page :: "vmm \<Rightarrow> u64 \<times> vmm" where
  "alloc_page v = (case pmm_alloc (pm v) of (p, s) \<Rightarrow> (p, v\<lparr>pm := s\<rparr>))"

definition alloc_page_above :: "u64 \<Rightarrow> vmm \<Rightarrow> u64 \<times> vmm" where
  "alloc_page_above m v = (case pmm_alloc_above m (pm v) of (p, s) \<Rightarrow> (p, v\<lparr>pm := s\<rparr>))"

definition free_page :: "u64 \<Rightarrow> vmm \<Rightarrow> vmm" where
  "free_page p v = v\<lparr>pm := pmm_free p (pm v)\<rparr>"

definition present :: "u64 \<Rightarrow> bool" where "present e \<longleftrightarrow> e AND PDE_PRESENT \<noteq> 0"
definition large :: "u64 \<Rightarrow> bool" where "large e \<longleftrightarrow> e AND PDE_LARGE \<noteq> 0"
definition user :: "u64 \<Rightarrow> bool" where "user e \<longleftrightarrow> e AND PTE_USER \<noteq> 0"

section \<open>Boot mappings\<close>

definition vmm_map_4k :: "u64 \<Rightarrow> vmm \<Rightarrow> bool \<times> vmm" where
  "vmm_map_4k phys v =
     (let pd_idx = drop_bit 21 phys; pt_idx = drop_bit 12 phys AND 511 in
      if phys AND (PAGE_4K - 1) \<noteq> 0 \<or> 512 \<le> pd_idx then (False, v)
      else let pde = tab_get v PD_PHYS pd_idx in
        if large pde then (False, v)
        else
          let r = (if \<not> present pde
                   then (case alloc_page v of (pt_phys, v1) \<Rightarrow>
                     if pt_phys = 0 \<or> PAGE_2M \<le> pt_phys
                     then (None, if pt_phys \<noteq> 0 then free_page pt_phys v1 else v1)
                     else let v2 = zero_table pt_phys v1; pde' = pt_phys OR PTE_FLAGS
                          in (Some pde', tab_set PD_PHYS pd_idx pde' v2))
                   else (Some pde, v))
          in case r of
              (None, v3) \<Rightarrow> (False, v3)
            | (Some pde', v3) \<Rightarrow>
                let v4 = tab_set (pde' AND ADDR_MASK) pt_idx (phys OR PTE_FLAGS) v3
                in (True, if first_4k_mapped v4 = 0 then v4\<lparr>first_4k_mapped := phys\<rparr> else v4))"

text \<open>The inner loop of \<open>vmm_map_2m\<close>: it stops at the first index past the directory.\<close>

function map_2m_loop :: "u64 \<Rightarrow> u64 \<Rightarrow> vmm \<Rightarrow> vmm" where
  "map_2m_loop start end v =
     (if start < end
      then let idx = drop_bit 21 start in
        if 512 \<le> idx then v
        else map_2m_loop (start + PAGE_2M) end
               (if idx \<noteq> 0 then tab_set PD_PHYS idx (start OR PDE_HUGE) v else v)
      else v)"
  by pat_completeness auto
termination
proof (relation "measure (\<lambda>(start, end, v). 2 ^ 64 - unat start)")
  fix start "end" x :: u64 and v assume "start < end" "x = drop_bit 21 start" "\<not> 512 \<le> x"
  then have "unat start < 2 ^ 30"
    by (simp add: word_le_nat_alt unat_drop_bit_div not_le div_less_iff_less_mult)
  then have "unat (start + PAGE_2M) = unat start + 0x200000" by (subst unat_add_lt) auto
  then show "((start + PAGE_2M, end, if x \<noteq> 0 then tab_set PD_PHYS x (start OR PDE_HUGE) v else v), start, end, v)
      \<in> measure (\<lambda>(start, end, v). 2 ^ 64 - unat start)"
    using \<open>unat start < 2 ^ 30\<close> by simp
qed simp

declare map_2m_loop.simps [simp del]

definition usable_end :: "e820_entry \<Rightarrow> u64 option" where
  "usable_end e =
     (if e_type e \<noteq> E820_TYPE_USABLE \<or> e_length e = 0 then None
      else let end = e_base e + e_length e in if end < e_base e then None else Some end)"

definition vmm_map_2m :: "e820_entry list \<Rightarrow> vmm \<Rightarrow> vmm" where
  "vmm_map_2m es v =
     fold (\<lambda>e v. case usable_end e of None \<Rightarrow> v
       | Some end \<Rightarrow> map_2m_loop (align_up (e_base e) PAGE_2M) (align_down end PAGE_2M) v) es v"

text \<open>
  The loop over the 4 KiB pages of one entry; \<open>False\<close> is the early return. \<open>addr\<close> and \<open>end\<close> are
  page-aligned, so \<open>addr += PAGE_4K\<close> does not wrap below \<open>end\<close>; the test for a wrap only makes
  the recursion well-founded on every argument.
\<close>

function tail_loop :: "u64 \<Rightarrow> u64 \<Rightarrow> u64 \<Rightarrow> u64 \<Rightarrow> vmm \<Rightarrow> bool \<times> vmm" where
  "tail_loop huge_lo huge_hi addr end v =
     (if addr < end
      then if addr < PAGE_2M \<or> (huge_lo < huge_hi \<and> huge_lo \<le> addr \<and> addr < huge_hi)
        then (if addr + PAGE_4K < addr then (True, v) else tail_loop huge_lo huge_hi (addr + PAGE_4K) end v)
        else case vmm_map_4k addr v of (ok, v1) \<Rightarrow>
          if \<not> ok then (False, v1)
          else (if addr + PAGE_4K < addr then (True, v1) else tail_loop huge_lo huge_hi (addr + PAGE_4K) end v1)
      else (True, v))"
  by pat_completeness auto
termination
proof -
  have step: "2 ^ 64 - unat (addr + PAGE_4K) < 2 ^ 64 - unat addr"
    if "\<not> addr + PAGE_4K < addr" for addr :: u64
  proof -
    have "unat addr + 4096 < 2 ^ 64"
    proof (rule ccontr)
      assume n: "\<not> unat addr + 4096 < 2 ^ 64"
      then have "unat (addr + PAGE_4K) = unat addr + 4096 - 2 ^ 64"
        using unat_bound [of addr] by (simp add: unat_word_ariths le_mod_geq)
      then show False using that n unat_bound [of addr] by (simp add: word_less_nat_alt)
    qed
    then have "unat (addr + PAGE_4K) = unat addr + 4096" by (subst unat_add_lt) auto
    then show ?thesis using \<open>unat addr + 4096 < 2 ^ 64\<close> by simp
  qed
  show ?thesis
    by (relation "measure (\<lambda>(lo, hi, addr, end, v). 2 ^ 64 - unat addr)") (use step in auto)
qed

declare tail_loop.simps [simp del]

fun vmm_map_tail_4k :: "e820_entry list \<Rightarrow> vmm \<Rightarrow> vmm" where
  "vmm_map_tail_4k [] v = v"
| "vmm_map_tail_4k (e # es) v =
     (case usable_end e of None \<Rightarrow> vmm_map_tail_4k es v
      | Some end \<Rightarrow>
          (case tail_loop (align_up (e_base e) PAGE_2M) (align_down end PAGE_2M)
                  (align_up (e_base e) PAGE_4K) (align_down end PAGE_4K) v of
             (ok, v1) \<Rightarrow> if ok then vmm_map_tail_4k es v1 else v1))"

definition vmm_boot_cr3 :: u64 where "vmm_boot_cr3 = PML4_PHYS"

definition vmm_set_cr3 :: "u64 \<Rightarrow> vmm \<Rightarrow> vmm" where
  "vmm_set_cr3 c v = v\<lparr>cr3_reg := (if c = 0 then PML4_PHYS else c)\<rparr>"

definition vmm_map_usable :: "e820_map option \<Rightarrow> vmm \<Rightarrow> vmm" where
  "vmm_map_usable m v =
     (vmm_map_tail_4k (e820_seen m) (vmm_map_2m (e820_seen m) (v\<lparr>first_4k_mapped := 0\<rparr>)))
       \<lparr>cr3_reg := PML4_PHYS\<rparr>"

definition vmm_hhdm_init :: "vmm \<Rightarrow> vmm" where
  "vmm_hhdm_init v0 =
     (case alloc_page (v0\<lparr>hhdm_ready := False\<rparr>) of (pdpt_phys, v) \<Rightarrow>
        if pdpt_phys = 0 \<or> PAGE_2M \<le> pdpt_phys
        then (if pdpt_phys \<noteq> 0 then free_page pdpt_phys v else v)
        else let v1 = tab_set pdpt_phys 0 (PD_PHYS OR PTE_FLAGS) (zero_table pdpt_phys v);
                 v2 = tab_set PML4_PHYS HHDM_PML4_INDEX (pdpt_phys OR PTE_FLAGS) v1
             in v2\<lparr>cr3_reg := PML4_PHYS, hhdm_ready := True\<rparr>)"

definition vmm_clone_pml4 :: "vmm \<Rightarrow> u64 \<times> vmm" where
  "vmm_clone_pml4 v =
     (if \<not> hhdm_ready v then (0, v)
      else case alloc_page v of (new_phys, v1) \<Rightarrow>
        if new_phys = 0 then (0, v1)
        else (new_phys, for_idx 512 (\<lambda>i v. tab_set new_phys i
                (if HHDM_PML4_INDEX \<le> i then tab_get v PML4_PHYS i else 0) v) v1))"

text \<open>
  The loop of \<open>vmm_map_mmio_attr\<close> over 2 MiB pages, with \<open>pdpt\<close> the direct map's table; as above
  the test for a wrap is never true on aligned bounds.
\<close>

function mmio_loop :: "u64 \<Rightarrow> u64 \<Rightarrow> u64 \<Rightarrow> u64 \<Rightarrow> vmm \<Rightarrow> bool \<times> vmm" where
  "mmio_loop pdpt attr addr end v =
     (if addr < end
      then let pdpt_i = drop_bit 30 addr AND 511; pd_i = drop_bit 21 addr AND 511;
               pd_e = tab_get v pdpt pdpt_i;
               r = (if \<not> present pd_e
                    then (case alloc_page v of (pd_phys, v1) \<Rightarrow>
                      if pd_phys = 0 then (False, v1)
                      else (True, tab_set pdpt pdpt_i (pd_phys OR PTE_FLAGS) (zero_table pd_phys v1)))
                    else (\<not> large pd_e, v))
           in case r of (ok, v2) \<Rightarrow>
             if \<not> ok then (False, v2)
             else let v3 = tab_set (tab_get v2 pdpt pdpt_i AND ADDR_MASK) pd_i (addr OR attr) v2
                  in if addr + PAGE_2M < addr then (True, v3) else mmio_loop pdpt attr (addr + PAGE_2M) end v3
      else (True, v))"
  by pat_completeness auto
termination
proof -
  have step: "2 ^ 64 - unat (addr + PAGE_2M) < 2 ^ 64 - unat addr"
    if "\<not> addr + PAGE_2M < addr" for addr :: u64
  proof -
    have "unat addr + 0x200000 < 2 ^ 64"
    proof (rule ccontr)
      assume n: "\<not> unat addr + 0x200000 < 2 ^ 64"
      then have "unat (addr + PAGE_2M) = unat addr + 0x200000 - 2 ^ 64"
        using unat_bound [of addr] by (simp add: unat_word_ariths le_mod_geq)
      then show False using that n unat_bound [of addr] by (simp add: word_less_nat_alt)
    qed
    then have "unat (addr + PAGE_2M) = unat addr + 0x200000" by (subst unat_add_lt) auto
    then show ?thesis using \<open>unat addr + 0x200000 < 2 ^ 64\<close> by simp
  qed
  show ?thesis
    by (relation "measure (\<lambda>(pdpt, attr, addr, end, v). 2 ^ 64 - unat addr)") (use step in auto)
qed

declare mmio_loop.simps [simp del]

definition vmm_map_mmio_attr :: "u64 \<Rightarrow> u64 \<Rightarrow> u64 \<Rightarrow> vmm \<Rightarrow> bool \<times> vmm" where
  "vmm_map_mmio_attr phys sz attr v =
     (if \<not> hhdm_ready v \<or> sz = 0 then (False, v)
      else if phys + sz < phys then (False, v)
      else let pdpt_e = tab_get v PML4_PHYS HHDM_PML4_INDEX in
        if \<not> present pdpt_e \<or> large pdpt_e then (False, v)
        else case mmio_loop (pdpt_e AND ADDR_MASK) attr (align_down phys PAGE_2M) (align_up (phys + sz) PAGE_2M) v of
          (ok, v1) \<Rightarrow> if ok then (True, v1\<lparr>cr3_reg := PML4_PHYS\<rparr>) else (False, v1))"

definition vmm_map_mmio :: "u64 \<Rightarrow> u64 \<Rightarrow> vmm \<Rightarrow> bool \<times> vmm" where
  "vmm_map_mmio phys sz v = vmm_map_mmio_attr phys sz PDE_HUGE v"

definition vmm_map_uncached :: "u64 \<Rightarrow> u64 \<Rightarrow> vmm \<Rightarrow> bool \<times> vmm" where
  "vmm_map_uncached phys sz v = vmm_map_mmio_attr phys sz (PDE_HUGE OR PDE_PWT OR PDE_PCD) v"

section \<open>User mappings\<close>

definition pml4_ix :: "u64 \<Rightarrow> u64" where "pml4_ix virt = drop_bit 39 virt AND 511"
definition pdpt_ix :: "u64 \<Rightarrow> u64" where "pdpt_ix virt = drop_bit 30 virt AND 511"
definition pd_ix :: "u64 \<Rightarrow> u64" where "pd_ix virt = drop_bit 21 virt AND 511"
definition pt_ix :: "u64 \<Rightarrow> u64" where "pt_ix virt = drop_bit 12 virt AND 511"

definition root_of :: "u64 \<Rightarrow> u64" where "root_of c = (if c = 0 then PML4_PHYS else c)"

definition kernel_half :: "u64 \<Rightarrow> bool" where
  "kernel_half virt \<longleftrightarrow> pml4_ix virt = HHDM_PML4_INDEX \<or> pml4_ix virt = KERNEL_PML4_INDEX"

definition vmm_ensure_table :: "u64 \<Rightarrow> u64 \<Rightarrow> u64 \<Rightarrow> vmm \<Rightarrow> u64 option \<times> vmm" where
  "vmm_ensure_table table idx flags v =
     (let e = tab_get v table idx in
      if \<not> present e
      then (case alloc_page v of (phys, v1) \<Rightarrow>
        if phys = 0 then (None, v1)
        else (Some phys, tab_set table idx (phys OR flags) (zero_table phys v1)))
      else if large e then (None, v)
      else (Some (e AND ADDR_MASK),
            if flags AND PTE_USER \<noteq> 0 \<and> e AND PTE_USER = 0 then tab_set table idx (e OR PTE_USER) v else v))"

definition vmm_map_user_flags :: "u64 \<Rightarrow> u64 \<Rightarrow> u64 \<Rightarrow> u64 \<Rightarrow> vmm \<Rightarrow> bool \<times> vmm" where
  "vmm_map_user_flags c virt phys flags v =
     (if virt AND (PAGE_4K - 1) \<noteq> 0 \<or> phys AND (PAGE_4K - 1) \<noteq> 0 then (False, v)
      else if kernel_half virt then (False, v)
      else if \<not> hhdm_ready v then (False, v)
      else case vmm_ensure_table (root_of c) (pml4_ix virt) PTE_USER_FLAGS v of
          (None, v1) \<Rightarrow> (False, v1)
        | (Some pdpt, v1) \<Rightarrow> (case vmm_ensure_table pdpt (pdpt_ix virt) PTE_USER_FLAGS v1 of
            (None, v2) \<Rightarrow> (False, v2)
          | (Some pd, v2) \<Rightarrow> (case vmm_ensure_table pd (pd_ix virt) PTE_USER_FLAGS v2 of
              (None, v3) \<Rightarrow> (False, v3)
            | (Some pt, v3) \<Rightarrow> (True, tab_set pt (pt_ix virt) (phys OR flags) v3))))"

definition vmm_map_user :: "u64 \<Rightarrow> u64 \<Rightarrow> u64 \<Rightarrow> vmm \<Rightarrow> bool \<times> vmm" where
  "vmm_map_user c virt phys v = vmm_map_user_flags c virt phys PTE_USER_FLAGS v"

text \<open>
  The walk: the page table of \<open>virt\<close>, when the three upper entries pass \<open>ok\<close>. \<open>vmm_unmap_user\<close>
  accepts a present, not large entry; the other walks also ask for the user bit.
\<close>

definition walk_pt :: "(u64 \<Rightarrow> bool) \<Rightarrow> u64 \<Rightarrow> u64 \<Rightarrow> vmm \<Rightarrow> u64 option" where
  "walk_pt ok c virt v =
     (if kernel_half virt \<or> \<not> hhdm_ready v then None
      else let e4 = tab_get v (root_of c) (pml4_ix virt) in
        if \<not> ok e4 then None
        else let e3 = tab_get v (e4 AND ADDR_MASK) (pdpt_ix virt) in
          if \<not> ok e3 then None
          else let e2 = tab_get v (e3 AND ADDR_MASK) (pd_ix virt) in
            if \<not> ok e2 then None else Some (e2 AND ADDR_MASK))"

definition table_entry :: "u64 \<Rightarrow> bool" where
  "table_entry e \<longleftrightarrow> present e \<and> \<not> large e"

definition user_table_entry :: "u64 \<Rightarrow> bool" where
  "user_table_entry e \<longleftrightarrow> present e \<and> user e \<and> \<not> large e"

definition cow_free_leaf :: "u64 \<Rightarrow> vmm \<Rightarrow> vmm" where
  "cow_free_leaf phys v =
     (case cow_put phys (cow_tab v) of (l, t) \<Rightarrow>
        if l then free_page phys (v\<lparr>cow_tab := t\<rparr>) else v\<lparr>cow_tab := t\<rparr>)"

definition vmm_unmap_user :: "u64 \<Rightarrow> u64 \<Rightarrow> vmm \<Rightarrow> bool \<times> vmm" where
  "vmm_unmap_user c virt v =
     (if virt AND (PAGE_4K - 1) \<noteq> 0 then (False, v)
      else case walk_pt table_entry c virt v of
          None \<Rightarrow> (False, v)
        | Some pt \<Rightarrow> let e = tab_get v pt (pt_ix virt) in
            if \<not> present e then (False, v)
            else (True, cow_free_leaf (e AND ADDR_MASK) (tab_set pt (pt_ix virt) 0 v)))"

definition vmm_table_clear :: "u64 \<Rightarrow> nat \<Rightarrow> vmm \<Rightarrow> bool" where
  "vmm_table_clear table n v = list_all (\<lambda>i. tab_get v table (of_nat i) = 0) [0..<n]"

definition teardown_leaf :: "u64 \<Rightarrow> u64 \<Rightarrow> vmm \<Rightarrow> vmm" where
  "teardown_leaf pt i v =
     (let e = tab_get v pt i in
      if present e \<and> user e then cow_free_leaf (e AND ADDR_MASK) (tab_set pt i 0 v) else v)"

text \<open>
  One level of the nested loops of \<open>vmm_teardown_user\<close>: entry \<open>i\<close> of \<open>table\<close>, with \<open>inner\<close> the
  work on the table below it, which is unlinked and freed when nothing is left in it.
\<close>

definition teardown_entry :: "(u64 \<Rightarrow> vmm \<Rightarrow> vmm) \<Rightarrow> u64 \<Rightarrow> u64 \<Rightarrow> vmm \<Rightarrow> vmm" where
  "teardown_entry inner table i v =
     (let e = tab_get v table i in
      if \<not> table_entry e then v
      else let sub = e AND ADDR_MASK; v1 = inner sub v in
        if vmm_table_clear sub 512 v1 then free_page sub (tab_set table i 0 v1) else v1)"

definition teardown_pt :: "u64 \<Rightarrow> vmm \<Rightarrow> vmm" where
  "teardown_pt pt v = for_idx 512 (teardown_leaf pt) v"

definition teardown_pd :: "u64 \<Rightarrow> vmm \<Rightarrow> vmm" where
  "teardown_pd pd v = for_idx 512 (teardown_entry teardown_pt pd) v"

definition teardown_pdpt :: "u64 \<Rightarrow> vmm \<Rightarrow> vmm" where
  "teardown_pdpt pdpt v = for_idx 512 (teardown_entry teardown_pd pdpt) v"

definition vmm_teardown_user :: "u64 \<Rightarrow> vmm \<Rightarrow> vmm" where
  "vmm_teardown_user c v =
     (if c = 0 \<or> c = PML4_PHYS \<or> \<not> hhdm_ready v then v
      else for_idx 256 (teardown_entry teardown_pdpt c) v)"

definition copy_page :: "u64 \<Rightarrow> u64 \<Rightarrow> vmm \<Rightarrow> vmm" where
  "copy_page dst src v = for_idx 512 (\<lambda>i v. tab_set dst i (tab_get v src i) v) v"

text \<open>One leaf of the loops of \<open>vmm_copy_user\<close>, and the nested loops with their early return.\<close>

definition copy_leaf :: "u64 \<Rightarrow> u64 \<Rightarrow> u64 \<Rightarrow> u64 \<Rightarrow> vmm \<Rightarrow> bool \<times> vmm" where
  "copy_leaf dst_cr3 base pt i v =
     (let e = tab_get v pt i in
      if \<not> present e \<or> \<not> user e then (True, v)
      else let leaf = e AND ADDR_MASK; va = base OR push_bit 12 i in
        case cow_share_frame leaf (cow_tab v) of (shared, t) \<Rightarrow>
          let v1 = v\<lparr>cow_tab := t\<rparr> in
          if \<not> shared then (False, v1)
          else let flags = PTE_USER_RO OR
                     (if e AND (PDE_WRITE OR PTE_WANT_WRITE) \<noteq> 0 then PTE_WANT_WRITE else 0)
               in case vmm_map_user_flags dst_cr3 va leaf flags v1 of (ok, v2) \<Rightarrow>
                    if \<not> ok then (False, v2\<lparr>cow_tab := cow_unshare leaf (cow_tab v2)\<rparr>)
                    else (True, tab_set pt i (leaf OR flags) v2))"

definition copy_entry :: "(u64 \<Rightarrow> u64 \<Rightarrow> vmm \<Rightarrow> bool \<times> vmm) \<Rightarrow> nat \<Rightarrow> u64 \<Rightarrow> u64 \<Rightarrow> u64 \<Rightarrow> vmm \<Rightarrow> bool \<times> vmm" where
  "copy_entry inner shift base table i v =
     (let e = tab_get v table i in
      if \<not> user_table_entry e then (True, v)
      else inner (base OR push_bit shift i) (e AND ADDR_MASK) v)"

definition copy_pt :: "u64 \<Rightarrow> u64 \<Rightarrow> u64 \<Rightarrow> vmm \<Rightarrow> bool \<times> vmm" where
  "copy_pt dst base pt v = try_idx (copy_leaf dst base pt) [0..<512] v"

definition copy_pd :: "u64 \<Rightarrow> u64 \<Rightarrow> u64 \<Rightarrow> vmm \<Rightarrow> bool \<times> vmm" where
  "copy_pd dst base pd v = try_idx (copy_entry (copy_pt dst) 21 base pd) [0..<512] v"

definition copy_pdpt :: "u64 \<Rightarrow> u64 \<Rightarrow> u64 \<Rightarrow> vmm \<Rightarrow> bool \<times> vmm" where
  "copy_pdpt dst base pdpt v = try_idx (copy_entry (copy_pd dst) 30 base pdpt) [0..<512] v"

definition vmm_copy_user :: "u64 \<Rightarrow> u64 \<Rightarrow> vmm \<Rightarrow> bool \<times> vmm" where
  "vmm_copy_user dst_cr3 src_cr3 v =
     (if dst_cr3 = 0 \<or> src_cr3 = 0 \<or> dst_cr3 = src_cr3 \<or> dst_cr3 = PML4_PHYS \<or> src_cr3 = PML4_PHYS \<or>
         \<not> hhdm_ready v
      then (False, v)
      else try_idx (copy_entry (copy_pdpt dst_cr3) 39 0 src_cr3) [0..<256] v)"

text \<open>\<open>vmm_leaf_pte\<close> returns the address of the entry: the table and the index.\<close>

definition vmm_leaf_pte :: "u64 \<Rightarrow> u64 \<Rightarrow> vmm \<Rightarrow> (u64 \<times> u64) option" where
  "vmm_leaf_pte c virt v =
     (case walk_pt user_table_entry c virt v of
        None \<Rightarrow> None
      | Some pt \<Rightarrow> let e = tab_get v pt (pt_ix virt) in
          if \<not> present e \<or> \<not> user e then None else Some (pt, pt_ix virt))"

definition vmm_translate_user :: "u64 \<Rightarrow> u64 \<Rightarrow> vmm \<Rightarrow> u64 option" where
  "vmm_translate_user c virt v =
     (case walk_pt user_table_entry c virt v of
        None \<Rightarrow> None
      | Some pt \<Rightarrow> let e = tab_get v pt (pt_ix virt) in
          if \<not> present e \<or> \<not> user e then None
          else Some ((e AND ADDR_MASK) OR (virt AND (PAGE_4K - 1))))"

definition vmm_cow_break :: "u64 \<Rightarrow> u64 \<Rightarrow> vmm \<Rightarrow> bool \<times> vmm" where
  "vmm_cow_break c virt0 v =
     (let virt = virt0 AND ADDR_MASK in
      case vmm_leaf_pte c virt v of
        None \<Rightarrow> (False, v)
      | Some (pt, i) \<Rightarrow> let e = tab_get v pt i in
          if e AND PTE_WANT_WRITE = 0 then (False, v)
          else let leaf = e AND ADDR_MASK in
            if cow_refs (cow_tab v) leaf \<le> 1
            then (True, (tab_set pt i (leaf OR PTE_USER_FLAGS) v)\<lparr>cow_tab := cow_clear leaf (cow_tab v)\<rparr>)
            else (case (case alloc_page_above PAGE_2M v of (p, v1) \<Rightarrow> if p = 0 then alloc_page v1 else (p, v1)) of
              (neu, v2) \<Rightarrow>
                if neu = 0 then (False, v2)
                else let v3 = tab_set pt i (neu OR PTE_USER_FLAGS) (copy_page neu leaf v2)
                     in (True, v3\<lparr>cow_tab := snd (cow_put leaf (cow_tab v3))\<rparr>)))"

text \<open>
  \<open>vmm_protect_user\<close> switches to the task's tables for the \<open>invlpg\<close> and back, so CR3 ends as it
  was; the source would leave a zero \<open>cr3\<close> argument as the boot tables.
\<close>

definition vmm_protect_user :: "u64 \<Rightarrow> u64 \<Rightarrow> bool \<Rightarrow> vmm \<Rightarrow> bool \<times> vmm" where
  "vmm_protect_user c virt0 wr v =
     (let virt = virt0 AND ADDR_MASK in
      case vmm_leaf_pte c virt v of
        None \<Rightarrow> (False, v)
      | Some (pt, i) \<Rightarrow>
          let leaf = tab_get v pt i AND ADDR_MASK;
              flags = PDE_PRESENT OR PTE_USER OR
                (if wr then PTE_WANT_WRITE OR (if cow_refs (cow_tab v) leaf \<le> 1 then PDE_WRITE else 0) else 0);
              v1 = tab_set pt i (leaf OR flags) v;
              cur = cr3_reg v1
          in (True, if cur \<noteq> c then vmm_set_cr3 cur (vmm_set_cr3 c v1) else v1))"

definition vmm_handle_page_fault :: "u64 \<Rightarrow> u64 \<Rightarrow> vmm \<Rightarrow> bool \<times> vmm" where
  "vmm_handle_page_fault error cr2 v =
     (if error AND 7 \<noteq> 7 then (False, v) else vmm_cow_break (cr3_reg v) cr2 v)"

section \<open>Boot checks and the kernel stack\<close>

text \<open>
  \<open>vmm_drop_identity\<close> takes from outside this file whether \<open>gdt_init\<close> succeeded, \<open>gdt_base\<close> and
  the base that \<open>sgdt\<close> reads.
\<close>

definition vmm_drop_identity :: "bool \<Rightarrow> u64 \<Rightarrow> u64 \<Rightarrow> int \<Rightarrow> vmm \<Rightarrow> vga \<Rightarrow> int \<times> vmm \<times> vga" where
  "vmm_drop_identity gdt_ok gdt_base gdtr_base row v g =
     (if VGA_HEIGHT - 2 \<le> row then (row, v, g)
      else if \<not> hhdm_ready v \<or> \<not> gdt_ok then (row + 1, v, vga_write_at row 0 (Some ''id keep'') g)
      else let v1 = (tab_set PML4_PHYS 0 0 v)\<lparr>cr3_reg := PML4_PHYS\<rparr> in
        (row + 1, v1,
         if tab_get v1 PML4_PHYS 0 = 0 \<and> gdtr_base = gdt_base
         then vga_write_hex64_at row 7 gdtr_base (vga_write_at row 0 (Some ''id off '') g)
         else vga_write_at row 0 (Some ''id fail'') g))"

text \<open>The probe writes 32 bits at the start of a page: the low half of its first word.\<close>

definition vmm_probe :: "int \<Rightarrow> string \<Rightarrow> string \<Rightarrow> u64 \<Rightarrow> vmm \<Rightarrow> vga \<Rightarrow> int \<times> vmm \<times> vga" where
  "vmm_probe row ok_msg fail_msg phys v g =
     (if phys = 0 then (row + 1, v, vga_write_at row 0 (Some fail_msg) g)
      else let v1 = tab_set phys 0 ((tab_get v phys 0 AND NOT 0xFFFFFFFF) OR PROBE_MARK) v in
        (row + 1, free_page phys v1,
         if tab_get v1 phys 0 AND 0xFFFFFFFF = PROBE_MARK
         then vga_write_hex64_at row 7 phys (vga_write_at row 0 (Some ok_msg) g)
         else vga_write_hex64_at row 9 phys (vga_write_at row 0 (Some fail_msg) g)))"

definition vmm_print :: "int \<Rightarrow> vmm \<Rightarrow> vga \<Rightarrow> int \<times> vmm \<times> vga" where
  "vmm_print row v g =
     (if VGA_HEIGHT - 3 \<le> row then (row, v, g)
      else case alloc_page_above PAGE_2M v of (phys, v1) \<Rightarrow>
        (case vmm_probe row ''map ok '' ''map fail'' phys v1 g of (row1, v2, g1) \<Rightarrow>
          if VGA_HEIGHT - 2 \<le> row1 then (row1, v2, g1)
          else (case (if first_4k_mapped v2 \<noteq> 0 then alloc_page_above (first_4k_mapped v2) v2 else (0, v2)) of
            (phys2, v3) \<Rightarrow> vmm_probe row1 ''pt ok  '' ''pt fail'' phys2 v3 g1)))"

text \<open>
  Where \<open>vmm_switch_stack\<close> goes: the continuation on a new stack, the continuation on the old
  stack (after which the kernel halts), or the halt loop.
\<close>

datatype stack_switch = On_new u64 | On_old | Halt

definition vmm_switch_stack :: "bool \<Rightarrow> vmm \<Rightarrow> stack_switch \<times> vmm" where
  "vmm_switch_stack has_cont v =
     (case (case alloc_page_above PAGE_2M v of (p, v1) \<Rightarrow> if p = 0 then alloc_page v1 else (p, v1)) of
        (phys, v2) \<Rightarrow>
          if phys = 0 \<or> \<not> has_cont then (if has_cont then On_old else Halt, v2)
          else (On_new (phys_to_virt (hhdm_ready v2) phys + PAGE_4K - 8), zero_table phys v2))"

end
