(* ===== verification/Vmm_Space.thy ===== *)
theory Vmm_Space
  imports Vmm
begin

text \<open>
  The address spaces that \<open>Vmm\<close> builds, as trees of tables in physical memory, and the invariant
  that every operation on user mappings keeps: tables of different places never share a page,
  table pages and mapped pages are never free, and the count of a shared frame is the number of
  its mappings over all address spaces.
\<close>

section \<open>Entries\<close>

lemma present_bit: "present e \<longleftrightarrow> bit e 0"
  using bit_iff_and_push_bit_not_eq_0 [of e 0] by (simp add: present_def)

lemma user_bit: "user e \<longleftrightarrow> bit e 2"
  using bit_iff_and_push_bit_not_eq_0 [of e 2] by (simp add: user_def)

lemma large_bit: "large e \<longleftrightarrow> bit e 7"
  using bit_iff_and_push_bit_not_eq_0 [of e 7] by (simp add: large_def)

lemma want_bit: "e AND PTE_WANT_WRITE = 0 \<longleftrightarrow> \<not> bit e 9"
  using bit_iff_and_push_bit_not_eq_0 [of e 9] by simp

lemma ADDR_MASK_mask: "ADDR_MASK = NOT (mask 12)"
  by (simp add: ADDR_MASK_def mask_eq_exp_minus_1)

definition aligned :: "u64 \<Rightarrow> bool" where
  "aligned a \<longleftrightarrow> a AND mask 12 = 0"

lemma aligned_bits: "aligned a \<longleftrightarrow> (\<forall>n < 12. \<not> bit a n)"
proof
  assume a: "aligned a"
  show "\<forall>n < 12. \<not> bit a n"
  proof (intro allI impI notI)
    fix n :: nat assume "n < 12" "bit a n"
    then have "bit (a AND mask 12) n" by (simp add: bit_simps)
    then show False using a by (simp add: aligned_def)
  qed
next
  assume "\<forall>n < 12. \<not> bit a n"
  then show "aligned a" unfolding aligned_def by (intro bit_word_eqI) (auto simp: bit_simps)
qed

lemma aligned_4095: "a AND 0xFFF = 0 \<longleftrightarrow> aligned a"
  by (simp add: aligned_def mask_eq_exp_minus_1)

lemma aligned_mask [simp]: "aligned (e AND ADDR_MASK)"
  by (simp add: aligned_bits ADDR_MASK_mask bit_simps)

lemma aligned_mod: "aligned a \<longleftrightarrow> unat a mod 4096 = 0"
proof -
  have "unat (a AND mask 12) = unat a mod 4096" by (simp add: unat_and_mask)
  then show ?thesis unfolding aligned_def by (metis unsigned_eq_0_iff)
qed

definition low12 :: "u64 \<Rightarrow> bool" where "low12 f \<longleftrightarrow> (\<forall>n. 12 \<le> n \<longrightarrow> \<not> bit f n)"

lemma entry_addr [simp]:
  assumes "aligned a" "low12 f"
  shows "(a OR f) AND ADDR_MASK = a"
  by (rule bit_word_eqI) (use assms in \<open>auto simp: aligned_bits low12_def ADDR_MASK_mask bit_simps\<close>)

lemma entry_bit: "aligned a \<Longrightarrow> n < 12 \<Longrightarrow> bit (a OR f) n \<longleftrightarrow> bit f n"
  by (simp add: aligned_bits bit_simps)

lemma addr_mask_aligned: "aligned a \<Longrightarrow> a AND ADDR_MASK = a"
  by (rule bit_word_eqI) (auto simp: aligned_bits ADDR_MASK_mask bit_simps)

lemma low12_less: "f < 4096 \<Longrightarrow> low12 f"
proof -
  assume "f < 4096"
  then have "unat (take_bit 12 f) = unat f"
    unfolding unat_take_bit_mod by (simp add: word_less_nat_alt)
  then have "f = take_bit 12 f" using word_eq_by_unat by metis
  then show ?thesis unfolding low12_def by (metis bit_take_bit_iff not_le)
qed

lemma user_flags_bits:
  "bit PTE_USER_FLAGS 0" "bit PTE_USER_FLAGS 1" "bit PTE_USER_FLAGS 2" "\<not> bit PTE_USER_FLAGS 7"
  "bit PTE_USER_FLAGS 9" "low12 PTE_USER_FLAGS"
  by (simp_all add: PTE_USER_FLAGS_def PTE_FLAGS_def low12_less)

lemma user_entry_flags: "aligned a \<Longrightarrow> user_table_entry (a OR PTE_USER_FLAGS)"
  unfolding user_table_entry_def present_bit user_bit large_bit
  by (simp only: entry_bit user_flags_bits) simp

lemma zero_entry [simp]: "\<not> present 0" "\<not> user 0" "\<not> large 0" "\<not> user_table_entry 0" "\<not> table_entry 0"
  by (simp_all add: present_def user_def large_def user_table_entry_def table_entry_def)

section \<open>Slots\<close>

lemma slot_nat:
  assumes "aligned a" "(i :: u64) < 512"
  shows "unat (a + 8 * i) = unat a + 8 * unat i"
proof -
  have i: "unat i < 512" using assms(2) by (simp add: word_less_nat_alt)
  then have m: "unat (8 * i) = 8 * unat i" by (simp add: unat_word_ariths)
  have "unat a mod 4096 = 0" using assms(1) by (simp add: aligned_mod)
  moreover have "unat a < 2 ^ 64" using unat_bound [of a] by simp
  ultimately have "unat a + 4096 \<le> 2 ^ 64" by (auto simp: mod_eq_0_iff_dvd elim!: dvdE)
  then show ?thesis using i m by (subst unat_add_lt) auto
qed

lemma slot_inj:
  assumes "aligned a" "aligned b" "i < 512" "j < 512" "a + 8 * i = b + 8 * j"
  shows "a = b \<and> i = j"
proof -
  have e: "unat a + 8 * unat i = unat b + 8 * unat j"
    using slot_nat [OF assms(1,3)] slot_nat [OF assms(2,4)] assms(5) by simp
  have i: "8 * unat i < 4096" "8 * unat j < 4096" using assms(3,4) by (auto simp: word_less_nat_alt)
  have "unat a mod 4096 = 0" "unat b mod 4096 = 0" using assms(1,2) by (simp_all add: aligned_mod)
  then have "(unat a + 8 * unat i) mod 4096 = 8 * unat i" "(unat b + 8 * unat j) mod 4096 = 8 * unat j"
    using i by (auto simp: mod_eq_0_iff_dvd elim!: dvdE)
  then have "unat i = unat j" using e by simp
  then show ?thesis using e word_eq_by_unat by auto
qed

lemma of_nat_512: "i < 512 \<Longrightarrow> (of_nat i :: u64) < 512"
  by (simp add: word_less_nat_alt unat_of_nat)

lemma idx_of_nat: "(i :: u64) < 512 \<Longrightarrow> \<exists>k < 512. i = of_nat k"
  by (intro exI [of _ "unat i"]) (simp add: word_less_nat_alt)

lemma tab_get_set:
  assumes "aligned a" "aligned b" "i < 512" "j < 512"
  shows "tab_get (tab_set a i e v) b j = (if b = a \<and> j = i then e else tab_get v b j)"
  using slot_inj [OF assms(2,1,4,3)] by (auto simp: tab_get_def tab_set_def)

lemma tab_set_sel [simp]:
  "pm (tab_set a i e v) = pm v" "cow_tab (tab_set a i e v) = cow_tab v"
  "hhdm_ready (tab_set a i e v) = hhdm_ready v" "cr3_reg (tab_set a i e v) = cr3_reg v"
  "first_4k_mapped (tab_set a i e v) = first_4k_mapped v"
  by (simp_all add: tab_set_def)

text \<open>A loop that stores one value per index of a page: what memory holds afterwards.\<close>

lemma fill_page:
  fixes g :: "u64 \<Rightarrow> vmm \<Rightarrow> u64" and v :: vmm
  assumes t: "aligned t" and n: "n \<le> 512"
    and g: "\<And>i v v'. i < 512 \<Longrightarrow> (\<And>b j. aligned b \<Longrightarrow> j < 512 \<Longrightarrow> b \<noteq> t \<Longrightarrow> tab_get v' b j = tab_get v b j) \<Longrightarrow> g i v' = g i v"
  defines "w \<equiv> for_idx n (\<lambda>i v. tab_set t i (g i v) v) v"
  shows "pm w = pm v \<and> cow_tab w = cow_tab v \<and> hhdm_ready w = hhdm_ready v \<and> cr3_reg w = cr3_reg v \<and>
    first_4k_mapped w = first_4k_mapped v \<and>
    (\<forall>b j. aligned b \<longrightarrow> j < 512 \<longrightarrow> tab_get w b j = (if b = t \<and> unat j < n then g j v else tab_get v b j))"
  using n unfolding w_def
proof (induction n)
  case 0
  then show ?case by (simp add: for_idx_def)
next
  case (Suc n)
  let ?w = "for_idx n (\<lambda>i v. tab_set t i (g i v) v) v"
  have IH: "pm ?w = pm v" "cow_tab ?w = cow_tab v" "hhdm_ready ?w = hhdm_ready v" "cr3_reg ?w = cr3_reg v"
    "first_4k_mapped ?w = first_4k_mapped v"
    "\<And>b j. aligned b \<Longrightarrow> j < 512 \<Longrightarrow> tab_get ?w b j = (if b = t \<and> unat j < n then g j v else tab_get v b j)"
    using Suc by auto
  have step: "for_idx (Suc n) (\<lambda>i v. tab_set t i (g i v) v) v = tab_set t (of_nat n) (g (of_nat n) ?w) ?w"
    by (simp add: for_idx_def)
  have n512: "(of_nat n :: u64) < 512" using Suc.prems by (simp add: of_nat_512)
  have gn: "g (of_nat n) ?w = g (of_nat n) v" by (rule g [OF n512]) (simp add: IH)
  have un: "unat (of_nat n :: u64) = n" using Suc.prems by (simp add: unat_of_nat)
  have "tab_get (tab_set t (of_nat n) (g (of_nat n) ?w) ?w) b j =
      (if b = t \<and> unat j < Suc n then g j v else tab_get v b j)" if "aligned b" "j < 512" for b j
  proof -
    have "j = of_nat n \<longleftrightarrow> unat j = n" using un word_eq_by_unat by fastforce
    then show ?thesis using that t n512 gn un IH(6) [OF that] by (auto simp: tab_get_set less_Suc_eq)
  qed
  then show ?case unfolding step by (simp add: IH)
qed

lemma zero_table_spec:
  assumes "aligned t"
  shows "pm (zero_table t v) = pm v \<and> cow_tab (zero_table t v) = cow_tab v \<and>
    hhdm_ready (zero_table t v) = hhdm_ready v \<and> cr3_reg (zero_table t v) = cr3_reg v \<and>
    first_4k_mapped (zero_table t v) = first_4k_mapped v \<and>
    (\<forall>b j. aligned b \<longrightarrow> j < 512 \<longrightarrow> tab_get (zero_table t v) b j = (if b = t then 0 else tab_get v b j))"
  using fill_page [OF assms, of 512 "\<lambda>i v. 0" v]
  by (simp add: zero_table_def word_less_nat_alt)

lemma copy_page_spec:
  assumes "aligned t" "aligned src" "src \<noteq> t"
  shows "pm (copy_page t src v) = pm v \<and> cow_tab (copy_page t src v) = cow_tab v \<and>
    hhdm_ready (copy_page t src v) = hhdm_ready v \<and> cr3_reg (copy_page t src v) = cr3_reg v \<and>
    first_4k_mapped (copy_page t src v) = first_4k_mapped v \<and>
    (\<forall>b j. aligned b \<longrightarrow> j < 512 \<longrightarrow> tab_get (copy_page t src v) b j = (if b = t then tab_get v src j else tab_get v b j))"
  using fill_page [OF assms(1), of 512 "\<lambda>i v. tab_get v src i" v] assms
  by (simp add: copy_page_def word_less_nat_alt)

section \<open>Trees of tables\<close>

text \<open>
  A place in an address space is the list of indices from the root, the last one first: \<open>[]\<close> is
  the PML4, \<open>[i]\<close> the PDPT behind its entry \<open>i\<close>, and three indices name a page table. User places
  start in the lower half of the PML4.
\<close>

type_synonym place = "u64 list"

definition vpath :: "place \<Rightarrow> bool" where
  "vpath p \<longleftrightarrow> length p \<le> 3 \<and> (\<forall>i \<in> set p. i < 512) \<and> (p \<noteq> [] \<longrightarrow> last p < 256)"

lemma vpath_Nil [simp]: "vpath []"
  by (simp add: vpath_def)

lemma vpath_Cons: "vpath (i # p) \<longleftrightarrow> vpath p \<and> length p < 3 \<and> i < 512 \<and> (p = [] \<longrightarrow> i < 256)"
  by (auto simp: vpath_def)

definition next_table :: "vmm \<Rightarrow> u64 \<Rightarrow> u64 \<Rightarrow> u64 option" where
  "next_table v t i = (let e = tab_get v t i in if user_table_entry e then Some (e AND ADDR_MASK) else None)"

primrec node :: "vmm \<Rightarrow> u64 \<Rightarrow> place \<Rightarrow> u64 option" where
  "node v R [] = Some R"
| "node v R (i # p) = (case node v R p of None \<Rightarrow> None | Some t \<Rightarrow> next_table v t i)"

lemma node_aligned: "aligned R \<Longrightarrow> node v R p = Some t \<Longrightarrow> aligned t"
  by (cases p) (auto simp: next_table_def Let_def split: option.splits if_splits)

text \<open>The leaf entry of a place, 0 where the tables do not reach it.\<close>

definition pte :: "vmm \<Rightarrow> u64 \<Rightarrow> place \<Rightarrow> u64 \<Rightarrow> u64" where
  "pte v R p i = (case node v R p of None \<Rightarrow> 0 | Some t \<Rightarrow> tab_get v t i)"

definition leaf_place :: "place \<Rightarrow> u64 \<Rightarrow> bool" where
  "leaf_place p i \<longleftrightarrow> vpath p \<and> length p = 3 \<and> i < 512"

definition mapped :: "u64 \<Rightarrow> bool" where
  "mapped e \<longleftrightarrow> present e \<and> user e"

lemma mapped_0 [simp]: "\<not> mapped 0"
  by (simp add: mapped_def)

definition maps :: "u64 set \<Rightarrow> vmm \<Rightarrow> u64 \<Rightarrow> (u64 \<times> place \<times> u64) set" where
  "maps S v a = {(R, p, i). R \<in> S \<and> leaf_place p i \<and> mapped (pte v R p i) \<and> pte v R p i AND ADDR_MASK = a}"

definition is_free :: "vmm \<Rightarrow> u64 \<Rightarrow> bool" where
  "is_free v a \<longleftrightarrow> unat a div 4096 \<in> free_frames (pm v)"

text \<open>The tables of a set \<open>S\<close> of roots form disjoint trees of pages that are in use.\<close>

definition trees_ok :: "u64 set \<Rightarrow> vmm \<Rightarrow> bool" where
  "trees_ok S v \<longleftrightarrow> hhdm_ready v \<and> pmm_inv (pm v) \<and> finite S \<and>
     (\<forall>R \<in> S. aligned R \<and> R \<noteq> 0 \<and> R \<noteq> PML4_PHYS) \<and>
     (\<forall>R \<in> S. \<forall>p t. vpath p \<longrightarrow> node v R p = Some t \<longrightarrow> t \<noteq> 0 \<and> \<not> is_free v t) \<and>
     (\<forall>R \<in> S. \<forall>R' \<in> S. \<forall>p q t. vpath p \<longrightarrow> vpath q \<longrightarrow> node v R p = Some t \<longrightarrow> node v R' q = Some t \<longrightarrow>
        R = R' \<and> p = q) \<and>
     (\<forall>R \<in> S. \<forall>p t i. vpath (i # p) \<longrightarrow> node v R p = Some t \<longrightarrow>
        tab_get v t i = 0 \<or> user_table_entry (tab_get v t i)) \<and>
     (\<forall>R \<in> S. \<forall>p i. leaf_place p i \<longrightarrow> pte v R p i = 0 \<or> mapped (pte v R p i))"

text \<open>Mapped pages are in use and no tables, and the reference table counts their mappings.\<close>

definition frames_ok :: "u64 set \<Rightarrow> vmm \<Rightarrow> bool" where
  "frames_ok S v \<longleftrightarrow> cow_wf (cow_tab v) \<and>
     (\<forall>a. maps S v a \<noteq> {} \<longrightarrow> \<not> is_free v a \<and> (\<forall>R \<in> S. \<forall>p. vpath p \<longrightarrow> node v R p \<noteq> Some a)) \<and>
     (\<forall>a. cow_count (cow_tab v) a = max 1 (card (maps S v a)))"

definition spaces_ok :: "u64 set \<Rightarrow> vmm \<Rightarrow> bool" where
  "spaces_ok S v \<longleftrightarrow> trees_ok S v \<and> frames_ok S v"

lemma trees_okD:
  assumes "trees_ok S v" "R \<in> S"
  shows "hhdm_ready v" "pmm_inv (pm v)" "aligned R" "R \<noteq> 0" "R \<noteq> PML4_PHYS"
    and "vpath p \<Longrightarrow> node v R p = Some t \<Longrightarrow> t \<noteq> 0 \<and> \<not> is_free v t \<and> aligned t"
    and "R' \<in> S \<Longrightarrow> vpath p \<Longrightarrow> vpath q \<Longrightarrow> node v R p = Some t \<Longrightarrow> node v R' q = Some t \<Longrightarrow> R = R' \<and> p = q"
    and "vpath (i # p) \<Longrightarrow> node v R p = Some t \<Longrightarrow> tab_get v t i = 0 \<or> user_table_entry (tab_get v t i)"
    and "leaf_place p i \<Longrightarrow> pte v R p i = 0 \<or> mapped (pte v R p i)"
  using assms node_aligned unfolding trees_ok_def by metis+

text \<open>Tables only depend on the slots of their ancestors.\<close>

lemma node_cong:
  assumes "\<And>p t i. vpath (i # p) \<Longrightarrow> node v R p = Some t \<Longrightarrow> tab_get v' t i = tab_get v t i"
  shows "vpath p \<Longrightarrow> node v' R p = node v R p"
proof (induction p)
  case (Cons i p)
  then have "node v' R p = node v R p" by (simp add: vpath_Cons)
  then show ?case using assms [OF Cons.prems] by (auto simp: next_table_def split: option.splits)
qed simp

text \<open>Storing a leaf entry changes no table and only that entry.\<close>

lemma set_leaf:
  assumes ok: "trees_ok S v" and R: "R \<in> S" and p: "leaf_place p i" "node v R p = Some t"
    and mem': "\<forall>b j. aligned b \<longrightarrow> j < 512 \<longrightarrow> \<not> is_free v b \<longrightarrow>
        tab_get v' b j = (if b = t \<and> j = i then e else tab_get v b j)"
    and R': "R' \<in> S"
  shows "vpath q \<Longrightarrow> node v' R' q = node v R' q"
    and "leaf_place q j \<Longrightarrow> pte v' R' q j = (if R' = R \<and> q = p \<and> j = i then e else pte v R' q j)"
proof -
  have mem: "tab_get v' b j = (if b = t \<and> j = i then e else tab_get v b j)"
    if "aligned b" "j < 512" "\<not> is_free v b" for b j using mem' that by blast
  have pv: "vpath p" "length p = 3" using p by (auto simp: leaf_place_def)
  show n: "vpath q \<Longrightarrow> node v' R' q = node v R' q" for q
  proof (rule node_cong)
    fix q u j assume q: "vpath (j # q)" "node v R' q = Some u"
    have qv: "vpath q" "length q < 3" "j < 512" using q(1) by (auto simp: vpath_Cons)
    have "u \<noteq> t" using trees_okD(7) [OF ok R' R qv(1) pv(1) q(2)] p(2) pv(2) qv(2) by auto
    then show "tab_get v' u j = tab_get v u j"
      using mem trees_okD(6) [OF ok R' qv(1) q(2)] qv(3) by simp
  qed
  show "pte v' R' q j = (if R' = R \<and> q = p \<and> j = i then e else pte v R' q j)" if l: "leaf_place q j"
  proof (cases "node v R' q")
    case None
    then show ?thesis using n [of q] l p by (auto simp: pte_def leaf_place_def)
  next
    case (Some u)
    have qv: "vpath q" "j < 512" using l by (auto simp: leaf_place_def)
    have "tab_get v' u j = (if u = t \<and> j = i then e else tab_get v u j)"
      using mem trees_okD(6) [OF ok R' qv(1) Some] qv by simp
    moreover have "u = t \<longleftrightarrow> R' = R \<and> q = p"
      using trees_okD(7) [OF ok R' R qv(1) pv(1) Some] p(2) Some by auto
    ultimately show ?thesis using Some n [OF qv(1)] by (auto simp: pte_def)
  qed
qed

text \<open>Linking a zeroed page that was free as the table of place \<open>i # p\<close> adds that table only.\<close>

lemma link_table:
  assumes ok: "trees_ok S v" and R: "R \<in> S" and p: "vpath (i # p)" "node v R p = Some t"
    and np: "\<not> present (tab_get v t i)" and b: "aligned b" "b \<noteq> 0" "is_free v b"
    and mem': "\<forall>c j. aligned c \<longrightarrow> j < 512 \<longrightarrow> tab_get v' c j =
        (if c = b then 0 else if c = t \<and> j = i then b OR PTE_USER_FLAGS else tab_get v c j)"
    and pm: "pmm_inv (pm v')" "free_frames (pm v') = free_frames (pm v) - {unat b div 4096}"
    and hh: "hhdm_ready v' = hhdm_ready v"
  shows "R' \<in> S \<Longrightarrow> vpath q \<Longrightarrow> node v' R' q = (if R' = R \<and> q = i # p then Some b else node v R' q)"
    and "R' \<in> S \<Longrightarrow> leaf_place q j \<Longrightarrow> pte v' R' q j = pte v R' q j"
    and "trees_ok S v'"
proof -
  have mem: "tab_get v' c j = (if c = b then 0 else if c = t \<and> j = i then b OR PTE_USER_FLAGS else tab_get v c j)"
    if "aligned c" "j < 512" for c j using mem' that by blast
  have pv: "vpath p" "i < 512" "length p < 3" using p(1) by (auto simp: vpath_Cons)
  have tb: "t \<noteq> b" "aligned t" using trees_okD(6) [OF ok R pv(1) p(2)] b(3) by auto
  have nb: "u \<noteq> b" if "R' \<in> S" "vpath q" "node v R' q = Some u" for R' q u
    using trees_okD(6) [OF ok that] b(3) by auto
  have none: "node v R (i # p) = None"
    using p(2) np by (simp add: next_table_def user_table_entry_def Let_def)
  show n: "node v' R' q = (if R' = R \<and> q = i # p then Some b else node v R' q)"
    if "R' \<in> S" "vpath q" for R' q
    using that
  proof (induction q)
    case Nil
    then show ?case by simp
  next
    case (Cons j q)
    have qv: "vpath q" "j < 512" using Cons.prems(2) by (auto simp: vpath_Cons)
    have IH: "node v' R' q = (if R' = R \<and> q = i # p then Some b else node v R' q)" using Cons qv by simp
    show ?case
    proof (cases "R' = R \<and> q = i # p")
      case True
      then have "next_table v' b j = None" using mem [OF b(1) qv(2)] by (simp add: next_table_def)
      then show ?thesis using True IH none by simp
    next
      case False
      show ?thesis
      proof (cases "node v R' q")
        case None
        then show ?thesis using IH False p(2) by (auto simp del: node.simps simp add: node.simps(2))
      next
        case (Some u)
        have u: "u \<noteq> b" "aligned u" using nb trees_okD(6) [OF ok] Cons.prems(1) qv(1) Some by auto
        have ut: "u = t \<longleftrightarrow> R' = R \<and> q = p"
          using trees_okD(7) [OF ok Cons.prems(1) R qv(1) pv(1) Some] p(2) Some by auto
        have "next_table v' u j = (if u = t \<and> j = i then Some b else next_table v u j)"
          using mem [OF u(2) qv(2)] u(1) user_entry_flags [OF b(1)] b(1) user_flags_bits
          by (simp add: next_table_def)
        then show ?thesis using IH False Some ut by auto
      qed
    qed
  qed
  show pt: "pte v' R' q j = pte v R' q j" if "R' \<in> S" "leaf_place q j" for R' q j
  proof -
    have qv: "vpath q" "j < 512" "length q = 3" using that(2) by (auto simp: leaf_place_def)
    show ?thesis
    proof (cases "R' = R \<and> q = i # p")
      case True
      then have "pte v' R' q j = tab_get v' b j" using n [OF that(1) qv(1)] by (simp add: pte_def)
      then show ?thesis using True none mem [OF b(1) qv(2)] by (simp add: pte_def)
    next
      case False
      show ?thesis
      proof (cases "node v R' q")
        case None
        then show ?thesis using n [OF that(1) qv(1)] False by (simp add: pte_def)
      next
        case (Some u)
        have u: "u \<noteq> b" "aligned u" using nb trees_okD(6) [OF ok] that(1) qv(1) Some by auto
        have "u \<noteq> t" using trees_okD(7) [OF ok that(1) R qv(1) pv(1) Some] p(2) qv(3) pv(3) by auto
        then show ?thesis using n [OF that(1) qv(1)] False Some mem [OF u(2) qv(2)] u(1) by (simp add: pte_def)
      qed
    qed
  qed
  have fr: "is_free v' a \<Longrightarrow> is_free v a" "\<not> is_free v' b" for a
    using pm(2) by (auto simp: is_free_def)
  show "trees_ok S v'"
    unfolding trees_ok_def
  proof (intro conjI ballI allI impI)
    show "hhdm_ready v'" using hh trees_okD(1) [OF ok R] by simp
    show "pmm_inv (pm v')" by (rule pm(1))
    show "finite S" using ok by (simp add: trees_ok_def)
    fix R' assume R': "R' \<in> S"
    show "aligned R'" "R' \<noteq> 0" "R' \<noteq> PML4_PHYS" using trees_okD(3-5) [OF ok R'] by auto
    { fix q u assume q: "vpath q" "node v' R' q = Some u"
      have "(R' = R \<and> q = i # p \<and> u = b) \<or> node v R' q = Some u"
        using n [OF R' q(1)] q(2) by (auto split: if_splits)
      then show "u \<noteq> 0" "\<not> is_free v' u" using b fr trees_okD(6) [OF ok R' q(1)] by auto }
    { fix R'' q r u assume a: "R'' \<in> S" "vpath q" "vpath r" "node v' R' q = Some u" "node v' R'' r = Some u"
      have "(R' = R \<and> q = i # p \<and> u = b) \<or> node v R' q = Some u"
        using n [OF R' a(2)] a(4) by (metis option.inject)
      moreover have "(R'' = R \<and> r = i # p \<and> u = b) \<or> node v R'' r = Some u"
        using n [OF a(1) a(3)] a(5) by (metis option.inject)
      ultimately have "R' = R'' \<and> q = r"
        using nb [OF R' a(2)] nb [OF a(1) a(3)] trees_okD(7) [OF ok R' a(1-3)] by blast
      then show "R' = R''" "q = r" by auto }
    { fix q u j assume a: "vpath (j # q)" "node v' R' q = Some u"
      have qv: "vpath q" "j < 512" using a(1) by (auto simp: vpath_Cons)
      show "tab_get v' u j = 0 \<or> user_table_entry (tab_get v' u j)"
      proof (cases "u = b")
        case True
        then show ?thesis using mem [OF b(1) qv(2)] by simp
      next
        case False
        then have u: "node v R' q = Some u" using n [OF R' qv(1)] a(2) by (auto split: if_splits)
        have "aligned u" using trees_okD(6) [OF ok R' qv(1) u] by simp
        then show ?thesis
          using mem [of u j] qv(2) False trees_okD(8) [OF ok R' a(1) u] user_entry_flags [OF b(1)] by simp
      qed }
    { fix q j assume a: "leaf_place q j"
      then show "pte v' R' q j = 0 \<or> mapped (pte v' R' q j)" using pt [OF R' a] trees_okD(9) [OF ok R' a] by simp }
  qed
qed

lemma frames_ok_cong:
  assumes "frames_ok S v" and "\<And>R p i. R \<in> S \<Longrightarrow> leaf_place p i \<Longrightarrow> pte v' R p i = pte v R p i"
    and "cow_tab v' = cow_tab v" "\<And>a. is_free v' a \<Longrightarrow> is_free v a"
    and "\<And>R p t. R \<in> S \<Longrightarrow> vpath p \<Longrightarrow> node v' R p = Some t \<Longrightarrow> node v R p = Some t \<or> is_free v t"
  shows "frames_ok S v'"
proof -
  have m: "maps S v' a = maps S v a" for a using assms(2) by (auto simp: maps_def)
  show ?thesis using assms(1,3-5) unfolding frames_ok_def m by metis
qed

lemma alloc_page_ok:
  assumes "pmm_inv (pm v)" "alloc_page v = (b, v1)" "b \<noteq> 0"
  shows "aligned b \<and> is_free v b \<and> pmm_inv (pm v1) \<and>
    free_frames (pm v1) = free_frames (pm v) - {unat b div 4096} \<and> (\<exists>s. v1 = v\<lparr>pm := s\<rparr>)"
proof -
  obtain s where s: "pmm_alloc (pm v) = (b, s)" "v1 = v\<lparr>pm := s\<rparr>"
    using assms(2) by (auto simp: alloc_page_def split: prod.splits)
  show ?thesis
    using any_page.page_of_get [OF assms(1) s(1) assms(3)] any_page.get_inv [OF assms(1) s(1)] s(2)
    by (auto simp: aligned_mod is_free_def)
qed

lemma alloc_page_fail: "pmm_inv (pm v) \<Longrightarrow> alloc_page v = (0, v1) \<Longrightarrow> v1 = v"
  using any_page.get_fail [of "pm v"] by (auto simp: alloc_page_def split: prod.splits)

lemma ensure_table_ok:
  assumes tr: "trees_ok S v" and R: "R \<in> S" and p: "vpath (i # p)" "node v R p = Some t"
    and run: "vmm_ensure_table t i PTE_USER_FLAGS v = (r, v')"
  shows "trees_ok S v'" "cow_tab v' = cow_tab v" "cr3_reg v' = cr3_reg v"
    and "R' \<in> S \<Longrightarrow> leaf_place q j \<Longrightarrow> pte v' R' q j = pte v R' q j"
    and "R' \<in> S \<Longrightarrow> vpath q \<Longrightarrow> node v R' q = Some u \<Longrightarrow> node v' R' q = Some u"
    and "r = Some b \<Longrightarrow> node v' R (i # p) = Some b"
    and "r = None \<Longrightarrow> v' = v \<and> fst (alloc_page v) = 0"
    and "is_free v' a \<Longrightarrow> is_free v a"
    and "R' \<in> S \<Longrightarrow> vpath q \<Longrightarrow> node v' R' q = Some u \<Longrightarrow> node v R' q = Some u \<or> is_free v u"
    and "\<forall>c j. aligned c \<longrightarrow> j < 512 \<longrightarrow> \<not> is_free v c \<longrightarrow> (\<forall>q. vpath q \<longrightarrow> node v R q \<noteq> Some c) \<longrightarrow>
      tab_get v' c j = tab_get v c j"
proof -
  have pv: "vpath p" "i < 512" using p(1) by (auto simp: vpath_Cons)
  have "trees_ok S v' \<and> cow_tab v' = cow_tab v \<and> cr3_reg v' = cr3_reg v \<and>
    (\<forall>R' \<in> S. \<forall>q j. leaf_place q j \<longrightarrow> pte v' R' q j = pte v R' q j) \<and>
    (\<forall>R' \<in> S. \<forall>q u. vpath q \<longrightarrow> node v R' q = Some u \<longrightarrow> node v' R' q = Some u) \<and>
    (\<forall>b. r = Some b \<longrightarrow> node v' R (i # p) = Some b) \<and>
    (r = None \<longrightarrow> v' = v \<and> fst (alloc_page v) = 0) \<and>
    (\<forall>a. is_free v' a \<longrightarrow> is_free v a) \<and>
    (\<forall>R' \<in> S. \<forall>q u. vpath q \<longrightarrow> node v' R' q = Some u \<longrightarrow> node v R' q = Some u \<or> is_free v u) \<and>
    (\<forall>c j. aligned c \<longrightarrow> j < 512 \<longrightarrow> \<not> is_free v c \<longrightarrow> (\<forall>q. vpath q \<longrightarrow> node v R q \<noteq> Some c) \<longrightarrow>
      tab_get v' c j = tab_get v c j)"
  proof (cases "present (tab_get v t i)")
    case True
    then have ue: "user_table_entry (tab_get v t i)" using trees_okD(8) [OF tr R p] by auto
    then have "r = Some (tab_get v t i AND ADDR_MASK)" "v' = v"
      using run True by (auto simp: vmm_ensure_table_def Let_def user_table_entry_def user_def)
    then show ?thesis using tr p(2) ue by (auto simp: next_table_def)
  next
    case np: False
    obtain b v1 where al: "alloc_page v = (b, v1)" by fastforce
    show ?thesis
    proof (cases "b = 0")
      case True
      then have "r = None" "v' = v"
        using run np al alloc_page_fail [OF trees_okD(2) [OF tr R]] by (auto simp: vmm_ensure_table_def Let_def)
      then show ?thesis using tr al True by auto
    next
      case False
      have r: "r = Some b" and v': "v' = tab_set t i (b OR PTE_USER_FLAGS) (zero_table b v1)"
        using run np al False by (auto simp: vmm_ensure_table_def Let_def)
      obtain s where b: "aligned b" "is_free v b" "pmm_inv (pm v1)"
        "free_frames (pm v1) = free_frames (pm v) - {unat b div 4096}" and v1: "v1 = v\<lparr>pm := s\<rparr>"
        using alloc_page_ok [OF trees_okD(2) [OF tr R] al False] by auto
      note z = zero_table_spec [OF b(1), of v1]
      have t: "aligned t" "t \<noteq> b" using trees_okD(6) [OF tr R pv(1) p(2)] b(2) by auto
      have "tab_get v' c j = (if c = b then 0 else if c = t \<and> j = i then b OR PTE_USER_FLAGS else tab_get v c j)"
        if "aligned c" "j < 512" for c j
        using that t z pv(2) unfolding v' tab_get_set [OF t(1) that(1) pv(2) that(2)]
        by (auto simp: v1 tab_get_def)
      then have mem: "\<forall>c j. aligned c \<longrightarrow> j < 512 \<longrightarrow> tab_get v' c j =
          (if c = b then 0 else if c = t \<and> j = i then b OR PTE_USER_FLAGS else tab_get v c j)" by blast
      have pm: "pmm_inv (pm v')" "free_frames (pm v') = free_frames (pm v) - {unat b div 4096}"
        "hhdm_ready v' = hhdm_ready v" and cw: "cow_tab v' = cow_tab v" "cr3_reg v' = cr3_reg v"
        using z b v1 by (simp_all add: v')
      note L = link_table [OF tr R p np b(1) False b(2) mem pm]
      have f: "is_free v' a \<Longrightarrow> is_free v a" for a using pm(2) by (auto simp: is_free_def)
      have nn: "node v R (i # p) = None" using p(2) np by (simp add: next_table_def user_table_entry_def Let_def)
      have bk: "node v R' q = Some u \<or> is_free v u" if "R' \<in> S" "vpath q" "node v' R' q = Some u" for R' q u
        using L(1) [OF that(1,2)] that(3) b(2) by (auto split: if_splits)
      have "\<forall>c j. aligned c \<longrightarrow> j < 512 \<longrightarrow> \<not> is_free v c \<longrightarrow> (\<forall>q. vpath q \<longrightarrow> node v R q \<noteq> Some c) \<longrightarrow>
      tab_get v' c j = tab_get v c j"
        using mem b(2) p(2) pv(1) by auto
      then show ?thesis using L r cw f bk p(1) R nn by (auto simp del: node.simps)
    qed
  qed
  then show "trees_ok S v'" "cow_tab v' = cow_tab v" "cr3_reg v' = cr3_reg v"
    and "R' \<in> S \<Longrightarrow> leaf_place q j \<Longrightarrow> pte v' R' q j = pte v R' q j"
    and "R' \<in> S \<Longrightarrow> vpath q \<Longrightarrow> node v R' q = Some u \<Longrightarrow> node v' R' q = Some u"
    and "r = Some b \<Longrightarrow> node v' R (i # p) = Some b"
    and "r = None \<Longrightarrow> v' = v \<and> fst (alloc_page v) = 0"
    and "is_free v' a \<Longrightarrow> is_free v a"
    and "R' \<in> S \<Longrightarrow> vpath q \<Longrightarrow> node v' R' q = Some u \<Longrightarrow> node v R' q = Some u \<or> is_free v u"
    and "\<forall>c j. aligned c \<longrightarrow> j < 512 \<longrightarrow> \<not> is_free v c \<longrightarrow> (\<forall>q. vpath q \<longrightarrow> node v R q \<noteq> Some c) \<longrightarrow>
      tab_get v' c j = tab_get v c j"
    by blast+
qed

section \<open>Mapping a page\<close>

definition va_place :: "u64 \<Rightarrow> place" where
  "va_place va = [pd_ix va, pdpt_ix va, pml4_ix va]"

lemma ix_less: "x AND (511 :: u64) < 512"
proof -
  have "(511 :: u64) = mask 9" by (simp add: mask_eq_exp_minus_1)
  then have "unat (x AND 511) = unat x mod 512" by (simp only: unat_and_mask) simp
  then show ?thesis by (simp add: word_less_nat_alt)
qed

lemma ix_bounds [simp]: "pml4_ix va < 512" "pdpt_ix va < 512" "pd_ix va < 512" "pt_ix va < 512"
  by (simp_all only: pml4_ix_def pdpt_ix_def pd_ix_def pt_ix_def ix_less)

lemma leaf_place_va: "pml4_ix va < 256 \<Longrightarrow> leaf_place (va_place va) (pt_ix va)"
  by (simp add: leaf_place_def va_place_def vpath_def)

lemma user_half: "pml4_ix va < 256 \<Longrightarrow> \<not> kernel_half va"
  by (auto simp: kernel_half_def HHDM_PML4_INDEX_def KERNEL_PML4_INDEX_def)

lemma root_of_space: "trees_ok S v \<Longrightarrow> R \<in> S \<Longrightarrow> root_of R = R"
  by (auto simp: root_of_def trees_ok_def)

text \<open>A store to a leaf keeps the trees.\<close>

lemma set_leaf_trees:
  assumes ok: "trees_ok S v" and R: "R \<in> S" and p: "leaf_place p i" "node v R p = Some t"
    and mem: "\<forall>b j. aligned b \<longrightarrow> j < 512 \<longrightarrow> \<not> is_free v b \<longrightarrow>
        tab_get v' b j = (if b = t \<and> j = i then e else tab_get v b j)"
    and e: "e = 0 \<or> mapped e"
    and env: "hhdm_ready v'" "pmm_inv (pm v')"
    and fr: "\<forall>R' \<in> S. \<forall>q u. vpath q \<longrightarrow> node v R' q = Some u \<longrightarrow> \<not> is_free v' u"
  shows "trees_ok S v'"
proof -
  note n = set_leaf(1) [OF ok R p mem] and pt = set_leaf(2) [OF ok R p mem]
  show ?thesis
    unfolding trees_ok_def
  proof (intro conjI ballI allI impI)
    show "hhdm_ready v'" "pmm_inv (pm v')" by (fact env)+
    show "finite S" using ok by (simp add: trees_ok_def)
    fix R' assume R': "R' \<in> S"
    show "aligned R'" "R' \<noteq> 0" "R' \<noteq> PML4_PHYS" using trees_okD(3-5) [OF ok R'] by auto
    { fix q u assume q: "vpath q" "node v' R' q = Some u"
      then show "u \<noteq> 0" "\<not> is_free v' u" using n [OF R' q(1)] fr R' trees_okD(6) [OF ok R' q(1)] by auto }
    { fix R'' q r u assume a: "R'' \<in> S" "vpath q" "vpath r" "node v' R' q = Some u" "node v' R'' r = Some u"
      then have "R' = R'' \<and> q = r"
        using n [OF R' a(2)] n [OF a(1) a(3)] trees_okD(7) [OF ok R' a(1-3)] by simp
      then show "R' = R''" "q = r" by auto }
    { fix q u j assume a: "vpath (j # q)" "node v' R' q = Some u"
      have qv: "vpath q" "j < 512" "length q < 3" using a(1) by (auto simp: vpath_Cons)
      have u: "node v R' q = Some u" using n [OF R' qv(1)] a(2) by simp
      have pv: "vpath p" "length p = 3" using p(1) by (auto simp: leaf_place_def)
      have "u \<noteq> t" using trees_okD(7) [OF ok R' R qv(1) pv(1) u] p(2) pv(2) qv(3) by auto
      then have "tab_get v' u j = tab_get v u j" using mem trees_okD(6) [OF ok R' qv(1) u] qv(2) by auto
      then show "tab_get v' u j = 0 \<or> user_table_entry (tab_get v' u j)" using trees_okD(8) [OF ok R' a(1) u] by simp }
    { fix q j assume a: "leaf_place q j"
      then show "pte v' R' q j = 0 \<or> mapped (pte v' R' q j)" using pt [OF R' a] trees_okD(9) [OF ok R' a] e by simp }
  qed
qed

lemma map_flags_trees:
  assumes tr: "trees_ok S v" and R: "R \<in> S" and va: "pml4_ix va < 256" and ph: "aligned phys"
    and fl: "low12 flags" "bit flags 0" "bit flags 2"
    and run: "vmm_map_user_flags R va phys flags v = (ok, v')"
  shows "trees_ok S v'" "cow_tab v' = cow_tab v" "cr3_reg v' = cr3_reg v"
    and "is_free v' a \<Longrightarrow> is_free v a"
    and "R' \<in> S \<Longrightarrow> vpath q \<Longrightarrow> node v' R' q = Some u \<Longrightarrow> node v R' q = Some u \<or> is_free v u"
    and "R' \<in> S \<Longrightarrow> vpath q \<Longrightarrow> node v R' q = Some u \<Longrightarrow> node v' R' q = Some u"
    and "R' \<in> S \<Longrightarrow> leaf_place q j \<Longrightarrow> pte v' R' q j =
      (if ok \<and> R' = R \<and> q = va_place va \<and> j = pt_ix va then phys OR flags else pte v R' q j)"
    and "\<forall>c j. aligned c \<longrightarrow> j < 512 \<longrightarrow> \<not> is_free v c \<longrightarrow> (\<forall>q. vpath q \<longrightarrow> node v R q \<noteq> Some c) \<longrightarrow>
      tab_get v' c j = tab_get v c j"
proof -
  define Q where "Q w ok' \<longleftrightarrow> trees_ok S w \<and> cow_tab w = cow_tab v \<and> cr3_reg w = cr3_reg v \<and>
      (\<forall>a. is_free w a \<longrightarrow> is_free v a) \<and>
      (\<forall>R' \<in> S. \<forall>q u. vpath q \<longrightarrow> node w R' q = Some u \<longrightarrow> node v R' q = Some u \<or> is_free v u) \<and>
      (\<forall>R' \<in> S. \<forall>q u. vpath q \<longrightarrow> node v R' q = Some u \<longrightarrow> node w R' q = Some u) \<and>
      (\<forall>R' \<in> S. \<forall>q j. leaf_place q j \<longrightarrow> pte w R' q j =
         (if ok' \<and> R' = R \<and> q = va_place va \<and> j = pt_ix va then phys OR flags else pte v R' q j)) \<and>
      (\<forall>c j. aligned c \<longrightarrow> j < 512 \<longrightarrow> \<not> is_free v c \<longrightarrow> (\<forall>q. vpath q \<longrightarrow> node v R q \<noteq> Some c) \<longrightarrow>
      tab_get w c j = tab_get v c j)" for w ok'
  have Q0: "Q v False" using tr by (simp add: Q_def)
  have step: "Q w' False \<and> (\<forall>b. r = Some b \<longrightarrow> node w' R (i # p) = Some b)"
    if w: "Q w False" and p: "vpath (i # p)" "node w R p = Some t"
      and e: "vmm_ensure_table t i PTE_USER_FLAGS w = (r, w')" for w w' i p t r
  proof -
    have "trees_ok S w" using w by (simp add: Q_def)
    note E = ensure_table_ok [OF this R p e]
    have "tab_get w' c j = tab_get v c j"
      if c: "aligned c" "j < 512" "\<not> is_free v c" "\<forall>q. vpath q \<longrightarrow> node v R q \<noteq> Some c" for c j
    proof -
      have "\<not> is_free w c" "\<forall>q. vpath q \<longrightarrow> node w R q \<noteq> Some c" using w c(3,4) R unfolding Q_def by blast+
      then have "tab_get w' c j = tab_get w c j" using E(10) c(1,2) by blast
      moreover have "tab_get w c j = tab_get v c j" using w c unfolding Q_def by blast
      ultimately show ?thesis by simp
    qed
    then show ?thesis using w E(1-9) unfolding Q_def by simp (metis)
  qed
  have "Q v' ok"
  proof (cases "va AND (PAGE_4K - 1) \<noteq> 0")
    case True
    then show ?thesis using run Q0 by (simp add: vmm_map_user_flags_def)
  next
    case False
    have va0: "va AND 0xFFF = 0" using False by simp
    have ph0: "phys AND 0xFFF = 0" using ph by (simp add: aligned_4095)
    have hh: "hhdm_ready v" by (rule trees_okD(1) [OF tr R])
    note simps = vmm_map_user_flags_def va0 ph0 hh user_half [OF va] root_of_space [OF tr R]
    obtain r1 v1 where 1: "vmm_ensure_table R (pml4_ix va) PTE_USER_FLAGS v = (r1, v1)" by fastforce
    have S1: "Q v1 False \<and> (\<forall>b. r1 = Some b \<longrightarrow> node v1 R [pml4_ix va] = Some b)"
      by (rule step [OF Q0 _ _ 1]) (use va in \<open>simp_all add: vpath_def\<close>)
    show ?thesis
    proof (cases r1)
      case None
      then show ?thesis using run 1 S1 by (simp add: simps)
    next
      case (Some t3)
      obtain r2 v2 where 2: "vmm_ensure_table t3 (pdpt_ix va) PTE_USER_FLAGS v1 = (r2, v2)" by fastforce
      have S2: "Q v2 False \<and> (\<forall>b. r2 = Some b \<longrightarrow> node v2 R [pdpt_ix va, pml4_ix va] = Some b)"
        by (rule step [OF _ _ _ 2]) (use va S1 Some in \<open>simp_all add: vpath_def\<close>)
      show ?thesis
      proof (cases r2)
        case None
        then show ?thesis using run 1 2 S2 Some by (simp add: simps)
      next
        case Some2: (Some t2)
        obtain r3 v3 where 3: "vmm_ensure_table t2 (pd_ix va) PTE_USER_FLAGS v2 = (r3, v3)" by fastforce
        have S3: "Q v3 False \<and> (\<forall>b. r3 = Some b \<longrightarrow> node v3 R (va_place va) = Some b)"
          unfolding va_place_def by (rule step [OF _ _ _ 3]) (use va S2 Some2 in \<open>simp_all add: vpath_def\<close>)
        show ?thesis
        proof (cases r3)
          case None
          then show ?thesis using run 1 2 3 S3 Some Some2 by (simp add: simps)
        next
          case Some3: (Some t1)
          have v': "v' = tab_set t1 (pt_ix va) (phys OR flags) v3" "ok"
            using run 1 2 3 Some Some2 Some3 by (simp_all add: simps)
          have tr3: "trees_ok S v3" and n3: "node v3 R (va_place va) = Some t1" using S3 Some3 by (auto simp: Q_def)
          have lp: "leaf_place (va_place va) (pt_ix va)" by (rule leaf_place_va [OF va])
          have t1: "aligned t1" using trees_okD(6) [OF tr3 R _ n3] lp by (simp add: leaf_place_def)
          have mem: "\<forall>b j. aligned b \<longrightarrow> j < 512 \<longrightarrow> \<not> is_free v3 b \<longrightarrow>
              tab_get v' b j = (if b = t1 \<and> j = pt_ix va then phys OR flags else tab_get v3 b j)"
            unfolding v' using t1 by (simp add: tab_get_set)
          have "mapped (phys OR flags)" unfolding mapped_def present_bit user_bit using ph fl by (simp add: entry_bit)
          then have "trees_ok S v'"
            using set_leaf_trees [OF tr3 R lp n3 mem] tr3 trees_okD(1,2,6) [OF tr3] R v'
            by (simp add: is_free_def)
          moreover have "\<forall>c j. aligned c \<longrightarrow> j < 512 \<longrightarrow> \<not> is_free v c \<longrightarrow> (\<forall>q. vpath q \<longrightarrow> node v R q \<noteq> Some c) \<longrightarrow>
      tab_get v' c j = tab_get v c j"
          proof (intro allI impI)
            fix c j assume c: "aligned c" "(j :: u64) < 512" "\<not> is_free v c" "\<forall>q. vpath q \<longrightarrow> node v R q \<noteq> Some c"
            have "\<not> is_free v3 c" "node v3 R (va_place va) \<noteq> Some c" "tab_get v3 c j = tab_get v c j"
              using S3 c R lp unfolding Q_def leaf_place_def by blast+
            then show "tab_get v' c j = tab_get v c j" using mem c(1,2) n3 by auto
          qed
          moreover note set_leaf [OF tr3 R lp n3 mem]
          ultimately show ?thesis using S3 v' unfolding Q_def
            by (simp add: is_free_def)
        qed
      qed
    qed
  qed
  then show "trees_ok S v'" "cow_tab v' = cow_tab v" "cr3_reg v' = cr3_reg v"
    and "is_free v' a \<Longrightarrow> is_free v a"
    and "R' \<in> S \<Longrightarrow> vpath q \<Longrightarrow> node v' R' q = Some u \<Longrightarrow> node v R' q = Some u \<or> is_free v u"
    and "R' \<in> S \<Longrightarrow> vpath q \<Longrightarrow> node v R' q = Some u \<Longrightarrow> node v' R' q = Some u"
    and "R' \<in> S \<Longrightarrow> leaf_place q j \<Longrightarrow> pte v' R' q j =
      (if ok \<and> R' = R \<and> q = va_place va \<and> j = pt_ix va then phys OR flags else pte v R' q j)"
    and "\<forall>c j. aligned c \<longrightarrow> j < 512 \<longrightarrow> \<not> is_free v c \<longrightarrow> (\<forall>q. vpath q \<longrightarrow> node v R q \<noteq> Some c) \<longrightarrow>
      tab_get v' c j = tab_get v c j"
    unfolding Q_def by blast+
qed

end
