(* ===== verification/Vmm_Maps.thy ===== *)
theory Vmm_Maps
  imports Vmm_Space
begin

text \<open>
  The operations on user mappings keep the invariant of \<open>Vmm_Space\<close>, and what each does to the
  mappings of every address space: mapping, unmapping, translation, copy-on-write, protection
  and the creation of an address space.
\<close>

lemma tab_get_sel [simp]:
  "tab_get (v\<lparr>cow_tab := c\<rparr>) b j = tab_get v b j" "tab_get (v\<lparr>pm := s\<rparr>) b j = tab_get v b j"
  "tab_get (v\<lparr>cr3_reg := r\<rparr>) b j = tab_get v b j"
  by (simp_all add: tab_get_def)

section \<open>Counting mappings\<close>

lemma finite_maps: "finite S \<Longrightarrow> finite (maps S v a)"
proof -
  assume "finite S"
  then have "finite (S \<times> {p :: place. length p = 3} \<times> (UNIV :: u64 set))"
    using finite_lists_length_eq [of "UNIV :: u64 set" 3] by simp
  moreover have "maps S v a \<subseteq> S \<times> {p. length p = 3} \<times> UNIV"
    by (auto simp: maps_def leaf_place_def)
  ultimately show ?thesis by (rule rev_finite_subset)
qed

text \<open>One leaf entry changes.\<close>

definition pte_upd :: "u64 set \<Rightarrow> vmm \<Rightarrow> vmm \<Rightarrow> u64 \<Rightarrow> place \<Rightarrow> u64 \<Rightarrow> u64 \<Rightarrow> bool" where
  "pte_upd S v v' R p i e \<longleftrightarrow> R \<in> S \<and> leaf_place p i \<and>
     (\<forall>R' \<in> S. \<forall>q j. leaf_place q j \<longrightarrow>
        pte v' R' q j = (if R' = R \<and> q = p \<and> j = i then e else pte v R' q j))"

lemma maps_upd:
  assumes "pte_upd S v v' R p i e"
  shows "maps S v' a = maps S v a - {(R, p, i)} \<union> (if mapped e \<and> e AND ADDR_MASK = a then {(R, p, i)} else {})"
proof (intro set_eqI)
  fix x :: "u64 \<times> place \<times> u64"
  obtain R' q j where x: "x = (R', q, j)" by (metis prod_cases3)
  have "R' \<in> S \<Longrightarrow> leaf_place q j \<Longrightarrow> pte v' R' q j = (if R' = R \<and> q = p \<and> j = i then e else pte v R' q j)"
    using assms by (auto simp: pte_upd_def)
  moreover have "R \<in> S" "leaf_place p i" using assms by (auto simp: pte_upd_def)
  ultimately show "x \<in> maps S v' a \<longleftrightarrow>
      x \<in> maps S v a - {(R, p, i)} \<union> (if mapped e \<and> e AND ADDR_MASK = a then {(R, p, i)} else {})"
    unfolding x maps_def by (cases "(R', q, j) = (R, p, i)") auto
qed

lemma card_swap:
  "finite M \<Longrightarrow> card (M - {x} \<union> (if c then {x} else {})) + (if x \<in> M then 1 else 0) =
    card M + (if c then 1 else 0)"
  using card_gt_0_iff [of M] by (cases "x \<in> M"; cases c) (auto simp: insert_absorb)

lemma maps_here: "R \<in> S \<Longrightarrow> leaf_place p i \<Longrightarrow> (R, p, i) \<in> maps S v a \<longleftrightarrow> mapped (pte v R p i) \<and> pte v R p i AND ADDR_MASK = a"
  by (simp add: maps_def)

lemma maps_aligned: "maps S v a \<noteq> {} \<Longrightarrow> aligned a"
  by (auto simp: maps_def)

lemma card_upd:
  assumes u: "pte_upd S v v' R p i e" and fin: "finite S"
  shows "card (maps S v' a) + (if mapped (pte v R p i) \<and> pte v R p i AND ADDR_MASK = a then 1 else 0) =
    card (maps S v a) + (if mapped e \<and> e AND ADDR_MASK = a then 1 else 0)"
proof -
  have here: "(R, p, i) \<in> maps S v a \<longleftrightarrow> mapped (pte v R p i) \<and> pte v R p i AND ADDR_MASK = a"
    using u by (simp add: maps_here pte_upd_def)
  have f: "finite (maps S v a)" using fin by (rule finite_maps)
  show ?thesis unfolding maps_upd [OF u] here [symmetric] by (rule card_swap [OF f])
qed

lemma spaces_okD:
  assumes "spaces_ok S v"
  shows "trees_ok S v" "frames_ok S v" "finite S" "cow_wf (cow_tab v)"
    and "cow_count (cow_tab v) a = max 1 (card (maps S v a))"
    and "maps S v a \<noteq> {} \<Longrightarrow> \<not> is_free v a"
    and "maps S v a \<noteq> {} \<Longrightarrow> R \<in> S \<Longrightarrow> vpath p \<Longrightarrow> node v R p \<noteq> Some a"
  using assms by (auto simp: spaces_ok_def frames_ok_def trees_ok_def)

text \<open>A page that nothing maps and no table occupies, but which is not free: just allocated.\<close>

definition fresh :: "u64 set \<Rightarrow> vmm \<Rightarrow> u64 \<Rightarrow> bool" where
  "fresh S v a \<longleftrightarrow> aligned a \<and> \<not> is_free v a \<and> maps S v a = {} \<and> (\<forall>R \<in> S. \<forall>p. vpath p \<longrightarrow> node v R p \<noteq> Some a)"

lemma map_user_flags_ok:
  assumes ok: "spaces_ok S v" and R: "R \<in> S" and va: "pml4_ix va < 256" and fr: "fresh S v phys"
    and un: "\<not> mapped (pte v R (va_place va) (pt_ix va))"
    and fl: "low12 flags" "bit flags 0" "bit flags 2"
    and run: "vmm_map_user_flags R va phys flags v = (r, v')"
  shows "spaces_ok S v'"
    and "if r then pte_upd S v v' R (va_place va) (pt_ix va) (phys OR flags)
         else \<forall>R' \<in> S. \<forall>q j. leaf_place q j \<longrightarrow> pte v' R' q j = pte v R' q j"
proof -
  note tr = spaces_okD(1) [OF ok] and al = fr [unfolded fresh_def, THEN conjunct1]
  note M = map_flags_trees [OF tr R va al fl run]
  let ?p = "va_place va" and ?i = "pt_ix va"
  have lp: "leaf_place ?p ?i" by (rule leaf_place_va [OF va])
  show C: "if r then pte_upd S v v' R ?p ?i (phys OR flags)
      else \<forall>R' \<in> S. \<forall>q j. leaf_place q j \<longrightarrow> pte v' R' q j = pte v R' q j"
    using M(7) R lp by (auto simp: pte_upd_def)
  show "spaces_ok S v'"
  proof (cases r)
    case False
    have P: "pte v' R' q j = pte v R' q j" if "R' \<in> S" "leaf_place q j" for R' q j
      using M(7) [OF that] False by simp
    have "frames_ok S v'" by (rule frames_ok_cong [OF spaces_okD(2) [OF ok] P M(2,4,5)])
    then show ?thesis using M(1) by (simp add: spaces_ok_def)
  next
    case True
    define e where "e = phys OR flags"
    have u: "pte_upd S v v' R ?p ?i e" using C True by (simp add: e_def)
    have mp: "mapped e" "e AND ADDR_MASK = phys"
      unfolding e_def using al fl by (simp_all add: mapped_def present_bit user_bit entry_bit)
    have fm: "maps S v phys = {}" using fr by (simp add: fresh_def)
    have card: "card (maps S v' a) = (if a = phys then 1 else card (maps S v a))" for a
      using card_upd [OF u spaces_okD(3) [OF ok], of a] unfolding mp(2) using un mp(1) fm
      by (cases "a = phys") simp_all
    have ms: "maps S v' a \<noteq> {} \<Longrightarrow> a = phys \<or> maps S v a \<noteq> {}" for a
      using maps_upd [OF u, of a] mp by (auto split: if_splits)
    have "frames_ok S v'"
      unfolding frames_ok_def
    proof (intro conjI allI impI ballI)
      show "cow_wf (cow_tab v')" using spaces_okD(4) [OF ok] M(2) by simp
      show "cow_count (cow_tab v') a = max 1 (card (maps S v' a))" for a
        using spaces_okD(5) [OF ok, of a] M(2) card [of a] fr by (auto simp: fresh_def)
      fix a assume m: "maps S v' a \<noteq> {}"
      show "\<not> is_free v' a" using ms [OF m] M(4) fr spaces_okD(6) [OF ok] by (auto simp: fresh_def)
      fix R' q assume q: "R' \<in> S" "vpath q"
      show "node v' R' q \<noteq> Some a"
        using ms [OF m] M(5) [OF q, of a] fr spaces_okD(6,7) [OF ok, of a] q by (auto simp: fresh_def)
    qed
    then show ?thesis using M(1) by (simp add: spaces_ok_def)
  qed
qed

section \<open>Translation\<close>

lemma walk_pt_node:
  assumes tr: "trees_ok S v" and R: "R \<in> S" and va: "pml4_ix va < 256"
  shows "walk_pt user_table_entry R va v = node v R (va_place va)"
  using trees_okD(1) [OF tr R] user_half [OF va] root_of_space [OF tr R]
  by (auto simp: walk_pt_def va_place_def next_table_def Let_def)

lemma walk_pt_table_entry:
  assumes tr: "trees_ok S v" and R: "R \<in> S" and va: "pml4_ix va < 256"
  shows "walk_pt table_entry R va v = node v R (va_place va)"
proof -
  have same: "table_entry (tab_get v t i) \<longleftrightarrow> user_table_entry (tab_get v t i)"
    if "vpath (i # p)" "node v R p = Some t" for p t i
    using trees_okD(8) [OF tr R that] by (auto simp: table_entry_def user_table_entry_def present_def)
  let ?e4 = "tab_get v R (pml4_ix va)"
  let ?e3 = "tab_get v (?e4 AND ADDR_MASK) (pdpt_ix va)"
  have 1: "table_entry ?e4 \<longleftrightarrow> user_table_entry ?e4"
    by (rule same [of _ "[]"]) (use va in \<open>simp_all add: vpath_def\<close>)
  have 2: "user_table_entry ?e4 \<Longrightarrow> table_entry ?e3 \<longleftrightarrow> user_table_entry ?e3"
    by (rule same [of _ "[pml4_ix va]"]) (use va in \<open>simp_all add: vpath_def next_table_def\<close>)
  have 3: "user_table_entry ?e4 \<Longrightarrow> user_table_entry ?e3 \<Longrightarrow>
      table_entry (tab_get v (?e3 AND ADDR_MASK) (pd_ix va)) \<longleftrightarrow>
      user_table_entry (tab_get v (?e3 AND ADDR_MASK) (pd_ix va))"
    by (rule same [of _ "[pdpt_ix va, pml4_ix va]"]) (use va in \<open>simp_all add: vpath_def next_table_def\<close>)
  show ?thesis
    using trees_okD(1) [OF tr R] user_half [OF va] root_of_space [OF tr R] 1 2 3
    by (simp add: walk_pt_def va_place_def next_table_def Let_def)
qed

lemma translate_pte:
  assumes tr: "trees_ok S v" and R: "R \<in> S" and va: "pml4_ix va < 256"
  shows "vmm_translate_user R va v =
    (let e = pte v R (va_place va) (pt_ix va) in
     if mapped e then Some ((e AND ADDR_MASK) OR (va AND 0xFFF)) else None)"
  unfolding vmm_translate_user_def walk_pt_node [OF assms] pte_def
  by (auto simp: Let_def mapped_def split: option.splits)

lemma leaf_pte_spec:
  assumes tr: "trees_ok S v" and R: "R \<in> S" and va: "pml4_ix va < 256"
  shows "vmm_leaf_pte R va v =
    (if mapped (pte v R (va_place va) (pt_ix va))
     then Some (the (node v R (va_place va)), pt_ix va) else None)"
  unfolding vmm_leaf_pte_def walk_pt_node [OF assms] pte_def
  by (auto simp: Let_def mapped_def split: option.splits)

lemma pte_mapped_node:
  "mapped (pte v R p i) \<Longrightarrow> \<exists>t. node v R p = Some t \<and> pte v R p i = tab_get v t i"
  by (auto simp: pte_def split: option.splits)

section \<open>Dropping a mapping\<close>

lemma aligned_frame_inj: "aligned a \<Longrightarrow> aligned b \<Longrightarrow> unat a div 4096 = unat b div 4096 \<Longrightarrow> a = b"
  unfolding aligned_mod by (metis div_mult_mod_eq word_eq_by_unat)

lemma free_page_spec:
  assumes "pmm_inv (pm v)"
  shows "pmm_inv (pm (free_page a v))" "is_free (free_page a v) x \<Longrightarrow> is_free v x \<or> unat x div 4096 = unat a div 4096"
    "is_free v x \<Longrightarrow> is_free (free_page a v) x" "tab_get (free_page a v) b j = tab_get v b j"
    "cow_tab (free_page a v) = cow_tab v" "hhdm_ready (free_page a v) = hhdm_ready v"
    "cr3_reg (free_page a v) = cr3_reg v"
  using pmm_free_spec [OF assms, of a]
  by (auto simp: free_page_def is_free_def tab_get_def split: if_splits)

text \<open>The pages the allocator manages: \<open>pmm_free\<close> ignores every other address.\<close>

definition managed :: "vmm \<Rightarrow> u64 \<Rightarrow> bool" where
  "managed v a \<longleftrightarrow> reserved_end (pm v) \<le> a \<and> unat a div 4096 < unat (frame_count (pm v))"

lemma free_page_managed: "pmm_inv (pm v) \<Longrightarrow> aligned a \<Longrightarrow> managed v a \<Longrightarrow> is_free (free_page a v) a"
  using pmm_free_spec [of "pm v" a]
  by (auto simp: free_page_def is_free_def managed_def word_le_nat_alt aligned_mod)

lemma cow_free_leaf_mem [simp]:
  "tab_get (cow_free_leaf a v) b j = tab_get v b j" "hhdm_ready (cow_free_leaf a v) = hhdm_ready v"
  "cr3_reg (cow_free_leaf a v) = cr3_reg v"
  by (simp_all add: cow_free_leaf_def tab_get_def free_page_def split: prod.splits)

lemma drop_leaf_ok:
  assumes ok: "spaces_ok S v" and R: "R \<in> S" and p: "leaf_place p i" "node v R p = Some t"
    and e: "mapped (tab_get v t i)"
  defines "a \<equiv> tab_get v t i AND ADDR_MASK"
  defines "v' \<equiv> cow_free_leaf a (tab_set t i 0 v)"
  shows "spaces_ok S v'" "pte_upd S v v' R p i 0"
    and "R' \<in> S \<Longrightarrow> vpath q \<Longrightarrow> node v' R' q = node v R' q"
    and "cow_count (cow_tab v) a = 1 \<Longrightarrow> is_free v' x \<Longrightarrow> is_free v x \<or> unat x div 4096 = unat a div 4096"
    and "cow_count (cow_tab v) a \<noteq> 1 \<Longrightarrow> is_free v' x \<longleftrightarrow> is_free v x"
    and "is_free v x \<Longrightarrow> is_free v' x"
    and "maps S v b \<noteq> {} \<Longrightarrow> maps S v' b = {} \<Longrightarrow> managed v b \<Longrightarrow> is_free v' b"
    and "frame_count (pm v') = frame_count (pm v) \<and> reserved_end (pm v') = reserved_end (pm v)"
proof -
  note tr = spaces_okD(1) [OF ok]
  have pv: "vpath p" "i < 512" using p(1) by (auto simp: leaf_place_def)
  have t: "aligned t" using trees_okD(6) [OF tr R pv(1) p(2)] by simp
  have al: "aligned a" by (simp add: a_def)
  have here: "(R, p, i) \<in> maps S v a" using R p e by (simp add: maps_here pte_def a_def)
  have inv: "pmm_inv (pm v)" by (rule trees_okD(2) [OF tr R])
  obtain l ct where put: "cow_put a (cow_tab v) = (l, ct)" by fastforce
  note cp = cow_put_ok [OF spaces_okD(4) [OF ok] put]
  have fm: "finite (maps S v a)" by (rule finite_maps [OF spaces_okD(3) [OF ok]])
  have cnt: "cow_count (cow_tab v) a = card (maps S v a)"
    using spaces_okD(5) [OF ok, of a] here fm by (metis Suc_leI card_gt_0_iff empty_iff max_absorb2 One_nat_def)
  let ?w = "(tab_set t i 0 v)\<lparr>cow_tab := ct\<rparr>"
  have v': "v' = (if l then free_page a ?w else ?w)" using put by (simp add: v'_def cow_free_leaf_def)
  have invw: "pmm_inv (pm ?w)" using inv by simp
  have fr1: "is_free v' x \<Longrightarrow> is_free v x \<or> l \<and> unat x div 4096 = unat a div 4096" for x
    using free_page_spec(2) [OF invw, of a x] by (auto simp: v' is_free_def split: if_splits)
  have fr2: "is_free v x \<Longrightarrow> is_free v' x" for x
    using free_page_spec(3) [OF invw, of x a] by (auto simp: v' is_free_def split: if_splits)
  show "cow_count (cow_tab v) a = 1 \<Longrightarrow> is_free v' x \<Longrightarrow> is_free v x \<or> unat x div 4096 = unat a div 4096"
    "cow_count (cow_tab v) a \<noteq> 1 \<Longrightarrow> is_free v' x \<longleftrightarrow> is_free v x" "is_free v x \<Longrightarrow> is_free v' x"
    using fr1 fr2 cp by auto
  have mem: "\<forall>b j. aligned b \<longrightarrow> j < 512 \<longrightarrow> \<not> is_free v b \<longrightarrow>
      tab_get v' b j = (if b = t \<and> j = i then 0 else tab_get v b j)"
    using tab_get_set [OF t _ pv(2)] by (simp add: v'_def)
  note sl = set_leaf [OF tr R p mem]
  show n: "R' \<in> S \<Longrightarrow> vpath q \<Longrightarrow> node v' R' q = node v R' q" for R' q by (rule sl(1))
  show u: "pte_upd S v v' R p i 0" using sl(2) R p(1) by (simp add: pte_upd_def)
  have nodes: "\<not> is_free v' u" if "R' \<in> S" "vpath q" "node v R' q = Some u" for R' q u
  proof -
    have "u \<noteq> a" using spaces_okD(7) [OF ok _ that(1,2), of a] here that(3) by auto
    then have "unat u div 4096 \<noteq> unat a div 4096"
      using aligned_frame_inj al trees_okD(6) [OF tr that] by blast
    then show ?thesis using fr1 [of u] trees_okD(6) [OF tr that] by blast
  qed
  have cowv': "cow_tab v' = ct" by (auto simp: v' free_page_def)
  show "frame_count (pm v') = frame_count (pm v) \<and> reserved_end (pm v') = reserved_end (pm v)"
    by (simp add: v' free_page_def)
  have card: "card (maps S v' b) + (if b = a then 1 else 0) = card (maps S v b)" for b
  proof -
    have pe: "pte v R p i = tab_get v t i" using p by (simp add: pte_def)
    show ?thesis using card_upd [OF u spaces_okD(3) [OF ok], of b] e
      unfolding pe a_def [symmetric] by (cases "b = a") simp_all
  qed
  show "is_free v' b" if "maps S v b \<noteq> {}" "maps S v' b = {}" "managed v b" for b
  proof -
    have "card (maps S v b) \<noteq> 0" using that(1) finite_maps [OF spaces_okD(3) [OF ok], of v b] by simp
    then have b: "b = a" "card (maps S v a) = 1" using card [of b] that(2) by (auto split: if_splits)
    then have l using cp cnt by simp
    moreover have "managed ?w a" using that(3) b(1) by (simp add: managed_def)
    ultimately show ?thesis using free_page_managed [OF invw al] by (simp add: v' b(1))
  qed
  have "trees_ok S v'"
  proof (rule set_leaf_trees [OF tr R p mem])
    show "hhdm_ready v'" using trees_okD(1) [OF tr R] by (simp add: v'_def)
    show "pmm_inv (pm v')" using inv free_page_spec(1) [OF invw, of a] by (simp add: v')
  qed (use nodes in auto)
  moreover have "frames_ok S v'"
    unfolding frames_ok_def
  proof (intro conjI allI impI ballI)
    show "cow_wf (cow_tab v')" using cp [of a] cowv' by simp
    show "cow_count (cow_tab v') b = max 1 (card (maps S v' b))" for b
      using cp [of b] spaces_okD(5) [OF ok, of b] card [of b] cnt cowv' by (auto split: if_splits)
    fix b assume m: "maps S v' b \<noteq> {}"
    have old: "maps S v b \<noteq> {}" using m maps_upd [OF u, of b] by auto
    have "b = a \<Longrightarrow> \<not> l"
    proof
      assume b: "b = a" and l
      then have "card (maps S v' a) = 0" using card [of a] cnt cp by simp
      then show False using m b finite_maps [OF spaces_okD(3) [OF ok], of v' a] by simp
    qed
    then show "\<not> is_free v' b"
      using fr1 [of b] spaces_okD(6) [OF ok old] aligned_frame_inj [OF maps_aligned [OF old] al] by blast
    fix R' q assume "R' \<in> S" "vpath q"
    then show "node v' R' q \<noteq> Some b" using n spaces_okD(7) [OF ok old] by simp
  qed
  ultimately show "spaces_ok S v'" by (simp add: spaces_ok_def)
qed

lemma unmap_user_ok:
  assumes ok: "spaces_ok S v" and R: "R \<in> S" and va: "pml4_ix va < 256"
    and run: "vmm_unmap_user R va v = (r, v')"
  shows "spaces_ok S v'"
    and "if r then mapped (pte v R (va_place va) (pt_ix va)) \<and> pte_upd S v v' R (va_place va) (pt_ix va) 0
         else v' = v \<and> (aligned va \<longrightarrow> \<not> mapped (pte v R (va_place va) (pt_ix va)))"
    and "maps S v a \<noteq> {} \<Longrightarrow> maps S v' a = {} \<Longrightarrow> managed v a \<Longrightarrow> is_free v' a"
proof -
  note tr = spaces_okD(1) [OF ok]
  let ?p = "va_place va" and ?i = "pt_ix va"
  have lp: "leaf_place ?p ?i" by (rule leaf_place_va [OF va])
  have pr: "present (pte v R ?p ?i) \<longleftrightarrow> mapped (pte v R ?p ?i)"
    using trees_okD(9) [OF tr R lp] by (auto simp: mapped_def present_def)
  have "spaces_ok S v' \<and> (if r then mapped (pte v R ?p ?i) \<and> pte_upd S v v' R ?p ?i 0
         else v' = v \<and> (aligned va \<longrightarrow> \<not> mapped (pte v R ?p ?i))) \<and>
      (\<forall>a. maps S v a \<noteq> {} \<longrightarrow> maps S v' a = {} \<longrightarrow> managed v a \<longrightarrow> is_free v' a)"
  proof (cases "aligned va \<and> mapped (pte v R ?p ?i)")
    case False
    then have "r = False" "v' = v"
      using run pr unfolding vmm_unmap_user_def walk_pt_table_entry [OF tr R va] pte_def
      by (auto simp: Let_def aligned_4095 split: option.splits if_splits)
    then show ?thesis using ok False by simp
  next
    case True
    then obtain t where t: "node v R ?p = Some t" "pte v R ?p ?i = tab_get v t ?i"
      using pte_mapped_node by blast
    then have "r" "v' = cow_free_leaf (tab_get v t ?i AND ADDR_MASK) (tab_set t ?i 0 v)"
      using run True unfolding vmm_unmap_user_def walk_pt_table_entry [OF tr R va]
      by (auto simp: Let_def aligned_4095 mapped_def)
    then show ?thesis using drop_leaf_ok [OF ok R lp t(1)] True t(2) by auto
  qed
  then show "spaces_ok S v'"
    "if r then mapped (pte v R ?p ?i) \<and> pte_upd S v v' R ?p ?i 0
     else v' = v \<and> (aligned va \<longrightarrow> \<not> mapped (pte v R ?p ?i))"
    "maps S v a \<noteq> {} \<Longrightarrow> maps S v' a = {} \<Longrightarrow> managed v a \<Longrightarrow> is_free v' a" by blast+
qed

section \<open>Changing a mapping in place\<close>

text \<open>New flags on a mapped leaf, with the counts of the reference table kept.\<close>

lemma reflag_leaf_ok:
  assumes ok: "spaces_ok S v" and R: "R \<in> S" and p: "leaf_place p i" "node v R p = Some t"
    and e: "mapped (tab_get v t i)" "mapped e'" "e' AND ADDR_MASK = tab_get v t i AND ADDR_MASK"
    and v': "v' = (tab_set t i e' v)\<lparr>cow_tab := ct, cr3_reg := c\<rparr>"
    and ct: "cow_wf ct" "\<forall>b. cow_count ct b = cow_count (cow_tab v) b"
  shows "spaces_ok S v'" "pte_upd S v v' R p i e'" "maps S v' a = maps S v a"
    and "R' \<in> S \<Longrightarrow> vpath q \<Longrightarrow> node v' R' q = node v R' q"
proof -
  note tr = spaces_okD(1) [OF ok]
  have pv: "vpath p" "i < 512" using p(1) by (auto simp: leaf_place_def)
  have t: "aligned t" using trees_okD(6) [OF tr R pv(1) p(2)] by simp
  have get: "tab_get v' b j = tab_get (tab_set t i e' v) b j" for b j by (simp add: v' tab_get_def)
  have mem: "\<forall>b j. aligned b \<longrightarrow> j < 512 \<longrightarrow> \<not> is_free v b \<longrightarrow>
      tab_get v' b j = (if b = t \<and> j = i then e' else tab_get v b j)"
    unfolding get using tab_get_set [OF t _ pv(2)] by simp
  note sl = set_leaf [OF tr R p mem]
  have fr: "is_free v' x \<longleftrightarrow> is_free v x" for x by (simp add: v' is_free_def)
  show n: "R' \<in> S \<Longrightarrow> vpath q \<Longrightarrow> node v' R' q = node v R' q" for R' q by (rule sl(1))
  show u: "pte_upd S v v' R p i e'" using sl(2) R p(1) by (simp add: pte_upd_def)
  have here: "(R, p, i) \<in> maps S v a \<longleftrightarrow> tab_get v t i AND ADDR_MASK = a" for a
    using R p e by (simp add: maps_here pte_def)
  show m: "maps S v' a = maps S v a" for a
    using maps_upd [OF u, of a] here [of a] e(2,3) by auto
  have "trees_ok S v'"
    by (rule set_leaf_trees [OF tr R p mem])
       (use trees_okD(1,2) [OF tr R] trees_okD(6) [OF tr] e(2) in \<open>auto simp: v' is_free_def\<close>)
  moreover have "frames_ok S v'"
    using spaces_okD(2) [OF ok] ct n fr m unfolding frames_ok_def by (simp add: v')
  ultimately show "spaces_ok S v'" by (simp add: spaces_ok_def)
qed

definition alloc_frame :: "vmm \<Rightarrow> u64 \<times> vmm" where
  "alloc_frame v = (case alloc_page_above PAGE_2M v of (p, v1) \<Rightarrow> if p = 0 then alloc_page v1 else (p, v1))"

lemma alloc_frame_ok:
  assumes inv: "pmm_inv (pm v)" and al: "alloc_frame v = (b, v1)"
  shows "if b = 0 then v1 = v else aligned b \<and> is_free v b \<and> pmm_inv (pm v1) \<and>
    free_frames (pm v1) = free_frames (pm v) - {unat b div 4096} \<and> (\<exists>s. v1 = v\<lparr>pm := s\<rparr>)"
proof -
  obtain p s where p: "pmm_alloc_above PAGE_2M (pm v) = (p, s)" by fastforce
  show ?thesis
  proof (cases "p = 0")
    case True
    then have "s = pm v" using page_above.get_fail [OF inv] p by blast
    then have "alloc_page v = (b, v1)" using al p True by (simp add: alloc_frame_def alloc_page_above_def)
    then show ?thesis using alloc_page_ok [OF inv] alloc_page_fail [OF inv] by auto
  next
    case False
    then have "b = p" "v1 = v\<lparr>pm := s\<rparr>" using al p by (simp_all add: alloc_frame_def alloc_page_above_def)
    then show ?thesis using page_above.page_of_get [OF inv p False] page_above.get_inv [OF inv p] False
      by (auto simp: aligned_mod is_free_def)
  qed
qed

lemma cow_break_alloc:
  "vmm_cow_break c virt v = (let va = virt AND ADDR_MASK in
     case vmm_leaf_pte c va v of None \<Rightarrow> (False, v)
     | Some (pt, i) \<Rightarrow> let e = tab_get v pt i; leaf = e AND ADDR_MASK in
         if \<not> bit e 9 then (False, v)
         else if cow_refs (cow_tab v) leaf \<le> 1
         then (True, (tab_set pt i (leaf OR PTE_USER_FLAGS) v)\<lparr>cow_tab := cow_clear leaf (cow_tab v)\<rparr>)
         else case alloc_frame v of (neu, v2) \<Rightarrow>
           if neu = 0 then (False, v2)
           else let v3 = tab_set pt i (neu OR PTE_USER_FLAGS) (copy_page neu leaf v2)
                in (True, v3\<lparr>cow_tab := snd (cow_put leaf (cow_tab v3))\<rparr>))"
  unfolding vmm_cow_break_def want_bit alloc_frame_def [symmetric] Let_def by (rule refl)

lemma user_flags_mapped: "aligned a \<Longrightarrow> mapped (a OR PTE_USER_FLAGS) \<and> (a OR PTE_USER_FLAGS) AND ADDR_MASK = a"
  using user_flags_bits by (simp add: mapped_def present_bit user_bit entry_bit)

lemma refs_le_1:
  assumes "spaces_ok S v" "maps S v a \<noteq> {}"
  shows "cow_refs (cow_tab v) a \<le> 1 \<longleftrightarrow> card (maps S v a) = 1"
proof -
  have "0 < card (maps S v a)" using assms finite_maps [OF spaces_okD(3) [OF assms(1)]] by (simp add: card_gt_0_iff)
  then have "cow_count (cow_tab v) a = card (maps S v a)" using spaces_okD(5) [OF assms(1), of a] by simp
  then show ?thesis using \<open>0 < card (maps S v a)\<close> by (auto simp: word_le_nat_alt cow_count_def)
qed

text \<open>Redirecting one of several mappings of a frame to a new page.\<close>

lemma redirect_leaf_ok:
  assumes ok: "spaces_ok S v" and R: "R \<in> S" and p: "leaf_place p i" "node v R p = Some t"
    and e: "mapped (tab_get v t i)" "a = tab_get v t i AND ADDR_MASK" "card (maps S v a) \<noteq> 1"
    and b: "aligned b" "b \<noteq> 0" "is_free v b"
    and mem: "\<forall>c j. aligned c \<longrightarrow> j < 512 \<longrightarrow> c \<noteq> b \<longrightarrow>
        tab_get v' c j = (if c = t \<and> j = i then b OR PTE_USER_FLAGS else tab_get v c j)"
    and env: "hhdm_ready v'" "pmm_inv (pm v')" "free_frames (pm v') = free_frames (pm v) - {unat b div 4096}"
      "cow_tab v' = snd (cow_put a (cow_tab v))"
  shows "spaces_ok S v'" "pte_upd S v v' R p i (b OR PTE_USER_FLAGS)" "card (maps S v' b) = 1"
proof -
  note tr = spaces_okD(1) [OF ok]
  define e' where "e' = b OR PTE_USER_FLAGS"
  have fr: "is_free v' x \<longleftrightarrow> is_free v x \<and> unat x div 4096 \<noteq> unat b div 4096" for x
    using env(3) by (auto simp: is_free_def)
  have mem': "\<forall>c j. aligned c \<longrightarrow> j < 512 \<longrightarrow> \<not> is_free v c \<longrightarrow>
      tab_get v' c j = (if c = t \<and> j = i then e' else tab_get v c j)" using mem b(3) unfolding e'_def by metis
  note sl = set_leaf [OF tr R p mem']
  have u: "pte_upd S v v' R p i e'" using sl(2) R p(1) by (simp add: pte_upd_def)
  then show "pte_upd S v v' R p i (b OR PTE_USER_FLAGS)" by (simp add: e'_def)
  note um = user_flags_mapped [OF b(1), folded e'_def]
  have pe: "pte v R p i = tab_get v t i" using p by (simp add: pte_def)
  have mb: "maps S v b = {}" using spaces_okD(6) [OF ok, of b] b(3) by blast
  have here: "(R, p, i) \<in> maps S v a" using R p e by (simp add: maps_here pe)
  then have ab: "a \<noteq> b" using mb by auto
  have card: "card (maps S v' c) + (if c = a then 1 else 0) = card (maps S v c) + (if c = b then 1 else 0)" for c
    using card_upd [OF u spaces_okD(3) [OF ok], of c] e(1) um unfolding pe e(2) [symmetric]
    by (cases "c = a"; cases "c = b") simp_all
  show cb: "card (maps S v' b) = 1" using card [of b] ab mb by simp
  have fin: "finite (maps S w c)" for w c by (rule finite_maps [OF spaces_okD(3) [OF ok]])
  have ca: "2 \<le> card (maps S v a)" using e(3) here fin [of v a] by (metis One_nat_def Suc_1 Suc_leI card_gt_0_iff empty_iff le_neq_implies_less)
  obtain l ct where put: "cow_put a (cow_tab v) = (l, ct)" by fastforce
  note cp = cow_put_ok [OF spaces_okD(4) [OF ok] put]
  have cnt: "cow_count (cow_tab v) a = card (maps S v a)" using spaces_okD(5) [OF ok, of a] ca by simp
  have "trees_ok S v'"
  proof (rule set_leaf_trees [OF tr R p mem' _ env(1,2)])
    show "e' = 0 \<or> mapped e'" using um by blast
    show "\<forall>R' \<in> S. \<forall>q u. vpath q \<longrightarrow> node v R' q = Some u \<longrightarrow> \<not> is_free v' u"
    proof (intro ballI allI impI)
      fix R' q u assume "R' \<in> S" "vpath q" "node v R' q = Some u"
      from trees_okD(6) [OF tr this] show "\<not> is_free v' u" by (simp add: fr)
    qed
  qed
  moreover have "frames_ok S v'"
    unfolding frames_ok_def
  proof (intro conjI allI impI ballI)
    show "cow_wf (cow_tab v')" using cp put env(4) by simp
    show "cow_count (cow_tab v') c = max 1 (card (maps S v' c))" for c
    proof -
      have ct: "cow_tab v' = ct" using put env(4) by simp
      have l: "\<not> l" using cp [of a] cnt ca by simp
      show ?thesis
      proof (cases "c = a")
        case True
        have "card (maps S v' a) = card (maps S v a) - 1" using card [of a] ab ca by simp
        then show ?thesis using cp [of a] l cnt ca True ct by simp
      next
        case False
        then have "cow_count (cow_tab v') c = max 1 (card (maps S v c))"
          using cp [of c] ct spaces_okD(5) [OF ok, of c] by simp
        then show ?thesis using card [of c] False mb by (cases "c = b") simp_all
      qed
    qed
    fix c assume m: "maps S v' c \<noteq> {}"
    have old: "c = b \<or> maps S v c \<noteq> {}" using m maps_upd [OF u, of c] um by (auto split: if_splits)
    then show "\<not> is_free v' c" using spaces_okD(6) [OF ok, of c] fr [of c] by auto
    fix R' q assume q: "R' \<in> S" "vpath q"
    have "node v R' q \<noteq> Some b" using trees_okD(6) [OF tr q, of b] b(3) by auto
    then show "node v' R' q \<noteq> Some c" using sl(1) [OF q] old spaces_okD(7) [OF ok _ q, of c] by auto
  qed
  ultimately show "spaces_ok S v'" by (simp add: spaces_ok_def)
qed

section \<open>Copy on write, protection, new address spaces\<close>

lemma va_mask [simp]:
  "pml4_ix (va AND ADDR_MASK) = pml4_ix va" "pdpt_ix (va AND ADDR_MASK) = pdpt_ix va"
  "pd_ix (va AND ADDR_MASK) = pd_ix va" "pt_ix (va AND ADDR_MASK) = pt_ix va"
proof -
  have "drop_bit k (va AND ADDR_MASK) = drop_bit k va" if "12 \<le> k" for k
    using that by (intro bit_word_eqI) (auto simp: ADDR_MASK_mask bit_simps dest: bit_imp_le_length)
  then show "pml4_ix (va AND ADDR_MASK) = pml4_ix va" "pdpt_ix (va AND ADDR_MASK) = pdpt_ix va"
    "pd_ix (va AND ADDR_MASK) = pd_ix va" "pt_ix (va AND ADDR_MASK) = pt_ix va"
    by (simp_all add: pml4_ix_def pdpt_ix_def pd_ix_def pt_ix_def)
qed

lemma va_place_mask [simp]: "va_place (va AND ADDR_MASK) = va_place va"
  by (simp add: va_place_def)

text \<open>Memory that is neither free nor a table is what the mapped pages hold.\<close>

definition same_pages :: "u64 set \<Rightarrow> vmm \<Rightarrow> vmm \<Rightarrow> bool" where
  "same_pages S v v' \<longleftrightarrow> (\<forall>a. maps S v a \<noteq> {} \<longrightarrow> (\<forall>j < 512. tab_get v' a j = tab_get v a j))"

lemma cow_break_ok:
  assumes ok: "spaces_ok S v" and R: "R \<in> S" and va: "pml4_ix va < 256"
    and run: "vmm_cow_break R va v = (r, v')"
  defines "e \<equiv> pte v R (va_place va) (pt_ix va)"
  shows "spaces_ok S v' \<and> same_pages S v v' \<and>
    (if r then mapped e \<and> bit e 9 \<and> (\<exists>b. aligned b \<and> card (maps S v' b) = 1 \<and>
        pte_upd S v v' R (va_place va) (pt_ix va) (b OR PTE_USER_FLAGS) \<and>
        (\<forall>j < 512. tab_get v' b j = tab_get v (e AND ADDR_MASK) j))
     else v' = v \<and> (\<not> mapped e \<or> \<not> bit e 9 \<or> fst (alloc_frame v) = 0))"
proof -
  note tr = spaces_okD(1) [OF ok]
  let ?p = "va_place va" and ?i = "pt_ix va"
  have lp: "leaf_place ?p ?i" by (rule leaf_place_va [OF va])
  have leaf: "vmm_leaf_pte R (va AND ADDR_MASK) v = (if mapped e then Some (the (node v R ?p), ?i) else None)"
    using leaf_pte_spec [OF tr R, of "va AND ADDR_MASK"] va by (simp add: e_def)
  show ?thesis
  proof (cases "mapped e \<and> bit e 9")
    case False
    then have "r = False \<and> v' = v"
      using run leaf pte_mapped_node [of v R ?p ?i] unfolding cow_break_alloc
      by (auto simp: e_def Let_def split: if_splits)
    then show ?thesis using ok False by (auto simp: same_pages_def)
  next
    case True
    then obtain t where t: "node v R ?p = Some t" "e = tab_get v t ?i"
      using pte_mapped_node unfolding e_def by blast
    define a where "a = e AND ADDR_MASK"
    have al: "aligned a" by (simp add: a_def)
    have here: "(R, ?p, ?i) \<in> maps S v a" using R lp True by (simp add: maps_here e_def a_def)
    then have ne: "maps S v a \<noteq> {}" by blast
    have pv: "vpath ?p" "?i < 512" using lp by (auto simp: leaf_place_def)
    have tal: "aligned t" "\<not> is_free v t" using trees_okD(6) [OF tr R pv(1) t(1)] by auto
    have notab: "c \<noteq> t" if "maps S v c \<noteq> {}" for c using spaces_okD(7) [OF ok that R pv(1)] t(1) by auto
    have R1: "vmm_cow_break R va v =
      (if cow_refs (cow_tab v) a \<le> 1
       then (True, (tab_set t ?i (a OR PTE_USER_FLAGS) v)\<lparr>cow_tab := cow_clear a (cow_tab v)\<rparr>)
       else case alloc_frame v of (neu, v2) \<Rightarrow>
         if neu = 0 then (False, v2)
         else let v3 = tab_set t ?i (neu OR PTE_USER_FLAGS) (copy_page neu a v2)
              in (True, v3\<lparr>cow_tab := snd (cow_put a (cow_tab v3))\<rparr>))"
    proof -
      have l: "vmm_leaf_pte R (va AND ADDR_MASK) v = Some (t, ?i)" using leaf True t(1) by simp
      have ae: "tab_get v t ?i AND ADDR_MASK = a" using t(2) by (simp add: a_def)
      show ?thesis unfolding cow_break_alloc Let_def l option.case prod.case ae using True t(2) by simp
    qed
    show ?thesis
    proof (cases "cow_refs (cow_tab v) a \<le> 1")
      case c1: True
      then have card1: "card (maps S v a) = 1" using refs_le_1 [OF ok ne] by simp
      have r: "r" "v' = (tab_set t ?i (a OR PTE_USER_FLAGS) v)\<lparr>cow_tab := cow_clear a (cow_tab v)\<rparr>"
        using run R1 c1 by auto
      have v': "v' = (tab_set t ?i (a OR PTE_USER_FLAGS) v)\<lparr>cow_tab := cow_clear a (cow_tab v), cr3_reg := cr3_reg v\<rparr>"
        using r(2) by simp
      note um = user_flags_mapped [OF al]
      have cc: "cow_wf (cow_clear a (cow_tab v))" "\<forall>b. cow_count (cow_clear a (cow_tab v)) b = cow_count (cow_tab v) b"
        using cow_clear_ok [OF spaces_okD(4) [OF ok], of a] spaces_okD(5) [OF ok, of a] card1 by auto
      have m: "mapped (tab_get v t ?i)" "mapped (a OR PTE_USER_FLAGS)"
        "(a OR PTE_USER_FLAGS) AND ADDR_MASK = tab_get v t ?i AND ADDR_MASK"
        using True t(2) um a_def by auto
      note rf = reflag_leaf_ok [OF ok R lp t(1) m v' cc]
      have keep: "tab_get v' c j = tab_get v c j" if "maps S v c \<noteq> {}" "j < 512" for c j
        using notab [OF that(1)] tab_get_set [OF tal(1) maps_aligned [OF that(1)] pv(2) that(2)]
        by (simp add: v' tab_get_def)
      then have "same_pages S v v'" by (simp add: same_pages_def)
      then show ?thesis using r(1) rf True al card1 keep [OF ne] unfolding a_def [symmetric] by auto
    next
      case c2: False
      obtain b v2 where ab: "alloc_frame v = (b, v2)" by fastforce
      note af = alloc_frame_ok [OF trees_okD(2) [OF tr R] ab]
      show ?thesis
      proof (cases "b = 0")
        case b0: True
        then have "r = False" "v' = v" using run R1 c2 ab af by auto
        then show ?thesis using ok ab b0 by (auto simp: same_pages_def)
      next
        case False
        then obtain s where b: "aligned b" "is_free v b" "pmm_inv (pm v2)"
          "free_frames (pm v2) = free_frames (pm v) - {unat b div 4096}" and v2: "v2 = v\<lparr>pm := s\<rparr>"
          using af by auto
        have nb: "a \<noteq> b" using b(2) spaces_okD(6) [OF ok ne] by auto
        note cp = copy_page_spec [OF b(1) al nb, of v2]
        have g2: "tab_get v2 c j = tab_get v c j" for c j by (simp add: v2 tab_get_def)
        have r: r and v': "v' = (tab_set t ?i (b OR PTE_USER_FLAGS) (copy_page b a v2))
            \<lparr>cow_tab := snd (cow_put a (cow_tab v))\<rparr>"
          using run R1 c2 ab False cp v2 by (auto simp: Let_def)
        have mem: "tab_get v' c j = (if c = t \<and> j = ?i then b OR PTE_USER_FLAGS
            else if c = b then tab_get v a j else tab_get v c j)" if "aligned c" "j < 512" for c j
        proof -
          have "tab_get (copy_page b a v2) c j = (if c = b then tab_get v2 a j else tab_get v2 c j)"
            using cp that by blast
          then show ?thesis using tab_get_set [OF tal(1) that(1) pv(2) that(2)] g2
            by (cases "c = b") (simp_all add: v')
        qed
        have tb: "t \<noteq> b" using tal(2) b(2) by auto
        have mem': "\<forall>c j. aligned c \<longrightarrow> j < 512 \<longrightarrow> c \<noteq> b \<longrightarrow>
            tab_get v' c j = (if c = t \<and> j = ?i then b OR PTE_USER_FLAGS else tab_get v c j)"
          using mem by simp
        have card: "card (maps S v a) \<noteq> 1" using refs_le_1 [OF ok ne] c2 by simp
        have env: "hhdm_ready v'" "pmm_inv (pm v')" "free_frames (pm v') = free_frames (pm v) - {unat b div 4096}"
          "cow_tab v' = snd (cow_put a (cow_tab v))"
          using cp b trees_okD(1) [OF tr R] v2 by (simp_all add: v')
        have mt: "mapped (tab_get v t ?i)" "a = tab_get v t ?i AND ADDR_MASK" using True t(2) a_def by auto
        note rd = redirect_leaf_ok [OF ok R lp t(1) mt card b(1) False b(2) mem' env]
        have "same_pages S v v'"
          unfolding same_pages_def
        proof (intro allI impI)
          fix c j assume c: "maps S v c \<noteq> {}" "(j :: u64) < 512"
          have "c \<noteq> b" using spaces_okD(6) [OF ok c(1)] b(2) by auto
          then show "tab_get v' c j = tab_get v c j" using mem [OF maps_aligned [OF c(1)] c(2)] notab [OF c(1)] by simp
        qed
        moreover have "\<forall>j < 512. tab_get v' b j = tab_get v a j" using mem [OF b(1)] tb by simp
        ultimately show ?thesis using rd r True b(1) unfolding a_def [symmetric] by auto
      qed
    qed
  qed
qed

lemma protect_user_ok:
  assumes ok: "spaces_ok S v" and R: "R \<in> S" and va: "pml4_ix va < 256" and cr: "cr3_reg v \<noteq> 0"
    and run: "vmm_protect_user R va wr v = (r, v')"
  defines "e \<equiv> pte v R (va_place va) (pt_ix va)"
  shows "spaces_ok S v' \<and> cr3_reg v' = cr3_reg v \<and>
    (if r then mapped e \<and> (\<exists>e'. pte_upd S v v' R (va_place va) (pt_ix va) e' \<and> mapped e' \<and>
        e' AND ADDR_MASK = e AND ADDR_MASK \<and> bit e' 9 = wr \<and>
        bit e' 1 = (wr \<and> card (maps S v (e AND ADDR_MASK)) = 1))
     else v' = v \<and> \<not> mapped e)"
proof -
  note tr = spaces_okD(1) [OF ok]
  let ?p = "va_place va" and ?i = "pt_ix va"
  have lp: "leaf_place ?p ?i" by (rule leaf_place_va [OF va])
  have leaf: "vmm_leaf_pte R (va AND ADDR_MASK) v = (if mapped e then Some (the (node v R ?p), ?i) else None)"
    using leaf_pte_spec [OF tr R, of "va AND ADDR_MASK"] va by (simp add: e_def)
  show ?thesis
  proof (cases "mapped e")
    case False
    then show ?thesis using run leaf ok by (simp add: vmm_protect_user_def)
  next
    case True
    then obtain t where t: "node v R ?p = Some t" "e = tab_get v t ?i"
      using pte_mapped_node unfolding e_def by blast
    define a where "a = e AND ADDR_MASK"
    have al: "aligned a" by (simp add: a_def)
    have "(R, ?p, ?i) \<in> maps S v a" using R lp True by (simp add: maps_here e_def a_def)
    then have one: "cow_refs (cow_tab v) a \<le> 1 \<longleftrightarrow> card (maps S v a) = 1" using refs_le_1 [OF ok] by blast
    define fl where "fl = PDE_PRESENT OR PTE_USER OR
        (if wr then PTE_WANT_WRITE OR (if cow_refs (cow_tab v) a \<le> 1 then PDE_WRITE else 0) else 0)"
    have low: "low12 fl" and b: "bit fl 0" "bit fl 2" "bit fl 9 = wr" "bit fl 1 = (wr \<and> card (maps S v a) = 1)"
      unfolding fl_def one by (cases wr; cases "card (maps S v a) = 1"; simp add: low12_less)+
    have r: r and v': "v' = (tab_set t ?i (a OR fl) v)\<lparr>cow_tab := cow_tab v, cr3_reg := cr3_reg v\<rparr>"
      using run leaf True t cr
      by (auto simp: vmm_protect_user_def Let_def a_def fl_def vmm_set_cr3_def)
    have m: "mapped (tab_get v t ?i)" "mapped (a OR fl)" "(a OR fl) AND ADDR_MASK = tab_get v t ?i AND ADDR_MASK"
      using True t(2) al low b by (simp_all add: mapped_def present_bit user_bit entry_bit a_def)
    note rf = reflag_leaf_ok [OF ok R lp t(1) m v' spaces_okD(4) [OF ok]]
    have "bit (a OR fl) 9 = wr" "bit (a OR fl) 1 = (wr \<and> card (maps S v a) = 1)" using al b by (simp_all add: entry_bit)
    then have "\<exists>e'. pte_upd S v v' R ?p ?i e' \<and> mapped e' \<and> e' AND ADDR_MASK = a \<and> bit e' 9 = wr \<and>
        bit e' 1 = (wr \<and> card (maps S v a) = 1)"
      using rf m(2,3) t(2) by (intro exI [of _ "a OR fl"]) (simp add: a_def)
    then show ?thesis using r rf True v' unfolding a_def [symmetric] by simp
  qed
qed

lemma clone_pml4_ok:
  assumes ok: "spaces_ok S v" and hh: "hhdm_ready v" and inv: "pmm_inv (pm v)"
    and boot: "\<not> is_free v PML4_PHYS" and run: "vmm_clone_pml4 v = (R, v')" and R: "R \<noteq> 0"
  shows "spaces_ok (insert R S) v' \<and> R \<notin> S \<and>
    (\<forall>p i. leaf_place p i \<longrightarrow> pte v' R p i = 0) \<and>
    (\<forall>i < 512. 256 \<le> i \<longrightarrow> tab_get v' R i = tab_get v PML4_PHYS i) \<and>
    (\<forall>R' \<in> S. \<forall>p i. leaf_place p i \<longrightarrow> pte v' R' p i = pte v R' p i) \<and>
    same_pages S v v' \<and> aligned R \<and> is_free v R \<and>
    (\<forall>x. is_free v' x \<longleftrightarrow> is_free v x \<and> unat x div 4096 \<noteq> unat R div 4096) \<and>
    (\<forall>q. vpath q \<longrightarrow> q \<noteq> [] \<longrightarrow> node v' R q = None)"
proof -
  note tr = spaces_okD(1) [OF ok]
  let ?g = "\<lambda>i v. if HHDM_PML4_INDEX \<le> i then tab_get v PML4_PHYS i else 0"
  obtain v1 where al: "alloc_page v = (R, v1)" and v': "v' = for_idx 512 (\<lambda>i v. tab_set R i (?g i v) v) v1"
    using run hh R by (auto simp: vmm_clone_pml4_def split: prod.splits if_splits)
  obtain s where b: "aligned R" "is_free v R" "pmm_inv (pm v1)"
    "free_frames (pm v1) = free_frames (pm v) - {unat R div 4096}" and v1: "v1 = v\<lparr>pm := s\<rparr>"
    using alloc_page_ok [OF inv al R] by auto
  have boot_al: "aligned PML4_PHYS" by (simp add: aligned_mod)
  have Rb: "R \<noteq> PML4_PHYS" using b(2) boot by auto
  have F: "pm v' = pm v1 \<and> cow_tab v' = cow_tab v1 \<and> hhdm_ready v' = hhdm_ready v1 \<and> cr3_reg v' = cr3_reg v1 \<and>
    first_4k_mapped v' = first_4k_mapped v1 \<and>
    (\<forall>b j. aligned b \<longrightarrow> j < 512 \<longrightarrow> tab_get v' b j = (if b = R \<and> unat j < 512 then ?g j v1 else tab_get v1 b j))"
    unfolding v' by (rule fill_page [OF b(1)]) (use boot_al Rb in auto)
  have mem: "tab_get v' c j = (if c = R then (if 256 \<le> j then tab_get v PML4_PHYS j else 0) else tab_get v c j)"
    if "aligned c" "j < 512" for c j
    using F that by (simp add: v1 HHDM_PML4_INDEX_def word_less_nat_alt)
  have fr: "is_free v' x \<longleftrightarrow> is_free v x \<and> unat x div 4096 \<noteq> unat R div 4096" for x
    using F b(4) by (auto simp: is_free_def)
  have RS: "R \<notin> S" using trees_okD(6) [OF tr, of R "[]" R] b(2) by auto
  have nR: "u \<noteq> R" if "R' \<in> S" "vpath q" "node v R' q = Some u" for R' q u
    using trees_okD(6) [OF tr that] b(2) by auto
  have n: "node v' R' q = node v R' q" if "R' \<in> S" "vpath q" for R' q
    by (rule node_cong [OF _ that(2)])
       (use nR that(1) mem trees_okD(6) [OF tr that(1)] in \<open>auto simp: vpath_Cons\<close>)
  have new: "vpath q \<Longrightarrow> node v' R q = (if q = [] then Some R else None)" for q
  proof (induction q)
    case (Cons i q)
    then have "q = [] \<Longrightarrow> next_table v' R i = None"
      using mem [OF b(1), of i] by (auto simp: next_table_def vpath_Cons not_le)
    then show ?case using Cons by (simp add: vpath_Cons)
  qed simp
  have pt: "pte v' R' q j = pte v R' q j" if "R' \<in> S" "leaf_place q j" for R' q j
  proof -
    have q: "vpath q" "j < 512" using that by (auto simp: leaf_place_def)
    show ?thesis using n [OF that(1) q(1)] nR [OF that(1) q(1)] mem trees_okD(6) [OF tr that(1) q(1)] q(2)
      by (auto simp: pte_def split: option.splits)
  qed
  have ptR: "leaf_place p i \<Longrightarrow> pte v' R p i = 0" for p i
    using new [of p] by (auto simp: pte_def leaf_place_def)
  have tr': "trees_ok (insert R S) v'"
    unfolding trees_ok_def
  proof (intro conjI ballI allI impI)
    show "hhdm_ready v'" "pmm_inv (pm v')" using F v1 hh b(3) by auto
    show "finite (insert R S)" using spaces_okD(3) [OF ok] by simp
    fix R' assume R': "R' \<in> insert R S"
    show "aligned R'" "R' \<noteq> 0" "R' \<noteq> PML4_PHYS" using R' b(1) R Rb trees_okD(3-5) [OF tr] by auto
    { fix q u assume q: "vpath q" "node v' R' q = Some u"
      have "u \<noteq> 0 \<and> \<not> is_free v' u"
      proof (cases "R' = R")
        case True
        then have "u = R" using q new [OF q(1)] by (simp split: if_splits)
        then show ?thesis using R fr by simp
      next
        case False
        then have "R' \<in> S" using R' by simp
        then show ?thesis using trees_okD(6) [OF tr _ q(1), of R' u] n q fr by simp
      qed
      then show "u \<noteq> 0" "\<not> is_free v' u" by auto }
    { fix R'' q r u assume a: "R'' \<in> insert R S" "vpath q" "vpath r" "node v' R' q = Some u" "node v' R'' r = Some u"
      have "R' = R'' \<and> q = r"
      proof (cases "R' = R"; cases "R'' = R")
        assume "R' = R" "R'' = R"
        then show ?thesis using a new by (auto split: if_splits)
      next
        assume "R' = R" "R'' \<noteq> R"
        then show ?thesis using a new [OF a(2)] n [of R'' r] nR [of R'' r u] by (auto split: if_splits)
      next
        assume "R' \<noteq> R" "R'' = R"
        then have "u = R" "R' \<in> S" using a R' new [OF a(3)] by (simp_all split: if_splits)
        moreover from this have "node v R' q = Some u" using a(4) n [of R' q] a(2) by simp
        ultimately show ?thesis using nR [of R' q u] a(2) by simp
      next
        assume "R' \<noteq> R" "R'' \<noteq> R"
        then have S: "R' \<in> S" "R'' \<in> S" using a(1) R' by auto
        then have "node v R' q = Some u" "node v R'' r = Some u" using n a(2-5) by auto
        then show ?thesis using trees_okD(7) [OF tr S a(2,3)] by blast
      qed
      then show "R' = R''" "q = r" by auto }
    { fix q u j assume a: "vpath (j # q)" "node v' R' q = Some u"
      have qv: "vpath q" "j < 512" using a(1) by (auto simp: vpath_Cons)
      show "tab_get v' u j = 0 \<or> user_table_entry (tab_get v' u j)"
      proof (cases "R' = R")
        case True
        then have "u = R" "q = []" using a(2) new [OF qv(1)] by (auto split: if_splits)
        then show ?thesis using a(1) mem [OF b(1) qv(2)] by (auto simp: vpath_Cons dest: leD)
      next
        case False
        then have S: "R' \<in> S" using R' by simp
        have u: "node v R' q = Some u" using n [OF S qv(1)] a(2) by simp
        then have "tab_get v' u j = tab_get v u j"
          using mem [of u j] nR [OF S qv(1) u] qv(2) trees_okD(6) [OF tr S qv(1) u] by simp
        then show ?thesis using trees_okD(8) [OF tr S a(1) u] by simp
      qed }
    { fix q j assume a: "leaf_place q j"
      show "pte v' R' q j = 0 \<or> mapped (pte v' R' q j)"
      proof (cases "R' = R")
        case False
        then have S: "R' \<in> S" using R' by simp
        then show ?thesis using pt [OF S a] trees_okD(9) [OF tr S a] by simp
      qed (use ptR a in simp) }
  qed
  have m: "maps (insert R S) v' a = maps S v a" for a
    using pt ptR by (auto simp: maps_def)
  have "frames_ok (insert R S) v'"
    unfolding frames_ok_def m
  proof (intro conjI allI impI ballI)
    show "cow_wf (cow_tab v')" "cow_count (cow_tab v') a = max 1 (card (maps S v a))" for a
      using F v1 spaces_okD(4,5) [OF ok] by auto
    fix a assume a: "maps S v a \<noteq> {}"
    show "\<not> is_free v' a" using fr spaces_okD(6) [OF ok a] by simp
    fix R' q assume q: "R' \<in> insert R S" "vpath q"
    show "node v' R' q \<noteq> Some a"
    proof (cases "R' = R")
      case True
      then show ?thesis using new [OF q(2)] spaces_okD(6) [OF ok a] b(2) by (auto split: if_splits)
    next
      case False
      then have "R' \<in> S" using q(1) by simp
      then show ?thesis using n spaces_okD(7) [OF ok a _ q(2)] q(2) by simp
    qed
  qed
  moreover have "\<forall>i < 512. 256 \<le> i \<longrightarrow> tab_get v' R i = tab_get v PML4_PHYS i" using mem [OF b(1)] by simp
  moreover have "same_pages S v v'"
    unfolding same_pages_def
  proof (intro allI impI)
    fix a j assume a: "maps S v a \<noteq> {}" "(j :: u64) < 512"
    have "a \<noteq> R" using spaces_okD(6) [OF ok a(1)] b(2) by auto
    then show "tab_get v' a j = tab_get v a j" using mem [OF maps_aligned [OF a(1)] a(2)] by simp
  qed
  ultimately show ?thesis using tr' RS ptR pt b(1,2) fr new by (simp add: spaces_ok_def)
qed

end
