(* ===== verification/Vmm_Teardown.thy ===== *)
theory Vmm_Teardown
  imports Vmm_Maps "HOL-Library.Sublist"
begin

text \<open>
  \<open>vmm_teardown_user\<close>: the nested loops over the user half of an address space drop every leaf,
  unlink and free the tables that become empty, and leave every other address space alone.
\<close>

lemma for_idx_induct:
  assumes "P 0 s" "\<And>k s. k < n \<Longrightarrow> P k s \<Longrightarrow> P (Suc k) (f (of_nat k) s)"
  shows "P n (for_idx n f s)"
  using assms
proof (induction n)
  case (Suc n)
  then have "P n (for_idx n f s)" by simp
  then have "P (Suc n) (f (of_nat n) (for_idx n f s))" using Suc.prems(2) by simp
  then show ?case by (simp add: for_idx_def)
qed (simp add: for_idx_def)

text \<open>Unlinking and freeing an empty table removes that table and nothing else.\<close>

lemma unlink_table_ok:
  assumes ok: "spaces_ok S v" and R: "R \<in> S" and p: "vpath (i # p)" "node v R p = Some t"
    "node v R (i # p) = Some u" and z: "\<forall>j < 512. tab_get v u j = 0"
  defines "v' \<equiv> free_page u (tab_set t i 0 v)"
  shows "R' \<in> S \<Longrightarrow> vpath q \<Longrightarrow> node v' R' q = (if R' = R \<and> q = i # p then None else node v R' q)"
    and "R' \<in> S \<Longrightarrow> leaf_place q j \<Longrightarrow> pte v' R' q j = pte v R' q j"
    and "spaces_ok S v'"
    and "is_free v x \<Longrightarrow> is_free v' x"
    and "managed v u \<Longrightarrow> is_free v' u"
    and "frame_count (pm v') = frame_count (pm v) \<and> reserved_end (pm v') = reserved_end (pm v)"
proof -
  note tr = spaces_okD(1) [OF ok]
  have pv: "vpath p" "i < 512" "length p < 3" using p(1) by (auto simp: vpath_Cons)
  have t: "aligned t" and u: "aligned u" "\<not> is_free v u"
    using trees_okD(6) [OF tr R pv(1) p(2)] trees_okD(6) [OF tr R p(1,3)] by auto
  let ?w = "tab_set t i 0 v"
  have inv: "pmm_inv (pm ?w)" using trees_okD(2) [OF tr R] by simp
  note fp = free_page_spec [OF inv, of u]
  have mem: "tab_get v' b j = (if b = t \<and> j = i then 0 else tab_get v b j)" if "aligned b" "j < 512" for b j
    using tab_get_set [OF t that(1) pv(2) that(2)] by (simp add: v'_def fp)
  have below: "node v R (k # i # p) = None" if "k < 512" for k
    using p(3) z that by (simp add: next_table_def)
  show n: "node v' R' q = (if R' = R \<and> q = i # p then None else node v R' q)" if "R' \<in> S" "vpath q" for R' q
    using that(2)
  proof (induction q)
    case (Cons k q)
    have q: "vpath q" "k < 512" using Cons.prems by (auto simp: vpath_Cons)
    note IH = Cons.IH [OF q(1)]
    show ?case
    proof (cases "R' = R \<and> q = i # p")
      case True
      then show ?thesis using IH below [OF q(2)] by simp
    next
      case False
      show ?thesis
      proof (cases "node v R' q")
        case None
        then show ?thesis using IH False p by (auto split: option.splits)
      next
        case (Some s)
        have "s = t \<longleftrightarrow> R' = R \<and> q = p"
          using trees_okD(7) [OF tr that(1) R q(1) pv(1) Some] p(2) Some by auto
        moreover have "aligned s" using trees_okD(6) [OF tr that(1) q(1) Some] by simp
        ultimately show ?thesis using IH False Some mem [of s k] q(2) by (auto simp: next_table_def)
      qed
    qed
  qed simp
  show P: "pte v' R' q j = pte v R' q j" if "R' \<in> S" "leaf_place q j" for R' q j
  proof -
    have q: "vpath q" "length q = 3" "j < 512" using that(2) by (auto simp: leaf_place_def)
    show ?thesis
    proof (cases "node v R' q")
      case None
      then show ?thesis using n [OF that(1) q(1)] by (simp add: pte_def)
    next
      case (Some s)
      have s: "s \<noteq> t" using trees_okD(7) [OF tr that(1) R q(1) pv(1) Some] p(2) q(2) pv(3) by auto
      have "aligned s" using trees_okD(6) [OF tr that(1) q(1) Some] by simp
      then have m: "tab_get v' s j = tab_get v s j" using mem [of s j] q(3) s by simp
      show ?thesis
      proof (cases "R' = R \<and> q = i # p")
        case True
        then show ?thesis using n [OF that(1) q(1)] p(3) z q(3) by (simp add: pte_def)
      next
        case False
        then have "node v' R' q = Some s" using n [OF that(1) q(1)] Some by auto
        then show ?thesis using Some m by (simp add: pte_def)
      qed
    qed
  qed
  have fr1: "is_free v' x \<Longrightarrow> is_free v x \<or> unat x div 4096 = unat u div 4096" for x
    using fp(2) [of x] by (simp add: v'_def is_free_def)
  show fr2: "is_free v x \<Longrightarrow> is_free v' x" for x using free_page_spec(3) [OF inv, of x u] by (simp add: v'_def is_free_def)
  show "managed v u \<Longrightarrow> is_free v' u"
    using free_page_managed [OF inv u(1)] by (simp add: v'_def managed_def)
  show "frame_count (pm v') = frame_count (pm v) \<and> reserved_end (pm v') = reserved_end (pm v)"
    by (simp add: v'_def free_page_def)
  have nodes: "node v R' q = Some s \<and> \<not> (R' = R \<and> q = i # p)" if "R' \<in> S" "vpath q" "node v' R' q = Some s" for R' q s
    using n [OF that(1,2)] that(3) by (auto split: if_splits)
  have used: "\<not> is_free v' s" if a: "R' \<in> S" "vpath q" "node v' R' q = Some s" for R' q s
  proof -
    note N = nodes [OF a]
    have "s \<noteq> u" using trees_okD(7) [OF tr a(1) R a(2) p(1)] N p(3) by blast
    moreover have "aligned s" "\<not> is_free v s" using trees_okD(6) [OF tr a(1,2)] N by auto
    ultimately show ?thesis using fr1 [of s] aligned_frame_inj [OF _ u(1), of s] by blast
  qed
  have tr': "trees_ok S v'"
    unfolding trees_ok_def
  proof (intro conjI ballI allI impI)
    show "hhdm_ready v'" "pmm_inv (pm v')" using trees_okD(1) [OF tr R] fp by (simp_all add: v'_def)
    show "finite S" by (rule spaces_okD(3) [OF ok])
    fix R' assume R': "R' \<in> S"
    show "aligned R'" "R' \<noteq> 0" "R' \<noteq> PML4_PHYS" using trees_okD(3-5) [OF tr R'] by auto
    { fix q s assume q: "vpath q" "node v' R' q = Some s"
      show "s \<noteq> 0" using nodes [OF R' q] trees_okD(6) [OF tr R' q(1), of s] by simp
      show "\<not> is_free v' s" by (rule used [OF R' q]) }
    { fix R'' q r s assume a: "R'' \<in> S" "vpath q" "vpath r" "node v' R' q = Some s" "node v' R'' r = Some s"
      show "R' = R''" "q = r"
        using trees_okD(7) [OF tr R' a(1-3)] nodes [OF R' a(2,4)] nodes [OF a(1,3,5)] by blast+ }
    { fix q s j assume a: "vpath (j # q)" "node v' R' q = Some s"
      have q: "vpath q" "j < 512" using a(1) by (auto simp: vpath_Cons)
      have N: "node v R' q = Some s" using nodes [OF R' q(1) a(2)] by simp
      have "aligned s" using trees_okD(6) [OF tr R' q(1) N] by simp
      then show "tab_get v' s j = 0 \<or> user_table_entry (tab_get v' s j)"
        using mem [of s j] q(2) trees_okD(8) [OF tr R' a(1) N] by simp }
    { fix q j assume a: "leaf_place q j"
      then show "pte v' R' q j = 0 \<or> mapped (pte v' R' q j)" using P [OF R' a] trees_okD(9) [OF tr R' a] by simp }
  qed
  have M: "maps S v' a = maps S v a" for a using P by (auto simp: maps_def)
  have "frames_ok S v'"
    unfolding frames_ok_def M
  proof (intro conjI allI impI ballI)
    show "cow_wf (cow_tab v')" "cow_count (cow_tab v') a = max 1 (card (maps S v a))" for a
      using spaces_okD(4,5) [OF ok] fp by (simp_all add: v'_def)
    fix a assume a: "maps S v a \<noteq> {}"
    have "a \<noteq> u" using spaces_okD(7) [OF ok a R p(1)] p(3) by auto
    then show "\<not> is_free v' a"
      using fr1 [of a] spaces_okD(6) [OF ok a] aligned_frame_inj [OF maps_aligned [OF a] u(1)] by blast
    fix R' q assume q: "R' \<in> S" "vpath q"
    show "node v' R' q \<noteq> Some a" using n [OF q] spaces_okD(7) [OF ok a q] by auto
  qed
  then show "spaces_ok S v'" using tr' by (simp add: spaces_ok_def)
qed

section \<open>What a part of the teardown may change\<close>

text \<open>The pages an address space of \<open>S\<close> uses, as a table or as a mapped page.\<close>

definition used :: "u64 set \<Rightarrow> vmm \<Rightarrow> u64 \<Rightarrow> bool" where
  "used S v x \<longleftrightarrow> maps S v x \<noteq> {} \<or> (\<exists>R \<in> S. \<exists>q. vpath q \<and> node v R q = Some x)"

text \<open>
  Work on the tables below place \<open>p\<close> of \<open>R\<close>: tables strictly below may be gone, leaves below may
  be dropped, everything else is kept, and a page that is no longer used has been freed.
\<close>

definition torn :: "u64 set \<Rightarrow> u64 \<Rightarrow> place \<Rightarrow> vmm \<Rightarrow> vmm \<Rightarrow> bool" where
  "torn S R p v v' \<longleftrightarrow> spaces_ok S v' \<and>
     (\<forall>R' \<in> S. \<forall>q. vpath q \<longrightarrow> node v' R' q = node v R' q \<or> R' = R \<and> strict_suffix p q \<and> node v' R' q = None) \<and>
     (\<forall>R' \<in> S. \<forall>q j. leaf_place q j \<longrightarrow> pte v' R' q j = pte v R' q j \<or> R' = R \<and> suffix p q \<and> pte v' R' q j = 0) \<and>
     (\<forall>x. is_free v x \<longrightarrow> is_free v' x) \<and> managed v' = managed v \<and>
     (\<forall>x. used S v x \<longrightarrow> \<not> used S v' x \<longrightarrow> managed v x \<longrightarrow> is_free v' x)"

lemma torn_refl: "spaces_ok S v \<Longrightarrow> torn S R p v v"
  by (simp add: torn_def)

lemma torn_trans: "torn S R p v v1 \<Longrightarrow> torn S R p v1 v2 \<Longrightarrow> torn S R p v v2"
  unfolding torn_def by (intro conjI; (elim conjE, assumption)?; metis)

lemma torn_up: "torn S R (i # p) v v' \<Longrightarrow> torn S R p v v'"
proof -
  have s: "suffix (i # p) q \<Longrightarrow> strict_suffix p q" for q
    by (auto simp: strict_suffix_def suffix_def)
  have s': "strict_suffix (i # p) q \<Longrightarrow> strict_suffix p q" for q
    by (rule s) (simp add: strict_suffix_def)
  assume "torn S R (i # p) v v'"
  then show ?thesis unfolding torn_def using s s' by (meson strict_suffix_def)
qed

lemma torn_keep: "torn S R p v v' \<Longrightarrow> R \<in> S \<Longrightarrow> vpath p \<Longrightarrow> node v' R p = node v R p"
  unfolding torn_def strict_suffix_def by blast

text \<open>Entry \<open>k\<close> of the table at place \<open>p\<close> holds nothing.\<close>

definition gone :: "u64 \<Rightarrow> vmm \<Rightarrow> place \<Rightarrow> u64 \<Rightarrow> bool" where
  "gone R v p k \<longleftrightarrow> (if length p = 3 then pte v R p k = 0 else node v R (k # p) = None)"

lemma torn_gone:
  assumes "torn S R q v v'" "R \<in> S" "gone R v p k" "vpath p" "k < 512" "p = [] \<longrightarrow> k < 256"
  shows "gone R v' p k"
proof (cases "length p = 3")
  case True
  then have "leaf_place p k" using assms by (simp add: leaf_place_def)
  then have "pte v' R p k = pte v R p k \<or> pte v' R p k = 0" using assms(1,2) unfolding torn_def by blast
  then show ?thesis using assms(3) True by (auto simp: gone_def)
next
  case False
  then have "vpath (k # p)" using assms by (auto simp: vpath_def)
  then have "node v' R (k # p) = node v R (k # p) \<or> node v' R (k # p) = None"
    using assms(1,2) unfolding torn_def by metis
  then show ?thesis using assms(3) False by (auto simp: gone_def)
qed

lemma gone_zero:
  assumes ok: "spaces_ok S v" and R: "R \<in> S" and p: "vpath p" "node v R p = Some t"
    and k: "gone R v p k" "k < 512" "p = [] \<longrightarrow> k < 256"
  shows "tab_get v t k = 0"
proof (cases "length p = 3")
  case True
  then show ?thesis using k p by (simp add: gone_def pte_def)
next
  case False
  then have "vpath (k # p)" using p k by (auto simp: vpath_def)
  from trees_okD(8) [OF spaces_okD(1) [OF ok] R this p(2)] show ?thesis using False k(1) p(2)
    by (auto simp: gone_def next_table_def Let_def split: if_splits)
qed

section \<open>The loops\<close>

lemma teardown_leaf_torn:
  assumes ok: "spaces_ok S v" and R: "R \<in> S" and p: "leaf_place p i" "node v R p = Some t"
  shows "torn S R p v (teardown_leaf t i v) \<and> gone R (teardown_leaf t i v) p i"
proof (cases "mapped (tab_get v t i)")
  case True
  let ?v' = "cow_free_leaf (tab_get v t i AND ADDR_MASK) (tab_set t i 0 v)"
  note D = drop_leaf_ok [OF ok R p True]
  have e: "teardown_leaf t i v = ?v'" using True by (simp add: teardown_leaf_def mapped_def)
  have pv: "vpath p" "length p = 3" using p(1) by (auto simp: leaf_place_def)
  have u: "pte ?v' R' q j = (if R' = R \<and> q = p \<and> j = i then 0 else pte v R' q j)" if "R' \<in> S" "leaf_place q j" for R' q j
    using D(2) that unfolding pte_upd_def by blast
  have us: "is_free ?v' x" if "used S v x" "\<not> used S ?v' x" "managed v x" for x
  proof -
    have "maps S v x \<noteq> {}" "maps S ?v' x = {}" using that(1,2) D(3) unfolding used_def by auto
    then show ?thesis using D(7) that(3) by blast
  qed
  have "torn S R p v ?v'"
    unfolding torn_def using D(1,3,6,8) u us by (auto simp: managed_def fun_eq_iff)
  moreover have "gone R ?v' p i" using u [OF R p(1)] pv by (simp add: gone_def)
  ultimately show ?thesis unfolding e by blast
next
  case False
  have pv: "length p = 3" using p(1) by (auto simp: leaf_place_def)
  have e: "teardown_leaf t i v = v" using False by (auto simp: teardown_leaf_def mapped_def Let_def)
  have "pte v R p i = 0" using trees_okD(9) [OF spaces_okD(1) [OF ok] R p(1)] False p(2) by (simp add: pte_def)
  then show ?thesis unfolding e using torn_refl [OF ok] pv by (simp add: gone_def)
qed

text \<open>A function that clears the table at a place.\<close>

definition clears :: "u64 set \<Rightarrow> u64 \<Rightarrow> (u64 \<Rightarrow> vmm \<Rightarrow> vmm) \<Rightarrow> place \<Rightarrow> bool" where
  "clears S R f p \<longleftrightarrow> (\<forall>v t. spaces_ok S v \<longrightarrow> node v R p = Some t \<longrightarrow>
     torn S R p v (f t v) \<and> (\<forall>k < 512. gone R (f t v) p k))"

lemma teardown_entry_torn:
  assumes ok: "spaces_ok S v" and R: "R \<in> S" and p: "vpath (i # p)" "node v R p = Some t"
    and c: "clears S R inner (i # p)"
  shows "torn S R p v (teardown_entry inner t i v) \<and> gone R (teardown_entry inner t i v) p i"
proof (cases "table_entry (tab_get v t i)")
  case False
  then have z: "tab_get v t i = 0"
    using trees_okD(8) [OF spaces_okD(1) [OF ok] R p] by (auto simp: table_entry_def user_table_entry_def)
  have "length p \<noteq> 3" using p(1) by (auto simp: vpath_Cons)
  then have "gone R v p i" using z p(2) by (simp add: gone_def next_table_def)
  moreover have "teardown_entry inner t i v = v" using False by (simp add: teardown_entry_def Let_def)
  ultimately show ?thesis using torn_refl [OF ok] by simp
next
  case True
  define u where "u = tab_get v t i AND ADDR_MASK"
  have pv: "vpath p" "length p \<noteq> 3" using p(1) by (auto simp: vpath_Cons)
  have n: "node v R (i # p) = Some u"
    using True trees_okD(8) [OF spaces_okD(1) [OF ok] R p] p(2)
    by (auto simp: next_table_def u_def table_entry_def)
  define w where "w = inner u v"
  have t1: "torn S R (i # p) v w" and g1: "\<forall>k < 512. gone R w (i # p) k"
    using c ok n unfolding clears_def w_def by blast+
  have ok1: "spaces_ok S w" using t1 by (simp add: torn_def)
  have n1: "node w R (i # p) = Some u" using torn_keep [OF t1 R p(1)] n by simp
  have "\<not> strict_suffix (i # p) p" using suffix_length_le [of "i # p" p] by (auto simp: strict_suffix_def)
  then have n0: "node w R p = Some t" using t1 R pv(1) p(2) unfolding torn_def by metis
  have z: "\<forall>j < 512. tab_get w u j = 0" using gone_zero [OF ok1 R p(1) n1] g1 by blast
  have cl: "vmm_table_clear u 512 w" using z by (simp add: vmm_table_clear_def list_all_iff of_nat_512)
  let ?v' = "free_page u (tab_set t i 0 w)"
  have e: "teardown_entry inner t i v = ?v'" using True cl by (simp add: teardown_entry_def u_def w_def Let_def)
  note U = unlink_table_ok [OF ok1 R p(1) n0 n1 z]
  have M: "maps S ?v' x = maps S w x" for x using U(2) by (auto simp: maps_def)
  have us: "is_free ?v' x" if x: "used S w x" "\<not> used S ?v' x" "managed w x" for x
  proof -
    have "x = u"
    proof (rule ccontr)
      assume xu: "x \<noteq> u"
      obtain R' q where q: "R' \<in> S" "vpath q" "node w R' q = Some x"
        using x(1,2) unfolding used_def M by blast
      then have "node ?v' R' q = Some x" using U(1) [OF q(1,2)] n1 xu by auto
      then show False using x(2) q unfolding used_def by blast
    qed
    then show ?thesis using U(5) x(3) by simp
  qed
  have "torn S R p w ?v'"
    unfolding torn_def using U(1-4,6) us by (auto simp: managed_def fun_eq_iff strict_suffix_def suffix_def)
  moreover have "gone R ?v' p i" using U(1) [OF R p(1)] pv(2) by (simp add: gone_def del: node.simps)
  ultimately show ?thesis unfolding e using torn_trans [OF torn_up [OF t1]] by blast
qed

lemma teardown_loop_torn:
  assumes ok: "spaces_ok S v" and R: "R \<in> S" and p: "vpath p" "node v R p = Some t"
    and N: "N \<le> 512" "p = [] \<longrightarrow> N \<le> 256"
    and step: "\<And>v i. spaces_ok S v \<Longrightarrow> node v R p = Some t \<Longrightarrow> i < of_nat N \<Longrightarrow>
      torn S R p v (f i v) \<and> gone R (f i v) p i"
  shows "torn S R p v (for_idx N f v) \<and> (\<forall>k < of_nat N. gone R (for_idx N f v) p k)"
proof -
  have "torn S R p v (for_idx N f v) \<and> (\<forall>k < N. gone R (for_idx N f v) p (of_nat k))"
  proof (rule for_idx_induct)
    show "torn S R p v v \<and> (\<forall>k < 0. gone R v p (of_nat k))" using torn_refl [OF ok] by simp
    fix k s assume k: "k < N" and s: "torn S R p v s \<and> (\<forall>j < k. gone R s p (of_nat j))"
    have oks: "spaces_ok S s" and n: "node s R p = Some t"
      using s torn_keep [of S R p v s] R p by (auto simp: torn_def)
    have lt: "(of_nat k :: u64) < of_nat N" using k N(1) by (simp add: word_less_nat_alt unat_of_nat)
    note F = step [OF oks n lt]
    have "gone R (f (of_nat k) s) p (of_nat j)" if "j < Suc k" for j
    proof (cases "j = k")
      case False
      then have j: "j < k" using that by simp
      have "(of_nat j :: u64) < 512" "p = [] \<longrightarrow> (of_nat j :: u64) < 256"
        using j k N by (auto simp: word_less_nat_alt unat_of_nat)
      then show ?thesis using torn_gone [OF _ R _ p(1)] F s j by blast
    qed (use F in simp)
    then show "torn S R p v (f (of_nat k) s) \<and> (\<forall>j < Suc k. gone R (f (of_nat k) s) p (of_nat j))"
      using torn_trans s F by blast
  qed
  moreover have "\<exists>j < N. k = of_nat j" if "k < of_nat N" for k :: u64
    using that N(1) by (intro exI [of _ "unat k"]) (simp add: word_less_nat_alt unat_of_nat)
  ultimately show ?thesis by blast
qed

lemma teardown_pt_clears:
  assumes R: "R \<in> S" and p: "vpath p" "length p = 3"
  shows "clears S R teardown_pt p"
proof -
  have "torn S R p v (teardown_pt t v) \<and> (\<forall>k < of_nat 512. gone R (teardown_pt t v) p k)"
    if "spaces_ok S v" "node v R p = Some t" for v t
    unfolding teardown_pt_def
    by (rule teardown_loop_torn [OF that(1) R p(1) that(2)])
       (use p R teardown_leaf_torn in \<open>auto simp: leaf_place_def\<close>)
  then show ?thesis by (simp add: clears_def)
qed

lemma teardown_level_clears:
  assumes R: "R \<in> S" and p: "vpath p" "p \<noteq> []" "length p < 3"
    and inner: "\<And>i. vpath (i # p) \<Longrightarrow> clears S R inner (i # p)"
  shows "clears S R (\<lambda>t. for_idx 512 (teardown_entry inner t)) p"
proof -
  have vp: "vpath (i # p)" if "i < 512" for i using that p by (simp add: vpath_Cons)
  have "torn S R p v (for_idx 512 (teardown_entry inner t) v) \<and>
      (\<forall>k < of_nat 512. gone R (for_idx 512 (teardown_entry inner t) v) p k)"
    if "spaces_ok S v" "node v R p = Some t" for v t
    by (rule teardown_loop_torn [OF that(1) R p(1) that(2)])
       (use p(2) vp R inner teardown_entry_torn in auto)
  then show ?thesis by (simp add: clears_def)
qed

lemma teardown_pd_clears: "R \<in> S \<Longrightarrow> vpath p \<Longrightarrow> length p = 2 \<Longrightarrow> clears S R teardown_pd p"
  unfolding teardown_pd_def [abs_def]
  by (rule teardown_level_clears) (auto intro!: teardown_pt_clears)

lemma teardown_pdpt_clears: "R \<in> S \<Longrightarrow> vpath p \<Longrightarrow> length p = 1 \<Longrightarrow> clears S R teardown_pdpt p"
  unfolding teardown_pdpt_def [abs_def]
  by (rule teardown_level_clears) (auto intro!: teardown_pd_clears)

lemma teardown_user_ok:
  assumes ok: "spaces_ok S v" and R: "R \<in> S"
  defines "v' \<equiv> vmm_teardown_user R v"
  shows "torn S R [] v v'" "i < 256 \<Longrightarrow> tab_get v' R i = 0" "leaf_place p j \<Longrightarrow> pte v' R p j = 0"
    "R' \<in> S \<Longrightarrow> R' \<noteq> R \<Longrightarrow> leaf_place p j \<Longrightarrow> pte v' R' p j = pte v R' p j"
    "vpath q \<Longrightarrow> q \<noteq> [] \<Longrightarrow> node v' R q = None"
proof -
  note tr = spaces_okD(1) [OF ok]
  have e: "v' = for_idx 256 (teardown_entry teardown_pdpt R) v"
    using trees_okD(1,4,5) [OF tr R] by (simp add: v'_def vmm_teardown_user_def)
  have "torn S R [] v v' \<and> (\<forall>k < of_nat 256. gone R v' [] k)"
    unfolding e
  proof (rule teardown_loop_torn [OF ok R])
    fix w i assume w: "spaces_ok S w" "node w R [] = Some R" "i < (of_nat 256 :: u64)"
    have "vpath [i]" using w(3) order.strict_trans [of i 256 512] by (simp add: vpath_Cons)
    then show "torn S R [] w (teardown_entry teardown_pdpt R i w) \<and> gone R (teardown_entry teardown_pdpt R i w) [] i"
      by (intro teardown_entry_torn [OF w(1) R _ w(2)] teardown_pdpt_clears [OF R]) simp_all
  qed simp_all
  then have T: "torn S R [] v v'" and g: "k < 256 \<Longrightarrow> gone R v' [] k" for k by auto
  show "torn S R [] v v'" by (fact T)
  have ok': "spaces_ok S v'" using T by (simp add: torn_def)
  show "tab_get v' R i = 0" if "i < 256" for i
    by (rule gone_zero [OF ok' R _ _ g]) (use that order.strict_trans [of i 256 512] in auto)
  show N: "node v' R q = None" if "vpath q" "q \<noteq> []" for q
    using that
  proof (induction q)
    case (Cons i q)
    show ?case
    proof (cases "q = []")
      case True
      then show ?thesis using Cons.prems g [of i] by (simp add: gone_def vpath_Cons)
    next
      case False
      then show ?thesis using Cons by (simp add: vpath_Cons)
    qed
  qed simp
  show "pte v' R p j = 0" if "leaf_place p j" for p j using N [of p] that by (cases p) (auto simp: pte_def leaf_place_def)
  show "pte v' R' p j = pte v R' p j" if "R' \<in> S" "R' \<noteq> R" "leaf_place p j" for R' p j
    using T that unfolding torn_def by blast
qed

end
