(* ===== verification/Vmm_Fork.thy ===== *)
theory Vmm_Fork
  imports Vmm_Teardown
begin

text \<open>
  \<open>vmm_copy_user\<close>, the address-space half of \<open>fork\<close>: every page of the source becomes a page that
  source and destination share read-only, with the intended write permission kept in the entry.
\<close>

section \<open>Addresses of places\<close>

primrec base_va :: "place \<Rightarrow> u64" where
  "base_va [] = 0"
| "base_va (i # p) = base_va p OR push_bit (39 - 9 * length p) i"

lemma bit_small: "i < 512 \<Longrightarrow> bit (i :: u64) n \<Longrightarrow> n < 9"
proof -
  assume i: "i < 512" and b: "bit i n"
  have "unat (take_bit 9 i) = unat i" using i unfolding unat_take_bit_mod by (simp add: word_less_nat_alt)
  then have "bit (take_bit 9 i) n" using b word_eq_by_unat by metis
  then show "n < 9" by (simp add: bit_take_bit_iff)
qed

lemma va_of_place:
  assumes "leaf_place p i"
  shows "va_place (base_va (i # p)) = p" "pt_ix (base_va (i # p)) = i"
    "aligned (base_va (i # p))" "pml4_ix (base_va (i # p)) < 256"
proof -
  obtain a b c where p: "p = [a, b, c]" "c < 256"
    using assms by (auto simp: leaf_place_def vpath_def length_Suc_conv numeral_3_eq_3)
  have l: "i < 512" "a < 512" "b < 512" "c < 512" using assms p(1) by (auto simp: leaf_place_def vpath_def)
  note bs = l [THEN bit_small]
  let ?va = "base_va (i # p)"
  have va: "?va = push_bit 39 c OR push_bit 30 b OR push_bit 21 a OR push_bit 12 i"
    by (simp add: p(1) ac_simps)
  have n511: "(511 :: u64) = mask 9" by (simp add: mask_eq_exp_minus_1)
  have "pt_ix ?va = i" "pd_ix ?va = a" "pdpt_ix ?va = b" "pml4_ix ?va = c"
    unfolding va pt_ix_def pd_ix_def pdpt_ix_def pml4_ix_def n511
    by (intro bit_word_eqI; auto simp: bit_simps dest: bs)+
  then show "va_place ?va = p" "pt_ix ?va = i" "pml4_ix ?va < 256" using p by (simp_all add: va_place_def)
  show "aligned ?va" unfolding va aligned_bits by (auto simp: bit_simps)
qed

section \<open>Sharing one page\<close>

definition share_flags :: "u64 \<Rightarrow> u64" where
  "share_flags e = PTE_USER_RO OR (if e AND (PDE_WRITE OR PTE_WANT_WRITE) \<noteq> 0 then PTE_WANT_WRITE else 0)"

definition shared_entry :: "u64 \<Rightarrow> u64" where
  "shared_entry e = (e AND ADDR_MASK) OR share_flags e"

lemma want_flags: "e AND (PDE_WRITE OR PTE_WANT_WRITE) \<noteq> 0 \<longleftrightarrow> bit e 1 \<or> bit e 9"
proof -
  have "e AND (PDE_WRITE OR PTE_WANT_WRITE) = (e AND PDE_WRITE) OR (e AND PTE_WANT_WRITE)"
    by (fact bit.conj_disj_distrib)
  moreover have "e AND PDE_WRITE = 0 \<longleftrightarrow> \<not> bit e 1" using bit_iff_and_push_bit_not_eq_0 [of e 1] by simp
  ultimately show ?thesis using want_bit [of e] by (simp only: or_eq_0_iff) blast
qed

lemma share_flags_bits:
  "low12 (share_flags e)" "bit (share_flags e) 0" "bit (share_flags e) 2" "\<not> bit (share_flags e) 1"
  "bit (share_flags e) 9 \<longleftrightarrow> bit e 1 \<or> bit e 9"
  unfolding share_flags_def want_flags by (simp_all add: PTE_USER_RO_def low12_less)

lemma shared_entry_mapped:
  "mapped (shared_entry e)" "shared_entry e AND ADDR_MASK = e AND ADDR_MASK"
  "\<not> bit (shared_entry e) 1" "bit (shared_entry e) 9 \<longleftrightarrow> bit e 1 \<or> bit e 9"
  using share_flags_bits [of e]
  by (simp_all add: shared_entry_def mapped_def present_bit user_bit entry_bit)

lemma cow_tab_sel [simp]:
  "node (v\<lparr>cow_tab := c\<rparr>) R p = node v R p" "pte (v\<lparr>cow_tab := c\<rparr>) R p i = pte v R p i"
  "is_free (v\<lparr>cow_tab := c\<rparr>) a = is_free v a" "trees_ok S (v\<lparr>cow_tab := c\<rparr>) = trees_ok S v"
proof -
  show n: "node (v\<lparr>cow_tab := c\<rparr>) R p = node v R p" for R p
    by (induction p) (simp_all add: next_table_def cong: option.case_cong)
  show p: "pte (v\<lparr>cow_tab := c\<rparr>) R p i = pte v R p i" for R p i by (simp add: pte_def n cong: option.case_cong)
  show f: "is_free (v\<lparr>cow_tab := c\<rparr>) a = is_free v a" for a by (simp add: is_free_def)
  show "trees_ok S (v\<lparr>cow_tab := c\<rparr>) = trees_ok S v" by (simp add: trees_ok_def n p f)
qed

lemma frames_okI:
  assumes "spaces_ok S v" "cow_wf (cow_tab v')"
    and "\<And>a. cow_count (cow_tab v') a = max 1 (card (maps S v' a))"
    and "\<And>a. maps S v' a \<noteq> {} \<Longrightarrow> maps S v a \<noteq> {}"
    and "\<And>a. is_free v' a \<Longrightarrow> is_free v a"
    and "\<And>R p t. R \<in> S \<Longrightarrow> vpath p \<Longrightarrow> node v' R p = Some t \<Longrightarrow> node v R p = Some t \<or> is_free v t"
  shows "frames_ok S v'"
  using assms(2-6) spaces_okD(6,7) [OF assms(1)] unfolding frames_ok_def by metis

lemma copy_leaf_ok:
  assumes ok: "spaces_ok S v" and RD: "R \<in> S" "D \<in> S" "R \<noteq> D" and lp: "leaf_place p i"
    and t: "node v R p = Some t" and e: "mapped (tab_get v t i)" and un: "\<not> mapped (pte v D p i)"
    and lt: "card (maps S v (tab_get v t i AND ADDR_MASK)) < 2 ^ 32 - 1"
    and run: "copy_leaf D (base_va p) t i v = (r, v')"
  shows "spaces_ok S v' \<and> same_pages S v v' \<and>
    (\<forall>R' \<in> S. \<forall>q u. vpath q \<longrightarrow> node v R' q = Some u \<longrightarrow> node v' R' q = Some u) \<and>
    (\<forall>R' \<in> S. \<forall>q j. leaf_place q j \<longrightarrow> pte v' R' q j =
       (if r \<and> q = p \<and> j = i \<and> (R' = R \<or> R' = D) then shared_entry (tab_get v t i) else pte v R' q j))"
proof -
  note tr = spaces_okD(1) [OF ok] and V = va_of_place [OF lp]
  define e where "e = tab_get v t i"
  define a where "a = e AND ADDR_MASK"
  define e' where "e' = shared_entry e"
  have em: "mapped e" and al: "aligned a" using assms(7) by (simp_all add: e_def a_def)
  have e'm: "mapped e'" "e' AND ADDR_MASK = a" using shared_entry_mapped [of e] by (auto simp: e'_def a_def)
  have pv: "vpath p" "i < 512" "length p = 3" using lp by (auto simp: leaf_place_def)
  have pe: "pte v R p i = e" using t by (simp add: pte_def e_def)
  have here: "(R, p, i) \<in> maps S v a" using RD lp em pe by (simp add: maps_here a_def)
  have va: "base_va p OR push_bit 12 i = base_va (i # p)" using pv by simp
  have fin: "finite S" by (rule spaces_okD(3) [OF ok])
  obtain sh ct where cs: "cow_share_frame a (cow_tab v) = (sh, ct)" by fastforce
  obtain mk v2 where mp: "vmm_map_user_flags D (base_va (i # p)) a (share_flags e) (v\<lparr>cow_tab := ct\<rparr>) = (mk, v2)"
    by fastforce
  have R1: "(r, v') = (if \<not> sh then (False, v\<lparr>cow_tab := ct\<rparr>)
      else if \<not> mk then (False, v2\<lparr>cow_tab := cow_unshare a (cow_tab v2)\<rparr>) else (True, tab_set t i e' v2))"
    using run em cs mp unfolding copy_leaf_def e_def [symmetric] Let_def a_def [symmetric] va
      share_flags_def [symmetric] e'_def shared_entry_def
    by (auto simp: mapped_def)
  show ?thesis
  proof (cases sh)
    case False
    then have "r = False" "v' = v" using R1 cow_share_fail cs by auto
    then show ?thesis using ok by (simp add: same_pages_def)
  next
    case True
    have cnt: "cow_count (cow_tab v) a = card (maps S v a)"
      using spaces_okD(5) [OF ok, of a] here finite_maps [OF fin, of v a]
      by (metis Suc_leI card_gt_0_iff empty_iff max_absorb2 One_nat_def)
    have cow: "cow_wf ct" "\<And>q. cow_count ct q = (if q = a then card (maps S v a) + 1 else cow_count (cow_tab v) q)"
      using cow_share_ok [OF spaces_okD(4) [OF ok], of a ct] cs True lt cnt by (auto simp: a_def e_def)
    have tr1: "trees_ok S (v\<lparr>cow_tab := ct\<rparr>)" using tr by simp
    note M = map_flags_trees [OF tr1 RD(2) V(4) al share_flags_bits(1-3) mp, unfolded V cow_tab_sel tab_get_sel]
    have c2: "cow_tab v2 = ct" using M(2) by simp
    have cont: "tab_get v2 c j = tab_get v c j" if "maps S v c \<noteq> {}" "j < 512" for c j
      using M(8) maps_aligned [OF that(1)] spaces_okD(6,7) [OF ok that(1)] RD(2) that(2) by blast
    show ?thesis
    proof (cases mk)
      case False
      then have r: "r = False" and v': "v' = v2\<lparr>cow_tab := cow_unshare a ct\<rparr>" using R1 True c2 by auto
      have P: "pte v' R' q j = pte v R' q j" if "R' \<in> S" "leaf_place q j" for R' q j
        using M(7) [OF that] False by (simp add: v')
      have m: "maps S v' b = maps S v b" for b using P by (auto simp: maps_def)
      have "1 \<le> card (maps S v a)" using here finite_maps [OF fin, of v a] by (metis Suc_leI card_gt_0_iff empty_iff One_nat_def)
      then have un: "cow_wf (cow_unshare a ct) \<and> cow_count (cow_unshare a ct) q = cow_count (cow_tab v) q" for q
        using cow_unshare_ok [OF cow(1), of a q] cow(2) [of a] cow(2) [of q] cnt by simp
      have "frames_ok S v'"
      proof (rule frames_okI [OF ok])
        show "cow_wf (cow_tab v')" "cow_count (cow_tab v') b = max 1 (card (maps S v' b))" for b
          unfolding m using un spaces_okD(5) [OF ok, of b] by (simp_all add: v')
      qed (use m M(4,5) in \<open>auto simp: v'\<close>)
      moreover have "trees_ok S v'" using M(1) by (simp add: v')
      ultimately show ?thesis using r P M(6) cont by (simp add: spaces_ok_def same_pages_def v')
    next
      case ok2: True
      then have r: "r = True" and v': "v' = tab_set t i e' v2" using R1 True by auto
      have t2: "node v2 R p = Some t" using M(6) [OF RD(1) pv(1)] t by simp
      have tal: "aligned t" using trees_okD(6) [OF tr RD(1) pv(1) t] by simp
      have mem: "\<forall>b j. aligned b \<longrightarrow> j < 512 \<longrightarrow> \<not> is_free v2 b \<longrightarrow>
          tab_get v' b j = (if b = t \<and> j = i then e' else tab_get v2 b j)"
        using tab_get_set [OF tal _ pv(2)] by (simp add: v')
      note L = set_leaf [OF M(1) RD(1) lp t2 mem]
      have fr: "is_free v' x \<longleftrightarrow> is_free v2 x" for x by (simp add: v' is_free_def)
      have tr': "trees_ok S v'"
      proof (rule set_leaf_trees [OF M(1) RD(1) lp t2 mem])
        show "\<forall>R' \<in> S. \<forall>q u. vpath q \<longrightarrow> node v2 R' q = Some u \<longrightarrow> \<not> is_free v' u"
        proof (intro ballI allI impI)
          fix R' q u assume "R' \<in> S" "vpath q" "node v2 R' q = Some u"
          from trees_okD(6) [OF M(1) this] show "\<not> is_free v' u" by (simp add: fr)
        qed
      qed (use e'm trees_okD(1,2) [OF M(1) RD(1)] in \<open>auto simp: v'\<close>)
      have e'v: "a OR share_flags e = e'" by (simp add: e'_def shared_entry_def a_def)
      have P: "pte v' R' q j = (if q = p \<and> j = i \<and> (R' = R \<or> R' = D) then e' else pte v R' q j)"
        if "R' \<in> S" "leaf_place q j" for R' q j
        using L(2) [OF that] M(7) [OF that] RD(3) ok2 unfolding e'v by auto
      have m: "maps S v' b = (if b = a then insert (D, p, i) (maps S v b) else maps S v b)" for b
        using P here RD lp e'm un pe em unfolding maps_def a_def by (auto split: if_splits)
      have nin: "(D, p, i) \<notin> maps S v a" using un by (simp add: maps_def)
      have "frames_ok S v'"
      proof (rule frames_okI [OF ok])
        show "cow_wf (cow_tab v')" using cow(1) c2 by (simp add: v')
        show "cow_count (cow_tab v') b = max 1 (card (maps S v' b))" for b
          using cow(2) [of b] c2 nin spaces_okD(5) [OF ok, of b] finite_maps [OF fin, of v a]
          unfolding m by (simp add: v')
        show "maps S v' b \<noteq> {} \<Longrightarrow> maps S v b \<noteq> {}" for b using m [of b] here by (auto split: if_splits)
        show "is_free v' b \<Longrightarrow> is_free v b" for b using fr M(4) by simp
        show "node v R' q = Some u \<or> is_free v u" if "R' \<in> S" "vpath q" "node v' R' q = Some u" for R' q u
          using L(1) [OF that(1,2)] M(5) [OF that(1,2)] that(3) by metis
      qed
      moreover have "same_pages S v v'"
        unfolding same_pages_def
      proof (intro allI impI)
        fix c j assume c: "maps S v c \<noteq> {}" "(j :: u64) < 512"
        have "c \<noteq> t" using spaces_okD(7) [OF ok c(1) RD(1) pv(1)] t by auto
        then show "tab_get v' c j = tab_get v c j"
          using cont [OF c] tab_get_set [OF tal maps_aligned [OF c(1)] pv(2) c(2)] by (simp add: v')
      qed
      ultimately show ?thesis using tr' r P L(1) M(6) unfolding e_def [symmetric] e'_def [symmetric]
        by (simp add: spaces_ok_def)
    qed
  qed
qed

section \<open>The loops\<close>

text \<open>What both spaces hold of an entry of the source once its place has been copied.\<close>

definition sh :: "u64 \<Rightarrow> u64" where "sh e = (if mapped e then shared_entry e else 0)"

text \<open>
  The state in the middle of the copy of \<open>R\<close> into \<open>D\<close>, which started in \<open>v0\<close>: the places in \<open>P\<close> are
  done.
\<close>

definition copied :: "u64 set \<Rightarrow> u64 \<Rightarrow> u64 \<Rightarrow> vmm \<Rightarrow> vmm \<Rightarrow> (place \<times> u64) set \<Rightarrow> bool" where
  "copied S R D v0 v P \<longleftrightarrow> spaces_ok S v \<and> same_pages S v0 v \<and>
     (\<forall>p i. leaf_place p i \<longrightarrow>
        pte v R p i = (if (p, i) \<in> P then sh (pte v0 R p i) else pte v0 R p i) \<and>
        pte v D p i = (if (p, i) \<in> P then sh (pte v0 R p i) else 0)) \<and>
     (\<forall>R' \<in> S - {R, D}. \<forall>p i. leaf_place p i \<longrightarrow> pte v R' p i = pte v0 R' p i)"

definition kept :: "u64 \<Rightarrow> vmm \<Rightarrow> vmm \<Rightarrow> bool" where
  "kept R v v' \<longleftrightarrow> (\<forall>q u. vpath q \<longrightarrow> node v R q = Some u \<longrightarrow> node v' R q = Some u)"

definition below :: "place \<Rightarrow> (place \<times> u64) set" where
  "below p = {(q, j). leaf_place q j \<and> suffix p (j # q)}"

lemma below_disjoint: "i \<noteq> k \<Longrightarrow> below (i # p) \<inter> below (k # p) = {}"
proof -
  assume ik: "i \<noteq> k"
  have "i = k" if x: "suffix (i # p) x" "suffix (k # p) x" for x
  proof -
    obtain a where a: "x = a @ i # p" using x(1) unfolding suffix_def by blast
    obtain b where b: "x = b @ k # p" using x(2) unfolding suffix_def by blast
    have "length a = length b" using arg_cong [OF a, of length] arg_cong [OF b, of length] by simp
    then show ?thesis using a b by simp
  qed
  then show ?thesis using ik by (auto simp: below_def)
qed

lemma below_leaf: "leaf_place p i \<Longrightarrow> below (i # p) = {(p, i)}"
proof -
  assume l: "leaf_place p i"
  have "j # q = i # p" if "leaf_place q j" "suffix (i # p) (j # q)" for q j
    using that l suffix_order.antisym suffix_length_le
    by (metis leaf_place_def length_Cons append_Nil suffixE append_eq_append_conv)
  then show ?thesis using l by (auto simp: below_def)
qed

lemma below_split:
  assumes p: "vpath p" and N: "N = (if p = [] then 256 else 512)"
  shows "below p = (\<Union>k < N. below (of_nat k # p))"
proof (intro set_eqI iffI)
  fix x assume x: "x \<in> below p"
  obtain q j where q: "x = (q, j)" "leaf_place q j" "suffix p (j # q)" using x by (auto simp: below_def)
  then obtain ys where ys: "j # q = ys @ p" by (auto simp: suffix_def)
  have "length ys \<noteq> 0" using arg_cong [OF ys, of length] p q(2) by (auto simp: leaf_place_def vpath_def)
  then obtain zs k where k: "j # q = zs @ k # p" using ys by (cases ys rule: rev_cases) auto
  have "k \<in> set (j # q)" using k by simp
  then have k5: "k < 512" using q(2) by (auto simp: leaf_place_def vpath_def)
  have "k < 256" if "p = []"
  proof -
    have "last (j # q) = k" "q \<noteq> []" using k that q(2) by (auto simp: leaf_place_def)
    then show ?thesis using q(2) by (auto simp: leaf_place_def vpath_def split: if_splits)
  qed
  then have "unat k < N" using k5 N by (auto simp: word_less_nat_alt)
  moreover have "x \<in> below (of_nat (unat k) # p)" using q k by (auto simp: below_def suffix_def)
  ultimately show "x \<in> (\<Union>k < N. below (of_nat k # p))" by blast
next
  fix x assume "x \<in> (\<Union>k < N. below (of_nat k # p))"
  then show "x \<in> below p" by (auto simp: below_def suffix_def)
qed

lemma copied_maps:
  assumes R: "R \<in> S" "R \<noteq> D" and c0: "copied S R D v0 v0 {}" and c: "copied S R D v0 v P"
  shows "maps S v0 a \<noteq> {} \<Longrightarrow> maps S v a \<noteq> {}" "card (maps S v a) \<le> 2 * card (maps S v0 a)"
proof -
  have sm: "mapped (sh e) \<longleftrightarrow> mapped e" "mapped e \<Longrightarrow> sh e AND ADDR_MASK = e AND ADDR_MASK" for e
    using shared_entry_mapped [of e] by (auto simp: sh_def)
  have fin: "finite S" using c0 by (auto simp: copied_def dest: spaces_okD(3))
  have D0: "leaf_place p i \<Longrightarrow> pte v0 D p i = 0" for p i using c0 by (simp add: copied_def)
  have Rp: "leaf_place p i \<Longrightarrow> pte v R p i = sh (pte v0 R p i) \<or> pte v R p i = pte v0 R p i"
    "leaf_place p i \<Longrightarrow> pte v D p i = sh (pte v0 R p i) \<or> pte v D p i = 0"
    "leaf_place p i \<Longrightarrow> R' \<in> S \<Longrightarrow> R' \<noteq> R \<Longrightarrow> R' \<noteq> D \<Longrightarrow> pte v R' p i = pte v0 R' p i" for p i R'
    using c by (auto simp: copied_def)
  show "maps S v a \<noteq> {}" if ne: "maps S v0 a \<noteq> {}"
  proof -
    obtain R' p i where x: "R' \<in> S" "leaf_place p i" "mapped (pte v0 R' p i)" "pte v0 R' p i AND ADDR_MASK = a"
      using ne by (auto simp: maps_def)
    have "R' \<noteq> D" using x D0 by auto
    then have "mapped (pte v R' p i) \<and> pte v R' p i AND ADDR_MASK = a"
      using x Rp(1) [OF x(2)] Rp(3) [OF x(2,1)] sm by metis
    then show ?thesis using x by (auto simp: maps_def)
  qed
  let ?f = "\<lambda>(R', p, i). (D, p, i)"
  have "maps S v a \<subseteq> maps S v0 a \<union> ?f ` maps S v0 a"
  proof
    fix x assume x: "x \<in> maps S v a"
    obtain R' p i where x': "x = (R', p, i)" "R' \<in> S" "leaf_place p i" "mapped (pte v R' p i)"
      "pte v R' p i AND ADDR_MASK = a" using x by (auto simp: maps_def)
    consider "R' = D" | "R' = R" | "R' \<noteq> R" "R' \<noteq> D" by blast
    then show "x \<in> maps S v0 a \<union> ?f ` maps S v0 a"
    proof cases
      case 1
      then have "pte v D p i = sh (pte v0 R p i)" using Rp(2) [OF x'(3)] x'(4) by auto
      then have "(R, p, i) \<in> maps S v0 a" using x' 1 R sm by (auto simp: maps_def)
      then have "?f (R, p, i) \<in> ?f ` maps S v0 a" by (rule imageI)
      then show ?thesis using x'(1) 1 by simp
    next
      case 2
      then have "(R, p, i) \<in> maps S v0 a" using Rp(1) [OF x'(3)] x' sm by (auto simp: maps_def)
      then show ?thesis using x'(1) 2 by simp
    next
      case 3
      then show ?thesis using Rp(3) [OF x'(3,2)] x' by (auto simp: maps_def)
    qed
  qed
  then have "card (maps S v a) \<le> card (maps S v0 a \<union> ?f ` maps S v0 a)"
    using finite_maps [OF fin, of v0 a] by (intro card_mono) auto
  also have "\<dots> \<le> card (maps S v0 a) + card (?f ` maps S v0 a)" by (rule card_Un_le)
  also have "\<dots> \<le> 2 * card (maps S v0 a)" using card_image_le [OF finite_maps [OF fin, of v0 a], of ?f] by simp
  finally show "card (maps S v a) \<le> 2 * card (maps S v0 a)" .
qed

lemma kept_refl: "kept R v v" by (simp add: kept_def)

lemma kept_trans: "kept R v v1 \<Longrightarrow> kept R v1 v2 \<Longrightarrow> kept R v v2" by (simp add: kept_def)

lemma copied_extend:
  assumes c: "copied S R D v0 v P" and z: "\<forall>(p, i) \<in> X. \<not> mapped (pte v R p i)" and x: "P \<inter> X = {}"
    and R: "R \<in> S"
  shows "copied S R D v0 v (P \<union> X)"
proof -
  have "pte v R p i = 0" if "(p, i) \<in> X" "leaf_place p i" for p i
    using trees_okD(9) [OF spaces_okD(1) R that(2), of v] c z that(1) by (auto simp: copied_def)
  moreover have "pte v R p i = pte v0 R p i" if "(p, i) \<in> X" "leaf_place p i" for p i
  proof -
    have "(p, i) \<notin> P" using x that(1) by blast
    then show ?thesis using c that(2) by (simp add: copied_def)
  qed
  ultimately have "pte v0 R p i = 0" if "(p, i) \<in> X" "leaf_place p i" for p i using that by metis
  then show ?thesis using c by (auto simp: copied_def sh_def)
qed

text \<open>One entry, a table, and the loop over a table's entries.\<close>

definition copies :: "u64 set \<Rightarrow> u64 \<Rightarrow> u64 \<Rightarrow> vmm \<Rightarrow> (vmm \<Rightarrow> bool \<times> vmm) \<Rightarrow> place \<Rightarrow> u64 \<Rightarrow> (place \<times> u64) set \<Rightarrow> bool" where
  "copies S R D v0 f p t X \<longleftrightarrow> (\<forall>v P r v'. copied S R D v0 v P \<longrightarrow> node v R p = Some t \<longrightarrow> P \<inter> X = {} \<longrightarrow>
     f v = (r, v') \<longrightarrow> kept R v v' \<and> (if r then copied S R D v0 v' (P \<union> X) else \<exists>P'. copied S R D v0 v' P'))"

lemma copies_loop:
  assumes p: "vpath p" and step: "\<And>i. i \<in> set is \<Longrightarrow> copies S R D v0 (g (of_nat i)) p t (below (of_nat i # p))"
    and d: "distinct is" "\<forall>i \<in> set is. i < 512"
  shows "copies S R D v0 (try_idx g is) p t (\<Union>k \<in> set is. below (of_nat k # p))"
  using step d
proof (induction "is")
  case Nil
  then show ?case by (simp add: copies_def kept_refl)
next
  case (Cons i "is")
  note IH = Cons.IH [OF Cons.prems(1)]
  show ?case
    unfolding copies_def
  proof (intro allI impI)
    fix v P r v'
    assume a: "copied S R D v0 v P" "node v R p = Some t" "P \<inter> (\<Union>k \<in> set (i # is). below (of_nat k # p)) = {}"
      "try_idx g (i # is) v = (r, v')"
    obtain r1 v1 where g: "g (of_nat i) v = (r1, v1)" by fastforce
    have 1: "kept R v v1 \<and> (if r1 then copied S R D v0 v1 (P \<union> below (of_nat i # p)) else \<exists>P'. copied S R D v0 v1 P')"
      using Cons.prems(1) [of i] a(1,2) g a(3) unfolding copies_def by (auto simp: Int_Un_distrib)
    show "kept R v v' \<and> (if r then copied S R D v0 v' (P \<union> (\<Union>k \<in> set (i # is). below (of_nat k # p)))
        else \<exists>P'. copied S R D v0 v' P')"
    proof (cases r1)
      case False
      then show ?thesis using 1 g a(4) by simp
    next
      case True
      then have run: "try_idx g is v1 = (r, v')" using g a(4) by simp
      have n1: "node v1 R p = Some t" using 1 a(2) p by (simp add: kept_def)
      have "below (of_nat i # p) \<inter> below (of_nat k # p) = {}" if "k \<in> set is" for k
      proof (rule below_disjoint)
        have "i < 512" "k < 512" "i \<noteq> k" using Cons.prems(2,3) that by auto
        then show "(of_nat i :: u64) \<noteq> of_nat k" by (simp add: word_of_nat_eq_iff take_bit_nat_eq_self)
      qed
      then have "(P \<union> below (of_nat i # p)) \<inter> (\<Union>k \<in> set is. below (of_nat k # p)) = {}" using a(3) by auto
      then have "kept R v1 v' \<and> (if r then copied S R D v0 v' (P \<union> below (of_nat i # p) \<union> (\<Union>k \<in> set is. below (of_nat k # p)))
          else \<exists>P'. copied S R D v0 v' P')"
        using IH 1 True n1 run Cons.prems(2,3) unfolding copies_def by auto
      then show ?thesis using 1 kept_trans by (auto simp: Un_assoc)
    qed
  qed
qed

lemma copy_leaf_copies:
  assumes R: "R \<in> S" "D \<in> S" "R \<noteq> D" and c0: "copied S R D v0 v0 {}" and lt: "\<forall>a. card (maps S v0 a) < 2 ^ 31"
    and lp: "leaf_place p i"
  shows "copies S R D v0 (copy_leaf D (base_va p) t i) p t (below (i # p))"
  unfolding copies_def below_leaf [OF lp]
proof (intro allI impI)
  fix v P r v'
  assume a: "copied S R D v0 v P" "node v R p = Some t" "P \<inter> {(p, i)} = {}" "copy_leaf D (base_va p) t i v = (r, v')"
  have ok: "spaces_ok S v" using a(1) by (simp add: copied_def)
  have e: "tab_get v t i = pte v R p i" using a(2) by (simp add: pte_def)
  have e0: "pte v R p i = pte v0 R p i" and un: "pte v D p i = 0" using a(1,3) lp by (auto simp: copied_def)
  show "kept R v v' \<and> (if r then copied S R D v0 v' (P \<union> {(p, i)}) else \<exists>P'. copied S R D v0 v' P')"
  proof (cases "mapped (tab_get v t i)")
    case False
    then have "r \<and> v' = v" using a(4) by (auto simp: copy_leaf_def mapped_def Let_def)
    moreover have "copied S R D v0 v (P \<union> {(p, i)})"
      by (rule copied_extend [OF a(1) _ _ R(1)]) (use False e a(3) in auto)
    ultimately show ?thesis by (simp add: kept_refl)
  next
    case True
    have "card (maps S v b) < 2 ^ 32 - 1" for b
      using copied_maps(2) [OF R(1,3) c0 a(1), of b] lt [rule_format, of b] by simp
    note L = copy_leaf_ok [OF ok R lp a(2) True _ this a(4)]
    have 1: "spaces_ok S v'" "same_pages S v v'" "kept R v v'" using L un R(1) by (auto simp: kept_def)
    have P: "pte v' R' q j = (if r \<and> q = p \<and> j = i \<and> (R' = R \<or> R' = D) then shared_entry (pte v R p i) else pte v R' q j)"
      if "R' \<in> S" "leaf_place q j" for R' q j using L un that e by auto
    have sp: "same_pages S v0 v'"
      using a(1) 1(2) copied_maps(1) [OF R(1,3) c0 a(1)] unfolding copied_def same_pages_def by auto
    have "sh (pte v0 R p i) = shared_entry (pte v R p i)" using True e e0 by (simp add: sh_def)
    then have "copied S R D v0 v' (if r then P \<union> {(p, i)} else P)"
      unfolding copied_def
    proof (intro conjI allI impI ballI 1(1) sp)
      fix q j assume q: "leaf_place q j"
      note c = a(1) [unfolded copied_def, THEN conjunct2, THEN conjunct2, THEN conjunct1, rule_format, OF q]
      show "pte v' R q j = (if (q, j) \<in> (if r then P \<union> {(p, i)} else P) then sh (pte v0 R q j) else pte v0 R q j)"
        "pte v' D q j = (if (q, j) \<in> (if r then P \<union> {(p, i)} else P) then sh (pte v0 R q j) else 0)"
        using P [OF R(1) q] P [OF R(2) q] c \<open>sh (pte v0 R p i) = shared_entry (pte v R p i)\<close> by (auto split: if_splits)
      fix R' assume "R' \<in> S - {R, D}"
      then show "pte v' R' q j = pte v0 R' q j" using P [OF _ q] a(1) q by (auto simp: copied_def)
    qed
    then show ?thesis using 1(3) by (auto split: if_splits)
  qed
qed

lemma copy_entry_copies:
  assumes R: "R \<in> S" and p: "vpath (i # p)"
    and inner: "\<And>u. copies S R D v0 (inner (base_va (i # p)) u) (i # p) u (below (i # p))"
  shows "copies S R D v0 (copy_entry inner (39 - 9 * length p) (base_va p) t i) p t (below (i # p))"
  unfolding copies_def
proof (intro allI impI)
  fix v P r v'
  assume a: "copied S R D v0 v P" "node v R p = Some t" "P \<inter> below (i # p) = {}"
    "copy_entry inner (39 - 9 * length p) (base_va p) t i v = (r, v')"
  show "kept R v v' \<and> (if r then copied S R D v0 v' (P \<union> below (i # p)) else \<exists>P'. copied S R D v0 v' P')"
  proof (cases "user_table_entry (tab_get v t i)")
    case True
    then have "node v R (i # p) = Some (tab_get v t i AND ADDR_MASK)" using a(2) by (simp add: next_table_def)
    moreover have "inner (base_va (i # p)) (tab_get v t i AND ADDR_MASK) v = (r, v')"
      using a(4) True by (simp add: copy_entry_def Let_def)
    ultimately show ?thesis using inner a(1,3) unfolding copies_def by blast
  next
    case False
    then have "r \<and> v' = v" using a(4) by (simp add: copy_entry_def Let_def)
    moreover have none: "node v R (ys @ i # p) = None" for ys
      using False a(2) by (induction ys) (simp_all add: next_table_def)
    have "\<not> mapped (pte v R q j)" if b: "(q, j) \<in> below (i # p)" for q j
    proof -
      obtain ys where ys: "j # q = ys @ i # p" "leaf_place q j"
        using b unfolding below_def suffix_def by blast
      have "ys \<noteq> []" using ys p by (auto simp: leaf_place_def vpath_Cons)
      then obtain zs where "q = zs @ i # p" using ys(1) by (cases ys) auto
      then show ?thesis using none by (simp add: pte_def)
    qed
    then have "copied S R D v0 v (P \<union> below (i # p))" using copied_extend [OF a(1) _ a(3) R] by blast
    ultimately show ?thesis by (simp add: kept_refl)
  qed
qed

lemma table_copies:
  assumes p: "vpath p" and N: "N = (if p = [] then 256 else 512)"
    and step: "\<And>i. i < of_nat N \<Longrightarrow> copies S R D v0 (g i) p t (below (i # p))"
  shows "copies S R D v0 (try_idx g [0..<N]) p t (below p)"
proof -
  have "copies S R D v0 (try_idx g [0..<N]) p t (\<Union>k \<in> set [0..<N]. below (of_nat k # p))"
  proof (rule copies_loop [OF p])
    fix i assume "i \<in> set [0..<N]"
    then have "(of_nat i :: u64) < of_nat N" using N by (simp add: word_less_nat_alt unat_of_nat)
    then show "copies S R D v0 (g (of_nat i)) p t (below (of_nat i # p))" by (rule step)
  qed (use N in auto)
  then show ?thesis unfolding below_split [OF p N] by (simp add: atLeast0LessThan)
qed

lemma copy_user_copies:
  assumes R: "R \<in> S" "D \<in> S" "R \<noteq> D" and c0: "copied S R D v0 v0 {}" and lt: "\<forall>a. card (maps S v0 a) < 2 ^ 31"
  shows "copies S R D v0 (try_idx (copy_entry (copy_pdpt D) 39 0 R) [0..<256]) [] R (below [])"
proof -
  have pt: "copies S R D v0 (copy_pt D (base_va p) t) p t (below p)" if "vpath p" "length p = 3" for p t
    unfolding copy_pt_def using that
    by (intro table_copies copy_leaf_copies [OF R c0 lt]) (auto simp: leaf_place_def)
  have pd: "copies S R D v0 (copy_pd D (base_va p) t) p t (below p)" if p: "vpath p" "length p = 2" for p t
    unfolding copy_pd_def
  proof (rule table_copies [OF p(1)])
    fix i :: u64 assume "i < of_nat 512"
    then have v: "vpath (i # p)" using p by (auto simp: vpath_Cons)
    have "copies S R D v0 (copy_entry (copy_pt D) (39 - 9 * length p) (base_va p) t i) p t (below (i # p))"
      by (rule copy_entry_copies [OF R(1) v]) (rule pt [OF v], use p in simp)
    then show "copies S R D v0 (copy_entry (copy_pt D) 21 (base_va p) t i) p t (below (i # p))" using p by simp
  qed (use p in auto)
  have pdpt: "copies S R D v0 (copy_pdpt D (base_va p) t) p t (below p)" if p: "vpath p" "length p = 1" for p t
    unfolding copy_pdpt_def
  proof (rule table_copies [OF p(1)])
    fix i :: u64 assume "i < of_nat 512"
    then have v: "vpath (i # p)" using p by (auto simp: vpath_Cons)
    have "copies S R D v0 (copy_entry (copy_pd D) (39 - 9 * length p) (base_va p) t i) p t (below (i # p))"
      by (rule copy_entry_copies [OF R(1) v]) (rule pd [OF v], use p in simp)
    then show "copies S R D v0 (copy_entry (copy_pd D) 30 (base_va p) t i) p t (below (i # p))" using p by simp
  qed (use p in auto)
  show ?thesis
  proof (rule table_copies)
    fix i :: u64 assume i: "i < of_nat 256"
    then have v: "vpath [i]" using order.strict_trans [of i 256 512] by (auto simp: vpath_Cons)
    have "copies S R D v0 (copy_entry (copy_pdpt D) (39 - 9 * length ([] :: place)) (base_va []) R i) [] R (below [i])"
      by (rule copy_entry_copies [OF R(1) v]) (rule pdpt [OF v], simp)
    then show "copies S R D v0 (copy_entry (copy_pdpt D) 39 0 R i) [] R (below [i])" by simp
  qed simp_all
qed

text \<open>
  The copy of a whole address space into one that maps nothing: on success both hold the shared
  form of every entry of the source; on failure every entry is either untouched or shared.
\<close>

lemma copy_user_ok:
  assumes ok: "spaces_ok S v" and R: "R \<in> S" "D \<in> S" "R \<noteq> D"
    and D0: "\<forall>p i. leaf_place p i \<longrightarrow> pte v D p i = 0" and lt: "\<forall>a. card (maps S v a) < 2 ^ 31"
    and run: "vmm_copy_user D R v = (r, v')"
  shows "\<exists>P. copied S R D v v' P \<and> (r \<longrightarrow> (\<forall>p i. leaf_place p i \<longrightarrow> (p, i) \<in> P))"
proof -
  note tr = spaces_okD(1) [OF ok]
  have c0: "copied S R D v v {}" using ok D0 by (simp add: copied_def same_pages_def)
  have run': "try_idx (copy_entry (copy_pdpt D) 39 0 R) [0..<256] v = (r, v')"
    using run R trees_okD(1,4,5) [OF tr R(1)] trees_okD(4,5) [OF tr R(2)] by (simp add: vmm_copy_user_def)
  have "if r then copied S R D v v' ({} \<union> below []) else \<exists>P'. copied S R D v v' P'"
    using copy_user_copies [OF R c0 lt] c0 run' unfolding copies_def by fastforce
  then show ?thesis by (cases r) (auto simp: below_def)
qed

end
