(* ===== verification/Blocks.thy ===== *)
theory Blocks
  imports Prelude
begin

text \<open>
  The first-fit block allocator that \<open>kernel/heap.c\<close> and \<open>user/malloc.c\<close> share in shape:
  a 16-byte header (\<open>struct block\<close>: magic, free flag, payload size) before each payload,
  the headers found by walking from \<open>heap_base\<close>. The headers are a store \<open>hdr\<close> indexed
  by address; payload bytes are not modelled, so a header read at an address that holds
  no header is an arbitrary value of the store. Pointers are 64-bit words and wrap; the
  null pointer is 0. The walk is a \<^theory_text>\<open>partial_function (option)\<close>: \<open>None\<close> is a walk
  that never ends, which the invariant \<open>tiled\<close> excludes.
\<close>

section \<open>Headers, the walk, taking and releasing a block\<close>

record block =
  b_magic :: u32
  b_free :: u32
  b_size :: u64

record heap =
  heap_base :: u64
  heap_end :: u64
  hdr :: "u64 \<Rightarrow> block"

abbreviation HEAP_ALIGN :: u64 where "HEAP_ALIGN \<equiv> 16"
abbreviation HDR :: u64 where "HDR \<equiv> 16"

definition next_block :: "heap \<Rightarrow> u64 \<Rightarrow> u64" where
  "next_block h b =
     (let p = b + HDR + b_size (hdr h b) in
      if p < b + HDR \<or> heap_end h < p + HDR then 0 else p)"

datatype fit = Fit u64 | Corrupt | NoFit

partial_function (option) find_fit :: "u32 \<Rightarrow> heap \<Rightarrow> u64 \<Rightarrow> u64 \<Rightarrow> fit option" where
  "find_fit magic h need b =
     (if b = 0 then Some NoFit
      else if b_magic (hdr h b) \<noteq> magic then Some Corrupt
      else if b_free (hdr h b) \<noteq> 0 \<and> need \<le> b_size (hdr h b) then Some (Fit b)
      else find_fit magic h need (next_block h b))"

definition take_block :: "u32 \<Rightarrow> heap \<Rightarrow> u64 \<Rightarrow> u64 \<Rightarrow> heap" where
  "take_block magic h b need =
     (let leftover = b_size (hdr h b) - need;
          h1 = (if HDR + HEAP_ALIGN \<le> leftover
                then let split = b + HDR + need;
                         h' = h\<lparr>hdr := (hdr h)(split := \<lparr>b_magic = magic, b_free = 1,
                                                        b_size = leftover - HDR\<rparr>)\<rparr>
                     in h'\<lparr>hdr := (hdr h')(b := (hdr h' b)\<lparr>b_size := need\<rparr>)\<rparr>
                else h)
      in h1\<lparr>hdr := (hdr h1)(b := (hdr h1 b)\<lparr>b_free := 0\<rparr>)\<rparr>)"

definition block_release :: "u32 \<Rightarrow> u64 \<Rightarrow> heap \<Rightarrow> heap" where
  "block_release magic p h =
     (if p = 0 \<or> heap_base h = 0 then h
      else if p < heap_base h + HDR \<or> heap_end h \<le> p then h
      else let b = p - HDR in
        if b_magic (hdr h b) \<noteq> magic \<or> b_free (hdr h b) \<noteq> 0 then h
        else let h1 = h\<lparr>hdr := (hdr h)(b := (hdr h b)\<lparr>b_free := 1\<rparr>)\<rparr>;
                 n = next_block h1 b in
          if n \<noteq> 0 \<and> b_magic (hdr h1 n) = magic \<and> b_free (hdr h1 n) \<noteq> 0
          then h1\<lparr>hdr := (hdr h1)(b := (hdr h1 b)
                   \<lparr>b_size := b_size (hdr h1 b) + (HDR + b_size (hdr h1 n))\<rparr>)\<rparr>
          else h1)"

section \<open>The tiling invariant\<close>

text \<open>
  A block of the abstract heap: address of the header, free or not, payload size. The
  blocks tile the heap: each header is intact, payloads are non-empty multiples of 16
  bytes, the next header starts where the payload ends and the last payload ends at
  \<open>heap_end\<close>.
\<close>

type_synonym blk = "nat \<times> bool \<times> nat"

definition header :: "u32 \<Rightarrow> bool \<Rightarrow> nat \<Rightarrow> block" where
  "header magic f z = \<lparr>b_magic = magic, b_free = (if f then 1 else 0), b_size = of_nat z\<rparr>"

fun tiled :: "u32 \<Rightarrow> (u64 \<Rightarrow> block) \<Rightarrow> nat \<Rightarrow> nat \<Rightarrow> blk list \<Rightarrow> bool" where
  "tiled magic H e a [] \<longleftrightarrow> a = e"
| "tiled magic H e a ((p, f, z) # xs) \<longleftrightarrow>
     p = a \<and> 16 dvd z \<and> 0 < z \<and> H (of_nat a) = header magic f z \<and> a + 16 + z \<le> e \<and>
     tiled magic H e (a + 16 + z) xs"

definition heap_ok :: "u32 \<Rightarrow> heap \<Rightarrow> blk list \<Rightarrow> bool" where
  "heap_ok magic h xs \<longleftrightarrow> heap_base h \<noteq> 0 \<and> 16 dvd unat (heap_base h) \<and>
     unat (heap_end h) + 16 < 2 ^ 64 \<and> xs \<noteq> [] \<and>
     tiled magic (hdr h) (unat (heap_end h)) (unat (heap_base h)) xs"

definition live_blocks :: "blk list \<Rightarrow> (nat \<times> nat) set" where
  "live_blocks xs = {(a + 16, z) | a z. (a, False, z) \<in> set xs}"

definition apart :: "nat \<times> nat \<Rightarrow> nat \<times> nat \<Rightarrow> bool" where
  "apart x y \<longleftrightarrow> fst x + snd x \<le> fst y \<or> fst y + snd y \<le> fst x"

lemma header_sel [simp]:
  "b_magic (header m f z) = m" "b_free (header m f z) = (if f then 1 else 0)"
  "b_size (header m f z) = of_nat z"
  by (simp_all add: header_def)

lemma tiled_le: "tiled m H e a xs \<Longrightarrow> a \<le> e"
  by (induction xs arbitrary: a) auto

lemma tiled_bounds:
  "tiled m H e a xs \<Longrightarrow> (p, f, z) \<in> set xs \<Longrightarrow> a \<le> p \<and> p + 16 + z \<le> e"
  by (induction xs arbitrary: a) (fastforce dest: tiled_le)+

lemma tiled_header: "tiled m H e a xs \<Longrightarrow> (p, f, z) \<in> set xs \<Longrightarrow> H (of_nat p) = header m f z"
  by (induction xs arbitrary: a) auto

lemma tiled_append:
  "tiled m H e a (xs @ ys) \<longleftrightarrow> (\<exists>b. tiled m H b a xs \<and> tiled m H e b ys \<and> b \<le> e)"
proof (induction xs arbitrary: a)
  case Nil
  then show ?case by (auto dest: tiled_le)
next
  case (Cons x xs)
  obtain p f z where x: "x = (p, f, z)" by (cases x)
  have "tiled m H b (a + 16 + z) xs \<Longrightarrow> a + 16 + z \<le> b" for b by (rule tiled_le)
  then show ?case unfolding x by (auto simp: Cons.IH intro: order_trans)
qed

lemma of_nat_u64_inj: "x < 2 ^ 64 \<Longrightarrow> y < 2 ^ 64 \<Longrightarrow> (of_nat x :: u64) = of_nat y \<longleftrightarrow> x = y"
  by (auto simp: word_of_nat_eq_iff take_bit_eq_mod)

text \<open>Writing a header outside \<open>[a, e)\<close> does not disturb the tiling of \<open>[a, e)\<close>.\<close>

lemma tiled_upd:
  assumes "tiled m H e a xs" "e \<le> 2 ^ 64" "p < 2 ^ 64" "p < a \<or> e \<le> p"
  shows "tiled m (H(of_nat p := v)) e a xs"
  using assms
proof (induction xs arbitrary: a)
  case (Cons x xs)
  obtain q f z where x: "x = (q, f, z)" by (cases x)
  with Cons.prems have "a < 2 ^ 64" "p \<noteq> a" by auto
  then have "(of_nat p :: u64) \<noteq> of_nat a" using Cons.prems(3) by (simp add: of_nat_u64_inj)
  with Cons x show ?case by auto
qed simp

lemma tiled_apart:
  assumes "tiled m H e a xs" "(p, False, z) \<in> set xs" "(q, False, y) \<in> set xs" "p \<noteq> q"
  shows "apart (p + 16, z) (q + 16, y)"
  using assms
proof (induction xs arbitrary: a)
  case (Cons x xs)
  obtain r f w where x: "x = (r, f, w)" by (cases x)
  have rest: "tiled m H e (a + 16 + w) xs" and r: "r = a" using Cons.prems(1) x by auto
  have B: "a + 16 + w \<le> u" if "(u, False, v) \<in> set xs" for u v
    using tiled_bounds [OF rest that] by simp
  consider "(p, False, z) = x" "(q, False, y) \<in> set xs" | "(q, False, y) = x" "(p, False, z) \<in> set xs"
    | "(p, False, z) \<in> set xs" "(q, False, y) \<in> set xs"
    using Cons.prems x by auto
  then show ?case
  proof cases
    case 1
    then show ?thesis using B [OF 1(2)] x r by (auto simp: apart_def)
  next
    case 2
    then show ?thesis using B [OF 2(2)] x r by (auto simp: apart_def)
  next
    case 3
    then show ?thesis using Cons.IH [OF rest] Cons.prems(4) by blast
  qed
qed simp

section \<open>The walk on a tiled heap\<close>

definition fits :: "nat \<Rightarrow> blk \<Rightarrow> bool" where
  "fits need x \<longleftrightarrow> fst (snd x) \<and> need \<le> snd (snd x)"

lemma fits_simp [simp]: "fits need (p, f, z) \<longleftrightarrow> f \<and> need \<le> z"
  by (simp add: fits_def)

definition fit_of :: "blk option \<Rightarrow> fit" where
  "fit_of r = (case r of None \<Rightarrow> NoFit | Some x \<Rightarrow> Fit (of_nat (fst x)))"

lemma unat_of_nat_u64: "x < 2 ^ 64 \<Longrightarrow> unat (of_nat x :: u64) = x"
  by (simp add: unat_of_nat)

lemma next_block_tiled:
  assumes t: "tiled m (hdr h) e a ((p, f, z) # xs)" and e: "e = unat (heap_end h)" "e + 16 < 2 ^ 64"
  shows "next_block h (of_nat a) = (if xs = [] then 0 else of_nat (a + 16 + z))"
proof -
  have az: "a + 16 + z \<le> e" and rest: "tiled m (hdr h) e (a + 16 + z) xs" using t by auto
  have sz: "b_size (hdr h (of_nat a)) = of_nat z" using t by simp
  have n: "of_nat a + 16 = (of_nat (a + 16) :: u64)"
    "of_nat (a + 16) + of_nat z = (of_nat (a + 16 + z) :: u64)"
    "of_nat (a + 16 + z) + 16 = (of_nat (a + 16 + z + 16) :: u64)" by simp_all
  have u: "unat (of_nat (a + 16 + z) :: u64) = a + 16 + z" "unat (of_nat (a + 16) :: u64) = a + 16"
    "unat (of_nat (a + 16 + z + 16) :: u64) = a + 16 + z + 16"
    using az e by (intro unat_of_nat_u64; simp)+
  have "xs = [] \<longleftrightarrow> e < a + 16 + z + 16"
    using rest by (cases xs) (auto dest: tiled_le)
  then show ?thesis
    unfolding next_block_def Let_def sz n word_less_nat_alt u e(1) [symmetric] by simp
qed

lemma find_fit_tiled:
  assumes "tiled m (hdr h) e a xs" "e = unat (heap_end h)" "e + 16 < 2 ^ 64" "0 < a" "xs \<noteq> []"
  shows "find_fit m h need (of_nat a) = Some (fit_of (List.find (fits (unat need)) xs))"
  using assms
proof (induction xs arbitrary: a)
  case (Cons x xs)
  obtain p f z where x: "x = (p, f, z)" by (cases x)
  have az: "a + 16 + z \<le> e" and rest: "tiled m (hdr h) e (a + 16 + z) xs"
    and hd: "hdr h (of_nat a) = header m f z" and p: "p = a" using Cons.prems x by auto
  have nz: "(of_nat a :: u64) \<noteq> 0"
    using of_nat_u64_inj [of a 0] az Cons.prems by simp
  have z: "need \<le> of_nat z \<longleftrightarrow> unat need \<le> z"
    using az Cons.prems by (simp add: word_le_nat_alt unat_of_nat_u64)
  have nb: "next_block h (of_nat a) = (if xs = [] then 0 else of_nat (a + 16 + z))"
    using Cons.prems x by (intro next_block_tiled) auto
  show ?case
  proof (cases "f \<and> unat need \<le> z")
    case True
    then show ?thesis using nz p z unfolding find_fit.simps [of m h need "of_nat a"] hd
      by (simp add: x fit_of_def)
  next
    case False
    then have step: "find_fit m h need (of_nat a) = find_fit m h need (next_block h (of_nat a))"
      using nz z unfolding find_fit.simps [of m h need "of_nat a"] hd by auto
    show ?thesis
    proof (cases "xs = []")
      case True
      then show ?thesis using False step nb x
        by (simp add: find_fit.simps [of m h need 0] fit_of_def)
    next
      case nil: False
      then show ?thesis using Cons.IH [OF rest Cons.prems(2,3) _ nil] False step nb x by auto
    qed
  qed
qed simp

section \<open>Taking and releasing keep the tiling\<close>

definition taken :: "nat \<Rightarrow> nat \<Rightarrow> nat \<Rightarrow> blk list" where
  "taken p z need = (if need + 32 \<le> z
     then [(p, False, need), (p + 16 + need, True, z - need - 16)] else [(p, False, z)])"

definition released :: "nat \<Rightarrow> nat \<Rightarrow> blk list \<Rightarrow> blk list" where
  "released p z post = (case post of
     (n, True, y) # post' \<Rightarrow> (p, True, z + 16 + y) # post'
   | _ \<Rightarrow> (p, True, z) # post)"

definition hset :: "heap \<Rightarrow> u64 \<Rightarrow> block \<Rightarrow> heap" where
  "hset h a b = h\<lparr>hdr := (hdr h)(a := b)\<rparr>"

lemma hset_sel [simp]: "heap_base (hset h a b) = heap_base h" "heap_end (hset h a b) = heap_end h"
  "hdr (hset h a b) = (hdr h)(a := b)"
  by (simp_all add: hset_def)

text \<open>Replacing a run of blocks by another tiling of the same interval.\<close>

lemma tiled_replace:
  assumes t: "tiled m H e a (pre @ mid @ post)" and e: "e + 16 < 2 ^ 64"
    and s: "tiled m H s a pre" "tiled m H r s mid" "tiled m H e r post"
    and same: "\<And>q. q < s \<or> r \<le> q \<Longrightarrow> q < 2 ^ 64 \<Longrightarrow> H' (of_nat q) = H (of_nat q)"
    and new: "tiled m H' r s mid'"
  shows "tiled m H' e a (pre @ mid' @ post)"
proof -
  have keep: "tiled m H' hi lo ys" if "tiled m H hi lo ys" "hi \<le> s \<or> r \<le> lo" "hi \<le> e" for hi lo ys
    using that
  proof (induction ys arbitrary: lo)
    case (Cons y ys)
    obtain p f z where y: "y = (p, f, z)" by (cases y)
    have "H' (of_nat lo) = H (of_nat lo)"
      using Cons.prems y e by (intro same) auto
    then show ?case using Cons y by auto
  qed simp
  have "s \<le> e" "r \<le> e" using s tiled_le by (meson order_trans)+
  then have "tiled m H' s a pre" "tiled m H' e r post" using keep s by blast+
  then show ?thesis using new \<open>s \<le> e\<close> \<open>r \<le> e\<close> by (auto simp: tiled_append)
qed

lemma tiled_split3:
  assumes "tiled m H e a (pre @ (p, f, z) # post)"
  shows "tiled m H p a pre \<and> 16 dvd z \<and> 0 < z \<and> H (of_nat p) = header m f z \<and> p + 16 + z \<le> e \<and>
         tiled m H e (p + 16 + z) post"
  using assms by (auto simp: tiled_append)

lemma take_block_words:
  assumes "hdr h b = \<lparr>b_magic = m, b_free = 1, b_size = z\<rparr>" "b + 16 + need \<noteq> b"
  shows "take_block m h b need =
    (if 32 \<le> z - need
     then hset (hset h (b + 16 + need) \<lparr>b_magic = m, b_free = 1, b_size = z - need - 16\<rparr>)
            b \<lparr>b_magic = m, b_free = 0, b_size = need\<rparr>
     else hset h b \<lparr>b_magic = m, b_free = 0, b_size = z\<rparr>)"
proof -
  define s where "s = b + 16 + need"
  have "b \<noteq> s" using assms(2) s_def by metis
  then show ?thesis
    unfolding take_block_def assms(1) Let_def s_def [symmetric] by (simp add: assms(1) hset_def)
qed

lemma take_block_hdr:
  assumes "unat need \<le> z" "p + 16 + z < 2 ^ 64" "hdr h (of_nat p) = header m True z"
  shows "take_block m h (of_nat p) need =
    (if unat need + 32 \<le> z
     then hset (hset h (of_nat (p + 16 + unat need)) (header m True (z - unat need - 16)))
            (of_nat p) (header m False (unat need))
     else hset h (of_nat p) (header m False z))"
proof -
  have nz: "need \<le> (of_nat z :: u64)" using assms by (simp add: word_le_nat_alt unat_of_nat_u64)
  have lo: "unat (of_nat z - need :: u64) = z - unat need"
    using nz assms by (simp add: unat_sub_le unat_of_nat_u64)
  then have ls: "(of_nat z - need :: u64) = of_nat (z - unat need)"
    by (intro word_eq_by_unat) (use assms in \<open>simp add: unat_of_nat_u64\<close>)
  have le: "(32 :: u64) \<le> of_nat (z - unat need) \<longleftrightarrow> unat need + 32 \<le> z"
    unfolding ls [symmetric] word_le_nat_alt lo using assms(1) by auto
  have sp: "(of_nat p + 16 + need :: u64) = of_nat (p + 16 + unat need)" by simp
  have left: "(of_nat (z - unat need) - 16 :: u64) = of_nat (z - unat need - 16)"
    if "unat need + 32 \<le> z" using that by (simp add: of_nat_diff)
  have ne: "(of_nat p + 16 + need :: u64) \<noteq> of_nat p"
    unfolding sp using assms of_nat_u64_inj [of p "p + 16 + unat need"] by simp
  have hd: "hdr h (of_nat p) = \<lparr>b_magic = m, b_free = 1, b_size = of_nat z\<rparr>"
    using assms(3) by (simp add: header_def)
  show ?thesis
    unfolding take_block_words [OF hd ne] sp ls le
    by (cases "unat need + 32 \<le> z") (simp_all only: left header_def word_of_unat if_True if_False refl)
qed

lemma take_block_ok:
  assumes ok: "heap_ok m h (pre @ (p, True, z) # post)" and need: "16 dvd unat need"
    "0 < unat need" "unat need \<le> z"
  shows "heap_ok m (take_block m h (of_nat p) need) (pre @ taken p z (unat need) @ post)"
proof -
  let ?H = "hdr h" and ?e = "unat (heap_end h)" and ?a = "unat (heap_base h)"
  let ?n = "unat need" and ?h' = "take_block m h (of_nat p) need"
  have t: "tiled m ?H ?e ?a (pre @ [(p, True, z)] @ post)" and e: "?e + 16 < 2 ^ 64"
    using ok by (simp_all add: heap_ok_def)
  note s3 = tiled_split3 [OF t [simplified append_Cons append_Nil]]
  have hdr: "?H (of_nat p) = header m True z" and b: "p + 16 + z < 2 ^ 64" "16 dvd z"
    using s3 e by auto
  note H' = take_block_hdr [OF need(3) b(1) hdr]
  have ne: "(of_nat p :: u64) \<noteq> of_nat (p + 16 + ?n)"
    using b need of_nat_u64_inj [of p "p + 16 + ?n"] by simp
  have "tiled m (hdr ?h') ?e ?a (pre @ taken p z ?n @ post)"
  proof (rule tiled_replace [OF t e])
    show "tiled m ?H p ?a pre" "tiled m ?H ?e (p + 16 + z) post" using s3 by auto
    show "tiled m ?H (p + 16 + z) p [(p, True, z)]" using s3 by simp
    show "hdr ?h' (of_nat q) = ?H (of_nat q)" if q: "q < p \<or> p + 16 + z \<le> q" "q < 2 ^ 64" for q
    proof -
      have "(of_nat q :: u64) \<noteq> of_nat p" "?n + 32 \<le> z \<Longrightarrow> (of_nat q :: u64) \<noteq> of_nat (p + 16 + ?n)"
        using q b of_nat_u64_inj [of q p] of_nat_u64_inj [of q "p + 16 + ?n"] by auto
      then show ?thesis unfolding H' by (simp del: of_nat_add)
    qed
    show "tiled m (hdr ?h') (p + 16 + z) p (taken p z ?n)"
    proof (cases "?n + 32 \<le> z")
      case True
      have "16 dvd z - ?n - 16" using need b by (intro dvd_diff_nat) auto
      then show ?thesis using True need ne unfolding H' taken_def by (simp del: of_nat_add)
    next
      case False
      then show ?thesis using b s3 unfolding H' taken_def by simp
    qed
  qed
  moreover have "heap_base ?h' = heap_base h" "heap_end ?h' = heap_end h" using H' by auto
  ultimately show ?thesis using ok by (simp add: heap_ok_def taken_def)
qed

lemma block_release_hdr:
  assumes ok: "heap_ok m h (pre @ (p, False, z) # post)"
  shows "block_release m (of_nat (p + 16)) h =
    (case post of (n, True, y) # _ \<Rightarrow> hset h (of_nat p) (header m True (z + 16 + y))
     | _ \<Rightarrow> hset h (of_nat p) (header m True z))"
proof -
  let ?e = "unat (heap_end h)" and ?h1 = "hset h (of_nat p) (header m True z)"
  have t: "tiled m (hdr h) ?e (unat (heap_base h)) (pre @ (p, False, z) # post)"
    and e: "?e + 16 < 2 ^ 64" and base: "heap_base h \<noteq> 0"
    using ok by (simp_all add: heap_ok_def)
  note s3 = tiled_split3 [OF t]
  have pb: "unat (heap_base h) \<le> p" using s3 tiled_le by blast
  have hp: "hdr h (of_nat p) = header m False z" and z: "0 < z" "p + 16 + z \<le> ?e" using s3 by auto
  have up: "unat (of_nat (p + 16) :: u64) = p + 16" using z e by (intro unat_of_nat_u64) simp
  have ub: "unat (heap_base h + 16) = unat (heap_base h) + 16"
    using pb z e by (subst unat_add_lt) auto
  have g: "(of_nat (p + 16) :: u64) \<noteq> 0" "\<not> of_nat (p + 16) < heap_base h + 16"
    "\<not> heap_end h \<le> of_nat (p + 16)"
    using up ub pb z of_nat_u64_inj [of "p + 16" 0] e
    by (auto simp: word_less_nat_alt word_le_nat_alt)
  have sub: "(of_nat (p + 16) - 16 :: u64) = of_nat p" by simp
  have t1: "tiled m (hdr ?h1) ?e p ((p, True, z) # post)"
    using s3 e z by (auto intro!: tiled_upd)
  have nb: "next_block ?h1 (of_nat p) = (if post = [] then 0 else of_nat (p + 16 + z))"
    using t1 e by (intro next_block_tiled) auto
  have rel: "block_release m (of_nat (p + 16)) h =
     (if next_block ?h1 (of_nat p) \<noteq> 0 \<and> b_magic (hdr ?h1 (next_block ?h1 (of_nat p))) = m \<and>
         b_free (hdr ?h1 (next_block ?h1 (of_nat p))) \<noteq> 0
      then hset ?h1 (of_nat p) \<lparr>b_magic = m, b_free = 1, b_size = of_nat z +
             (16 + b_size (hdr ?h1 (next_block ?h1 (of_nat p))))\<rparr>
      else ?h1)"
    using g base unfolding block_release_def sub Let_def hp
    by (simp add: hset_def header_def del: of_nat_add)
  show ?thesis
  proof (cases post)
    case Nil
    then show ?thesis unfolding rel nb by simp
  next
    case (Cons x xs)
    obtain n f y where x: "x = (n, f, y)" by (cases x)
    have hn: "hdr ?h1 (of_nat (p + 16 + z)) = header m f y" using t1 Cons x by simp
    have nz: "(of_nat (p + 16 + z) :: u64) \<noteq> 0"
      using of_nat_u64_inj [of "p + 16 + z" 0] z e by simp
    show ?thesis
      unfolding rel nb using Cons hn nz x
      by (cases f) (simp_all add: hset_def header_def add.assoc del: of_nat_add, simp)
  qed
qed

lemma block_release_ok:
  assumes ok: "heap_ok m h (pre @ (p, False, z) # post)"
  shows "heap_ok m (block_release m (of_nat (p + 16)) h) (pre @ released p z post)"
proof -
  let ?e = "unat (heap_end h)" and ?a = "unat (heap_base h)"
  let ?h' = "block_release m (of_nat (p + 16)) h"
  have t: "tiled m (hdr h) ?e ?a (pre @ (p, False, z) # post)" and e: "?e + 16 < 2 ^ 64"
    using ok by (simp_all add: heap_ok_def)
  note s3 = tiled_split3 [OF t]
  note H' = block_release_hdr [OF ok]
  have upd: "tiled m ((hdr h)(of_nat p := v)) p ?a pre"
    "tiled m ((hdr h)(of_nat p := v)) ?e (p + 16 + z) post" for v
    using s3 e by (auto intro!: tiled_upd)
  have "tiled m (hdr ?h') ?e ?a (pre @ released p z post)"
  proof (cases "\<exists>n y ys. post = (n, True, y) # ys")
    case True
    then obtain n y ys where post: "post = (n, True, y) # ys" by auto
    have "tiled m ((hdr h)(of_nat p := header m True (z + 16 + y))) ?e (p + 16 + (z + 16 + y)) ys"
      using upd(2) [of "header m True (z + 16 + y)"] post by (simp add: add.assoc)
    then show ?thesis unfolding H' using upd(1) [of "header m True (z + 16 + y)"] post s3
      by (auto simp: tiled_append released_def add.assoc)
  next
    case False
    then have r: "released p z post = (p, True, z) # post" "?h' = hset h (of_nat p) (header m True z)"
      unfolding H' by (auto simp: released_def split: list.splits bool.splits)
    then show ?thesis using upd [of "header m True z"] s3 by (auto simp: tiled_append)
  qed
  moreover have "heap_base ?h' = heap_base h" "heap_end ?h' = heap_end h"
    using H' by (auto split: list.splits bool.splits)
  moreover have "released p z post \<noteq> []"
    by (auto simp: released_def split: list.splits bool.splits)
  ultimately show ?thesis using ok by (simp add: heap_ok_def)
qed

section \<open>Live payloads\<close>

lemma live_taken:
  "live_blocks (pre @ taken p z n @ post) =
     insert (p + 16, if n + 32 \<le> z then n else z) (live_blocks (pre @ (p, True, z) # post))"
  by (auto simp: live_blocks_def taken_def)

lemma live_released:
  assumes "tiled m H e a (pre @ (p, False, z) # post)"
  shows "live_blocks (pre @ released p z post) =
         live_blocks (pre @ (p, False, z) # post) - {(p + 16, z)}"
proof -
  note s3 = tiled_split3 [OF assms]
  have "(p, f, y) \<notin> set pre" "(p, f, y) \<notin> set post" for f y
    using s3 tiled_bounds [of m H p a pre p f y] tiled_bounds [of m H e "p + 16 + z" post p f y]
    by auto
  then have "(p, False, y) \<notin> set pre \<union> set post" for y by auto
  then show ?thesis
    by (cases post) (fastforce simp: live_blocks_def released_def split: bool.splits)+
qed

lemma heap_ok_apart:
  assumes "heap_ok m h xs" "x \<in> live_blocks xs" "y \<in> live_blocks xs" "x \<noteq> y"
  shows "apart x y"
proof -
  obtain p z q w where x: "x = (p + 16, z)" "(p, False, z) \<in> set xs"
    and y: "y = (q + 16, w)" "(q, False, w) \<in> set xs"
    using assms by (auto simp: live_blocks_def)
  have t: "tiled m (hdr h) (unat (heap_end h)) (unat (heap_base h)) xs"
    using assms by (simp add: heap_ok_def)
  have e: "unat (heap_end h) + 16 < 2 ^ 64" using assms by (simp add: heap_ok_def)
  have "(of_nat z :: u64) = of_nat w" if "p = q"
    using tiled_header [OF t x(2)] tiled_header [OF t y(2)] that by (metis header_sel(3))
  moreover have "z < 2 ^ 64" "w < 2 ^ 64"
    using tiled_bounds [OF t x(2)] tiled_bounds [OF t y(2)] e by auto
  ultimately have "p \<noteq> q" using x y assms(4) of_nat_u64_inj by auto
  then show ?thesis using tiled_apart [OF t x(2) y(2)] x y by simp
qed

lemma heap_ok_fresh:
  assumes "heap_ok m h (pre @ (p, True, z) # post)"
  shows "p + 16 \<notin> fst ` live_blocks (pre @ (p, True, z) # post)"
proof -
  let ?t = "tiled m (hdr h) (unat (heap_end h)) (unat (heap_base h)) (pre @ (p, True, z) # post)"
  have ?t using assms by (simp add: heap_ok_def)
  then have "(p, False, y) \<notin> set (pre @ (p, True, z) # post)" for y
    using tiled_header [of m "hdr h" _ _ "pre @ (p, True, z) # post" p]
    by (metis header_sel(2) in_set_conv_decomp zero_neq_one)
  then show ?thesis by (auto simp: live_blocks_def)
qed

section \<open>The contract of an allocator and its clients\<close>

text \<open>
  A run of calls on an allocator: \<open>out\<close> lists the payloads the caller holds with the sizes
  it asked for; \<open>Release i\<close> frees the \<open>i\<close>th of them.
\<close>

datatype heap_call = Alloc u64 | Release nat

fun heap_step :: "(u64 \<Rightarrow> 's \<Rightarrow> (u64 \<times> 's) option) \<Rightarrow> (u64 \<Rightarrow> 's \<Rightarrow> 's) \<Rightarrow> heap_call \<Rightarrow>
    's \<times> (u64 \<times> u64) list \<Rightarrow> ('s \<times> (u64 \<times> u64) list) option" where
  "heap_step alloc release (Alloc n) (s, out) =
     (case alloc n s of None \<Rightarrow> None
      | Some (p, s') \<Rightarrow> Some (s', if p = 0 then out else (p, n) # out))"
| "heap_step alloc release (Release i) (s, out) =
     Some (if i < length out
           then (release (fst (out ! i)) s, take i out @ drop (Suc i) out) else (s, out))"

fun heap_run where
  "heap_run alloc release [] st = Some st"
| "heap_run alloc release (c # cs) st =
     (case heap_step alloc release c st of None \<Rightarrow> None | Some st' \<Rightarrow> heap_run alloc release cs st')"

definition call_sane :: "heap_call \<Rightarrow> bool" where
  "call_sane c = (case c of Alloc n \<Rightarrow> unat n + 15 < 2 ^ 64 | Release i \<Rightarrow> True)"

definition held_apart :: "(u64 \<times> u64) list \<Rightarrow> bool" where
  "held_apart out \<longleftrightarrow>
     pairwise (\<lambda>(p, n) (q, m). apart (unat p, unat n) (unat q, unat m)) (set out) \<and> distinct out"

definition held :: "(u64 \<times> u64) list \<Rightarrow> (nat \<times> nat) set \<Rightarrow> bool" where
  "held out L \<longleftrightarrow> distinct (map fst out) \<and>
     (\<forall>(p, n) \<in> set out. \<exists>z. (unat p, z) \<in> L \<and> unat n \<le> z)"

lemma held_dest: "held out L \<Longrightarrow> (p, n) \<in> set out \<Longrightarrow> \<exists>z. (unat p, z) \<in> L \<and> unat n \<le> z"
  by (auto simp: held_def)

lemma held_insert:
  assumes "held out L" "unat p \<notin> fst ` L" "unat n \<le> z"
  shows "held ((p, n) # out) (insert (unat p, z) L)"
proof -
  have "p \<notin> fst ` set out"
    using held_dest [OF assms(1)] assms(2) by (force simp: image_iff)
  then show ?thesis using assms by (auto simp: held_def)
qed

locale block_heap =
  fixes live :: "'s \<Rightarrow> (nat \<times> nat) set \<Rightarrow> bool"
    and alloc :: "u64 \<Rightarrow> 's \<Rightarrow> (u64 \<times> 's) option"
    and release :: "u64 \<Rightarrow> 's \<Rightarrow> 's"
  assumes alloc_total: "live s L \<Longrightarrow> unat n + 15 < 2 ^ 64 \<Longrightarrow> \<exists>p s'. alloc n s = Some (p, s')"
    and alloc_null: "live s L \<Longrightarrow> unat n + 15 < 2 ^ 64 \<Longrightarrow> alloc n s = Some (0, s') \<Longrightarrow> live s' L"
    and alloc_live: "live s L \<Longrightarrow> unat n + 15 < 2 ^ 64 \<Longrightarrow> alloc n s = Some (p, s') \<Longrightarrow> p \<noteq> 0 \<Longrightarrow>
      \<exists>z. unat n \<le> z \<and> unat p \<notin> fst ` L \<and> live s' (insert (unat p, z) L)"
    and release_live: "live s L \<Longrightarrow> (unat p, z) \<in> L \<Longrightarrow> live (release p s) (L - {(unat p, z)})"
    and live_apart: "live s L \<Longrightarrow> x \<in> L \<Longrightarrow> y \<in> L \<Longrightarrow> x \<noteq> y \<Longrightarrow> apart x y"
begin

lemma step_held:
  assumes "live s L" "held out L" "call_sane c"
  shows "\<exists>s' out' L'. heap_step alloc release c (s, out) = Some (s', out') \<and> live s' L' \<and> held out' L'"
proof (cases c)
  case (Alloc n)
  then have n: "unat n + 15 < 2 ^ 64" using assms by (simp add: call_sane_def)
  obtain p s' where a: "alloc n s = Some (p, s')" using alloc_total [OF assms(1) n] by blast
  show ?thesis
  proof (cases "p = 0")
    case True
    then show ?thesis using Alloc a assms alloc_null [OF assms(1) n] by auto
  next
    case False
    then obtain z where z: "unat n \<le> z" "unat p \<notin> fst ` L" "live s' (insert (unat p, z) L)"
      using alloc_live [OF assms(1) n a] by blast
    then have "held ((p, n) # out) (insert (unat p, z) L)"
      using assms(2) held_insert by blast
    then show ?thesis using Alloc a False z by auto
  qed
next
  case (Release i)
  show ?thesis
  proof (cases "i < length out")
    case True
    obtain p n where pn: "out ! i = (p, n)" by fastforce
    have out: "out = take i out @ (p, n) # drop (Suc i) out"
      using True pn by (metis id_take_nth_drop)
    have "(p, n) \<in> set out" using True pn by (metis nth_mem)
    then obtain z where z: "(unat p, z) \<in> L" "unat n \<le> z"
      using held_dest [OF assms(2)] by blast
    have d: "distinct (map fst (take i out @ (p, n) # drop (Suc i) out))"
      using assms(2) out by (simp add: held_def)
    have "held (take i out @ drop (Suc i) out) (L - {(unat p, z)})"
      unfolding held_def
    proof (intro conjI ballI)
      fix x assume x: "x \<in> set (take i out @ drop (Suc i) out)"
      obtain q m where qm: "x = (q, m)" by fastforce
      have "(q, m) \<in> set out" using x qm by (auto dest: in_set_takeD in_set_dropD)
      then obtain y where "(unat q, y) \<in> L" "unat m \<le> y" using held_dest [OF assms(2)] by blast
      moreover have "q \<noteq> p" using d x qm by force
      then have "unat q \<noteq> unat p" using word_eq_by_unat by blast
      ultimately show "case x of (q, m) \<Rightarrow> \<exists>y. (unat q, y) \<in> L - {(unat p, z)} \<and> unat m \<le> y"
        using qm by auto
    qed (use d in auto)
    then show ?thesis using Release True pn release_live [OF assms(1) z(1)] by auto
  next
    case False
    then show ?thesis using Release assms by auto
  qed
qed

lemma run_held:
  assumes "live s L" "held out L" "list_all call_sane cs"
  shows "\<exists>s' out' L'. heap_run alloc release cs (s, out) = Some (s', out') \<and> live s' L' \<and> held out' L'"
  using assms
proof (induction cs arbitrary: s out L)
  case (Cons c cs)
  obtain s1 out1 L1 where 1: "heap_step alloc release c (s, out) = Some (s1, out1)"
    "live s1 L1" "held out1 L1" using step_held [of s L out c] Cons.prems by auto
  then show ?case using Cons.IH [OF 1(2,3)] Cons.prems(3) by auto
qed auto

lemma live_held_apart:
  assumes "live s L" "held out L"
  shows "held_apart out"
  unfolding held_apart_def
proof
  show "distinct out" using assms(2) by (auto simp: held_def distinct_map)
  show "pairwise (\<lambda>(p, n) (q, m). apart (unat p, unat n) (unat q, unat m)) (set out)"
  proof (rule pairwiseI)
    fix x v assume x: "x \<in> set out" "v \<in> set out" "x \<noteq> v"
    obtain p n q m where xy: "x = (p, n)" "v = (q, m)" by fastforce
    then have a: "(p, n) \<in> set out" "(q, m) \<in> set out" "p = q \<longrightarrow> n \<noteq> m" using x by auto
    then obtain z y where zy: "(unat p, z) \<in> L" "unat n \<le> z" "(unat q, y) \<in> L" "unat m \<le> y"
      using held_dest [OF assms(2)] by meson
    have "p \<noteq> q" using a assms(2) by (auto simp: held_def dest: eq_key_imp_eq_value)
    then have "unat p \<noteq> unat q" using word_eq_by_unat by blast
    then have "apart (unat p, z) (unat q, y)" using zy by (intro live_apart [OF assms(1)]) auto
    then show "(\<lambda>(p, n) (q, m). apart (unat p, unat n) (unat q, unat m)) x v"
      using zy xy by (auto simp: apart_def)
  qed
qed

end

section \<open>First fit on a tiled heap\<close>

lemma need_nat:
  assumes "unat sz + 15 < 2 ^ 64" "sz \<noteq> 0"
  shows "unat (align_up sz 16) = (unat sz + 15) div 16 * 16"
    and "16 dvd unat (align_up sz 16)" "0 < unat (align_up sz 16)" "unat sz \<le> unat (align_up sz 16)"
proof -
  show n: "unat (align_up sz 16) = (unat sz + 15) div 16 * 16"
    using align_up_pow2 [of sz 4] assms by simp
  have "0 < unat sz" using assms(2) by (simp add: unat_gt_0)
  then show "16 dvd unat (align_up sz 16)" "0 < unat (align_up sz 16)" "unat sz \<le> unat (align_up sz 16)"
    unfolding n by auto
qed

lemma find_first:
  assumes "List.find P xs = Some x"
  obtains pre post where "xs = pre @ x # post" "\<forall>y \<in> set pre. \<not> P y" "P x"
proof -
  from assms obtain i where i: "i < length xs" "P (xs ! i)" "x = xs ! i" "\<forall>j < i. \<not> P (xs ! j)"
    by (auto simp: find_Some_iff)
  show ?thesis
  proof
    show "xs = take i xs @ x # drop (Suc i) xs" using i id_take_nth_drop by metis
    show "\<forall>y \<in> set (take i xs). \<not> P y" using i by (auto simp: in_set_conv_nth)
    show "P x" using i by simp
  qed
qed

lemma find_fit_ok:
  assumes "heap_ok m h xs"
  shows "find_fit m h need (heap_base h) = Some (fit_of (List.find (fits (unat need)) xs))"
proof -
  have base: "of_nat (unat (heap_base h)) = heap_base h" "0 < unat (heap_base h)"
    using assms by (simp_all add: heap_ok_def unat_gt_0)
  have "find_fit m h need (of_nat (unat (heap_base h))) = Some (fit_of (List.find (fits (unat need)) xs))"
    by (rule find_fit_tiled) (use assms base in \<open>auto simp: heap_ok_def\<close>)
  then show ?thesis unfolding base(1) .
qed

end
