(* ===== verification/Heap.thy ===== *)
theory Heap
  imports Pmm Blocks Hhdm
begin

text \<open>
  The kernel heap of \<open>kernel/heap.c\<close>: \<open>kheap_init\<close> takes up to two adjacent pages from the
  page allocator and lays one free block over them, \<open>kmalloc\<close> walks the blocks first-fit,
  \<open>kfree\<close> frees a block and merges it with a free successor. The walk, the split and the
  release are the ones of \<open>Blocks\<close> at the magic of this heap. A result \<open>None\<close> of \<open>kmalloc\<close>
  is a walk that never ends.
\<close>

definition HEAP_MAGIC :: u32 where "HEAP_MAGIC = 0x48454150"
abbreviation HEAP_PAGES :: nat where "HEAP_PAGES \<equiv> 2"
definition HEAP_MIN_PHYS :: u64 where "HEAP_MIN_PHYS = 0x200000"

text \<open>
  The page loop of \<open>kheap_init\<close>: \<open>pages\<close> holds the pages kept so far, so its length is both
  \<open>i\<close> and \<open>n\<close>.
\<close>

function kheap_pages :: "u64 list \<Rightarrow> pmm \<Rightarrow> u64 list \<times> pmm" where
  "kheap_pages pages s =
     (if length pages < HEAP_PAGES
      then let i = length pages; (p, s1) = pmm_alloc_above HEAP_MIN_PHYS s in
        if p = 0 then (pages, s1)
        else if 0 < i \<and> p \<noteq> pages ! 0 + of_nat i * PAGE_SIZE then (pages, pmm_free p s1)
        else kheap_pages (pages @ [p]) s1
      else (pages, s))"
  by pat_completeness auto
termination by (relation "measure (\<lambda>(pages, s). HEAP_PAGES - length pages)") auto

declare kheap_pages.simps [simp del]

definition kheap_init :: "bool \<Rightarrow> pmm \<Rightarrow> heap \<Rightarrow> pmm \<times> heap" where
  "kheap_init hhdm_ready s h =
     (let h0 = h\<lparr>heap_base := 0, heap_end := 0\<rparr>;
          (pages, s') = kheap_pages [] s
      in if pages = [] then (s', h0)
         else let base = phys_to_virt hhdm_ready (pages ! 0);
                  h1 = h0\<lparr>heap_base := base, heap_end := base + of_nat (length pages) * PAGE_SIZE\<rparr>
              in (s', h1\<lparr>hdr := (hdr h1)(base := \<lparr>b_magic = HEAP_MAGIC, b_free = 1,
                                   b_size = (heap_end h1 - heap_base h1) - HDR\<rparr>)\<rparr>))"

definition kmalloc :: "u64 \<Rightarrow> heap \<Rightarrow> (u64 \<times> heap) option" where
  "kmalloc sz h =
     (if heap_base h = 0 \<or> sz = 0 then Some (0, h)
      else let need = align_up sz HEAP_ALIGN in
        case find_fit HEAP_MAGIC h need (heap_base h) of
          None \<Rightarrow> None
        | Some Corrupt \<Rightarrow> Some (0, h)
        | Some NoFit \<Rightarrow> Some (0, h)
        | Some (Fit b) \<Rightarrow> Some (b + HDR, take_block HEAP_MAGIC h b need))"

definition kfree :: "u64 \<Rightarrow> heap \<Rightarrow> heap" where
  "kfree p h = block_release HEAP_MAGIC p h"

definition kheap_print :: "int \<Rightarrow> heap \<Rightarrow> vga \<Rightarrow> (int \<times> heap \<times> vga) option" where
  "kheap_print row h v =
     (if VGA_HEIGHT - 2 \<le> row then Some (row, h, v)
      else case kmalloc 16 h of None \<Rightarrow> None | Some (a, h1) \<Rightarrow>
        (case kmalloc 16 h1 of None \<Rightarrow> None | Some (b, h2) \<Rightarrow>
          (case kmalloc 16 (kfree a h2) of None \<Rightarrow> None | Some (c, h3) \<Rightarrow>
             Some (row + 1, kfree c (kfree b h3),
               vga_write_hex64_at row 39 c (vga_write_hex64_at row 22 b
                 (vga_write_hex64_at row 5 a (vga_write_at row 0 (Some ''heap'') v)))))))"

section \<open>Allocation and release on a tiled heap\<close>

lemma kmalloc_spec:
  assumes ok: "heap_ok HEAP_MAGIC h xs" and sz: "sz \<noteq> 0" "unat sz + 15 < 2 ^ 64"
  defines "need \<equiv> (unat sz + 15) div 16 * 16"
  shows "case List.find (fits need) xs of
      None \<Rightarrow> kmalloc sz h = Some (0, h)
    | Some (p, f, z) \<Rightarrow> \<exists>pre post h'. xs = pre @ (p, True, z) # post \<and> (\<forall>x \<in> set pre. \<not> fits need x) \<and>
        need \<le> z \<and> kmalloc sz h = Some (of_nat (p + 16), h') \<and>
        heap_ok HEAP_MAGIC h' (pre @ taken p z need @ post)"
proof -
  note n = need_nat [OF sz(2,1)]
  have need: "unat (align_up sz 16) = need" using n(1) by (simp add: need_def)
  have base: "heap_base h \<noteq> 0" using ok by (simp add: heap_ok_def)
  have ff: "find_fit HEAP_MAGIC h (align_up sz 16) (heap_base h) = Some (fit_of (List.find (fits need) xs))"
    using find_fit_ok [OF ok, of "align_up sz 16"] unfolding need .
  show ?thesis
  proof (cases "List.find (fits need) xs")
    case None
    then show ?thesis using ff base sz by (simp add: kmalloc_def fit_of_def)
  next
    case (Some x)
    obtain p f z where x: "x = (p, f, z)" by (cases x)
    obtain pre post where d: "xs = pre @ x # post" "\<forall>y \<in> set pre. \<not> fits need y" "fits need x"
      using find_first [OF Some] by blast
    have "heap_ok HEAP_MAGIC (take_block HEAP_MAGIC h (of_nat p) (align_up sz 16))
        (pre @ taken p z need @ post)"
      using take_block_ok [of HEAP_MAGIC h pre p z post "align_up sz 16"] ok d x n(2,3) need by auto
    moreover have "kmalloc sz h = Some (of_nat (p + 16), take_block HEAP_MAGIC h (of_nat p) (align_up sz 16))"
      using ff base sz Some x by (simp add: kmalloc_def fit_of_def)
    ultimately show ?thesis using Some x d by auto
  qed
qed

section \<open>The heap as an allocator\<close>

definition kheap_live :: "heap \<Rightarrow> (nat \<times> nat) set \<Rightarrow> bool" where
  "kheap_live h L \<longleftrightarrow> (heap_base h = 0 \<and> L = {}) \<or>
     (\<exists>xs. heap_ok HEAP_MAGIC h xs \<and> L = live_blocks xs)"

lemma kheap_live_cases:
  assumes "kheap_live h L"
  obtains "heap_base h = 0" "L = {}" | xs where "heap_ok HEAP_MAGIC h xs" "L = live_blocks xs"
  using assms by (auto simp: kheap_live_def)

lemma kmalloc_trivial: "heap_base h = 0 \<or> sz = 0 \<Longrightarrow> kmalloc sz h = Some (0, h)"
  by (simp add: kmalloc_def)

lemma kmalloc_live:
  assumes "kheap_live h L" "unat sz + 15 < 2 ^ 64"
  shows "kmalloc sz h = Some (0, h) \<or>
    (\<exists>p z h'. kmalloc sz h = Some (p, h') \<and> p \<noteq> 0 \<and> unat sz \<le> z \<and> unat p \<notin> fst ` L \<and>
       kheap_live h' (insert (unat p, z) L))"
proof (cases "heap_base h = 0 \<or> sz = 0")
  case False
  then obtain xs where ok: "heap_ok HEAP_MAGIC h xs" and L: "L = live_blocks xs"
    using assms(1) kheap_live_cases by blast
  let ?n = "(unat sz + 15) div 16 * 16"
  have sz: "sz \<noteq> 0" using False by simp
  note spec = kmalloc_spec [OF ok sz assms(2)]
  show ?thesis
  proof (cases "List.find (fits ?n) xs")
    case (Some x)
    then obtain p f z pre post h' where x: "x = (p, f, z)" "xs = pre @ (p, True, z) # post" "?n \<le> z"
      and k: "kmalloc sz h = Some (of_nat (p + 16), h')"
      and ok': "heap_ok HEAP_MAGIC h' (pre @ taken p z ?n @ post)"
      using spec by (cases x) auto
    have "tiled HEAP_MAGIC (hdr h) (unat (heap_end h)) (unat (heap_base h)) xs"
      and e: "unat (heap_end h) + 16 < 2 ^ 64" using ok by (simp_all add: heap_ok_def)
    from tiled_bounds [OF this(1), of p True z] x e
    have u: "unat (of_nat (p + 16) :: u64) = p + 16" by (intro unat_of_nat_u64) simp
    then have "of_nat (p + 16) \<noteq> (0 :: u64)" by (metis add_eq_0_iff_both_eq_0 unat_0 zero_neq_numeral)
    moreover have "unat sz \<le> ?n" by simp
    moreover have "p + 16 \<notin> fst ` L" using heap_ok_fresh ok x(2) L by blast
    moreover have "kheap_live h' (insert (p + 16, if ?n + 32 \<le> z then ?n else z) L)"
      using ok' live_taken [of pre p z ?n post] x(2) L by (auto simp: kheap_live_def)
    ultimately show ?thesis using k u x(3) by (smt (verit) order_trans)
  qed (use spec in simp)
qed (simp add: kmalloc_trivial)

lemma kfree_live:
  assumes "kheap_live h L" "(unat p, z) \<in> L"
  shows "kheap_live (kfree p h) (L - {(unat p, z)})"
proof -
  obtain xs where ok: "heap_ok HEAP_MAGIC h xs" and L: "L = live_blocks xs"
    using assms kheap_live_cases by blast
  then obtain q where q: "unat p = q + 16" "(q, False, z) \<in> set xs"
    using assms(2) by (auto simp: live_blocks_def)
  then obtain pre post where xs: "xs = pre @ (q, False, z) # post" by (meson split_list)
  have p: "p = of_nat (q + 16)" using q(1) by (metis word_of_unat)
  have "heap_ok HEAP_MAGIC (kfree p h) (pre @ released q z post)"
    unfolding kfree_def p using block_release_ok ok xs by blast
  moreover have "live_blocks (pre @ released q z post) = L - {(unat p, z)}"
    using ok live_released [of HEAP_MAGIC "hdr h" _ _ pre q z post] L xs q(1) by (auto simp: heap_ok_def)
  ultimately show ?thesis by (auto simp: kheap_live_def)
qed

interpretation kheap: block_heap kheap_live kmalloc kfree
proof
  fix s L and n :: u64 assume a: "kheap_live s L" "unat n + 15 < 2 ^ 64"
  show "\<exists>p s'. kmalloc n s = Some (p, s')" using kmalloc_live [OF a] by blast
  show "kheap_live s' L" if "kmalloc n s = Some (0, s')" for s'
    using kmalloc_live [OF a] a that by auto
  show "\<exists>z. unat n \<le> z \<and> unat p \<notin> fst ` L \<and> kheap_live s' (insert (unat p, z) L)"
    if "kmalloc n s = Some (p, s')" "p \<noteq> 0" for p s'
    using kmalloc_live [OF a] that by auto
next
  fix s L x y assume "kheap_live s L" "x \<in> L" "y \<in> L" "x \<noteq> (y :: nat \<times> nat)"
  then show "apart x y" using heap_ok_apart kheap_live_cases by (metis empty_iff)
qed (rule kfree_live)

section \<open>Initialisation\<close>

lemma HEAP_MIN_frame: "unat (drop_bit 12 (align_up HEAP_MIN_PHYS PAGE_SIZE)) = 512"
  by (simp add: HEAP_MIN_PHYS_def align_up_def)

lemma heap_page:
  assumes "pmm_inv s" "pmm_alloc_above HEAP_MIN_PHYS s = (p, s')"
  shows "pmm_inv s' \<and> (if p = 0 then s' = s \<and> (\<forall>n \<in> free_frames s. n < 512)
    else unat p div 4096 \<in> free_frames s \<and> unat p mod 4096 = 0 \<and> 0x200000 \<le> unat p \<and>
      unat p < 0x6D0000000 \<and> free_frames s' = free_frames s - {unat p div 4096})"
proof -
  note spec = pmm_alloc_frame_spec [OF assms(1) assms(2) [unfolded pmm_alloc_above_def],
      unfolded HEAP_MIN_frame]
  have "n < 0x6D0000" if "n \<in> free_frames s" for n
    using free_frames_bound [OF that] assms(1) by (simp add: pmm_inv_def pmm_wf_def)
  then show ?thesis using spec by (force split: if_splits)
qed

lemma kheap_pages_spec:
  assumes inv: "pmm_inv s" and run: "kheap_pages [] s = (pages, s')"
  shows "pmm_inv s' \<and> free_frames s' = free_frames s - (\<lambda>p. unat p div 4096) ` set pages \<and>
    (pages = [] \<and> s' = s \<and> (\<forall>n \<in> free_frames s. n < 512) \<or>
     (\<exists>p. (pages = [p] \<or> pages = [p, p + 4096]) \<and> 0x200000 \<le> unat p \<and> unat p < 0x6D0000000 \<and>
        unat p mod 4096 = 0 \<and> (\<forall>q \<in> set pages. unat q div 4096 \<in> free_frames s)))"
proof -
  obtain p s1 where 1: "pmm_alloc_above HEAP_MIN_PHYS s = (p, s1)" by fastforce
  note p = heap_page [OF inv 1]
  show ?thesis
  proof (cases "p = 0")
    case True
    then show ?thesis using run p 1 by (auto simp: kheap_pages.simps [of "[]"])
  next
    case False
    obtain q s2 where 2: "pmm_alloc_above HEAP_MIN_PHYS s1 = (q, s2)" by fastforce
    have inv1: "pmm_inv s1" using p by simp
    note q = heap_page [OF inv1 2]
    have k: "kheap_pages [p] s1 = (pages, s')"
      using run 1 False by (simp add: kheap_pages.simps [of "[]"])
    consider "q = 0" | "q \<noteq> 0" "q \<noteq> p + 4096" | "q \<noteq> 0" "q = p + 4096" by blast
    then show ?thesis
    proof cases
      case 1
      then have "pages = [p]" "s' = s2" using k 2 by (auto simp: kheap_pages.simps [of "[p]"])
      then show ?thesis using p q False 1 by auto
    next
      case a: 2
      then have "pages = [p]" "s' = pmm_free q s2" using k 2 by (auto simp: kheap_pages.simps [of "[p]"])
      moreover have "pmm_free q s2 = s1" using page_above.put_get inv1 2 a(1) by blast
      ultimately show ?thesis using p False by auto
    next
      case a: 3
      then have "pages = [p, p + 4096]" "s' = s2"
        using k 2 by (auto simp: kheap_pages.simps [of "[p]"] kheap_pages.simps [of "[p, p + 4096]"])
      then show ?thesis using p q False a by auto
    qed
  qed
qed

lemma heap_ok_single:
  assumes "base = heap_base h" "base \<noteq> 0" "16 dvd unat base" "0 < z" "16 dvd z"
    "unat base + 16 + z = unat (heap_end h)" "unat (heap_end h) + 16 < 2 ^ 64"
    "hdr h base = header m True z"
  shows "heap_ok m h [(unat base, True, z)]"
  using assms by (simp add: heap_ok_def)

lemma kheap_init_spec:
  assumes inv: "pmm_inv s" and run: "kheap_init r s h = (s', h')"
  shows "pmm_inv s' \<and> (heap_base h' = 0 \<and> s' = s \<and> (\<forall>n \<in> free_frames s. n < 512) \<or>
    (\<exists>p k. k \<in> {1, 2} \<and> heap_base h' = phys_to_virt r p \<and>
       unat p div 4096 + (k - 1) \<in> free_frames s \<and> 512 \<le> unat p div 4096 \<and>
       free_frames s' = free_frames s - {unat p div 4096 ..< unat p div 4096 + k} \<and>
       heap_ok HEAP_MAGIC h' [(unat (heap_base h'), True, k * 4096 - 16)]))"
proof -
  obtain pages t where kp: "kheap_pages [] s = (pages, t)" by fastforce
  note spec = kheap_pages_spec [OF inv kp]
  show ?thesis
  proof (cases "pages = []")
    case True
    then show ?thesis using run kp spec by (auto simp: kheap_init_def)
  next
    case False
    then obtain p where p: "pages = [p] \<or> pages = [p, p + 4096]" "0x200000 \<le> unat p"
      "unat p < 0x6D0000000" "unat p mod 4096 = 0" "\<forall>q \<in> set pages. unat q div 4096 \<in> free_frames s"
      using spec by auto
    define k where "k = length pages"
    have k: "k \<in> {1, 2}" using p(1) k_def by auto
    have p4: "unat (p + 4096) = unat p + 4096" using p(3) by (subst unat_add_lt) auto
    have fr: "(\<lambda>q. unat q div 4096) ` set pages = {unat p div 4096 ..< unat p div 4096 + k}"
      using p(1) p4 k_def by (auto simp: atLeastLessThanSuc)
    let ?b = "phys_to_virt r p"
    have ub: "unat ?b = (if r then 0xFFFF800000000000 + unat p else unat p)"
      using p(3) by (intro unat_phys_to_virt) simp
    have h': "heap_base h' = ?b" "heap_end h' = ?b + of_nat k * 4096"
      "hdr h' ?b = \<lparr>b_magic = HEAP_MAGIC, b_free = 1, b_size = of_nat k * 4096 - 16\<rparr>" and t: "t = s'"
      using run kp False p(1) k_def by (auto simp: kheap_init_def Let_def)
    have uk: "unat (of_nat k * 4096 :: u64) = k * 4096" using k by auto
    have ue: "unat (heap_end h') = unat ?b + k * 4096"
      unfolding h' using k p(3) ub uk by (subst unat_add_lt) auto
    have "heap_ok HEAP_MAGIC h' [(unat ?b, True, k * 4096 - 16)]"
    proof (rule heap_ok_single)
      have "2097152 \<le> unat ?b" using ub p(2) by simp
      then show "?b \<noteq> 0" by auto
      have "(16 :: nat) dvd 4096" by simp
      then have "16 dvd unat p" using p(4) by (metis dvd_trans mod_eq_0_iff_dvd)
      then show "16 dvd unat ?b" unfolding ub by auto
      show "hdr h' ?b = header HEAP_MAGIC True (k * 4096 - 16)"
        using k unfolding h' header_def by auto
      show "16 dvd k * 4096 - 16" using k by auto
    qed (use k ue ub p(3) h' in auto)
    moreover have "unat p div 4096 + (k - 1) \<in> (\<lambda>q. unat q div 4096) ` set pages"
      unfolding fr using k by auto
    then obtain q where q: "q \<in> set pages" "unat p div 4096 + (k - 1) = unat q div 4096" by (rule imageE)
    have "unat p div 4096 + (k - 1) \<in> free_frames s" unfolding q(2) using p(5) q(1) by (rule bspec)
    moreover have "512 \<le> unat p div 4096" using p(2) by simp
    moreover have "pmm_inv s'" "free_frames s' = free_frames s - {unat p div 4096 ..< unat p div 4096 + k}"
      using spec t fr by simp_all
    ultimately show ?thesis using h'(1) k by metis
  qed
qed

section \<open>Properties\<close>

text \<open>A heap of one free block, for the witnesses.\<close>

definition heap_demo :: heap where
  "heap_demo = \<lparr>heap_base = 0x200000, heap_end = 0x202000,
     hdr = (\<lambda>_. header 0 False 0)(0x200000 := header HEAP_MAGIC True 8176)\<rparr>"

text \<open>A machine of 520 frames with four free ones at 2 MiB.\<close>

definition pmm_demo :: pmm where
  "pmm_demo = \<lparr>bitmap_phys = 0x126000, frame_count = 520, free_count = 4,
     reserved_end = 0x1000, bits = replicate 64 0xFF @ [0xF0]\<rparr>"

lemma free_frames_demo: "free_frames pmm_demo = {512, 513, 514, 515}"
proof -
  have full: "bit (- 1 :: u8) (n mod 8)" for n :: nat by simp
  have lo: "frame_bit pmm_demo n" if "n < 512" for n
  proof -
    have "n div 8 < 64" using that by auto
    then have "bits pmm_demo ! (n div 8) = - 1" by (simp add: pmm_demo_def nth_append)
    then show ?thesis using full unfolding frame_bit_def by simp
  qed
  have hi: "frame_bit pmm_demo n \<longleftrightarrow> n \<in> {516, 517, 518, 519}" if "512 \<le> n" "n < 520" for n
  proof -
    have "n \<in> {512, 513, 514, 515, 516, 517, 518, 519}" using that by auto
    then show ?thesis by (auto simp: frame_bit_def pmm_demo_def nth_append)
  qed
  have "n < unat (frame_count pmm_demo) \<longleftrightarrow> n < 520" for n by (simp add: pmm_demo_def)
  then have "free_frames pmm_demo = {n. n < 520 \<and> \<not> frame_bit pmm_demo n}"
    by (simp add: free_frames_def)
  also have "\<dots> = {512, 513, 514, 515}"
  proof (intro set_eqI iffI)
    fix n assume n: "n \<in> {n. n < 520 \<and> \<not> frame_bit pmm_demo n}"
    then have g: "512 \<le> n" "n < 520" using lo by (auto simp: not_less [symmetric])
    then have "n \<in> {512, 513, 514, 515} \<union> {516, 517, 518, 519}" by auto
    moreover have "n \<notin> {516, 517, 518, 519}" using n hi [OF g] by blast
    ultimately show "n \<in> {512, 513, 514, 515}" by blast
  qed (use hi in auto)
  finally show ?thesis .
qed

lemma pmm_inv_demo: "pmm_inv pmm_demo"
  using free_frames_demo by (simp add: pmm_inv_def pmm_wf_def) (simp add: pmm_demo_def)

lemma heap_ok_demo: "heap_ok HEAP_MAGIC heap_demo [(0x200000, True, 8176)]"
  by (simp add: heap_ok_def heap_demo_def)

text \<open>
  First fit. On a well-formed heap \<open>kmalloc\<close> always returns. It takes the first free block
  whose payload holds the request rounded up to 16 bytes: the caller gets the address after
  that block's header, the block is split when at least 32 bytes would be left over, every
  other block keeps its place, and the heap stays well formed. If no block fits, it returns
  the null pointer and changes nothing.
\<close>

theorem kmalloc_first_fit:
  assumes "heap_ok HEAP_MAGIC h xs" "sz \<noteq> 0" "unat sz + 15 < 2 ^ 64"
  shows "case List.find (fits ((unat sz + 15) div 16 * 16)) xs of
      None \<Rightarrow> kmalloc sz h = Some (0, h)
    | Some (p, f, z) \<Rightarrow> \<exists>pre post h'. xs = pre @ (p, True, z) # post \<and>
        (\<forall>x \<in> set pre. \<not> fits ((unat sz + 15) div 16 * 16) x) \<and>
        (unat sz + 15) div 16 * 16 \<le> z \<and> kmalloc sz h = Some (of_nat (p + 16), h') \<and>
        heap_ok HEAP_MAGIC h' (pre @ taken p z ((unat sz + 15) div 16 * 16) @ post)"
  by (rule kmalloc_spec [OF assms])

theorem kmalloc_first_fit_witness:
  "\<exists>h'. kmalloc 20 heap_demo = Some (0x200010, h') \<and>
     heap_ok HEAP_MAGIC h' [(0x200000, False, 32), (0x200030, True, 8128)]"
  using kmalloc_first_fit [OF heap_ok_demo, of 20]
  by (auto simp: taken_def Cons_eq_append_conv)

text \<open>
  Release. Freeing the payload of an allocated block marks it free and merges it with the
  next block when that one is free; every other block keeps its place and the heap stays well
  formed. Freeing the null pointer, a pointer outside the heap or the payload of a block that
  is already free changes nothing.
\<close>

theorem kfree_releases:
  assumes ok: "heap_ok HEAP_MAGIC h xs"
  shows "(xs = pre @ (p, False, z) # post \<longrightarrow>
      heap_ok HEAP_MAGIC (kfree (of_nat (p + 16)) h) (pre @ released p z post)) \<and>
    ((p, True, z) \<in> set xs \<longrightarrow> kfree (of_nat (p + 16)) h = h) \<and>
    (q = 0 \<or> unat q < unat (heap_base h) + 16 \<or> unat (heap_end h) \<le> unat q \<longrightarrow> kfree q h = h)"
proof (intro conjI impI)
  show "heap_ok HEAP_MAGIC (kfree (of_nat (p + 16)) h) (pre @ released p z post)"
    if "xs = pre @ (p, False, z) # post"
    using block_release_ok ok that unfolding kfree_def by blast
  have t: "tiled HEAP_MAGIC (hdr h) (unat (heap_end h)) (unat (heap_base h)) xs"
    and e: "unat (heap_end h) + 16 < 2 ^ 64" using ok by (simp_all add: heap_ok_def)
  show "kfree (of_nat (p + 16)) h = h" if "(p, True, z) \<in> set xs"
    using tiled_header [OF t that] by (simp add: kfree_def block_release_def)
  have "unat (heap_base h + 16) = unat (heap_base h) + 16"
    using tiled_le [OF t] e by (subst unat_add_lt) auto
  then show "kfree q h = h"
    if "q = 0 \<or> unat q < unat (heap_base h) + 16 \<or> unat (heap_end h) \<le> unat q"
    using that by (auto simp: kfree_def block_release_def word_less_nat_alt word_le_nat_alt)
qed

theorem kfree_releases_witness:
  "kfree 0x200010 heap_demo = heap_demo \<and> kfree 0x202000 heap_demo = heap_demo \<and>
   (\<exists>h. heap_ok HEAP_MAGIC (kfree 0x200010 h) [(0x200000, True, 8176)])"
proof -
  obtain h where h: "heap_ok HEAP_MAGIC h [(0x200000, False, 32), (0x200030, True, 8128)]"
    using kmalloc_spec [OF heap_ok_demo, of 20] by (auto simp: taken_def Cons_eq_append_conv)
  show ?thesis
    using kfree_releases [OF h, of "[]" "0x200000" 32 "[(0x200030, True, 8128)]"]
      kfree_releases [OF heap_ok_demo, of _ "0x200000" 8176 _ "0x202000"]
    by (auto simp: released_def heap_demo_def)
qed

text \<open>
  Initialisation. \<open>kheap_init\<close> either finds no free page at or above 2 MiB, leaving the
  page allocator as it was and the heap absent, or takes one page or two adjacent ones from
  the page allocator, and only these, and makes them one free block behind one header.
\<close>

theorem kheap_init_one_block:
  assumes "pmm_inv s" "kheap_init r s h = (s', h')"
  shows "pmm_inv s' \<and> (heap_base h' = 0 \<and> s' = s \<and> (\<forall>n \<in> free_frames s. n < 512) \<or>
    (\<exists>p k. k \<in> {1, 2} \<and> heap_base h' = phys_to_virt r p \<and>
       unat p div 4096 + (k - 1) \<in> free_frames s \<and> 512 \<le> unat p div 4096 \<and>
       free_frames s' = free_frames s - {unat p div 4096 ..< unat p div 4096 + k} \<and>
       heap_ok HEAP_MAGIC h' [(unat (heap_base h'), True, k * 4096 - 16)]))"
  by (rule kheap_init_spec [OF assms])

theorem kheap_init_one_block_witness:
  "\<exists>k \<in> {1, 2}. let h = snd (kheap_init True pmm_demo heap_demo) in
     heap_ok HEAP_MAGIC h [(unat (heap_base h), True, k * 4096 - 16)]"
  using kheap_init_one_block [OF pmm_inv_demo surjective_pairing, of True heap_demo]
  by (auto simp: free_frames_demo Let_def)

lemma kmalloc_base: "kmalloc n h = Some (p, h') \<Longrightarrow> heap_base h' = heap_base h"
  by (auto simp: kmalloc_def take_block_def Let_def split: if_splits option.splits fit.splits)

lemma kfree_base: "heap_base (kfree p h) = heap_base h"
  by (simp add: kfree_def block_release_def Let_def)

lemma run_base: "heap_run kmalloc kfree cs (h, out) = Some (h', out') \<Longrightarrow> heap_base h' = heap_base h"
proof (induction cs arbitrary: h out)
  case (Cons c cs)
  then show ?case by (cases c) (auto simp: kfree_base split: option.splits if_splits dest!: kmalloc_base)
qed simp

text \<open>When \<open>kmalloc\<close> succeeds: some free block holds the request rounded up to 16 bytes.\<close>

lemma kmalloc_succeeds:
  assumes "heap_ok HEAP_MAGIC h xs" "n \<noteq> 0" "unat n + 15 < 2 ^ 64"
  shows "\<exists>p h'. kmalloc n h = Some (p, h') \<and> (p \<noteq> 0 \<longleftrightarrow> (\<exists>x \<in> set xs. fits ((unat n + 15) div 16 * 16) x))"
proof -
  let ?n = "(unat n + 15) div 16 * 16"
  note spec = kmalloc_spec [OF assms]
  show ?thesis
  proof (cases "List.find (fits ?n) xs")
    case None
    then have "kmalloc n h = Some (0, h)" using spec by simp
    then show ?thesis using None by (auto simp: find_None_iff)
  next
    case (Some x)
    then obtain p f z pre post h' where x: "x = (p, f, z)" "xs = pre @ (p, True, z) # post" "?n \<le> z"
      and k: "kmalloc n h = Some (of_nat (p + 16), h')"
      using spec by (cases x) auto
    have "tiled HEAP_MAGIC (hdr h) (unat (heap_end h)) (unat (heap_base h)) xs"
      and e: "unat (heap_end h) + 16 < 2 ^ 64" using assms(1) by (simp_all add: heap_ok_def)
    from tiled_bounds [OF this(1), of p True z] x e
    have u: "unat (of_nat (p + 16) :: u64) = p + 16" by (intro unat_of_nat_u64) simp
    then have "of_nat (p + 16) \<noteq> (0 :: u64)" by (metis add_eq_0_iff_both_eq_0 unat_0 zero_neq_numeral)
    then show ?thesis using k x by auto
  qed
qed

text \<open>
  C19. Payloads never overlap. After \<open>kheap_init\<close>, for every sequence of \<open>kmalloc\<close> calls, of
  sizes that do not wrap when they are rounded up to 16, and \<open>kfree\<close> calls of payloads that are held,
  every call returns and the byte ranges that the callers asked for and still hold are pairwise
  disjoint. Unless there was no page for the heap at all, each of them lies in a live block of the
  heap, and the next \<open>kmalloc\<close> succeeds exactly if some free block holds its request. Sizes
  within 15 of \<open>2 ^ 64\<close> are excluded: \<open>kmalloc_huge_wraps\<close> shows what happens to them.
\<close>

theorem kheap_payloads_disjoint:
  assumes "pmm_inv s" "kheap_init r s h = (s', h')" "list_all call_sane cs"
  shows "\<exists>h'' out. heap_run kmalloc kfree cs (h', []) = Some (h'', out) \<and> held_apart out \<and>
    ((\<forall>n \<in> free_frames s. n < 512) \<and> out = [] \<or>
     (\<exists>xs. heap_ok HEAP_MAGIC h'' xs \<and> held out (live_blocks xs) \<and>
        (\<forall>n. n \<noteq> 0 \<longrightarrow> unat n + 15 < 2 ^ 64 \<longrightarrow>
           (\<exists>p h3. kmalloc n h'' = Some (p, h3) \<and> (p \<noteq> 0 \<longleftrightarrow> (\<exists>x \<in> set xs. fits ((unat n + 15) div 16 * 16) x))))))"
proof -
  note init = kheap_init_spec [OF assms(1,2)]
  then have "\<exists>L. kheap_live h' L \<and> L = {}" by (auto simp: kheap_live_def live_blocks_def)
  then have l: "kheap_live h' {}" "held [] {}" by (auto simp: held_def)
  obtain h'' out L where r: "heap_run kmalloc kfree cs (h', []) = Some (h'', out)" "kheap_live h'' L" "held out L"
    using kheap.run_held [OF l assms(3)] by blast
  have ap: "held_apart out" by (rule kheap.live_held_apart [OF r(2,3)])
  show ?thesis
  proof (cases "heap_base h' = 0")
    case True
    then have "L = {}" using r(2) run_base [OF r(1)] by (auto simp: kheap_live_def heap_ok_def)
    then have "out = []" using r(3) by (cases out) (auto simp: held_def)
    moreover have "\<forall>n \<in> free_frames s. n < 512" using init True by (auto simp: heap_ok_def)
    ultimately show ?thesis using r(1) ap by blast
  next
    case False
    then obtain xs where xs: "heap_ok HEAP_MAGIC h'' xs" "L = live_blocks xs"
      using r(2) run_base [OF r(1)] by (auto simp: kheap_live_def)
    then show ?thesis using r(1,3) ap kmalloc_succeeds [OF xs(1)] by blast
  qed
qed

lemma demo_two_payloads:
  "\<exists>h'' p q. heap_run kmalloc kfree [Alloc 16, Alloc 100] (snd (kheap_init True pmm_demo heap_demo), []) = Some (h'', [(q, 100), (p, 16)])"
proof -
  let ?h = "snd (kheap_init True pmm_demo heap_demo)" and ?b = "unat (heap_base (snd (kheap_init True pmm_demo heap_demo)))"
  have "(\<exists>n \<in> free_frames pmm_demo. \<not> n < 512)" by (simp add: free_frames_demo)
  then obtain z where ok: "heap_ok HEAP_MAGIC ?h [(?b, True, z)]" "4080 \<le> z"
    using kheap_init_spec [OF pmm_inv_demo surjective_pairing [of "kheap_init True pmm_demo heap_demo"]] by fastforce
  obtain h1 where h1: "kmalloc 16 ?h = Some (of_nat (?b + 16), h1)" "heap_ok HEAP_MAGIC h1 [(?b, False, 16), (32 + ?b, True, z - 32)]"
    using kmalloc_spec [OF ok(1), of 16] ok(2) by (auto simp: taken_def Cons_eq_append_conv)
  obtain p1 where p1: "kmalloc 16 ?h = Some (p1, h1)" "p1 \<noteq> 0"
    using kmalloc_succeeds [OF ok(1), of 16] h1(1) ok(2) by auto
  obtain p2 h2 where "kmalloc 100 h1 = Some (p2, h2)" "p2 \<noteq> 0"
    using kmalloc_succeeds [OF h1(2), of 100] ok(2) by auto
  then show ?thesis using p1 by auto
qed

theorem kheap_payloads_disjoint_witness:
  "\<exists>h'' p q. heap_run kmalloc kfree [Alloc 16, Alloc 100] (snd (kheap_init True pmm_demo heap_demo), []) = Some (h'', [(q, 100), (p, 16)]) \<and>
     held_apart [(q, 100), (p, 16)]"
proof -
  have "list_all call_sane [Alloc 16, Alloc 100]" by (simp add: call_sane_def)
  from kheap_payloads_disjoint [OF pmm_inv_demo surjective_pairing [of "kheap_init True pmm_demo heap_demo"] this] demo_two_payloads
  show ?thesis by (metis option.inject prod.inject)
qed

text \<open>
  The boot self-test \<open>kheap_print\<close>: on a heap of one free block with at least 112 bytes it
  returns, shows that the third allocation reuses the first one's address, and leaves the
  heap as one free block of the same size.
\<close>

theorem kheap_print_restores:
  assumes ok: "heap_ok HEAP_MAGIC h [(b, True, z)]" and z: "112 \<le> z" and row: "row < VGA_HEIGHT - 2"
  shows "\<exists>h'. kheap_print row h v = Some (row + 1, h',
      vga_write_hex64_at row 39 (of_nat (b + 16)) (vga_write_hex64_at row 22 (of_nat (48 + b))
        (vga_write_hex64_at row 5 (of_nat (b + 16)) (vga_write_at row 0 (Some ''heap'') v)))) \<and>
    heap_ok HEAP_MAGIC h' [(b, True, z)]"
proof -
  have z': "16 \<le> z - 32" "48 \<le> z - 32" using z by auto
  obtain h1 where h1: "kmalloc 16 h = Some (of_nat (b + 16), h1)"
    "heap_ok HEAP_MAGIC h1 [(b, False, 16), (32 + b, True, z - 32)]"
    using kmalloc_spec [OF ok, of 16] z by (auto simp: taken_def Cons_eq_append_conv)
  obtain h2 where h2: "kmalloc 16 h1 = Some (of_nat (48 + b), h2)"
    "heap_ok HEAP_MAGIC h2 [(b, False, 16), (32 + b, False, 16), (64 + b, True, z - 64)]"
    using kmalloc_spec [OF h1(2), of 16] z z' by (auto simp: taken_def Cons_eq_append_conv)
  let ?h3 = "kfree (of_nat (b + 16)) h2"
  have h3: "heap_ok HEAP_MAGIC ?h3 [(b, True, 16), (32 + b, False, 16), (64 + b, True, z - 64)]"
    using block_release_ok [of HEAP_MAGIC h2 "[]" b 16 "[(32 + b, False, 16), (64 + b, True, z - 64)]"] h2(2)
    by (simp add: kfree_def released_def)
  obtain h4 where h4: "kmalloc 16 ?h3 = Some (of_nat (b + 16), h4)"
    "heap_ok HEAP_MAGIC h4 [(b, False, 16), (32 + b, False, 16), (64 + b, True, z - 64)]"
    using kmalloc_spec [OF h3, of 16] z by (auto simp: taken_def Cons_eq_append_conv)
  have h5: "heap_ok HEAP_MAGIC (kfree (of_nat (48 + b)) h4) [(b, False, 16), (32 + b, True, z - 32)]"
    using block_release_ok [of HEAP_MAGIC h4 "[(b, False, 16)]" "32 + b" 16 "[(64 + b, True, z - 64)]"] h4(2) z
    by (simp add: kfree_def released_def)
  have h6: "heap_ok HEAP_MAGIC (kfree (of_nat (b + 16)) (kfree (of_nat (48 + b)) h4)) [(b, True, z)]"
    using block_release_ok [of HEAP_MAGIC "kfree (of_nat (48 + b)) h4" "[]" b 16 "[(32 + b, True, z - 32)]"] h5 z
    by (simp add: kfree_def released_def)
  show ?thesis using row h1(1) h2(1) h4(1) h6 unfolding kheap_print_def by auto
qed

theorem kheap_print_restores_witness:
  "\<forall>v. \<exists>h' v'. kheap_print 3 heap_demo v = Some (4, h', v') \<and>
     heap_ok HEAP_MAGIC h' [(0x200000, True, 8176)]"
  using kheap_print_restores [OF heap_ok_demo, of 3] by (simp add: VGA_HEIGHT_def) blast

text \<open>
  Sizes within 15 of the top of the 64-bit range wrap: \<open>align_up\<close> yields 0, so \<open>kmalloc\<close>
  returns a non-null pointer to an empty payload whenever some block is free, although no
  block can hold the request.
\<close>

theorem kmalloc_huge_wraps:
  assumes "heap_ok HEAP_MAGIC h ((p, True, z) # xs)" "2 ^ 64 \<le> unat sz + 15"
  shows "\<exists>h'. kmalloc sz h = Some (of_nat (p + 16), h') \<and>
    b_size (hdr h' (of_nat p)) = (if 32 \<le> z then 0 else of_nat z)"
proof -
  have t: "p = unat (heap_base h)" "hdr h (of_nat p) = header HEAP_MAGIC True z"
    "p + 16 + z < 2 ^ 64" "heap_base h \<noteq> 0" using assms(1) by (auto simp: heap_ok_def)
  have "unat (sz + 15) = unat sz + 15 - 2 ^ 64"
    using assms(2) unat_bound [of sz] by (simp add: unat_word_ariths le_mod_geq)
  moreover have "align_up sz 16 = (sz + 15) AND NOT (2 ^ 4 - 1)"
    unfolding align_up_def add_diff_eq [symmetric] by simp
  ultimately have "unat (align_up sz 16) = 0"
    using unat_bound [of sz] by (simp only: align_down_pow2) simp
  then have need: "align_up sz 16 = 0" using word_eq_by_unat [of "align_up sz 16" 0] by simp
  have b: "of_nat p = heap_base h" using t(1) by simp
  have "sz \<noteq> 0" using assms(2) by auto
  then have "kmalloc sz h = Some (of_nat (p + 16), take_block HEAP_MAGIC h (of_nat p) 0)"
    using t(2,4) unfolding kmalloc_def need b [symmetric]
    by (simp add: find_fit.simps [of HEAP_MAGIC h 0 "of_nat p"])
  moreover have "b_size (hdr (take_block HEAP_MAGIC h (of_nat p) 0) (of_nat p)) =
      (if 32 \<le> z then 0 else of_nat z)"
    using take_block_hdr [of 0 z p h HEAP_MAGIC] t(2,3) by simp
  ultimately show ?thesis by blast
qed

theorem kmalloc_huge_wraps_witness:
  "\<exists>h'. kmalloc 0xFFFFFFFFFFFFFFFF heap_demo = Some (0x200010, h') \<and> b_size (hdr h' 0x200000) = 0"
  using kmalloc_huge_wraps [OF heap_ok_demo, of "0xFFFFFFFFFFFFFFFF"] by simp

end
