(* ===== verification/Address_Space.thy ===== *)
theory Address_Space
  imports Vmm_Fork Heap
begin

text \<open>
  What \<open>kernel/vmm.c\<close> promises about user address spaces, stated on what a task can see: the frame
  behind a page, whether the entry lets it write now, and whether it may write at all.
\<close>

definition user_page :: "vmm \<Rightarrow> u64 \<Rightarrow> u64 \<Rightarrow> (u64 \<times> bool \<times> bool) option" where
  "user_page v R va =
     (let e = pte v R (va_place va) (pt_ix va) in
      if mapped e then Some (e AND ADDR_MASK, bit e 1, bit e 9) else None)"

definition same_page :: "u64 \<Rightarrow> u64 \<Rightarrow> bool" where
  "same_page va wa \<longleftrightarrow> va_place va = va_place wa \<and> pt_ix va = pt_ix wa"

lemma translate_user_page:
  "trees_ok S v \<Longrightarrow> R \<in> S \<Longrightarrow> pml4_ix va < 256 \<Longrightarrow>
    vmm_translate_user R va v = map_option (\<lambda>(a, _). a OR (va AND 0xFFF)) (user_page v R va)"
  by (simp add: translate_pte user_page_def Let_def)

lemma pte_upd_page:
  assumes "pte_upd S v v' R (va_place va) (pt_ix va) e" "R' \<in> S" "pml4_ix wa < 256"
  shows "user_page v' R' wa = (if R' = R \<and> same_page wa va
    then if mapped e then Some (e AND ADDR_MASK, bit e 1, bit e 9) else None else user_page v R' wa)"
proof -
  have "pte v' R' (va_place wa) (pt_ix wa) =
      (if R' = R \<and> va_place wa = va_place va \<and> pt_ix wa = pt_ix va then e else pte v R' (va_place wa) (pt_ix wa))"
    using assms(1) leaf_place_va [OF assms(3)] assms(2) unfolding pte_upd_def by blast
  then show ?thesis by (auto simp: user_page_def same_page_def Let_def)
qed

lemma user_flags_page: "aligned a \<Longrightarrow>
    (a OR PTE_USER_FLAGS) AND ADDR_MASK = a \<and> bit (a OR PTE_USER_FLAGS) 1 \<and> bit (a OR PTE_USER_FLAGS) 9"
  using user_flags_bits by (simp add: entry_bit)

section \<open>Mapping succeeds while there is memory\<close>

lemma ensure_table_frames:
  assumes tr: "trees_ok S v" and R: "R \<in> S" and p: "vpath (i # p)" "node v R p = Some t"
    and run: "vmm_ensure_table t i PTE_USER_FLAGS v = (r, v')" and n: "Suc n \<le> card (free_frames (pm v))"
  shows "r \<noteq> None" "n \<le> card (free_frames (pm v'))"
proof -
  obtain b v1 where al: "alloc_page v = (b, v1)" by fastforce
  have inv: "pmm_inv (pm v)" by (rule trees_okD(2) [OF tr R])
  have ne: "free_frames (pm v) \<noteq> {}" using n by auto
  have b: "b \<noteq> 0"
  proof
    assume "b = 0"
    then have "pmm_alloc_frame 0 (pm v) = (0, pm v1)" using al
      by (auto simp: alloc_page_def pmm_alloc_def split: prod.splits)
    from pmm_alloc_frame_spec [OF inv this] show False using ne by auto
  qed
  show r: "r \<noteq> None" using ensure_table_ok(7) [OF tr R p run] al b by auto
  show "n \<le> card (free_frames (pm v'))"
  proof (cases "present (tab_get v t i)")
    case True
    then have "user_table_entry (tab_get v t i)" using trees_okD(8) [OF tr R p] by auto
    then have "v' = v" using run True by (auto simp: vmm_ensure_table_def Let_def user_table_entry_def user_def)
    then show ?thesis using n by simp
  next
    case False
    then have "v' = tab_set t i (b OR PTE_USER_FLAGS) (zero_table b v1)"
      using run al b by (auto simp: vmm_ensure_table_def Let_def)
    moreover note A = alloc_page_ok [OF inv al b]
    ultimately have "free_frames (pm v') = free_frames (pm v) - {unat b div 4096}"
      using zero_table_spec [of b v1] by simp
    then show ?thesis using n card_Diff_singleton_if [of "free_frames (pm v)" "unat b div 4096"] by (simp split: if_splits)
  qed
qed

lemma map_user_flags_succeeds:
  assumes tr: "trees_ok S v" and R: "R \<in> S" and va: "pml4_ix va < 256" "aligned va" and ph: "aligned phys"
    and n: "n + 3 \<le> card (free_frames (pm v))"
  shows "\<exists>v'. vmm_map_user_flags R va phys flags v = (True, v') \<and> n \<le> card (free_frames (pm v'))"
proof -
  obtain r1 v1 where 1: "vmm_ensure_table R (pml4_ix va) PTE_USER_FLAGS v = (r1, v1)" by fastforce
  have p1: "vpath [pml4_ix va]" "node v R [] = Some R" using va by (auto simp: vpath_Cons)
  have c1: "Suc (n + 2) \<le> card (free_frames (pm v))" using n by simp
  obtain t3 where t3: "r1 = Some t3" using ensure_table_frames(1) [OF tr R p1 1 c1] by auto
  note E1 = ensure_table_ok [OF tr R p1 1] and F1 = ensure_table_frames(2) [OF tr R p1 1 c1]
  obtain r2 v2 where 2: "vmm_ensure_table t3 (pdpt_ix va) PTE_USER_FLAGS v1 = (r2, v2)" by fastforce
  have p2: "vpath [pdpt_ix va, pml4_ix va]" "node v1 R [pml4_ix va] = Some t3"
    using va E1(6) t3 by (auto simp: vpath_Cons simp del: node.simps)
  have c2: "Suc (n + 1) \<le> card (free_frames (pm v1))" using F1 by simp
  obtain t2 where t2: "r2 = Some t2" using ensure_table_frames(1) [OF E1(1) R p2 2 c2] by auto
  note E2 = ensure_table_ok [OF E1(1) R p2 2] and F2 = ensure_table_frames(2) [OF E1(1) R p2 2 c2]
  obtain r3 v3 where 3: "vmm_ensure_table t2 (pd_ix va) PTE_USER_FLAGS v2 = (r3, v3)" by fastforce
  have p3: "vpath [pd_ix va, pdpt_ix va, pml4_ix va]" "node v2 R [pdpt_ix va, pml4_ix va] = Some t2"
    using va E2(6) t2 by (auto simp: vpath_Cons simp del: node.simps)
  have c3: "Suc n \<le> card (free_frames (pm v2))" using F2 by simp
  obtain t1 where t1: "r3 = Some t1" using ensure_table_frames(1) [OF E2(1) R p3 3 c3] by auto
  show ?thesis
    using va ph trees_okD(1) [OF tr R] user_half [OF va(1)] root_of_space [OF tr R] 1 2 3 t1 t2 t3
      ensure_table_frames(2) [OF E2(1) R p3 3 c3]
    by (simp add: vmm_map_user_flags_def aligned_4095)
qed

section \<open>Copying succeeds while there is memory\<close>

text \<open>The empty entries of the copy-on-write table, and the pages of an address space.\<close>

definition empties :: "cow_table \<Rightarrow> nat" where
  "empties tab = card {i. i < length tab \<and> snd (tab ! i) = 0}"

definition page_set :: "vmm \<Rightarrow> u64 \<Rightarrow> (place \<times> u64) set" where
  "page_set v R = {(p, i). leaf_place p i \<and> mapped (pte v R p i)}"

lemma finite_page_set [simp]: "finite (page_set v R)"
proof -
  have "finite ({p :: place. length p = 3} \<times> (UNIV :: u64 set))" using finite_lists_length_eq [of "UNIV :: u64 set" 3] by simp
  then show ?thesis by (rule rev_finite_subset) (auto simp: page_set_def leaf_place_def)
qed

lemma cow_share_succeeds:
  assumes "cow_wf tab" "Suc l \<le> empties tab"
  shows "\<exists>tab'. cow_share_frame p tab = (True, tab') \<and> l \<le> empties tab'"
proof -
  have upd: "l \<le> empties (tab[i := x])" for i x
  proof -
    have "{j. j < length tab \<and> snd (tab ! j) = 0} - {i} \<subseteq> {j. j < length (tab[i := x]) \<and> snd (tab[i := x] ! j) = 0}" by (auto simp: nth_list_update)
    from card_mono [OF _ this] show ?thesis using assms(2) card_Diff_singleton_if [of "{j. j < length tab \<and> snd (tab ! j) = 0}" i]
      by (simp add: empties_def split: if_splits)
  qed
  have "cow_empty tab \<noteq> None"
  proof
    assume "cow_empty tab = None"
    then have "{i. i < length tab \<and> snd (tab ! i) = 0} = {}" by (auto simp: cow_empty_def find_None_iff)
    then have "empties tab = 0" unfolding empties_def by (simp only: card.empty)
    then show False using assms(2) by simp
  qed
  then show ?thesis using upd by (auto simp: cow_share_frame_def split: option.splits)
qed

lemma copy_leaf_succeeds:
  assumes ok: "spaces_ok S v" and D: "D \<in> S" and lp: "leaf_place p i"
    and m: "3 + k \<le> card (free_frames (pm v))" "Suc l \<le> empties (cow_tab v)" and run: "copy_leaf D (base_va p) t i v = (r, v')"
  shows "r \<and> k \<le> card (free_frames (pm v')) \<and> l \<le> empties (cow_tab v')"
proof (cases "mapped (tab_get v t i)")
  case False
  then have "r \<and> v' = v" using run by (auto simp: copy_leaf_def mapped_def Let_def)
  then show ?thesis using m by simp
next
  case True
  let ?e = "tab_get v t i"
  let ?a = "?e AND ADDR_MASK"
  note V = va_of_place [OF lp]
  have pv: "vpath p" "i < 512" "length p = 3" using lp by (auto simp: leaf_place_def)
  have va: "base_va p OR push_bit 12 i = base_va (i # p)" using pv by simp
  obtain ct where ct: "cow_share_frame ?a (cow_tab v) = (True, ct)" "l \<le> empties ct"
    using cow_share_succeeds [OF spaces_okD(4) [OF ok] m(2)] by blast
  have tr: "trees_ok S (v\<lparr>cow_tab := ct\<rparr>)" using spaces_okD(1) [OF ok] by simp
  have al: "aligned ?a" by simp
  obtain v2 where v2: "vmm_map_user_flags D (base_va (i # p)) ?a (share_flags ?e) (v\<lparr>cow_tab := ct\<rparr>) = (True, v2)" "k \<le> card (free_frames (pm v2))"
    using map_user_flags_succeeds [OF tr D V(4,3) al, of k "share_flags ?e"] m(1) by auto
  have "cow_tab v2 = ct" using map_flags_trees(2) [OF tr D V(4) al share_flags_bits(1-3) v2(1)] by simp
  moreover have "(r, v') = (True, tab_set t i (shared_entry ?e) v2)"
    using run True ct(1) v2(1) unfolding copy_leaf_def Let_def va share_flags_def [symmetric] shared_entry_def by (simp add: mapped_def)
  ultimately show ?thesis using ct(2) v2(2) by simp
qed

definition affords :: "u64 set \<Rightarrow> u64 \<Rightarrow> u64 \<Rightarrow> vmm \<Rightarrow> (vmm \<Rightarrow> bool \<times> vmm) \<Rightarrow> place \<Rightarrow> u64 \<Rightarrow> (place \<times> u64) set \<Rightarrow> bool" where
  "affords S R D v0 f p t X \<longleftrightarrow> copies S R D v0 f p t X \<and> (\<forall>v P r v' k l. copied S R D v0 v P \<longrightarrow> node v R p = Some t \<longrightarrow> P \<inter> X = {} \<longrightarrow>
     f v = (r, v') \<longrightarrow> 3 * card (X \<inter> page_set v0 R) + k \<le> card (free_frames (pm v)) \<longrightarrow> card (X \<inter> page_set v0 R) + l \<le> empties (cow_tab v) \<longrightarrow>
     r \<and> k \<le> card (free_frames (pm v')) \<and> l \<le> empties (cow_tab v'))"

lemma affordsD:
  assumes "affords S R D v0 f p t X" "copied S R D v0 v P" "node v R p = Some t" "P \<inter> X = {}" "f v = (r, v')"
    and "3 * card (X \<inter> page_set v0 R) + k \<le> card (free_frames (pm v))" "card (X \<inter> page_set v0 R) + l \<le> empties (cow_tab v)"
  shows "r" "k \<le> card (free_frames (pm v'))" "l \<le> empties (cow_tab v')" "copied S R D v0 v' (P \<union> X)" "kept R v v'"
  using assms unfolding affords_def copies_def by metis+

lemma affords_loop:
  assumes p: "vpath p" and step: "\<And>i. i \<in> set is \<Longrightarrow> affords S R D v0 (g (of_nat i)) p t (below (of_nat i # p))"
    and d: "distinct is" "\<forall>i \<in> set is. i < 512"
  shows "affords S R D v0 (try_idx g is) p t (\<Union>k \<in> set is. below (of_nat k # p))"
proof -
  have "copies S R D v0 (try_idx g is) p t (\<Union>k \<in> set is. below (of_nat k # p))"
    by (rule copies_loop [OF p _ d]) (use step in \<open>simp add: affords_def\<close>)
  moreover have "r \<and> k \<le> card (free_frames (pm v')) \<and> l \<le> empties (cow_tab v')"
    if "copied S R D v0 v P" "node v R p = Some t" "P \<inter> (\<Union>k \<in> set is. below (of_nat k # p)) = {}" "try_idx g is v = (r, v')"
      "3 * card ((\<Union>k \<in> set is. below (of_nat k # p)) \<inter> page_set v0 R) + k \<le> card (free_frames (pm v))"
      "card ((\<Union>k \<in> set is. below (of_nat k # p)) \<inter> page_set v0 R) + l \<le> empties (cow_tab v)" for v P r v' k l
    using step d that
  proof (induction "is" arbitrary: v P)
    case (Cons i "is")
    let ?A = "below (of_nat i # p)" and ?B = "\<Union>k \<in> set is. below (of_nat k # p)"
    have "?A \<inter> below (of_nat k # p) = {}" if "k \<in> set is" for k
    proof (rule below_disjoint)
      have "i < 512" "k < 512" "i \<noteq> k" using Cons.prems(2,3) that by auto
      then show "(of_nat i :: u64) \<noteq> of_nat k" by (simp add: word_of_nat_eq_iff take_bit_nat_eq_self)
    qed
    then have AB: "?A \<inter> ?B = {}" by auto
    have card: "card ((\<Union>k \<in> set (i # is). below (of_nat k # p)) \<inter> page_set v0 R) = card (?A \<inter> page_set v0 R) + card (?B \<inter> page_set v0 R)"
    proof -
      have "(\<Union>k \<in> set (i # is). below (of_nat k # p)) \<inter> page_set v0 R = (?A \<inter> page_set v0 R) \<union> (?B \<inter> page_set v0 R)" by auto
      moreover have "(?A \<inter> page_set v0 R) \<inter> (?B \<inter> page_set v0 R) = {}" using AB by blast
      ultimately show ?thesis using card_Un_disjoint [of "?A \<inter> page_set v0 R" "?B \<inter> page_set v0 R"] by simp
    qed
    obtain r1 v1 where g: "g (of_nat i) v = (r1, v1)" by fastforce
    have dis: "P \<inter> ?A = {}" "(P \<union> ?A) \<inter> ?B = {}" using Cons.prems(6) AB by auto
    note F = affordsD [OF Cons.prems(1) [of i] Cons.prems(4,5) dis(1) g, of "3 * card (?B \<inter> page_set v0 R) + k" "card (?B \<inter> page_set v0 R) + l"]
    have F: "r1" "3 * card (?B \<inter> page_set v0 R) + k \<le> card (free_frames (pm v1))" "card (?B \<inter> page_set v0 R) + l \<le> empties (cow_tab v1)"
      "copied S R D v0 v1 (P \<union> ?A)" "node v1 R p = Some t"
      using F Cons.prems(5,8,9) p unfolding card by (simp_all add: kept_def)
    show ?case by (rule Cons.IH [OF _ _ _ F(4,5) dis(2) _ F(2,3)]) (use Cons.prems(1-3,7) F(1) g in auto)
  qed simp
  ultimately show ?thesis unfolding affords_def by blast
qed

lemma copy_leaf_affords:
  assumes R: "R \<in> S" "D \<in> S" "R \<noteq> D" and c0: "copied S R D v0 v0 {}" and lt: "\<forall>a. card (maps S v0 a) < 2 ^ 31" and lp: "leaf_place p i"
  shows "affords S R D v0 (copy_leaf D (base_va p) t i) p t (below (i # p))"
proof -
  have "r \<and> k \<le> card (free_frames (pm v')) \<and> l \<le> empties (cow_tab v')"
    if a: "copied S R D v0 v P" "node v R p = Some t" "P \<inter> {(p, i)} = {}" "copy_leaf D (base_va p) t i v = (r, v')"
      "3 * card ({(p, i)} \<inter> page_set v0 R) + k \<le> card (free_frames (pm v))" "card ({(p, i)} \<inter> page_set v0 R) + l \<le> empties (cow_tab v)" for v P r v' k l
  proof (cases "(p, i) \<in> page_set v0 R")
    case True
    then show ?thesis using copy_leaf_succeeds [OF _ R(2) lp _ _ a(4), of k l] a(1,5,6) by (simp add: copied_def)
  next
    case False
    have "pte v R p i = pte v0 R p i" using a(1,3) lp by (simp add: copied_def)
    then have "tab_get v t i = pte v0 R p i" using a(2) by (simp add: pte_def)
    then have "\<not> mapped (tab_get v t i)" using False lp by (simp add: page_set_def)
    then have "r \<and> v' = v" using a(4) by (auto simp: copy_leaf_def mapped_def Let_def)
    then show ?thesis using a(5,6) by simp
  qed
  then show ?thesis using copy_leaf_copies [OF R c0 lt lp, of t] unfolding affords_def below_leaf [OF lp] by blast
qed

lemma copy_entry_affords:
  assumes R: "R \<in> S" and p: "vpath (i # p)" and inner: "\<And>u. affords S R D v0 (inner (base_va (i # p)) u) (i # p) u (below (i # p))"
  shows "affords S R D v0 (copy_entry inner (39 - 9 * length p) (base_va p) t i) p t (below (i # p))"
proof -
  have "r \<and> k \<le> card (free_frames (pm v')) \<and> l \<le> empties (cow_tab v')"
    if a: "copied S R D v0 v P" "node v R p = Some t" "P \<inter> below (i # p) = {}" "copy_entry inner (39 - 9 * length p) (base_va p) t i v = (r, v')"
      "3 * card (below (i # p) \<inter> page_set v0 R) + k \<le> card (free_frames (pm v))" "card (below (i # p) \<inter> page_set v0 R) + l \<le> empties (cow_tab v)" for v P r v' k l
  proof (cases "user_table_entry (tab_get v t i)")
    case True
    then have "node v R (i # p) = Some (tab_get v t i AND ADDR_MASK)" using a(2) by (simp add: next_table_def)
    moreover have "inner (base_va (i # p)) (tab_get v t i AND ADDR_MASK) v = (r, v')" using a(4) True by (simp add: copy_entry_def Let_def)
    ultimately show ?thesis using affordsD(1-3) [OF inner a(1) _ a(3) _ a(5,6)] by blast
  next
    case False
    then have "r \<and> v' = v" using a(4) by (simp add: copy_entry_def Let_def)
    then show ?thesis using a(5,6) by simp
  qed
  moreover have "copies S R D v0 (copy_entry inner (39 - 9 * length p) (base_va p) t i) p t (below (i # p))"
    by (rule copy_entry_copies [OF R p]) (use inner in \<open>simp add: affords_def\<close>)
  ultimately show ?thesis unfolding affords_def by blast
qed

lemma table_affords:
  assumes p: "vpath p" and N: "N = (if p = [] then 256 else 512)" and step: "\<And>i. i < of_nat N \<Longrightarrow> affords S R D v0 (g i) p t (below (i # p))"
  shows "affords S R D v0 (try_idx g [0..<N]) p t (below p)"
proof -
  have "affords S R D v0 (try_idx g [0..<N]) p t (\<Union>k \<in> set [0..<N]. below (of_nat k # p))"
  proof (rule affords_loop [OF p])
    fix i assume "i \<in> set [0..<N]"
    then have "(of_nat i :: u64) < of_nat N" using N by (simp add: word_less_nat_alt unat_of_nat)
    then show "affords S R D v0 (g (of_nat i)) p t (below (of_nat i # p))" by (rule step)
  qed (use N in auto)
  then show ?thesis unfolding below_split [OF p N] by (simp add: atLeast0LessThan)
qed

lemma copy_user_affords:
  assumes R: "R \<in> S" "D \<in> S" "R \<noteq> D" and c0: "copied S R D v0 v0 {}" and lt: "\<forall>a. card (maps S v0 a) < 2 ^ 31"
  shows "affords S R D v0 (try_idx (copy_entry (copy_pdpt D) 39 0 R) [0..<256]) [] R (below [])"
proof -
  have pt: "affords S R D v0 (copy_pt D (base_va p) t) p t (below p)" if "vpath p" "length p = 3" for p t
    unfolding copy_pt_def using that by (intro table_affords copy_leaf_affords [OF R c0 lt]) (auto simp: leaf_place_def)
  have pd: "affords S R D v0 (copy_pd D (base_va p) t) p t (below p)" if p: "vpath p" "length p = 2" for p t
    unfolding copy_pd_def
  proof (rule table_affords [OF p(1)])
    fix i :: u64 assume "i < of_nat 512"
    then have v: "vpath (i # p)" using p by (auto simp: vpath_Cons)
    show "affords S R D v0 (copy_entry (copy_pt D) 21 (base_va p) t i) p t (below (i # p))"
      using copy_entry_affords [OF R(1) v, of D v0 "copy_pt D" t] pt [OF v] p by simp
  qed (use p in auto)
  have pdpt: "affords S R D v0 (copy_pdpt D (base_va p) t) p t (below p)" if p: "vpath p" "length p = 1" for p t
    unfolding copy_pdpt_def
  proof (rule table_affords [OF p(1)])
    fix i :: u64 assume "i < of_nat 512"
    then have v: "vpath (i # p)" using p by (auto simp: vpath_Cons)
    show "affords S R D v0 (copy_entry (copy_pd D) 30 (base_va p) t i) p t (below (i # p))"
      using copy_entry_affords [OF R(1) v, of D v0 "copy_pd D" t] pd [OF v] p by simp
  qed (use p in auto)
  show ?thesis
  proof (rule table_affords)
    fix i :: u64 assume i: "i < of_nat 256"
    then have v: "vpath [i]" using order.strict_trans [of i 256 512] by (auto simp: vpath_Cons)
    show "affords S R D v0 (copy_entry (copy_pdpt D) 39 0 R i) [] R (below [i])"
      using copy_entry_affords [OF R(1) v, of D v0 "copy_pdpt D" R] pdpt [OF v] by simp
  qed simp_all
qed

lemma copy_user_succeeds:
  assumes ok: "spaces_ok S v" and R: "R \<in> S" "D \<in> S" "R \<noteq> D"
    and D0: "\<forall>p i. leaf_place p i \<longrightarrow> pte v D p i = 0" and lt: "\<forall>a. card (maps S v a) < 2 ^ 31"
    and run: "vmm_copy_user D R v = (r, v')"
    and m: "3 * card (page_set v R) \<le> card (free_frames (pm v))" "card (page_set v R) \<le> empties (cow_tab v)"
  shows "r"
proof -
  note tr = spaces_okD(1) [OF ok]
  have c0: "copied S R D v v {}" using ok D0 by (simp add: copied_def same_pages_def)
  have run': "try_idx (copy_entry (copy_pdpt D) 39 0 R) [0..<256] v = (r, v')"
    using run R trees_okD(1,4,5) [OF tr R(1)] trees_okD(4,5) [OF tr R(2)] by (simp add: vmm_copy_user_def)
  have "below [] \<inter> page_set v R = page_set v R" by (auto simp: below_def page_set_def)
  then show r using affordsD(1) [OF copy_user_affords [OF R c0 lt] c0 _ _ run', of 0 0] m by simp
qed


section \<open>A machine with one task\<close>

text \<open>Eight free frames at 2 MiB, memory that is zero, and no shared frame.\<close>

definition vmm_demo :: vmm where
  "vmm_demo = \<lparr>pm = pmm_demo\<lparr>free_count := 8, bits := replicate 64 0xFF @ [0]\<rparr>, pmem = (\<lambda>_. 0), cow_tab = cow_demo,
     first_4k_mapped = 0, hhdm_ready = True, cr3_reg = PML4_PHYS\<rparr>"

definition demo_root :: u64 where "demo_root = fst (vmm_clone_pml4 vmm_demo)"
definition demo_space :: vmm where "demo_space = snd (vmm_clone_pml4 vmm_demo)"
definition demo_page :: vmm where "demo_page = snd (vmm_map_user demo_root 0x400000 0x100000 demo_space)"

lemma free_frames_vmm_demo: "free_frames (pm vmm_demo) = {512..<520}"
proof -
  let ?s = "pm vmm_demo"
  have lo: "frame_bit ?s n" if "n < 512" for n
  proof -
    have "n div 8 < 64" using that by auto
    then have "bits ?s ! (n div 8) = - 1" by (simp add: vmm_demo_def nth_append)
    then show ?thesis unfolding frame_bit_def by simp
  qed
  have hi: "\<not> frame_bit ?s n" if "512 \<le> n" "n < 520" for n
  proof -
    have "n div 8 = 64" using that by auto
    then have "bits ?s ! (n div 8) = 0" by (simp add: vmm_demo_def nth_append)
    then show ?thesis unfolding frame_bit_def by simp
  qed
  have c: "unat (frame_count ?s) = 520" by (simp add: vmm_demo_def pmm_demo_def)
  show ?thesis unfolding free_frames_def c using lo hi by (auto simp: not_less [symmetric])
qed

lemma pmm_inv_vmm_demo: "pmm_inv (pm vmm_demo)"
  using free_frames_vmm_demo by (simp add: pmm_inv_def pmm_wf_def) (simp add: vmm_demo_def pmm_demo_def)

lemma spaces_ok_demo: "spaces_ok {} vmm_demo"
proof -
  have "maps {} v a = {}" for v a by (simp add: maps_def)
  moreover have "cow_count cow_demo a = 1" for a
  proof -
    have "cow_index cow_demo a = None" unfolding cow_index_None by (simp add: cow_demo_def)
    then show ?thesis by (simp add: cow_count_def cow_refs_def)
  qed
  moreover have "cow_tab vmm_demo = cow_demo" "hhdm_ready vmm_demo" by (simp_all add: vmm_demo_def)
  ultimately show ?thesis using cow_wf_demo pmm_inv_vmm_demo
    by (simp add: spaces_ok_def trees_ok_def frames_ok_def)
qed

lemma alloc_page_some:
  assumes inv: "pmm_inv (pm v)" and ne: "free_frames (pm v) \<noteq> {}"
  shows "fst (alloc_page v) \<noteq> 0"
proof
  assume "fst (alloc_page v) = 0"
  then obtain s where "pmm_alloc_frame 0 (pm v) = (0, s)"
    by (auto simp: alloc_page_def pmm_alloc_def split: prod.splits)
  from pmm_alloc_frame_spec [OF inv this] show False using ne by auto
qed

lemma clone_frames:
  assumes inv: "pmm_inv (pm v)" and hh: "hhdm_ready v" and run: "vmm_clone_pml4 v = (R, v')"
    and n: "Suc n \<le> card (free_frames (pm v))"
  shows "R \<noteq> 0" "n \<le> card (free_frames (pm v'))" "cr3_reg v' = cr3_reg v"
proof -
  obtain b v1 where al: "alloc_page v = (b, v1)" by fastforce
  have b: "b \<noteq> 0" using alloc_page_some [OF inv] n al by fastforce
  then show R: "R \<noteq> 0" using run hh al by (simp add: vmm_clone_pml4_def)
  have sel: "pm (for_idx m (\<lambda>i v. tab_set c i (g i v) v) w) = pm w"
    "cr3_reg (for_idx m (\<lambda>i v. tab_set c i (g i v) v) w) = cr3_reg w" for c m g w
    by (induction m) (simp_all add: for_idx_def)
  have "pm v' = pm v1" "cr3_reg v' = cr3_reg v1" using run hh al b by (auto simp: vmm_clone_pml4_def sel)
  moreover note A = alloc_page_ok [OF inv al b]
  ultimately show "n \<le> card (free_frames (pm v'))" "cr3_reg v' = cr3_reg v"
    using n card_Diff_singleton_if [of "free_frames (pm v)" "unat b div 4096"] by (auto split: if_splits)
qed

lemma demo_space_ok:
  "spaces_ok {demo_root} demo_space" "user_page demo_space demo_root va = None \<or> 256 \<le> pml4_ix va"
  "7 \<le> card (free_frames (pm demo_space))" "fresh {demo_root} demo_space 0x100000"
  "\<not> is_free demo_space PML4_PHYS" "vmm_clone_pml4 vmm_demo = (demo_root, demo_space)"
  "leaf_place p i \<Longrightarrow> pte demo_space demo_root p i = 0"
  "is_free demo_space x \<Longrightarrow> 512 \<le> unat x div 4096"
  "vpath q \<Longrightarrow> node demo_space demo_root q = Some t \<Longrightarrow> 512 \<le> unat t div 4096"
proof -
  have run: "vmm_clone_pml4 vmm_demo = (demo_root, demo_space)" by (simp add: demo_root_def demo_space_def)
  have hh: "hhdm_ready vmm_demo" by (simp add: vmm_demo_def)
  note C = clone_frames [OF pmm_inv_vmm_demo hh run, of 7]
  have nz: "demo_root \<noteq> 0" and c: "7 \<le> card (free_frames (pm demo_space))"
    using C free_frames_vmm_demo by auto
  have nf: "\<not> is_free vmm_demo PML4_PHYS" "\<not> is_free vmm_demo 0x100000"
    by (simp_all add: is_free_def free_frames_vmm_demo)
  note K = clone_pml4_ok [OF spaces_ok_demo hh pmm_inv_vmm_demo nf(1) run nz]
  show "vmm_clone_pml4 vmm_demo = (demo_root, demo_space)" by (fact run)
  show ok: "spaces_ok {demo_root} demo_space" using K by simp
  show P: "leaf_place p i \<Longrightarrow> pte demo_space demo_root p i = 0" for p i using K by simp
  show "user_page demo_space demo_root va = None \<or> 256 \<le> pml4_ix va"
    using P leaf_place_va [of va] by (cases "pml4_ix va < 256") (auto simp: user_page_def not_less)
  show "7 \<le> card (free_frames (pm demo_space))" by (fact c)
  have fr: "is_free demo_space x \<Longrightarrow> is_free vmm_demo x" for x using K by simp
  have lo: "is_free vmm_demo x \<Longrightarrow> 512 \<le> unat x div 4096" for x by (simp add: is_free_def free_frames_vmm_demo)
  show f: "is_free demo_space x \<Longrightarrow> 512 \<le> unat x div 4096" for x using fr lo by blast
  show n: "512 \<le> unat t div 4096" if "vpath q" "node demo_space demo_root q = Some t" for q t
    using K that lo by (cases q) auto
  have m: "maps {demo_root} demo_space a = {}" for a using P by (auto simp: maps_def)
  show "fresh {demo_root} demo_space 0x100000"
    unfolding fresh_def using f [of "0x100000"] m n [of _ "0x100000"] by (auto simp: aligned_mod)
  show "\<not> is_free demo_space PML4_PHYS" using nf fr by blast
qed

lemma user_page_None:
  "user_page v R va = None \<longleftrightarrow> \<not> mapped (pte v R (va_place va) (pt_ix va))"
  by (simp add: user_page_def Let_def)

lemma page_cong:
  assumes "\<forall>p i. leaf_place p i \<longrightarrow> pte v' R p i = pte v R p i" "pml4_ix va < 256"
  shows "user_page v' R va = user_page v R va"
  using assms(1) leaf_place_va [OF assms(2)] by (simp add: user_page_def)

lemma user_flags_ok: "low12 PTE_USER_FLAGS" "bit PTE_USER_FLAGS 0" "bit PTE_USER_FLAGS 2"
  by (simp_all add: user_flags_bits)

lemma map_user_pages:
  assumes "spaces_ok S v" "R \<in> S" "pml4_ix va < 256" "fresh S v phys" "user_page v R va = None"
    and "vmm_map_user R va phys v = (r, v')" "R' \<in> S" "pml4_ix wa < 256"
  shows "user_page v' R' wa = (if r \<and> R' = R \<and> same_page wa va then Some (phys, True, True) else user_page v R' wa)"
proof -
  have al: "aligned phys" using assms(4) by (simp add: fresh_def)
  have run: "vmm_map_user_flags R va phys PTE_USER_FLAGS v = (r, v')" using assms(6) by (simp add: vmm_map_user_def)
  note M = map_user_flags_ok(2) [OF assms(1-4) assms(5) [unfolded user_page_None] user_flags_ok run]
  show ?thesis
  proof (cases r)
    case True
    then show ?thesis
      using pte_upd_page [OF _ assms(7,8), of v v' R va] M user_flags_mapped [OF al] user_flags_page [OF al] by simp
  next
    case False
    then show ?thesis using page_cong [of v' R' v wa] M assms(7,8) by auto
  qed
qed

section \<open>The properties\<close>

text \<open>
  C29. Mapping a page. A fresh page mapped at a user address that has none: the call succeeds
  whenever the address is page-aligned and three frames are free for tables; then the address
  translates to the page and is writable, every other page of every address space is as before,
  and the invariant of the address spaces holds. A call that fails changes no page.
\<close>

theorem map_user_effect:
  assumes "spaces_ok S v" "R \<in> S" "pml4_ix va < 256" "fresh S v phys" "user_page v R va = None"
    and "vmm_map_user R va phys v = (r, v')"
  shows "spaces_ok S v' \<and> (aligned va \<and> 3 \<le> card (free_frames (pm v)) \<longrightarrow> r) \<and>
    (r \<longrightarrow> vmm_translate_user R va v' = Some (phys OR (va AND 0xFFF))) \<and>
    (\<forall>R' \<in> S. \<forall>wa. pml4_ix wa < 256 \<longrightarrow> user_page v' R' wa =
       (if r \<and> R' = R \<and> same_page wa va then Some (phys, True, True) else user_page v R' wa))"
proof (intro conjI impI ballI allI)
  have al: "aligned phys" using assms(4) by (simp add: fresh_def)
  have run: "vmm_map_user_flags R va phys PTE_USER_FLAGS v = (r, v')" using assms(6) by (simp add: vmm_map_user_def)
  show ok': "spaces_ok S v'"
    by (rule map_user_flags_ok(1) [OF assms(1-4) assms(5) [unfolded user_page_None] user_flags_ok run])
  show r if "aligned va \<and> 3 \<le> card (free_frames (pm v))"
    using map_user_flags_succeeds [OF spaces_okD(1) [OF assms(1)] assms(2,3) _ al, of 0 PTE_USER_FLAGS] that run by auto
  note pages = map_user_pages [OF assms]
  show "user_page v' R' wa = (if r \<and> R' = R \<and> same_page wa va then Some (phys, True, True) else user_page v R' wa)"
    if "R' \<in> S" "pml4_ix wa < 256" for R' wa by (rule pages [OF that])
  show "vmm_translate_user R va v' = Some (phys OR (va AND 0xFFF))" if r
    using translate_user_page [OF spaces_okD(1) [OF ok'] assms(2,3)] pages [OF assms(2,3)] that
    by (simp add: same_page_def)
qed

lemma demo_va: "pml4_ix 0x400000 < 256" "aligned 0x400000" "pml4_ix 0x400123 < 256"
  by (simp_all add: pml4_ix_def aligned_mod)

lemma demo_unmapped: "user_page demo_space demo_root 0x400000 = None"
  using demo_space_ok(2) [of "0x400000"] demo_va(1) by auto

theorem map_user_effect_witness:
  "\<exists>v'. vmm_map_user demo_root 0x400000 0x100000 demo_space = (True, v') \<and>
     vmm_translate_user demo_root 0x400000 v' = Some 0x100000 \<and> spaces_ok {demo_root} v'"
proof -
  obtain r v' where run: "vmm_map_user demo_root 0x400000 0x100000 demo_space = (r, v')" by fastforce
  note M = map_user_effect [OF demo_space_ok(1) _ demo_va(1) demo_space_ok(4) demo_unmapped run]
  have r using M demo_va(2) demo_space_ok(3) by simp
  then show ?thesis using M run by simp
qed

lemma demo_page_ok:
  "spaces_ok {demo_root} demo_page" "user_page demo_page demo_root 0x400000 = Some (0x100000, True, True)"
  "4 \<le> card (free_frames (pm demo_page))" "card (maps {demo_root} demo_page a) \<le> 1" "\<not> is_free demo_page PML4_PHYS"
  "fresh {demo_root} demo_page 0x102000" "user_page demo_page demo_root 0x401000 = None"
proof -
  obtain r v' where run: "vmm_map_user demo_root 0x400000 0x100000 demo_space = (r, v')" by fastforce
  have fl: "vmm_map_user_flags demo_root 0x400000 0x100000 PTE_USER_FLAGS demo_space = (r, v')"
    using run by (simp add: vmm_map_user_def)
  have ph: "aligned 0x100000" by (simp add: aligned_mod)
  have d: "demo_root \<in> {demo_root}" by simp
  have "4 + 3 \<le> card (free_frames (pm demo_space))" using demo_space_ok(3) by simp
  then have r: r and c: "4 \<le> card (free_frames (pm v'))"
    using map_user_flags_succeeds [OF spaces_okD(1) [OF demo_space_ok(1)] d demo_va(1,2) ph, of 4 PTE_USER_FLAGS] fl by auto
  have v': "v' = demo_page" using run by (simp add: demo_page_def)
  show "4 \<le> card (free_frames (pm demo_page))" using c v' by simp
  have upd: "pte_upd {demo_root} demo_space demo_page demo_root (va_place 0x400000) (pt_ix 0x400000) (0x100000 OR PTE_USER_FLAGS)"
    using map_user_flags_ok(2) [OF demo_space_ok(1) d demo_va(1) demo_space_ok(4)
        demo_unmapped [unfolded user_page_None] user_flags_ok fl] r v' by simp
  have "maps {demo_root} demo_space a = {}"
    using demo_space_ok(7) by (auto simp: maps_def)
  then have "maps {demo_root} demo_page a \<subseteq> {(demo_root, va_place 0x400000, pt_ix 0x400000)}"
    using maps_upd [OF upd, of a] by auto
  then show "card (maps {demo_root} demo_page a) \<le> 1" using card_mono [of "{(demo_root, va_place 0x400000, pt_ix 0x400000)}"] by simp
  note M = map_flags_trees [OF spaces_okD(1) [OF demo_space_ok(1)] d demo_va(1) ph user_flags_ok fl, unfolded v']
  have frd: "is_free demo_page x \<Longrightarrow> is_free demo_space x" for x by (rule M(4))
  have nd: "node demo_page demo_root q \<noteq> Some 0x102000" if "vpath q" for q
    using M(5) [OF d that, of "0x102000"] demo_space_ok(9) [OF that, of "0x102000"] demo_space_ok(8) [of "0x102000"] by auto
  have "maps {demo_root} demo_space 0x102000 = {}" using demo_space_ok(7) by (auto simp: maps_def)
  then have "maps {demo_root} demo_page 0x102000 = {}"
    using maps_upd [OF upd, of "0x102000"] user_flags_mapped [OF ph] by simp
  then show "fresh {demo_root} demo_page 0x102000"
    using nd frd [of "0x102000"] demo_space_ok(8) [of "0x102000"] by (auto simp: fresh_def aligned_mod)
  have ns: "\<not> same_page 0x401000 0x400000"
    by (simp add: same_page_def pt_ix_def)
  show "user_page demo_page demo_root 0x401000 = None"
    using pte_upd_page [OF upd d, of "0x401000"] ns demo_space_ok(2) [of "0x401000"]
    by (auto simp: pml4_ix_def)
  show "\<not> is_free demo_page PML4_PHYS" using frd demo_space_ok(5) by blast
  show "user_page demo_page demo_root 0x400000 = Some (0x100000, True, True)"
    using map_user_pages [OF demo_space_ok(1) d demo_va(1) demo_space_ok(4) demo_unmapped run d demo_va(1)] r v'
    by (simp add: same_page_def)
  show "spaces_ok {demo_root} demo_page"
    using map_user_flags_ok(1) [OF demo_space_ok(1) d demo_va(1) demo_space_ok(4)
        demo_unmapped [unfolded user_page_None] user_flags_ok fl] v' by simp
qed

text \<open>
  Unmapping a page: the call succeeds exactly on an aligned address with a mapped page; then
  that page is gone, every other page of every address space is as before, a frame that was
  mapped only there goes back to the allocator, and one that is mapped elsewhere does not. A
  call that fails changes nothing.
\<close>

theorem unmap_user_effect:
  assumes "spaces_ok S v" "R \<in> S" "pml4_ix va < 256" "vmm_unmap_user R va v = (r, v')"
  shows "spaces_ok S v' \<and> (r \<longleftrightarrow> aligned va \<and> user_page v R va \<noteq> None) \<and> (\<not> r \<longrightarrow> v' = v) \<and>
    (r \<longrightarrow> (\<forall>R' \<in> S. \<forall>wa. pml4_ix wa < 256 \<longrightarrow>
       user_page v' R' wa = (if R' = R \<and> same_page wa va then None else user_page v R' wa))) \<and>
    (\<forall>a. maps S v a \<noteq> {} \<longrightarrow> managed v a \<longrightarrow> (is_free v' a \<longleftrightarrow> maps S v' a = {}))"
proof -
  note U = unmap_user_ok [OF assms]
  have al: "r \<Longrightarrow> aligned va"
    using assms(4) by (auto simp: vmm_unmap_user_def aligned_4095 split: if_splits)
  have "user_page v' R' wa = (if R' = R \<and> same_page wa va then None else user_page v R' wa)"
    if "r" "R' \<in> S" "pml4_ix wa < 256" for R' wa
    using pte_upd_page [OF _ that(2,3), of v v' R va 0] U(2) that(1) by simp
  moreover have "is_free v' a \<longleftrightarrow> maps S v' a = {}" if "maps S v a \<noteq> {}" "managed v a" for a
    using spaces_okD(6) [OF U(1), of a] U(3) that by blast
  ultimately show ?thesis using U(1,2) al by (auto simp: user_page_None split: if_splits)
qed

theorem unmap_user_effect_witness:
  "\<exists>v'. vmm_unmap_user demo_root 0x400000 demo_page = (True, v') \<and> user_page v' demo_root 0x400000 = None"
proof -
  obtain r v' where run: "vmm_unmap_user demo_root 0x400000 demo_page = (r, v')" by fastforce
  note U = unmap_user_effect [OF demo_page_ok(1) _ demo_va(1) run]
  have r using U demo_va(2) demo_page_ok(2) by simp
  then show ?thesis using U run demo_va(1) by (simp add: same_page_def)
qed

lemma alloc_frame_some:
  assumes inv: "pmm_inv (pm v)" and ne: "free_frames (pm v) \<noteq> {}"
  shows "fst (alloc_frame v) \<noteq> 0"
proof -
  obtain p s where p: "pmm_alloc_above PAGE_2M (pm v) = (p, s)" by fastforce
  have "p = 0 \<Longrightarrow> s = pm v" using page_above.get_fail [OF inv, of PAGE_2M] p by auto
  then have "p = 0 \<Longrightarrow> alloc_frame v = alloc_page v" using p by (simp add: alloc_frame_def alloc_page_above_def)
  then show ?thesis using alloc_page_some [OF assms] p
    by (cases "p = 0") (simp_all add: alloc_frame_def alloc_page_above_def)
qed

text \<open>
  C5. Copy on write. A write fault of the running task (error bits present, write, user) is
  handled exactly when the page is mapped with the intended write permission and, if its frame
  is shared, there is memory for a copy. Afterwards the page is writable and backed by a frame
  that only this mapping uses, with the contents the page had; no other page of any address space
  changes, neither its mapping nor its contents.
\<close>

theorem write_fault_private_copy:
  assumes "spaces_ok S v" "cr3_reg v \<in> S" "pml4_ix va < 256" "vmm_handle_page_fault err va v = (r, v')"
  shows "spaces_ok S v' \<and> same_pages S v v' \<and> (\<not> r \<longrightarrow> v' = v) \<and>
    (err AND 7 = 7 \<longrightarrow> free_frames (pm v) \<noteq> {} \<longrightarrow> (\<exists>a w. user_page v (cr3_reg v) va = Some (a, w, True)) \<longrightarrow> r) \<and>
    (r \<longrightarrow> err AND 7 = 7 \<and> (\<exists>a w b. user_page v (cr3_reg v) va = Some (a, w, True) \<and>
       card (maps S v' b) = 1 \<and> (\<forall>j < 512. tab_get v' b j = tab_get v a j) \<and>
       (\<forall>R' \<in> S. \<forall>wa. pml4_ix wa < 256 \<longrightarrow> user_page v' R' wa =
          (if R' = cr3_reg v \<and> same_page wa va then Some (b, True, True) else user_page v R' wa))))"
proof (cases "err AND 7 = 7")
  case False
  then show ?thesis using assms by (auto simp: vmm_handle_page_fault_def same_pages_def)
next
  case True
  let ?R = "cr3_reg v" and ?e = "pte v (cr3_reg v) (va_place va) (pt_ix va)"
  have run: "vmm_cow_break ?R va v = (r, v')" using assms(4) True by (simp add: vmm_handle_page_fault_def)
  note C = cow_break_ok [OF assms(1-3) run]
  have inv: "pmm_inv (pm v)" by (rule trees_okD(2) [OF spaces_okD(1) [OF assms(1)] assms(2)])
  have up: "user_page v ?R va = Some (a, w, x) \<longleftrightarrow> mapped ?e \<and> a = ?e AND ADDR_MASK \<and> w = bit ?e 1 \<and> x = bit ?e 9" for a w x
    by (auto simp: user_page_def Let_def)
  show ?thesis
  proof (cases r)
    case r: False
    then show ?thesis using C alloc_frame_some [OF inv] True by (auto simp: up)
  next
    case r: True
    then obtain b where b: "mapped ?e" "bit ?e 9" "aligned b" "card (maps S v' b) = 1"
      "pte_upd S v v' ?R (va_place va) (pt_ix va) (b OR PTE_USER_FLAGS)"
      "\<forall>j < 512. tab_get v' b j = tab_get v (?e AND ADDR_MASK) j" using C by auto
    have "\<forall>R' \<in> S. \<forall>wa. pml4_ix wa < 256 \<longrightarrow> user_page v' R' wa =
          (if R' = ?R \<and> same_page wa va then Some (b, True, True) else user_page v R' wa)"
      using pte_upd_page [OF b(5)] user_flags_mapped [OF b(3)] user_flags_page [OF b(3)] by simp
    moreover have "user_page v ?R va = Some (?e AND ADDR_MASK, bit ?e 1, True)" using b by (simp add: up)
    ultimately show ?thesis using C r True b(4,6) by blast
  qed
qed

lemma spaces_ok_cr3 [simp]: "spaces_ok S (v\<lparr>cr3_reg := c\<rparr>) = spaces_ok S v"
  and user_page_cr3 [simp]: "user_page (v\<lparr>cr3_reg := c\<rparr>) R va = user_page v R va"
proof -
  have n: "node (v\<lparr>cr3_reg := c\<rparr>) R p = node v R p" for R p
    by (induction p) (simp_all add: next_table_def cong: option.case_cong)
  have p: "pte (v\<lparr>cr3_reg := c\<rparr>) R p i = pte v R p i" for R p i by (simp add: pte_def n cong: option.case_cong)
  have f: "is_free (v\<lparr>cr3_reg := c\<rparr>) a = is_free v a" for a by (simp add: is_free_def)
  have m: "maps S (v\<lparr>cr3_reg := c\<rparr>) a = maps S v a" for a by (simp add: maps_def p)
  show "spaces_ok S (v\<lparr>cr3_reg := c\<rparr>) = spaces_ok S v"
    by (simp add: spaces_ok_def trees_ok_def frames_ok_def n p f m)
  show "user_page (v\<lparr>cr3_reg := c\<rparr>) R va = user_page v R va" by (simp add: user_page_def p)
qed

theorem write_fault_private_copy_witness:
  "\<exists>v' b. vmm_handle_page_fault 7 0x400123 (demo_page\<lparr>cr3_reg := demo_root\<rparr>) = (True, v') \<and>
     user_page v' demo_root 0x400000 = Some (b, True, True) \<and> card (maps {demo_root} v' b) = 1"
proof -
  let ?v = "demo_page\<lparr>cr3_reg := demo_root\<rparr>"
  obtain r v' where run: "vmm_handle_page_fault 7 0x400123 ?v = (r, v')" by fastforce
  have ok: "spaces_ok {demo_root} ?v" "cr3_reg ?v \<in> {demo_root}" using demo_page_ok(1) by simp_all
  have same: "same_page 0x400000 0x400123"
    by (simp add: same_page_def va_place_def pml4_ix_def pdpt_ix_def pd_ix_def pt_ix_def)
  then have "user_page demo_page demo_root 0x400123 = Some (0x100000, True, True)"
    using demo_page_ok(2) by (simp add: user_page_def same_page_def)
  note W = write_fault_private_copy [OF ok demo_va(3) run] and this
  moreover have "free_frames (pm ?v) \<noteq> {}" using demo_page_ok(3) by auto
  ultimately have r by auto
  then show ?thesis using W run same demo_va(1) by auto
qed

text \<open>
  C4. Fork. Copying an address space into a new, empty one: it succeeds whenever three frames are free
  and an entry of the copy-on-write table is empty for every page of the parent. On success parent and
  child have the same pages on the same frames, none of them writable now, and a page may be written after
  a copy-on-write fault exactly if the parent's page could; no page's contents and no other
  address space changes. When it fails half way, every page is either as before the call or
  already shared in this way, and the invariant of the address spaces holds.
\<close>

theorem copy_user_shares:
  assumes "spaces_ok S v" "R \<in> S" "D \<in> S" "R \<noteq> D" "\<forall>p i. leaf_place p i \<longrightarrow> pte v D p i = 0"
    and "\<forall>a. card (maps S v a) < 2 ^ 31" "vmm_copy_user D R v = (r, v')"
  shows "spaces_ok S v' \<and> same_pages S v v' \<and>
    (3 * card (page_set v R) \<le> card (free_frames (pm v)) \<and> card (page_set v R) \<le> empties (cow_tab v) \<longrightarrow> r) \<and>
    (\<forall>R' \<in> S - {R, D}. \<forall>va. pml4_ix va < 256 \<longrightarrow> user_page v' R' va = user_page v R' va) \<and>
    (\<forall>va. pml4_ix va < 256 \<longrightarrow>
       (let shared = map_option (\<lambda>(a, w, x). (a, False, w \<or> x)) (user_page v R va) in
        (user_page v' R va = shared \<and> user_page v' D va = shared) \<or>
        (\<not> r \<and> user_page v' R va = user_page v R va \<and> user_page v' D va = None)))"
proof -
  obtain P where P: "copied S R D v v' P" "r \<longrightarrow> (\<forall>p i. leaf_place p i \<longrightarrow> (p, i) \<in> P)"
    using copy_user_ok [OF assms] by blast
  have "user_page v' R' va = user_page v R' va" if "R' \<in> S - {R, D}" "pml4_ix va < 256" for R' va
    using page_cong [OF _ that(2)] P(1) that(1) by (auto simp: copied_def)
  moreover have "let shared = map_option (\<lambda>(a, w, x). (a, False, w \<or> x)) (user_page v R va) in
        (user_page v' R va = shared \<and> user_page v' D va = shared) \<or>
        (\<not> r \<and> user_page v' R va = user_page v R va \<and> user_page v' D va = None)" if "pml4_ix va < 256" for va
  proof -
    let ?p = "va_place va" and ?i = "pt_ix va"
    have lp: "leaf_place ?p ?i" by (rule leaf_place_va [OF that])
    define e where "e = pte v R ?p ?i"
    have C: "pte v' R ?p ?i = (if (?p, ?i) \<in> P then sh e else e)" "pte v' D ?p ?i = (if (?p, ?i) \<in> P then sh e else 0)"
      using P(1) lp by (auto simp: copied_def e_def)
    have S: "(if mapped (sh e) then Some (sh e AND ADDR_MASK, bit (sh e) 1, bit (sh e) 9) else None) =
        map_option (\<lambda>(a, w, x). (a, False, w \<or> x)) (user_page v R va)"
      using shared_entry_mapped [of e] by (simp add: user_page_def sh_def Let_def flip: e_def)
    show ?thesis
    proof (cases "(?p, ?i) \<in> P")
      case True
      then have "user_page v' R va = (if mapped (sh e) then Some (sh e AND ADDR_MASK, bit (sh e) 1, bit (sh e) 9) else None)"
        "user_page v' D va = (if mapped (sh e) then Some (sh e AND ADDR_MASK, bit (sh e) 1, bit (sh e) 9) else None)"
        using C by (simp_all add: user_page_def Let_def)
      then show ?thesis unfolding S by simp
    next
      case False
      then have "user_page v' R va = user_page v R va" "user_page v' D va = None" "\<not> r"
        using C P(2) lp by (auto simp: user_page_def e_def)
      then show ?thesis by simp
    qed
  qed
  ultimately show ?thesis using P(1) copy_user_succeeds [OF assms] by (simp add: copied_def)
qed

lemma clone_cow: "vmm_clone_pml4 v = (R, v') \<Longrightarrow> cow_tab v' = cow_tab v"
proof -
  assume run: "vmm_clone_pml4 v = (R, v')"
  have sel: "cow_tab (for_idx m (\<lambda>i v. tab_set c i (g i v) v) w) = cow_tab w" for c m g w by (induction m) (simp_all add: for_idx_def)
  obtain b v1 where al: "alloc_page v = (b, v1)" by fastforce
  have "cow_tab v1 = cow_tab v" using al by (auto simp: alloc_page_def pmm_alloc_def Let_def split: prod.splits)
  then show ?thesis using run al by (auto simp: vmm_clone_pml4_def sel split: if_splits)
qed

lemma demo_page_more: "page_set demo_page demo_root = {(va_place 0x400000, pt_ix 0x400000)}" "cow_tab demo_page = cow_demo"
proof -
  obtain r v' where run: "vmm_map_user demo_root 0x400000 0x100000 demo_space = (r, v')" by fastforce
  have fl: "vmm_map_user_flags demo_root 0x400000 0x100000 PTE_USER_FLAGS demo_space = (r, v')" using run by (simp add: vmm_map_user_def)
  have ph: "aligned 0x100000" by (simp add: aligned_mod)
  have v': "v' = demo_page" using run by (simp add: demo_page_def)
  note M = map_flags_trees [OF spaces_okD(1) [OF demo_space_ok(1)] singletonI demo_va(1) ph user_flags_ok fl, unfolded v']
  have up: "mapped (pte demo_page demo_root (va_place 0x400000) (pt_ix 0x400000))" using demo_page_ok(2) by (auto simp: user_page_def Let_def split: if_splits)
  have z: "pte demo_page demo_root p i = 0" if "leaf_place p i" "(p, i) \<noteq> (va_place 0x400000, pt_ix 0x400000)" for p i
    using M(7) [OF singletonI that(1)] demo_space_ok(7) [OF that(1)] that(2) by auto
  have "(p, i) = (va_place 0x400000, pt_ix 0x400000)" if "leaf_place p i" "mapped (pte demo_page demo_root p i)" for p i
    using z [OF that(1)] that(2) by (cases "(p, i) = (va_place 0x400000, pt_ix 0x400000)") (auto simp: mapped_def present_def)
  then show "page_set demo_page demo_root = {(va_place 0x400000, pt_ix 0x400000)}"
    using up leaf_place_va [OF demo_va(1)] unfolding page_set_def by blast
  have "cow_tab demo_space = cow_tab vmm_demo" using clone_cow demo_space_ok(6) by simp
  then show "cow_tab demo_page = cow_demo" using M(2) by (simp add: vmm_demo_def)
qed

definition demo_child :: u64 where "demo_child = fst (vmm_clone_pml4 demo_page)"
definition demo_fork :: vmm where "demo_fork = snd (vmm_clone_pml4 demo_page)"

theorem copy_user_shares_witness:
  "\<exists>v'. vmm_copy_user demo_child demo_root demo_fork = (True, v') \<and>
     user_page demo_fork demo_root 0x400000 = Some (0x100000, True, True) \<and>
     user_page v' demo_child 0x400000 = Some (0x100000, False, True) \<and>
     user_page v' demo_root 0x400000 = Some (0x100000, False, True)"
proof -
  have run: "vmm_clone_pml4 demo_page = (demo_child, demo_fork)" by (simp add: demo_child_def demo_fork_def)
  note tr = spaces_okD(1) [OF demo_page_ok(1)]
  have inv: "pmm_inv (pm demo_page)" "hhdm_ready demo_page" using trees_okD(1,2) [OF tr] by auto
  have nz: "demo_child \<noteq> 0" "3 \<le> card (free_frames (pm demo_fork))"
    by (rule clone_frames [OF inv run, of 3]; use demo_page_ok(3) in simp)+
  note K = clone_pml4_ok [OF demo_page_ok(1) inv(2,1) demo_page_ok(5) run nz(1)]
  have m: "maps {demo_child, demo_root} demo_fork a = maps {demo_root} demo_page a" for a
    using K by (auto simp: maps_def)
  have c: "\<forall>a. card (maps {demo_child, demo_root} demo_fork a) < 2 ^ 31" unfolding m
  proof
    show "card (maps {demo_root} demo_page a) < 2 ^ 31" for a
      by (rule order.strict_trans1 [OF demo_page_ok(4)]) simp
  qed
  obtain r v' where cp: "vmm_copy_user demo_child demo_root demo_fork = (r, v')" by fastforce
  have p: "user_page demo_fork demo_root 0x400000 = Some (0x100000, True, True)"
    using page_cong [OF _ demo_va(1), of demo_fork demo_root demo_page] K demo_page_ok(2) by simp
  have "page_set demo_fork demo_root = page_set demo_page demo_root" using K by (auto simp: page_set_def)
  then have one: "card (page_set demo_fork demo_root) = 1" by (simp add: demo_page_more)
  have "{i. i < length cow_demo \<and> snd (cow_demo ! i) = 0} = {..<256}" by (auto simp: cow_demo_def)
  then have slots: "empties (cow_tab demo_fork) = 256" by (simp add: clone_cow [OF run] demo_page_more(2) empties_def)
  have H: "spaces_ok {demo_child, demo_root} demo_fork" "demo_root \<in> {demo_child, demo_root}" "demo_child \<in> {demo_child, demo_root}"
    "demo_root \<noteq> demo_child" "\<forall>p i. leaf_place p i \<longrightarrow> pte demo_fork demo_child p i = 0" using K by auto
  note T = copy_user_shares [OF H c cp]
  have r: r by (rule T [THEN conjunct2, THEN conjunct2, THEN conjunct1, THEN mp]) (use one slots nz(2) in simp)
  show ?thesis using T [THEN conjunct2, THEN conjunct2, THEN conjunct2, THEN conjunct2, rule_format, OF demo_va(1)] r cp p by (simp add: Let_def)
qed

text \<open>
  C28. Teardown. After \<open>vmm_teardown_user\<close> the address space has no user page and no table of its
  own but the root, every other address space is as before, no free frame is lost, and every
  frame that was in use and is not in use any more, as a table or a page, has been given back.
\<close>

theorem teardown_user_effect:
  assumes "spaces_ok S v" "R \<in> S" "v' = vmm_teardown_user R v"
  shows "spaces_ok S v' \<and> (\<forall>i < 256. tab_get v' R i = 0) \<and>
    (\<forall>R' \<in> S. \<forall>va. pml4_ix va < 256 \<longrightarrow> user_page v' R' va = (if R' = R then None else user_page v R' va)) \<and>
    (\<forall>x. is_free v x \<longrightarrow> is_free v' x) \<and>
    (\<forall>x. used S v x \<longrightarrow> managed v x \<longrightarrow> (is_free v' x \<longleftrightarrow> \<not> used S v' x))"
proof -
  note T = teardown_user_ok [OF assms(1,2), folded assms(3)]
  have ok': "spaces_ok S v'" using T(1) by (simp add: torn_def)
  have "\<not> is_free v' x" if x: "used S v' x" for x
    using x spaces_okD(6) [OF ok', of x] trees_okD(6) [OF spaces_okD(1) [OF ok']] unfolding used_def by blast
  moreover have "user_page v' R' va = (if R' = R then None else user_page v R' va)"
    if "R' \<in> S" "pml4_ix va < 256" for R' va
    using T(3) T(4) [OF that(1)] leaf_place_va [OF that(2)] page_cong [OF _ that(2), of v' R' v]
    by (auto simp: user_page_None)
  ultimately show ?thesis using T(1,2) ok' unfolding torn_def by blast
qed

theorem teardown_user_effect_witness:
  "user_page demo_page demo_root 0x400000 = Some (0x100000, True, True) \<and>
   user_page (vmm_teardown_user demo_root demo_page) demo_root 0x400000 = None"
  using teardown_user_effect [OF demo_page_ok(1) _ refl, of demo_root] demo_page_ok(2) demo_va(1) by simp

end
