(* ===== verification/Isolation.thy ===== *)
theory Isolation
  imports Address_Space
begin

text \<open>
  The address spaces as a machine: the kernel allocates and frees pages, creates, fills, forks and
  destroys address spaces and handles write faults, in any order. In every state it can reach, a
  page that an address space can write is on a frame that no other page shares.
\<close>

section \<open>Allocation and destruction\<close>

lemma pm_sel [simp]:
  "node (v\<lparr>pm := s\<rparr>) R p = node v R p" "pte (v\<lparr>pm := s\<rparr>) R p i = pte v R p i" "maps S (v\<lparr>pm := s\<rparr>) a = maps S v a"
proof -
  show n: "node (v\<lparr>pm := s\<rparr>) R p = node v R p" for R p
    by (induction p) (simp_all add: next_table_def cong: option.case_cong)
  show p: "pte (v\<lparr>pm := s\<rparr>) R p i = pte v R p i" for R p i by (simp add: pte_def n cong: option.case_cong)
  show "maps S (v\<lparr>pm := s\<rparr>) a = maps S v a" by (simp add: maps_def p)
qed

lemma used_not_free: "spaces_ok S v \<Longrightarrow> used S v x \<Longrightarrow> \<not> is_free v x \<and> aligned x"
  using spaces_okD(1,6) trees_okD(6) maps_aligned unfolding used_def by metis

lemma spaces_ok_pm:
  assumes ok: "spaces_ok S v" and inv: "pmm_inv s" and u: "\<And>x. used S v x \<Longrightarrow> \<not> is_free (v\<lparr>pm := s\<rparr>) x"
  shows "spaces_ok S (v\<lparr>pm := s\<rparr>)"
proof -
  let ?v = "v\<lparr>pm := s\<rparr>"
  have nf: "\<not> is_free ?v t" if "R \<in> S" "vpath p" "node v R p = Some t" for R p t
    using u that unfolding used_def by blast
  have mf: "\<not> is_free ?v a" if "maps S v a \<noteq> {}" for a using u that unfolding used_def by blast
  have "trees_ok S ?v" using spaces_okD(1) [OF ok] inv nf unfolding trees_ok_def by simp
  moreover have "frames_ok S ?v" using spaces_okD(2) [OF ok] mf unfolding frames_ok_def by simp
  ultimately show ?thesis by (simp add: spaces_ok_def)
qed

lemma alloc_spaces_ok:
  assumes ok: "spaces_ok S v" and inv: "pmm_inv (pm v)" and run: "alloc_page v = (p, v') \<or> alloc_page_above m v = (p, v')"
  shows "spaces_ok S v'" "maps S v' a = maps S v a" "R \<in> S \<Longrightarrow> pte v' R q i = pte v R q i" "pmm_inv (pm v')"
proof -
  obtain s where s: "v' = v\<lparr>pm := s\<rparr>" "pmm_alloc (pm v) = (p, s) \<or> pmm_alloc_above m (pm v) = (p, s)"
    using run by (auto simp: alloc_page_def alloc_page_above_def split: prod.splits)
  have sub: "free_frames s \<subseteq> free_frames (pm v)" "pmm_inv s"
    using s(2) any_page.avail_shrinks [OF inv] page_above.avail_shrinks [OF inv]
      any_page.get_inv [OF inv] page_above.get_inv [OF inv] by blast+
  show "spaces_ok S v'" unfolding s(1)
    by (rule spaces_ok_pm [OF ok sub(2)]) (use used_not_free [OF ok] sub(1) in \<open>auto simp: is_free_def\<close>)
  show "maps S v' a = maps S v a" "pte v' R q i = pte v R q i" "pmm_inv (pm v')" using sub by (simp_all add: s(1))
qed

lemma free_spaces_ok:
  assumes ok: "spaces_ok S v" and inv: "pmm_inv (pm v)" and p: "fresh S v p"
  shows "spaces_ok S (free_page p v)" "maps S (free_page p v) a = maps S v a" "pmm_inv (pm (free_page p v))"
    "pte (free_page p v) R q i = pte v R q i"
proof -
  note F = free_page_spec [OF inv]
  show "spaces_ok S (free_page p v)" unfolding free_page_def
  proof (rule spaces_ok_pm [OF ok])
    show "pmm_inv (pmm_free p (pm v))" using F(1) [of p] by (simp add: free_page_def)
    fix x assume x: "used S v x"
    then have "x \<noteq> p" using p unfolding used_def fresh_def by blast
    moreover have "aligned x" "\<not> is_free v x" using used_not_free [OF ok x] by auto
    ultimately show "\<not> is_free (v\<lparr>pm := pmm_free p (pm v)\<rparr>) x"
      using F(2) [of p x] aligned_frame_inj [of x p] p by (auto simp: free_page_def fresh_def)
  qed
  show "maps S (free_page p v) a = maps S v a" "pte (free_page p v) R q i = pte v R q i" by (simp_all add: free_page_def)
  show "pmm_inv (pm (free_page p v))" by (rule F(1))
qed

text \<open>Giving back the root of an address space that holds nothing any more.\<close>

lemma destroy_spaces_ok:
  assumes ok: "spaces_ok S v" and R: "R \<in> S" and z: "\<forall>i < 256. tab_get v R i = 0"
  shows "spaces_ok (S - {R}) (free_page R v)" "maps (S - {R}) (free_page R v) a = maps S v a"
    "R' \<in> S \<Longrightarrow> pte (free_page R v) R' q i = pte v R' q i"
proof -
  note tr = spaces_okD(1) [OF ok]
  have inv: "pmm_inv (pm v)" by (rule trees_okD(2) [OF tr R])
  have N: "node v R q = None" if "vpath q" "q \<noteq> []" for q
    using that
  proof (induction q)
    case (Cons i q)
    then show ?case using z by (cases "q = []") (simp_all add: vpath_Cons next_table_def)
  qed simp
  have P: "leaf_place q j \<Longrightarrow> pte v R q j = 0" for q j using N [of q] by (cases q) (auto simp: pte_def leaf_place_def)
  then have m: "maps (S - {R}) v a = maps S v a" for a by (auto simp: maps_def)
  have "trees_ok (S - {R}) v" using tr unfolding trees_ok_def by (simp add: Ball_def) blast
  moreover have "frames_ok (S - {R}) v" using spaces_okD(2) [OF ok] unfolding frames_ok_def m by simp
  ultimately have ok1: "spaces_ok (S - {R}) v" by (simp add: spaces_ok_def)
  have "fresh (S - {R}) v R"
    unfolding fresh_def m
  proof (intro conjI ballI allI impI)
    have n: "node v R [] = Some R" by simp
    show "aligned R" "\<not> is_free v R" using trees_okD(6) [OF tr R vpath_Nil n] by auto
    show "maps S v R = {}" using spaces_okD(7) [OF ok _ R vpath_Nil, of R] by auto
    show "node v R' q \<noteq> Some R" if "R' \<in> S - {R}" "vpath q" for R' q
      using trees_okD(7) [OF tr _ R that(2) vpath_Nil _ n, of R'] that(1) by auto
  qed
  note F = free_spaces_ok [OF ok1 inv this]
  show "spaces_ok (S - {R}) (free_page R v)" "maps (S - {R}) (free_page R v) a = maps S v a"
    "pte (free_page R v) R' q i = pte v R' q i" using F m by simp_all
qed

section \<open>Exclusive writers\<close>

definition exclusive :: "u64 set \<Rightarrow> vmm \<Rightarrow> bool" where
  "exclusive S v \<longleftrightarrow> (\<forall>R \<in> S. \<forall>p i. leaf_place p i \<longrightarrow> mapped (pte v R p i) \<longrightarrow> bit (pte v R p i) 1 \<longrightarrow>
     card (maps S v (pte v R p i AND ADDR_MASK)) = 1)"

lemma exclusive_cong:
  assumes "exclusive S v" "\<And>a. maps S' v' a = maps S v a"
    and "\<And>R p i. R \<in> S' \<Longrightarrow> leaf_place p i \<Longrightarrow> mapped (pte v' R p i) \<Longrightarrow> R \<in> S \<and> pte v' R p i = pte v R p i"
  shows "exclusive S' v'"
  using assms unfolding exclusive_def by metis

lemma exclusive_only:
  assumes "exclusive S v" "R \<in> S" "leaf_place p i" "mapped (pte v R p i)" "bit (pte v R p i) 1"
  shows "maps S v (pte v R p i AND ADDR_MASK) = {(R, p, i)}"
proof -
  have "card (maps S v (pte v R p i AND ADDR_MASK)) = 1" using assms unfolding exclusive_def by blast
  then obtain x where "maps S v (pte v R p i AND ADDR_MASK) = {x}" by (auto simp: card_1_singleton_iff)
  moreover have "(R, p, i) \<in> maps S v (pte v R p i AND ADDR_MASK)" using assms by (simp add: maps_here)
  ultimately show ?thesis by auto
qed

text \<open>One leaf changes: it keeps its frame, or its new frame is used by nobody else.\<close>

lemma exclusive_upd:
  assumes ex: "exclusive S v" and u: "pte_upd S v v' R p i e"
    and e: "mapped e \<Longrightarrow> bit e 1 \<Longrightarrow> card (maps S v' (e AND ADDR_MASK)) = 1"
      "mapped e \<Longrightarrow> (mapped (pte v R p i) \<and> pte v R p i AND ADDR_MASK = e AND ADDR_MASK) \<or> card (maps S v' (e AND ADDR_MASK)) = 1"
  shows "exclusive S v'"
  unfolding exclusive_def
proof (intro ballI allI impI)
  have Rp: "R \<in> S" "leaf_place p i" using u by (auto simp: pte_upd_def)
  fix R' q j assume q: "R' \<in> S" "leaf_place q j" "mapped (pte v' R' q j)" "bit (pte v' R' q j) 1"
  show "card (maps S v' (pte v' R' q j AND ADDR_MASK)) = 1"
  proof (cases "(R', q, j) = (R, p, i)")
    case True
    then have "pte v' R' q j = e" using u q by (auto simp: pte_upd_def)
    then show ?thesis using e(1) q by simp
  next
    case False
    then have same: "pte v' R' q j = pte v R' q j" using u q by (auto simp: pte_upd_def)
    define a where "a = pte v R' q j AND ADDR_MASK"
    have o: "maps S v a = {(R', q, j)}" using exclusive_only [OF ex q(1,2)] q(3,4) same by (simp add: a_def)
    have M: "maps S v' a = maps S v a - {(R, p, i)} \<union> (if mapped e \<and> e AND ADDR_MASK = a then {(R, p, i)} else {})"
      by (rule maps_upd [OF u])
    have "\<not> (mapped e \<and> e AND ADDR_MASK = a) \<or> card (maps S v' a) = 1"
    proof (rule ccontr)
      assume n: "\<not> (\<not> (mapped e \<and> e AND ADDR_MASK = a) \<or> card (maps S v' a) = 1)"
      then have "mapped (pte v R p i)" "pte v R p i AND ADDR_MASK = a" using e(2) by auto
      then have "(R, p, i) \<in> maps S v a" using Rp by (simp add: maps_here)
      then show False using o False by simp
    qed
    then show ?thesis using M o False by (auto simp: same a_def [symmetric])
  qed
qed

lemma exclusive_shrink:
  assumes ex: "exclusive S v"
    and P: "\<And>R p i. R \<in> S \<Longrightarrow> leaf_place p i \<Longrightarrow> pte v' R p i = pte v R p i \<or> pte v' R p i = 0"
  shows "exclusive S v'"
  unfolding exclusive_def
proof (intro ballI allI impI)
  fix R p i assume q: "R \<in> S" "leaf_place p i" "mapped (pte v' R p i)" "bit (pte v' R p i) 1"
  have same: "pte v' R p i = pte v R p i" using P [OF q(1,2)] q(3) by auto
  define a where "a = pte v R p i AND ADDR_MASK"
  have "maps S v a = {(R, p, i)}" using exclusive_only [OF ex q(1,2)] q(3,4) same by (simp add: a_def)
  moreover have "maps S v' a \<subseteq> maps S v a" using P by (force simp: maps_def)
  moreover have "(R, p, i) \<in> maps S v' a" using q same by (simp add: maps_here a_def)
  ultimately have "maps S v' a = {(R, p, i)}" by auto
  then show "card (maps S v' (pte v' R p i AND ADDR_MASK)) = 1" by (simp add: same a_def [symmetric])
qed

lemma exclusive_copied:
  assumes ex: "exclusive S v" and c: "copied S R D v v' P" and R: "R \<in> S" "D \<in> S" "R \<noteq> D"
    and D0: "\<forall>p i. leaf_place p i \<longrightarrow> pte v D p i = 0"
  shows "exclusive S v'"
  unfolding exclusive_def
proof (intro ballI allI impI)
  have ro: "\<not> bit (sh e) 1" for e using shared_entry_mapped(3) [of e] by (simp add: sh_def)
  have sm: "mapped (sh e) \<Longrightarrow> mapped e \<and> sh e AND ADDR_MASK = e AND ADDR_MASK" for e
    using shared_entry_mapped(2) [of e] by (simp add: sh_def split: if_splits)
  have cR: "pte v' R p i = (if (p, i) \<in> P then sh (pte v R p i) else pte v R p i)"
    "pte v' D p i = (if (p, i) \<in> P then sh (pte v R p i) else 0)" if "leaf_place p i" for p i
    using c that by (auto simp: copied_def)
  have cO: "pte v' R' p i = pte v R' p i" if "R' \<in> S" "R' \<noteq> R" "R' \<noteq> D" "leaf_place p i" for R' p i
    using c that by (auto simp: copied_def)
  fix R' q j assume q: "R' \<in> S" "leaf_place q j" "mapped (pte v' R' q j)" "bit (pte v' R' q j) 1"
  have RD: "R' \<noteq> D" using q cR(2) [OF q(2)] ro by (auto split: if_splits)
  have nP: "R' = R \<Longrightarrow> (q, j) \<notin> P" using q cR(1) [OF q(2)] ro by (auto split: if_splits)
  have same: "pte v' R' q j = pte v R' q j"
    using cR(1) [OF q(2)] cO [OF q(1) _ RD q(2)] nP by (cases "R' = R") auto
  define a where "a = pte v R' q j AND ADDR_MASK"
  have o: "maps S v a = {(R', q, j)}" using exclusive_only [OF ex q(1,2)] q(3,4) same by (simp add: a_def)
  have "x = (R', q, j)" if "x \<in> maps S v' a" for x
  proof -
    obtain R2 p i where x: "x = (R2, p, i)" "R2 \<in> S" "leaf_place p i" "mapped (pte v' R2 p i)"
      "pte v' R2 p i AND ADDR_MASK = a" using \<open>x \<in> maps S v' a\<close> by (auto simp: maps_def)
    consider "R2 = D" | "R2 = R" | "R2 \<noteq> R" "R2 \<noteq> D" by blast
    then show ?thesis
    proof cases
      case 1
      then have pP: "(p, i) \<in> P" "mapped (pte v R p i)" "pte v R p i AND ADDR_MASK = a"
        using x cR(2) [OF x(3)] sm by (auto split: if_splits)
      then have "(R, p, i) \<in> maps S v a" using R x(3) by (simp add: maps_here)
      then show ?thesis using o nP pP(1) by simp
    next
      case 2
      then have "(R, p, i) \<in> maps S v a"
        using x cR(1) [OF x(3)] sm [of "pte v R p i"] R by (auto simp: maps_here split: if_splits)
      then show ?thesis using o x(1) 2 by simp
    next
      case 3
      then have "(R2, p, i) \<in> maps S v a" using x cO [OF x(2) 3 x(3)] by (simp add: maps_here)
      then show ?thesis using o x(1) by simp
    qed
  qed
  moreover have "(R', q, j) \<in> maps S v' a" using q same by (simp add: maps_here a_def)
  ultimately have "maps S v' a = {(R', q, j)}" by blast
  then show "card (maps S v' (pte v' R' q j AND ADDR_MASK)) = 1" by (simp add: same a_def [symmetric])
qed

text \<open>A store to a page that is no table changes no table.\<close>

lemma write_ok:
  assumes ok: "spaces_ok S v" and al: "aligned a" and nt: "\<forall>R \<in> S. \<forall>p. vpath p \<longrightarrow> node v R p \<noteq> Some a" and i: "i < 512"
  shows "spaces_ok S (tab_set a i w v)" "R \<in> S \<Longrightarrow> leaf_place p j \<Longrightarrow> pte (tab_set a i w v) R p j = pte v R p j"
    "maps S (tab_set a i w v) b = maps S v b" "R \<in> S \<Longrightarrow> vpath p \<Longrightarrow> node (tab_set a i w v) R p = node v R p"
proof -
  note tr = spaces_okD(1) [OF ok]
  let ?v = "tab_set a i w v"
  have mem: "tab_get ?v t j = tab_get v t j" if "R \<in> S" "vpath p" "node v R p = Some t" "j < 512" for R p t j
    using tab_get_set [OF al _ i that(4)] trees_okD(6) [OF tr that(1-3)] nt that by auto
  show n: "node ?v R q = node v R q" if "R \<in> S" "vpath q" for R q
    by (rule node_cong [OF _ that(2)]) (use mem that(1) in \<open>auto simp: vpath_Cons\<close>)
  show P: "pte ?v R p j = pte v R p j" if "R \<in> S" "leaf_place p j" for R p j
    using that n [OF that(1)] mem [OF that(1)] by (auto simp: pte_def leaf_place_def split: option.splits)
  show m: "maps S ?v b = maps S v b" for b using P by (auto simp: maps_def)
  have f: "is_free ?v x = is_free v x" for x by (simp add: is_free_def)
  have "trees_ok S ?v"
    unfolding trees_ok_def
  proof (intro conjI ballI allI impI)
    show "hhdm_ready ?v" "pmm_inv (pm ?v)" "finite S" using tr by (simp_all add: trees_ok_def)
    fix R assume R: "R \<in> S"
    show "aligned R" "R \<noteq> 0" "R \<noteq> PML4_PHYS" using trees_okD(3-5) [OF tr R] by auto
    { fix p t assume "vpath p" "node ?v R p = Some t"
      then show "t \<noteq> 0" "\<not> is_free ?v t" using n [OF R] trees_okD(6) [OF tr R, of p t] f by auto }
    { fix R' p q t assume b: "R' \<in> S" "vpath p" "vpath q" "node ?v R p = Some t" "node ?v R' q = Some t"
      then have "R = R' \<and> p = q" using n [OF R b(2)] n [OF b(1,3)] trees_okD(7) [OF tr R b(1-3)] by auto
      then show "R = R'" "p = q" by auto }
    { fix p t j assume b: "vpath (j # p)" "node ?v R p = Some t"
      then have "node v R p = Some t" "vpath p" "j < 512" using n [OF R, of p] by (auto simp: vpath_Cons)
      then show "tab_get ?v t j = 0 \<or> user_table_entry (tab_get ?v t j)"
        using mem [OF R] trees_okD(8) [OF tr R b(1)] by simp }
    { fix p j assume "leaf_place p j"
      then show "pte ?v R p j = 0 \<or> mapped (pte ?v R p j)" using P [OF R] trees_okD(9) [OF tr R] by simp }
  qed
  moreover have "frames_ok S ?v"
    using spaces_okD(2) [OF ok] n unfolding frames_ok_def m f by simp
  ultimately show "spaces_ok S ?v" by (simp add: spaces_ok_def)
qed

lemma store_ok:
  assumes ok: "spaces_ok S v" and a: "maps S v a \<noteq> {}" and i: "i < 512"
  shows "spaces_ok S (tab_set a i w v)" "R \<in> S \<Longrightarrow> leaf_place p j \<Longrightarrow> pte (tab_set a i w v) R p j = pte v R p j"
    "maps S (tab_set a i w v) b = maps S v b"
  using write_ok [OF ok maps_aligned [OF a] _ i] spaces_okD(7) [OF ok a] by blast+

section \<open>The machine\<close>

text \<open>
  A state is the set of roots and the memory. \<open>release\<close> gives back a page that no address space
  uses; \<open>clone\<close> relies on the boot tables not being free memory; \<open>store\<close> is a write of a word
  of a page that the tables let its task write, and \<open>fill\<close> the kernel's write to a page it has
  allocated and that no address space uses yet.
\<close>

inductive vm_step :: "u64 set \<times> vmm \<Rightarrow> u64 set \<times> vmm \<Rightarrow> bool" where
  alloc: "alloc_page v = (p, v') \<Longrightarrow> vm_step (S, v) (S, v')"
| alloc_above: "alloc_page_above m v = (p, v') \<Longrightarrow> vm_step (S, v) (S, v')"
| release: "fresh S v p \<Longrightarrow> vm_step (S, v) (S, free_page p v)"
| clone: "vmm_clone_pml4 v = (R, v') \<Longrightarrow> R \<noteq> 0 \<Longrightarrow> \<not> is_free v PML4_PHYS \<Longrightarrow> vm_step (S, v) (insert R S, v')"
| map: "R \<in> S \<Longrightarrow> pml4_ix va < 256 \<Longrightarrow> fresh S v phys \<Longrightarrow> user_page v R va = None \<Longrightarrow>
    vmm_map_user R va phys v = (r, v') \<Longrightarrow> vm_step (S, v) (S, v')"
| unmap: "R \<in> S \<Longrightarrow> pml4_ix va < 256 \<Longrightarrow> vmm_unmap_user R va v = (r, v') \<Longrightarrow> vm_step (S, v) (S, v')"
| protect: "R \<in> S \<Longrightarrow> pml4_ix va < 256 \<Longrightarrow> cr3_reg v \<noteq> 0 \<Longrightarrow> vmm_protect_user R va wr v = (r, v') \<Longrightarrow>
    vm_step (S, v) (S, v')"
| fault: "cr3_reg v \<in> S \<Longrightarrow> pml4_ix va < 256 \<Longrightarrow> vmm_handle_page_fault err va v = (r, v') \<Longrightarrow> vm_step (S, v) (S, v')"
| cow_break: "R \<in> S \<Longrightarrow> pml4_ix va < 256 \<Longrightarrow> vmm_cow_break R va v = (r, v') \<Longrightarrow> vm_step (S, v) (S, v')"
| fill: "fresh S v p \<Longrightarrow> i < 512 \<Longrightarrow> vm_step (S, v) (S, tab_set p i w v)"
| fork: "R \<in> S \<Longrightarrow> D \<in> S \<Longrightarrow> R \<noteq> D \<Longrightarrow> \<forall>p i. leaf_place p i \<longrightarrow> pte v D p i = 0 \<Longrightarrow>
    \<forall>a. card (maps S v a) < 2 ^ 31 \<Longrightarrow> vmm_copy_user D R v = (r, v') \<Longrightarrow> vm_step (S, v) (S, v')"
| teardown: "R \<in> S \<Longrightarrow> vm_step (S, v) (S, vmm_teardown_user R v)"
| destroy: "R \<in> S \<Longrightarrow> \<forall>i < 256. tab_get v R i = 0 \<Longrightarrow> vm_step (S, v) (S - {R}, free_page R v)"
| switch: "vm_step (S, v) (S, vmm_set_cr3 c v)"
| store: "R \<in> S \<Longrightarrow> pml4_ix va < 256 \<Longrightarrow> user_page v R va = Some (a, True, x) \<Longrightarrow> i < 512 \<Longrightarrow>
    vm_step (S, v) (S, tab_set a i w v)"

lemma user_page_here:
  "R \<in> S \<Longrightarrow> pml4_ix va < 256 \<Longrightarrow> user_page v R va = Some (a, w, x) \<Longrightarrow> (R, va_place va, pt_ix va) \<in> maps S v a"
  using leaf_place_va by (auto simp: user_page_def Let_def maps_here split: if_splits)

lemma cow_break_inv:
  assumes ok: "spaces_ok S v" and R: "R \<in> S" and va: "pml4_ix va < 256" and run: "vmm_cow_break R va v = (r, v')"
    and ex: "exclusive S v"
  shows "spaces_ok S v' \<and> exclusive S v'"
proof -
  note C = cow_break_ok [OF ok R va run]
  show ?thesis
  proof (cases r)
    case True
    then obtain b where b: "aligned b" "card (maps S v' b) = 1"
      "pte_upd S v v' R (va_place va) (pt_ix va) (b OR PTE_USER_FLAGS)" using C by auto
    have "exclusive S v'" using user_flags_mapped [OF b(1)] b(2) by (intro exclusive_upd [OF ex b(3)]) simp_all
    then show ?thesis using C by simp
  next
    case False
    then show ?thesis using C ok ex by simp
  qed
qed

lemma vm_step_inv:
  assumes "vm_step s s'" "spaces_ok (fst s) (snd s)" "exclusive (fst s) (snd s)"
  shows "spaces_ok (fst s') (snd s') \<and> exclusive (fst s') (snd s')"
  using assms
proof (induction rule: vm_step.induct)
  case (alloc v p v' S)
  then have inv: "pmm_inv (pm v)" by (simp add: spaces_ok_def trees_ok_def)
  show ?case using alloc_spaces_ok [OF _ inv disjI1, of S p v'] alloc exclusive_cong [of S v S v'] by auto
next
  case (alloc_above m v p v' S)
  then have inv: "pmm_inv (pm v)" by (simp add: spaces_ok_def trees_ok_def)
  show ?case using alloc_spaces_ok [OF _ inv disjI2, of S m p v'] alloc_above exclusive_cong [of S v S v'] by auto
next
  case (release S v p)
  then have inv: "pmm_inv (pm v)" by (simp add: spaces_ok_def trees_ok_def)
  show ?case using free_spaces_ok [OF _ inv, of S p] release exclusive_cong [of S v S "free_page p v"] by auto
next
  case (clone v R v' S)
  then have inv: "pmm_inv (pm v)" "hhdm_ready v" by (auto simp: spaces_ok_def trees_ok_def)
  have ok: "spaces_ok S v" and ex: "exclusive S v" using clone by simp_all
  note K = clone_pml4_ok [OF ok inv(2,1) clone(3,1,2)]
  have z: "\<forall>p i. leaf_place p i \<longrightarrow> pte v' R p i = 0" and same: "\<forall>R' \<in> S. \<forall>p i. leaf_place p i \<longrightarrow> pte v' R' p i = pte v R' p i"
    using K by blast+
  have "exclusive (insert R S) v'"
  proof (rule exclusive_cong [OF ex])
    show "maps (insert R S) v' a = maps S v a" for a using z same by (auto simp: maps_def)
    show "R' \<in> S \<and> pte v' R' p i = pte v R' p i"
      if "R' \<in> insert R S" "leaf_place p i" "mapped (pte v' R' p i)" for R' p i
      using z same that by auto
  qed
  then show ?case using K by simp
next
  case (map R S va v phys r v')
  have al: "aligned phys" using map by (simp add: fresh_def)
  have run: "vmm_map_user_flags R va phys PTE_USER_FLAGS v = (r, v')" using map by (simp add: vmm_map_user_def)
  have ok: "spaces_ok S v" and ex: "exclusive S v" using map by simp_all
  have un: "\<not> mapped (pte v R (va_place va) (pt_ix va))" using map by (simp add: user_page_None)
  note M = map_user_flags_ok [OF ok map(1,2,3) un user_flags_ok run]
  have "exclusive S v'"
  proof (cases r)
    case True
    then have u: "pte_upd S v v' R (va_place va) (pt_ix va) (phys OR PTE_USER_FLAGS)" using M(2) by simp
    have "maps S v phys = {}" using map(3) by (simp add: fresh_def)
    then have "card (maps S v' phys) = 1"
      using maps_upd [OF u, of phys] user_flags_mapped [OF al] by simp
    then show ?thesis using user_flags_mapped [OF al] by (intro exclusive_upd [OF ex u]) simp_all
  next
    case False
    then show ?thesis using M(2) by (intro exclusive_shrink [OF ex]) auto
  qed
  then show ?case using M(1) by simp
next
  case (unmap R S va v r v')
  have ok: "spaces_ok S v" and ex: "exclusive S v" using unmap by simp_all
  note U = unmap_user_ok [OF ok unmap(1,2,3)]
  have "exclusive S v'"
    using U(2) by (cases r) (auto intro!: exclusive_shrink [OF ex] simp: pte_upd_def split: if_splits)
  then show ?case using U(1) by simp
next
  case (protect R S va v wr r v')
  have ok: "spaces_ok S v" and ex: "exclusive S v" using protect by simp_all
  note Q = protect_user_ok [OF ok protect(1-4)]
  show ?case
  proof (cases r)
    case True
    let ?e = "pte v R (va_place va) (pt_ix va)"
    obtain e' where e': "mapped ?e" "pte_upd S v v' R (va_place va) (pt_ix va) e'" "mapped e'"
      "e' AND ADDR_MASK = ?e AND ADDR_MASK" "bit e' 1 = (wr \<and> card (maps S v (?e AND ADDR_MASK)) = 1)"
      using Q True by auto
    have fin: "finite S" by (rule spaces_okD(3) [OF ok])
    have "card (maps S v' (e' AND ADDR_MASK)) = card (maps S v (?e AND ADDR_MASK))"
      using card_upd [OF e'(2) fin, of "?e AND ADDR_MASK"] e'(1,3,4) by simp
    then have "exclusive S v'" using e' by (intro exclusive_upd [OF ex e'(2)]) auto
    then show ?thesis using Q by simp
  next
    case False
    then show ?thesis using Q ok ex by simp
  qed
next
  case (fault v S va err r v')
  show ?case
  proof (cases "err AND 7 = 7")
    case True
    then have run: "vmm_cow_break (cr3_reg v) va v = (r, v')" using fault(3) by (simp add: vmm_handle_page_fault_def)
    show ?thesis using cow_break_inv [OF _ fault(1,2) run] fault by simp
  next
    case False
    then show ?thesis using fault by (auto simp: vmm_handle_page_fault_def)
  qed
next
  case (cow_break R S va v r v')
  then show ?case using cow_break_inv [of S v R va r v'] by simp
next
  case (fill S v p i w)
  have ok: "spaces_ok S v" and ex: "exclusive S v" using fill by simp_all
  note W = write_ok [OF ok _ _ fill(2), where w = w and a = p]
  have p: "aligned p" "\<forall>R \<in> S. \<forall>q. vpath q \<longrightarrow> node v R q \<noteq> Some p" using fill(1) by (auto simp: fresh_def)
  have "exclusive S (tab_set p i w v)" using W(2,3) [OF p] by (intro exclusive_cong [OF ex]) auto
  then show ?case using W(1) [OF p] by simp
next
  case (fork R S D v r v')
  have ok: "spaces_ok S v" and ex: "exclusive S v" using fork by simp_all
  obtain P where P: "copied S R D v v' P" using copy_user_ok [OF ok fork(1-6)] by blast
  then show ?case using exclusive_copied [OF ex P fork(1-4)] by (simp add: copied_def)
next
  case (teardown R S v)
  have ok: "spaces_ok S v" and ex: "exclusive S v" using teardown by simp_all
  have T: "torn S R [] v (vmm_teardown_user R v)" by (rule teardown_user_ok(1) [OF ok teardown(1)])
  then have "exclusive S (vmm_teardown_user R v)" unfolding torn_def by (intro exclusive_shrink [OF ex]) blast
  then show ?case using T by (simp add: torn_def)
next
  case (destroy R S v)
  have ok: "spaces_ok S v" and ex: "exclusive S v" using destroy by simp_all
  note D = destroy_spaces_ok [OF ok destroy(1,2)]
  have "exclusive (S - {R}) (free_page R v)" using D(2,3) by (intro exclusive_cong [OF ex]) auto
  then show ?case using D(1) by simp
next
  case (switch S v c)
  have "pte (v\<lparr>cr3_reg := x\<rparr>) R p i = pte v R p i" for x R p i
  proof -
    have "node (v\<lparr>cr3_reg := x\<rparr>) R p = node v R p"
      by (induction p) (simp_all add: next_table_def cong: option.case_cong)
    then show ?thesis by (simp add: pte_def cong: option.case_cong)
  qed
  then have "exclusive S (v\<lparr>cr3_reg := x\<rparr>)" for x using switch by (simp add: exclusive_def maps_def)
  then show ?case using switch by (simp add: vmm_set_cr3_def)
next
  case (store R S va v a x i w)
  have ok: "spaces_ok S v" and ex: "exclusive S v" using store by simp_all
  have ne: "maps S v a \<noteq> {}" using user_page_here [OF store(1-3)] by blast
  note T = store_ok [OF ok ne store(4), where w = w]
  have "exclusive S (tab_set a i w v)" using T(2,3) by (intro exclusive_cong [OF ex]) auto
  then show ?case using T(1) by simp
qed

abbreviation vm_reach :: "vmm \<Rightarrow> u64 set \<Rightarrow> vmm \<Rightarrow> bool" where
  "vm_reach v0 S v \<equiv> vm_step\<^sup>*\<^sup>* ({}, v0) (S, v)"

lemma vm_reach_inv:
  assumes "spaces_ok {} v0" "vm_reach v0 S v"
  shows "spaces_ok S v" "exclusive S v"
proof -
  have "spaces_ok (fst s) (snd s) \<and> exclusive (fst s) (snd s)" if "vm_step\<^sup>*\<^sup>* ({}, v0) s" for s
    using that
  proof (induction rule: rtranclp_induct)
    case base
    then show ?case using assms(1) by (simp add: exclusive_def)
  next
    case (step s s')
    then show ?case using vm_step_inv by blast
  qed
  from this [OF assms(2)] show "spaces_ok S v" "exclusive S v" by simp_all
qed

lemma reach_writer_alone:
  assumes "spaces_ok {} v0" "vm_reach v0 S v" "R \<in> S" "R' \<in> S" "pml4_ix va < 256" "pml4_ix wa < 256"
    and "user_page v R va = Some (a, True, x)" "user_page v R' wa = Some (a, w', x')"
  shows "R' = R \<and> same_page wa va"
proof -
  let ?e = "pte v R (va_place va) (pt_ix va)"
  have e: "mapped ?e" "?e AND ADDR_MASK = a" "bit ?e 1" using assms(7) by (auto simp: user_page_def Let_def split: if_splits)
  have "maps S v a = {(R, va_place va, pt_ix va)}"
    using exclusive_only [OF vm_reach_inv(2) [OF assms(1,2)] assms(3) leaf_place_va [OF assms(5)]] e by simp
  then show ?thesis using user_page_here [OF assms(4,6,8)] by (simp add: same_page_def)
qed

text \<open>
  C1. Memory isolation. However the kernel interleaves its operations on address spaces, when a
  task can write a page, no other page of any address space is on the same frame: storing a word
  there changes the contents of no other mapped page, and the frame is not free memory and not a
  page table.
\<close>

theorem stores_are_private:
  assumes "spaces_ok {} v0" "vm_reach v0 S v" "R \<in> S" "R' \<in> S" "pml4_ix va < 256" "pml4_ix wa < 256"
    and "user_page v R va = Some (a, True, x)" "user_page v R' wa = Some (b, y, z)" "i < 512" "j < 512"
    and "\<not> (R' = R \<and> same_page wa va)"
  shows "user_page (tab_set a i w v) R' wa = Some (b, y, z) \<and>
    tab_get (tab_set a i w v) b j = tab_get v b j \<and> \<not> is_free v a \<and>
    (\<forall>R'' \<in> S. \<forall>p. vpath p \<longrightarrow> node v R'' p \<noteq> Some a)"
proof -
  note ok = vm_reach_inv(1) [OF assms(1,2)]
  have ab: "a \<noteq> b" using reach_writer_alone [OF assms(1-7)] assms(8,11) by blast
  have ma: "maps S v a \<noteq> {}" and mb: "maps S v b \<noteq> {}"
    using user_page_here [OF assms(3,5,7)] user_page_here [OF assms(4,6,8)] by blast+
  have "tab_get (tab_set a i w v) b j = tab_get v b j"
    using tab_get_set [OF maps_aligned [OF ma] maps_aligned [OF mb] assms(9,10)] ab by simp
  moreover have "user_page (tab_set a i w v) R' wa = user_page v R' wa"
    using page_cong [OF _ assms(6)] store_ok(2) [OF ok ma assms(9) assms(4)] by blast
  ultimately show ?thesis using assms(8) spaces_okD(6) [OF ok ma] spaces_okD(7) [OF ok ma] by simp
qed

text \<open>The demonstration task with a second page.\<close>

theorem stores_are_private_witness:
  "\<exists>v. vm_reach vmm_demo {demo_root} v \<and> user_page v demo_root 0x400000 = Some (0x100000, True, True) \<and>
     user_page v demo_root 0x401000 = Some (0x102000, True, True) \<and>
     tab_get (tab_set 0x100000 3 42 v) 0x102000 3 = tab_get v 0x102000 3"
proof -
  let ?S = "{demo_root}"
  have d: "demo_root \<in> ?S" by simp
  have nf: "\<not> is_free vmm_demo PML4_PHYS" by (simp add: is_free_def free_frames_vmm_demo)
  have nz: "demo_root \<noteq> 0" using trees_okD(4) [OF spaces_okD(1) [OF demo_space_ok(1)] d] .
  have 1: "vm_step ({}, vmm_demo) (?S, demo_space)" by (rule vm_step.clone [OF demo_space_ok(6) nz nf])
  obtain r where r: "vmm_map_user demo_root 0x400000 0x100000 demo_space = (r, demo_page)"
    by (metis demo_page_def prod.collapse)
  have 2: "vm_step (?S, demo_space) (?S, demo_page)"
    by (rule vm_step.map [OF d demo_va(1) demo_space_ok(4) demo_unmapped r])
  have va: "pml4_ix 0x401000 < 256" "aligned 0x401000" "aligned 0x102000" by (simp_all add: pml4_ix_def aligned_mod)
  have "0 + 3 \<le> card (free_frames (pm demo_page))" using demo_page_ok(3) by simp
  then obtain v where v: "vmm_map_user demo_root 0x401000 0x102000 demo_page = (True, v)"
    using map_user_flags_succeeds [OF spaces_okD(1) [OF demo_page_ok(1)] d va, of 0 PTE_USER_FLAGS]
    by (auto simp: vmm_map_user_def)
  have 3: "vm_step (?S, demo_page) (?S, v)" by (rule vm_step.map [OF d va(1) demo_page_ok(6,7) v])
  have reach: "vm_reach vmm_demo ?S v"
    using 1 2 3 by (meson rtranclp.rtrancl_into_rtrancl rtranclp.rtrancl_refl)
  have ns: "\<not> same_page 0x400000 0x401000" "\<not> same_page 0x401000 0x400000" by (simp_all add: same_page_def pt_ix_def)
  note P = map_user_pages [OF demo_page_ok(1) d va(1) demo_page_ok(6,7) v d]
  have p: "user_page v demo_root 0x400000 = Some (0x100000, True, True)"
    "user_page v demo_root 0x401000 = Some (0x102000, True, True)"
    using P [OF demo_va(1)] P [OF va(1)] ns demo_page_ok(2) by (auto simp: same_page_def)
  show ?thesis
    using stores_are_private [OF spaces_ok_demo reach d d demo_va(1) va(1) p, of 3 3 42] ns reach p by auto
qed

end
