(* ===== verification/Elf.thy ===== *)
theory Elf
  imports Prelude "HOL-Library.Multiset"
begin

text \<open>
  The ELF64 loader of \<open>kernel/elf.c\<close>. A file is a list of bytes, \<open>len\<close> the length the caller
  states (32 bits, as in the source); the loader's destination is a list of bytes with its
  stated size. Every read and write is checked against the real list: \<open>Fault\<close> is an access
  outside it, \<open>Reject\<close> the source's return value -1 and \<open>Accept\<close> its return value 0 with the
  output parameters.
\<close>

section \<open>Headers\<close>

record elf64_ehdr =
  eh_ident :: "u8 list"
  eh_type :: u16
  eh_machine :: u16
  eh_version :: u32
  eh_entry :: u64
  eh_phoff :: u64
  eh_shoff :: u64
  eh_flags :: u32
  eh_ehsize :: u16
  eh_phentsize :: u16
  eh_phnum :: u16
  eh_shentsize :: u16
  eh_shnum :: u16
  eh_shstrndx :: u16

record elf64_phdr =
  ph_type :: u32
  ph_flags :: u32
  ph_offset :: u64
  ph_vaddr :: u64
  ph_paddr :: u64
  ph_filesz :: u64
  ph_memsz :: u64
  ph_align :: u64

datatype 'a outcome = Accept 'a | Reject | Fault

definition ELF_LOAD_MAX :: nat where "ELF_LOAD_MAX = 8"

text \<open>Little-endian fields of a packed structure.\<close>

primrec le_word :: "u8 list \<Rightarrow> 'a::len word" where
  "le_word [] = 0"
| "le_word (b # bs) = ucast b + push_bit 8 (le_word bs)"

definition le_field :: "u8 list \<Rightarrow> nat \<Rightarrow> nat \<Rightarrow> 'a::len word" where
  "le_field raw off n = le_word (take n (drop off raw))"

definition rd_ehdr :: "u8 list \<Rightarrow> elf64_ehdr option" where
  "rd_ehdr raw = (if length raw < 64 then None else Some
     \<lparr>eh_ident = take 16 raw, eh_type = le_field raw 16 2, eh_machine = le_field raw 18 2,
      eh_version = le_field raw 20 4, eh_entry = le_field raw 24 8, eh_phoff = le_field raw 32 8,
      eh_shoff = le_field raw 40 8, eh_flags = le_field raw 48 4, eh_ehsize = le_field raw 52 2,
      eh_phentsize = le_field raw 54 2, eh_phnum = le_field raw 56 2,
      eh_shentsize = le_field raw 58 2, eh_shnum = le_field raw 60 2,
      eh_shstrndx = le_field raw 62 2\<rparr>)"

definition rd_phdr :: "u8 list \<Rightarrow> u64 \<Rightarrow> elf64_phdr option" where
  "rd_phdr raw at = (let o' = unat at in if length raw < o' + 56 then None else Some
     \<lparr>ph_type = le_field raw o' 4, ph_flags = le_field raw (o' + 4) 4,
      ph_offset = le_field raw (o' + 8) 8, ph_vaddr = le_field raw (o' + 16) 8,
      ph_paddr = le_field raw (o' + 24) 8, ph_filesz = le_field raw (o' + 32) 8,
      ph_memsz = le_field raw (o' + 40) 8, ph_align = le_field raw (o' + 48) 8\<rparr>)"

section \<open>Parsing\<close>

text \<open>The loop over the program headers, from index \<open>i\<close> with \<open>phs\<close> collected so far.\<close>

function elf_scan :: "u8 list \<Rightarrow> u32 \<Rightarrow> elf64_ehdr \<Rightarrow> nat \<Rightarrow> elf64_phdr list \<Rightarrow>
    elf64_phdr list outcome" where
  "elf_scan raw len eh i phs =
     (if i < unat (eh_phnum eh)
      then case rd_phdr raw (eh_phoff eh + of_nat i * 56) of
          None \<Rightarrow> Fault
        | Some p \<Rightarrow>
            if ph_type p \<noteq> 1 \<or> ph_memsz p = 0 then elf_scan raw len eh (Suc i) phs
            else if ELF_LOAD_MAX \<le> length phs then Reject
            else if ph_memsz p < ph_filesz p \<or> ucast len < ph_offset p then Reject
            else if ucast len - ph_offset p < ph_filesz p then Reject
            else if ph_vaddr p + ph_memsz p < ph_vaddr p then Reject
            else elf_scan raw len eh (Suc i) (phs @ [p])
      else Accept phs)"
  by pat_completeness auto
termination by (relation "measure (\<lambda>(raw, len, eh, i, phs). unat (eh_phnum eh) - i)") auto

declare elf_scan.simps [simp del]

text \<open>The insertion sort, in place on the array of pointers.\<close>

fun ins_shift :: "elf64_phdr list \<Rightarrow> nat \<Rightarrow> elf64_phdr \<Rightarrow> elf64_phdr list" where
  "ins_shift phs 0 key = phs[0 := key]"
| "ins_shift phs (Suc j) key =
     (if ph_vaddr key < ph_vaddr (phs ! j) then ins_shift (phs[Suc j := phs ! j]) j key
      else phs[Suc j := key])"

definition elf_sort :: "elf64_phdr list \<Rightarrow> elf64_phdr list" where
  "elf_sort phs = fold (\<lambda>i phs. ins_shift phs i (phs ! i)) [1..<length phs] phs"

definition elf_overlap :: "elf64_phdr list \<Rightarrow> bool" where
  "elf_overlap phs \<longleftrightarrow> list_ex (\<lambda>i. ph_vaddr (phs ! i) < ph_vaddr (phs ! (i - 1)) + ph_memsz (phs ! (i - 1)))
     [1..<length phs]"

definition elf_hit :: "u64 \<Rightarrow> elf64_phdr list \<Rightarrow> bool" where
  "elf_hit entry phs \<longleftrightarrow> list_ex (\<lambda>p. ph_vaddr p \<le> entry \<and> entry < ph_vaddr p + ph_memsz p) phs"

definition ehdr_ok :: "u32 \<Rightarrow> elf64_ehdr \<Rightarrow> bool" where
  "ehdr_ok len eh \<longleftrightarrow>
     take 7 (eh_ident eh) = [0x7F, 0x45, 0x4C, 0x46, 2, 1, 1] \<and>
     eh_type eh = 2 \<and> eh_machine eh = 62 \<and> eh_ehsize eh = 64 \<and> eh_phentsize eh = 56 \<and>
     eh_phnum eh \<noteq> 0 \<and> eh_phoff eh \<le> ucast len \<and> eh_phnum eh \<le> 8 \<and>
     eh_phoff eh + ucast (eh_phnum eh) * 56 \<le> ucast len"

definition elf_parse :: "u8 list \<Rightarrow> u32 \<Rightarrow> (elf64_ehdr \<times> elf64_phdr list) outcome" where
  "elf_parse raw len =
     (if len < 64 then Reject
      else case rd_ehdr raw of None \<Rightarrow> Fault
      | Some eh \<Rightarrow>
        if \<not> ehdr_ok len eh then Reject
        else case elf_scan raw len eh 0 [] of
            Fault \<Rightarrow> Fault
          | Reject \<Rightarrow> Reject
          | Accept phs0 \<Rightarrow>
              if phs0 = [] then Reject
              else let phs = elf_sort phs0 in
                if elf_overlap phs then Reject
                else if \<not> elf_hit (eh_entry eh) phs then Reject
                else Accept (eh, phs))"

definition elf_image_base :: "u8 list \<Rightarrow> u32 \<Rightarrow> u64 outcome" where
  "elf_image_base raw len =
     (case elf_parse raw len of Accept (eh, phs) \<Rightarrow> Accept (ph_vaddr (phs ! 0))
      | Reject \<Rightarrow> Reject | Fault \<Rightarrow> Fault)"

section \<open>Loading\<close>

definition poke :: "u8 list \<Rightarrow> u64 \<Rightarrow> u8 \<Rightarrow> u8 list option" where
  "poke out i v = (if unat i < length out then Some (out[unat i := v]) else None)"

text \<open>A counted loop of stores, \<open>i\<close> from \<open>i\<close> up to \<open>n\<close>; the value is \<open>None\<close> on a bad read.\<close>

function store_loop :: "(nat \<Rightarrow> u8 option) \<Rightarrow> u64 \<Rightarrow> nat \<Rightarrow> nat \<Rightarrow> u8 list \<Rightarrow> u8 list option" where
  "store_loop val rel i n out =
     (if i < n
      then case val i of None \<Rightarrow> None
        | Some v \<Rightarrow> (case poke out (rel + of_nat i) v of None \<Rightarrow> None
            | Some out' \<Rightarrow> store_loop val rel (Suc i) n out')
      else Some out)"
  by pat_completeness auto
termination by (relation "measure (\<lambda>(val, rel, i, n, out). n - i)") auto

declare store_loop.simps [simp del]

definition peek :: "u8 list \<Rightarrow> u64 \<Rightarrow> u8 option" where
  "peek raw i = (if unat i < length raw then Some (raw ! unat i) else None)"

definition load_seg :: "u8 list \<Rightarrow> u64 \<Rightarrow> elf64_phdr \<Rightarrow> u8 list \<Rightarrow> u8 list option" where
  "load_seg raw rel ph out =
     (case store_loop (\<lambda>i. peek raw (ph_offset ph + of_nat i)) rel 0
             (unat (ucast (ph_filesz ph) :: u32)) out of
        None \<Rightarrow> None
      | Some out' \<Rightarrow> store_loop (\<lambda>i. Some 0) rel (unat (ucast (ph_filesz ph) :: u32))
             (unat (ucast (ph_memsz ph) :: u32)) out')"

fun load_segs :: "u8 list \<Rightarrow> u32 \<Rightarrow> u64 \<Rightarrow> elf64_phdr list \<Rightarrow> u8 list \<Rightarrow> unit outcome \<times> u8 list" where
  "load_segs raw dest_size vaddr [] out = (Accept (), out)"
| "load_segs raw dest_size vaddr (ph # phs) out =
     (let rel = ph_vaddr ph - vaddr in
      if ucast dest_size < rel \<or> ucast dest_size - rel < ph_memsz ph then (Reject, out)
      else case load_seg raw rel ph out of
          None \<Rightarrow> (Fault, out)
        | Some out' \<Rightarrow> load_segs raw dest_size vaddr phs out')"

definition elf_load :: "u8 list \<Rightarrow> u32 \<Rightarrow> u8 list \<Rightarrow> u32 \<Rightarrow> u64 \<Rightarrow> u64 outcome \<times> u8 list" where
  "elf_load raw len dest dest_size vaddr =
     (case elf_parse raw len of
        Reject \<Rightarrow> (Reject, dest) | Fault \<Rightarrow> (Fault, dest)
      | Accept (eh, phs) \<Rightarrow>
          if ph_vaddr (phs ! 0) \<noteq> vaddr then (Reject, dest)
          else case store_loop (\<lambda>i. Some 0) 0 0 (unat dest_size) dest of
              None \<Rightarrow> (Fault, dest)
            | Some out \<Rightarrow> (case load_segs raw dest_size vaddr phs out of
                  (Accept _, out') \<Rightarrow> (Accept (eh_entry eh), out')
                | (Reject, out') \<Rightarrow> (Reject, out')
                | (Fault, out') \<Rightarrow> (Fault, out')))"

section \<open>The insertion sort is a stable sort\<close>

abbreviation vle :: "elf64_phdr \<Rightarrow> elf64_phdr \<Rightarrow> bool" where
  "vle key \<equiv> \<lambda>x. ph_vaddr x \<le> ph_vaddr key"

definition insort_right :: "elf64_phdr \<Rightarrow> elf64_phdr list \<Rightarrow> elf64_phdr list" where
  "insort_right key P = takeWhile (vle key) P @ key # dropWhile (vle key) P"

lemma insort_right_snoc:
  assumes "sorted (map ph_vaddr (P @ [x]))"
  shows "insort_right key (P @ [x]) =
    (if ph_vaddr key < ph_vaddr x then insort_right key P @ [x] else P @ [x, key])"
proof (cases "ph_vaddr key < ph_vaddr x")
  case True
  then have x: "\<not> vle key x" by simp
  have "takeWhile (vle key) (P @ [x]) = takeWhile (vle key) P"
    "dropWhile (vle key) (P @ [x]) = dropWhile (vle key) P @ [x]"
    using x by (induction P) auto
  with True show ?thesis by (simp add: insort_right_def)
next
  case False
  then have "\<forall>y \<in> set (P @ [x]). ph_vaddr y \<le> ph_vaddr key"
    using assms by (auto simp: sorted_append)
  then have "takeWhile (vle key) (P @ [x]) = P @ [x]" "dropWhile (vle key) (P @ [x]) = []"
    by (simp_all only: takeWhile_eq_all_conv dropWhile_eq_Nil_conv)
  with False show ?thesis by (simp only: insort_right_def) simp
qed

lemma ins_shift_insort:
  assumes "sorted (map ph_vaddr P)"
  shows "ins_shift (P @ x # R) (length P) key = insort_right key P @ R"
  using assms
proof (induction P arbitrary: x R rule: rev_induct)
  case Nil
  then show ?case by (simp add: insort_right_def)
next
  case (snoc y P)
  then have s: "sorted (map ph_vaddr P)" by (simp add: sorted_append)
  have "((P @ [y]) @ x # R)[Suc (length P) := y] = P @ y # (y # R)"
    by (simp add: list_update_append)
  moreover have "((P @ [y]) @ x # R)[Suc (length P) := key] = (P @ [y]) @ key # R"
    by (simp add: list_update_append)
  ultimately show ?case
    using snoc.IH [OF s, of y "y # R"] insort_right_snoc [OF snoc.prems, of key]
    by (simp add: nth_append)
qed

lemma insort_right_props:
  assumes "sorted (map ph_vaddr P)"
  shows "sorted (map ph_vaddr (insort_right key P))"
    and "mset (insort_right key P) = add_mset key (mset P)"
    and "filter (\<lambda>y. ph_vaddr y = k) (insort_right key P) =
         filter (\<lambda>y. ph_vaddr y = k) P @ (if ph_vaddr key = k then [key] else [])"
proof -
  have PP: "P = takeWhile (vle key) P @ dropWhile (vle key) P" by simp
  have hi: "ph_vaddr key < ph_vaddr y" if "y \<in> set (dropWhile (vle key) P)" for y
  proof -
    have s: "sorted (map ph_vaddr (dropWhile (vle key) P))"
      using assms PP by (metis map_append sorted_append)
    show ?thesis
    proof (cases "dropWhile (vle key) P")
      case (Cons z zs)
      then have "\<not> vle key z" by (metis hd_dropWhile list.distinct(1) list.sel(1))
      then show ?thesis using that s Cons by (auto simp: not_le)
    next
      case Nil
      then show ?thesis using that by (simp only: list.set empty_iff)
    qed
  qed
  have lo: "ph_vaddr y \<le> ph_vaddr key" if "y \<in> set (takeWhile (vle key) P)" for y
    using that by (auto dest: set_takeWhileD)
  define A B where AB: "A = takeWhile (vle key) P" "B = dropWhile (vle key) P"
  have "sorted (map ph_vaddr A)" "sorted (map ph_vaddr B)"
    "\<forall>x \<in> set A. ph_vaddr x \<le> ph_vaddr key" "\<forall>y \<in> set B. ph_vaddr key \<le> ph_vaddr y"
    using assms PP lo hi unfolding AB by (metis map_append sorted_append, metis map_append sorted_append,
      blast, metis less_imp_le)
  then have "sorted (map ph_vaddr (A @ key # B))"
    by (auto simp: sorted_append intro: order_trans)
  then show "sorted (map ph_vaddr (insort_right key P))" by (simp add: insort_right_def AB)
  show "mset (insort_right key P) = add_mset key (mset P)"
    unfolding insort_right_def by (metis PP mset_append mset.simps(2) union_mset_add_mset_right)
  have "filter (\<lambda>y. ph_vaddr y = k) (dropWhile (vle key) P) = []" if "ph_vaddr key = k"
    unfolding filter_empty_conv using hi that by (metis less_irrefl)
  moreover have "filter (\<lambda>y. ph_vaddr y = k) P = filter (\<lambda>y. ph_vaddr y = k) (takeWhile (vle key) P) @
      filter (\<lambda>y. ph_vaddr y = k) (dropWhile (vle key) P)"
    by (metis PP filter_append)
  ultimately show "filter (\<lambda>y. ph_vaddr y = k) (insort_right key P) =
         filter (\<lambda>y. ph_vaddr y = k) P @ (if ph_vaddr key = k then [key] else [])"
    by (simp add: insort_right_def)
qed

lemma elf_sort_prefix:
  assumes "i < length phs"
  shows "fold (\<lambda>i phs. ins_shift phs i (phs ! i)) [1..<Suc i] phs =
    sort_key ph_vaddr (take (Suc i) phs) @ drop (Suc i) phs"
  using assms
proof (induction i)
  case 0
  then show ?case by (cases phs) auto
next
  case (Suc i)
  let ?P = "sort_key ph_vaddr (take (Suc i) phs)"
  let ?x = "phs ! Suc i"
  have len: "length ?P = Suc i" using Suc.prems by simp
  have d: "drop (Suc i) phs = ?x # drop (Suc (Suc i)) phs"
    using Suc.prems by (simp add: Cons_nth_drop_Suc)
  have t: "take (Suc (Suc i)) phs = take (Suc i) phs @ [?x]"
    using Suc.prems by (simp add: take_Suc_conv_app_nth)
  have nth: "(?P @ drop (Suc i) phs) ! Suc i = ?x" using len d by (simp add: nth_append)
  have "fold (\<lambda>i phs. ins_shift phs i (phs ! i)) [1..<Suc (Suc i)] phs =
      ins_shift (?P @ drop (Suc i) phs) (Suc i) ?x"
    using Suc nth by simp
  also have "\<dots> = insort_right ?x ?P @ drop (Suc (Suc i)) phs"
    using ins_shift_insort [of ?P ?x "drop (Suc (Suc i)) phs" ?x] len d by simp
  also have "insort_right ?x ?P = sort_key ph_vaddr (take (Suc (Suc i)) phs)"
  proof (rule properties_for_sort_key [symmetric])
    show "mset (insort_right ?x ?P) = mset (take (Suc (Suc i)) phs)"
      unfolding t by (simp add: insort_right_props(2))
    show "filter (\<lambda>y. ph_vaddr k = ph_vaddr y) (insort_right ?x ?P) =
        filter (\<lambda>y. ph_vaddr k = ph_vaddr y) (take (Suc (Suc i)) phs)" for k
      using insort_right_props(3) [of ?P "ph_vaddr k" ?x] unfolding t
      by (simp add: eq_commute [of "ph_vaddr k"] sort_key_stable)
    show "sorted (map ph_vaddr (insort_right ?x ?P))" by (simp add: insort_right_props(1))
  qed
  finally show ?case .
qed

lemma elf_sort_sort_key: "elf_sort phs = sort_key ph_vaddr phs"
proof (cases phs)
  case (Cons x xs)
  then show ?thesis using elf_sort_prefix [of "length phs - 1" phs] by (simp add: elf_sort_def)
qed (simp add: elf_sort_def)

section \<open>What the parser accepts\<close>

definition loadable :: "elf64_phdr \<Rightarrow> bool" where
  "loadable p \<longleftrightarrow> ph_type p = 1 \<and> ph_memsz p \<noteq> 0"

definition seg_end :: "elf64_phdr \<Rightarrow> nat" where
  "seg_end p = unat (ph_vaddr p) + unat (ph_memsz p)"

definition seg_ok :: "u32 \<Rightarrow> elf64_phdr \<Rightarrow> bool" where
  "seg_ok len p \<longleftrightarrow> unat (ph_filesz p) \<le> unat (ph_memsz p) \<and>
     unat (ph_offset p) + unat (ph_filesz p) \<le> unat len \<and> seg_end p < 2 ^ 64"

definition phdrs :: "u8 list \<Rightarrow> elf64_ehdr \<Rightarrow> elf64_phdr list" where
  "phdrs raw eh = map (\<lambda>i. the (rd_phdr raw (eh_phoff eh + of_nat i * 56))) [0..<unat (eh_phnum eh)]"

definition segments :: "u8 list \<Rightarrow> elf64_ehdr \<Rightarrow> elf64_phdr list" where
  "segments raw eh = sort_key ph_vaddr (filter loadable (phdrs raw eh))"

definition elf_image :: "u8 list \<Rightarrow> u32 \<Rightarrow> elf64_ehdr \<Rightarrow> bool" where
  "elf_image raw len eh \<longleftrightarrow> 64 \<le> unat len \<and> rd_ehdr raw = Some eh \<and> ehdr_ok len eh \<and>
     segments raw eh \<noteq> [] \<and> (\<forall>p \<in> set (segments raw eh). seg_ok len p) \<and>
     sorted_wrt (\<lambda>p q. seg_end p \<le> unat (ph_vaddr q)) (segments raw eh) \<and>
     (\<exists>p \<in> set (segments raw eh). unat (ph_vaddr p) \<le> unat (eh_entry eh) \<and> unat (eh_entry eh) < seg_end p)"

lemma seg_tests:
  "seg_ok len p \<longleftrightarrow> \<not> (ph_memsz p < ph_filesz p \<or> ucast len < ph_offset p) \<and>
     \<not> ucast len - ph_offset p < ph_filesz p \<and> \<not> ph_vaddr p + ph_memsz p < ph_vaddr p"
proof -
  have v: "ph_vaddr p + ph_memsz p < ph_vaddr p \<longleftrightarrow> \<not> seg_end p < 2 ^ 64"
    using unat_bound [of "ph_vaddr p"] unat_bound [of "ph_memsz p"]
    by (auto simp: seg_end_def word_less_nat_alt unat_word_ariths mod_if)
  have "ph_offset p \<le> ucast len \<Longrightarrow> unat (ucast len - ph_offset p) = unat len - unat (ph_offset p)"
    by (simp add: unat_sub_le unat_ucast_u32_u64)
  then show ?thesis unfolding seg_ok_def v
    by (auto simp: word_less_nat_alt word_le_nat_alt unat_ucast_u32_u64)
qed

lemma ehdr_phdr_some:
  assumes ok: "ehdr_ok len eh" and len: "unat len \<le> length raw" and i: "i < unat (eh_phnum eh)"
  shows "\<exists>p. rd_phdr raw (eh_phoff eh + of_nat i * 56) = Some p"
proof -
  let ?o = "unat (eh_phoff eh)" and ?n = "unat (eh_phnum eh)"
  have n: "?n \<le> 8" "?o \<le> unat len"
    using ok by (auto simp: ehdr_ok_def word_le_nat_alt unat_ucast_u32_u64)
  have u: "unat (ucast (eh_phnum eh) :: u64) = ?n"
    using n by (intro unat_ucast_small) simp
  have m: "unat (of_nat k * 56 :: u64) = k * 56" if "k \<le> 8" for k
    using that by (simp add: unat_word_ariths unat_of_nat)
  have "unat (ucast (eh_phnum eh) * 56 :: u64) = ?n * 56" using n u by (simp add: unat_word_ariths)
  then have "unat (eh_phoff eh + ucast (eh_phnum eh) * 56) = ?o + ?n * 56"
    using n unat_bound [of len] by (subst unat_add_lt) auto
  then have e: "?o + ?n * 56 \<le> unat len"
    using ok by (simp add: ehdr_ok_def word_le_nat_alt unat_ucast_u32_u64)
  have "unat (eh_phoff eh + of_nat i * 56) = ?o + i * 56"
    using m [of i] i n unat_bound [of len] by (subst unat_add_lt) auto
  then have "unat (eh_phoff eh + of_nat i * 56) + 56 \<le> length raw" using e i len by auto
  then show ?thesis by (simp add: rd_phdr_def Let_def)
qed

lemma elf_scan_spec:
  assumes ok: "ehdr_ok len eh" and len: "unat len \<le> length raw"
    and i: "i \<le> unat (eh_phnum eh)" "length phs \<le> i"
  shows "elf_scan raw len eh i phs =
    (if \<forall>p \<in> set (filter loadable (drop i (phdrs raw eh))). seg_ok len p
     then Accept (phs @ filter loadable (drop i (phdrs raw eh))) else Reject)"
  using i
proof (induction "unat (eh_phnum eh) - i" arbitrary: i phs)
  case 0
  then show ?case by (simp add: elf_scan.simps [of raw len eh i] phdrs_def)
next
  case (Suc k)
  then have lt: "i < unat (eh_phnum eh)" by simp
  obtain p where p: "rd_phdr raw (eh_phoff eh + of_nat i * 56) = Some p"
    using ehdr_phdr_some [OF ok len lt] by blast
  have d: "drop i (phdrs raw eh) = p # drop (Suc i) (phdrs raw eh)"
    using lt p by (subst Cons_nth_drop_Suc [symmetric]) (auto simp: phdrs_def)
  have n8: "length phs < ELF_LOAD_MAX"
    using lt Suc.prems ok by (auto simp: ehdr_ok_def word_le_nat_alt ELF_LOAD_MAX_def)
  have IH: "elf_scan raw len eh (Suc i) qs =
    (if \<forall>p \<in> set (filter loadable (drop (Suc i) (phdrs raw eh))). seg_ok len p
     then Accept (qs @ filter loadable (drop (Suc i) (phdrs raw eh))) else Reject)"
    if "length qs \<le> Suc i" for qs using Suc that by auto
  have step: "elf_scan raw len eh i phs =
    (if \<not> loadable p then elf_scan raw len eh (Suc i) phs
     else if \<not> seg_ok len p then Reject else elf_scan raw len eh (Suc i) (phs @ [p]))"
    using lt p n8 unfolding elf_scan.simps [of raw len eh i] seg_tests
    by (auto simp: loadable_def)
  show ?case
    unfolding step d using IH [of phs] IH [of "phs @ [p]"] Suc.prems by auto
qed

lemma overlap_sorted:
  assumes "\<forall>p \<in> set phs. seg_ok len p"
  shows "elf_overlap phs \<longleftrightarrow> \<not> sorted_wrt (\<lambda>p q. seg_end p \<le> unat (ph_vaddr q)) phs"
proof -
  let ?R = "\<lambda>p q. seg_end p \<le> unat (ph_vaddr q)"
  have u: "unat (ph_vaddr p + ph_memsz p) = seg_end p" if "p \<in> set phs" for p
    using assms that unfolding seg_ok_def seg_end_def by (subst unat_add_lt) auto
  have "transp ?R" by (auto intro!: transpI simp: seg_end_def)
  then have "sorted_wrt ?R phs \<longleftrightarrow> (\<forall>i. Suc i < length phs \<longrightarrow> ?R (phs ! i) (phs ! Suc i))"
    by (rule sorted_wrt_iff_nth_Suc_transp)
  moreover have "elf_overlap phs \<longleftrightarrow> (\<exists>i. Suc i < length phs \<and> \<not> ?R (phs ! i) (phs ! Suc i))"
  proof -
    have eq: "ph_vaddr (phs ! Suc i) < ph_vaddr (phs ! i) + ph_memsz (phs ! i) \<longleftrightarrow>
        \<not> ?R (phs ! i) (phs ! Suc i)" if "Suc i < length phs" for i
      using that u by (simp add: word_less_nat_alt not_le)
    have "elf_overlap phs \<longleftrightarrow> (\<exists>i. Suc i < length phs \<and>
        ph_vaddr (phs ! Suc i) < ph_vaddr (phs ! i) + ph_memsz (phs ! i))"
      unfolding elf_overlap_def list_ex_iff
    proof (intro iffI; elim bexE exE conjE)
      fix x assume "x \<in> set [1..<length phs]"
        and l: "ph_vaddr (phs ! x) < ph_vaddr (phs ! (x - 1)) + ph_memsz (phs ! (x - 1))"
      then have "Suc 0 \<le> x" "x < length phs" by simp_all
      then obtain i where "x = Suc i" "Suc i < length phs" using Suc_le_D by blast
      with l show "\<exists>i. Suc i < length phs \<and>
          ph_vaddr (phs ! Suc i) < ph_vaddr (phs ! i) + ph_memsz (phs ! i)" by auto
    qed force
    then show ?thesis using eq by blast
  qed
  ultimately show ?thesis by blast
qed

lemma hit_nat:
  assumes "\<forall>p \<in> set phs. seg_ok len p"
  shows "elf_hit e phs \<longleftrightarrow> (\<exists>p \<in> set phs. unat (ph_vaddr p) \<le> unat e \<and> unat e < seg_end p)"
proof -
  have u: "unat (ph_vaddr p + ph_memsz p) = seg_end p" if "p \<in> set phs" for p
    using assms that unfolding seg_ok_def seg_end_def by (subst unat_add_lt) auto
  show ?thesis unfolding elf_hit_def list_ex_iff word_le_nat_alt word_less_nat_alt using u by auto
qed

lemma elf_parse_char:
  assumes len: "unat len \<le> length raw"
  shows "elf_parse raw len = (case rd_ehdr raw of
      Some eh \<Rightarrow> if elf_image raw len eh then Accept (eh, segments raw eh) else Reject
    | None \<Rightarrow> Reject)"
proof (cases "unat len < 64")
  case True
  then show ?thesis by (auto simp: elf_parse_def word_less_nat_alt elf_image_def split: option.split)
next
  case False
  then obtain eh where eh: "rd_ehdr raw = Some eh" using len by (simp add: rd_ehdr_def)
  show ?thesis
  proof (cases "ehdr_ok len eh")
    case no: False
    then show ?thesis using eh False by (simp add: elf_parse_def elf_image_def)
  next
    case ok: True
    let ?ps = "filter loadable (phdrs raw eh)"
    have scan: "elf_scan raw len eh 0 [] = (if \<forall>p \<in> set ?ps. seg_ok len p then Accept ?ps else Reject)"
      using elf_scan_spec [OF ok len, of 0 "[]"] by simp
    have sg: "segments raw eh = elf_sort ?ps" by (simp add: segments_def elf_sort_sort_key)
    have ss: "set (elf_sort ?ps) = set ?ps" "elf_sort ?ps = [] \<longleftrightarrow> ?ps = []"
      by (simp_all add: elf_sort_sort_key) (metis length_0_conv length_sort)
    show ?thesis
    proof (cases "\<forall>p \<in> set ?ps. seg_ok len p")
      case all: True
      then have "\<forall>p \<in> set (elf_sort ?ps). seg_ok len p" using ss by blast
      note ov = overlap_sorted [OF this] and hit = hit_nat [OF this]
      show ?thesis using eh False ok scan all ss
        by (simp add: elf_parse_def Let_def elf_image_def sg ov hit word_less_nat_alt)
    next
      case no: False
      then have "\<not> elf_image raw len eh" unfolding elf_image_def sg ss(1) by blast
      moreover have "elf_scan raw len eh 0 [] = Reject" using scan no by (simp only: if_False)
      ultimately show ?thesis using eh False ok by (simp add: elf_parse_def word_less_nat_alt)
    qed
  qed
qed

section \<open>What the loader writes\<close>

definition overlay :: "(nat \<Rightarrow> u8) \<Rightarrow> nat \<Rightarrow> nat \<Rightarrow> u8 list \<Rightarrow> u8 list" where
  "overlay g lo hi out = map (\<lambda>a. if lo \<le> a \<and> a < hi then g a else out ! a) [0..<length out]"

lemma length_overlay [simp]: "length (overlay g lo hi out) = length out"
  by (simp add: overlay_def)

lemma nth_overlay [simp]:
  "a < length out \<Longrightarrow> overlay g lo hi out ! a = (if lo \<le> a \<and> a < hi then g a else out ! a)"
  by (simp add: overlay_def)

lemma store_loop_spec:
  assumes "\<And>j. i \<le> j \<Longrightarrow> j < n \<Longrightarrow> val j = Some (g (unat rel + j))"
    and "unat rel + n \<le> length out" "length out < 2 ^ 64" "i \<le> n"
  shows "store_loop val rel i n out = Some (overlay g (unat rel + i) (unat rel + n) out)"
  using assms
proof (induction "n - i" arbitrary: i out)
  case 0
  then show ?case
    by (auto simp: store_loop.simps [of val rel i] overlay_def intro!: nth_equalityI)
next
  case (Suc k)
  then have lt: "i < n" by simp
  have u: "unat (rel + of_nat i) = unat rel + i"
  proof -
    have "unat (of_nat i :: u64) = i" using lt Suc.prems by (simp add: unat_of_nat)
    then show ?thesis using lt Suc.prems by (subst unat_add_lt) auto
  qed
  have p: "poke out (rel + of_nat i) (g (unat rel + i)) = Some (out[unat rel + i := g (unat rel + i)])"
    using lt Suc.prems by (simp add: poke_def u)
  have "overlay g (unat rel + Suc i) (unat rel + n) (out[unat rel + i := g (unat rel + i)]) =
      overlay g (unat rel + i) (unat rel + n) out"
    using lt by (auto simp: overlay_def nth_list_update not_less_eq_eq intro!: nth_equalityI)
  then show ?case
    using Suc.hyps(1) [of "Suc i" "out[unat rel + i := g (unat rel + i)]"] Suc.hyps(2) Suc.prems lt p
    by (simp add: store_loop.simps [of val rel i])
qed

definition seg_byte :: "u8 list \<Rightarrow> nat \<Rightarrow> elf64_phdr \<Rightarrow> nat \<Rightarrow> u8" where
  "seg_byte raw rel p a =
     (if a - rel < unat (ph_filesz p) then raw ! (unat (ph_offset p) + (a - rel)) else 0)"

lemma load_seg_spec:
  assumes ok: "seg_ok len p" and len: "unat len \<le> length raw"
    and fit: "unat rel + unat (ph_memsz p) \<le> unat (ds :: u32)" "unat ds \<le> length out" "length out < 2 ^ 64"
  shows "load_seg raw rel p out =
    Some (overlay (seg_byte raw (unat rel) p) (unat rel) (unat rel + unat (ph_memsz p)) out)"
proof -
  let ?f = "unat (ph_filesz p)" and ?m = "unat (ph_memsz p)" and ?g = "seg_byte raw (unat rel) p"
  have fm: "?f \<le> ?m" "unat (ph_offset p) + ?f \<le> unat len" using ok by (auto simp: seg_ok_def)
  have m32: "?m < 2 ^ 32" using fit unat_bound [of ds] by simp
  have u: "unat (ucast (ph_filesz p) :: u32) = ?f" "unat (ucast (ph_memsz p) :: u32) = ?m"
    using m32 fm by (intro unat_ucast_small; simp)+
  have rd: "peek raw (ph_offset p + of_nat j) = Some (?g (unat rel + j))" if "j < ?f" for j
  proof -
    have "unat (of_nat j :: u64) = j" using that m32 fm by (simp add: unat_of_nat)
    then have "unat (ph_offset p + of_nat j) = unat (ph_offset p) + j"
      using that fm unat_bound [of len] by (subst unat_add_lt) auto
    then show ?thesis using that fm len by (simp add: peek_def seg_byte_def)
  qed
  have 1: "store_loop (\<lambda>i. peek raw (ph_offset p + of_nat i)) rel 0 ?f out =
      Some (overlay ?g (unat rel + 0) (unat rel + ?f) out)"
    by (rule store_loop_spec) (use rd fm fit in auto)
  have 2: "store_loop (\<lambda>i. Some 0) rel ?f ?m (overlay ?g (unat rel) (unat rel + ?f) out) =
      Some (overlay ?g (unat rel + ?f) (unat rel + ?m) (overlay ?g (unat rel) (unat rel + ?f) out))"
    by (rule store_loop_spec) (use fm fit in \<open>auto simp: seg_byte_def\<close>)
  have 3: "overlay ?g (unat rel + ?f) (unat rel + ?m) (overlay ?g (unat rel) (unat rel + ?f) out) =
      overlay ?g (unat rel) (unat rel + ?m) out"
    using fm by (auto intro!: nth_equalityI)
  show ?thesis unfolding load_seg_def u using 1 2 3 by simp
qed

definition covers :: "u64 \<Rightarrow> nat \<Rightarrow> elf64_phdr \<Rightarrow> bool" where
  "covers vaddr a p \<longleftrightarrow> unat (ph_vaddr p) - unat vaddr \<le> a \<and> a < seg_end p - unat vaddr"

definition image_byte :: "u8 list \<Rightarrow> u64 \<Rightarrow> elf64_phdr list \<Rightarrow> u8 \<Rightarrow> nat \<Rightarrow> u8" where
  "image_byte raw vaddr phs dflt a = (case List.find (covers vaddr a) phs of
     None \<Rightarrow> dflt | Some p \<Rightarrow> seg_byte raw (unat (ph_vaddr p) - unat vaddr) p a)"

definition seg_fits :: "u64 \<Rightarrow> u32 \<Rightarrow> elf64_phdr \<Rightarrow> bool" where
  "seg_fits vaddr ds p \<longleftrightarrow> seg_end p - unat vaddr \<le> unat ds"

lemma load_segs_spec:
  assumes "\<forall>p \<in> set phs. seg_ok len p \<and> vaddr \<le> ph_vaddr p"
    and "sorted_wrt (\<lambda>p q. seg_end p \<le> unat (ph_vaddr q)) phs"
    and len: "unat len \<le> length raw" and ds: "unat ds \<le> length out" "length out < 2 ^ 64"
  shows "\<exists>out'. load_segs raw ds vaddr phs out =
      (if \<forall>p \<in> set phs. seg_fits vaddr ds p then Accept () else Reject, out') \<and>
    length out' = length out \<and> (\<forall>a < length out. unat ds \<le> a \<longrightarrow> out' ! a = out ! a) \<and>
    ((\<forall>p \<in> set phs. seg_fits vaddr ds p) \<longrightarrow>
       (\<forall>a < length out. out' ! a = image_byte raw vaddr phs (out ! a) a))"
  using assms(1,2) ds
proof (induction phs arbitrary: out)
  case Nil
  then show ?case by (simp add: image_byte_def)
next
  case (Cons p phs)
  let ?rel = "ph_vaddr p - vaddr"
  have rel: "unat ?rel = unat (ph_vaddr p) - unat vaddr" "unat vaddr \<le> unat (ph_vaddr p)"
    using Cons.prems(1) by (auto simp: unat_sub_le word_le_nat_alt)
  have se: "seg_end p - unat vaddr = unat ?rel + unat (ph_memsz p)"
    using rel by (simp add: seg_end_def)
  have test: "ucast ds < ?rel \<or> ucast ds - ?rel < ph_memsz p \<longleftrightarrow> \<not> seg_fits vaddr ds p"
  proof (cases "ucast ds < ?rel")
    case False
    then have "unat (ucast ds - ?rel) = unat ds - unat ?rel"
      by (simp add: unat_sub_le unat_ucast_u32_u64 not_less)
    then show ?thesis using False unfolding seg_fits_def se word_less_nat_alt unat_ucast_u32_u64
      by auto
  qed (auto simp: seg_fits_def se word_less_nat_alt unat_ucast_u32_u64)
  show ?case
  proof (cases "seg_fits vaddr ds p")
    case False
    then show ?thesis using test by (auto simp: Let_def)
  next
    case True
    let ?out1 = "overlay (seg_byte raw (unat ?rel) p) (unat ?rel) (unat ?rel + unat (ph_memsz p)) out"
    have ls: "load_seg raw ?rel p out = Some ?out1"
      by (rule load_seg_spec [of len p raw ?rel ds])
         (use Cons.prems len True in \<open>auto simp: seg_fits_def se\<close>)
    have IH: "\<exists>out'. load_segs raw ds vaddr phs ?out1 =
        (if \<forall>p \<in> set phs. seg_fits vaddr ds p then Accept () else Reject, out') \<and>
      length out' = length out \<and> (\<forall>a < length out. unat ds \<le> a \<longrightarrow> out' ! a = ?out1 ! a) \<and>
      ((\<forall>p \<in> set phs. seg_fits vaddr ds p) \<longrightarrow>
         (\<forall>a < length out. out' ! a = image_byte raw vaddr phs (?out1 ! a) a))"
      using Cons.IH [of ?out1] Cons.prems by simp
    have hi: "?out1 ! a = out ! a" if "unat ds \<le> a" "a < length out" for a
      using that True by (simp add: seg_fits_def se)
    have im: "image_byte raw vaddr phs (?out1 ! a) a = image_byte raw vaddr (p # phs) (out ! a) a"
      if a: "a < length out" for a
    proof (cases "covers vaddr a p")
      case True
      have "\<not> covers vaddr a q" if "q \<in> set phs" for q
        using that True Cons.prems(2) by (fastforce simp: covers_def)
      then have "List.find (covers vaddr a) phs = None" by (auto simp: find_None_iff)
      then show ?thesis using True a rel se by (simp add: image_byte_def covers_def)
    next
      case False
      then have "\<not> (unat ?rel \<le> a \<and> a < unat ?rel + unat (ph_memsz p))"
        unfolding covers_def se rel(1) by simp
      then have "?out1 ! a = out ! a" using a by (simp only: nth_overlay if_False)
      then show ?thesis using False by (simp add: image_byte_def)
    qed
    show ?thesis using IH test True ls hi im by (auto simp: Let_def)
  qed
qed

lemma segments_head:
  assumes "segments raw eh \<noteq> []" "p \<in> set (segments raw eh)"
  shows "ph_vaddr (segments raw eh ! 0) \<le> ph_vaddr p"
proof -
  have s: "sorted (map ph_vaddr (segments raw eh))" by (simp add: segments_def)
  show ?thesis using assms s by (cases "segments raw eh") auto
qed

definition loads_at :: "u8 list \<Rightarrow> u32 \<Rightarrow> u32 \<Rightarrow> u64 \<Rightarrow> elf64_ehdr \<Rightarrow> bool" where
  "loads_at raw len ds vaddr eh \<longleftrightarrow> elf_image raw len eh \<and> ph_vaddr (segments raw eh ! 0) = vaddr \<and>
     (\<forall>p \<in> set (segments raw eh). seg_fits vaddr ds p)"

lemma elf_load_spec:
  assumes len: "unat len \<le> length raw" and ds: "unat ds \<le> length dest" "length dest < 2 ^ 64"
  shows "\<exists>r out. elf_load raw len dest ds vaddr = (r, out) \<and> length out = length dest \<and>
    (\<forall>a < length dest. unat ds \<le> a \<longrightarrow> out ! a = dest ! a) \<and>
    (if \<exists>eh. loads_at raw len ds vaddr eh
     then \<exists>eh. loads_at raw len ds vaddr eh \<and> r = Accept (eh_entry eh) \<and>
       (\<forall>a < unat ds. out ! a = image_byte raw vaddr (segments raw eh) 0 a)
     else r = Reject)"
proof (cases "\<exists>eh. elf_image raw len eh \<and> ph_vaddr (segments raw eh ! 0) = vaddr")
  case False
  then have "\<nexists>eh. loads_at raw len ds vaddr eh" by (auto simp: loads_at_def)
  moreover have "elf_load raw len dest ds vaddr = (Reject, dest)"
    using False unfolding elf_load_def elf_parse_char [OF len]
    by (auto split: option.splits)
  ultimately show ?thesis by auto
next
  case True
  then obtain eh where im: "elf_image raw len eh" and v: "ph_vaddr (segments raw eh ! 0) = vaddr" by auto
  have eh: "rd_ehdr raw = Some eh" "segments raw eh \<noteq> []" using im by (auto simp: elf_image_def)
  have la: "loads_at raw len ds vaddr eh' \<longleftrightarrow> eh' = eh \<and> (\<forall>p \<in> set (segments raw eh). seg_fits vaddr ds p)" for eh'
    using im v eh by (auto simp: loads_at_def elf_image_def)
  let ?z = "overlay (\<lambda>_. 0) 0 (unat ds) dest"
  have z: "store_loop (\<lambda>i. Some 0) 0 0 (unat ds) dest = Some ?z"
    using store_loop_spec [of 0 "unat ds" "\<lambda>_. Some 0" "\<lambda>_. 0" 0 dest] ds by simp
  have "\<exists>out'. load_segs raw ds vaddr (segments raw eh) ?z =
      (if \<forall>p \<in> set (segments raw eh). seg_fits vaddr ds p then Accept () else Reject, out') \<and>
    length out' = length dest \<and> (\<forall>a < length dest. unat ds \<le> a \<longrightarrow> out' ! a = ?z ! a) \<and>
    ((\<forall>p \<in> set (segments raw eh). seg_fits vaddr ds p) \<longrightarrow>
       (\<forall>a < length dest. out' ! a = image_byte raw vaddr (segments raw eh) (?z ! a) a))"
    using load_segs_spec [of "segments raw eh" len vaddr raw ds ?z] im len ds segments_head [OF eh(2)] v
    by (auto simp: elf_image_def)
  then obtain out' where o: "load_segs raw ds vaddr (segments raw eh) ?z =
      (if \<forall>p \<in> set (segments raw eh). seg_fits vaddr ds p then Accept () else Reject, out')"
    "length out' = length dest" "\<forall>a < length dest. unat ds \<le> a \<longrightarrow> out' ! a = ?z ! a"
    "(\<forall>p \<in> set (segments raw eh). seg_fits vaddr ds p) \<longrightarrow>
       (\<forall>a < length dest. out' ! a = image_byte raw vaddr (segments raw eh) (?z ! a) a)"
    by blast
  have "elf_parse raw len = Accept (eh, segments raw eh)"
    using elf_parse_char [OF len] eh(1) im by simp
  then have "elf_load raw len dest ds vaddr =
      (if \<forall>p \<in> set (segments raw eh). seg_fits vaddr ds p then Accept (eh_entry eh) else Reject, out')"
    using o(1) z v by (simp add: elf_load_def)
  then show ?thesis using la o ds by (auto simp: loads_at_def)
qed

section \<open>Properties\<close>

text \<open>A 125-byte executable: one segment of 5 file bytes and 8 bytes of memory at 0x400000.\<close>

definition elf_demo :: "u8 list" where
  "elf_demo = [0x7F, 0x45, 0x4C, 0x46, 2, 1, 1] @ replicate 9 0 @ [2, 0, 62, 0, 1, 0, 0, 0] @
     [0, 0, 0x40, 0, 0, 0, 0, 0] @ [64, 0, 0, 0, 0, 0, 0, 0] @ replicate 8 0 @ replicate 4 0 @
     [64, 0, 56, 0, 1, 0, 0, 0, 0, 0, 0, 0] @
     [1, 0, 0, 0, 5, 0, 0, 0] @ [120, 0, 0, 0, 0, 0, 0, 0] @ [0, 0, 0x40, 0, 0, 0, 0, 0] @
     replicate 8 0 @ [5, 0, 0, 0, 0, 0, 0, 0] @ [8, 0, 0, 0, 0, 0, 0, 0] @ replicate 8 0 @
     [10, 20, 30, 40, 50]"

text \<open>
  C32. The parser reads nothing outside a file at least as long as the stated length, and it
  accepts exactly the well-formed images: valid identification and header fields, a program
  header table inside the file, every loadable segment with its file bytes inside the file
  and its memory not wrapping, the segments disjoint, and the entry point inside one of them.
  The segments come back sorted by address.
\<close>

theorem elf_parse_correct:
  assumes "unat len \<le> length raw"
  shows "elf_parse raw len \<noteq> Fault \<and>
    (elf_parse raw len = Accept (eh, phs) \<longleftrightarrow> elf_image raw len eh \<and> phs = segments raw eh)"
  using elf_parse_char [OF assms] by (auto simp: elf_image_def split: option.splits)

theorem elf_parse_correct_witness:
  "\<exists>eh. elf_parse elf_demo 125 = Accept (eh, segments elf_demo eh) \<and> elf_image elf_demo 125 eh"
proof -
  have ne: "case elf_parse elf_demo 125 of Accept x \<Rightarrow> True | _ \<Rightarrow> False" by code_simp
  then obtain eh phs where a: "elf_parse elf_demo 125 = Accept (eh, phs)"
    by (cases "elf_parse elf_demo 125") auto
  have "unat (125 :: u32) \<le> length elf_demo" by (simp add: elf_demo_def)
  from elf_parse_correct [OF this, of eh phs] a show ?thesis by auto
qed

text \<open>
  C16. The loader never reads or writes outside the file and the destination. It accepts
  exactly the well-formed images whose lowest segment starts at \<open>vaddr\<close> and whose segments end
  within \<open>dest_size\<close> bytes of it; then it returns the entry point, and every destination byte
  is the file byte of the segment that covers it, 0 in the part of a segment beyond its file
  bytes, and 0 outside the segments. Bytes past \<open>dest_size\<close> are never touched.
\<close>

theorem elf_load_correct:
  assumes "unat len \<le> length raw" "unat ds \<le> length dest" "length dest < 2 ^ 64"
  shows "\<exists>r out. elf_load raw len dest ds vaddr = (r, out) \<and> length out = length dest \<and>
    (\<forall>a < length dest. unat ds \<le> a \<longrightarrow> out ! a = dest ! a) \<and>
    (if \<exists>eh. loads_at raw len ds vaddr eh
     then \<exists>eh. loads_at raw len ds vaddr eh \<and> r = Accept (eh_entry eh) \<and>
       (\<forall>a < unat ds. out ! a = image_byte raw vaddr (segments raw eh) 0 a)
     else r = Reject)"
  by (rule elf_load_spec [OF assms])

theorem elf_load_correct_witness:
  "\<exists>eh. loads_at elf_demo 125 10 0x400000 eh \<and>
     elf_load elf_demo 125 (replicate 12 9) 10 0x400000 =
       (Accept (eh_entry eh), [10, 20, 30, 40, 50, 0, 0, 0, 0, 0, 9, 9])"
proof -
  have l: "elf_load elf_demo 125 (replicate 12 9) 10 0x400000 =
      (Accept 0x400000, [10, 20, 30, 40, 50, 0, 0, 0, 0, 0, 9, 9])" by code_simp
  have "unat (125 :: u32) \<le> length elf_demo" "unat (10 :: u32) \<le> length (replicate 12 (9 :: u8))"
    "length (replicate 12 (9 :: u8)) < 2 ^ 64"
    by (simp_all add: elf_demo_def)
  from elf_load_correct [OF this, of "0x400000"] l show ?thesis by (auto split: if_splits)
qed

text \<open>
  The in-place insertion sort of the segment pointers is a stable sort by address.
\<close>

theorem elf_sort_stable: "elf_sort phs = sort_key ph_vaddr phs"
  by (rule elf_sort_sort_key)

end
