(* ===== verification/Sched.thy ===== *)
theory Sched
  imports Vmm
begin

text \<open>
  Tasks, descriptors, pipes, signals and scheduling: \<open>kernel/sched.c\<close>. The registers that
  \<open>struct task\<close> and \<open>struct interrupt_frame\<close> share are the record \<open>regs\<close>. A frame argument is an
  option, \<open>None\<close> for a null pointer; a slot result of -1 is \<open>None\<close>. A pipe's page is its list of
  bytes: \<open>pmm\<close> hands the page out to the pipe alone. Functions that may not come back to the
  caller's frame return where control goes (\<open>outcome\<close>). While the processor halts in
  \<open>idle_until_ready\<close> it takes the interrupts listed in the field \<open>irqs\<close>, in order.
\<close>

section \<open>Data\<close>

definition TASK_MAX :: nat where "TASK_MAX = 16"
definition FD_MAX :: nat where "FD_MAX = 8"
definition FD_PATH_MAX :: nat where "FD_PATH_MAX = 32"
definition CWD_PATH_MAX :: nat where "CWD_PATH_MAX = 80"
definition TASK_NAME_MAX :: nat where "TASK_NAME_MAX = 8"
definition PIPE_MAX :: nat where "PIPE_MAX = 4"
definition PIPE_CAP :: u32 where "PIPE_CAP = 0x1000"
definition PIPE_MASK :: u32 where "PIPE_MASK = PIPE_CAP - 1"
definition USER_CS :: u64 where "USER_CS = 0x2B"
definition USER_DS :: u64 where "USER_DS = 0x23"
definition PEND_TERM :: u8 where "PEND_TERM = 1"
definition PEND_INT :: u8 where "PEND_INT = 2"
definition SIGINT :: int where "SIGINT = 2"
definition SIGTERM :: int where "SIGTERM = 15"
definition PIPE_MIN_PHYS :: u64 where "PIPE_MIN_PHYS = 0x200000"

datatype task_state = TASK_DEAD | TASK_READY | TASK_SLEEP | TASK_WAIT | TASK_PIPE | TASK_KBD

text \<open>Descriptor kinds; the first is the source's 0.\<close>

datatype fd_kind = FD_KIND_NONE | FD_KIND_FILE | FD_KIND_PIPE_R | FD_KIND_PIPE_W
  | FD_KIND_CONSOLE_R | FD_KIND_CONSOLE_W

record fd_entry =
  fd_used :: bool
  fd_kind :: fd_kind
  fd_pipe :: int
  fd_offset :: u32
  fd_path :: string

record pipe =
  p_used :: bool
  p_head :: u32
  p_len :: u32
  rrefs :: int
  wrefs :: int
  p_phys :: u64
  p_data :: "u8 list option"

record regs =
  rax :: u64
  rbx :: u64
  rcx :: u64
  rdx :: u64
  rdi :: u64
  rsi :: u64
  rbp :: u64
  r8 :: u64
  r9 :: u64
  r10 :: u64
  r11 :: u64
  r12 :: u64
  r13 :: u64
  r14 :: u64
  r15 :: u64
  rip :: u64
  cs :: u64
  rflags :: u64
  rsp :: u64
  ss :: u64

record interrupt_frame = regs +
  vector :: u64
  error :: u64

record task =
  ctx :: regs
  kstack_top :: u64
  user_base :: u64
  brk :: u64
  cr3 :: u64
  cwd :: u32
  cwd_path :: string
  parent :: int
  wait_pid :: int
  t_name :: string
  t_state :: task_state
  t_row :: int
  writes :: u32
  wake_tick :: u32
  cpu_ticks :: u32
  exit_code :: u8
  reaped :: bool
  seen_status :: bool
  shown_status :: u8
  pending :: u8
  handler_int :: u64
  handler_term :: u64
  pipe_wait :: int
  fds :: "fd_entry list"

datatype irq = Irq_timer | Irq_line | Irq_sigint

record sched =
  tasks :: "task list"
  pipes :: "pipe list"
  task_count :: nat
  current :: nat
  last_added :: int
  fg_slot :: int
  vm :: vmm
  scr :: vga
  tss_rsp0 :: u64
  ticks :: u32
  stdin_ready :: bool
  irqs :: "irq list"

text \<open>
  Where a function that may switch tasks goes: back to the caller, with the frame it returns
  through, or to a halt that never ends, or it is still idle when the listed interrupts are over.
\<close>

datatype outcome = Run "interrupt_frame option" | Halted | Idle

section \<open>Access\<close>

definition task_at :: "sched \<Rightarrow> nat \<Rightarrow> task" where
  "task_at s i = tasks s ! i"

definition upd_task :: "nat \<Rightarrow> (task \<Rightarrow> task) \<Rightarrow> sched \<Rightarrow> sched" where
  "upd_task i f s = s\<lparr>tasks := (tasks s)[i := f (tasks s ! i)]\<rparr>"

definition pipe_at :: "sched \<Rightarrow> int \<Rightarrow> pipe" where
  "pipe_at s p = pipes s ! nat p"

definition upd_pipe :: "int \<Rightarrow> (pipe \<Rightarrow> pipe) \<Rightarrow> sched \<Rightarrow> sched" where
  "upd_pipe p f s = s\<lparr>pipes := (pipes s)[nat p := f (pipes s ! nat p)]\<rparr>"

definition fd_at :: "sched \<Rightarrow> nat \<Rightarrow> nat \<Rightarrow> fd_entry" where
  "fd_at s i j = fds (tasks s ! i) ! j"

definition set_fd :: "nat \<Rightarrow> nat \<Rightarrow> fd_entry \<Rightarrow> sched \<Rightarrow> sched" where
  "set_fd i j e s = upd_task i (\<lambda>t. t\<lparr>fds := (fds t)[j := e]\<rparr>) s"

definition cur_task :: "sched \<Rightarrow> task" where
  "cur_task s = task_at s (current s)"

definition upd_cur :: "(task \<Rightarrow> task) \<Rightarrow> sched \<Rightarrow> sched" where
  "upd_cur f s = upd_task (current s) f s"

definition NUL :: char where "NUL = CHR 0x00"

text \<open>The C string held by a character array.\<close>

definition cstr :: "string \<Rightarrow> string" where
  "cstr a = takeWhile (\<lambda>c. c \<noteq> NUL) a"

text \<open>
  Copying at most \<open>m\<close> characters of a string into an array and terminating it; what is behind the
  terminator stays.
\<close>

definition copy_str :: "nat \<Rightarrow> string \<Rightarrow> string option \<Rightarrow> string" where
  "copy_str m dst src =
     (let c = take m (case src of None \<Rightarrow> [] | Some x \<Rightarrow> cstr x)
      in c @ NUL # drop (length c + 1) dst)"

definition copy_path :: "string \<Rightarrow> string option \<Rightarrow> string" where
  "copy_path dst src = copy_str (FD_PATH_MAX - 1) dst src"

definition copy_name :: "string \<Rightarrow> string option \<Rightarrow> string" where
  "copy_name dst src = copy_str TASK_NAME_MAX dst src"

definition copy_cwd_path :: "string \<Rightarrow> string option \<Rightarrow> string" where
  "copy_cwd_path dst src =
     (if src = None \<or> cstr (the src) = [] then CHR ''/'' # NUL # drop 2 dst
      else copy_str (CWD_PATH_MAX - 1) dst src)"

section \<open>Contexts\<close>

definition save_task :: "interrupt_frame \<Rightarrow> task \<Rightarrow> task" where
  "save_task f t = t\<lparr>ctx := (ctx t)\<lparr>
       rax := rax f, rbx := rbx f, rcx := rcx f, rdx := rdx f, rdi := rdi f, rsi := rsi f, rbp := rbp f,
       r8 := r8 f, r9 := r9 f, r10 := r10 f, r11 := r11 f, r12 := r12 f, r13 := r13 f, r14 := r14 f,
       r15 := r15 f, rip := rip f, cs := cs f, rflags := rflags f, rsp := rsp f, ss := ss f\<rparr>\<rparr>"

definition load_frame :: "interrupt_frame \<Rightarrow> task \<Rightarrow> interrupt_frame" where
  "load_frame f t = f\<lparr>
       rax := rax (ctx t), rbx := rbx (ctx t), rcx := rcx (ctx t), rdx := rdx (ctx t), rdi := rdi (ctx t), rsi := rsi (ctx t), rbp := rbp (ctx t),
       r8 := r8 (ctx t), r9 := r9 (ctx t), r10 := r10 (ctx t), r11 := r11 (ctx t), r12 := r12 (ctx t), r13 := r13 (ctx t), r14 := r14 (ctx t),
       r15 := r15 (ctx t), rip := rip (ctx t), cs := cs (ctx t), rflags := rflags (ctx t), rsp := rsp (ctx t), ss := ss (ctx t)\<rparr>"

text \<open>No register of the frame is left out.\<close>

lemma save_task_eq: "save_task f t = t\<lparr>ctx := regs.truncate f\<rparr>"
proof -
  have "ctx (save_task f t) = regs.truncate f" unfolding save_task_def by (rule regs.equality) (simp_all add: regs.truncate_def)
  then show ?thesis by (simp add: save_task_def)
qed

lemma load_frame_eq: "load_frame f t = regs.extend (ctx t) (interrupt_frame.fields (vector f) (error f))"
  unfolding load_frame_def by (rule interrupt_frame.equality) (simp_all add: regs.extend_def interrupt_frame.fields_def)

definition load_task :: "interrupt_frame \<Rightarrow> nat \<Rightarrow> sched \<Rightarrow> interrupt_frame \<times> sched" where
  "load_task f i s =
     (load_frame f (task_at s i), s\<lparr>vm := vmm_set_cr3 (cr3 (task_at s i)) (vm s)\<rparr>)"

definition pick_next :: "nat \<Rightarrow> sched \<Rightarrow> nat option" where
  "pick_next from s =
     find (\<lambda>idx. t_state (task_at s idx) = TASK_READY)
       (map (\<lambda>i. (from + i) mod task_count s) [1..<task_count s + 1])"

definition set_current :: "nat \<Rightarrow> sched \<Rightarrow> sched" where
  "set_current idx s = s\<lparr>current := idx, tss_rsp0 := kstack_top (task_at s idx)\<rparr>"

text \<open>The two calls that end every switch.\<close>

definition dispatch :: "interrupt_frame \<Rightarrow> nat \<Rightarrow> sched \<Rightarrow> outcome \<times> sched" where
  "dispatch f next s =
     (case load_task f next (set_current next s) of (f', s') \<Rightarrow> (Run (Some f'), s'))"

section \<open>Pipes and descriptors\<close>

definition map_tasks :: "(task \<Rightarrow> task) \<Rightarrow> sched \<Rightarrow> sched" where
  "map_tasks f s = s\<lparr>tasks := map f (take (task_count s) (tasks s)) @ drop (task_count s) (tasks s)\<rparr>"

definition wake_pipe_waiters :: "int \<Rightarrow> sched \<Rightarrow> sched" where
  "wake_pipe_waiters p s =
     map_tasks (\<lambda>t. if t_state t = TASK_PIPE \<and> pipe_wait t = p
                    then t\<lparr>t_state := TASK_READY, pipe_wait := -1\<rparr> else t) s"

definition empty_pipe :: pipe where
  "empty_pipe = \<lparr>p_used = False, p_head = 0, p_len = 0, rrefs = 0, wrefs = 0, p_phys = 0, p_data = None\<rparr>"

definition valid_pipe :: "int \<Rightarrow> bool" where
  "valid_pipe p \<longleftrightarrow> 0 \<le> p \<and> p < int PIPE_MAX"

definition free_pipe :: "int \<Rightarrow> sched \<Rightarrow> sched" where
  "free_pipe p s =
     (if \<not> valid_pipe p then s
      else let ph = p_phys (pipe_at s p);
               s1 = (if ph \<noteq> 0 then s\<lparr>vm := free_page ph (vm s)\<rparr> else s)
           in upd_pipe p (\<lambda>_. empty_pipe) s1)"

definition alloc_pipe :: "sched \<Rightarrow> int option \<times> sched" where
  "alloc_pipe s =
     (case find (\<lambda>i. \<not> p_used (pipes s ! i)) [0..<PIPE_MAX] of
        None \<Rightarrow> (None, s)
      | Some i \<Rightarrow>
          (case (case alloc_page_above PIPE_MIN_PHYS (vm s) of (ph, v) \<Rightarrow> if ph = 0 then alloc_page v else (ph, v)) of
             (phys, v1) \<Rightarrow>
               if phys = 0 then (None, s\<lparr>vm := v1\<rparr>)
               else (Some (int i),
                     upd_pipe (int i) (\<lambda>_. \<lparr>p_used = True, p_head = 0, p_len = 0, rrefs = 0, wrefs = 0,
                       p_phys = phys, p_data = Some (replicate (unat PIPE_CAP) 0)\<rparr>) (s\<lparr>vm := v1\<rparr>))))"

definition is_pipe :: "fd_kind \<Rightarrow> bool" where
  "is_pipe k \<longleftrightarrow> k = FD_KIND_PIPE_R \<or> k = FD_KIND_PIPE_W"

definition live_pipe :: "sched \<Rightarrow> int \<Rightarrow> bool" where
  "live_pipe s p \<longleftrightarrow> valid_pipe p \<and> p_used (pipe_at s p)"

definition empty_fd :: fd_entry where
  "empty_fd = \<lparr>fd_used = False, fd_kind = FD_KIND_NONE, fd_pipe = -1, fd_offset = 0,
     fd_path = replicate FD_PATH_MAX NUL\<rparr>"

definition unref :: "fd_kind \<Rightarrow> pipe \<Rightarrow> pipe" where
  "unref k p =
     (if k = FD_KIND_PIPE_R then (if 0 < rrefs p then p\<lparr>rrefs := rrefs p - 1\<rparr> else p)
      else if 0 < wrefs p then p\<lparr>wrefs := wrefs p - 1\<rparr> else p)"

definition addref :: "fd_kind \<Rightarrow> pipe \<Rightarrow> pipe" where
  "addref k p = (if k = FD_KIND_PIPE_R then p\<lparr>rrefs := rrefs p + 1\<rparr> else p\<lparr>wrefs := wrefs p + 1\<rparr>)"

definition drop_fd :: "nat \<Rightarrow> nat \<Rightarrow> sched \<Rightarrow> sched" where
  "drop_fd i j s =
     (let e = fd_at s i j in
      if \<not> fd_used e then s
      else let s1 = (if is_pipe (fd_kind e) \<and> live_pipe s (fd_pipe e)
                     then let p = fd_pipe e;
                              s2 = wake_pipe_waiters p (upd_pipe p (unref (fd_kind e)) s)
                          in if rrefs (pipe_at s2 p) = 0 \<and> wrefs (pipe_at s2 p) = 0 then free_pipe p s2 else s2
                     else s)
           in set_fd i j empty_fd s1)"

definition clear_fds :: "nat \<Rightarrow> sched \<Rightarrow> sched" where
  "clear_fds i s = fold (drop_fd i) [0..<FD_MAX] s"

text \<open>\<open>e->path[0] = '\0'\<close>.\<close>

definition no_path :: "string \<Rightarrow> string" where
  "no_path p = NUL # drop 1 p"

definition console_fd :: "fd_kind \<Rightarrow> fd_entry \<Rightarrow> fd_entry" where
  "console_fd k e =
     e\<lparr>fd_used := True, fd_kind := k, fd_pipe := -1, fd_offset := 0, fd_path := no_path (fd_path e)\<rparr>"

definition bind_console_std :: "nat \<Rightarrow> sched \<Rightarrow> sched" where
  "bind_console_std i s =
     upd_task i (\<lambda>t. t\<lparr>fds := (fds t)[0 := console_fd FD_KIND_CONSOLE_R (fds t ! 0),
        1 := console_fd FD_KIND_CONSOLE_W (fds t ! 1), 2 := console_fd FD_KIND_CONSOLE_W (fds t ! 2)]\<rparr>) s"

section \<open>Slots\<close>

definition free_task_user :: "nat \<Rightarrow> sched \<Rightarrow> sched" where
  "free_task_user i s =
     (if cr3 (task_at s i) = 0 then s
      else upd_task i (\<lambda>t. t\<lparr>user_base := 0, brk := 0\<rparr>)
             (s\<lparr>vm := vmm_teardown_user (cr3 (task_at s i)) (vm s)\<rparr>))"

definition free_task_kstack :: "nat \<Rightarrow> sched \<Rightarrow> sched" where
  "free_task_kstack i s =
     (if kstack_top (task_at s i) = 0 then s
      else let kphys = virt_to_phys (hhdm_ready (vm s)) (kstack_top (task_at s i) - PAGE_4K)
           in upd_task i (\<lambda>t. t\<lparr>kstack_top := 0\<rparr>)
                (if kphys \<noteq> 0 then s\<lparr>vm := free_page kphys (vm s)\<rparr> else s))"

definition free_task_pml4 :: "nat \<Rightarrow> sched \<Rightarrow> sched" where
  "free_task_pml4 i s =
     (let c = cr3 (task_at s i) in
      if c = 0 then s
      else upd_task i (\<lambda>t. t\<lparr>cr3 := 0\<rparr>)
             (if c \<noteq> vmm_boot_cr3 then s\<lparr>vm := free_page c (vm s)\<rparr> else s))"

definition init_task :: "task \<Rightarrow> task" where
  "init_task t =
     t\<lparr>t_state := TASK_DEAD, writes := 0, wake_tick := 0, cpu_ticks := 0, exit_code := 0, reaped := False,
       seen_status := False, shown_status := 0, pending := 0, handler_int := 0, handler_term := 0,
       pipe_wait := -1, kstack_top := 0, user_base := 0, brk := 0, cr3 := 0, cwd := 0,
       cwd_path := CHR ''/'' # NUL # drop 2 (cwd_path t), parent := -1, wait_pid := 0,
       t_name := NUL # drop 1 (t_name t)\<rparr>"

definition sched_init :: "sched \<Rightarrow> sched" where
  "sched_init s =
     fold (\<lambda>i s. clear_fds i (upd_task i init_task s)) [0..<TASK_MAX]
       (s\<lparr>task_count := 0, current := 0, last_added := -1, fg_slot := -1, pipes := replicate PIPE_MAX empty_pipe\<rparr>)"

definition slot_reusable :: "task \<Rightarrow> bool" where
  "slot_reusable t \<longleftrightarrow> t_state t = TASK_DEAD \<and> \<not> (0 \<le> parent t \<and> \<not> reaped t)"

definition child_of :: "sched \<Rightarrow> int \<Rightarrow> int \<Rightarrow> bool" where
  "child_of s p idx \<longleftrightarrow> 0 \<le> p \<and> 0 \<le> idx \<and> idx < int (task_count s) \<and>
     parent (task_at s (nat idx)) = p \<and> \<not> reaped (task_at s (nat idx))"

definition find_zombie :: "int \<Rightarrow> int \<Rightarrow> sched \<Rightarrow> nat option" where
  "find_zombie p want s =
     (if want \<noteq> 0
      then if child_of s p want \<and> t_state (task_at s (nat want)) = TASK_DEAD then Some (nat want) else None
      else find (\<lambda>i. child_of s p (int i) \<and> t_state (task_at s i) = TASK_DEAD) [0..<task_count s])"

definition has_child :: "int \<Rightarrow> int \<Rightarrow> sched \<Rightarrow> bool" where
  "has_child p want s =
     (if want \<noteq> 0 then child_of s p want else list_ex (\<lambda>i. child_of s p (int i)) [0..<task_count s])"

definition reap_child :: "nat \<Rightarrow> sched \<Rightarrow> u8 \<times> sched" where
  "reap_child child s = (exit_code (task_at s child), upd_task child (\<lambda>t. t\<lparr>reaped := True\<rparr>) s)"

definition sched_base_busy :: "u64 \<Rightarrow> u64 \<Rightarrow> sched \<Rightarrow> bool" where
  "sched_base_busy base c s \<longleftrightarrow> base = 0 \<or> c = 0 \<or>
     list_ex (\<lambda>i. t_state (task_at s i) \<noteq> TASK_DEAD \<and> cr3 (task_at s i) = c \<and> user_base (task_at s i) = base)
       [0..<task_count s]"

definition user_regs :: "u64 \<Rightarrow> u64 \<Rightarrow> regs" where
  "user_regs ip sp = \<lparr>rax = 0, rbx = 0, rcx = 0, rdx = 0, rdi = 0, rsi = 0, rbp = 0, r8 = 0, r9 = 0, r10 = 0,
     r11 = 0, r12 = 0, r13 = 0, r14 = 0, r15 = 0, rip = ip, cs = USER_CS, rflags = 0x202, rsp = sp, ss = USER_DS\<rparr>"

text \<open>The first reusable slot, freed, or else the next one.\<close>

definition take_slot :: "sched \<Rightarrow> nat option \<times> sched" where
  "take_slot s =
     (case find (\<lambda>i. slot_reusable (task_at s i)) [0..<task_count s] of
        Some i \<Rightarrow> (Some i, free_task_pml4 i (free_task_kstack i (free_task_user i s)))
      | None \<Rightarrow> if TASK_MAX \<le> task_count s then (None, s)
                else (Some (task_count s), s\<lparr>task_count := task_count s + 1\<rparr>))"

text \<open>\<open>fs_cwd()\<close> and \<open>fs_pwd()\<close> of the file system are the arguments \<open>wd\<close> and \<open>pwd\<close>.\<close>

definition sched_add_user ::
  "u32 \<Rightarrow> string \<Rightarrow> u64 \<Rightarrow> u64 \<Rightarrow> u64 \<Rightarrow> int \<Rightarrow> u64 \<Rightarrow> u64 \<Rightarrow> sched \<Rightarrow> bool \<times> sched" where
  "sched_add_user wd pwd ip sp ktop row base c s =
     (if ktop = 0 \<or> base = 0 \<or> c = 0 \<or> c = vmm_boot_cr3 then (False, s)
      else if sched_base_busy base c s then (False, s)
      else case take_slot (if task_count s = 0 then s\<lparr>current := 0\<rparr> else s) of
          (None, s1) \<Rightarrow> (False, s1)
        | (Some i, s1) \<Rightarrow>
            let s2 = upd_task i (\<lambda>t. t\<lparr>ctx := user_regs ip sp, kstack_top := ktop, user_base := base,
                       brk := base + 2 * PAGE_4K, cr3 := c, cwd := wd,
                       cwd_path := copy_cwd_path (cwd_path t) (Some pwd), parent := -1, wait_pid := 0,
                       t_name := NUL # drop 1 (t_name t), t_state := TASK_READY,
                       t_row := (if row < 0 \<or> VGA_HEIGHT \<le> row then VGA_HEIGHT - 1 else row),
                       writes := 0, wake_tick := 0, cpu_ticks := 0, exit_code := 0, reaped := False,
                       seen_status := False, shown_status := 0, pending := 0, handler_int := 0,
                       handler_term := 0, pipe_wait := -1\<rparr>) s1;
                s3 = bind_console_std i (clear_fds i s2)
            in (True, s3\<lparr>last_added := int i\<rparr>))"

text \<open>A copied descriptor whose pipe is gone is cleared; its path stays.\<close>

definition stale_fd :: "fd_entry \<Rightarrow> fd_entry" where
  "stale_fd e = e\<lparr>fd_used := False, fd_kind := FD_KIND_NONE, fd_pipe := -1, fd_offset := 0\<rparr>"

definition copy_fd :: "nat \<Rightarrow> nat \<Rightarrow> fd_entry \<Rightarrow> sched \<Rightarrow> sched" where
  "copy_fd i j src s = set_fd i j src s"

text \<open>After a copy: count the new reference, or clear the copy.\<close>

definition count_fd :: "nat \<Rightarrow> nat \<Rightarrow> sched \<Rightarrow> bool \<times> sched" where
  "count_fd i j s =
     (let e = fd_at s i j in
      if \<not> is_pipe (fd_kind e) then (True, s)
      else if \<not> live_pipe s (fd_pipe e) then (False, set_fd i j (stale_fd e) s)
      else (True, upd_pipe (fd_pipe e) (addref (fd_kind e)) s))"

definition inherit_fds :: "nat \<Rightarrow> nat \<Rightarrow> sched \<Rightarrow> sched" where
  "inherit_fds dst src s =
     fold (\<lambda>j s. let s1 = copy_fd dst j (fd_at s src j) s in
        if fd_used (fd_at s1 dst j) then snd (count_fd dst j s1) else s1) [0..<FD_MAX] s"

definition sched_fork :: "interrupt_frame option \<Rightarrow> u64 \<Rightarrow> u64 \<Rightarrow> sched \<Rightarrow> nat option \<times> sched" where
  "sched_fork fo ktop c s =
     (case fo of None \<Rightarrow> (None, s) | Some f \<Rightarrow>
      if task_count s = 0 \<or> ktop = 0 \<or> c = 0 \<or> c = vmm_boot_cr3 then (None, s)
      else let p = cur_task s in
        if t_state p = TASK_DEAD \<or> cr3 p = 0 \<or> cr3 p = c then (None, s)
        else case take_slot s of
            (None, s1) \<Rightarrow> (None, s1)
          | (Some i, s1) \<Rightarrow>
              let s2 = upd_task i (\<lambda>t. (save_task f t)\<lparr>ctx := (ctx (save_task f t))\<lparr>rax := 0\<rparr>, kstack_top := ktop,
                         user_base := user_base p, brk := brk p, cr3 := c, cwd := cwd p,
                         cwd_path := copy_cwd_path (cwd_path t) (Some (cwd_path p)), parent := int (current s),
                         wait_pid := 0, t_name := copy_name (t_name t) (Some (t_name p)), t_state := TASK_READY,
                         t_row := (let row = t_row p + 1 in if row < 0 \<or> VGA_HEIGHT \<le> row then t_row p else row),
                         writes := 0, wake_tick := 0, cpu_ticks := 0, exit_code := 0, reaped := False,
                         seen_status := False, shown_status := 0, pending := 0, handler_int := handler_int p,
                         handler_term := handler_term p, pipe_wait := -1\<rparr>) s1;
                  s3 = inherit_fds i (current s) (clear_fds i s2)
              in (Some i, s3\<lparr>last_added := int i\<rparr>))"

section \<open>Descriptors of the running task\<close>

definition valid_fd :: "int \<Rightarrow> bool" where
  "valid_fd fd \<longleftrightarrow> 0 \<le> fd \<and> fd < int FD_MAX"

definition cur_fd :: "sched \<Rightarrow> int \<Rightarrow> fd_entry" where
  "cur_fd s fd = fd_at s (current s) (nat fd)"

definition file_fd :: "u32 \<Rightarrow> string \<Rightarrow> fd_entry \<Rightarrow> fd_entry" where
  "file_fd off path e =
     e\<lparr>fd_used := True, fd_kind := FD_KIND_FILE, fd_pipe := -1, fd_offset := off,
       fd_path := copy_path (fd_path e) (Some path)\<rparr>"

definition sched_fd_open :: "string option \<Rightarrow> sched \<Rightarrow> nat option \<times> sched" where
  "sched_fd_open path s =
     (if task_count s = 0 \<or> path = None \<or> cstr (the path) = [] then (None, s)
      else case find (\<lambda>j. \<not> fd_used (fd_at s (current s) j)) [0..<FD_MAX] of
          None \<Rightarrow> (None, s)
        | Some j \<Rightarrow> (Some j, set_fd (current s) j (file_fd 0 (the path) (fd_at s (current s) j)) s))"

definition sched_fd_close :: "int \<Rightarrow> sched \<Rightarrow> bool \<times> sched" where
  "sched_fd_close fd s =
     (if task_count s = 0 \<or> \<not> valid_fd fd then (False, s)
      else if \<not> fd_used (cur_fd s fd) then (False, s)
      else (True, drop_fd (current s) (nat fd) s))"

definition sched_fd_dup2 :: "int \<Rightarrow> int \<Rightarrow> sched \<Rightarrow> int option \<times> sched" where
  "sched_fd_dup2 oldfd newfd s =
     (if task_count s = 0 \<or> \<not> valid_fd oldfd \<or> \<not> valid_fd newfd then (None, s)
      else if \<not> fd_used (cur_fd s oldfd) then (None, s)
      else if oldfd = newfd then (Some newfd, s)
      else let s1 = (if fd_used (cur_fd s newfd) then drop_fd (current s) (nat newfd) s else s);
               s2 = copy_fd (current s) (nat newfd) (cur_fd s1 oldfd) s1
           in case count_fd (current s) (nat newfd) s2 of
                (ok, s3) \<Rightarrow> (if ok then Some newfd else None, s3))"

definition sched_fd_lseek :: "int \<Rightarrow> u32 \<Rightarrow> sched \<Rightarrow> int \<times> sched" where
  "sched_fd_lseek fd off s =
     (if task_count s = 0 \<or> \<not> valid_fd fd then (-1, s)
      else let e = cur_fd s fd in
        if \<not> fd_used e \<or> fd_kind e \<noteq> FD_KIND_FILE then (-1, s)
        else (sint off, set_fd (current s) (nat fd) (e\<lparr>fd_offset := off\<rparr>) s))"

definition sched_fd_offset :: "int \<Rightarrow> sched \<Rightarrow> u32" where
  "sched_fd_offset fd s =
     (if task_count s = 0 \<or> \<not> valid_fd fd then 0
      else let e = cur_fd s fd in if \<not> fd_used e \<or> fd_kind e \<noteq> FD_KIND_FILE then 0 else fd_offset e)"

definition sched_fd_path :: "int \<Rightarrow> sched \<Rightarrow> string option" where
  "sched_fd_path fd s =
     (if task_count s = 0 \<or> \<not> valid_fd fd then None
      else let e = cur_fd s fd in
        if \<not> fd_used e \<or> fd_kind e \<noteq> FD_KIND_FILE then None else Some (take FD_PATH_MAX (fd_path e)))"

definition sched_fd_kind :: "int \<Rightarrow> sched \<Rightarrow> fd_kind" where
  "sched_fd_kind fd s =
     (if task_count s = 0 \<or> \<not> valid_fd fd then FD_KIND_NONE
      else if \<not> fd_used (cur_fd s fd) then FD_KIND_NONE else fd_kind (cur_fd s fd))"

definition sched_fd_pipe :: "int \<Rightarrow> sched \<Rightarrow> int" where
  "sched_fd_pipe fd s =
     (if task_count s = 0 \<or> \<not> valid_fd fd then -1
      else let e = cur_fd s fd in if \<not> fd_used e \<or> \<not> is_pipe (fd_kind e) then -1 else fd_pipe e)"

definition pipe_fd :: "fd_kind \<Rightarrow> int \<Rightarrow> fd_entry \<Rightarrow> fd_entry" where
  "pipe_fd k p e = e\<lparr>fd_used := True, fd_kind := k, fd_pipe := p, fd_offset := 0\<rparr>"

text \<open>The two lowest free descriptors.\<close>

definition two_free :: "sched \<Rightarrow> (nat \<times> nat) option" where
  "two_free s =
     (case filter (\<lambda>j. \<not> fd_used (fd_at s (current s) j)) [0..<FD_MAX] of
        r # w # _ \<Rightarrow> Some (r, w) | _ \<Rightarrow> None)"

definition sched_pipe :: "sched \<Rightarrow> (nat \<times> nat) option \<times> sched" where
  "sched_pipe s =
     (if task_count s = 0 then (None, s)
      else case two_free s of None \<Rightarrow> (None, s)
        | Some (r, w) \<Rightarrow>
            (case alloc_pipe s of
               (None, s1) \<Rightarrow> (None, s1)
             | (Some p, s1) \<Rightarrow>
                 let s2 = upd_pipe p (\<lambda>q. q\<lparr>rrefs := 1, wrefs := 1\<rparr>) s1;
                     s3 = set_fd (current s) r (pipe_fd FD_KIND_PIPE_R p (fd_at s2 (current s) r)) s2;
                     s4 = set_fd (current s) w (pipe_fd FD_KIND_PIPE_W p (fd_at s3 (current s) w)) s3
                 in (Some (r, w), s4)))"

definition sched_pipe_new :: "sched \<Rightarrow> int option \<times> sched" where
  "sched_pipe_new s = alloc_pipe s"

definition sched_pipe_unused :: "int \<Rightarrow> sched \<Rightarrow> sched" where
  "sched_pipe_unused p s =
     (if \<not> live_pipe s p then s
      else if rrefs (pipe_at s p) = 0 \<and> wrefs (pipe_at s p) = 0 then free_pipe p s else s)"

definition sched_fd_bind_pipe :: "int \<Rightarrow> fd_kind \<Rightarrow> int \<Rightarrow> sched \<Rightarrow> bool \<times> sched" where
  "sched_fd_bind_pipe fd k p s =
     (if last_added s < 0 \<or> int (task_count s) \<le> last_added s then (False, s)
      else if \<not> valid_fd fd \<or> \<not> is_pipe k \<or> \<not> live_pipe s p then (False, s)
      else let i = nat (last_added s); j = nat fd in
        if t_state (task_at s i) = TASK_DEAD then (False, s)
        else let s1 = (if fd_used (fd_at s i j) then drop_fd i j s else s);
                 e = fd_at s1 i j;
                 s2 = set_fd i j ((pipe_fd k p e)\<lparr>fd_path := no_path (fd_path e)\<rparr>) s1
             in (True, upd_pipe p (addref k) s2))"

definition sched_fd_bind_file :: "int \<Rightarrow> string option \<Rightarrow> u32 \<Rightarrow> sched \<Rightarrow> bool \<times> sched" where
  "sched_fd_bind_file fd path off s =
     (if last_added s < 0 \<or> int (task_count s) \<le> last_added s then (False, s)
      else if \<not> valid_fd fd \<or> path = None \<or> cstr (the path) = [] then (False, s)
      else let i = nat (last_added s); j = nat fd in
        if t_state (task_at s i) = TASK_DEAD then (False, s)
        else let s1 = (if fd_used (fd_at s i j) then drop_fd i j s else s)
             in (True, set_fd i j (file_fd off (the path) (fd_at s1 i j)) s1))"

section \<open>The ring\<close>

definition ring_read :: "pipe \<Rightarrow> u8 list \<Rightarrow> u32 \<Rightarrow> u8 list" where
  "ring_read p buf got = map (\<lambda>i. buf ! unat ((p_head p + of_nat i) AND PIPE_MASK)) [0..<unat got]"

fun ring_write :: "u32 \<Rightarrow> u8 list \<Rightarrow> u8 list \<Rightarrow> u8 list" where
  "ring_write tail [] buf = buf"
| "ring_write tail (x # xs) buf = ring_write (tail + 1) xs (buf[unat (tail AND PIPE_MASK) := x])"

text \<open>The copying parts of \<open>sched_pipe_read\<close> and \<open>sched_pipe_write\<close>, on the pipe and its page.\<close>

definition ring_take :: "u32 \<Rightarrow> u8 list \<Rightarrow> pipe \<Rightarrow> u8 list \<times> pipe" where
  "ring_take n buf p =
     (let got = (if p_len p < n then p_len p else n)
      in (ring_read p buf got, p\<lparr>p_head := (p_head p + got) AND PIPE_MASK, p_len := p_len p - got\<rparr>))"

definition ring_put :: "u8 list \<Rightarrow> u32 \<Rightarrow> u8 list \<Rightarrow> pipe \<Rightarrow> u32 \<times> pipe" where
  "ring_put src n buf p =
     (let room = PIPE_CAP - p_len p; got = (if room < n then room else n);
          tail = (p_head p + p_len p) AND PIPE_MASK
      in (got, p\<lparr>p_data := Some (ring_write tail (take (unat got) src) buf), p_len := p_len p + got\<rparr>))"

datatype pipe_result = Bytes "u8 list" | Err | Block

text \<open>
  The result 0 is \<open>Bytes []\<close>; -1 is \<open>Err\<close> and -2, block, is \<open>Block\<close>. \<open>dst\<close> says that the pointer is not
  null; the bytes returned are those stored there.
\<close>

definition sched_pipe_read :: "int \<Rightarrow> bool \<Rightarrow> u32 \<Rightarrow> sched \<Rightarrow> pipe_result \<times> sched" where
  "sched_pipe_read fd dst n s =
     (if n = 0 then (Bytes [], s)
      else if \<not> dst \<or> sched_fd_kind fd s \<noteq> FD_KIND_PIPE_R then (Err, s)
      else let idx = fd_pipe (cur_fd s fd) in
        if \<not> live_pipe s idx then (Err, s)
        else let p = pipe_at s idx in
          case p_data p of None \<Rightarrow> (Err, s)
          | Some buf \<Rightarrow>
              if p_len p = 0 then (if wrefs p = 0 then Bytes [] else Block, s)
              else (case ring_take n buf p of (out, p') \<Rightarrow>
                      (Bytes out, wake_pipe_waiters idx (upd_pipe idx (\<lambda>_. p') s))))"

text \<open>\<open>src\<close> holds the bytes at the source pointer, \<open>None\<close> for null; the result counts what was taken.\<close>

datatype write_result = Took u32 | WErr | WBlock

definition sched_pipe_write :: "int \<Rightarrow> u8 list option \<Rightarrow> u32 \<Rightarrow> sched \<Rightarrow> write_result \<times> sched" where
  "sched_pipe_write fd src n s =
     (if n = 0 then (Took 0, s)
      else if src = None \<or> sched_fd_kind fd s \<noteq> FD_KIND_PIPE_W then (WErr, s)
      else let idx = fd_pipe (cur_fd s fd) in
        if \<not> live_pipe s idx then (WErr, s)
        else let p = pipe_at s idx in
          case p_data p of None \<Rightarrow> (WErr, s)
          | Some buf \<Rightarrow>
              if rrefs p = 0 then (WErr, s)
              else if PIPE_CAP \<le> p_len p then (WBlock, s)
              else (case ring_put (the src) n buf p of (got, p') \<Rightarrow>
                      (Took got, wake_pipe_waiters idx (upd_pipe idx (\<lambda>_. p') s))))"

section \<open>The running task\<close>

definition sched_kbd_waiting :: "sched \<Rightarrow> bool" where
  "sched_kbd_waiting s = list_ex (\<lambda>i. t_state (task_at s i) = TASK_KBD) [0..<task_count s]"

definition sched_wake_kbd :: "sched \<Rightarrow> sched" where
  "sched_wake_kbd s = map_tasks (\<lambda>t. if t_state t = TASK_KBD then t\<lparr>t_state := TASK_READY\<rparr> else t) s"

definition sched_current_cr3 :: "sched \<Rightarrow> u64" where
  "sched_current_cr3 s = (if task_count s = 0 \<or> cr3 (cur_task s) = 0 then vmm_boot_cr3 else cr3 (cur_task s))"

definition sched_current_base :: "sched \<Rightarrow> u64" where
  "sched_current_base s = (if task_count s = 0 then 0 else user_base (cur_task s))"

definition sched_current_brk :: "sched \<Rightarrow> u64" where
  "sched_current_brk s = (if task_count s = 0 then 0 else brk (cur_task s))"

definition sched_current_cwd :: "sched \<Rightarrow> u32" where
  "sched_current_cwd s = (if task_count s = 0 then 0 else cwd (cur_task s))"

definition sched_set_current_cwd :: "u32 \<Rightarrow> sched \<Rightarrow> sched" where
  "sched_set_current_cwd cl s = (if task_count s = 0 then s else upd_cur (\<lambda>t. t\<lparr>cwd := cl\<rparr>) s)"

definition sched_current_pwd :: "sched \<Rightarrow> string" where
  "sched_current_pwd s =
     (if task_count s = 0 \<or> cstr (cwd_path (cur_task s)) = [] then ''/'' else cstr (cwd_path (cur_task s)))"

definition sched_set_current_pwd :: "string option \<Rightarrow> sched \<Rightarrow> sched" where
  "sched_set_current_pwd path s =
     (if task_count s = 0 then s else upd_cur (\<lambda>t. t\<lparr>cwd_path := copy_cwd_path (cwd_path t) path\<rparr>) s)"

definition sched_set_brk :: "u64 \<Rightarrow> sched \<Rightarrow> sched" where
  "sched_set_brk b s = (if task_count s = 0 then s else upd_cur (\<lambda>t. t\<lparr>brk := b\<rparr>) s)"

definition sched_row :: "sched \<Rightarrow> int" where
  "sched_row s = (if task_count s = 0 then 0 else t_row (cur_task s))"

definition sched_slots :: "sched \<Rightarrow> nat" where
  "sched_slots s = task_count s"

text \<open>A slot number that names a live task.\<close>

definition live_slot :: "sched \<Rightarrow> int \<Rightarrow> bool" where
  "live_slot s i \<longleftrightarrow> 0 \<le> i \<and> i < int (task_count s) \<and> t_state (task_at s (nat i)) \<noteq> TASK_DEAD"

definition sched_slot_state_name :: "int \<Rightarrow> sched \<Rightarrow> string option" where
  "sched_slot_state_name i s =
     (if \<not> live_slot s i then None
      else case t_state (task_at s (nat i)) of TASK_SLEEP \<Rightarrow> Some ''SLEEP'' | TASK_WAIT \<Rightarrow> Some ''WAIT''
        | TASK_PIPE \<Rightarrow> Some ''WAIT'' | TASK_KBD \<Rightarrow> Some ''WAIT'' | _ \<Rightarrow> Some ''RUN'')"

definition sched_slot_name :: "int \<Rightarrow> sched \<Rightarrow> string option" where
  "sched_slot_name i s =
     (if \<not> live_slot s i \<or> cstr (t_name (task_at s (nat i))) = [] then None else Some (cstr (t_name (task_at s (nat i)))))"

definition sched_slot_ticks :: "int \<Rightarrow> sched \<Rightarrow> u32" where
  "sched_slot_ticks i s = (if \<not> live_slot s i then 0 else cpu_ticks (task_at s (nat i)))"

definition sched_note_write :: "sched \<Rightarrow> u32 \<times> sched" where
  "sched_note_write s =
     (if task_count s = 0 then (0, s)
      else let s1 = upd_cur (\<lambda>t. t\<lparr>writes := writes t + 1\<rparr>) s in (writes (cur_task s1), s1))"

section \<open>Signals\<close>

definition sig_bit :: "int \<Rightarrow> u8" where
  "sig_bit signo = (if signo = SIGINT then PEND_INT else if signo = SIGTERM then PEND_TERM else 0)"

definition known_signal :: "int \<Rightarrow> bool" where
  "known_signal signo \<longleftrightarrow> signo = SIGINT \<or> signo = SIGTERM"

text \<open>\<open>sig_handler_slot\<close> returns the address of a handler field: read and written here.\<close>

definition sig_handler :: "int \<Rightarrow> task \<Rightarrow> u64" where
  "sig_handler signo t = (if signo = SIGINT then handler_int t else if signo = SIGTERM then handler_term t else 0)"

definition set_sig_handler :: "int \<Rightarrow> u64 \<Rightarrow> task \<Rightarrow> task" where
  "set_sig_handler signo h t =
     (if signo = SIGINT then t\<lparr>handler_int := h\<rparr> else if signo = SIGTERM then t\<lparr>handler_term := h\<rparr> else t)"

definition pending_signo :: "nat \<Rightarrow> sched \<Rightarrow> int" where
  "pending_signo i s =
     (if task_count s \<le> i then 0
      else if pending (task_at s i) AND PEND_INT \<noteq> 0 then SIGINT
      else if pending (task_at s i) AND PEND_TERM \<noteq> 0 then SIGTERM else 0)"

definition task_has_pending :: "nat \<Rightarrow> sched \<Rightarrow> bool" where
  "task_has_pending i s \<longleftrightarrow> i < task_count s \<and> t_state (task_at s i) \<noteq> TASK_DEAD \<and> pending (task_at s i) \<noteq> 0"

definition task_fatal_pending :: "nat \<Rightarrow> sched \<Rightarrow> bool" where
  "task_fatal_pending i s \<longleftrightarrow> task_has_pending i s \<and> sig_handler (pending_signo i s) (task_at s i) = 0"

text \<open>
  The eight bytes lie within a page and at an offset that need not be a multiple of 8, so they
  cover one or two words of it: the low \<open>8 - k\<close> bytes of the value go to the upper bytes of the
  first word, the rest to the lower bytes of the next.
\<close>

definition put_bytes :: "u64 \<Rightarrow> u64 \<Rightarrow> u64 \<Rightarrow> vmm \<Rightarrow> vmm" where
  "put_bytes page off value v =
     (let w = drop_bit 3 off; k = 8 * unat (off AND 7);
          v1 = tab_set page w ((tab_get v page w AND mask k) OR push_bit k value) v
      in if k = 0 then v1
         else tab_set page (w + 1) ((tab_get v1 page (w + 1) AND NOT (mask k)) OR drop_bit (64 - k) value) v1)"

definition push_user_u64 :: "u64 \<Rightarrow> u64 \<Rightarrow> u64 \<Rightarrow> vmm \<Rightarrow> bool \<times> vmm" where
  "push_user_u64 c va value v =
     (if c = 0 then (False, v)
      else if PAGE_4K - 8 < va AND (PAGE_4K - 1) then (False, v)
      else case vmm_cow_break c va v of (ok, v1) \<Rightarrow>
        if \<not> ok then (False, v1)
        else case vmm_translate_user c va v1 of None \<Rightarrow> (False, v1)
          | Some phys \<Rightarrow> (True, put_bytes (phys AND ADDR_MASK) (va AND (PAGE_4K - 1)) value v1))"

definition wake_blocked :: "nat \<Rightarrow> sched \<Rightarrow> sched" where
  "wake_blocked i s =
     (if task_count s \<le> i then s
      else if t_state (task_at s i) \<in> {TASK_SLEEP, TASK_WAIT, TASK_PIPE, TASK_KBD}
      then upd_task i (\<lambda>t. t\<lparr>t_state := TASK_READY, pipe_wait := -1, wake_tick := 0\<rparr>) s else s)"

definition wake_sleepers :: "sched \<Rightarrow> sched" where
  "wake_sleepers s =
     map_tasks (\<lambda>t. if t_state t = TASK_SLEEP \<and> (wake_tick t \<le> ticks s \<or> pending t \<noteq> 0)
                    then t\<lparr>t_state := TASK_READY\<rparr> else t) s"

definition show_wait_status :: "nat \<Rightarrow> u8 \<Rightarrow> sched \<Rightarrow> sched" where
  "show_wait_status i code s =
     (let t = task_at s i in
      if seen_status t \<and> shown_status t = code then s
      else let s1 = upd_task i (\<lambda>t. t\<lparr>seen_status := True, shown_status := code\<rparr>) s
           in s1\<lparr>scr := vga_write_dec_at (t_row t) 15 (ucast code) (vga_write_at (t_row t) 12 (Some ''st    '') (scr s1))\<rparr>)"

definition wake_parent_waiter :: "nat \<Rightarrow> u8 \<Rightarrow> sched \<Rightarrow> sched" where
  "wake_parent_waiter child code s =
     (if task_count s \<le> child then s
      else let p = parent (task_at s child) in
        if p < 0 \<or> int (task_count s) \<le> p then s
        else let w = task_at s (nat p) in
          if t_state w \<noteq> TASK_WAIT then s
          else if wait_pid w \<noteq> 0 \<and> wait_pid w \<noteq> int child then s
          else show_wait_status (nat p) code
                 (upd_task (nat p) (\<lambda>t. t\<lparr>t_state := TASK_READY, ctx := (ctx t)\<lparr>rax := ucast code\<rparr>, wait_pid := 0\<rparr>)
                    (snd (reap_child child s))))"

definition kill_task :: "nat \<Rightarrow> u8 \<Rightarrow> sched \<Rightarrow> sched" where
  "kill_task i code s =
     (if task_count s \<le> i then s
      else if t_state (task_at s i) = TASK_DEAD then s
      else let s1 = upd_task i (\<lambda>t. t\<lparr>exit_code := code, reaped := False, pending := 0, handler_int := 0,
                       handler_term := 0, t_state := TASK_DEAD, pipe_wait := -1\<rparr>) (clear_fds i (free_task_user i s));
               s2 = (if int i = fg_slot s1 then s1\<lparr>fg_slot := -1\<rparr> else s1)
           in wake_parent_waiter i code s2)"

definition sched_note_fg :: "sched \<Rightarrow> sched" where
  "sched_note_fg s = s\<lparr>fg_slot := last_added s\<rparr>"

definition sched_clear_fg :: "sched \<Rightarrow> sched" where
  "sched_clear_fg s = s\<lparr>fg_slot := -1\<rparr>"

definition sched_set_name :: "string option \<Rightarrow> sched \<Rightarrow> sched" where
  "sched_set_name name s =
     (if last_added s < 0 \<or> int (task_count s) \<le> last_added s then s
      else upd_task (nat (last_added s)) (\<lambda>t. t\<lparr>t_name := copy_name (t_name t) name\<rparr>) s)"

definition sched_rename_current :: "string option \<Rightarrow> sched \<Rightarrow> sched" where
  "sched_rename_current name s =
     (if task_count s = 0 then s else upd_cur (\<lambda>t. t\<lparr>t_name := copy_name (t_name t) name\<rparr>) s)"

text \<open>A frame that was interrupted in user mode.\<close>

definition user_frame :: "interrupt_frame option \<Rightarrow> bool" where
  "user_frame fo \<longleftrightarrow> (case fo of None \<Rightarrow> False | Some f \<Rightarrow> cs f AND 3 = 3)"

definition sched_signal_at ::
  "int \<Rightarrow> int \<Rightarrow> u8 \<Rightarrow> interrupt_frame option \<Rightarrow> sched \<Rightarrow> bool \<times> interrupt_frame option \<times> sched" where
  "sched_signal_at pid signo code fo s =
     (if sig_bit signo = 0 then (False, fo, s)
      else if \<not> live_slot s pid then (False, fo, s)
      else let i = nat pid in
        if cr3 (task_at s i) = 0 then (True, fo, kill_task i code s)
        else let s1 = wake_blocked i (upd_task i (\<lambda>t. t\<lparr>pending := pending t OR sig_bit signo, exit_code := code\<rparr>) s)
             in if i \<noteq> current s1 \<and> user_frame fo \<and> t_state (task_at s1 i) = TASK_READY
                then (case load_task (the fo) i (set_current i (upd_cur (save_task (the fo)) s1)) of
                        (f', s2) \<Rightarrow> (True, Some f', s2))
                else (True, fo, s1))"

definition sched_kill_at :: "int \<Rightarrow> u8 \<Rightarrow> interrupt_frame option \<Rightarrow> sched \<Rightarrow> bool \<times> interrupt_frame option \<times> sched" where
  "sched_kill_at pid code fo s = sched_signal_at pid SIGTERM code fo s"

definition sched_kill_slot :: "int \<Rightarrow> u8 \<Rightarrow> sched \<Rightarrow> bool \<times> sched" where
  "sched_kill_slot pid code s = (case sched_kill_at pid code None s of (r, _, s') \<Rightarrow> (r, s'))"

definition sched_kill_fg :: "u8 \<Rightarrow> sched \<Rightarrow> bool \<times> sched" where
  "sched_kill_fg code s = sched_kill_slot (fg_slot s) code s"

definition sched_signal_fg :: "int \<Rightarrow> u8 \<Rightarrow> interrupt_frame option \<Rightarrow> sched \<Rightarrow> bool \<times> interrupt_frame option \<times> sched" where
  "sched_signal_fg signo code fo s = sched_signal_at (fg_slot s) signo code fo s"

definition int_arg :: "u64 \<Rightarrow> int" where
  "int_arg w = sint (ucast w :: u32)"

definition sched_sigaction :: "interrupt_frame option \<Rightarrow> sched \<Rightarrow> interrupt_frame option \<times> sched" where
  "sched_sigaction fo s =
     (case fo of None \<Rightarrow> (fo, s) | Some f \<Rightarrow>
      if task_count s = 0 then (fo, s)
      else let sig = int_arg (rdi f); handler = rsi f in
        if \<not> known_signal sig then (Some (f\<lparr>rax := -1\<rparr>), s)
        else if handler \<noteq> 0 \<and> vmm_translate_user (cr3 (cur_task s)) handler (vm s) = None
        then (Some (f\<lparr>rax := -1\<rparr>), s)
        else (Some (f\<lparr>rax := 0\<rparr>), upd_cur (set_sig_handler sig handler) s))"

definition sched_kill :: "interrupt_frame option \<Rightarrow> sched \<Rightarrow> interrupt_frame option \<times> sched" where
  "sched_kill fo s =
     (case fo of None \<Rightarrow> (fo, s) | Some f \<Rightarrow>
        (case sched_kill_at (int_arg (rdi f)) (ucast (rsi f AND 0xFF)) fo s of
           (ok, fo', s') \<Rightarrow> (map_option (\<lambda>f'. f'\<lparr>rax := (if ok then 0 else -1)\<rparr>) fo', s')))"

section \<open>Exit\<close>

definition sched_exit :: "interrupt_frame option \<Rightarrow> sched \<Rightarrow> outcome \<times> sched" where
  "sched_exit fo s =
     (let s1 = (if task_count s \<noteq> 0
                then let code = (case fo of None \<Rightarrow> 0 | Some f \<Rightarrow> ucast (rdi f AND 0xFF))
                     in kill_task (current s) code
                          (s\<lparr>scr := vga_write_at (t_row (cur_task s)) 2 (Some ''done'') (scr s)\<rparr>)
                else s)
      in case (pick_next (current s1) s1, fo) of
           (Some next, Some f) \<Rightarrow> dispatch f next s1
         | _ \<Rightarrow> (Halted, s1\<lparr>vm := vmm_set_cr3 vmm_boot_cr3 (vm s1)\<rparr>))"

definition exit_pending :: "interrupt_frame \<Rightarrow> sched \<Rightarrow> outcome \<times> sched" where
  "exit_pending f s =
     sched_exit (Some (f\<lparr>rdi := ucast (exit_code (cur_task s))\<rparr>)) (upd_cur (\<lambda>t. t\<lparr>pending := 0\<rparr>) s)"

definition sched_deliver_pending :: "interrupt_frame option \<Rightarrow> sched \<Rightarrow> outcome \<times> sched" where
  "sched_deliver_pending fo s =
     (if fo = None \<or> task_count s = 0 \<or> \<not> user_frame fo then (Run fo, s)
      else let f = the fo; sig = pending_signo (current s) s in
        if sig = 0 then (Run fo, s)
        else let handler = sig_handler sig (cur_task s);
                 s1 = upd_cur (\<lambda>t. t\<lparr>pending := pending t AND NOT (sig_bit sig)\<rparr>) s in
          if handler = 0 then exit_pending f s1
          else let s2 = upd_cur (set_sig_handler sig 0) s1 in
            if rsp f < 8 then exit_pending f s2
            else case push_user_u64 (cr3 (cur_task s2)) (rsp f - 8) (rip f) (vm s2) of
                (ok, v) \<Rightarrow> let s3 = s2\<lparr>vm := v\<rparr> in
                  if \<not> ok then exit_pending f s3
                  else (Run (Some (f\<lparr>rsp := rsp f - 8, rip := handler, rdi := word_of_int sig\<rparr>)), s3))"

section \<open>Idling and blocking\<close>

text \<open>The part of \<open>sched_on_tick\<close> before the switch.\<close>

definition tick_account :: "sched \<Rightarrow> sched" where
  "tick_account s =
     wake_sleepers (if task_count s \<noteq> 0 \<and> t_state (cur_task s) \<noteq> TASK_DEAD
                    then upd_cur (\<lambda>t. t\<lparr>cpu_ticks := cpu_ticks t + 1\<rparr>) s else s)"

text \<open>
  An interrupt that arrives in kernel mode while no task is ready, as far as it is modelled here: the timer
  of \<open>irq_handler\<close>, and from the keyboard or the serial line, which share \<open>kbd_feed\<close>, a complete line for a waiting
  reader or Ctrl+C. Not among them are the mouse, which does not touch the scheduler's state, and the commands
  that the kernel itself runs when a line is typed at its own prompt (\<open>run_line\<close>, \<open>$\<close> commands): those can start
  or end tasks while the processor idles. What is proved of a call that idles is proved for the interrupts listed.
\<close>

definition irq_effect :: "irq \<Rightarrow> sched \<Rightarrow> sched" where
  "irq_effect q s =
     (case q of
        Irq_timer \<Rightarrow>
          let s1 = s\<lparr>ticks := ticks s + 1\<rparr>
          in tick_account (s1\<lparr>scr := vga_write_dec_at 1 6 (ticks s1) (vga_write_at 1 0 (Some ''ticks '') (scr s1))\<rparr>)
      | Irq_line \<Rightarrow> if sched_kbd_waiting s then sched_wake_kbd (s\<lparr>stdin_ready := True\<rparr>) else s
      | Irq_sigint \<Rightarrow> (case sched_signal_fg SIGINT 0 None s of (_, _, s') \<Rightarrow> s'))"

fun idle_loop :: "irq list \<Rightarrow> sched \<Rightarrow> nat option \<times> sched" where
  "idle_loop [] s = (let s1 = wake_sleepers s in (pick_next (current s1) s1, s1\<lparr>irqs := []\<rparr>))"
| "idle_loop (q # qs) s =
     (let s1 = wake_sleepers s in
      case pick_next (current s1) s1 of
        Some next \<Rightarrow> (Some next, s1\<lparr>irqs := q # qs\<rparr>)
      | None \<Rightarrow> idle_loop qs (irq_effect q s1))"

definition idle_until_ready :: "interrupt_frame \<Rightarrow> sched \<Rightarrow> outcome \<times> sched" where
  "idle_until_ready f s =
     (let s0 = s\<lparr>vm := vmm_set_cr3 vmm_boot_cr3 (vm s)\<rparr> in
      case idle_loop (irqs s0) s0 of
        (Some next, s1) \<Rightarrow> dispatch f next s1
      | (None, s1) \<Rightarrow> (Idle, s1))"

text \<open>The end of every blocking call: switch, or idle.\<close>

definition block :: "interrupt_frame \<Rightarrow> sched \<Rightarrow> outcome \<times> sched" where
  "block f s = (case pick_next (current s) s of None \<Rightarrow> idle_until_ready f s | Some next \<Rightarrow> dispatch f next s)"

definition switch_to_next :: "interrupt_frame option \<Rightarrow> sched \<Rightarrow> interrupt_frame option \<times> sched" where
  "switch_to_next fo s =
     (case fo of None \<Rightarrow> (fo, s) | Some f \<Rightarrow>
        (case pick_next (current s) s of
           None \<Rightarrow> (fo, s)
         | Some next \<Rightarrow>
             if next = current s then (fo, s)
             else case load_task f next (set_current next (upd_cur (save_task f) s)) of (f', s') \<Rightarrow> (Some f', s')))"

definition sched_on_tick :: "interrupt_frame option \<Rightarrow> sched \<Rightarrow> interrupt_frame option \<times> sched" where
  "sched_on_tick fo s =
     (let s1 = tick_account s in if \<not> user_frame fo then (fo, s1) else switch_to_next fo s1)"

definition sched_yield :: "interrupt_frame option \<Rightarrow> sched \<Rightarrow> interrupt_frame option \<times> sched" where
  "sched_yield fo s = switch_to_next fo s"

definition sched_block_pipe :: "interrupt_frame option \<Rightarrow> int \<Rightarrow> sched \<Rightarrow> outcome \<times> sched" where
  "sched_block_pipe fo p s =
     (if fo = None \<or> task_count s = 0 then (Run fo, s)
      else if task_has_pending (current s) s then sched_deliver_pending fo s
      else let s1 = upd_cur (\<lambda>t. (save_task (the fo) t)\<lparr>t_state := TASK_PIPE, pipe_wait := p\<rparr>) s in
        if task_has_pending (current s1) s1
        then sched_deliver_pending fo (upd_cur (\<lambda>t. t\<lparr>t_state := TASK_READY, pipe_wait := -1\<rparr>) s1)
        else block (the fo) s1)"

text \<open>\<open>kbd_stdin_prompt\<close> only redraws the frame buffer, which is not part of this state.\<close>

definition sched_block_kbd :: "interrupt_frame option \<Rightarrow> sched \<Rightarrow> outcome \<times> sched" where
  "sched_block_kbd fo s =
     (if fo = None \<or> task_count s = 0 then (Run fo, s)
      else if task_has_pending (current s) s then sched_deliver_pending fo s
      else if stdin_ready s then (Run fo, s)
      else let s1 = upd_cur (\<lambda>t. (save_task (the fo) t)\<lparr>t_state := TASK_KBD, pipe_wait := -1\<rparr>) s in
        if task_has_pending (current s1) s1
        then sched_deliver_pending fo (upd_cur (\<lambda>t. t\<lparr>t_state := TASK_READY\<rparr>) s1)
        else block (the fo) s1)"

definition sched_sleep :: "interrupt_frame option \<Rightarrow> u64 \<Rightarrow> sched \<Rightarrow> outcome \<times> sched" where
  "sched_sleep fo n s =
     (if fo = None then (Run fo, s)
      else if task_has_pending (current s) s then sched_deliver_pending fo s
      else if n = 0 then (case sched_yield fo s of (fo', s') \<Rightarrow> (Run fo', s'))
      else let s1 = upd_cur (\<lambda>t. (save_task (the fo) t)\<lparr>t_state := TASK_SLEEP, wake_tick := ticks s + ucast n\<rparr>) s in
        if task_has_pending (current s1) s1
        then sched_deliver_pending fo (upd_cur (\<lambda>t. t\<lparr>t_state := TASK_READY, wake_tick := 0\<rparr>) s1)
        else block (the fo) s1)"

definition sched_wait :: "interrupt_frame option \<Rightarrow> sched \<Rightarrow> outcome \<times> sched" where
  "sched_wait fo s =
     (if fo = None then (Run fo, s)
      else if task_has_pending (current s) s then sched_deliver_pending fo s
      else let f = the fo; want = int_arg (rdi f); me = int (current s) in
        if want < 0 then (Run (Some (f\<lparr>rax := -1\<rparr>)), s)
        else case find_zombie me want s of
            Some child \<Rightarrow> (case reap_child child s of (code, s1) \<Rightarrow>
              (Run (Some (f\<lparr>rax := ucast code\<rparr>)), show_wait_status (current s) code s1))
          | None \<Rightarrow>
              if \<not> has_child me want s then (Run (Some (f\<lparr>rax := -1\<rparr>)), s)
              else let s1 = upd_cur (\<lambda>t. (save_task f t)\<lparr>t_state := TASK_WAIT, wait_pid := want\<rparr>) s in
                if task_has_pending (current s1) s1
                then sched_deliver_pending fo (upd_cur (\<lambda>t. t\<lparr>t_state := TASK_READY, wait_pid := 0\<rparr>) s1)
                else block f s1)"

definition sched_reset_current ::
  "interrupt_frame option \<Rightarrow> u64 \<Rightarrow> u64 \<Rightarrow> u64 \<Rightarrow> sched \<Rightarrow> interrupt_frame option \<times> sched" where
  "sched_reset_current fo ip sp base s =
     (case fo of None \<Rightarrow> (fo, s) | Some f \<Rightarrow>
      if task_count s = 0 \<or> ip = 0 \<or> sp = 0 \<or> base = 0 then (fo, s)
      else let t = cur_task s in
        if t_state t = TASK_DEAD \<or> cr3 t = 0 \<or> kstack_top t = 0 then (fo, s)
        else let s1 = upd_cur (\<lambda>t. t\<lparr>ctx := user_regs ip sp, user_base := base, brk := base + 2 * PAGE_4K,
                        t_state := TASK_READY, writes := 0, wake_tick := 0, pipe_wait := -1, pending := 0,
                        handler_int := 0, handler_term := 0\<rparr>) s
             in case load_task f (current s1) s1 of (f', s2) \<Rightarrow> (Some f', s2))"

end
