(* ===== verification/Sched_Pipe.thy ===== *)
theory Sched_Pipe
  imports Sched
begin

text \<open>
  The pipe of \<open>kernel/sched.c\<close> as a queue of bytes: the ring of one page, with its 32-bit head and
  length, behaves as the list of the bytes it holds.
\<close>

section \<open>The interface\<close>

text \<open>
  A bounded queue: \<open>put\<close> appends as much of its input as there is room for and says how much, \<open>get\<close>
  removes from the front.
\<close>

locale byte_queue =
  fixes ok :: "'q \<Rightarrow> bool"
    and contents :: "'q \<Rightarrow> 'a list"
    and cap :: nat
    and put :: "'a list \<Rightarrow> 'q \<Rightarrow> nat \<times> 'q"
    and get :: "nat \<Rightarrow> 'q \<Rightarrow> 'a list \<times> 'q"
  assumes room: "ok q \<Longrightarrow> length (contents q) \<le> cap"
    and put_ok: "ok q \<Longrightarrow> put xs q = (k, q') \<Longrightarrow> ok q'"
    and put_count: "ok q \<Longrightarrow> put xs q = (k, q') \<Longrightarrow> k = min (length xs) (cap - length (contents q))"
    and put_contents: "ok q \<Longrightarrow> put xs q = (k, q') \<Longrightarrow> contents q' = contents q @ take k xs"
    and get_ok: "ok q \<Longrightarrow> get n q = (ys, q') \<Longrightarrow> ok q'"
    and get_bytes: "ok q \<Longrightarrow> get n q = (ys, q') \<Longrightarrow> ys = take n (contents q)"
    and get_contents: "ok q \<Longrightarrow> get n q = (ys, q') \<Longrightarrow> contents q' = drop n (contents q)"

datatype 'a io = Put "'a list" | Get nat

text \<open>A history of calls: the accepted input and the output, concatenated, and the final queue.\<close>

fun run_io :: "('a list \<Rightarrow> 'q \<Rightarrow> nat \<times> 'q) \<Rightarrow> (nat \<Rightarrow> 'q \<Rightarrow> 'a list \<times> 'q) \<Rightarrow> 'a io list \<Rightarrow> 'q \<Rightarrow> 'a list \<times> 'a list \<times> 'q" where
  "run_io pt gt [] q = ([], [], q)"
| "run_io pt gt (Put xs # ops) q =
     (case pt xs q of (k, q1) \<Rightarrow> case run_io pt gt ops q1 of (a, out, q2) \<Rightarrow> (take k xs @ a, out, q2))"
| "run_io pt gt (Get n # ops) q =
     (case gt n q of (ys, q1) \<Rightarrow> case run_io pt gt ops q1 of (a, out, q2) \<Rightarrow> (a, ys @ out, q2))"

context byte_queue
begin

text \<open>Nothing is lost, invented or reordered.\<close>

lemma stream:
  "ok q \<Longrightarrow> run_io put get ops q = (a, out, q') \<Longrightarrow> ok q' \<and> contents q @ a = out @ contents q'"
proof (induction ops arbitrary: q a out q')
  case (Cons c ops)
  show ?case
  proof (cases c)
    case (Put xs)
    obtain k q1 where p: "put xs q = (k, q1)" by fastforce
    obtain a1 where r: "run_io put get ops q1 = (a1, out, q')" and a: "a = take k xs @ a1"
      using Cons.prems(2) Put p by (auto split: prod.splits)
    have "ok q' \<and> contents q1 @ a1 = out @ contents q'" by (rule Cons.IH [OF put_ok [OF Cons.prems(1) p] r])
    then show ?thesis using put_contents [OF Cons.prems(1) p] a by simp
  next
    case (Get n)
    obtain ys q1 where g: "get n q = (ys, q1)" by fastforce
    obtain out1 where r: "run_io put get ops q1 = (a, out1, q')" and o: "out = ys @ out1"
      using Cons.prems(2) Get g by (auto split: prod.splits)
    have "ok q' \<and> contents q1 @ a = out1 @ contents q'" by (rule Cons.IH [OF get_ok [OF Cons.prems(1) g] r])
    then have i: "ok q'" "contents q1 @ a = out1 @ contents q'" by auto
    have "contents q = ys @ contents q1"
      unfolding get_bytes [OF Cons.prems(1) g] get_contents [OF Cons.prems(1) g] by simp
    then show ?thesis using i o by simp
  qed
qed simp

lemma put_blocks_only_full: "ok q \<Longrightarrow> put xs q = (0, q') \<Longrightarrow> xs \<noteq> [] \<Longrightarrow> length (contents q) = cap"
  using put_count room by (metis diff_is_0_eq le_antisym length_0_conv min_def)

end

section \<open>The ring\<close>

definition ring_ok :: "pipe \<Rightarrow> bool" where
  "ring_ok p \<longleftrightarrow> p_head p < PIPE_CAP \<and> p_len p \<le> PIPE_CAP \<and> (\<exists>buf. p_data p = Some buf \<and> length buf = 4096)"

definition bytes_of :: "pipe \<Rightarrow> u8 list" where
  "bytes_of p = map (\<lambda>i. the (p_data p) ! ((unat (p_head p) + i) mod 4096)) [0..<unat (p_len p)]"

lemma bytes_of_length [simp]: "length (bytes_of p) = unat (p_len p)"
  by (simp add: bytes_of_def)

lemma cap_nat: "unat PIPE_CAP = 4096"
  by (simp add: PIPE_CAP_def)

lemma mask_mod: "unat (x AND PIPE_MASK) = unat x mod 4096"
proof -
  have m: "PIPE_MASK = mask 12" by (simp add: PIPE_MASK_def PIPE_CAP_def mask_eq_exp_minus_1)
  show ?thesis unfolding m unat_and_mask by simp
qed

lemma add_mod: "unat ((x :: u32) + y) mod 4096 = (unat x + unat y) mod 4096"
  by (simp add: unat_word_ariths mod_mod_cancel)

lemma ring_pos: "unat ((h + of_nat i :: u32) AND PIPE_MASK) = (unat h + i) mod 4096"
proof -
  have "unat (of_nat i :: u32) mod 4096 = i mod 4096" by (simp add: unat_of_nat mod_mod_cancel)
  then show ?thesis unfolding mask_mod add_mod by (metis mod_add_right_eq)
qed

lemma ring_ok_nat:
  "ring_ok p \<Longrightarrow> unat (p_head p) < 4096 \<and> unat (p_len p) \<le> 4096"
  by (simp add: ring_ok_def word_less_nat_alt word_le_nat_alt cap_nat)

lemma ring_take_spec:
  assumes ok: "ring_ok p" and run: "ring_take n (the (p_data p)) p = (out, p')"
  shows "ring_ok p' \<and> out = take (unat n) (bytes_of p) \<and> bytes_of p' = drop (unat n) (bytes_of p)"
proof -
  define got where "got = (if p_len p < n then p_len p else n)"
  have g: "unat got = min (unat (p_len p)) (unat n)" by (simp add: got_def word_less_nat_alt)
  have le: "got \<le> p_len p" by (simp add: got_def not_less)
  have out: "out = ring_read p (the (p_data p)) got"
    and p': "p' = p\<lparr>p_head := (p_head p + got) AND PIPE_MASK, p_len := p_len p - got\<rparr>"
    using run by (auto simp: ring_take_def got_def Let_def)
  have len: "unat (p_len p') = unat (p_len p) - unat got" using le by (simp add: p' unat_sub_le)
  have hd: "unat (p_head p') = (unat (p_head p) + unat got) mod 4096" by (simp add: p' mask_mod add_mod)
  have "out = take (unat n) (bytes_of p)"
    unfolding out ring_read_def ring_pos bytes_of_def by (rule nth_equalityI) (auto simp: g)
  moreover have "bytes_of p' = drop (unat n) (bytes_of p)"
  proof (rule nth_equalityI)
    show "length (bytes_of p') = length (drop (unat n) (bytes_of p))" using len g by simp
    fix i assume "i < length (bytes_of p')"
    then have i: "i < unat (p_len p) - unat got" by (simp add: len)
    then have nn: "unat n = unat got" using g by (auto simp: min_def split: if_splits)
    have "((unat (p_head p) + unat got) mod 4096 + i) mod 4096 = (unat (p_head p) + (unat got + i)) mod 4096"
      by (simp add: mod_add_left_eq add.assoc)
    then show "bytes_of p' ! i = drop (unat n) (bytes_of p) ! i"
      using i nn by (simp add: bytes_of_def len hd) (simp add: p')
  qed
  moreover have "ring_ok p'"
  proof -
    have "unat (p_head p') < 4096" by (simp add: hd)
    moreover have "unat (p_len p') \<le> 4096" using len ring_ok_nat [OF ok] by linarith
    ultimately show ?thesis using ok
      by (simp add: ring_ok_def word_less_nat_alt word_le_nat_alt cap_nat) (simp add: p')
  qed
  ultimately show ?thesis by simp
qed

lemma ring_write_length [simp]: "length (ring_write tail xs buf) = length buf"
  by (induction tail xs buf rule: ring_write.induct) simp_all

text \<open>Position \<open>j\<close> after writing \<open>xs\<close>: the distance from the tail, going round, says which byte.\<close>

lemma ring_write_nth:
  assumes "length buf = 4096" "length xs \<le> 4096" "j < 4096"
  shows "ring_write tail xs buf ! ((unat tail + j) mod 4096) =
    (if j < length xs then xs ! j else buf ! ((unat tail + j) mod 4096))"
  using assms
proof (induction xs arbitrary: tail buf j)
  case (Cons x xs)
  let ?buf = "buf[unat (tail AND PIPE_MASK) := x]"
  have t1: "(unat (tail + 1) + k) mod 4096 = (unat tail + (1 + k)) mod 4096" for k
  proof -
    have "(unat (tail + 1) + k) mod 4096 = (unat (tail + 1) mod 4096 + k) mod 4096"
      by (rule mod_add_left_eq [symmetric])
    also have "\<dots> = (unat tail + unat (1 :: u32) + k) mod 4096" unfolding add_mod by (rule mod_add_left_eq)
    finally show ?thesis by (simp add: add.assoc)
  qed
  show ?case
  proof (cases j)
    case 0
    have k: "length xs \<le> 4095" using Cons.prems(2) by simp
    have "(unat (tail + 1) + 4095) mod 4096 = unat tail mod 4096" unfolding t1 by simp
    then show ?thesis
      using Cons.IH [of ?buf 4095 "tail + 1"] Cons.prems k 0 by (simp add: mask_mod)
  next
    case (Suc k)
    have "(unat tail + j) mod 4096 \<noteq> unat tail mod 4096"
    proof
      assume "(unat tail + j) mod 4096 = unat tail mod 4096"
      then have "(4096 :: nat) dvd j" using mod_eq_dvd_iff_nat [of "unat tail" "unat tail + j" 4096] by simp
      then show False using Suc Cons.prems(3) by (auto dest: dvd_imp_le)
    qed
    then have "?buf ! ((unat tail + j) mod 4096) = buf ! ((unat tail + j) mod 4096)"
      by (simp add: mask_mod)
    then show ?thesis
      using Cons.IH [of ?buf k "tail + 1"] Cons.prems Suc t1 [of k] by simp
  qed
qed simp

lemma ring_put_spec:
  assumes ok: "ring_ok p" and run: "ring_put src n (the (p_data p)) p = (got, p')" and n: "unat n \<le> length src"
  shows "ring_ok p' \<and> unat got = min (unat n) (4096 - unat (p_len p)) \<and>
    bytes_of p' = bytes_of p @ take (unat got) src"
proof -
  obtain buf where buf: "p_data p = Some buf" "length buf = 4096" using ok by (auto simp: ring_ok_def)
  note R = ring_ok_nat [OF ok]
  have room: "unat (PIPE_CAP - p_len p) = 4096 - unat (p_len p)"
    using ok by (simp add: unat_sub_le cap_nat ring_ok_def)
  have got: "unat got = min (unat n) (4096 - unat (p_len p))"
    using run room by (auto simp: ring_put_def Let_def word_less_nat_alt)
  define tail where "tail = (p_head p + p_len p) AND PIPE_MASK"
  define xs where "xs = take (unat got) src"
  have p': "p' = p\<lparr>p_data := Some (ring_write tail xs buf), p_len := p_len p + got\<rparr>"
    using run buf by (auto simp: ring_put_def Let_def tail_def xs_def)
  have xs: "length xs = unat got" "unat got \<le> 4096 - unat (p_len p)" using got n by (auto simp: xs_def)
  have len: "unat (p_len p') = unat (p_len p) + unat got"
  proof -
    have "unat (p_len p) + unat got \<le> 4096" using xs(2) R by linarith
    then have "unat (p_len p) + unat got < 2 ^ LENGTH(32)" by simp
    from unat_add_lt [OF this] show ?thesis by (simp add: p')
  qed
  have tl: "unat tail = (unat (p_head p) + unat (p_len p)) mod 4096" by (simp add: tail_def mask_mod add_mod)
  have at: "ring_write tail xs buf ! ((unat (p_head p) + i) mod 4096) =
      (if i < unat (p_len p) then buf ! ((unat (p_head p) + i) mod 4096) else xs ! (i - unat (p_len p)))"
    if "i < unat (p_len p) + unat got" for i
  proof (cases "i < unat (p_len p)")
    case True
    let ?j = "4096 - unat (p_len p) + i"
    have j: "?j < 4096" "\<not> ?j < length xs" using True R xs by auto
    have "(unat tail + ?j) mod 4096 = (unat (p_head p) + unat (p_len p) + ?j) mod 4096"
      unfolding tl by (rule mod_add_left_eq)
    also have "unat (p_head p) + unat (p_len p) + ?j = unat (p_head p) + i + 4096" using R by simp
    finally have "(unat tail + ?j) mod 4096 = (unat (p_head p) + i) mod 4096" by simp
    then show ?thesis using ring_write_nth [OF buf(2) _ j(1), of xs tail] j xs True by auto
  next
    case False
    let ?j = "i - unat (p_len p)"
    have j: "?j < 4096" "?j < length xs" using False that xs R by auto
    have "(unat tail + ?j) mod 4096 = (unat (p_head p) + unat (p_len p) + ?j) mod 4096"
      unfolding tl by (rule mod_add_left_eq)
    then have "(unat tail + ?j) mod 4096 = (unat (p_head p) + i) mod 4096" using False by simp
    then show ?thesis using ring_write_nth [OF buf(2) _ j(1), of xs tail] j xs False by auto
  qed
  have "bytes_of p' = bytes_of p @ xs"
  proof (rule nth_equalityI)
    show "length (bytes_of p') = length (bytes_of p @ xs)" using len xs by simp
    fix i assume "i < length (bytes_of p')"
    then have i: "i < unat (p_len p) + unat got" by (simp add: len)
    show "bytes_of p' ! i = (bytes_of p @ xs) ! i"
      using at [OF i] i len by (simp add: bytes_of_def nth_append p' buf(1))
  qed
  moreover have "ring_ok p'"
  proof -
    have "unat (p_len p') \<le> 4096" using len xs(2) R by linarith
    then show ?thesis using ok buf unfolding ring_ok_def word_le_nat_alt cap_nat by (simp add: p')
  qed
  ultimately show ?thesis using got by (simp add: xs_def)
qed

section \<open>The ring implements the interface\<close>

text \<open>The counts of the source are 32-bit; the interface talks of at most 4096 bytes at a time.\<close>

definition pipe_put :: "u8 list \<Rightarrow> pipe \<Rightarrow> nat \<times> pipe" where
  "pipe_put xs p =
     (case ring_put xs (of_nat (min 4096 (length xs))) (the (p_data p)) p of (got, p') \<Rightarrow> (unat got, p'))"

definition pipe_get :: "nat \<Rightarrow> pipe \<Rightarrow> u8 list \<times> pipe" where
  "pipe_get n p = ring_take (of_nat (min 4096 n)) (the (p_data p)) p"

lemma min_4096: "unat (of_nat (min 4096 n) :: u32) = min 4096 n"
  by (simp add: unat_of_nat)

interpretation ring: byte_queue ring_ok bytes_of 4096 pipe_put pipe_get
proof
  fix p :: pipe assume ok: "ring_ok p"
  show "length (bytes_of p) \<le> 4096" using ring_ok_nat [OF ok] by simp
  { fix xs k p' assume "pipe_put xs p = (k, p')"
    then obtain got where r: "ring_put xs (of_nat (min 4096 (length xs))) (the (p_data p)) p = (got, p')" "k = unat got"
      by (auto simp: pipe_put_def split: prod.splits)
    have "ring_ok p' \<and> unat got = min (min 4096 (length xs)) (4096 - unat (p_len p)) \<and>
        bytes_of p' = bytes_of p @ take (unat got) xs"
      using ring_put_spec [OF ok r(1)] unfolding min_4096 by simp
    then show "ring_ok p'" "k = min (length xs) (4096 - length (bytes_of p))" "bytes_of p' = bytes_of p @ take k xs"
      using r(2) by auto }
  { fix n ys p' assume "pipe_get n p = (ys, p')"
    then have "ring_take (of_nat (min 4096 n)) (the (p_data p)) p = (ys, p')" by (simp add: pipe_get_def)
    from ring_take_spec [OF ok this]
    have "ring_ok p' \<and> ys = take (min 4096 n) (bytes_of p) \<and> bytes_of p' = drop (min 4096 n) (bytes_of p)"
      unfolding min_4096 .
    moreover have "length (bytes_of p) \<le> 4096" using ring_ok_nat [OF ok] by simp
    ultimately show "ring_ok p'" "ys = take n (bytes_of p)" "bytes_of p' = drop n (bytes_of p)"
      by (auto simp: min_def) }
qed

end
