(* ===== verification/Sched_Inv.thy ===== *)
theory Sched_Inv
  imports Sched_Pipe
begin

text \<open>
  The invariant that ties descriptors, pipes and blocked tasks together: the two counts of a pipe
  are the numbers of its open ends, an open end refers to a pipe in use, and a task blocked on a
  pipe has a reason to be: the pipe is empty and can still be written, or full and can still be
  read. It is stated on three observations of the state: which descriptor holds which end, the
  pipes, and which task waits for which pipe.
\<close>

section \<open>Observations\<close>

type_synonym ends = "nat \<Rightarrow> nat \<Rightarrow> (fd_kind \<times> int) option"
type_synonym waits = "nat \<Rightarrow> int option"

definition fd_end :: "fd_entry \<Rightarrow> (fd_kind \<times> int) option" where
  "fd_end e = (if fd_used e \<and> is_pipe (fd_kind e) then Some (fd_kind e, fd_pipe e) else None)"

definition ends :: "sched \<Rightarrow> ends" where
  "ends s i j = fd_end (fd_at s i j)"

definition wait_of :: "task \<Rightarrow> int option" where
  "wait_of t = (if t_state t = TASK_PIPE then Some (pipe_wait t) else None)"

definition waits :: "sched \<Rightarrow> waits" where
  "waits s i = wait_of (task_at s i)"

definition holders :: "ends \<Rightarrow> fd_kind \<Rightarrow> int \<Rightarrow> (nat \<times> nat) set" where
  "holders E k p = {(i, j). i < TASK_MAX \<and> j < FD_MAX \<and> E i j = Some (k, p)}"

text \<open>A reader has nothing to read but a writer remains, or a writer has no room but a reader remains.\<close>

definition stuck :: "pipe \<Rightarrow> bool" where
  "stuck p \<longleftrightarrow> (p_len p = 0 \<and> wrefs p \<noteq> 0) \<or> (p_len p = PIPE_CAP \<and> rrefs p \<noteq> 0)"

definition live :: "pipe list \<Rightarrow> int \<Rightarrow> bool" where
  "live ps p \<longleftrightarrow> valid_pipe p \<and> p_used (ps ! nat p)"

definition pipes_inv :: "ends \<Rightarrow> pipe list \<Rightarrow> waits \<Rightarrow> bool" where
  "pipes_inv E ps w \<longleftrightarrow> length ps = PIPE_MAX \<and>
     (\<forall>p. live ps p \<longrightarrow> ring_ok (ps ! nat p) \<and>
        rrefs (ps ! nat p) = int (card (holders E FD_KIND_PIPE_R p)) \<and>
        wrefs (ps ! nat p) = int (card (holders E FD_KIND_PIPE_W p))) \<and>
     (\<forall>i < TASK_MAX. \<forall>j < FD_MAX. \<forall>k p. E i j = Some (k, p) \<longrightarrow> is_pipe k \<and> live ps p) \<and>
     (\<forall>i < TASK_MAX. \<forall>p. w i = Some p \<longrightarrow> live ps p \<and> stuck (ps ! nat p))"

section \<open>What the operations do to the observations\<close>

lemma finite_holders [simp]: "finite (holders E k p)"
proof -
  have "holders E k p \<subseteq> {..<TASK_MAX} \<times> {..<FD_MAX}" by (auto simp: holders_def)
  then show ?thesis by (rule finite_subset) simp
qed

definition upd_end :: "nat \<Rightarrow> nat \<Rightarrow> (fd_kind \<times> int) option \<Rightarrow> ends \<Rightarrow> ends" where
  "upd_end i j x E = (\<lambda>i' j'. if i' = i \<and> j' = j then x else E i' j')"

lemma holders_upd:
  "i < TASK_MAX \<Longrightarrow> j < FD_MAX \<Longrightarrow> holders (upd_end i j x E) k p =
    holders E k p - {(i, j)} \<union> (if x = Some (k, p) then {(i, j)} else {})"
  by (auto simp: holders_def upd_end_def split: if_splits)

lemma card_holders_upd:
  assumes "i < TASK_MAX" "j < FD_MAX"
  shows "int (card (holders (upd_end i j x E) k p)) =
    int (card (holders E k p)) - (if E i j = Some (k, p) then 1 else 0) + (if x = Some (k, p) then 1 else 0)"
proof -
  have m: "(i, j) \<in> holders E k p \<longleftrightarrow> E i j = Some (k, p)" using assms by (simp add: holders_def)
  show ?thesis
    unfolding holders_upd [OF assms] using card_gt_0_iff [of "holders E k p"] m
    by (cases "E i j = Some (k, p)"; cases "x = Some (k, p)") (auto simp: card_insert_if insert_absorb)
qed

definition still :: "waits \<Rightarrow> waits \<Rightarrow> bool" where
  "still w' w \<longleftrightarrow> (\<forall>i. w' i = None \<or> w' i = w i)"

definition woken :: "int \<Rightarrow> waits \<Rightarrow> waits" where
  "woken p w = (\<lambda>i. if w i = Some p then None else w i)"

lemma pipes_inv_wake: "pipes_inv E ps w \<Longrightarrow> still w' w \<Longrightarrow> pipes_inv E ps w'"
  unfolding pipes_inv_def still_def by (metis option.distinct(1))

lemma pipes_inv_ends:
  assumes "pipes_inv E ps w" "\<And>i j. i < TASK_MAX \<Longrightarrow> j < FD_MAX \<Longrightarrow> E' i j = E i j"
  shows "pipes_inv E' ps w"
proof -
  have "holders E' k p = holders E k p" for k p using assms(2) by (auto simp: holders_def)
  then show ?thesis using assms unfolding pipes_inv_def by simp
qed

lemma live_upd: "length ps = PIPE_MAX \<Longrightarrow> live ps p \<Longrightarrow> live (ps[nat p := q]) r \<longleftrightarrow> (if r = p then p_used q else live ps r)"
  by (auto simp: live_def valid_pipe_def PIPE_MAX_def nth_list_update)

lemma nth_pipe_upd: "length ps = PIPE_MAX \<Longrightarrow> valid_pipe p \<Longrightarrow> valid_pipe r \<Longrightarrow>
    ps[nat p := q] ! nat r = (if r = p then q else ps ! nat r)"
  by (auto simp: valid_pipe_def PIPE_MAX_def nth_list_update)

text \<open>Closing an end: the count drops, the pipe is given up with its last end, its waiters are woken.\<close>

definition released :: "fd_kind \<Rightarrow> pipe \<Rightarrow> pipe" where
  "released k q = (let q' = unref k q in if rrefs q' = 0 \<and> wrefs q' = 0 then empty_pipe else q')"

lemma pipes_inv_close:
  assumes inv: "pipes_inv E ps w" and ij: "i < TASK_MAX" "j < FD_MAX" and e: "E i j = Some (k, p)" "is_pipe k"
  shows "pipes_inv (upd_end i j None E) (ps[nat p := released k (ps ! nat p)]) (woken p w)"
proof -
  note C = card_holders_upd [OF ij, of None E]
  have len: "length ps = PIPE_MAX" using inv by (simp add: pipes_inv_def)
  have lp: "live ps p" using inv ij e(1) unfolding pipes_inv_def by blast
  then have vp: "valid_pipe p" "p_used (ps ! nat p)" by (auto simp: live_def)
  have cnt: "rrefs (ps ! nat r) = int (card (holders E FD_KIND_PIPE_R r))"
    "wrefs (ps ! nat r) = int (card (holders E FD_KIND_PIPE_W r))" "ring_ok (ps ! nat r)" if "live ps r" for r
    using inv that unfolding pipes_inv_def by blast+
  have m: "(i, j) \<in> holders E k p" using ij e by (simp add: holders_def)
  then have "0 < card (holders E k p)" by (auto simp: card_gt_0_iff)
  then have u: "rrefs (unref k (ps ! nat p)) = int (card (holders (upd_end i j None E) FD_KIND_PIPE_R p))"
    "wrefs (unref k (ps ! nat p)) = int (card (holders (upd_end i j None E) FD_KIND_PIPE_W p))"
    using cnt [OF lp] e unfolding C unref_def is_pipe_def by (auto split: if_splits)
  have same: "unref k q = q\<lparr>rrefs := rrefs (unref k q), wrefs := wrefs (unref k q)\<rparr>" for q by (simp add: unref_def)
  have ro: "ring_ok (unref k (ps ! nat p))" "p_used (unref k (ps ! nat p))"
    using cnt(3) [OF lp] vp(2) by (auto simp: ring_ok_def unref_def)
  show ?thesis
    unfolding pipes_inv_def
  proof (intro conjI allI impI)
    show "length (ps[nat p := released k (ps ! nat p)]) = PIPE_MAX" using len by simp
    fix r assume r: "live (ps[nat p := released k (ps ! nat p)]) r"
    have vr: "valid_pipe r" using r by (simp add: live_def)
    have rl: "r = p \<Longrightarrow> released k (ps ! nat p) = unref k (ps ! nat p)" "r \<noteq> p \<Longrightarrow> live ps r"
      using r unfolding live_upd [OF len lp] by (auto simp: released_def Let_def empty_pipe_def split: if_splits)
    have c': "r \<noteq> p \<Longrightarrow> int (card (holders (upd_end i j None E) k' r)) = int (card (holders E k' r))" for k'
      using C [of k' r] e(1) by simp
    show "ring_ok (ps[nat p := released k (ps ! nat p)] ! nat r)"
      "rrefs (ps[nat p := released k (ps ! nat p)] ! nat r) = int (card (holders (upd_end i j None E) FD_KIND_PIPE_R r))"
      "wrefs (ps[nat p := released k (ps ! nat p)] ! nat r) = int (card (holders (upd_end i j None E) FD_KIND_PIPE_W r))"
      unfolding nth_pipe_upd [OF len vp(1) vr]
      by (cases "r = p"; use rl c' cnt [of r] u ro in simp)+
  next
    fix i' j' k' r assume a: "i' < TASK_MAX" "j' < FD_MAX" "upd_end i j None E i' j' = Some (k', r)"
    have ne: "(i', j') \<noteq> (i, j)" and E': "E i' j' = Some (k', r)" using a(3) by (auto simp: upd_end_def split: if_splits)
    have lr: "live ps r" and k': "is_pipe k'" using inv a(1,2) E' unfolding pipes_inv_def by blast+
    show "is_pipe k'" by (rule k')
    show "live (ps[nat p := released k (ps ! nat p)]) r"
    proof (cases "r = p")
      case True
      then have "(i', j') \<in> holders (upd_end i j None E) k' p" using a by (simp add: holders_def)
      then have "0 < card (holders (upd_end i j None E) k' p)" by (auto simp: card_gt_0_iff)
      then have "released k (ps ! nat p) = unref k (ps ! nat p)"
        using u k' by (auto simp: released_def is_pipe_def Let_def)
      then show ?thesis using True ro live_upd [OF len lp] by simp
    next
      case False
      then show ?thesis using lr live_upd [OF len lp] by simp
    qed
  next
    fix i' r assume a: "i' < TASK_MAX" "woken p w i' = Some r"
    have ne: "r \<noteq> p" "w i' = Some r" using a(2) by (auto simp: woken_def split: if_splits)
    then have "live ps r" "stuck (ps ! nat r)" using inv a(1) unfolding pipes_inv_def by blast+
    then show "live (ps[nat p := released k (ps ! nat p)]) r" "stuck (ps[nat p := released k (ps ! nat p)] ! nat r)"
      using ne(1) live_upd [OF len lp] nth_pipe_upd [OF len vp(1)] by (auto simp: live_def)
  qed
qed

text \<open>Opening an end of a pipe in use; \<open>w'\<close> may have woken tasks.\<close>

lemma pipes_inv_open:
  assumes inv: "pipes_inv E ps w" and ij: "i < TASK_MAX" "j < FD_MAX" and e: "E i j = None" "is_pipe k"
    and lp: "live ps p"
  shows "pipes_inv (upd_end i j (Some (k, p)) E) (ps[nat p := addref k (ps ! nat p)]) w"
proof -
  note C = card_holders_upd [OF ij, of "Some (k, p)" E]
  have len: "length ps = PIPE_MAX" using inv by (simp add: pipes_inv_def)
  have vp: "valid_pipe p" "p_used (ps ! nat p)" using lp by (auto simp: live_def)
  have lv: "live (ps[nat p := addref k (ps ! nat p)]) r \<longleftrightarrow> live ps r" for r
    using live_upd [OF len lp, of "addref k (ps ! nat p)" r] lp vp(2) by (auto simp: addref_def)
  have nth: "ps[nat p := addref k (ps ! nat p)] ! nat r = (if r = p then addref k (ps ! nat p) else ps ! nat r)" if "live ps r" for r
    using nth_pipe_upd [OF len vp(1)] that by (simp add: live_def)
  have st: "stuck q \<Longrightarrow> 0 \<le> rrefs q \<Longrightarrow> 0 \<le> wrefs q \<Longrightarrow> stuck (addref k q)" for q
    by (auto simp: stuck_def addref_def)
  have R: "ring_ok (ps ! nat r) \<and> rrefs (ps ! nat r) = int (card (holders E FD_KIND_PIPE_R r)) \<and>
        wrefs (ps ! nat r) = int (card (holders E FD_KIND_PIPE_W r))" if "live ps r" for r
    using inv that unfolding pipes_inv_def by blast
  show ?thesis
    unfolding pipes_inv_def lv
  proof (intro conjI allI impI)
    fix r assume r: "live ps r"
    show "ring_ok (ps[nat p := addref k (ps ! nat p)] ! nat r)"
      using R [OF r] unfolding nth [OF r] by (auto simp: ring_ok_def addref_def)
    show "rrefs (ps[nat p := addref k (ps ! nat p)] ! nat r) = int (card (holders (upd_end i j (Some (k, p)) E) FD_KIND_PIPE_R r))"
      "wrefs (ps[nat p := addref k (ps ! nat p)] ! nat r) = int (card (holders (upd_end i j (Some (k, p)) E) FD_KIND_PIPE_W r))"
      using R [OF r] e unfolding nth [OF r] C by (auto simp: addref_def is_pipe_def)
  next
    show "length (ps[nat p := addref k (ps ! nat p)]) = PIPE_MAX" using len by simp
  next
    fix i' j' k' r assume a: "i' < TASK_MAX" "j' < FD_MAX" "upd_end i j (Some (k, p)) E i' j' = Some (k', r)"
    show "is_pipe k'" "live ps r" using a e lp inv unfolding pipes_inv_def by (auto simp: upd_end_def split: if_splits)
  next
    fix i' r assume a: "i' < TASK_MAX" "w i' = Some r"
    then show lr: "live ps r" using inv unfolding pipes_inv_def by blast
    have "stuck (ps ! nat r)" using inv a unfolding pipes_inv_def by blast
    then show "stuck (ps[nat p := addref k (ps ! nat p)] ! nat r)" unfolding nth [OF lr] using st [of "ps ! nat r"] R [OF lr] by auto
  qed
qed

text \<open>The ring changes and every waiter of the pipe is woken.\<close>

lemma pipes_inv_ring:
  assumes inv: "pipes_inv E ps w" and lp: "live ps p"
    and q: "ring_ok q" "p_used q" "rrefs q = rrefs (ps ! nat p)" "wrefs q = wrefs (ps ! nat p)"
  shows "pipes_inv E (ps[nat p := q]) (woken p w)"
proof -
  have len: "length ps = PIPE_MAX" using inv by (simp add: pipes_inv_def)
  have vp: "valid_pipe p" using lp by (auto simp: live_def)
  have lv: "live (ps[nat p := q]) r \<longleftrightarrow> live ps r" for r using live_upd [OF len lp, of q r] lp q(2) by auto
  have nth: "ps[nat p := q] ! nat r = (if r = p then q else ps ! nat r)" if "live ps r" for r
    using nth_pipe_upd [OF len vp] that by (simp add: live_def)
  show ?thesis
    unfolding pipes_inv_def lv
  proof (intro conjI allI impI)
    fix r assume r: "live ps r"
    then have "ring_ok (ps ! nat r) \<and> rrefs (ps ! nat r) = int (card (holders E FD_KIND_PIPE_R r)) \<and>
        wrefs (ps ! nat r) = int (card (holders E FD_KIND_PIPE_W r))" using inv unfolding pipes_inv_def by blast
    then show "ring_ok (ps[nat p := q] ! nat r)" "rrefs (ps[nat p := q] ! nat r) = int (card (holders E FD_KIND_PIPE_R r))"
      "wrefs (ps[nat p := q] ! nat r) = int (card (holders E FD_KIND_PIPE_W r))"
      unfolding nth [OF r] using q by auto
  next
    show "length (ps[nat p := q]) = PIPE_MAX" using len by simp
  next
    fix i j k r assume "i < TASK_MAX" "j < FD_MAX" "E i j = Some (k, r)"
    then show "is_pipe k" "live ps r" using inv unfolding pipes_inv_def by blast+
  next
    fix i r assume "i < TASK_MAX" "woken p w i = Some r"
    then have "r \<noteq> p" "live ps r" "stuck (ps ! nat r)"
      using inv unfolding pipes_inv_def by (auto simp: woken_def split: if_splits)
    then show "live ps r" "stuck (ps[nat p := q] ! nat r)" using nth by auto
  qed
qed

text \<open>A pipe that is not in use has no ends and no waiters; it may be replaced by a new one.\<close>

lemma pipes_inv_new:
  assumes inv: "pipes_inv E ps w" and p: "valid_pipe p" "\<not> p_used (ps ! nat p)"
    and q: "ring_ok q" "p_used q" "rrefs q = 0" "wrefs q = 0"
  shows "pipes_inv E (ps[nat p := q]) w"
proof -
  have len: "length ps = PIPE_MAX" using inv by (simp add: pipes_inv_def)
  have nl: "\<not> live ps p" using p by (simp add: live_def)
  have nth: "ps[nat p := q] ! nat r = (if r = p then q else ps ! nat r)" if "valid_pipe r" for r
    using nth_pipe_upd [OF len p(1)] that by simp
  have lv: "live (ps[nat p := q]) r \<longleftrightarrow> r = p \<or> live ps r" for r using nth [of r] p q(2) by (auto simp: live_def)
  have none: "holders E k p = {}" for k using inv nl unfolding pipes_inv_def holders_def by blast
  show ?thesis
    unfolding pipes_inv_def
  proof (intro conjI allI impI)
    fix r assume "live (ps[nat p := q]) r"
    then have r: "valid_pipe r" "r = p \<or> live ps r" using lv by (auto simp: live_def)
    then show "ring_ok (ps[nat p := q] ! nat r)" "rrefs (ps[nat p := q] ! nat r) = int (card (holders E FD_KIND_PIPE_R r))"
      "wrefs (ps[nat p := q] ! nat r) = int (card (holders E FD_KIND_PIPE_W r))"
      unfolding nth [OF r(1)] using inv q none nl unfolding pipes_inv_def by auto
  next
    show "length (ps[nat p := q]) = PIPE_MAX" using len by simp
  next
    fix i j k r assume "i < TASK_MAX" "j < FD_MAX" "E i j = Some (k, r)"
    then show "is_pipe k" "live (ps[nat p := q]) r" using inv lv unfolding pipes_inv_def by blast+
  next
    fix i r assume "i < TASK_MAX" "w i = Some r"
    then have l: "live ps r" "stuck (ps ! nat r)" using inv unfolding pipes_inv_def by blast+
    then show "live (ps[nat p := q]) r" "stuck (ps[nat p := q] ! nat r)" using lv nth [of r] nl by (auto simp: live_def)
  qed
qed

text \<open>A pipe without ends is given up: nobody waits for it.\<close>

lemma pipes_inv_give_up:
  assumes inv: "pipes_inv E ps w" and lp: "live ps p" and z: "rrefs (ps ! nat p) = 0" "wrefs (ps ! nat p) = 0"
  shows "pipes_inv E (ps[nat p := empty_pipe]) w"
proof -
  have len: "length ps = PIPE_MAX" using inv by (simp add: pipes_inv_def)
  have vp: "valid_pipe p" using lp by (auto simp: live_def)
  have lv: "live (ps[nat p := empty_pipe]) r \<longleftrightarrow> r \<noteq> p \<and> live ps r" for r
    using live_upd [OF len lp, of empty_pipe r] by (auto simp: empty_pipe_def)
  have nth: "ps[nat p := empty_pipe] ! nat r = ps ! nat r" if "r \<noteq> p" "live ps r" for r
    using nth_pipe_upd [OF len vp] that by (simp add: live_def)
  have none: "holders E k p = {}" if "is_pipe k" for k
    using inv lp z that unfolding pipes_inv_def is_pipe_def by (metis card_0_eq finite_holders of_nat_eq_0_iff)
  have ns: "\<not> stuck (ps ! nat p)" using z by (simp add: stuck_def)
  show ?thesis
    unfolding pipes_inv_def lv
  proof (intro conjI allI impI)
    show "length (ps[nat p := empty_pipe]) = PIPE_MAX" using len by simp
    fix r assume r: "r \<noteq> p \<and> live ps r"
    then show "ring_ok (ps[nat p := empty_pipe] ! nat r)"
      "rrefs (ps[nat p := empty_pipe] ! nat r) = int (card (holders E FD_KIND_PIPE_R r))"
      "wrefs (ps[nat p := empty_pipe] ! nat r) = int (card (holders E FD_KIND_PIPE_W r))"
      using inv nth unfolding pipes_inv_def by auto
  next
    fix i j k r assume a: "i < TASK_MAX" "j < FD_MAX" "E i j = Some (k, r)"
    then show k: "is_pipe k" "live ps r" using inv unfolding pipes_inv_def by blast+
    show "r \<noteq> p" using none [OF k(1)] a by (auto simp: holders_def)
  next
    fix i r assume "i < TASK_MAX" "w i = Some r"
    then have l: "live ps r" "stuck (ps ! nat r)" using inv unfolding pipes_inv_def by blast+
    then show "live ps r" and rp: "r \<noteq> p" using ns by auto
    show "stuck (ps[nat p := empty_pipe] ! nat r)" using nth [OF rp l(1)] l(2) by simp
  qed
qed

section \<open>The invariant of the state\<close>

definition sched_wf :: "sched \<Rightarrow> bool" where
  "sched_wf s \<longleftrightarrow> length (tasks s) = TASK_MAX \<and> (\<forall>t \<in> set (tasks s). length (fds t) = FD_MAX) \<and>
     task_count s \<le> TASK_MAX \<and> (current s < task_count s \<or> task_count s = 0 \<and> current s = 0) \<and>
     (\<forall>i < TASK_MAX. task_count s \<le> i \<longrightarrow> waits s i = None)"

definition sched_inv :: "sched \<Rightarrow> bool" where
  "sched_inv s \<longleftrightarrow> sched_wf s \<and> pipes_inv (ends s) (pipes s) (waits s)"

lemma sched_inv_other [simp]:
  "sched_inv (s\<lparr>vm := a\<rparr>) = sched_inv s" "sched_inv (s\<lparr>scr := b\<rparr>) = sched_inv s"
  "sched_inv (s\<lparr>tss_rsp0 := c\<rparr>) = sched_inv s" "sched_inv (s\<lparr>ticks := d\<rparr>) = sched_inv s"
  "sched_inv (s\<lparr>stdin_ready := e\<rparr>) = sched_inv s" "sched_inv (s\<lparr>irqs := f\<rparr>) = sched_inv s"
  "sched_inv (s\<lparr>last_added := g\<rparr>) = sched_inv s" "sched_inv (s\<lparr>fg_slot := h\<rparr>) = sched_inv s"
  by (simp_all add: sched_inv_def sched_wf_def ends_def [abs_def] waits_def [abs_def] fd_at_def task_at_def)

lemma sched_invD:
  assumes "sched_inv s"
  shows "length (tasks s) = TASK_MAX" "i < TASK_MAX \<Longrightarrow> length (fds (task_at s i)) = FD_MAX"
    "task_count s \<le> TASK_MAX" "current s < TASK_MAX" "length (pipes s) = PIPE_MAX"
    "i < TASK_MAX \<Longrightarrow> task_count s \<le> i \<Longrightarrow> waits s i = None"
    "task_count s \<noteq> 0 \<Longrightarrow> current s < task_count s"
  using assms by (auto simp: sched_inv_def sched_wf_def pipes_inv_def task_at_def TASK_MAX_def)

lemma task_at_upd: "i < length (tasks s) \<Longrightarrow> task_at (upd_task i f s) i' = (if i' = i then f (task_at s i) else task_at s i')"
  by (simp add: task_at_def upd_task_def nth_list_update)

lemma upd_task_sel [simp]:
  "length (tasks (upd_task i f s)) = length (tasks s)" "pipes (upd_task i f s) = pipes s"
  "task_count (upd_task i f s) = task_count s" "current (upd_task i f s) = current s"
  "last_added (upd_task i f s) = last_added s" "fg_slot (upd_task i f s) = fg_slot s" "vm (upd_task i f s) = vm s"
  "ticks (upd_task i f s) = ticks s" "irqs (upd_task i f s) = irqs s" "scr (upd_task i f s) = scr s"
  "stdin_ready (upd_task i f s) = stdin_ready s"
  by (simp_all add: upd_task_def)

lemma fd_at_task: "fd_at s i j = fds (task_at s i) ! j"
  by (simp add: fd_at_def task_at_def)

lemma wf_upd_task:
  assumes "sched_wf s" "i < TASK_MAX" "length (fds (f (task_at s i))) = FD_MAX"
    and "task_count s \<le> i \<Longrightarrow> wait_of (f (task_at s i)) = None"
  shows "sched_wf (upd_task i f s)"
proof -
  have "set (tasks (upd_task i f s)) \<subseteq> insert (f (task_at s i)) (set (tasks s))"
    by (simp add: upd_task_def task_at_def set_update_subset_insert)
  then show ?thesis using assms unfolding sched_wf_def by (auto simp: waits_def task_at_upd)
qed

text \<open>A task changes, its descriptors do not, and at most it stops waiting.\<close>

lemma inv_upd_task:
  assumes inv: "sched_inv s" and i: "i < TASK_MAX" and f: "fds (f (task_at s i)) = fds (task_at s i)"
    "wait_of (f (task_at s i)) = None \<or> wait_of (f (task_at s i)) = wait_of (task_at s i)"
  shows "sched_inv (upd_task i f s)"
proof -
  have il: "i < length (tasks s)" using sched_invD(1) [OF inv] i by simp
  have "sched_wf (upd_task i f s)"
    by (rule wf_upd_task) (use inv i f sched_invD(2,6) [OF inv i] in \<open>auto simp: sched_inv_def waits_def\<close>)
  moreover have "ends (upd_task i f s) = ends s"
    using f(1) il by (auto simp: ends_def fd_at_task task_at_upd intro!: ext)
  moreover have "still (waits (upd_task i f s)) (waits s)"
    using f(2) il by (auto simp: still_def waits_def task_at_upd)
  ultimately show ?thesis using inv pipes_inv_wake unfolding sched_inv_def by (metis upd_task_sel(2))
qed

lemma task_at_map:
  "length (tasks s) = TASK_MAX \<Longrightarrow> task_count s \<le> TASK_MAX \<Longrightarrow> i < TASK_MAX \<Longrightarrow>
    task_at (map_tasks f s) i = (if i < task_count s then f (task_at s i) else task_at s i)"
  by (simp add: task_at_def map_tasks_def nth_append min_def)

lemma map_tasks_sel [simp]:
  "pipes (map_tasks f s) = pipes s" "task_count (map_tasks f s) = task_count s" "current (map_tasks f s) = current s"
  "last_added (map_tasks f s) = last_added s" "fg_slot (map_tasks f s) = fg_slot s" "vm (map_tasks f s) = vm s"
  "length (tasks (map_tasks f s)) = length (tasks s)" "ticks (map_tasks f s) = ticks s" "irqs (map_tasks f s) = irqs s"
  by (simp_all add: map_tasks_def)

lemma wf_map_tasks:
  assumes wf: "sched_wf s" and f: "\<And>t. fds (f t) = fds t"
  shows "sched_wf (map_tasks f s)"
proof -
  have "\<forall>t \<in> set (tasks (map_tasks f s)). length (fds t) = FD_MAX"
    using wf f by (auto simp: sched_wf_def map_tasks_def dest: in_set_takeD in_set_dropD)
  moreover have "waits (map_tasks f s) i = None" if "i < TASK_MAX" "task_count s \<le> i" for i
    using wf that task_at_map [of s i f] by (simp add: sched_wf_def waits_def)
  ultimately show ?thesis using wf by (simp add: sched_wf_def)
qed

lemma ends_map_tasks:
  "sched_wf s \<Longrightarrow> (\<And>t. fds (f t) = fds t) \<Longrightarrow> i < TASK_MAX \<Longrightarrow> ends (map_tasks f s) i j = ends s i j"
  by (simp add: ends_def fd_at_task sched_wf_def task_at_map)

lemma pipes_inv_obs:
  assumes "pipes_inv E ps w" "\<And>i j. i < TASK_MAX \<Longrightarrow> j < FD_MAX \<Longrightarrow> E' i j = E i j"
    and "\<And>i. i < TASK_MAX \<Longrightarrow> w' i = None \<or> w' i = w i"
  shows "pipes_inv E' ps w'"
  using pipes_inv_ends [OF assms(1,2)] assms(3) unfolding pipes_inv_def by (metis option.distinct(1))

lemma inv_map_tasks:
  assumes inv: "sched_inv s" and f: "\<And>t. fds (f t) = fds t" "\<And>t. wait_of (f t) = None \<or> wait_of (f t) = wait_of t"
  shows "sched_inv (map_tasks f s)"
proof -
  have wf: "sched_wf s" using inv by (simp add: sched_inv_def)
  have "pipes_inv (ends (map_tasks f s)) (pipes s) (waits (map_tasks f s))"
  proof (rule pipes_inv_obs)
    show "pipes_inv (ends s) (pipes s) (waits s)" using inv by (simp add: sched_inv_def)
    show "ends (map_tasks f s) i j = ends s i j" if "i < TASK_MAX" for i j by (rule ends_map_tasks [OF wf f(1) that])
    show "waits (map_tasks f s) i = None \<or> waits (map_tasks f s) i = waits s i" if "i < TASK_MAX" for i
      using f(2) wf task_at_map [of s i f] that by (auto simp: waits_def sched_wf_def)
  qed
  then show ?thesis using wf_map_tasks [OF wf f(1)] by (simp add: sched_inv_def)
qed

lemma waits_wake:
  assumes "sched_wf s" "i < TASK_MAX"
  shows "waits (wake_pipe_waiters p s) i = woken p (waits s) i"
proof (cases "i < task_count s")
  case True
  then show ?thesis using assms task_at_map [of s i] by (auto simp: waits_def wait_of_def woken_def wake_pipe_waiters_def sched_wf_def)
next
  case False
  then show ?thesis using assms task_at_map [of s i] by (auto simp: waits_def woken_def wake_pipe_waiters_def sched_wf_def)
qed

lemma upd_pipe_sel [simp]:
  "tasks (upd_pipe p f s) = tasks s" "task_count (upd_pipe p f s) = task_count s" "current (upd_pipe p f s) = current s"
  "pipes (upd_pipe p f s) = (pipes s)[nat p := f (pipes s ! nat p)]" "vm (upd_pipe p f s) = vm s"
  "last_added (upd_pipe p f s) = last_added s" "fg_slot (upd_pipe p f s) = fg_slot s"
  by (simp_all add: upd_pipe_def)

lemma upd_pipe_obs [simp]:
  "task_at (upd_pipe p f s) i = task_at s i" "fd_at (upd_pipe p f s) i j = fd_at s i j"
  "ends (upd_pipe p f s) = ends s" "waits (upd_pipe p f s) = waits s" "sched_wf (upd_pipe p f s) = sched_wf s"
  by (simp_all add: task_at_def fd_at_def ends_def [abs_def] waits_def [abs_def] sched_wf_def)

lemma live_pipe_live: "live_pipe s p \<longleftrightarrow> live (pipes s) p"
  by (simp add: live_pipe_def live_def pipe_at_def)

lemma task_at_set_fd: "i < length (tasks s) \<Longrightarrow>
    task_at (set_fd i j e s) i' = (if i' = i then (task_at s i)\<lparr>fds := (fds (task_at s i))[j := e]\<rparr> else task_at s i')"
  by (simp add: set_fd_def task_at_upd)

lemma set_fd_sel [simp]:
  "pipes (set_fd i j e s) = pipes s" "task_count (set_fd i j e s) = task_count s" "current (set_fd i j e s) = current s"
  "length (tasks (set_fd i j e s)) = length (tasks s)" "vm (set_fd i j e s) = vm s" "last_added (set_fd i j e s) = last_added s"
  "fg_slot (set_fd i j e s) = fg_slot s"
  by (simp_all add: set_fd_def)

lemma ends_set_fd:
  assumes "sched_wf s" "i < TASK_MAX" "j < FD_MAX"
  shows "ends (set_fd i j e s) = upd_end i j (fd_end e) (ends s)" "waits (set_fd i j e s) = waits s" "sched_wf (set_fd i j e s)"
proof -
  have il: "i < length (tasks s)" and fl: "length (fds (task_at s i)) = FD_MAX"
    using assms by (auto simp: sched_wf_def task_at_def)
  show "ends (set_fd i j e s) = upd_end i j (fd_end e) (ends s)"
    using il fl assms(3) by (auto simp: ends_def fd_at_task upd_end_def task_at_set_fd nth_list_update intro!: ext)
  show w: "waits (set_fd i j e s) = waits s" using il by (auto simp: waits_def task_at_set_fd wait_of_def intro!: ext)
  have "wait_of (task_at s i) = None" if "task_count s \<le> i"
    using assms(1,2) that by (simp add: sched_wf_def waits_def)
  then show "sched_wf (set_fd i j e s)"
    unfolding set_fd_def using fl by (intro wf_upd_task assms) (auto simp: wait_of_def split: if_splits)
qed

section \<open>Closing descriptors\<close>

lemma wake_sel [simp]:
  "pipes (wake_pipe_waiters p s) = pipes s" "task_count (wake_pipe_waiters p s) = task_count s"
  "current (wake_pipe_waiters p s) = current s" "vm (wake_pipe_waiters p s) = vm s"
  by (simp_all add: wake_pipe_waiters_def)

lemma wake_obs:
  assumes "sched_wf s"
  shows "sched_wf (wake_pipe_waiters p s)" "i < TASK_MAX \<Longrightarrow> ends (wake_pipe_waiters p s) i j = ends s i j"
    "i < TASK_MAX \<Longrightarrow> fds (task_at (wake_pipe_waiters p s) i) = fds (task_at s i)"
proof -
  show "sched_wf (wake_pipe_waiters p s)"
    unfolding wake_pipe_waiters_def by (rule wf_map_tasks [OF assms]) simp
  show "ends (wake_pipe_waiters p s) i j = ends s i j" if "i < TASK_MAX"
    unfolding wake_pipe_waiters_def by (rule ends_map_tasks [OF assms _ that]) simp
  show "fds (task_at (wake_pipe_waiters p s) i) = fds (task_at s i)" if "i < TASK_MAX"
    unfolding wake_pipe_waiters_def using assms that by (simp add: task_at_map sched_wf_def)
qed

lemma free_pipe_obs:
  assumes "valid_pipe p"
  shows "pipes (free_pipe p s) = (pipes s)[nat p := empty_pipe]" "tasks (free_pipe p s) = tasks s"
    "task_count (free_pipe p s) = task_count s" "current (free_pipe p s) = current s"
    "last_added (free_pipe p s) = last_added s" "fg_slot (free_pipe p s) = fg_slot s"
  using assms by (simp_all add: free_pipe_def Let_def)

lemma same_tasks_obs:
  assumes "tasks s' = tasks s" "task_count s' = task_count s" "current s' = current s"
  shows "ends s' = ends s" "waits s' = waits s" "sched_wf s' = sched_wf s" "task_at s' i = task_at s i"
  using assms by (simp_all add: ends_def [abs_def] waits_def [abs_def] sched_wf_def fd_at_def task_at_def)

lemma empty_fd_end [simp]: "fd_end empty_fd = None" "\<not> fd_used empty_fd"
  by (simp_all add: fd_end_def empty_fd_def)

text \<open>The state \<open>drop_fd\<close> leaves before it clears the entry.\<close>

definition drop_ref :: "fd_entry \<Rightarrow> sched \<Rightarrow> sched" where
  "drop_ref e s = (if is_pipe (fd_kind e) \<and> live_pipe s (fd_pipe e)
     then let p = fd_pipe e; s2 = wake_pipe_waiters p (upd_pipe p (unref (fd_kind e)) s)
          in if rrefs (pipe_at s2 p) = 0 \<and> wrefs (pipe_at s2 p) = 0 then free_pipe p s2 else s2
     else s)"

lemma drop_fd_alt: "drop_fd i j s = (if fd_used (fd_at s i j) then set_fd i j empty_fd (drop_ref (fd_at s i j) s) else s)"
  by (simp add: drop_fd_def drop_ref_def Let_def)

lemma drop_ref_obs:
  assumes wf: "sched_wf s" and len: "length (pipes s) = PIPE_MAX" and e: "is_pipe (fd_kind e)" "live_pipe s (fd_pipe e)"
  defines "p \<equiv> fd_pipe e" and "k \<equiv> fd_kind e"
  shows "pipes (drop_ref e s) = (pipes s)[nat p := released k (pipes s ! nat p)]"
    "tasks (drop_ref e s) = tasks (wake_pipe_waiters p s)"
    "task_count (drop_ref e s) = task_count s" "current (drop_ref e s) = current s"
    "last_added (drop_ref e s) = last_added s" "fg_slot (drop_ref e s) = fg_slot s"
proof -
  have vp: "valid_pipe p" using e(2) by (simp add: live_pipe_def p_def)
  then have np: "nat p < PIPE_MAX" by (auto simp: valid_pipe_def)
  let ?s2 = "wake_pipe_waiters p (upd_pipe p (unref k) s)"
  have at: "pipe_at ?s2 p = unref k (pipes s ! nat p)" using np len by (simp add: pipe_at_def)
  have d: "drop_ref e s = (if rrefs (unref k (pipes s ! nat p)) = 0 \<and> wrefs (unref k (pipes s ! nat p)) = 0
      then free_pipe p ?s2 else ?s2)"
    using e at by (simp add: drop_ref_def p_def k_def Let_def)
  have t: "tasks ?s2 = tasks (wake_pipe_waiters p s)" by (simp add: wake_pipe_waiters_def map_tasks_def)
  show "pipes (drop_ref e s) = (pipes s)[nat p := released k (pipes s ! nat p)]"
    "tasks (drop_ref e s) = tasks (wake_pipe_waiters p s)"
    "task_count (drop_ref e s) = task_count s" "current (drop_ref e s) = current s"
    "last_added (drop_ref e s) = last_added s" "fg_slot (drop_ref e s) = fg_slot s"
    unfolding d using free_pipe_obs [OF vp, of ?s2] t np len
    by (simp_all add: released_def Let_def wake_pipe_waiters_def)
qed

lemma drop_fd_inv:
  assumes inv: "sched_inv s" and ij: "i < TASK_MAX" "j < FD_MAX"
  shows "sched_inv (drop_fd i j s)"
proof (cases "fd_used (fd_at s i j)")
  case False
  then show ?thesis using inv by (simp add: drop_fd_alt)
next
  case used: True
  let ?e = "fd_at s i j" and ?k = "fd_kind (fd_at s i j)" and ?p = "fd_pipe (fd_at s i j)"
  have wf: "sched_wf s" and P: "pipes_inv (ends s) (pipes s) (waits s)" using inv by (auto simp: sched_inv_def)
  have len: "length (pipes s) = PIPE_MAX" using P by (simp add: pipes_inv_def)
  show ?thesis
  proof (cases "is_pipe ?k")
    case True
    have E: "ends s i j = Some (?k, ?p)" using used True by (simp add: ends_def fd_end_def)
    then have lp: "live_pipe s ?p" using P ij unfolding pipes_inv_def live_pipe_live by blast
    note D = drop_ref_obs [OF wf len True lp]
    let ?s1 = "drop_ref ?e s"
    have o: "ends ?s1 = ends (wake_pipe_waiters ?p s)" "waits ?s1 = waits (wake_pipe_waiters ?p s)" "sched_wf ?s1"
      using same_tasks_obs [of ?s1 "wake_pipe_waiters ?p s"] D(2-4) wake_obs(1) [OF wf] by simp_all
    note F = ends_set_fd [OF o(3) ij, of empty_fd]
    have "pipes_inv (ends (set_fd i j empty_fd ?s1)) (pipes ?s1) (waits (set_fd i j empty_fd ?s1))"
    proof (rule pipes_inv_obs)
      show "pipes_inv (upd_end i j None (ends s)) (pipes ?s1) (woken ?p (waits s))"
        unfolding D(1) by (rule pipes_inv_close [OF P ij E True])
      show "ends (set_fd i j empty_fd ?s1) i' j' = upd_end i j None (ends s) i' j'" if "i' < TASK_MAX" for i' j'
        unfolding F(1) o(1) using wake_obs(2) [OF wf that] by (simp add: upd_end_def)
      show "waits (set_fd i j empty_fd ?s1) i' = None \<or> waits (set_fd i j empty_fd ?s1) i' = woken ?p (waits s) i'"
        if "i' < TASK_MAX" for i' unfolding F(2) o(2) waits_wake [OF wf that] by simp
    qed
    then show ?thesis using used F(3) by (simp add: drop_fd_alt sched_inv_def)
  next
    case False
    then have d: "drop_fd i j s = set_fd i j empty_fd s" using used by (simp add: drop_fd_alt drop_ref_def)
    note F = ends_set_fd [OF wf ij, of empty_fd]
    have "ends s i j = None" using False by (simp add: ends_def fd_end_def)
    then have "ends (set_fd i j empty_fd s) = ends s" unfolding F(1) by (auto simp: upd_end_def intro!: ext)
    then show ?thesis using P F by (simp add: d sched_inv_def)
  qed
qed

lemma fold_inv: "sched_inv s \<Longrightarrow> (\<And>x s. x \<in> set xs \<Longrightarrow> sched_inv s \<Longrightarrow> sched_inv (f x s)) \<Longrightarrow> sched_inv (fold f xs s)"
  by (induction xs arbitrary: s) auto

lemma clear_fds_inv: "sched_inv s \<Longrightarrow> i < TASK_MAX \<Longrightarrow> sched_inv (clear_fds i s)"
  unfolding clear_fds_def by (rule fold_inv) (auto intro: drop_fd_inv)

section \<open>Opening descriptors\<close>

lemma set_fd_inv:
  assumes inv: "sched_inv s" and ij: "i < TASK_MAX" "j < FD_MAX" and e: "ends s i j = None" "fd_end e = None"
  shows "sched_inv (set_fd i j e s)"
proof -
  have wf: "sched_wf s" using inv by (simp add: sched_inv_def)
  note F = ends_set_fd [OF wf ij, of e]
  have "ends (set_fd i j e s) = ends s" unfolding F(1) using e by (auto simp: upd_end_def intro!: ext)
  then show ?thesis using inv F by (simp add: sched_inv_def)
qed

text \<open>An end is stored in a free entry and counted, in either order.\<close>

lemma open_end_inv:
  assumes inv: "sched_inv s" and ij: "i < TASK_MAX" "j < FD_MAX" and e: "ends s i j = None" "fd_end e = Some (k, p)"
    and k: "is_pipe k" and lp: "live_pipe s p"
  shows "sched_inv (upd_pipe p (addref k) (set_fd i j e s))"
proof -
  have wf: "sched_wf s" and P: "pipes_inv (ends s) (pipes s) (waits s)" using inv by (auto simp: sched_inv_def)
  note F = ends_set_fd [OF wf ij, of e]
  have "pipes_inv (upd_end i j (Some (k, p)) (ends s)) ((pipes s)[nat p := addref k (pipes s ! nat p)]) (waits s)"
    by (rule pipes_inv_open [OF P ij e(1) k lp [unfolded live_pipe_live]])
  then show ?thesis using F e(2) by (simp add: sched_inv_def)
qed

lemma ends_None: "\<not> fd_used (fd_at s i j) \<Longrightarrow> ends s i j = None"
  by (simp add: ends_def fd_end_def)

lemma fd_at_set_fd: "sched_inv s \<Longrightarrow> i < TASK_MAX \<Longrightarrow> j < FD_MAX \<Longrightarrow> fd_at (set_fd i j e s) i j = e"
  using sched_invD(1) [of s] sched_invD(2) [of s i] by (simp add: fd_at_task task_at_set_fd)

lemma fd_end_Some: "fd_used e \<Longrightarrow> is_pipe (fd_kind e) \<Longrightarrow> fd_end e = Some (fd_kind e, fd_pipe e)"
  by (simp add: fd_end_def)

lemma stale_end [simp]: "fd_end (stale_fd e) = None"
  by (simp add: fd_end_def stale_fd_def)

text \<open>A copy into a free entry, counted by \<open>count_fd\<close>.\<close>

lemma set_fd_twice:
  assumes "sched_inv s" "i < TASK_MAX"
  shows "set_fd i j e' (set_fd i j e s) = set_fd i j e' s"
  using sched_invD(1) [OF assms(1)] assms(2) by (simp add: set_fd_def upd_task_def)

lemma copy_count_inv:
  assumes inv: "sched_inv s" and ij: "i < TASK_MAX" "j < FD_MAX" and free: "ends s i j = None" and used: "fd_used e"
  shows "sched_inv (snd (count_fd i j (set_fd i j e s)))"
proof -
  let ?s1 = "set_fd i j e s"
  have at: "fd_at ?s1 i j = e" by (rule fd_at_set_fd [OF inv ij])
  have lp: "live_pipe ?s1 p \<longleftrightarrow> live_pipe s p" for p by (simp add: live_pipe_live)
  show ?thesis
  proof (cases "is_pipe (fd_kind e)")
    case False
    then have "fd_end e = None" by (simp add: fd_end_def)
    then show ?thesis using set_fd_inv [OF inv ij free] False by (simp add: count_fd_def Let_def at)
  next
    case True
    show ?thesis
    proof (cases "live_pipe s (fd_pipe e)")
      case False
      then show ?thesis using set_fd_inv [OF inv ij free, of "stale_fd e"] True set_fd_twice [OF inv ij(1)]
        by (simp add: count_fd_def Let_def at lp)
    next
      case live: True
      show ?thesis using open_end_inv [OF inv ij free fd_end_Some [OF used True] True live] True live
        by (simp add: count_fd_def Let_def at lp)
    qed
  qed
qed

lemma inherit_fds_inv:
  assumes inv: "sched_inv s" and i: "dst < TASK_MAX" "src \<noteq> dst" and free: "\<forall>j < FD_MAX. ends s dst j = None"
  shows "sched_inv (inherit_fds dst src s)"
proof -
  let ?f = "\<lambda>j s. let s1 = copy_fd dst j (fd_at s src j) s in
        if fd_used (fd_at s1 dst j) then snd (count_fd dst j s1) else s1"
  have step: "sched_inv (?f j s) \<and> (\<forall>j' < FD_MAX. j' \<noteq> j \<longrightarrow> ends (?f j s) dst j' = ends s dst j')"
    if inv: "sched_inv s" and j: "j < FD_MAX" and free: "ends s dst j = None" for j s
  proof -
    have wf: "sched_wf s" using inv by (simp add: sched_inv_def)
    let ?e = "fd_at s src j"
    have at: "fd_at (set_fd dst j ?e s) dst j = ?e" by (rule fd_at_set_fd [OF inv i(1) j])
    have E: "ends (set_fd dst j x s) dst j' = ends s dst j'" if "j' \<noteq> j" for j' x
      unfolding ends_set_fd(1) [OF wf i(1) j] using that by (simp add: upd_end_def)
    have E2: "ends (snd (count_fd dst j (set_fd dst j ?e s))) dst j' = ends s dst j'" if "j' \<noteq> j" for j'
      using E [OF that] set_fd_twice [OF inv i(1)] by (simp add: count_fd_def Let_def at)
    show ?thesis
    proof (cases "fd_used ?e")
      case True
      then show ?thesis using copy_count_inv [OF inv i(1) j free True] at E2 by (simp add: copy_fd_def Let_def)
    next
      case False
      then have "fd_end ?e = None" by (simp add: fd_end_def)
      then show ?thesis using set_fd_inv [OF inv i(1) j free] False at E by (simp add: copy_fd_def Let_def)
    qed
  qed
  have "sched_inv (fold ?f js s)" if "sched_inv s" "\<forall>j \<in> set js. j < FD_MAX \<and> ends s dst j = None" "distinct js" for js s
    using that
  proof (induction js arbitrary: s)
    case (Cons j js)
    have F: "sched_inv (?f j s)" "\<forall>j' < FD_MAX. j' \<noteq> j \<longrightarrow> ends (?f j s) dst j' = ends s dst j'"
      using step [OF Cons.prems(1), of j] Cons.prems(2) by auto
    have "\<forall>j' \<in> set js. j' < FD_MAX \<and> ends (?f j s) dst j' = None"
    proof
      fix j' assume "j' \<in> set js"
      then show "j' < FD_MAX \<and> ends (?f j s) dst j' = None" using F(2) Cons.prems(2,3) by auto
    qed
    from Cons.IH [OF F(1) this] show ?case using Cons.prems(3) by (simp add: Let_def)
  qed simp
  from this [OF inv, of "[0..<FD_MAX]"] show ?thesis using free by (simp add: inherit_fds_def)
qed

lemma drop_fd_free:
  assumes inv: "sched_inv s" and ij: "i < TASK_MAX" "j < FD_MAX"
  shows "\<not> fd_used (fd_at (drop_fd i j s) i j)" "j' \<noteq> j \<Longrightarrow> fd_at (drop_fd i j s) i j' = fd_at s i j'"
    "current (drop_fd i j s) = current s" "task_count (drop_fd i j s) = task_count s"
    "last_added (drop_fd i j s) = last_added s" "fg_slot (drop_fd i j s) = fg_slot s"
    "length (fds (task_at (drop_fd i j s) i)) = FD_MAX"
proof -
  have wf: "sched_wf s" and len: "length (pipes s) = PIPE_MAX" using inv by (auto simp: sched_inv_def pipes_inv_def)
  have il: "i < length (tasks s)" "length (fds (task_at s i)) = FD_MAX" using sched_invD(1,2) [OF inv] ij by simp_all
  let ?e = "fd_at s i j" and ?r = "drop_ref (fd_at s i j) s"
  have R: "length (tasks ?r) = TASK_MAX \<and> fds (task_at ?r i) = fds (task_at s i) \<and> current ?r = current s \<and>
      task_count ?r = task_count s \<and> last_added ?r = last_added s \<and> fg_slot ?r = fg_slot s"
  proof (cases "is_pipe (fd_kind ?e) \<and> live_pipe s (fd_pipe ?e)")
    case True
    then show ?thesis
      using drop_ref_obs [OF wf len, of ?e] wake_obs(3) [OF wf ij(1), of "fd_pipe ?e"] sched_invD(1) [OF inv]
      by (simp add: task_at_def wake_pipe_waiters_def)
  next
    case False
    then have "?r = s" by (auto simp: drop_ref_def)
    then show ?thesis using sched_invD(1) [OF inv] by simp
  qed
  show "\<not> fd_used (fd_at (drop_fd i j s) i j)" "j' \<noteq> j \<Longrightarrow> fd_at (drop_fd i j s) i j' = fd_at s i j'"
    "current (drop_fd i j s) = current s" "task_count (drop_fd i j s) = task_count s"
    "last_added (drop_fd i j s) = last_added s" "fg_slot (drop_fd i j s) = fg_slot s"
    "length (fds (task_at (drop_fd i j s) i)) = FD_MAX"
    using R il ij by (simp_all add: drop_fd_alt fd_at_task task_at_set_fd)
qed

lemma clear_fds_free:
  assumes inv: "sched_inv s" and i: "i < TASK_MAX"
  shows "\<forall>j < FD_MAX. \<not> fd_used (fd_at (clear_fds i s) i j)" "current (clear_fds i s) = current s"
    "task_count (clear_fds i s) = task_count s" "last_added (clear_fds i s) = last_added s" "fg_slot (clear_fds i s) = fg_slot s"
proof -
  have "sched_inv (fold (drop_fd i) [0..<n] s) \<and> (\<forall>j < n. \<not> fd_used (fd_at (fold (drop_fd i) [0..<n] s) i j)) \<and>
      current (fold (drop_fd i) [0..<n] s) = current s \<and> task_count (fold (drop_fd i) [0..<n] s) = task_count s \<and>
      last_added (fold (drop_fd i) [0..<n] s) = last_added s \<and> fg_slot (fold (drop_fd i) [0..<n] s) = fg_slot s"
    if "n \<le> FD_MAX" for n
    using that
  proof (induction n)
    case (Suc n)
    let ?s = "fold (drop_fd i) [0..<n] s"
    have I: "sched_inv ?s" "\<forall>j < n. \<not> fd_used (fd_at ?s i j)" and n: "n < FD_MAX" using Suc by auto
    note D = drop_fd_free [OF I(1) i n]
    have "\<not> fd_used (fd_at (drop_fd i n ?s) i j)" if "j < Suc n" for j
      using D(1) D(2) [of j] I(2) that by (cases "j = n") auto
    then show ?case using Suc drop_fd_inv [OF I(1) i n] D by simp
  qed (use inv in simp)
  from this [of FD_MAX]
  show "\<forall>j < FD_MAX. \<not> fd_used (fd_at (clear_fds i s) i j)" "current (clear_fds i s) = current s"
    "task_count (clear_fds i s) = task_count s" "last_added (clear_fds i s) = last_added s" "fg_slot (clear_fds i s) = fg_slot s"
    by (simp_all add: clear_fds_def)
qed

end
