(* ===== verification/Sched_Ops.thy ===== *)
theory Sched_Ops
  imports Sched_Inv
begin

text \<open>Every operation of \<open>kernel/sched.c\<close> keeps the invariant of \<open>Sched_Inv\<close>.\<close>

lemma sched_inv_more [simp]: "sched_inv (s\<lparr>vm := v, scr := g\<rparr>) = sched_inv s"
  by simp

section \<open>Task states\<close>

lemma wait_of_READY [simp]: "wait_of (t\<lparr>t_state := TASK_READY\<rparr>) = None"
  by (simp add: wait_of_def)

lemma wake_sleepers_inv: "sched_inv s \<Longrightarrow> sched_inv (wake_sleepers s)"
  unfolding wake_sleepers_def by (rule inv_map_tasks) (auto simp: wait_of_def)

lemma wake_kbd_inv: "sched_inv s \<Longrightarrow> sched_inv (sched_wake_kbd s)"
  unfolding sched_wake_kbd_def by (rule inv_map_tasks) (auto simp: wait_of_def)

lemma wake_blocked_inv: "sched_inv s \<Longrightarrow> sched_inv (wake_blocked i s)"
  using sched_invD(3) [of s] by (auto simp: wake_blocked_def wait_of_def intro!: inv_upd_task)

lemma upd_cur_inv:
  assumes "sched_inv s" "fds (f (cur_task s)) = fds (cur_task s)"
    and "wait_of (f (cur_task s)) = None \<or> wait_of (f (cur_task s)) = wait_of (cur_task s)"
  shows "sched_inv (upd_cur f s)"
  unfolding upd_cur_def using assms sched_invD(4) [OF assms(1)] by (intro inv_upd_task) (auto simp: cur_task_def)

lemma upd_cur_sel [simp]:
  "pipes (upd_cur f s) = pipes s" "task_count (upd_cur f s) = task_count s" "current (upd_cur f s) = current s"
  "ticks (upd_cur f s) = ticks s" "irqs (upd_cur f s) = irqs s" "vm (upd_cur f s) = vm s"
  "last_added (upd_cur f s) = last_added s" "fg_slot (upd_cur f s) = fg_slot s"
  by (simp_all add: upd_cur_def)

lemma tick_account_inv: "sched_inv s \<Longrightarrow> sched_inv (tick_account s)"
  unfolding tick_account_def by (auto intro!: wake_sleepers_inv upd_cur_inv simp: wait_of_def)

lemma pick_next_ready:
  "pick_next from s = Some n \<Longrightarrow> n < task_count s \<and> t_state (task_at s n) = TASK_READY"
  using find_in [of _ "map (\<lambda>i. (from + i) mod task_count s) [1..<task_count s + 1]" n]
  unfolding pick_next_def by fastforce

lemma set_current_inv: "sched_inv s \<Longrightarrow> n < task_count s \<Longrightarrow> sched_inv (set_current n s)"
proof -
  assume s: "sched_inv s" "n < task_count s"
  let ?s = "s\<lparr>current := n\<rparr>"
  have "ends ?s = ends s" "waits ?s = waits s"
    by (simp_all add: ends_def [abs_def] waits_def [abs_def] fd_at_def task_at_def)
  then have "sched_inv ?s" using s by (simp add: sched_inv_def sched_wf_def)
  then show ?thesis by (simp add: set_current_def)
qed

lemma load_task_inv: "sched_inv s \<Longrightarrow> sched_inv (snd (load_task f i s))"
  by (simp add: load_task_def)

lemma dispatch_inv: "sched_inv s \<Longrightarrow> n < task_count s \<Longrightarrow> sched_inv (snd (dispatch f n s))"
  by (simp add: dispatch_def load_task_def set_current_inv)

section \<open>Death\<close>

lemma free_task_inv:
  assumes "sched_inv s" "i < TASK_MAX"
  shows "sched_inv (free_task_user i s)" "sched_inv (free_task_kstack i s)" "sched_inv (free_task_pml4 i s)"
  using assms by (auto simp: free_task_user_def free_task_kstack_def free_task_pml4_def wait_of_def Let_def intro!: inv_upd_task)

lemma free_task_sel [simp]:
  "current (free_task_user i s) = current s" "task_count (free_task_user i s) = task_count s"
  "current (free_task_kstack i s) = current s" "task_count (free_task_kstack i s) = task_count s"
  "current (free_task_pml4 i s) = current s" "task_count (free_task_pml4 i s) = task_count s"
  "fg_slot (free_task_user i s) = fg_slot s" "last_added (free_task_user i s) = last_added s"
  by (simp_all add: free_task_user_def free_task_kstack_def free_task_pml4_def Let_def)

lemma show_wait_status_inv: "sched_inv s \<Longrightarrow> i < TASK_MAX \<Longrightarrow> sched_inv (show_wait_status i code s)"
  by (auto simp: show_wait_status_def Let_def wait_of_def intro!: inv_upd_task)

lemma show_wait_status_sel [simp]:
  "current (show_wait_status i code s) = current s" "task_count (show_wait_status i code s) = task_count s"
  by (simp_all add: show_wait_status_def Let_def)

lemma reap_child_inv: "sched_inv s \<Longrightarrow> i < TASK_MAX \<Longrightarrow> sched_inv (snd (reap_child i s))"
  by (auto simp: reap_child_def wait_of_def intro!: inv_upd_task)

lemma wake_parent_waiter_inv: "sched_inv s \<Longrightarrow> sched_inv (wake_parent_waiter i code s)"
proof (cases "i < task_count s \<and> 0 \<le> parent (task_at s i) \<and> parent (task_at s i) < int (task_count s)")
  case True
  assume inv: "sched_inv s"
  have b: "i < TASK_MAX" "nat (parent (task_at s i)) < TASK_MAX" using True sched_invD(3) [OF inv] by auto
  show ?thesis
    using inv b unfolding wake_parent_waiter_def Let_def
    by (auto intro!: show_wait_status_inv inv_upd_task reap_child_inv simp: wait_of_def)
next
  case False
  assume "sched_inv s"
  then show ?thesis using False by (auto simp: wake_parent_waiter_def Let_def)
qed

lemma wake_parent_waiter_sel [simp]:
  "current (wake_parent_waiter i code s) = current s" "task_count (wake_parent_waiter i code s) = task_count s"
  by (simp_all add: wake_parent_waiter_def Let_def reap_child_def)

lemma kill_task_inv: "sched_inv s \<Longrightarrow> sched_inv (kill_task i code s)"
proof (cases "i < task_count s \<and> t_state (task_at s i) \<noteq> TASK_DEAD")
  case True
  assume inv: "sched_inv s"
  have i: "i < TASK_MAX" using True sched_invD(3) [OF inv] by simp
  let ?s = "clear_fds i (free_task_user i s)"
  have "sched_inv ?s" using inv i by (intro clear_fds_inv free_task_inv)
  then have "sched_inv (upd_task i (\<lambda>t. t\<lparr>exit_code := code, reaped := False, pending := 0, handler_int := 0,
                       handler_term := 0, t_state := TASK_DEAD, pipe_wait := -1\<rparr>) ?s)"
    using i by (auto intro!: inv_upd_task simp: wait_of_def)
  then show ?thesis using True by (auto simp: kill_task_def Let_def intro!: wake_parent_waiter_inv)
qed (auto simp: kill_task_def)

lemma kill_task_sel:
  assumes "sched_inv s" "i < TASK_MAX"
  shows "current (kill_task i code s) = current s" "task_count (kill_task i code s) = task_count s"
  using clear_fds_free [OF free_task_inv(1) [OF assms] assms(2)] by (auto simp: kill_task_def Let_def)

lemma sched_exit_inv: "sched_inv s \<Longrightarrow> sched_inv (snd (sched_exit fo s))"
proof -
  assume inv: "sched_inv s"
  define s1 where "s1 = (if task_count s \<noteq> 0
      then let code = (case fo of None \<Rightarrow> 0 | Some f \<Rightarrow> ucast (rdi f AND 0xFF))
           in kill_task (current s) code (s\<lparr>scr := vga_write_at (t_row (cur_task s)) 2 (Some ''done'') (scr s)\<rparr>)
      else s)"
  have i1: "sched_inv s1" using inv by (auto simp: s1_def Let_def intro!: kill_task_inv)
  have "sched_exit fo s = (case (pick_next (current s1) s1, fo) of (Some next, Some f) \<Rightarrow> dispatch f next s1
         | _ \<Rightarrow> (Halted, s1\<lparr>vm := vmm_set_cr3 vmm_boot_cr3 (vm s1)\<rparr>))"
    unfolding sched_exit_def s1_def Let_def by (rule refl)
  then show ?thesis using i1 dispatch_inv [OF i1] pick_next_ready [of "current s1" s1]
    by (auto split: option.splits)
qed

lemma exit_pending_inv: "sched_inv s \<Longrightarrow> sched_inv (snd (exit_pending f s))"
  unfolding exit_pending_def by (intro sched_exit_inv upd_cur_inv) (auto simp: wait_of_def)

lemma set_sig_handler_keeps [simp]:
  "fds (set_sig_handler sig h t) = fds t" "wait_of (set_sig_handler sig h t) = wait_of t"
  by (simp_all add: set_sig_handler_def wait_of_def)

lemma deliver_pending_inv:
  assumes "sched_inv s"
  shows "sched_inv (snd (sched_deliver_pending fo s))"
proof -
  define s1 where "s1 = upd_cur (\<lambda>t. t\<lparr>pending := pending t AND NOT (sig_bit (pending_signo (current s) s))\<rparr>) s"
  define s2 where "s2 = upd_cur (set_sig_handler (pending_signo (current s) s) 0) s1"
  have i1: "sched_inv s1" unfolding s1_def using assms by (intro upd_cur_inv) (auto simp: wait_of_def)
  have i2: "sched_inv s2" unfolding s2_def using i1 by (intro upd_cur_inv) auto
  show ?thesis
    unfolding sched_deliver_pending_def Let_def s1_def [symmetric] s2_def [symmetric]
    using assms exit_pending_inv [OF i1] exit_pending_inv [OF i2] exit_pending_inv [of "s2\<lparr>vm := _\<rparr>"] i2
    by (auto split: prod.splits if_splits)
qed

section \<open>Signals and interrupts\<close>

lemma upd_pending_inv:
  "sched_inv s \<Longrightarrow> i < TASK_MAX \<Longrightarrow> sched_inv (upd_task i (\<lambda>t. t\<lparr>pending := p t, exit_code := c\<rparr>) s)"
  by (auto intro!: inv_upd_task simp: wait_of_def)

lemma save_task_keeps [simp]: "fds (save_task f t) = fds t" "wait_of (save_task f t) = wait_of t"
  by (simp_all add: save_task_eq wait_of_def)

lemma wake_blocked_sel [simp]: "current (wake_blocked i s) = current s" "task_count (wake_blocked i s) = task_count s"
  by (simp_all add: wake_blocked_def)

lemma signal_at_inv:
  assumes "sched_inv s" "sched_signal_at pid signo code fo s = (r, fo', s')"
  shows "sched_inv s'"
proof (cases "sig_bit signo \<noteq> 0 \<and> live_slot s pid")
  case False
  then show ?thesis using assms by (auto simp: sched_signal_at_def split: if_splits)
next
  case True
  let ?i = "nat pid"
  have i: "?i < task_count s" "?i < TASK_MAX" using True sched_invD(3) [OF assms(1)] by (auto simp: live_slot_def)
  define s1 where "s1 = wake_blocked ?i (upd_task ?i (\<lambda>t. t\<lparr>pending := pending t OR sig_bit signo, exit_code := code\<rparr>) s)"
  have i1: "sched_inv s1" unfolding s1_def using assms(1) i by (intro wake_blocked_inv upd_pending_inv)
  have "sched_inv (set_current ?i (upd_cur (save_task (the fo)) s1))"
    using i1 i by (intro set_current_inv upd_cur_inv) (auto simp: s1_def)
  then show ?thesis
    using assms True kill_task_inv [OF assms(1)] i1 load_task_inv
    unfolding sched_signal_at_def Let_def s1_def [symmetric]
    by (auto split: if_splits prod.splits simp: load_task_def)
qed

lemma irq_effect_inv: "sched_inv s \<Longrightarrow> sched_inv (irq_effect q s)"
proof (cases q)
  case Irq_timer
  assume "sched_inv s"
  then show ?thesis using Irq_timer by (auto simp: irq_effect_def Let_def intro!: tick_account_inv)
next
  case Irq_line
  assume "sched_inv s"
  then show ?thesis using Irq_line by (auto simp: irq_effect_def intro!: wake_kbd_inv)
next
  case Irq_sigint
  assume "sched_inv s"
  then show ?thesis using Irq_sigint signal_at_inv by (auto simp: irq_effect_def sched_signal_fg_def split: prod.splits)
qed

lemma idle_loop_inv:
  "sched_inv s \<Longrightarrow> idle_loop qs s = (n, s') \<Longrightarrow> sched_inv s' \<and> (\<forall>k. n = Some k \<longrightarrow> k < task_count s' \<and> t_state (task_at s' k) = TASK_READY)"
proof (induction qs s arbitrary: n s' rule: idle_loop.induct)
  case (1 s)
  have t: "task_at (s\<lparr>irqs := x\<rparr>) k = task_at s k" for x s k by (simp add: task_at_def)
  show ?case using 1 wake_sleepers_inv [of s] pick_next_ready [of _ "wake_sleepers s"] by (auto simp: Let_def t)
next
  case (2 q qs s)
  have t: "task_at (s\<lparr>irqs := x\<rparr>) k = task_at s k" for x s k by (simp add: task_at_def)
  have w: "sched_inv (wake_sleepers s)" by (rule wake_sleepers_inv [OF 2(2)])
  show ?case
  proof (cases "pick_next (current (wake_sleepers s)) (wake_sleepers s)")
    case None
    then show ?thesis using 2 irq_effect_inv [OF w] by (simp add: Let_def)
  next
    case (Some k)
    then show ?thesis using 2(3) w pick_next_ready [OF Some] by (auto simp: Let_def t)
  qed
qed

lemma block_inv: "sched_inv s \<Longrightarrow> sched_inv (snd (block f s))"
proof (cases "pick_next (current s) s")
  case None
  assume inv: "sched_inv s"
  let ?s = "s\<lparr>vm := vmm_set_cr3 vmm_boot_cr3 (vm s)\<rparr>"
  obtain n s' where i: "idle_loop (irqs ?s) ?s = (n, s')" by fastforce
  have "sched_inv s' \<and> (\<forall>k. n = Some k \<longrightarrow> k < task_count s' \<and> t_state (task_at s' k) = TASK_READY)"
    by (rule idle_loop_inv [OF _ i]) (use inv in simp)
  then show ?thesis using None i dispatch_inv by (auto simp: block_def idle_until_ready_def Let_def split: option.splits)
next
  case (Some k)
  assume "sched_inv s"
  then show ?thesis using Some dispatch_inv pick_next_ready [OF Some] by (simp add: block_def)
qed

lemma switch_to_next_inv: "sched_inv s \<Longrightarrow> sched_inv (snd (switch_to_next fo s))"
proof -
  assume inv: "sched_inv s"
  have "sched_inv (set_current n (upd_cur (save_task f) s))" if "pick_next (current s) s = Some n" for n f
    using inv pick_next_ready [OF that] by (intro set_current_inv upd_cur_inv) auto
  then show ?thesis using inv by (auto simp: switch_to_next_def load_task_def split: option.splits)
qed

lemma on_tick_inv: "sched_inv s \<Longrightarrow> sched_inv (snd (sched_on_tick fo s))"
  by (simp add: sched_on_tick_def Let_def tick_account_inv switch_to_next_inv)

section \<open>Blocking calls\<close>

lemma blocked_cur_inv:
  assumes "sched_inv s" "st \<noteq> TASK_PIPE"
  shows "sched_inv (upd_cur (\<lambda>t. (save_task f t)\<lparr>t_state := st, pipe_wait := -1\<rparr>) s)"
    "sched_inv (upd_cur (\<lambda>t. (save_task f t)\<lparr>t_state := st, wake_tick := k\<rparr>) s)"
    "sched_inv (upd_cur (\<lambda>t. (save_task f t)\<lparr>t_state := st, wait_pid := p\<rparr>) s)"
  using assms by (auto intro!: upd_cur_inv simp: wait_of_def save_task_eq)

lemma ready_cur_inv:
  assumes "sched_inv s"
  shows "sched_inv (upd_cur (\<lambda>t. t\<lparr>t_state := TASK_READY\<rparr>) s)"
    "sched_inv (upd_cur (\<lambda>t. t\<lparr>t_state := TASK_READY, wake_tick := k\<rparr>) s)"
    "sched_inv (upd_cur (\<lambda>t. t\<lparr>t_state := TASK_READY, wait_pid := p\<rparr>) s)"
    "sched_inv (upd_cur (\<lambda>t. t\<lparr>t_state := TASK_READY, pipe_wait := q\<rparr>) s)"
  using assms by (auto intro!: upd_cur_inv simp: wait_of_def)

lemmas blocking_inv = deliver_pending_inv block_inv blocked_cur_inv ready_cur_inv

lemma block_kbd_inv: "sched_inv s \<Longrightarrow> sched_inv (snd (sched_block_kbd fo s))"
  by (simp add: sched_block_kbd_def Let_def blocking_inv)

lemma sleep_inv: "sched_inv s \<Longrightarrow> sched_inv (snd (sched_sleep fo n s))"
  using switch_to_next_inv [of s fo] by (auto simp: sched_sleep_def Let_def blocking_inv sched_yield_def split: prod.splits)

lemma find_zombie_bound: "find_zombie p want s = Some c \<Longrightarrow> c < task_count s \<and> t_state (task_at s c) = TASK_DEAD \<and> child_of s p (int c)"
  unfolding find_zombie_def by (auto simp: child_of_def split: if_splits dest!: find_in)

lemma wait_inv:
  assumes inv: "sched_inv s"
  shows "sched_inv (snd (sched_wait fo s))"
proof -
  have "sched_inv (show_wait_status (current s) code (snd (reap_child c s)))"
    if "find_zombie p want s = Some c" for p want c code
    using inv find_zombie_bound [OF that] sched_invD(3,4) [OF inv] by (intro show_wait_status_inv reap_child_inv) auto
  then show ?thesis using inv
    by (auto simp: sched_wait_def Let_def blocking_inv reap_child_def split: option.splits)
qed

lemma block_pipe_inv:
  assumes inv: "sched_inv s" and st: "live_pipe s p" "stuck (pipe_at s p)"
  shows "sched_inv (snd (sched_block_pipe fo p s))"
proof (cases "fo = None \<or> task_count s = 0 \<or> task_has_pending (current s) s")
  case True
  then show ?thesis using inv deliver_pending_inv by (auto simp: sched_block_pipe_def)
next
  case False
  let ?s1 = "upd_cur (\<lambda>t. (save_task (the fo) t)\<lparr>t_state := TASK_PIPE, pipe_wait := p\<rparr>) s"
  have c: "current s < task_count s" "current s < TASK_MAX" using sched_invD(4,7) [OF inv] False by auto
  have il: "current s < length (tasks s)" using sched_invD(1) [OF inv] c by simp
  have "sched_wf ?s1" unfolding upd_cur_def
    by (rule wf_upd_task) (use inv c sched_invD(2) [OF inv] in \<open>auto simp: sched_inv_def save_task_eq\<close>)
  moreover have "ends ?s1 = ends s" using il
    by (auto simp: ends_def fd_at_task upd_cur_def task_at_upd save_task_eq intro!: ext)
  moreover have w: "waits ?s1 i = (if i = current s then Some p else waits s i)" for i
    using il by (simp add: waits_def upd_cur_def task_at_upd wait_of_def)
  moreover have "pipes_inv (ends s) (pipes s) (waits ?s1)"
    using inv st w unfolding sched_inv_def pipes_inv_def live_pipe_live pipe_at_def by auto
  ultimately have i1: "sched_inv ?s1" by (simp add: sched_inv_def)
  show ?thesis using i1 False by (auto simp: sched_block_pipe_def Let_def blocking_inv)
qed

end
