(* ===== verification/Sched_Fds.thy ===== *)
theory Sched_Fds
  imports Sched_Ops
begin

text \<open>
  The operations of \<open>kernel/sched.c\<close> that create tasks, descriptors and pipes keep the invariant of
  \<open>Sched_Inv\<close>, as do the small setters.
\<close>

section \<open>Slots\<close>

lemma count_up_inv:
  assumes "sched_inv s" "task_count s < TASK_MAX"
  shows "sched_inv (s\<lparr>task_count := task_count s + 1\<rparr>)"
proof -
  let ?s = "s\<lparr>task_count := task_count s + 1\<rparr>"
  have "ends ?s = ends s" "waits ?s = waits s"
    by (simp_all add: ends_def [abs_def] waits_def [abs_def] fd_at_def task_at_def)
  then show ?thesis using assms by (auto simp: sched_inv_def sched_wf_def)
qed

lemma current_0: "sched_inv s \<Longrightarrow> task_count s = 0 \<Longrightarrow> s\<lparr>current := 0\<rparr> = s"
  by (auto simp: sched_inv_def sched_wf_def)

lemma take_slot_inv:
  assumes inv: "sched_inv s" and run: "take_slot s = (io, s')"
  shows "sched_inv s'" "current s' = current s"
    "io = Some i \<Longrightarrow> i < task_count s' \<and> i < TASK_MAX \<and>
       (i < task_count s \<and> t_state (task_at s i) = TASK_DEAD \<or> i = task_count s)"
proof -
  let ?f = "find (\<lambda>i. slot_reusable (task_at s i)) [0..<task_count s]"
  have F: "i < task_count s \<and> i < TASK_MAX \<and> slot_reusable (task_at s i)" if "?f = Some i" for i
    using find_in [OF that] sched_invD(3) [OF inv] by auto
  have "sched_inv s' \<and> current s' = current s \<and> (\<forall>i. io = Some i \<longrightarrow> i < task_count s' \<and> i < TASK_MAX \<and>
       (i < task_count s \<and> t_state (task_at s i) = TASK_DEAD \<or> i = task_count s))"
  proof (cases ?f)
    case None
    then show ?thesis using run inv count_up_inv [OF inv] by (auto simp: take_slot_def split: if_splits)
  next
    case (Some k)
    then have "io = Some k" "s' = free_task_pml4 k (free_task_kstack k (free_task_user k s))"
      using run by (simp_all add: take_slot_def)
    then show ?thesis using F [OF Some] inv by (simp add: free_task_inv slot_reusable_def)
  qed
  then show "sched_inv s'" "current s' = current s"
    "io = Some i \<Longrightarrow> i < task_count s' \<and> i < TASK_MAX \<and>
       (i < task_count s \<and> t_state (task_at s i) = TASK_DEAD \<or> i = task_count s)" by auto
qed

text \<open>Entries that hold no pipe end before and after may change freely.\<close>

lemma inv_upd_fds:
  assumes inv: "sched_inv s" and i: "i < TASK_MAX" and f: "length (fds (f (task_at s i))) = FD_MAX"
    "wait_of (f (task_at s i)) = None"
    "\<And>j. j < FD_MAX \<Longrightarrow> fd_end (fds (f (task_at s i)) ! j) = fd_end (fds (task_at s i) ! j)"
  shows "sched_inv (upd_task i f s)"
proof -
  have wf: "sched_wf s" and il: "i < length (tasks s)" using inv i sched_invD(1) [OF inv] by (auto simp: sched_inv_def)
  have "pipes_inv (ends (upd_task i f s)) (pipes s) (waits (upd_task i f s))"
  proof (rule pipes_inv_obs)
    show "pipes_inv (ends s) (pipes s) (waits s)" using inv by (simp add: sched_inv_def)
    show "ends (upd_task i f s) i' j = ends s i' j" if "j < FD_MAX" for i' j
      using f(3) [OF that] il by (simp add: ends_def fd_at_task task_at_upd)
    show "waits (upd_task i f s) i' = None \<or> waits (upd_task i f s) i' = waits s i'" for i'
      using f(2) il by (simp add: waits_def task_at_upd)
  qed
  then show ?thesis using wf_upd_task [of s i f, OF wf i f(1)] f(2) by (simp add: sched_inv_def)
qed

lemma console_end [simp]: "\<not> is_pipe k \<Longrightarrow> fd_end (console_fd k e) = None"
  by (simp add: fd_end_def console_fd_def)

lemma bind_console_std_inv:
  assumes inv: "sched_inv s" and i: "i < TASK_MAX" and free: "\<forall>j < FD_MAX. \<not> fd_used (fd_at s i j)" and w: "waits s i = None"
  shows "sched_inv (bind_console_std i s)"
proof -
  have l: "length (fds (task_at s i)) = FD_MAX" by (rule sched_invD(2) [OF inv i])
  have e: "fd_end (fds (task_at s i) ! j) = None" if "j < FD_MAX" for j
    using free that by (simp add: fd_end_def fd_at_task)
  show ?thesis unfolding bind_console_std_def
    by (rule inv_upd_fds [OF inv i]) (use l e w in \<open>auto simp: nth_list_update is_pipe_def wait_of_def waits_def FD_MAX_def\<close>)
qed

lemma waits_drop:
  assumes inv: "sched_inv s" and ij: "i < TASK_MAX" "j < FD_MAX" and w: "waits s k = None" "k < TASK_MAX"
  shows "waits (drop_fd i j s) k = None"
proof (cases "fd_used (fd_at s i j) \<and> is_pipe (fd_kind (fd_at s i j)) \<and> live_pipe s (fd_pipe (fd_at s i j))")
  case True
  let ?e = "fd_at s i j" and ?p = "fd_pipe (fd_at s i j)"
  have wf: "sched_wf s" and len: "length (pipes s) = PIPE_MAX" using inv sched_invD(5) by (auto simp: sched_inv_def)
  note D = drop_ref_obs [OF wf len, of ?e]
  have o: "waits (drop_ref ?e s) = waits (wake_pipe_waiters ?p s)" "sched_wf (drop_ref ?e s)"
    using same_tasks_obs [of "drop_ref ?e s" "wake_pipe_waiters ?p s"] D True wake_obs(1) [OF wf] by simp_all
  show ?thesis
    using True ends_set_fd(2) [OF o(2) ij] waits_wake [OF wf w(2)] w(1) by (simp add: drop_fd_alt o(1) woken_def)
next
  case False
  have wf: "sched_wf s" using inv by (auto simp: sched_inv_def)
  show ?thesis using False w ends_set_fd(2) [OF wf ij] by (auto simp: drop_fd_alt drop_ref_def)
qed

lemma waits_clear_fds:
  assumes "sched_inv s" "i < TASK_MAX" "waits s k = None" "k < TASK_MAX"
  shows "waits (clear_fds i s) k = None"
proof -
  have "sched_inv (fold (drop_fd i) js s) \<and> waits (fold (drop_fd i) js s) k = None" if "\<forall>j \<in> set js. j < FD_MAX" for js
    using assms that by (induction js arbitrary: s) (auto simp: drop_fd_inv waits_drop)
  from this [of "[0..<FD_MAX]"] show ?thesis by (simp add: clear_fds_def)
qed

text \<open>A fresh task in slot \<open>i\<close>: whatever it was, it is ready and its descriptors are closed.\<close>

lemma fresh_task:
  assumes inv: "sched_inv s" and i: "i < task_count s" and f: "fds (f (task_at s i)) = fds (task_at s i)" "wait_of (f (task_at s i)) = None"
  shows "sched_inv (clear_fds i (upd_task i f s))" "waits (clear_fds i (upd_task i f s)) i = None"
    "\<forall>j < FD_MAX. \<not> fd_used (fd_at (clear_fds i (upd_task i f s)) i j)" "\<forall>j < FD_MAX. ends (clear_fds i (upd_task i f s)) i j = None"
    "current (clear_fds i (upd_task i f s)) = current s" "task_count (clear_fds i (upd_task i f s)) = task_count s"
proof -
  have im: "i < TASK_MAX" using i sched_invD(3) [OF inv] by simp
  have u: "sched_inv (upd_task i f s)" using f by (intro inv_upd_task inv im) auto
  have w: "waits (upd_task i f s) i = None" using f im sched_invD(1) [OF inv] by (simp add: waits_def task_at_upd)
  note C = clear_fds_free [OF u im]
  show "sched_inv (clear_fds i (upd_task i f s))" by (rule clear_fds_inv [OF u im])
  show "waits (clear_fds i (upd_task i f s)) i = None" by (rule waits_clear_fds [OF u im w im])
  show "\<forall>j < FD_MAX. \<not> fd_used (fd_at (clear_fds i (upd_task i f s)) i j)" by (rule C)
  then show "\<forall>j < FD_MAX. ends (clear_fds i (upd_task i f s)) i j = None" using ends_None by blast
  show "current (clear_fds i (upd_task i f s)) = current s" "task_count (clear_fds i (upd_task i f s)) = task_count s"
    using C by simp_all
qed

lemma add_user_inv: "sched_inv s \<Longrightarrow> sched_inv (snd (sched_add_user wd pwd ip sp ktop row base c s))"
proof -
  assume inv: "sched_inv s"
  have s0: "(if task_count s = 0 then s\<lparr>current := 0\<rparr> else s) = s" using current_0 [OF inv] by simp
  obtain io s1 where t: "take_slot s = (io, s1)" by fastforce
  note T = take_slot_inv [OF inv t]
  show ?thesis
  proof (cases io)
    case None
    then show ?thesis using inv T(1) unfolding sched_add_user_def s0 t by simp
  next
    case (Some i)
    have i: "i < task_count s1" "i < TASK_MAX" using T(3) [OF Some] by auto
    have "sched_inv (bind_console_std i (clear_fds i (upd_task i f s1)))"
      if "\<And>t. fds (f t) = fds t" "\<And>t. wait_of (f t) = None" for f
      by (rule bind_console_std_inv [OF fresh_task(1) [OF T(1) i(1)] i(2) fresh_task(3,2) [OF T(1) i(1)]]) (use that in auto)
    then show ?thesis using inv Some unfolding sched_add_user_def s0 t by (simp add: Let_def wait_of_def)
  qed
qed

lemma fork_inv: "sched_inv s \<Longrightarrow> sched_inv (snd (sched_fork fo ktop c s))"
proof (cases fo)
  case None
  assume "sched_inv s"
  then show ?thesis using None by (simp add: sched_fork_def)
next
  case (Some f)
  assume inv: "sched_inv s"
  obtain io s1 where t: "take_slot s = (io, s1)" by fastforce
  note T = take_slot_inv [OF inv t]
  show ?thesis
  proof (cases "task_count s = 0 \<or> t_state (cur_task s) = TASK_DEAD \<or> io = None")
    case True
    then show ?thesis using inv T(1) Some t by (auto simp: sched_fork_def Let_def split: option.splits)
  next
    case False
    then obtain i where io: "io = Some i" by auto
    have i: "i < task_count s1" "i < TASK_MAX" "current s \<noteq> i"
      using T(3) [OF io] False sched_invD(7) [OF inv] by (auto simp: cur_task_def)
    have "sched_inv (inherit_fds i (current s) (clear_fds i (upd_task i g s1)))"
      if "\<And>t. fds (g t) = fds t" "\<And>t. wait_of (g t) = None" for g
      by (rule inherit_fds_inv [OF fresh_task(1) [OF T(1) i(1)] i(2,3) fresh_task(4) [OF T(1) i(1)]]) (use that in auto)
    then show ?thesis using inv False Some io t by (simp add: sched_fork_def Let_def wait_of_def)
  qed
qed

section \<open>Descriptors\<close>

lemma cur_bound: "sched_inv s \<Longrightarrow> task_count s \<noteq> 0 \<Longrightarrow> current s < TASK_MAX"
  by (rule sched_invD(4))

lemma file_end [simp]: "fd_end (file_fd off path e) = None"
  by (simp add: fd_end_def file_fd_def is_pipe_def)

lemma fd_open_inv: "sched_inv s \<Longrightarrow> sched_inv (snd (sched_fd_open path s))"
  by (auto simp: sched_fd_open_def sched_invD(4) ends_None intro!: set_fd_inv split: option.splits dest!: find_in)

lemma valid_fd_nat: "valid_fd fd \<Longrightarrow> nat fd < FD_MAX"
  by (auto simp: valid_fd_def)

lemma fd_close_inv: "sched_inv s \<Longrightarrow> sched_inv (snd (sched_fd_close fd s))"
  by (auto simp: sched_fd_close_def sched_invD(4) valid_fd_nat intro!: drop_fd_inv)

text \<open>The entry that is about to be overwritten is closed first.\<close>

lemma dropped:
  assumes "sched_inv s" "i < TASK_MAX" "j < FD_MAX"
  defines "s1 \<equiv> (if fd_used (fd_at s i j) then drop_fd i j s else s)"
  shows "sched_inv s1" "ends s1 i j = None" "\<not> fd_used (fd_at s1 i j)" "current s1 = current s"
    "j' \<noteq> j \<Longrightarrow> fd_at s1 i j' = fd_at s i j'"
  unfolding s1_def using assms(1-3) drop_fd_inv [OF assms(1-3)] drop_fd_free [OF assms(1-3)] by (auto simp: ends_None)

lemma fd_dup2_inv:
  assumes inv: "sched_inv s"
  shows "sched_inv (snd (sched_fd_dup2 oldfd newfd s))"
proof (cases "task_count s = 0 \<or> \<not> valid_fd oldfd \<or> \<not> valid_fd newfd \<or> \<not> fd_used (cur_fd s oldfd) \<or> oldfd = newfd")
  case True
  then show ?thesis using inv by (auto simp: sched_fd_dup2_def)
next
  case False
  let ?j = "nat newfd" and ?s1 = "if fd_used (cur_fd s newfd) then drop_fd (current s) (nat newfd) s else s"
  have c: "current s < TASK_MAX" "?j < FD_MAX" and ne: "nat oldfd \<noteq> ?j"
    using sched_invD(4) [OF inv] False by (auto simp: valid_fd_def)
  note D = dropped [OF inv c, folded cur_fd_def]
  have used: "fd_used (cur_fd ?s1 oldfd)" using False D(4) D(5) [OF ne] by (simp add: cur_fd_def)
  have "sched_inv (snd (count_fd (current s) ?j (set_fd (current s) ?j (cur_fd ?s1 oldfd) ?s1)))"
    by (rule copy_count_inv [OF D(1) c D(2) used])
  then show ?thesis using False by (auto simp: sched_fd_dup2_def Let_def copy_fd_def split: prod.splits)
qed

lemma fd_lseek_inv: "sched_inv s \<Longrightarrow> sched_inv (snd (sched_fd_lseek fd off s))"
  by (auto simp: sched_fd_lseek_def Let_def sched_invD(4) valid_fd_nat ends_def cur_fd_def fd_end_def is_pipe_def intro!: set_fd_inv)

lemma fd_bind_file_inv: 
  assumes inv: "sched_inv s"
  shows "sched_inv (snd (sched_fd_bind_file fd path off s))"
proof (cases "last_added s < 0 \<or> int (task_count s) \<le> last_added s \<or> \<not> valid_fd fd")
  case True
  then show ?thesis using inv by (auto simp: sched_fd_bind_file_def)
next
  case False
  let ?i = "nat (last_added s)"
  have c: "?i < TASK_MAX" "nat fd < FD_MAX" using sched_invD(3) [OF inv] False by (auto simp: valid_fd_def)
  note D = dropped [OF inv c]
  show ?thesis using inv set_fd_inv [OF D(1) c D(2) file_end] by (simp add: sched_fd_bind_file_def Let_def)
qed

section \<open>Pipes\<close>

lemma alloc_pipe_inv:
  assumes inv: "sched_inv s" and run: "alloc_pipe s = (po, s')"
  shows "sched_inv s'" "current s' = current s" "task_count s' = task_count s" "tasks s' = tasks s"
    "po = Some p \<Longrightarrow> live_pipe s' p \<and> rrefs (pipe_at s' p) = 0 \<and> wrefs (pipe_at s' p) = 0"
proof -
  let ?f = "find (\<lambda>i. \<not> p_used (pipes s ! i)) [0..<PIPE_MAX]"
  have "sched_inv s' \<and> current s' = current s \<and> task_count s' = task_count s \<and> tasks s' = tasks s \<and> 
      (\<forall>p. po = Some p \<longrightarrow> live_pipe s' p \<and> rrefs (pipe_at s' p) = 0 \<and> wrefs (pipe_at s' p) = 0)"
  proof (cases ?f)
    case None
    then show ?thesis using run inv by (auto simp: alloc_pipe_def)
  next
    case (Some i)
    obtain ph v where a: "(case alloc_page_above PIPE_MIN_PHYS (vm s) of (ph, v) \<Rightarrow> if ph = 0 then alloc_page v else (ph, v)) = (ph, v)"
      by fastforce
    let ?q = "\<lparr>p_used = True, p_head = 0, p_len = 0, rrefs = 0, wrefs = 0, p_phys = ph, p_data = Some (replicate (unat PIPE_CAP) 0)\<rparr>"
    have i: "i < PIPE_MAX" "\<not> p_used (pipes s ! i)" using find_in [OF Some] by auto
    have q: "ring_ok ?q" by (simp add: ring_ok_def cap_nat PIPE_CAP_def)
    have "pipes_inv (ends s) ((pipes s)[nat (int i) := ?q]) (waits s)"
      by (rule pipes_inv_new) (use inv i q in \<open>auto simp: sched_inv_def valid_pipe_def\<close>)
    then have n: "sched_inv (upd_pipe (int i) (\<lambda>_. ?q) s)" using inv by (simp add: sched_inv_def)
    have e: "upd_pipe (int i) (\<lambda>_. ?q) (s\<lparr>vm := v\<rparr>) = (upd_pipe (int i) (\<lambda>_. ?q) s)\<lparr>vm := v\<rparr>"
      by (simp add: upd_pipe_def)
    show ?thesis using run inv n i sched_invD(5) [OF inv] unfolding alloc_pipe_def Some option.case a
      by (auto simp: e live_pipe_def pipe_at_def valid_pipe_def split: if_splits)
  qed
  then show "sched_inv s'" "current s' = current s" "task_count s' = task_count s" "tasks s' = tasks s"
    "po = Some p \<Longrightarrow> live_pipe s' p \<and> rrefs (pipe_at s' p) = 0 \<and> wrefs (pipe_at s' p) = 0" by auto
qed

lemma set_fd_upd_pipe: "set_fd i j e (upd_pipe p f s) = upd_pipe p f (set_fd i j e s)"
  by (simp add: set_fd_def upd_task_def upd_pipe_def)

lemma pipe_fd_end: "is_pipe k \<Longrightarrow> fd_end (pipe_fd k p e) = Some (k, p)"
  by (simp add: fd_end_def pipe_fd_def)

lemma two_free_spec:
  assumes "two_free s = Some (r, w)"
  shows "r < FD_MAX \<and> w < FD_MAX \<and> r < w \<and> \<not> fd_used (fd_at s (current s) r) \<and> \<not> fd_used (fd_at s (current s) w)"
proof -
  let ?P = "\<lambda>j. \<not> fd_used (fd_at s (current s) j)"
  obtain ys where y: "filter ?P [0..<FD_MAX] = r # w # ys" using assms by (auto simp: two_free_def split: list.splits)
  have "sorted_wrt (<) (filter ?P [0..<FD_MAX])" by (rule sorted_wrt_filter) simp
  moreover have "?P r \<and> r < FD_MAX" "?P w \<and> w < FD_MAX"
    using arg_cong [where f = set, OF y] by (auto simp: set_eq_iff)
  ultimately show ?thesis unfolding y by auto
qed

lemma sched_pipe_inv: "sched_inv s \<Longrightarrow> sched_inv (snd (sched_pipe s))"
proof (cases "task_count s = 0 \<or> two_free s = None \<or> fst (alloc_pipe s) = None")
  case True
  assume inv: "sched_inv s"
  then show ?thesis using True alloc_pipe_inv(1) [OF inv]
    by (auto simp: sched_pipe_def split: option.splits prod.splits)
next
  case False
  assume inv: "sched_inv s"
  obtain r w p s1 where two: "two_free s = Some (r, w)" and al: "alloc_pipe s = (Some p, s1)"
    using False by (cases "alloc_pipe s") auto
  note A = alloc_pipe_inv [OF inv al]
  have c: "current s < TASK_MAX" by (rule sched_invD(4) [OF inv])
  have T: "r < FD_MAX" "w < FD_MAX" "r < w" "\<not> fd_used (fd_at s1 (current s) r)" "\<not> fd_used (fd_at s1 (current s) w)"
    using two_free_spec [OF two] A(4) by (simp_all add: fd_at_def)
  let ?e = "pipe_fd FD_KIND_PIPE_R p (fd_at s1 (current s) r)"
  let ?t = "upd_pipe p (addref FD_KIND_PIPE_R) (set_fd (current s) r ?e s1)"
  have wf: "sched_wf s1" using A(1) by (simp add: sched_inv_def)
  have lp: "live_pipe s1 p" using A(5) by simp
  have t: "sched_inv ?t" by (rule open_end_inv [OF A(1) c T(1) ends_None [OF T(4)] pipe_fd_end _ lp]) (auto simp: is_pipe_def)
  have Ew: "ends ?t (current s) w = None"
    using ends_None [OF T(5)] T(3) by (simp add: ends_set_fd(1) [OF wf c T(1)] upd_end_def)
  have lt: "live_pipe ?t p" using lp sched_invD(5) [OF A(1)]
    by (auto simp: live_pipe_def pipe_at_def addref_def valid_pipe_def)
  let ?f = "pipe_fd FD_KIND_PIPE_W p (fd_at ?t (current s) w)"
  have "sched_inv (upd_pipe p (addref FD_KIND_PIPE_W) (set_fd (current s) w ?f ?t))"
    by (rule open_end_inv [OF t c T(2) Ew pipe_fd_end _ lt]) (auto simp: is_pipe_def)
  moreover have "upd_pipe p (\<lambda>q. q\<lparr>rrefs := 1, wrefs := 1\<rparr>) s' = upd_pipe p (addref FD_KIND_PIPE_W) (upd_pipe p (addref FD_KIND_PIPE_R) s')"
    if "pipes s' = pipes s1" for s'
    using A(5) that sched_invD(5) [OF A(1)] nat_less_iff [of p PIPE_MAX] by (simp add: upd_pipe_def addref_def pipe_at_def live_pipe_def valid_pipe_def)
  ultimately show ?thesis using False two al
    by (simp add: sched_pipe_def Let_def set_fd_upd_pipe)
qed

lemma pipe_new_inv: "sched_inv s \<Longrightarrow> sched_inv (snd (sched_pipe_new s))"
  using alloc_pipe_inv(1) [of s] by (cases "alloc_pipe s") (simp add: sched_pipe_new_def)

lemma pipe_unused_inv:
  assumes inv: "sched_inv s"
  shows "sched_inv (sched_pipe_unused p s)"
proof (cases "live_pipe s p \<and> rrefs (pipe_at s p) = 0 \<and> wrefs (pipe_at s p) = 0")
  case True
  then have vp: "valid_pipe p" by (simp add: live_pipe_def)
  note F = free_pipe_obs [OF vp, of s]
  have "pipes_inv (ends s) ((pipes s)[nat p := empty_pipe]) (waits s)"
    by (rule pipes_inv_give_up) (use inv True in \<open>auto simp: sched_inv_def live_pipe_live pipe_at_def\<close>)
  then show ?thesis using inv True F same_tasks_obs [of "free_pipe p s" s] by (simp add: sched_pipe_unused_def sched_inv_def)
next
  case False
  then show ?thesis using inv by (auto simp: sched_pipe_unused_def)
qed

text \<open>The entry holds no pipe end yet, as the console entries of a new task.\<close>

lemma fd_bind_pipe_inv:
  assumes inv: "sched_inv s" and keep: "ends s (nat (last_added s)) (nat fd) = None"
  shows "sched_inv (snd (sched_fd_bind_pipe fd k p s))"
proof (cases "last_added s < 0 \<or> int (task_count s) \<le> last_added s \<or> \<not> valid_fd fd \<or> \<not> is_pipe k \<or> \<not> live_pipe s p")
  case True
  then show ?thesis using inv by (auto simp: sched_fd_bind_pipe_def)
next
  case False
  let ?i = "nat (last_added s)"
  have c: "?i < TASK_MAX" "nat fd < FD_MAX" using sched_invD(3) [OF inv] False by (auto simp: valid_fd_def)
  note D = dropped [OF inv c]
  let ?s1 = "if fd_used (fd_at s ?i (nat fd)) then drop_fd ?i (nat fd) s else s"
  have "pipes ?s1 = pipes s" using keep by (auto simp: drop_fd_alt drop_ref_def ends_def fd_end_def split: if_splits)
  then have lp: "live_pipe ?s1 p" using False by (simp add: live_pipe_live)
  have e: "fd_end ((pipe_fd k p x)\<lparr>fd_path := y\<rparr>) = Some (k, p)" for x y using False by (simp add: fd_end_def pipe_fd_def)
  show ?thesis using inv open_end_inv [OF D(1) c D(2) e _ lp] False by (simp add: sched_fd_bind_pipe_def Let_def)
qed

section \<open>Reading and writing\<close>

lemma take_keeps: "ring_take n buf p = (out, p') \<Longrightarrow> p_used p' = p_used p \<and> rrefs p' = rrefs p \<and> wrefs p' = wrefs p"
  by (auto simp: ring_take_def Let_def)

lemma put_keeps: "ring_put src n buf p = (got, p') \<Longrightarrow> p_used p' = p_used p \<and> rrefs p' = rrefs p \<and> wrefs p' = wrefs p"
  by (auto simp: ring_put_def Let_def)

lemma ring_step_inv:
  assumes inv: "sched_inv s" and lp: "live_pipe s p"
    and q: "ring_ok q" "p_used q = p_used (pipe_at s p) \<and> rrefs q = rrefs (pipe_at s p) \<and> wrefs q = wrefs (pipe_at s p)"
  shows "sched_inv (wake_pipe_waiters p (upd_pipe p (\<lambda>_. q) s))"
proof -
  let ?s = "upd_pipe p (\<lambda>_. q) s"
  have wf: "sched_wf ?s" using inv by (simp add: sched_inv_def)
  have "pipes_inv (ends s) ((pipes s)[nat p := q]) (woken p (waits s))"
    by (rule pipes_inv_ring) (use inv lp q in \<open>auto simp: sched_inv_def live_pipe_live live_def pipe_at_def\<close>)
  then have "pipes_inv (ends (wake_pipe_waiters p ?s)) ((pipes s)[nat p := q]) (waits (wake_pipe_waiters p ?s))"
    by (rule pipes_inv_obs) (use wake_obs(2) [OF wf] waits_wake [OF wf] in simp_all)
  then show ?thesis using wake_obs(1) [OF wf] by (simp add: sched_inv_def)
qed

lemma live_ring: "sched_inv s \<Longrightarrow> live_pipe s p \<Longrightarrow> ring_ok (pipe_at s p)"
  unfolding sched_inv_def pipes_inv_def live_pipe_live pipe_at_def by blast

lemma pipe_read_inv:
  assumes inv: "sched_inv s"
  shows "sched_inv (snd (sched_pipe_read fd dst n s))"
proof -
  let ?p = "fd_pipe (cur_fd s fd)"
  have "sched_inv (wake_pipe_waiters ?p (upd_pipe ?p (\<lambda>_. q) s))"
    if "live_pipe s ?p" "p_data (pipe_at s ?p) = Some buf" "ring_take n buf (pipe_at s ?p) = (out, q)" for buf out q
    by (rule ring_step_inv [OF inv that(1)])
       (use ring_take_spec [OF live_ring [OF inv that(1)], of n out q] take_keeps [OF that(3)] that in auto)
  then show ?thesis using inv by (auto simp: sched_pipe_read_def Let_def split: option.splits prod.splits)
qed

text \<open>The caller passes a buffer of at least \<open>n\<close> bytes.\<close>

lemma pipe_write_inv:
  assumes inv: "sched_inv s" and src: "\<And>b. src = Some b \<Longrightarrow> unat n \<le> length b"
  shows "sched_inv (snd (sched_pipe_write fd src n s))"
proof -
  let ?p = "fd_pipe (cur_fd s fd)"
  have "sched_inv (wake_pipe_waiters ?p (upd_pipe ?p (\<lambda>_. q) s))"
    if "live_pipe s ?p" "p_data (pipe_at s ?p) = Some buf" "ring_put b n buf (pipe_at s ?p) = (got, q)" "src = Some b" for b buf got q
    by (rule ring_step_inv [OF inv that(1)])
       (use ring_put_spec [OF live_ring [OF inv that(1)], of b n got q] src [OF that(4)] put_keeps [OF that(3)] that in auto)
  then show ?thesis using inv by (auto simp: sched_pipe_write_def Let_def split: option.splits prod.splits)
qed

text \<open>A call that has to block names a pipe on which blocking is justified.\<close>

lemma read_blocks:
  assumes "sched_pipe_read fd dst n s = (Block, s')"
  shows "live_pipe s (sched_fd_pipe fd s)" "stuck (pipe_at s (sched_fd_pipe fd s))"
proof -
  have k: "sched_fd_kind fd s = FD_KIND_PIPE_R" "live_pipe s (fd_pipe (cur_fd s fd))"
    "p_len (pipe_at s (fd_pipe (cur_fd s fd))) = 0" "wrefs (pipe_at s (fd_pipe (cur_fd s fd))) \<noteq> 0"
    using assms by (auto simp: sched_pipe_read_def Let_def split: if_splits option.splits prod.splits)
  then have "sched_fd_pipe fd s = fd_pipe (cur_fd s fd)"
    by (auto simp: sched_fd_kind_def sched_fd_pipe_def is_pipe_def Let_def split: if_splits)
  then show "live_pipe s (sched_fd_pipe fd s)" "stuck (pipe_at s (sched_fd_pipe fd s))" using k by (auto simp: stuck_def)
qed

lemma write_blocks:
  assumes inv: "sched_inv s" and b: "sched_pipe_write fd src n s = (WBlock, s')"
  shows "live_pipe s (sched_fd_pipe fd s)" "stuck (pipe_at s (sched_fd_pipe fd s))"
proof -
  have k: "sched_fd_kind fd s = FD_KIND_PIPE_W" "live_pipe s (fd_pipe (cur_fd s fd))"
    "PIPE_CAP \<le> p_len (pipe_at s (fd_pipe (cur_fd s fd)))" "rrefs (pipe_at s (fd_pipe (cur_fd s fd))) \<noteq> 0"
    using b by (auto simp: sched_pipe_write_def Let_def split: if_splits option.splits prod.splits)
  moreover have "p_len (pipe_at s (fd_pipe (cur_fd s fd))) = PIPE_CAP"
    using live_ring [OF inv k(2)] k(3) by (simp add: ring_ok_def)
  moreover have "sched_fd_pipe fd s = fd_pipe (cur_fd s fd)"
    using k(1) by (auto simp: sched_fd_kind_def sched_fd_pipe_def is_pipe_def Let_def split: if_splits)
  ultimately show "live_pipe s (sched_fd_pipe fd s)" "stuck (pipe_at s (sched_fd_pipe fd s))" by (auto simp: stuck_def)
qed

section \<open>The rest\<close>

lemma kill_inv: "sched_inv s \<Longrightarrow> sched_inv (snd (sched_kill fo s))"
  using signal_at_inv [of s] by (auto simp: sched_kill_def sched_kill_at_def split: option.splits prod.splits)

lemma sigaction_inv: "sched_inv s \<Longrightarrow> sched_inv (snd (sched_sigaction fo s))"
  by (auto simp: sched_sigaction_def Let_def split: option.splits intro!: upd_cur_inv)

lemma reset_current_inv: "sched_inv s \<Longrightarrow> sched_inv (snd (sched_reset_current fo ip sp base s))"
  by (auto simp: sched_reset_current_def Let_def load_task_def wait_of_def split: option.splits intro!: upd_cur_inv)

lemma setters_inv:
  assumes "sched_inv s"
  shows "sched_inv (sched_set_current_cwd cl s)" "sched_inv (sched_set_current_pwd path s)" "sched_inv (sched_set_brk b s)"
    "sched_inv (snd (sched_note_write s))" "sched_inv (sched_set_name name s)" "sched_inv (sched_rename_current name s)"
    "sched_inv (sched_note_fg s)" "sched_inv (sched_clear_fg s)"
proof -
  have "sched_inv (upd_task (nat (last_added s)) (\<lambda>t. t\<lparr>t_name := copy_name (t_name t) name\<rparr>) s)"
    if "last_added s < int (task_count s)" "0 \<le> last_added s"
    by (rule inv_upd_task [OF assms]) (use that sched_invD(3) [OF assms] in \<open>auto simp: wait_of_def\<close>)
  then show "sched_inv (sched_set_name name s)" using assms by (auto simp: sched_set_name_def)
qed (use assms in \<open>auto simp: sched_set_current_cwd_def sched_set_current_pwd_def sched_set_brk_def sched_note_write_def
  sched_rename_current_def sched_note_fg_def sched_clear_fg_def Let_def wait_of_def intro!: upd_cur_inv\<close>)

section \<open>Boot\<close>

text \<open>The statically allocated tables hold zeros.\<close>

definition zeroed :: "sched \<Rightarrow> bool" where
  "zeroed s \<longleftrightarrow> length (tasks s) = TASK_MAX \<and>
     (\<forall>t \<in> set (tasks s). t_state t = TASK_DEAD \<and> length (fds t) = FD_MAX \<and> (\<forall>e \<in> set (fds t). \<not> fd_used e))"

lemma init_inv:
  assumes "zeroed s"
  shows "sched_inv (sched_init s)"
proof -
  let ?s = "s\<lparr>task_count := 0, current := 0, last_added := -1, fg_slot := -1, pipes := replicate PIPE_MAX empty_pipe\<rparr>"
  have t: "task_at ?s i \<in> set (tasks s)" if "i < TASK_MAX" for i using assms that by (simp add: zeroed_def task_at_def)
  have e: "ends ?s i j = None" if "i < TASK_MAX" "j < FD_MAX" for i j
    using t [OF that(1)] assms that(2) by (simp add: zeroed_def ends_def fd_end_def fd_at_task)
  have w: "waits ?s i = None" if "i < TASK_MAX" for i
    using t [OF that] assms by (simp add: zeroed_def waits_def wait_of_def)
  have l: "\<not> live (replicate PIPE_MAX empty_pipe) p" for p by (auto simp: live_def valid_pipe_def empty_pipe_def)
  have "sched_inv ?s" using assms e w l by (auto simp: sched_inv_def sched_wf_def pipes_inv_def zeroed_def)
  then show ?thesis unfolding sched_init_def
    by (rule fold_inv) (auto intro!: clear_fds_inv inv_upd_task simp: init_task_def wait_of_def)
qed

text \<open>\<open>sched_init\<close> leaves every slot free and every pipe unused.\<close>

lemma clear_fds_unused:
  assumes "\<forall>j < FD_MAX. \<not> fd_used (fd_at s i j)"
  shows "clear_fds i s = s"
proof -
  have "fold (drop_fd i) js s = s" if "\<forall>j \<in> set js. j < FD_MAX" for js
    using that assms by (induction js) (auto simp: drop_fd_alt)
  from this [of "[0..<FD_MAX]"] show ?thesis by (simp add: clear_fds_def)
qed

lemma sched_init_tasks:
  assumes z: "zeroed s"
  shows "sched_init s = s\<lparr>task_count := 0, current := 0, last_added := -1, fg_slot := -1,
    pipes := replicate PIPE_MAX empty_pipe, tasks := map init_task (tasks s)\<rparr>"
proof -
  let ?b = "s\<lparr>task_count := 0, current := 0, last_added := -1, fg_slot := -1, pipes := replicate PIPE_MAX empty_pipe\<rparr>"
  let ?f = "\<lambda>i s. clear_fds i (upd_task i init_task s)"
  have len: "length (tasks s) = TASK_MAX" using z by (simp add: zeroed_def)
  have un: "\<not> fd_used (fds (tasks s ! i) ! j)" if "i < TASK_MAX" "j < FD_MAX" for i j
  proof -
    have "tasks s ! i \<in> set (tasks s)" using len that(1) by simp
    then have "length (fds (tasks s ! i)) = FD_MAX" "\<forall>e \<in> set (fds (tasks s ! i)). \<not> fd_used e" using z by (auto simp: zeroed_def)
    then show ?thesis using that(2) by simp
  qed
  have "fold ?f [0..<n] ?b = ?b\<lparr>tasks := map init_task (take n (tasks s)) @ drop n (tasks s)\<rparr>" if "n \<le> TASK_MAX" for n
    using that
  proof (induction n)
    case (Suc n)
    let ?t = "?b\<lparr>tasks := map init_task (take (Suc n) (tasks s)) @ drop (Suc n) (tasks s)\<rparr>"
    have u: "upd_task n init_task (?b\<lparr>tasks := map init_task (take n (tasks s)) @ drop n (tasks s)\<rparr>) = ?t"
      using Suc.prems len by (simp add: upd_task_def nth_append list_update_append Cons_nth_drop_Suc [symmetric] take_Suc_conv_app_nth)
    have "clear_fds n ?t = ?t"
      by (rule clear_fds_unused) (use Suc.prems len un in \<open>simp add: fd_at_def nth_append init_task_def\<close>)
    then show ?case using Suc u by simp
  qed simp
  from this [of TASK_MAX] show ?thesis using len by (simp add: sched_init_def)
qed
end
