(* ===== verification/Sched_Machine.thy ===== *)
theory Sched_Machine
  imports Sched_Fds
begin

text \<open>
  The scheduler as the rest of the kernel drives it: one rule per entry point of \<open>kernel/sched.c\<close>,
  with the conditions under which \<open>kernel/idt.c\<close>, \<open>kernel/user.c\<close> and \<open>kernel/kbd.c\<close> call it. What holds
  in every reachable state follows by rule induction.
\<close>

section \<open>Steps\<close>

text \<open>
  \<open>sys_read\<close> and \<open>sys_write\<close> block on the pipe of a descriptor exactly when the transfer says so, and
  \<open>spawn_slot\<close> binds the console entries of the task it has just added. The rule \<open>other\<close> covers the
  memory manager, the screen and the devices, which share no state with the scheduler's tables.
\<close>

inductive sched_step :: "sched \<Rightarrow> sched \<Rightarrow> bool" where
  tick: "sched_step s (snd (sched_on_tick fo (s\<lparr>ticks := ticks s + 1\<rparr>)))"
| add_user: "sched_step s (snd (sched_add_user wd pwd ip sp ktop row base c s))"
| fork: "sched_step s (snd (sched_fork fo ktop c s))"
| exit: "sched_step s (snd (sched_exit fo s))"
| wait: "sched_step s (snd (sched_wait fo s))"
| sleep: "sched_step s (snd (sched_sleep fo n s))"
| yield: "sched_step s (snd (sched_yield fo s))"
| exec: "sched_step s (snd (sched_reset_current fo ip sp base s))"
| fd_open: "sched_step s (snd (sched_fd_open path s))"
| fd_close: "sched_step s (snd (sched_fd_close fd s))"
| fd_dup2: "sched_step s (snd (sched_fd_dup2 oldfd newfd s))"
| fd_lseek: "sched_step s (snd (sched_fd_lseek fd off s))"
| bind_file: "sched_step s (snd (sched_fd_bind_file fd path off s))"
| bind_pipe: "ends s (nat (last_added s)) (nat fd) = None \<Longrightarrow> sched_step s (snd (sched_fd_bind_pipe fd k p s))"
| pipe: "sched_step s (snd (sched_pipe s))"
| pipe_new: "sched_step s (snd (sched_pipe_new s))"
| pipe_unused: "sched_step s (sched_pipe_unused p s)"
| pipe_read: "sched_step s (snd (sched_pipe_read fd True n s))"
| pipe_write: "unat n \<le> length b \<Longrightarrow> sched_step s (snd (sched_pipe_write fd (Some b) n s))"
| block_read: "fst (sched_pipe_read fd True n s) = Block \<Longrightarrow>
    sched_step s (snd (sched_block_pipe fo (sched_fd_pipe fd s) s))"
| block_write: "fst (sched_pipe_write fd (Some b) n s) = WBlock \<Longrightarrow>
    sched_step s (snd (sched_block_pipe fo (sched_fd_pipe fd s) s))"
| block_kbd: "sched_step s (snd (sched_block_kbd fo s))"
| wake_kbd: "sched_step s (sched_wake_kbd s)"
| signal: "sched_step s (snd (snd (sched_signal_at pid signo code fo s)))"
| kill: "sched_step s (snd (sched_kill fo s))"
| sigaction: "sched_step s (snd (sched_sigaction fo s))"
| deliver: "sched_step s (snd (sched_deliver_pending fo s))"
| set_cwd: "sched_step s (sched_set_current_cwd cl s)"
| set_pwd: "sched_step s (sched_set_current_pwd path s)"
| set_brk: "sched_step s (sched_set_brk b s)"
| note_write: "sched_step s (snd (sched_note_write s))"
| set_name: "sched_step s (sched_set_name name s)"
| rename: "sched_step s (sched_rename_current name s)"
| note_fg: "sched_step s (sched_note_fg s)"
| clear_fg: "sched_step s (sched_clear_fg s)"
| other: "sched_step s (s\<lparr>vm := v, scr := g, stdin_ready := r, irqs := qs\<rparr>)"

inductive reachable :: "sched \<Rightarrow> bool" where
  boot: "zeroed s \<Longrightarrow> reachable (sched_init s)"
| step: "reachable s \<Longrightarrow> sched_step s s' \<Longrightarrow> reachable s'"

lemmas step_invs = on_tick_inv add_user_inv fork_inv sched_exit_inv wait_inv sleep_inv switch_to_next_inv
  reset_current_inv fd_open_inv fd_close_inv fd_dup2_inv fd_lseek_inv fd_bind_file_inv fd_bind_pipe_inv
  sched_pipe_inv pipe_new_inv pipe_unused_inv pipe_read_inv block_kbd_inv wake_kbd_inv kill_inv sigaction_inv
  deliver_pending_inv setters_inv

lemma step_inv: "sched_step s s' \<Longrightarrow> sched_inv s \<Longrightarrow> sched_inv s'"
proof (induction rule: sched_step.induct)
  case (pipe_write n b s fd)
  then show ?case using pipe_write_inv [of s "Some b" n fd] by simp
next
  case (block_read fd n s fo)
  then show ?case using read_blocks [of fd True n s "snd (sched_pipe_read fd True n s)"]
    by (intro block_pipe_inv) (simp_all add: prod_eq_iff)
next
  case (block_write fd b n s fo)
  then show ?case using write_blocks [of s fd "Some b" n "snd (sched_pipe_write fd (Some b) n s)"]
    by (intro block_pipe_inv) (simp_all add: prod_eq_iff)
next
  case (signal s pid signo code fo)
  then show ?case using signal_at_inv [of s pid signo code fo "fst (sched_signal_at pid signo code fo s)"]
    by (metis prod.collapse)
qed (simp_all add: step_invs sched_yield_def)

lemma reachable_inv: "reachable s \<Longrightarrow> sched_inv s"
  by (induction rule: reachable.induct) (auto intro: init_inv step_inv)

end
