(* ===== verification/Sched_Demo.thy ===== *)
theory Sched_Demo
  imports Sched_Machine
begin

text \<open>Concrete states for the witnesses of the scheduler's properties, reached from the zeroed tables.\<close>

definition zero_fd :: fd_entry where
  "zero_fd = \<lparr>fd_used = False, fd_kind = FD_KIND_NONE, fd_pipe = 0, fd_offset = 0, fd_path = []\<rparr>"

definition zero_task :: task where
  "zero_task = \<lparr>ctx = user_regs 0 0, kstack_top = 0, user_base = 0, brk = 0, cr3 = 0, cwd = 0, cwd_path = [], parent = 0,
     wait_pid = 0, t_name = [], t_state = TASK_DEAD, t_row = 0, writes = 0, wake_tick = 0, cpu_ticks = 0, exit_code = 0,
     reaped = False, seen_status = False, shown_status = 0, pending = 0, handler_int = 0, handler_term = 0, pipe_wait = 0,
     fds = replicate 8 zero_fd\<rparr>"

definition vm_demo :: vmm where
  "vm_demo = \<lparr>pm = pmm_tiny, pmem = (\<lambda>_. 0), cow_tab = [], first_4k_mapped = 0, hhdm_ready = True, cr3_reg = vmm_boot_cr3\<rparr>"

definition scr_demo :: vga where
  "scr_demo = \<lparr>cells = [], text_mem = [], cursor_row = 0, cursor_col = 0, serial_out = [], vga_oob = False\<rparr>"

definition zero_sched :: sched where
  "zero_sched = \<lparr>tasks = replicate 16 zero_task, pipes = [], task_count = 0, current = 0, last_added = 0, fg_slot = 0,
     vm = vm_demo, scr = scr_demo, tss_rsp0 = 0, ticks = 0, stdin_ready = False, irqs = []\<rparr>"

definition frame0 :: interrupt_frame where
  "frame0 = regs.extend (user_regs 0x400000 0x500000) (interrupt_frame.fields 48 0)"

definition boot0 :: sched where "boot0 = sched_init zero_sched"
definition one_task :: sched where
  "one_task = snd (sched_add_user 0 ''/'' 0x400000 0x500000 0x3000 1 0x400000 0x7000 boot0)"
definition two_ends :: sched where "two_ends = snd (sched_pipe one_task)"

lemma zeroed0: "zeroed zero_sched"
  by (simp add: zeroed_def zero_sched_def zero_task_def zero_fd_def TASK_MAX_def FD_MAX_def)

lemma boot0_eq: "boot0 = zero_sched\<lparr>last_added := -1, fg_slot := -1, pipes := replicate 4 empty_pipe, tasks := replicate 16 (init_task zero_task)\<rparr>"
  unfolding boot0_def sched_init_tasks [OF zeroed0] by (simp add: zero_sched_def PIPE_MAX_def)

lemma fds_init [simp]: "fds (init_task t) = fds t" by (simp add: init_task_def)

text \<open>The task that \<open>sched_add_user\<close> makes, with its three console descriptors.\<close>

definition user_task :: task where
  "user_task = zero_task\<lparr>ctx := user_regs 0x400000 0x500000, kstack_top := 0x3000, user_base := 0x400000, brk := 0x402000,
     cr3 := 0x7000, cwd_path := [CHR ''/'', NUL], parent := -1, t_name := [NUL], t_state := TASK_READY, t_row := 1,
     pipe_wait := -1,
     fds := console_fd FD_KIND_CONSOLE_R zero_fd # replicate 2 (console_fd FD_KIND_CONSOLE_W zero_fd) @ replicate 5 zero_fd\<rparr>"

lemma tables: "replicate 16 x = x # replicate 15 x" "replicate 8 x = x # x # x # replicate 5 x"
  "replicate 4 x = x # replicate 3 x"
  by (simp_all add: numeral_eq_Suc)

lemma one_task_eq:
  "one_task = boot0\<lparr>task_count := 1, last_added := 0, tasks := user_task # replicate 15 (init_task zero_task)\<rparr>"
proof -
  let ?s = "boot0\<lparr>task_count := 1, tasks := user_task\<lparr>fds := replicate 8 zero_fd\<rparr> # replicate 15 (init_task zero_task)\<rparr>"
  have c: "clear_fds 0 ?s = ?s"
    by (rule clear_fds_unused) (simp add: fd_at_def zero_fd_def FD_MAX_def)
  have "one_task = (bind_console_std 0 (clear_fds 0 ?s))\<lparr>last_added := 0\<rparr>"
    unfolding one_task_def boot0_eq
    by (simp add: sched_add_user_def sched_base_busy_def take_slot_def zero_sched_def TASK_MAX_def Let_def upd_task_def
      vmm_boot_cr3_def user_task_def zero_task_def init_task_def tables copy_cwd_path_def copy_str_def cstr_def CWD_PATH_MAX_def NUL_def VGA_HEIGHT_def)
  then show ?thesis
    unfolding c by (simp add: bind_console_std_def upd_task_def user_task_def tables numeral_2_eq_2 boot0_eq zero_sched_def)
qed

lemma reachable_one_task: "reachable one_task"
  unfolding one_task_def boot0_def by (intro reachable.step [OF reachable.boot [OF zeroed0]] sched_step.add_user)

text \<open>It makes a pipe: descriptors 3 and 4.\<close>

lemma tiny_alloc: "pmm_alloc_above 0x200000 pmm_tiny = (0, pmm_tiny)" "fst (pmm_alloc pmm_tiny) \<noteq> 0"
  by code_simp+

definition vm1 :: vmm where "vm1 = snd (alloc_page vm_demo)"
definition pipe1 :: pipe where
  "pipe1 = \<lparr>p_used = True, p_head = 0, p_len = 0, rrefs = 1, wrefs = 1, p_phys = fst (alloc_page vm_demo),
     p_data = Some (replicate 4096 0)\<rparr>"
definition pipe_task :: task where
  "pipe_task = user_task\<lparr>fds := console_fd FD_KIND_CONSOLE_R zero_fd # replicate 2 (console_fd FD_KIND_CONSOLE_W zero_fd) @
     pipe_fd FD_KIND_PIPE_R 0 zero_fd # pipe_fd FD_KIND_PIPE_W 0 zero_fd # replicate 3 zero_fd\<rparr>"

lemma fds_user: "fds user_task = [console_fd FD_KIND_CONSOLE_R zero_fd, console_fd FD_KIND_CONSOLE_W zero_fd,
    console_fd FD_KIND_CONSOLE_W zero_fd, zero_fd, zero_fd, zero_fd, zero_fd, zero_fd]"
  by (simp add: user_task_def numeral_eq_Suc)

lemma used_demo [simp]: "fd_used (console_fd k e)" "\<not> fd_used zero_fd" "fd_used (pipe_fd k p e)"
  by (simp_all add: console_fd_def zero_fd_def pipe_fd_def)

lemma one_task_sel: "tasks one_task = user_task # replicate 15 (init_task zero_task)" "current one_task = 0"
  "pipes one_task = replicate 4 empty_pipe" "task_count one_task = 1" "vm one_task = vm_demo"
  by (simp_all add: one_task_eq boot0_eq zero_sched_def)

lemma two_free_one: "two_free one_task = Some (3, 4)"
  by (simp add: two_free_def FD_MAX_def fd_at_def one_task_sel fds_user upt_rec)

lemma alloc_one: "alloc_pipe one_task = (Some 0, one_task\<lparr>vm := vm1, pipes := pipe1\<lparr>rrefs := 0, wrefs := 0\<rparr> # replicate 3 empty_pipe\<rparr>)"
proof -
  obtain ph s where a: "pmm_alloc pmm_tiny = (ph, s)" "ph \<noteq> 0" using tiny_alloc(2) by (cases "pmm_alloc pmm_tiny") auto
  have "find (\<lambda>i. \<not> p_used (pipes one_task ! i)) [0..<PIPE_MAX] = Some 0"
    by (simp add: PIPE_MAX_def one_task_sel tables empty_pipe_def upt_rec)
  then show ?thesis using a tiny_alloc(1)
    by (simp add: alloc_pipe_def one_task_sel vm1_def pipe1_def alloc_page_def alloc_page_above_def vm_demo_def PIPE_MIN_PHYS_def
      upd_pipe_def tables cap_nat)
qed

lemma two_ends_eq: "two_ends = one_task\<lparr>vm := vm1, pipes := pipe1 # replicate 3 empty_pipe,
    tasks := pipe_task # replicate 15 (init_task zero_task)\<rparr>"
  unfolding two_ends_def sched_pipe_def two_free_one alloc_one
  by (simp add: one_task_sel Let_def upd_pipe_def set_fd_def upd_task_def fd_at_def fds_user pipe_task_def pipe1_def numeral_eq_Suc one_task_eq boot0_eq zero_sched_def)

lemma two_ends_sel: "tasks two_ends = pipe_task # replicate 15 (init_task zero_task)" "current two_ends = 0"
  "pipes two_ends = pipe1 # replicate 3 empty_pipe" "task_count two_ends = 1" "irqs two_ends = []"
  by (simp_all add: two_ends_eq one_task_sel) (simp add: one_task_eq boot0_eq zero_sched_def)

lemma pipe_task_sel: "t_state pipe_task = TASK_READY" "pending pipe_task = 0"
  "fds pipe_task ! 3 = pipe_fd FD_KIND_PIPE_R 0 zero_fd" "fds pipe_task ! 4 = pipe_fd FD_KIND_PIPE_W 0 zero_fd"
  by (simp_all add: pipe_task_def user_task_def zero_task_def numeral_eq_Suc)

lemma reachable_two_ends: "reachable two_ends"
  unfolding two_ends_def by (intro reachable.step [OF reachable_one_task] sched_step.pipe)

lemma read_two_ends:
  "sched_pipe_read 3 True 1 two_ends = (Block, two_ends)" "sched_fd_pipe 3 two_ends = 0" "live_pipe two_ends 0"
  by (simp_all add: sched_pipe_read_def sched_fd_kind_def sched_fd_pipe_def two_ends_sel valid_fd_def FD_MAX_def cur_fd_def fd_at_def
    pipe_task_sel pipe_fd_def live_pipe_def valid_pipe_def PIPE_MAX_def pipe_at_def pipe1_def Let_def is_pipe_def)

text \<open>It reads the empty pipe and blocks.\<close>

definition blocked :: sched where "blocked = snd (sched_block_pipe (Some frame0) 0 two_ends)"

lemma reachable_blocked: "reachable blocked"
  using reachable.step [OF reachable_two_ends sched_step.block_read [of 3 1 two_ends "Some frame0"]] read_two_ends
  by (simp add: blocked_def)

lemma blocked_sel: "tasks blocked = pipe_task\<lparr>ctx := regs.truncate frame0, t_state := TASK_PIPE, pipe_wait := 0\<rparr> # replicate 15 (init_task zero_task)"
  "pipes blocked = pipe1 # replicate 3 empty_pipe" "task_count blocked = 1" "current blocked = 0"
  unfolding blocked_def
  by (simp_all add: sched_block_pipe_def task_has_pending_def task_at_def two_ends_sel pipe_task_sel upd_cur_def upd_task_def Let_def
    save_task_eq block_def pick_next_def idle_until_ready_def wake_sleepers_def map_tasks_def)

text \<open>A second task.\<close>

definition two_tasks :: sched where
  "two_tasks = snd (sched_add_user 0 ''/'' 0x400000 0x500000 0x4000 2 0x400000 0x8000 one_task)"

definition user_task2 :: task where
  "user_task2 = user_task\<lparr>kstack_top := 0x4000, cr3 := 0x8000, t_row := 2\<rparr>"

lemma table15: "replicate 15 x = x # replicate 14 x"
  by (simp add: numeral_eq_Suc)

lemma two_tasks_eq:
  "two_tasks = one_task\<lparr>task_count := 2, last_added := 1, tasks := user_task # user_task2 # replicate 14 (init_task zero_task)\<rparr>"
proof -
  let ?s = "one_task\<lparr>task_count := 2, tasks := user_task # user_task2\<lparr>fds := replicate 8 zero_fd\<rparr> # replicate 14 (init_task zero_task)\<rparr>"
  have c: "clear_fds 1 ?s = ?s"
    by (rule clear_fds_unused) (simp add: fd_at_def zero_fd_def FD_MAX_def)
  have "two_tasks = (bind_console_std 1 (clear_fds 1 ?s))\<lparr>last_added := 1\<rparr>"
    unfolding two_tasks_def one_task_eq boot0_eq
    by (simp add: sched_add_user_def sched_base_busy_def take_slot_def zero_sched_def TASK_MAX_def Let_def upd_task_def task_at_def
      slot_reusable_def vmm_boot_cr3_def user_task_def user_task2_def zero_task_def init_task_def tables table15 numeral_2_eq_2 [symmetric] copy_cwd_path_def copy_str_def
      cstr_def CWD_PATH_MAX_def NUL_def VGA_HEIGHT_def)
  then show ?thesis
    unfolding c by (simp add: bind_console_std_def upd_task_def user_task_def user_task2_def zero_task_def tables numeral_2_eq_2 one_task_eq boot0_eq zero_sched_def)
qed

lemma reachable_two_tasks: "reachable two_tasks"
  unfolding two_tasks_def by (intro reachable.step [OF reachable_one_task] sched_step.add_user)

lemma two_tasks_sel: "tasks two_tasks = user_task # user_task2 # replicate 14 (init_task zero_task)" "current two_tasks = 0"
  "task_count two_tasks = 2" "irqs two_tasks = []"
  by (simp_all add: two_tasks_eq one_task_sel) (simp add: one_task_eq boot0_eq zero_sched_def)

end
