(* ===== verification/Sched_Resume.thy ===== *)
theory Sched_Resume
  imports Sched_Machine
begin

text \<open>
  What the scheduler keeps of a task that does not run: its stored registers, page tables and kernel
  stack, through every operation, until it is resumed or dies. A task in \<open>sched_wait\<close> is the exception:
  the exit of its child stores the status in its register \<open>rax\<close>.
\<close>

section \<open>One slot\<close>

definition paused :: "task \<Rightarrow> bool" where
  "paused t \<longleftrightarrow> t_state t \<in> {TASK_READY, TASK_SLEEP, TASK_PIPE, TASK_KBD}"

definition stays :: "task \<Rightarrow> task \<Rightarrow> bool" where
  "stays t t' \<longleftrightarrow> (t_state t = TASK_DEAD \<longrightarrow> t_state t' = TASK_DEAD) \<and>
     (paused t \<longrightarrow> t_state t' = TASK_DEAD \<or> paused t' \<and> ctx t' = ctx t \<and> cr3 t' = cr3 t \<and> kstack_top t' = kstack_top t)"

definition keeps_slot :: "nat \<Rightarrow> sched \<Rightarrow> sched \<Rightarrow> bool" where
  "keeps_slot i s s' \<longleftrightarrow> length (tasks s') = length (tasks s) \<and> task_count s \<le> task_count s' \<and>
     (i < length (tasks s) \<longrightarrow> stays (task_at s i) (task_at s' i))"

lemma stays_refl [simp]: "stays t t" by (simp add: stays_def)

lemma stays_trans: "stays t u \<Longrightarrow> stays u w \<Longrightarrow> stays t w" by (auto simp: stays_def)

lemma keeps_slot_refl [simp]: "keeps_slot i s s" by (simp add: keeps_slot_def)

lemma keeps_slot_trans: "keeps_slot i s x \<Longrightarrow> keeps_slot i x y \<Longrightarrow> keeps_slot i s y"
  unfolding keeps_slot_def using stays_trans by auto

text \<open>States that differ in other parts.\<close>

lemma keeps_slot_parts [simp]:
  "keeps_slot i x (s\<lparr>vm := a\<rparr>) = keeps_slot i x s" "keeps_slot i x (s\<lparr>scr := b\<rparr>) = keeps_slot i x s"
  "keeps_slot i x (s\<lparr>ticks := c\<rparr>) = keeps_slot i x s" "keeps_slot i x (s\<lparr>stdin_ready := d\<rparr>) = keeps_slot i x s"
  "keeps_slot i x (s\<lparr>irqs := e\<rparr>) = keeps_slot i x s" "keeps_slot i x (s\<lparr>fg_slot := f\<rparr>) = keeps_slot i x s"
  "keeps_slot i x (s\<lparr>last_added := g\<rparr>) = keeps_slot i x s" "keeps_slot i x (s\<lparr>current := h\<rparr>) = keeps_slot i x s"
  "keeps_slot i x s \<Longrightarrow> keeps_slot i x (s\<lparr>task_count := Suc (task_count s)\<rparr>)" "keeps_slot i x (set_current n s) = keeps_slot i x s"
  "keeps_slot i x (upd_pipe p q s) = keeps_slot i x s"
  by (simp_all add: keeps_slot_def task_at_def set_current_def upd_pipe_def)

lemma keeps_slot_upd: "keeps_slot i x s \<Longrightarrow> (j = i \<Longrightarrow> stays (task_at s i) (f (task_at s i))) \<Longrightarrow> keeps_slot i x (upd_task j f s)"
  unfolding keeps_slot_def by (cases "j = i") (auto simp: upd_task_def task_at_def intro: stays_trans)

lemma keeps_slot_cur: "keeps_slot i x s \<Longrightarrow> (current s = i \<Longrightarrow> stays (task_at s i) (f (task_at s i))) \<Longrightarrow> keeps_slot i x (upd_cur f s)"
  unfolding upd_cur_def by (rule keeps_slot_upd)

lemma keeps_slot_map:
  assumes "keeps_slot i x s" "stays (task_at s i) (f (task_at s i))"
  shows "keeps_slot i x (map_tasks f s)"
proof -
  have l: "length (tasks (map_tasks f s)) = length (tasks s)" "task_count (map_tasks f s) = task_count s" by (simp_all add: map_tasks_def)
  have "task_at (map_tasks f s) i = (if i < task_count s then f (task_at s i) else task_at s i)" if "i < length (tasks s)"
    using that by (auto simp: map_tasks_def task_at_def nth_append)
  then show ?thesis using assms l unfolding keeps_slot_def by (auto intro: stays_trans)
qed

section \<open>Operations\<close>

lemma keeps_slot_set_fd [simp]: "keeps_slot i x s \<Longrightarrow> keeps_slot i x (set_fd k j e s)"
  unfolding set_fd_def by (erule keeps_slot_upd) (simp add: stays_def paused_def)

lemma keeps_slot_wakes [simp]: "keeps_slot i x s \<Longrightarrow> keeps_slot i x (wake_pipe_waiters p s)" "keeps_slot i x s \<Longrightarrow> keeps_slot i x (wake_sleepers s)"
  "keeps_slot i x s \<Longrightarrow> keeps_slot i x (sched_wake_kbd s)" "keeps_slot i x s \<Longrightarrow> keeps_slot i x (wake_blocked k s)"
  unfolding wake_pipe_waiters_def wake_sleepers_def sched_wake_kbd_def wake_blocked_def
  by (auto intro!: keeps_slot_map keeps_slot_upd simp: stays_def paused_def)

lemma keeps_slot_free_pipe [simp]: "keeps_slot i x (free_pipe p s) = keeps_slot i x s"
  by (simp add: free_pipe_def Let_def)

lemma keeps_slot_drop_fd [simp]: "keeps_slot i x s \<Longrightarrow> keeps_slot i x (drop_fd k j s)"
  by (simp add: drop_fd_def Let_def)

lemma keeps_slot_clear_fds [simp]: "keeps_slot i x s \<Longrightarrow> keeps_slot i x (clear_fds k s)"
proof -
  have "keeps_slot i x s \<Longrightarrow> keeps_slot i x (fold (drop_fd k) js s)" for js by (induction js arbitrary: s) simp_all
  then show "keeps_slot i x s \<Longrightarrow> ?thesis" by (simp add: clear_fds_def)
qed

lemma keeps_slot_free_user [simp]: "keeps_slot i x s \<Longrightarrow> keeps_slot i x (free_task_user k s)"
  unfolding free_task_user_def by (auto intro!: keeps_slot_upd simp: stays_def paused_def)

lemma keeps_slot_show [simp]: "keeps_slot i x s \<Longrightarrow> keeps_slot i x (show_wait_status k code s)"
  unfolding show_wait_status_def Let_def by (auto intro!: keeps_slot_upd simp: stays_def paused_def)

lemma keeps_slot_reap [simp]: "keeps_slot i x s \<Longrightarrow> keeps_slot i x (snd (reap_child k s))"
  unfolding reap_child_def by (auto intro!: keeps_slot_upd simp: stays_def paused_def)

lemma reap_state: "t_state (task_at (snd (reap_child k s)) i) = t_state (task_at s i)"
  by (cases "i < length (tasks s)"; cases "i = k") (simp_all add: reap_child_def upd_task_def task_at_def list_update_beyond)

lemma keeps_slot_wake_parent [simp]: "keeps_slot i x s \<Longrightarrow> keeps_slot i x (wake_parent_waiter k code s)"
proof -
  assume s: "keeps_slot i x s"
  let ?p = "nat (parent (task_at s k))"
  have "keeps_slot i x (upd_task ?p (\<lambda>t. t\<lparr>t_state := TASK_READY, ctx := (ctx t)\<lparr>rax := ucast code\<rparr>, wait_pid := 0\<rparr>) (snd (reap_child k s)))"
    if "t_state (task_at s ?p) = TASK_WAIT"
    by (rule keeps_slot_upd) (use s that in \<open>simp_all add: stays_def paused_def reap_state\<close>)
  then show ?thesis using s by (simp add: wake_parent_waiter_def Let_def)
qed

lemma keeps_slot_kill [simp]: "keeps_slot i x s \<Longrightarrow> keeps_slot i x (kill_task k code s)"
proof -
  assume s: "keeps_slot i x s"
  have "keeps_slot i x (upd_task k (\<lambda>t. t\<lparr>exit_code := code, reaped := False, pending := 0, handler_int := 0, handler_term := 0,
      t_state := TASK_DEAD, pipe_wait := -1\<rparr>) (clear_fds k (free_task_user k s)))"
    by (rule keeps_slot_upd) (use s in \<open>simp_all add: stays_def\<close>)
  then show ?thesis using s by (simp add: kill_task_def Let_def)
qed

lemma keeps_slot_dispatch [simp]: "keeps_slot i x s \<Longrightarrow> keeps_slot i x (snd (dispatch f n s))"
  by (simp add: dispatch_def load_task_def)

lemma keeps_slot_signal:
  assumes "i \<noteq> current s"
  shows "keeps_slot i s (snd (snd (sched_signal_at pid signo code fo s)))"
proof -
  let ?u = "upd_task (nat pid) (\<lambda>t. t\<lparr>pending := pending t OR sig_bit signo, exit_code := code\<rparr>) s"
  have u: "keeps_slot i s ?u" by (rule keeps_slot_upd) (simp_all add: stays_def paused_def)
  have c: "current (wake_blocked (nat pid) ?u) = current s" by (simp add: wake_blocked_def upd_task_def)
  have "keeps_slot i s (upd_cur (save_task f) (wake_blocked (nat pid) ?u))" for f
    by (rule keeps_slot_cur) (use u assms c in simp_all)
  then show ?thesis using u by (simp add: sched_signal_at_def Let_def load_task_def)
qed

lemma keeps_slot_signal_none: "keeps_slot i x s \<Longrightarrow> keeps_slot i x (snd (snd (sched_signal_at pid signo code None s)))"
proof -
  assume s: "keeps_slot i x s"
  have "keeps_slot i x (upd_task (nat pid) (\<lambda>t. t\<lparr>pending := pending t OR sig_bit signo, exit_code := code\<rparr>) s)"
    by (rule keeps_slot_upd [OF s]) (simp add: stays_def paused_def)
  then show ?thesis using s by (simp add: sched_signal_at_def Let_def user_frame_def)
qed

lemma keeps_slot_account [simp]: "keeps_slot i x s \<Longrightarrow> keeps_slot i x (tick_account s)"
  unfolding tick_account_def by (auto intro!: keeps_slot_wakes keeps_slot_cur simp: stays_def paused_def)

lemma keeps_slot_irq [simp]: "keeps_slot i x s \<Longrightarrow> keeps_slot i x (irq_effect q s)"
  using keeps_slot_signal_none [of i x s "fg_slot s" SIGINT 0]
  by (cases q) (auto simp: irq_effect_def Let_def sched_signal_fg_def split: prod.splits)

lemma keeps_slot_idle: "keeps_slot i x s \<Longrightarrow> keeps_slot i x (snd (idle_loop qs s))"
  by (induction qs s rule: idle_loop.induct) (auto simp: Let_def split: option.splits)

lemma keeps_slot_block [simp]: "keeps_slot i x s \<Longrightarrow> keeps_slot i x (snd (block f s))"
  using keeps_slot_idle [of i x "s\<lparr>vm := vmm_set_cr3 vmm_boot_cr3 (vm s)\<rparr>" "irqs s"]
  by (auto simp: block_def idle_until_ready_def Let_def split: option.splits prod.splits)

lemma keeps_slot_exit [simp]: "keeps_slot i x s \<Longrightarrow> keeps_slot i x (snd (sched_exit fo s))"
  by (auto simp: sched_exit_def Let_def split: option.splits)

lemma keeps_slot_exit_pending [simp]: "keeps_slot i x s \<Longrightarrow> keeps_slot i x (snd (exit_pending f s))"
  unfolding exit_pending_def by (intro keeps_slot_exit keeps_slot_cur) (simp_all add: stays_def paused_def)

lemma keeps_slot_deliver [simp]: "keeps_slot i x s \<Longrightarrow> keeps_slot i x (snd (sched_deliver_pending fo s))"
proof -
  assume s: "keeps_slot i x s"
  have 1: "keeps_slot i x (upd_cur (\<lambda>t. t\<lparr>pending := pending t AND NOT b\<rparr>) s)" for b
    by (rule keeps_slot_cur [OF s]) (simp add: stays_def paused_def)
  have 2: "keeps_slot i x (upd_cur (set_sig_handler g 0) (upd_cur (\<lambda>t. t\<lparr>pending := pending t AND NOT b\<rparr>) s))" for b g
    by (rule keeps_slot_cur [OF 1]) (simp add: stays_def paused_def set_sig_handler_def)
  show ?thesis using s 1 2 by (auto simp: sched_deliver_pending_def Let_def split: prod.splits)
qed

lemma keeps_slot_switch: "i \<noteq> current s \<Longrightarrow> keeps_slot i x s \<Longrightarrow> keeps_slot i x (snd (switch_to_next fo s))"
  using keeps_slot_cur [of i x s "save_task (the fo)"] by (auto simp: switch_to_next_def load_task_def split: option.splits)

lemma keeps_slot_other: "i \<noteq> current s \<Longrightarrow> keeps_slot i s (upd_cur g (upd_cur f s))" "i \<noteq> current s \<Longrightarrow> keeps_slot i s (upd_cur f s)"
  by (intro keeps_slot_cur; simp add: upd_cur_def upd_task_def)+

lemma keeps_slot_blocking:
  assumes "i \<noteq> current s"
  shows "keeps_slot i s (snd (sched_block_pipe fo p s))" "keeps_slot i s (snd (sched_block_kbd fo s))" "keeps_slot i s (snd (sched_sleep fo n s))"
    "keeps_slot i s (snd (sched_wait fo s))" "keeps_slot i s (snd (sched_reset_current fo ip sp base s))" "keeps_slot i s (snd (sched_on_tick fo s))"
proof -
  note o = keeps_slot_other [OF assms]
  show "keeps_slot i s (snd (sched_block_pipe fo p s))" "keeps_slot i s (snd (sched_block_kbd fo s))"
    by (simp_all add: sched_block_pipe_def sched_block_kbd_def Let_def o)
  show "keeps_slot i s (snd (sched_sleep fo n s))"
    using keeps_slot_switch [OF assms, of s fo] by (simp add: sched_sleep_def sched_yield_def Let_def o split_beta)
  show "keeps_slot i s (snd (sched_wait fo s))"
    using keeps_slot_reap [of i s s] by (auto simp: sched_wait_def Let_def o split_beta split: option.splits)
  show "keeps_slot i s (snd (sched_reset_current fo ip sp base s))"
    by (auto simp: sched_reset_current_def load_task_def Let_def o split: option.splits)
  have "current (tick_account s) = current s" by (simp add: tick_account_def wake_sleepers_def map_tasks_def upd_cur_def upd_task_def)
  then show "keeps_slot i s (snd (sched_on_tick fo s))"
    using keeps_slot_switch [of i "tick_account s" s fo] assms by (simp add: sched_on_tick_def Let_def)
qed

section \<open>Descriptors and new tasks\<close>

lemma keeps_slot_fds [simp]:
  "keeps_slot i x s \<Longrightarrow> keeps_slot i x (copy_fd k j e s)" "keeps_slot i x s \<Longrightarrow> keeps_slot i x (snd (count_fd k j s))"
  "keeps_slot i x s \<Longrightarrow> keeps_slot i x (snd (alloc_pipe s))" "keeps_slot i x s \<Longrightarrow> keeps_slot i x (bind_console_std k s)"
  by (auto simp: copy_fd_def count_fd_def alloc_pipe_def bind_console_std_def Let_def stays_def paused_def split: option.splits prod.splits intro!: keeps_slot_upd)

lemma keeps_slot_inherit [simp]: "keeps_slot i x s \<Longrightarrow> keeps_slot i x (inherit_fds k j s)"
proof -
  have "keeps_slot i x s \<Longrightarrow> keeps_slot i x (fold (\<lambda>l s. let s1 = copy_fd k l (fd_at s j l) s in
      if fd_used (fd_at s1 k l) then snd (count_fd k l s1) else s1) ls s)" for ls
    by (induction ls arbitrary: s) (simp_all add: Let_def)
  then show "keeps_slot i x s \<Longrightarrow> ?thesis" by (simp add: inherit_fds_def)
qed

lemma take_slot_keeps:
  assumes "take_slot s = (Some k, s1)" "i < task_count s" "t_state (task_at s i) \<noteq> TASK_DEAD"
  shows "k \<noteq> i" "keeps_slot i s s1"
proof -
  have "k \<noteq> i \<and> keeps_slot i s s1"
  proof (cases "find (\<lambda>i. slot_reusable (task_at s i)) [0..<task_count s]")
    case (Some j)
    then have "slot_reusable (task_at s j)" by (auto simp: find_Some_iff)
    then have j: "j \<noteq> i" using assms(3) by (auto simp: slot_reusable_def)
    have "keeps_slot i s (free_task_pml4 j (free_task_kstack j (free_task_user j s)))"
      using j by (simp add: free_task_pml4_def free_task_kstack_def Let_def keeps_slot_upd)
    then show ?thesis using assms(1) Some j by (auto simp: take_slot_def)
  qed (use assms(1,2) in \<open>auto simp: take_slot_def split: if_splits\<close>)
  then show "k \<noteq> i" "keeps_slot i s s1" by simp_all
qed

lemma take_slot_none: "take_slot s = (None, s1) \<Longrightarrow> s1 = s"
  by (auto simp: take_slot_def split: option.splits if_splits)

lemma keeps_slot_new:
  assumes "i < task_count s" "t_state (task_at s i) \<noteq> TASK_DEAD"
  shows "keeps_slot i s (snd (sched_fork fo ktop c s))" "keeps_slot i s (snd (sched_add_user wd pwd ip sp ktop row base c s))"
proof -
  have u: "keeps_slot i s (upd_task k f s1)" if "take_slot s = (Some k, s1)" for k f s1
    by (rule keeps_slot_upd [OF take_slot_keeps(2) [OF that assms]]) (use take_slot_keeps(1) [OF that assms] in simp)
  have t: "task_count s \<noteq> 0" using assms(1) by simp
  show "keeps_slot i s (snd (sched_fork fo ktop c s))"
    by (auto simp: sched_fork_def Let_def u dest: take_slot_none split: option.splits prod.splits)
  show "keeps_slot i s (snd (sched_add_user wd pwd ip sp ktop row base c s))"
    using t by (auto simp: sched_add_user_def Let_def u dest: take_slot_none split: option.splits prod.splits)
qed

section \<open>Steps\<close>

lemma step_keeps_slot:
  assumes "sched_step s s'" "i \<noteq> current s" "i < task_count s" "t_state (task_at s i) \<noteq> TASK_DEAD"
  shows "keeps_slot i s s'"
  using assms
proof (induction rule: sched_step.induct)
  case (tick s fo)
  have "keeps_slot i (s\<lparr>ticks := ticks s + 1\<rparr>) y = keeps_slot i s y" for y by (simp add: keeps_slot_def task_at_def)
  then show ?case using keeps_slot_blocking(6) [of i "s\<lparr>ticks := ticks s + 1\<rparr>" fo] tick by simp
next
  case (set_name s name)
  show ?case unfolding sched_set_name_def by (auto intro!: keeps_slot_upd simp: stays_def paused_def)
next
  case (fd_dup2 s oldfd newfd)
  then show ?case by (simp add: sched_fd_dup2_def Let_def split_beta)
next
  case (pipe s)
  obtain q x where a: "alloc_pipe s = (q, x)" by fastforce
  have "keeps_slot i s x" using keeps_slot_fds(3) [of i s s] a by simp
  then show ?case using a by (auto simp: sched_pipe_def Let_def split: option.splits prod.splits)
next
  case (bind_pipe s fd k p)
  then show ?case by (simp add: sched_fd_bind_pipe_def Let_def)
next
  case (kill s fo)
  then show ?case using keeps_slot_signal by (auto simp: sched_kill_def sched_kill_at_def split_beta split: option.splits)
next
  case (sigaction s fo)
  then show ?case by (auto simp: sched_sigaction_def Let_def keeps_slot_other split: option.splits)
qed (use keeps_slot_blocking keeps_slot_new keeps_slot_signal keeps_slot_switch keeps_slot_other in
  \<open>auto simp: sched_yield_def sched_fd_open_def sched_fd_close_def sched_fd_lseek_def sched_fd_bind_file_def sched_pipe_def sched_pipe_new_def
     sched_pipe_unused_def sched_pipe_read_def sched_pipe_write_def sched_set_current_cwd_def sched_set_current_pwd_def sched_set_brk_def
     sched_note_write_def sched_set_name_def sched_rename_current_def sched_note_fg_def sched_clear_fg_def Let_def
     split: option.splits prod.splits intro!: keeps_slot_upd\<close>)

text \<open>A run of the scheduler from the state \<open>s\<close> on, in which slot \<open>i\<close> does not run before the end and does not die.\<close>

inductive away :: "nat \<Rightarrow> sched \<Rightarrow> sched \<Rightarrow> bool" for i s where
  away_start: "away i s s"
| away_step: "away i s s1 \<Longrightarrow> current s1 \<noteq> i \<Longrightarrow> t_state (task_at s1 i) \<noteq> TASK_DEAD \<Longrightarrow> sched_step s1 s2 \<Longrightarrow> away i s s2"

lemma away_keeps:
  assumes "away i s s'" "sched_inv s" "i < task_count s" "paused (task_at s i)"
  shows "sched_inv s' \<and> i < task_count s' \<and> (t_state (task_at s' i) = TASK_DEAD \<or> paused (task_at s' i) \<and>
    ctx (task_at s' i) = ctx (task_at s i) \<and> cr3 (task_at s' i) = cr3 (task_at s i) \<and> kstack_top (task_at s' i) = kstack_top (task_at s i))"
  using assms
proof (induction rule: away.induct)
  case (away_step s1 s2)
  then have IH: "sched_inv s1" "i < task_count s1" "paused (task_at s1 i)" "ctx (task_at s1 i) = ctx (task_at s i)"
    "cr3 (task_at s1 i) = cr3 (task_at s i)" "kstack_top (task_at s1 i) = kstack_top (task_at s i)" by auto
  have "keeps_slot i s1 s2" by (rule step_keeps_slot [OF away_step.hyps(4)]) (use away_step.hyps IH in auto)
  moreover have "i < length (tasks s1)" using sched_invD(1,3) [OF IH(1)] IH(2) by simp
  ultimately show ?case using step_inv [OF away_step.hyps(4) IH(1)] IH by (auto simp: keeps_slot_def stays_def)
qed auto

section \<open>Frames\<close>

text \<open>
  The calls that may leave the running task, with the frame they were entered with and the one they
  return through. \<open>sched_kill\<close> is not one of them: it stores its result in the frame after the switch.
\<close>

inductive switches :: "interrupt_frame \<Rightarrow> sched \<Rightarrow> interrupt_frame \<Rightarrow> sched \<Rightarrow> bool" where
  sw_tick: "sched_on_tick (Some h) (s\<lparr>ticks := ticks s + 1\<rparr>) = (Some k, s') \<Longrightarrow> switches h s k s'"
| sw_yield: "sched_yield (Some h) s = (Some k, s') \<Longrightarrow> switches h s k s'"
| sw_sleep: "sched_sleep (Some h) n s = (Run (Some k), s') \<Longrightarrow> switches h s k s'"
| sw_wait: "sched_wait (Some h) s = (Run (Some k), s') \<Longrightarrow> switches h s k s'"
| sw_pipe: "sched_block_pipe (Some h) p s = (Run (Some k), s') \<Longrightarrow> switches h s k s'"
| sw_kbd: "sched_block_kbd (Some h) s = (Run (Some k), s') \<Longrightarrow> switches h s k s'"
| sw_exit: "sched_exit (Some h) s = (Run (Some k), s') \<Longrightarrow> switches h s k s'"
| sw_deliver: "sched_deliver_pending (Some h) s = (Run (Some k), s') \<Longrightarrow> switches h s k s'"
| sw_signal: "sched_signal_at pid signo code (Some h) s = (r, Some k, s') \<Longrightarrow> switches h s k s'"

definition loaded :: "interrupt_frame \<Rightarrow> interrupt_frame \<Rightarrow> sched \<Rightarrow> bool" where
  "loaded h k s \<longleftrightarrow> regs.truncate k = ctx (cur_task s) \<and> vector k = vector h \<and> error k = error h \<and>
     (\<exists>v. vm s = vmm_set_cr3 (cr3 (cur_task s)) v) \<and> tss_rsp0 s = kstack_top (cur_task s)"

lemma load_frame_loads: "regs.truncate (load_frame h t) = ctx t" "vector (load_frame h t) = vector h" "error (load_frame h t) = error h"
  by (simp_all add: load_frame_eq regs.defs interrupt_frame.defs)

lemma load_loaded: "loaded h (fst (load_task h n (set_current n s))) (snd (load_task h n (set_current n s)))"
  by (auto simp: loaded_def load_task_def set_current_def cur_task_def task_at_def load_frame_loads)

lemma dispatch_loaded: "dispatch h n s = (Run (Some k), s') \<Longrightarrow> loaded h k s'"
  using load_loaded [of h n s] by (auto simp: dispatch_def split: prod.splits)

lemma block_loaded: "block h s = (Run (Some k), s') \<Longrightarrow> loaded h k s'"
  by (auto simp: block_def idle_until_ready_def Let_def split: option.splits prod.splits dest: dispatch_loaded)

lemma loaded_rdi [simp]: "loaded (h\<lparr>rdi := a\<rparr>) = loaded h" by (simp add: loaded_def fun_eq_iff)

lemma exit_loaded: "sched_exit (Some h) s = (Run (Some k), s') \<Longrightarrow> loaded h k s'"
  by (auto simp: sched_exit_def Let_def split: option.splits dest: dispatch_loaded)

lemma deliver_loaded: "sched_deliver_pending (Some h) s = (Run (Some k), s') \<Longrightarrow> current s' \<noteq> current s \<Longrightarrow> loaded h k s'"
  using exit_loaded [of "h\<lparr>rdi := ucast c\<rparr>" _ k s' for c]
  by (auto simp: sched_deliver_pending_def exit_pending_def Let_def upd_cur_def upd_task_def split: if_splits prod.splits)

lemma switch_loaded: "switch_to_next (Some h) s = (Some k, s') \<Longrightarrow> current s' \<noteq> current s \<Longrightarrow> loaded h k s'"
  using load_loaded [of h _ "upd_cur (save_task h) s"] by (auto simp: switch_to_next_def split_beta split: option.splits if_splits)

lemma upd_cur_current [simp]: "current (upd_cur f s) = current s" by (simp add: upd_cur_def upd_task_def)

lemma switches_loaded:
  assumes "switches h s k s'" "current s' \<noteq> current s" "sched_inv s"
  shows "loaded h k s'"
  using assms
proof (induction rule: switches.induct)
  case (sw_tick h s k s')
  have c: "current (tick_account t) = current t" for t by (simp add: tick_account_def wake_sleepers_def map_tasks_def)
  then show ?case using sw_tick switch_loaded [of h "tick_account (s\<lparr>ticks := ticks s + 1\<rparr>)" k s'] by (auto simp: sched_on_tick_def Let_def split: if_splits)
next
  case (sw_signal pid signo code h s r k s')
  let ?u = "wake_blocked (nat pid) (upd_task (nat pid) (\<lambda>t. t\<lparr>pending := pending t OR sig_bit signo, exit_code := code\<rparr>) s)"
  have c: "current ?u = current s" by (simp add: wake_blocked_def upd_task_def)
  have "current (kill_task (nat pid) code s) = current s" if "live_slot s pid"
    by (rule kill_task_sel) (use that sw_signal sched_invD(3) [of s] in \<open>auto simp: live_slot_def\<close>)
  then show ?case using sw_signal c load_loaded [of h "nat pid" "upd_cur (save_task h) ?u"]
    by (auto simp: sched_signal_at_def Let_def split: if_splits prod.splits)
qed (auto simp: sched_yield_def sched_sleep_def sched_wait_def sched_block_pipe_def sched_block_kbd_def Let_def show_wait_status_def reap_child_def upd_task_def
    split: if_splits option.splits prod.splits dest: switch_loaded block_loaded deliver_loaded exit_loaded)

end
