(* ===== verification/Sched_Props.thy ===== *)
theory Sched_Props
  imports Sched_Demo Sched_Resume
begin

text \<open>
  What holds of the scheduler in every state that the kernel can reach, and what its operations
  achieve: reference counts and wake-ups of pipes, the byte stream through a pipe, fair choice of
  the next task, context switches, exit status, sleeping and signals.
\<close>

section \<open>Invariants\<close>

lemma holders_fds:
  "holders (ends s) k p = {(i, j). i < TASK_MAX \<and> j < FD_MAX \<and> fd_used (fd_at s i j) \<and> fd_kind (fd_at s i j) = k \<and>
     fd_pipe (fd_at s i j) = p}" if "is_pipe k"
  using that by (auto simp: holders_def ends_def fd_end_def split: if_splits)

lemma reachable_pipes: "reachable s \<Longrightarrow> pipes_inv (ends s) (pipes s) (waits s)"
  using reachable_inv by (simp add: sched_inv_def)

text \<open>
  C2. In every reachable state the two reference counts of a pipe in use are exactly the numbers of
  open read and write descriptors for it in the whole descriptor table, dead tasks included, and
  every open pipe descriptor refers to a pipe in use: no pipe is freed under a descriptor, none is
  kept by a lost count.
\<close>

theorem pipe_counts_exact:
  assumes "reachable s"
  shows "(\<forall>p. live_pipe s p \<longrightarrow>
      rrefs (pipe_at s p) = int (card {(i, j). i < TASK_MAX \<and> j < FD_MAX \<and> fd_used (fd_at s i j) \<and>
        fd_kind (fd_at s i j) = FD_KIND_PIPE_R \<and> fd_pipe (fd_at s i j) = p}) \<and>
      wrefs (pipe_at s p) = int (card {(i, j). i < TASK_MAX \<and> j < FD_MAX \<and> fd_used (fd_at s i j) \<and>
        fd_kind (fd_at s i j) = FD_KIND_PIPE_W \<and> fd_pipe (fd_at s i j) = p})) \<and>
    (\<forall>i < TASK_MAX. \<forall>j < FD_MAX. fd_used (fd_at s i j) \<and> is_pipe (fd_kind (fd_at s i j)) \<longrightarrow>
      live_pipe s (fd_pipe (fd_at s i j)))"
proof -
  have k: "is_pipe FD_KIND_PIPE_R" "is_pipe FD_KIND_PIPE_W" by (simp_all add: is_pipe_def)
  have "live_pipe s (fd_pipe (fd_at s i j))"
    if "i < TASK_MAX" "j < FD_MAX" "fd_used (fd_at s i j) \<and> is_pipe (fd_kind (fd_at s i j))" for i j
  proof -
    have "ends s i j = Some (fd_kind (fd_at s i j), fd_pipe (fd_at s i j))" using that(3) by (simp add: ends_def fd_end_def)
    then show ?thesis using reachable_pipes [OF assms] that(1,2) unfolding pipes_inv_def live_pipe_live by blast
  qed
  then show ?thesis
    using reachable_pipes [OF assms]
    unfolding pipes_inv_def live_pipe_live pipe_at_def holders_fds [OF k(1)] holders_fds [OF k(2)] by blast
qed

lemma blocked_pipe: "live_pipe blocked 0" "pipe_at blocked 0 = pipe1"
  by (simp_all add: live_pipe_def valid_pipe_def PIPE_MAX_def pipe_at_def blocked_sel pipe1_def)

theorem pipe_counts_exact_witness:
  "reachable blocked \<and> live_pipe blocked 0 \<and>
   card {(i, j). i < TASK_MAX \<and> j < FD_MAX \<and> fd_used (fd_at blocked i j) \<and>
     fd_kind (fd_at blocked i j) = FD_KIND_PIPE_R \<and> fd_pipe (fd_at blocked i j) = 0} = 1"
proof -
  have "rrefs (pipe_at blocked 0) = 1" by (simp add: blocked_pipe pipe1_def)
  with pipe_counts_exact [OF reachable_blocked, THEN conjunct1, THEN spec, THEN mp, OF blocked_pipe(1), THEN conjunct1]
  show ?thesis using reachable_blocked blocked_pipe(1) by linarith
qed

text \<open>
  C3. No wake-up is lost: in every reachable state a task that is blocked on a pipe waits for a pipe
  in use that is empty while a write end is open, or full while a read end is open. Every transfer
  and every close that ends such a condition has made the task ready.
\<close>

theorem no_lost_wakeup:
  assumes "reachable s" "i < TASK_MAX" "t_state (task_at s i) = TASK_PIPE"
  defines "p \<equiv> pipe_wait (task_at s i)"
  shows "i < task_count s \<and> live_pipe s p \<and>
    ((p_len (pipe_at s p) = 0 \<and> wrefs (pipe_at s p) > 0) \<or> (p_len (pipe_at s p) = PIPE_CAP \<and> rrefs (pipe_at s p) > 0))"
proof -
  have w: "waits s i = Some p" using assms(3) by (simp add: waits_def wait_of_def p_def)
  then have l: "live_pipe s p" "stuck (pipe_at s p)"
    using reachable_pipes [OF assms(1)] assms(2) unfolding pipes_inv_def live_pipe_live pipe_at_def by blast+
  then have "0 \<le> rrefs (pipe_at s p)" "0 \<le> wrefs (pipe_at s p)"
    using reachable_pipes [OF assms(1)] unfolding pipes_inv_def live_pipe_live pipe_at_def by auto
  moreover have "i < task_count s" using w sched_invD(6) [OF reachable_inv [OF assms(1)] assms(2)] by (cases "i < task_count s") auto
  ultimately show ?thesis using l by (auto simp: stuck_def)
qed

theorem no_lost_wakeup_witness:
  "reachable blocked \<and> t_state (task_at blocked 0) = TASK_PIPE \<and> p_len (pipe_at blocked 0) = 0 \<and> wrefs (pipe_at blocked 0) > 0"
proof -
  have t: "t_state (task_at blocked 0) = TASK_PIPE" "pipe_wait (task_at blocked 0) = 0" by (simp_all add: task_at_def blocked_sel)
  have "\<not> p_len (pipe_at blocked 0) = PIPE_CAP" by (simp add: blocked_pipe pipe1_def PIPE_CAP_def)
  then show ?thesis using no_lost_wakeup [OF reachable_blocked _ t(1)] t reachable_blocked by (simp add: TASK_MAX_def)
qed

text \<open>
  C37. The tables stay well-formed: the task array and every task's descriptor array keep their sizes,
  the slot count is within the array, the running slot is one of the slots, and a pipe in use has a
  page of 4096 bytes, a head inside it and no more bytes than fit.
\<close>

theorem tables_well_formed:
  assumes "reachable s"
  shows "length (tasks s) = TASK_MAX \<and> (\<forall>i < TASK_MAX. length (fds (task_at s i)) = FD_MAX) \<and> length (pipes s) = PIPE_MAX \<and>
    task_count s \<le> TASK_MAX \<and> (task_count s \<noteq> 0 \<longrightarrow> current s < task_count s) \<and>
    (\<forall>p. live_pipe s p \<longrightarrow> p_head (pipe_at s p) < PIPE_CAP \<and> p_len (pipe_at s p) \<le> PIPE_CAP \<and>
       (\<exists>buf. p_data (pipe_at s p) = Some buf \<and> length buf = 4096))"
proof -
  note D = sched_invD [OF reachable_inv [OF assms]]
  have "ring_ok (pipe_at s p)" if "live_pipe s p" for p by (rule live_ring [OF reachable_inv [OF assms] that])
  then show ?thesis using D unfolding ring_ok_def by blast
qed

theorem tables_well_formed_witness:
  "reachable blocked \<and> current blocked < task_count blocked \<and> (\<exists>buf. p_data (pipe_at blocked 0) = Some buf \<and> length buf = 4096)"
  using tables_well_formed [OF reachable_blocked] reachable_blocked blocked_pipe(1) by (auto simp: blocked_sel)

section \<open>Pipes\<close>

lemma pipe_at_wake_upd:
  assumes "sched_inv s" "live_pipe s p" "valid_pipe r"
  shows "pipe_at (wake_pipe_waiters p (upd_pipe p (\<lambda>_. q) s)) r = (if r = p then q else pipe_at s r)"
  using assms sched_invD(5) [OF assms(1)] nth_pipe_upd [of "pipes s" p r q]
  by (simp add: pipe_at_def live_pipe_def)

lemma no_waiters:
  assumes "sched_inv s" "i < TASK_MAX"
  shows "waits (wake_pipe_waiters p (upd_pipe p f s)) i \<noteq> Some p"
  using waits_wake [of "upd_pipe p f s" i p] assms by (simp add: sched_inv_def woken_def)

lemma fd_pipe_cur: "is_pipe (sched_fd_kind fd s) \<Longrightarrow> sched_fd_pipe fd s = fd_pipe (cur_fd s fd)"
  by (auto simp: sched_fd_kind_def sched_fd_pipe_def Let_def is_pipe_def split: if_splits)

lemma cur_fd_live:
  assumes inv: "sched_inv s" and k: "is_pipe (sched_fd_kind fd s)"
  shows "live_pipe s (sched_fd_pipe fd s)"
proof -
  have u: "task_count s \<noteq> 0" "valid_fd fd" "fd_used (cur_fd s fd)" "is_pipe (fd_kind (cur_fd s fd))"
    using k by (auto simp: sched_fd_kind_def is_pipe_def split: if_splits)
  then have "ends s (current s) (nat fd) = Some (fd_kind (cur_fd s fd), fd_pipe (cur_fd s fd))"
    by (simp add: ends_def fd_end_def cur_fd_def)
  then have "live (pipes s) (fd_pipe (cur_fd s fd))"
    using inv sched_invD(4) [OF inv] valid_fd_nat [OF u(2)] unfolding sched_inv_def pipes_inv_def by blast
  then show ?thesis using fd_pipe_cur [OF k] by (simp add: live_pipe_live)
qed

text \<open>What a transfer leaves behind: the pipe as \<open>q\<close>, nobody waiting for it, the other pipes as they were.\<close>

definition transferred :: "int \<Rightarrow> sched \<Rightarrow> sched \<Rightarrow> bool" where
  "transferred p s s' \<longleftrightarrow> (\<forall>i < TASK_MAX. waits s' i \<noteq> Some p) \<and>
     (\<forall>q. valid_pipe q \<and> q \<noteq> p \<longrightarrow> pipe_at s' q = pipe_at s q)"

lemma transfer_done:
  assumes inv: "sched_inv s" and lp: "live_pipe s p"
  shows "transferred p s (wake_pipe_waiters p (upd_pipe p (\<lambda>_. q) s))"
    "pipe_at (wake_pipe_waiters p (upd_pipe p (\<lambda>_. q) s)) p = q"
  using no_waiters [OF inv] pipe_at_wake_upd [OF inv lp] lp by (auto simp: transferred_def live_pipe_def)

lemma cur_ring:
  assumes inv: "sched_inv s" and k: "is_pipe (sched_fd_kind fd s)"
  obtains buf where "live_pipe s (sched_fd_pipe fd s)" "ring_ok (pipe_at s (sched_fd_pipe fd s))"
    "p_data (pipe_at s (sched_fd_pipe fd s)) = Some buf" "sched_fd_pipe fd s = fd_pipe (cur_fd s fd)"
  using cur_fd_live [OF inv k] live_ring [OF inv] fd_pipe_cur [OF k] unfolding ring_ok_def by blast

lemma empty_bytes: "bytes_of p = [] \<longleftrightarrow> p_len p = 0"
  by (metis bytes_of_length length_0_conv unat_eq_0)

lemma pipe_read_effect:
  fixes fd :: int and s :: sched
  defines "p \<equiv> sched_fd_pipe fd s"
  assumes inv: "sched_inv s" and n: "n \<noteq> 0" and k: "sched_fd_kind fd s = FD_KIND_PIPE_R"
    and run: "sched_pipe_read fd True n s = (r, s')"
  shows "if bytes_of (pipe_at s p) = [] then s' = s \<and> r = (if wrefs (pipe_at s p) = 0 then Bytes [] else Block)
     else r = Bytes (take (unat n) (bytes_of (pipe_at s p))) \<and>
       bytes_of (pipe_at s' p) = drop (unat n) (bytes_of (pipe_at s p)) \<and> transferred p s s'"
proof -
  have pk: "is_pipe (sched_fd_kind fd s)" using k by (simp add: is_pipe_def)
  obtain buf where C: "live_pipe s p" "ring_ok (pipe_at s p)" "p_data (pipe_at s p) = Some buf" "p = fd_pipe (cur_fd s fd)"
    using cur_ring [OF inv pk] unfolding p_def by blast
  obtain out q where t: "ring_take n buf (pipe_at s p) = (out, q)" by fastforce
  have "sched_pipe_read fd True n s = (if p_len (pipe_at s p) = 0 then (if wrefs (pipe_at s p) = 0 then Bytes [] else Block, s)
      else (Bytes out, wake_pipe_waiters p (upd_pipe p (\<lambda>_. q) s)))"
    using n k C t by (simp add: sched_pipe_read_def Let_def)
  then show ?thesis using run ring_take_spec [OF C(2), of n out q] t C(3) transfer_done [OF inv C(1), of q]
    unfolding empty_bytes by (auto split: if_splits)
qed

lemma pipe_write_effect:
  fixes fd :: int and s :: sched
  defines "p \<equiv> sched_fd_pipe fd s"
  assumes inv: "sched_inv s" and n: "n \<noteq> 0" "unat n \<le> length src" and k: "sched_fd_kind fd s = FD_KIND_PIPE_W"
    and run: "sched_pipe_write fd (Some src) n s = (w, s')"
  shows "if rrefs (pipe_at s p) = 0 then s' = s \<and> w = WErr
     else if length (bytes_of (pipe_at s p)) = 4096 then s' = s \<and> w = WBlock
     else \<exists>k. w = Took k \<and> unat k = min (unat n) (4096 - length (bytes_of (pipe_at s p))) \<and>
       bytes_of (pipe_at s' p) = bytes_of (pipe_at s p) @ take (unat k) src \<and> transferred p s s'"
proof -
  have pk: "is_pipe (sched_fd_kind fd s)" using k by (simp add: is_pipe_def)
  obtain buf where C: "live_pipe s p" "ring_ok (pipe_at s p)" "p_data (pipe_at s p) = Some buf" "p = fd_pipe (cur_fd s fd)"
    using cur_ring [OF inv pk] unfolding p_def by blast
  obtain got q where t: "ring_put src n buf (pipe_at s p) = (got, q)" by fastforce
  have e: "length (bytes_of (pipe_at s p)) = 4096 \<longleftrightarrow> PIPE_CAP \<le> p_len (pipe_at s p)"
    using ring_ok_nat [OF C(2)] by (auto simp: word_le_nat_alt cap_nat)
  have "sched_pipe_write fd (Some src) n s = (if rrefs (pipe_at s p) = 0 then (WErr, s)
      else if PIPE_CAP \<le> p_len (pipe_at s p) then (WBlock, s) else (Took got, wake_pipe_waiters p (upd_pipe p (\<lambda>_. q) s)))"
    using n k C t by (simp add: sched_pipe_write_def Let_def)
  then show ?thesis using run ring_put_spec [OF C(2) _ n(2), of got q] t C(3) transfer_done [OF inv C(1), of q]
    unfolding e by (auto split: if_splits)
qed

text \<open>
  C15. Transfers through the running task's pipe descriptors, on every branch. A read of an empty pipe
  returns end of file when no writer is left and asks to block otherwise, changing nothing; else it
  takes the oldest bytes, at most as many as asked for. A write fails when no reader is left, asks
  to block when the pipe is full, and else appends the longest prefix that fits. After a transfer no
  task waits for the pipe, and no other pipe changed.
\<close>

theorem pipe_transfer:
  assumes "reachable s" "n \<noteq> 0"
  shows "let p = sched_fd_pipe fd s; b = bytes_of (pipe_at s p) in
    (sched_fd_kind fd s = FD_KIND_PIPE_R \<and> sched_pipe_read fd True n s = (r, s') \<longrightarrow>
      (if b = [] then s' = s \<and> r = (if wrefs (pipe_at s p) = 0 then Bytes [] else Block)
       else r = Bytes (take (unat n) b) \<and> bytes_of (pipe_at s' p) = drop (unat n) b \<and> transferred p s s')) \<and>
    (sched_fd_kind fd s = FD_KIND_PIPE_W \<and> unat n \<le> length src \<and> sched_pipe_write fd (Some src) n s = (w, s') \<longrightarrow>
      (if rrefs (pipe_at s p) = 0 then s' = s \<and> w = WErr
       else if length b = 4096 then s' = s \<and> w = WBlock
       else \<exists>k. w = Took k \<and> unat k = min (unat n) (4096 - length b) \<and>
         bytes_of (pipe_at s' p) = b @ take (unat k) src \<and> transferred p s s'))"
  unfolding Let_def using pipe_read_effect [OF reachable_inv [OF assms(1)] assms(2), of fd r s']
    pipe_write_effect [OF reachable_inv [OF assms(1)] assms(2), of src fd w s'] by blast

theorem pipe_transfer_witness:
  "\<exists>s'. sched_pipe_write 4 (Some [7, 8, 9]) 3 two_ends = (Took 3, s') \<and> bytes_of (pipe_at s' 0) = [7, 8, 9]"
proof -
  obtain w s' where run: "sched_pipe_write 4 (Some [7, 8, 9]) 3 two_ends = (w, s')" by fastforce
  have k: "sched_fd_kind 4 two_ends = FD_KIND_PIPE_W" "sched_fd_pipe 4 two_ends = 0" "pipe_at two_ends 0 = pipe1"
    by (simp_all add: sched_fd_kind_def sched_fd_pipe_def two_ends_sel valid_fd_def FD_MAX_def cur_fd_def fd_at_def
      pipe_task_sel pipe_fd_def pipe_at_def Let_def is_pipe_def)
  have b: "bytes_of pipe1 = []" "rrefs pipe1 = 1" by (simp_all add: bytes_of_def pipe1_def)
  have "\<exists>k. w = Took k \<and> unat k = 3 \<and> bytes_of (pipe_at s' 0) = take (unat k) [7, 8, 9]"
    using pipe_transfer [OF reachable_two_ends, of 3 4 _ s' "[7, 8, 9]" w] run k b by auto
  then obtain k where K: "w = Took k" "unat k = 3" "bytes_of (pipe_at s' 0) = take (unat k) [7, 8, 9]" by blast
  then have "k = 3" by (simp add: word_unat_eq_iff)
  then show ?thesis using run K by simp
qed

text \<open>
  C36. A pipe is a bounded FIFO queue of bytes: over any history of transfers, whatever the sizes and
  wherever the ring wraps around, the bytes that were in the pipe followed by the bytes accepted are
  the bytes delivered followed by the bytes still in it.
\<close>

theorem pipe_is_fifo:
  assumes "ring_ok p" "run_io pipe_put pipe_get ops p = (accepted, delivered, p')"
  shows "ring_ok p' \<and> bytes_of p @ accepted = delivered @ bytes_of p' \<and> length (bytes_of p') \<le> 4096"
  using ring.stream [OF assms] ring.room by blast

theorem pipe_is_fifo_witness:
  "\<exists>a out p'. run_io pipe_put pipe_get [Put [1, 2, 3], Get 2, Put [4], Get 9] pipe1 = (a, out, p') \<and> a = out @ bytes_of p'"
proof -
  obtain a out p' where r: "run_io pipe_put pipe_get [Put [1, 2, 3], Get 2, Put [4], Get 9] pipe1 = (a, out, p')"
    by (metis prod_cases3)
  have "ring_ok pipe1" "bytes_of pipe1 = []" by (simp_all add: ring_ok_def bytes_of_def pipe1_def PIPE_CAP_def)
  then show ?thesis using pipe_is_fifo [OF _ r] r by simp
qed

section \<open>Choosing the next task\<close>

text \<open>The distance from slot \<open>c\<close> to slot \<open>i\<close> around the table.\<close>

definition ahead :: "nat \<Rightarrow> nat \<Rightarrow> nat \<Rightarrow> nat" where
  "ahead n c i = (if c < i then i - c else n + i - c)"

lemma ahead_pos: "c < n \<Longrightarrow> i < n \<Longrightarrow> 1 \<le> ahead n c i \<and> ahead n c i \<le> n \<and> (c + ahead n c i) mod n = i"
  by (auto simp: ahead_def)

lemma ahead_add:
  assumes "c < n" "i < n" "1 \<le> k" "k < ahead n c i"
  shows "ahead n ((c + k) mod n) i = ahead n c i - k"
proof (cases "c + k < n")
  case True
  then show ?thesis using assms by (auto simp: ahead_def split: if_splits)
next
  case False
  then have "(c + k) mod n = c + k - n" using assms by (auto simp: ahead_def le_mod_geq split: if_splits)
  then show ?thesis using assms False by (auto simp: ahead_def split: if_splits)
qed

lemma find_upt_first: "find P (map f [1..<n + 1]) = Some x \<Longrightarrow> \<exists>k. 1 \<le> k \<and> k \<le> n \<and> x = f k \<and> P x \<and> (\<forall>j. 1 \<le> j \<and> j < k \<longrightarrow> \<not> P (f j))"
proof -
  assume "find P (map f [1..<n + 1]) = Some x"
  then obtain i where i: "i < n" "P (f (Suc i))" "x = f (Suc i)" "\<forall>j < i. \<not> P (f (Suc j))"
    by (auto simp: find_Some_iff simp del: upt_Suc)
  have "\<not> P (f j)" if "1 \<le> j" "j < Suc i" for j using i(4) that by (cases j) auto
  then show ?thesis using i by (intro exI [of _ "Suc i"]) auto
qed

lemma pick_next_spec:
  assumes c: "c < task_count s" and i: "i < task_count s" "t_state (task_at s i) = TASK_READY"
  obtains n where "pick_next c s = Some n" "n < task_count s" "t_state (task_at s n) = TASK_READY"
    "n = i \<or> ahead (task_count s) n i < ahead (task_count s) c i"
proof -
  let ?P = "\<lambda>idx. t_state (task_at s idx) = TASK_READY" and ?f = "\<lambda>i. (c + i) mod task_count s" and ?a = "ahead (task_count s) c i"
  note A = ahead_pos [OF c i(1)]
  have "find ?P (map ?f [1..<task_count s + 1]) \<noteq> None"
    unfolding find_None_iff using A i(2) by (auto simp: image_iff simp del: upt_Suc intro!: bexI [of _ ?a] exI [of _ i])
  then obtain n where n: "pick_next c s = Some n" by (auto simp: pick_next_def)
  then obtain k where k: "1 \<le> k" "n = ?f k" "\<forall>j. 1 \<le> j \<and> j < k \<longrightarrow> \<not> ?P (?f j)"
    using find_upt_first [of ?P ?f "task_count s" n] by (auto simp: pick_next_def)
  have "\<not> ?a < k" using k(3) A i(2) by auto
  then have "n = i \<or> ahead (task_count s) n i < ?a"
    using ahead_add [OF c i(1) k(1)] A k(1,2) by (cases "k = ?a") auto
  then show thesis using that n pick_next_ready [OF n] by blast
qed

text \<open>Timer interrupts that arrive one after the other, each with the frame of the task it interrupts.\<close>

fun run_ticks :: "interrupt_frame list \<Rightarrow> sched \<Rightarrow> sched" where
  "run_ticks [] s = s"
| "run_ticks (f # fs) s = run_ticks fs (snd (sched_on_tick (Some f) (s\<lparr>ticks := ticks s + 1\<rparr>)))"

lemma tick_account_keeps:
  assumes "sched_inv s" "i < TASK_MAX"
  shows "t_state (task_at s i) = TASK_READY \<Longrightarrow> t_state (task_at (tick_account s) i) = TASK_READY"
    "current (tick_account s) = current s" "task_count (tick_account s) = task_count s"
proof -
  have l: "length (tasks s) = TASK_MAX" "task_count s \<le> TASK_MAX" "current s < TASK_MAX" using sched_invD(1,3,4) [OF assms(1)] by auto
  show "t_state (task_at s i) = TASK_READY \<Longrightarrow> t_state (task_at (tick_account s) i) = TASK_READY"
    using l assms(2) by (auto simp: tick_account_def wake_sleepers_def upd_cur_def task_at_map task_at_upd)
  show "current (tick_account s) = current s" "task_count (tick_account s) = task_count s"
    by (simp_all add: tick_account_def wake_sleepers_def)
qed

lemma task_at_set_current [simp]: "task_at (set_current n s) i = task_at s i" "current (set_current n s) = n"
    "task_count (set_current n s) = task_count s" "task_at (s\<lparr>vm := v\<rparr>) i = task_at s i"
  by (simp_all add: set_current_def task_at_def)

lemma switch_spec:
  assumes "sched_inv s" "pick_next (current s) s = Some n"
  shows "current (snd (switch_to_next (Some f) s)) = n" "task_count (snd (switch_to_next (Some f) s)) = task_count s"
    "t_state (task_at (snd (switch_to_next (Some f) s)) i) = t_state (task_at s i)"
  using assms(2) sched_invD(1,4) [OF assms(1)]
  by (simp_all add: switch_to_next_def load_task_def upd_cur_def task_at_upd save_task_eq)

lemma tick_step:
  assumes inv: "sched_inv s" and i: "i < task_count s" "t_state (task_at s i) = TASK_READY" and f: "user_frame (Some f)"
  defines "s' \<equiv> snd (sched_on_tick (Some f) (s\<lparr>ticks := ticks s + 1\<rparr>))"
  shows "sched_inv s'" "task_count s' = task_count s" "t_state (task_at s' i) = TASK_READY"
    "current s' = i \<or> ahead (task_count s) (current s') i < ahead (task_count s) (current s) i"
proof -
  let ?s = "s\<lparr>ticks := ticks s + 1\<rparr>"
  let ?t = "tick_account ?s"
  have inv': "sched_inv ?s" using inv by simp
  have im: "i < TASK_MAX" using i sched_invD(3) [OF inv] by simp
  have eq: "task_at ?s i = task_at s i" by (simp add: task_at_def)
  note T = tick_account_keeps [OF inv' im]
  have ti: "sched_inv ?t" by (rule tick_account_inv [OF inv'])
  have r: "i < task_count ?t" "t_state (task_at ?t i) = TASK_READY" "current ?t < task_count ?t"
    using T i eq sched_invD(7) [OF inv] by auto
  obtain n where n: "pick_next (current ?t) ?t = Some n" "n = i \<or> ahead (task_count ?t) n i < ahead (task_count ?t) (current ?t) i"
    using pick_next_spec [OF r(3) r(1,2)] by metis
  have e: "s' = snd (switch_to_next (Some f) ?t)" using f by (simp add: s'_def sched_on_tick_def Let_def)
  note S = switch_spec [OF ti n(1), of f]
  show "sched_inv s'" unfolding s'_def by (rule on_tick_inv [OF inv'])
  show "task_count s' = task_count s" "t_state (task_at s' i) = TASK_READY"
    "current s' = i \<or> ahead (task_count s) (current s') i < ahead (task_count s) (current s) i"
    using S n r T by (auto simp: e)
qed

text \<open>
  C12. Bounded waiting: under timer interrupts from user mode a ready task runs after at most as many
  ticks as there are slots, whatever the other tasks are.
\<close>

theorem ready_task_runs:
  assumes "reachable s" "i < task_count s" "t_state (task_at s i) = TASK_READY"
    and "\<forall>f \<in> set fs. user_frame (Some f)" "task_count s \<le> length fs"
  shows "\<exists>k \<le> task_count s. current (run_ticks (take k fs) s) = i"
proof -
  have "\<exists>k \<le> ahead (task_count s) (current s) i. current (run_ticks (take k fs) s) = i"
    if "sched_inv s" "i < task_count s" "t_state (task_at s i) = TASK_READY" "\<forall>f \<in> set fs. user_frame (Some f)"
      "ahead (task_count s) (current s) i \<le> length fs" for s fs
    using that
  proof (induction fs arbitrary: s)
    case Nil
    then show ?case using ahead_pos [of "current s" "task_count s" i] sched_invD(7) [OF Nil(1)] by auto
  next
    case (Cons f fs)
    let ?s = "snd (sched_on_tick (Some f) (s\<lparr>ticks := ticks s + 1\<rparr>))"
    note T = tick_step [OF Cons.prems(1-3), of f]
    have a: "1 \<le> ahead (task_count s) (current s) i"
      using ahead_pos [of "current s" "task_count s" i] sched_invD(7) [OF Cons.prems(1)] Cons.prems(2) by auto
    show ?case
    proof (cases "current ?s = i")
      case True
      then show ?thesis using a by (intro exI [of _ 1]) simp
    next
      case False
      then have l: "ahead (task_count ?s) (current ?s) i < ahead (task_count s) (current s) i" using T Cons.prems(4) by simp
      obtain k where "k \<le> ahead (task_count ?s) (current ?s) i" "current (run_ticks (take k fs) ?s) = i"
        using Cons.IH [of ?s] T Cons.prems l by auto
      then show ?thesis using l by (intro exI [of _ "Suc k"]) simp
    qed
  qed
  note runs = this [OF reachable_inv [OF assms(1)] assms(2-4)]
  have "ahead (task_count s) (current s) i \<le> task_count s"
    using ahead_pos [of "current s" "task_count s" i] sched_invD(7) [OF reachable_inv [OF assms(1)]] assms(2) by auto
  then show ?thesis using runs assms(5) by (meson le_trans)
qed

lemma user_frame0: "user_frame (Some frame0)"
  by (simp add: user_frame_def frame0_def user_regs_def USER_CS_def regs.extend_def interrupt_frame.fields_def)

theorem ready_task_runs_witness:
  "t_state (task_at two_tasks 1) = TASK_READY \<and> current two_tasks = 0 \<and>
   (\<exists>k \<le> 2. current (run_ticks (take k [frame0, frame0]) two_tasks) = 1)"
proof -
  have r: "t_state (task_at two_tasks 1) = TASK_READY" "1 < task_count two_tasks"
    by (simp_all add: task_at_def two_tasks_sel user_task2_def user_task_def)
  show ?thesis using ready_task_runs [OF reachable_two_tasks r(2,1), of "[frame0, frame0]"] user_frame0 r
    by (simp add: two_tasks_sel)
qed

section \<open>Context switches\<close>

text \<open>
  C26. A context switch keeps every register of both tasks. When a tick or a yield leaves the running
  task, its slot holds exactly the interrupted registers, the frame now holds exactly the registers
  stored for the new task, with the vector and error code of the interrupt, the page tables and the
  kernel stack are the new task's, and every other task is untouched. Whatever the scheduler does then,
  over any number of steps in which the first task does not run and does not die: the call that makes
  it run again, be it a tick, a yield, a blocking call, an exit or a signal, returns through a frame
  with exactly the registers it was interrupted with, on its page tables and its kernel stack.
\<close>

theorem context_switch:
  assumes "reachable s" "switch_to_next (Some f) s = (Some g, s')" "current s' \<noteq> current s"
  shows "ctx (task_at s' (current s)) = regs.truncate f \<and> regs.truncate g = ctx (task_at s (current s')) \<and>
    vector g = vector f \<and> error g = error f \<and> vm s' = vmm_set_cr3 (cr3 (task_at s (current s'))) (vm s) \<and>
    tss_rsp0 s' = kstack_top (task_at s (current s')) \<and> t_state (task_at s (current s')) = TASK_READY \<and>
    (\<forall>i. i \<noteq> current s \<longrightarrow> task_at s' i = task_at s i) \<and>
    (\<forall>s2 h k s3. t_state (cur_task s) = TASK_READY \<and> away (current s) s' s2 \<and> current s2 \<noteq> current s \<and> sched_step s2 s3 \<and>
       switches h s2 k s3 \<and> current s3 = current s \<and> t_state (task_at s2 (current s)) \<noteq> TASK_DEAD \<and> t_state (cur_task s3) \<noteq> TASK_DEAD \<longrightarrow>
       regs.truncate k = regs.truncate f \<and> vector k = vector h \<and> error k = error h \<and>
       (\<exists>v. vm s3 = vmm_set_cr3 (cr3 (cur_task s)) v) \<and> tss_rsp0 s3 = kstack_top (cur_task s))"
proof -
  have inv: "sched_inv s" by (rule reachable_inv [OF assms(1)])
  have l: "current s < length (tasks s)" using sched_invD(1,4) [OF inv] by simp
  obtain n where n: "pick_next (current s) s = Some n" "n \<noteq> current s"
    using assms(2,3) by (auto simp: switch_to_next_def split: option.splits if_splits)
  have s': "s' = (set_current n (upd_cur (save_task f) s))\<lparr>vm := vmm_set_cr3 (cr3 (task_at s n)) (vm s)\<rparr>"
    "g = load_frame f (task_at s n)"
    using assms(2) n l
    by (simp_all add: switch_to_next_def load_task_def upd_cur_def task_at_upd) (auto simp: set_current_def)
  have t: "task_at s' (current s) = (cur_task s)\<lparr>ctx := regs.truncate f\<rparr>" "task_count s' = task_count s"
    using l by (simp_all add: s' upd_cur_def task_at_upd save_task_eq cur_task_def)
  have inv': "sched_inv s'" using switch_to_next_inv [OF inv, of "Some f"] assms(2) by simp
  have "regs.truncate k = regs.truncate f \<and> vector k = vector h \<and> error k = error h \<and>
       (\<exists>v. vm s3 = vmm_set_cr3 (cr3 (cur_task s)) v) \<and> tss_rsp0 s3 = kstack_top (cur_task s)"
    if a: "t_state (cur_task s) = TASK_READY" "away (current s) s' s2" "current s2 \<noteq> current s" "sched_step s2 s3" "switches h s2 k s3"
      "current s3 = current s" "t_state (task_at s2 (current s)) \<noteq> TASK_DEAD" "t_state (cur_task s3) \<noteq> TASK_DEAD" for s2 h k s3
  proof -
    have i: "current s < task_count s'" using n pick_next_ready [OF n(1)] sched_invD(7) [OF inv] by (auto simp: t)
    have p: "paused (task_at s' (current s))" using a(1) by (simp add: t paused_def)
    have "away (current s) s' s3" by (rule away_step [OF a(2,3,7,4)])
    note A = away_keeps [OF this inv' i p] and inv2 = away_keeps [OF a(2) inv' i p, THEN conjunct1]
    have "ctx (cur_task s3) = regs.truncate f" "cr3 (cur_task s3) = cr3 (cur_task s)" "kstack_top (cur_task s3) = kstack_top (cur_task s)"
      using A a(6,8) t by (auto simp: cur_task_def)
    then show ?thesis using switches_loaded [OF a(5) _ inv2] a(3,6) unfolding loaded_def by auto
  qed
  moreover have "ctx (task_at s' (current s)) = regs.truncate f \<and> regs.truncate g = ctx (task_at s (current s')) \<and>
    vector g = vector f \<and> error g = error f \<and> vm s' = vmm_set_cr3 (cr3 (task_at s (current s'))) (vm s) \<and>
    tss_rsp0 s' = kstack_top (task_at s (current s')) \<and> t_state (task_at s (current s')) = TASK_READY \<and>
    (\<forall>i. i \<noteq> current s \<longrightarrow> task_at s' i = task_at s i)"
    using n pick_next_ready [OF n(1)] l
    by (simp add: s' load_frame_loads upd_cur_def task_at_upd save_task_eq) (simp add: set_current_def task_at_upd)
  ultimately show ?thesis by blast
qed

text \<open>The second task changes its registers and yields.\<close>

definition frame1 :: interrupt_frame where "frame1 = frame0\<lparr>rax := 24, rbx := 7, rip := 0x400123\<rparr>"

theorem context_switch_witness:
  "\<exists>g s' k s3. switch_to_next (Some frame0) two_tasks = (Some g, s') \<and> regs.truncate g = ctx user_task2 \<and>
     sched_yield (Some frame1) s' = (Some k, s3) \<and> regs.truncate k = regs.truncate frame0 \<and> rbx k \<noteq> rbx frame1 \<and> current s3 = 0"
proof -
  have st: "t_state user_task2 = TASK_READY" "t_state user_task = TASK_READY" by (simp_all add: user_task2_def user_task_def)
  have p: "pick_next (current two_tasks) two_tasks = Some 1"
    by (simp add: pick_next_def two_tasks_sel task_at_def st upt_rec)
  obtain g s' where r: "switch_to_next (Some frame0) two_tasks = (Some g, s')" "current s' = 1" "task_count s' = 2"
    "tasks s' = (tasks two_tasks)[0 := user_task\<lparr>ctx := regs.truncate frame0\<rparr>]"
    using p by (simp add: switch_to_next_def two_tasks_sel load_task_def upd_cur_def upd_task_def save_task_eq) (simp add: set_current_def)
  have "pick_next (current s') s' = Some 0"
    by (simp add: pick_next_def r task_at_def st upt_rec two_tasks_sel)
  then obtain k s3 where y: "sched_yield (Some frame1) s' = (Some k, s3)" "current s3 = 0" "t_state (cur_task s3) = TASK_READY"
    by (simp add: sched_yield_def switch_to_next_def r load_task_def cur_task_def upd_cur_def task_at_upd two_tasks_sel)
      (simp add: task_at_def upd_task_def r two_tasks_sel st)
  have c: "current two_tasks = 0" "cur_task two_tasks = user_task" by (simp_all add: two_tasks_sel cur_task_def task_at_def)
  have ne: "current s' \<noteq> current two_tasks" by (simp add: r c)
  note T = context_switch [OF reachable_two_tasks r(1) ne]
  have "sched_step s' s3" using sched_step.yield [of s' "Some frame1"] y by simp
  moreover have "t_state (task_at s' 0) = TASK_READY" by (simp add: task_at_def r two_tasks_sel st)
  ultimately have "regs.truncate k = regs.truncate frame0"
    using T [THEN conjunct2, THEN conjunct2, THEN conjunct2, THEN conjunct2, THEN conjunct2, THEN conjunct2, THEN conjunct2, THEN conjunct2,
      rule_format, of s' s3 frame1 k] away_start sw_yield [OF y(1)] y(2,3) st r(2) c by simp
  then have "regs.truncate k = regs.truncate frame0" "rbx k = rbx frame0" by (simp_all add: regs.truncate_def)
  moreover have "rbx frame0 \<noteq> rbx frame1" by (simp add: frame1_def frame0_def user_regs_def regs.extend_def interrupt_frame.fields_def)
  moreover have "regs.truncate g = ctx user_task2" using T r(2) by (simp add: task_at_def two_tasks_sel)
  ultimately show ?thesis using r(1) y(1,2) by auto
qed

section \<open>Exit and wait\<close>

text \<open>Closing descriptors may wake another task and touches nothing else of it.\<close>

definition fd_only :: "task \<Rightarrow> task \<Rightarrow> bool" where
  "fd_only t t' \<longleftrightarrow> t'\<lparr>t_state := t_state t, pipe_wait := pipe_wait t, fds := fds t\<rparr> = t \<and>
     (t_state t' = t_state t \<or> t_state t = TASK_PIPE \<and> t_state t' = TASK_READY)"

lemma fd_only_refl: "fd_only t t"
  by (simp add: fd_only_def)

lemma fd_only_trans: "fd_only t t' \<Longrightarrow> fd_only t' t'' \<Longrightarrow> fd_only t t''"
  by (cases t; cases t'; cases t'') (auto simp: fd_only_def)

lemma fd_onlyD:
  assumes "fd_only t t'"
  shows "parent t' = parent t" "wait_pid t' = wait_pid t" "reaped t' = reaped t" "exit_code t' = exit_code t" "ctx t' = ctx t"
    "t_state t \<noteq> TASK_PIPE \<Longrightarrow> t_state t' = t_state t" "t_state t' = TASK_WAIT \<longleftrightarrow> t_state t = TASK_WAIT"
  using assms by (cases t; cases t'; auto simp: fd_only_def)+

lemma task_at_fg [simp]: "task_at (s\<lparr>fg_slot := x\<rparr>) i = task_at s i"
  by (simp add: task_at_def)

lemma wake_only:
  assumes "sched_inv s" "k < TASK_MAX"
  shows "fd_only (task_at s k) (task_at (wake_pipe_waiters p s) k)"
  unfolding wake_pipe_waiters_def using assms sched_invD(1,3) [OF assms(1)] by (auto simp: task_at_map fd_only_def)

lemma drop_fd_only:
  assumes inv: "sched_inv s" and ij: "i < TASK_MAX" "j < FD_MAX" and k: "k < TASK_MAX"
  shows "fd_only (task_at s k) (task_at (drop_fd i j s) k)"
proof (cases "fd_used (fd_at s i j)")
  case True
  let ?e = "fd_at s i j"
  have l: "length (tasks s) = TASK_MAX" "task_count s \<le> TASK_MAX" "sched_wf s" "length (pipes s) = PIPE_MAX"
    using sched_invD(1,3,5) [OF inv] inv by (auto simp: sched_inv_def)
  have "tasks (drop_ref ?e s) = tasks (wake_pipe_waiters (fd_pipe ?e) s) \<or> drop_ref ?e s = s"
    using drop_ref_obs(2) [OF l(3,4), of ?e] by (auto simp: drop_ref_def)
  then have "length (tasks (drop_ref ?e s)) = TASK_MAX \<and> fd_only (task_at s k) (task_at (drop_ref ?e s) k)"
    using l(1) wake_only [OF inv k, of "fd_pipe ?e"]
    by (auto simp: task_at_def wake_pipe_waiters_def fd_only_refl)
  then show ?thesis using True ij by (auto simp: drop_fd_alt task_at_set_fd fd_only_def)
next
  case False
  then show ?thesis by (simp add: drop_fd_alt fd_only_refl)
qed

lemma clear_fds_only:
  assumes "sched_inv s" "i < TASK_MAX" "k < TASK_MAX"
  shows "fd_only (task_at s k) (task_at (clear_fds i s) k)"
proof -
  have "sched_inv (fold (drop_fd i) js s) \<and> fd_only (task_at s k) (task_at (fold (drop_fd i) js s) k)"
    if "\<forall>j \<in> set js. j < FD_MAX" for js
    using assms that
  proof (induction js arbitrary: s)
    case (Cons j js)
    then show ?case using drop_fd_inv [of s i j] drop_fd_only [of s i j k] fd_only_trans by simp
  qed (simp add: fd_only_refl)
  from this [of "[0..<FD_MAX]"] show ?thesis by (simp add: clear_fds_def)
qed

lemma free_task_user_at:
  assumes "sched_inv s" "i < TASK_MAX"
  shows "task_at (free_task_user i s) k = (if k = i \<and> cr3 (task_at s i) \<noteq> 0 then (task_at s i)\<lparr>user_base := 0, brk := 0\<rparr> else task_at s k)"
  using assms sched_invD(1) [OF assms(1)] by (simp add: free_task_user_def task_at_upd)

text \<open>The state in which \<open>kill_task\<close> looks at the parent.\<close>

definition dying :: "nat \<Rightarrow> u8 \<Rightarrow> sched \<Rightarrow> sched" where
  "dying i code s = (let s1 = upd_task i (\<lambda>t. t\<lparr>exit_code := code, reaped := False, pending := 0, handler_int := 0,
       handler_term := 0, t_state := TASK_DEAD, pipe_wait := -1\<rparr>) (clear_fds i (free_task_user i s))
     in if int i = fg_slot s1 then s1\<lparr>fg_slot := -1\<rparr> else s1)"

lemma kill_dying: "i < task_count s \<Longrightarrow> t_state (task_at s i) \<noteq> TASK_DEAD \<Longrightarrow>
    kill_task i code s = wake_parent_waiter i code (dying i code s)"
  by (simp add: kill_task_def dying_def Let_def)

lemma dying_spec:
  assumes inv: "sched_inv s" and i: "i < task_count s"
  shows "t_state (task_at (dying i code s) i) = TASK_DEAD" "exit_code (task_at (dying i code s) i) = code"
    "\<not> reaped (task_at (dying i code s) i)" "parent (task_at (dying i code s) i) = parent (task_at s i)"
    "task_count (dying i code s) = task_count s" "\<forall>j < FD_MAX. \<not> fd_used (fd_at (dying i code s) i j)"
    "k < TASK_MAX \<Longrightarrow> k \<noteq> i \<Longrightarrow> fd_only (task_at s k) (task_at (dying i code s) k)"
    "length (tasks (dying i code s)) = TASK_MAX" "current (dying i code s) = current s"
proof -
  have im: "i < TASK_MAX" using i sched_invD(3) [OF inv] by simp
  let ?u = "free_task_user i s"
  have iu: "sched_inv ?u" by (rule free_task_inv(1) [OF inv im])
  note C = clear_fds_free [OF iu im] and I = clear_fds_inv [OF iu im]
  have l: "length (tasks (clear_fds i ?u)) = TASK_MAX" by (rule sched_invD(1) [OF I])
  let ?g = "\<lambda>t. t\<lparr>exit_code := code, reaped := False, pending := 0, handler_int := 0, handler_term := 0, t_state := TASK_DEAD, pipe_wait := -1\<rparr>"
  have at: "task_at (dying i code s) k = (if k = i then ?g (task_at (clear_fds i ?u) i) else task_at (clear_fds i ?u) k)" for k
    using im l by (simp add: dying_def Let_def task_at_upd)
  have F: "fd_only (task_at ?u k) (task_at (clear_fds i ?u) k)" if "k < TASK_MAX" for k by (rule clear_fds_only [OF iu im that])
  have "parent (task_at (clear_fds i ?u) i) = parent (task_at ?u i)" using F [OF im] by (simp add: fd_onlyD)
  then show "parent (task_at (dying i code s) i) = parent (task_at s i)" by (simp add: at free_task_user_at [OF inv im])
  show "t_state (task_at (dying i code s) i) = TASK_DEAD" "exit_code (task_at (dying i code s) i) = code" "\<not> reaped (task_at (dying i code s) i)"
    by (simp_all add: at)
  show "\<forall>j < FD_MAX. \<not> fd_used (fd_at (dying i code s) i j)" using C(1) by (simp add: fd_at_task at)
  show "fd_only (task_at s k) (task_at (dying i code s) k)" if "k < TASK_MAX" "k \<noteq> i"
    using F [OF that(1)] that(2) by (simp add: at free_task_user_at [OF inv im])
  show "task_count (dying i code s) = task_count s" "length (tasks (dying i code s)) = TASK_MAX" "current (dying i code s) = current s"
    using C l by (simp_all add: dying_def Let_def)
qed

lemma fds_show_wait: "task_at (show_wait_status i code s) k = (if k = i \<and> i < length (tasks s) \<and> \<not> (seen_status (task_at s i) \<and> shown_status (task_at s i) = code)
    then (task_at s i)\<lparr>seen_status := True, shown_status := code\<rparr> else task_at s k)"
  by (cases "i < length (tasks s)") (auto simp: show_wait_status_def Let_def task_at_def upd_task_def list_update_beyond [OF leI])

lemma wake_parent_alt:
  assumes "i < task_count s" "length (tasks s) = TASK_MAX" "task_count s \<le> TASK_MAX" "t_state (task_at s i) \<noteq> TASK_WAIT"
  defines "p \<equiv> nat (parent (task_at s i))"
  shows "if 0 \<le> parent (task_at s i) \<and> parent (task_at s i) < int (task_count s) \<and> t_state (task_at s p) = TASK_WAIT \<and>
      (wait_pid (task_at s p) = 0 \<or> wait_pid (task_at s p) = int i)
    then p \<noteq> i \<and> t_state (task_at (wake_parent_waiter i code s) p) = TASK_READY \<and>
      rax (ctx (task_at (wake_parent_waiter i code s) p)) = ucast code \<and>
      task_at (wake_parent_waiter i code s) i = (task_at s i)\<lparr>reaped := True\<rparr>
    else wake_parent_waiter i code s = s"
  using assms by (auto simp: wake_parent_waiter_def Let_def fds_show_wait reap_child_def task_at_upd)

lemma kill_task_effect:
  assumes inv: "sched_inv s" and i: "i < task_count s" and d: "t_state (task_at s i) \<noteq> TASK_DEAD"
  shows "let s' = kill_task i code s; p = parent (task_at s i); t = task_at s (nat p) in
       t_state (task_at s' i) = TASK_DEAD \<and> exit_code (task_at s' i) = code \<and> (\<forall>j < FD_MAX. \<not> fd_used (fd_at s' i j)) \<and>
       (0 \<le> p \<and> p < int (task_count s) \<and> p \<noteq> int i \<longrightarrow>
         (if t_state t = TASK_WAIT \<and> (wait_pid t = 0 \<or> wait_pid t = int i)
          then t_state (task_at s' (nat p)) = TASK_READY \<and> rax (ctx (task_at s' (nat p))) = ucast code \<and> reaped (task_at s' i)
          else child_of s' p (int i)))"
proof -
  let ?d = "dying i code s" and ?p = "parent (task_at s i)"
  let ?s = "wake_parent_waiter i code ?d"
  note D = dying_spec [OF inv i, where code = code]
  have im: "i < TASK_MAX" "task_count s \<le> TASK_MAX" using i sched_invD(3) [OF inv] by auto
  note A = wake_parent_alt [of i ?d code, unfolded D(1,4,5,8)]
  have base: "t_state (task_at ?s i) = TASK_DEAD \<and> exit_code (task_at ?s i) = code \<and> (\<forall>j < FD_MAX. \<not> fd_used (fd_at ?s i j))"
    using A D i im by (auto simp: fd_at_task split: if_splits)
  have par: "if t_state (task_at s (nat ?p)) = TASK_WAIT \<and> (wait_pid (task_at s (nat ?p)) = 0 \<or> wait_pid (task_at s (nat ?p)) = int i)
      then t_state (task_at ?s (nat ?p)) = TASK_READY \<and> rax (ctx (task_at ?s (nat ?p))) = ucast code \<and> reaped (task_at ?s i)
      else child_of ?s ?p (int i)" if "0 \<le> ?p \<and> ?p < int (task_count s) \<and> ?p \<noteq> int i"
  proof -
    have "fd_only (task_at s (nat ?p)) (task_at ?d (nat ?p))" using D(7) [of "nat ?p"] that im by auto
    then have Q: "t_state (task_at ?d (nat ?p)) = TASK_WAIT \<longleftrightarrow> t_state (task_at s (nat ?p)) = TASK_WAIT"
      "wait_pid (task_at ?d (nat ?p)) = wait_pid (task_at s (nat ?p))" using fd_onlyD(2,7) by auto
    show ?thesis using A D(3,4) that i im unfolding Q by (auto simp: child_of_def D(5) split: if_splits)
  qed
  show ?thesis unfolding kill_dying [OF i d] Let_def using base par by blast
qed



section \<open>Sleeping\<close>

text \<open>
  Slot \<open>i\<close> sleeps until tick \<open>w\<close>, or it is ready and that tick has passed; no signal is pending for it.
\<close>

definition sleeper :: "nat \<Rightarrow> u32 \<Rightarrow> sched \<Rightarrow> bool" where
  "sleeper i w s \<longleftrightarrow> sched_inv s \<and> i < task_count s \<and> pending (task_at s i) = 0 \<and>
     (t_state (task_at s i) = TASK_READY \<and> w \<le> ticks s \<or> t_state (task_at s i) = TASK_SLEEP \<and> wake_tick (task_at s i) = w)"

lemma sleeper_upd:
  assumes "sleeper i w s" "sched_inv (upd_task k f s)" "k < TASK_MAX" "\<And>t. t_state (f t) = t_state t" "\<And>t. wake_tick (f t) = wake_tick t"
    "\<And>t. pending (f t) = pending t"
  shows "sleeper i w (upd_task k f s)"
proof -
  have "ticks (upd_task k f s) = ticks s" by (simp add: upd_task_def)
  then show ?thesis using assms sched_invD(1) [of s] by (auto simp: sleeper_def task_at_upd)
qed

lemma sleeper_wake:
  assumes "sleeper i w s"
  shows "sleeper i w (wake_sleepers s)" "sleeper i w (sched_wake_kbd s)"
    "t_state (task_at (wake_sleepers s) i) = (if w \<le> ticks s then TASK_READY else TASK_SLEEP)"
proof -
  have inv: "sched_inv s" and i: "i < task_count s" "i < TASK_MAX" using assms sched_invD(3) [of s] by (auto simp: sleeper_def)
  have m: "task_at (map_tasks f s) i = f (task_at s i)" "ticks (map_tasks f s) = ticks s" for f
    using sched_invD(1,3) [OF inv] i by (simp_all add: task_at_map)
  show "sleeper i w (wake_sleepers s)" "sleeper i w (sched_wake_kbd s)"
    "t_state (task_at (wake_sleepers s) i) = (if w \<le> ticks s then TASK_READY else TASK_SLEEP)"
    using assms i wake_sleepers_inv [OF inv] wake_kbd_inv [OF inv]
    by (auto simp: sleeper_def wake_sleepers_def sched_wake_kbd_def m)
qed

lemma sleeper_other [simp]:
  "sleeper i w (s\<lparr>scr := b\<rparr>) = sleeper i w s" "sleeper i w (s\<lparr>irqs := e\<rparr>) = sleeper i w s"
  "sleeper i w (s\<lparr>stdin_ready := c\<rparr>) = sleeper i w s" "sleeper i w (s\<lparr>vm := d\<rparr>) = sleeper i w s"
  by (simp_all add: sleeper_def task_at_def)

lemma sleeper_later: "sleeper i w s \<Longrightarrow> ticks s \<le> k \<Longrightarrow> sleeper i w (s\<lparr>ticks := k\<rparr>)"
  by (auto simp: sleeper_def task_at_def)

lemma sleeper_account:
  assumes "sleeper i w s"
  shows "sleeper i w (tick_account s)" "t_state (task_at (tick_account s) i) = (if w \<le> ticks s then TASK_READY else TASK_SLEEP)"
proof -
  have inv: "sched_inv s" using assms by (simp add: sleeper_def)
  have "sleeper i w (upd_cur (\<lambda>t. t\<lparr>cpu_ticks := cpu_ticks t + 1\<rparr>) s)"
    unfolding upd_cur_def by (rule sleeper_upd [OF assms]) (use inv sched_invD(4) [OF inv] in \<open>auto intro!: inv_upd_task simp: wait_of_def\<close>)
  moreover have "ticks (upd_cur (\<lambda>t. t\<lparr>cpu_ticks := cpu_ticks t + 1\<rparr>) s) = ticks s" by (simp add: upd_cur_def upd_task_def)
  ultimately show "sleeper i w (tick_account s)" "t_state (task_at (tick_account s) i) = (if w \<le> ticks s then TASK_READY else TASK_SLEEP)"
    using assms sleeper_wake(1,3) [of i w] by (auto simp: tick_account_def)
qed

lemma sleeper_irq:
  assumes "sleeper i w s" "q \<noteq> Irq_sigint" "q = Irq_timer \<Longrightarrow> unat (ticks s) + 1 < 2 ^ 32"
  shows "sleeper i w (irq_effect q s)" "ticks (irq_effect q s) = (if q = Irq_timer then ticks s + 1 else ticks s)"
proof -
  have "ticks s \<le> ticks s + 1" if "q = Irq_timer" using assms(3) [OF that] unat_add_lt [of "ticks s" 1] by (simp add: word_le_nat_alt)
  then show "sleeper i w (irq_effect q s)"
    using assms(1,2) sleeper_account(1) sleeper_wake(2) sleeper_later by (cases q) (auto simp: irq_effect_def Let_def)
  show "ticks (irq_effect q s) = (if q = Irq_timer then ticks s + 1 else ticks s)"
    using assms(2) by (cases q) (auto simp: irq_effect_def Let_def tick_account_def wake_sleepers_def sched_wake_kbd_def upd_cur_def)
qed

lemma sleeper_due:
  assumes "sleeper i w s" "w \<le> ticks s"
  shows "\<exists>n. pick_next (current (wake_sleepers s)) (wake_sleepers s) = Some n"
proof -
  let ?s = "wake_sleepers s"
  have inv: "sched_inv s" and i: "i < task_count s" using assms by (auto simp: sleeper_def)
  have "t_state (task_at ?s i) = TASK_READY" using sleeper_wake(3) [OF assms(1)] assms(2) by simp
  moreover have "i < task_count ?s" "current ?s < task_count ?s"
    using i sched_invD(7) [OF inv] by (auto simp: wake_sleepers_def)
  ultimately show ?thesis using pick_next_spec by metis
qed

text \<open>The slot is asleep exactly before its tick.\<close>

definition on_time :: "nat \<Rightarrow> u32 \<Rightarrow> sched \<Rightarrow> bool" where
  "on_time i w s \<longleftrightarrow> sleeper i w s \<and> t_state (task_at s i) = (if w \<le> ticks s then TASK_READY else TASK_SLEEP)"

lemma idle_wakes:
  assumes "sleeper i w s" "Irq_sigint \<notin> set qs" "unat w \<le> unat (ticks s) + count_list qs Irq_timer"
    "unat (ticks s) + count_list qs Irq_timer < 2 ^ 32"
  shows "\<exists>n s'. idle_loop qs s = (Some n, s') \<and> t_state (task_at s' n) = TASK_READY \<and> on_time i w s'"
  using assms
proof (induction qs s rule: idle_loop.induct)
  case (1 s)
  have "on_time i w (wake_sleepers s)" using sleeper_wake(1,3) [OF 1(1)] by (simp add: on_time_def wake_sleepers_def map_tasks_def)
  then show ?case using sleeper_due [OF 1(1)] 1(3) pick_next_ready by (force simp: word_le_nat_alt Let_def on_time_def task_at_def)
next
  case (2 q qs s)
  let ?s = "wake_sleepers s"
  have k: "sleeper i w ?s" "ticks ?s = ticks s" using sleeper_wake(1) [OF 2(2)] by (simp_all add: wake_sleepers_def)
  show ?case
  proof (cases "pick_next (current ?s) ?s")
    case None
    have q: "q \<noteq> Irq_sigint" "Irq_sigint \<notin> set qs" using 2(3) by auto
    have lt: "unat (ticks ?s) + 1 < 2 ^ 32" if "q = Irq_timer" using 2(5) that k(2) by simp
    note I = sleeper_irq [OF k(1) q(1) lt]
    have "unat (ticks s + 1) = unat (ticks s) + 1" if "q = Irq_timer"
      using 2(5) that unat_add_lt [of "ticks s" 1] by simp
    then have "unat (ticks (irq_effect q ?s)) + count_list qs Irq_timer = unat (ticks s) + count_list (q # qs) Irq_timer"
      using I(2) k(2) by simp
    then have "\<exists>n s'. idle_loop qs (irq_effect q ?s) = (Some n, s') \<and> t_state (task_at s' n) = TASK_READY \<and> on_time i w s'"
      using 2(1) [OF refl None I(1) q(2)] 2(4,5) by simp
    then show ?thesis using None by (simp add: Let_def)
  next
    case (Some n)
    have "on_time i w ?s" using sleeper_wake(1,3) [OF 2(2)] k(2) by (simp add: on_time_def)
    then show ?thesis using Some pick_next_ready [OF Some] by (simp add: Let_def on_time_def task_at_def)
  qed
qed

text \<open>
  C27. A sleep of \<open>n > 0\<close> ticks, called without a pending signal. Once the timer has fired \<open>n\<close> times, whatever
  other tasks do and whatever key lines arrive meanwhile, the call has left the idle loop and a ready task runs,
  as long as no Ctrl+C arrives and the tick counter does not overflow. The sleeper does not run before its time:
  if fewer than \<open>n\<close> ticks have passed when the call leaves for another task, it still sleeps until the right
  tick; otherwise it is ready. And from any state, a timer interrupt makes a sleeping task without a pending signal
  ready exactly if its tick has come.
\<close>

theorem sleep_returns:
  assumes "reachable s" "task_count s \<noteq> 0" "pending (cur_task s) = 0" "n \<noteq> 0"
    and "unat (ticks s) + count_list (irqs s) Irq_timer < 2 ^ 32" "unat n \<le> count_list (irqs s) Irq_timer"
    and "Irq_sigint \<notin> set (irqs s)"
  shows "(\<exists>g s'. sched_sleep (Some f) n s = (Run (Some g), s') \<and> t_state (cur_task s') = TASK_READY \<and>
      (if unat (ticks s') < unat (ticks s) + unat n
       then current s' \<noteq> current s \<and> t_state (task_at s' (current s)) = TASK_SLEEP \<and>
         unat (wake_tick (task_at s' (current s))) = unat (ticks s) + unat n
       else t_state (task_at s' (current s)) = TASK_READY)) \<and>
    (\<forall>x i fo. reachable x \<and> i < task_count x \<and> t_state (task_at x i) = TASK_SLEEP \<and> pending (task_at x i) = 0 \<longrightarrow>
      t_state (task_at (snd (sched_on_tick fo (x\<lparr>ticks := ticks x + 1\<rparr>))) i) =
        (if wake_tick (task_at x i) \<le> ticks x + 1 then TASK_READY else TASK_SLEEP))"
proof -
  have inv: "sched_inv s" by (rule reachable_inv [OF assms(1)])
  let ?w = "ticks s + ucast n" and ?c = "current s"
  define s1 where "s1 = upd_cur (\<lambda>t. (save_task f t)\<lparr>t_state := TASK_SLEEP, wake_tick := ?w\<rparr>) s"
  have c: "?c < task_count s" "?c < length (tasks s)" using sched_invD(1,4,7) [OF inv] assms(2) by auto
  have t: "task_at s1 ?c = (save_task f (task_at s ?c))\<lparr>t_state := TASK_SLEEP, wake_tick := ?w\<rparr>"
    using c by (simp add: s1_def upd_cur_def task_at_upd)
  have "sched_inv s1" unfolding s1_def by (rule blocked_cur_inv(2) [OF inv]) simp
  then have sl: "sleeper ?c ?w s1" using c t assms(3) by (simp add: sleeper_def s1_def save_task_eq cur_task_def)
  have np: "\<not> task_has_pending (current s) s" "\<not> task_has_pending (current s1) s1"
    using assms(3) t by (simp_all add: cur_task_def task_has_pending_def save_task_eq s1_def)
  have nn: "unat (ucast n :: u32) = unat n" using assms(5,6) by (intro unat_ucast_small) simp
  have w: "unat ?w = unat (ticks s) + unat n"
    using unat_add_lt [of "ticks s" "ucast n"] assms(5,6) nn by simp
  have e1: "irqs s1 = irqs s" "ticks s1 = ticks s" "current s1 = ?c" by (simp_all add: s1_def upd_cur_def upd_task_def)
  obtain k s2 where L: "idle_loop (irqs s) (s1\<lparr>vm := vmm_set_cr3 vmm_boot_cr3 (vm s1)\<rparr>) = (Some k, s2)"
    "t_state (task_at s2 k) = TASK_READY" "on_time ?c ?w s2"
    using idle_wakes [of ?c ?w "s1\<lparr>vm := vmm_set_cr3 vmm_boot_cr3 (vm s1)\<rparr>" "irqs s"] sl assms(5-7) w by (auto simp: e1)
  have now: "on_time ?c ?w s1" using sl assms(4) w t by (auto simp: on_time_def e1 word_le_nat_alt unat_gt_0)
  have run: "\<exists>g. dispatch f m x = (Run (Some g), snd (dispatch f m x))" for m x by (simp add: dispatch_def split_beta)
  have "\<exists>g m s0. block f s1 = (Run (Some g), snd (dispatch f m s0)) \<and> t_state (task_at s0 m) = TASK_READY \<and> on_time ?c ?w s0"
  proof (cases "pick_next (current s1) s1")
    case None
    then have "block f s1 = dispatch f k s2" using L(1) e1 by (simp add: block_def idle_until_ready_def Let_def)
    then show ?thesis using L(2,3) run by metis
  next
    case (Some m)
    then have "block f s1 = dispatch f m s1" by (simp add: block_def)
    then show ?thesis using now pick_next_ready [OF Some] run by metis
  qed
  then obtain g m s0 where B: "block f s1 = (Run (Some g), snd (dispatch f m s0))" "t_state (task_at s0 m) = TASK_READY" "on_time ?c ?w s0" by blast
  let ?s = "snd (dispatch f m s0)"
  have D: "task_at ?s i = task_at s0 i" "ticks ?s = ticks s0" "current ?s = m" for i
    by (simp_all add: dispatch_def load_task_def set_current_def task_at_def)
  have "t_state (cur_task ?s) = TASK_READY" using B(2) by (simp add: cur_task_def D)
  moreover have "if unat (ticks ?s) < unat (ticks s) + unat n
       then current ?s \<noteq> ?c \<and> t_state (task_at ?s ?c) = TASK_SLEEP \<and> unat (wake_tick (task_at ?s ?c)) = unat (ticks s) + unat n
       else t_state (task_at ?s ?c) = TASK_READY"
    using B(2,3) w by (auto simp: D on_time_def sleeper_def word_le_nat_alt)
  moreover have "sched_sleep (Some f) n s = block f s1"
    using assms(4) np by (simp add: sched_sleep_def Let_def s1_def)
  moreover have "t_state (task_at (snd (sched_on_tick fo (x\<lparr>ticks := ticks x + 1\<rparr>))) i) =
        (if wake_tick (task_at x i) \<le> ticks x + 1 then TASK_READY else TASK_SLEEP)"
    if x: "reachable x" "i < task_count x" "t_state (task_at x i) = TASK_SLEEP" "pending (task_at x i) = 0" for x i fo
  proof -
    let ?x = "x\<lparr>ticks := ticks x + 1\<rparr>"
    have sx: "sleeper i (wake_tick (task_at x i)) ?x" using x reachable_inv [OF x(1)] by (simp add: sleeper_def task_at_def)
    have a: "sched_inv (tick_account ?x)" using sleeper_account(1) [OF sx] by (simp add: sleeper_def)
    have "t_state (task_at (snd (switch_to_next fo (tick_account ?x))) i) = t_state (task_at (tick_account ?x) i)" for fo
      using switch_spec(3) [OF a] by (cases fo; cases "pick_next (current (tick_account ?x)) (tick_account ?x)") (auto simp: switch_to_next_def)
    then show ?thesis using sleeper_account(2) [OF sx] by (simp add: sched_on_tick_def Let_def)
  qed
  ultimately show ?thesis using B(1) by metis
qed

lemma idle_count: "Irq_sigint \<notin> set qs \<Longrightarrow> task_count (snd (idle_loop qs s)) = task_count s"
proof (induction qs s rule: idle_loop.induct)
  case (2 q qs s)
  have "task_count (irq_effect q t) = task_count t" if "q \<noteq> Irq_sigint" for t
    using that by (cases q) (simp_all add: irq_effect_def Let_def tick_account_def wake_sleepers_def sched_wake_kbd_def upd_cur_def)
  then show ?case using 2 by (auto simp: Let_def wake_sleepers_def split: option.splits)
qed (simp add: Let_def wake_sleepers_def)

lemma block_count: "Irq_sigint \<notin> set (irqs s) \<Longrightarrow> task_count (snd (block f s)) = task_count s"
proof -
  assume q: "Irq_sigint \<notin> set (irqs s)"
  have d: "task_count (snd (dispatch f n t)) = task_count t" for n t by (simp add: dispatch_def load_task_def)
  obtain r t where L: "idle_loop (irqs s) (s\<lparr>vm := vmm_set_cr3 vmm_boot_cr3 (vm s)\<rparr>) = (r, t)" by fastforce
  then have "task_count t = task_count s" using idle_count [OF q, of "s\<lparr>vm := vmm_set_cr3 vmm_boot_cr3 (vm s)\<rparr>"] by simp
  then show ?thesis using L d by (cases "pick_next (current s) s"; cases r) (simp_all add: block_def idle_until_ready_def Let_def)
qed

theorem sleep_returns_witness:
  "\<exists>g s'. sched_sleep (Some frame0) 2 (one_task\<lparr>irqs := [Irq_timer, Irq_line, Irq_timer]\<rparr>) = (Run (Some g), s') \<and>
     t_state (task_at s' 0) = TASK_READY \<and> 2 \<le> unat (ticks s')"
proof -
  let ?s = "one_task\<lparr>irqs := [Irq_timer, Irq_line, Irq_timer]\<rparr>"
  have e: "?s = one_task\<lparr>vm := vm one_task, scr := scr one_task, stdin_ready := stdin_ready one_task, irqs := [Irq_timer, Irq_line, Irq_timer]\<rparr>"
    by simp
  have r: "reachable ?s" unfolding e by (rule reachable.step [OF reachable_one_task sched_step.other])
  have u: "pending user_task = 0" by (simp add: user_task_def zero_task_def)
  have o: "ticks one_task = 0" "current one_task = 0" "task_count one_task = 1" "cur_task one_task = user_task"
    by (simp_all add: cur_task_def task_at_def one_task_sel) (simp add: one_task_eq boot0_eq zero_sched_def)
  have c: "pending (cur_task ?s) = 0" "task_count ?s \<noteq> 0" using o u by (simp_all add: cur_task_def task_at_def)
  obtain g s' where S: "sched_sleep (Some frame0) 2 ?s = (Run (Some g), s')"
    "if unat (ticks s') < unat (ticks ?s) + unat (2 :: u64) then current s' \<noteq> current ?s \<and> t_state (task_at s' (current ?s)) = TASK_SLEEP \<and>
       unat (wake_tick (task_at s' (current ?s))) = unat (ticks ?s) + unat (2 :: u64)
     else t_state (task_at s' (current ?s)) = TASK_READY"
    using sleep_returns [OF r c(2,1), of 2 frame0, THEN conjunct1] o by auto
  define b where "b = upd_cur (\<lambda>t. (save_task frame0 t)\<lparr>t_state := TASK_SLEEP, wake_tick := ticks ?s + ucast (2 :: u64)\<rparr>) ?s"
  have "sched_sleep (Some frame0) 2 ?s = block frame0 b"
    using u by (simp add: sched_sleep_def Let_def task_has_pending_def upd_cur_def upd_task_def task_at_def one_task_sel save_task_eq b_def)
  then have "snd (block frame0 b) = s'" using S(1) by (metis snd_conv)
  then have "task_count s' = 1" using block_count [of b frame0] o by (auto simp: b_def upd_cur_def upd_task_def)
  moreover have "sched_step ?s s'" using sched_step.sleep [of ?s "Some frame0" 2] S(1) by simp
  then have "sched_inv s'" by (rule step_inv) (rule reachable_inv [OF r])
  ultimately have "current s' = 0" using sched_invD(7) [of s'] by simp
  then show ?thesis using S o by (auto split: if_splits)
qed

section \<open>Signals\<close>

lemma task_at_scr [simp]: "task_at (s\<lparr>scr := g\<rparr>) i = task_at s i"
  by (simp add: task_at_def)

lemma dispatch_at [simp]: "task_at (snd (dispatch f n s)) i = task_at s i"
  by (simp add: dispatch_def load_task_def)

lemma exit_kills:
  assumes inv: "sched_inv s" and c: "task_count s \<noteq> 0" and d: "t_state (cur_task s) \<noteq> TASK_DEAD" 
    and run: "sched_exit (Some f) s = (out, s')"
  shows "t_state (task_at s' (current s)) = TASK_DEAD \<and> exit_code (task_at s' (current s)) = ucast (rdi f AND 0xFF) \<and>
    (\<forall>j < FD_MAX. \<not> fd_used (fd_at s' (current s) j))"
proof -
  let ?s = "s\<lparr>scr := vga_write_at (t_row (cur_task s)) 2 (Some ''done'') (scr s)\<rparr>" and ?code = "ucast (rdi f AND 0xFF) :: u8"
  let ?k = "kill_task (current s) ?code ?s"
  have "snd (sched_exit (Some f) s) = snd (case pick_next (current ?k) ?k of None \<Rightarrow> (Halted, ?k\<lparr>vm := vmm_set_cr3 vmm_boot_cr3 (vm ?k)\<rparr>)
      | Some n \<Rightarrow> dispatch f n ?k)" using c by (simp add: sched_exit_def Let_def split: option.splits)
  then have "task_at s' i = task_at ?k i" for i using run by (simp split: option.splits)
  moreover have i: "sched_inv ?s" "current s < task_count ?s" "t_state (task_at ?s (current s)) \<noteq> TASK_DEAD"
    using inv sched_invD(7) [OF inv c] d by (auto simp: cur_task_def)
  ultimately show ?thesis using kill_task_effect [OF i, of ?code] by (simp add: fd_at_task Let_def)
qed

lemma signo_of_bit: "sig_bit signo \<noteq> 0 \<Longrightarrow> i < task_count s \<Longrightarrow> pending (task_at s i) AND sig_bit signo \<noteq> 0 \<Longrightarrow> pending_signo i s \<noteq> 0"
  by (auto simp: sig_bit_def pending_signo_def SIGINT_def SIGTERM_def split: if_splits)

lemma or_bit: "sig_bit signo \<noteq> 0 \<Longrightarrow> (p OR sig_bit signo) AND sig_bit signo \<noteq> 0 \<and> p OR sig_bit signo \<noteq> 0"
  by (metis bit.conj_disj_distrib2 and.idem or_eq_0_iff and.commute)

lemma signal_recorded:
  assumes inv: "sched_inv s" and l: "live_slot s pid" and b: "sig_bit signo \<noteq> 0" and c: "cr3 (task_at s (nat pid)) \<noteq> 0"
    and run: "sched_signal_at pid signo code fo s = (r, fo', s')"
  shows "r \<and> task_has_pending (nat pid) s' \<and> exit_code (task_at s' (nat pid)) = code \<and> t_state (task_at s' (nat pid)) = TASK_READY \<and>
      pending_signo (nat pid) s' \<noteq> 0"
proof -
  let ?i = "nat pid"
  have i: "?i < task_count s" "?i < length (tasks s)" using l sched_invD(1,3) [OF inv] by (auto simp: live_slot_def)
  define s1 where "s1 = wake_blocked ?i (upd_task ?i (\<lambda>t. t\<lparr>pending := pending t OR sig_bit signo, exit_code := code\<rparr>) s)"
  have st: "t_state (task_at s ?i) \<noteq> TASK_DEAD" using l by (simp add: live_slot_def)
  have T: "t_state (task_at s1 ?i) = TASK_READY" "exit_code (task_at s1 ?i) = code"
    "pending (task_at s1 ?i) = pending (task_at s ?i) OR sig_bit signo" "task_count s1 = task_count s" "length (tasks s1) = length (tasks s)"
    "current s1 = current s"
    using i st by (cases "t_state (task_at s ?i)"; simp add: s1_def wake_blocked_def task_at_upd)+
  have R: "r \<and> task_count s' = task_count s \<and> t_state (task_at s' ?i) = TASK_READY \<and> exit_code (task_at s' ?i) = code \<and>
      pending (task_at s' ?i) = pending (task_at s ?i) OR sig_bit signo"
    using run l b c i T sched_invD(1,4) [OF inv] unfolding sched_signal_at_def Let_def s1_def [symmetric]
    by (auto simp: load_task_def upd_cur_def task_at_upd save_task_eq split: if_splits)
  then show ?thesis using or_bit [OF b] i signo_of_bit [OF b, of ?i s'] by (simp add: task_has_pending_def)
qed

lemma cur_upd_cur: "sched_inv s \<Longrightarrow> cur_task (upd_cur f s) = f (cur_task s)"
  using sched_invD(1,4) [of s] by (simp add: cur_task_def upd_cur_def task_at_upd)

lemma byte_status: "ucast (ucast (x :: u8) AND 0xFF :: u64) = x"
proof -
  have m: "(0xFF :: u64) = mask 8" by (simp add: mask_eq_exp_minus_1)
  show ?thesis unfolding m by (rule bit_word_eqI) (simp add: bit_simps)
qed

definition killed :: "nat \<Rightarrow> u8 \<Rightarrow> sched \<Rightarrow> bool" where
  "killed i code s \<longleftrightarrow> t_state (task_at s i) = TASK_DEAD \<and> exit_code (task_at s i) = code \<and> (\<forall>j < FD_MAX. \<not> fd_used (fd_at s i j))"

lemma exit_pending_kills:
  assumes inv: "sched_inv s" and c: "task_count s \<noteq> 0" and d: "t_state (cur_task s) \<noteq> TASK_DEAD"
  shows "killed (current s) (exit_code (cur_task s)) (snd (exit_pending f s))"
proof -
  let ?s = "upd_cur (\<lambda>t. t\<lparr>pending := 0\<rparr>) s"
  have "sched_inv ?s" "task_count ?s \<noteq> 0" "t_state (cur_task ?s) \<noteq> TASK_DEAD"
    using inv c d by (auto simp: cur_upd_cur wait_of_def intro!: upd_cur_inv)
  from exit_kills [OF this prod.collapse [symmetric]] show ?thesis
    by (simp add: killed_def exit_pending_def byte_status)
qed

lemma deliver_effect:
  assumes inv: "sched_inv s" and p: "task_has_pending (current s) s" and u: "user_frame (Some f)"
    and run: "sched_deliver_pending (Some f) s = (out, s')" and sig: "sig = pending_signo (current s) s" "sig \<noteq> 0"
    and h: "h = sig_handler sig (cur_task s)"
  shows "if h = 0 \<or> rsp f < 8 \<or> \<not> fst (push_user_u64 (cr3 (cur_task s)) (rsp f - 8) (rip f) (vm s))
    then killed (current s) (exit_code (cur_task s)) s'
    else out = Run (Some (f\<lparr>rsp := rsp f - 8, rip := h, rdi := word_of_int sig\<rparr>)) \<and> sig_handler sig (cur_task s') = 0 \<and>
      vm s' = snd (push_user_u64 (cr3 (cur_task s)) (rsp f - 8) (rip f) (vm s))"
proof -
  define s1 where "s1 = upd_cur (\<lambda>t. t\<lparr>pending := pending t AND NOT (sig_bit sig)\<rparr>) s"
  define s2 where "s2 = upd_cur (set_sig_handler sig 0) s1"
  let ?push = "push_user_u64 (cr3 (cur_task s)) (rsp f - 8) (rip f) (vm s)"
  have i1: "sched_inv s1" unfolding s1_def using inv by (intro upd_cur_inv) (auto simp: wait_of_def)
  have i2: "sched_inv s2" unfolding s2_def using i1 by (intro upd_cur_inv) auto
  have c: "task_count s \<noteq> 0" "t_state (cur_task s) \<noteq> TASK_DEAD" using p by (auto simp: task_has_pending_def cur_task_def)
  have k: "cr3 (set_sig_handler g x t) = cr3 t" "exit_code (set_sig_handler g x t) = exit_code t" "t_state (set_sig_handler g x t) = t_state t" for g x t
    by (simp_all add: set_sig_handler_def)
  have C: "cur_task s1 = (cur_task s)\<lparr>pending := pending (cur_task s) AND NOT (sig_bit sig)\<rparr>" "cur_task s2 = set_sig_handler sig 0 (cur_task s1)"
    "current s1 = current s" "current s2 = current s" "vm s2 = vm s" "task_count s1 = task_count s" "task_count s2 = task_count s"
    by (simp_all add: s1_def s2_def cur_upd_cur inv cur_upd_cur [OF i1, unfolded s1_def])
  have K1: "killed (current s) (exit_code (cur_task s)) (snd (exit_pending f s1))" using exit_pending_kills [OF i1] C c by simp
  have K2: "killed (current s) (exit_code (cur_task s)) (snd (exit_pending f (s2\<lparr>vm := v\<rparr>)))" for v
    using exit_pending_kills [of "s2\<lparr>vm := v\<rparr>"] i2 C c by (simp add: cur_task_def k)
  have K3: "killed (current s) (exit_code (cur_task s)) (snd (exit_pending f s2))"
    using exit_pending_kills [OF i2] C c by (simp add: k)
  have R: "sched_deliver_pending (Some f) s = (if h = 0 then exit_pending f s1 else if rsp f < 8 then exit_pending f s2
     else case ?push of (ok, v) \<Rightarrow> if \<not> ok then exit_pending f (s2\<lparr>vm := v\<rparr>)
       else (Run (Some (f\<lparr>rsp := rsp f - 8, rip := h, rdi := word_of_int sig\<rparr>)), s2\<lparr>vm := v\<rparr>))"
    using u c sig by (simp add: sched_deliver_pending_def Let_def s1_def [symmetric] s2_def [symmetric] sig(1) [symmetric] h [symmetric] C k)
  have "sig_handler sig (cur_task (s2\<lparr>vm := v\<rparr>)) = 0" for v
    using C(2) by (simp add: cur_task_def sig_handler_def set_sig_handler_def)
  then show ?thesis using run R K1 K2 [of "snd ?push"] K3 by (cases ?push) (auto split: if_splits)
qed



section \<open>Findings\<close>

text \<open>
  \<open>sched_exit\<close> halts when no task is ready, even if one sleeps: unlike \<open>idle_until_ready\<close> it does not wait for
  a wake-up. Two tasks: the first sleeps, the second exits.
\<close>

definition first_sleeps :: sched where "first_sleeps = snd (sched_sleep (Some frame0) 5 two_tasks)"

lemma first_sleeps_eq:
  "tasks first_sleeps = user_task\<lparr>ctx := regs.truncate frame0, t_state := TASK_SLEEP, wake_tick := 5\<rparr> # user_task2 # replicate 14 (init_task zero_task)"
  "current first_sleeps = 1" "task_count first_sleeps = 2" "reachable first_sleeps"
proof -
  have tk: "ticks two_tasks = 0" by (simp add: two_tasks_eq one_task_eq boot0_eq zero_sched_def)
  have pd: "pending user_task = 0" by (simp add: user_task_def zero_task_def)
  have st: "t_state user_task2 = TASK_READY" by (simp add: user_task2_def user_task_def)
  let ?t = "user_task\<lparr>ctx := regs.truncate frame0, t_state := TASK_SLEEP, wake_tick := 5\<rparr>"
  have "sched_sleep (Some frame0) 5 two_tasks = block frame0 (two_tasks\<lparr>tasks := ?t # user_task2 # replicate 14 (init_task zero_task)\<rparr>)"
    by (simp add: sched_sleep_def task_has_pending_def Let_def upd_cur_def upd_task_def task_at_def two_tasks_sel pd tk save_task_eq)
  moreover have "pick_next 0 (two_tasks\<lparr>tasks := ?t # user_task2 # replicate 14 (init_task zero_task)\<rparr>) = Some 1"
    by (simp add: pick_next_def two_tasks_sel task_at_def st upt_rec)
  ultimately show "tasks first_sleeps = ?t # user_task2 # replicate 14 (init_task zero_task)" "current first_sleeps = 1"
    "task_count first_sleeps = 2"
    by (simp_all add: first_sleeps_def block_def dispatch_def load_task_def two_tasks_sel set_current_def)
  show "reachable first_sleeps" unfolding first_sleeps_def by (rule reachable.step [OF reachable_two_tasks sched_step.sleep])
qed

lemma exit_ignores_sleepers:
  "reachable first_sleeps \<and> t_state (task_at first_sleeps 0) = TASK_SLEEP \<and> fst (sched_exit (Some frame0) first_sleeps) = Halted"
proof -
  let ?s = "first_sleeps\<lparr>scr := vga_write_at (t_row (cur_task first_sleeps)) 2 (Some ''done'') (scr first_sleeps)\<rparr>"
  let ?code = "ucast (rdi frame0 AND 0xFF) :: u8"
  have inv: "sched_inv ?s" using reachable_inv [OF first_sleeps_eq(4)] by simp
  have i: "1 < task_count ?s" by (simp add: first_sleeps_eq)
  have t: "task_at ?s 0 = user_task\<lparr>ctx := regs.truncate frame0, t_state := TASK_SLEEP, wake_tick := 5\<rparr>" "task_at ?s 1 = user_task2"
    by (simp_all add: task_at_def first_sleeps_eq)
  note D = dying_spec [OF inv i, where code = ?code]
  have d: "t_state (task_at ?s 1) \<noteq> TASK_DEAD" "parent (task_at ?s 1) = -1"
    unfolding t by (simp_all add: user_task2_def user_task_def)
  have "t_state (task_at (dying 1 ?code ?s) 0) = TASK_SLEEP"
    using D(7) [of 0] unfolding t by (auto simp: TASK_MAX_def fd_only_def)
  moreover have "kill_task 1 ?code ?s = dying 1 ?code ?s"
    using kill_dying [OF i d(1)] wake_parent_alt [of 1 "dying 1 ?code ?s" ?code] D d(2) by (simp add: first_sleeps_eq TASK_MAX_def)
  ultimately have "pick_next (current (kill_task 1 ?code ?s)) (kill_task 1 ?code ?s) = None"
    using D by (simp add: pick_next_def first_sleeps_eq upt_rec)
  then have "fst (sched_exit (Some frame0) first_sleeps) = Halted"
    by (simp add: sched_exit_def Let_def first_sleeps_eq)
  then show ?thesis using first_sleeps_eq by (simp add: task_at_def)
qed

text \<open>
  \<open>sched_kill\<close> stores its result in the frame after \<open>sched_signal_at\<close> has switched to the target: the target goes
  on with 0 in \<open>rax\<close>, whatever it held, and the caller, whose registers were saved before, does not get the result.
\<close>

lemma kill_result_misplaced:
  assumes "sched_inv s" "live_slot s pid" "nat pid \<noteq> current s" "cr3 (task_at s (nat pid)) \<noteq> 0" "t_state (task_at s (nat pid)) = TASK_READY"
    and "user_frame (Some f)" "int_arg (rdi f) = pid" "sched_kill (Some f) s = (g, s')"
  shows "current s' = nat pid \<and> (\<exists>k. g = Some k \<and> rax k = 0) \<and> rax (ctx (task_at s' (current s))) = rax f"
proof -
  have i: "nat pid < length (tasks s)" "current s < length (tasks s)" using assms(2) sched_invD(1,3,4) [OF assms(1)] by (auto simp: live_slot_def)
  let ?u = "upd_task (nat pid) (\<lambda>t. t\<lparr>pending := pending t OR sig_bit SIGTERM, exit_code := ucast (rsi f AND 0xFF)\<rparr>) s"
  have w: "wake_blocked (nat pid) ?u = ?u" using assms(5) i by (simp add: wake_blocked_def task_at_upd)
  have b: "sig_bit SIGTERM \<noteq> 0" by (simp add: sig_bit_def SIGTERM_def SIGINT_def PEND_TERM_def)
  have r: "t_state (task_at ?u (nat pid)) = TASK_READY" using assms(5) i by (simp add: task_at_upd)
  show ?thesis using assms(2-8) b i r
    by (auto simp: sched_kill_def sched_kill_at_def sched_signal_at_def Let_def w load_task_def upd_cur_def task_at_upd save_task_eq regs.truncate_def)
qed

end
