(* ===== verification/Fat_Name.thy ===== *)
theory Fat_Name
  imports Prelude
begin

text \<open>
  File names of \<open>kernel/fs.c\<close>: 8.3 names, their lower-case form, VFAT long names spread over
  directory entries, and the alias of a long name. A name is the C string without its terminator;
  a directory entry is a list of 32 bytes.
\<close>

definition NAME_MAX :: nat where "NAME_MAX = 16"
definition LFN_CHARS :: nat where "LFN_CHARS = 13"
definition LFN_MAX :: nat where "LFN_MAX = 2"

definition byte :: "char \<Rightarrow> u8" where "byte c = of_nat (of_char c)"
definition chr :: "u8 \<Rightarrow> char" where "chr b = char_of (unat b)"

definition lfn_slot :: "nat list" where
  "lfn_slot = [1, 3, 5, 7, 9, 14, 16, 18, 20, 22, 24, 28, 30]"

section \<open>8.3 names\<close>

definition is_lower :: "char \<Rightarrow> bool" where
  "is_lower c \<longleftrightarrow> 97 \<le> (of_char c :: nat) \<and> (of_char c :: nat) \<le> 122"

definition is_upper :: "char \<Rightarrow> bool" where
  "is_upper c \<longleftrightarrow> 65 \<le> (of_char c :: nat) \<and> (of_char c :: nat) \<le> 90"

definition is_digit :: "char \<Rightarrow> bool" where
  "is_digit c \<longleftrightarrow> 48 \<le> (of_char c :: nat) \<and> (of_char c :: nat) \<le> 57"

definition name_char :: "char \<Rightarrow> bool" where
  "name_char c \<longleftrightarrow> is_lower c \<or> is_digit c"

definition fold_az :: "char \<Rightarrow> char" where
  "fold_az c = (if is_upper c then char_of (of_char c + 32 :: nat) else c)"

text \<open>The byte stored for a character that passed the test: upper case.\<close>

definition up_char :: "char \<Rightarrow> char" where
  "up_char c = (if is_lower c then char_of (of_char c - 32 :: nat) else c)"

text \<open>At most \<open>k\<close> characters, up to a dot if \<open>stop\<close>; \<open>None\<close> for a bad character.\<close>

fun take_83 :: "nat \<Rightarrow> bool \<Rightarrow> string \<Rightarrow> (u8 list \<times> string) option" where
  "take_83 0 stop s = Some ([], s)"
| "take_83 (Suc k) stop [] = Some ([], [])"
| "take_83 (Suc k) stop (c # s) =
     (if stop \<and> c = CHR ''.'' then Some ([], c # s)
      else if \<not> name_char (fold_az c) then None
      else case take_83 k stop s of None \<Rightarrow> None
        | Some (bs, r) \<Rightarrow> Some (byte (up_char (fold_az c)) # bs, r))"

definition pad :: "nat \<Rightarrow> u8 list \<Rightarrow> u8 list" where
  "pad n bs = bs @ replicate (n - length bs) 0x20"

definition to_83 :: "string option \<Rightarrow> u8 list option" where
  "to_83 name =
     (case name of None \<Rightarrow> None
      | Some nm \<Rightarrow>
          if nm = [] then None
          else case take_83 8 True nm of None \<Rightarrow> None
            | Some (b, rest) \<Rightarrow>
                if b = [] then None
                else case rest of
                    [] \<Rightarrow> Some (pad 8 b @ pad 3 [])
                  | c # ext \<Rightarrow>
                      if c \<noteq> CHR ''.'' then None
                      else case take_83 3 False ext of None \<Rightarrow> None
                        | Some (e, r) \<Rightarrow> if e = [] \<or> r \<noteq> [] then None else Some (pad 8 b @ pad 3 e))"

definition lower_byte :: "u8 \<Rightarrow> char" where
  "lower_byte b = fold_az (chr b)"

definition fat_name :: "u8 list \<Rightarrow> string" where
  "fat_name ent =
     (let b = map lower_byte (takeWhile (\<lambda>c. c \<noteq> 0x20) (take 8 ent));
          e = (if ent ! 8 \<noteq> 0x20 then CHR ''.'' # map lower_byte (takeWhile (\<lambda>c. c \<noteq> 0x20) (take 3 (drop 8 ent))) else [])
      in takeWhile (\<lambda>c. c \<noteq> CHR 0x00) (b @ e))"

definition lfn_ok :: "string option \<Rightarrow> bool" where
  "lfn_ok name =
     (case name of None \<Rightarrow> False
      | Some nm \<Rightarrow> nm \<noteq> [] \<and> length nm < NAME_MAX \<and> list_all (\<lambda>c. c = CHR ''.'' \<or> name_char (fold_az c)) nm)"

section \<open>Long names\<close>

definition lfn_cksum :: "u8 list \<Rightarrow> u8" where
  "lfn_cksum n83 = fold (\<lambda>b s. (if s AND 1 \<noteq> 0 then 0x80 else 0) + drop_bit 1 s + b) (take 11 n83) 0"

text \<open>One turn of the loop of \<open>lfn_store\<close>: the entry and the flag \<open>done\<close>.\<close>

definition name_at :: "string \<Rightarrow> nat \<Rightarrow> char" where
  "name_at name k = (if k < length name then name ! k else CHR 0x00)"

definition lfn_put :: "string \<Rightarrow> nat \<Rightarrow> nat \<Rightarrow> u8 list \<times> bool \<Rightarrow> u8 list \<times> bool" where
  "lfn_put name start i = (\<lambda>(ent, fin).
     if fin then (ent[lfn_slot ! i := 0xFF, lfn_slot ! i + 1 := 0xFF], True)
     else if name_at name (start + i) = CHR 0x00 then (ent, True)
     else (ent[lfn_slot ! i := byte (name_at name (start + i))], False))"

definition lfn_store :: "u8 \<Rightarrow> u8 \<Rightarrow> string \<Rightarrow> nat \<Rightarrow> u8 list" where
  "lfn_store seq ck name start =
     fst (fold (lfn_put name start) [0..<LFN_CHARS] ((replicate 32 0)[0 := seq, 11 := 0x0F, 13 := ck], False))"

fun lfn_get :: "u8 list \<Rightarrow> nat list \<Rightarrow> string \<Rightarrow> string option" where
  "lfn_get ent [] out = Some out"
| "lfn_get ent (k # ks) out =
     (if ent ! k = 0 \<and> ent ! (k + 1) = 0 then Some out
      else if ent ! (k + 1) \<noteq> 0 \<or> ent ! k < 0x20 \<or> NAME_MAX \<le> length out + 1 then None
      else lfn_get ent ks (out @ [chr (ent ! k)]))"

definition lfn_chars :: "u8 list \<Rightarrow> string \<Rightarrow> string option" where
  "lfn_chars ent out = (if ent ! 11 \<noteq> 0x0F \<or> ent ! 12 \<noteq> 0 then None else lfn_get ent lfn_slot out)"

text \<open>\<open>ents\<close> are the entries from \<open>first\<close> on.\<close>

definition lfn_want :: "nat \<Rightarrow> nat \<Rightarrow> u8" where
  "lfn_want count i = of_nat (count - i) OR (if i = 0 then 0x40 else 0)"

fun lfn_join :: "u8 list list \<Rightarrow> string \<Rightarrow> string option" where
  "lfn_join [] out = Some out"
| "lfn_join (e # es) out = (case lfn_chars e out of None \<Rightarrow> None | Some out1 \<Rightarrow> lfn_join es out1)"

definition lfn_build :: "u8 list list \<Rightarrow> nat \<Rightarrow> u8 list \<Rightarrow> string option" where
  "lfn_build ents count n83 =
     (if count = 0 \<or> LFN_MAX < count then None
      else if list_ex (\<lambda>i. ents ! i ! 0 \<noteq> lfn_want count i \<or> ents ! i ! 13 \<noteq> lfn_cksum n83) [0..<count] then None
      else case lfn_join (rev (take count ents)) [] of
          None \<Rightarrow> None
        | Some out \<Rightarrow> if out = [] then None else Some out)"

section \<open>Round trips\<close>

lemma of_char_less [simp]: "(of_char c :: nat) < 256"
  by (metis mod_less_divisor of_char_mod_256 zero_less_numeral)

lemma chr_byte [simp]: "chr (byte c) = c"
  by (simp add: chr_def byte_def unat_of_nat)

lemma unat_byte [simp]: "unat (byte c) = of_char c"
  by (simp add: byte_def unat_of_nat)

lemma take_83_spec:
  "take_83 k stop s = Some (bs, r) \<Longrightarrow>
    \<exists>p. s = p @ r \<and> bs = map (\<lambda>c. byte (up_char (fold_az c))) p \<and> length p \<le> k \<and> (\<forall>c \<in> set p. name_char (fold_az c))"
proof (induction k stop s arbitrary: bs r rule: take_83.induct)
  case (3 k stop c s)
  show ?case
  proof (cases "stop \<and> c = CHR ''.''")
    case False
    then obtain bs' where b: "take_83 k stop s = Some (bs', r)" "bs = byte (up_char (fold_az c)) # bs'" "name_char (fold_az c)"
      using 3(2) by (auto split: if_splits option.splits)
    then obtain p where "s = p @ r \<and> bs' = map (\<lambda>c. byte (up_char (fold_az c))) p \<and> length p \<le> k \<and> (\<forall>c \<in> set p. name_char (fold_az c))"
      using 3(1) False by metis
    then show ?thesis using b by (intro exI [of _ "c # p"]) simp
  qed (use 3(2) in auto)
qed auto

lemma case_codes:
  assumes "name_char c"
  shows "(if is_lower c then is_upper (up_char c) else up_char c = c)" "lower_byte (byte (up_char c)) = c"
    "byte (up_char c) \<noteq> 0x20" "c \<noteq> CHR 0x00" "c \<noteq> CHR ''.''"
proof -
  let ?n = "of_char c :: nat"
  have r: "97 \<le> ?n \<and> ?n \<le> 122 \<or> 48 \<le> ?n \<and> ?n \<le> 57" using assms by (simp add: name_char_def is_lower_def is_digit_def)
  have u: "of_char (up_char c) = (if is_lower c then ?n - 32 else ?n)"
  proof -
    have "?n - 32 < 256" using of_char_less [of c] by linarith
    then show ?thesis by (simp add: up_char_def)
  qed
  show "if is_lower c then is_upper (up_char c) else up_char c = c"
    using r u by (auto simp: is_lower_def is_upper_def up_char_def)
  show "lower_byte (byte (up_char c)) = c"
    unfolding lower_byte_def chr_byte using r by (auto simp: fold_az_def is_upper_def is_lower_def up_char_def)
  have "unat (byte (up_char c)) \<noteq> 32" using r u by (auto simp: is_lower_def)
  then show "byte (up_char c) \<noteq> 0x20" by (auto simp del: unat_byte)
  show "c \<noteq> CHR 0x00" "c \<noteq> CHR ''.''" using r by auto
qed

lemma takeWhile_pad:
  "\<forall>b \<in> set bs. b \<noteq> 0x20 \<Longrightarrow> length bs \<le> n \<Longrightarrow> takeWhile (\<lambda>c. c \<noteq> 0x20) (pad n bs) = bs \<and> length (pad n bs) = n"
  by (cases "n - length bs") (auto simp: pad_def)

text \<open>
  8.3 names survive the disk: a name that \<open>to_83\<close> accepts is stored as eleven bytes from which
  \<open>fat_name\<close> reads the name back, with its letters in lower case.
\<close>

theorem name_83_roundtrip:
  assumes "to_83 (Some name) = Some n83"
  shows "length n83 = 11 \<and> fat_name n83 = map fold_az name"
proof -
  obtain b rest where t: "take_83 8 True name = Some (b, rest)" "b \<noteq> []"
    using assms by (auto simp: to_83_def split: option.splits if_splits)
  obtain p where p: "name = p @ rest" "b = map (\<lambda>c. byte (up_char (fold_az c))) p" "length p \<le> 8" "\<forall>c \<in> set p. name_char (fold_az c)"
    using take_83_spec [OF t(1)] by blast
  have B: "takeWhile (\<lambda>c. c \<noteq> 0x20) (pad 8 b) = b \<and> length (pad 8 b) = 8"
    by (rule takeWhile_pad) (use p case_codes(3) in auto)
  have lb: "map lower_byte b = map fold_az p" using p case_codes(2) by simp
  have nz: "\<forall>c \<in> set (map fold_az p). c \<noteq> CHR 0x00" using p(4) case_codes(4) by auto
  show ?thesis
  proof (cases rest)
    case Nil
    then have n: "n83 = pad 8 b @ pad 3 []" using assms t p(1) by (auto simp: to_83_def split: if_splits)
    have e: "pad 3 [] ! 0 = 0x20" by (simp add: pad_def)
    show ?thesis using B lb nz p(1) Nil e unfolding n by (auto simp: fat_name_def Let_def nth_append pad_def takeWhile_eq_all_conv)
  next
    case (Cons d ext)
    obtain e where e: "take_83 3 False ext = Some (e, [])" "e \<noteq> []" "n83 = pad 8 b @ pad 3 e" "d = CHR ''.''"
      using assms t p(1) Cons by (auto simp: to_83_def split: option.splits if_splits)
    obtain q where q: "ext = q" "e = map (\<lambda>c. byte (up_char (fold_az c))) q" "length q \<le> 3" "\<forall>c \<in> set q. name_char (fold_az c)"
      using take_83_spec [OF e(1)] by auto
    have E: "takeWhile (\<lambda>c. c \<noteq> 0x20) (pad 3 e) = e \<and> length (pad 3 e) = 3"
      by (rule takeWhile_pad) (use q case_codes(3) in auto)
    have e0: "pad 3 e ! 0 \<noteq> 0x20" using e(2) q case_codes(3) by (cases q) (auto simp: pad_def)
    have le: "map lower_byte e = map fold_az q" using q case_codes(2) by simp
    have nz2: "\<forall>c \<in> set (map fold_az q). c \<noteq> CHR 0x00" using q(4) case_codes(4) by auto
    have dot: "fold_az CHR ''.'' = CHR ''.''" by (simp add: fold_az_def is_upper_def)
    show ?thesis using B E lb le nz nz2 e0 p(1) Cons e(4) q(1) dot unfolding e(3)
      by (auto simp: fat_name_def Let_def nth_append takeWhile_eq_all_conv)
  qed
qed

theorem name_83_roundtrip_witness: "fat_name (the (to_83 (Some ''Shell.elf''))) = ''shell.elf''"
proof -
  have "to_83 (Some ''Shell.elf'') = Some (the (to_83 (Some ''Shell.elf'')))" by code_simp
  moreover have "map fold_az ''Shell.elf'' = ''shell.elf''" by code_simp
  ultimately show ?thesis using name_83_roundtrip by metis
qed

end
