(* ===== verification/Fs_Path.thy ===== *)
theory Fs_Path
  imports Fat_Name
begin

text \<open>
  Paths of \<open>kernel/fs.c\<close>: the working directory's name \<open>g_path\<close> and the splitting of a path at
  its slashes. A string is the C string without its terminator. \<open>g_path\<close> has 80 bytes; no code
  stores anything but 0 in the last one, so a copy that stops at the limit leaves a string of 79.
\<close>

definition PATH_MAX :: nat where "PATH_MAX = 80"

abbreviation slash :: char where "slash \<equiv> CHR ''/''"

definition copy_str :: "nat \<Rightarrow> string \<Rightarrow> string \<Rightarrow> bool \<times> string" where
  "copy_str mx src dst =
     (if mx = 0 then (False, dst)
      else if mx \<le> length src then (False, take (mx - 1) src)
      else (True, src))"

definition path_reset :: string where "path_reset = ''/''"

definition last_slash :: "string \<Rightarrow> nat" where
  "last_slash p = fold (\<lambda>n k. if p ! n = slash \<and> 0 < n then n else k) [0..<length p] 0"

definition path_pop :: "string \<Rightarrow> string" where
  "path_pop p = (if last_slash p = 0 then path_reset else take (last_slash p) p)"

fun push_chars :: "string \<Rightarrow> string \<Rightarrow> bool \<times> string" where
  "push_chars g [] = (True, g)"
| "push_chars g (c # s) = (if PATH_MAX \<le> length g + 1 then (False, g) else push_chars (g @ [c]) s)"

definition path_push :: "string \<Rightarrow> string \<Rightarrow> bool \<times> string" where
  "path_push name g =
     (if name = [] then (False, g)
      else if g \<noteq> ''/''
      then (if PATH_MAX \<le> length g + 1 then (False, g) else push_chars (g @ ''/'') name)
      else push_chars g name)"

text \<open>The three returns of \<open>split_next\<close>: -1, 0 and 1, with the advanced pointer and the component.\<close>

datatype split = SErr | SEnd | SComp string string

definition split_next :: "nat \<Rightarrow> string \<Rightarrow> split" where
  "split_next mx s0 =
     (let s = dropWhile (\<lambda>c. c = slash) s0; nm = takeWhile (\<lambda>c. c \<noteq> slash) s in
      if mx = 0 then SErr
      else if s = [] then SEnd
      else if mx \<le> length nm then SErr
      else SComp nm (dropWhile (\<lambda>c. c \<noteq> slash) s))"

lemma split_next_shorter: "split_next mx s = SComp c r \<Longrightarrow> length r < length s"
proof -
  assume a: "split_next mx s = SComp c r"
  let ?d = "dropWhile (\<lambda>c. c = slash) s"
  have r: "r = dropWhile (\<lambda>c. c \<noteq> slash) ?d" "?d \<noteq> []" using a by (auto simp: split_next_def Let_def split: if_splits)
  have "hd ?d \<noteq> slash" using hd_dropWhile [of "\<lambda>c. c = slash" s] r(2) by blast
  then have "length r \<le> length (tl ?d)" using r(2) length_dropWhile_le unfolding r(1) by (cases ?d) auto
  also have "\<dots> < length ?d" using r(2) by (cases ?d) auto
  also have "\<dots> \<le> length s" by (rule length_dropWhile_le)
  finally show ?thesis .
qed

text \<open>The loop of \<open>path_apply\<close>; the caller restores the saved path when it fails.\<close>

function path_loop :: "string \<Rightarrow> string \<Rightarrow> bool \<times> string" where
  "path_loop path g =
     (case split_next NAME_MAX path of
        SErr \<Rightarrow> (False, g)
      | SEnd \<Rightarrow> (True, g)
      | SComp nm rest \<Rightarrow>
          if nm = ''.'' then path_loop rest g
          else if nm = ''..'' then path_loop rest (path_pop g)
          else case path_push nm g of (ok, g1) \<Rightarrow> if \<not> ok then (False, g1) else path_loop rest g1)"
  by pat_completeness auto
termination
  by (relation "measure (\<lambda>(p, g). length p)") (auto simp: split_next_shorter)

declare path_loop.simps [simp del]

definition path_apply :: "string option \<Rightarrow> string \<Rightarrow> bool \<times> string" where
  "path_apply path0 g =
     (case path0 of None \<Rightarrow> (False, g)
      | Some path \<Rightarrow>
          (case copy_str PATH_MAX g [] of (ok, saved) \<Rightarrow>
            if \<not> ok then (False, g)
            else case (case path of c # p \<Rightarrow> if c = slash then path_loop p path_reset else path_loop path g
                      | [] \<Rightarrow> path_loop path g) of
                (True, g1) \<Rightarrow> (True, g1)
              | (False, g1) \<Rightarrow> (False, snd (copy_str PATH_MAX saved g1))))"

section \<open>The meaning of a path\<close>

text \<open>
  The abstract directory position is the list of names from the root. \<open>pieces\<close> are the non-empty
  parts between slashes; \<open>enter\<close> moves the position by one of them; \<open>render\<close> is its name.
\<close>

fun split_sl :: "string \<Rightarrow> string list" where
  "split_sl [] = [[]]"
| "split_sl (c # s) = (if c = slash then [] # split_sl s else (c # hd (split_sl s)) # tl (split_sl s))"

definition pieces :: "string \<Rightarrow> string list" where
  "pieces s = filter (\<lambda>p. p \<noteq> []) (split_sl s)"

definition enter :: "string \<Rightarrow> string list \<Rightarrow> string list" where
  "enter c cs = (if c = ''.'' then cs else if c = ''..'' then butlast cs else cs @ [c])"

definition render :: "string list \<Rightarrow> string" where
  "render cs = (if cs = [] then ''/'' else concat (map (\<lambda>c. slash # c) cs))"

text \<open>\<open>resolve\<close>: every piece shorter than a name buffer, every position on the way shorter than \<open>g_path\<close>.\<close>

fun resolve :: "string list \<Rightarrow> string list \<Rightarrow> string list option" where
  "resolve [] cs = Some cs"
| "resolve (p # ps) cs =
     (if NAME_MAX \<le> length p \<or> PATH_MAX \<le> length (render (enter p cs)) then None else resolve ps (enter p cs))"

definition position :: "string list \<Rightarrow> bool" where
  "position cs \<longleftrightarrow> (\<forall>c \<in> set cs. c \<noteq> [] \<and> slash \<notin> set c) \<and> length (render cs) < PATH_MAX"

lemma split_sl_ne [simp]: "split_sl s \<noteq> []"
  by (induction s) auto

lemma pieces_slash: "pieces (slash # s) = pieces s"
  by (simp add: pieces_def)

lemma pieces_skip: "pieces (dropWhile (\<lambda>c. c = slash) s) = pieces s"
  by (induction s) (auto simp: pieces_slash)

lemma split_sl_app: "slash \<notin> set c \<Longrightarrow> split_sl (c @ s) = (c @ hd (split_sl s)) # tl (split_sl s)"
  by (induction c) auto

lemma split_sl_piece:
  assumes "s = [] \<or> hd s = slash" "slash \<notin> set c" "c \<noteq> []"
  shows "pieces (c @ s) = c # pieces s"
proof -
  have "hd (split_sl s) = []" "filter (\<lambda>p. p \<noteq> []) (tl (split_sl s)) = pieces s"
    using assms(1) by (cases s; auto simp: pieces_def)+
  then show ?thesis using split_sl_app [OF assms(2), of s] assms(3) unfolding pieces_def by simp
qed

lemma split_next_pieces:
  assumes "0 < mx"
  shows "case split_next mx s of
      SEnd \<Rightarrow> pieces s = []
    | SErr \<Rightarrow> \<exists>p ps. pieces s = p # ps \<and> mx \<le> length p
    | SComp c r \<Rightarrow> pieces s = c # pieces r \<and> length c < mx \<and> c \<noteq> [] \<and> slash \<notin> set c"
proof -
  define d where "d = dropWhile (\<lambda>c. c = slash) s"
  let ?c = "takeWhile (\<lambda>c. c \<noteq> slash) d" and ?r = "dropWhile (\<lambda>c. c \<noteq> slash) d"
  have p: "pieces s = pieces d" by (simp add: d_def pieces_skip)
  show ?thesis
  proof (cases "d = []")
    case True
    then show ?thesis using p assms by (simp add: split_next_def Let_def d_def [symmetric]) (simp add: pieces_def)
  next
    case False
    have h: "hd d \<noteq> slash" using hd_dropWhile [of "\<lambda>c. c = slash" s] False unfolding d_def by blast
    have c: "?c \<noteq> []" "slash \<notin> set ?c" using h False by (cases d; auto dest: set_takeWhileD)+
    have r: "?r = [] \<or> hd ?r = slash" using hd_dropWhile [of "\<lambda>c. c \<noteq> slash" d] by blast
    have "pieces s = ?c # pieces ?r"
      using split_sl_piece [OF r c(2) c(1)] unfolding p by simp
    then show ?thesis using c assms False by (simp add: split_next_def Let_def d_def [symmetric])
  qed
qed

text \<open>One step on the path's name is one step on the position.\<close>

lemma last_slash_snoc: "last_slash (p @ [c]) = (if c = slash \<and> p \<noteq> [] then length p else last_slash p)"
proof -
  have "fold (\<lambda>n k. if (p @ [c]) ! n = slash \<and> 0 < n then n else k) [0..<length p] 0 = last_slash p"
    unfolding last_slash_def by (rule fold_cong) (auto simp: nth_append)
  then show ?thesis unfolding last_slash_def by simp
qed

lemma last_slash_app: "slash \<notin> set c \<Longrightarrow> last_slash (p @ slash # c) = length p"
proof (induction c rule: rev_induct)
  case Nil
  then show ?case using last_slash_snoc [of p slash] by (cases p) (auto simp: last_slash_def)
next
  case (snoc x c)
  then show ?case using last_slash_snoc [of "p @ slash # c" x] by auto
qed

lemma render_snoc: "render (cs @ [c]) = (if cs = [] then [] else render cs) @ slash # c"
  by (simp add: render_def)

lemma render_root: "render cs = ''/'' \<longleftrightarrow> cs = []" if "\<forall>c \<in> set cs. c \<noteq> []"
  using that by (cases cs) (auto simp: render_def)

lemma path_pop_render:
  assumes "\<forall>c \<in> set cs. slash \<notin> set c"
  shows "path_pop (render cs) = render (butlast cs)"
proof (cases cs rule: rev_cases)
  case Nil
  then show ?thesis by (simp add: path_pop_def render_def path_reset_def last_slash_def)
next
  case (snoc ds c)
  have "last_slash (render cs) = length (if ds = [] then [] else render ds)"
    unfolding snoc render_snoc using last_slash_app snoc assms by simp
  moreover have "ds \<noteq> [] \<Longrightarrow> render ds \<noteq> []" by (simp add: render_def)
  ultimately show ?thesis using snoc by (auto simp: path_pop_def render_snoc path_reset_def render_def [of "[]"])
qed

lemma push_chars_spec:
  "length g < PATH_MAX \<Longrightarrow> fst (push_chars g s) = (length g + length s < PATH_MAX) \<and>
     (length g + length s < PATH_MAX \<longrightarrow> push_chars g s = (True, g @ s))"
  by (induction s arbitrary: g) auto

lemma path_push_render:
  assumes "position cs" "c \<noteq> []"
  shows "fst (path_push c (render cs)) = (length (render (cs @ [c])) < PATH_MAX)"
    "length (render (cs @ [c])) < PATH_MAX \<Longrightarrow> path_push c (render cs) = (True, render (cs @ [c]))"
proof -
  let ?g = "if cs = [] then ''/'' else render cs @ ''/''"
  have root: "render cs = ''/'' \<longleftrightarrow> cs = []" using assms(1) by (intro render_root) (auto simp: position_def)
  have r: "render (cs @ [c]) = ?g @ c" by (simp add: render_snoc)
  have len: "length (render cs) < PATH_MAX" using assms(1) by (simp add: position_def)
  have c: "0 < length c" using assms(2) by simp
  have p: "path_push c (render cs) =
      (if cs \<noteq> [] \<and> PATH_MAX \<le> length (render cs) + 1 then (False, render cs) else push_chars ?g c)"
    using assms(2) root by (simp add: path_push_def render_def [of "[]"])
  have g: "\<not> (cs \<noteq> [] \<and> PATH_MAX \<le> length (render cs) + 1) \<Longrightarrow> length ?g < PATH_MAX"
    by (auto simp: PATH_MAX_def)
  show "fst (path_push c (render cs)) = (length (render (cs @ [c])) < PATH_MAX)"
    using push_chars_spec [OF g, of c] c unfolding p r by auto
  show "length (render (cs @ [c])) < PATH_MAX \<Longrightarrow> path_push c (render cs) = (True, render (cs @ [c]))"
    using push_chars_spec [OF g, of c] c unfolding p r by auto
qed

lemma position_butlast: "position cs \<Longrightarrow> position (butlast cs)"
proof (cases cs rule: rev_cases)
  case (snoc ds c)
  moreover assume "position cs"
  ultimately show ?thesis by (cases "ds = []") (auto simp: position_def render_snoc render_def [of "[]"] PATH_MAX_def)
qed simp

lemma path_loop_resolve:
  "position cs \<Longrightarrow>
    (case resolve (pieces path) cs of
       Some cs' \<Rightarrow> path_loop path (render cs) = (True, render cs') \<and> position cs'
     | None \<Rightarrow> \<not> fst (path_loop path (render cs)))"
proof (induction "length path" arbitrary: path cs rule: less_induct)
  case less
  note sp = split_next_pieces [of NAME_MAX path]
  show ?case
  proof (cases "split_next NAME_MAX path")
    case SErr
    then show ?thesis using sp by (auto simp: NAME_MAX_def path_loop.simps [of path])
  next
    case SEnd
    then show ?thesis using sp less.prems by (auto simp: NAME_MAX_def path_loop.simps [of path])
  next
    case (SComp c r)
    have pc: "pieces path = c # pieces r" "length c < NAME_MAX" "c \<noteq> []" "slash \<notin> set c"
      using sp SComp by (auto simp: NAME_MAX_def)
    note IH = less.hyps [OF split_next_shorter [OF SComp]]
    have pos: "length (render (enter c cs)) < PATH_MAX \<Longrightarrow> position (enter c cs)"
      using less.prems pc position_butlast [OF less.prems] by (auto simp: enter_def position_def dest: in_set_butlastD)
    consider (here) "c = ''.''" | (up) "c = ''..''" | (down) "c \<noteq> ''.''" "c \<noteq> ''..''" by blast
    then show ?thesis
    proof cases
      case here
      have "path_loop path (render cs) = path_loop r (render cs)" "enter c cs = cs"
        using SComp here by (simp_all add: path_loop.simps [of path] enter_def)
      then show ?thesis using IH [OF less.prems] pc less.prems by (simp add: position_def split: option.splits)
    next
      case up
      have b: "position (butlast cs)" by (rule position_butlast [OF less.prems])
      have pop: "path_pop (render cs) = render (butlast cs)"
        using less.prems by (intro path_pop_render) (simp add: position_def)
      have "path_loop path (render cs) = path_loop r (render (butlast cs))" "enter c cs = butlast cs"
        using SComp up pop by (simp_all add: path_loop.simps [of path] enter_def)
      then show ?thesis using IH [OF b] pc b by (simp add: position_def split: option.splits)
    next
      case down
      note push = path_push_render [OF less.prems pc(3)]
      show ?thesis
      proof (cases "length (render (cs @ [c])) < PATH_MAX")
        case True
        have "path_loop path (render cs) = path_loop r (render (cs @ [c]))" "enter c cs = cs @ [c]"
          using SComp down push(2) [OF True] by (simp_all add: path_loop.simps [of path] enter_def)
        then show ?thesis using IH [OF pos] pc True by (simp split: option.splits)
      next
        case False
        obtain g1 where "path_push c (render cs) = (False, g1)" using push(1) False by (cases "path_push c (render cs)") auto
        then have "\<not> fst (path_loop path (render cs))" "enter c cs = cs @ [c]"
          using SComp down by (simp_all add: path_loop.simps [of path] enter_def)
        then show ?thesis using pc False by simp
      qed
    qed
  qed
qed

text \<open>
  C34. Changing the name of the working directory: \<open>path_apply\<close> moves the position step by step
  along the path's components, from the root for an absolute path. It succeeds exactly when every
  component fits a name buffer and every position on the way fits \<open>g_path\<close>, and otherwise
  leaves \<open>g_path\<close> as it was.
\<close>

theorem path_apply_resolves:
  assumes "position cs"
  shows "path_apply (Some path) (render cs) =
    (case resolve (pieces path) (if path \<noteq> [] \<and> hd path = slash then [] else cs) of
       Some cs' \<Rightarrow> (True, render cs')
     | None \<Rightarrow> (False, render cs))"
proof -
  have cp: "copy_str PATH_MAX (render cs) d = (True, render cs)" for d
    using assms by (auto simp: copy_str_def position_def PATH_MAX_def)
  let ?base = "if path \<noteq> [] \<and> hd path = slash then [] else cs"
  let ?run = "case path of c # p \<Rightarrow> if c = slash then path_loop p path_reset else path_loop path (render cs)
              | [] \<Rightarrow> path_loop path (render cs)"
  have root: "position []" "path_reset = render []"
    by (auto simp: position_def render_def path_reset_def PATH_MAX_def)
  have run: "case resolve (pieces path) ?base of Some cs' \<Rightarrow> ?run = (True, render cs') | None \<Rightarrow> \<not> fst ?run"
  proof (cases "path \<noteq> [] \<and> hd path = slash")
    case True
    then obtain p where "path = slash # p" by (cases path) auto
    then show ?thesis using path_loop_resolve [OF root(1), of p] root(2)
      by (auto simp: pieces_slash split: option.splits)
  next
    case False
    then have "?run = path_loop path (render cs)" by (cases path) auto
    then show ?thesis using path_loop_resolve [OF assms, of path] False by (auto split: option.splits)
  qed
  show ?thesis
  proof (cases "resolve (pieces path) ?base")
    case None
    then have "\<not> fst ?run" using run by simp
    then obtain g1 where "?run = (False, g1)" by (cases ?run) auto
    then show ?thesis using None cp by (simp add: path_apply_def)
  next
    case (Some cs')
    then show ?thesis using run cp by (simp add: path_apply_def)
  qed
qed

theorem path_apply_resolves_witness:
  "path_apply (Some ''../lib//./x'') ''/usr/bin'' = (True, ''/usr/lib/x'')"
proof -
  have p: "position [''usr'', ''bin'']" by (simp add: position_def render_def PATH_MAX_def)
  have r: "render [''usr'', ''bin''] = ''/usr/bin''" by (simp add: render_def)
  have "resolve (pieces ''../lib//./x'') [''usr'', ''bin''] = Some [''usr'', ''lib'', ''x'']" by code_simp
  then show ?thesis using path_apply_resolves [OF p, of "''../lib//./x''"] unfolding r by (simp add: render_def)
qed

end
