(* ===== verification/Fat.thy ===== *)
theory Fat
  imports Prelude
begin

text \<open>
  The FAT12 table of \<open>kernel/fs.c\<close>: packed 12-bit entries in a byte array, allocation, freeing and
  resizing of cluster chains. The table is the list of bytes behind \<open>g_fat\<close>; \<open>g_fatsz\<close> and
  \<open>g_clusters\<close> are arguments.
\<close>

definition SEC :: u32 where "SEC = 512"
definition CHAIN_MAX :: nat where "CHAIN_MAX = 8"
definition FAT12_EOF :: u32 where "FAT12_EOF = 0xFF8"
definition FAT12_MAX :: u32 where "FAT12_MAX = 4084"

definition fat_bytes :: "u32 \<Rightarrow> u32" where
  "fat_bytes fatsz = fatsz * SEC"

definition fat12_ent :: "u32 \<Rightarrow> u8 list \<Rightarrow> u32 \<Rightarrow> u32" where
  "fat12_ent fatsz fat cl =
     (let off = cl + cl div 2 in
      if fat_bytes fatsz \<le> off + 1 then FAT12_EOF
      else let v = ucast (fat ! unat off) OR push_bit 8 (ucast (fat ! unat (off + 1)))
           in if cl AND 1 \<noteq> 0 then drop_bit 4 v else v AND 0xFFF)"

definition fat12_set :: "u32 \<Rightarrow> u32 \<Rightarrow> u32 \<Rightarrow> u8 list \<Rightarrow> u8 list" where
  "fat12_set fatsz cl val0 fat =
     (let off = cl + cl div 2; val = val0 AND 0xFFF in
      if fat_bytes fatsz \<le> off + 1 then fat
      else if cl AND 1 \<noteq> 0
      then let fat1 = fat[unat off := ucast ((ucast (fat ! unat off) AND 0x0F) OR push_bit 4 (val AND 0x0F))]
           in fat1[unat (off + 1) := ucast (drop_bit 4 val)]
      else let fat1 = fat[unat off := ucast val]
           in fat1[unat (off + 1) := ucast ((ucast (fat1 ! unat (off + 1)) AND 0xF0) OR drop_bit 8 val)])"

text \<open>From the last cluster down to 2; 0 when none is free.\<close>

definition fat_alloc :: "u32 \<Rightarrow> u32 \<Rightarrow> u8 list \<Rightarrow> u32 \<times> u8 list" where
  "fat_alloc fatsz clusters fat =
     (case find (\<lambda>n. fat12_ent fatsz fat (of_nat n) = 0) (rev [2..<unat clusters + 2]) of
        None \<Rightarrow> (0, fat)
      | Some n \<Rightarrow> (of_nat n, fat12_set fatsz (of_nat n) FAT12_EOF fat))"

text \<open>The clusters a loop of the source visits from \<open>cl\<close>, at most \<open>k\<close> of them.\<close>

definition in_chain :: "u32 \<Rightarrow> bool" where
  "in_chain cl \<longleftrightarrow> 2 \<le> cl \<and> cl < FAT12_EOF"

fun chain :: "nat \<Rightarrow> (u32 \<Rightarrow> u32) \<Rightarrow> u32 \<Rightarrow> u32 list" where
  "chain 0 nx cl = []"
| "chain (Suc k) nx cl = (if in_chain cl then cl # chain k nx (nx cl) else [])"

fun free_chain :: "nat \<Rightarrow> u32 \<Rightarrow> u32 \<Rightarrow> u8 list \<Rightarrow> u8 list" where
  "free_chain 0 fatsz cl fat = fat"
| "free_chain (Suc k) fatsz cl fat =
     (if in_chain cl then free_chain k fatsz (fat12_ent fatsz fat cl) (fat12_set fatsz cl 0 fat) else fat)"

definition fat_free_chain :: "u32 \<Rightarrow> u32 \<Rightarrow> u8 list \<Rightarrow> u8 list" where
  "fat_free_chain fatsz cl fat = free_chain CHAIN_MAX fatsz cl fat"

text \<open>
  The growing loop of \<open>fat_resize\<close>: \<open>cls\<close> holds the clusters so far. The result is the list of
  clusters, \<open>None\<close> when no cluster was free, and the table.
\<close>

fun grow_chain :: "nat \<Rightarrow> u32 \<Rightarrow> u32 \<Rightarrow> u32 list \<Rightarrow> u32 \<Rightarrow> u8 list \<Rightarrow> u32 list option \<times> u32 \<times> u8 list" where
  "grow_chain 0 fatsz clusters cls start fat = (Some cls, start, fat)"
| "grow_chain (Suc k) fatsz clusters cls start fat =
     (case fat_alloc fatsz clusters fat of (n, fat1) \<Rightarrow>
        if n < 2 then (None, start, fat1)
        else if cls \<noteq> [] then grow_chain k fatsz clusters (cls @ [n]) start (fat12_set fatsz (last cls) n fat1)
        else grow_chain k fatsz clusters [n] n fat1)"

definition cut_chain :: "u32 \<Rightarrow> nat \<Rightarrow> u32 list \<Rightarrow> u8 list \<Rightarrow> u8 list" where
  "cut_chain fatsz need cls fat = fold (\<lambda>cl fat. fat12_set fatsz cl 0 fat) (rev (drop need cls)) fat"

text \<open>The result is the success flag, the value left in \<open>*start\<close> and the table.\<close>

definition fat_resize :: "u32 \<Rightarrow> u32 \<Rightarrow> u32 \<Rightarrow> u32 \<Rightarrow> u8 list \<Rightarrow> bool \<times> u32 \<times> u8 list" where
  "fat_resize fatsz clusters start need fat =
     (if need = 0 \<or> of_nat CHAIN_MAX < need then (False, start, fat)
      else let n = unat need; cls = chain CHAIN_MAX (fat12_ent fatsz fat) start in
        case grow_chain (n - length cls) fatsz clusters cls start fat of
          (None, start1, fat1) \<Rightarrow> (False, start1, fat1)
        | (Some cls1, start1, fat1) \<Rightarrow>
            let fat2 = cut_chain fatsz n cls1 fat1
            in (True, cls1 ! 0, fat12_set fatsz (cls1 ! (n - 1)) FAT12_EOF fat2))"

section \<open>The table as a function\<close>

text \<open>\<open>fat_ok\<close>: the bytes are there, and every cluster up to the last has its entry in the table.\<close>

definition valid_cl :: "u32 \<Rightarrow> u32 \<Rightarrow> bool" where
  "valid_cl fatsz cl \<longleftrightarrow> unat cl < 0x1000 \<and> unat cl + unat cl div 2 + 1 < unat fatsz * 512"

definition fat_ok :: "u32 \<Rightarrow> u8 list \<Rightarrow> bool" where
  "fat_ok fatsz fat \<longleftrightarrow> unat fatsz \<le> 4 \<and> unat fatsz * 512 \<le> length fat"

lemma fat_off:
  assumes "unat fatsz \<le> 4" "unat cl < 0x1000"
  shows "unat (cl + cl div 2) = unat cl + unat cl div 2" "unat (cl + cl div 2 + 1) = unat cl + unat cl div 2 + 1"
    "fat_bytes fatsz \<le> cl + cl div 2 + 1 \<longleftrightarrow> unat fatsz * 512 \<le> unat cl + unat cl div 2 + 1"
proof -
  have d: "unat (cl div 2) = unat cl div 2" by (simp add: unat_div)
  have s: "unat cl + unat cl div 2 + 1 < 2 ^ 32" using assms(2) by simp
  show a: "unat (cl + cl div 2) = unat cl + unat cl div 2" using s d unat_add_lt [of cl "cl div 2"] by simp
  show b: "unat (cl + cl div 2 + 1) = unat cl + unat cl div 2 + 1"
    using s a unat_add_lt [of "cl + cl div 2" 1] by simp
  have "unat (fat_bytes fatsz) = unat fatsz * 512"
    using assms(1) by (simp add: fat_bytes_def SEC_def unat_word_ariths)
  then show "fat_bytes fatsz \<le> cl + cl div 2 + 1 \<longleftrightarrow> unat fatsz * 512 \<le> unat cl + unat cl div 2 + 1"
    unfolding word_le_nat_alt b by simp
qed

text \<open>The four byte patterns: an entry at an even or odd index, read and written.\<close>

lemma nibbles: "(0xFFF :: u32) = mask 12" "(0x0F :: u32) = mask 4" "(0xF0 :: u32) = push_bit 4 (mask 4)"
  by (simp_all add: mask_eq_exp_minus_1 push_bit_eq_mult)

lemma even_same: "(ucast (ucast v :: u8) OR push_bit 8 (ucast (ucast ((ucast (b :: u8) AND 0xF0) OR drop_bit 8 v) :: u8))) AND 0xFFF = (v AND 0xFFF :: u32)"
  if "v AND 0xFFF = v"
proof (rule bit_word_eqI)
  fix n assume "n < LENGTH(32)"
  have "bit v n \<Longrightarrow> n < 12" using that unfolding nibbles by (metis bit_and_iff bit_mask_iff)
  then show "bit ((ucast (ucast v :: u8) OR push_bit 8 (ucast (ucast ((ucast b AND 0xF0) OR drop_bit 8 v) :: u8))) AND 0xFFF :: u32) n = bit (v AND 0xFFF) n"
    unfolding nibbles by (auto simp: bit_simps)
qed

lemma odd_same: "drop_bit 4 (ucast (ucast ((ucast (a :: u8) AND 0x0F) OR push_bit 4 (v AND 0x0F)) :: u8) OR push_bit 8 (ucast (ucast (drop_bit 4 v) :: u8))) = (v :: u32)"
  if "v AND 0xFFF = v"
proof (rule bit_word_eqI)
  fix n assume "n < LENGTH(32)"
  have "bit v n \<Longrightarrow> n < 12" using that unfolding nibbles by (metis bit_and_iff bit_mask_iff)
  then show "bit (drop_bit 4 (ucast (ucast ((ucast a AND 0x0F) OR push_bit 4 (v AND 0x0F)) :: u8) OR push_bit 8 (ucast (ucast (drop_bit 4 v) :: u8))) :: u32) n = bit v n"
    unfolding nibbles by (cases "n < 4") (auto simp: bit_simps not_less)
qed

lemma odd_after_even: "drop_bit 4 (ucast (ucast ((ucast (b :: u8) AND 0xF0) OR drop_bit 8 v) :: u8) OR push_bit 8 (ucast (c :: u8))) =
    (drop_bit 4 (ucast b OR push_bit 8 (ucast c)) :: u32)" if "(v :: u32) AND 0xFFF = v"
proof (rule bit_word_eqI)
  fix n assume "n < LENGTH(32)"
  have "bit v (n + 12) = False" using that unfolding nibbles by (metis bit_and_iff bit_mask_iff not_add_less2)
  then show "bit (drop_bit 4 (ucast (ucast ((ucast b AND 0xF0) OR drop_bit 8 v) :: u8) OR push_bit 8 (ucast c)) :: u32) n =
      bit (drop_bit 4 (ucast b OR push_bit 8 (ucast c)) :: u32) n"
    unfolding nibbles by (auto simp: bit_simps add.commute dest: bit_imp_le_length)
qed

lemma even_after_odd: "(ucast (a :: u8) OR push_bit 8 (ucast (ucast ((ucast (b :: u8) AND 0x0F) OR push_bit 4 (v AND 0x0F :: u32)) :: u8))) AND 0xFFF =
    ((ucast a OR push_bit 8 (ucast b)) AND 0xFFF :: u32)"
  unfolding nibbles by (rule bit_word_eqI) (auto simp: bit_simps dest: bit_imp_le_length)

lemma set_length [simp]: "length (fat12_set fatsz cl v fat) = length fat"
  by (simp add: fat12_set_def Let_def)

lemma set_ok [simp]: "fat_ok fatsz (fat12_set fatsz cl v fat) = fat_ok fatsz fat"
  by (simp add: fat_ok_def)

lemma odd_bit: "(cl :: u32) AND 1 \<noteq> 0 \<longleftrightarrow> odd (unat cl)"
proof -
  have "unat (cl AND 1) = unat cl mod 2" using unat_and_mask [of cl 1] by (simp add: mask_eq_exp_minus_1)
  then show ?thesis by (metis odd_iff_mod_2_eq_one parity_cases unat_0 unat_eq_0 zero_neq_one)
qed

text \<open>Writing an entry changes that entry and no other, although neighbours share a byte.\<close>

lemma ent_set:
  assumes ok: "fat_ok fatsz fat" and c: "valid_cl fatsz c" and d: "valid_cl fatsz d"
  shows "fat12_ent fatsz (fat12_set fatsz c v fat) d = (if d = c then v AND 0xFFF else fat12_ent fatsz fat d)"
proof -
  have z: "unat fatsz \<le> 4" and len: "unat fatsz * 512 \<le> length fat" using ok by (auto simp: fat_ok_def)
  have cb: "unat c < 0x1000" "unat c + unat c div 2 + 1 < length fat" and db: "unat d < 0x1000" "unat d + unat d div 2 + 1 < length fat"
    using c d len by (auto simp: valid_cl_def)
  note C = fat_off [OF z cb(1)] and D = fat_off [OF z db(1)]
  have g: "\<not> fat_bytes fatsz \<le> c + c div 2 + 1" "\<not> fat_bytes fatsz \<le> d + d div 2 + 1"
    unfolding C(3) D(3) using c d by (auto simp: valid_cl_def)
  define w where "w = v AND 0xFFF"
  have v: "w AND 0xFFF = w" by (simp add: w_def and.assoc)
  have same: "d = c \<longleftrightarrow> unat d = unat c" by (auto simp: word_eq_by_unat)
  obtain k j where kj: "unat c = 2 * k \<or> unat c = 2 * k + 1" "unat d = 2 * j \<or> unat d = 2 * j + 1"
    by (metis oddE evenE)
  have ent: "fat12_ent fatsz f d = (if odd (unat d) then drop_bit 4 (ucast (f ! (unat d + unat d div 2)) OR push_bit 8 (ucast (f ! (unat d + unat d div 2 + 1))))
      else (ucast (f ! (unat d + unat d div 2)) OR push_bit 8 (ucast (f ! (unat d + unat d div 2 + 1)))) AND 0xFFF)" for f
    using g(2) unfolding fat12_ent_def Let_def odd_bit D(1,2) by simp
  have st: "fat12_set fatsz c v fat = (let o1 = unat c + unat c div 2 in if odd (unat c)
      then fat[o1 := ucast ((ucast (fat ! o1) AND 0x0F) OR push_bit 4 (w AND 0x0F)), o1 + 1 := ucast (drop_bit 4 w)]
      else fat[o1 := ucast w, o1 + 1 := ucast ((ucast (fat ! (o1 + 1)) AND 0xF0) OR drop_bit 8 w)])"
    using g(1) unfolding fat12_set_def Let_def odd_bit C(1,2) w_def by simp
  show ?thesis
    using kj(1)
  proof
    assume k: "unat c = 2 * k"
    have b: "3 * k + 1 < length fat" using cb(2) k by simp
    show ?thesis using kj(2)
    proof
      assume j: "unat d = 2 * j"
      have "3 * j \<noteq> 3 * k + 1" "3 * j + 1 \<noteq> 3 * k" by presburger+
      then show ?thesis using even_same [OF v] v b unfolding ent st same j k w_def [symmetric] Let_def by (cases "j = k") (auto simp: nth_list_update)
    next
      assume j: "unat d = 2 * j + 1"
      have "3 * j + 2 \<noteq> 3 * k + 1" "3 * j + 1 \<noteq> 3 * k" "3 * j + 2 \<noteq> 3 * k" "2 * j + 1 \<noteq> 2 * k" by presburger+
      then show ?thesis using odd_after_even [OF v] b unfolding ent st same j k w_def [symmetric] Let_def by (cases "j = k") (auto simp: nth_list_update)
    qed
  next
    assume k: "unat c = 2 * k + 1"
    have b: "3 * k + 2 < length fat" using cb(2) k by simp
    show ?thesis using kj(2)
    proof
      assume j: "unat d = 2 * j"
      have "3 * j \<noteq> 3 * k + 1" "3 * j \<noteq> 3 * k + 2" "3 * j + 1 \<noteq> 3 * k + 2" "2 * j \<noteq> 2 * k + 1" by presburger+
      then show ?thesis using even_after_odd b unfolding ent st same j k w_def [symmetric] Let_def by (cases "j = k") (auto simp: nth_list_update)
    next
      assume j: "unat d = 2 * j + 1"
      have "3 * j + 1 \<noteq> 3 * k + 2" "3 * j + 2 \<noteq> 3 * k + 1" by presburger+
      then show ?thesis using odd_same [OF v] b unfolding ent st same j k w_def [symmetric] Let_def by (cases "j = k") (auto simp: nth_list_update)
    qed
  qed
qed

section \<open>Allocation\<close>

lemma ent_0_valid: "fat_ok fatsz fat \<Longrightarrow> unat cl < 0x1000 \<Longrightarrow> fat12_ent fatsz fat cl = 0 \<Longrightarrow> valid_cl fatsz cl"
  using fat_off(3) [of fatsz cl] by (auto simp: fat12_ent_def Let_def fat_ok_def valid_cl_def FAT12_EOF_def not_le split: if_splits)

lemma set_self: "fat_ok fatsz fat \<Longrightarrow> valid_cl fatsz c \<Longrightarrow> valid_cl fatsz d \<Longrightarrow>
    fat12_ent fatsz (fat12_set fatsz c FAT12_EOF fat) d = (if d = c then FAT12_EOF else fat12_ent fatsz fat d)"
  "fat_ok fatsz fat \<Longrightarrow> valid_cl fatsz c \<Longrightarrow> valid_cl fatsz d \<Longrightarrow>
    fat12_ent fatsz (fat12_set fatsz c 0 fat) d = (if d = c then 0 else fat12_ent fatsz fat d)"
  "fat_ok fatsz fat \<Longrightarrow> valid_cl fatsz c \<Longrightarrow> valid_cl fatsz d \<Longrightarrow> unat n < 0x1000 \<Longrightarrow>
    fat12_ent fatsz (fat12_set fatsz c n fat) d = (if d = c then n else fat12_ent fatsz fat d)"
proof -
  assume "unat n < 0x1000"
  then have "n AND 0xFFF = n" unfolding nibbles by (simp add: word_eq_by_unat unat_and_mask)
  then show "fat_ok fatsz fat \<Longrightarrow> valid_cl fatsz c \<Longrightarrow> valid_cl fatsz d \<Longrightarrow>
      fat12_ent fatsz (fat12_set fatsz c n fat) d = (if d = c then n else fat12_ent fatsz fat d)" by (simp add: ent_set)
qed (simp_all add: ent_set FAT12_EOF_def)

lemma fat_alloc_spec:
  assumes ok: "fat_ok fatsz fat" and cs: "unat clusters \<le> 4084" and run: "fat_alloc fatsz clusters fat = (n, fat')"
  shows "fat_ok fatsz fat' \<and> (if n < 2 then fat' = fat \<and> (\<forall>m. 2 \<le> m \<and> m < unat clusters + 2 \<longrightarrow> fat12_ent fatsz fat (of_nat m) \<noteq> 0)
    else in_chain n \<and> valid_cl fatsz n \<and> unat n < unat clusters + 2 \<and> fat12_ent fatsz fat n = 0 \<and> fat' = fat12_set fatsz n FAT12_EOF fat)"
proof (cases "find (\<lambda>n. fat12_ent fatsz fat (of_nat n) = 0) (rev [2..<unat clusters + 2])")
  case None
  then have "n = 0" "fat' = fat" using run by (simp_all add: fat_alloc_def del: upt_Suc)
  then show ?thesis using None ok by (auto simp: find_None_iff simp del: upt_Suc)
next
  case (Some m)
  have m: "2 \<le> m" "m < unat clusters + 2" "fat12_ent fatsz fat (of_nat m) = 0"
    using find_in [OF Some] by (simp_all del: upt_Suc)
  have n: "n = of_nat m" "fat' = fat12_set fatsz n FAT12_EOF fat" using run Some by (auto simp: fat_alloc_def simp del: upt_Suc)
  have u: "unat n = m" using m(2) cs n(1) by (simp add: unat_of_nat)
  have "\<not> n < 2" "in_chain n" using m u cs by (auto simp: in_chain_def word_less_nat_alt word_le_nat_alt FAT12_EOF_def)
  then show ?thesis using ent_0_valid [OF ok, of n] m n u cs ok by simp
qed

section \<open>Chains\<close>

lemma chain_length: "length (chain k nx c) \<le> k"
  by (induction k nx c rule: chain.induct) auto

lemma chain_in: "\<forall>c \<in> set (chain k nx c0). in_chain c"
  by (induction k nx c0 rule: chain.induct) auto

lemma chain_Nil: "chain (Suc k) nx c = [] \<longleftrightarrow> \<not> in_chain c"
  by simp

text \<open>Neighbours are linked, and a chain that is not cut off ends outside.\<close>

definition linked :: "(u32 \<Rightarrow> u32) \<Rightarrow> u32 list \<Rightarrow> bool" where
  "linked nx cls \<longleftrightarrow> (\<forall>i. Suc i < length cls \<longrightarrow> nx (cls ! i) = cls ! Suc i)"

lemma linked_Cons: "linked nx (c # cls) \<longleftrightarrow> (cls \<noteq> [] \<longrightarrow> nx c = hd cls) \<and> linked nx cls"
proof (cases cls)
  case (Cons d ds)
  have "linked nx (c # d # ds) \<longleftrightarrow> (\<forall>i < Suc (length ds). nx ((c # d # ds) ! i) = (d # ds) ! i)"
    by (simp add: linked_def)
  also have "\<dots> \<longleftrightarrow> nx c = d \<and> linked nx (d # ds)" unfolding All_less_Suc2 by (simp add: linked_def)
  finally show ?thesis using Cons by simp
qed (simp add: linked_def)

lemma linked_append: "linked nx (xs @ [x]) \<longleftrightarrow> linked nx xs \<and> (xs \<noteq> [] \<longrightarrow> nx (last xs) = x)"
  by (induction xs) (auto simp: linked_Cons linked_def [of _ "[]"])

lemma chain_linked: "linked nx (chain k nx c)"
proof (induction k nx c rule: chain.induct)
  case (2 k nx cl)
  then show ?case by (cases k) (auto simp: linked_Cons linked_def [of _ "[]"])
qed (simp add: linked_def)

lemma chain_of_linked:
  assumes "linked nx cls" "\<forall>c \<in> set cls. in_chain c" "cls \<noteq> []" "length cls \<le> k" "\<not> in_chain (nx (last cls)) \<or> length cls = k"
  shows "chain k nx (hd cls) = cls"
  using assms
proof (induction cls arbitrary: k)
  case (Cons c cls)
  obtain k' where k: "k = Suc k'" using Cons.prems(4) by (cases k) auto
  show ?case
  proof (cases "cls = []")
    case True
    then show ?thesis using Cons.prems k by (cases k') auto
  next
    case False
    then show ?thesis using Cons.IH [of k'] Cons.prems k by (auto simp: linked_Cons)
  qed
qed simp

lemma linked_cong: "\<forall>c \<in> set cls. nx' c = nx c \<Longrightarrow> linked nx' cls = linked nx cls"
  unfolding linked_def by (metis Suc_lessD nth_mem)

lemma linked_take: "linked nx cls \<Longrightarrow> linked nx (take n cls)"
  by (simp add: linked_def)

section \<open>Freeing and resizing\<close>

text \<open>The clusters of a file: allocated, in the table, each once.\<close>

definition chain_ok :: "u32 \<Rightarrow> u8 list \<Rightarrow> u32 list \<Rightarrow> bool" where
  "chain_ok fatsz fat cls \<longleftrightarrow> distinct cls \<and> (\<forall>c \<in> set cls. in_chain c \<and> valid_cl fatsz c \<and> fat12_ent fatsz fat c \<noteq> 0) \<and>
     linked (fat12_ent fatsz fat) cls"

lemma chain_valid: "in_chain c \<Longrightarrow> unat c < 0x1000"
  by (simp add: in_chain_def word_less_nat_alt FAT12_EOF_def)

lemma EOF_out: "\<not> in_chain FAT12_EOF" "FAT12_EOF \<noteq> 0"
  by (simp_all add: in_chain_def FAT12_EOF_def)

text \<open>One round of the growing loop.\<close>

lemma grow_step:
  assumes ok: "fat_ok fatsz fat" and cs: "unat clusters \<le> 4084" and C: "chain_ok fatsz fat cls"
    and al: "fat_alloc fatsz clusters fat = (n, fat1)" "\<not> n < 2"
  defines "fat2 \<equiv> (if cls \<noteq> [] then fat12_set fatsz (last cls) n fat1 else fat1)"
  shows "fat_ok fatsz fat2" "chain_ok fatsz fat2 (cls @ [n])" "fat12_ent fatsz fat n = 0" "n \<notin> set cls" 
    "valid_cl fatsz d \<Longrightarrow> d \<notin> set (cls @ [n]) \<Longrightarrow> fat12_ent fatsz fat2 d = fat12_ent fatsz fat d"
    "fat12_ent fatsz fat2 n = FAT12_EOF"
proof -
  have A: "in_chain n" "valid_cl fatsz n" "fat12_ent fatsz fat n = 0" "fat1 = fat12_set fatsz n FAT12_EOF fat"
    using fat_alloc_spec [OF ok cs al(1)] al(2) by auto
  have n: "n \<notin> set cls" using C A(3) by (auto simp: chain_ok_def)
  have ok1: "fat_ok fatsz fat1" using ok A(4) by simp
  have l: "cls \<noteq> [] \<Longrightarrow> valid_cl fatsz (last cls)" using C by (auto simp: chain_ok_def)
  have e1: "fat12_ent fatsz fat1 d = (if d = n then FAT12_EOF else fat12_ent fatsz fat d)" if "valid_cl fatsz d" for d
    using set_self(1) [OF ok A(2) that] A(4) by simp
  have e2: "fat12_ent fatsz fat2 d = (if cls \<noteq> [] \<and> d = last cls then n else fat12_ent fatsz fat1 d)" if "valid_cl fatsz d" for d
    using set_self(3) [OF ok1 l that, of n] chain_valid [OF A(1)] by (auto simp: fat2_def)
  have last_n: "cls \<noteq> [] \<Longrightarrow> last cls \<noteq> n" using n by auto
  show "fat_ok fatsz fat2" using ok1 by (simp add: fat2_def)
  show "fat12_ent fatsz fat n = 0" "n \<notin> set cls" by (fact A(3)) (fact n)
  show "fat12_ent fatsz fat2 d = fat12_ent fatsz fat d" if "valid_cl fatsz d" "d \<notin> set (cls @ [n])"
    using e2 [OF that(1)] e1 [OF that(1)] that(2) by auto
  show "fat12_ent fatsz fat2 n = FAT12_EOF" using e2 [OF A(2)] e1 [OF A(2)] last_n by auto
  have nz: "n \<noteq> 0" using al(2) by auto
  have "linked (fat12_ent fatsz fat2) cls"
  proof -
    have "fat12_ent fatsz fat2 (cls ! i) = cls ! Suc i" if "Suc i < length cls" for i
    proof -
      have "last cls = cls ! (length cls - 1)" using that by (intro last_conv_nth) auto
      then have "cls ! i \<noteq> last cls" using C that by (simp add: chain_ok_def nth_eq_iff_index_eq)
      moreover have "cls ! i \<in> set cls" using that by simp
      then have "valid_cl fatsz (cls ! i)" "cls ! i \<noteq> n" using C n by (auto simp: chain_ok_def)
      ultimately show ?thesis using e2 e1 C that by (simp add: chain_ok_def linked_def)
    qed
    then show ?thesis by (simp add: linked_def)
  qed
  then show "chain_ok fatsz fat2 (cls @ [n])"
    using C A n e1 e2 l last_n nz EOF_out by (auto simp: chain_ok_def linked_append)
qed

lemma grow_chain_spec:
  assumes "fat_ok fatsz fat" "unat clusters \<le> 4084" "chain_ok fatsz fat cls"
    and "grow_chain k fatsz clusters cls start fat = (Some cls', start', fat')"
  shows "fat_ok fatsz fat' \<and> chain_ok fatsz fat' cls' \<and> length cls' = length cls + k \<and> take (length cls) cls' = cls \<and>
    (\<forall>c \<in> set (drop (length cls) cls'). fat12_ent fatsz fat c = 0) \<and>
    (\<forall>d. valid_cl fatsz d \<and> d \<notin> set cls' \<longrightarrow> fat12_ent fatsz fat' d = fat12_ent fatsz fat d) \<and>
    (k \<noteq> 0 \<longrightarrow> fat12_ent fatsz fat' (last cls') = FAT12_EOF) \<and> (k = 0 \<longrightarrow> fat' = fat)"
  using assms
proof (induction k arbitrary: cls start fat)
  case (Suc k)
  obtain n fat1 where al: "fat_alloc fatsz clusters fat = (n, fat1)" by fastforce
  have n: "\<not> n < 2" using Suc.prems(4) al by (auto split: if_splits)
  define fat2 where "fat2 = (if cls \<noteq> [] then fat12_set fatsz (last cls) n fat1 else fat1)"
  note G = grow_step [OF Suc.prems(1-3) al n, folded fat2_def]
  have run: "\<exists>st. grow_chain k fatsz clusters (cls @ [n]) st fat2 = (Some cls', start', fat')"
    using Suc.prems(4) al n by (auto simp: fat2_def split: if_splits)
  then obtain st where "grow_chain k fatsz clusters (cls @ [n]) st fat2 = (Some cls', start', fat')" by blast
  note I = Suc.IH [OF G(1) Suc.prems(2) G(2) this]
  have l: "length cls' = length cls + Suc k" "take (length cls + 1) cls' = cls @ [n]" using I by simp_all
  define rest where "rest = drop (length cls + 1) cls'"
  have "cls' = take (length cls + 1) cls' @ rest" by (simp add: rest_def)
  then have c': "cls' = cls @ n # rest" unfolding l(2) by simp
  have dis: "c \<notin> set (cls @ [n])" if "c \<in> set rest" for c using I that by (auto simp: chain_ok_def c')
  have "fat12_ent fatsz fat c = 0" if "c \<in> set rest" for c
  proof -
    have "valid_cl fatsz c" using I that by (auto simp: chain_ok_def c')
    moreover have "fat12_ent fatsz fat2 c = 0" using I that unfolding rest_def by simp
    ultimately show ?thesis using G(5) [of c] dis [OF that] by simp
  qed
  then have "\<forall>c \<in> set (drop (length cls) cls'). fat12_ent fatsz fat c = 0" using G(3) by (simp add: c')
  moreover have "fat12_ent fatsz fat' e = fat12_ent fatsz fat e" if "valid_cl fatsz e" "e \<notin> set cls'" for e
    using I G(5) [OF that(1)] that by (auto simp: c')
  moreover have "fat12_ent fatsz fat' (last cls') = FAT12_EOF"
  proof (cases "k = 0")
    case True
    then have "cls' = cls @ [n]" using l by simp
    then show ?thesis using G(6) I True by simp
  qed (use I in simp)
  ultimately show ?case using I l by (simp add: c')
qed simp

lemma fold_zero:
  assumes "fat_ok fatsz fat" "\<forall>c \<in> set cs. valid_cl fatsz c"
  shows "fat_ok fatsz (fold (\<lambda>cl fat. fat12_set fatsz cl 0 fat) cs fat) \<and>
    (\<forall>d. valid_cl fatsz d \<longrightarrow> fat12_ent fatsz (fold (\<lambda>cl fat. fat12_set fatsz cl 0 fat) cs fat) d = (if d \<in> set cs then 0 else fat12_ent fatsz fat d))"
  using assms by (induction cs arbitrary: fat) (auto simp: set_self(2))

lemma last_take:
  assumes "0 < n" "n \<le> length xs"
  shows "last (take n xs) = xs ! (n - 1)" "xs ! (n - 1) \<in> set (take n xs)" "take n xs \<noteq> []"
proof -
  show ne: "take n xs \<noteq> []" using assms by (cases xs) auto
  show "last (take n xs) = xs ! (n - 1)" unfolding last_conv_nth [OF ne] using assms by (simp add: min_def)
  then show "xs ! (n - 1) \<in> set (take n xs)" using last_in_set [OF ne] by simp
qed

text \<open>The last two steps: free the tail, end the chain.\<close>

lemma trim_chain:
  assumes ok: "fat_ok fatsz fat" and C: "chain_ok fatsz fat cls" and n: "0 < n" "n \<le> length cls" "n \<le> CHAIN_MAX"
  defines "fat' \<equiv> fat12_set fatsz (cls ! (n - 1)) FAT12_EOF (cut_chain fatsz n cls fat)"
  shows "fat_ok fatsz fat'" "chain CHAIN_MAX (fat12_ent fatsz fat') (cls ! 0) = take n cls"
    "fat12_ent fatsz fat' (cls ! (n - 1)) = FAT12_EOF" "\<forall>c \<in> set (drop n cls). fat12_ent fatsz fat' c = 0"
    "valid_cl fatsz d \<Longrightarrow> d \<notin> set cls \<Longrightarrow> fat12_ent fatsz fat' d = fat12_ent fatsz fat d"
proof -
  have v: "\<forall>c \<in> set cls. valid_cl fatsz c" and dis: "distinct (take n cls @ drop n cls)" using C by (auto simp: chain_ok_def)
  have tail: "\<forall>c \<in> set (rev (drop n cls)). valid_cl fatsz c" using v by (auto dest: in_set_dropD)
  note Z = fold_zero [OF ok tail, folded cut_chain_def]
  have l: "valid_cl fatsz (cls ! (n - 1))" using v n by auto
  have e: "fat12_ent fatsz fat' d = (if d = cls ! (n - 1) then FAT12_EOF else if d \<in> set (drop n cls) then 0 else fat12_ent fatsz fat d)"
    if "valid_cl fatsz d" for d
    using set_self(1) [of fatsz "cut_chain fatsz n cls fat", OF _ l that] Z that by (simp add: fat'_def)
  show ok': "fat_ok fatsz fat'" using Z by (simp add: fat'_def)
  show lst: "fat12_ent fatsz fat' (cls ! (n - 1)) = FAT12_EOF" using e [OF l] by simp
  note ln = last_take [OF n(1,2)]
  have nd: "c \<notin> set (drop n cls)" if "c \<in> set (take n cls)" for c using dis that unfolding distinct_append by blast
  show "\<forall>c \<in> set (drop n cls). fat12_ent fatsz fat' c = 0"
  proof
    fix c assume c: "c \<in> set (drop n cls)"
    then have "valid_cl fatsz c" "c \<noteq> cls ! (n - 1)" using v nd [OF ln(2)] by (auto dest: in_set_dropD)
    then show "fat12_ent fatsz fat' c = 0" using e c by simp
  qed
  show "fat12_ent fatsz fat' d = fat12_ent fatsz fat d" if "valid_cl fatsz d" "d \<notin> set cls"
    using e [OF that(1)] that(2) in_set_takeD [OF ln(2)] by (auto dest: in_set_dropD)
  have "linked (fat12_ent fatsz fat') (take n cls)"
  proof -
    have "fat12_ent fatsz fat' (take n cls ! i) = take n cls ! Suc i" if "Suc i < length (take n cls)" for i
    proof -
      have i: "Suc i < n" "Suc i < length cls" using that by auto
      have "cls ! i \<noteq> cls ! (n - 1)" using i n C by (simp add: chain_ok_def nth_eq_iff_index_eq)
      moreover have "cls ! i \<in> set (take n cls)" using i nth_mem [of i "take n cls"] by simp
      then have "cls ! i \<notin> set (drop n cls)" "valid_cl fatsz (cls ! i)" using nd v by (auto dest: in_set_takeD)
      ultimately show ?thesis using e [of "cls ! i"] i C by (simp add: chain_ok_def linked_def)
    qed
    then show ?thesis by (simp add: linked_def)
  qed
  then show "chain CHAIN_MAX (fat12_ent fatsz fat') (cls ! 0) = take n cls"
    using chain_of_linked [of "fat12_ent fatsz fat'" "take n cls" CHAIN_MAX] C ln lst n EOF_out
    by (auto simp: chain_ok_def hd_take hd_conv_nth dest: in_set_takeD)
qed

text \<open>
  C18. \<open>fat_resize\<close> gives a file exactly the number of clusters asked for: the clusters it had are kept
  in order as far as they are needed, clusters that are added were free, clusters that are given up
  are free afterwards, the chain is properly ended, and no entry of any other cluster changes.
\<close>

theorem fat_resize_correct:
  fixes start fatsz :: u32 and fat :: "u8 list"
  defines "old \<equiv> chain CHAIN_MAX (fat12_ent fatsz fat) start"
  assumes "fat_ok fatsz fat" "unat clusters \<le> 4084" "chain_ok fatsz fat old"
    and "fat_resize fatsz clusters start need fat = (True, start', fat')"
  shows "let new = chain CHAIN_MAX (fat12_ent fatsz fat') start' in
    length new = unat need \<and> distinct new \<and> take (length old) new = take (unat need) old \<and>
    (\<forall>c \<in> set new - set old. fat12_ent fatsz fat c = 0) \<and> (\<forall>c \<in> set old - set new. fat12_ent fatsz fat' c = 0) \<and>
    fat12_ent fatsz fat' (last new) = FAT12_EOF \<and> fat_ok fatsz fat' \<and>
    (\<forall>d. valid_cl fatsz d \<and> d \<notin> set old \<union> set new \<longrightarrow> fat12_ent fatsz fat' d = fat12_ent fatsz fat d)"
proof -
  let ?n = "unat need"
  have need: "need \<noteq> 0" "\<not> of_nat CHAIN_MAX < need" using assms(5) by (auto simp: fat_resize_def split: if_splits)
  then have n: "0 < ?n" "?n \<le> CHAIN_MAX" by (auto simp: unat_gt_0 word_less_nat_alt CHAIN_MAX_def)
  obtain cls1 start1 fat1 where g: "grow_chain (?n - length old) fatsz clusters old start fat = (Some cls1, start1, fat1)"
    and r: "start' = cls1 ! 0" "fat' = fat12_set fatsz (cls1 ! (?n - 1)) FAT12_EOF (cut_chain fatsz ?n cls1 fat1)"
    using assms(5) need by (auto simp: fat_resize_def Let_def old_def split: prod.splits option.splits)
  note G = grow_chain_spec [OF assms(2-4) g]
  have len: "?n \<le> length cls1" using G by linarith
  have G1: "fat_ok fatsz fat1" "chain_ok fatsz fat1 cls1" using G by auto
  note T = trim_chain [OF G1 n(1) len n(2), folded r(2)]
  have new: "chain CHAIN_MAX (fat12_ent fatsz fat') start' = take ?n cls1" using T(2) by (simp add: r(1))
  have split: "cls1 = old @ drop (length old) cls1" using G by (metis append_take_drop_id)
  have "take (length old) (take ?n cls1) = take ?n old" using G by (metis take_take min.commute)
  moreover have "\<forall>c \<in> set (take ?n cls1) - set old. fat12_ent fatsz fat c = 0"
    using G split by (metis (no_types, lifting) DiffD1 DiffD2 UnE in_set_takeD set_append)
  moreover have "\<forall>c \<in> set old - set (take ?n cls1). fat12_ent fatsz fat' c = 0"
    using T(4) split by (metis (no_types, lifting) DiffD1 DiffD2 UnE UnI1 append_take_drop_id set_append)
  moreover note last_take(1) [OF n(1) len]
  moreover have "fat12_ent fatsz fat' d = fat12_ent fatsz fat d" if "valid_cl fatsz d" "d \<notin> set old \<union> set (take ?n cls1)" for d
  proof -
    have "set cls1 \<subseteq> set old \<union> set (take ?n cls1)"
    proof (cases "length old \<le> ?n")
      case True
      then have "length cls1 = ?n" using G by simp
      then show ?thesis by simp
    next
      case False
      then have "length cls1 = length old" using G by simp
      then show ?thesis using split by simp
    qed
    then show ?thesis using T(5) [OF that(1)] G that by auto
  qed
  ultimately show ?thesis unfolding new Let_def using len G1(2) T(1,3) by (auto simp: chain_ok_def)
qed

definition fat_demo :: "u8 list" where
  "fat_demo = fat12_set 1 5 FAT12_EOF (fat12_set 1 2 5 (replicate 512 0))"

theorem fat_resize_correct_witness:
  "\<exists>start' fat'. fat_resize 1 10 2 3 fat_demo = (True, start', fat') \<and> length (chain CHAIN_MAX (fat12_ent 1 fat') start') = 3"
proof -
  have "fat_ok 1 fat_demo" by (simp add: fat_ok_def fat_demo_def)
  moreover have c: "chain CHAIN_MAX (fat12_ent 1 fat_demo) 2 = [2, 5]" by code_simp
  moreover have "fat12_ent 1 fat_demo 2 = 5" "fat12_ent 1 fat_demo 5 = FAT12_EOF" by code_simp+
  then have "chain_ok 1 fat_demo [2, 5]"
    by (simp add: chain_ok_def linked_def in_chain_def valid_cl_def FAT12_EOF_def)
  moreover have "fst (fat_resize 1 10 2 3 fat_demo)" by code_simp
  ultimately show ?thesis using fat_resize_correct [where fatsz = 1 and fat = fat_demo and start = 2 and clusters = 10 and need = 3] by (cases "fat_resize 1 10 2 3 fat_demo") (auto simp: Let_def)
qed

end
