(* ===== verification/Bio.thy ===== *)
theory Bio
  imports Prelude
begin

text \<open>
  The block layer of \<open>kernel/bio.c\<close>: the table of registered devices, the partition start
  read from the MBR, and the bounds check in front of every transfer. A device's entry points
  are function pointers in the source and function fields here, over a device state \<open>'d\<close>;
  a read returns its success flag, the bytes it left in the caller's buffer and the device
  state. The list \<open>table\<close> has \<open>n_devs\<close> elements.
\<close>

record 'd bdev =
  bd_name :: string
  bd_read :: "u32 \<Rightarrow> u32 \<Rightarrow> 'd \<Rightarrow> bool \<times> u8 list \<times> 'd"
  bd_write :: "u32 \<Rightarrow> u32 \<Rightarrow> u8 list \<Rightarrow> 'd \<Rightarrow> bool \<times> 'd"
  bd_flush :: "('d \<Rightarrow> bool \<times> 'd) option"
  bd_sectors :: u32

record 'd bio =
  table :: "'d bdev list"
  part_lba :: u32
  disk :: 'd

definition BDEV_MAX :: nat where "BDEV_MAX = 4"

definition past_end :: "'d bio \<Rightarrow> u32 \<Rightarrow> u32 \<Rightarrow> bool" where
  "past_end b lba sectors =
     (if sectors = 0 \<or> table b = [] then True
      else let a = lba + part_lba b; lim = bd_sectors (table b ! 0) in
        if lim = 0 then False
        else a < lba \<or> lim \<le> a \<or> lim - a < sectors)"

definition rd32 :: "u8 list \<Rightarrow> nat \<Rightarrow> u32" where
  "rd32 p i = ucast (p ! i) OR push_bit 8 (ucast (p ! (i + 1))) OR
     push_bit 16 (ucast (p ! (i + 2))) OR push_bit 24 (ucast (p ! (i + 3)))"

text \<open>The scan of the four partition entries, from entry \<open>i\<close>.\<close>

definition mbr_entry :: "u8 list \<Rightarrow> nat \<Rightarrow> u8 \<times> u32 \<times> u32" where
  "mbr_entry mbr i =
     (mbr ! (0x1BE + i * 16 + 4), rd32 mbr (0x1BE + i * 16 + 8), rd32 mbr (0x1BE + i * 16 + 12))"

definition fat_entry :: "u8 list \<Rightarrow> nat \<Rightarrow> bool" where
  "fat_entry mbr i = (case mbr_entry mbr i of (type, start, count) \<Rightarrow>
     type = 1 \<and> start \<noteq> 0 \<and> count \<noteq> 0)"

definition bio_init :: "'d bio \<Rightarrow> int \<times> 'd bio" where
  "bio_init b0 =
     (let b = b0\<lparr>part_lba := 0\<rparr> in
      if table b = [] then (-1, b)
      else case bd_read (table b ! 0) 0 1 (disk b) of (ok, mbr, d) \<Rightarrow>
        let b1 = b\<lparr>disk := d\<rparr> in
        if \<not> ok then (-1, b1)
        else if mbr ! 510 \<noteq> 0x55 \<or> mbr ! 511 \<noteq> 0xAA then (-1, b1)
        else case List.find (fat_entry mbr) [0..<4] of
            Some i \<Rightarrow> (0, b1\<lparr>part_lba := fst (snd (mbr_entry mbr i))\<rparr>)
          | None \<Rightarrow> (-1, b1))"

definition bio_part_lba :: "'d bio \<Rightarrow> u32" where
  "bio_part_lba b = part_lba b"

definition bdev_register ::
    "string option \<Rightarrow> (u32 \<Rightarrow> u32 \<Rightarrow> 'd \<Rightarrow> bool \<times> u8 list \<times> 'd) option \<Rightarrow>
     (u32 \<Rightarrow> u32 \<Rightarrow> u8 list \<Rightarrow> 'd \<Rightarrow> bool \<times> 'd) option \<Rightarrow> 'd bio \<Rightarrow> int \<times> 'd bio" where
  "bdev_register name rd wr b = (case (name, rd, wr) of
     (Some nm, Some r, Some w) \<Rightarrow>
       if BDEV_MAX \<le> length (table b) then (-1, b)
       else (0, b\<lparr>table := table b @ [\<lparr>bd_name = nm, bd_read = r, bd_write = w,
                    bd_flush = None, bd_sectors = 0\<rparr>]\<rparr>)
   | _ \<Rightarrow> (-1, b))"

definition bdev_set_sectors :: "u32 \<Rightarrow> 'd bio \<Rightarrow> 'd bio" where
  "bdev_set_sectors n b =
     (if table b = [] then b
      else let i = length (table b) - 1 in
        b\<lparr>table := (table b)[i := (table b ! i)\<lparr>bd_sectors := n\<rparr>]\<rparr>)"

definition bdev_set_flush :: "('d \<Rightarrow> bool \<times> 'd) option \<Rightarrow> 'd bio \<Rightarrow> 'd bio" where
  "bdev_set_flush fl b =
     (if table b = [] then b
      else let i = length (table b) - 1 in
        b\<lparr>table := (table b)[i := (table b ! i)\<lparr>bd_flush := fl\<rparr>]\<rparr>)"

definition bflush :: "'d bio \<Rightarrow> bool \<times> 'd bio" where
  "bflush b =
     (if table b = [] then (False, b)
      else case bd_flush (table b ! 0) of None \<Rightarrow> (False, b)
        | Some fl \<Rightarrow> (case fl (disk b) of (ok, d) \<Rightarrow> (ok, b\<lparr>disk := d\<rparr>)))"

text \<open>
  \<open>None\<close> stands for a refused transfer (the device is not called); otherwise the device's
  success flag and data. A null buffer is not representable.
\<close>

definition bread :: "u32 \<Rightarrow> u32 \<Rightarrow> 'd bio \<Rightarrow> (bool \<times> u8 list) option \<times> 'd bio" where
  "bread lba sectors b =
     (if table b = [] \<or> past_end b lba sectors then (None, b)
      else case bd_read (table b ! 0) (lba + part_lba b) sectors (disk b) of
        (ok, bs, d) \<Rightarrow> (Some (ok, bs), b\<lparr>disk := d\<rparr>))"

definition bwrite :: "u32 \<Rightarrow> u32 \<Rightarrow> u8 list \<Rightarrow> 'd bio \<Rightarrow> bool option \<times> 'd bio" where
  "bwrite lba sectors src b =
     (if table b = [] \<or> past_end b lba sectors then (None, b)
      else case bd_write (table b ! 0) (lba + part_lba b) sectors src (disk b) of
        (ok, d) \<Rightarrow> (Some ok, b\<lparr>disk := d\<rparr>))"

text \<open>\<open>bdev_list\<close>: the inner copy loop and the loop over the devices, on the caller's buffer.\<close>

fun list_copy :: "string \<Rightarrow> nat \<Rightarrow> nat \<Rightarrow> string \<Rightarrow> nat \<times> string" where
  "list_copy dst mx n [] = (n, dst)"
| "list_copy dst mx n (c # s) =
     (if n + 1 < mx then list_copy (dst[n := c]) mx (n + 1) s else (n, dst))"

fun list_names :: "string \<Rightarrow> nat \<Rightarrow> nat \<Rightarrow> string list \<Rightarrow> nat \<times> string" where
  "list_names dst mx n [] = (n, dst)"
| "list_names dst mx n (s # ss) =
     (if 0 < n
      then (if mx \<le> n + 1 then (n, dst)
            else case list_copy (dst[n := CHR '' '']) mx (n + 1) s of (n', dst') \<Rightarrow> list_names dst' mx n' ss)
      else case list_copy dst mx n s of (n', dst') \<Rightarrow> list_names dst' mx n' ss)"

definition bdev_list :: "'d bio \<Rightarrow> string \<Rightarrow> u32 \<Rightarrow> int \<times> string" where
  "bdev_list b dst mx =
     (if mx = 0 then (-1, dst)
      else case list_names dst (unat mx) 0 (map bd_name (table b)) of
        (n, dst') \<Rightarrow> (int n, dst'[n := CHR 0x00]))"

section \<open>Bounds\<close>

definition capacity :: "'d bio \<Rightarrow> nat" where
  "capacity b = unat (bd_sectors (table b ! 0))"

lemma past_end_spec:
  assumes "table b \<noteq> []" "bd_sectors (table b ! 0) \<noteq> 0"
  shows "past_end b lba n \<longleftrightarrow> n = 0 \<or> capacity b < unat lba + unat (part_lba b) + unat n"
proof (cases "unat lba + unat (part_lba b) < 2 ^ 32")
  case True
  then have a: "unat (lba + part_lba b) = unat lba + unat (part_lba b)" by (subst unat_add_lt) auto
  let ?lim = "bd_sectors (table b ! 0)"
  have "\<not> ?lim \<le> lba + part_lba b \<Longrightarrow>
      unat (?lim - (lba + part_lba b)) = capacity b - (unat lba + unat (part_lba b))"
    using a by (simp add: unat_sub_le capacity_def)
  then have "\<not> ?lim \<le> lba + part_lba b \<Longrightarrow> ?lim - (lba + part_lba b) < n \<longleftrightarrow>
      capacity b < unat lba + unat (part_lba b) + unat n"
    using a unfolding word_less_nat_alt word_le_nat_alt capacity_def by auto
  moreover have "?lim \<le> lba + part_lba b \<longleftrightarrow> capacity b \<le> unat lba + unat (part_lba b)"
    "\<not> lba + part_lba b < lba" "n \<noteq> 0 \<longleftrightarrow> 0 < unat n"
    using a by (simp_all add: word_less_nat_alt word_le_nat_alt capacity_def unat_gt_0)
  ultimately show ?thesis using assms unfolding past_end_def Let_def by auto
next
  case False
  have "unat (lba + part_lba b) = unat lba + unat (part_lba b) - 2 ^ 32"
    using False unat_bound [of lba] unat_bound [of "part_lba b"]
    by (simp add: unat_word_ariths le_mod_geq)
  then have "lba + part_lba b < lba"
    using False unat_bound [of "part_lba b"] by (simp add: word_less_nat_alt)
  moreover have "capacity b < 2 ^ 32" using unat_bound [of "bd_sectors (table b ! 0)"] by (simp add: capacity_def)
  ultimately show ?thesis using assms False by (auto simp: past_end_def Let_def)
qed

section \<open>The device list\<close>

fun join_sp :: "string list \<Rightarrow> string" where
  "join_sp [] = []"
| "join_sp [s] = s"
| "join_sp (s # ss) = s @ CHR '' '' # join_sp ss"

lemma list_copy_spec:
  assumes "mx \<le> length dst" "n < mx"
  shows "list_copy dst mx n s =
    (min (n + length s) (mx - 1), take n dst @ take (mx - 1 - n) s @ drop (min (n + length s) (mx - 1)) dst)"
  using assms
proof (induction s arbitrary: dst n)
  case Nil
  then show ?case by simp
next
  case (Cons c s)
  show ?case
  proof (cases "n + 1 < mx")
    case True
    then have "take (n + 1) (dst[n := c]) = take n dst @ [c]"
      using Cons.prems by (simp add: take_Suc_conv_app_nth)
    moreover have "mx - 1 - n = Suc (mx - 1 - (n + 1))" using True by simp
    ultimately show ?thesis using Cons.IH [of "dst[n := c]" "n + 1"] Cons.prems True
      by (simp add: min_def)
  next
    case False
    then have "mx - 1 = n" using Cons.prems by simp
    then show ?thesis using False by simp
  qed
qed

lemma list_names_spec:
  assumes "mx \<le> length dst" "n < mx" "\<forall>s \<in> set ss. s \<noteq> []" "0 < n"
  defines "t \<equiv> concat (map (\<lambda>s. CHR '' '' # s) ss)"
  shows "list_names dst mx n ss =
    (min (n + length t) (mx - 1), take n dst @ take (mx - 1 - n) t @ drop (min (n + length t) (mx - 1)) dst)"
  using assms(1-4) unfolding t_def
proof (induction ss arbitrary: dst n)
  case Nil
  then show ?case by simp
next
  case (Cons s ss)
  let ?t = "concat (map (\<lambda>s. CHR '' '' # s) ss)"
  show ?case
  proof (cases "mx \<le> n + 1")
    case True
    then have "mx - 1 = n" using Cons.prems by simp
    then show ?thesis using True Cons.prems by simp
  next
    case False
    define m where "m = min (n + 1 + length s) (mx - 1)"
    let ?d1 = "dst[n := CHR '' '']"
    have t1: "take (n + 1) ?d1 = take n dst @ [CHR '' '']"
      using Cons.prems by (simp add: take_Suc_conv_app_nth)
    let ?d2 = "take (n + 1) ?d1 @ take (mx - 1 - (n + 1)) s @ drop m ?d1"
    have c: "list_copy ?d1 mx (n + 1) s = (m, ?d2)"
      using list_copy_spec [of mx ?d1 "n + 1" s] Cons.prems False by (simp add: m_def)
    have m: "n < m" "m < mx" "m \<le> length dst" using False Cons.prems by (auto simp: m_def)
    have l2: "length ?d2 = length dst" using Cons.prems False by (auto simp: m_def)
    have IH: "list_names ?d2 mx m ss =
      (min (m + length ?t) (mx - 1), take m ?d2 @ take (mx - 1 - m) ?t @ drop (min (m + length ?t) (mx - 1)) ?d2)"
      using Cons.IH [of ?d2 m] Cons.prems l2 m by simp
    let ?A = "take n dst @ CHR '' '' # take (mx - 1 - (n + 1)) s"
    have lA: "length ?A = m" using Cons.prems False by (auto simp: m_def min_def)
    have dA: "?d2 = ?A @ drop m ?d1" unfolding t1 by simp
    have tk: "take m ?d2 = ?A" unfolding dA using lA by (metis append_eq_conv_conj)
    have dr: "drop k ?d2 = drop k dst" if "m \<le> k" for k
      unfolding dA drop_append lA using that m lA by simp
    have tt: "take (mx - 1 - n) (CHR '' '' # s @ ?t) =
        CHR '' '' # take (mx - 1 - (n + 1)) s @ take (mx - 1 - m) ?t"
    proof -
      have "mx - 1 - n = Suc (mx - 1 - (n + 1))" using False Cons.prems by simp
      then show ?thesis by (simp add: m_def min_def)
    qed
    have mm: "min (m + length ?t) (mx - 1) = min (n + length (CHR '' '' # s @ ?t)) (mx - 1)"
      by (auto simp: m_def min_def)
    have "m \<le> min (m + length ?t) (mx - 1)" using m by simp
    note dk = dr [OF this, unfolded mm]
    have "list_names dst mx n (s # ss) = list_names ?d2 mx m ss"
      using c False Cons.prems by (simp only: list_names.simps if_True if_False prod.case)
    then show ?thesis unfolding IH tk dk mm list.map concat.simps append_Cons tt
      by (simp only: append.assoc append_Cons)
  qed
qed

lemma join_sp_Cons:
  "join_sp (s # ss) = s @ concat (map (\<lambda>s. CHR '' '' # s) ss)"
  by (induction ss arbitrary: s) auto

lemma bdev_list_spec:
  assumes "mx \<noteq> 0" "unat mx \<le> length dst" "\<forall>d \<in> set (table b). bd_name d \<noteq> []"
  defines "t \<equiv> take (unat mx - 1) (join_sp (map bd_name (table b)))"
  shows "bdev_list b dst mx = (int (length t), t @ CHR 0x00 # drop (length t + 1) dst)"
proof -
  let ?mx = "unat mx"
  have mx: "0 < ?mx" using assms(1) by (simp add: unat_gt_0)
  have upd: "(xs @ drop (length xs) dst)[length xs := c] = xs @ c # drop (length xs + 1) dst"
    if "length xs < ?mx" for xs c
    using that assms(2) by (simp add: Cons_nth_drop_Suc [symmetric])
  have names: "list_names dst ?mx 0 (map bd_name (table b)) = (length t, t @ drop (length t) dst)"
  proof (cases "table b")
    case Nil
    then show ?thesis by (simp add: t_def)
  next
    case (Cons d ds)
    let ?s = "bd_name d" and ?ss = "map bd_name ds"
    have ne: "?s \<noteq> []" "\<forall>s \<in> set ?ss. s \<noteq> []" using assms(3) Cons by auto
    define n where "n = min (length ?s) (?mx - 1)"
    have c: "list_copy dst ?mx 0 ?s = (n, take (?mx - 1) ?s @ drop n dst)"
      using list_copy_spec [of ?mx dst 0 ?s] assms(2) mx by (simp add: n_def)
    have tl: "t = take (?mx - 1) (?s @ concat (map (\<lambda>s. CHR '' '' # s) ?ss))"
      using Cons by (simp add: t_def join_sp_Cons del: join_sp.simps)
    show ?thesis
    proof (cases "?mx = 1")
      case True
      then have "n = 0" "t = []" using tl by (simp_all add: n_def)
      moreover have "list_names dst (Suc 0) 0 ss = (0, dst)" for ss
      proof (induction ss)
        case (Cons s ss)
        then show ?case by (cases s) auto
      qed simp
      ultimately show ?thesis using True by simp
    next
      case False
      then have n: "0 < n" "n < ?mx" using ne(1) mx by (auto simp: n_def)
      let ?d = "take (?mx - 1) ?s @ drop n dst"
      have ld: "length ?d = length dst" "length (take (?mx - 1) ?s) = n"
        using assms(2) by (auto simp: n_def min_def)
      define L where "L = concat (map (\<lambda>s. CHR '' '' # s) ?ss)"
      have lt: "min (n + length L) (?mx - 1) = length t" "n \<le> length t"
        unfolding tl L_def [symmetric] by (auto simp: n_def min_def)
      have "take n ?d @ take (?mx - 1 - n) L = t"
        unfolding tl L_def [symmetric] using ld(2) by (auto simp: n_def min_def)
      moreover have "drop (length t) ?d = drop (length t) dst"
        using lt(2) ld(2) by simp
      ultimately have "list_names ?d ?mx n ?ss = (length t, t @ drop (length t) dst)"
        using list_names_spec [of ?mx ?d n ?ss, folded L_def] n ne(2) ld(1) assms(2) lt(1) by simp
      then show ?thesis using c Cons ne by simp
    qed
  qed
  have "length t < ?mx" using mx by (simp add: t_def)
  then show ?thesis using assms(1) names upd by (simp add: bdev_list_def)
qed

section \<open>Properties\<close>

text \<open>
  A concrete device for the witnesses: \<open>n\<close> sectors of memory, addressed by absolute sector.
\<close>

definition mem_read :: "u32 \<Rightarrow> u32 \<Rightarrow> (nat \<Rightarrow> u8 list) \<Rightarrow> bool \<times> u8 list \<times> (nat \<Rightarrow> u8 list)" where
  "mem_read a n d = (True, concat (map d [unat a..<unat a + unat n]), d)"

definition mem_write :: "u32 \<Rightarrow> u32 \<Rightarrow> u8 list \<Rightarrow> (nat \<Rightarrow> u8 list) \<Rightarrow> bool \<times> (nat \<Rightarrow> u8 list)" where
  "mem_write a n src d = (True, \<lambda>i. if unat a \<le> i \<and> i < unat a + unat n
     then take 512 (drop ((i - unat a) * 512) src) else d i)"

definition bio_demo :: "(nat \<Rightarrow> u8 list) bio" where
  "bio_demo = \<lparr>table = [\<lparr>bd_name = ''mem'', bd_read = mem_read, bd_write = mem_write,
      bd_flush = None, bd_sectors = 4\<rparr>], part_lba = 1, disk = (\<lambda>i. replicate 512 0)\<rparr>"

lemma concat_sectors:
  "length src = 512 * n \<Longrightarrow> concat (map (\<lambda>i. take 512 (drop (i * 512) src)) [0..<n]) = src"
proof (induction n arbitrary: src)
  case (Suc n)
  have "map (\<lambda>i. take 512 (drop (i * 512) src)) [0..<Suc n] =
      take 512 src # map (\<lambda>i. take 512 (drop (i * 512) (drop 512 src))) [0..<n]"
    by (simp add: upt_conv_Cons map_Suc_upt [symmetric] add.commute del: upt_Suc)
  then show ?case using Suc.IH [of "drop 512 src"] Suc.prems by simp
qed simp

lemma mem_write_read:
  assumes "length src = 512 * unat n" "mem_write a n src d = (True, d')"
  shows "concat (map d' [unat a..<unat a + unat n]) = src \<and>
    (\<forall>i. i < unat a \<or> unat a + unat n \<le> i \<longrightarrow> d' i = d i)"
proof -
  have d': "d' = (\<lambda>i. if unat a \<le> i \<and> i < unat a + unat n
     then take 512 (drop ((i - unat a) * 512) src) else d i)"
    using assms(2) by (simp add: mem_write_def)
  have "map d' [unat a..<unat a + unat n] = map (\<lambda>i. take 512 (drop (i * 512) src)) [0..<unat n]"
    by (rule nth_equalityI) (auto simp: d')
  then show ?thesis using concat_sectors [OF assms(1)] by (simp add: d')
qed

lemma bio_transfer_cases:
  assumes "table b \<noteq> []" "bd_sectors (table b ! 0) \<noteq> 0"
  shows "if n = 0 \<or> capacity b < unat (part_lba b) + unat lba + unat n
    then bread lba n b = (None, b) \<and> bwrite lba n src b = (None, b)
    else \<exists>a. unat a = unat (part_lba b) + unat lba \<and> unat a + unat n \<le> capacity b \<and>
      (\<exists>ok bs d. bd_read (table b ! 0) a n (disk b) = (ok, bs, d) \<and>
         bread lba n b = (Some (ok, bs), b\<lparr>disk := d\<rparr>)) \<and>
      (\<exists>ok d. bd_write (table b ! 0) a n src (disk b) = (ok, d) \<and>
         bwrite lba n src b = (Some ok, b\<lparr>disk := d\<rparr>))"
proof (cases "n = 0 \<or> capacity b < unat (part_lba b) + unat lba + unat n")
  case True
  then have "past_end b lba n" using past_end_spec [OF assms] by auto
  then show ?thesis using True by (simp add: bread_def bwrite_def)
next
  case False
  then have p: "\<not> past_end b lba n" using past_end_spec [OF assms] by auto
  have "capacity b < 2 ^ 32" using unat_bound [of "bd_sectors (table b ! 0)"] by (simp add: capacity_def)
  then have u: "unat (lba + part_lba b) = unat (part_lba b) + unat lba"
    using False by (subst unat_add_lt) auto
  obtain ok bs d where r: "bd_read (table b ! 0) (lba + part_lba b) n (disk b) = (ok, bs, d)"
    by (metis prod_cases3)
  obtain ok' d' where w: "bd_write (table b ! 0) (lba + part_lba b) n src (disk b) = (ok', d')"
    by fastforce
  have "bread lba n b = (Some (ok, bs), b\<lparr>disk := d\<rparr>)" "bwrite lba n src b = (Some ok', b\<lparr>disk := d'\<rparr>)"
    using p assms(1) r w by (simp_all add: bread_def bwrite_def)
  then show ?thesis using False u r w by (auto intro!: exI [of _ "lba + part_lba b"])
qed

text \<open>
  C31. Which transfers reach the device. \<open>bread\<close> and \<open>bwrite\<close> refuse a request without a device, an empty one
  and, when the device has told its capacity, one that ends past its last sector, in exact
  arithmetic; the device is not called then. Every other request is passed on as the sectors from
  \<open>part_lba + lba\<close> on: with a known capacity that sum does not wrap around, so the sectors lie behind
  the start of the partition (the MBR is out of reach) and inside the device. The end of the partition is not
  checked, and for a device of unknown capacity (0) neither is anything else: the sum wraps at 32 bits.
\<close>

theorem bio_transfers_bounded:
  "if table b = [] \<or> n = 0 \<or> capacity b \<noteq> 0 \<and> capacity b < unat (part_lba b) + unat lba + unat n
    then bread lba n b = (None, b) \<and> bwrite lba n src b = (None, b)
    else \<exists>a. unat a = (unat (part_lba b) + unat lba) mod 2 ^ 32 \<and>
      (capacity b \<noteq> 0 \<longrightarrow> unat a = unat (part_lba b) + unat lba \<and> unat a + unat n \<le> capacity b) \<and>
      (\<exists>ok bs d. bd_read (table b ! 0) a n (disk b) = (ok, bs, d) \<and>
         bread lba n b = (Some (ok, bs), b\<lparr>disk := d\<rparr>)) \<and>
      (\<exists>ok d. bd_write (table b ! 0) a n src (disk b) = (ok, d) \<and>
         bwrite lba n src b = (Some ok, b\<lparr>disk := d\<rparr>))"
proof (cases "table b = [] \<or> capacity b \<noteq> 0")
  case True
  show ?thesis
  proof (cases "table b = []")
    case False
    then have c: "bd_sectors (table b ! 0) \<noteq> 0" using True by (auto simp: capacity_def)
    have "capacity b < 2 ^ 32" using unat_bound [of "bd_sectors (table b ! 0)"] by (simp add: capacity_def)
    then show ?thesis using bio_transfer_cases [OF False c, of n lba src] False True by (auto split: if_splits)
  qed (simp add: bread_def bwrite_def)
next
  case False
  then have u: "past_end b lba n \<longleftrightarrow> n = 0" by (auto simp: past_end_def capacity_def Let_def unsigned_eq_0_iff)
  obtain ok bs d where r: "bd_read (table b ! 0) (lba + part_lba b) n (disk b) = (ok, bs, d)"
    by (metis prod_cases3)
  obtain ok' d' where w: "bd_write (table b ! 0) (lba + part_lba b) n src (disk b) = (ok', d')"
    by fastforce
  have "n = 0 \<or> bread lba n b = (Some (ok, bs), b\<lparr>disk := d\<rparr>) \<and> bwrite lba n src b = (Some ok', b\<lparr>disk := d'\<rparr>)"
    using u False r w by (simp add: bread_def bwrite_def)
  moreover have "unat (lba + part_lba b) = (unat (part_lba b) + unat lba) mod 2 ^ 32"
    by (subst add.commute) (simp add: unat_word_ariths(1))
  moreover have "n = 0 \<longrightarrow> bread lba n b = (None, b) \<and> bwrite lba n src b = (None, b)" using u by (auto simp: bread_def bwrite_def)
  ultimately show ?thesis using False r w by auto
qed

theorem bio_transfers_bounded_witness:
  "bread 3 1 bio_demo = (None, bio_demo) \<and> bwrite 0 4 [] bio_demo = (None, bio_demo) \<and>
   fst (bread 2 1 bio_demo) = Some (True, replicate 512 0)"
proof -
  have "fst (bread 2 1 bio_demo) = Some (True, replicate 512 0)"
    using bio_transfers_bounded [of bio_demo 1 2 "[]"] by (auto simp: bio_demo_def capacity_def mem_read_def)
  then show ?thesis
    using bio_transfers_bounded [of bio_demo 1 3 "[]"] bio_transfers_bounded [of bio_demo 4 0 "[]"]
    by (simp add: bio_demo_def capacity_def)
qed

text \<open>
  Round trip through the block layer. For a device whose successful write stores the
  given sectors and leaves the others, and whose successful read returns the stored sectors,
  a successful \<open>bwrite\<close> followed by a successful \<open>bread\<close> of the same sectors returns the bytes
  written, and a sector outside the request keeps its bytes. The hypotheses are the contract
  of the device's entry points, with \<open>sec d i\<close> the bytes of absolute sector \<open>i\<close>.
\<close>

theorem bio_write_read:
  fixes sec :: "'d \<Rightarrow> nat \<Rightarrow> u8 list"
  assumes dev: "table b \<noteq> []" "bd_sectors (table b ! 0) \<noteq> 0"
    and wr: "\<And>a n src d d'. unat a + unat n \<le> capacity b \<Longrightarrow> length src = 512 * unat n \<Longrightarrow>
        bd_write (table b ! 0) a n src d = (True, d') \<Longrightarrow>
        concat (map (sec d') [unat a..<unat a + unat n]) = src \<and>
        (\<forall>i. i < unat a \<or> unat a + unat n \<le> i \<longrightarrow> sec d' i = sec d i)"
    and rd: "\<And>a n d bs d'. unat a + unat n \<le> capacity b \<Longrightarrow>
        bd_read (table b ! 0) a n d = (True, bs, d') \<Longrightarrow>
        bs = concat (map (sec d) [unat a..<unat a + unat n])"
    and src: "length src = 512 * unat n"
    and w: "bwrite lba n src b = (Some True, b1)" and r: "bread lba n b1 = (Some (True, bs), b2)"
  shows "bs = src \<and> (\<forall>i. i < unat (part_lba b) + unat lba \<or> unat (part_lba b) + unat lba + unat n \<le> i \<longrightarrow>
    sec (disk b1) i = sec (disk b) i)"
proof
  obtain a d where a: "unat a = unat (part_lba b) + unat lba" "unat a + unat n \<le> capacity b"
    and d: "bd_write (table b ! 0) a n src (disk b) = (True, d)" "b1 = b\<lparr>disk := d\<rparr>"
    using bio_transfer_cases [OF dev, of n lba src] w by (auto split: if_splits)
  have W: "concat (map (sec d) [unat a..<unat a + unat n]) = src"
    "\<forall>i. i < unat a \<or> unat a + unat n \<le> i \<longrightarrow> sec d i = sec (disk b) i"
    using wr [OF a(2) src d(1)] by auto
  then show "\<forall>i. i < unat (part_lba b) + unat lba \<or> unat (part_lba b) + unat lba + unat n \<le> i \<longrightarrow>
    sec (disk b1) i = sec (disk b) i"
    using a(1) d(2) by auto
  have dev1: "table b1 \<noteq> []" "bd_sectors (table b1 ! 0) \<noteq> 0" using dev d(2) by simp_all
  have same: "table b1 = table b" "part_lba b1 = part_lba b" "capacity b1 = capacity b"
    using d(2) by (simp_all add: capacity_def)
  obtain a' bs' d' where a': "unat a' = unat (part_lba b) + unat lba"
    and r': "bd_read (table b ! 0) a' n d = (True, bs, d')"
    using bio_transfer_cases [OF dev1, of n lba src] r d(2) unfolding same
    by (auto split: if_splits)
  have "a' = a" using a(1) a' by (intro word_eq_by_unat) simp
  then show "bs = src" using rd [OF a(2)] r' W(1) by blast
qed

theorem bio_write_read_witness:
  "fst (bread 2 1 (snd (bwrite 2 1 (replicate 512 7) bio_demo))) = Some (True, replicate 512 7)"
proof -
  let ?s = "replicate 512 (7 :: u8)"
  obtain b1 where w: "bwrite 2 1 ?s bio_demo = (Some True, b1)" and t: "table b1 = table bio_demo"
    "part_lba b1 = 1"
    by (simp add: bwrite_def past_end_def bio_demo_def mem_write_def)
  then obtain bs b2 where r: "bread 2 1 b1 = (Some (True, bs), b2)"
    by (simp add: bread_def past_end_def bio_demo_def mem_read_def)
  have "bs = ?s"
    by (rule bio_write_read [of bio_demo "\<lambda>d. d" ?s 1 2 b1 bs b2, THEN conjunct1])
       (use w r mem_write_read in \<open>auto simp: bio_demo_def mem_read_def capacity_def\<close>)
  then show ?thesis using w r by simp
qed

text \<open>
  \<open>bio_init\<close> takes the start of the first of the four MBR entries that is of type 1 with a
  non-zero start and length; without a device, a readable sector with the boot signature or
  such an entry it fails and the partition start is 0.
\<close>

theorem bio_init_partition:
  assumes "bio_init b = (r, b')"
  shows "(r = 0 \<longleftrightarrow> part_lba b' \<noteq> 0) \<and> (r = 0 \<longrightarrow> (\<exists>mbr d i. table b \<noteq> [] \<and>
      bd_read (table b ! 0) 0 1 (disk b) = (True, mbr, d) \<and> mbr ! 510 = 0x55 \<and> mbr ! 511 = 0xAA \<and>
      i < 4 \<and> fat_entry mbr i \<and> (\<forall>j < i. \<not> fat_entry mbr j) \<and>
      part_lba b' = fst (snd (mbr_entry mbr i)))) \<and>
    (r \<noteq> 0 \<longrightarrow> r = -1 \<and> (\<forall>mbr d. table b \<noteq> [] \<and> bd_read (table b ! 0) 0 1 (disk b) = (True, mbr, d) \<and>
      mbr ! 510 = 0x55 \<and> mbr ! 511 = 0xAA \<longrightarrow> (\<forall>i < 4. \<not> fat_entry mbr i)))"
proof (cases "table b = []")
  case True
  then show ?thesis using assms by (auto simp: bio_init_def)
next
  case False
  obtain ok mbr d where rd: "bd_read (table b ! 0) 0 1 (disk b) = (ok, mbr, d)" by (metis prod_cases3)
  show ?thesis
  proof (cases "ok \<and> mbr ! 510 = 0x55 \<and> mbr ! 511 = 0xAA")
    case no: False
    then show ?thesis using assms False rd by (auto simp: bio_init_def Let_def split: if_splits)
  next
    case yes: True
    show ?thesis
    proof (cases "List.find (fat_entry mbr) [0..<4]")
      case None
      then have "\<forall>i < 4. \<not> fat_entry mbr i" by (simp add: find_None_iff del: upt_rec_numeral)
      then show ?thesis using assms False rd yes None
        by (auto simp: bio_init_def Let_def split: if_splits simp del: upt_rec_numeral)
    next
      case (Some i)
      then have i: "i < 4" "fat_entry mbr i" "\<forall>j < i. \<not> fat_entry mbr j"
        by (auto simp: find_Some_iff simp del: upt_rec_numeral)
      then have "fst (snd (mbr_entry mbr i)) \<noteq> 0" by (auto simp: fat_entry_def split: prod.splits)
      moreover have "r = 0" "part_lba b' = fst (snd (mbr_entry mbr i))"
        using assms False rd yes Some by (auto simp: bio_init_def Let_def simp del: upt_rec_numeral)
      ultimately show ?thesis using i rd yes False by auto
    qed
  qed
qed

definition mbr_demo :: "u8 list" where
  "mbr_demo = replicate 446 0 @ [0, 0, 0, 0, 1, 0, 0, 0, 5, 0, 0, 0, 3, 0, 0, 0] @ replicate 48 0 @ [0x55, 0xAA]"

theorem bio_init_partition_witness:
  "part_lba (snd (bio_init (bio_demo\<lparr>disk := (\<lambda>_. mbr_demo)\<rparr>))) \<noteq> 0"
proof -
  have "fat_entry mbr_demo 0" "mbr_demo ! 510 = 0x55" "mbr_demo ! 511 = 0xAA"
    by (simp_all add: fat_entry_def mbr_entry_def rd32_def mbr_demo_def nth_append)
  then have "fst (bio_init (bio_demo\<lparr>disk := (\<lambda>_. mbr_demo)\<rparr>)) = 0"
    by (simp add: bio_init_def bio_demo_def mem_read_def Let_def upt_conv_Cons)
  then show ?thesis
    using bio_init_partition [OF surjective_pairing, of "bio_demo\<lparr>disk := (\<lambda>_. mbr_demo)\<rparr>"] by simp
qed

text \<open>
  \<open>bdev_list\<close> writes the device names separated by single spaces, cut to the buffer less
  one byte, ends them with a zero byte, returns their length and leaves the rest of the
  buffer alone.
\<close>

theorem bdev_list_names:
  assumes "mx \<noteq> 0" "unat mx \<le> length dst" "\<forall>d \<in> set (table b). bd_name d \<noteq> []"
  shows "let t = take (unat mx - 1) (join_sp (map bd_name (table b)))
    in bdev_list b dst mx = (int (length t), t @ CHR 0x00 # drop (length t + 1) dst)"
  unfolding Let_def by (rule bdev_list_spec [OF assms])

theorem bdev_list_names_witness:
  "bdev_list bio_demo ''......'' 3 = (2, ''me'' @ CHR 0x00 # ''...'')"
  using bdev_list_names [of 3 "''......''" bio_demo] by (simp add: bio_demo_def)

end
