(* ===== verification/Fs.thy ===== *)
theory Fs
  imports Fs_Path Fat Bio Pmm Hhdm
begin

text \<open>
  The file system state of \<open>kernel/fs.c\<close> and its directory layer: pages, the FAT on disk, the
  buffer \<open>g_dir\<close> of the current directory, the table of files and the walk along a path.

  The static variables are the fields of \<open>fs\<close>. \<open>files\<close> is the live part of the table (its length is
  \<open>file_count\<close>; no code reads past it). \<open>g_fat\<close>, \<open>g_sec\<close> and \<open>g_dir\<close> are the contents of their
  buffers, \<open>None\<close> for the null pointer; \<open>data\<close> and \<open>g_view\<close> are pointers to pages, whose contents
  are in \<open>ram\<close>. An operation returns its success (0 against -1) and the new state.
\<close>

definition FS_MAX :: nat where "FS_MAX = 48"
definition FILE_MAX :: u32 where "FILE_MAX = 0x1000"

record fs_file =
  fname :: string
  data :: u64
  len :: u32
  cluster :: u32
  dir_off :: u32
  is_dir :: bool

record 'd fs =
  files :: "fs_file list"
  g_fat :: "u8 list option"
  g_sec :: "u8 list option"
  g_first_data :: u32
  g_first_root :: u32
  g_rsvd :: u32
  g_fatsz :: u32
  g_root_ent :: u32
  g_clusters :: u32
  g_cwd :: u32
  g_saved_cwd :: u32
  g_path :: string
  g_dir :: "u8 list option"
  g_dir_bytes :: u32
  g_view :: u64
  ram :: "u64 \<Rightarrow> u8 list"
  mem :: pmm
  hhdm :: bool
  dev :: "'d bio"

section \<open>Bytes and pages\<close>

definition rd_u16 :: "u8 list \<Rightarrow> nat \<Rightarrow> u32" where
  "rd_u16 p i = ucast (p ! i) OR push_bit 8 (ucast (p ! (i + 1)))"

definition rd_u32 :: "u8 list \<Rightarrow> nat \<Rightarrow> u32" where
  "rd_u32 p i = ucast (p ! i) OR push_bit 8 (ucast (p ! (i + 1))) OR
     push_bit 16 (ucast (p ! (i + 2))) OR push_bit 24 (ucast (p ! (i + 3)))"

text \<open>\<open>blit\<close> overwrites the bytes from \<open>off\<close> on, as \<open>copy_bytes\<close> and a transfer do.\<close>

definition blit :: "nat \<Rightarrow> u8 list \<Rightarrow> u8 list \<Rightarrow> u8 list" where
  "blit off bs buf = take off buf @ bs @ drop (off + length bs) buf"

definition wr_u16 :: "nat \<Rightarrow> u32 \<Rightarrow> u8 list \<Rightarrow> u8 list" where
  "wr_u16 i v p = blit i [ucast v, ucast (drop_bit 8 v)] p"

definition wr_u32 :: "nat \<Rightarrow> u32 \<Rightarrow> u8 list \<Rightarrow> u8 list" where
  "wr_u32 i v p = blit i [ucast v, ucast (drop_bit 8 v), ucast (drop_bit 16 v), ucast (drop_bit 24 v)] p"

definition find_file :: "string \<Rightarrow> 'd fs \<Rightarrow> nat option" where
  "find_file name s =
     (if name = [] then None
      else List.find (\<lambda>i. name = fname (files s ! i)) [0..<length (files s)])"

text \<open>0 when no page is left.\<close>

definition page_buf :: "'d fs \<Rightarrow> u64 \<times> 'd fs" where
  "page_buf s =
     (case pmm_alloc_above 0x200000 (mem s) of (phys, m) \<Rightarrow>
      case (if phys = 0 then pmm_alloc m else (phys, m)) of (phys1, m1) \<Rightarrow>
        (if phys1 = 0 then 0 else phys_to_virt (hhdm s) phys1, s\<lparr>mem := m1\<rparr>))"

definition drop_page :: "u64 \<Rightarrow> 'd fs \<Rightarrow> 'd fs" where
  "drop_page p s =
     (if p = 0 then s
      else let phys = virt_to_phys (hhdm s) p in
        if phys \<noteq> 0 then s\<lparr>mem := pmm_free phys (mem s)\<rparr> else s)"

definition poke_page :: "u64 \<Rightarrow> nat \<Rightarrow> u8 list \<Rightarrow> 'd fs \<Rightarrow> 'd fs" where
  "poke_page p off bs s = s\<lparr>ram := (ram s)(p := blit off bs (ram s p))\<rparr>"

definition upd_file :: "nat \<Rightarrow> (fs_file \<Rightarrow> fs_file) \<Rightarrow> 'd fs \<Rightarrow> 'd fs" where
  "upd_file i f s = s\<lparr>files := (files s)[i := f (files s ! i)]\<rparr>"

text \<open>\<open>A() == 0 && B() == 0\<close>.\<close>

definition andthen :: "('s \<Rightarrow> bool \<times> 's) \<Rightarrow> ('s \<Rightarrow> bool \<times> 's) \<Rightarrow> 's \<Rightarrow> bool \<times> 's" where
  "andthen f g s = (case f s of (ok, s1) \<Rightarrow> if ok then g s1 else (False, s1))"

section \<open>Transfers\<close>

text \<open>A failed read may have changed the buffer; a refused one has not.\<close>

definition rd_blocks :: "u32 \<Rightarrow> u32 \<Rightarrow> 'd fs \<Rightarrow> bool \<times> u8 list \<times> 'd fs" where
  "rd_blocks lba n s =
     (case bread lba n (dev s) of
        (None, b) \<Rightarrow> (False, [], s\<lparr>dev := b\<rparr>)
      | (Some (ok, bs), b) \<Rightarrow> (ok, bs, s\<lparr>dev := b\<rparr>))"

definition wr_blocks :: "u32 \<Rightarrow> u32 \<Rightarrow> u8 list \<Rightarrow> 'd fs \<Rightarrow> bool \<times> 'd fs" where
  "wr_blocks lba n src s =
     (case bwrite lba n (take (unat n * 512) src) (dev s) of (r, b) \<Rightarrow> (r = Some True, s\<lparr>dev := b\<rparr>))"

definition rd_sec :: "u32 \<Rightarrow> 'd fs \<Rightarrow> bool \<times> 'd fs" where
  "rd_sec lba s =
     (case g_sec s of None \<Rightarrow> (False, s)
      | Some sec \<Rightarrow> (case rd_blocks lba 1 s of (ok, bs, s1) \<Rightarrow> (ok, s1\<lparr>g_sec := Some (blit 0 bs sec)\<rparr>)))"

definition wr_sec :: "u32 \<Rightarrow> 'd fs \<Rightarrow> bool \<times> 'd fs" where
  "wr_sec lba s = (case g_sec s of None \<Rightarrow> (False, s) | Some sec \<Rightarrow> wr_blocks lba 1 sec s)"

definition rd_dir :: "u32 \<Rightarrow> u32 \<Rightarrow> 'd fs \<Rightarrow> bool \<times> 'd fs" where
  "rd_dir lba off s =
     (case g_dir s of None \<Rightarrow> (False, s)
      | Some d \<Rightarrow> (case rd_blocks lba 1 s of (ok, bs, s1) \<Rightarrow> (ok, s1\<lparr>g_dir := Some (blit (unat off) bs d)\<rparr>)))"

definition wr_dir :: "u32 \<Rightarrow> u32 \<Rightarrow> 'd fs \<Rightarrow> bool \<times> 'd fs" where
  "wr_dir lba off s = (case g_dir s of None \<Rightarrow> (False, s) | Some d \<Rightarrow> wr_blocks lba 1 (drop (unat off) d) s)"

section \<open>The FAT of the mounted disk\<close>

text \<open>With \<open>g_fat\<close> null \<open>g_fatsz\<close> is 0, and every entry reads as the end of a chain.\<close>

definition fat_of :: "'d fs \<Rightarrow> u8 list" where
  "fat_of s = (case g_fat s of None \<Rightarrow> [] | Some f \<Rightarrow> f)"

definition dir_of :: "'d fs \<Rightarrow> u8 list" where
  "dir_of s = (case g_dir s of None \<Rightarrow> [] | Some d \<Rightarrow> d)"

definition put_fat :: "u8 list \<Rightarrow> 'd fs \<Rightarrow> 'd fs" where
  "put_fat f s = s\<lparr>g_fat := map_option (\<lambda>_. f) (g_fat s)\<rparr>"

definition ent_at :: "'d fs \<Rightarrow> u32 \<Rightarrow> u32" where
  "ent_at s cl = fat12_ent (g_fatsz s) (fat_of s) cl"

definition set_ent :: "u32 \<Rightarrow> u32 \<Rightarrow> 'd fs \<Rightarrow> 'd fs" where
  "set_ent cl v s = put_fat (fat12_set (g_fatsz s) cl v (fat_of s)) s"

definition alloc_cl :: "'d fs \<Rightarrow> u32 \<times> 'd fs" where
  "alloc_cl s = (case fat_alloc (g_fatsz s) (g_clusters s) (fat_of s) of (cl, f) \<Rightarrow> (cl, put_fat f s))"

definition free_cls :: "u32 \<Rightarrow> 'd fs \<Rightarrow> 'd fs" where
  "free_cls cl s = put_fat (fat_free_chain (g_fatsz s) cl (fat_of s)) s"

definition fat_flush :: "'d fs \<Rightarrow> bool \<times> 'd fs" where
  "fat_flush s =
     (case g_fat s of None \<Rightarrow> (False, s)
      | Some f \<Rightarrow>
          if g_fatsz s = 0 then (False, s)
          else andthen (wr_blocks (g_rsvd s) (g_fatsz s) f)
                 (wr_blocks (g_rsvd s + g_fatsz s) (g_fatsz s) f) s)"

section \<open>The directory buffer\<close>

definition data_lba :: "'d fs \<Rightarrow> u32 \<Rightarrow> u32" where
  "data_lba s cl = g_first_data s + (cl - 2)"

definition dir_lba :: "'d fs \<Rightarrow> u32" where
  "dir_lba s = (if g_cwd s < 2 then g_first_root s else data_lba s (g_cwd s))"

definition dir_ents :: "'d fs \<Rightarrow> nat" where
  "dir_ents s = unat (g_dir_bytes s div 32)"

text \<open>The loops over the directory's chain, with \<open>k\<close> hops left.\<close>

fun dir_load_loop :: "nat \<Rightarrow> u32 \<Rightarrow> u32 \<Rightarrow> 'd fs \<Rightarrow> bool \<times> u32 \<times> 'd fs" where
  "dir_load_loop 0 cl off s = (True, off, s)"
| "dir_load_loop (Suc k) cl off s =
     (if \<not> in_chain cl then (True, off, s)
      else case rd_dir (data_lba s cl) off s of (ok, s1) \<Rightarrow>
        if \<not> ok then (False, off, s1) else dir_load_loop k (ent_at s1 cl) (off + SEC) s1)"

definition dir_load :: "'d fs \<Rightarrow> bool \<times> 'd fs" where
  "dir_load s =
     (if g_dir s = None then (False, s)
      else if g_cwd s < 2
      then (case rd_dir (g_first_root s) 0 s of (ok, s1) \<Rightarrow>
              if \<not> ok then (False, s1)
              else case dir_load_loop (CHAIN_MAX - 1) (if g_fat s1 \<noteq> None then ent_at s1 1 else 0) SEC s1 of
                (ok1, off, s2) \<Rightarrow> if \<not> ok1 then (False, s2) else (True, s2\<lparr>g_dir_bytes := off\<rparr>))
      else case dir_load_loop CHAIN_MAX (g_cwd s) 0 s of
          (ok1, off, s2) \<Rightarrow> if \<not> ok1 then (False, s2) else (off \<noteq> 0, s2\<lparr>g_dir_bytes := off\<rparr>))"

fun dir_store_loop :: "nat \<Rightarrow> u32 \<Rightarrow> u32 \<Rightarrow> 'd fs \<Rightarrow> bool \<times> u32 \<times> 'd fs" where
  "dir_store_loop 0 cl off s = (True, off, s)"
| "dir_store_loop (Suc k) cl off s =
     (if \<not> (off < g_dir_bytes s \<and> in_chain cl) then (True, off, s)
      else case wr_dir (data_lba s cl) off s of (ok, s1) \<Rightarrow>
        if \<not> ok then (False, off, s1) else dir_store_loop k (ent_at s1 cl) (off + SEC) s1)"

definition dir_store :: "'d fs \<Rightarrow> bool \<times> 'd fs" where
  "dir_store s =
     (if g_dir s = None \<or> g_dir_bytes s = 0 then (False, s)
      else if g_cwd s < 2
      then (case wr_dir (g_first_root s) 0 s of (ok, s1) \<Rightarrow>
              if \<not> ok then (False, s1)
              else case dir_store_loop (CHAIN_MAX - 1) (if g_fat s1 \<noteq> None then ent_at s1 1 else 0) SEC s1 of
                (ok1, off, s2) \<Rightarrow> (ok1 \<and> g_dir_bytes s2 \<le> off, s2))
      else case dir_store_loop CHAIN_MAX (g_cwd s) 0 s of
          (ok1, off, s2) \<Rightarrow> (ok1 \<and> g_dir_bytes s2 \<le> off, s2))"

fun find_run :: "(nat \<Rightarrow> bool) \<Rightarrow> nat \<Rightarrow> nat list \<Rightarrow> nat \<Rightarrow> nat \<Rightarrow> nat option" where
  "find_run vacant need [] run start = None"
| "find_run vacant need (i # is) run start =
     (if vacant i
      then let start1 = (if run = 0 then i else start) in
        if need \<le> run + 1 then Some (start1 * 32) else find_run vacant need is (run + 1) start1
      else find_run vacant need is 0 start)"

definition dir_find_run :: "nat \<Rightarrow> 'd fs \<Rightarrow> nat option" where
  "dir_find_run need s =
     (if need = 0 then None
      else case g_dir s of None \<Rightarrow> None
        | Some d \<Rightarrow> find_run (\<lambda>i. d ! (i * 32) = 0 \<or> d ! (i * 32) = 0xE5) need [0..<dir_ents s] 0 0)"

definition last_or :: "u32 \<Rightarrow> u32 list \<Rightarrow> u32" where
  "last_or d cls = (if cls = [] then d else last cls)"

definition dir_grow :: "'d fs \<Rightarrow> bool \<times> 'd fs" where
  "dir_grow s =
     (if g_fat s = None \<or> g_dir s = None \<or> of_nat CHAIN_MAX * SEC < g_dir_bytes s + SEC then (False, s)
      else let lst = (if g_cwd s < 2 then last_or 1 (chain (CHAIN_MAX - 1) (ent_at s) (ent_at s 1))
                      else last_or (g_cwd s) (chain CHAIN_MAX (ent_at s) (g_cwd s))) in
        case alloc_cl s of (nxt, s1) \<Rightarrow>
          if nxt < 2 then (False, s1)
          else case fat_flush (set_ent lst nxt s1) of (ok, s2) \<Rightarrow>
            if \<not> ok then (False, snd (fat_flush (set_ent nxt 0 (set_ent lst FAT12_EOF s2))))
            else let off = g_dir_bytes s2 in
              (True, s2\<lparr>g_dir := map_option (blit (unat off) (replicate 512 0)) (g_dir s2), g_dir_bytes := off + SEC\<rparr>))"

definition dir_slots :: "nat \<Rightarrow> 'd fs \<Rightarrow> nat option \<times> 'd fs" where
  "dir_slots need s =
     (case dir_load s of (ok, s1) \<Rightarrow>
        if \<not> ok then (None, s1)
        else case dir_find_run need s1 of Some off \<Rightarrow> (Some off, s1)
          | None \<Rightarrow> (case dir_grow s1 of (ok2, s2) \<Rightarrow>
                       if \<not> ok2 then (None, s2) else (dir_find_run need s2, s2)))"

definition dir_slot :: "'d fs \<Rightarrow> nat option \<times> 'd fs" where
  "dir_slot s = dir_slots 1 s"

text \<open>The entries before \<open>off\<close>, downwards, as long as they belong to a long name.\<close>

function wipe_lfn :: "nat \<Rightarrow> u8 list \<Rightarrow> u8 list" where
  "wipe_lfn off d =
     (if off < 32 then d
      else if d ! (off - 32) = 0 \<or> d ! (off - 32) = 0xE5 \<or> d ! (off - 32 + 11) \<noteq> 0x0F then d
      else wipe_lfn (off - 32) (d[off - 32 := 0xE5]))"
  by pat_completeness auto
termination
  by (relation "measure fst") auto

declare wipe_lfn.simps [simp del]

definition dir_wipe :: "u32 \<Rightarrow> 'd fs \<Rightarrow> 'd fs" where
  "dir_wipe off s =
     s\<lparr>g_dir := map_option (\<lambda>d. wipe_lfn (unat off) (d[unat off := 0xE5])) (g_dir s)\<rparr>"

section \<open>Names in the directory\<close>

definition dirent :: "u8 list \<Rightarrow> nat \<Rightarrow> u8 list" where
  "dirent d i = take 32 (drop (i * 32) d)"

fun alias_scan :: "u8 list list \<Rightarrow> u8 list \<Rightarrow> bool" where
  "alias_scan [] n83 = False"
| "alias_scan (e # es) n83 =
     (if e ! 0 = 0 then False
      else if e ! 0 = 0xE5 \<or> e ! 11 = 0x0F \<or> e ! 11 AND 0x08 \<noteq> 0 then alias_scan es n83
      else if take 11 e = n83 then True
      else alias_scan es n83)"

definition alias_used :: "u8 list \<Rightarrow> 'd fs \<Rightarrow> bool" where
  "alias_used n83 s =
     (case g_dir s of None \<Rightarrow> True
      | Some d \<Rightarrow> alias_scan (map (dirent d) [0..<dir_ents s]) n83)"

text \<open>The first \<open>k\<close> letters and digits of a string, as stored.\<close>

definition alias_part :: "nat \<Rightarrow> string \<Rightarrow> u8 list" where
  "alias_part k str = map (\<lambda>c. byte (up_char (fold_az c))) (take k (filter (\<lambda>c. name_char (fold_az c)) str))"

definition alias_form :: "u8 list \<Rightarrow> u8 list \<Rightarrow> nat \<Rightarrow> u8 list" where
  "alias_form base ext gen =
     pad 8 (take 6 base @ [byte (CHR ''~''), 48 + of_nat gen]) @ pad 3 ext"

definition make_alias :: "string \<Rightarrow> 'd fs \<Rightarrow> u8 list option" where
  "make_alias name s =
     (if g_dir s = None then None
      else let stem = (if CHR ''.'' \<in> set name then rev (tl (dropWhile (\<lambda>c. c \<noteq> CHR ''.'') (rev name))) else name);
               base = alias_part 8 stem;
               ext = (if CHR ''.'' \<in> set name then alias_part 3 (rev (takeWhile (\<lambda>c. c \<noteq> CHR ''.'') (rev name))) else [])
           in if base = [] then None
              else map_option (alias_form base ext)
                     (List.find (\<lambda>gen. \<not> alias_used (alias_form base ext gen) s) [1..<10]))"

section \<open>Reading a directory\<close>

fun chain_load_loop :: "nat \<Rightarrow> u64 \<Rightarrow> nat \<Rightarrow> u32 \<Rightarrow> u32 \<Rightarrow> 'd fs \<Rightarrow> bool \<times> 'd fs" where
  "chain_load_loop k dst off cl left s =
     (if left = 0 then (True, s)
      else case k of 0 \<Rightarrow> (False, s)
        | Suc k' \<Rightarrow>
            if \<not> in_chain cl \<or> g_fat s = None \<or> g_sec s = None then (False, s)
            else case rd_sec (data_lba s cl) s of (ok, s1) \<Rightarrow>
              if \<not> ok then (False, s1)
              else let n = (if left < SEC then left else SEC);
                       s2 = poke_page dst off (take (unat n) (the (g_sec s1))) s1
                   in chain_load_loop k' dst (off + unat n) (ent_at s2 cl) (left - n) s2)"

declare chain_load_loop.simps [simp del]

definition load_file :: "u64 \<Rightarrow> u32 \<Rightarrow> u32 \<Rightarrow> 'd fs \<Rightarrow> bool \<times> 'd fs" where
  "load_file dst start sz s = chain_load_loop CHAIN_MAX dst 0 start sz s"

text \<open>
  The loop of \<open>scan_dir\<close> over the entries; \<open>lfn\<close> is \<open>lfn_ent\<close> as an index, with \<open>lfn_n\<close>.
\<close>

definition scan_name :: "u8 list \<Rightarrow> nat option \<Rightarrow> nat \<Rightarrow> nat \<Rightarrow> string" where
  "scan_name d lfn lfn_n i =
     (case lfn of None \<Rightarrow> fat_name (dirent d i)
      | Some j \<Rightarrow> (case lfn_build (map (dirent d) [j..<j + lfn_n]) lfn_n (dirent d i) of
            None \<Rightarrow> fat_name (dirent d i)
          | Some nm \<Rightarrow> nm))"

fun scan_ents :: "nat list \<Rightarrow> nat option \<Rightarrow> nat \<Rightarrow> 'd fs \<Rightarrow> bool \<times> 'd fs" where
  "scan_ents [] lfn lfn_n s = (True, s)"
| "scan_ents (i # is) lfn lfn_n s =
     (let d = dir_of s; ent = dirent d i; attr = ent ! 11 in
      if FS_MAX \<le> length (files s) \<or> ent ! 0 = 0 then (True, s)
      else if ent ! 0 = 0xE5 \<or> ent ! 0 = 0x05 \<or> ent ! 0 = 0x2E then scan_ents is None 0 s
      else if attr = 0x0F
      then (if ent ! 0 AND 0x40 \<noteq> 0 then scan_ents is (Some i) 1 s
            else if lfn \<noteq> None \<and> lfn_n < LFN_MAX then scan_ents is lfn (lfn_n + 1) s
            else scan_ents is None 0 s)
      else if attr AND 0x08 \<noteq> 0 then scan_ents is None 0 s
      else let cl = rd_u16 ent 26;
               f = \<lparr>fname = scan_name d lfn lfn_n i, data = 0, len = 0, cluster = cl,
                    dir_off = of_nat (i * 32), is_dir = True\<rparr>
           in if attr AND 0x10 \<noteq> 0 then scan_ents is None 0 (s\<lparr>files := files s @ [f]\<rparr>)
              else let sz = rd_u32 ent 28 in
                if FILE_MAX < sz then scan_ents is None 0 s
                else case page_buf s of (dst, s1) \<Rightarrow>
                  if dst = 0 then (False, s1)
                  else let s2 = s1\<lparr>files := files s1 @ [f\<lparr>data := dst, len := sz, is_dir := False\<rparr>]\<rparr>
                       in scan_ents is None 0 (if sz \<noteq> 0 then snd (load_file dst cl sz s2) else s2))"

definition scan_dir :: "'d fs \<Rightarrow> bool \<times> 'd fs" where
  "scan_dir s =
     (case dir_load ((fold (\<lambda>f. drop_page (data f)) (files s) s)\<lparr>files := []\<rparr>) of (ok, s1) \<Rightarrow>
        if \<not> ok then (False, s1) else scan_ents [0..<dir_ents s1] None 0 s1)"

section \<open>Walking a path\<close>

definition go_cwd :: "u32 \<Rightarrow> 'd fs \<Rightarrow> bool \<times> 'd fs" where
  "go_cwd cl s = scan_dir (s\<lparr>g_cwd := cl\<rparr>)"

definition chdir_one :: "string \<Rightarrow> 'd fs \<Rightarrow> bool \<times> 'd fs" where
  "chdir_one name s =
     (if name = [] then (False, s)
      else if name = ''.'' then (True, s)
      else if name = ''..''
      then (if g_cwd s < 2 then (True, s)
            else case rd_sec (dir_lba s) s of (ok, s1) \<Rightarrow>
              if \<not> ok then (False, s1) else go_cwd (rd_u16 (the (g_sec s1)) 58) s1)
      else case find_file name s of None \<Rightarrow> (False, s)
        | Some i \<Rightarrow> if \<not> is_dir (files s ! i) then (False, s) else go_cwd (cluster (files s ! i)) s)"

function walk_loop :: "string \<Rightarrow> 'd fs \<Rightarrow> bool \<times> 'd fs" where
  "walk_loop path s =
     (case split_next NAME_MAX path of
        SErr \<Rightarrow> (False, s)
      | SEnd \<Rightarrow> (True, s)
      | SComp nm rest \<Rightarrow> (case chdir_one nm s of (ok, s1) \<Rightarrow> if \<not> ok then (False, s1) else walk_loop rest s1))"
  by pat_completeness auto
termination
  by (relation "measure (\<lambda>(p, s). length p)") (auto simp: split_next_shorter)

text \<open>The start of \<open>walk_all\<close> and \<open>enter_parent\<close>: an absolute path begins at the root.\<close>

definition to_root :: "'d fs \<Rightarrow> bool \<times> 'd fs" where
  "to_root s = (if 2 \<le> g_cwd s then go_cwd 0 s else (True, s))"

definition walk_all :: "string option \<Rightarrow> 'd fs \<Rightarrow> bool \<times> 'd fs" where
  "walk_all path s =
     (case path of None \<Rightarrow> (False, s)
      | Some p \<Rightarrow> if p \<noteq> [] \<and> hd p = slash then andthen to_root (walk_loop (tl p)) s else walk_loop p s)"

function parent_loop :: "string \<Rightarrow> string \<Rightarrow> 'd fs \<Rightarrow> string option \<times> 'd fs" where
  "parent_loop nm path s =
     (case split_next NAME_MAX path of
        SErr \<Rightarrow> (None, s)
      | SEnd \<Rightarrow> (Some nm, s)
      | SComp nxt rest \<Rightarrow>
          (case chdir_one nm s of (ok, s1) \<Rightarrow> if \<not> ok then (None, s1) else parent_loop nxt rest s1))"
  by pat_completeness auto
termination
  by (relation "measure (\<lambda>(n, p, s). length p)") (auto simp: split_next_shorter)

declare walk_loop.simps [simp del] parent_loop.simps [simp del]

definition parent_walk :: "string \<Rightarrow> 'd fs \<Rightarrow> string option \<times> 'd fs" where
  "parent_walk path s =
     (case split_next NAME_MAX path of SComp nm rest \<Rightarrow> parent_loop nm rest s | _ \<Rightarrow> (None, s))"

definition enter_parent :: "string option \<Rightarrow> 'd fs \<Rightarrow> string option \<times> 'd fs" where
  "enter_parent path s0 =
     (let s = s0\<lparr>g_saved_cwd := g_cwd s0\<rparr> in
      case path of None \<Rightarrow> (None, s)
      | Some [] \<Rightarrow> (None, s)
      | Some (c # p) \<Rightarrow>
          (case (if c = slash
                 then (case to_root s of (ok, s1) \<Rightarrow> if \<not> ok \<or> p = [] then (None, s1) else parent_walk p s1)
                 else parent_walk (c # p) s) of
             (Some leaf, s1) \<Rightarrow> (Some leaf, s1)
           | (None, s1) \<Rightarrow>
               if g_cwd s1 \<noteq> g_saved_cwd s1 then (None, snd (go_cwd (g_saved_cwd s1) s1)) else (None, s1)))"

definition leave_parent :: "'d fs \<Rightarrow> bool \<times> 'd fs" where
  "leave_parent s = (if g_cwd s = g_saved_cwd s then (True, s) else go_cwd (g_saved_cwd s) s)"

end
