(* ===== verification/Fs_Ops.thy ===== *)
theory Fs_Ops
  imports Fs Vga
begin

text \<open>
  The operations of \<open>kernel/fs.c\<close> that the rest of the kernel calls: mounting, listing, reading,
  writing, truncating, removing, renaming, copying and linking files, making and removing
  directories, and the working directory. A path argument is \<open>None\<close> for the null pointer; where the
  source returns through pointers, the result is an option.
\<close>

section \<open>File contents\<close>

fun chain_store_loop :: "nat \<Rightarrow> u32 \<Rightarrow> u32 \<Rightarrow> u8 list \<Rightarrow> u32 \<Rightarrow> 'd fs \<Rightarrow> bool \<times> 'd fs" where
  "chain_store_loop k cl off src ln s =
     (if \<not> off < ln then (True, s)
      else case k of 0 \<Rightarrow> (False, s)
        | Suc k' \<Rightarrow>
            (case g_sec s of None \<Rightarrow> (False, s)
             | Some sec \<Rightarrow>
                 if \<not> in_chain cl then (False, s)
                 else let n = (if SEC < ln - off then SEC else ln - off);
                          sec1 = blit 0 (take (unat n) (drop (unat off) src)) (blit 0 (replicate 512 0) sec)
                      in case wr_sec (data_lba s cl) (s\<lparr>g_sec := Some sec1\<rparr>) of (ok, s1) \<Rightarrow>
                        if \<not> ok then (False, s1)
                        else chain_store_loop k' (if off + n < ln then ent_at s1 cl else cl) (off + n) src ln s1))"

declare chain_store_loop.simps [simp del]

definition store_chain :: "u32 \<Rightarrow> u8 list \<Rightarrow> u32 \<Rightarrow> 'd fs \<Rightarrow> bool \<times> 'd fs" where
  "store_chain start src ln s = chain_store_loop CHAIN_MAX start 0 src ln s"

definition sectors_for :: "u32 \<Rightarrow> u32" where
  "sectors_for n = (n + SEC - 1) div SEC"

text \<open>\<open>fat_resize(&files[i].cluster, need)\<close>.\<close>

definition resize_file :: "nat \<Rightarrow> u32 \<Rightarrow> 'd fs \<Rightarrow> bool \<times> 'd fs" where
  "resize_file i need s =
     (case fat_resize (g_fatsz s) (g_clusters s) (cluster (files s ! i)) need (fat_of s) of (ok, start, f) \<Rightarrow>
        (ok, upd_file i (\<lambda>x. x\<lparr>cluster := start\<rparr>) (put_fat f s)))"

text \<open>The stores of a file's first cluster and size into its directory entry.\<close>

definition put_meta :: "nat \<Rightarrow> u32 \<Rightarrow> u32 \<Rightarrow> 'd fs \<Rightarrow> 'd fs" where
  "put_meta i cl sz s =
     (let o1 = unat (dir_off (files s ! i)) in
      s\<lparr>g_dir := map_option (\<lambda>d. wr_u32 (o1 + 28) sz (wr_u16 (o1 + 26) cl d)) (g_dir s)\<rparr>)"

definition other_links :: "u32 \<Rightarrow> u32 \<Rightarrow> 'd fs \<Rightarrow> nat" where
  "other_links cl skip_off s =
     (case g_dir s of None \<Rightarrow> 0
      | Some d \<Rightarrow>
          if cl < 2 then 0
          else length (filter
            (\<lambda>i. let ent = dirent d i; attr = ent ! 11 in
               \<not> (of_nat (i * 32) = skip_off \<or> ent ! 0 = 0xE5 \<or> ent ! 0 = 0x2E \<or> attr = 0x0F \<or>
                  attr AND 0x08 \<noteq> 0 \<or> attr AND 0x10 \<noteq> 0) \<and> rd_u16 ent 26 = cl)
            (takeWhile (\<lambda>i. dirent d i ! 0 \<noteq> 0) [0..<dir_ents s])))"

section \<open>Creating a file\<close>

definition new_dirent :: "u8 list \<Rightarrow> u8 \<Rightarrow> u32 \<Rightarrow> u8 list" where
  "new_dirent n83 attr cl = wr_u16 26 cl ((blit 0 n83 (replicate 32 0))[11 := attr])"

definition lfn_ents :: "string \<Rightarrow> u8 list \<Rightarrow> nat \<Rightarrow> u8 list list" where
  "lfn_ents name n83 lfn_n =
     map (\<lambda>i. lfn_store (lfn_want lfn_n i) (lfn_cksum n83) name ((lfn_n - i - 1) * LFN_CHARS)) [0..<lfn_n]"

text \<open>The 8.3 name to store and the number of long-name entries in front of it.\<close>

definition create_name :: "string \<Rightarrow> 'd fs \<Rightarrow> (u8 list \<times> nat) option \<times> 'd fs" where
  "create_name name s =
     (case to_83 (Some name) of Some n83 \<Rightarrow> (Some (n83, 0), s)
      | None \<Rightarrow>
          (case dir_load s of (ok, s1) \<Rightarrow>
             if \<not> ok \<or> \<not> lfn_ok (Some name) then (None, s1)
             else case make_alias name s1 of None \<Rightarrow> (None, s1)
               | Some n83 \<Rightarrow>
                   let lfn_n = (length name + (LFN_CHARS - 1)) div LFN_CHARS
                   in if lfn_n = 0 \<or> LFN_MAX < lfn_n then (None, s1) else (Some (n83, lfn_n), s1)))"

definition fs_create :: "string \<Rightarrow> 'd fs \<Rightarrow> nat option \<times> 'd fs" where
  "fs_create name s0 =
     (if FS_MAX \<le> length (files s0) \<or> g_fat s0 = None then (None, s0)
      else case create_name name s0 of (None, s) \<Rightarrow> (None, s)
      | (Some (n83, lfn_n), s) \<Rightarrow>
          (case page_buf s of (dst, s1) \<Rightarrow>
           if dst = 0 then (None, s1)
           else case alloc_cl s1 of (cl, s2) \<Rightarrow>
           if cl < 2 then (None, drop_page dst s2)
           else case fat_flush s2 of (ok, s3) \<Rightarrow>
           if \<not> ok then (None, drop_page dst (set_ent cl 0 s3))
           else case dir_slots (lfn_n + 1) s3 of
             (None, s4) \<Rightarrow> (None, drop_page dst (snd (fat_flush (set_ent cl 0 s4))))
           | (Some off, s4) \<Rightarrow>
               let ent = new_dirent n83 0x20 cl;
                   s5 = s4\<lparr>g_dir := map_option (blit off (concat (lfn_ents name n83 lfn_n) @ ent)) (g_dir s4)\<rparr>
               in case dir_store s5 of (ok2, s6) \<Rightarrow>
                 if \<not> ok2 then (None, drop_page dst (snd (fat_flush (set_ent cl 0 s6))))
                 else (Some (length (files s6)),
                       s6\<lparr>files := files s6 @ [\<lparr>fname = (if lfn_n \<noteq> 0 then snd (copy_str NAME_MAX name []) else fat_name ent),
                            data = dst, len = 0, cluster = cl, dir_off = of_nat (off + lfn_n * 32), is_dir = False\<rparr>]\<rparr>)))"

section \<open>Listing and reading\<close>

definition fs_count :: "'d fs \<Rightarrow> int" where
  "fs_count s = int (length (files s))"

definition fs_name :: "int \<Rightarrow> 'd fs \<Rightarrow> string option" where
  "fs_name i s = (if i < 0 \<or> int (length (files s)) \<le> i then None else Some (fname (files s ! nat i)))"

definition fs_isdir :: "int \<Rightarrow> 'd fs \<Rightarrow> bool" where
  "fs_isdir i s = (if i < 0 \<or> int (length (files s)) \<le> i then False else is_dir (files s ! nat i))"

text \<open>\<open>out\<close> are the bytes stored so far.\<close>

fun readdir_loop :: "nat \<Rightarrow> fs_file list \<Rightarrow> string \<Rightarrow> string" where
  "readdir_loop mx [] out = out"
| "readdir_loop mx (f # fs) out =
     (let need = length (fname f) + (if is_dir f then 1 else 0) + (if out \<noteq> [] then 1 else 0) in
      if need = 0 \<or> mx < length out + need then out
      else readdir_loop mx fs (out @ (if out \<noteq> [] then '' '' else []) @ fname f @ (if is_dir f then ''/'' else [])))"

definition fs_readdir :: "u32 \<Rightarrow> 'd fs \<Rightarrow> string" where
  "fs_readdir mx s = (if mx = 0 then [] else readdir_loop (unat mx) (files s) [])"

definition ensure_view :: "'d fs \<Rightarrow> 'd fs" where
  "ensure_view s = (if g_view s = 0 then (case page_buf s of (p, s1) \<Rightarrow> s1\<lparr>g_view := p\<rparr>) else s)"

definition lookup_here :: "string \<Rightarrow> 'd fs \<Rightarrow> (u64 \<times> u32) option \<times> 'd fs" where
  "lookup_here leaf s =
     (case find_file leaf s of None \<Rightarrow> (None, s)
      | Some i \<Rightarrow>
          let f = files s ! i in
          if is_dir f \<or> g_dir s = None \<or> data f = 0 then (None, s)
          else case dir_load s of (ok, s1) \<Rightarrow>
            if \<not> ok then (None, s1)
            else let n = rd_u32 (dir_of s1) (unat (dir_off f) + 28); s2 = upd_file i (\<lambda>x. x\<lparr>len := n\<rparr>) s1 in
              if FILE_MAX < n then (None, s2)
              else case (if n = 0 then (True, s2) else load_file (data f) (cluster f) n s2) of (ok3, s3) \<Rightarrow>
                if \<not> ok3 then (None, s3)
                else if g_cwd s3 \<noteq> g_saved_cwd s3
                then let s4 = ensure_view s3 in
                  if g_view s4 = 0 then (None, s4)
                  else (Some (g_view s4, n),
                        if n \<noteq> 0 then poke_page (g_view s4) 0 (take (unat n) (ram s4 (data f))) s4 else s4)
                else (Some (data f, n), s3))"

definition fs_lookup :: "string option \<Rightarrow> 'd fs \<Rightarrow> (u64 \<times> u32) option \<times> 'd fs" where
  "fs_lookup name s =
     (case enter_parent name s of (None, s1) \<Rightarrow> (None, s1)
      | (Some leaf, s1) \<Rightarrow>
          (case lookup_here leaf s1 of (r, s2) \<Rightarrow>
           case leave_parent s2 of (ok, s3) \<Rightarrow> (if ok then r else None, s3)))"

definition fs_stat :: "string option \<Rightarrow> 'd fs \<Rightarrow> (u32 \<times> u32 \<times> bool) option \<times> 'd fs" where
  "fs_stat name s =
     (case enter_parent name s of (None, s1) \<Rightarrow> (None, s1)
      | (Some leaf, s1) \<Rightarrow>
          (case (case find_file leaf s1 of None \<Rightarrow> (None, s1)
                 | Some i \<Rightarrow>
                     if g_dir s1 = None then (None, s1)
                     else case dir_load s1 of (ok, s2) \<Rightarrow>
                       if \<not> ok then (None, s2)
                       else let o1 = unat (dir_off (files s2 ! i)) in
                         (Some (rd_u32 (dir_of s2) (o1 + 28), rd_u16 (dir_of s2) (o1 + 26), is_dir (files s2 ! i)), s2)) of
             (r, s3) \<Rightarrow> (case leave_parent s3 of (ok, s4) \<Rightarrow> (if ok then r else None, s4))))"

section \<open>Writing\<close>

text \<open>The common ending: back to the saved directory, -1 if that fails.\<close>

definition finish :: "bool \<times> 'd fs \<Rightarrow> bool \<times> 'd fs" where
  "finish = (\<lambda>(r, s). case leave_parent s of (ok, s1) \<Rightarrow> (ok \<and> r, s1))"

text \<open>Most operations run in the directory that holds the path's last component.\<close>

definition in_parent :: "string option \<Rightarrow> (string \<Rightarrow> 'd fs \<Rightarrow> bool \<times> 'd fs) \<Rightarrow> 'd fs \<Rightarrow> bool \<times> 'd fs" where
  "in_parent name body s =
     (case enter_parent name s of (None, s1) \<Rightarrow> (False, s1) | (Some leaf, s1) \<Rightarrow> finish (body leaf s1))"

definition write_file :: "nat \<Rightarrow> u8 list option \<Rightarrow> u32 \<Rightarrow> 'd fs \<Rightarrow> bool \<times> 'd fs" where
  "write_file i src ln s =
     (if ln = 0 then (True, s)
      else case src of None \<Rightarrow> (False, s)
        | Some bs \<Rightarrow>
            if FILE_MAX < ln \<or> g_dir s = None then (False, s)
            else andthen (resize_file i (sectors_for ln)) (andthen fat_flush
              (andthen (\<lambda>s1. store_chain (cluster (files s1 ! i)) bs ln s1) (andthen dir_load
              (\<lambda>s2. andthen dir_store
                 (\<lambda>s3. (True, upd_file i (\<lambda>x. x\<lparr>len := ln\<rparr>) (poke_page (data (files s3 ! i)) 0 (take (unat ln) bs) s3)))
                 (put_meta i (cluster (files s2 ! i)) ln s2))))) s)"

definition fs_write :: "string option \<Rightarrow> u8 list option \<Rightarrow> u32 \<Rightarrow> 'd fs \<Rightarrow> bool \<times> 'd fs" where
  "fs_write name src ln = in_parent name (\<lambda>leaf s.
     case find_file leaf s of
       Some i \<Rightarrow> if is_dir (files s ! i) then (False, s) else write_file i src ln s
     | None \<Rightarrow> (case fs_create leaf s of (None, s1) \<Rightarrow> (False, s1)
                 | (Some i, s1) \<Rightarrow> if is_dir (files s1 ! i) then (False, s1) else write_file i src ln s1))"

definition fs_sync :: "'d fs \<Rightarrow> bool \<times> 'd fs" where
  "fs_sync s =
     (if g_fat s = None \<or> g_dir s = None then (False, s)
      else andthen fat_flush (andthen dir_store
        (\<lambda>s1. case bflush (dev s1) of (ok, b) \<Rightarrow> (ok, s1\<lparr>dev := b\<rparr>))) s)"

text \<open>The two branches of \<open>fs_truncate\<close>, and its guard.\<close>

definition set_size :: "nat \<Rightarrow> u32 \<Rightarrow> 'd fs \<Rightarrow> bool \<times> 'd fs" where
  "set_size i ln = andthen dir_load (\<lambda>s1.
     andthen dir_store (\<lambda>s2. (True, upd_file i (\<lambda>x. x\<lparr>len := ln\<rparr>) s2))
       (put_meta i (cluster (files s1 ! i)) ln s1))"

definition zero_tail :: "nat \<Rightarrow> u32 \<Rightarrow> u32 \<Rightarrow> 'd fs \<Rightarrow> 'd fs" where
  "zero_tail i old ln s = poke_page (data (files s ! i)) (unat old) (replicate (unat ln - unat old) 0) s"

definition fs_truncate :: "string option \<Rightarrow> u32 \<Rightarrow> 'd fs \<Rightarrow> bool \<times> 'd fs" where
  "fs_truncate name ln s0 =
     (if FILE_MAX < ln then (False, s0)
      else in_parent name (\<lambda>leaf s.
        case find_file leaf s of None \<Rightarrow> (False, s)
        | Some i \<Rightarrow>
            let f = files s ! i; old = len f in
            if is_dir f \<or> data f = 0 \<or> g_dir s = None \<or> g_fat s = None then (False, s)
            else if ln = old then (True, s)
            else if ln = 0
            then andthen fat_flush (set_size i 0) (upd_file i (\<lambda>x. x\<lparr>cluster := 0\<rparr>) (free_cls (cluster f) s))
            else andthen (resize_file i (sectors_for ln)) (andthen fat_flush
              (andthen (\<lambda>s1. if old < ln
                   then (let s2 = zero_tail i old ln s1
                         in store_chain (cluster (files s2 ! i)) (take (unat ln) (ram s2 (data (files s2 ! i)))) ln s2)
                   else (True, s1))
                (set_size i ln))) s) s0)"

section \<open>Names\<close>

text \<open>\<open>files[i] = files[file_count - 1]; file_count--\<close>.\<close>

definition drop_file :: "nat \<Rightarrow> 'd fs \<Rightarrow> 'd fs" where
  "drop_file i s =
     (let fs = files s in s\<lparr>files := butlast (if i \<noteq> length fs - 1 then fs[i := last fs] else fs)\<rparr>)"

text \<open>The end of \<open>fs_remove\<close>: the entry leaves the table and its page \<open>p\<close> is freed.\<close>

definition forget_file :: "nat \<Rightarrow> u64 \<Rightarrow> 'd fs \<Rightarrow> 'd fs" where
  "forget_file i p s =
     (let phys = virt_to_phys (hhdm s) p; s1 = drop_file i s
      in if phys \<noteq> 0 then s1\<lparr>mem := pmm_free phys (mem s1)\<rparr> else s1)"

definition fs_remove :: "string option \<Rightarrow> 'd fs \<Rightarrow> bool \<times> 'd fs" where
  "fs_remove name = in_parent name (\<lambda>leaf s.
     case find_file leaf s of None \<Rightarrow> (False, s)
     | Some i \<Rightarrow>
         let f = files s ! i in
         if is_dir f \<or> g_dir s = None \<or> g_fat s = None then (False, s)
         else andthen dir_load
           (andthen (\<lambda>s1. if other_links (cluster f) (dir_off f) s1 = 0 then fat_flush (free_cls (cluster f) s1) else (True, s1))
             (\<lambda>s2. andthen dir_store
                (\<lambda>s3. (True, forget_file i (data f) s3))
                (dir_wipe (dir_off f) s2))) s)"

text \<open>The entry of a file, read from disk, as \<open>fs_rename\<close> and \<open>fs_link\<close> take it along.\<close>

definition fetch_ent :: "string option \<Rightarrow> bool \<Rightarrow> 'd fs \<Rightarrow> (string \<times> u32 \<times> bool \<times> u8 list) option \<times> 'd fs" where
  "fetch_ent src files_only s =
     (case enter_parent src s of (None, s1) \<Rightarrow> (None, s1)
      | (Some leaf, s1) \<Rightarrow>
          (case find_file leaf s1 of
             None \<Rightarrow> (None, snd (leave_parent s1))
           | Some i \<Rightarrow>
               if files_only \<and> is_dir (files s1 ! i) \<or> g_dir s1 = None then (None, snd (leave_parent s1))
               else case dir_load s1 of (ok, s2) \<Rightarrow>
                 if \<not> ok then (None, snd (leave_parent s2))
                 else let f = files s2 ! i; ent = take 32 (drop (unat (dir_off f)) (dir_of s2)) in
                   case leave_parent s2 of (ok3, s3) \<Rightarrow>
                     (if ok3 then Some (leaf, g_cwd s2, is_dir f, ent) else None, s3)))"

definition put_dir :: "nat \<Rightarrow> u8 list \<Rightarrow> 'd fs \<Rightarrow> 'd fs" where
  "put_dir off bs s = s\<lparr>g_dir := map_option (blit off bs) (g_dir s)\<rparr>"

definition rename_here :: "string \<Rightarrow> u8 list \<Rightarrow> 'd fs \<Rightarrow> bool \<times> 'd fs" where
  "rename_here src_leaf n83 s =
     (case find_file src_leaf s of None \<Rightarrow> (False, s)
      | Some i \<Rightarrow>
          if g_dir s = None then (False, s)
          else andthen dir_load (\<lambda>s1. andthen dir_store scan_dir (put_dir (unat (dir_off (files s1 ! i))) n83 s1)) s)"

definition rename_drop :: "string \<Rightarrow> 'd fs \<Rightarrow> bool \<times> 'd fs" where
  "rename_drop src_leaf s =
     (case find_file src_leaf s of None \<Rightarrow> (False, s)
      | Some i \<Rightarrow>
          if g_dir s = None then (False, s)
          else andthen dir_load (\<lambda>s1. andthen dir_store scan_dir (dir_wipe (dir_off (files s1 ! i)) s1)) s)"

definition place_ent :: "u8 list \<Rightarrow> u8 list \<Rightarrow> 'd fs \<Rightarrow> bool \<times> 'd fs" where
  "place_ent ent n83 s =
     (case dir_slot s of (None, s1) \<Rightarrow> (False, s1)
      | (Some off, s1) \<Rightarrow> dir_store (put_dir off n83 (put_dir off ent s1)))"

definition fs_rename :: "string option \<Rightarrow> string option \<Rightarrow> 'd fs \<Rightarrow> bool \<times> 'd fs" where
  "fs_rename src dst s =
     (case fetch_ent src False s of (None, s1) \<Rightarrow> (False, s1)
      | (Some (src_leaf, src_parent, isd, ent), s1) \<Rightarrow>
          (case enter_parent dst s1 of (None, s2) \<Rightarrow> (False, s2)
           | (Some dst_leaf, s2) \<Rightarrow>
               (case (find_file dst_leaf s2, to_83 (Some dst_leaf)) of
                  (None, Some n83) \<Rightarrow>
                    if isd \<and> g_cwd s2 \<noteq> src_parent then finish (False, s2)
                    else if g_cwd s2 = src_parent then finish (rename_here src_leaf n83 s2)
                    else andthen (\<lambda>x. finish (place_ent ent n83 x)) (in_parent src rename_drop) s2
                | _ \<Rightarrow> finish (False, s2))))"

definition fs_link :: "string option \<Rightarrow> string option \<Rightarrow> 'd fs \<Rightarrow> bool \<times> 'd fs" where
  "fs_link src dst s =
     (case fetch_ent src True s of (None, s1) \<Rightarrow> (False, s1)
      | (Some (_, _, _, ent), s1) \<Rightarrow> in_parent dst (\<lambda>dst_leaf s2.
          case (find_file dst_leaf s2, to_83 (Some dst_leaf)) of
            (None, Some n83) \<Rightarrow>
              if FS_MAX \<le> length (files s2) then (False, s2) else andthen (place_ent ent n83) scan_dir s2
          | _ \<Rightarrow> (False, s2)) s1)"

definition fs_copy :: "string option \<Rightarrow> string option \<Rightarrow> 'd fs \<Rightarrow> bool \<times> 'd fs" where
  "fs_copy src dst s =
     (if src = None \<or> dst = None then (False, s)
      else case fs_lookup src s of (None, s1) \<Rightarrow> (False, s1)
        | (Some (p, n), s1) \<Rightarrow>
            let s2 = ensure_view s1 in
            if g_view s2 = 0 then (False, s2)
            else let s3 = (if p \<noteq> g_view s2 then poke_page (g_view s2) 0 (take (unat n) (ram s2 p)) s2 else s2)
                 in fs_write dst (Some (take (unat n) (ram s3 (g_view s3)))) n s3)"

section \<open>Directories\<close>

definition dot_sector :: "u32 \<Rightarrow> u32 \<Rightarrow> u8 list \<Rightarrow> u8 list" where
  "dot_sector cl parent sec =
     (let z = blit 0 (replicate 512 0) sec;
          a = wr_u16 26 cl ((blit 0 (0x2E # replicate 10 0x20) z)[11 := 0x10])
      in wr_u16 58 parent ((blit 32 (0x2E # 0x2E # replicate 9 0x20) a)[43 := 0x10]))"

definition fs_mkdir :: "string option \<Rightarrow> 'd fs \<Rightarrow> bool \<times> 'd fs" where
  "fs_mkdir name = in_parent name (\<lambda>leaf s.
     case (to_83 (Some leaf), find_file leaf s, g_sec s) of
       (Some n83, None, Some sec) \<Rightarrow>
         if FS_MAX \<le> length (files s) \<or> g_fat s = None \<or> g_dir s = None then (False, s)
         else (case alloc_cl s of (cl, s1) \<Rightarrow>
           if cl < 2 then (False, s1)
           else case fat_flush s1 of (ok, s2) \<Rightarrow>
           if \<not> ok then (False, set_ent cl 0 s2)
           else let s3 = s2\<lparr>g_sec := Some (dot_sector cl (if g_cwd s2 < 2 then 0 else g_cwd s2) sec)\<rparr> in
           case wr_sec (data_lba s3 cl) s3 of (ok4, s4) \<Rightarrow>
           if \<not> ok4 then (False, snd (fat_flush (set_ent cl 0 s4)))
           else case dir_slot s4 of (None, s5) \<Rightarrow> (False, snd (fat_flush (set_ent cl 0 s5)))
           | (Some off, s5) \<Rightarrow>
               (case dir_store (put_dir off (new_dirent n83 0x10 cl) s5) of (ok6, s6) \<Rightarrow>
                  if \<not> ok6 then (False, snd (fat_flush (set_ent cl 0 s6))) else scan_dir s6))
     | _ \<Rightarrow> (False, s))"

text \<open>The first bytes of the entries of one sector: a verdict, or none when all were skipped.\<close>

fun sec_empty :: "u8 list \<Rightarrow> bool option" where
  "sec_empty [] = None"
| "sec_empty (c # cs) = (if c = 0 then Some True else if c = 0xE5 \<or> c = 0x2E then sec_empty cs else Some False)"

fun empty_loop :: "nat \<Rightarrow> u32 \<Rightarrow> 'd fs \<Rightarrow> bool \<times> 'd fs" where
  "empty_loop 0 cl s = (True, s)"
| "empty_loop (Suc k) cl s =
     (if \<not> in_chain cl then (True, s)
      else case rd_sec (data_lba s cl) s of (ok, s1) \<Rightarrow>
        if \<not> ok then (False, s1)
        else case sec_empty (map (\<lambda>i. the (g_sec s1) ! (i * 32)) [0..<16]) of
            Some r \<Rightarrow> (r, s1)
          | None \<Rightarrow> empty_loop k (ent_at s1 cl) s1)"

definition dir_empty :: "u32 \<Rightarrow> 'd fs \<Rightarrow> bool \<times> 'd fs" where
  "dir_empty cl s = (if cl < 2 \<or> g_sec s = None \<or> g_fat s = None then (False, s) else empty_loop CHAIN_MAX cl s)"

definition fs_rmdir :: "string option \<Rightarrow> 'd fs \<Rightarrow> bool \<times> 'd fs" where
  "fs_rmdir name = in_parent name (\<lambda>leaf s.
     case find_file leaf s of None \<Rightarrow> (False, s)
     | Some i \<Rightarrow>
         let f = files s ! i in
         if \<not> is_dir f \<or> g_dir s = None \<or> g_fat s = None \<or> cluster f = g_saved_cwd s then (False, s)
         else andthen (dir_empty (cluster f))
           (\<lambda>s1. andthen fat_flush (andthen dir_load
              (\<lambda>s2. andthen dir_store (\<lambda>s3. (True, drop_file i s3)) (dir_wipe (dir_off f) s2)))
              (free_cls (cluster f) s1)) s)"

section \<open>The working directory\<close>

definition fs_chdir :: "string option \<Rightarrow> 'd fs \<Rightarrow> bool \<times> 'd fs" where
  "fs_chdir name s =
     (if name = None \<or> name = Some [] then (False, s)
      else case copy_str PATH_MAX (g_path s) [] of (ok, path_saved) \<Rightarrow>
        if \<not> ok then (False, s)
        else case path_apply name (g_path s) of (ok1, g1) \<Rightarrow>
          let s1 = s\<lparr>g_path := g1\<rparr> in
          if \<not> ok1 then (False, s1)
          else case walk_all name s1 of (ok2, s2) \<Rightarrow>
            if ok2 then (True, s2)
            else let s3 = (if g_cwd s2 \<noteq> g_cwd s then snd (go_cwd (g_cwd s) s2) else s2)
                 in (False, s3\<lparr>g_path := snd (copy_str PATH_MAX path_saved (g_path s3))\<rparr>))"

definition fs_cwd :: "'d fs \<Rightarrow> u32" where
  "fs_cwd s = g_cwd s"

definition fs_setcwd :: "u32 \<Rightarrow> 'd fs \<Rightarrow> bool \<times> 'd fs" where
  "fs_setcwd cl s = go_cwd cl s"

definition fs_pwd :: "'d fs \<Rightarrow> string" where
  "fs_pwd s = g_path s"

definition fs_setpwd :: "string option \<Rightarrow> 'd fs \<Rightarrow> bool \<times> 'd fs" where
  "fs_setpwd path s =
     (case path of None \<Rightarrow> (False, s)
      | Some p \<Rightarrow> if p = [] then (False, s)
          else (case copy_str PATH_MAX p (g_path s) of (ok, g) \<Rightarrow> (ok, s\<lparr>g_path := g\<rparr>)))"

section \<open>Mounting\<close>

text \<open>The boot sector's fields: \<open>None\<close> when the checks of \<open>fs_init\<close> refuse it.\<close>

record geometry =
  ge_rsvd :: u32
  ge_fatsz :: u32
  ge_root_ent :: u32
  ge_clusters :: u32
  ge_first_root :: u32
  ge_first_data :: u32

definition read_bpb :: "u8 list \<Rightarrow> geometry option" where
  "read_bpb bpb =
     (let byts = rd_u16 bpb 11; spc = ucast (bpb ! 13) :: u32; rsvd = rd_u16 bpb 14; nfats = ucast (bpb ! 16) :: u32;
          root_ent = rd_u16 bpb 17; tot16 = rd_u16 bpb 19; fatsz = rd_u16 bpb 22; tot32 = rd_u32 bpb 32;
          tot = (if tot16 \<noteq> 0 then tot16 else tot32)
      in if byts \<noteq> SEC \<or> spc \<noteq> 1 \<or> rsvd = 0 \<or> nfats = 0 \<or> fatsz = 0 \<or> 4 < fatsz \<or> root_ent = 0 \<or> tot = 0 then None
         else let root_secs = (root_ent * 32 + (SEC - 1)) div SEC in
           if tot < rsvd + nfats * fatsz + root_secs then None
           else let clusters = (tot - rsvd - nfats * fatsz - root_secs) div spc in
             if clusters < 2 \<or> FAT12_MAX < clusters then None
             else Some \<lparr>ge_rsvd = rsvd, ge_fatsz = fatsz, ge_root_ent = root_ent, ge_clusters = clusters,
                        ge_first_root = rsvd + nfats * fatsz, ge_first_data = rsvd + nfats * fatsz + root_secs\<rparr>)"

definition read_fat :: "'d fs \<Rightarrow> bool \<times> 'd fs" where
  "read_fat s = (case rd_blocks (g_rsvd s) (g_fatsz s) s of (ok, bs, s1) \<Rightarrow>
     (ok, s1\<lparr>g_fat := map_option (blit 0 bs) (g_fat s1)\<rparr>))"

text \<open>
  One page holds the FAT (4 sectors), \<open>g_sec\<close> and the boot sector; \<open>g_fatsz\<close> is at most 4, so
  they do not overlap.
\<close>

definition fs_mount :: "'d fs \<Rightarrow> bool \<times> 'd fs" where
  "fs_mount s0 =
     (let s = s0\<lparr>files := [], g_fat := None, g_sec := None, g_dir := None, g_dir_bytes := 0, g_view := 0,
                 g_fatsz := 0, g_cwd := 0, g_saved_cwd := 0, g_path := path_reset\<rparr> in
      case page_buf s of (p, s1) \<Rightarrow>
      if p = 0 then (False, s1)
      else let page = ram s1 p;
               s2 = s1\<lparr>g_fat := Some (take 2048 page), g_sec := Some (take 512 (drop 2048 page))\<rparr> in
      case page_buf s2 of (q, s3) \<Rightarrow>
      if q = 0 then (False, s3)
      else case rd_blocks 0 1 (s3\<lparr>g_dir := Some (ram s3 q)\<rparr>) of (ok, bs, s4) \<Rightarrow>
      if \<not> ok then (False, s4)
      else case read_bpb (blit 0 bs (take 512 (drop 2560 page))) of None \<Rightarrow> (False, s4)
      | Some ge \<Rightarrow>
          let s5 = s4\<lparr>g_rsvd := ge_rsvd ge, g_fatsz := ge_fatsz ge, g_root_ent := ge_root_ent ge,
                      g_clusters := ge_clusters ge, g_first_root := ge_first_root ge,
                      g_first_data := ge_first_data ge, g_cwd := 0\<rparr>
          in andthen read_fat (andthen scan_dir (\<lambda>s6. (files s6 \<noteq> [], s6))) s5)"

definition fs_init :: "int \<Rightarrow> vga \<Rightarrow> 'd fs \<Rightarrow> int \<times> vga \<times> 'd fs" where
  "fs_init row v s =
     (case fs_mount s of (ok, s1) \<Rightarrow>
        (row + 1, vga_write_at row 0 (Some (if ok then ''fat 12'' else ''fat fail'')) v, s1))"

end
