(* ===== verification/Fs_Names.thy ===== *)
theory Fs_Names
  imports Fs_Ops
begin

text \<open>Long names: what \<open>lfn_store\<close> writes is what \<open>lfn_build\<close> reads.\<close>

lemma lfn_slots_apart:
  assumes "i < 13" "j < 13"
  shows "lfn_slot ! i + 1 < 32" "lfn_slot ! i \<notin> {0, 11, 12, 13}" "lfn_slot ! i + 1 \<notin> {0, 11, 12, 13}"
    "lfn_slot ! i \<noteq> lfn_slot ! j + 1" "lfn_slot ! i = lfn_slot ! j \<longleftrightarrow> i = j"
proof -
  let ?Q = "\<lambda>i j. lfn_slot ! i \<noteq> lfn_slot ! j + 1 \<and> (lfn_slot ! i = lfn_slot ! j \<longleftrightarrow> i = j)"
  let ?P = "\<lambda>i. lfn_slot ! i + 1 < 32 \<and> lfn_slot ! i \<notin> {0, 11, 12, 13} \<and> lfn_slot ! i + 1 \<notin> {0, 11, 12, 13} \<and> list_all (?Q i) [0..<13]"
  have all: "list_all ?P [0..<13]" by code_simp
  have i: "i \<in> set [0..<13]" and j: "j \<in> set [0..<13]" using assms by (simp_all only: set_upt atLeastLessThan_iff le0 simp_thms)
  have P: "?P i" using all i unfolding list_all_iff by (rule bspec)
  have Q: "?Q i j" using P j unfolding list_all_iff by (elim conjE) (drule (1) bspec, simp)
  show "lfn_slot ! i + 1 < 32" "lfn_slot ! i \<notin> {0, 11, 12, 13}" "lfn_slot ! i + 1 \<notin> {0, 11, 12, 13}"
    "lfn_slot ! i \<noteq> lfn_slot ! j + 1" "lfn_slot ! i = lfn_slot ! j \<longleftrightarrow> i = j"
    using P Q by (blast, blast, blast, blast, blast)
qed

text \<open>What \<open>lfn_store\<close> leaves in an entry: the header bytes, and in slot \<open>i\<close> the name from \<open>start\<close>.\<close>

definition lfn_image :: "u8 \<Rightarrow> u8 \<Rightarrow> string \<Rightarrow> nat \<Rightarrow> nat \<Rightarrow> u8 list \<Rightarrow> bool" where
  "lfn_image seq ck name start k ent \<longleftrightarrow>
     length ent = 32 \<and> ent ! 0 = seq \<and> ent ! 11 = 0x0F \<and> ent ! 12 = 0 \<and> ent ! 13 = ck \<and>
     (\<forall>i < 13. ent ! (lfn_slot ! i) =
          (if k \<le> i \<or> start + i = length name then 0 else if start + i < length name then byte (name ! (start + i)) else 0xFF) \<and>
        (start + i \<le> length name \<or> k \<le> i \<longrightarrow> ent ! (lfn_slot ! i + 1) = 0))"

lemma slot_update:
  assumes "length ent = 32" "k < 13" "i < 13"
  shows "ent[lfn_slot ! k := a] ! (lfn_slot ! i) = (if i = k then a else ent ! (lfn_slot ! i))"
    "ent[lfn_slot ! k := a] ! (lfn_slot ! i + 1) = ent ! (lfn_slot ! i + 1)"
    "ent[lfn_slot ! k + 1 := a] ! (lfn_slot ! i) = ent ! (lfn_slot ! i)"
    "ent[lfn_slot ! k + 1 := a] ! (lfn_slot ! i + 1) = (if i = k then a else ent ! (lfn_slot ! i + 1))"
  using assms lfn_slots_apart [OF assms(2,3)] lfn_slots_apart [OF assms(3,2)]
  by (simp_all add: nth_list_update)

lemma header_update:
  assumes "k < 13" "h \<in> {0, 11, 12, 13}"
  shows "ent[lfn_slot ! k := a] ! h = ent ! h" "ent[lfn_slot ! k + 1 := a] ! h = ent ! h"
  using assms(2) lfn_slots_apart(2,3) [OF assms(1) assms(1)] by (auto intro!: nth_list_update_neq)

lemma lfn_put_image:
  assumes "k < 13" "start \<le> length name" "CHR 0x00 \<notin> set name"
    and "lfn_image seq ck name start k ent" "fin \<longleftrightarrow> length name < start + k"
  shows "lfn_image seq ck name start (Suc k) (fst (lfn_put name start k (ent, fin))) \<and>
    (snd (lfn_put name start k (ent, fin)) \<longleftrightarrow> length name < start + Suc k)"
proof -
  have len: "length ent = 32" using assms(4) by (simp add: lfn_image_def)
  note upd = slot_update [OF _ assms(1)] header_update [OF assms(1)]
  have nz: "start + k < length name \<Longrightarrow> name ! (start + k) \<noteq> CHR 0x00" using assms(3) nth_mem by metis
  have at: "name_at name (start + k) = CHR 0x00 \<longleftrightarrow> length name \<le> start + k"
    using nz by (auto simp: name_at_def)
  consider "length name < start + k" | "length name = start + k" | "start + k < length name" by linarith
  then show ?thesis
  proof cases
    case 1
    then have p: "lfn_put name start k (ent, fin) = (ent[lfn_slot ! k := 0xFF, lfn_slot ! k + 1 := 0xFF], True)"
      using assms(5) by (simp add: lfn_put_def)
    show ?thesis using assms(4) 1 len unfolding p lfn_image_def
      by (simp add: upd del: One_nat_def)
  next
    case 2
    then have p: "lfn_put name start k (ent, fin) = (ent, True)" using assms(5) at by (simp add: lfn_put_def)
    show ?thesis using assms(4) 2 unfolding p lfn_image_def by auto
  next
    case 3
    then have p: "lfn_put name start k (ent, fin) = (ent[lfn_slot ! k := byte (name ! (start + k))], False)"
      using assms(5) at by (simp add: lfn_put_def name_at_def)
    show ?thesis using assms(4) 3 len unfolding p lfn_image_def by (simp add: upd del: One_nat_def)
  qed
qed

lemma lfn_store_image:
  assumes "start \<le> length name" "CHR 0x00 \<notin> set name"
  shows "lfn_image seq ck name start 13 (lfn_store seq ck name start)"
proof -
  let ?e = "(replicate 32 0)[0 := seq, 11 := 0x0F, 13 := ck]"
  let ?f = "\<lambda>k. fold (lfn_put name start) [0..<k] (?e, False)"
  have "k \<le> 13 \<Longrightarrow> lfn_image seq ck name start k (fst (?f k)) \<and> (snd (?f k) \<longleftrightarrow> length name < start + k)" for k
  proof (induction k)
    case 0
    have "?e ! (lfn_slot ! i) = 0 \<and> ?e ! (lfn_slot ! i + 1) = 0" if "i < 13" for i
      using lfn_slots_apart(1-3) [OF that that] by (simp add: nth_list_update)
    then show ?case using assms(1) by (auto simp: lfn_image_def nth_list_update)
  next
    case (Suc k)
    have f: "?f (Suc k) = lfn_put name start k (?f k)" by simp
    have k: "k < 13" "k \<le> 13" using Suc.prems by simp_all
    show ?case unfolding f
      using lfn_put_image [OF k(1) assms, of seq ck "fst (?f k)" "snd (?f k)"] Suc.IH [OF k(2)]
      unfolding prod.collapse by blast
  qed
  from this [of 13] show ?thesis unfolding lfn_store_def LFN_CHARS_def by blast
qed

lemma lfn_get_image:
  assumes "lfn_image seq ck name start 13 ent" "start \<le> length name" "length name < NAME_MAX"
    "\<forall>c \<in> set name. 32 \<le> (of_char c :: nat)"
  shows "k \<le> 13 \<Longrightarrow> start + k \<le> length name \<Longrightarrow>
    lfn_get ent (drop k lfn_slot) (take (start + k) name) = Some (take (start + 13) name)"
proof (induction "13 - k" arbitrary: k)
  case 0
  then show ?case by (simp add: lfn_slot_def)
next
  case (Suc n)
  then have k: "k < 13" by simp
  have sl: "length lfn_slot = 13" by (simp add: lfn_slot_def)
  have d: "drop k lfn_slot = lfn_slot ! k # drop (Suc k) lfn_slot" using k sl by (simp add: Cons_nth_drop_Suc)
  have e: "ent ! (lfn_slot ! k) = (if start + k = length name then 0 else byte (name ! (start + k)))" "ent ! (lfn_slot ! k + 1) = 0"
    using assms(1) k Suc.prems unfolding lfn_image_def by auto
  show ?case
  proof (cases "start + k = length name")
    case True
    then have "take (start + 13) name = take (start + k) name" using k by simp
    then show ?thesis using e True unfolding d by simp
  next
    case False
    then have lt: "start + k < length name" using Suc.prems by simp
    have ge: "32 \<le> unat (byte (name ! (start + k)))" using assms(4) lt by simp
    have b: "byte (name ! (start + k)) \<noteq> 0" "\<not> byte (name ! (start + k)) < 0x20"
      using ge by (auto simp: word_less_nat_alt simp del: unat_byte)
    have "take (start + Suc k) name = take (start + k) name @ [name ! (start + k)]"
      using lt by (simp add: take_Suc_conv_app_nth)
    then show ?thesis using Suc.hyps(1) [of "Suc k"] Suc.hyps(2) lt b e False assms(3) unfolding d by simp
  qed
qed

lemma lfn_ok_chars: "lfn_ok (Some name) \<Longrightarrow> name \<noteq> [] \<and> length name < NAME_MAX \<and> (\<forall>c \<in> set name. 32 \<le> (of_char c :: nat)) \<and> CHR 0x00 \<notin> set name"
proof -
  assume ok: "lfn_ok (Some name)"
  have "32 \<le> (of_char c :: nat)" if "c = CHR ''.'' \<or> name_char (fold_az c)" for c
  proof (cases "is_upper c")
    case True
    then show ?thesis by (simp add: is_upper_def)
  next
    case False
    then show ?thesis using that by (auto simp: fold_az_def name_char_def is_lower_def is_digit_def)
  qed
  then have "\<forall>c \<in> set name. 32 \<le> (of_char c :: nat)" using ok by (auto simp: lfn_ok_def list_all_iff)
  then show ?thesis using ok by (auto simp: lfn_ok_def)
qed

text \<open>
  C35. Long names survive the disk: the entries that \<open>fs_create\<close> writes for a long name, as many as
  the name needs, are entries from which \<open>lfn_build\<close> assembles the same name, whatever the alias.
\<close>

theorem long_name_roundtrip:
  assumes "lfn_ok (Some name)" "n = (length name + (LFN_CHARS - 1)) div LFN_CHARS"
  shows "lfn_build (lfn_ents name n83 n) n n83 = Some name"
proof -
  note c = lfn_ok_chars [OF assms(1)]
  let ?e = "\<lambda>i. lfn_store (lfn_want n i) (lfn_cksum n83) name ((n - i - 1) * LFN_CHARS)"
  have n: "n = 1 \<and> length name \<le> 13 \<or> n = 2 \<and> 13 < length name \<and> length name \<le> 26"
    using c assms(2) by (cases name) (auto simp: NAME_MAX_def LFN_CHARS_def)
  have img: "lfn_image (lfn_want n i) (lfn_cksum n83) name ((n - i - 1) * 13) 13 (?e i)" if "i < n" for i
    using lfn_store_image [of "(n - i - 1) * 13" name] n c that by (auto simp: LFN_CHARS_def)
  have hd: "?e i ! 0 = lfn_want n i \<and> ?e i ! 13 = lfn_cksum n83 \<and> ?e i ! 11 = 0x0F \<and> ?e i ! 12 = 0" if "i < n" for i
    using img [OF that] by (simp add: lfn_image_def)
  have get: "lfn_chars (?e i) (take ((n - i - 1) * 13) name) = Some (take ((n - i - 1) * 13 + 13) name)" if "i < n" for i
    using lfn_get_image [OF img [OF that], of 0] hd [OF that] that n c by (auto simp: lfn_chars_def)
  have chk: "\<not> list_ex (\<lambda>i. lfn_ents name n83 n ! i ! 0 \<noteq> lfn_want n i \<or> lfn_ents name n83 n ! i ! 13 \<noteq> lfn_cksum n83) [0..<n]"
    using hd by (auto simp: list_ex_iff lfn_ents_def)
  from n show ?thesis
  proof
    assume 1: "n = 1 \<and> length name \<le> 13"
    then show ?thesis using get [of 0] chk c unfolding lfn_build_def by (simp add: lfn_ents_def LFN_MAX_def)
  next
    assume 2: "n = 2 \<and> 13 < length name \<and> length name \<le> 26"
    have e: "lfn_ents name n83 n = [?e 0, ?e 1]" using 2 by (simp add: lfn_ents_def upt_rec)
    have "lfn_join [?e 1, ?e 0] [] = Some name" using get [of 0] get [of 1] 2 by simp
    then show ?thesis using 2 chk c unfolding lfn_build_def e by (simp add: LFN_MAX_def)
  qed
qed

theorem long_name_roundtrip_witness:
  "lfn_build (lfn_ents ''a.tar.backup12'' (alias_form (alias_part 8 ''a.tar'') (alias_part 3 ''backup12'') 1) 2) 2
     (alias_form (alias_part 8 ''a.tar'') (alias_part 3 ''backup12'') 1) = Some ''a.tar.backup12''"
proof -
  have "lfn_ok (Some ''a.tar.backup12'')" by code_simp
  then show ?thesis by (rule long_name_roundtrip) (simp add: LFN_CHARS_def)
qed

end
