(* ===== verification/Fs_Frame.thy ===== *)
theory Fs_Frame
  imports Fs_Ops
begin

text \<open>
  Where the file system stands: no operation but \<open>fs_chdir\<close>, \<open>fs_setcwd\<close>, \<open>fs_setpwd\<close> and
  \<open>fs_init\<close> moves the working directory, although most of them walk to another one and back, on
  every path through them, failures of the disk included.
\<close>

named_theorems place_simps \<open>operations that leave the place alone\<close>

definition place :: "'d fs \<Rightarrow> u32 \<times> u32 \<times> string" where
  "place s = (g_cwd s, g_saved_cwd s, g_path s)"

lemma place_update [place_simps]:
  "place (s\<lparr>files := a\<rparr>) = place s" "place (s\<lparr>g_fat := b\<rparr>) = place s" "place (s\<lparr>g_sec := b\<rparr>) = place s"
  "place (s\<lparr>g_dir := b\<rparr>) = place s" "place (s\<lparr>g_dir_bytes := n\<rparr>) = place s" "place (s\<lparr>g_view := p\<rparr>) = place s"
  "place (s\<lparr>ram := r\<rparr>) = place s" "place (s\<lparr>mem := m\<rparr>) = place s" "place (s\<lparr>dev := v\<rparr>) = place s"
  by (simp_all add: place_def)

lemma place_pages [place_simps]:
  "place (snd (page_buf s)) = place s" "place (drop_page p s) = place s" "place (poke_page p off bs s) = place s"
  "place (upd_file i f s) = place s" "place (ensure_view s) = place s" "place (drop_file i s) = place s"
  "place (forget_file i p s) = place s"
  by (simp_all add: page_buf_def drop_page_def poke_page_def upd_file_def ensure_view_def drop_file_def forget_file_def Let_def
      split_beta place_simps)

lemma place_fat [place_simps]:
  "place (put_fat f s) = place s" "place (set_ent cl v s) = place s" "place (snd (alloc_cl s)) = place s"
  "place (free_cls cl s) = place s" "place (dir_wipe off s) = place s" "place (put_meta i cl sz s) = place s"
  "place (put_dir n bs s) = place s" "place (zero_tail i o1 o2 s) = place s"
  by (simp_all add: put_fat_def set_ent_def alloc_cl_def free_cls_def dir_wipe_def put_meta_def put_dir_def
      zero_tail_def Let_def split_beta place_simps)

lemma place_blocks [place_simps]:
  "place (snd (snd (rd_blocks lba n s))) = place s" "place (snd (wr_blocks lba n bs s)) = place s"
  by (simp_all add: rd_blocks_def wr_blocks_def split_beta place_simps split: option.split)

lemma place_andthen:
  "(\<And>s. place (snd (f s)) = place s) \<Longrightarrow> (\<And>s. place (snd (g s)) = place s) \<Longrightarrow> place (snd (andthen f g s)) = place s"
  by (simp add: andthen_def split_beta)

lemma place_transfer [place_simps]:
  "place (snd (rd_sec lba s)) = place s" "place (snd (wr_sec lba s)) = place s"
  "place (snd (rd_dir lba off s)) = place s" "place (snd (wr_dir lba off s)) = place s"
  "place (snd (fat_flush s)) = place s"
  by (simp_all add: rd_sec_def wr_sec_def rd_dir_def wr_dir_def fat_flush_def split_beta place_simps place_andthen
      split: option.split)

lemma place_dir_loops [place_simps]:
  "place (snd (snd (dir_load_loop k cl off s))) = place s" "place (snd (snd (dir_store_loop k cl off s))) = place s"
  by (induction k arbitrary: cl off s) (simp_all add: split_beta place_simps)

lemma place_dir [place_simps]:
  "place (snd (dir_load s)) = place s" "place (snd (dir_store s)) = place s" "place (snd (dir_grow s)) = place s"
  by (simp_all add: dir_load_def dir_store_def dir_grow_def Let_def split_beta place_simps)

lemma place_slots [place_simps]: "place (snd (dir_slots n s)) = place s" "place (snd (dir_slot s)) = place s"
  by (simp_all add: dir_slots_def dir_slot_def split_beta place_simps split: option.split)

lemma place_load [place_simps]: "place (snd (load_file dst st sz s)) = place s"
proof -
  have "place (snd (chain_load_loop k dst off cl left s)) = place s" for k off cl left and s :: "'a fs"
    by (induction k arbitrary: off cl left s) (subst chain_load_loop.simps, simp add: split_beta Let_def place_simps)+
  then show ?thesis by (simp add: load_file_def)
qed

lemma place_store [place_simps]: "place (snd (store_chain st bs ln s)) = place s"
proof -
  have "place (snd (chain_store_loop k cl off bs ln s)) = place s" for k off cl and s :: "'a fs"
    by (induction k arbitrary: off cl s)
       (subst chain_store_loop.simps, simp add: split_beta Let_def place_simps split: option.split)+
  then show ?thesis by (simp add: store_chain_def)
qed

lemma place_scan [place_simps]: "place (snd (scan_dir s)) = place s"
proof -
  have e: "place (snd (scan_ents js lfn n s)) = place s" for js lfn n and s :: "'a fs"
  proof (induction js arbitrary: lfn n s)
    case (Cons i js)
    then show ?case by (simp add: Let_def split_beta place_simps)
  qed simp
  have "place (fold (\<lambda>f. drop_page (data f)) fs s) = place s" for fs :: "fs_file list" and s :: "'a fs"
    by (induction fs arbitrary: s) (simp_all add: place_simps)
  then show ?thesis by (simp add: scan_dir_def split_beta place_simps e)
qed

section \<open>Walking and coming back\<close>

text \<open>Inside a walk only \<open>g_cwd\<close> moves.\<close>

definition base :: "'d fs \<Rightarrow> u32 \<times> string" where
  "base s = (g_saved_cwd s, g_path s)"

lemma place_iff: "place s' = place s \<longleftrightarrow> g_cwd s' = g_cwd s \<and> base s' = base s"
  by (auto simp: place_def base_def)

lemma base_of_place: "place s' = place s \<Longrightarrow> base s' = base s"
  by (simp add: place_iff)

lemma base_cwd [simp]: "base (s\<lparr>g_cwd := c\<rparr>) = base s"
  by (simp add: base_def)

lemma go_cwd_place: "place (snd (go_cwd c s)) = (c, base s)"
  by (simp add: go_cwd_def place_simps) (simp add: place_def base_def)

lemma go_cwd_base [simp]: "base (snd (go_cwd c s)) = base s" "g_cwd (snd (go_cwd c s)) = c"
  using go_cwd_place [of c s] by (simp_all add: place_def base_def)

lemma chdir_one_base [simp]: "base (snd (chdir_one nm s)) = base s"
  by (simp add: chdir_one_def split_beta base_of_place [OF place_transfer(1)] split: option.split)

lemma to_root_base [simp]: "base (snd (to_root s)) = base s"
  by (simp add: to_root_def)

lemma parent_loop_base [simp]: "base (snd (parent_loop nm path s)) = base s"
proof (induction "length path" arbitrary: nm path s rule: less_induct)
  case less
  note IH = less [OF split_next_shorter]
  show ?case by (subst parent_loop.simps) (simp add: split_beta IH split: split.split)
qed

lemma parent_walk_base [simp]: "base (snd (parent_walk path s)) = base s"
  by (simp add: parent_walk_def split: split.split)

text \<open>\<open>enter_parent\<close> records the directory it started from and, when it fails, is back there.\<close>

lemma enter_parent_base:
  "base (snd (enter_parent path s)) = (g_cwd s, g_path s)"
  "fst (enter_parent path s) = None \<Longrightarrow> g_cwd (snd (enter_parent path s)) = g_cwd s"
proof -
  let ?s = "s\<lparr>g_saved_cwd := g_cwd s\<rparr>"
  let ?walk = "\<lambda>c p. if c = slash
       then (case to_root ?s of (ok, s1) \<Rightarrow> if \<not> ok \<or> p = [] then (None, s1) else parent_walk p s1)
       else parent_walk (c # p) ?s"
  have b: "base ?s = (g_cwd s, g_path s)" by (simp add: base_def)
  have w: "base (snd (?walk c p)) = (g_cwd s, g_path s)" for c p
    using b by (simp add: split_beta)
  show "base (snd (enter_parent path s)) = (g_cwd s, g_path s)"
    "fst (enter_parent path s) = None \<Longrightarrow> g_cwd (snd (enter_parent path s)) = g_cwd s"
  proof (atomize (full), cases path)
    case None
    then show "base (snd (enter_parent path s)) = (g_cwd s, g_path s) \<and> (fst (enter_parent path s) = None \<longrightarrow> g_cwd (snd (enter_parent path s)) = g_cwd s)"
      using b by (simp add: enter_parent_def)
  next
    case (Some q)
    show "base (snd (enter_parent path s)) = (g_cwd s, g_path s) \<and> (fst (enter_parent path s) = None \<longrightarrow> g_cwd (snd (enter_parent path s)) = g_cwd s)"
    proof (cases q)
      case Nil
      then show ?thesis using b Some by (simp add: enter_parent_def)
    next
      case (Cons c p)
      obtain r s1 where r: "?walk c p = (r, s1)" by (cases "?walk c p")
      have s1: "base s1 = (g_cwd s, g_path s)" using w [of c p] unfolding r by simp
      then have sv: "g_saved_cwd s1 = g_cwd s" by (simp add: base_def)
      have "enter_parent path s = (case (r, s1) of (Some leaf, s1) \<Rightarrow> (Some leaf, s1)
           | (None, s1) \<Rightarrow> if g_cwd s1 \<noteq> g_saved_cwd s1 then (None, snd (go_cwd (g_saved_cwd s1) s1)) else (None, s1))"
        unfolding r [symmetric] enter_parent_def Some Cons Let_def by simp
      then show ?thesis using s1 sv by (auto split: option.splits)
    qed
  qed
qed

lemma finish_place: "place (snd (finish (r, s))) = (g_saved_cwd s, base s)"
proof (cases "g_cwd s = g_saved_cwd s")
  case True
  then show ?thesis by (simp add: finish_def leave_parent_def place_def base_def)
next
  case False
  then show ?thesis using go_cwd_place [of "g_saved_cwd s" s] by (simp add: finish_def leave_parent_def split_beta)
qed

section \<open>The operations\<close>

definition settled :: "'d fs \<Rightarrow> 'd fs \<Rightarrow> bool" where
  "settled s s' \<longleftrightarrow> g_cwd s' = g_cwd s \<and> g_path s' = g_path s"

lemma settled_trans: "settled s s' \<Longrightarrow> settled s' s'' \<Longrightarrow> settled s s''"
  by (simp add: settled_def)

lemma settled_refl [simp]: "settled s s"
  by (simp add: settled_def)

lemma settled_place: "place s' = place s \<Longrightarrow> settled s s'"
  by (simp add: settled_def place_def)

lemma settled_enter: "enter_parent path s = (None, s1) \<Longrightarrow> settled s s1"
  using enter_parent_base [of path s] by (auto simp: settled_def base_def)

text \<open>A walk, anything that stays in the directory reached, and the way back.\<close>

lemma settled_round:
  assumes "enter_parent path s = (Some leaf, s1)" "place s2 = place s1"
  shows "settled s (snd (finish (r, s2)))" "settled s (snd (leave_parent s2))"
proof -
  have "base s1 = (g_cwd s, g_path s)" using enter_parent_base(1) [of path s] assms(1) by simp
  then have "base s2 = (g_cwd s, g_path s)" using assms(2) by (simp add: place_iff)
  then show "settled s (snd (finish (r, s2)))" for r
    using finish_place [of r s2] by (auto simp: settled_def place_def base_def)
  from this [of r] show "settled s (snd (leave_parent s2))" by (simp add: finish_def split_beta)
qed

lemma settled_in_parent:
  assumes "\<And>leaf s. place (snd (body leaf s)) = place s"
  shows "settled s (snd (in_parent name body s))"
proof (cases "enter_parent name s")
  case (Pair r s1)
  show ?thesis
  proof (cases r)
    case None
    then show ?thesis using settled_enter Pair by (simp add: in_parent_def)
  next
    case (Some leaf)
    then show ?thesis using settled_round(1) [of name s leaf s1 "snd (body leaf s1)" "fst (body leaf s1)"] Pair assms
      by (simp add: in_parent_def)
  qed
qed

lemma place_lookup_here [place_simps]: "place (snd (lookup_here leaf s)) = place s"
  by (simp add: lookup_here_def Let_def split_beta place_simps split: option.split)

lemma place_resize [place_simps]: "place (snd (resize_file i n s)) = place s"
  by (simp add: resize_file_def split_beta place_simps)

lemma place_set_size [place_simps]: "place (snd (set_size i n s)) = place s"
  by (simp add: set_size_def andthen_def split_beta place_simps)

lemma place_write_file [place_simps]: "place (snd (write_file i bs n s)) = place s"
  by (simp add: write_file_def andthen_def split_beta place_simps split: option.split)

lemma place_create [place_simps]: "place (snd (fs_create nm s)) = place s"
proof -
  have n: "place (snd (create_name nm s)) = place s"
    by (simp add: create_name_def Let_def split_beta place_simps split: option.split)
  obtain r s' where c: "create_name nm s = (r, s')" by (cases "create_name nm s")
  then have s': "place s' = place s" using n by simp
  show ?thesis
  proof (cases r)
    case None
    then show ?thesis using s' c by (simp add: fs_create_def)
  next
    case (Some q)
    then show ?thesis using s' c by (cases q) (auto simp: fs_create_def Let_def split_beta place_simps split: option.split prod.split)
  qed
qed

lemma settled_lookup: "settled s (snd (fs_lookup path s))"
proof (cases "enter_parent path s")
  case (Pair r s1)
  then show ?thesis
    using settled_enter [of path s s1] settled_round(2) [of path s _ s1 "snd (lookup_here (the r) s1)"]
    by (cases r) (simp_all add: fs_lookup_def split_beta place_simps)
qed

lemma settled_stat: "settled s (snd (fs_stat path s))"
proof (cases "enter_parent path s")
  case (Pair r s1)
  show ?thesis
  proof (cases r)
    case None
    then show ?thesis using Pair settled_enter by (simp add: fs_stat_def)
  next
    case (Some leaf)
    have "settled s (snd (leave_parent s1))" "settled s (snd (leave_parent (snd (dir_load s1))))"
      using settled_round(2) [of path s leaf s1] Pair Some by (simp_all add: place_simps)
    then show ?thesis using Pair Some by (simp add: fs_stat_def Let_def split_beta split: option.split)
  qed
qed

lemma settled_fetch: "settled s (snd (fetch_ent path b s))"
proof (cases "enter_parent path s")
  case (Pair r s1)
  show ?thesis
  proof (cases r)
    case None
    then show ?thesis using Pair settled_enter by (simp add: fetch_ent_def)
  next
    case (Some leaf)
    have "settled s (snd (leave_parent s1))" "settled s (snd (leave_parent (snd (dir_load s1))))"
      using settled_round(2) [of path s leaf s1] Pair Some by (simp_all add: place_simps)
    then show ?thesis using Pair Some by (simp add: fetch_ent_def Let_def split_beta split: option.split)
  qed
qed

lemma place_rename [place_simps]:
  "place (snd (rename_here nm n83 s)) = place s" "place (snd (rename_drop nm s)) = place s"
  "place (snd (place_ent e n83 s)) = place s"
  by (simp_all add: rename_here_def rename_drop_def place_ent_def andthen_def split_beta place_simps split: option.split)

lemma place_empty [place_simps]: "place (snd (dir_empty cl s)) = place s"
proof -
  have "place (snd (empty_loop k cl s)) = place s" for k cl and s :: "'a fs"
    by (induction k arbitrary: cl s) (simp_all add: split_beta place_simps split: option.split)
  then show ?thesis by (simp add: dir_empty_def)
qed

lemma settled_in_dir:
  "settled s (snd (fs_write path bs n s))" "settled s (snd (fs_remove path s))"
  "settled s (snd (fs_mkdir path s))" "settled s (snd (fs_rmdir path s))"
  unfolding fs_write_def fs_remove_def fs_mkdir_def fs_rmdir_def
  by (rule settled_in_parent,
      simp add: Let_def andthen_def split_beta place_simps split: option.split)+

lemma settled_truncate: "settled s (snd (fs_truncate path n s))"
proof (cases "FILE_MAX < n")
  case False
  then have e: "fs_truncate path n s = in_parent path (\<lambda>leaf s.
        case find_file leaf s of None \<Rightarrow> (False, s)
        | Some i \<Rightarrow>
            let f = files s ! i; old = len f in
            if is_dir f \<or> data f = 0 \<or> g_dir s = None \<or> g_fat s = None then (False, s)
            else if n = old then (True, s)
            else if n = 0
            then andthen fat_flush (set_size i 0) (upd_file i (\<lambda>x. x\<lparr>cluster := 0\<rparr>) (free_cls (cluster f) s))
            else andthen (resize_file i (sectors_for n)) (andthen fat_flush
              (andthen (\<lambda>s1. if old < n
                   then (let s2 = zero_tail i old n s1
                         in store_chain (cluster (files s2 ! i)) (take (unat n) (ram s2 (data (files s2 ! i)))) n s2)
                   else (True, s1))
                (set_size i n))) s) s"
    by (simp add: fs_truncate_def)
  show ?thesis unfolding e
    by (rule settled_in_parent) (simp add: Let_def andthen_def split_beta place_simps split: option.split)
qed (simp add: fs_truncate_def)

lemma settled_sync: "settled s (snd (fs_sync s))"
  by (rule settled_place) (simp add: fs_sync_def andthen_def split_beta place_simps)

lemma settled_rename: "settled s (snd (fs_rename src dst s))"
proof (cases "fetch_ent src False s")
  case (Pair r s1)
  have s1: "settled s s1" using settled_fetch [of s src False] Pair by simp
  show ?thesis
  proof (cases r)
    case None
    then show ?thesis using Pair s1 by (simp add: fs_rename_def)
  next
    case (Some q)
    note rq = Some
    obtain leaf par isd ent where q: "q = (leaf, par, isd, ent)" by (cases q) auto
    obtain d s2 where e: "enter_parent dst s1 = (d, s2)" by (cases "enter_parent dst s1")
    show ?thesis
    proof (cases d)
      case None
      then show ?thesis using Pair Some q e settled_trans [OF s1 settled_enter] by (simp add: fs_rename_def)
    next
      case (Some dleaf)
      have home: "settled s (snd (finish (b, s3)))" if "place s3 = place s2" for b s3
        using settled_trans [OF s1 settled_round(1) [OF e [unfolded Some] that]] .
      have r: "settled x (snd (in_parent src rename_drop x))" for x :: "'a fs"
        by (rule settled_in_parent) (simp add: place_simps)
      have move: "settled s (snd (andthen (\<lambda>x. finish (place_ent ent n83 x)) (in_parent src rename_drop) s2))" for n83
        using home [of "snd (place_ent ent n83 s2)" "fst (place_ent ent n83 s2)"] settled_trans [OF _ r]
        by (simp add: andthen_def split_beta place_simps)
      have here: "settled s (snd (finish (rename_here leaf n83 s2)))" for n83
        using home [of "snd (rename_here leaf n83 s2)" "fst (rename_here leaf n83 s2)"] by (simp add: place_simps)
      show ?thesis
        using Pair rq q e Some home [of s2] move here
        by (simp add: fs_rename_def place_simps split: option.split)
    qed
  qed
qed

lemma settled_link: "settled s (snd (fs_link src dst s))"
proof (cases "fetch_ent src True s")
  case (Pair r s1)
  have s1: "settled s s1" using settled_fetch [of s src True] Pair by simp
  show ?thesis
  proof (cases r)
    case (Some q)
    have p: "settled s1 (snd (in_parent dst (\<lambda>dst_leaf s2.
          case (find_file dst_leaf s2, to_83 (Some dst_leaf)) of
            (None, Some n83) \<Rightarrow>
              if FS_MAX \<le> length (files s2) then (False, s2) else andthen (place_ent ent n83) scan_dir s2
          | _ \<Rightarrow> (False, s2)) s1))" for ent
      by (rule settled_in_parent) (simp add: andthen_def split_beta place_simps split: option.split)
    show ?thesis using Pair Some settled_trans [OF s1 p] by (cases q) (simp add: fs_link_def)
  qed (use Pair s1 in \<open>simp add: fs_link_def\<close>)
qed

lemma settled_copy: "settled s (snd (fs_copy src dst s))"
proof (cases "fs_lookup src s")
  case (Pair r s1)
  have s1: "settled s s1" using settled_lookup [of s src] Pair by simp
  have s2: "settled s (ensure_view s1)" by (rule settled_trans [OF s1 settled_place]) (simp add: place_simps)
  have s3: "settled s (poke_page p n bs (ensure_view s1))" for p n bs
    by (rule settled_trans [OF s1 settled_place]) (simp add: place_simps)
  show ?thesis
    using Pair s1 s2 settled_trans [OF s2 settled_in_dir(1)] settled_trans [OF s3 settled_in_dir(1)]
    by (cases r) (auto simp: fs_copy_def Let_def)
qed

lemma walk_loop_base [simp]: "base (snd (walk_loop path s)) = base s"
proof (induction "length path" arbitrary: path s rule: less_induct)
  case less
  note IH = less [OF split_next_shorter]
  show ?case by (subst walk_loop.simps) (simp add: split_beta IH split: split.split)
qed

lemma walk_all_base [simp]: "base (snd (walk_all path s)) = base s"
  by (simp add: walk_all_def andthen_def split_beta split: option.split)

lemma path_apply_fail: "path_apply path g = (False, g1) \<Longrightarrow> g1 = g"
  by (auto simp: path_apply_def copy_str_def split: option.splits prod.splits if_splits bool.splits)

lemma chdir_fail: "fst (fs_chdir path s) \<or> settled s (snd (fs_chdir path s))"
proof (cases "path = None \<or> path = Some [] \<or> PATH_MAX \<le> length (g_path s)")
  case True
  then show ?thesis by (auto simp: fs_chdir_def copy_str_def PATH_MAX_def)
next
  case False
  then have c: "copy_str PATH_MAX (g_path s) d = (True, g_path s)" for d
    by (auto simp: copy_str_def PATH_MAX_def)
  obtain ok g1 where p: "path_apply path (g_path s) = (ok, g1)" by (cases "path_apply path (g_path s)")
  obtain ok2 s2 where w: "walk_all path (s\<lparr>g_path := g1\<rparr>) = (ok2, s2)" by (cases "walk_all path (s\<lparr>g_path := g1\<rparr>)")
  show ?thesis using False c p w path_apply_fail [of path "g_path s" g1]
    by (cases ok) (auto simp: fs_chdir_def Let_def settled_def)
qed

datatype fs_call =
    Lookup "string option"
  | Stat "string option"
  | Write "string option" "u8 list option" u32
  | Sync
  | Truncate "string option" u32
  | Remove "string option"
  | Rename "string option" "string option"
  | Copy "string option" "string option"
  | Link "string option" "string option"
  | Mkdir "string option"
  | Rmdir "string option"

fun fs_do :: "fs_call \<Rightarrow> 'd fs \<Rightarrow> 'd fs" where
  "fs_do (Lookup p) s = snd (fs_lookup p s)"
| "fs_do (Stat p) s = snd (fs_stat p s)"
| "fs_do (Write p bs n) s = snd (fs_write p bs n s)"
| "fs_do Sync s = snd (fs_sync s)"
| "fs_do (Truncate p n) s = snd (fs_truncate p n s)"
| "fs_do (Remove p) s = snd (fs_remove p s)"
| "fs_do (Rename p q) s = snd (fs_rename p q s)"
| "fs_do (Copy p q) s = snd (fs_copy p q s)"
| "fs_do (Link p q) s = snd (fs_link p q s)"
| "fs_do (Mkdir p) s = snd (fs_mkdir p s)"
| "fs_do (Rmdir p) s = snd (fs_rmdir p s)"

lemma settled_do: "settled s (fs_do c s)"
  by (cases c) (simp_all add: settled_lookup settled_stat settled_in_dir settled_sync settled_truncate
      settled_rename settled_copy settled_link)

text \<open>
  C13. The file system comes back: after any sequence of its calls, with any paths and however the
  disk fails on the way, the working directory and its name are those from before; and a call of
  \<open>fs_chdir\<close> that does not succeed leaves both as they were.
\<close>

theorem fs_calls_stay:
  "settled s (fold fs_do calls s) \<and> (fst (fs_chdir path s) \<or> settled s (snd (fs_chdir path s)))"
proof -
  have "settled s (fold fs_do calls s)"
    by (induction calls arbitrary: s) (auto intro: settled_trans settled_do)
  then show ?thesis using chdir_fail by blast
qed

end
