(* ===== verification/Fs_Pages.thy ===== *)
theory Fs_Pages
  imports Fs_Frame "HOL-Library.Multiset"
begin

text \<open>
  Memory of the file system: every file in the table and \<open>g_view\<close> own one page of the allocator.
  \<open>balance T X s\<close> says that the free frames, the frames of the owned pages and those of the pages
  \<open>X\<close> in flight are the frames \<open>T\<close>, each counted once: nothing is shared, freed twice or leaked.
\<close>

definition pages :: "'d fs \<Rightarrow> u64 list" where
  "pages s = filter (\<lambda>p. p \<noteq> 0) (map data (files s) @ [g_view s])"

definition page_frame :: "bool \<Rightarrow> u64 \<Rightarrow> nat" where
  "page_frame h p = unat (virt_to_phys h p) div 4096"

definition page_ok :: "bool \<Rightarrow> pmm \<Rightarrow> u64 \<Rightarrow> bool" where
  "page_ok h m p \<longleftrightarrow> unat (virt_to_phys h p) mod 4096 = 0 \<and> unat (reserved_end m) \<le> unat (virt_to_phys h p) \<and>
     page_frame h p < unat (frame_count m) \<and> virt_to_phys h p \<noteq> 0 \<and> p \<noteq> 0"

text \<open>A directory in the table has no page.\<close>

definition bare :: "fs_file list \<Rightarrow> bool" where
  "bare fs \<longleftrightarrow> (\<forall>f \<in> set fs. is_dir f \<longrightarrow> data f = 0)"

definition balance :: "nat set \<Rightarrow> u64 multiset \<Rightarrow> 'd fs \<Rightarrow> bool" where
  "balance T X s \<longleftrightarrow> pmm_inv (mem s) \<and> finite T \<and> bare (files s) \<and>
     mset_set (free_frames (mem s)) + image_mset (page_frame (hhdm s)) (mset (pages s) + X) = mset_set T \<and>
     (\<forall>p \<in># mset (pages s) + X. page_ok (hhdm s) (mem s) p)"

section \<open>Operations that own nothing new\<close>

named_theorems own_simps \<open>operations that leave the owned pages alone\<close>

definition own :: "'d fs \<Rightarrow> bool \<times> pmm \<times> (u64 \<times> bool) list \<times> u64" where
  "own s = (hhdm s, mem s, map (\<lambda>f. (data f, is_dir f)) (files s), g_view s)"

lemma balance_own:
  assumes "own s' = own s"
  shows "balance T X s' = balance T X s"
proof -
  have m: "map (\<lambda>f. (data f, is_dir f)) (files s') = map (\<lambda>f. (data f, is_dir f)) (files s)" using assms by (simp add: own_def)
  have d: "map data (files s') = map data (files s)" using arg_cong [OF m, of "map fst"] by (simp add: comp_def)
  have "bare fs \<longleftrightarrow> (\<forall>p \<in> set (map (\<lambda>f. (data f, is_dir f)) fs). snd p \<longrightarrow> fst p = 0)" for fs by (auto simp: bare_def)
  then have "bare (files s') = bare (files s)" by (simp only: m)
  moreover have "pages s' = pages s" using d assms by (simp add: pages_def own_def)
  ultimately show ?thesis using assms by (simp add: own_def balance_def)
qed

lemma own_update [own_simps]:
  "own (s\<lparr>g_fat := b\<rparr>) = own s" "own (s\<lparr>g_sec := b\<rparr>) = own s" "own (s\<lparr>g_dir := b\<rparr>) = own s"
  "own (s\<lparr>g_dir_bytes := n\<rparr>) = own s" "own (s\<lparr>ram := r\<rparr>) = own s" "own (s\<lparr>dev := v\<rparr>) = own s"
  "own (s\<lparr>g_cwd := n\<rparr>) = own s" "own (s\<lparr>g_saved_cwd := n\<rparr>) = own s" "own (s\<lparr>g_path := g\<rparr>) = own s"
  by (simp_all add: own_def)

lemma own_upd_file: "(\<And>x. data (f x) = data x \<and> is_dir (f x) = is_dir x) \<Longrightarrow> own (upd_file i f s) = own s"
  by (cases "i < length (files s)") (simp_all add: own_def upd_file_def map_update list_update_same_conv list_update_beyond)

lemma own_basic [own_simps]:
  "own (poke_page p off bs s) = own s" "own (put_fat f s) = own s" "own (set_ent cl v s) = own s"
  "own (snd (alloc_cl s)) = own s" "own (free_cls cl s) = own s" "own (dir_wipe w s) = own s"
  "own (put_meta i cl sz s) = own s" "own (put_dir n bs s) = own s" "own (zero_tail i o1 o2 s) = own s"
  by (simp_all add: poke_page_def put_fat_def set_ent_def alloc_cl_def free_cls_def dir_wipe_def put_meta_def
      put_dir_def zero_tail_def Let_def split_beta own_simps)

lemma own_blocks [own_simps]:
  "own (snd (snd (rd_blocks lba n s))) = own s" "own (snd (wr_blocks lba n bs s)) = own s"
  by (simp_all add: rd_blocks_def wr_blocks_def split_beta own_simps split: option.split)

lemma own_transfer [own_simps]:
  "own (snd (rd_sec lba s)) = own s" "own (snd (wr_sec lba s)) = own s"
  "own (snd (rd_dir lba off s)) = own s" "own (snd (wr_dir lba off s)) = own s"
  "own (snd (fat_flush s)) = own s"
  by (simp_all add: rd_sec_def wr_sec_def rd_dir_def wr_dir_def fat_flush_def andthen_def split_beta own_simps
      split: option.split)

lemma own_dir_loops [own_simps]:
  "own (snd (snd (dir_load_loop k cl off s))) = own s" "own (snd (snd (dir_store_loop k cl off s))) = own s"
  by (induction k arbitrary: cl off s) (simp_all add: split_beta own_simps)

lemma own_dir [own_simps]:
  "own (snd (dir_load s)) = own s" "own (snd (dir_store s)) = own s" "own (snd (dir_grow s)) = own s"
  by (simp_all add: dir_load_def dir_store_def dir_grow_def Let_def split_beta own_simps)

lemma own_slots [own_simps]: "own (snd (dir_slots n s)) = own s" "own (snd (dir_slot s)) = own s"
  by (simp_all add: dir_slots_def dir_slot_def split_beta own_simps split: option.split)

lemma own_load [own_simps]: "own (snd (load_file dst st sz s)) = own s"
proof -
  have "own (snd (chain_load_loop k dst off cl left s)) = own s" for k off cl left and s :: "'a fs"
    by (induction k arbitrary: off cl left s) (subst chain_load_loop.simps, simp add: split_beta Let_def own_simps)+
  then show ?thesis by (simp add: load_file_def)
qed

lemma own_store [own_simps]: "own (snd (store_chain st bs ln s)) = own s"
proof -
  have "own (snd (chain_store_loop k cl off bs ln s)) = own s" for k off cl and s :: "'a fs"
    by (induction k arbitrary: off cl s)
       (subst chain_store_loop.simps, simp add: split_beta Let_def own_simps split: option.split)+
  then show ?thesis by (simp add: store_chain_def)
qed

lemma own_file [own_simps]:
  "own (snd (resize_file i n s)) = own s" "own (snd (set_size i n s)) = own s"
  by (simp_all add: resize_file_def set_size_def andthen_def split_beta own_upd_file own_simps)

lemma own_write_file [own_simps]: "own (snd (write_file i bs n s)) = own s"
  by (simp add: write_file_def andthen_def split_beta own_upd_file own_simps split: option.split)

lemma own_place_ent [own_simps]: "own (snd (place_ent e n83 s)) = own s"
  by (simp add: place_ent_def split_beta own_simps split: option.split)

lemma own_empty [own_simps]: "own (snd (dir_empty cl s)) = own s"
proof -
  have "own (snd (empty_loop k cl s)) = own s" for k cl and s :: "'a fs"
    by (induction k arbitrary: cl s) (simp_all add: split_beta own_simps split: option.split)
  then show ?thesis by (simp add: dir_empty_def)
qed

lemma own_create_name [own_simps]: "own (snd (create_name nm s)) = own s"
  by (simp add: create_name_def Let_def split_beta own_simps split: option.split)

section \<open>Getting and dropping a page\<close>

lemma alloc_frame_fixed:
  "pmm_alloc_frame st m = (p, m') \<Longrightarrow> frame_count m' = frame_count m \<and> reserved_end m' = reserved_end m"
  by (auto simp: pmm_alloc_frame_def split: if_splits option.splits)

lemma page_of_frame:
  assumes "pmm_inv m" "n \<in> free_frames m" "unat (q :: u64) = n * 4096"
  shows "page_ok h m (phys_to_virt h q)" "page_frame h (phys_to_virt h q) = n"
proof -
  have n: "n < unat (frame_count m)" "unat (frame_count m) \<le> 0x6D0000" "unat (reserved_end m) \<le> n * 4096"
    using assms by (auto simp: pmm_inv_def pmm_wf_def free_frames_def)
  have lim: "unat q < 0x800000000000" using n assms(3) by simp
  have pos: "0 < unat q" using free_frame_pos [OF assms(1,2)] assms(3) by simp
  have v: "virt_to_phys h (phys_to_virt h q) = q" by (rule virt_to_phys_inverse [OF lim])
  have "0 < unat (phys_to_virt h q)" using unat_phys_to_virt [OF lim, of h] pos by simp
  then have nz: "phys_to_virt h q \<noteq> 0" "q \<noteq> 0" using pos by auto
  show f: "page_frame h (phys_to_virt h q) = n" using assms(3) by (simp add: page_frame_def v)
  show "page_ok h m (phys_to_virt h q)" using n assms(3) nz unfolding page_ok_def f v by simp
qed

lemma pages_mem [simp]: "pages (s\<lparr>mem := m\<rparr>) = pages s"
  by (simp add: pages_def)

text \<open>One allocation, by either entry point of the allocator.\<close>

lemma balance_alloc:
  assumes "balance T X s" "pmm_alloc_frame st (mem s) = (q, m)"
  shows "if q = 0 then m = mem s
    else balance T (add_mset (phys_to_virt (hhdm s) q) X) (s\<lparr>mem := m\<rparr>) \<and> phys_to_virt (hhdm s) q \<noteq> 0"
proof -
  have inv: "pmm_inv (mem s)" using assms(1) by (simp add: balance_def)
  note spec = pmm_alloc_frame_spec [OF inv assms(2)] and fix1 = alloc_frame_fixed [OF assms(2)]
  show ?thesis
  proof (cases "q = 0")
    case False
    then obtain n where n: "n \<in> free_frames (mem s)" "unat q = n * 4096" "free_frames m = free_frames (mem s) - {n}"
      using spec by auto
    note pg = page_of_frame [OF inv n(1,2), of "hhdm s"]
    have "mset_set (free_frames (mem s)) = add_mset n (mset_set (free_frames m))"
      using n by (simp add: mset_set.remove)
    moreover have "page_ok (hhdm s) m p \<longleftrightarrow> page_ok (hhdm s) (mem s) p" for p
      using fix1 by (simp add: page_ok_def)
    ultimately show ?thesis using assms(1) spec pg False by (auto simp: balance_def page_ok_def)
  qed (use spec in simp)
qed

lemma balance_page_buf:
  assumes "balance T X s" "page_buf s = (p, s')"
  shows "balance T (if p = 0 then X else add_mset p X) s' \<and> files s' = files s"
proof -
  obtain q m where a: "pmm_alloc_above 0x200000 (mem s) = (q, m)" by (cases "pmm_alloc_above 0x200000 (mem s)")
  obtain r m1 where b: "(if q = 0 then pmm_alloc m else (q, m)) = (r, m1)" by (cases "if q = 0 then pmm_alloc m else (q, m)")
  have e: "p = (if r = 0 then 0 else phys_to_virt (hhdm s) r)" "s' = s\<lparr>mem := m1\<rparr>"
    using assms(2) a b by (auto simp: page_buf_def)
  have "if r = 0 then m1 = mem s
    else balance T (add_mset (phys_to_virt (hhdm s) r) X) (s\<lparr>mem := m1\<rparr>) \<and> phys_to_virt (hhdm s) r \<noteq> 0"
    using balance_alloc [OF assms(1) a [unfolded pmm_alloc_above_def]] balance_alloc [OF assms(1), of 0 r m1] b
    by (auto simp: pmm_alloc_def split: if_splits)
  then show ?thesis using assms(1) e by (auto split: if_splits)
qed

lemma balance_free:
  assumes "balance T (add_mset p X) s"
  shows "balance T X (s\<lparr>mem := pmm_free (virt_to_phys (hhdm s) p) (mem s)\<rparr>)"
proof -
  let ?m = "pmm_free (virt_to_phys (hhdm s) p) (mem s)" and ?n = "page_frame (hhdm s) p"
  have b: "pmm_inv (mem s)" "page_ok (hhdm s) (mem s) p" "finite T"
    "mset_set (free_frames (mem s)) + add_mset ?n (image_mset (page_frame (hhdm s)) (mset (pages s) + X)) = mset_set T"
    using assms by (auto simp: balance_def)
  have sp: "pmm_inv ?m" "free_frames ?m = insert ?n (free_frames (mem s))"
    using pmm_free_spec [OF b(1), of "virt_to_phys (hhdm s) p"] b(2) by (auto simp: page_ok_def page_frame_def)
  have "count (mset_set T) ?n \<le> 1" using b(3) by (simp add: count_mset_set')
  then have "?n \<notin> free_frames (mem s)" unfolding b(4) [symmetric] by (auto simp: count_mset_set)
  then have "mset_set (free_frames ?m) = add_mset ?n (mset_set (free_frames (mem s)))"
    using sp(2) by (simp add: mset_set.insert)
  moreover have "page_ok (hhdm s) ?m q \<longleftrightarrow> page_ok (hhdm s) (mem s) q" for q
    by (simp add: page_ok_def)
  ultimately show ?thesis using assms sp(1) b(4) by (auto simp: balance_def ac_simps)
qed

lemma balance_page_ok: "balance T (add_mset p X) s \<Longrightarrow> p \<noteq> 0 \<and> virt_to_phys (hhdm s) p \<noteq> 0"
  by (auto simp: balance_def page_ok_def)

lemma balance_drop_page: "balance T (add_mset p X) s \<Longrightarrow> balance T X (drop_page p s)"
  using balance_free [of T p X s] balance_page_ok [of T p X s] by (auto simp: drop_page_def Let_def)

lemma drop_page_0 [simp]: "drop_page 0 s = s"
  by (simp add: drop_page_def)

section \<open>The table of files\<close>

definition held :: "fs_file list \<Rightarrow> u64 multiset" where
  "held fs = mset (filter (\<lambda>p. p \<noteq> 0) (map data fs))"

lemma held_simps [simp]:
  "held [] = {#}" "held (f # fs) = (if data f = 0 then {#} else {#data f#}) + held fs"
  "held (fs @ gs) = held fs + held gs"
  by (simp_all add: held_def)

text \<open>A file's page may be counted with the table or in flight.\<close>

lemma balance_files: "balance T X (s\<lparr>files := fs\<rparr>) = (balance T (X + held fs) (s\<lparr>files := []\<rparr>) \<and> bare fs)"
proof -
  have "mset (pages (s\<lparr>files := fs\<rparr>)) + X = mset (pages (s\<lparr>files := []\<rparr>)) + (X + held fs)"
    by (simp add: pages_def held_def)
  then show ?thesis unfolding balance_def by (simp only:) (auto simp: bare_def)
qed

lemma balance_table: "balance T X s \<Longrightarrow> balance T (X + held (files s)) (s\<lparr>files := []\<rparr>) \<and> bare (files s)"
  using balance_files [where T = T and X = X and s = s and fs = "files s"] by simp

lemma balance_to_files:
  "balance T X s \<Longrightarrow> X + held (files s) = Y + held gs \<Longrightarrow> (bare (files s) \<Longrightarrow> bare gs) \<Longrightarrow> balance T Y (s\<lparr>files := gs\<rparr>)"
  using balance_table [of T X s] by (simp add: balance_files [where fs = gs])

lemma balance_append:
  "balance T (if data f = 0 then X else add_mset (data f) X) s \<Longrightarrow> (is_dir f \<longrightarrow> data f = 0) \<Longrightarrow>
    balance T X (s\<lparr>files := files s @ [f]\<rparr>)"
  by (erule balance_to_files) (auto simp: bare_def)

lemma drop_page_files: "(drop_page p s)\<lparr>files := fs\<rparr> = drop_page p (s\<lparr>files := fs\<rparr>)"
  by (simp add: drop_page_def Let_def)

lemma balance_drop_all:
  "balance T (X + held fs) (s\<lparr>files := []\<rparr>) \<Longrightarrow> balance T X ((fold (\<lambda>f. drop_page (data f)) fs s)\<lparr>files := []\<rparr>)"
proof (induction fs arbitrary: s)
  case (Cons f fs)
  have "balance T (X + held fs) ((drop_page (data f) s)\<lparr>files := []\<rparr>)"
    using Cons.prems balance_drop_page [of T "data f" "X + held fs"] unfolding drop_page_files
    by (auto split: if_splits)
  then show ?case using Cons.IH by simp
qed simp

lemma balance_snd: "(\<And>a b. f = (a, b) \<Longrightarrow> P b) \<Longrightarrow> P (snd f)"
  by (cases f) simp

lemma balance_scan_ents: "balance T X s \<Longrightarrow> balance T X (snd (scan_ents js lfn n s))"
proof (induction js arbitrary: lfn n s)
  case (Cons j js)
  obtain p s1 where pb: "page_buf s = (p, s1)" by (cases "page_buf s")
  note b = balance_page_buf [OF Cons.prems pb]
  have dir: "balance T X (s\<lparr>files := files s @ [f]\<rparr>)" if "data f = 0" for f
    by (rule balance_append) (use Cons.prems that in simp_all)
  have fresh: "balance T X (s1\<lparr>files := files s1 @ [f]\<rparr>)" if "p \<noteq> 0" "data f = p" "\<not> is_dir f" for f
    by (rule balance_append) (use b that in simp_all)
  have load: "balance T X (snd (load_file p cl sz (s1\<lparr>files := files s1 @ [f]\<rparr>)))" if "p \<noteq> 0" "data f = p" "\<not> is_dir f" for f cl sz
    using fresh [OF that] balance_own [OF own_load, of T X] by blast
  have "balance T X s1" if "p = 0" using b that by simp
  then show ?case using Cons.prems pb unfolding scan_ents.simps Let_def
    by (auto intro!: Cons.IH dir fresh load)
qed simp

lemma balance_scan [intro]: "balance T X s \<Longrightarrow> balance T X (snd (scan_dir s))"
proof -
  let ?s = "(fold (\<lambda>f. drop_page (data f)) (files s) s)\<lparr>files := []\<rparr>"
  assume "balance T X s"
  then have "balance T X ?s" using balance_drop_all balance_table by blast
  then have "balance T X (snd (dir_load ?s))" by (simp add: balance_own [OF own_dir(1)])
  then show ?thesis by (auto simp: scan_dir_def split_beta intro: balance_scan_ents)
qed

section \<open>Walks and operations\<close>

lemma balance_go [intro]: "balance T X s \<Longrightarrow> balance T X (snd (go_cwd c s))"
  unfolding go_cwd_def by (rule balance_scan) (simp add: balance_own [OF own_update(7)])

lemma balance_chdir_one [intro]: "balance T X s \<Longrightarrow> balance T X (snd (chdir_one nm s))"
  by (auto simp: chdir_one_def split_beta balance_own [OF own_transfer(1)] split: option.split)

lemma balance_to_root [intro]: "balance T X s \<Longrightarrow> balance T X (snd (to_root s))"
  by (auto simp: to_root_def)

lemma balance_parent_loop [intro]: "balance T X s \<Longrightarrow> balance T X (snd (parent_loop nm path s))"
proof (induction "length path" arbitrary: nm path s rule: less_induct)
  case less
  note IH = less(1) [OF split_next_shorter]
  show ?case using less(2) by (subst parent_loop.simps) (auto simp: split_beta intro!: IH split: split.split)
qed

lemma balance_walk_loop [intro]: "balance T X s \<Longrightarrow> balance T X (snd (walk_loop path s))"
proof (induction "length path" arbitrary: path s rule: less_induct)
  case less
  note IH = less(1) [OF split_next_shorter]
  show ?case using less(2) by (subst walk_loop.simps) (auto simp: split_beta intro!: IH split: split.split)
qed

lemma balance_parent_walk [intro]: "balance T X s \<Longrightarrow> balance T X (snd (parent_walk path s))"
  by (auto simp: parent_walk_def split: split.split)

lemma balance_walk_all [intro]: "balance T X s \<Longrightarrow> balance T X (snd (walk_all path s))"
  by (auto simp: walk_all_def andthen_def split_beta split: option.split)

lemma balance_leave [intro]: "balance T X s \<Longrightarrow> balance T X (snd (leave_parent s))"
  by (auto simp: leave_parent_def)

lemma balance_enter [intro]: "balance T X s \<Longrightarrow> balance T X (snd (enter_parent path s))"
proof -
  assume b: "balance T X s"
  have s: "balance T X (s\<lparr>g_saved_cwd := g_cwd s\<rparr>)" using b by (simp add: balance_own [OF own_update(8)])
  show ?thesis
  proof (cases "path = None \<or> path = Some []")
    case True
    then show ?thesis using s by (auto simp: enter_parent_def Let_def)
  next
    case False
    then obtain c p where p: "path = Some (c # p)" by (cases path) (auto simp: neq_Nil_conv)
    let ?s = "s\<lparr>g_saved_cwd := g_cwd s\<rparr>"
    let ?w = "if c = slash
       then (case to_root ?s of (ok, s1) \<Rightarrow> if \<not> ok \<or> p = [] then (None, s1) else parent_walk p s1)
       else parent_walk (c # p) ?s"
    have w: "balance T X (snd ?w)" using s by (auto simp: split_beta)
    obtain r s1 where r: "?w = (r, s1)" by (cases ?w)
    have "enter_parent path s = (case (r, s1) of (Some leaf, s1) \<Rightarrow> (Some leaf, s1)
         | (None, s1) \<Rightarrow> if g_cwd s1 \<noteq> g_saved_cwd s1 then (None, snd (go_cwd (g_saved_cwd s1) s1)) else (None, s1))"
      unfolding r [symmetric] enter_parent_def p Let_def by simp
    moreover have "balance T X s1" using w unfolding r by simp
    ultimately show ?thesis by (auto split: option.split)
  qed
qed

lemma balance_in_parent:
  assumes "\<And>leaf s. balance T {#} s \<Longrightarrow> balance T {#} (snd (body leaf s))" "balance T {#} s"
  shows "balance T {#} (snd (in_parent name body s))"
proof -
  have "balance T {#} (snd (enter_parent name s))" using assms(2) by auto
  then show ?thesis using assms(1)
    by (cases "enter_parent name s") (auto simp: in_parent_def finish_def split_beta intro!: balance_leave split: option.split)
qed

lemma balance_view [intro]: "balance T {#} s \<Longrightarrow> balance T {#} (ensure_view s)"
proof -
  assume b: "balance T {#} s"
  obtain p s1 where pb: "page_buf s = (p, s1)" by (cases "page_buf s")
  note q = balance_page_buf [OF b pb]
  have v: "g_view s1 = g_view s" using pb by (auto simp: page_buf_def split_beta)
  show ?thesis
  proof (cases "g_view s = 0")
    case True
    have "mset (pages (s1\<lparr>g_view := p\<rparr>)) = mset (pages s1) + (if p = 0 then {#} else {#p#})"
      using True v by (simp add: pages_def)
    then show ?thesis using q True pb by (auto simp: ensure_view_def balance_def)
  qed (use b in \<open>simp add: ensure_view_def\<close>)
qed

lemma balance_create [intro]:
  assumes "balance T {#} s0"
  shows "balance T {#} (snd (fs_create nm s0))"
proof -
  obtain r s where c: "create_name nm s0 = (r, s)" by (cases "create_name nm s0")
  have s: "balance T {#} s" using assms balance_own [OF own_create_name, of T "{#}" nm s0] c by simp
  obtain p s1 where pb: "page_buf s = (p, s1)" by (cases "page_buf s")
  note q = balance_page_buf [OF s pb]
  have fail: "balance T {#} (drop_page p s2)" if "p \<noteq> 0" "own s2 = own s1" for s2
    by (rule balance_drop_page) (use balance_own [OF that(2), of T] q that(1) in simp)
  have ok: "balance T {#} (s2\<lparr>files := files s2 @ [f]\<rparr>)" if "p \<noteq> 0" "own s2 = own s1" "data f = p" "\<not> is_dir f" for s2 f
    by (rule balance_append) (use balance_own [OF that(2)] q that in auto)
  show ?thesis
  proof (cases r)
    case None
    then show ?thesis using c s assms by (simp add: fs_create_def)
  next
    case (Some x)
    obtain n83 n where x: "x = (n83, n)" by (cases x)
    show ?thesis
    proof (cases "p = 0")
      case True
      then show ?thesis using c Some x pb q assms by (simp add: fs_create_def)
    next
      case False
      then show ?thesis using c Some x pb assms
        by (auto simp: fs_create_def Let_def split_beta own_simps intro!: fail ok split: option.split prod.split)
    qed
  qed
qed

lemma held_drop:
  assumes "i < length fs"
  shows "held fs = held [fs ! i] + held (butlast (if i \<noteq> length fs - 1 then fs[i := last fs] else fs))"
    "set (butlast (if i \<noteq> length fs - 1 then fs[i := last fs] else fs)) \<subseteq> set fs"
proof -
  have ne: "fs \<noteq> []" using assms by auto
  obtain gs g where fs: "fs = gs @ [g]" using ne rev_exhaust by blast
  have "mset fs = add_mset (fs ! i) (mset (butlast (if i \<noteq> length fs - 1 then fs[i := last fs] else fs)))"
  proof (cases "i = length gs")
    case False
    then have i: "i < length gs" using assms fs by simp
    have "mset (gs[i := g]) = add_mset g (mset gs - {#gs ! i#})" by (rule mset_update [OF i])
    moreover have "gs ! i \<in># mset gs" using i by simp
    ultimately show ?thesis using i fs by (simp add: list_update_append nth_append)
  qed (simp add: fs)
  then show "held fs = held [fs ! i] + held (butlast (if i \<noteq> length fs - 1 then fs[i := last fs] else fs))"
    by (simp add: held_def)
  show "set (butlast (if i \<noteq> length fs - 1 then fs[i := last fs] else fs)) \<subseteq> set fs"
    using set_update_subset_insert [of gs i g] assms unfolding fs by (auto simp: list_update_append)
qed

lemma balance_drop_file:
  "balance T X s \<Longrightarrow> i < length (files s) \<Longrightarrow> balance T (X + held [files s ! i]) (drop_file i s)"
  unfolding drop_file_def Let_def
  by (erule balance_to_files) (use held_drop [of i "files s"] in \<open>auto simp: bare_def ac_simps\<close>)

lemmas bal_simps = own_simps [THEN balance_own]

lemma balance_upd [simp]: "(\<And>x. data (f x) = data x \<and> is_dir (f x) = is_dir x) \<Longrightarrow> balance T X (upd_file i f s) = balance T X s"
  by (rule balance_own [OF own_upd_file])

lemma find_file_bound: "find_file nm s = Some i \<Longrightarrow> i < length (files s)"
  by (auto simp: find_file_def find_Some_iff split: if_splits)

lemma balance_lookup_here [intro]: "balance T {#} s \<Longrightarrow> balance T {#} (snd (lookup_here leaf s))"
  by (auto simp: lookup_here_def Let_def split_beta bal_simps split: option.split)

lemma balance_lookup [intro]: "balance T {#} s \<Longrightarrow> balance T {#} (snd (fs_lookup path s))"
  using balance_enter [of T "{#}" s path]
  by (cases "enter_parent path s") (auto simp: fs_lookup_def split_beta split: option.split)

lemma balance_stat: "balance T {#} s \<Longrightarrow> balance T {#} (snd (fs_stat path s))"
  using balance_enter [of T "{#}" s path]
  by (cases "enter_parent path s") (auto simp: fs_stat_def Let_def split_beta bal_simps intro!: balance_leave split: option.split)

lemma balance_fetch [intro]: "balance T {#} s \<Longrightarrow> balance T {#} (snd (fetch_ent path b s))"
  using balance_enter [of T "{#}" s path]
  by (cases "enter_parent path s") (auto simp: fetch_ent_def Let_def split_beta bal_simps intro!: balance_leave split: option.split)

lemma balance_write [intro]: "balance T {#} s \<Longrightarrow> balance T {#} (snd (fs_write path bs n s))"
  unfolding fs_write_def
proof (rule balance_in_parent)
  fix leaf and s :: "'a fs"
  assume "balance T {#} s"
  then show "balance T {#} (snd (case find_file leaf s of
       Some i \<Rightarrow> if is_dir (files s ! i) then (False, s) else write_file i bs n s
     | None \<Rightarrow> (case fs_create leaf s of (None, s1) \<Rightarrow> (False, s1)
                 | (Some i, s1) \<Rightarrow> if is_dir (files s1 ! i) then (False, s1) else write_file i bs n s1)))"
    using balance_create [of T s leaf] by (cases "fs_create leaf s") (auto simp: bal_simps split: option.split)
qed

lemma balance_sync: "balance T {#} s \<Longrightarrow> balance T {#} (snd (fs_sync s))"
  by (simp add: fs_sync_def andthen_def split_beta bal_simps)

lemma balance_truncate: "balance T {#} s \<Longrightarrow> balance T {#} (snd (fs_truncate path n s))"
  unfolding fs_truncate_def
  by (auto intro!: balance_in_parent simp: Let_def andthen_def split_beta bal_simps split: option.split)

lemma balance_mkdir: "balance T {#} s \<Longrightarrow> balance T {#} (snd (fs_mkdir path s))"
  unfolding fs_mkdir_def
  by (rule balance_in_parent) (auto simp: Let_def split_beta bal_simps split: option.split)

lemma balance_rename_parts:
  "balance T {#} s \<Longrightarrow> balance T {#} (snd (rename_here nm n83 s))"
  "balance T {#} s \<Longrightarrow> balance T {#} (snd (rename_drop nm s))"
  by (auto simp: rename_here_def rename_drop_def andthen_def split_beta bal_simps intro!: balance_scan split: option.split)

lemma balance_finish: "balance T {#} (snd x) \<Longrightarrow> balance T {#} (snd (finish x))"
  by (auto simp: finish_def split_beta)

lemma balance_rename: "balance T {#} s \<Longrightarrow> balance T {#} (snd (fs_rename src dst s))"
proof (cases "fetch_ent src False s")
  case (Pair r s1)
  assume b: "balance T {#} s"
  then have s1: "balance T {#} s1" using balance_fetch [OF b, of src False] Pair by simp
  obtain d s2 where e: "enter_parent dst s1 = (d, s2)" by (cases "enter_parent dst s1")
  then have s2: "balance T {#} s2" using balance_enter [OF s1, of dst] by simp
  have move: "balance T {#} (snd (andthen (\<lambda>x. finish (place_ent ent n83 x)) (in_parent src rename_drop) s2))" for ent n83
    using s2 by (auto simp: andthen_def split_beta bal_simps intro!: balance_in_parent balance_finish balance_rename_parts)
  show ?thesis using Pair s1 e s2 move balance_rename_parts(1) [OF s2] b
    by (auto simp: fs_rename_def intro!: balance_finish split: option.split prod.split)
qed

lemma balance_link: "balance T {#} s \<Longrightarrow> balance T {#} (snd (fs_link src dst s))"
proof (cases "fetch_ent src True s")
  case (Pair r s1)
  assume b: "balance T {#} s"
  then have s1: "balance T {#} s1" using balance_fetch [OF b, of src True] Pair by simp
  show ?thesis using Pair s1
    by (auto simp: fs_link_def andthen_def split_beta bal_simps intro!: balance_in_parent balance_scan split: option.split)
qed

lemma balance_copy: "balance T {#} s \<Longrightarrow> balance T {#} (snd (fs_copy src dst s))"
proof (cases "fs_lookup src s")
  case (Pair r s1)
  assume b: "balance T {#} s"
  then have s1: "balance T {#} s1" using balance_lookup [OF b, of src] Pair by simp
  show ?thesis using Pair s1 b by (auto simp: fs_copy_def Let_def bal_simps intro!: balance_write split: option.split)
qed

lemma balance_chdir: "balance T {#} s \<Longrightarrow> balance T {#} (snd (fs_chdir path s))"
  by (auto simp: fs_chdir_def Let_def split_beta bal_simps intro!: balance_go balance_walk_all)

lemma own_entry:
  assumes "own s' = own s"
  shows "length (files s') = length (files s)" "hhdm s' = hhdm s"
    "i < length (files s) \<Longrightarrow> data (files s' ! i) = data (files s ! i) \<and> is_dir (files s' ! i) = is_dir (files s ! i)"
proof -
  have m: "map (\<lambda>f. (data f, is_dir f)) (files s') = map (\<lambda>f. (data f, is_dir f)) (files s)" using assms by (simp add: own_def)
  then show l: "length (files s') = length (files s)" by (metis length_map)
  show "hhdm s' = hhdm s" using assms by (simp add: own_def)
  show "i < length (files s) \<Longrightarrow> data (files s' ! i) = data (files s ! i) \<and> is_dir (files s' ! i) = is_dir (files s ! i)"
    using arg_cong [OF m, of "\<lambda>l. l ! i"] l by simp
qed

text \<open>Taking a file off the table and freeing its page.\<close>

lemma balance_forget:
  assumes "balance T {#} s" "i < length (files s)" "p = data (files s ! i)"
  shows "balance T {#} (forget_file i p s)"
proof -
  let ?s = "drop_file i s"
  have b: "balance T (held [files s ! i]) ?s" using balance_drop_file [OF assms(1,2)] by simp
  have h: "hhdm ?s = hhdm s" by (simp add: drop_file_def Let_def)
  show ?thesis
  proof (cases "p = 0")
    case True
    then show ?thesis using b assms(3) by (simp add: forget_file_def virt_to_phys_def HHDM_BASE_def)
  next
    case False
    then have "balance T (add_mset p {#}) ?s" using b assms(3) by simp
    then show ?thesis using balance_free [of T p "{#}" ?s] balance_page_ok [of T p "{#}" ?s] unfolding forget_file_def Let_def h by simp
  qed
qed

lemma balance_remove: "balance T {#} s \<Longrightarrow> balance T {#} (snd (fs_remove path s))"
  unfolding fs_remove_def
proof (rule balance_in_parent)
  fix leaf and s :: "'a fs"
  assume b: "balance T {#} s"
  have gone: "balance T {#} (forget_file i (data (files s ! i)) s')" if "own s' = own s" "find_file leaf s = Some i" for s' i
    by (rule balance_forget) (use b own_entry [OF that(1)] balance_own [OF that(1)] find_file_bound [OF that(2)] in auto)
  show "balance T {#} (snd (case find_file leaf s of None \<Rightarrow> (False, s)
     | Some i \<Rightarrow>
         let f = files s ! i in
         if is_dir f \<or> g_dir s = None \<or> g_fat s = None then (False, s)
         else andthen dir_load
           (andthen (\<lambda>s1. if other_links (cluster f) (dir_off f) s1 = 0 then fat_flush (free_cls (cluster f) s1) else (True, s1))
             (\<lambda>s2. andthen dir_store
                (\<lambda>s3. (True, forget_file i (data f) s3))
                (dir_wipe (dir_off f) s2))) s))"
  proof (cases "find_file leaf s")
    case (Some i)
    note g = gone [OF _ Some]
    show ?thesis unfolding Some option.case andthen_def split_beta Let_def
      by (auto simp: bal_simps b own_simps intro!: g)
  qed (simp add: b)
qed

lemma balance_rmdir: "balance T {#} s \<Longrightarrow> balance T {#} (snd (fs_rmdir path s))"
  unfolding fs_rmdir_def
proof (rule balance_in_parent)
  fix leaf and s :: "'a fs"
  assume b: "balance T {#} s"
  have gone: "balance T {#} (drop_file i s')"
    if "own s' = own s" "find_file leaf s = Some i" "is_dir (files s ! i)" for s' i
  proof -
    have i: "i < length (files s)" by (rule find_file_bound [OF that(2)])
    have "data (files s ! i) = 0" using b i that(3) by (auto simp: balance_def bare_def)
    then have "held [files s' ! i] = {#}" using own_entry(3) [OF that(1) i] by simp
    moreover have "balance T ({#} + held [files s' ! i]) (drop_file i s')"
      by (rule balance_drop_file) (use b i own_entry(1) [OF that(1)] balance_own [OF that(1)] in auto)
    ultimately show ?thesis by simp
  qed
  show "balance T {#} (snd (case find_file leaf s of None \<Rightarrow> (False, s)
     | Some i \<Rightarrow>
         let f = files s ! i in
         if \<not> is_dir f \<or> g_dir s = None \<or> g_fat s = None \<or> cluster f = g_saved_cwd s then (False, s)
         else andthen (dir_empty (cluster f))
           (\<lambda>s1. andthen fat_flush (andthen dir_load
              (\<lambda>s2. andthen dir_store (\<lambda>s3. (True, drop_file i s3)) (dir_wipe (dir_off f) s2)))
              (free_cls (cluster f) s1)) s))"
  proof (cases "find_file leaf s")
    case (Some i)
    note g = gone [OF _ Some]
    show ?thesis unfolding Some option.case andthen_def split_beta Let_def
      by (auto simp: bal_simps b own_simps intro!: g)
  qed (simp add: b)
qed

lemma balance_do: "balance T {#} s \<Longrightarrow> balance T {#} (fs_do c s)"
  by (cases c) (simp_all add: balance_lookup balance_stat balance_write balance_sync balance_truncate balance_remove
      balance_rename balance_copy balance_link balance_mkdir balance_rmdir)

section \<open>Properties\<close>

definition fs_pages_ok :: "'d fs \<Rightarrow> bool" where
  "fs_pages_ok s \<longleftrightarrow> pmm_inv (mem s) \<and> bare (files s) \<and>
     (\<forall>p \<in> set (pages s). page_ok (hhdm s) (mem s) p \<and> page_frame (hhdm s) p \<notin> free_frames (mem s)) \<and>
     distinct (map (page_frame (hhdm s)) (pages s))"

definition pool :: "'d fs \<Rightarrow> nat set" where
  "pool s = free_frames (mem s) \<union> page_frame (hhdm s) ` set (pages s)"

lemma split_once:
  assumes "finite A" "finite T"
  shows "mset_set A + mset L = mset_set T \<longleftrightarrow> distinct L \<and> A \<inter> set L = {} \<and> A \<union> set L = T"
proof
  assume e: "mset_set A + mset L = mset_set T"
  have u: "A \<union> set L = T" using arg_cong [OF e, of set_mset] assms by simp
  have c: "count (mset_set A) x + count (mset L) x = (if x \<in> T then 1 else 0)" for x
    using arg_cong [OF e, of "\<lambda>M. count M x"] assms by (simp add: count_mset_set')
  have one: "1 \<le> count (mset L) x" if "x \<in> set L" for x using that by (simp add: Suc_le_eq)
  have le: "count (mset_set A) x + count (mset L) x \<le> 1" for x using c [of x] by simp
  have "distinct L" unfolding distinct_count_atmost_1
  proof
    fix x show "count (mset L) x = (if x \<in> set L then 1 else 0)"
    proof (cases "x \<in> set L")
      case True
      then have "count (mset L) x = 1" using le [of x] one [OF True] by linarith
      then show ?thesis using True by simp
    qed (simp add: count_eq_zero_iff)
  qed
  moreover have "x \<notin> A" if "x \<in> set L" for x
    using le [of x] one [OF that] assms(1) by (auto simp: count_mset_set)
  ultimately show "distinct L \<and> A \<inter> set L = {} \<and> A \<union> set L = T" using u by auto
next
  assume "distinct L \<and> A \<inter> set L = {} \<and> A \<union> set L = T"
  then show "mset_set A + mset L = mset_set T" using assms mset_set_Union [of A "set L"] by (auto simp: mset_set_set)
qed

lemma balance_iff: "balance T {#} s \<longleftrightarrow> fs_pages_ok s \<and> pool s = T"
proof -
  have p: "finite (pool s)" by (simp add: pool_def)
  have "finite T \<Longrightarrow> mset_set (free_frames (mem s)) + mset (map (page_frame (hhdm s)) (pages s)) = mset_set T \<longleftrightarrow>
      distinct (map (page_frame (hhdm s)) (pages s)) \<and> free_frames (mem s) \<inter> set (map (page_frame (hhdm s)) (pages s)) = {} \<and>
      free_frames (mem s) \<union> set (map (page_frame (hhdm s)) (pages s)) = T"
    by (rule split_once) simp
  then show ?thesis using p by (auto simp: balance_def fs_pages_ok_def pool_def)
qed


text \<open>One file with a page, on the machine of 16 frames.\<close>

definition fs_demo :: "(nat \<Rightarrow> u8 list) fs" where
  "fs_demo = \<lparr>files = [\<lparr>fname = ''a'', data = 0x2000, len = 0, cluster = 0, dir_off = 0, is_dir = False\<rparr>],
     g_fat = None, g_sec = None, g_first_data = 3, g_first_root = 2, g_rsvd = 1, g_fatsz = 0, g_root_ent = 16,
     g_clusters = 0, g_cwd = 0, g_saved_cwd = 0, g_path = ''/'', g_dir = None, g_dir_bytes = 0, g_view = 0,
     ram = (\<lambda>p. replicate 4096 0), mem = pmm_tiny, hhdm = False, dev = bio_demo\<rparr>"

lemma fs_demo_ok: "fs_pages_ok fs_demo"
  using pmm_inv_tiny free_frames_tiny
  by (simp add: fs_pages_ok_def fs_demo_def bare_def pages_def page_ok_def page_frame_def virt_to_phys_def)
     (simp add: pmm_tiny_def)


end
