(* ===== verification/Fs_Data.thy ===== *)
theory Fs_Data
  imports Fs_Ops
begin

text \<open>
  File contents: what \<open>store_chain\<close> puts on the disk along a cluster chain is what \<open>load_file\<close>
  reads along it. The driver is assumed to keep its contract for single sectors.
\<close>

text \<open>\<open>sec d i\<close> are the bytes of absolute sector \<open>i\<close> of the device state \<open>d\<close>.\<close>

definition honest :: "('d \<Rightarrow> nat \<Rightarrow> u8 list) \<Rightarrow> 'd bdev \<Rightarrow> bool" where
  "honest sec v \<longleftrightarrow>
     (\<forall>d i. length (sec d i) = 512) \<and>
     (\<forall>a src d d'. length src = 512 \<longrightarrow> bd_write v a 1 src d = (True, d') \<longrightarrow>
        sec d' (unat a) = src \<and> (\<forall>i. i \<noteq> unat a \<longrightarrow> sec d' i = sec d i)) \<and>
     (\<forall>a d bs d'. bd_read v a 1 d = (True, bs, d') \<longrightarrow> bs = sec d (unat a) \<and> sec d' = sec d)"

definition geom :: "'d fs \<Rightarrow> u8 list option \<times> u32 \<times> u32 \<times> 'd bdev list \<times> u32" where
  "geom s = (g_fat s, g_fatsz s, g_first_data s, table (dev s), part_lba (dev s))"

text \<open>The sector of a cluster.\<close>

definition cl_sec :: "('d \<Rightarrow> nat \<Rightarrow> u8 list) \<Rightarrow> 'd fs \<Rightarrow> u32 \<Rightarrow> u8 list" where
  "cl_sec sec s cl = sec (disk (dev s)) (unat (data_lba s cl + part_lba (dev s)))"

lemma geom_same:
  assumes "geom s' = geom s"
  shows "ent_at s' = ent_at s" "data_lba s' = data_lba s" "part_lba (dev s') = part_lba (dev s)" "table (dev s') = table (dev s)"
  using assms by (auto simp: geom_def ent_at_def fat_of_def data_lba_def)

lemma cl_sec_inj: "data_lba s c + p = data_lba s c' + (p :: u32) \<longleftrightarrow> c = c'"
  by (simp add: data_lba_def)

lemma wr_sec_spec:
  assumes "honest sec (table (dev s) ! 0)" "g_sec s = Some b" "length b = 512" "wr_sec (data_lba s cl) s = (True, s')"
  shows "geom s' = geom s \<and> g_sec s' = Some b \<and> ram s' = ram s \<and> cl_sec sec s' cl = b \<and> (\<forall>c. c \<noteq> cl \<longrightarrow> cl_sec sec s' c = cl_sec sec s c)"
proof -
  let ?a = "data_lba s cl + part_lba (dev s)"
  obtain d where d: "bd_write (table (dev s) ! 0) ?a 1 b (disk (dev s)) = (True, d)" "s' = s\<lparr>dev := dev s\<lparr>disk := d\<rparr>\<rparr>"
    using assms(2-4) by (auto simp: wr_sec_def wr_blocks_def bwrite_def split: if_splits prod.splits)
  have w: "sec d (unat ?a) = b" "\<And>i. i \<noteq> unat ?a \<Longrightarrow> sec d i = sec (disk (dev s)) i"
    using assms(1,3) d(1) unfolding honest_def by blast+
  have l: "data_lba s' c = data_lba s c" for c using d(2) by (simp add: data_lba_def)
  have "cl_sec sec s' c = cl_sec sec s c" if "c \<noteq> cl" for c
  proof -
    have "unat (data_lba s c + part_lba (dev s)) \<noteq> unat ?a"
      using that cl_sec_inj [of s c "part_lba (dev s)" cl] word_eq_by_unat by blast
    then show ?thesis using w(2) d(2) unfolding cl_sec_def l by simp
  qed
  moreover have "cl_sec sec s' cl = b" using w(1) d(2) unfolding cl_sec_def l by simp
  ultimately show ?thesis using d(2) assms(2) by (simp add: geom_def)
qed

lemma blit_all: "length bs = length b \<Longrightarrow> blit 0 bs b = bs"
  by (simp add: blit_def)

lemma rd_sec_spec:
  assumes "honest sec (table (dev s) ! 0)" "g_sec s = Some b" "length b = 512" "rd_sec (data_lba s cl) s = (True, s')"
  shows "geom s' = geom s \<and> g_sec s' = Some (cl_sec sec s cl) \<and> ram s' = ram s \<and> cl_sec sec s' = cl_sec sec s"
proof -
  let ?a = "data_lba s cl + part_lba (dev s)"
  obtain bs d where d: "bd_read (table (dev s) ! 0) ?a 1 (disk (dev s)) = (True, bs, d)"
    "s' = s\<lparr>dev := dev s\<lparr>disk := d\<rparr>, g_sec := Some (blit 0 bs b)\<rparr>"
    using assms(2,4) by (auto simp: rd_sec_def rd_blocks_def bread_def split: if_splits prod.splits option.splits)
  have r: "bs = sec (disk (dev s)) (unat ?a)" "sec d = sec (disk (dev s))" "length bs = 512"
    using assms(1) d(1) unfolding honest_def by blast+
  show ?thesis using r d(2) assms(3) by (auto simp: geom_def cl_sec_def data_lba_def blit_all)
qed

lemma piece_image:
  assumes "off < L" "L \<le> length src" "n = min 512 (L - off)" "length b = 512"
  shows "blit 0 (take n (drop off src)) (blit 0 (replicate 512 0) b) = take 512 (drop off (take L src @ replicate 512 0))"
proof -
  have "blit 0 (replicate 512 0) b = replicate 512 0" using assms(4) by (simp add: blit_all)
  moreover have "length (take n (drop off src)) = n" using assms by simp
  moreover have "take n (drop off src) = take 512 (drop off (take L src))" using assms by (simp add: drop_take)
  ultimately show ?thesis using assms by (simp add: blit_def)
qed

text \<open>The number of sectors that \<open>n\<close> bytes take.\<close>

definition secs :: "nat \<Rightarrow> nat" where
  "secs n = (n + 511) div 512"

lemma secs_0 [simp]: "secs 0 = 0"
  by (simp add: secs_def)

lemma secs_step: "0 < n \<Longrightarrow> secs n = Suc (secs (n - 512))"
  by (cases "n \<le> 512") (auto simp: secs_def)

lemma unat_step:
  assumes "off < ln"
  defines "n \<equiv> (if SEC < ln - off then SEC else ln - off)"
  shows "unat n = min 512 (unat ln - unat off)" "unat (off + n) = unat off + min 512 (unat ln - unat off)"
proof -
  have le: "off \<le> ln" "unat off < unat ln" using assms(1) by (simp_all add: word_less_nat_alt order_less_imp_le)
  have u: "unat (ln - off) = unat ln - unat off" using le(1) by (rule unat_sub)
  show n: "unat n = min 512 (unat ln - unat off)" using u by (simp add: n_def SEC_def word_less_nat_alt)
  have "unat off + unat n \<le> unat ln" using n le(2) by simp
  moreover have "unat ln < 2 ^ 32" by (rule order_less_le_trans [OF unsigned_less]) simp
  ultimately have "unat off + unat n < 2 ^ 32" by linarith
  then show "unat (off + n) = unat off + min 512 (unat ln - unat off)" using n unat_add_lt [of off n] by simp
qed

lemma chain_store_spec:
  assumes "honest sec (table (dev s) ! 0)" "g_sec s = Some b" "length b = 512" "unat ln \<le> length src"
    and "chain_store_loop k cl off src ln s = (True, s')"
    and "cls = take (secs (unat ln - unat off)) (chain k (ent_at s) cl)" "distinct cls"
  shows "length cls = secs (unat ln - unat off) \<and> geom s' = geom s \<and> ram s' = ram s \<and>
    (\<exists>b'. g_sec s' = Some b' \<and> length b' = 512) \<and>
    (\<forall>j < length cls. cl_sec sec s' (cls ! j) = take 512 (drop (unat off + j * 512) (take (unat ln) src @ replicate 512 0))) \<and>
    (\<forall>c. c \<notin> set cls \<longrightarrow> cl_sec sec s' c = cl_sec sec s c)"
  using assms
proof (induction k arbitrary: cl off s b cls)
  case 0
  then show ?case
    by (subst (asm) chain_store_loop.simps) (auto simp: word_less_nat_alt not_less split: if_splits)
next
  case (Suc k)
  show ?case
  proof (cases "off < ln")
    case False
    then show ?thesis using Suc.prems
      by (subst (asm) chain_store_loop.simps) (auto simp: word_less_nat_alt not_less)
  next
    case True
    let ?L = "unat ln" and ?o = "unat off" and ?img = "take (unat ln) src @ replicate 512 0"
    let ?n = "if SEC < ln - off then SEC else ln - off"
    note st = unat_step [OF True]
    have lt: "?o < ?L" using True by (simp add: word_less_nat_alt)
    define b1 where "b1 = blit 0 (take (unat ?n) (drop ?o src)) (blit 0 (replicate 512 0) b)"
    have b1: "b1 = take 512 (drop ?o ?img)" unfolding b1_def
      by (rule piece_image [OF lt Suc.prems(4) st(1) Suc.prems(3)])
    have len: "length b1 = 512" unfolding b1 using lt Suc.prems(4) by simp
    obtain s1 where in1: "in_chain cl" and w: "wr_sec (data_lba s cl) (s\<lparr>g_sec := Some b1\<rparr>) = (True, s1)"
      and rec: "chain_store_loop k (if off + ?n < ln then ent_at s1 cl else cl) (off + ?n) src ln s1 = (True, s')"
      using Suc.prems(2,5) True
      by (subst (asm) chain_store_loop.simps) (auto simp: Let_def b1_def split: if_splits prod.splits)
    let ?s0 = "s\<lparr>g_sec := Some b1\<rparr>"
    have s0: "data_lba ?s0 cl = data_lba s cl" "geom ?s0 = geom s" "ram ?s0 = ram s" "cl_sec sec ?s0 = cl_sec sec s"
      by (auto simp: data_lba_def geom_def cl_sec_def)
    have W: "geom s1 = geom s \<and> g_sec s1 = Some b1 \<and> ram s1 = ram s \<and> cl_sec sec s1 cl = b1 \<and>
        (\<forall>c. c \<noteq> cl \<longrightarrow> cl_sec sec s1 c = cl_sec sec s c)"
      using wr_sec_spec [of sec ?s0 b1 cl s1] Suc.prems(1) w len s0 by simp
    note g1 = geom_same [OF W [THEN conjunct1]]
    define cl1 where "cl1 = (if off + ?n < ln then ent_at s cl else cl)"
    define ds where "ds = take (secs (?L - unat (off + ?n))) (chain k (ent_at s1) cl1)"
    have rest: "?L - unat (off + ?n) = ?L - ?o - 512" using st(2) by simp
    have cls: "cls = cl # ds"
    proof (cases "off + ?n < ln")
      case True
      then show ?thesis using Suc.prems(6) in1 lt g1(1) secs_step [of "?L - ?o"] unfolding ds_def rest cl1_def by simp
    next
      case False
      then have "?L - ?o - 512 = 0" using rest by (simp add: word_less_nat_alt)
      then show ?thesis using Suc.prems(6) in1 lt secs_step [of "?L - ?o"] unfolding ds_def rest by simp
    qed
    have rec1: "chain_store_loop k cl1 (off + ?n) src ln s1 = (True, s')" using rec unfolding g1(1) cl1_def .
    have IH: "length ds = secs (?L - unat (off + ?n)) \<and> geom s' = geom s1 \<and> ram s' = ram s1 \<and>
      (\<exists>b'. g_sec s' = Some b' \<and> length b' = 512) \<and>
      (\<forall>j < length ds. cl_sec sec s' (ds ! j) = take 512 (drop (unat (off + ?n) + j * 512) ?img)) \<and>
      (\<forall>c. c \<notin> set ds \<longrightarrow> cl_sec sec s' c = cl_sec sec s1 c)"
      by (rule Suc.IH [OF _ _ len Suc.prems(4) rec1 ds_def])
         (use W g1(4) Suc.prems(1,7) cls in simp_all)
    have at: "cl_sec sec s' (cls ! j) = take 512 (drop (?o + j * 512) ?img)" if "j < length cls" for j
    proof (cases j)
      case 0
      then show ?thesis using IH W b1 cls Suc.prems(7) by simp
    next
      case (Suc i)
      then have i: "i < length ds" using that cls by simp
      then have "0 < secs (?L - ?o - 512)" using IH rest by simp
      then have "512 < ?L - ?o" by (cases "?L - ?o - 512") auto
      then have e: "unat (off + ?n) + i * 512 = ?o + j * 512" using st(2) Suc by simp
      have "cl_sec sec s' (ds ! i) = take 512 (drop (unat (off + ?n) + i * 512) ?img)" using IH i by blast
      then show ?thesis unfolding e using cls Suc by simp
    qed
    show ?thesis using IH W at cls secs_step [of "?L - ?o"] lt rest by simp
  qed
qed

lemma blit_blit: "off + length a \<le> length p \<Longrightarrow> blit (off + length a) c (blit off a p) = blit off (a @ c) p"
  by (simp add: blit_def ac_simps)

lemma chain_load_spec:
  assumes "honest sec (table (dev s) ! 0)" "g_sec s = Some b" "length b = 512"
    and "chain_load_loop k dst off cl left s = (True, s')" "off + unat left \<le> length (ram s dst)"
    and "cls = take (secs (unat left)) (chain k (ent_at s) cl)"
  shows "length cls = secs (unat left) \<and> geom s' = geom s \<and> cl_sec sec s' = cl_sec sec s \<and>
    ram s' dst = blit off (take (unat left) (concat (map (cl_sec sec s) cls))) (ram s dst) \<and> (\<forall>p. p \<noteq> dst \<longrightarrow> ram s' p = ram s p)"
  using assms
proof (induction k arbitrary: cl off left s b cls)
  case 0
  then show ?case
    by (subst (asm) chain_load_loop.simps) (auto simp: blit_def split: if_splits)
next
  case (Suc k)
  show ?case
  proof (cases "left = 0")
    case True
    then show ?thesis using Suc.prems by (subst (asm) chain_load_loop.simps) (auto simp: blit_def)
  next
    case False
    let ?l = "unat left" and ?n = "if left < SEC then left else SEC"
    have pos: "0 < ?l" using False by (simp add: unat_gt_0)
    have n: "unat ?n = min 512 ?l" by (simp add: SEC_def word_less_nat_alt)
    have rest: "unat (left - ?n) = ?l - 512"
    proof -
      have "?n \<le> left" by (auto simp: not_less)
      then have "unat (left - ?n) = ?l - unat ?n" by (rule unat_sub)
      then show ?thesis unfolding n by simp
    qed
    obtain s1 where in1: "in_chain cl" and r: "rd_sec (data_lba s cl) s = (True, s1)"
      and rec: "chain_load_loop k dst (off + unat ?n) (ent_at (poke_page dst off (take (unat ?n) (the (g_sec s1))) s1) cl) (left - ?n)
          (poke_page dst off (take (unat ?n) (the (g_sec s1))) s1) = (True, s')"
      using Suc.prems(4) False by (subst (asm) chain_load_loop.simps) (auto simp: Let_def split: if_splits prod.splits)
    have R: "geom s1 = geom s" "g_sec s1 = Some (cl_sec sec s cl)" "ram s1 = ram s" "cl_sec sec s1 = cl_sec sec s"
      using rd_sec_spec [OF Suc.prems(1-3) r] by auto
    have L: "length (cl_sec sec s cl) = 512" using Suc.prems(1) by (simp add: honest_def cl_sec_def)
    define x where "x = take (unat ?n) (cl_sec sec s cl)"
    define s2 where "s2 = poke_page dst off x s1"
    have lx: "length x = min 512 ?l" unfolding x_def using L n by simp
    have s2: "geom s2 = geom s" "g_sec s2 = Some (cl_sec sec s cl)" "cl_sec sec s2 = cl_sec sec s"
      "ram s2 = (ram s)(dst := blit off x (ram s dst))"
    proof -
      show "geom s2 = geom s" "g_sec s2 = Some (cl_sec sec s cl)" "ram s2 = (ram s)(dst := blit off x (ram s dst))"
        using R(1-3) by (simp_all add: s2_def poke_page_def geom_def)
      have "cl_sec sec s2 = cl_sec sec s1" by (rule ext) (simp add: cl_sec_def s2_def poke_page_def data_lba_def)
      then show "cl_sec sec s2 = cl_sec sec s" using R(4) by simp
    qed
    note g2 = geom_same [OF s2(1)]
    have x: "take (unat ?n) (the (g_sec s1)) = x" "unat ?n = length x" using R(2) lx n by (simp_all only: option.sel x_def)
    have rec1: "chain_load_loop k dst (off + length x) (ent_at s cl) (left - ?n) s2 = (True, s')"
      using rec unfolding x(1) unfolding s2_def [symmetric] g2(1) unfolding x(2) .
    define ds where "ds = take (secs (unat (left - ?n))) (chain k (ent_at s2) (ent_at s cl))"
    have cls: "cls = cl # ds" using Suc.prems(6) in1 secs_step [OF pos] rest g2(1) by (simp add: ds_def)
    have fits: "off + length x + unat (left - ?n) \<le> length (ram s2 dst)"
      using Suc.prems(5) rest lx by (simp add: s2(4) blit_def)
    have IH: "length ds = secs (unat (left - ?n)) \<and> geom s' = geom s2 \<and> cl_sec sec s' = cl_sec sec s2 \<and>
      ram s' dst = blit (off + length x) (take (unat (left - ?n)) (concat (map (cl_sec sec s2) ds))) (ram s2 dst) \<and>
      (\<forall>p. p \<noteq> dst \<longrightarrow> ram s' p = ram s2 p)"
      by (rule Suc.IH [OF _ s2(2) L rec1 fits ds_def]) (use Suc.prems(1) g2(4) in simp)
    have cat: "take ?l (concat (map (cl_sec sec s) cls)) = x @ take (?l - 512) (concat (map (cl_sec sec s) ds))"
      unfolding cls x_def n using L by (cases "?l \<le> 512") (simp_all add: min_def)
    have "ram s' dst = blit off (x @ take (?l - 512) (concat (map (cl_sec sec s) ds))) (ram s dst)"
      using IH blit_blit [of off x "ram s dst"] Suc.prems(5) lx unfolding rest s2(3,4) by simp
    then show ?thesis using IH s2 cls cat secs_step [OF pos] rest by simp
  qed
qed

lemma secs_fit: "n \<le> secs n * 512" "secs n * 512 \<le> n + 511"
  by (simp_all add: secs_def)

text \<open>The sectors of a stored file, put together.\<close>

lemma image_concat:
  assumes "n \<le> length src" "length cls = secs n"
    and "\<forall>j < length cls. f (cls ! j) = take 512 (drop (j * 512) (take n src @ replicate 512 0))"
  shows "take n (concat (map f cls)) = take n src"
proof -
  let ?img = "take (secs n * 512) (take n src @ replicate 512 0)"
  have len: "length ?img = 512 * secs n" using assms(1) secs_fit [of n] by simp
  have "map f cls = map (\<lambda>j. take 512 (drop (j * 512) ?img)) [0..<secs n]"
  proof (rule nth_equalityI)
    fix j assume "j < length (map f cls)"
    then have j: "j < secs n" using assms(2) by simp
    then have "j * 512 + 512 \<le> secs n * 512" by (metis Suc_leI add.commute mult_Suc mult_le_mono1)
    then have "take 512 (drop (j * 512) ?img) = take 512 (drop (j * 512) (take n src @ replicate 512 0))"
      by (simp only: drop_take take_take min_absorb1)
    then show "map f cls ! j = map (\<lambda>j. take 512 (drop (j * 512) ?img)) [0..<secs n] ! j" using assms(2,3) j by simp
  qed (simp add: assms(2))
  then have "concat (map f cls) = ?img" using concat_sectors [OF len] by simp
  then show ?thesis using assms(1) secs_fit(1) [of n] by (simp add: min_absorb1)
qed

text \<open>
  C17. File contents survive the disk. Over a driver that keeps its contract for single sectors: when
  \<open>store_chain\<close> has stored \<open>ln\<close> bytes along a chain of distinct clusters, no other cluster has
  changed, and whenever those sectors and the table are still the same, \<open>load_file\<close> brings
  exactly these bytes into the file's page and touches no other page.
\<close>

theorem file_contents_roundtrip:
  fixes s :: "'d fs" and start ln :: u32
  defines "cls \<equiv> take (secs (unat ln)) (chain CHAIN_MAX (ent_at s) start)"
  assumes dev: "honest sec (table (dev s) ! 0)"
    and buf: "g_sec s = Some b" "length b = 512" "unat ln \<le> length src"
    and dis: "distinct cls"
    and st: "store_chain start src ln s = (True, s1)"
    and later: "geom s2 = geom s1" "\<forall>c \<in> set cls. cl_sec sec s2 c = cl_sec sec s1 c"
      "g_sec s2 = Some b2" "length b2 = 512" "unat ln \<le> length (ram s2 dst)"
    and ld: "load_file dst start ln s2 = (True, s3)"
  shows "take (unat ln) (ram s3 dst) = take (unat ln) src \<and> (\<forall>p. p \<noteq> dst \<longrightarrow> ram s3 p = ram s2 p) \<and>
    (\<forall>c. c \<notin> set cls \<longrightarrow> cl_sec sec s1 c = cl_sec sec s c)"
proof -
  have z: "cls = take (secs (unat ln - unat (0 :: u32))) (chain CHAIN_MAX (ent_at s) start)" by (simp add: cls_def)
  have S: "length cls = secs (unat ln) \<and> geom s1 = geom s \<and> ram s1 = ram s \<and>
    (\<exists>b'. g_sec s1 = Some b' \<and> length b' = 512) \<and>
    (\<forall>j < length cls. cl_sec sec s1 (cls ! j) = take 512 (drop (j * 512) (take (unat ln) src @ replicate 512 0))) \<and>
    (\<forall>c. c \<notin> set cls \<longrightarrow> cl_sec sec s1 c = cl_sec sec s c)"
    using chain_store_spec [OF dev buf st [unfolded store_chain_def] z dis, unfolded unsigned_0 diff_zero add_0] .
  then have g: "geom s2 = geom s" using later(1) by simp
  note g2 = geom_same [OF g]
  have L: "length cls = secs (unat ln) \<and> geom s3 = geom s2 \<and> cl_sec sec s3 = cl_sec sec s2 \<and>
    ram s3 dst = blit 0 (take (unat ln) (concat (map (cl_sec sec s2) cls))) (ram s2 dst) \<and> (\<forall>p. p \<noteq> dst \<longrightarrow> ram s3 p = ram s2 p)"
    by (rule chain_load_spec [OF _ later(3,4) ld [unfolded load_file_def]]) (use dev g2 later(5) in \<open>simp_all add: cls_def\<close>)
  have "take (unat ln) (concat (map (cl_sec sec s2) cls)) = take (unat ln) src"
    by (rule image_concat [OF buf(3)]) (use S later(2) in auto)
  then have "ram s3 dst = blit 0 (take (unat ln) src) (ram s2 dst)" using L by simp
  then have "take (unat ln) (ram s3 dst) = take (unat ln) src" using buf(3) by (simp add: blit_def)
  then show ?thesis using L S by blast
qed

text \<open>A device of 16 sectors, and a file system on it with one file in the clusters 2 and 5.\<close>

definition pad_sec :: "(nat \<Rightarrow> u8 list) \<Rightarrow> nat \<Rightarrow> u8 list" where
  "pad_sec d i = take 512 (d i @ replicate 512 0)"

definition pad_read :: "u32 \<Rightarrow> u32 \<Rightarrow> (nat \<Rightarrow> u8 list) \<Rightarrow> bool \<times> u8 list \<times> (nat \<Rightarrow> u8 list)" where
  "pad_read a n d = (True, concat (map (pad_sec d) [unat a..<unat a + unat n]), d)"

definition disk_demo :: "(nat \<Rightarrow> u8 list) fs" where
  "disk_demo = \<lparr>files = [], g_fat = Some fat_demo, g_sec = Some (replicate 512 0), g_first_data = 3, g_first_root = 2, g_rsvd = 1,
     g_fatsz = 1, g_root_ent = 16, g_clusters = 10, g_cwd = 0, g_saved_cwd = 0, g_path = ''/'', g_dir = Some (replicate 4096 0),
     g_dir_bytes = 512, g_view = 0, ram = (\<lambda>p. replicate 4096 0), mem = pmm_tiny, hhdm = False,
     dev = \<lparr>table = [\<lparr>bd_name = ''mem'', bd_read = pad_read, bd_write = mem_write, bd_flush = None, bd_sectors = 16\<rparr>],
            part_lba = 0, disk = (\<lambda>i. replicate 512 0)\<rparr>\<rparr>"

lemma honest_demo: "honest pad_sec (table (dev disk_demo) ! 0)"
proof -
  have "[unat a..<unat a + 1] = [unat a]" for a :: u32 by simp
  then show ?thesis unfolding honest_def
    by (auto simp: disk_demo_def pad_read_def mem_write_def pad_sec_def fun_eq_iff)
qed

lemma chain_demo: "chain CHAIN_MAX (ent_at disk_demo) 2 = [2, 5]"
proof -
  have "ent_at disk_demo = fat12_ent 1 fat_demo" by (simp add: ent_at_def [abs_def] fat_of_def disk_demo_def)
  moreover have "chain CHAIN_MAX (fat12_ent 1 fat_demo) 2 = [2, 5]" by code_simp
  ultimately show ?thesis by simp
qed

theorem file_contents_roundtrip_witness:
  "\<exists>s1 s3. store_chain 2 [1, 2, 3] 3 disk_demo = (True, s1) \<and> load_file 0x2000 2 3 s1 = (True, s3) \<and>
     take 3 (ram s3 0x2000) = [1, 2, 3]"
proof -
  have C: "CHAIN_MAX = Suc 7" by (simp add: CHAIN_MAX_def)
  obtain s1 where st: "store_chain 2 [1, 2, 3] 3 disk_demo = (True, s1)"
    and s1: "table (dev s1) = table (dev disk_demo)" "part_lba (dev s1) = 0" "g_fat s1 = Some fat_demo" "g_first_data s1 = 3"
      "ram s1 = ram disk_demo" and b: "\<exists>b2. g_sec s1 = Some b2 \<and> length b2 = 512"
    unfolding store_chain_def C
    by (simp add: chain_store_loop.simps disk_demo_def in_chain_def FAT12_EOF_def SEC_def wr_sec_def wr_blocks_def bwrite_def
        past_end_def mem_write_def data_lba_def blit_def Let_def)
  obtain s3 where ld: "load_file 0x2000 2 3 s1 = (True, s3)"
    unfolding load_file_def C
    using s1 b by (auto simp add: chain_load_loop.simps in_chain_def FAT12_EOF_def SEC_def rd_sec_def rd_blocks_def bread_def disk_demo_def
        past_end_def pad_read_def data_lba_def Let_def)
  have "secs 3 = 1" by (simp add: secs_def)
  obtain b2 where b2: "g_sec s1 = Some b2" "length b2 = 512" using b by blast
  have b1: "g_sec disk_demo = Some (replicate 512 0)" "length (replicate 512 (0 :: u8)) = 512" by (simp_all add: disk_demo_def)
  have "take (unat (3 :: u32)) (ram s3 0x2000) = take (unat (3 :: u32)) [1, 2, 3]"
    by (rule file_contents_roundtrip [OF honest_demo b1 _ _ st _ _ b2 _ ld, THEN conjunct1])
       (use s1(5) \<open>secs 3 = 1\<close> chain_demo in \<open>simp_all add: disk_demo_def\<close>)
  then show ?thesis using st ld by auto
qed

end
