(* ===== verification/Malloc.thy ===== *)
theory Malloc
  imports Blocks
begin

text \<open>
  The allocator of user programs, \<open>user/malloc.c\<close>: the block heap of \<open>Blocks\<close> on memory that grows
  with the system call \<open>brk\<close>. The system call is a parameter \<open>brk\<close> over the kernel's state \<open>'k\<close>;
  it returns the new break, or all ones when it is refused. \<open>None\<close> is a walk or a loop
  that never ends.
\<close>

definition HEAP_MAGIC :: u32 where "HEAP_MAGIC = 0x4D414C43"
definition HEAP_GROW :: u64 where "HEAP_GROW = 0x1000"

definition brk_fail :: "u64 \<Rightarrow> bool" where
  "brk_fail p \<longleftrightarrow> p = - 1"

partial_function (option) last_block :: "heap \<Rightarrow> u64 \<Rightarrow> u64 option" where
  "last_block h b = (let n = next_block h b in if n \<noteq> 0 then last_block h n else Some b)"

definition put_hdr :: "u64 \<Rightarrow> block \<Rightarrow> heap \<Rightarrow> heap" where
  "put_hdr a b h = h\<lparr>hdr := (hdr h)(a := b)\<rparr>"

definition grow_size :: "u64 \<Rightarrow> u64" where
  "grow_size need = align_up (if need < HEAP_GROW then HEAP_GROW else need) HEAP_GROW"

text \<open>The part of \<open>grow\<close> after the heap has a base.\<close>

definition grow_more :: "(u64 \<Rightarrow> 'k \<Rightarrow> u64 \<times> 'k) \<Rightarrow> u64 \<Rightarrow> heap \<times> 'k \<Rightarrow> (bool \<times> heap \<times> 'k) option" where
  "grow_more brk extra0 = (\<lambda>(h, k).
     let want = heap_end h + extra0 in
     case brk want k of (got, k1) \<Rightarrow>
       if brk_fail got \<or> got < want then Some (False, h, k1)
       else let extra = got - heap_end h in
         if heap_end h = heap_base h
         then Some (True, (put_hdr (heap_base h) \<lparr>b_magic = HEAP_MAGIC, b_free = 1, b_size = extra - HDR\<rparr> h)\<lparr>heap_end := got\<rparr>, k1)
         else case last_block h (heap_base h) of None \<Rightarrow> None
           | Some b \<Rightarrow>
               let h1 = (if b_free (hdr h b) \<noteq> 0
                         then put_hdr b ((hdr h b)\<lparr>b_size := b_size (hdr h b) + extra\<rparr>) h
                         else put_hdr (heap_end h) \<lparr>b_magic = HEAP_MAGIC, b_free = 1, b_size = extra - HDR\<rparr> h)
               in Some (True, h1\<lparr>heap_end := got\<rparr>, k1))"

definition grow :: "(u64 \<Rightarrow> 'k \<Rightarrow> u64 \<times> 'k) \<Rightarrow> u64 \<Rightarrow> heap \<times> 'k \<Rightarrow> (bool \<times> heap \<times> 'k) option" where
  "grow brk need = (\<lambda>(h, k).
     if heap_base h = 0
     then (case brk 0 k of (cur, k1) \<Rightarrow>
       if cur = 0 \<or> brk_fail cur then Some (False, h, k1)
       else grow_more brk (grow_size need) (h\<lparr>heap_base := cur, heap_end := cur\<rparr>, k1))
     else grow_more brk (grow_size need) (h, k))"

partial_function (option) malloc_loop :: "(u64 \<Rightarrow> 'k \<Rightarrow> u64 \<times> 'k) \<Rightarrow> u64 \<Rightarrow> heap \<Rightarrow> 'k \<Rightarrow> (u64 \<times> heap \<times> 'k) option" where
  "malloc_loop brk need h k =
     (case find_fit HEAP_MAGIC h need (heap_base h) of
        None \<Rightarrow> None
      | Some Corrupt \<Rightarrow> Some (0, h, k)
      | Some (Fit b) \<Rightarrow> Some (b + HDR, take_block HEAP_MAGIC h b need, k)
      | Some NoFit \<Rightarrow>
          (case grow brk (HDR + need) (h, k) of None \<Rightarrow> None
           | Some (ok, h1, k1) \<Rightarrow> if \<not> ok then Some (0, h1, k1) else malloc_loop brk need h1 k1))"

definition malloc :: "(u64 \<Rightarrow> 'k \<Rightarrow> u64 \<times> 'k) \<Rightarrow> u64 \<Rightarrow> heap \<times> 'k \<Rightarrow> (u64 \<times> heap \<times> 'k) option" where
  "malloc brk sz = (\<lambda>(h, k).
     if sz = 0 then Some (0, h, k)
     else let need = align_up sz HEAP_ALIGN in
       if heap_base h = 0
       then (case grow brk (HDR + need) (h, k) of None \<Rightarrow> None
             | Some (ok, h1, k1) \<Rightarrow> if \<not> ok then Some (0, h1, k1) else malloc_loop brk need h1 k1)
       else malloc_loop brk need h k)"

definition free :: "u64 \<Rightarrow> heap \<Rightarrow> heap" where
  "free p h = block_release HEAP_MAGIC p h"

section \<open>Growing\<close>

text \<open>
  The contract of \<open>brk\<close> in the states of the kernel that satisfy \<open>I\<close>, which it keeps: asked for 0 it tells the
  break, which is aligned; asked for an aligned address it refuses or moves the break to exactly that address,
  which is below the limit. \<open>Malloc_Brk\<close> proves it of the kernel's \<open>user_brk\<close>.
\<close>

definition brk_law :: "nat \<Rightarrow> ('k \<Rightarrow> bool) \<Rightarrow> (u64 \<Rightarrow> 'k \<Rightarrow> u64 \<times> 'k) \<Rightarrow> bool" where
  "brk_law lim I brk \<longleftrightarrow> lim < 2 ^ 62 \<and>
     (\<forall>k. I k \<longrightarrow> (case brk 0 k of (c, k') \<Rightarrow> I k' \<and> (brk_fail c \<or> c \<noteq> 0 \<and> 16 dvd unat c \<and> unat c \<le> lim))) \<and>
     (\<forall>w k. I k \<longrightarrow> w \<noteq> 0 \<longrightarrow> 16 dvd unat w \<longrightarrow> (case brk w k of (c, k') \<Rightarrow> I k' \<and> (brk_fail c \<or> c = w \<and> unat w \<le> lim)))"

lemma brk_lawD:
  assumes "brk_law lim I brk" "I k"
  shows "lim < 2 ^ 62" "brk 0 k = (c, k') \<Longrightarrow> I k'" "brk 0 k = (c, k') \<Longrightarrow> \<not> brk_fail c \<Longrightarrow> c \<noteq> 0 \<and> 16 dvd unat c \<and> unat c \<le> lim"
    "brk w k = (c, k') \<Longrightarrow> w \<noteq> 0 \<Longrightarrow> 16 dvd unat w \<Longrightarrow> I k'"
    "brk w k = (c, k') \<Longrightarrow> w \<noteq> 0 \<Longrightarrow> 16 dvd unat w \<Longrightarrow> \<not> brk_fail c \<Longrightarrow> c = w \<and> unat w \<le> lim"
  using assms unfolding brk_law_def by fastforce+

text \<open>The kernel refuses the memory that \<open>grow\<close> asks for.\<close>

definition grow_refused :: "(u64 \<Rightarrow> 'k \<Rightarrow> u64 \<times> 'k) \<Rightarrow> u64 \<Rightarrow> heap \<Rightarrow> 'k \<Rightarrow> bool" where
  "grow_refused brk need h k \<longleftrightarrow>
     (if heap_base h = 0 then case brk 0 k of (cur, k1) \<Rightarrow> brk_fail cur \<or> brk_fail (fst (brk (cur + grow_size need) k1))
      else brk_fail (fst (brk (heap_end h + grow_size need) k)))"

definition user_ok :: "nat \<Rightarrow> heap \<Rightarrow> blk list \<Rightarrow> bool" where
  "user_ok lim h xs \<longleftrightarrow> heap_ok HEAP_MAGIC h xs \<and> unat (heap_end h) \<le> lim"

lemma grow_size_nat:
  assumes "unat need \<le> 2 ^ 62 + 32"
  shows "unat need \<le> unat (grow_size need)" "4096 \<le> unat (grow_size need)" "unat (grow_size need) \<le> 2 ^ 62 + 8192"
    "16 dvd unat (grow_size need)"
proof -
  let ?m = "if need < HEAP_GROW then HEAP_GROW else need"
  have m: "unat ?m = max (unat need) 4096" by (auto simp: HEAP_GROW_def word_less_nat_alt)
  have "unat (grow_size need) = (max (unat need) 4096 + 4095) div 4096 * 4096"
    using align_up_pow2 [of ?m 12] m assms by (simp add: grow_size_def HEAP_GROW_def)
  then have g: "unat (grow_size need) = (max (unat need) 4096 + 4095) div 4096 * 4096" .
  have "max (unat need) 4096 + 4095 = (max (unat need) 4096 + 4095) div 4096 * 4096 + (max (unat need) 4096 + 4095) mod 4096"
    by simp
  moreover have "(max (unat need) 4096 + 4095) mod 4096 \<le> 4095" by (simp add: less_Suc_eq_le [symmetric])
  ultimately have lo: "max (unat need) 4096 \<le> unat (grow_size need)" "unat (grow_size need) \<le> max (unat need) 4096 + 4095"
    unfolding g by linarith+
  show "unat need \<le> unat (grow_size need)" "4096 \<le> unat (grow_size need)" using lo(1) by simp_all
  show "unat (grow_size need) \<le> 2 ^ 62 + 8192" using lo(2) assms by simp
  show "16 dvd unat (grow_size need)" unfolding g by (rule dvd_mult) simp
qed

lemma last_block_tiled:
  assumes "tiled m (hdr h) e a xs" "e = unat (heap_end h)" "e + 16 < 2 ^ 64" "0 < a" "xs \<noteq> []"
  shows "last_block h (of_nat a) = Some (of_nat (fst (last xs)))"
  using assms
proof (induction xs arbitrary: a)
  case (Cons x xs)
  obtain p f z where x: "x = (p, f, z)" by (cases x)
  have nb: "next_block h (of_nat a) = (if xs = [] then 0 else of_nat (a + 16 + z))"
    by (rule next_block_tiled) (use Cons.prems x in auto)
  have t: "tiled m (hdr h) e (a + 16 + z) xs" and a: "p = a" "a + 16 + z \<le> e" using Cons.prems x by auto
  show ?case
  proof (cases "xs = []")
    case True
    then show ?thesis using nb x a by (subst last_block.simps) simp
  next
    case False
    have "of_nat (a + 16 + z) \<noteq> (0 :: u64)"
      using of_nat_u64_inj [of "a + 16 + z" 0] a Cons.prems(3) by simp
    then show ?thesis using nb False Cons.IH [OF t Cons.prems(2,3)] by (subst last_block.simps) (simp add: Let_def)
  qed
qed simp

text \<open>The abstract heap after it has grown by \<open>x\<close> bytes at its end \<open>e\<close>.\<close>

definition grown :: "blk list \<Rightarrow> nat \<Rightarrow> nat \<Rightarrow> blk list" where
  "grown xs e x = (case last xs of (p, f, z) \<Rightarrow>
     if f then butlast xs @ [(p, True, z + x)] else xs @ [(e, True, x - 16)])"

lemma grown_tiled:
  assumes t: "tiled m H e a (ys @ [(p, f, z)])" and x: "16 dvd x" "16 < x" and e: "e + x < 2 ^ 64"
  shows "tiled m (if f then H(of_nat p := header m True (z + x)) else H(of_nat e := header m True (x - 16))) (e + x) a
    (grown (ys @ [(p, f, z)]) e x)"
proof -
  note s = tiled_split3 [OF t]
  have ep: "e = p + 16 + z" "tiled m H p a ys" "16 dvd z" "0 < z" using s by auto
  show ?thesis
  proof (cases f)
    case True
    have "tiled m (H(of_nat p := header m True (z + x))) p a ys" using tiled_upd [OF ep(2)] ep(1) e by simp
    moreover have "tiled m (H(of_nat p := header m True (z + x))) (e + x) p [(p, True, z + x)]" using ep x by simp
    ultimately show ?thesis using True ep by (auto simp: grown_def tiled_append)
  next
    case False
    let ?H = "H(of_nat e := header m True (x - 16))"
    have "tiled m ?H e a (ys @ [(p, f, z)])" using tiled_upd [OF t] e by simp
    moreover have "16 dvd x - 16" using x by (simp add: dvd_diff_nat)
    then have "tiled m ?H (e + x) e [(e, True, x - 16)]" using x by simp
    moreover have "e \<le> e + x" by simp
    ultimately have "tiled m ?H (e + x) a ((ys @ [(p, f, z)]) @ [(e, True, x - 16)])"
      using tiled_append [of m ?H "e + x" a "ys @ [(p, f, z)]" "[(e, True, x - 16)]"] by blast
    then show ?thesis using False by (simp add: grown_def)
  qed
qed

lemma tiled_end_aligned: "tiled m H e a xs \<Longrightarrow> 16 dvd a \<Longrightarrow> 16 dvd e"
  by (induction xs arbitrary: a) auto

lemma grow_spec:
  assumes ok: "user_ok lim h xs" and law: "brk_law lim I brk" and I: "I k" and n: "unat need \<le> 2 ^ 62 + 32"
  shows "\<exists>k'. I k' \<and> (grow brk need (h, k) = Some (False, h, k') \<and> grow_refused brk need h k \<or>
    (\<exists>h'. grow brk need (h, k) = Some (True, h', k') \<and> user_ok lim h' (grown xs (unat (heap_end h)) (unat (grow_size need)))))"
proof -
  let ?e = "unat (heap_end h)" and ?x = "unat (grow_size need)" and ?want = "heap_end h + grow_size need"
  note g = grow_size_nat [OF n]
  have hk: "heap_base h \<noteq> 0" "16 dvd unat (heap_base h)" "xs \<noteq> []" "?e \<le> lim"
    and t: "tiled HEAP_MAGIC (hdr h) ?e (unat (heap_base h)) xs" using ok by (auto simp: user_ok_def heap_ok_def)
  have lim: "lim < 2 ^ 62" using brk_lawD(1) [OF law I] .
  have want: "unat ?want = ?e + ?x" using unat_add_lt [of "heap_end h" "grow_size need"] g(3) hk(4) lim by simp
  then have wnz: "?want \<noteq> 0" using g(2) by auto
  have al: "16 dvd unat ?want" unfolding want using g(4) ok by (auto simp: user_ok_def heap_ok_def dest: tiled_end_aligned)
  obtain ys p f z where xs: "xs = ys @ [(p, f, z)]" using hk(3) by (metis prod_cases3 rev_exhaust)
  note s3 = tiled_split3 [OF t [unfolded xs]]
  have pz: "?e = p + 16 + z" "hdr h (of_nat p) = header HEAP_MAGIC f z" using s3 by auto
  have "unat (heap_base h) \<le> p" using tiled_le [of HEAP_MAGIC "hdr h" p "unat (heap_base h)" ys] s3 by blast
  then have ne: "heap_end h \<noteq> heap_base h" using pz by auto
  have b0: "of_nat (unat (heap_base h)) = heap_base h" "0 < unat (heap_base h)" using hk(1) by (simp_all add: unat_gt_0)
  have lb: "last_block h (heap_base h) = Some (of_nat p)"
    using last_block_tiled [OF t refl _ b0(2) hk(3)] hk(4) lim xs b0(1) by simp
  obtain got k' where brk: "brk ?want k = (got, k')" by (cases "brk ?want k")
  have I': "I k'" by (rule brk_lawD(4) [OF law I brk wnz al])
  show ?thesis
  proof (cases "brk_fail got")
    case True
    then show ?thesis using brk hk(1) I' by (auto simp: grow_def grow_more_def Let_def grow_refused_def)
  next
    case False
    have got: "got = ?want" "unat ?want \<le> lim" using brk_lawD(5) [OF law I brk wnz al False] by simp_all
    let ?h = "(if f then put_hdr (of_nat p) (header HEAP_MAGIC True (z + ?x)) h
               else put_hdr (heap_end h) (header HEAP_MAGIC True (?x - 16)) h)\<lparr>heap_end := ?want\<rparr>"
    have words: "of_nat z + grow_size need = of_nat (z + ?x)" "grow_size need - 16 = of_nat (?x - 16)"
      using g(2) by (simp_all add: of_nat_diff)
    have gr: "grow brk need (h, k) = Some (True, ?h, k')"
      using hk(1) brk False got ne lb pz(2) words by (simp add: grow_def grow_more_def Let_def header_def)
    have eend: "of_nat ?e = heap_end h" by simp
    have "tiled HEAP_MAGIC (hdr ?h) (unat (heap_end ?h)) (unat (heap_base ?h)) (grown xs ?e ?x)"
      using grown_tiled [OF t [unfolded xs], of ?x] g want got(2) lim xs eend
      by (simp add: put_hdr_def split: if_splits)
    moreover have "grown xs ?e ?x \<noteq> []" by (auto simp: grown_def split: prod.splits)
    moreover have "heap_base ?h = heap_base h" "heap_end ?h = ?want" by (simp_all add: put_hdr_def)
    ultimately have "user_ok lim ?h (grown xs ?e ?x)"
      using hk got(2) lim by (simp add: user_ok_def heap_ok_def)
    then show ?thesis using gr I' by blast
  qed
qed

section \<open>Allocation\<close>

definition refines_live :: "nat \<Rightarrow> u64 \<Rightarrow> heap \<Rightarrow> blk list \<Rightarrow> (nat \<times> nat) set \<Rightarrow> bool" where
  "refines_live n p h xs L \<longleftrightarrow> p \<noteq> 0 \<and> (\<exists>z. n \<le> z \<and> unat p \<notin> fst ` L \<and> live_blocks xs = insert (unat p, z) L)"

lemma take_first_fit:
  assumes ok: "user_ok lim h xs" and need: "16 dvd unat need" "0 < unat need"
    and f: "List.find (fits (unat need)) xs = Some x"
  shows "\<exists>b xs'. find_fit HEAP_MAGIC h need (heap_base h) = Some (Fit b) \<and>
    user_ok lim (take_block HEAP_MAGIC h b need) xs' \<and> refines_live (unat need) (b + HDR) (take_block HEAP_MAGIC h b need) xs' (live_blocks xs)"
proof -
  obtain p fr z where x: "x = (p, fr, z)" by (cases x)
  obtain pre post where d: "xs = pre @ x # post" "fits (unat need) x" using find_first [OF f] by blast
  then have xs: "xs = pre @ (p, True, z) # post" and z: "unat need \<le> z" using x by auto
  have hk: "heap_ok HEAP_MAGIC h xs" using ok by (simp add: user_ok_def)
  let ?h = "take_block HEAP_MAGIC h (of_nat p) need"
  have ok': "heap_ok HEAP_MAGIC ?h (pre @ taken p z (unat need) @ post)"
    using take_block_ok [of HEAP_MAGIC h pre p z post need] hk xs need z by simp
  have e: "heap_end ?h = heap_end h" by (simp add: take_block_def Let_def)
  have ff: "find_fit HEAP_MAGIC h need (heap_base h) = Some (Fit (of_nat p))"
    using find_fit_ok [OF hk, of need] f x by (simp add: fit_of_def)
  have "tiled HEAP_MAGIC (hdr h) (unat (heap_end h)) (unat (heap_base h)) xs" "unat (heap_end h) + 16 < 2 ^ 64"
    using hk by (simp_all add: heap_ok_def)
  from tiled_bounds [OF this(1), of p True z] this(2) xs have "p + 16 < 2 ^ 64" by simp
  then have u: "unat (of_nat p + 16 :: u64) = p + 16" using unat_of_nat_u64 [of "p + 16"] by simp
  then have nz: "(of_nat p + 16 :: u64) \<noteq> 0" by (metis add_eq_0_iff_both_eq_0 unat_0 zero_neq_numeral)
  have "refines_live (unat need) (of_nat p + 16) ?h (pre @ taken p z (unat need) @ post) (live_blocks xs)"
    unfolding refines_live_def u
  proof (intro conjI exI)
    show "unat need \<le> (if unat need + 32 \<le> z then unat need else z)" using z by simp
    show "p + 16 \<notin> fst ` live_blocks xs" using heap_ok_fresh hk xs by blast
    show "live_blocks (pre @ taken p z (unat need) @ post) =
        insert (p + 16, if unat need + 32 \<le> z then unat need else z) (live_blocks xs)"
      using live_taken [of pre p z "unat need" post] xs by simp
  qed (rule nz)
  then show ?thesis using ff ok' ok e by (auto simp: user_ok_def)
qed

lemma find_grown:
  assumes "List.find (fits n) xs = None" "n + 16 \<le> x"
  shows "\<exists>y. List.find (fits n) (grown xs e x) = Some y"
proof -
  obtain p f z where "last xs = (p, f, z)" by (cases "last xs")
  then have "\<exists>y \<in> set (grown xs e x). fits n y" using assms(2) by (auto simp: grown_def)
  then show ?thesis by (metis find_None_iff not_Some_eq)
qed

lemma live_grown: "xs \<noteq> [] \<Longrightarrow> live_blocks (grown xs e x) = live_blocks xs"
proof (cases xs rule: rev_cases)
  case (snoc ys y)
  obtain p f z where "y = (p, f, z)" by (cases y)
  then show ?thesis using snoc by (cases f) (auto simp: live_blocks_def grown_def)
qed simp

lemma malloc_loop_spec:
  assumes ok: "user_ok lim h xs" and law: "brk_law lim I brk" and I: "I k"
    and need: "16 dvd unat need" "0 < unat need" "unat need \<le> 2 ^ 62 + 16"
  shows "\<exists>p h' k' xs'. malloc_loop brk need h k = Some (p, h', k') \<and> I k' \<and> user_ok lim h' xs' \<and>
    (p = 0 \<and> h' = h \<and> xs' = xs \<and> List.find (fits (unat need)) xs = None \<and> grow_refused brk (HDR + need) h k \<or>
     refines_live (unat need) p h' xs' (live_blocks xs))"
proof (cases "List.find (fits (unat need)) xs")
  case (Some x)
  then show ?thesis using take_first_fit [OF ok need(1,2) Some] I by (subst malloc_loop.simps) auto
next
  case None
  have hk: "heap_ok HEAP_MAGIC h xs" "xs \<noteq> []" using ok by (simp_all add: user_ok_def heap_ok_def)
  have ff: "find_fit HEAP_MAGIC h need (heap_base h) = Some NoFit"
    using find_fit_ok [OF hk(1), of need] None by (simp add: fit_of_def)
  have n: "unat (HDR + need) = 16 + unat need" using unat_add_lt [of HDR need] need(3) by simp
  then have b: "unat (HDR + need) \<le> 2 ^ 62 + 32" using need(3) by simp
  obtain k' where I': "I k'" and g: "grow brk (HDR + need) (h, k) = Some (False, h, k') \<and> grow_refused brk (HDR + need) h k \<or>
      (\<exists>h'. grow brk (HDR + need) (h, k) = Some (True, h', k') \<and>
        user_ok lim h' (grown xs (unat (heap_end h)) (unat (grow_size (HDR + need)))))"
    using grow_spec [OF ok law I b] by blast
  from g show ?thesis
  proof
    assume "grow brk (HDR + need) (h, k) = Some (False, h, k') \<and> grow_refused brk (HDR + need) h k"
    then show ?thesis using ff ok I' None by (subst malloc_loop.simps) auto
  next
    let ?xs = "grown xs (unat (heap_end h)) (unat (grow_size (HDR + need)))"
    assume "\<exists>h'. grow brk (HDR + need) (h, k) = Some (True, h', k') \<and> user_ok lim h' ?xs"
    then obtain h1 where h1: "grow brk (HDR + need) (h, k) = Some (True, h1, k')" "user_ok lim h1 ?xs" by blast
    obtain y where y: "List.find (fits (unat need)) ?xs = Some y"
      using find_grown [OF None] grow_size_nat(1) [OF b] n by fastforce
    obtain c xs' where c: "find_fit HEAP_MAGIC h1 need (heap_base h1) = Some (Fit c)"
      "user_ok lim (take_block HEAP_MAGIC h1 c need) xs'"
      "refines_live (unat need) (c + HDR) (take_block HEAP_MAGIC h1 c need) xs' (live_blocks ?xs)"
      using take_first_fit [OF h1(2) need(1,2) y] by blast
    have l1: "malloc_loop brk need h k = malloc_loop brk need h1 k'"
      using ff h1(1) by (subst malloc_loop.simps) simp
    have "malloc_loop brk need h1 k' = Some (c + HDR, take_block HEAP_MAGIC h1 c need, k')"
      using c(1) by (subst malloc_loop.simps) simp
    then show ?thesis using l1 c(2,3) live_grown [OF hk(2)] I' by auto
  qed
qed

lemma fresh_spec:
  assumes "heap_base h = 0" and law: "brk_law lim I brk" and n: "unat need \<le> 2 ^ 62 + 32" and I: "I k"
  shows "\<exists>h' k'. I k' \<and> (grow brk need (h, k) = Some (False, h', k') \<and> grow_refused brk need h k \<or>
    (\<exists>c. grow brk need (h, k) = Some (True, h', k') \<and> user_ok lim h' [(c, True, unat (grow_size need) - 16)]))"
proof -
  obtain cur k1 where c: "brk 0 k = (cur, k1)" by (cases "brk 0 k")
  have I1: "I k1" by (rule brk_lawD(2) [OF law I c])
  show ?thesis
  proof (cases "brk_fail cur")
    case True
    then show ?thesis using c assms(1) I1 by (auto simp: grow_def grow_refused_def)
  next
    case False
    have lim: "lim < 2 ^ 62" using brk_lawD(1) [OF law I] .
    have cur: "16 dvd unat cur" "unat cur \<le> lim" "cur \<noteq> 0" using brk_lawD(3) [OF law I c False] by simp_all
    note g = grow_size_nat [OF n]
    let ?w = "cur + grow_size need" and ?x = "unat (grow_size need)"
    have w: "unat ?w = unat cur + ?x" using unat_add_lt [of cur "grow_size need"] g(3) cur lim by simp
    then have wnz: "?w \<noteq> 0" and al: "16 dvd unat ?w" using g(2,4) cur(1) by auto
    obtain got k2 where b: "brk ?w k1 = (got, k2)" by (cases "brk ?w k1")
    have I2: "I k2" by (rule brk_lawD(4) [OF law I1 b wnz al])
    show ?thesis
    proof (cases "brk_fail got")
      case True
      then show ?thesis using c b assms(1) False cur(3) I2 by (auto simp: grow_def grow_more_def Let_def grow_refused_def)
    next
      case nf: False
      have got: "got = ?w" "unat ?w \<le> lim" using brk_lawD(5) [OF law I1 b wnz al nf] by simp_all
      let ?h = "(put_hdr cur (header HEAP_MAGIC True (?x - 16)) (h\<lparr>heap_base := cur, heap_end := cur\<rparr>))\<lparr>heap_end := ?w\<rparr>"
      have "grow_size need - 16 = of_nat (?x - 16)" using g(2) by (simp add: of_nat_diff)
      then have gr: "grow brk need (h, k) = Some (True, ?h, k2)"
        using c b assms(1) False cur(3) nf got by (simp add: grow_def grow_more_def Let_def header_def put_hdr_def)
      have "16 dvd ?x - 16" using g(4) by (simp add: dvd_diff_nat)
      then have "user_ok lim ?h [(unat cur, True, ?x - 16)]"
        using False cur got(2) lim g(2) w by (simp add: user_ok_def heap_ok_def put_hdr_def)
      then show ?thesis using gr I2 by blast
    qed
  qed
qed

lemma free_spec:
  assumes "user_ok lim h (pre @ (p, False, z) # post)"
  shows "user_ok lim (free (of_nat (p + 16)) h) (pre @ released p z post)"
proof -
  have "heap_end (block_release HEAP_MAGIC q h) = heap_end h" for q by (simp add: block_release_def Let_def)
  then show ?thesis using assms block_release_ok unfolding user_ok_def free_def by metis
qed

text \<open>
  When the very first growth is refused, \<open>malloc\<close> returns the null pointer but leaves \<open>heap_base\<close> and
  \<open>heap_end\<close> at the break: the next call takes the heap for initialised and reads a header
  there, in memory that was never mapped.
\<close>

lemma malloc_refused:
  assumes "heap_base h = 0" "sz \<noteq> 0" "brk 0 k = (cur, k1)" "cur \<noteq> 0" "\<not> brk_fail cur"
    and "brk (cur + grow_size (HDR + align_up sz HEAP_ALIGN)) k1 = (got, k2)" "brk_fail got"
  shows "malloc brk sz (h, k) = Some (0, h\<lparr>heap_base := cur, heap_end := cur\<rparr>, k2)"
  using assms by (simp add: malloc_def grow_def grow_more_def Let_def)

text \<open>
  \<open>malloc\<close> ends, whatever \<open>brk\<close> answers within its contract, on a heap in use or on the first call. It returns the
  null pointer only if no free block is large enough and \<open>brk\<close> refuses to grow the heap; otherwise a block of
  at least the size asked for that overlaps no live block.
\<close>

definition malloc_result :: "nat \<Rightarrow> (u64 \<Rightarrow> 'k \<Rightarrow> u64 \<times> 'k) \<Rightarrow> u64 \<Rightarrow> heap \<Rightarrow> blk list \<Rightarrow> 'k \<Rightarrow> u64 \<Rightarrow> heap \<Rightarrow> bool" where
  "malloc_result lim brk sz h xs k p h' \<longleftrightarrow>
     (if p = 0 then grow_refused brk (HDR + align_up sz HEAP_ALIGN) h k \<and> (heap_base h \<noteq> 0 \<longrightarrow> h' = h \<and> (\<forall>(a, f, z) \<in> set xs. f \<longrightarrow> z < unat (align_up sz HEAP_ALIGN)))
      else \<exists>xs' z. user_ok lim h' xs' \<and> pairwise apart (live_blocks xs') \<and> unat sz \<le> z \<and>
        unat p \<notin> fst ` live_blocks xs \<and> live_blocks xs' = insert (unat p, z) (live_blocks xs))"

lemma malloc_spec:
  assumes "user_ok lim h xs \<or> heap_base h = 0 \<and> xs = []" and law: "brk_law lim I brk" and I: "I k" and sz: "sz \<noteq> 0" "unat sz \<le> 2 ^ 62"
  shows "\<exists>p h' k'. malloc brk sz (h, k) = Some (p, h', k') \<and> I k' \<and> malloc_result lim brk sz h xs k p h'"
proof -
  let ?n = "align_up sz 16"
  have s: "unat sz + 15 < 2 ^ 64" using sz(2) by simp
  note n = need_nat [OF s sz(1)]
  have "unat ?n \<le> unat sz + 15" unfolding n(1) by (metis div_times_less_eq_dividend)
  then have b: "unat ?n \<le> 2 ^ 62 + 16" using sz(2) by simp
  have loop: "\<exists>p h' k'. malloc_loop brk ?n h1 k1 = Some (p, h', k') \<and> I k' \<and>
      (p = 0 \<and> h' = h1 \<and> List.find (fits (unat ?n)) ys = None \<and> grow_refused brk (HDR + ?n) h1 k1 \<or>
       p \<noteq> 0 \<and> (\<exists>xs' z. user_ok lim h' xs' \<and> pairwise apart (live_blocks xs') \<and> unat sz \<le> z \<and>
          unat p \<notin> fst ` live_blocks ys \<and> live_blocks xs' = insert (unat p, z) (live_blocks ys)))"
    if ok: "user_ok lim h1 ys" and I1: "I k1" for h1 k1 ys
  proof -
    obtain p h' k' xs' where r: "malloc_loop brk ?n h1 k1 = Some (p, h', k')" "I k'" "user_ok lim h' xs'"
      "p = 0 \<and> h' = h1 \<and> xs' = ys \<and> List.find (fits (unat ?n)) ys = None \<and> grow_refused brk (HDR + ?n) h1 k1 \<or>
       refines_live (unat ?n) p h' xs' (live_blocks ys)"
      using malloc_loop_spec [OF ok law I1 n(2,3) b] by blast
    have hk: "heap_ok HEAP_MAGIC h' xs'" using r(3) by (simp add: user_ok_def)
    have ap: "pairwise apart (live_blocks xs')" unfolding pairwise_def using heap_ok_apart [OF hk] by blast
    from r(4) show ?thesis
    proof
      assume "refines_live (unat ?n) p h' xs' (live_blocks ys)"
      then obtain z where z: "p \<noteq> 0" "unat ?n \<le> z" "unat p \<notin> fst ` live_blocks ys" "live_blocks xs' = insert (unat p, z) (live_blocks ys)"
        by (auto simp: refines_live_def)
      have "unat sz \<le> z" using n(4) z(2) by linarith
      then show ?thesis using r(1-3) ap z by blast
    qed (use r(1,2) in blast)
  qed
  show ?thesis
  proof (cases "heap_base h = 0")
    case False
    then have ok: "user_ok lim h xs" using assms(1) by simp
    have m: "malloc brk sz (h, k) = malloc_loop brk ?n h k" using sz(1) False by (simp add: malloc_def Let_def)
    obtain p h' k' where L: "malloc_loop brk ?n h k = Some (p, h', k')" "I k'"
      "p = 0 \<and> h' = h \<and> List.find (fits (unat ?n)) xs = None \<and> grow_refused brk (HDR + ?n) h k \<or>
       p \<noteq> 0 \<and> (\<exists>xs' z. user_ok lim h' xs' \<and> pairwise apart (live_blocks xs') \<and> unat sz \<le> z \<and>
          unat p \<notin> fst ` live_blocks xs \<and> live_blocks xs' = insert (unat p, z) (live_blocks xs))" using loop [OF ok I] by blast
    have "malloc_result lim brk sz h xs k p h'" using L(3) False by (auto simp: malloc_result_def find_None_iff not_le)
    then show ?thesis using m L(1,2) by auto
  next
    case True
    then have xs: "live_blocks xs = {}" using assms(1) by (auto simp: user_ok_def heap_ok_def live_blocks_def)
    have "unat (HDR + ?n) = 16 + unat ?n" using unat_add_lt [of HDR ?n] b by simp
    then have hb: "unat (HDR + ?n) \<le> 2 ^ 62 + 32" using b by simp
    obtain h1 k1 where I1: "I k1" and g: "grow brk (HDR + ?n) (h, k) = Some (False, h1, k1) \<and> grow_refused brk (HDR + ?n) h k \<or>
        (\<exists>c. grow brk (HDR + ?n) (h, k) = Some (True, h1, k1) \<and> user_ok lim h1 [(c, True, unat (grow_size (HDR + ?n)) - 16)])"
      using fresh_spec [OF True law hb I] by blast
    have m: "malloc brk sz (h, k) = (case grow brk (HDR + ?n) (h, k) of None \<Rightarrow> None
             | Some (ok, h1, k1) \<Rightarrow> if \<not> ok then Some (0, h1, k1) else malloc_loop brk ?n h1 k1)"
      using True sz(1) by (simp add: malloc_def Let_def)
    from g show ?thesis
    proof
      assume "\<exists>c. grow brk (HDR + ?n) (h, k) = Some (True, h1, k1) \<and> user_ok lim h1 [(c, True, unat (grow_size (HDR + ?n)) - 16)]"
      then obtain c where c: "grow brk (HDR + ?n) (h, k) = Some (True, h1, k1)"
        "user_ok lim h1 [(c, True, unat (grow_size (HDR + ?n)) - 16)]" by blast
      have e: "live_blocks [(c, True, y)] = {}" for c y by (simp add: live_blocks_def)
      have room: "unat ?n + 16 \<le> unat (grow_size (HDR + ?n))" using grow_size_nat(1) [OF hb] \<open>unat (HDR + ?n) = 16 + unat ?n\<close> by simp
      then have nf: "List.find (fits (unat ?n)) [(c, True, unat (grow_size (HDR + ?n)) - 16)] \<noteq> None" by auto
      obtain p h' k' where L: "malloc_loop brk ?n h1 k1 = Some (p, h', k')" "I k'"
        and D: "List.find (fits (unat ?n)) [(c, True, unat (grow_size (HDR + ?n)) - 16)] = None \<or>
          p \<noteq> 0 \<and> (\<exists>xs' z. user_ok lim h' xs' \<and> pairwise apart (live_blocks xs') \<and> unat sz \<le> z \<and> live_blocks xs' = insert (unat p, z) {})"
        using loop [OF c(2) I1] unfolding e by metis
      have "p \<noteq> 0 \<and> (\<exists>xs' z. user_ok lim h' xs' \<and> pairwise apart (live_blocks xs') \<and> unat sz \<le> z \<and> live_blocks xs' = insert (unat p, z) {})"
        using D nf by satx
      then have "malloc_result lim brk sz h xs k p h'" using xs by (simp add: malloc_result_def)
      then show ?thesis using m c(1) L(1,2) by auto
    next
      assume "grow brk (HDR + ?n) (h, k) = Some (False, h1, k1) \<and> grow_refused brk (HDR + ?n) h k"
      then show ?thesis using m I1 True by (auto simp: malloc_result_def)
    qed
  qed
qed

end
