(* ===== verification/User_Copy.thy ===== *)
theory User_Copy
  imports Isolation Sched_Demo
begin

text \<open>
  Copies between kernel buffers and user memory: \<open>copy_from_user\<close>, \<open>copy_from_user_n\<close>,
  \<open>copy_to_user_pml4\<close> and \<open>copy_to_user\<close> of \<open>kernel/user.c\<close>. Each walks the task's own tables,
  translating once per page; the stores first give the page a private frame. Physical memory is
  the word array of \<open>vmm\<close>, read and written here by bytes, low byte first. A copy in returns
  whether it succeeded and the bytes it stored in the kernel buffer. The kernel side is an array
  of the caller at every call, so the tests for a null buffer are not modelled.
\<close>

section \<open>Bytes of a page\<close>

definition page_byte :: "vmm \<Rightarrow> u64 \<Rightarrow> u64 \<Rightarrow> u8" where
  "page_byte v page off = ucast (drop_bit (8 * (unat off mod 8)) (tab_get v page (drop_bit 3 off)))"

definition set_page_byte :: "u64 \<Rightarrow> u64 \<Rightarrow> u8 \<Rightarrow> vmm \<Rightarrow> vmm" where
  "set_page_byte page off b v =
     (let i = drop_bit 3 off; k = 8 * (unat off mod 8)
      in tab_set page i ((tab_get v page i AND NOT (push_bit k 0xFF)) OR push_bit k (ucast b)) v)"

section \<open>Copies\<close>

text \<open>The page of \<open>va\<close>: the one at hand while the address stays in it, else a translation.\<close>

definition seek_page :: "vmm \<Rightarrow> u64 \<Rightarrow> u64 \<Rightarrow> u64 \<Rightarrow> u64 \<Rightarrow> u64 option" where
  "seek_page v c va page_base page =
     (if va AND ADDR_MASK \<noteq> page_base then map_option (\<lambda>phys. phys AND ADDR_MASK) (vmm_translate_user c va v)
      else Some page)"

fun from_user_loop :: "vmm \<Rightarrow> u64 \<Rightarrow> u64 \<Rightarrow> u64 \<Rightarrow> u64 \<Rightarrow> nat \<Rightarrow> bool \<times> u8 list" where
  "from_user_loop v c va page_base page 0 = (False, [])"
| "from_user_loop v c va page_base page (Suc n) =
     (case seek_page v c va page_base page of
        None \<Rightarrow> (False, [])
      | Some pg \<Rightarrow> let b = page_byte v pg (va AND (PAGE_4K - 1)) in
          if b = 0 then (True, [b])
          else (case from_user_loop v c (va + 1) (va AND ADDR_MASK) pg n of (ok, bs) \<Rightarrow> (ok, b # bs)))"

definition copy_from_user :: "u64 \<Rightarrow> u64 \<Rightarrow> sched \<Rightarrow> bool \<times> u8 list" where
  "copy_from_user src mx s = from_user_loop (vm s) (sched_current_cr3 s) src (NOT 0) 0 (unat mx)"

fun from_user_n_loop :: "vmm \<Rightarrow> u64 \<Rightarrow> u64 \<Rightarrow> u64 \<Rightarrow> u64 \<Rightarrow> nat \<Rightarrow> bool \<times> u8 list" where
  "from_user_n_loop v c va page_base page 0 = (True, [])"
| "from_user_n_loop v c va page_base page (Suc n) =
     (case seek_page v c va page_base page of
        None \<Rightarrow> (False, [])
      | Some pg \<Rightarrow> (case from_user_n_loop v c (va + 1) (va AND ADDR_MASK) pg n of
          (ok, bs) \<Rightarrow> (ok, page_byte v pg (va AND (PAGE_4K - 1)) # bs)))"

definition copy_from_user_n :: "u64 \<Rightarrow> u64 \<Rightarrow> sched \<Rightarrow> bool \<times> u8 list" where
  "copy_from_user_n src n s = from_user_n_loop (vm s) (sched_current_cr3 s) src (NOT 0) 0 (unat n)"

fun to_user_loop :: "u64 \<Rightarrow> u64 \<Rightarrow> u64 \<Rightarrow> u64 \<Rightarrow> u8 list \<Rightarrow> vmm \<Rightarrow> bool \<times> vmm" where
  "to_user_loop c va page_base page [] v = (True, v)"
| "to_user_loop c va page_base page (b # bs) v =
     (let base = va AND ADDR_MASK in
      if base \<noteq> page_base
      then (case vmm_cow_break c va v of (ok, v1) \<Rightarrow>
        if \<not> ok then (False, v1)
        else case vmm_translate_user c va v1 of
            None \<Rightarrow> (False, v1)
          | Some phys \<Rightarrow> let pg = phys AND ADDR_MASK in
              to_user_loop c (va + 1) base pg bs (set_page_byte pg (va AND (PAGE_4K - 1)) b v1))
      else to_user_loop c (va + 1) base page bs (set_page_byte page (va AND (PAGE_4K - 1)) b v))"

definition copy_to_user_pml4 :: "u64 \<Rightarrow> u64 \<Rightarrow> u8 list \<Rightarrow> vmm \<Rightarrow> bool \<times> vmm" where
  "copy_to_user_pml4 c dst src v =
     (if src = [] then (True, v) else if c = 0 then (False, v) else to_user_loop c dst (NOT 0) 0 src v)"

definition copy_to_user :: "u64 \<Rightarrow> u8 list \<Rightarrow> sched \<Rightarrow> bool \<times> sched" where
  "copy_to_user dst src s =
     (case copy_to_user_pml4 (sched_current_cr3 s) dst src (vm s) of (ok, v) \<Rightarrow> (ok, s\<lparr>vm := v\<rparr>))"

section \<open>Bytes and words\<close>

lemma page_off: "unat (va AND 0xFFF :: u64) < 4096" "drop_bit 3 (va AND 0xFFF :: u64) < 512"
proof -
  show a: "unat (va AND 0xFFF) < 4096" by (simp add: unat_and_4095)
  then have "unat (drop_bit 3 (va AND 0xFFF :: u64)) < 512" by (simp only: unat_drop_3)
  then show "drop_bit 3 (va AND 0xFFF :: u64) < 512" by (simp add: word_less_nat_alt)
qed

lemma byte_of_set:
  fixes w :: u64 and b :: u8
  assumes "k < 8" "j < 8"
  shows "(ucast (drop_bit (8 * j) ((w AND NOT (push_bit (8 * k) 0xFF)) OR push_bit (8 * k) (ucast b))) :: u8) =
    (if j = k then b else ucast (drop_bit (8 * j) w))"
proof (rule bit_word_eqI)
  fix n assume n: "n < LENGTH(8)"
  have m: "(0xFF :: u64) = mask 8" by (simp add: mask_eq_exp_minus_1)
  have u: "8 * j + n < 64" using assms n by simp
  show "bit (ucast (drop_bit (8 * j) ((w AND NOT (push_bit (8 * k) 0xFF)) OR push_bit (8 * k) (ucast b))) :: u8) n =
      bit (if j = k then b else ucast (drop_bit (8 * j) w)) n"
  proof (cases "j = k")
    case True
    then show ?thesis using n u unfolding m by (simp add: bit_simps)
  next
    case False
    then have "8 * j + n < 8 * k \<or> 8 * k + 8 \<le> 8 * j + n" using n by auto
    then show ?thesis using n u False unfolding m by (auto simp: bit_simps dest: bit_imp_le_length)
  qed
qed

lemma off_eq: "drop_bit 3 x = drop_bit 3 y \<Longrightarrow> unat x mod 8 = unat y mod 8 \<Longrightarrow> x = (y :: u64)"
proof (rule word_eq_by_unat)
  assume "drop_bit 3 x = drop_bit 3 y" "unat x mod 8 = unat y mod 8"
  then have "unat x div 8 = unat y div 8" by (metis unat_drop_3)
  then show "unat x = unat y" using \<open>unat x mod 8 = unat y mod 8\<close> by (metis div_mult_mod_eq)
qed

lemma page_byte_set:
  assumes "aligned a" "aligned p" "drop_bit 3 off < 512" "drop_bit 3 x < 512"
  shows "page_byte (set_page_byte p off b v) a x = (if a = p \<and> x = off then b else page_byte v a x)"
  using tab_get_set [OF assms(2,1,3,4)] byte_of_set [of "unat off mod 8" "unat x mod 8"] off_eq [of x off]
  by (auto simp: page_byte_def set_page_byte_def Let_def)


section \<open>What a task reads\<close>

definition user_byte :: "vmm \<Rightarrow> u64 \<Rightarrow> u64 \<Rightarrow> u8 option" where
  "user_byte v R va = map_option (\<lambda>(a, _). page_byte v a (va AND 0xFFF)) (user_page v R va)"

text \<open>The bytes from \<open>va\<close> on, up to the first unmapped one.\<close>

definition user_bytes :: "vmm \<Rightarrow> u64 \<Rightarrow> u64 \<Rightarrow> nat \<Rightarrow> u8 list" where
  "user_bytes v R va n = map the (takeWhile (\<lambda>x. x \<noteq> None) (map (\<lambda>i. user_byte v R (va + of_nat i)) [0..<n]))"

definition user_range :: "u64 \<Rightarrow> nat \<Rightarrow> bool" where
  "user_range va n \<longleftrightarrow> unat va + n \<le> 2 ^ 47"

lemma user_range_Suc: "user_range va (Suc n) \<Longrightarrow> user_range (va + 1) n \<and> unat (va + 1) = Suc (unat va)"
  by (simp add: user_range_def unat_word_ariths)

lemma pml4_ix_low: "unat va < 2 ^ 47 \<Longrightarrow> pml4_ix va < 256"
proof -
  assume "unat va < 2 ^ 47"
  then have "unat (drop_bit 39 va) < 256" by (simp add: unat_drop_bit_div less_mult_imp_div_less)
  moreover have "pml4_ix va \<le> drop_bit 39 va"
  proof -
    have m: "(511 :: u64) = mask 9" by (simp add: mask_eq_exp_minus_1)
    show ?thesis unfolding pml4_ix_def m word_le_nat_alt unat_and_mask by (rule mod_less_eq_dividend)
  qed
  ultimately show ?thesis by (simp add: word_le_nat_alt word_less_nat_alt)
qed

lemma user_range_ix: "user_range va (Suc n) \<Longrightarrow> pml4_ix va < 256"
  by (rule pml4_ix_low) (simp add: user_range_def)

lemma user_page_mask: "va AND ADDR_MASK = wa AND ADDR_MASK \<Longrightarrow> user_page v R va = user_page v R wa"
  by (metis user_page_def va_place_mask va_mask(4))

lemma user_byte_Cons:
  "user_bytes v R va (Suc n) =
     (case user_byte v R va of None \<Rightarrow> [] | Some b \<Rightarrow> b # user_bytes v R (va + 1) n)"
proof -
  have "map (\<lambda>i. user_byte v R (va + of_nat i)) [0..<Suc n] =
      user_byte v R va # map (\<lambda>i. user_byte v R (va + 1 + of_nat i)) [0..<n]"
    by (simp add: upt_conv_Cons map_Suc_upt [symmetric] o_def ac_simps del: upt_Suc)
  then show ?thesis unfolding user_bytes_def by (simp add: split: option.splits)
qed

lemma seek_page_spec:
  assumes tr: "trees_ok S v" and R: "R \<in> S" and va: "pml4_ix va < 256"
    and pb: "va AND ADDR_MASK = pb \<longrightarrow> (\<exists>w. user_page v R va = Some (pg, w))"
  shows "seek_page v R va pb pg = map_option fst (user_page v R va)"
proof -
  have "aligned a" if "user_page v R va = Some (a, w)" for a w
    using that by (auto simp: user_page_def Let_def split: if_splits)
  moreover have "low12 (va AND 0xFFF)" using page_off(1) [of va] by (intro low12_less) (simp add: word_less_nat_alt)
  ultimately show ?thesis
    using translate_user_page [OF tr R va] pb by (cases "user_page v R va") (auto simp: seek_page_def)
qed

lemma from_user_n_loop_spec:
  assumes "trees_ok S v" "R \<in> S" "user_range va n"
    and "va AND ADDR_MASK = pb \<longrightarrow> (\<exists>w. user_page v R va = Some (pg, w))"
  shows "from_user_n_loop v R va pb pg n = (length (user_bytes v R va n) = n, user_bytes v R va n)"
  using assms(3,4)
proof (induction n arbitrary: va pb pg)
  case 0
  then show ?case by (simp add: user_bytes_def)
next
  case (Suc n)
  note S = seek_page_spec [OF assms(1,2) user_range_ix [OF Suc.prems(1)] Suc.prems(2)]
  show ?case
  proof (cases "user_page v R va")
    case None
    then show ?thesis by (simp add: S user_byte_Cons user_byte_def)
  next
    case (Some t)
    have "(va + 1) AND ADDR_MASK = va AND ADDR_MASK \<longrightarrow> (\<exists>w. user_page v R (va + 1) = Some (fst t, w))"
      using user_page_mask [of "va + 1" va v R] Some by (cases t) auto
    note IH = Suc.IH [OF conjunct1 [OF user_range_Suc [OF Suc.prems(1)]] this]
    show ?thesis using IH Some by (cases t) (simp add: S user_byte_Cons user_byte_def)
  qed
qed

lemma no_page_yet: "va AND ADDR_MASK \<noteq> NOT 0"
proof
  assume "va AND ADDR_MASK = NOT 0"
  then have "bit (va AND ADDR_MASK) 0" by (simp add: bit_simps)
  then show False by (simp add: ADDR_MASK_mask bit_simps)
qed

text \<open>A string copy stops behind the first NUL.\<close>

lemma from_user_loop_spec:
  assumes "trees_ok S v" "R \<in> S" "user_range va n"
    and "va AND ADDR_MASK = pb \<longrightarrow> (\<exists>w. user_page v R va = Some (pg, w))"
  shows "from_user_loop v R va pb pg n = (let bs = user_bytes v R va n in
    if 0 \<in> set bs then (True, takeWhile (\<lambda>b. b \<noteq> 0) bs @ [0]) else (False, bs))"
  using assms(3,4)
proof (induction n arbitrary: va pb pg)
  case 0
  then show ?case by (simp add: user_bytes_def)
next
  case (Suc n)
  note S = seek_page_spec [OF assms(1,2) user_range_ix [OF Suc.prems(1)] Suc.prems(2)]
  show ?case
  proof (cases "user_page v R va")
    case None
    then show ?thesis by (simp add: S user_byte_Cons user_byte_def)
  next
    case (Some t)
    have "(va + 1) AND ADDR_MASK = va AND ADDR_MASK \<longrightarrow> (\<exists>w. user_page v R (va + 1) = Some (fst t, w))"
      using user_page_mask [of "va + 1" va v R] Some by (cases t) auto
    note IH = Suc.IH [OF conjunct1 [OF user_range_Suc [OF Suc.prems(1)]] this]
    show ?thesis using IH Some by (cases t) (simp add: S user_byte_Cons user_byte_def Let_def)
  qed
qed

section \<open>What a copy out changes\<close>

lemma user_page_aligned: "user_page v R va = Some (a, w) \<Longrightarrow> aligned a"
  by (auto simp: user_page_def Let_def split: if_splits)

lemma same_page_eq: "same_page wa va \<Longrightarrow> user_page v R wa = user_page v R va"
  by (simp add: same_page_def user_page_def)

text \<open>Two pages on one frame that only one mapping uses are the same page.\<close>

lemma sole_page:
  assumes "card (maps S v a) = 1" "R \<in> S" "R' \<in> S" "pml4_ix va < 256" "pml4_ix wa < 256"
    "user_page v R va = Some (a, w)" "user_page v R' wa = Some (a, w')"
  shows "R' = R \<and> same_page wa va"
proof -
  obtain x y x' y' where w: "w = (x, y)" "w' = (x', y')" by (metis surj_pair)
  have "(R, va_place va, pt_ix va) \<in> maps S v a" "(R', va_place wa, pt_ix wa) \<in> maps S v a"
    using user_page_here [OF assms(2,4)] user_page_here [OF assms(3,5)] assms(6,7) w by auto
  then show ?thesis using assms(1) by (auto simp: card_1_singleton_iff same_page_def)
qed

lemma poke_ok:
  fixes b :: u8
  assumes ok: "spaces_ok S v" and R: "R \<in> S" and va: "pml4_ix va < 256"
    and up: "user_page v R va = Some (pg, True, x)" and one: "card (maps S v pg) = 1"
  defines "v' \<equiv> set_page_byte pg (va AND 0xFFF) b v"
  shows "vm_step (S, v) (S, v')" "maps S v' a = maps S v a"
    and "R' \<in> S \<Longrightarrow> pml4_ix wa < 256 \<Longrightarrow> user_page v' R' wa = user_page v R' wa"
    and "R' \<in> S \<Longrightarrow> pml4_ix wa < 256 \<Longrightarrow> user_byte v' R' wa =
      (if R' = R \<and> same_page wa va \<and> wa AND 0xFFF = va AND 0xFFF then Some b else user_byte v R' wa)"
proof -
  obtain w where v': "v' = tab_set pg (drop_bit 3 (va AND 0xFFF)) w v"
    unfolding v'_def set_page_byte_def Let_def by blast
  have ne: "maps S v pg \<noteq> {}" using one by auto
  note T = store_ok [OF ok ne page_off(2) [of va], where w = w, folded v']
  show "vm_step (S, v) (S, v')" unfolding v' by (rule vm_step.store [OF R va up page_off(2)])
  show "maps S v' a = maps S v a" by (rule T(3))
  show P: "user_page v' R' wa = user_page v R' wa" if "R' \<in> S" "pml4_ix wa < 256" for R' wa
    using page_cong [OF _ that(2)] T(2) that(1) by blast
  assume w: "R' \<in> S" "pml4_ix wa < 256"
  show "user_byte v' R' wa =
      (if R' = R \<and> same_page wa va \<and> wa AND 0xFFF = va AND 0xFFF then Some b else user_byte v R' wa)"
  proof (cases "user_page v R' wa")
    case None
    then show ?thesis using P [OF w] up same_page_eq by (auto simp: user_byte_def)
  next
    case (Some t)
    obtain a y where t: "t = (a, y)" by (cases t)
    have "page_byte v' a (wa AND 0xFFF) = (if a = pg \<and> wa AND 0xFFF = va AND 0xFFF then b else page_byte v a (wa AND 0xFFF))"
      unfolding v'_def using user_page_aligned Some t up by (intro page_byte_set page_off(2)) auto
    moreover have "a = pg \<longleftrightarrow> R' = R \<and> same_page wa va"
      using sole_page [OF one R w(1) va w(2) up] Some t up same_page_eq [of wa va v R] by auto
    ultimately show ?thesis using Some t P [OF w] by (simp add: user_byte_def)
  qed
qed

lemma break_bytes:
  assumes ok: "spaces_ok S v" and R: "R \<in> S" and va: "pml4_ix va < 256"
    and run: "vmm_cow_break R va v = (r, v')"
  shows "R' \<in> S \<Longrightarrow> pml4_ix wa < 256 \<Longrightarrow> user_byte v' R' wa = user_byte v R' wa"
    and "if r then \<exists>b. user_page v' R va = Some (b, True, True) \<and> card (maps S v' b) = 1
         else v' = v \<and> (\<forall>a w. user_page v R va = Some (a, w, True) \<longrightarrow> free_frames (pm v) = {})"
proof -
  note C = cow_break_ok [OF ok R va run]
  let ?e = "pte v R (va_place va) (pt_ix va)"
  have inv: "pmm_inv (pm v)" by (rule trees_okD(2) [OF spaces_okD(1) [OF ok] R])
  have "(\<forall>R' \<in> S. \<forall>wa. pml4_ix wa < 256 \<longrightarrow> user_byte v' R' wa = user_byte v R' wa) \<and>
    (if r then \<exists>b. user_page v' R va = Some (b, True, True) \<and> card (maps S v' b) = 1
         else v' = v \<and> (\<forall>a w. user_page v R va = Some (a, w, True) \<longrightarrow> free_frames (pm v) = {}))"
  proof (cases r)
    case False
    then show ?thesis using C alloc_frame_some [OF inv] by (auto simp: user_page_def Let_def split: if_splits)
  next
    case True
    then obtain b where b: "mapped ?e" "aligned b" "card (maps S v' b) = 1"
      "pte_upd S v v' R (va_place va) (pt_ix va) (b OR PTE_USER_FLAGS)"
      "\<forall>j < 512. tab_get v' b j = tab_get v (?e AND ADDR_MASK) j" using C by auto
    have P: "user_page v' R' wa = (if R' = R \<and> same_page wa va then Some (b, True, True) else user_page v R' wa)"
      if "R' \<in> S" "pml4_ix wa < 256" for R' wa
      using pte_upd_page [OF b(4) that] user_flags_mapped [OF b(2)] user_flags_page [OF b(2)] by simp
    have "user_byte v' R' wa = user_byte v R' wa" if w: "R' \<in> S" "pml4_ix wa < 256" for R' wa
    proof (cases "R' = R \<and> same_page wa va")
      case True
      then have "user_page v R' wa = Some (?e AND ADDR_MASK, bit ?e 1, bit ?e 9)"
        using b(1) by (simp add: user_page_def same_page_def Let_def)
      then show ?thesis using P [OF w] True b(5) page_off(2) by (simp add: user_byte_def page_byte_def)
    next
      case False
      have "page_byte v' a (wa AND 0xFFF) = page_byte v a (wa AND 0xFFF)" if "user_page v R' wa = Some (a, y)" for a y
      proof -
        obtain y1 y2 where "y = (y1, y2)" by (cases y)
        then have "maps S v a \<noteq> {}" using user_page_here [OF w, of v a y1 y2] that by auto
        then show ?thesis using C page_off(2) [of wa] by (simp add: same_pages_def page_byte_def)
      qed
      then show ?thesis using P [OF w] False by (cases "user_page v R' wa") (auto simp: user_byte_def)
    qed
    then show ?thesis using True b(3) P [OF R va] by (auto simp: same_page_def)
  qed
  then show "R' \<in> S \<Longrightarrow> pml4_ix wa < 256 \<Longrightarrow> user_byte v' R' wa = user_byte v R' wa"
    "if r then \<exists>b. user_page v' R va = Some (b, True, True) \<and> card (maps S v' b) = 1
     else v' = v \<and> (\<forall>a w. user_page v R va = Some (a, w, True) \<longrightarrow> free_frames (pm v) = {})" by auto
qed


lemma same_address:
  assumes "unat va < 2 ^ 47" "unat wa < 2 ^ 47" "same_page wa va" "wa AND 0xFFF = va AND 0xFFF"
  shows "wa = va"
proof (rule bit_word_eqI)
  fix n assume n: "n < LENGTH(64)"
  have m: "(0xFFF :: u64) = mask 12" "(511 :: u64) = mask 9" by (simp_all add: mask_eq_exp_minus_1)
  have ix: "bit (drop_bit k x AND mask 9) j = (j < 9 \<and> bit x (k + j))" for k j and x :: u64
    by (auto simp: bit_simps)
  have hi: "\<not> bit x n" if "unat x < 2 ^ 47" "47 \<le> n" for x :: u64
  proof -
    have "unat (take_bit 47 x) = unat x" using that(1) by (simp only: unat_take_bit_mod) simp
    then have "x = take_bit 47 x" using word_eq_by_unat by metis
    then show ?thesis using that(2) by (metis bit_take_bit_iff not_le)
  qed
  have "pml4_ix wa = pml4_ix va" "pdpt_ix wa = pdpt_ix va" "pd_ix wa = pd_ix va" "pt_ix wa = pt_ix va"
    using assms(3) by (simp_all add: same_page_def va_place_def)
  then have f: "j < 9 \<Longrightarrow> bit wa (39 + j) = bit va (39 + j)" "j < 9 \<Longrightarrow> bit wa (30 + j) = bit va (30 + j)"
    "j < 9 \<Longrightarrow> bit wa (21 + j) = bit va (21 + j)" "j < 9 \<Longrightarrow> bit wa (12 + j) = bit va (12 + j)" for j
    unfolding pml4_ix_def pdpt_ix_def pd_ix_def pt_ix_def m by (metis ix)+
  have lo: "n < 12 \<Longrightarrow> bit wa n = bit va n" using arg_cong [OF assms(4), of "\<lambda>x. bit x n"] unfolding m by (simp add: bit_simps)
  consider "n < 12" | "12 \<le> n" "n < 21" | "21 \<le> n" "n < 30" | "30 \<le> n" "n < 39" | "39 \<le> n" "n < 48" | "48 \<le> n" by linarith
  then show "bit wa n = bit va n"
  proof cases
    case 1 then show ?thesis by (rule lo)
  next
    case 2 then show ?thesis using f(4) [of "n - 12"] by simp
  next
    case 3 then show ?thesis using f(3) [of "n - 21"] by simp
  next
    case 4 then show ?thesis using f(2) [of "n - 30"] by simp
  next
    case 5 then show ?thesis using f(1) [of "n - 39"] by simp
  next
    case 6 then show ?thesis using hi assms(1,2) by simp
  qed
qed

definition vm_ok :: "u64 set \<Rightarrow> vmm \<Rightarrow> bool" where
  "vm_ok S v \<longleftrightarrow> spaces_ok S v \<and> exclusive S v"

lemma vm_ok_step: "vm_step (S, v) (S', v') \<Longrightarrow> vm_ok S v \<Longrightarrow> vm_ok S' v'"
  using vm_step_inv [of "(S, v)" "(S', v')"] by (simp add: vm_ok_def)

lemma vm_ok_steps: "vm_step\<^sup>*\<^sup>* (S, v) (S', v') \<Longrightarrow> vm_ok S v \<Longrightarrow> vm_ok S' v'"
  by (induction rule: rtranclp_induct2) (use vm_ok_step in blast)+

definition wrote :: "u64 set \<Rightarrow> u64 \<Rightarrow> u64 \<Rightarrow> u8 list \<Rightarrow> vmm \<Rightarrow> vmm \<Rightarrow> bool" where
  "wrote S R va bs v v' \<longleftrightarrow> (\<forall>R' \<in> S. \<forall>wa :: u64. unat wa < 2 ^ 47 \<longrightarrow> user_byte v' R' wa =
     (if R' = R \<and> unat va \<le> unat wa \<and> unat wa < unat va + length bs then Some (bs ! (unat wa - unat va))
      else user_byte v R' wa))"

lemma wrote_Nil: "wrote S R va [] v v"
  by (auto simp: wrote_def)

lemma wrote_Cons:
  assumes "R \<in> S" "unat (va + 1) = Suc (unat va)" "unat va < 2 ^ 47"
    "\<And>R' wa. R' \<in> S \<Longrightarrow> pml4_ix wa < 256 \<Longrightarrow> user_byte v1 R' wa =
      (if R' = R \<and> same_page wa va \<and> wa AND 0xFFF = va AND 0xFFF then Some b else user_byte v R' wa)"
    "wrote S R (va + 1) bs v1 v'"
  shows "wrote S R va (b # bs) v v'"
  unfolding wrote_def
proof (intro ballI allI impI)
  fix R' and wa :: u64 assume w: "R' \<in> S" "unat wa < 2 ^ 47"
  have e: "same_page wa va \<and> wa AND 0xFFF = va AND 0xFFF \<longleftrightarrow> unat wa = unat va"
    using same_address [OF assms(3) w(2)] word_eq_by_unat [of wa va] by (auto simp: same_page_def)
  show "user_byte v' R' wa = (if R' = R \<and> unat va \<le> unat wa \<and> unat wa < unat va + length (b # bs)
      then Some ((b # bs) ! (unat wa - unat va)) else user_byte v R' wa)"
    using assms(5) [unfolded wrote_def assms(2), rule_format, OF w] assms(4) [OF w(1) pml4_ix_low [OF w(2)]]
    unfolding e by (auto simp: nth_Cons')
qed


lemma wrote_same:
  assumes "wrote S R va bs v1 v'" "\<And>R' wa. R' \<in> S \<Longrightarrow> pml4_ix wa < 256 \<Longrightarrow> user_byte v1 R' wa = user_byte v R' wa"
  shows "wrote S R va bs v v'"
  using assms pml4_ix_low unfolding wrote_def by simp

text \<open>
  What the loop promises: it writes a prefix of the bytes, all of them when it succeeds, and is
  stopped only by a page that is not mapped or not to be written, or when memory has run out.
\<close>

definition copied_out :: "u64 set \<Rightarrow> u64 \<Rightarrow> u64 \<Rightarrow> u8 list \<Rightarrow> vmm \<Rightarrow> bool \<Rightarrow> vmm \<Rightarrow> bool" where
  "copied_out S R va bs v r v' \<longleftrightarrow> vm_step\<^sup>*\<^sup>* (S, v) (S, v') \<and>
     (\<exists>k. (if r then k = length bs else k < length bs) \<and> wrote S R va (take k bs) v v' \<and>
       (\<not> r \<longrightarrow> (\<forall>a w. user_page v' R (va + of_nat k) = Some (a, w, True) \<longrightarrow> free_frames (pm v') = {})))"

lemma poke_step:
  assumes ok: "vm_ok S v" and R: "R \<in> S" and rg: "user_range va (Suc (length bs))"
    and up: "user_page v R va = Some (pg, True, x)" "card (maps S v pg) = 1"
    and IH: "\<And>v1 pb. vm_ok S v1 \<Longrightarrow> pb = va AND ADDR_MASK \<Longrightarrow>
      (va + 1 AND ADDR_MASK = pb \<longrightarrow> (\<exists>x. user_page v1 R (va + 1) = Some (pg, True, x) \<and> card (maps S v1 pg) = 1)) \<Longrightarrow>
      to_user_loop R (va + 1) pb pg bs v1 = (r, v') \<Longrightarrow> copied_out S R (va + 1) bs v1 r v'"
    and run: "to_user_loop R (va + 1) (va AND ADDR_MASK) pg bs (set_page_byte pg (va AND 0xFFF) b v) = (r, v')"
  shows "copied_out S R va (b # bs) v r v'"
proof -
  let ?v1 = "set_page_byte pg (va AND 0xFFF) b v"
  have sp: "spaces_ok S v" using ok by (simp add: vm_ok_def)
  have va: "pml4_ix va < 256" by (rule user_range_ix [OF rg])
  note P = poke_ok [OF sp R va up, where b = b] and U = user_range_Suc [OF rg]
  have ok1: "vm_ok S ?v1" using vm_ok_step [OF P(1) ok] .
  have "va + 1 AND ADDR_MASK = va AND ADDR_MASK \<longrightarrow>
      (\<exists>x. user_page ?v1 R (va + 1) = Some (pg, True, x) \<and> card (maps S ?v1 pg) = 1)"
    using user_page_mask [of "va + 1" va ?v1 R] P(2) [of pg] P(3) [OF R va] up by auto
  from IH [OF ok1 refl this run] obtain k where k: "vm_step\<^sup>*\<^sup>* (S, ?v1) (S, v')" "if r then k = length bs else k < length bs"
    "wrote S R (va + 1) (take k bs) ?v1 v'"
    "\<not> r \<longrightarrow> (\<forall>a w. user_page v' R (va + 1 + of_nat k) = Some (a, w, True) \<longrightarrow> free_frames (pm v') = {})"
    unfolding copied_out_def by blast
  have lt: "unat va < 2 ^ 47" using rg by (simp add: user_range_def)
  have "wrote S R va (b # take k bs) v v'" by (rule wrote_Cons [OF R conjunct2 [OF U] lt P(4) k(3)])
  moreover have "va + 1 + of_nat k = va + of_nat (Suc k)" by simp
  ultimately show ?thesis
    unfolding copied_out_def using P(1) k by (intro conjI exI [of _ "Suc k"]) (auto intro: converse_rtranclp_into_rtranclp simp: add.assoc)
qed

lemma to_user_loop_spec:
  assumes "vm_ok S v" "R \<in> S" "user_range va (length bs)"
    and "va AND ADDR_MASK = pb \<longrightarrow> (\<exists>x. user_page v R va = Some (pg, True, x) \<and> card (maps S v pg) = 1)"
    and "to_user_loop R va pb pg bs v = (r, v')"
  shows "copied_out S R va bs v r v'"
  using assms(1,3-5)
proof (induction bs arbitrary: va pb pg v)
  case Nil
  then show ?case by (simp add: copied_out_def wrote_Nil)
next
  case (Cons b bs)
  have va: "pml4_ix va < 256" using user_range_ix Cons.prems(2) by simp
  note rg = Cons.prems(2) [unfolded list.size add_Suc_right add_0_right]
  have IH: "copied_out S R (va + 1) bs v1 r v'" if "vm_ok S v1" "q = va AND ADDR_MASK"
      "va + 1 AND ADDR_MASK = q \<longrightarrow> (\<exists>x. user_page v1 R (va + 1) = Some (p, True, x) \<and> card (maps S v1 p) = 1)"
      "to_user_loop R (va + 1) q p bs v1 = (r, v')" for v1 q p
    by (rule Cons.IH [OF that(1) conjunct1 [OF user_range_Suc [OF rg]] that(3,4)])
  show ?case
  proof (cases "va AND ADDR_MASK = pb")
    case True
    then obtain x where x: "user_page v R va = Some (pg, True, x)" "card (maps S v pg) = 1" using Cons.prems(3) by blast
    have run: "to_user_loop R (va + 1) (va AND ADDR_MASK) pg bs (set_page_byte pg (va AND 0xFFF) b v) = (r, v')"
      using Cons.prems(4) True by (simp add: Let_def)
    show ?thesis by (rule poke_step [OF Cons.prems(1) assms(2) rg x IH run])
  next
    case False
    have sp: "spaces_ok S v" using Cons.prems(1) by (simp add: vm_ok_def)
    obtain ok v1 where br: "vmm_cow_break R va v = (ok, v1)" by fastforce
    have st: "vm_step (S, v) (S, v1)" by (rule vm_step.cow_break [OF assms(2) va br])
    note B = break_bytes [OF sp assms(2) va br] and ok1 = vm_ok_step [OF st Cons.prems(1)]
    show ?thesis
    proof (cases ok)
      case nok: False
      then have "r = False" "v' = v" using Cons.prems(4) False br B(2) by (simp_all add: Let_def)
      moreover have "\<forall>a w. user_page v R va = Some (a, w, True) \<longrightarrow> free_frames (pm v) = {}" using B(2) nok by simp
      ultimately show ?thesis unfolding copied_out_def using wrote_Nil by (intro conjI exI [of _ 0]) simp_all
    next
      case okT: True
      then obtain p where p: "user_page v1 R va = Some (p, True, True)" "card (maps S v1 p) = 1" using B(2) by auto
      have tr: "trees_ok S v1" using ok1 by (simp add: vm_ok_def spaces_okD(1))
      have "seek_page v1 R va (NOT 0) 0 = Some p"
        using seek_page_spec [OF tr assms(2) va, of "NOT 0" 0] no_page_yet [of va] p(1) by simp
      then obtain ph where ph: "vmm_translate_user R va v1 = Some ph" "ph AND ADDR_MASK = p"
        using no_page_yet [of va] by (auto simp: seek_page_def)
      have run: "to_user_loop R (va + 1) (va AND ADDR_MASK) p bs (set_page_byte p (va AND 0xFFF) b v1) = (r, v')"
        using Cons.prems(4) False br okT ph by (simp add: Let_def)
      have "copied_out S R va (b # bs) v1 r v'" by (rule poke_step [OF ok1 assms(2) rg p IH run])
      then obtain k where k: "vm_step\<^sup>*\<^sup>* (S, v1) (S, v')" "if r then k = length (b # bs) else k < length (b # bs)"
        "wrote S R va (take k (b # bs)) v1 v'"
        "\<not> r \<longrightarrow> (\<forall>a w. user_page v' R (va + of_nat k) = Some (a, w, True) \<longrightarrow> free_frames (pm v') = {})"
        unfolding copied_out_def by blast
      have "wrote S R va (take k (b # bs)) v v'" by (rule wrote_same [OF k(3) B(1)])
      moreover have "vm_step\<^sup>*\<^sup>* (S, v) (S, v')" by (rule converse_rtranclp_into_rtranclp [OF st k(1)])
      ultimately show ?thesis unfolding copied_out_def using k(2,4) by blast
    qed
  qed
qed

section \<open>The properties\<close>

lemma current_cr3_vm [simp]: "sched_current_cr3 (s\<lparr>vm := v\<rparr>) = sched_current_cr3 s"
  by (simp add: sched_current_cr3_def cur_task_def task_at_def)

lemma wrote_bytes:
  assumes "wrote S R va bs v v'" "R \<in> S" "user_range va (length bs)"
  shows "user_bytes v' R va (length bs) = bs"
proof -
  have "user_byte v' R (va + of_nat i) = Some (bs ! i)" if i: "i < length bs" for i
  proof -
    have "unat (va + of_nat i) = unat va + i"
      using assms(3) i by (simp add: user_range_def unat_word_ariths unat_of_nat)
    then show ?thesis using assms i by (simp add: wrote_def user_range_def)
  qed
  then have "map (\<lambda>i. user_byte v' R (va + of_nat i)) [0..<length bs] = map Some bs"
    by (intro nth_equalityI) simp_all
  moreover have "takeWhile (\<lambda>x. x \<noteq> None) (map Some bs) = map Some bs" by (induction bs) simp_all
  ultimately show ?thesis unfolding user_bytes_def by (simp only:) (simp add: o_def)
qed

text \<open>
  C6. Copying to user memory and back. In a sound state, and for a destination in the lower half,
  \<open>copy_to_user\<close> stores a prefix of the bytes in the running task's memory and changes no other
  byte of any address space, also where the page was shared; the state stays sound. It succeeds
  with all bytes stored, and then \<open>copy_from_user_n\<close> reads exactly them back; or it stops at an
  address whose page is not mapped or not to be written, or with memory exhausted.
\<close>

theorem copy_out_in:
  assumes "vm_ok S (vm s)" "sched_current_cr3 s \<in> S" "user_range dst (length src)" "copy_to_user dst src s = (r, s')"
  shows "vm_ok S (vm s') \<and> (\<exists>v. s' = s\<lparr>vm := v\<rparr>) \<and>
    (r \<longrightarrow> wrote S (sched_current_cr3 s) dst src (vm s) (vm s') \<and>
      copy_from_user_n dst (of_nat (length src)) s' = (True, src)) \<and>
    (\<not> r \<longrightarrow> (\<exists>k < length src. wrote S (sched_current_cr3 s) dst (take k src) (vm s) (vm s') \<and>
      (\<forall>a w. user_page (vm s') (sched_current_cr3 s) (dst + of_nat k) = Some (a, w, True) \<longrightarrow> free_frames (pm (vm s')) = {})))"
proof -
  let ?R = "sched_current_cr3 s"
  have R0: "?R \<noteq> 0" using assms(1,2) trees_okD(4) spaces_okD(1) unfolding vm_ok_def by blast
  obtain v' where run: "copy_to_user_pml4 ?R dst src (vm s) = (r, v')" and s': "s' = s\<lparr>vm := v'\<rparr>"
    using assms(4) by (auto simp: copy_to_user_def split: prod.splits)
  have loop: "to_user_loop ?R dst (NOT 0) 0 src (vm s) = (r, v')"
    using run R0 by (cases src) (simp_all add: copy_to_user_pml4_def)
  have C: "copied_out S ?R dst src (vm s) r v'"
    by (rule to_user_loop_spec [OF assms(1-3) _ loop]) (use no_page_yet [of dst] in simp)
  then have ok: "vm_ok S v'" using vm_ok_steps assms(1) unfolding copied_out_def by blast
  have n: "length src < 2 ^ 64" using assms(3) by (simp add: user_range_def)
  have again: "copy_from_user_n dst (of_nat (length src)) s' = (True, src)" if "wrote S ?R dst src (vm s) v'"
  proof -
    have "trees_ok S v'" using ok by (simp add: vm_ok_def spaces_ok_def)
    from from_user_n_loop_spec [OF this assms(2,3), of "NOT 0" 0] show ?thesis
      using n no_page_yet [of dst] wrote_bytes [OF that assms(2,3)] by (simp add: copy_from_user_n_def s' unat_of_nat)
  qed
  show ?thesis using C ok again unfolding copied_out_def by (cases r) (auto simp: s')
qed

text \<open>The demonstration task, running on its address space.\<close>

definition demo_run :: sched where
  "demo_run = one_task\<lparr>vm := demo_page, tasks := user_task\<lparr>cr3 := demo_root\<rparr> # replicate 15 (init_task zero_task)\<rparr>"

lemma demo_exclusive: "vm_ok {demo_root} demo_page"
  unfolding vm_ok_def exclusive_def
proof (intro conjI ballI allI impI)
  show sp: "spaces_ok {demo_root} demo_page" by (rule demo_page_ok(1))
  fix R p i assume a: "R \<in> {demo_root}" "leaf_place p i" "mapped (pte demo_page R p i)"
  have "finite (maps {demo_root} demo_page b)" for b by (rule finite_maps) simp
  moreover have "maps {demo_root} demo_page (pte demo_page R p i AND ADDR_MASK) \<noteq> {}" using a maps_here by blast
  ultimately have "0 < card (maps {demo_root} demo_page (pte demo_page R p i AND ADDR_MASK))" by (simp add: card_gt_0_iff)
  then show "card (maps {demo_root} demo_page (pte demo_page R p i AND ADDR_MASK)) = 1"
    using demo_page_ok(4) [of "pte demo_page R p i AND ADDR_MASK"] by linarith
qed

lemma demo_run_current: "vm demo_run = demo_page" "sched_current_cr3 demo_run = demo_root"
proof -
  have nz: "demo_root \<noteq> 0" using trees_okD(4) [OF spaces_okD(1) [OF demo_space_ok(1)]] by simp
  then show "vm demo_run = demo_page" "sched_current_cr3 demo_run = demo_root"
    by (simp_all add: demo_run_def one_task_eq boot0_eq zero_sched_def sched_current_cr3_def cur_task_def task_at_def)
qed

theorem copy_out_in_witness:
  "\<exists>s'. copy_to_user 0x400010 [0x41, 0x42] demo_run = (True, s') \<and> copy_from_user_n 0x400010 2 s' = (True, [0x41, 0x42])"
proof -
  let ?v = demo_page and ?R = demo_root and ?va = "0x400010 :: u64"
  have R: "?R \<in> {?R}" by simp
  have va: "pml4_ix ?va < 256" "user_range ?va (length [0x41, 0x42 :: u8])" by (simp_all add: pml4_ix_def user_range_def)
  obtain r s' where run: "copy_to_user ?va [0x41, 0x42] demo_run = (r, s')" by fastforce
  have sm: "user_page ?v ?R ?va = Some (0x100000, True, True)"
    using demo_page_ok(2) user_page_mask [of ?va "0x400000" ?v ?R] by (simp add: ADDR_MASK_def)
  obtain ok v1 where br: "vmm_cow_break ?R ?va ?v = (ok, v1)" by fastforce
  have ne: "free_frames (pm ?v) \<noteq> {}" using demo_page_ok(3) by auto
  note B = break_bytes(2) [OF demo_page_ok(1) R va(1) br]
  have ok using B sm ne by (auto split: if_splits)
  then obtain b where b: "user_page v1 ?R ?va = Some (b, True, True)" using B by auto
  have "vm_ok {?R} v1" by (rule vm_ok_step [OF vm_step.cow_break [OF R va(1) br] demo_exclusive])
  then have tr: "trees_ok {?R} v1" by (simp add: vm_ok_def spaces_ok_def)
  obtain ph where ph: "vmm_translate_user ?R ?va v1 = Some ph" using translate_user_page [OF tr R va(1)] b by auto
  have same: "(0x400011 :: u64) AND ADDR_MASK = ?va AND ADDR_MASK" by (simp add: ADDR_MASK_def)
  have nz: "?R \<noteq> 0" using trees_okD(4) [OF tr R] .
  have r using run \<open>ok\<close> br ph same no_page_yet [of ?va] nz
    by (simp add: copy_to_user_def copy_to_user_pml4_def demo_run_current Let_def)
  then show ?thesis
    using copy_out_in [of "{?R}" demo_run ?va "[0x41, 0x42]" r s'] run va demo_exclusive by (auto simp: demo_run_current)
qed

text \<open>The page at hand in the loops is never one of the kernel.\<close>

definition lower_base :: "u64 \<Rightarrow> bool" where
  "lower_base page_base \<longleftrightarrow> (\<forall>va. kernel_half va \<longrightarrow> va AND ADDR_MASK \<noteq> page_base)"

lemma kernel_half_mask [simp]: "kernel_half (va AND ADDR_MASK) = kernel_half va" by (simp add: kernel_half_def)

lemma lower_base_start: "lower_base (NOT 0)" using no_page_yet by (auto simp: lower_base_def)

lemma lower_base_next: "\<not> kernel_half va \<Longrightarrow> lower_base (va AND ADDR_MASK)"
  using kernel_half_mask unfolding lower_base_def by metis

lemma kernel_half_none:
  assumes "kernel_half va"
  shows "vmm_translate_user c va v = None" "vmm_cow_break c va v = (False, v)" "lower_base page_base \<Longrightarrow> seek_page v c va page_base page = None"
    "lower_base page_base \<Longrightarrow> va AND ADDR_MASK \<noteq> page_base"
  using assms by (auto simp: vmm_translate_user_def vmm_cow_break_def vmm_leaf_pte_def walk_pt_def seek_page_def lower_base_def)

lemma next_off: "va + of_nat (Suc j) = va + 1 + (of_nat j :: u64)" by simp

lemma from_user_loop_kernel:
  assumes "kernel_half (va + of_nat i)" "lower_base page_base" "from_user_loop v c va page_base page n = (r, bs)"
  shows "length bs \<le> i \<and> (r \<longrightarrow> bs \<noteq> [] \<and> last bs = 0)"
  using assms
proof (induction n arbitrary: va i page_base page r bs)
  case (Suc n)
  show ?case
  proof (cases "kernel_half va")
    case True
    then show ?thesis using Suc.prems(2,3) by (simp add: kernel_half_none(3))
  next
    case False
    then obtain j where j: "i = Suc j" using Suc.prems(1) by (cases i) auto
    have k: "kernel_half (va + 1 + of_nat j)" using Suc.prems(1) unfolding j next_off .
    show ?thesis
    proof (cases "seek_page v c va page_base page")
      case (Some pg)
      obtain ok cs where n: "from_user_loop v c (va + 1) (va AND ADDR_MASK) pg n = (ok, cs)" by fastforce
      from Suc.IH [OF k lower_base_next [OF False] n] show ?thesis
        using Suc.prems(3) Some n j by (auto simp: Let_def split: if_splits)
    qed (use Suc.prems(3) in simp)
  qed
qed simp

lemma from_user_n_loop_kernel:
  assumes "kernel_half (va + of_nat i)" "lower_base page_base" "from_user_n_loop v c va page_base page n = (r, bs)"
  shows "length bs \<le> i \<and> (i < n \<longrightarrow> \<not> r)"
  using assms
proof (induction n arbitrary: va i page_base page r bs)
  case (Suc n)
  show ?case
  proof (cases "kernel_half va")
    case True
    then show ?thesis using Suc.prems(2,3) by (simp add: kernel_half_none(3))
  next
    case False
    then obtain j where j: "i = Suc j" using Suc.prems(1) by (cases i) auto
    have k: "kernel_half (va + 1 + of_nat j)" using Suc.prems(1) unfolding j next_off .
    show ?thesis
    proof (cases "seek_page v c va page_base page")
      case (Some pg)
      obtain ok cs where n: "from_user_n_loop v c (va + 1) (va AND ADDR_MASK) pg n = (ok, cs)" by fastforce
      from Suc.IH [OF k lower_base_next [OF False] n] show ?thesis using Suc.prems(3) Some n j by auto
    qed (use Suc.prems(3) in simp)
  qed
qed simp

lemma to_user_loop_kernel:
  assumes "kernel_half (va + of_nat i)" "lower_base page_base" "i < length bs"
  shows "\<not> fst (to_user_loop c va page_base page bs v) \<and>
    snd (to_user_loop c va page_base page bs v) = snd (to_user_loop c va page_base page (take i bs) v)"
  using assms
proof (induction bs arbitrary: va i page_base page v)
  case (Cons b bs)
  show ?case
  proof (cases "kernel_half va")
    case True
    have "take i (b # bs) = [] \<or> (\<exists>cs. take i (b # bs) = b # cs)" by (cases i) auto
    then show ?thesis using kernel_half_none [OF True] Cons.prems(2) by (auto simp: Let_def)
  next
    case False
    then obtain j where j: "i = Suc j" using Cons.prems(1) by (cases i) auto
    have k: "kernel_half (va + 1 + of_nat j)" "j < length bs" using Cons.prems(1,3) unfolding j next_off by simp_all
    note IH = Cons.IH [OF k(1) lower_base_next [OF False] k(2)]
    show ?thesis
    proof (cases "va AND ADDR_MASK = page_base")
      case True
      then show ?thesis using IH j by (simp add: Let_def)
    next
      case ne: False
      obtain ok v1 where cb: "vmm_cow_break c va v = (ok, v1)" by fastforce
      show ?thesis
      proof (cases "vmm_translate_user c va v1")
        case None
        then show ?thesis using ne cb j by (simp add: Let_def)
      next
        case (Some ph)
        then show ?thesis using ne cb j IH by (simp add: Let_def)
      qed
    qed
  qed
qed simp

text \<open>
  C7. Kernel memory is out of reach of a system call's pointers. Whatever page tables the task has, and
  wherever a copy starts: if the address \<open>i\<close> bytes on is in one of the kernel's parts of the address space
  (the direct map and the kernel image), a copy in reads at most the \<open>i\<close> bytes before it, and a copy of
  more bytes fails, except that a string may end before; a copy out of more than \<open>i\<close> bytes fails and leaves
  the state that copying the first \<open>i\<close> bytes alone leaves. So a copy that starts there does nothing.
\<close>

theorem kernel_pointers_refused:
  assumes "kernel_half (p + of_nat i)" "copy_from_user p n s = (r1, bs1)" "copy_from_user_n p n s = (r2, bs2)" "copy_to_user p src s = (r3, s')"
  shows "length bs1 \<le> i \<and> (r1 \<longrightarrow> bs1 \<noteq> [] \<and> last bs1 = 0) \<and> length bs2 \<le> i \<and> (i < unat n \<longrightarrow> \<not> r2) \<and>
    (i < length src \<longrightarrow> \<not> r3 \<and> s' = snd (copy_to_user p (take i src) s)) \<and> (i = 0 \<longrightarrow> s' = s)"
proof -
  let ?c = "sched_current_cr3 s"
  have 1: "length bs1 \<le> i \<and> (r1 \<longrightarrow> bs1 \<noteq> [] \<and> last bs1 = 0)"
    by (rule from_user_loop_kernel [OF assms(1) lower_base_start assms(2) [unfolded copy_from_user_def]])
  have 2: "length bs2 \<le> i \<and> (i < unat n \<longrightarrow> \<not> r2)"
    by (rule from_user_n_loop_kernel [OF assms(1) lower_base_start assms(3) [unfolded copy_from_user_n_def]])
  have 3: "\<not> fst (copy_to_user_pml4 ?c p src v) \<and> snd (copy_to_user_pml4 ?c p src v) = snd (copy_to_user_pml4 ?c p (take i src) v)"
    if "i < length src" for v
    using to_user_loop_kernel [OF assms(1) lower_base_start that, of ?c 0 v] that
    by (cases "take i src = []") (auto simp: copy_to_user_pml4_def)
  have 4: "\<not> r3 \<and> s' = snd (copy_to_user p (take i src) s)" if "i < length src"
    using 3 [OF that, of "vm s"] assms(4) by (auto simp: copy_to_user_def split: prod.splits)
  have "s' = s" if "i = 0"
    using 4 that assms(4) by (cases src) (auto simp: copy_to_user_def copy_to_user_pml4_def)
  then show ?thesis using 1 2 4 by blast
qed

text \<open>A task with a page right below the kernel's half.\<close>

definition demo_top :: sched where
  "demo_top = demo_run\<lparr>vm := snd (vmm_map_user demo_root 0x7FFFFFFFF000 0x100000 demo_space)\<rparr>"

lemma demo_top_page:
  "vmm_translate_user demo_root 0x7FFFFFFFFFFE (vm demo_top) = Some 0x100FFE" "sched_current_cr3 demo_top = demo_root"
proof -
  let ?va = "0x7FFFFFFFF000 :: u64"
  obtain r v where run: "vmm_map_user demo_root ?va 0x100000 demo_space = (r, v)" by fastforce
  have fl: "vmm_map_user_flags demo_root ?va 0x100000 PTE_USER_FLAGS demo_space = (r, v)" using run by (simp add: vmm_map_user_def)
  have va: "pml4_ix ?va < 256" "aligned ?va" "pml4_ix 0x7FFFFFFFFFFE < 256" "aligned 0x100000" by (simp_all add: pml4_ix_def aligned_mod)
  have un: "user_page demo_space demo_root ?va = None" using demo_space_ok(2) [of ?va] va(1) by auto
  have R: "demo_root \<in> {demo_root}" by simp
  have r using map_user_flags_succeeds [OF spaces_okD(1) [OF demo_space_ok(1)] R va(1,2,4), of 0 PTE_USER_FLAGS] demo_space_ok(3) fl by auto
  moreover have "same_page 0x7FFFFFFFFFFE ?va" by (simp add: same_page_def va_place_def pml4_ix_def pdpt_ix_def pd_ix_def pt_ix_def)
  ultimately have "user_page v demo_root 0x7FFFFFFFFFFE = Some (0x100000, True, True)"
    using map_user_pages [OF demo_space_ok(1) R va(1) demo_space_ok(4) un run R va(3)] by simp
  moreover have "spaces_ok {demo_root} v"
    by (rule map_user_flags_ok(1) [OF demo_space_ok(1) R va(1) demo_space_ok(4) un [unfolded user_page_None] user_flags_ok fl])
  ultimately show "vmm_translate_user demo_root 0x7FFFFFFFFFFE (vm demo_top) = Some 0x100FFE"
    using translate_user_page [OF spaces_okD(1) R va(3), of v] run by (simp add: demo_top_def)
  show "sched_current_cr3 demo_top = demo_root" by (simp add: demo_top_def demo_run_current)
qed

theorem kernel_pointers_refused_witness:
  "\<exists>bs. copy_from_user_n 0x7FFFFFFFFFFE 4 demo_top = (False, bs) \<and> length bs = 2 \<and>
     copy_to_user 0xFFFFFFFF80000000 [1, 2, 3] demo_run = (False, demo_run)"
proof -
  obtain r1 bs1 where 1: "copy_from_user 0x7FFFFFFFFFFE 4 demo_top = (r1, bs1)" by fastforce
  obtain r2 bs2 where 2: "copy_from_user_n 0x7FFFFFFFFFFE 4 demo_top = (r2, bs2)" by fastforce
  obtain r3 s3 where 3: "copy_to_user 0x7FFFFFFFFFFE [] demo_top = (r3, s3)" by fastforce
  have k: "kernel_half (0x7FFFFFFFFFFE + of_nat 2)" by (simp add: kernel_half_def pml4_ix_def HHDM_PML4_INDEX_def)
  have two: "\<not> r2" "length bs2 \<le> 2" using kernel_pointers_refused [OF k 1 2 3] by simp_all
  have four: "unat (4 :: u64) = Suc (Suc (Suc (Suc 0)))" by simp
  have pg: "seek_page (vm demo_top) demo_root 0x7FFFFFFFFFFE (NOT 0) 0 = Some 0x100000"
    using no_page_yet [of "0x7FFFFFFFFFFE"] demo_top_page(1) by (simp add: seek_page_def) (simp add: ADDR_MASK_def)
  have pg2: "seek_page (vm demo_top) demo_root (0x7FFFFFFFFFFE + 1) (0x7FFFFFFFFFFE AND ADDR_MASK) 0x100000 = Some 0x100000"
    by (simp add: seek_page_def ADDR_MASK_def)
  have "2 \<le> length bs2" using 2 unfolding copy_from_user_n_def demo_top_page(2) four from_user_n_loop.simps(2) pg pg2 option.case
    by (auto split: prod.splits)
  obtain q1 cs1 where 4: "copy_from_user 0xFFFFFFFF80000000 1 demo_run = (q1, cs1)" by fastforce
  obtain q2 cs2 where 5: "copy_from_user_n 0xFFFFFFFF80000000 1 demo_run = (q2, cs2)" by fastforce
  obtain q3 t3 where 6: "copy_to_user 0xFFFFFFFF80000000 [1, 2, 3] demo_run = (q3, t3)" by fastforce
  have k0: "kernel_half (0xFFFFFFFF80000000 + of_nat 0)" by (simp add: kernel_half_def pml4_ix_def KERNEL_PML4_INDEX_def)
  have "copy_to_user 0xFFFFFFFF80000000 [1, 2, 3] demo_run = (False, demo_run)" using kernel_pointers_refused [OF k0 4 5 6] 6 by auto
  then show ?thesis using 2 two \<open>2 \<le> length bs2\<close> by simp
qed

end
