(* ===== verification/User_Mem.thy ===== *)
theory User_Mem
  imports User_Copy
begin

text \<open>
  The memory calls of \<open>kernel/user.c\<close>: \<open>user_brk\<close>, the page loop of \<open>user_mmap\<close>, \<open>user_munmap\<close>,
  \<open>user_mprotect\<close> and \<open>user_fork\<close>, on the state of the scheduler, which holds the memory. A result
  of -1 is the word \<open>- 1\<close>. Loops over pages count them: the bounds of every such loop are multiples
  of the page size.
\<close>

section \<open>Operations\<close>

definition KERNEL_STACK_MIN :: u64 where "KERNEL_STACK_MIN = 0x200000"
definition USER_HEAP_PAGES :: u64 where "USER_HEAP_PAGES = 16"
definition USER_MMAP_PAGES :: u64 where "USER_MMAP_PAGES = 16"
definition PROT_READ :: u64 where "PROT_READ = 1"
definition PROT_WRITE :: u64 where "PROT_WRITE = 2"

text \<open>A run of byte stores from the start of a page.\<close>

fun poke_bytes :: "u64 \<Rightarrow> nat \<Rightarrow> u8 list \<Rightarrow> vmm \<Rightarrow> vmm" where
  "poke_bytes page i [] v = v"
| "poke_bytes page i (b # bs) v = poke_bytes page (Suc i) bs (set_page_byte page (of_nat i) b v)"

definition zero_page :: "u64 \<Rightarrow> vmm \<Rightarrow> vmm" where
  "zero_page phys v = poke_bytes phys 0 (replicate 4096 0) v"

definition alloc_user_page :: "vmm \<Rightarrow> u64 \<times> vmm" where
  "alloc_user_page v =
     (case (case alloc_page_above KERNEL_STACK_MIN v of (p, v1) \<Rightarrow> if p = 0 then alloc_page v1 else (p, v1)) of
        (phys, v2) \<Rightarrow> (phys, if phys \<noteq> 0 then zero_page phys v2 else v2))"

definition page_up :: "u64 \<Rightarrow> u64" where
  "page_up addr = (addr + PAGE_4K - 1) AND NOT (PAGE_4K - 1)"

fun unmap_back :: "u64 \<Rightarrow> u64 \<Rightarrow> nat \<Rightarrow> vmm \<Rightarrow> vmm" where
  "unmap_back c va 0 v = v"
| "unmap_back c va (Suc k) v = unmap_back c (va - PAGE_4K) k (snd (vmm_unmap_user c (va - PAGE_4K) v))"

text \<open>
  The growing loop of \<open>user_brk\<close> and the one of \<open>user_mmap\<close>: \<open>n\<close> pages from \<open>va\<close> on, of which
  \<open>k\<close> are mapped already, are allocated, filled and mapped; a failure undoes the ones before it.
  \<open>src\<close> is what goes into page \<open>k\<close>.
\<close>

fun map_pages :: "u64 \<Rightarrow> (nat \<Rightarrow> u8 list) \<Rightarrow> u64 \<Rightarrow> nat \<Rightarrow> nat \<Rightarrow> vmm \<Rightarrow> bool \<times> vmm" where
  "map_pages c src va k 0 v = (True, v)"
| "map_pages c src va k (Suc n) v =
     (case alloc_user_page v of (phys, v1) \<Rightarrow>
        if phys = 0 then (False, unmap_back c va k v1)
        else case vmm_map_user c va phys (poke_bytes phys 0 (src k) v1) of (ok, v2) \<Rightarrow>
          if \<not> ok then (False, unmap_back c va k (free_page phys v2))
          else map_pages c src (va + PAGE_4K) (Suc k) n v2)"

fun unmap_pages :: "u64 \<Rightarrow> u64 \<Rightarrow> nat \<Rightarrow> vmm \<Rightarrow> bool \<times> vmm" where
  "unmap_pages c va 0 v = (True, v)"
| "unmap_pages c va (Suc n) v =
     (case vmm_unmap_user c va v of (ok, v1) \<Rightarrow> if \<not> ok then (False, v1) else unmap_pages c (va + PAGE_4K) n v1)"

definition user_brk :: "u64 \<Rightarrow> sched \<Rightarrow> u64 \<times> sched" where
  "user_brk want s =
     (let c = sched_current_cr3 s; base = sched_current_base s in
      if c = 0 \<or> c = vmm_boot_cr3 \<or> base = 0 then (- 1, s)
      else let start = base + 2 * PAGE_4K; mx = start + USER_HEAP_PAGES * PAGE_4K;
               b = sched_current_brk s; old = (if b < start \<or> b > mx then start else b)
        in if want = 0 then (old, s)
           else if want < start \<or> want > mx then (- 1, s)
           else let old_end = page_up old; new_end = page_up want in
             case (if new_end > old_end then map_pages c (\<lambda>_. []) old_end 0 (unat (new_end - old_end) div 4096) (vm s)
                   else if new_end < old_end then unmap_pages c new_end (unat (old_end - new_end) div 4096) (vm s)
                   else (True, vm s)) of
               (ok, v) \<Rightarrow> if \<not> ok then (- 1, s\<lparr>vm := v\<rparr>) else (want, sched_set_brk want (s\<lparr>vm := v\<rparr>)))"

section \<open>Fresh pages\<close>

lemma alloc_user_page_frame:
  "alloc_user_page v = (case alloc_frame v of (p, v1) \<Rightarrow> (p, if p \<noteq> 0 then zero_page p v1 else v1))"
  by (simp add: alloc_user_page_def alloc_frame_def KERNEL_STACK_MIN_def)

lemma of_nat_off: "i < 4096 \<Longrightarrow> unat (of_nat i :: u64) = i \<and> drop_bit 3 (of_nat i :: u64) < 512"
proof -
  assume i: "i < 4096"
  then have u: "unat (of_nat i :: u64) = i" by (simp add: unat_of_nat)
  moreover have "unat (drop_bit 3 (of_nat i :: u64)) < 512" using i by (simp only: unat_drop_3 u)
  ultimately show ?thesis by (simp add: word_less_nat_alt)
qed

lemma steps_one: "vm_step (S, v) (S', v') \<Longrightarrow> vm_step\<^sup>*\<^sup>* (S, v) (S', v')"
  by (rule r_into_rtranclp)

lemma steps_first: "vm_step (S, v) (S', v') \<Longrightarrow> vm_step\<^sup>*\<^sup>* (S', v') (T, w) \<Longrightarrow> vm_step\<^sup>*\<^sup>* (S, v) (T, w)"
  by (rule converse_rtranclp_into_rtranclp)

lemma steps_trans: "vm_step\<^sup>*\<^sup>* (S, v) (S', v') \<Longrightarrow> vm_step\<^sup>*\<^sup>* (S', v') (T, w) \<Longrightarrow> vm_step\<^sup>*\<^sup>* (S, v) (T, w)"
  by (rule rtranclp_trans)

lemma poke_bytes_steps:
  assumes "fresh S v p" "spaces_ok S v" "exclusive S v" "i + length bs \<le> 4096"
  shows "vm_step\<^sup>*\<^sup>* (S, v) (S, poke_bytes p i bs v)" "fresh S (poke_bytes p i bs v) p"
    "pm (poke_bytes p i bs v) = pm v" "\<And>R q j. R \<in> S \<Longrightarrow> leaf_place q j \<Longrightarrow> pte (poke_bytes p i bs v) R q j = pte v R q j"
    "aligned a \<Longrightarrow> x < 4096 \<Longrightarrow> page_byte (poke_bytes p i bs v) a (of_nat x) =
      (if a = p \<and> i \<le> x \<and> x < i + length bs then bs ! (x - i) else page_byte v a (of_nat x))"
proof -
  have "vm_step\<^sup>*\<^sup>* (S, v) (S, poke_bytes p i bs v) \<and> fresh S (poke_bytes p i bs v) p \<and> pm (poke_bytes p i bs v) = pm v \<and>
    (\<forall>R \<in> S. \<forall>q j. leaf_place q j \<longrightarrow> pte (poke_bytes p i bs v) R q j = pte v R q j) \<and>
    (\<forall>a x. aligned a \<longrightarrow> x < 4096 \<longrightarrow> page_byte (poke_bytes p i bs v) a (of_nat x) =
      (if a = p \<and> i \<le> x \<and> x < i + length bs then bs ! (x - i) else page_byte v a (of_nat x)))"
    using assms
  proof (induction bs arbitrary: i v)
    case Nil
    then show ?case by auto
  next
    case (Cons b bs)
    let ?o = "of_nat i :: u64" and ?v = "set_page_byte p (of_nat i) b v"
    have i: "i < 4096" "Suc i + length bs \<le> 4096" using Cons.prems(4) by auto
    obtain w where w: "?v = tab_set p (drop_bit 3 ?o) w v" unfolding set_page_byte_def Let_def by blast
    have p: "aligned p" "\<forall>R \<in> S. \<forall>q. vpath q \<longrightarrow> node v R q \<noteq> Some p" using Cons.prems(1) by (auto simp: fresh_def)
    note o = conjunct2 [OF of_nat_off [OF i(1)]]
    note W = write_ok [OF Cons.prems(2) p o, where w = w, folded w]
    have st: "vm_step (S, v) (S, ?v)" unfolding w by (rule vm_step.fill [OF Cons.prems(1) o])
    have pm: "pm ?v = pm v" by (simp add: w)
    then have fr: "fresh S ?v p" using Cons.prems(1) W(3,4) by (simp add: fresh_def is_free_def)
    have "vm_ok S ?v" by (rule vm_ok_step [OF st]) (use Cons.prems in \<open>simp add: vm_ok_def\<close>)
    then have ok: "spaces_ok S ?v" "exclusive S ?v" by (simp_all add: vm_ok_def)
    note IH = Cons.IH [OF fr ok i(2)]
    have bt: "page_byte ?v a (of_nat x) = (if a = p \<and> x = i then b else page_byte v a (of_nat x))"
      if "aligned a" "x < 4096" for a x
    proof -
      have "(of_nat x :: u64) = of_nat i \<longleftrightarrow> x = i" using of_nat_off [OF that(2)] of_nat_off [OF i(1)] by metis
      then show ?thesis using page_byte_set [OF that(1) p(1) o conjunct2 [OF of_nat_off [OF that(2)]]] by simp
    qed
    have "page_byte (poke_bytes p (Suc i) bs ?v) a (of_nat x) =
        (if a = p \<and> i \<le> x \<and> x < i + length (b # bs) then (b # bs) ! (x - i) else page_byte v a (of_nat x))"
      if "aligned a" "x < 4096" for a x
      using IH bt [OF that] that by (auto simp: nth_Cons' Suc_diff_le)
    then show ?case using IH pm W(2) steps_first [OF st] by simp
  qed
  then show "vm_step\<^sup>*\<^sup>* (S, v) (S, poke_bytes p i bs v)" "fresh S (poke_bytes p i bs v) p" "pm (poke_bytes p i bs v) = pm v"
    "\<And>R q j. R \<in> S \<Longrightarrow> leaf_place q j \<Longrightarrow> pte (poke_bytes p i bs v) R q j = pte v R q j"
    "aligned a \<Longrightarrow> x < 4096 \<Longrightarrow> page_byte (poke_bytes p i bs v) a (of_nat x) =
      (if a = p \<and> i \<le> x \<and> x < i + length bs then bs ! (x - i) else page_byte v a (of_nat x))" by blast+
qed

section \<open>Views of memory\<close>

text \<open>What a task sees at an address: its page and the byte there.\<close>

definition sees :: "vmm \<Rightarrow> u64 \<Rightarrow> u64 \<Rightarrow> (u64 \<times> bool \<times> bool) option \<times> u8 option" where
  "sees v R wa = (user_page v R wa, user_byte v R wa)"

definition same_view :: "u64 set \<Rightarrow> vmm \<Rightarrow> vmm \<Rightarrow> bool" where
  "same_view S v v' \<longleftrightarrow> (\<forall>R \<in> S. \<forall>wa. pml4_ix wa < 256 \<longrightarrow> sees v' R wa = sees v R wa)"

lemma same_view_refl [simp]: "same_view S v v"
  by (simp add: same_view_def)

lemma same_view_trans: "same_view S v v1 \<Longrightarrow> same_view S v1 v' \<Longrightarrow> same_view S v v'"
  by (simp add: same_view_def)

lemma page_byte_nat: "page_byte v a (wa AND 0xFFF) = page_byte v a (of_nat (unat (wa AND 0xFFF)))"
  by (simp only: word_of_unat)

lemma user_byte_eq:
  assumes "user_page v' R wa = user_page v R wa"
    "\<And>a w. user_page v R wa = Some (a, w) \<Longrightarrow> page_byte v' a (wa AND 0xFFF) = page_byte v a (wa AND 0xFFF)"
  shows "sees v' R wa = sees v R wa"
  using assms by (cases "user_page v R wa") (auto simp: sees_def user_byte_def)

lemma same_viewI:
  assumes "\<And>R q j. R \<in> S \<Longrightarrow> leaf_place q j \<Longrightarrow> pte v' R q j = pte v R q j"
    "\<And>a x. maps S v a \<noteq> {} \<Longrightarrow> x < 4096 \<Longrightarrow> page_byte v' a (of_nat x) = page_byte v a (of_nat x)"
  shows "same_view S v v'"
  unfolding same_view_def
proof (intro ballI allI impI)
  fix R wa assume w: "R \<in> S" "pml4_ix wa < 256"
  show "sees v' R wa = sees v R wa"
  proof (rule user_byte_eq)
    show "user_page v' R wa = user_page v R wa" using assms(1) w by (intro page_cong) auto
    fix a t assume "user_page v R wa = Some (a, t)"
    then have "maps S v a \<noteq> {}" using user_page_here [OF w, of v a "fst t" "snd t"] by auto
    then show "page_byte v' a (wa AND 0xFFF) = page_byte v a (wa AND 0xFFF)"
      unfolding page_byte_nat by (rule assms(2)) (rule page_off(1))
  qed
qed

lemma page_byte_cong: "x < 4096 \<Longrightarrow> (\<And>j. j < 512 \<Longrightarrow> tab_get v' a j = tab_get v a j) \<Longrightarrow>
    page_byte v' a (of_nat x) = page_byte v a (of_nat x)"
  using of_nat_off [of x] by (simp add: page_byte_def)

lemma poke_bytes_view:
  assumes "fresh S v p" "vm_ok S v" "i + length bs \<le> 4096"
  shows "same_view S v (poke_bytes p i bs v)"
proof (rule same_viewI)
  have ok: "spaces_ok S v" "exclusive S v" using assms(2) by (simp_all add: vm_ok_def)
  note P = poke_bytes_steps [OF assms(1) ok assms(3)]
  show "pte (poke_bytes p i bs v) R q j = pte v R q j" if "R \<in> S" "leaf_place q j" for R q j using P(4) that by blast
  show "page_byte (poke_bytes p i bs v) a (of_nat x) = page_byte v a (of_nat x)" if "maps S v a \<noteq> {}" "x < 4096" for a x
    using P(5) [OF maps_aligned [OF that(1)] that(2)] that(1) assms(1) by (auto simp: fresh_def)
qed

lemma vm_ok_pmm: "vm_ok S v \<Longrightarrow> pmm_inv (pm v)"
  by (simp add: vm_ok_def spaces_ok_def trees_ok_def)

lemma free_unused: "spaces_ok S v \<Longrightarrow> is_free v p \<Longrightarrow> \<not> used S v p"
  using used_not_free by blast

text \<open>A page from \<open>alloc_page\<close>: nobody uses it and it is zero; nobody's view changes.\<close>

lemma alloc_user_page_ok:
  assumes ok: "vm_ok S v" and al: "alloc_user_page v = (p, v')"
  shows "vm_step\<^sup>*\<^sup>* (S, v) (S, v')" "same_view S v v'" "p = 0 \<Longrightarrow> v' = v \<and> free_frames (pm v) = {}"
    "p \<noteq> 0 \<Longrightarrow> fresh S v' p \<and> (\<forall>x < 4096. page_byte v' p (of_nat x) = 0) \<and>
       free_frames (pm v') = free_frames (pm v) - {unat p div 4096} \<and> unat p div 4096 \<in> free_frames (pm v)"
proof -
  have sp: "spaces_ok S v" and inv: "pmm_inv (pm v)" using ok vm_ok_pmm by (auto simp: vm_ok_def)
  obtain q v1 where fr: "alloc_frame v = (q, v1)" by fastforce
  then have pq: "p = q" "v' = (if p \<noteq> 0 then zero_page p v1 else v1)" using al by (auto simp: alloc_user_page_frame)
  note A = alloc_frame_ok [OF inv fr]
  obtain r v2 where r: "alloc_page_above PAGE_2M v = (r, v2)" by fastforce
  have s1: "vm_step (S, v) (S, v2)" by (rule vm_step.alloc_above [OF r])
  have s2: "vm_step\<^sup>*\<^sup>* (S, v2) (S, v1)"
  proof (cases "r = 0")
    case True
    then show ?thesis using fr r by (intro steps_one vm_step.alloc) (simp add: alloc_frame_def)
  next
    case False
    then show ?thesis using fr r by (simp add: alloc_frame_def)
  qed
  have s: "vm_step\<^sup>*\<^sup>* (S, v) (S, v1)" by (rule steps_first [OF s1 s2])
  show "p = 0 \<Longrightarrow> v' = v \<and> free_frames (pm v) = {}" using A pq alloc_frame_some [OF inv] fr by auto
  note ok1 = vm_ok_steps [OF s ok]
  have ok2: "spaces_ok S v1" "exclusive S v1" using ok1 by (simp_all add: vm_ok_def)
  have main: "vm_step\<^sup>*\<^sup>* (S, v) (S, v') \<and> same_view S v v' \<and> fresh S v' p \<and> (\<forall>x < 4096. page_byte v' p (of_nat x) = 0) \<and>
      free_frames (pm v') = free_frames (pm v) - {unat p div 4096} \<and> unat p div 4096 \<in> free_frames (pm v)" if p: "p \<noteq> 0"
  proof -
    obtain m where m: "v1 = v\<lparr>pm := m\<rparr>" "aligned p" "is_free v p" "free_frames (pm v1) = free_frames (pm v) - {unat p div 4096}"
      using A pq(1) p by auto
    have "\<not> used S v p" using free_unused [OF sp] m(3) by simp
    then have f1: "fresh S v1 p" using m by (auto simp: fresh_def used_def is_free_def)
    have len: "0 + length (replicate 4096 (0 :: u8)) \<le> 4096" by simp
    note P = poke_bytes_steps [OF f1 ok2 len]
    have v': "v' = poke_bytes p 0 (replicate 4096 0) v1" using pq p by (simp add: zero_page_def)
    have "same_view S v v1" by (rule same_viewI) (simp_all add: m(1) page_byte_def tab_get_def)
    then have "same_view S v v'" using same_view_trans poke_bytes_view [OF f1 ok1 len] v' by blast
    moreover have "page_byte v' p (of_nat x) = 0" if "x < 4096" for x using P(5) [OF m(2) that] that by (simp add: v')
    ultimately show ?thesis using steps_trans [OF s P(1)] P(2,3) m(3,4) by (auto simp: v' is_free_def)
  qed
  show "p \<noteq> 0 \<Longrightarrow> fresh S v' p \<and> (\<forall>x < 4096. page_byte v' p (of_nat x) = 0) \<and>
       free_frames (pm v') = free_frames (pm v) - {unat p div 4096} \<and> unat p div 4096 \<in> free_frames (pm v)"
    using main by blast
  show "vm_step\<^sup>*\<^sup>* (S, v) (S, v')" using main A pq by (cases "p = 0") auto
  show "same_view S v v'" using main A pq by (cases "p = 0") auto
qed

lemma map_user_view:
  assumes ok: "vm_ok S v" and R: "R \<in> S" and va: "pml4_ix va < 256" and fr: "fresh S v p" and un: "user_page v R va = None"
    and run: "vmm_map_user R va p v = (r, v')"
  shows "vm_step (S, v) (S, v')"
    "R' \<in> S \<Longrightarrow> pml4_ix wa < 256 \<Longrightarrow> sees v' R' wa = (if r \<and> R' = R \<and> same_page wa va
       then (Some (p, True, True), Some (page_byte v p (wa AND 0xFFF))) else sees v R' wa)"
    "\<not> r \<Longrightarrow> fresh S v' p" "aligned va \<Longrightarrow> m + 3 \<le> card (free_frames (pm v)) \<Longrightarrow> r \<and> m \<le> card (free_frames (pm v'))"
proof -
  have sp: "spaces_ok S v" using ok by (simp add: vm_ok_def)
  have al: "aligned p" using fr by (simp add: fresh_def)
  have fl: "vmm_map_user_flags R va p PTE_USER_FLAGS v = (r, v')" using run by (simp add: vmm_map_user_def)
  show st: "vm_step (S, v) (S, v')" by (rule vm_step.map [OF R va fr un run])
  note M = map_flags_trees [OF spaces_okD(1) [OF sp] R va al user_flags_ok fl]
  have cont: "page_byte v' a (of_nat x) = page_byte v a (of_nat x)" if "a = p \<or> maps S v a \<noteq> {}" "x < 4096" for a x
  proof (rule page_byte_cong [OF that(2)])
    have "aligned a" "\<not> is_free v a" "\<forall>q. vpath q \<longrightarrow> node v R q \<noteq> Some a"
      using that(1) fr R maps_aligned spaces_okD(6,7) [OF sp] unfolding fresh_def by blast+
    then show "tab_get v' a j = tab_get v a j" if "j < 512" for j using M(8) that by blast
  qed
  show "sees v' R' wa = (if r \<and> R' = R \<and> same_page wa va
       then (Some (p, True, True), Some (page_byte v p (wa AND 0xFFF))) else sees v R' wa)"
    if w: "R' \<in> S" "pml4_ix wa < 256"
  proof (cases "r \<and> R' = R \<and> same_page wa va")
    case True
    have "page_byte v' p (wa AND 0xFFF) = page_byte v p (wa AND 0xFFF)"
      unfolding page_byte_nat using page_off(1) by (intro cont) auto
    then show ?thesis using True map_user_pages [OF sp R va fr un run w] by (simp add: sees_def user_byte_def)
  next
    case False
    then have u: "user_page v' R' wa = user_page v R' wa" using map_user_pages [OF sp R va fr un run w] by auto
    have "page_byte v' a (wa AND 0xFFF) = page_byte v a (wa AND 0xFFF)" if "user_page v R' wa = Some (a, t)" for a t
    proof -
      have "maps S v a \<noteq> {}" using user_page_here [OF w, of v a "fst t" "snd t"] that by auto
      then show ?thesis unfolding page_byte_nat using page_off(1) by (intro cont) auto
    qed
    from user_byte_eq [OF u this] show ?thesis using False by auto
  qed
  show "aligned va \<Longrightarrow> m + 3 \<le> card (free_frames (pm v)) \<Longrightarrow> r \<and> m \<le> card (free_frames (pm v'))"
    using map_user_flags_succeeds [OF spaces_okD(1) [OF sp] R va _ al, of m PTE_USER_FLAGS] fl by auto
  show "fresh S v' p" if r: "\<not> r"
  proof -
    have "pte v' R' q j = pte v R' q j" if "R' \<in> S" "leaf_place q j" for R' q j using M(7) [OF that] r by simp
    then have "maps S v' p = maps S v p" by (auto simp: maps_def)
    then show ?thesis using fr M(4) [of p] M(5) [of _ _ p] by (auto simp: fresh_def)
  qed
qed

lemma unmap_user_view:
  assumes ok: "vm_ok S v" and R: "R \<in> S" and va: "pml4_ix va < 256" and run: "vmm_unmap_user R va v = (r, v')"
  shows "vm_step (S, v) (S, v')" "r \<longleftrightarrow> aligned va \<and> user_page v R va \<noteq> None"
    "R' \<in> S \<Longrightarrow> pml4_ix wa < 256 \<Longrightarrow>
       sees v' R' wa = (if r \<and> R' = R \<and> same_page wa va then (None, None) else sees v R' wa)"
proof -
  have sp: "spaces_ok S v" using ok by (simp add: vm_ok_def)
  show "vm_step (S, v) (S, v')" by (rule vm_step.unmap [OF R va run])
  note U = unmap_user_ok [OF sp R va run]
  have al: "r \<Longrightarrow> aligned va" using run by (auto simp: vmm_unmap_user_def aligned_4095 split: if_splits)
  show r: "r \<longleftrightarrow> aligned va \<and> user_page v R va \<noteq> None" using U(2) al by (auto simp: user_page_None split: if_splits)
  have cont: "tab_get v' a j = tab_get v a j" if a: "maps S v a \<noteq> {}" and j: "j < 512" for a j
  proof (cases r)
    case False
    then show ?thesis using U(2) by simp
  next
    case True
    obtain t where t: "node v R (va_place va) = Some t" "pte v R (va_place va) (pt_ix va) = tab_get v t (pt_ix va)"
      using U(2) True pte_mapped_node [of v R "va_place va" "pt_ix va"] by auto
    have lp: "vpath (va_place va)" using leaf_place_va [OF va] by (simp add: leaf_place_def)
    have "v' = cow_free_leaf (tab_get v t (pt_ix va) AND ADDR_MASK) (tab_set t (pt_ix va) 0 v)"
      using run True t(1) unfolding vmm_unmap_user_def walk_pt_table_entry [OF spaces_okD(1) [OF sp] R va]
      by (auto simp: Let_def split: if_splits)
    moreover have "aligned t" using trees_okD(3) [OF spaces_okD(1) [OF sp] R] node_aligned t(1) by blast
    moreover have "a \<noteq> t" using spaces_okD(7) [OF sp a R lp] t(1) by auto
    ultimately show ?thesis using tab_get_set [of t a "pt_ix va" j 0 v] maps_aligned [OF a] j by simp
  qed
  show "sees v' R' wa = (if r \<and> R' = R \<and> same_page wa va then (None, None) else sees v R' wa)"
    if w: "R' \<in> S" "pml4_ix wa < 256"
  proof -
    have P: "r \<Longrightarrow> user_page v' R' wa = (if R' = R \<and> same_page wa va then None else user_page v R' wa)"
      using pte_upd_page [OF _ w, of v v' R va 0] U(2) by simp
    show ?thesis
    proof (cases "r \<and> \<not> (R' = R \<and> same_page wa va)")
      case True
      then have u: "user_page v' R' wa = user_page v R' wa" using P by auto
      have "page_byte v' a (wa AND 0xFFF) = page_byte v a (wa AND 0xFFF)" if "user_page v R' wa = Some (a, t)" for a t
      proof -
        have "maps S v a \<noteq> {}" using user_page_here [OF w, of v a "fst t" "snd t"] that by auto
        then show ?thesis unfolding page_byte_nat using page_off(1) cont by (intro page_byte_cong) auto
      qed
      from user_byte_eq [OF u this] show ?thesis using True by auto
    next
      case False
      then show ?thesis using P U(2) by (auto simp: sees_def user_byte_def split: if_splits)
    qed
  qed
qed

lemma free_page_view:
  assumes ok: "vm_ok S v" and fr: "fresh S v p"
  shows "vm_step (S, v) (S, free_page p v)" "same_view S v (free_page p v)"
proof -
  show "vm_step (S, v) (S, free_page p v)" by (rule vm_step.release [OF fr])
  have sp: "spaces_ok S v" using ok by (simp add: vm_ok_def)
  show "same_view S v (free_page p v)"
    by (rule same_viewI) (use free_spaces_ok(4) [OF sp vm_ok_pmm [OF ok] fr] in \<open>simp_all add: free_page_def page_byte_def tab_get_def\<close>)
qed


section \<open>Ranges of pages\<close>

lemma same_page_nat:
  assumes "unat va < 2 ^ 47" "unat wa < 2 ^ 47"
  shows "same_page wa va \<longleftrightarrow> unat wa div 4096 = unat va div 4096"
proof -
  have m: "unat (x AND ADDR_MASK) = unat x div 4096 * 4096" for x :: u64
    unfolding ADDR_MASK_mask unat_and_not_mask by simp
  have z: "(x AND ADDR_MASK) AND 0xFFF = 0" for x :: u64 by (simp only: aligned_4095 aligned_mask)
  have le: "unat (x AND ADDR_MASK) \<le> unat x" for x :: u64 unfolding m by simp
  show ?thesis
  proof
    assume "same_page wa va"
    then have "same_page (wa AND ADDR_MASK) (va AND ADDR_MASK)" by (simp add: same_page_def)
    then have "wa AND ADDR_MASK = va AND ADDR_MASK"
      by (rule same_address [OF order_le_less_trans [OF le assms(1)] order_le_less_trans [OF le assms(2)]]) (simp only: z)
    then have "unat wa div 4096 * 4096 = unat va div 4096 * 4096" by (metis m)
    then show "unat wa div 4096 = unat va div 4096" by simp
  next
    assume "unat wa div 4096 = unat va div 4096"
    then have "wa AND ADDR_MASK = va AND ADDR_MASK" by (intro word_eq_by_unat) (simp only: m)
    then show "same_page wa va" by (metis same_page_def va_mask(4) va_place_mask)
  qed
qed

text \<open>\<open>k\<close> new pages from \<open>lo\<close> on with the contents \<open>g\<close>; every other view is the one of \<open>v0\<close>.\<close>

definition grown :: "u64 set \<Rightarrow> u64 \<Rightarrow> u64 \<Rightarrow> nat \<Rightarrow> (nat \<Rightarrow> u8) \<Rightarrow> vmm \<Rightarrow> vmm \<Rightarrow> bool" where
  "grown S R lo k g v0 v \<longleftrightarrow> (\<forall>R' \<in> S. \<forall>wa :: u64. unat wa < 2 ^ 47 \<longrightarrow>
     (if R' = R \<and> unat lo \<le> unat wa \<and> unat wa < unat lo + k * 4096
      then \<exists>a. sees v R' wa = (Some (a, True, True), Some (g (unat wa - unat lo))) else sees v R' wa = sees v0 R' wa))"

definition unmapped :: "vmm \<Rightarrow> u64 \<Rightarrow> u64 \<Rightarrow> nat \<Rightarrow> bool" where
  "unmapped v R lo n \<longleftrightarrow> (\<forall>wa :: u64. unat lo \<le> unat wa \<and> unat wa < unat lo + n * 4096 \<longrightarrow> user_page v R wa = None)"

lemma grown_0: "grown S R lo 0 g v0 v \<longleftrightarrow> (\<forall>R' \<in> S. \<forall>wa :: u64. unat wa < 2 ^ 47 \<longrightarrow> sees v R' wa = sees v0 R' wa)"
  by (auto simp: grown_def)

lemma grown_refl: "grown S R lo 0 g v v"
  by (simp add: grown_0)

lemma grown_same: "grown S R lo k g v0 v \<Longrightarrow> same_view S v v' \<Longrightarrow> grown S R lo k g v0 v'"
  unfolding grown_def same_view_def using pml4_ix_low by (metis (no_types, lifting))

lemma page_nat: "unat lo + k * 4096 < 2 ^ 47 \<Longrightarrow> unat (lo + of_nat k * PAGE_4K) = unat lo + k * 4096"
  by (simp add: unat_word_ariths unat_of_nat)

lemma page_aligned:
  assumes "aligned lo" "unat lo + k * 4096 < 2 ^ 47"
  shows "aligned (lo + of_nat k * PAGE_4K)"
  using assms unfolding aligned_mod page_nat [OF assms(2)] by simp

text \<open>An address of page \<open>k\<close>.\<close>

lemma in_page:
  assumes "aligned lo" "unat lo + Suc k * 4096 \<le> 2 ^ 47" "unat wa < 2 ^ 47"
  shows "same_page wa (lo + of_nat k * PAGE_4K) \<longleftrightarrow> unat lo + k * 4096 \<le> unat wa \<and> unat wa < unat lo + Suc k * 4096"
    "same_page wa (lo + of_nat k * PAGE_4K) \<Longrightarrow> unat wa - unat lo = k * 4096 + unat (wa AND 0xFFF)"
proof -
  have k: "unat lo + k * 4096 < 2 ^ 47" using assms(2) by simp
  obtain m where m: "unat lo = m * 4096" using assms(1) by (auto simp: aligned_mod mod_eq_0_iff_dvd elim!: dvdE)
  have "same_page wa (lo + of_nat k * PAGE_4K) \<longleftrightarrow> unat wa div 4096 = m + k"
    using same_page_nat [OF _ assms(3), of "lo + of_nat k * PAGE_4K"] k unfolding page_nat [OF k] m by simp
  then have s: "same_page wa (lo + of_nat k * PAGE_4K) \<longleftrightarrow> (m + k) * 4096 \<le> unat wa \<and> unat wa < (m + k) * 4096 + 4096"
    by (auto simp: div_nat_eqI) (simp add: dividend_less_times_div)?
  show "same_page wa (lo + of_nat k * PAGE_4K) \<longleftrightarrow> unat lo + k * 4096 \<le> unat wa \<and> unat wa < unat lo + Suc k * 4096"
    unfolding s m by (simp add: algebra_simps)
  assume "same_page wa (lo + of_nat k * PAGE_4K)"
  then obtain d where d: "unat wa = (m + k) * 4096 + d" "d < 4096" unfolding s by (metis le_Suc_ex nat_add_left_cancel_less)
  then have "unat (wa AND 0xFFF) = d" unfolding unat_and_4095 by (simp only: mod_mult_self3) simp
  then show "unat wa - unat lo = k * 4096 + unat (wa AND 0xFFF)" using d m by (simp add: algebra_simps)
qed

lemma grown_Suc:
  assumes g: "grown S R lo k g v0 v" and lo: "aligned lo" "unat lo + Suc k * 4096 \<le> 2 ^ 47"
    and up: "\<And>R' wa. R' \<in> S \<Longrightarrow> pml4_ix wa < 256 \<Longrightarrow> sees v' R' wa = (if R' = R \<and> same_page wa (lo + of_nat k * PAGE_4K)
       then (Some (p, True, True), Some (page_byte v p (wa AND 0xFFF))) else sees v R' wa)"
    and pg: "\<And>x. x < 4096 \<Longrightarrow> page_byte v p (of_nat x) = g (k * 4096 + x)"
  shows "grown S R lo (Suc k) g v0 v'"
  unfolding grown_def
proof (intro ballI allI impI)
  fix R' and wa :: u64 assume w: "R' \<in> S" "unat wa < 2 ^ 47"
  note I = in_page [OF lo w(2)] and U = up [OF w(1) pml4_ix_low [OF w(2)]] and G = g [unfolded grown_def, rule_format, OF w]
  show "if R' = R \<and> unat lo \<le> unat wa \<and> unat wa < unat lo + Suc k * 4096
    then \<exists>a. sees v' R' wa = (Some (a, True, True), Some (g (unat wa - unat lo))) else sees v' R' wa = sees v0 R' wa"
  proof (cases "R' = R \<and> same_page wa (lo + of_nat k * PAGE_4K)")
    case True
    have "page_byte v p (wa AND 0xFFF) = g (unat wa - unat lo)"
      using pg [OF page_off(1) [of wa]] I(2) True by (simp only: word_of_unat)
    then show ?thesis using True U I(1) by simp
  next
    case False
    then have eq: "R' = R \<and> unat lo \<le> unat wa \<and> unat wa < unat lo + Suc k * 4096 \<longleftrightarrow>
        R' = R \<and> unat lo \<le> unat wa \<and> unat wa < unat lo + k * 4096" using I(1) by auto
    have same: "sees v' R' wa = sees v R' wa" using U False by auto
    show ?thesis unfolding same eq by (rule G)
  qed
qed

lemma grown_drop:
  assumes g: "grown S R lo (Suc k) g v0 v" and lo: "aligned lo" "unat lo + Suc k * 4096 \<le> 2 ^ 47" and un: "unmapped v0 R lo (Suc k)"
    and up: "\<And>R' wa. R' \<in> S \<Longrightarrow> pml4_ix wa < 256 \<Longrightarrow> sees v' R' wa =
      (if R' = R \<and> same_page wa (lo + of_nat k * PAGE_4K) then (None, None) else sees v R' wa)"
  shows "grown S R lo k g v0 v'"
  unfolding grown_def
proof (intro ballI allI impI)
  fix R' and wa :: u64 assume w: "R' \<in> S" "unat wa < 2 ^ 47"
  note I = in_page [OF lo w(2)] and U = up [OF w(1) pml4_ix_low [OF w(2)]] and G = g [unfolded grown_def, rule_format, OF w]
  show "if R' = R \<and> unat lo \<le> unat wa \<and> unat wa < unat lo + k * 4096
    then \<exists>a. sees v' R' wa = (Some (a, True, True), Some (g (unat wa - unat lo))) else sees v' R' wa = sees v0 R' wa"
  proof (cases "R' = R \<and> same_page wa (lo + of_nat k * PAGE_4K)")
    case True
    then have "user_page v0 R' wa = None" using un I(1) unfolding unmapped_def by auto
    then show ?thesis using True U I(1) by (simp add: sees_def user_byte_def)
  next
    case False
    then have eq: "R' = R \<and> unat lo \<le> unat wa \<and> unat wa < unat lo + k * 4096 \<longleftrightarrow>
        R' = R \<and> unat lo \<le> unat wa \<and> unat wa < unat lo + Suc k * 4096" using I(1) by auto
    have same: "sees v' R' wa = sees v R' wa" using U False by auto
    show ?thesis unfolding same eq by (rule G)
  qed
qed

lemma page_back: "lo + of_nat (Suc k) * PAGE_4K - PAGE_4K = lo + of_nat k * PAGE_4K"
  by (simp add: algebra_simps)

lemma unmap_back_spec:
  assumes "vm_ok S v" "R \<in> S" "aligned lo" "user_range lo (k * 4096)" "unmapped v0 R lo k" "grown S R lo k g v0 v"
  shows "vm_step\<^sup>*\<^sup>* (S, v) (S, unmap_back R (lo + of_nat k * PAGE_4K) k v) \<and>
    grown S R lo 0 g v0 (unmap_back R (lo + of_nat k * PAGE_4K) k v)"
  using assms(1,4-6)
proof (induction k arbitrary: v)
  case 0
  then show ?case by simp
next
  case (Suc k)
  let ?va = "lo + of_nat k * PAGE_4K"
  have le: "unat lo + Suc k * 4096 \<le> 2 ^ 47" using Suc.prems(2) by (simp add: user_range_def)
  then have lt: "unat lo + k * 4096 < 2 ^ 47" by simp
  have va: "pml4_ix ?va < 256" using pml4_ix_low [of ?va] page_nat [OF lt] lt by simp
  obtain r v1 where run: "vmm_unmap_user R ?va v = (r, v1)" by fastforce
  note U = unmap_user_view [OF Suc.prems(1) assms(2) va run]
  have "\<exists>a. sees v R ?va = (Some (a, True, True), Some (g (unat ?va - unat lo)))"
    using Suc.prems(4) [unfolded grown_def, rule_format, OF assms(2), of ?va] page_nat [OF lt] lt by simp
  then have r using U(2) page_aligned [OF assms(3) lt] by (auto simp: sees_def)
  then have g: "grown S R lo k g v0 v1" using U(3) by (intro grown_drop [OF Suc.prems(4) assms(3) le Suc.prems(3)]) simp
  have "unmapped v0 R lo k" "user_range lo (k * 4096)" using Suc.prems(2,3) by (auto simp: unmapped_def user_range_def)
  note IH = Suc.IH [OF vm_ok_step [OF U(1) Suc.prems(1)] this(2,1) g]
  show ?case unfolding unmap_back.simps page_back using IH steps_first [OF U(1)] run by simp
qed

lemma map_pages_spec:
  assumes R: "R \<in> S" and lo: "aligned lo"
    and src: "\<And>j. length (src j) \<le> 4096" "\<And>j x. x < 4096 \<Longrightarrow> g (j * 4096 + x) = (if x < length (src j) then src j ! x else 0)"
    and ok: "vm_ok S v" and rg: "user_range lo ((k + n) * 4096)" and un: "unmapped v0 R lo (k + n)" and gr: "grown S R lo k g v0 v"
    and run: "map_pages R src (lo + of_nat k * PAGE_4K) k n v = (r, v')"
  shows "vm_step\<^sup>*\<^sup>* (S, v) (S, v') \<and> grown S R lo (if r then k + n else 0) g v0 v' \<and> (4 * n \<le> card (free_frames (pm v)) \<longrightarrow> r)"
  using ok rg un gr run
proof (induction n arbitrary: k v)
  case 0
  then show ?case by simp
next
  case (Suc n)
  let ?va = "lo + of_nat k * PAGE_4K"
  have le: "unat lo + Suc k * 4096 \<le> 2 ^ 47" and lt: "unat lo + k * 4096 < 2 ^ 47"
    using Suc.prems(2) by (simp_all add: user_range_def algebra_simps)
  have va: "pml4_ix ?va < 256" using pml4_ix_low [of ?va] page_nat [OF lt] lt by simp
  have al: "aligned ?va" by (rule page_aligned [OF lo lt])
  have kk: "user_range lo (k * 4096)" "unmapped v0 R lo k" using Suc.prems(2,3) by (auto simp: user_range_def unmapped_def)
  obtain p v1 where a: "alloc_user_page v = (p, v1)" by fastforce
  note A = alloc_user_page_ok [OF Suc.prems(1) a]
  note ok1 = vm_ok_steps [OF A(1) Suc.prems(1)] and g1 = grown_same [OF Suc.prems(4) A(2)]
  show ?case
  proof (cases "p = 0")
    case True
    then have "r = False" "v' = unmap_back R ?va k v1" "free_frames (pm v) = {}" using Suc.prems(5) a A(3) by simp_all
    then show ?thesis using unmap_back_spec [OF ok1 R lo kk g1] steps_trans [OF A(1)] by simp
  next
    case False
    let ?w = "poke_bytes p 0 (src k) v1"
    have f1: "fresh S v1 p" using A(4) False by blast
    have sp1: "spaces_ok S v1" "exclusive S v1" using ok1 by (simp_all add: vm_ok_def)
    have len: "0 + length (src k) \<le> 4096" using src(1) by simp
    note P = poke_bytes_steps [OF f1 sp1 len]
    note ok2 = vm_ok_steps [OF P(1) ok1] and g2 = grown_same [OF g1 poke_bytes_view [OF f1 ok1 len]]
    have pa: "aligned p" using f1 by (simp add: fresh_def)
    have pg: "page_byte ?w p (of_nat x) = g (k * 4096 + x)" if "x < 4096" for x
      using P(5) [OF pa that] src(2) [OF that, of k] A(4) False that by simp
    have "sees v0 R ?va = sees ?w R ?va"
      using g2 [unfolded grown_def, rule_format, OF R, of ?va] page_nat [OF lt] lt by simp
    moreover have "user_page v0 R ?va = None" using Suc.prems(3) page_nat [OF lt] unfolding unmapped_def by simp
    ultimately have un': "user_page ?w R ?va = None" by (simp add: sees_def)
    obtain q v2 where m: "vmm_map_user R ?va p ?w = (q, v2)" by fastforce
    note M = map_user_view [OF ok2 R va P(2) un' m]
    note ok3 = vm_ok_step [OF M(1) ok2] and st = steps_trans [OF A(1) steps_trans [OF P(1) steps_one [OF M(1)]]]
    have card: "4 * Suc n \<le> card (free_frames (pm v)) \<longrightarrow> q \<and> 4 * n \<le> card (free_frames (pm v2))"
      using M(4) [OF al, of "4 * n"] A(4) False P(3) by (auto simp: card_Diff_singleton)
    show ?thesis
    proof (cases q)
      case q: False
      have same: "same_view S ?w v2" using M(2) q by (simp add: same_view_def)
      note F = free_page_view [OF ok3 M(3) [OF q]]
      have "r = False" "v' = unmap_back R ?va k (free_page p v2)" using Suc.prems(5) a False m q by simp_all
      then show ?thesis using card q steps_trans [OF st steps_first [OF F(1)]]
          unmap_back_spec [OF vm_ok_step [OF F(1) ok3] R lo kk grown_same [OF grown_same [OF g2 same] F(2)]] by simp
    next
      case q: True
      have g3: "grown S R lo (Suc k) g v0 v2" using M(2) q by (intro grown_Suc [OF g2 lo le _ pg]) simp_all
      have run': "map_pages R src (lo + of_nat (Suc k) * PAGE_4K) (Suc k) n v2 = (r, v')"
        using Suc.prems(5) a False m q by (simp add: algebra_simps)
      have "user_range lo ((Suc k + n) * 4096)" "unmapped v0 R lo (Suc k + n)" using Suc.prems(2,3) by simp_all
      from Suc.IH [OF ok3 this g3 run'] show ?thesis using card steps_trans [OF st] by (cases r) simp_all
    qed
  qed
qed


text \<open>Taking away mapped pages cannot fail.\<close>

lemma unmap_pages_spec:
  assumes "vm_ok S v" "R \<in> S" "aligned lo" "user_range lo (n * 4096)"
    and "\<forall>wa :: u64. unat lo \<le> unat wa \<and> unat wa < unat lo + n * 4096 \<longrightarrow> user_page v R wa \<noteq> None"
    and "unmap_pages R lo n v = (r, v')"
  shows "r \<and> vm_step\<^sup>*\<^sup>* (S, v) (S, v') \<and> (\<forall>R' \<in> S. \<forall>wa :: u64. unat wa < 2 ^ 47 \<longrightarrow> sees v' R' wa =
    (if R' = R \<and> unat lo \<le> unat wa \<and> unat wa < unat lo + n * 4096 then (None, None) else sees v R' wa))"
  using assms(1,3-6)
proof (induction n arbitrary: lo v)
  case 0
  then show ?case by auto
next
  case (Suc n)
  have le: "unat lo + Suc 0 * 4096 \<le> 2 ^ 47" and lt: "unat lo < 2 ^ 47" and nn: "unat lo + Suc n * 4096 \<le> 2 ^ 47"
    using Suc.prems(3) by (simp_all add: user_range_def)
  have va: "pml4_ix lo < 256" by (rule pml4_ix_low [OF lt])
  obtain q v1 where run: "vmm_unmap_user R lo v = (q, v1)" by fastforce
  note U = unmap_user_view [OF Suc.prems(1) assms(2) va run]
  have "user_page v R lo \<noteq> None" using Suc.prems(4) by (auto dest: spec [of _ lo])
  then have q: q using U(2) Suc.prems(2) by simp
  have pg: "same_page wa lo \<longleftrightarrow> unat lo \<le> unat wa \<and> unat wa < unat lo + 4096" if "unat wa < 2 ^ 47" for wa
    using in_page(1) [OF Suc.prems(2) le that] by simp
  have V: "sees v1 R' wa = (if R' = R \<and> unat lo \<le> unat wa \<and> unat wa < unat lo + 4096 then (None, None) else sees v R' wa)"
    if "R' \<in> S" "unat wa < 2 ^ 47" for R' and wa :: u64
    using U(3) [OF that(1) pml4_ix_low [OF that(2)]] pg [OF that(2)] q by simp
  show ?case
  proof (cases "n = 0")
    case True
    then have "r" "v' = v1" using Suc.prems(5) run q by simp_all
    then show ?thesis using True V steps_one [OF U(1)] by simp
  next
    case False
    then have l1: "unat (lo + PAGE_4K) = unat lo + 4096" using nn page_nat [of lo 1] by simp
    have a1: "aligned (lo + PAGE_4K)" using Suc.prems(2) unfolding aligned_mod l1 by simp
    have r1: "user_range (lo + PAGE_4K) (n * 4096)" using nn by (simp add: user_range_def l1)
    have m1: "\<forall>wa :: u64. unat (lo + PAGE_4K) \<le> unat wa \<and> unat wa < unat (lo + PAGE_4K) + n * 4096 \<longrightarrow> user_page v1 R wa \<noteq> None"
    proof (intro allI impI)
      fix wa :: u64 assume w: "unat (lo + PAGE_4K) \<le> unat wa \<and> unat wa < unat (lo + PAGE_4K) + n * 4096"
      then have "sees v1 R wa = sees v R wa" using V [OF assms(2), of wa] nn by (simp add: l1)
      then show "user_page v1 R wa \<noteq> None" using Suc.prems(4) w by (simp add: sees_def l1)
    qed
    have run1: "unmap_pages R (lo + PAGE_4K) n v1 = (r, v')" using Suc.prems(5) run q by simp
    note IH = Suc.IH [OF vm_ok_step [OF U(1) Suc.prems(1)] a1 r1 m1 run1, unfolded l1]
    have "sees v' R' wa = (if R' = R \<and> unat lo \<le> unat wa \<and> unat wa < unat lo + Suc n * 4096 then (None, None) else sees v R' wa)"
      if "R' \<in> S" "unat wa < 2 ^ 47" for R' and wa :: u64
      using IH V [OF that] that by auto
    then show ?thesis using IH steps_first [OF U(1)] by simp
  qed
qed

end
