(* ===== verification/User_Brk.thy ===== *)
theory User_Brk
  imports User_Mem
begin

text \<open>
  What \<open>user_brk\<close> of \<open>kernel/user.c\<close> promises: the heap of a task is the pages between the stack and
  its break, and moving the break changes only them.
\<close>

lemma page_up_nat: "unat a + 4095 < 2 ^ 64 \<Longrightarrow> unat (page_up a) = (unat a + 4095) div 4096 * 4096"
  using align_up_pow2 [of a 12] by (simp add: page_up_def align_up_def)

definition heap_start :: "sched \<Rightarrow> u64" where
  "heap_start s = sched_current_base s + 2 * PAGE_4K"

definition heap_max :: "sched \<Rightarrow> u64" where
  "heap_max s = heap_start s + USER_HEAP_PAGES * PAGE_4K"

definition heap_top :: "sched \<Rightarrow> u64" where
  "heap_top s = (if sched_current_brk s < heap_start s \<or> sched_current_brk s > heap_max s then heap_start s else sched_current_brk s)"

definition in_heap :: "sched \<Rightarrow> u64 \<Rightarrow> bool" where
  "in_heap s wa \<longleftrightarrow> heap_start s \<le> wa \<and> wa < heap_max s"

text \<open>A task whose heap pages are the ones below the break.\<close>

definition heap_ok :: "u64 set \<Rightarrow> sched \<Rightarrow> bool" where
  "heap_ok S s \<longleftrightarrow> vm_ok S (vm s) \<and> sched_current_cr3 s \<in> S \<and> current s < length (tasks s) \<and>
     sched_current_base s \<noteq> 0 \<and> aligned (sched_current_base s) \<and> unat (sched_current_base s) + 18 * 4096 \<le> 2 ^ 47 \<and>
     (\<forall>wa. in_heap s wa \<longrightarrow> (user_page (vm s) (sched_current_cr3 s) wa \<noteq> None \<longleftrightarrow> wa < page_up (heap_top s)))"

lemma heap_bounds:
  assumes "heap_ok S s"
  shows "unat (heap_start s) = unat (sched_current_base s) + 8192" "unat (heap_max s) = unat (heap_start s) + 65536"
    "aligned (heap_start s)" "unat (heap_max s) \<le> 2 ^ 47" "heap_start s \<le> heap_top s" "heap_top s \<le> heap_max s"
proof -
  have b: "unat (sched_current_base s) + 73728 \<le> 2 ^ 47" "aligned (sched_current_base s)" using assms by (auto simp: heap_ok_def)
  show s: "unat (heap_start s) = unat (sched_current_base s) + 8192"
    using b by (simp add: heap_start_def unat_word_ariths)
  then show m: "unat (heap_max s) = unat (heap_start s) + 65536"
    using b by (simp add: heap_max_def USER_HEAP_PAGES_def unat_word_ariths)
  show "aligned (heap_start s)" using b(2) mod_mult_self1 [of "unat (sched_current_base s)" 2 4096] unfolding aligned_mod s by simp
  show "unat (heap_max s) \<le> 2 ^ 47" using b(1) s m by simp
  have "heap_start s \<le> heap_max s" using m by (simp add: word_le_nat_alt)
  then show "heap_start s \<le> heap_top s" "heap_top s \<le> heap_max s" by (auto simp: heap_top_def not_less)
qed

text \<open>The end of the heap's pages for a break between \<open>heap_start\<close> and \<open>heap_max\<close>.\<close>

lemma heap_end:
  assumes "heap_ok S s" "heap_start s \<le> w" "w \<le> heap_max s"
  shows "aligned (page_up w)" "unat (heap_start s) \<le> unat (page_up w)" "unat (page_up w) \<le> unat (heap_max s)"
proof -
  note B = heap_bounds [OF assms(1)]
  have w: "unat (heap_start s) \<le> unat w" "unat w \<le> unat (heap_max s)" using assms(2,3) by (simp_all add: word_le_nat_alt)
  obtain k where k: "unat (heap_start s) = k * 4096" using B(3) by (auto simp: aligned_mod mod_eq_0_iff_dvd elim!: dvdE)
  have p: "unat (page_up w) = (unat w + 4095) div 4096 * 4096" using w B(4) by (intro page_up_nat) simp
  show "aligned (page_up w)" unfolding aligned_mod p by simp
  have "k \<le> (unat w + 4095) div 4096" "(unat w + 4095) div 4096 \<le> k + 16" using w B(2) k by (simp_all add: less_eq_div_iff_mult_less_eq) linarith?
  then show "unat (heap_start s) \<le> unat (page_up w)" "unat (page_up w) \<le> unat (heap_max s)" unfolding p B(2) k by simp_all
qed

lemma page_span:
  assumes "aligned a" "aligned b" "unat a \<le> unat b"
  shows "unat (b - a) div 4096 * 4096 = unat b - unat a"
proof -
  have "unat (b - a) = unat b - unat a" using assms(3) by (intro unat_sub_le) (simp add: word_le_nat_alt)
  moreover have "(unat b - unat a) mod 4096 = 0" using assms by (simp add: aligned_mod mod_eq_0_iff_dvd dvd_diff_nat)
  ultimately show ?thesis by (metis add.right_neutral div_mult_mod_eq)
qed

lemma set_brk_cur: "cur_task (sched_set_brk b s) =
    (if task_count s = 0 \<or> length (tasks s) \<le> current s then cur_task s else (cur_task s)\<lparr>brk := b\<rparr>)"
  by (auto simp: sched_set_brk_def upd_cur_def upd_task_def cur_task_def task_at_def list_update_beyond)

lemma set_brk_sel [simp]:
  "task_count (sched_set_brk b s) = task_count s" "current (sched_set_brk b s) = current s"
  "length (tasks (sched_set_brk b s)) = length (tasks s)" "vm (sched_set_brk b s) = vm s"
  by (simp_all add: sched_set_brk_def upd_cur_def upd_task_def)

lemma brk_sel [simp]:
  "sched_current_cr3 (sched_set_brk b s) = sched_current_cr3 s" "sched_current_base (sched_set_brk b s) = sched_current_base s"
  "task_count s \<noteq> 0 \<Longrightarrow> current s < length (tasks s) \<Longrightarrow> sched_current_brk (sched_set_brk b s) = b"
  by (simp_all add: sched_current_brk_def sched_current_cr3_def sched_current_base_def set_brk_cur)

lemma vm_sel [simp]:
  "sched_current_base (s\<lparr>vm := v\<rparr>) = sched_current_base s" "sched_current_brk (s\<lparr>vm := v\<rparr>) = sched_current_brk s"
  by (simp_all add: sched_current_base_def sched_current_brk_def cur_task_def task_at_def)

lemma heap_sel [simp]:
  "heap_start (sched_set_brk b s) = heap_start s" "heap_max (sched_set_brk b s) = heap_max s"
  "heap_start (s\<lparr>vm := v\<rparr>) = heap_start s" "heap_max (s\<lparr>vm := v\<rparr>) = heap_max s" "heap_top (s\<lparr>vm := v\<rparr>) = heap_top s"
  by (simp_all add: heap_start_def heap_max_def heap_top_def)

definition heap_bytes :: "u64 set \<Rightarrow> sched \<Rightarrow> u64 \<Rightarrow> vmm \<Rightarrow> bool" where
  "heap_bytes S s want v' \<longleftrightarrow> (\<forall>R' \<in> S. \<forall>wa :: u64. unat wa < 2 ^ 47 \<longrightarrow> user_byte v' R' wa =
     (if R' = sched_current_cr3 s \<and> in_heap s wa
      then if page_up want \<le> wa then None else if page_up (heap_top s) \<le> wa then Some 0 else user_byte (vm s) R' wa
      else user_byte (vm s) R' wa))"

lemma byte_None: "user_byte v R wa = None \<longleftrightarrow> user_page v R wa = None"
  by (simp add: user_byte_def)

lemma heap_mapped:
  assumes "heap_ok S s" "in_heap s wa"
  shows "user_byte (vm s) (sched_current_cr3 s) wa = None \<longleftrightarrow> unat (page_up (heap_top s)) \<le> unat wa"
proof -
  have "user_page (vm s) (sched_current_cr3 s) wa \<noteq> None \<longleftrightarrow> wa < page_up (heap_top s)" using assms unfolding heap_ok_def by blast
  then show ?thesis unfolding byte_None word_less_nat_alt by linarith
qed

lemma heap_grow:
  assumes hp: "heap_ok S s" and w: "heap_start s \<le> want" "want \<le> heap_max s" "page_up (heap_top s) < page_up want"
    and run: "map_pages (sched_current_cr3 s) (\<lambda>_. []) (page_up (heap_top s)) 0
        (unat (page_up want - page_up (heap_top s)) div 4096) (vm s) = (r, v')"
  shows "vm_step\<^sup>*\<^sup>* (S, vm s) (S, v')" "r \<Longrightarrow> heap_bytes S s want v'" "4 * (unat (page_up want - page_up (heap_top s)) div 4096) \<le> card (free_frames (pm (vm s))) \<Longrightarrow> r"
    "\<not> r \<Longrightarrow> \<forall>R' \<in> S. \<forall>wa :: u64. unat wa < 2 ^ 47 \<longrightarrow> sees v' R' wa = sees (vm s) R' wa"
proof -
  let ?lo = "page_up (heap_top s)" and ?R = "sched_current_cr3 s"
  let ?n = "unat (page_up want - ?lo) div 4096"
  note B = heap_bounds [OF hp] and E = heap_end [OF hp B(5,6)] and F = heap_end [OF hp w(1,2)]
  have ok: "vm_ok S (vm s)" and R: "?R \<in> S" using hp by (auto simp: heap_ok_def)
  have lt: "unat ?lo \<le> unat (page_up want)" using w(3) by (simp add: word_less_nat_alt)
  have n: "?n * 4096 = unat (page_up want) - unat ?lo" by (rule page_span [OF E(1) F(1) lt])
  have rg: "user_range ?lo ((0 + ?n) * 4096)" using n lt F(3) B(4) by (simp add: user_range_def)
  have heap: "in_heap s wa \<longleftrightarrow> unat (heap_start s) \<le> unat wa \<and> unat wa < unat (heap_max s)" for wa
    by (simp add: in_heap_def word_le_nat_alt word_less_nat_alt)
  have un: "unmapped (vm s) ?R ?lo (0 + ?n)"
    unfolding unmapped_def
  proof (intro allI impI)
    fix wa :: u64 assume a: "unat ?lo \<le> unat wa \<and> unat wa < unat ?lo + (0 + ?n) * 4096"
    then have "in_heap s wa" "\<not> wa < ?lo" using n lt E F(3) by (auto simp: heap word_less_nat_alt)
    then show "user_page (vm s) ?R wa = None" using hp unfolding heap_ok_def by blast
  qed
  have run0: "map_pages ?R (\<lambda>_. []) (?lo + of_nat 0 * PAGE_4K) 0 ?n (vm s) = (r, v')" using run by simp
  note M = map_pages_spec [OF R E(1) _ _ ok rg un grown_refl run0, of "\<lambda>_. 0", simplified]
  show "vm_step\<^sup>*\<^sup>* (S, vm s) (S, v')" "4 * ?n \<le> card (free_frames (pm (vm s))) \<Longrightarrow> r" using M by auto
  show "\<not> r \<Longrightarrow> \<forall>R' \<in> S. \<forall>wa :: u64. unat wa < 2 ^ 47 \<longrightarrow> sees v' R' wa = sees (vm s) R' wa" using M by (simp add: grown_0)
  assume r: r
  then have g: "grown S ?R ?lo ?n (\<lambda>_. 0) (vm s) v'" using M by simp
  show "heap_bytes S s want v'"
    unfolding heap_bytes_def
  proof (intro ballI allI impI)
    fix R' and wa :: u64 assume a: "R' \<in> S" "unat wa < 2 ^ 47"
    have le: "page_up want \<le> wa \<longleftrightarrow> unat (page_up want) \<le> unat wa" "?lo \<le> wa \<longleftrightarrow> unat ?lo \<le> unat wa" by (simp_all add: word_le_nat_alt)
    have rng: "unat wa < unat ?lo + ?n * 4096 \<longleftrightarrow> unat wa < unat (page_up want)" using n lt by simp
    have top: "in_heap s wa \<Longrightarrow> page_up want \<le> wa \<Longrightarrow> user_byte (vm s) ?R wa = None"
      using heap_mapped [OF hp] lt unfolding le by simp
    have "unat wa < unat (page_up want) \<Longrightarrow> unat ?lo \<le> unat wa \<Longrightarrow> in_heap s wa" using E(2) F(3) by (simp add: heap)
    then show "user_byte v' R' wa = (if R' = ?R \<and> in_heap s wa
      then if page_up want \<le> wa then None else if ?lo \<le> wa then Some 0 else user_byte (vm s) R' wa
      else user_byte (vm s) R' wa)"
      using g [unfolded grown_def, rule_format, OF a, unfolded rng] top unfolding le sees_def by (auto split: if_splits)
  qed
qed

lemma heap_shrink:
  assumes hp: "heap_ok S s" and w: "heap_start s \<le> want" "want \<le> heap_max s" "page_up want < page_up (heap_top s)"
    and run: "unmap_pages (sched_current_cr3 s) (page_up want) (unat (page_up (heap_top s) - page_up want) div 4096) (vm s) = (r, v')"
  shows "r \<and> vm_step\<^sup>*\<^sup>* (S, vm s) (S, v') \<and> heap_bytes S s want v'"
proof -
  let ?hi = "page_up (heap_top s)" and ?R = "sched_current_cr3 s"
  let ?n = "unat (?hi - page_up want) div 4096"
  note B = heap_bounds [OF hp] and E = heap_end [OF hp B(5,6)] and F = heap_end [OF hp w(1,2)]
  have ok: "vm_ok S (vm s)" and R: "?R \<in> S" using hp by (auto simp: heap_ok_def)
  have lt: "unat (page_up want) \<le> unat ?hi" using w(3) by (simp add: word_less_nat_alt)
  have n: "?n * 4096 = unat ?hi - unat (page_up want)" by (rule page_span [OF F(1) E(1) lt])
  have rg: "user_range (page_up want) (?n * 4096)" using n lt E(3) B(4) by (simp add: user_range_def)
  have heap: "in_heap s wa \<longleftrightarrow> unat (heap_start s) \<le> unat wa \<and> unat wa < unat (heap_max s)" for wa
    by (simp add: in_heap_def word_le_nat_alt word_less_nat_alt)
  have rng: "unat wa < unat (page_up want) + ?n * 4096 \<longleftrightarrow> unat wa < unat ?hi" for wa :: u64 using n lt by simp
  have "\<forall>wa :: u64. unat (page_up want) \<le> unat wa \<and> unat wa < unat (page_up want) + ?n * 4096 \<longrightarrow> user_page (vm s) ?R wa \<noteq> None"
    using hp F(2) E(3) unfolding heap_ok_def heap rng by (auto simp: word_less_nat_alt)
  note U = unmap_pages_spec [OF ok R F(1) rg this run, unfolded rng]
  have "heap_bytes S s want v'"
    unfolding heap_bytes_def
  proof (intro ballI allI impI)
    fix R' and wa :: u64 assume a: "R' \<in> S" "unat wa < 2 ^ 47"
    have le: "page_up want \<le> wa \<longleftrightarrow> unat (page_up want) \<le> unat wa" "?hi \<le> wa \<longleftrightarrow> unat ?hi \<le> unat wa" by (simp_all add: word_le_nat_alt)
    have top: "in_heap s wa \<Longrightarrow> unat ?hi \<le> unat wa \<Longrightarrow> user_byte (vm s) ?R wa = None"
      using heap_mapped [OF hp] by simp
    have "unat wa < unat ?hi \<Longrightarrow> unat (page_up want) \<le> unat wa \<Longrightarrow> in_heap s wa" using F(2) E(3) by (simp add: heap)
    moreover have "sees v' R' wa = (if R' = ?R \<and> unat (page_up want) \<le> unat wa \<and> unat wa < unat ?hi then (None, None) else sees (vm s) R' wa)"
      using U a by blast
    ultimately show "user_byte v' R' wa = (if R' = ?R \<and> in_heap s wa
      then if page_up want \<le> wa then None else if ?hi \<le> wa then Some 0 else user_byte (vm s) R' wa
      else user_byte (vm s) R' wa)"
      using top lt unfolding le sees_def by (auto split: if_splits)
  qed
  then show ?thesis using U by blast
qed

lemma in_heap_sel [simp]: "in_heap (sched_set_brk b s) wa = in_heap s wa" "in_heap (s\<lparr>vm := v\<rparr>) wa = in_heap s wa"
  by (simp_all add: in_heap_def)

lemma heap_ok_brk:
  assumes hp: "heap_ok S s" and w: "heap_start s \<le> want" "want \<le> heap_max s" and st: "vm_step\<^sup>*\<^sup>* (S, vm s) (S, v)"
    and hb: "heap_bytes S s want v"
  shows "heap_ok S (sched_set_brk want (s\<lparr>vm := v\<rparr>)) \<and> heap_top (sched_set_brk want (s\<lparr>vm := v\<rparr>)) = want"
proof -
  let ?s = "sched_set_brk want (s\<lparr>vm := v\<rparr>)" and ?R = "sched_current_cr3 s"
  have "task_count s \<noteq> 0" "current s < length (tasks s)" "?R \<in> S" using hp by (auto simp: heap_ok_def sched_current_base_def split: if_splits)
  then have top: "heap_top ?s = want" using w unfolding heap_top_def by (auto simp: not_less)
  have "user_page v ?R wa \<noteq> None \<longleftrightarrow> wa < page_up want" if h: "in_heap s wa" for wa
  proof -
    have "unat wa < unat (heap_max s)" using h by (simp add: in_heap_def word_less_nat_alt)
    then have "unat wa < 2 ^ 47" using heap_bounds(4) [OF hp] by linarith
    then have b: "user_byte v ?R wa = (if page_up want \<le> wa then None else if page_up (heap_top s) \<le> wa then Some 0 else user_byte (vm s) ?R wa)"
      using hb \<open>?R \<in> S\<close> h unfolding heap_bytes_def by simp
    have "\<not> page_up (heap_top s) \<le> wa \<Longrightarrow> user_byte (vm s) ?R wa \<noteq> None"
      using heap_mapped [OF hp h] by (simp add: word_le_nat_alt)
    then have "user_byte v ?R wa \<noteq> None \<longleftrightarrow> \<not> page_up want \<le> wa" unfolding b by (auto split: if_splits)
    then show ?thesis unfolding byte_None by (simp only: not_le)
  qed
  then show ?thesis using hp top vm_ok_steps [OF st] unfolding heap_ok_def by simp
qed

lemma user_brk_unfold:
  "user_brk want s =
     (if sched_current_cr3 s = 0 \<or> sched_current_cr3 s = vmm_boot_cr3 \<or> sched_current_base s = 0 then (- 1, s)
      else if want = 0 then (heap_top s, s)
      else if want < heap_start s \<or> want > heap_max s then (- 1, s)
      else case (if page_up want > page_up (heap_top s)
                 then map_pages (sched_current_cr3 s) (\<lambda>_. []) (page_up (heap_top s)) 0
                   (unat (page_up want - page_up (heap_top s)) div 4096) (vm s)
                 else if page_up want < page_up (heap_top s)
                 then unmap_pages (sched_current_cr3 s) (page_up want) (unat (page_up (heap_top s) - page_up want) div 4096) (vm s)
                 else (True, vm s)) of
             (ok, v) \<Rightarrow> if \<not> ok then (- 1, s\<lparr>vm := v\<rparr>) else (want, sched_set_brk want (s\<lparr>vm := v\<rparr>)))"
  unfolding user_brk_def Let_def heap_top_def heap_max_def heap_start_def by (rule refl)

text \<open>
  C9. The break of a task. Zero asks for it; a value outside the sixteen heap pages is refused and
  changes nothing. Otherwise the call moves the break: the pages below it are mapped and the ones
  above are not, bytes that stay in the heap keep their values, new ones are zero, and no other
  byte of any address space changes. A call that runs out of memory half way undoes its work:
  every task sees what it saw before; it does not happen while four frames per new page are free.
\<close>

theorem user_brk_effect:
  assumes "heap_ok S s" "user_brk want s = (r, s')"
  shows "heap_ok S s' \<and>
    (if want = 0 then r = heap_top s \<and> s' = s
     else if want < heap_start s \<or> want > heap_max s then r = - 1 \<and> s' = s
     else if r = want then heap_top s' = want \<and> heap_bytes S s want (vm s')
     else r = - 1 \<and> s' = s\<lparr>vm := vm s'\<rparr> \<and> card (free_frames (pm (vm s))) < 4 * (unat (page_up want - page_up (heap_top s)) div 4096) \<and>
       (\<forall>R' \<in> S. \<forall>wa :: u64. unat wa < 2 ^ 47 \<longrightarrow> sees (vm s') R' wa = sees (vm s) R' wa))"
proof -
  note hp = assms(1) and B = heap_bounds [OF assms(1)]
  let ?R = "sched_current_cr3 s"
  have R: "?R \<in> S" and ok: "vm_ok S (vm s)" using hp by (auto simp: heap_ok_def)
  have go: "\<not> (?R = 0 \<or> ?R = vmm_boot_cr3 \<or> sched_current_base s = 0)"
    using hp trees_okD(4,5) [OF spaces_okD(1) R] ok by (auto simp: heap_ok_def vm_ok_def vmm_boot_cr3_def)
  show ?thesis
  proof (cases "want = 0 \<or> want < heap_start s \<or> want > heap_max s")
    case True
    then show ?thesis using assms(2) go hp unfolding user_brk_unfold by (cases "want = 0") auto
  next
    case False
    then have w: "want \<noteq> 0" "heap_start s \<le> want" "want \<le> heap_max s" by auto
    let ?o = "page_up (heap_top s)" and ?n = "page_up want"
    obtain q v where qv: "(if ?n > ?o then map_pages ?R (\<lambda>_. []) ?o 0 (unat (?n - ?o) div 4096) (vm s)
        else if ?n < ?o then unmap_pages ?R ?n (unat (?o - ?n) div 4096) (vm s) else (True, vm s)) = (q, v)" by fastforce
    have res: "(r, s') = (if \<not> q then (- 1, s\<lparr>vm := v\<rparr>) else (want, sched_set_brk want (s\<lparr>vm := v\<rparr>)))"
      using assms(2) go False unfolding user_brk_unfold qv by (simp split: if_splits)
    have m1: "want \<noteq> - 1"
    proof
      assume "want = - 1"
      then have "unat want = 2 ^ 64 - 1" by (simp add: unsigned_minus_1_eq_mask mask_eq_exp_minus_1)
      moreover have "unat want \<le> 2 ^ 47" using w(3) B(4) by (simp add: word_le_nat_alt)
      ultimately show False by simp
    qed
    consider (grow) "?o < ?n" | (shrink) "?n < ?o" | (same) "?n = ?o" by (metis linorder_less_linear)
    then have main: "vm_step\<^sup>*\<^sup>* (S, vm s) (S, v) \<and> (q \<longrightarrow> heap_bytes S s want v) \<and> (\<not> q \<longrightarrow> card (free_frames (pm (vm s))) < 4 * (unat (page_up want - page_up (heap_top s)) div 4096) \<and>
       (\<forall>R' \<in> S. \<forall>wa :: u64. unat wa < 2 ^ 47 \<longrightarrow> sees v R' wa = sees (vm s) R' wa))"
    proof cases
      case grow
      have run: "map_pages ?R (\<lambda>_. []) ?o 0 (unat (?n - ?o) div 4096) (vm s) = (q, v)" using qv grow by simp
      show ?thesis using heap_grow [OF hp w(2,3) grow run] not_le by blast
    next
      case shrink
      have "\<not> ?o < ?n" using shrink by (simp only: not_less less_imp_le)
      then have run: "unmap_pages ?R ?n (unat (?o - ?n) div 4096) (vm s) = (q, v)" using qv shrink by simp
      show ?thesis using heap_shrink [OF hp w(2,3) shrink run] by blast
    next
      case same
      have "heap_bytes S s want (vm s)" unfolding heap_bytes_def same using heap_mapped [OF hp] by (auto simp: word_le_nat_alt)
      then show ?thesis using qv same by auto
    qed
    show ?thesis
    proof (cases q)
      case True
      then have "r = want" "s' = sched_set_brk want (s\<lparr>vm := v\<rparr>)" using res by simp_all
      then show ?thesis using heap_ok_brk [OF hp w(2,3)] main True w False by auto
    next
      case nq: False
      then have r: "r = - 1" "s' = s\<lparr>vm := v\<rparr>" using res by simp_all
      have "user_page v ?R wa = user_page (vm s) ?R wa" if h: "in_heap s wa" for wa
      proof -
        have "unat wa < unat (heap_max s)" using h by (simp add: in_heap_def word_less_nat_alt)
        then have "unat wa < 2 ^ 47" using B(4) by linarith
        then show ?thesis using main nq R by (simp add: sees_def)
      qed
      then have "heap_ok S s'" using hp vm_ok_steps [of S "vm s" S v] main unfolding r(2) heap_ok_def by simp
      then show ?thesis using main nq r m1 w False by auto
    qed
  qed
qed

lemma demo_pages:
  assumes "pml4_ix wa < 256"
  shows "user_page demo_page demo_root wa = (if same_page wa 0x400000 then Some (0x100000, True, True) else None)"
proof -
  have d: "demo_root \<in> {demo_root}" by simp
  obtain r v' where run: "vmm_map_user demo_root 0x400000 0x100000 demo_space = (r, v')" by fastforce
  have "v' = demo_page" using run by (simp add: demo_page_def)
  then have P: "user_page demo_page demo_root wa = (if r \<and> same_page wa 0x400000 then Some (0x100000, True, True) else user_page demo_space demo_root wa)"
    if "pml4_ix wa < 256" for wa
    using map_user_pages [OF demo_space_ok(1) d demo_va(1) demo_space_ok(4) demo_unmapped run d that] by simp
  have r using P [OF demo_va(1)] demo_page_ok(2) demo_unmapped by (auto split: if_splits)
  then show ?thesis using P [OF assms] demo_space_ok(2) [of wa] assms by auto
qed

lemma demo_current: "sched_current_base demo_run = 0x400000" "sched_current_brk demo_run = 0x402000"
    "current demo_run < length (tasks demo_run)"
  by (simp_all add: demo_run_def one_task_eq boot0_eq zero_sched_def sched_current_base_def sched_current_brk_def cur_task_def
    task_at_def user_task_def)

lemma demo_heap: "heap_start demo_run = 0x402000" "heap_max demo_run = 0x412000" "heap_top demo_run = 0x402000"
  by (simp_all add: heap_start_def heap_max_def heap_top_def demo_current USER_HEAP_PAGES_def)

lemma demo_heap_ok: "heap_ok {demo_root} demo_run"
  unfolding heap_ok_def demo_run_current demo_current
proof (intro conjI allI impI)
  show "vm_ok {demo_root} demo_page" by (rule demo_exclusive)
  show "current demo_run < length (tasks demo_run)" by (rule demo_current)
  show "aligned 0x400000" by (rule demo_va(2))
  fix wa assume "in_heap demo_run wa"
  then have w: "unat wa < 0x412000" "0x402000 \<le> unat wa" by (simp_all add: in_heap_def demo_heap word_le_nat_alt word_less_nat_alt)
  then have lt: "unat wa < 2 ^ 47" "\<not> wa < page_up 0x402000" by (simp_all add: page_up_def word_less_nat_alt)
  have "\<not> same_page wa 0x400000"
  proof
    assume "same_page wa 0x400000"
    then have "unat wa div 4096 = 1024" using same_page_nat [OF _ lt(1), of "0x400000"] by simp
    then show False using w by linarith
  qed
  then show "(user_page demo_page demo_root wa \<noteq> None) = (wa < page_up (heap_top demo_run))"
    using demo_pages [OF pml4_ix_low [OF lt(1)]] lt(2) by (simp add: demo_heap)
qed simp_all

theorem user_brk_effect_witness:
  "\<exists>s'. user_brk 0x402800 demo_run = (0x402800, s') \<and> heap_top s' = 0x402800 \<and> user_byte (vm s') demo_root 0x402fff = Some 0"
proof -
  obtain r s' where run: "user_brk 0x402800 demo_run = (r, s')" by fastforce
  note T = user_brk_effect [OF demo_heap_ok run, unfolded demo_heap demo_run_current]
  have pu: "page_up 0x402800 = 0x403000" "page_up 0x402000 = 0x402000" by (simp_all add: page_up_def)
  have r: "r = 0x402800" using T demo_page_ok(3) pu by (auto split: if_splits)
  then have "heap_top s' = 0x402800 \<and> heap_bytes {demo_root} demo_run 0x402800 (vm s')" using T by simp
  then show ?thesis using run r pu unfolding heap_bytes_def by (simp add: in_heap_def demo_heap demo_run_current)
qed

end
