(* ===== verification/Malloc_Brk.thy ===== *)
theory Malloc_Brk
  imports Malloc User_Brk
begin

text \<open>
  The allocator of user programs on the kernel's \<open>brk\<close>: \<open>user_brk\<close> keeps the contract that \<open>Malloc\<close> relies on,
  as long as the break is a multiple of 16, which the allocator itself preserves.
\<close>

section \<open>The contract of brk\<close>

text \<open>The program lies in the lower half, and its break is aligned.\<close>

definition brk_ok :: "sched \<Rightarrow> bool" where
  "brk_ok s \<longleftrightarrow> current s < length (tasks s) \<and> 4096 dvd unat (sched_current_base s) \<and> unat (sched_current_base s) + 18 * 4096 \<le> 2 ^ 47 \<and>
     16 dvd unat (sched_current_brk s)"

lemma set_brk_ok: "brk_ok s \<Longrightarrow> 16 dvd unat b \<Longrightarrow> brk_ok (sched_set_brk b (s\<lparr>vm := v\<rparr>))"
  by (auto simp: brk_ok_def sched_set_brk_def sched_current_base_def sched_current_brk_def cur_task_def task_at_def upd_cur_def upd_task_def)

lemma brk_ok_vm [simp]: "brk_ok (s\<lparr>vm := v\<rparr>) = brk_ok s"
  by (simp add: brk_ok_def sched_current_base_def sched_current_brk_def cur_task_def task_at_def)

lemma user_brk_law: "brk_law (2 ^ 47) brk_ok user_brk"
proof -
  have heap: "unat (sched_current_base s + 2 * PAGE_4K) = unat (sched_current_base s) + 8192"
    "unat (sched_current_base s + 2 * PAGE_4K + USER_HEAP_PAGES * PAGE_4K) = unat (sched_current_base s) + 18 * 4096" if "brk_ok s" for s
  proof -
    have b: "unat (sched_current_base s) + 18 * 4096 \<le> 2 ^ 47" using that by (simp add: brk_ok_def)
    then show 1: "unat (sched_current_base s + 2 * PAGE_4K) = unat (sched_current_base s) + 8192"
      using unat_add_lt [of "sched_current_base s" "2 * PAGE_4K"] by simp
    show "unat (sched_current_base s + 2 * PAGE_4K + USER_HEAP_PAGES * PAGE_4K) = unat (sched_current_base s) + 18 * 4096"
      using unat_add_lt [of "sched_current_base s + 2 * PAGE_4K" "USER_HEAP_PAGES * PAGE_4K"] b unfolding 1 by (simp add: USER_HEAP_PAGES_def)
  qed
  have q: "case user_brk 0 s of (c, s') \<Rightarrow> brk_ok s' \<and> (brk_fail c \<or> c \<noteq> 0 \<and> 16 dvd unat c \<and> unat c \<le> 2 ^ 47)" if "brk_ok s" for s
  proof -
    have al: "4096 dvd unat (sched_current_base s)" "16 dvd unat (sched_current_brk s)" "unat (sched_current_base s) + 18 * 4096 \<le> 2 ^ 47"
      using that by (simp_all add: brk_ok_def)
    have "16 dvd unat (sched_current_base s) + 8192" using dvd_trans [of 16 4096 "unat (sched_current_base s)"] al(1) by (simp add: dvd_add)
    then show ?thesis using that al heap [OF that] by (auto simp: user_brk_def Let_def brk_fail_def word_less_nat_alt word_le_nat_alt)
  qed
  have m: "case user_brk w s of (c, s') \<Rightarrow> brk_ok s' \<and> (brk_fail c \<or> c = w \<and> unat w \<le> 2 ^ 47)" if "brk_ok s" "w \<noteq> 0" "16 dvd unat w" for w s
  proof -
    let ?start = "sched_current_base s + 2 * PAGE_4K" and ?mx = "sched_current_base s + 2 * PAGE_4K + USER_HEAP_PAGES * PAGE_4K"
    have r: "user_brk w s = (- 1, s) \<or> (\<exists>v. user_brk w s = (- 1, s\<lparr>vm := v\<rparr>)) \<or> w \<le> ?mx \<and> (\<exists>v. user_brk w s = (w, sched_set_brk w (s\<lparr>vm := v\<rparr>)))"
    proof (cases "sched_current_cr3 s = 0 \<or> sched_current_cr3 s = vmm_boot_cr3 \<or> sched_current_base s = 0 \<or> w < ?start \<or> w > ?mx")
      case True
      then show ?thesis using that(2) by (auto simp: user_brk_def Let_def)
    next
      case False
      let ?b = "sched_current_brk s"
      let ?old = "page_up (if ?b < ?start \<or> ?b > ?mx then ?start else ?b)" and ?new = "page_up w" and ?c = "sched_current_cr3 s"
      obtain ok v where g: "(if ?new > ?old then map_pages ?c (\<lambda>_. []) ?old 0 (unat (?new - ?old) div 4096) (vm s)
                   else if ?new < ?old then unmap_pages ?c ?new (unat (?old - ?new) div 4096) (vm s) else (True, vm s)) = (ok, v)" by fastforce
      have "user_brk w s = (if \<not> ok then (- 1, s\<lparr>vm := v\<rparr>) else (w, sched_set_brk w (s\<lparr>vm := v\<rparr>)))"
        unfolding user_brk_def Let_def g prod.case using False that(2) by simp
      then show ?thesis using False by (cases ok) auto
    qed
    have "unat w \<le> 2 ^ 47" if "w \<le> ?mx" using that heap(2) [OF \<open>brk_ok s\<close>] \<open>brk_ok s\<close> by (simp add: word_le_nat_alt brk_ok_def)
    then show ?thesis using r that set_brk_ok [OF that(1,3)] by (auto simp: brk_fail_def)
  qed
  show ?thesis using q m unfolding brk_law_def by simp
qed

section \<open>The allocator on the kernel's brk\<close>

text \<open>
  C30. \<open>malloc\<close> of user programs, with the kernel's \<open>brk\<close>, in a task whose program lies page aligned in the lower half
  and whose break is a multiple of 16, which the call keeps so: for a size from 1 to $2^{62}$, on a heap whose blocks
  tile the memory up to the break, or on the first call, it ends. It returns the null pointer only if no free block
  is large enough and the kernel refuses to move the break, and a heap in use is then as it was; otherwise a block of at
  least the size asked for that overlaps no live block, and the blocks tile the heap up to the break again.
  Larger sizes are excluded, and so are calls after a first one that was refused: the heap that it leaves is
  neither tiled nor new.
\<close>

theorem malloc_total:
  assumes "user_ok (2 ^ 47) h xs \<or> heap_base h = 0 \<and> xs = []" "brk_ok s" "sz \<noteq> 0" "unat sz \<le> 2 ^ 62"
  shows "\<exists>p h' s'. malloc user_brk sz (h, s) = Some (p, h', s') \<and> brk_ok s' \<and>
    (if p = 0
     then grow_refused user_brk (HDR + align_up sz HEAP_ALIGN) h s \<and>
       (heap_base h \<noteq> 0 \<longrightarrow> h' = h \<and> (\<forall>(a, f, z) \<in> set xs. f \<longrightarrow> z < unat (align_up sz HEAP_ALIGN)))
     else \<exists>xs' z. user_ok (2 ^ 47) h' xs' \<and> pairwise apart (live_blocks xs') \<and> unat sz \<le> z \<and>
       unat p \<notin> fst ` live_blocks xs \<and> live_blocks xs' = insert (unat p, z) (live_blocks xs))"
  using malloc_spec [OF assms(1) user_brk_law assms(2-4)] unfolding malloc_result_def .

lemma demo_brk_grows: "fst (user_brk 0 demo_run) = 0x402000" "snd (user_brk 0 demo_run) = demo_run" "fst (user_brk 0x403000 demo_run) = 0x403000"
proof -
  have nz: "demo_root \<noteq> 0" "demo_root \<noteq> PML4_PHYS"
    using trees_okD(4,5) [OF spaces_okD(1) [OF demo_page_ok(1)]] by simp_all
  then show "fst (user_brk 0 demo_run) = 0x402000" "snd (user_brk 0 demo_run) = demo_run"
    by (simp_all add: user_brk_def Let_def demo_run_current demo_current vmm_boot_cr3_def USER_HEAP_PAGES_def)
  obtain r v where run: "map_pages (sched_current_cr3 demo_run) (\<lambda>_. []) (page_up (heap_top demo_run)) 0
        (unat (page_up 0x403000 - page_up (heap_top demo_run)) div 4096) (vm demo_run) = (r, v)" by fastforce
  have u: "page_up 0x402000 = 0x402000" "page_up 0x403000 = 0x403000" by (simp_all add: page_up_def)
  have r using heap_grow(3) [OF demo_heap_ok _ _ _ run] demo_page_ok(3) by (simp add: demo_heap u demo_run_current)
  then show "fst (user_brk 0x403000 demo_run) = 0x403000"
    using run nz unfolding user_brk_unfold by (simp add: demo_heap u demo_run_current demo_current vmm_boot_cr3_def)
qed

definition empty_heap :: heap where
  "empty_heap = \<lparr>heap_base = 0, heap_end = 0, hdr = (\<lambda>_. \<lparr>b_magic = 0, b_free = 0, b_size = 0\<rparr>)\<rparr>"

theorem malloc_total_witness:
  "\<exists>p h' s' xs z. malloc user_brk 100 (empty_heap, demo_run) = Some (p, h', s') \<and> p \<noteq> 0 \<and> user_ok (2 ^ 47) h' xs \<and>
    100 \<le> z \<and> live_blocks xs = {(unat p, z)}"
proof -
  have g: "grow_size (HDR + align_up 100 HEAP_ALIGN) = 0x1000"
    by (simp add: grow_size_def HEAP_GROW_def align_up_def)
  have yes: "\<not> grow_refused user_brk (HDR + align_up 100 HEAP_ALIGN) empty_heap demo_run"
    using demo_brk_grows unfolding grow_refused_def g by (simp add: empty_heap_def brk_fail_def case_prod_beta)
  have ok: "brk_ok demo_run" by (simp add: brk_ok_def demo_current)
  have "heap_base empty_heap = 0" by (simp add: empty_heap_def)
  with malloc_total [of empty_heap "[]" demo_run 100] yes ok show ?thesis by (auto simp: live_blocks_def split: if_splits)
qed

end
