(* ===== verification/Printf.thy ===== *)
theory Printf
  imports Prelude
begin

text \<open>
  The formatter of user programs, \<open>user/printf.c\<close>. An argument list holds strings (\<open>None\<close> for the
  null pointer) and 32-bit words; a format that asks for an argument that is not there, or of
  the other kind, is undefined in C and \<open>None\<close> here. The position is a natural number: it counts
  characters, and wraps only past $2^{64}$ of them.
\<close>

datatype arg = Str "string option" | Word u32

definition PRINTF_MAX :: nat where "PRINTF_MAX = 256"

type_synonym out = "string option \<times> nat"

definition putc_at :: "nat \<Rightarrow> char \<Rightarrow> out \<Rightarrow> out" where
  "putc_at cap c = (\<lambda>(dst, pos).
     (case dst of None \<Rightarrow> None
      | Some d \<Rightarrow> Some (if cap \<noteq> 0 \<and> pos + 1 < cap then d[pos := c] else d), pos + 1))"

definition digit_char :: "u32 \<Rightarrow> char" where
  "digit_char d = char_of (if d < 10 then 48 + unat d else 97 + (unat d - 10))"

text \<open>The digits in \<open>tmp\<close>, the lowest first; \<open>k\<close> of its 16 places are left.\<close>

fun digits :: "nat \<Rightarrow> u32 \<Rightarrow> u32 \<Rightarrow> string" where
  "digits 0 v base = []"
| "digits (Suc k) v base = (if v = 0 then [] else digit_char (v mod base) # digits k (v div base) base)"

definition put_uint :: "nat \<Rightarrow> u32 \<Rightarrow> u32 \<Rightarrow> out \<Rightarrow> out" where
  "put_uint cap v base o1 =
     (if v = 0 then putc_at cap CHR ''0'' o1 else fold (putc_at cap) (rev (digits 16 v base)) o1)"

definition put_str :: "nat \<Rightarrow> string option \<Rightarrow> out \<Rightarrow> out" where
  "put_str cap s o1 = fold (putc_at cap) (case s of None \<Rightarrow> [] | Some t \<Rightarrow> t) o1"

definition put_int :: "nat \<Rightarrow> u32 \<Rightarrow> out \<Rightarrow> out" where
  "put_int cap v o1 =
     (if v <s 0 then put_uint cap (- (v + 1) + 1) 10 (putc_at cap CHR ''-'' o1) else put_uint cap v 10 o1)"

fun vsn_loop :: "nat \<Rightarrow> string \<Rightarrow> arg list \<Rightarrow> out \<Rightarrow> out option" where
  "vsn_loop cap [] as o1 = Some o1"
| "vsn_loop cap (c # fmt) as o1 =
     (if c \<noteq> CHR ''%'' then vsn_loop cap fmt as (putc_at cap c o1)
      else case fmt of
          [] \<Rightarrow> Some (putc_at cap CHR ''%'' o1)
        | d # rest \<Rightarrow>
            if d = CHR ''%'' then vsn_loop cap rest as (putc_at cap CHR ''%'' o1)
            else if d = CHR ''s''
            then (case as of Str s # bs \<Rightarrow> vsn_loop cap rest bs (put_str cap s o1) | _ \<Rightarrow> None)
            else if d = CHR ''d''
            then (case as of Word v # bs \<Rightarrow> vsn_loop cap rest bs (put_int cap v o1) | _ \<Rightarrow> None)
            else if d = CHR ''x''
            then (case as of Word v # bs \<Rightarrow> vsn_loop cap rest bs (put_uint cap v 16 o1) | _ \<Rightarrow> None)
            else vsn_loop cap rest as (putc_at cap d (putc_at cap CHR ''%'' o1)))"

definition vsnprintf :: "nat \<Rightarrow> string option \<Rightarrow> arg list \<Rightarrow> string option \<Rightarrow> (u32 \<times> string option) option" where
  "vsnprintf cap fmt as dst =
     (case vsn_loop cap (case fmt of None \<Rightarrow> [] | Some f \<Rightarrow> f) as (dst, 0) of None \<Rightarrow> None
      | Some (dst1, pos) \<Rightarrow>
          Some (of_nat pos, if cap \<noteq> 0 then map_option (\<lambda>d. d[(if cap \<le> pos then cap - 1 else pos) := CHR 0x00]) dst1 else dst1))"

definition snprintf :: "nat \<Rightarrow> string option \<Rightarrow> arg list \<Rightarrow> string option \<Rightarrow> (u32 \<times> string option) option" where
  "snprintf n fmt as dst = vsnprintf n fmt as dst"

text \<open>\<open>printf\<close> returns its result and the bytes it passes to \<open>write\<close>; \<open>buf\<close> is the uninitialised buffer.\<close>

definition printf :: "string option \<Rightarrow> arg list \<Rightarrow> string \<Rightarrow> (u32 \<times> string) option" where
  "printf fmt as buf =
     (case vsnprintf PRINTF_MAX fmt as (Some buf) of None \<Rightarrow> None
      | Some (n, dst) \<Rightarrow>
          if n <s 0 then Some (n, [])
          else let m = (if of_nat PRINTF_MAX \<le>s n then of_nat PRINTF_MAX - 1 else n) in
            Some (m, if 0 <s m then take (unat m) (the dst) else []))"

section \<open>The text of a format\<close>

text \<open>Numerals as usual, most significant digit first.\<close>

definition hex_char :: "nat \<Rightarrow> char" where
  "hex_char n = ''0123456789abcdef'' ! n"

function numeral_of :: "nat \<Rightarrow> nat \<Rightarrow> string" where
  "numeral_of b n = (if n < b \<or> b < 2 then [hex_char n] else numeral_of b (n div b) @ [hex_char (n mod b)])"
  by pat_completeness auto
termination
  by (relation "measure snd") (auto intro: div_less_dividend)

declare numeral_of.simps [simp del]

text \<open>What the directive \<open>d\<close> shows, and the arguments left.\<close>

definition directive :: "char \<Rightarrow> arg list \<Rightarrow> (string \<times> arg list) option" where
  "directive d as =
     (if d = CHR ''s'' then (case as of Str s # bs \<Rightarrow> Some (case s of None \<Rightarrow> [] | Some t \<Rightarrow> t, bs) | _ \<Rightarrow> None)
      else if d = CHR ''d''
      then (case as of Word v # bs \<Rightarrow> Some ((if sint v < 0 then ''-'' else []) @ numeral_of 10 (nat \<bar>sint v\<bar>), bs) | _ \<Rightarrow> None)
      else if d = CHR ''x'' then (case as of Word v # bs \<Rightarrow> Some (numeral_of 16 (unat v), bs) | _ \<Rightarrow> None)
      else Some (if d = CHR ''%'' then ''%'' else [CHR ''%'', d], as))"

fun text_of :: "string \<Rightarrow> arg list \<Rightarrow> string option" where
  "text_of [] as = Some []"
| "text_of (c # fmt) as =
     (if c \<noteq> CHR ''%'' then map_option ((@) [c]) (text_of fmt as)
      else case fmt of [] \<Rightarrow> Some ''%''
        | d # rest \<Rightarrow> (case directive d as of None \<Rightarrow> None | Some (t, bs) \<Rightarrow> map_option ((@) t) (text_of rest bs)))"

section \<open>Correctness\<close>

lemma digit_hex: "unat d < 16 \<Longrightarrow> digit_char d = hex_char (unat d)"
proof -
  assume "unat d < 16"
  then have m: "unat d \<in> set [0..<16]" by (simp only: set_upt) simp
  have "list_all (\<lambda>n. digit_char (of_nat n) = hex_char n) [0..<16]" by code_simp
  then have "digit_char (of_nat (unat d)) = hex_char (unat d)" using m unfolding list_all_iff by blast
  then show ?thesis by simp
qed

lemma digits_numeral:
  assumes "v \<noteq> 0" "unat v < b ^ k" "2 \<le> b" "b \<le> 16"
  shows "rev (digits k v (of_nat b)) = numeral_of b (unat v)"
  using assms(1,2)
proof (induction k arbitrary: v)
  case 0
  then show ?case by (simp add: unat_eq_0)
next
  case (Suc k)
  have b: "unat (of_nat b :: u32) = b" using assms(4) by (simp add: unat_of_nat)
  have md: "unat (v mod of_nat b) = unat v mod b" "unat (v div of_nat b) = unat v div b"
    using b by (simp_all add: unat_mod unat_div)
  have d: "digit_char (v mod of_nat b) = hex_char (unat v mod b)"
  proof -
    have "unat v mod b < b" using assms(3) by simp
    then show ?thesis using digit_hex [of "v mod of_nat b"] md(1) assms(4) by simp
  qed
  show ?case
  proof (cases "unat v < b")
    case True
    then have "v div of_nat b = 0" using md(2) by (simp add: word_eq_by_unat)
    then show ?thesis using Suc.prems d True by (cases k) (simp_all add: numeral_of.simps [of b "unat v"])
  next
    case False
    have "0 < unat v div b" using False assms(3) by (simp add: div_greater_zero_iff)
    then have nz: "v div of_nat b \<noteq> 0" using md(2) by auto
    have "unat v div b < b ^ k" using Suc.prems(2) assms(3) by (simp add: less_mult_imp_div_less mult.commute)
    then have "rev (digits k (v div of_nat b) (of_nat b)) = numeral_of b (unat v div b)"
      using Suc.IH [OF nz] md(2) by simp
    then show ?thesis using Suc.prems(1) d False assms(3) by (simp add: numeral_of.simps [of b "unat v"])
  qed
qed

text \<open>The output so far: \<open>u\<close> as far as it fits, then the old bytes.\<close>

definition shown :: "nat \<Rightarrow> string \<Rightarrow> string \<Rightarrow> out" where
  "shown cap d u = (Some (take (min (length u) (cap - 1)) u @ drop (min (length u) (cap - 1)) d), length u)"

lemma putc_shown:
  assumes "0 < cap" "cap \<le> length d"
  shows "putc_at cap c (shown cap d u) = shown cap d (u @ [c])"
proof (cases "length u + 1 < cap")
  case True
  then have l: "length u < length d" using assms by simp
  have "(u @ drop (length u) d)[length u := c] = u @ c # drop (Suc (length u)) d"
    using l by (simp add: list_update_append Cons_nth_drop_Suc [symmetric])
  then show ?thesis using True by (auto simp: putc_at_def shown_def min_def)
next
  case False
  then have "min (length u) (cap - 1) = cap - 1" "min (length (u @ [c])) (cap - 1) = cap - 1" by auto
  moreover have "take (cap - 1) (u @ [c]) = take (cap - 1) u" using False by simp
  ultimately show ?thesis using False by (simp add: putc_at_def shown_def)
qed

lemma fold_shown:
  "0 < cap \<Longrightarrow> cap \<le> length d \<Longrightarrow> fold (putc_at cap) t (shown cap d u) = shown cap d (u @ t)"
  by (induction t arbitrary: u) (simp_all add: putc_shown)

lemma put_uint_shown:
  assumes "0 < cap" "cap \<le> length d" "b = 10 \<or> b = 16"
  shows "put_uint cap v (of_nat b) (shown cap d u) = shown cap d (u @ numeral_of b (unat v))"
proof (cases "v = 0")
  case True
  have "numeral_of b 0 = ''0''" using assms(3) by (auto simp: numeral_of.simps [of _ 0] hex_char_def)
  then show ?thesis using True assms by (simp add: put_uint_def putc_shown)
next
  case False
  have "unat v < 2 ^ 32" by (rule order_less_le_trans [OF unsigned_less]) simp
  moreover have "(2 :: nat) ^ 32 \<le> b ^ 16" using assms(3) by auto
  ultimately have "unat v < b ^ 16" by (rule order_less_le_trans)
  then have "rev (digits 16 v (of_nat b)) = numeral_of b (unat v)" by (rule digits_numeral [OF False]) (use assms(3) in auto)
  then show ?thesis using False assms by (simp add: put_uint_def fold_shown)
qed

lemma neg_unat: "sint (v :: u32) < 0 \<Longrightarrow> unat (- (v + 1) + 1) = nat \<bar>sint v\<bar>"
proof -
  assume s: "sint v < 0"
  have e: "- (v + 1) + 1 = - v" by simp
  have "- v = word_of_int (- sint v)" by simp
  moreover have "- sint v \<le> 2 ^ 31" using sint_greater_eq [of v] by simp
  moreover have "uint (word_of_int x :: u32) = x" if "0 \<le> x" "x \<le> 2 ^ 31" for x using that by (simp add: uint_word_of_int)
  ultimately have "uint (- v) = - sint v" using s by (metis neg_0_le_iff_le order_less_imp_le)
  then show ?thesis using s unfolding e by (simp add: unat_eq_nat_uint)
qed

lemma put_int_shown:
  assumes "0 < cap" "cap \<le> length d"
  shows "put_int cap v (shown cap d u) =
    shown cap d (u @ (if sint v < 0 then ''-'' else []) @ numeral_of 10 (nat \<bar>sint v\<bar>))"
proof (cases "sint v < 0")
  case True
  then show ?thesis using neg_unat [OF True] put_uint_shown [OF assms, of 10] assms
    by (simp add: put_int_def word_sless_alt putc_shown)
next
  case False
  then have nn: "0 \<le> sint v" by simp
  have "uint (word_of_int x :: u32) = x" if "0 \<le> x" "x < 2 ^ 31" for x using that by (simp add: uint_word_of_int)
  from this [OF nn] have "uint v = sint v" using sint_less [of v] by simp
  then have "unat v = nat \<bar>sint v\<bar>" using nn by (simp add: unat_eq_nat_uint)
  then show ?thesis using False put_uint_shown [OF assms, of 10] by (simp add: put_int_def word_sless_alt)
qed

lemma vsn_shown:
  assumes "0 < cap" "cap \<le> length d"
  shows "vsn_loop cap fmt as (shown cap d u) = map_option (\<lambda>t. shown cap d (u @ t)) (text_of fmt as)"
proof (induction "length fmt" arbitrary: fmt as u rule: less_induct)
  case less
  note sh = putc_shown [OF assms] fold_shown [OF assms] put_int_shown [OF assms] put_uint_shown [OF assms, of 16, simplified]
  show ?case
  proof (cases fmt)
    case (Cons c fm)
    note IH = less.hyps
    show ?thesis
    proof (cases "c = CHR ''%'' \<and> fm \<noteq> []")
      case False
      then show ?thesis using Cons IH [of fm as "u @ [c]"] by (auto simp: sh option.map_comp comp_def)
    next
      case True
      then obtain e rest where fm: "fm = e # rest" by (cases fm) auto
      have IH1: "vsn_loop cap rest bs (shown cap d w) = map_option (\<lambda>t. shown cap d (w @ t)) (text_of rest bs)" for bs w
        by (rule IH) (simp add: Cons fm)
      consider "e = CHR ''s''" | "e = CHR ''d''" | "e = CHR ''x''" | "e = CHR ''%''" | "e \<notin> {CHR ''s'', CHR ''d'', CHR ''x'', CHR ''%''}" by blast
      then show ?thesis
        by cases (simp_all add: Cons fm True sh IH1 put_str_def directive_def option.map_comp comp_def split: list.split arg.split)
    qed
  qed simp
qed

text \<open>
  C40. \<open>snprintf\<close> shows the text of its format, decimal numbers with their sign and hexadecimal ones
  included: as much of it as fits in front of the terminator is stored, the rest of the buffer
  is left alone, and the length of the whole text is returned.
\<close>

theorem snprintf_text:
  assumes "0 < n" "n \<le> length d" "text_of fmt as = Some t"
  defines "k \<equiv> min (length t) (n - 1)"
  shows "snprintf n (Some fmt) as (Some d) = Some (of_nat (length t), Some (take k t @ CHR 0x00 # drop (k + 1) d))"
proof -
  have s0: "(Some d, 0) = shown n d []" by (simp add: shown_def)
  have r: "vsn_loop n fmt as (Some d, 0) = Some (shown n d t)"
    unfolding s0 using vsn_shown [OF assms(1,2), of fmt as "[]"] assms(3) by simp
  have kd: "k < length d" "length (take k t) = k" using assms by (auto simp: k_def)
  have "(take k t @ drop k d)[k := CHR 0x00] = take k t @ CHR 0x00 # drop (k + 1) d"
    using kd by (simp add: list_update_append Cons_nth_drop_Suc [symmetric])
  moreover have "(if n \<le> length t then n - 1 else length t) = k" using assms(1) by (auto simp: k_def)
  moreover have "shown n d t = (Some (take k t @ drop k d), length t)" by (simp add: shown_def k_def)
  ultimately show ?thesis using assms(1) r by (simp add: snprintf_def vsnprintf_def)
qed

theorem snprintf_text_witness:
  "snprintf 8 (Some ''%s=%d'') [Str (Some ''pid''), Word (- 12)] (Some (replicate 10 CHR ''.'')) =
    Some (7, Some (''pid=-12'' @ [CHR 0x00] @ ''..''))"
proof -
  have t: "text_of ''%s=%d'' [Str (Some ''pid''), Word (- 12)] = Some ''pid=-12''"
    by (simp add: directive_def numeral_of.simps hex_char_def)
  show ?thesis using snprintf_text [OF _ _ t, of 8 "replicate 10 CHR ''.''"] by (simp add: numeral_2_eq_2)
qed

end
