(* ===== verification/User_Mmap.thy ===== *)
theory User_Mmap
  imports User_Brk
begin

text \<open>
  Mappings of a task outside its heap: the page part of \<open>user_mmap\<close>, \<open>user_munmap\<close> and
  \<open>user_mprotect\<close> of \<open>kernel/user.c\<close>. \<open>mmap_range\<close> is the checks of \<open>user_mmap\<close> up to the overlap
  test and \<open>mmap_fill\<close> its loop; the file system call between them is in the theory of the system
  calls. The sources repeat the checks of address and length in the three functions:
  \<open>page_count\<close>, with the number of pages as its result.
\<close>

section \<open>Operations\<close>

definition page_count :: "u64 \<Rightarrow> u64 \<Rightarrow> nat option" where
  "page_count va len =
     (if va = 0 \<or> va AND (PAGE_4K - 1) \<noteq> 0 then None
      else if len = 0 \<or> len > USER_MMAP_PAGES * PAGE_4K then None
      else let npages = page_up len div PAGE_4K in
        if npages = 0 \<or> npages > USER_MMAP_PAGES then None
        else if va + npages * PAGE_4K < va then None else Some (unat npages))"

definition no_task :: "sched \<Rightarrow> bool" where
  "no_task s \<longleftrightarrow> sched_current_cr3 s = 0 \<or> sched_current_cr3 s = vmm_boot_cr3"

definition some_page :: "(u64 \<Rightarrow> bool) \<Rightarrow> u64 \<Rightarrow> nat \<Rightarrow> bool" where
  "some_page P va n = list_ex (\<lambda>i. P (va + of_nat i * PAGE_4K)) [0..<n]"

definition heap_page :: "u64 \<Rightarrow> u64 \<Rightarrow> bool" where
  "heap_page base page =
     (let heap_lo = base + 2 * PAGE_4K in page \<ge> heap_lo \<and> page < heap_lo + USER_HEAP_PAGES * PAGE_4K)"

definition mmap_range :: "u64 \<Rightarrow> u64 \<Rightarrow> sched \<Rightarrow> nat option" where
  "mmap_range hint len s =
     (if no_task s \<or> sched_current_base s = 0 then None
      else case page_count hint len of
          None \<Rightarrow> None
        | Some n \<Rightarrow>
            if some_page (\<lambda>va. heap_page (sched_current_base s) va \<or>
                 vmm_translate_user (sched_current_cr3 s) va (vm s) \<noteq> None) hint n
            then None else Some n)"

text \<open>The bytes of the file that page \<open>k\<close> of the mapping gets; none without a file.\<close>

definition file_page :: "u8 list option \<Rightarrow> nat \<Rightarrow> u8 list" where
  "file_page fil k = (case fil of None \<Rightarrow> [] | Some bs \<Rightarrow> take 4096 (drop (k * 4096) bs))"

definition mmap_fill :: "u64 \<Rightarrow> nat \<Rightarrow> u8 list option \<Rightarrow> sched \<Rightarrow> u64 \<times> sched" where
  "mmap_fill hint n fil s =
     (case map_pages (sched_current_cr3 s) (file_page fil) hint 0 n (vm s) of
        (ok, v) \<Rightarrow> (if ok then hint else - 1, s\<lparr>vm := v\<rparr>))"

definition user_munmap :: "u64 \<Rightarrow> u64 \<Rightarrow> sched \<Rightarrow> u64 \<times> sched" where
  "user_munmap va len s =
     (let c = sched_current_cr3 s; base = sched_current_base s in
      if no_task s \<or> base = 0 then (- 1, s)
      else case page_count va len of
          None \<Rightarrow> (- 1, s)
        | Some n \<Rightarrow>
            if some_page (\<lambda>page. (page \<ge> base \<and> page < base + 2 * PAGE_4K) \<or> heap_page base page \<or>
                 vmm_translate_user c page (vm s) = None) va n
            then (- 1, s)
            else (case unmap_pages c va n (vm s) of (ok, v) \<Rightarrow> (if ok then 0 else - 1, s\<lparr>vm := v\<rparr>)))"

fun protect_pages :: "u64 \<Rightarrow> bool \<Rightarrow> u64 \<Rightarrow> nat \<Rightarrow> vmm \<Rightarrow> bool \<times> vmm" where
  "protect_pages c wr va 0 v = (True, v)"
| "protect_pages c wr va (Suc n) v =
     (case vmm_protect_user c va wr v of (ok, v1) \<Rightarrow> if \<not> ok then (False, v1) else protect_pages c wr (va + PAGE_4K) n v1)"

definition user_mprotect :: "u64 \<Rightarrow> u64 \<Rightarrow> u64 \<Rightarrow> sched \<Rightarrow> u64 \<times> sched" where
  "user_mprotect va len prot s =
     (let c = sched_current_cr3 s in
      if no_task s then (- 1, s)
      else case page_count va len of
          None \<Rightarrow> (- 1, s)
        | Some n \<Rightarrow>
            if prot \<noteq> PROT_READ \<and> prot \<noteq> PROT_WRITE \<and> prot \<noteq> PROT_READ OR PROT_WRITE then (- 1, s)
            else if some_page (\<lambda>page. vmm_translate_user c page (vm s) = None) va n then (- 1, s)
            else (case protect_pages c (prot \<noteq> PROT_READ) va n (vm s) of (ok, v) \<Rightarrow> (if ok then 0 else - 1, s\<lparr>vm := v\<rparr>)))"

section \<open>Ranges\<close>

lemma page_count_Some:
  assumes "page_count va len = Some n"
  shows "va \<noteq> 0" "aligned va" "0 < n" "n \<le> 16" "n = (unat len + 4095) div 4096"
proof -
  have l: "len \<le> 0x10000" "len \<noteq> 0" using assms by (auto simp: page_count_def USER_MMAP_PAGES_def split: if_splits)
  then have u: "unat len \<le> 65536" "0 < unat len" by (auto simp: word_le_nat_alt unat_gt_0)
  have p: "unat (page_up len) = (unat len + 4095) div 4096 * 4096" using u by (intro page_up_nat) simp
  have n: "n = unat (page_up len div PAGE_4K)" using assms by (auto simp: page_count_def Let_def split: if_splits)
  then show e: "n = (unat len + 4095) div 4096" by (simp add: unat_div p)
  show "va \<noteq> 0" "aligned va" using assms by (auto simp: page_count_def aligned_4095 split: if_splits)
  show "0 < n" "n \<le> 16" unfolding e using u by auto
qed

lemma some_page_iff: "some_page P va n \<longleftrightarrow> (\<exists>i < n. P (va + of_nat i * PAGE_4K))"
  by (auto simp: some_page_def list_ex_iff)

text \<open>The pages of a range, seen from one of its addresses.\<close>

lemma range_page:
  assumes "aligned lo" "user_range lo (n * 4096)" "unat lo \<le> unat wa" "unat wa < unat lo + n * 4096"
  shows "\<exists>i < n. same_page wa (lo + of_nat i * PAGE_4K)"
proof -
  define i where "i = (unat wa - unat lo) div 4096"
  have i: "i < n" using assms(3,4) unfolding i_def by (simp add: less_mult_imp_div_less)
  have le: "unat lo + Suc i * 4096 \<le> unat lo + n * 4096" using i by (metis add_left_mono mult_le_mono1 Suc_leI)
  have w: "unat wa < 2 ^ 47" using assms(2,4) by (simp add: user_range_def)
  have "i * 4096 \<le> unat wa - unat lo" "unat wa - unat lo < Suc i * 4096"
    unfolding i_def by (simp_all add: dividend_less_times_div)
  then have "unat lo + i * 4096 \<le> unat wa \<and> unat wa < unat lo + Suc i * 4096" using assms(3) by linarith
  moreover have "unat lo + Suc i * 4096 \<le> 2 ^ 47" using le assms(2) unfolding user_range_def by (rule order_trans)
  ultimately show ?thesis using in_page(1) [OF assms(1) _ w, of i] i by blast
qed

lemma range_start:
  assumes "aligned lo" "user_range lo (n * 4096)" "i < n"
  shows "unat (lo + of_nat i * PAGE_4K) = unat lo + i * 4096" "unat lo + i * 4096 < unat lo + n * 4096"
    "pml4_ix (lo + of_nat i * PAGE_4K) < 256" "unat lo + i * 4096 < 2 ^ 47"
proof -
  show lt: "unat lo + i * 4096 < unat lo + n * 4096" using assms(3) by simp
  then show l: "unat lo + i * 4096 < 2 ^ 47" using assms(2) by (simp add: user_range_def)
  show u: "unat (lo + of_nat i * PAGE_4K) = unat lo + i * 4096" by (rule page_nat [OF l])
  show "pml4_ix (lo + of_nat i * PAGE_4K) < 256" by (rule pml4_ix_low) (simp only: u l)
qed

lemma pages_mapped_iff:
  assumes "trees_ok S v" "R \<in> S" "aligned lo" "user_range lo (n * 4096)"
  shows "(\<forall>i < n. vmm_translate_user R (lo + of_nat i * PAGE_4K) v \<noteq> None) \<longleftrightarrow>
    (\<forall>wa :: u64. unat lo \<le> unat wa \<and> unat wa < unat lo + n * 4096 \<longrightarrow> user_page v R wa \<noteq> None)" (is "?A \<longleftrightarrow> ?B")
proof -
  have t: "vmm_translate_user R (lo + of_nat i * PAGE_4K) v \<noteq> None \<longleftrightarrow> user_page v R (lo + of_nat i * PAGE_4K) \<noteq> None" if "i < n" for i
    using translate_user_page [OF assms(1,2) range_start(3) [OF assms(3,4) that]] by simp
  show ?thesis
  proof
    assume a: ?A
    show ?B
    proof (intro allI impI)
      fix wa :: u64 assume w: "unat lo \<le> unat wa \<and> unat wa < unat lo + n * 4096"
      obtain i where "i < n" "same_page wa (lo + of_nat i * PAGE_4K)" using range_page [OF assms(3,4)] w by blast
      then show "user_page v R wa \<noteq> None" using a t [of i] same_page_eq [of wa "lo + of_nat i * PAGE_4K" v R] by simp
    qed
  next
    assume b: ?B
    show ?A
    proof (intro allI impI)
      fix i assume "i < n"
      then show "vmm_translate_user R (lo + of_nat i * PAGE_4K) v \<noteq> None"
        using b [rule_format, of "lo + of_nat i * PAGE_4K"] t range_start [OF assms(3,4), of i] by simp
    qed
  qed
qed

lemma pages_unmapped:
  assumes "trees_ok S v" "R \<in> S" "aligned lo" "user_range lo (n * 4096)"
    and "\<forall>i < n. vmm_translate_user R (lo + of_nat i * PAGE_4K) v = None"
  shows "unmapped v R lo n"
  unfolding unmapped_def
proof (intro allI impI)
  fix wa :: u64 assume w: "unat lo \<le> unat wa \<and> unat wa < unat lo + n * 4096"
  obtain i where i: "i < n" "same_page wa (lo + of_nat i * PAGE_4K)" using range_page [OF assms(3,4)] w by blast
  have "user_page v R (lo + of_nat i * PAGE_4K) = None"
    using translate_user_page [OF assms(1,2) range_start(3) [OF assms(3,4) i(1)]] assms(5) i(1) by simp
  then show "user_page v R wa = None" using same_page_eq [OF i(2)] by simp
qed

lemma small_range: "user_range va 65536 \<Longrightarrow> n \<le> 16 \<Longrightarrow> user_range va (n * 4096)"
  by (simp add: user_range_def)

section \<open>Unmapping\<close>

text \<open>
  \<open>munmap\<close>: it succeeds exactly when the address is a non-zero multiple of the page size, the
  length at most sixteen pages and not zero, every page of the range is mapped, and none is the
  program, the stack or a heap page. Then every page of the range is gone and nothing else changes
  in any address space; a refused call changes nothing.
\<close>

lemma munmap_effect:
  assumes "vm_ok S (vm s)" "sched_current_cr3 s \<in> S" "user_range va 65536" "user_munmap va len s = (r, s')"
  shows "vm_ok S (vm s') \<and>
    (if sched_current_base s \<noteq> 0 \<and> (\<exists>n. page_count va len = Some n \<and>
        (\<forall>i < n. let page = va + of_nat i * PAGE_4K; base = sched_current_base s in
           \<not> (base \<le> page \<and> page < base + 2 * PAGE_4K) \<and> \<not> heap_page base page \<and> user_page (vm s) (sched_current_cr3 s) page \<noteq> None))
     then r = 0 \<and> s' = s\<lparr>vm := vm s'\<rparr> \<and> (\<forall>R' \<in> S. \<forall>wa :: u64. unat wa < 2 ^ 47 \<longrightarrow> sees (vm s') R' wa =
       (if R' = sched_current_cr3 s \<and> unat va \<le> unat wa \<and> unat wa < unat va + (unat len + 4095) div 4096 * 4096
        then (None, None) else sees (vm s) R' wa))
     else r = - 1 \<and> s' = s)"
proof -
  let ?R = "sched_current_cr3 s" and ?b = "sched_current_base s"
  let ?bad = "\<lambda>page. (?b \<le> page \<and> page < ?b + 2 * PAGE_4K) \<or> heap_page ?b page \<or> vmm_translate_user ?R page (vm s) = None"
  have tr: "trees_ok S (vm s)" using assms(1) by (simp add: vm_ok_def spaces_ok_def)
  have nt: "\<not> no_task s" using trees_okD(4,5) [OF tr assms(2)] by (auto simp: no_task_def vmm_boot_cr3_def)
  show ?thesis
  proof (cases "?b = 0 \<or> page_count va len = None")
    case True
    then show ?thesis using assms nt by (auto simp: user_munmap_def Let_def split: option.splits)
  next
    case False
    then obtain n where n: "page_count va len = Some n" by auto
    note C = page_count_Some [OF n]
    have rg: "user_range va (n * 4096)" by (rule small_range [OF assms(3) C(4)])
    have mp: "vmm_translate_user ?R (va + of_nat i * PAGE_4K) (vm s) = None \<longleftrightarrow> user_page (vm s) ?R (va + of_nat i * PAGE_4K) = None"
      if "i < n" for i using translate_user_page [OF tr assms(2) range_start(3) [OF C(2) rg that]] by simp
    have good: "(\<forall>i < n. let page = va + of_nat i * PAGE_4K; base = ?b in
        \<not> (base \<le> page \<and> page < base + 2 * PAGE_4K) \<and> \<not> heap_page base page \<and> user_page (vm s) ?R page \<noteq> None) \<longleftrightarrow> \<not> some_page ?bad va n"
      unfolding some_page_iff Let_def using mp by blast
    show ?thesis
    proof (cases "some_page ?bad va n")
      case True
      then have "r = - 1" "s' = s" using assms(4) nt False n by (simp_all add: user_munmap_def Let_def)
      then show ?thesis using True good n assms(1) by auto
    next
      case ok: False
      obtain q v where q: "unmap_pages ?R va n (vm s) = (q, v)" by fastforce
      then have res: "r = (if q then 0 else - 1)" "s' = s\<lparr>vm := v\<rparr>" using assms(4) nt False n ok by (simp_all add: user_munmap_def Let_def)
      have "\<forall>i < n. vmm_translate_user ?R (va + of_nat i * PAGE_4K) (vm s) \<noteq> None" using ok unfolding some_page_iff by blast
      note U = unmap_pages_spec [OF assms(1,2) C(2) rg this [unfolded pages_mapped_iff [OF tr assms(2) C(2) rg]] q]
      show ?thesis using U res good ok n False vm_ok_steps [OF _ assms(1)] C(5) by auto
    qed
  qed
qed

section \<open>Protection\<close>

text \<open>A page with other rights: writable at once only where no other page shares its frame.\<close>

definition with_rights :: "u64 set \<Rightarrow> vmm \<Rightarrow> bool \<Rightarrow> (u64 \<times> bool \<times> bool) option \<Rightarrow> (u64 \<times> bool \<times> bool) option" where
  "with_rights S v wr pg = map_option (\<lambda>(a, _). (a, wr \<and> card (maps S v a) = 1, wr)) pg"

lemma protect_user_view:
  assumes ok: "vm_ok S v" and R: "R \<in> S" and va: "pml4_ix va < 256" and cr: "cr3_reg v \<noteq> 0"
    and run: "vmm_protect_user R va wr v = (r, v')"
  shows "vm_step (S, v) (S, v')" "r \<longleftrightarrow> user_page v R va \<noteq> None" "cr3_reg v' = cr3_reg v" "card (maps S v' b) = card (maps S v b)"
    "R' \<in> S \<Longrightarrow> pml4_ix wa < 256 \<Longrightarrow> user_page v' R' wa =
      (if R' = R \<and> same_page wa va then with_rights S v wr (user_page v R' wa) else user_page v R' wa)"
    "R' \<in> S \<Longrightarrow> pml4_ix wa < 256 \<Longrightarrow> user_byte v' R' wa = user_byte v R' wa"
proof -
  have sp: "spaces_ok S v" using ok by (simp add: vm_ok_def)
  note tr = spaces_okD(1) [OF sp]
  show "vm_step (S, v) (S, v')" by (rule vm_step.protect [OF R va cr run])
  let ?p = "va_place va" and ?i = "pt_ix va"
  let ?e = "pte v R ?p ?i"
  note Q = protect_user_ok [OF sp R va cr run]
  show "cr3_reg v' = cr3_reg v" using Q by simp
  have main: "(r \<longleftrightarrow> user_page v R va \<noteq> None) \<and> card (maps S v' b) = card (maps S v b) \<and>
    (\<forall>R' \<in> S. \<forall>wa. pml4_ix wa < 256 \<longrightarrow> user_page v' R' wa =
      (if R' = R \<and> same_page wa va then with_rights S v wr (user_page v R' wa) else user_page v R' wa) \<and> user_byte v' R' wa = user_byte v R' wa)"
  proof (cases r)
    case False
    then have "v' = v" "user_page v R va = None" using Q by (simp_all add: user_page_None)
    then show ?thesis using False same_page_eq by (auto simp: with_rights_def)
  next
    case True
    then obtain e' where e: "mapped ?e" "pte_upd S v v' R ?p ?i e'" "mapped e'" "e' AND ADDR_MASK = ?e AND ADDR_MASK" "bit e' 9 = wr"
      "bit e' 1 = (wr \<and> card (maps S v (?e AND ADDR_MASK)) = 1)" using Q by auto
    have c: "card (maps S v' b) = card (maps S v b)" using card_upd [OF e(2) spaces_okD(3) [OF sp], of b] e(1,3,4) by simp
    have here: "user_page v R va = Some (?e AND ADDR_MASK, bit ?e 1, bit ?e 9)" using e(1) by (simp add: user_page_def Let_def)
    have P: "user_page v' R' wa = (if R' = R \<and> same_page wa va then with_rights S v wr (user_page v R' wa) else user_page v R' wa)"
      if "R' \<in> S" "pml4_ix wa < 256" for R' wa
      using pte_upd_page [OF e(2) that] e same_page_eq [of wa va v R] here by (auto simp: with_rights_def)
    obtain t where t: "node v R ?p = Some t" using pte_mapped_node [OF e(1)] by blast
    have leaf: "vmm_leaf_pte R (va AND ADDR_MASK) v = Some (t, ?i)"
      using leaf_pte_spec [OF tr R, of "va AND ADDR_MASK"] va e(1) t by simp
    have mem: "\<exists>x. \<forall>a j. tab_get v' a j = tab_get (tab_set t ?i x v) a j"
      using run unfolding vmm_protect_user_def Let_def leaf by (auto simp: tab_get_def vmm_set_cr3_def split: if_splits)
    have ta: "aligned t" using trees_okD(3) [OF tr R] node_aligned t by blast
    have vp: "vpath ?p" using leaf_place_va [OF va] by (simp add: leaf_place_def)
    have cont: "page_byte v' a (of_nat x) = page_byte v a (of_nat x)" if "maps S v a \<noteq> {}" "x < 4096" for a x
    proof (rule page_byte_cong [OF that(2)])
      have "a \<noteq> t" using spaces_okD(7) [OF sp that(1) R vp] t by auto
      then show "tab_get v' a j = tab_get v a j" if "j < 512" for j
        using mem tab_get_set [OF ta maps_aligned [OF \<open>maps S v a \<noteq> {}\<close>] _ that, of ?i] by auto
    qed
    have "user_byte v' R' wa = user_byte v R' wa" if w: "R' \<in> S" "pml4_ix wa < 256" for R' wa
    proof (cases "user_page v R' wa")
      case None
      then show ?thesis using P [OF w] by (auto simp: user_byte_def with_rights_def)
    next
      case (Some u)
      obtain a x y where u: "u = (a, x, y)" by (cases u)
      then have "maps S v a \<noteq> {}" using user_page_here [OF w, of v a x y] Some by auto
      then have "page_byte v' a (wa AND 0xFFF) = page_byte v a (wa AND 0xFFF)"
        unfolding page_byte_nat using page_off(1) by (intro cont) auto
      then show ?thesis using P [OF w] Some u by (auto simp: user_byte_def with_rights_def)
    qed
    then show ?thesis using True here c P by simp
  qed
  then show "r \<longleftrightarrow> user_page v R va \<noteq> None" "card (maps S v' b) = card (maps S v b)"
    "R' \<in> S \<Longrightarrow> pml4_ix wa < 256 \<Longrightarrow> user_page v' R' wa =
      (if R' = R \<and> same_page wa va then with_rights S v wr (user_page v R' wa) else user_page v R' wa)"
    "R' \<in> S \<Longrightarrow> pml4_ix wa < 256 \<Longrightarrow> user_byte v' R' wa = user_byte v R' wa" by blast+
qed


lemma protect_pages_spec:
  assumes "vm_ok S v" "R \<in> S" "aligned lo" "user_range lo (n * 4096)" "cr3_reg v \<noteq> 0"
    and "\<forall>wa :: u64. unat lo \<le> unat wa \<and> unat wa < unat lo + n * 4096 \<longrightarrow> user_page v R wa \<noteq> None"
    and "protect_pages R wr lo n v = (r, v')"
  shows "r \<and> vm_step\<^sup>*\<^sup>* (S, v) (S, v') \<and> (\<forall>R' \<in> S. \<forall>wa :: u64. unat wa < 2 ^ 47 \<longrightarrow> user_byte v' R' wa = user_byte v R' wa \<and>
    user_page v' R' wa = (if R' = R \<and> unat lo \<le> unat wa \<and> unat wa < unat lo + n * 4096
      then with_rights S v wr (user_page v R' wa) else user_page v R' wa))"
  using assms(1,3-7)
proof (induction n arbitrary: lo v)
  case 0
  then show ?case by auto
next
  case (Suc n)
  have le: "unat lo + Suc 0 * 4096 \<le> 2 ^ 47" and lt: "unat lo < 2 ^ 47" and nn: "unat lo + Suc n * 4096 \<le> 2 ^ 47"
    using Suc.prems(3) by (simp_all add: user_range_def)
  have va: "pml4_ix lo < 256" by (rule pml4_ix_low [OF lt])
  obtain q v1 where run: "vmm_protect_user R lo wr v = (q, v1)" by fastforce
  note U = protect_user_view [OF Suc.prems(1) assms(2) va Suc.prems(4) run]
  have q: q using U(2) Suc.prems(5) [rule_format, of lo] by simp
  have wr: "with_rights S v1 wr pg = with_rights S v wr pg" for pg using U(4) by (simp add: with_rights_def)
  have V: "user_page v1 R' wa = (if R' = R \<and> unat lo \<le> unat wa \<and> unat wa < unat lo + 4096
      then with_rights S v wr (user_page v R' wa) else user_page v R' wa)" "user_byte v1 R' wa = user_byte v R' wa"
    if "R' \<in> S" "unat wa < 2 ^ 47" for R' and wa :: u64
    using U(5,6) [OF that(1) pml4_ix_low [OF that(2)]] in_page(1) [OF Suc.prems(2) le that(2)] by simp_all
  show ?case
  proof (cases "n = 0")
    case True
    then have "r" "v' = v1" using Suc.prems(6) run q by simp_all
    then show ?thesis using True V steps_one [OF U(1)] by simp
  next
    case False
    then have l1: "unat (lo + PAGE_4K) = unat lo + 4096" using nn page_nat [of lo 1] by simp
    have a1: "aligned (lo + PAGE_4K)" using Suc.prems(2) unfolding aligned_mod l1 by simp
    have r1: "user_range (lo + PAGE_4K) (n * 4096)" using nn by (simp add: user_range_def l1)
    have m1: "\<forall>wa :: u64. unat (lo + PAGE_4K) \<le> unat wa \<and> unat wa < unat (lo + PAGE_4K) + n * 4096 \<longrightarrow> user_page v1 R wa \<noteq> None"
    proof (intro allI impI)
      fix wa :: u64 assume w: "unat (lo + PAGE_4K) \<le> unat wa \<and> unat wa < unat (lo + PAGE_4K) + n * 4096"
      then have "user_page v1 R wa = user_page v R wa" using V(1) [OF assms(2), of wa] nn by (simp add: l1)
      then show "user_page v1 R wa \<noteq> None" using Suc.prems(5) w by (simp add: l1)
    qed
    have c1: "cr3_reg v1 \<noteq> 0" using U(3) Suc.prems(4) by simp
    have run1: "protect_pages R wr (lo + PAGE_4K) n v1 = (r, v')" using Suc.prems(6) run q by simp
    note IH = Suc.IH [OF vm_ok_step [OF U(1) Suc.prems(1)] a1 r1 c1 m1 run1, unfolded l1 wr]
    have "user_byte v' R' wa = user_byte v R' wa \<and> user_page v' R' wa =
        (if R' = R \<and> unat lo \<le> unat wa \<and> unat wa < unat lo + Suc n * 4096 then with_rights S v wr (user_page v R' wa) else user_page v R' wa)"
      if w: "R' \<in> S" "unat wa < 2 ^ 47" for R' and wa :: u64
    proof -
      have "user_byte v' R' wa = user_byte v1 R' wa" "user_page v' R' wa = (if R' = R \<and> unat lo + 4096 \<le> unat wa \<and> unat wa < unat lo + 4096 + n * 4096
          then with_rights S v wr (user_page v1 R' wa) else user_page v1 R' wa)" using IH w by blast+
      then show ?thesis using V [OF w] by (cases "unat lo + 4096 \<le> unat wa") auto
    qed
    then show ?thesis using IH steps_first [OF U(1)] by simp
  qed
qed

text \<open>
  C22. \<open>mprotect\<close>: it succeeds exactly when the range is well formed and mapped and the rights are
  read, write or both. Then every page of the range keeps its frame and its contents and may be
  written exactly when asked for: at once where the frame is its own, and after a private copy
  where it is shared. No other page changes; a refused call changes nothing.
\<close>

theorem user_mprotect_effect:
  assumes "vm_ok S (vm s)" "sched_current_cr3 s \<in> S" "user_range va 65536" "cr3_reg (vm s) \<noteq> 0" "user_mprotect va len prot s = (r, s')"
  shows "vm_ok S (vm s') \<and>
    (if prot \<in> {PROT_READ, PROT_WRITE, PROT_READ OR PROT_WRITE} \<and> (\<exists>n. page_count va len = Some n \<and>
        (\<forall>i < n. user_page (vm s) (sched_current_cr3 s) (va + of_nat i * PAGE_4K) \<noteq> None))
     then r = 0 \<and> s' = s\<lparr>vm := vm s'\<rparr> \<and> (\<forall>R' \<in> S. \<forall>wa :: u64. unat wa < 2 ^ 47 \<longrightarrow> user_byte (vm s') R' wa = user_byte (vm s) R' wa \<and>
       user_page (vm s') R' wa = (if R' = sched_current_cr3 s \<and> unat va \<le> unat wa \<and> unat wa < unat va + (unat len + 4095) div 4096 * 4096
         then with_rights S (vm s) (prot \<noteq> PROT_READ) (user_page (vm s) R' wa) else user_page (vm s) R' wa))
     else r = - 1 \<and> s' = s)"
proof -
  let ?R = "sched_current_cr3 s"
  have tr: "trees_ok S (vm s)" using assms(1) by (simp add: vm_ok_def spaces_ok_def)
  have nt: "\<not> no_task s" using trees_okD(4,5) [OF tr assms(2)] by (auto simp: no_task_def vmm_boot_cr3_def)
  show ?thesis
  proof (cases "page_count va len")
    case None
    then show ?thesis using assms nt by (auto simp: user_mprotect_def Let_def)
  next
    case (Some n)
    note C = page_count_Some [OF Some]
    have rg: "user_range va (n * 4096)" by (rule small_range [OF assms(3) C(4)])
    have mp: "vmm_translate_user ?R (va + of_nat i * PAGE_4K) (vm s) = None \<longleftrightarrow> user_page (vm s) ?R (va + of_nat i * PAGE_4K) = None"
      if "i < n" for i using translate_user_page [OF tr assms(2) range_start(3) [OF C(2) rg that]] by simp
    have good: "(\<forall>i < n. user_page (vm s) ?R (va + of_nat i * PAGE_4K) \<noteq> None) \<longleftrightarrow>
        \<not> some_page (\<lambda>page. vmm_translate_user ?R page (vm s) = None) va n"
      unfolding some_page_iff using mp by blast
    show ?thesis
    proof (cases "prot \<in> {PROT_READ, PROT_WRITE, PROT_READ OR PROT_WRITE} \<and> \<not> some_page (\<lambda>page. vmm_translate_user ?R page (vm s) = None) va n")
      case False
      then have "r = - 1" "s' = s" using assms(5) nt Some by (auto simp: user_mprotect_def Let_def split: if_splits)
      then show ?thesis using False good Some assms(1) by auto
    next
      case True
      obtain q v where q: "protect_pages ?R (prot \<noteq> PROT_READ) va n (vm s) = (q, v)" by fastforce
      then have res: "r = (if q then 0 else - 1)" "s' = s\<lparr>vm := v\<rparr>"
        using assms(5) nt Some True by (auto simp: user_mprotect_def Let_def)
      have "\<forall>i < n. vmm_translate_user ?R (va + of_nat i * PAGE_4K) (vm s) \<noteq> None" using True by (simp add: some_page_iff)
      note U = protect_pages_spec [OF assms(1,2) C(2) rg assms(4) this [unfolded pages_mapped_iff [OF tr assms(2) C(2) rg]] q]
      have cond: "prot \<in> {PROT_READ, PROT_WRITE, PROT_READ OR PROT_WRITE} \<and> (\<exists>n. page_count va len = Some n \<and>
        (\<forall>i < n. user_page (vm s) ?R (va + of_nat i * PAGE_4K) \<noteq> None))" using True good Some by blast
      show ?thesis unfolding if_P [OF cond] using U res vm_ok_steps [OF _ assms(1)] C(5) by simp
    qed
  qed
qed


lemma demo_cr3: "cr3_reg demo_page \<noteq> 0"
proof -
  have run: "vmm_clone_pml4 vmm_demo = (demo_root, demo_space)" by (simp add: demo_root_def demo_space_def)
  have hh: "hhdm_ready vmm_demo" by (simp add: vmm_demo_def)
  have "cr3_reg demo_space = cr3_reg vmm_demo" using clone_frames [OF pmm_inv_vmm_demo hh run, of 7] free_frames_vmm_demo by simp
  moreover obtain r v' where m: "vmm_map_user_flags demo_root 0x400000 0x100000 PTE_USER_FLAGS demo_space = (r, v')" by fastforce
  have "cr3_reg v' = cr3_reg demo_space"
    by (rule map_flags_trees(3) [OF spaces_okD(1) [OF demo_space_ok(1)] _ demo_va(1) _ user_flags_ok m]) (simp_all add: aligned_mod)
  ultimately show ?thesis using m by (simp add: demo_page_def vmm_map_user_def vmm_demo_def)
qed

theorem user_mprotect_effect_witness:
  "\<exists>s'. user_mprotect 0x400000 100 PROT_READ demo_run = (0, s') \<and> user_page (vm s') demo_root 0x400000 = Some (0x100000, False, False)"
proof -
  let ?va = "0x400000 :: u64"
  obtain r s' where run: "user_mprotect ?va 100 PROT_READ demo_run = (r, s')" by fastforce
  have rg: "user_range ?va 65536" by (simp add: user_range_def)
  have "page_count ?va 100 = Some 1" by (simp add: page_count_def page_up_def USER_MMAP_PAGES_def)
  moreover have "\<forall>i < 1. user_page demo_page demo_root (?va + of_nat i * PAGE_4K) \<noteq> None" using demo_page_ok(2) by simp
  ultimately have c: "PROT_READ \<in> {PROT_READ, PROT_WRITE, PROT_READ OR PROT_WRITE} \<and>
    (\<exists>n. page_count ?va 100 = Some n \<and> (\<forall>i < n. user_page demo_page demo_root (?va + of_nat i * PAGE_4K) \<noteq> None))" by blast
  have "vm_ok {demo_root} (vm demo_run)" "sched_current_cr3 demo_run \<in> {demo_root}" "cr3_reg (vm demo_run) \<noteq> 0"
    using demo_exclusive demo_cr3 by (simp_all add: demo_run_current)
  note T = user_mprotect_effect [OF this(1,2) rg this(3) run, unfolded demo_run_current if_P [OF c]]
  have "unat ?va < 2 ^ 47" by simp
  then have "user_page (vm s') demo_root ?va = with_rights {demo_root} demo_page False (user_page demo_page demo_root ?va)"
    using T by simp
  then show ?thesis using T run demo_page_ok(2) by (simp add: with_rights_def)
qed

section \<open>Mapping\<close>

definition file_byte :: "u8 list option \<Rightarrow> nat \<Rightarrow> u8" where
  "file_byte fil x = (case fil of None \<Rightarrow> 0 | Some bs \<Rightarrow> if x < length bs then bs ! x else 0)"

lemma file_page_byte:
  "length (file_page fil j) \<le> 4096"
  "x < 4096 \<Longrightarrow> file_byte fil (j * 4096 + x) = (if x < length (file_page fil j) then file_page fil j ! x else 0)"
  by (auto simp: file_page_def file_byte_def split: option.splits)

lemma aligned_not_m1: "aligned a \<Longrightarrow> a \<noteq> - 1"
  by (auto simp: aligned_def mask_eq_exp_minus_1)

lemma mmap_range_Some:
  assumes "mmap_range hint len s = Some n"
  shows "page_count hint len = Some n" "sched_current_base s \<noteq> 0"
    "i < n \<Longrightarrow> \<not> heap_page (sched_current_base s) (hint + of_nat i * PAGE_4K)"
    "i < n \<Longrightarrow> vmm_translate_user (sched_current_cr3 s) (hint + of_nat i * PAGE_4K) (vm s) = None"
  using assms by (auto simp: mmap_range_def some_page_iff split: if_splits option.splits)

lemma mmap_unmapped:
  assumes "vm_ok S (vm s)" "sched_current_cr3 s \<in> S" "user_range hint 65536" "mmap_range hint len s = Some n"
  shows "unmapped (vm s) (sched_current_cr3 s) hint n" "aligned hint" "user_range hint (n * 4096)"
proof -
  note M = mmap_range_Some [OF assms(4)]
  note C = page_count_Some [OF M(1)]
  show "aligned hint" by (rule C(2))
  show rg: "user_range hint (n * 4096)" by (rule small_range [OF assms(3) C(4)])
  have tr: "trees_ok S (vm s)" using assms(1) by (simp add: vm_ok_def spaces_ok_def)
  show "unmapped (vm s) (sched_current_cr3 s) hint n" by (rule pages_unmapped [OF tr assms(2) C(2) rg]) (use M(4) in blast)
qed

lemma mmap_fill_spec:
  assumes ok: "vm_ok S (vm s)" and R: "sched_current_cr3 s \<in> S" and rg: "user_range hint 65536"
    and n: "mmap_range hint len s = Some n" and run: "mmap_fill hint n fil s = (r, s')"
  shows "vm_ok S (vm s') \<and> s' = s\<lparr>vm := vm s'\<rparr> \<and>
    (if r = hint then grown S (sched_current_cr3 s) hint n (file_byte fil) (vm s) (vm s')
     else r = - 1 \<and> card (free_frames (pm (vm s))) < 4 * n \<and>
       (\<forall>R' \<in> S. \<forall>wa :: u64. unat wa < 2 ^ 47 \<longrightarrow> sees (vm s') R' wa = sees (vm s) R' wa))"
proof -
  let ?R = "sched_current_cr3 s"
  note U = mmap_unmapped [OF ok R rg n]
  obtain q v where q: "map_pages ?R (file_page fil) hint 0 n (vm s) = (q, v)" by fastforce
  then have res: "r = (if q then hint else - 1)" "s' = s\<lparr>vm := v\<rparr>" using run by (simp_all add: mmap_fill_def)
  have q0: "map_pages ?R (file_page fil) (hint + of_nat 0 * PAGE_4K) 0 n (vm s) = (q, v)" using q by simp
  have un: "unmapped (vm s) ?R hint (0 + n)" "user_range hint ((0 + n) * 4096)" using U by simp_all
  note M = map_pages_spec [OF R U(2) file_page_byte(1) file_page_byte(2) ok un(2,1) grown_refl q0]
  show ?thesis using M res vm_ok_steps [OF _ ok] aligned_not_m1 [OF U(2)] by (cases q) (auto simp: grown_0)
qed

text \<open>
  Mapping and unmapping again. When the page loop of \<open>mmap\<close> succeeds on a range that passed its
  checks and lies outside the program and its stack, \<open>munmap\<close> of the same range succeeds, and afterwards every task sees at every address
  what it saw before the mapping.
\<close>

lemma mmap_fill_munmap:
  assumes "vm_ok S (vm s)" "sched_current_cr3 s \<in> S" "user_range hint 65536" "mmap_range hint len s = Some n"
    and "\<forall>i < n. \<not> (sched_current_base s \<le> hint + of_nat i * PAGE_4K \<and> hint + of_nat i * PAGE_4K < sched_current_base s + 2 * PAGE_4K)"
    and "mmap_fill hint n fil s = (hint, s')" "R' \<in> S" "unat wa < 2 ^ 47"
  shows "\<exists>s''. user_munmap hint len s' = (0, s'') \<and> vm_ok S (vm s'') \<and> sees (vm s'') R' wa = sees (vm s) R' wa"
proof -
  let ?R = "sched_current_cr3 s" and ?b = "sched_current_base s"
  note U = mmap_unmapped [OF assms(1-4)] and M = mmap_range_Some [OF assms(4)]
  note F = mmap_fill_spec [OF assms(1-4,6)]
  obtain v where s': "s' = s\<lparr>vm := v\<rparr>" using F by blast
  have ok: "vm_ok S (vm s')" and g: "grown S ?R hint n (file_byte fil) (vm s) v" using F by (simp_all add: s')
  have cur: "sched_current_cr3 s' = ?R" "sched_current_base s' = ?b" "vm s' = v" by (simp_all add: s')
  have R': "sched_current_cr3 s' \<in> S" using assms(2) by (simp add: cur)
  obtain r s'' where run: "user_munmap hint len s' = (r, s'')" by fastforce
  have pages: "\<not> (?b \<le> p \<and> p < ?b + 2 * PAGE_4K) \<and> \<not> heap_page ?b p \<and> user_page v ?R p \<noteq> None"
    if i: "i < n" and p: "p = hint + of_nat i * PAGE_4K" for i p
  proof -
    note S = range_start [OF U(2,3) i]
    have "user_page v ?R p \<noteq> None"
      using g [unfolded grown_def, rule_format, OF assms(2), of p] S(1,2,4) unfolding p by (auto simp: sees_def)
    then show ?thesis using assms(5) M(3) [OF i] i p by blast
  qed
  have c: "sched_current_base s' \<noteq> 0 \<and> (\<exists>n. page_count hint len = Some n \<and>
      (\<forall>i < n. let page = hint + of_nat i * PAGE_4K; base = sched_current_base s' in
         \<not> (base \<le> page \<and> page < base + 2 * PAGE_4K) \<and> \<not> heap_page base page \<and> user_page (vm s') (sched_current_cr3 s') page \<noteq> None))"
    using pages M(1,2) unfolding cur Let_def by blast
  note T = munmap_effect [OF ok R' assms(3) run, unfolded if_P [OF c]]
  have n: "n = (unat len + 4095) div 4096" by (rule page_count_Some(5) [OF M(1)])
  have "sees (vm s'') R' wa = (if R' = ?R \<and> unat hint \<le> unat wa \<and> unat wa < unat hint + n * 4096 then (None, None) else sees v R' wa)"
    using T assms(7,8) unfolding n cur by blast
  moreover have "R' = ?R \<and> unat hint \<le> unat wa \<and> unat wa < unat hint + n * 4096 \<Longrightarrow> sees (vm s) R' wa = (None, None)"
    using U(1) unfolding unmapped_def by (simp add: sees_def user_byte_def)
  moreover have "\<not> (R' = ?R \<and> unat hint \<le> unat wa \<and> unat wa < unat hint + n * 4096) \<Longrightarrow> sees v R' wa = sees (vm s) R' wa"
    using g [unfolded grown_def, rule_format, OF assms(7,8)] by (simp only: if_False)
  ultimately show ?thesis using run T by auto
qed


lemma demo_mmap:
  "mmap_range 0x500000 0x234 demo_run = Some 1"
  "\<exists>s'. mmap_fill 0x500000 1 fil demo_run = (0x500000, s') \<and> grown {demo_root} demo_root 0x500000 1 (file_byte fil) demo_page (vm s')"
proof -
  have ok: "vm_ok {demo_root} (vm demo_run)" "sched_current_cr3 demo_run \<in> {demo_root}" "user_range 0x500000 65536"
    using demo_exclusive by (simp_all add: demo_run_current user_range_def)
  have tr: "trees_ok {demo_root} demo_page" using demo_page_ok(1) by (simp add: spaces_ok_def)
  have va: "pml4_ix 0x500000 < 256" by (simp add: pml4_ix_def)
  have "\<not> same_page 0x500000 0x400000" by (simp add: same_page_def va_place_def pd_ix_def pt_ix_def)
  then have "vmm_translate_user demo_root 0x500000 demo_page = None"
    using translate_user_page [OF tr _ va] demo_pages [OF va] by simp
  moreover have "page_count 0x500000 0x234 = Some 1" by (simp add: page_count_def page_up_def USER_MMAP_PAGES_def)
  moreover have "\<not> no_task demo_run" using trees_okD(4,5) [OF tr, of demo_root] by (auto simp: no_task_def demo_run_current vmm_boot_cr3_def)
  ultimately show n: "mmap_range 0x500000 0x234 demo_run = Some 1"
    by (simp add: mmap_range_def some_page_def demo_run_current demo_current heap_page_def USER_HEAP_PAGES_def)
  obtain r s' where run: "mmap_fill 0x500000 1 fil demo_run = (r, s')" by fastforce
  note F = mmap_fill_spec [OF ok n run, unfolded demo_run_current]
  have "r = 0x500000" using F demo_page_ok(3) by (auto split: if_splits)
  then show "\<exists>s'. mmap_fill 0x500000 1 fil demo_run = (0x500000, s') \<and> grown {demo_root} demo_root 0x500000 1 (file_byte fil) demo_page (vm s')"
    using F run by simp
qed

end
