(* ===== verification/User_Run.thy ===== *)
theory User_Run
  imports User_Mmap Fs_Ops Elf
begin

text \<open>
  Program start in \<open>kernel/user.c\<close>: loading an ELF file into an address space, its arguments on the
  stack, \<open>user_run\<close>, \<open>user_run_pipeline\<close>, exec and fork, and the switch to a task's working
  directory around calls of the file system.

  The record \<open>kern\<close> joins the scheduler, which holds the memory, and the file system with the
  static variables of the file. The file system model has a field for the page allocator; \<open>on_fs\<close>
  runs a file system call on the one allocator of the kernel. A result of 0 is \<open>True\<close>, -1 is
  \<open>False\<close> or \<open>None\<close>.
\<close>

section \<open>State\<close>

definition USER_BASE :: u64 where "USER_BASE = 0x400000"
definition USER_ARGV_MAX :: nat where "USER_ARGV_MAX = 4"

record 'd kern =
  sc :: sched
  fsys :: "'d fs"
  enter_ready :: bool
  user_row :: int
  run_row :: int
  file_buf :: "u8 list"
  cwd_saved_cl :: u32
  cwd_saved_path :: string
  cwd_switched :: bool

definition on_fs :: "('d fs \<Rightarrow> 'a \<times> 'd fs) \<Rightarrow> 'd kern \<Rightarrow> 'a \<times> 'd kern" where
  "on_fs f k =
     (case f ((fsys k)\<lparr>mem := pm (vm (sc k))\<rparr>) of
        (r, s) \<Rightarrow> (r, k\<lparr>fsys := s, sc := (sc k)\<lparr>vm := (vm (sc k))\<lparr>pm := mem s\<rparr>\<rparr>\<rparr>))"

definition on_sched :: "(sched \<Rightarrow> 'a \<times> sched) \<Rightarrow> 'd kern \<Rightarrow> 'a \<times> 'd kern" where
  "on_sched f k = (case f (sc k) of (r, s) \<Rightarrow> (r, k\<lparr>sc := s\<rparr>))"

definition on_vm :: "(vmm \<Rightarrow> 'a \<times> vmm) \<Rightarrow> 'd kern \<Rightarrow> 'a \<times> 'd kern" where
  "on_vm f k = (case f (vm (sc k)) of (r, v) \<Rightarrow> (r, k\<lparr>sc := (sc k)\<lparr>vm := v\<rparr>\<rparr>))"

section \<open>The working directory of a task\<close>

text \<open>The C string that \<open>copy_cwd_path\<close> leaves in an array of \<open>mx\<close> bytes.\<close>

definition copy_cwd_text :: "nat \<Rightarrow> string \<Rightarrow> string" where
  "copy_cwd_text mx src = (if src = [] then ''/'' else take (mx - 1) src)"

definition set_dir :: "u32 \<Rightarrow> string \<Rightarrow> 'd kern \<Rightarrow> 'd kern" where
  "set_dir cl path k = snd (on_fs (fs_setpwd (Some path)) (snd (on_fs (fs_setcwd cl) k)))"

definition enter_task_cwd :: "'d kern \<Rightarrow> bool \<times> 'd kern" where
  "enter_task_cwd k =
     (let cl = sched_current_cwd (sc k);
          k1 = k\<lparr>cwd_switched := False, cwd_saved_cl := fs_cwd (fsys k),
                 cwd_saved_path := copy_cwd_text CWD_PATH_MAX (fs_pwd (fsys k))\<rparr>
      in if cl = cwd_saved_cl k1 then (True, k1)
         else case on_fs (fs_setcwd cl) k1 of (ok, k2) \<Rightarrow>
           if \<not> ok then (False, set_dir (cwd_saved_cl k2) (cwd_saved_path k2) k2)
           else let pwd = sched_current_pwd (sc k2);
                    k3 = (if pwd \<noteq> [] then snd (on_fs (fs_setpwd (Some pwd)) k2) else k2)
                in (True, k3\<lparr>cwd_switched := True\<rparr>))"

definition leave_task_cwd :: "'d kern \<Rightarrow> 'd kern" where
  "leave_task_cwd k =
     (if \<not> cwd_switched k then k else set_dir (cwd_saved_cl k) (cwd_saved_path k) (k\<lparr>cwd_switched := False\<rparr>))"

definition user_chdir :: "string \<Rightarrow> 'd kern \<Rightarrow> bool \<times> 'd kern" where
  "user_chdir path k =
     (if path = [] then (False, k)
      else let saved_cl = fs_cwd (fsys k); saved_path = copy_cwd_text CWD_PATH_MAX (fs_pwd (fsys k)) in
        case on_fs (fs_setcwd (sched_current_cwd (sc k))) k of (ok, k1) \<Rightarrow>
          if \<not> ok then (False, set_dir saved_cl saved_path k1)
          else let pwd = sched_current_pwd (sc k1);
                   k2 = snd (on_fs (fs_setpwd (Some (if pwd \<noteq> [] then pwd else ''/''))) k1)
            in case on_fs (fs_chdir (Some path)) k2 of (ok2, k3) \<Rightarrow>
                 if \<not> ok2 then (False, set_dir saved_cl saved_path k3)
                 else let k4 = k3\<lparr>sc := sched_set_current_pwd (Some (fs_pwd (fsys k3)))
                                  (sched_set_current_cwd (fs_cwd (fsys k3)) (sc k3))\<rparr>
                      in (True, set_dir saved_cl saved_path k4))"

section \<open>Loading\<close>

text \<open>The contents and the length of a file that was looked up.\<close>

definition file_page_bytes :: "'d kern \<Rightarrow> u64 \<Rightarrow> u8 list" where
  "file_page_bytes k p = ram (fsys k) p"

definition lookup_root_elf :: "string \<Rightarrow> 'd kern \<Rightarrow> (u64 \<times> u32) option \<times> 'd kern" where
  "lookup_root_elf name k =
     (if name = [] then (None, k)
      else case on_fs (fs_lookup (Some name)) k of
          (Some r, k1) \<Rightarrow> (Some r, k1)
        | (None, k1) \<Rightarrow>
            if hd name = CHR ''/'' then (None, k1)
            else if FD_PATH_MAX - 2 < length name then (None, k1)
            else on_fs (fs_lookup (Some (CHR ''/'' # name))) k1)"

definition user_stack_top :: "u64 \<Rightarrow> u64" where
  "user_stack_top base = base + 2 * PAGE_4K"

definition page_bytes :: "vmm \<Rightarrow> u64 \<Rightarrow> u8 list" where
  "page_bytes v p = map (\<lambda>i. page_byte v p (of_nat i)) [0..<4096]"

text \<open>
  \<open>elf_load\<close> into a page. The loader reads no byte past the length of the file, so the result
  \<open>Fault\<close> of its model does not occur; it counts as a failure here.
\<close>

definition load_page :: "u8 list \<Rightarrow> u32 \<Rightarrow> u64 \<Rightarrow> u64 \<Rightarrow> vmm \<Rightarrow> u64 option \<times> vmm" where
  "load_page raw ln page base v =
     (case elf_load raw ln (page_bytes v page) 0x1000 base of
        (Accept entry, out) \<Rightarrow> (Some entry, poke_bytes page 0 out v)
      | (_, out) \<Rightarrow> (None, poke_bytes page 0 out v))"

definition map_two :: "u64 \<Rightarrow> u64 \<Rightarrow> u64 \<Rightarrow> u64 \<Rightarrow> vmm \<Rightarrow> bool \<times> vmm" where
  "map_two c base code stack v =
     (case vmm_map_user c base code v of (ok, v1) \<Rightarrow>
        if \<not> ok then (False, v1) else vmm_map_user c (base + PAGE_4K) stack v1)"

definition map_load_elf :: "u8 list \<Rightarrow> u32 \<Rightarrow> u64 \<Rightarrow> u64 \<Rightarrow> vmm \<Rightarrow> (u64 \<times> u64) option \<times> vmm" where
  "map_load_elf raw ln base c v =
     (if c = 0 then (None, v)
      else case alloc_user_page v of (code, v1) \<Rightarrow>
        case alloc_user_page v1 of (stack, v2) \<Rightarrow>
          if code = 0 \<or> stack = 0 then (None, v2)
          else case load_page raw ln code base v2 of
              (None, v3) \<Rightarrow> (None, v3)
            | (Some entry, v3) \<Rightarrow> (case map_two c base code stack v3 of (ok, v4) \<Rightarrow>
                if \<not> ok then (None, v4) else (Some (entry, user_stack_top base), v4)))"

datatype load_result = Loaded u64 u64 | Kept | Gone

definition free_if :: "u64 \<Rightarrow> vmm \<Rightarrow> vmm" where
  "free_if p v = (if p \<noteq> 0 then free_page p v else v)"

definition replace_load_elf :: "u8 list \<Rightarrow> u32 \<Rightarrow> u64 \<Rightarrow> u64 \<Rightarrow> vmm \<Rightarrow> load_result \<times> vmm" where
  "replace_load_elf raw ln base c v =
     (if c = 0 \<or> c = vmm_boot_cr3 then (Kept, v)
      else case alloc_user_page v of (code, v1) \<Rightarrow>
        case alloc_user_page v1 of (stack, v2) \<Rightarrow>
          if code = 0 \<or> stack = 0 then (Kept, free_if stack (free_if code v2))
          else case load_page raw ln code base v2 of
              (None, v3) \<Rightarrow> (Kept, free_page stack (free_page code v3))
            | (Some entry, v3) \<Rightarrow> (case map_two c base code stack (vmm_teardown_user c v3) of (ok, v4) \<Rightarrow>
                if \<not> ok then (Gone, v4) else (Loaded entry (user_stack_top base), v4)))"

section \<open>Arguments\<close>

definition cstr_bytes :: "string \<Rightarrow> u8 list" where
  "cstr_bytes s = map of_char s @ [0]"

definition le_bytes :: "u64 \<Rightarrow> u8 list" where
  "le_bytes w = map (\<lambda>i. ucast (drop_bit (8 * i) w)) [0..<8]"

fun push_strings :: "u64 \<Rightarrow> u64 \<Rightarrow> u64 \<Rightarrow> string list \<Rightarrow> vmm \<Rightarrow> (u64 \<times> u64 list) option \<times> vmm" where
  "push_strings c stack_page sp [] v = (Some (sp, []), v)"
| "push_strings c stack_page sp (a # as) v =
     (if FD_PATH_MAX \<le> length a \<or> a = [] then (None, v)
      else let n = of_nat (length a) + 1 in
        if sp < stack_page + n then (None, v)
        else case copy_to_user_pml4 c (sp - n) (cstr_bytes a) v of (ok, v1) \<Rightarrow>
          if \<not> ok then (None, v1)
          else case push_strings c stack_page (sp - n) as v1 of
              (None, v2) \<Rightarrow> (None, v2)
            | (Some (sp', vas), v2) \<Rightarrow> (Some (sp', (sp - n) # vas), v2))"

fun push_words :: "u64 \<Rightarrow> u64 \<Rightarrow> u64 list \<Rightarrow> vmm \<Rightarrow> bool \<times> vmm" where
  "push_words c sp [] v = (True, v)"
| "push_words c sp (w # ws) v =
     (case copy_to_user_pml4 c sp (le_bytes w) v of (ok, v1) \<Rightarrow>
        if \<not> ok then (False, v1) else push_words c (sp + 8) ws v1)"

definition user_push_argv :: "u64 \<Rightarrow> u64 \<Rightarrow> string list \<Rightarrow> vmm \<Rightarrow> u64 option \<times> vmm" where
  "user_push_argv c stack_top argv v =
     (if c = 0 \<or> stack_top = 0 then (None, v)
      else if argv = [] \<or> USER_ARGV_MAX < length argv then (None, v)
      else let stack_page = stack_top - PAGE_4K in
        case push_strings c stack_page stack_top argv v of
            (None, v1) \<Rightarrow> (None, v1)
          | (Some (sp0, vas), v1) \<Rightarrow>
              let sp = sp0 AND NOT 7; vec_bytes = (of_nat (length argv) + 2) * 8 in
              if sp < stack_page + vec_bytes then (None, v1)
              else (case push_words c (sp - vec_bytes) (of_nat (length argv) # vas @ [0]) v1 of (ok, v2) \<Rightarrow>
                      (if ok then Some (sp - vec_bytes) else None, v2)))"

section \<open>Starting programs\<close>

definition image_base_ok :: "u8 list \<Rightarrow> u32 \<Rightarrow> bool" where
  "image_base_ok raw ln \<longleftrightarrow> elf_image_base raw ln = Accept USER_BASE"

definition drop_space :: "u64 \<Rightarrow> vmm \<Rightarrow> vmm" where
  "drop_space c v = free_page c (vmm_teardown_user c v)"

text \<open>The memory part of \<open>user_run_fds\<close>: kernel stack, address space, image, arguments.\<close>

definition run_space :: "u8 list \<Rightarrow> u32 \<Rightarrow> string list \<Rightarrow> vmm \<Rightarrow> (u64 \<times> u64 \<times> u64 \<times> u64) option \<times> vmm" where
  "run_space raw ln argv v =
     (case alloc_user_page v of (kstack, v1) \<Rightarrow>
        if kstack = 0 then (None, v1)
        else case vmm_clone_pml4 v1 of (c, v2) \<Rightarrow>
          if c = 0 then (None, v2)
          else case map_load_elf raw ln USER_BASE c v2 of
              (None, v3) \<Rightarrow> (None, free_page c v3)
            | (Some (entry, tp), v3) \<Rightarrow> (case user_push_argv c tp argv v3 of
                (None, v4) \<Rightarrow> (None, drop_space c v4)
              | (Some sp, v4) \<Rightarrow> (Some (entry, sp, kstack, c), v4)))"

definition bind_end :: "int \<Rightarrow> fd_kind \<Rightarrow> int \<Rightarrow> sched \<Rightarrow> bool \<times> sched" where
  "bind_end fd kind p s = (if 0 \<le> p then sched_fd_bind_pipe fd kind p s else (True, s))"

definition user_run_fds :: "string \<Rightarrow> string option \<Rightarrow> int \<Rightarrow> int \<Rightarrow> 'd kern \<Rightarrow> bool \<times> 'd kern" where
  "user_run_fds name arg in_pipe out_pipe k =
     (if \<not> enter_ready k \<or> name = [] then (False, k)
      else case lookup_root_elf name k of
          (None, k1) \<Rightarrow> (False, k1)
        | (Some (p, ln), k1) \<Rightarrow>
            let raw = file_page_bytes k1 p;
                argv = name # (case arg of None \<Rightarrow> [] | Some a \<Rightarrow> if a = [] then [] else [a])
            in if \<not> image_base_ok raw ln then (False, k1)
               else case on_vm (run_space raw ln argv) k1 of
                   (None, k2) \<Rightarrow> (False, k2)
                 | (Some (entry, sp, kstack, c), k2) \<Rightarrow>
                     (case sched_add_user (fs_cwd (fsys k2)) (fs_pwd (fsys k2)) entry sp (phys_to_virt (hhdm_ready (vm (sc k2))) kstack + PAGE_4K)
                             (run_row k2) USER_BASE c (sc k2) of
                        (ok, s3) \<Rightarrow>
                          if \<not> ok then (False, k2\<lparr>sc := s3\<lparr>vm := drop_space c (vm s3)\<rparr>\<rparr>)
                          else (case bind_end 0 FD_KIND_PIPE_R in_pipe (sched_note_fg (sched_set_name (Some name) s3)) of
                             (ok4, s4) \<Rightarrow>
                               if \<not> ok4 then (False, k2\<lparr>sc := s4\<rparr>)
                               else (case bind_end 1 FD_KIND_PIPE_W out_pipe s4 of (ok5, s5) \<Rightarrow> (ok5, k2\<lparr>sc := s5\<rparr>)))))"

definition user_run :: "string \<Rightarrow> string option \<Rightarrow> 'd kern \<Rightarrow> bool \<times> 'd kern" where
  "user_run name arg k = user_run_fds name arg (- 1) (- 1) k"

definition user_run_pipeline :: "string \<Rightarrow> string option \<Rightarrow> string \<Rightarrow> string option \<Rightarrow> 'd kern \<Rightarrow> bool \<times> 'd kern" where
  "user_run_pipeline left_name left_arg right_name right_arg k =
     (case on_sched sched_pipe_new k of
        (None, k1) \<Rightarrow> (False, k1)
      | (Some p, k1) \<Rightarrow> (case user_run_fds left_name left_arg (- 1) p k1 of (ok, k2) \<Rightarrow>
          if \<not> ok then (False, k2\<lparr>sc := sched_pipe_unused p (sc k2)\<rparr>)
          else case user_run_fds right_name right_arg p (- 1) k2 of (ok3, k3) \<Rightarrow>
            if \<not> ok3 then (False, k3\<lparr>sc := sched_pipe_unused p (sc k3)\<rparr>) else (True, k3)))"

definition user_exec_current :: "interrupt_frame option \<Rightarrow> string \<Rightarrow> 'd kern \<Rightarrow> load_result \<times> interrupt_frame option \<times> 'd kern" where
  "user_exec_current fo name k =
     (let c = sched_current_cr3 (sc k) in
      if fo = None \<or> name = [] then (Kept, fo, k)
      else if no_task (sc k) then (Kept, fo, k)
      else case enter_task_cwd k of (ok, k1) \<Rightarrow>
        if \<not> ok then (Kept, fo, k1)
        else case lookup_root_elf name k1 of
            (None, k2) \<Rightarrow> (Kept, fo, leave_task_cwd k2)
          | (Some (p, ln), k2) \<Rightarrow>
              let raw = file_page_bytes k2 p in
              if \<not> image_base_ok raw ln then (Kept, fo, leave_task_cwd k2)
              else if ln = 0 \<or> FILE_MAX < ln then (Kept, fo, leave_task_cwd k2)
              else let k3 = leave_task_cwd (k2\<lparr>file_buf := blit 0 (take (unat ln) raw) (file_buf k2)\<rparr>) in
                case on_vm (replace_load_elf (file_buf k3) ln USER_BASE c) k3 of
                    (Kept, k4) \<Rightarrow> (Kept, fo, k4)
                  | (Gone, k4) \<Rightarrow> (Gone, fo, k4)
                  | (Loaded entry tp, k4) \<Rightarrow>
                      (case on_vm (user_push_argv c tp [name]) k4 of
                         (None, k5) \<Rightarrow> (Gone, fo, snd (on_vm (\<lambda>v. ((), vmm_teardown_user c v)) k5))
                       | (Some sp, k5) \<Rightarrow>
                           (case sched_reset_current fo entry sp USER_BASE (sc k5) of (fo', s6) \<Rightarrow>
                              (Loaded entry sp, fo', k5\<lparr>sc := sched_rename_current (Some name) s6\<rparr>))))"

text \<open>The page loop of \<open>user_mmap\<close>: the number of pages that it mapped.\<close>

fun mmap_loop :: "u64 \<Rightarrow> (nat \<Rightarrow> u8 list) \<Rightarrow> u64 \<Rightarrow> nat \<Rightarrow> nat \<Rightarrow> vmm \<Rightarrow> nat \<times> vmm" where
  "mmap_loop c src va cnt 0 v = (cnt, v)"
| "mmap_loop c src va cnt (Suc n) v =
     (case alloc_user_page v of (phys, v1) \<Rightarrow>
        if phys = 0 then (cnt, v1)
        else case vmm_map_user c va phys (poke_bytes phys 0 (src cnt) v1) of (ok, v2) \<Rightarrow>
          if \<not> ok then (cnt, free_page phys v2)
          else mmap_loop c src (va + PAGE_4K) (Suc cnt) n v2)"

text \<open>The file behind a descriptor, looked up from the directory of the task: \<open>None\<close> is the early
  return with -1, \<open>Some None\<close> a mapping without a file.\<close>

definition mmap_file :: "int \<Rightarrow> 'd kern \<Rightarrow> u8 list option option \<times> 'd kern" where
  "mmap_file fd k =
     (if 0 \<le> fd \<and> sched_fd_kind fd (sc k) = FD_KIND_FILE
      then case sched_fd_path fd (sc k) of
          None \<Rightarrow> (None, k)
        | Some path \<Rightarrow> (case enter_task_cwd k of (ok, k1) \<Rightarrow>
            if \<not> ok then (None, leave_task_cwd k1)
            else case on_fs (fs_lookup (Some (cstr path))) k1 of
                (None, k2) \<Rightarrow> (None, leave_task_cwd k2)
              | (Some (p, flen), k2) \<Rightarrow> (Some (Some (take (unat flen) (file_page_bytes k2 p))), k2))
      else (Some None, k))"

definition user_mmap :: "u64 \<Rightarrow> u64 \<Rightarrow> int \<Rightarrow> 'd kern \<Rightarrow> u64 \<times> 'd kern" where
  "user_mmap hint n fd k =
     (case mmap_range hint n (sc k) of
        None \<Rightarrow> (- 1, k)
      | Some npages \<Rightarrow> (case mmap_file fd k of
            (None, k1) \<Rightarrow> (- 1, k1)
          | (Some fil, k1) \<Rightarrow>
              let c = sched_current_cr3 (sc k) in
              case on_vm (mmap_loop c (file_page fil) hint 0 npages) k1 of (cnt, k2) \<Rightarrow>
                let k3 = (if fil \<noteq> None then leave_task_cwd k2 else k2) in
                if cnt \<noteq> npages
                then (- 1, snd (on_vm (\<lambda>v. ((), unmap_back c (hint + of_nat cnt * PAGE_4K) cnt v)) k3))
                else (hint, k3)))"

definition user_fork :: "interrupt_frame option \<Rightarrow> sched \<Rightarrow> u64 \<times> sched" where
  "user_fork fo s =
     (if fo = None \<or> no_task s then (- 1, s)
      else case alloc_user_page (vm s) of (kstack, v1) \<Rightarrow>
        if kstack = 0 then (- 1, s\<lparr>vm := v1\<rparr>)
        else case vmm_clone_pml4 v1 of (c, v2) \<Rightarrow>
          if c = 0 then (- 1, s\<lparr>vm := free_page kstack v2\<rparr>)
          else case vmm_copy_user c (sched_current_cr3 s) v2 of (ok, v3) \<Rightarrow>
            if \<not> ok then (- 1, s\<lparr>vm := free_page kstack (drop_space c v3)\<rparr>)
            else case sched_fork fo (phys_to_virt (hhdm_ready v3) kstack + PAGE_4K) c (s\<lparr>vm := v3\<rparr>) of
                (None, s4) \<Rightarrow> (- 1, s4\<lparr>vm := free_page kstack (drop_space c (vm s4))\<rparr>)
              | (Some i, s4) \<Rightarrow> (of_nat i, s4))"

end
