(* ===== verification/Fb.thy ===== *)
theory Fb
  imports Vmm Vga
begin

text \<open>
  The frame buffer: \<open>kernel/fb.c\<close>, and the pointer state of \<open>kernel/mouse.c\<close> that \<open>fb_present\<close> reads.
  Pictures are drawn into \<open>fb_mem\<close>, which is a shadow in memory or, without one, the display
  itself; \<open>fb_present\<close> copies the shadow to the display and draws the pointer by inverting pixels.
  The display and the shadow are functions from byte offsets to bytes. A loop over pixels is a
  \<open>fold\<close>; C \<open>int\<close> coordinates are \<open>int\<close>, and \<open>(uint32_t)x + cell > fb_w\<close> is written on \<open>int\<close>, which
  agrees as long as the coordinate is an \<open>int\<close> at all.
\<close>

section \<open>State\<close>

definition FB_BOOT_MAGIC :: u32 where "FB_BOOT_MAGIC = 0x31424656"
definition FB_SCALE :: nat where "FB_SCALE = 4"
definition FB_BG :: u32 where "FB_BG = 0x001A0A12"
definition FB_FG :: u32 where "FB_FG = 0x00F4E4C8"
definition FB_OVERLAY_PAD :: int where "FB_OVERLAY_PAD = 8"
definition FB_PROMPT_SCALE :: nat where "FB_PROMPT_SCALE = 2"

record fb_boot =
  b_magic :: u32
  b_width :: u32
  b_height :: u32
  b_pitch :: u32
  b_bpp :: u32
  b_phys :: u32

datatype fb_target = NoMem | Front | Shadow

record fb =
  fb_front :: bool
  fb_mem :: fb_target
  front :: "nat \<Rightarrow> u8"
  shadow :: "nat \<Rightarrow> u8"
  fb_w :: u32
  fb_h :: u32
  fb_pitch :: u32
  fb_bpp :: u32
  fb_phys :: u32
  overlay_col :: int

record mouse =
  mx :: int
  my :: int
  max_x :: int
  max_y :: int
  ptr_x :: int
  ptr_y :: int
  ptr_on :: bool
  left_down :: bool
  pkt :: "u8 list"
  pkt_i :: nat

text \<open>8x8, ASCII 32..126, the top bit is the leftmost pixel.\<close>

definition font8x8 :: "u8 list list" where
  "font8x8 =
    [[0x00, 0x00, 0x00, 0x00, 0x00, 0x00, 0x00, 0x00],
     [0x18, 0x18, 0x18, 0x18, 0x18, 0x00, 0x18, 0x00],
     [0x6C, 0x6C, 0x24, 0x00, 0x00, 0x00, 0x00, 0x00],
     [0x6C, 0x6C, 0xFE, 0x6C, 0xFE, 0x6C, 0x6C, 0x00],
     [0x18, 0x3E, 0x58, 0x3C, 0x1A, 0x7C, 0x18, 0x00],
     [0x62, 0x66, 0x0C, 0x18, 0x30, 0x66, 0x46, 0x00],
     [0x38, 0x6C, 0x38, 0x76, 0xDC, 0xCC, 0x76, 0x00],
     [0x18, 0x18, 0x10, 0x00, 0x00, 0x00, 0x00, 0x00],
     [0x0C, 0x18, 0x30, 0x30, 0x30, 0x18, 0x0C, 0x00],
     [0x30, 0x18, 0x0C, 0x0C, 0x0C, 0x18, 0x30, 0x00],
     [0x00, 0x66, 0x3C, 0xFF, 0x3C, 0x66, 0x00, 0x00],
     [0x00, 0x18, 0x18, 0x7E, 0x18, 0x18, 0x00, 0x00],
     [0x00, 0x00, 0x00, 0x00, 0x00, 0x18, 0x18, 0x30],
     [0x00, 0x00, 0x00, 0x7E, 0x00, 0x00, 0x00, 0x00],
     [0x00, 0x00, 0x00, 0x00, 0x00, 0x18, 0x18, 0x00],
     [0x02, 0x06, 0x0C, 0x18, 0x30, 0x60, 0x40, 0x00],
     [0x3C, 0x66, 0x6E, 0x76, 0x66, 0x66, 0x3C, 0x00],
     [0x18, 0x38, 0x18, 0x18, 0x18, 0x18, 0x7E, 0x00],
     [0x3C, 0x66, 0x06, 0x0C, 0x18, 0x30, 0x7E, 0x00],
     [0x3C, 0x66, 0x06, 0x1C, 0x06, 0x66, 0x3C, 0x00],
     [0x0C, 0x1C, 0x3C, 0x6C, 0x7E, 0x0C, 0x0C, 0x00],
     [0x7E, 0x60, 0x7C, 0x06, 0x06, 0x66, 0x3C, 0x00],
     [0x1C, 0x30, 0x60, 0x7C, 0x66, 0x66, 0x3C, 0x00],
     [0x7E, 0x06, 0x0C, 0x18, 0x30, 0x30, 0x30, 0x00],
     [0x3C, 0x66, 0x66, 0x3C, 0x66, 0x66, 0x3C, 0x00],
     [0x3C, 0x66, 0x66, 0x3E, 0x06, 0x0C, 0x38, 0x00],
     [0x00, 0x18, 0x18, 0x00, 0x00, 0x18, 0x18, 0x00],
     [0x00, 0x18, 0x18, 0x00, 0x00, 0x18, 0x18, 0x30],
     [0x0C, 0x18, 0x30, 0x60, 0x30, 0x18, 0x0C, 0x00],
     [0x00, 0x00, 0x7E, 0x00, 0x7E, 0x00, 0x00, 0x00],
     [0x30, 0x18, 0x0C, 0x06, 0x0C, 0x18, 0x30, 0x00],
     [0x3C, 0x66, 0x06, 0x0C, 0x18, 0x00, 0x18, 0x00],
     [0x3C, 0x66, 0x6E, 0x6A, 0x6E, 0x60, 0x3C, 0x00],
     [0x18, 0x3C, 0x66, 0x66, 0x7E, 0x66, 0x66, 0x00],
     [0x7C, 0x66, 0x66, 0x7C, 0x66, 0x66, 0x7C, 0x00],
     [0x3C, 0x66, 0x60, 0x60, 0x60, 0x66, 0x3C, 0x00],
     [0x78, 0x6C, 0x66, 0x66, 0x66, 0x6C, 0x78, 0x00],
     [0x7E, 0x60, 0x60, 0x7C, 0x60, 0x60, 0x7E, 0x00],
     [0x7E, 0x60, 0x60, 0x7C, 0x60, 0x60, 0x60, 0x00],
     [0x3C, 0x66, 0x60, 0x6E, 0x66, 0x66, 0x3C, 0x00],
     [0x66, 0x66, 0x66, 0x7E, 0x66, 0x66, 0x66, 0x00],
     [0x7E, 0x18, 0x18, 0x18, 0x18, 0x18, 0x7E, 0x00],
     [0x1E, 0x0C, 0x0C, 0x0C, 0x0C, 0x6C, 0x38, 0x00],
     [0x66, 0x6C, 0x78, 0x70, 0x78, 0x6C, 0x66, 0x00],
     [0x60, 0x60, 0x60, 0x60, 0x60, 0x60, 0x7E, 0x00],
     [0xC6, 0xEE, 0xFE, 0xD6, 0xC6, 0xC6, 0xC6, 0x00],
     [0x66, 0x76, 0x7E, 0x7E, 0x6E, 0x66, 0x66, 0x00],
     [0x3C, 0x66, 0x66, 0x66, 0x66, 0x66, 0x3C, 0x00],
     [0x7C, 0x66, 0x66, 0x7C, 0x60, 0x60, 0x60, 0x00],
     [0x3C, 0x66, 0x66, 0x66, 0x76, 0x6C, 0x36, 0x00],
     [0x7C, 0x66, 0x66, 0x7C, 0x78, 0x6C, 0x66, 0x00],
     [0x3C, 0x66, 0x60, 0x3C, 0x06, 0x66, 0x3C, 0x00],
     [0x7E, 0x18, 0x18, 0x18, 0x18, 0x18, 0x18, 0x00],
     [0x66, 0x66, 0x66, 0x66, 0x66, 0x66, 0x3C, 0x00],
     [0x66, 0x66, 0x66, 0x66, 0x66, 0x3C, 0x18, 0x00],
     [0xC6, 0xC6, 0xC6, 0xD6, 0xFE, 0xEE, 0xC6, 0x00],
     [0x66, 0x66, 0x3C, 0x18, 0x3C, 0x66, 0x66, 0x00],
     [0x66, 0x66, 0x66, 0x3C, 0x18, 0x18, 0x18, 0x00],
     [0x7E, 0x06, 0x0C, 0x18, 0x30, 0x60, 0x7E, 0x00],
     [0x3C, 0x30, 0x30, 0x30, 0x30, 0x30, 0x3C, 0x00],
     [0x40, 0x60, 0x30, 0x18, 0x0C, 0x06, 0x02, 0x00],
     [0x3C, 0x0C, 0x0C, 0x0C, 0x0C, 0x0C, 0x3C, 0x00],
     [0x18, 0x3C, 0x66, 0x00, 0x00, 0x00, 0x00, 0x00],
     [0x00, 0x00, 0x00, 0x00, 0x00, 0x00, 0x00, 0xFF],
     [0x18, 0x18, 0x08, 0x00, 0x00, 0x00, 0x00, 0x00],
     [0x00, 0x00, 0x3C, 0x06, 0x3E, 0x66, 0x3E, 0x00],
     [0x60, 0x60, 0x7C, 0x66, 0x66, 0x66, 0x7C, 0x00],
     [0x00, 0x00, 0x3C, 0x66, 0x60, 0x66, 0x3C, 0x00],
     [0x06, 0x06, 0x3E, 0x66, 0x66, 0x66, 0x3E, 0x00],
     [0x00, 0x00, 0x3C, 0x66, 0x7E, 0x60, 0x3C, 0x00],
     [0x1C, 0x30, 0x7C, 0x30, 0x30, 0x30, 0x30, 0x00],
     [0x00, 0x00, 0x3E, 0x66, 0x66, 0x3E, 0x06, 0x3C],
     [0x60, 0x60, 0x7C, 0x66, 0x66, 0x66, 0x66, 0x00],
     [0x18, 0x00, 0x38, 0x18, 0x18, 0x18, 0x3C, 0x00],
     [0x0C, 0x00, 0x1C, 0x0C, 0x0C, 0x0C, 0x6C, 0x38],
     [0x60, 0x60, 0x66, 0x6C, 0x78, 0x6C, 0x66, 0x00],
     [0x38, 0x18, 0x18, 0x18, 0x18, 0x18, 0x3C, 0x00],
     [0x00, 0x00, 0xEC, 0xFE, 0xD6, 0xC6, 0xC6, 0x00],
     [0x00, 0x00, 0x7C, 0x66, 0x66, 0x66, 0x66, 0x00],
     [0x00, 0x00, 0x3C, 0x66, 0x66, 0x66, 0x3C, 0x00],
     [0x00, 0x00, 0x7C, 0x66, 0x66, 0x7C, 0x60, 0x60],
     [0x00, 0x00, 0x3E, 0x66, 0x66, 0x3E, 0x06, 0x06],
     [0x00, 0x00, 0x6C, 0x76, 0x60, 0x60, 0x60, 0x00],
     [0x00, 0x00, 0x3E, 0x60, 0x3C, 0x06, 0x7C, 0x00],
     [0x30, 0x30, 0x7C, 0x30, 0x30, 0x30, 0x1C, 0x00],
     [0x00, 0x00, 0x66, 0x66, 0x66, 0x66, 0x3E, 0x00],
     [0x00, 0x00, 0x66, 0x66, 0x66, 0x3C, 0x18, 0x00],
     [0x00, 0x00, 0xC6, 0xD6, 0xFE, 0x7C, 0x6C, 0x00],
     [0x00, 0x00, 0x66, 0x3C, 0x18, 0x3C, 0x66, 0x00],
     [0x00, 0x00, 0x66, 0x66, 0x66, 0x3E, 0x06, 0x3C],
     [0x00, 0x00, 0x7E, 0x0C, 0x18, 0x30, 0x7E, 0x00],
     [0x0E, 0x18, 0x18, 0x70, 0x18, 0x18, 0x0E, 0x00],
     [0x18, 0x18, 0x18, 0x18, 0x18, 0x18, 0x18, 0x00],
     [0x70, 0x18, 0x18, 0x0E, 0x18, 0x18, 0x70, 0x00],
     [0x32, 0x4C, 0x00, 0x00, 0x00, 0x00, 0x00, 0x00]]"

section \<open>Pixels\<close>

definition buf_put :: "fb_target \<Rightarrow> nat \<Rightarrow> u8 \<Rightarrow> fb \<Rightarrow> fb" where
  "buf_put t off b f =
     (case t of NoMem \<Rightarrow> f
      | Front \<Rightarrow> f\<lparr>front := (front f)(off := b)\<rparr>
      | Shadow \<Rightarrow> f\<lparr>shadow := (shadow f)(off := b)\<rparr>)"

definition buf_get :: "fb_target \<Rightarrow> nat \<Rightarrow> fb \<Rightarrow> u8" where
  "buf_get t off f = (case t of NoMem \<Rightarrow> 0 | Front \<Rightarrow> front f off | Shadow \<Rightarrow> shadow f off)"

definition color_byte :: "u32 \<Rightarrow> nat \<Rightarrow> u8" where
  "color_byte color k = ucast (drop_bit (8 * k) color)"

text \<open>The first \<open>n\<close> bytes of a colour, low byte first.\<close>

definition put_px :: "fb_target \<Rightarrow> nat \<Rightarrow> nat \<Rightarrow> u32 \<Rightarrow> fb \<Rightarrow> fb" where
  "put_px t n off color f = fold (\<lambda>k. buf_put t (off + k) (color_byte color k)) [0..<n] f"

definition px_bytes :: "fb \<Rightarrow> nat" where
  "px_bytes f = (if fb_bpp f = 32 then 4 else 3)"

definition off_screen_px :: "int \<Rightarrow> int \<Rightarrow> fb \<Rightarrow> bool" where
  "off_screen_px x y f \<longleftrightarrow> x < 0 \<or> y < 0 \<or> fb_w f \<le> of_int x \<or> fb_h f \<le> of_int y"

definition px_off :: "int \<Rightarrow> int \<Rightarrow> fb \<Rightarrow> nat" where
  "px_off x y f = unat (of_int y * fb_pitch f) + unat (of_int x * (fb_bpp f div 8))"

definition fb_pixel :: "int \<Rightarrow> int \<Rightarrow> u32 \<Rightarrow> fb \<Rightarrow> fb" where
  "fb_pixel x y color f = (if off_screen_px x y f then f else put_px (fb_mem f) (px_bytes f) (px_off x y f) color f)"

definition fast_rows :: "fb \<Rightarrow> bool" where
  "fast_rows f \<longleftrightarrow> fb_bpp f = 32 \<and> fb_pitch f AND 3 = 0"

text \<open>The two loops of \<open>fb_fill\<close> and \<open>fb_fill_rect\<close>: word stores along the rows, or pixel by pixel.\<close>

definition fill_words :: "nat \<Rightarrow> nat \<Rightarrow> nat \<Rightarrow> nat \<Rightarrow> u32 \<Rightarrow> fb \<Rightarrow> fb" where
  "fill_words x y x1 y1 color f =
     fold (\<lambda>yy. fold (\<lambda>xx g. put_px (fb_mem g) 4 (yy * unat (fb_pitch g) + 4 * xx) color g) [x..<x1]) [y..<y1] f"

definition fill_pixels :: "nat \<Rightarrow> nat \<Rightarrow> nat \<Rightarrow> nat \<Rightarrow> u32 \<Rightarrow> fb \<Rightarrow> fb" where
  "fill_pixels x y x1 y1 color f =
     fold (\<lambda>yy. fold (\<lambda>xx. fb_pixel (sint (of_nat xx :: u32)) (sint (of_nat yy :: u32)) color) [x..<x1]) [y..<y1] f"

definition fill_area :: "nat \<Rightarrow> nat \<Rightarrow> nat \<Rightarrow> nat \<Rightarrow> u32 \<Rightarrow> fb \<Rightarrow> fb" where
  "fill_area x y x1 y1 color f = (if fast_rows f then fill_words x y x1 y1 color f else fill_pixels x y x1 y1 color f)"

definition fb_fill :: "u32 \<Rightarrow> fb \<Rightarrow> fb" where
  "fb_fill color f = fill_area 0 0 (unat (fb_w f)) (unat (fb_h f)) color f"

definition fb_fill_rect :: "u32 \<Rightarrow> u32 \<Rightarrow> u32 \<Rightarrow> u32 \<Rightarrow> u32 \<Rightarrow> fb \<Rightarrow> bool \<times> fb" where
  "fb_fill_rect x y w h color f =
     (if \<not> fb_front f \<or> fb_mem f = NoMem \<or> w = 0 \<or> h = 0 then (False, f)
      else if fb_w f \<le> x \<or> fb_h f \<le> y then (False, f)
      else let x1 = (if x + w < x \<or> fb_w f < x + w then fb_w f else x + w);
               y1 = (if y + h < y \<or> fb_h f < y + h then fb_h f else y + h)
        in (True, fill_area (unat x) (unat y) (unat x1) (unat y1) color f))"

section \<open>The pointer\<close>

definition fb_front_get :: "int \<Rightarrow> int \<Rightarrow> fb \<Rightarrow> u32" where
  "fb_front_get x y f =
     (if \<not> fb_front f \<or> off_screen_px x y f then 0
      else let p = px_off x y f;
               color = ucast (front f p) OR push_bit 8 (ucast (front f (p + 1))) OR push_bit 16 (ucast (front f (p + 2)))
        in if fb_bpp f = 32 then color OR push_bit 24 (ucast (front f (p + 3))) else color)"

definition fb_front_pixel :: "int \<Rightarrow> int \<Rightarrow> u32 \<Rightarrow> fb \<Rightarrow> fb" where
  "fb_front_pixel x y color f =
     (if \<not> fb_front f \<or> off_screen_px x y f then f else put_px Front (px_bytes f) (px_off x y f) color f)"

definition fb_xor_pixel :: "int \<Rightarrow> int \<Rightarrow> fb \<Rightarrow> fb" where
  "fb_xor_pixel x y f = fb_front_pixel x y (fb_front_get x y f XOR 0x00FFFFFF) f"

definition fb_pointer :: "int \<Rightarrow> int \<Rightarrow> fb \<Rightarrow> fb" where
  "fb_pointer x y f =
     (if \<not> fb_front f then f
      else fold (\<lambda>d g. fb_xor_pixel x (y - d) (fb_xor_pixel x (y + d) (fb_xor_pixel (x - d) y (fb_xor_pixel (x + d) y g))))
             [1, 2] (fb_xor_pixel x y f))"

definition mouse_repaint :: "mouse \<Rightarrow> fb \<Rightarrow> fb" where
  "mouse_repaint m f = (if ptr_on m then fb_pointer (ptr_x m) (ptr_y m) f else f)"

section \<open>Presenting\<close>

definition copy_px :: "nat \<Rightarrow> nat \<Rightarrow> fb \<Rightarrow> fb" where
  "copy_px n off f = fold (\<lambda>k g. buf_put Front (off + k) (buf_get Shadow (off + k) g) g) [0..<n] f"

definition copy_rows :: "fb \<Rightarrow> fb" where
  "copy_rows f =
     fold (\<lambda>y. fold (\<lambda>x g.
         if fast_rows f then copy_px 4 (y * unat (fb_pitch f) + 4 * x) g
         else copy_px (px_bytes f) (y * unat (fb_pitch f) + x * unat (fb_bpp f div 8)) g)
       [0..<unat (fb_w f)]) [0..<unat (fb_h f)] f"

definition fb_present :: "mouse \<Rightarrow> fb \<Rightarrow> bool \<times> fb" where
  "fb_present m f =
     (if \<not> fb_front f \<or> fb_w f = 0 \<or> fb_h f = 0 then (False, f)
      else if fb_mem f = NoMem \<or> fb_mem f = Front then (True, mouse_repaint m f)
      else (True, mouse_repaint m (copy_rows f)))"

section \<open>Text\<close>

definition glyph_row :: "char \<Rightarrow> char \<Rightarrow> nat \<Rightarrow> u8" where
  "glyph_row other c gy =
     (let n = (if of_char c < (32 :: nat) \<or> 126 < (of_char c :: nat) then of_char other else of_char c)
      in font8x8 ! (n - 32) ! gy)"

definition glyph_bit :: "u8 \<Rightarrow> nat \<Rightarrow> bool" where
  "glyph_bit row gx \<longleftrightarrow> row AND drop_bit gx 0x80 \<noteq> 0"

text \<open>The square of a pixel of a glyph.\<close>

definition scaled_pixel :: "nat \<Rightarrow> int \<Rightarrow> int \<Rightarrow> nat \<Rightarrow> nat \<Rightarrow> u32 \<Rightarrow> fb \<Rightarrow> fb" where
  "scaled_pixel sc x y gx gy color f =
     fold (\<lambda>sy. fold (\<lambda>sx. fb_pixel (x + int (gx * sc + sx)) (y + int (gy * sc + sy)) color) [0..<sc]) [0..<sc] f"

definition fb_glyph :: "int \<Rightarrow> int \<Rightarrow> char \<Rightarrow> u32 \<Rightarrow> fb \<Rightarrow> fb" where
  "fb_glyph x y c color f =
     fold (\<lambda>gy. fold (\<lambda>gx g.
         if glyph_bit (glyph_row CHR ''?'' c gy) gx then scaled_pixel FB_SCALE x y gx gy color g else g) [0..<8]) [0..<8] f"

definition cell_glyph :: "nat \<Rightarrow> int \<Rightarrow> int \<Rightarrow> char \<Rightarrow> fb \<Rightarrow> fb" where
  "cell_glyph sc x y c f =
     fold (\<lambda>gy. fold (\<lambda>gx.
         scaled_pixel sc x y gx gy (if glyph_bit (glyph_row CHR '' '' c gy) gx then FB_FG else FB_BG)) [0..<8]) [0..<8] f"

definition fb_overlay_cell :: "int \<Rightarrow> int \<Rightarrow> char \<Rightarrow> fb \<Rightarrow> fb" where
  "fb_overlay_cell x y c f = cell_glyph FB_PROMPT_SCALE x y c f"

definition fb_glyph_1x :: "int \<Rightarrow> int \<Rightarrow> char \<Rightarrow> fb \<Rightarrow> fb" where
  "fb_glyph_1x x y c f = cell_glyph 1 x y c f"

definition fb_banner :: "string \<Rightarrow> fb \<Rightarrow> fb" where
  "fb_banner msg f =
     (let n = length msg; width = n * 8 * FB_SCALE;
          x = (if of_nat width + 16 * of_nat FB_SCALE < fb_w f then uint ((fb_w f - of_nat width) div 2) else int (8 * FB_SCALE));
          y = uint (fb_h f div 4)
      in fold (\<lambda>i. fb_glyph (x + int (i * 8 * FB_SCALE)) y (msg ! i) FB_FG) [0..<n] f)"

definition fb_prompt_cell :: int where
  "fb_prompt_cell = 8 * int FB_PROMPT_SCALE"

definition fb_overlay_y :: "fb \<Rightarrow> int" where
  "fb_overlay_y f =
     (if fb_mem f = NoMem \<or> fb_h f < of_int (fb_prompt_cell + FB_OVERLAY_PAD) then - 1
      else sint (fb_h f) - fb_prompt_cell - FB_OVERLAY_PAD)"

definition fb_hits_overlay :: "u32 \<Rightarrow> u32 \<Rightarrow> fb \<Rightarrow> bool" where
  "fb_hits_overlay y h f =
     (let oy = fb_overlay_y f in
      if oy < 0 \<or> h = 0 then False
      else let y1 = (if y + h < y \<or> fb_h f < y + h then fb_h f else y + h)
        in \<not> (of_int oy + of_int fb_prompt_cell \<le> y) \<and> \<not> (y1 \<le> of_int oy))"

text \<open>What drawing leaves alone.\<close>

definition same_mode :: "fb \<Rightarrow> fb \<Rightarrow> bool" where
  "same_mode f g \<longleftrightarrow> fb_front g = fb_front f \<and> fb_mem g = fb_mem f \<and> fb_w g = fb_w f \<and> fb_h g = fb_h f \<and> fb_pitch g = fb_pitch f \<and>
     fb_bpp g = fb_bpp f \<and> fb_phys g = fb_phys f \<and> overlay_col g = overlay_col f"

lemma same_mode_refl [simp]: "same_mode f f" by (simp add: same_mode_def)

lemma same_mode_trans: "same_mode f g \<Longrightarrow> same_mode g h \<Longrightarrow> same_mode f h" by (simp add: same_mode_def)

lemma same_mode_fold: "(\<And>x g. same_mode g (step x g)) \<Longrightarrow> same_mode f (fold step xs f)"
  by (induction xs arbitrary: f) (auto intro: same_mode_trans)

lemma same_mode_put [simp]: "same_mode f (buf_put t off b f)"
  by (cases t) (simp_all add: buf_put_def same_mode_def)

lemma same_mode_px [simp]: "same_mode f (put_px t n off color f)"
  unfolding put_px_def by (rule same_mode_fold) simp

lemma same_mode_pixel [simp]: "same_mode f (fb_pixel x y color f)"
  by (simp add: fb_pixel_def)

lemma same_mode_glyph [simp]: "same_mode f (scaled_pixel sc x y gx gy color f)" "same_mode f (cell_glyph sc x y c f)"
  "same_mode f (fb_overlay_cell x y c f)" "same_mode f (fb_glyph_1x x y c f)"
proof -
  show a: "same_mode f (scaled_pixel sc x y gx gy color f)" for gx gy color f
    unfolding scaled_pixel_def by (intro same_mode_fold) simp
  show b: "same_mode f (cell_glyph sc x y c f)" for sc f
    unfolding cell_glyph_def scaled_pixel_def by (intro same_mode_fold) simp
  show "same_mode f (fb_overlay_cell x y c f)" "same_mode f (fb_glyph_1x x y c f)"
    by (simp_all add: fb_overlay_cell_def fb_glyph_1x_def b)
qed

lemma overlay_cell_w [simp]: "fb_w (fb_overlay_cell x y c f) = fb_w f"
  using same_mode_glyph(3) [of f x y c] by (simp add: same_mode_def)

function clear_cells :: "int \<Rightarrow> int \<Rightarrow> fb \<Rightarrow> fb" where
  "clear_cells col y f =
     (let x = col * fb_prompt_cell in
      if uint (fb_w f) < x + fb_prompt_cell then f else clear_cells (col + 1) y (fb_overlay_cell x y CHR '' '' f))"
  by pat_completeness auto

termination
  by (relation "measure (\<lambda>(col, y, f). nat (uint (fb_w f) - col * fb_prompt_cell))")
     (simp_all add: fb_prompt_cell_def FB_PROMPT_SCALE_def)

declare clear_cells.simps [simp del]

definition fb_overlay_clear_from :: "int \<Rightarrow> fb \<Rightarrow> fb" where
  "fb_overlay_clear_from col f =
     (let y = fb_overlay_y f in if y < 0 \<or> col < 0 then f else clear_cells col y f)"

definition fb_overlay_putc :: "char \<Rightarrow> fb \<Rightarrow> fb" where
  "fb_overlay_putc c f =
     (let y = fb_overlay_y f in
      if y < 0 then f
      else if c = CHR 0x0A then fb_overlay_clear_from 0 (f\<lparr>overlay_col := 0\<rparr>)
      else if c = CHR 0x08 then
        (if 0 < overlay_col f
         then let g = f\<lparr>overlay_col := overlay_col f - 1\<rparr>; x = overlay_col g * fb_prompt_cell
              in if x + fb_prompt_cell \<le> uint (fb_w g) then fb_overlay_cell x y CHR '' '' g else g
         else f)
      else if c = CHR 0x09 then f\<lparr>overlay_col := (overlay_col f + 4) div 4 * 4\<rparr>
      else let x = overlay_col f * fb_prompt_cell in
        if uint (fb_w f) < x + fb_prompt_cell then f
        else let g = fb_overlay_cell x y c f in g\<lparr>overlay_col := overlay_col g + 1\<rparr>)"

text \<open>Characters along the prompt row, from a column on, as long as they fit: whether all did, and the column after.\<close>

fun draw_cells :: "int \<Rightarrow> int \<Rightarrow> string \<Rightarrow> fb \<Rightarrow> (bool \<times> int) \<times> fb" where
  "draw_cells y col [] f = ((True, col), f)"
| "draw_cells y col (c # cs) f =
     (let x = col * fb_prompt_cell in
      if uint (fb_w f) < x + fb_prompt_cell then ((False, col), f)
      else draw_cells y (col + 1) cs (fb_overlay_cell x y c f))"

definition fb_prompt_line :: "string option \<Rightarrow> string option \<Rightarrow> fb \<Rightarrow> fb" where
  "fb_prompt_line prompt buf f =
     (let y = fb_overlay_y f in
      if y < 0 then f
      else case draw_cells y 0 (case prompt of None \<Rightarrow> [] | Some p \<Rightarrow> p) (fb_overlay_clear_from 0 f) of
        ((done, col), g) \<Rightarrow>
          if \<not> done then g\<lparr>overlay_col := col\<rparr>
          else case buf of
              None \<Rightarrow> g\<lparr>overlay_col := col\<rparr>
            | Some b \<Rightarrow> (case draw_cells y col b g of ((_, col'), g') \<Rightarrow> g'\<lparr>overlay_col := col'\<rparr>))"

definition fb_vga_blit :: "vga \<Rightarrow> fb \<Rightarrow> fb" where
  "fb_vga_blit v f =
     (if fb_mem f = NoMem \<or> fb_w f = 0 \<or> fb_h f = 0 then f
      else let oy = fb_overlay_y f;
               rows = takeWhile (\<lambda>row. \<not> (uint (fb_h f) < row * 8 + 8) \<and> \<not> (0 \<le> oy \<and> oy < row * 8 + 8 \<and> row * 8 < oy + fb_prompt_cell)) [0..VGA_HEIGHT - 1];
               cols = takeWhile (\<lambda>col. \<not> (uint (fb_w f) < col * 8 + 8)) [0..VGA_WIDTH - 1]
        in fold (\<lambda>row. fold (\<lambda>col. fb_glyph_1x (col * 8) (row * 8) (vga_char_at v row col)) cols) rows f)"

fun draw_text_loop :: "int \<Rightarrow> int \<Rightarrow> string \<Rightarrow> fb \<Rightarrow> fb" where
  "draw_text_loop px y [] f = f"
| "draw_text_loop px y (c # cs) f =
     (if px < 0 \<or> uint (fb_w f) < px + fb_prompt_cell then f
      else if uint (fb_h f) < y + fb_prompt_cell then f
      else draw_text_loop (px + fb_prompt_cell) y cs (fb_overlay_cell px y c f))"

definition fb_draw_text :: "int \<Rightarrow> int \<Rightarrow> string \<Rightarrow> mouse \<Rightarrow> fb \<Rightarrow> fb" where
  "fb_draw_text x y s m f =
     (if \<not> fb_front f \<or> fb_mem f = NoMem \<or> y < 0 then f else snd (fb_present m (draw_text_loop x y s f)))"

section \<open>Set-up\<close>

definition fb_query :: "fb \<Rightarrow> (u32 \<times> u32 \<times> u32 \<times> u32) option" where
  "fb_query f =
     (if \<not> fb_front f \<or> fb_w f = 0 \<or> fb_h f = 0 \<or> fb_phys f = 0 then None
      else Some (fb_w f, fb_h f, fb_pitch f, fb_phys f))"

definition fb_alloc_shadow :: "u64 \<Rightarrow> vmm \<Rightarrow> fb \<Rightarrow> bool \<times> vmm \<times> fb" where
  "fb_alloc_shadow bytes v f =
     (if bytes = 0 then (False, v, f)
      else case pmm_alloc_span ((bytes + PAGE_4K - 1) div PAGE_4K) (pm v) of
        (phys, p) \<Rightarrow> if phys = 0 then (False, v\<lparr>pm := p\<rparr>, f) else (True, v\<lparr>pm := p\<rparr>, f\<lparr>fb_mem := Shadow\<rparr>))"

definition boot_mode_ok :: "fb_boot \<Rightarrow> bool" where
  "boot_mode_ok info \<longleftrightarrow> b_magic info = FB_BOOT_MAGIC \<and> \<not> (b_width info < 320 \<or> b_height info < 200 \<or> b_phys info = 0) \<and>
     (b_bpp info = 32 \<or> b_bpp info = 24) \<and> \<not> b_pitch info < b_width info * (b_bpp info div 8)"

definition fb_init :: "fb_boot \<Rightarrow> mouse \<Rightarrow> vmm \<Rightarrow> fb \<Rightarrow> vmm \<times> fb" where
  "fb_init info m v f0 =
     (let f = f0\<lparr>fb_front := False, fb_mem := NoMem, fb_w := 0, fb_h := 0, fb_pitch := 0, fb_bpp := 0, fb_phys := 0\<rparr> in
      if \<not> boot_mode_ok info then (v, f)
      else let bytes = ucast (b_pitch info) * ucast (b_height info) in
        case vmm_map_mmio (ucast (b_phys info)) bytes v of (ok, v1) \<Rightarrow>
          if \<not> ok then (v1, f)
          else let f1 = f\<lparr>fb_w := b_width info, fb_h := b_height info, fb_pitch := b_pitch info, fb_bpp := b_bpp info,
                          fb_phys := b_phys info, fb_front := True, overlay_col := 0\<rparr>
            in case fb_alloc_shadow bytes v1 f1 of (got, v2, f2) \<Rightarrow>
                 (v2, snd (fb_present m (fb_banner ''Vampire OS'' (fb_fill FB_BG (if got then f2 else f2\<lparr>fb_mem := Front\<rparr>))))))"

section \<open>Single pixels\<close>

definition mode_ok :: "fb \<Rightarrow> bool" where
  "mode_ok f \<longleftrightarrow> (fb_bpp f = 24 \<or> fb_bpp f = 32) \<and> unat (fb_w f) * px_bytes f \<le> unat (fb_pitch f) \<and>
     unat (fb_pitch f) * unat (fb_h f) < 2 ^ 32 \<and> 0 < unat (fb_w f)"

definition px_start :: "fb \<Rightarrow> nat \<Rightarrow> nat \<Rightarrow> nat" where
  "px_start f i j = j * unat (fb_pitch f) + i * px_bytes f"

definition on_screen :: "fb \<Rightarrow> nat \<Rightarrow> nat \<Rightarrow> bool" where
  "on_screen f i j \<longleftrightarrow> i < unat (fb_w f) \<and> j < unat (fb_h f)"

lemma mode_cong:
  assumes "same_mode f g"
  shows "mode_ok g = mode_ok f" "px_start g = px_start f" "on_screen g = on_screen f" "px_bytes g = px_bytes f" "fast_rows g = fast_rows f"
    "off_screen_px x y g = off_screen_px x y f" "px_off x y g = px_off x y f" "fb_mem g = fb_mem f" "fb_front g = fb_front f" "fb_w g = fb_w f" "fb_h g = fb_h f"
    "fb_pitch g = fb_pitch f" "fb_bpp g = fb_bpp f"
  using assms by (auto simp: same_mode_def mode_ok_def px_start_def on_screen_def px_bytes_def fast_rows_def off_screen_px_def px_off_def fun_eq_iff)

lemma px_bytes_div: "mode_ok f \<Longrightarrow> unat (fb_bpp f div 8) = px_bytes f"
  by (auto simp: mode_ok_def px_bytes_def unat_div)

lemma px_bytes_pos: "3 \<le> px_bytes f" "px_bytes f \<le> 4" by (simp_all add: px_bytes_def)

lemma px_end:
  assumes "mode_ok f" "on_screen f i j" "k < px_bytes f"
  shows "px_start f i j + k < unat (fb_pitch f) * unat (fb_h f)" "i * px_bytes f + k < unat (fb_pitch f)"
proof -
  have "Suc i * px_bytes f \<le> unat (fb_w f) * px_bytes f" using assms(2) by (intro mult_le_mono1) (simp add: on_screen_def)
  then show r: "i * px_bytes f + k < unat (fb_pitch f)" using assms(1,3) by (simp add: mode_ok_def)
  have "Suc j * unat (fb_pitch f) \<le> unat (fb_h f) * unat (fb_pitch f)" using assms(2) by (intro mult_le_mono1) (simp add: on_screen_def)
  then show "px_start f i j + k < unat (fb_pitch f) * unat (fb_h f)" using r by (simp add: px_start_def mult.commute)
qed

lemma px_inj:
  assumes "mode_ok f" "on_screen f i j" "on_screen f i' j'" "k < px_bytes f" "k' < px_bytes f"
    and "px_start f i j + k = px_start f i' j' + k'"
  shows "i = i' \<and> j = j' \<and> k = k'"
proof -
  note a = px_end(2) [OF assms(1,2,4)] and b = px_end(2) [OF assms(1,3,5)]
  let ?p = "unat (fb_pitch f)"
  have e: "i * px_bytes f + k + j * ?p = i' * px_bytes f + k' + j' * ?p" using assms(6) by (simp add: px_start_def)
  have "(i * px_bytes f + k + j * ?p) div ?p = j" "(i' * px_bytes f + k' + j' * ?p) div ?p = j'" using a b by simp_all
  then have j: "j = j'" using e by simp
  then have e2: "k + i * px_bytes f = k' + i' * px_bytes f" using e by simp
  have "(k + i * px_bytes f) div px_bytes f = i" "(k' + i' * px_bytes f) div px_bytes f = i'" using assms(4,5) by simp_all
  then show ?thesis using e2 j by simp
qed

lemma px_small:
  assumes "mode_ok f" "on_screen f i j"
  shows "i < 2 ^ 31" "j < 2 ^ 31" "px_start f i j < 2 ^ 32"
proof -
  have "px_start f i j + 0 < unat (fb_pitch f) * unat (fb_h f)" by (rule px_end(1) [OF assms]) (use px_bytes_pos [of f] in simp)
  moreover have "unat (fb_pitch f) * unat (fb_h f) < 2 ^ 32" using assms(1) by (simp add: mode_ok_def)
  ultimately show "px_start f i j < 2 ^ 32" by simp
  have p: "3 \<le> unat (fb_pitch f)" using assms(1) px_bytes_pos(1) [of f] mult_le_mono [of 1 "unat (fb_w f)" 3 "px_bytes f"] by (auto simp: mode_ok_def)
  have "3 * unat (fb_h f) \<le> unat (fb_pitch f) * unat (fb_h f)" by (rule mult_le_mono1 [OF p])
  moreover have "unat (fb_pitch f) * unat (fb_h f) < 2 ^ 32" using assms(1) by (simp add: mode_ok_def)
  moreover have "j < unat (fb_h f)" using assms(2) by (simp add: on_screen_def)
  ultimately have "3 * unat (fb_h f) < 2 ^ 32" "j < unat (fb_h f)" by (blast intro: le_less_trans)+
  then show "j < 2 ^ 31" by simp
  have "unat (fb_w f) * 3 \<le> unat (fb_pitch f)"
    by (rule order_trans [OF mult_le_mono2 [OF px_bytes_pos(1) [of f]]]) (use assms(1) in \<open>simp add: mode_ok_def\<close>)
  moreover have "unat (fb_pitch f) < 2 ^ 32" using unat_bound [of "fb_pitch f"] by simp
  ultimately show "i < 2 ^ 31" using assms(2) by (simp add: on_screen_def)
qed

lemma on_screen_int:
  assumes "mode_ok f" "x < 2 ^ 31" "y < 2 ^ 31"
  shows "off_screen_px x y f \<longleftrightarrow> \<not> (0 \<le> x \<and> 0 \<le> y \<and> on_screen f (nat x) (nat y))"
proof -
  have u: "unat (of_int z :: u32) = nat z" if "0 \<le> z" "z < 2 ^ 31" for z
    using that by (simp add: unat_eq_nat_uint uint_word_of_int)
  show ?thesis using u [of x] u [of y] assms(2,3) by (auto simp: off_screen_px_def on_screen_def word_le_nat_alt)
qed

lemma px_off_start:
  assumes "mode_ok f" "0 \<le> x" "0 \<le> y" "on_screen f (nat x) (nat y)"
  shows "px_off x y f = px_start f (nat x) (nat y)"
proof -
  note S = px_small [OF assms(1,4)]
  have u: "unat (of_int z :: u32) = nat z" if "0 \<le> z" "nat z < 2 ^ 31" for z
    using that by (simp add: unat_eq_nat_uint uint_word_of_int)
  have b: "nat y * unat (fb_pitch f) < 2 ^ 32" "nat x * px_bytes f < 2 ^ 32" using S(3) by (simp_all add: px_start_def)
  have "unat (of_int y * fb_pitch f) = nat y * unat (fb_pitch f)" using b(1) u [OF assms(3) S(2)] by (simp add: unat_word_ariths)
  moreover have "unat (of_int x * (fb_bpp f div 8)) = nat x * px_bytes f"
    using b(2) u [OF assms(2) S(1)] px_bytes_div [OF assms(1)] by (simp add: unat_word_ariths)
  ultimately show ?thesis by (simp add: px_off_def px_start_def)
qed

section \<open>Stores\<close>

lemma buf_get_put: "t \<noteq> NoMem \<Longrightarrow> buf_get t' o' (buf_put t off b f) = (if t' = t \<and> o' = off then b else buf_get t' o' f)"
  by (cases t; cases t') (auto simp: buf_get_def buf_put_def)

lemma buf_get_px:
  assumes "t \<noteq> NoMem"
  shows "buf_get t' o' (put_px t n off color f) = (if t' = t \<and> off \<le> o' \<and> o' < off + n then color_byte color (o' - off) else buf_get t' o' f)"
  unfolding put_px_def by (induction n) (auto simp: buf_get_put [OF assms])

text \<open>The bytes of pixel \<open>(i, j)\<close>.\<close>

definition px_byte :: "fb_target \<Rightarrow> fb \<Rightarrow> nat \<Rightarrow> nat \<Rightarrow> nat \<Rightarrow> u8" where
  "px_byte t f i j k = buf_get t (px_start f i j + k) f"

definition set_px :: "fb_target \<Rightarrow> u32 \<Rightarrow> nat \<times> nat \<Rightarrow> fb \<Rightarrow> fb" where
  "set_px t color p f = put_px t (px_bytes f) (px_start f (fst p) (snd p)) color f"

lemma set_px_mode [simp]: "same_mode f (set_px t color p f)" by (simp add: set_px_def)

lemma set_px_byte:
  assumes "mode_ok f" "t \<noteq> NoMem" "on_screen f i j" "on_screen f i' j'" "k < px_bytes f"
  shows "px_byte t' (set_px t color (i, j) f) i' j' k = (if t' = t \<and> i' = i \<and> j' = j then color_byte color k else px_byte t' f i' j' k)"
proof -
  have "px_start (set_px t color (i, j) f) = px_start f" using mode_cong(2) [OF set_px_mode] .
  moreover have "px_start f i j \<le> px_start f i' j' + k \<and> px_start f i' j' + k < px_start f i j + px_bytes f \<longleftrightarrow> i' = i \<and> j' = j"
  proof
    assume a: "px_start f i j \<le> px_start f i' j' + k \<and> px_start f i' j' + k < px_start f i j + px_bytes f"
    then show "i' = i \<and> j' = j" using px_inj [OF assms(1,3,4), of "px_start f i' j' + k - px_start f i j" k] assms(5) by simp
  qed (use assms(5) in simp)
  ultimately show ?thesis by (auto simp: px_byte_def set_px_def buf_get_px [OF assms(2)])
qed

text \<open>Bytes that belong to no pixel row keep their value.\<close>

definition past_screen :: "fb \<Rightarrow> nat \<Rightarrow> bool" where
  "past_screen f off \<longleftrightarrow> unat (fb_pitch f) * unat (fb_h f) \<le> off"

lemma set_px_past:
  assumes "mode_ok f" "t \<noteq> NoMem" "on_screen f i j" "past_screen f off"
  shows "buf_get t' off (set_px t color (i, j) f) = buf_get t' off f"
proof -
  have "px_start f i j + (px_bytes f - 1) < unat (fb_pitch f) * unat (fb_h f)"
    by (rule px_end(1) [OF assms(1,3)]) (use px_bytes_pos [of f] in simp)
  then show ?thesis using assms(4) px_bytes_pos [of f] by (auto simp: set_px_def buf_get_px [OF assms(2)] past_screen_def)
qed

lemma fold_set_px:
  assumes "mode_ok f" "t \<noteq> NoMem" "\<forall>(i, j) \<in> set ps. on_screen f i j"
  shows "on_screen f i j \<Longrightarrow> k < px_bytes f \<Longrightarrow>
      px_byte t' (fold (set_px t color) ps f) i j k = (if t' = t \<and> (i, j) \<in> set ps then color_byte color k else px_byte t' f i j k)"
    and "past_screen f off \<Longrightarrow> buf_get t' off (fold (set_px t color) ps f) = buf_get t' off f"
    and "same_mode f (fold (set_px t color) ps f)"
proof -
  show "same_mode f (fold (set_px t color) ps f)" by (rule same_mode_fold) simp
  have "(on_screen f i j \<longrightarrow> k < px_bytes f \<longrightarrow>
      px_byte t' (fold (set_px t color) ps f) i j k = (if t' = t \<and> (i, j) \<in> set ps then color_byte color k else px_byte t' f i j k)) \<and>
    (past_screen f off \<longrightarrow> buf_get t' off (fold (set_px t color) ps f) = buf_get t' off f)"
    using assms
  proof (induction ps arbitrary: f)
    case (Cons p ps)
    obtain a b where p: "p = (a, b)" by fastforce
    let ?g = "set_px t color (a, b) f"
    note M = mode_cong [OF set_px_mode [of f t color "(a, b)"]]
    have ab: "on_screen f a b" "\<forall>(i, j) \<in> set ps. on_screen f i j" using Cons.prems(3) by (simp_all add: p)
    have g: "mode_ok ?g" "\<forall>(i, j) \<in> set ps. on_screen ?g i j" using Cons.prems(1) ab(2) by (simp_all add: M)
    have pe: "past_screen ?g off = past_screen f off" by (simp add: past_screen_def M)
    show ?case using Cons.IH [OF g(1) Cons.prems(2) g(2)] set_px_byte [OF Cons.prems(1,2) ab(1), of i j k t' color]
        set_px_past [OF Cons.prems(1,2) ab(1), of off t' color] by (auto simp: p M pe)
  qed simp
  then show "on_screen f i j \<Longrightarrow> k < px_bytes f \<Longrightarrow>
      px_byte t' (fold (set_px t color) ps f) i j k = (if t' = t \<and> (i, j) \<in> set ps then color_byte color k else px_byte t' f i j k)"
    "past_screen f off \<Longrightarrow> buf_get t' off (fold (set_px t color) ps f) = buf_get t' off f" by blast+
qed

section \<open>Areas\<close>

definition area :: "nat \<Rightarrow> nat \<Rightarrow> nat \<Rightarrow> nat \<Rightarrow> (nat \<times> nat) list" where
  "area x y x1 y1 = concat (map (\<lambda>yy. map (\<lambda>xx. (xx, yy)) [x..<x1]) [y..<y1])"

lemma set_area [simp]: "(i, j) \<in> set (area x y x1 y1) \<longleftrightarrow> x \<le> i \<and> i < x1 \<and> y \<le> j \<and> j < y1"
  by (force simp: area_def)

lemma fold_nested: "fold (\<lambda>y. fold (\<lambda>x. step (x, y)) xs) ys f = fold step (concat (map (\<lambda>y. map (\<lambda>x. (x, y)) xs) ys)) f"
  by (induction ys arbitrary: f) (simp_all add: fold_map comp_def)

lemma fold_mode_cong:
  assumes "\<And>p g. p \<in> set ps \<Longrightarrow> same_mode f g \<Longrightarrow> step p g = step' p g" "\<And>p g. same_mode g (step' p g)"
  shows "fold step ps f = fold step' ps f"
  using assms(1)
proof (induction ps rule: rev_induct)
  case (snoc p ps)
  have "same_mode f (fold step' ps f)" by (rule same_mode_fold) (rule assms(2))
  then show ?case using snoc by simp
qed simp

lemma pixel_set:
  assumes "mode_ok f" "on_screen f i j"
  shows "fb_pixel (int i) (int j) color f = set_px (fb_mem f) color (i, j) f"
proof -
  have "i < 2 ^ 31" "j < 2 ^ 31" using px_small [OF assms] by simp_all
  then have "\<not> off_screen_px (int i) (int j) f" using on_screen_int [OF assms(1), of "int i" "int j"] assms(2) by simp
  then show ?thesis using px_off_start [OF assms(1), of "int i" "int j"] assms(2) by (simp add: fb_pixel_def set_px_def)
qed

lemma sint_small: "i < 2 ^ 31 \<Longrightarrow> sint (of_nat i :: u32) = int i"
proof -
  assume i: "i < 2 ^ 31"
  then have "uint (of_nat i :: u32) = int i" by (simp add: uint_nat unat_of_nat)
  then show ?thesis using i by (simp add: sint_uint signed_take_bit_int_eq_self)
qed

lemma fill_set:
  assumes "mode_ok f" "x1 \<le> unat (fb_w f)" "y1 \<le> unat (fb_h f)"
  shows "fill_pixels x y x1 y1 color f = fold (set_px (fb_mem f) color) (area x y x1 y1) f"
    and "fast_rows f \<Longrightarrow> fill_words x y x1 y1 color f = fold (set_px (fb_mem f) color) (area x y x1 y1) f"
proof -
  have on: "on_screen f (fst p) (snd p)" if "p \<in> set (area x y x1 y1)" for p
    using that assms(2,3) set_area [of "fst p" "snd p" x y x1 y1] by (simp add: on_screen_def)
  have a: "fb_pixel (sint (of_nat (fst p) :: u32)) (sint (of_nat (snd p) :: u32)) color g = set_px (fb_mem f) color p g"
    if "p \<in> set (area x y x1 y1)" "same_mode f g" for p g
  proof -
    note M = mode_cong [OF that(2)]
    have o: "on_screen g (fst p) (snd p)" "mode_ok g" using on [OF that(1)] assms(1) by (simp_all add: M)
    show ?thesis using pixel_set [OF o(2,1), of color] px_small(1,2) [OF o(2,1)] by (simp add: sint_small M)
  qed
  have "fill_pixels x y x1 y1 color f = fold (\<lambda>p. fb_pixel (sint (of_nat (fst p) :: u32)) (sint (of_nat (snd p) :: u32)) color) (area x y x1 y1) f"
    unfolding fill_pixels_def area_def using fold_nested [where step = "\<lambda>p. fb_pixel (sint (of_nat (fst p) :: u32)) (sint (of_nat (snd p) :: u32)) color"] by simp
  also have "\<dots> = fold (set_px (fb_mem f) color) (area x y x1 y1) f" by (rule fold_mode_cong) (use a in simp_all)
  finally show "fill_pixels x y x1 y1 color f = fold (set_px (fb_mem f) color) (area x y x1 y1) f" .
  assume fast: "fast_rows f"
  have b: "put_px (fb_mem g) 4 (snd p * unat (fb_pitch g) + 4 * fst p) color g = set_px (fb_mem f) color p g" if "same_mode f g" for p g
    using fast mode_cong [OF that] by (simp add: set_px_def px_start_def fast_rows_def px_bytes_def mult.commute)
  have "fill_words x y x1 y1 color f = fold (\<lambda>p g. put_px (fb_mem g) 4 (snd p * unat (fb_pitch g) + 4 * fst p) color g) (area x y x1 y1) f"
    unfolding fill_words_def area_def
    using fold_nested [where step = "\<lambda>p g. put_px (fb_mem g) 4 (snd p * unat (fb_pitch g) + 4 * fst p) color g"] by simp
  also have "\<dots> = fold (set_px (fb_mem f) color) (area x y x1 y1) f" by (rule fold_mode_cong) (use b in simp_all)
  finally show "fill_words x y x1 y1 color f = fold (set_px (fb_mem f) color) (area x y x1 y1) f" .
qed

lemma fill_area_set:
  assumes "mode_ok f" "x1 \<le> unat (fb_w f)" "y1 \<le> unat (fb_h f)"
  shows "fill_area x y x1 y1 color f = fold (set_px (fb_mem f) color) (area x y x1 y1) f"
  using fill_set [OF assms] by (simp add: fill_area_def)

lemma clip_end:
  assumes "x < (wid :: u32)"
  shows "i < unat (if x + w < x \<or> wid < x + w then wid else x + w) \<longleftrightarrow> i < unat wid \<and> i < unat x + unat w"
    and "unat (if x + w < x \<or> wid < x + w then wid else x + w) \<le> unat wid"
proof -
  have "x + w < x \<longleftrightarrow> 2 ^ 32 \<le> unat x + unat w"
    using no_olen_add_nat [of x w] by (auto simp: word_le_nat_alt not_le [symmetric])
  moreover have "unat x + unat w < 2 ^ 32 \<Longrightarrow> unat (x + w) = unat x + unat w" by (simp add: unat_word_ariths)
  ultimately show "i < unat (if x + w < x \<or> wid < x + w then wid else x + w) \<longleftrightarrow> i < unat wid \<and> i < unat x + unat w"
    "unat (if x + w < x \<or> wid < x + w then wid else x + w) \<le> unat wid"
    using assms unat_bound [of wid] by (auto simp: word_less_nat_alt)
qed

text \<open>
  C39. Filling a rectangle. The call succeeds exactly when there is a frame buffer, the rectangle is
  not empty and its corner is on the screen. Then the pixels of the rectangle, cut to the screen
  also when its far corner wraps around, have the colour, all other pixels and the display keep
  theirs, and no byte past the buffer is touched, on the path with word stores as on the other.
\<close>

theorem fill_rect_exact:
  assumes "mode_ok f" "fb_fill_rect x y w h color f = (r, f')"
  shows "same_mode f f' \<and>
    (r \<longleftrightarrow> fb_front f \<and> fb_mem f \<noteq> NoMem \<and> w \<noteq> 0 \<and> h \<noteq> 0 \<and> on_screen f (unat x) (unat y)) \<and>
    (\<forall>off. past_screen f off \<longrightarrow> buf_get t off f' = buf_get t off f) \<and>
    (\<forall>i j k. on_screen f i j \<longrightarrow> k < px_bytes f \<longrightarrow> px_byte t f' i j k =
       (if r \<and> t = fb_mem f \<and> unat x \<le> i \<and> i < unat x + unat w \<and> unat y \<le> j \<and> j < unat y + unat h
        then color_byte color k else px_byte t f i j k))"
proof (cases "fb_front f \<and> fb_mem f \<noteq> NoMem \<and> w \<noteq> 0 \<and> h \<noteq> 0 \<and> on_screen f (unat x) (unat y)")
  case False
  moreover have "\<not> on_screen f (unat x) (unat y) \<longleftrightarrow> fb_w f \<le> x \<or> fb_h f \<le> y" by (auto simp: on_screen_def word_le_nat_alt)
  ultimately have "\<not> fb_front f \<or> fb_mem f = NoMem \<or> w = 0 \<or> h = 0 \<or> fb_w f \<le> x \<or> fb_h f \<le> y" by blast
  then have "r = False \<and> f' = f" using assms(2) unfolding fb_fill_rect_def by (simp split: if_splits)
  then show ?thesis using False by simp
next
  case True
  let ?x1 = "if x + w < x \<or> fb_w f < x + w then fb_w f else x + w"
  let ?y1 = "if y + h < y \<or> fb_h f < y + h then fb_h f else y + h"
  have lt: "x < fb_w f" "y < fb_h f" using True by (simp_all add: on_screen_def word_less_nat_alt)
  have f': "r" "f' = fill_area (unat x) (unat y) (unat ?x1) (unat ?y1) color f"
    using assms(2) True lt unfolding fb_fill_rect_def Let_def by (simp_all add: not_le [symmetric])
  have f'': "f' = fold (set_px (fb_mem f) color) (area (unat x) (unat y) (unat ?x1) (unat ?y1)) f"
    unfolding f'(2) by (rule fill_area_set [OF assms(1) clip_end(2) [OF lt(1)] clip_end(2) [OF lt(2)]])
  have "on_screen f i j" if "(i, j) \<in> set (area (unat x) (unat y) (unat ?x1) (unat ?y1))" for i j
    using that clip_end(2) [OF lt(1), of w] clip_end(2) [OF lt(2), of h] unfolding set_area on_screen_def by linarith
  then have on: "\<forall>(i, j) \<in> set (area (unat x) (unat y) (unat ?x1) (unat ?y1)). on_screen f i j" by blast
  note F = fold_set_px [where color = color and t = "fb_mem f", OF assms(1) _ on, folded f'']
  have "px_byte t f' i j k = (if t = fb_mem f \<and> unat x \<le> i \<and> i < unat x + unat w \<and> unat y \<le> j \<and> j < unat y + unat h
        then color_byte color k else px_byte t f i j k)" if "on_screen f i j" "k < px_bytes f" for i j k
    using F(1) [OF _ that, where t' = t] True that(1) unfolding set_area clip_end(1) [OF lt(1)] clip_end(1) [OF lt(2)]
    by (auto simp: on_screen_def)
  then show ?thesis using F(2,3) f'(1) True by simp
qed

definition fb_demo :: fb where
  "fb_demo = \<lparr>fb_front = True, fb_mem = Shadow, front = (\<lambda>_. 0), shadow = (\<lambda>_. 0), fb_w = 320, fb_h = 200, fb_pitch = 1280,
     fb_bpp = 32, fb_phys = 0xE0000000, overlay_col = 0\<rparr>"

lemma fb_demo_ok: "mode_ok fb_demo"
  by (simp add: mode_ok_def fb_demo_def px_bytes_def)

theorem fill_rect_exact_witness:
  "\<exists>f'. fb_fill_rect 300 10 0xFFFFFFFF 2 0x00FF8040 fb_demo = (True, f') \<and> px_byte Shadow f' 319 11 0 = 0x40 \<and>
     px_byte Shadow f' 299 11 0 = 0 \<and> px_byte Front f' 319 11 0 = 0"
proof -
  obtain r f' where run: "fb_fill_rect 300 10 0xFFFFFFFF 2 0x00FF8040 fb_demo = (r, f')" by fastforce
  have g: "fb_front fb_demo" "fb_mem fb_demo = Shadow" "px_bytes fb_demo = 4" "\<And>i j. on_screen fb_demo i j \<longleftrightarrow> i < 320 \<and> j < 200"
    "px_byte t fb_demo i j k = 0" for t i j k
    by (simp_all add: fb_demo_def px_bytes_def on_screen_def px_byte_def buf_get_def split: fb_target.splits)
  note T = fill_rect_exact [OF fb_demo_ok run]
  have r using T [of Shadow] by (simp add: g)
  then show ?thesis using T [of Shadow] T [of Front] run by (simp add: g color_byte_def)
qed

end
