(* ===== verification/Mouse.thy ===== *)
theory Mouse
  imports Fb
begin

text \<open>
  The mouse: \<open>kernel/mouse.c\<close>. Packets of three bytes move a pointer that is drawn on the display by
  inverting pixels, so that drawing it again removes it. The controller is the argument \<open>port\<close>: the
  value that the \<open>n\<close>-th read returns, from a given port; the bytes written to it are a list.
\<close>

section \<open>The code\<close>

definition I8042_DATA :: nat where "I8042_DATA = 0x60"
definition I8042_STATUS :: nat where "I8042_STATUS = 0x64"
definition I8042_STATUS_OUT :: u8 where "I8042_STATUS_OUT = 0x01"
definition I8042_STATUS_IN :: u8 where "I8042_STATUS_IN = 0x02"
definition I8042_STATUS_AUX :: u8 where "I8042_STATUS_AUX = 0x20"
definition I8042_TIMEOUT :: nat where "I8042_TIMEOUT = 100000"
definition MOUSE_PKT :: nat where "MOUSE_PKT = 3"
definition MOUSE_ALWAYS1 :: u8 where "MOUSE_ALWAYS1 = 0x08"
definition MOUSE_OVERFLOW :: u8 where "MOUSE_OVERFLOW = 0xC0"
definition MOUSE_LEFT :: u8 where "MOUSE_LEFT = 0x01"

type_synonym ports = "nat \<Rightarrow> nat \<Rightarrow> u8"

text \<open>The number of reads so far and the bytes written, with their ports.\<close>

type_synonym io = "nat \<times> (nat \<times> u8) list"

fun wait_status :: "ports \<Rightarrow> (u8 \<Rightarrow> bool) \<Rightarrow> nat \<Rightarrow> io \<Rightarrow> bool \<times> io" where
  "wait_status port ready 0 s = (False, s)"
| "wait_status port ready (Suc i) (n, os) =
     (if ready (port n I8042_STATUS) then (True, Suc n, os) else wait_status port ready i (Suc n, os))"

definition wait_in_empty :: "ports \<Rightarrow> io \<Rightarrow> bool \<times> io" where
  "wait_in_empty port s = wait_status port (\<lambda>st. st AND I8042_STATUS_IN = 0) I8042_TIMEOUT s"

definition wait_out_full :: "ports \<Rightarrow> io \<Rightarrow> bool \<times> io" where
  "wait_out_full port s = wait_status port (\<lambda>st. st AND I8042_STATUS_OUT \<noteq> 0) I8042_TIMEOUT s"

fun mouse_read_loop :: "ports \<Rightarrow> nat \<Rightarrow> io \<Rightarrow> u8 option \<times> io" where
  "mouse_read_loop port 0 s = (None, s)"
| "mouse_read_loop port (Suc i) (n, os) =
     (let st = port n I8042_STATUS in
      if st AND I8042_STATUS_OUT = 0 then mouse_read_loop port i (Suc n, os)
      else let data = port (Suc n) I8042_DATA in
        if st AND I8042_STATUS_AUX \<noteq> 0 then (Some data, n + 2, os) else mouse_read_loop port i (n + 2, os))"

definition mouse_read :: "ports \<Rightarrow> io \<Rightarrow> u8 option \<times> io" where
  "mouse_read port s = mouse_read_loop port I8042_TIMEOUT s"

definition outb :: "nat \<Rightarrow> u8 \<Rightarrow> io \<Rightarrow> io" where
  "outb p b s = (fst s, snd s @ [(p, b)])"

text \<open>Waiting for room and writing one byte.\<close>

definition send :: "ports \<Rightarrow> nat \<Rightarrow> u8 \<Rightarrow> io \<Rightarrow> bool \<times> io" where
  "send port p b s = (case wait_in_empty port s of (ok, s1) \<Rightarrow> if \<not> ok then (False, s1) else (True, outb p b s1))"

definition mouse_write :: "ports \<Rightarrow> u8 \<Rightarrow> io \<Rightarrow> bool \<times> io" where
  "mouse_write port cmd s =
     (case send port I8042_STATUS 0xD4 s of (ok, s1) \<Rightarrow> if \<not> ok then (False, s1) else send port I8042_DATA cmd s1)"

definition put_num :: "u32 \<Rightarrow> string" where
  "put_num v = (if v = 0 then ''0'' else rev (dec_digits 10 (unat v)))"

definition clamp_pos :: "mouse \<Rightarrow> mouse" where
  "clamp_pos m =
     (let m1 = (if mx m < 0 then m\<lparr>mx := 0\<rparr> else m);
          m2 = (if my m1 < 0 then m1\<lparr>my := 0\<rparr> else m1);
          m3 = (if 0 < max_x m2 \<and> max_x m2 \<le> mx m2 then m2\<lparr>mx := max_x m2 - 1\<rparr> else m2)
      in if 0 < max_y m3 \<and> max_y m3 \<le> my m3 then m3\<lparr>my := max_y m3 - 1\<rparr> else m3)"

definition move_pointer :: "mouse \<Rightarrow> fb \<Rightarrow> mouse \<times> fb" where
  "move_pointer m f =
     (let f1 = (if ptr_on m then fb_pointer (ptr_x m) (ptr_y m) f else f);
          m1 = m\<lparr>ptr_x := mx m, ptr_y := my m\<rparr>
      in (m1\<lparr>ptr_on := True\<rparr>, fb_pointer (ptr_x m1) (ptr_y m1) f1))"

definition click_text :: "mouse \<Rightarrow> string" where
  "click_text m =
     (let buf = put_num (of_int (mx m)) @ '','' @ put_num (of_int (my m)) in buf @ replicate (12 - length buf) CHR '' '')"

definition print_click :: "mouse \<Rightarrow> vga \<times> fb \<Rightarrow> vga \<times> fb" where
  "print_click m s =
     (case s of (v, f) \<Rightarrow> (vga_write_at 2 0 (Some (click_text m)) v, fb_draw_text 8 8 (click_text m) m f))"

definition mouse_start :: "mouse \<Rightarrow> fb \<Rightarrow> mouse" where
  "mouse_start m f =
     (let m1 = m\<lparr>mx := 320, my := 240, max_x := 640, max_y := 480, ptr_on := False, left_down := False, pkt_i := 0\<rparr> in
      case fb_query f of
        None \<Rightarrow> m1
      | Some (w, h, pitch, phys) \<Rightarrow> m1\<lparr>max_x := sint w, max_y := sint h, mx := uint (w div 2), my := uint (h div 2)\<rparr>)"

text \<open>The dialogue of \<open>mouse_init\<close> with the controller; \<open>True\<close> when every step was answered.\<close>

definition mouse_enable :: "ports \<Rightarrow> io \<Rightarrow> bool \<times> io" where
  "mouse_enable port s =
     (case send port I8042_STATUS 0xA8 s of (ok1, s1) \<Rightarrow> if \<not> ok1 then (False, s1)
      else case send port I8042_STATUS 0x20 s1 of (ok2, s2) \<Rightarrow> if \<not> ok2 then (False, s2)
      else case wait_out_full port s2 of (ok3, n3, os3) \<Rightarrow> if \<not> ok3 then (False, n3, os3)
      else let cfg = (port n3 I8042_DATA OR 0x02) AND NOT 0x20 in
        case send port I8042_STATUS 0x60 (Suc n3, os3) of (ok4, s4) \<Rightarrow> if \<not> ok4 then (False, s4)
      else case send port I8042_DATA cfg s4 of (ok5, s5) \<Rightarrow> if \<not> ok5 then (False, s5)
      else case mouse_write port 0xF4 s5 of (ok6, s6) \<Rightarrow> if \<not> ok6 then (False, s6)
      else case mouse_read port s6 of (ack, s7) \<Rightarrow> (ack \<noteq> None, s7))"

definition mouse_init :: "ports \<Rightarrow> io \<Rightarrow> mouse \<Rightarrow> fb \<Rightarrow> mouse \<times> fb \<times> io" where
  "mouse_init port s m f =
     (let m1 = mouse_start m f in
      case mouse_enable port s of (ok, s1) \<Rightarrow>
        if \<not> ok then (m1, f, s1) else case move_pointer m1 f of (m2, f2) \<Rightarrow> (m2, f2, s1))"

definition mouse_on_byte :: "u8 \<Rightarrow> vga \<times> mouse \<times> fb \<Rightarrow> vga \<times> mouse \<times> fb" where
  "mouse_on_byte data s =
     (case s of (v, m, f) \<Rightarrow>
      if pkt_i m = 0 \<and> data AND MOUSE_ALWAYS1 = 0 then (v, m, f)
      else let m1 = m\<lparr>pkt := (pkt m)[pkt_i m := data], pkt_i := pkt_i m + 1\<rparr> in
        if pkt_i m1 < MOUSE_PKT then (v, m1, f)
        else let m2 = m1\<lparr>pkt_i := 0\<rparr> in
          if pkt m2 ! 0 AND MOUSE_OVERFLOW \<noteq> 0 then (v, m2, f)
          else case move_pointer (clamp_pos (m2\<lparr>mx := mx m2 + sint (pkt m2 ! 1), my := my m2 - sint (pkt m2 ! 2)\<rparr>)) f of
            (m3, f3) \<Rightarrow>
              let left = (pkt m3 ! 0 AND MOUSE_LEFT \<noteq> 0) in
              case (if left \<and> \<not> left_down m3 then print_click m3 (v, f3) else (v, f3)) of
                (v4, f4) \<Rightarrow> (v4, m3\<lparr>left_down := left\<rparr>, f4))"

section \<open>Inverting pixels\<close>

lemma color_byte_xor: "color_byte (a XOR b) k = color_byte a k XOR color_byte b k"
  by (rule bit_word_eqI) (simp add: color_byte_def bit_simps)

lemma color_byte_white: "k < 4 \<Longrightarrow> color_byte 0x00FFFFFF k = (if k < 3 then 0xFF else 0)"
proof -
  assume "k < 4"
  then have "k = 0 \<or> k = 1 \<or> k = 2 \<or> k = 3" by linarith
  then show ?thesis by (auto simp: color_byte_def)
qed

lemma color_byte_four:
  "k < 4 \<Longrightarrow> color_byte (ucast b0 OR push_bit 8 (ucast b1) OR push_bit 16 (ucast b2) OR push_bit 24 (ucast b3)) k = [b0, b1, b2, b3] ! k"
proof (rule bit_word_eqI)
  fix n assume k: "k < 4" and n: "n < LENGTH(8)"
  have "k = 0 \<or> k = 1 \<or> k = 2 \<or> k = 3" using k by linarith
  then show "bit (color_byte (ucast b0 OR push_bit 8 (ucast b1) OR push_bit 16 (ucast b2) OR push_bit 24 (ucast b3)) k) n = bit ([b0, b1, b2, b3] ! k) n"
    using n by (auto simp: color_byte_def bit_simps dest: bit_imp_le_length)
qed

lemma front_get_byte:
  assumes "mode_ok f" "fb_front f" "on_screen f i j" "k < px_bytes f"
  shows "color_byte (fb_front_get (int i) (int j) f) k = px_byte Front f i j k"
proof -
  have lt: "i < 2 ^ 31" "j < 2 ^ 31" using px_small [OF assms(1,3)] by simp_all
  have ns: "\<not> off_screen_px (int i) (int j) f" using on_screen_int [OF assms(1), of "int i" "int j"] assms(3) lt by simp
  have off: "px_off (int i) (int j) f = px_start f i j" using px_off_start [OF assms(1), of "int i" "int j"] assms(3) by simp
  let ?b = "\<lambda>k. front f (px_start f i j + k)"
  have pb: "px_byte Front f i j k = ?b k" by (simp add: px_byte_def buf_get_def)
  have k4: "k < 4" using assms(4) px_bytes_pos(2) [of f] by linarith
  show ?thesis
  proof (cases "fb_bpp f = 32")
    case True
    then have "fb_front_get (int i) (int j) f = ucast (?b 0) OR push_bit 8 (ucast (?b 1)) OR push_bit 16 (ucast (?b 2)) OR push_bit 24 (ucast (?b 3))"
      using assms(2) ns off by (simp add: fb_front_get_def Let_def or.assoc)
    then show ?thesis using color_byte_four [OF k4, of "?b 0" "?b 1" "?b 2" "?b 3"] k4 pb by (auto simp: less_Suc_eq numeral_eq_Suc)
  next
    case False
    then have "fb_front_get (int i) (int j) f = ucast (?b 0) OR push_bit 8 (ucast (?b 1)) OR push_bit 16 (ucast (?b 2)) OR push_bit 24 (ucast (0 :: u8))"
      using assms(2) ns off by (simp add: fb_front_get_def Let_def or.assoc)
    moreover have "k < 3" using assms(4) False by (simp add: px_bytes_def)
    ultimately show ?thesis using color_byte_four [OF k4, of "?b 0" "?b 1" "?b 2" 0] pb by (auto simp: less_Suc_eq numeral_eq_Suc)
  qed
qed

lemma xor_pixel_mode [simp]: "same_mode f (fb_xor_pixel x y f)"
  by (simp add: fb_xor_pixel_def fb_front_pixel_def)

definition flip :: "bool \<Rightarrow> u8" where "flip b = (if b then 0xFF else 0)"

lemma flip_simps [simp]: "flip False = 0" "flip b XOR flip b = 0" "a XOR flip b XOR flip b = a"
  by (simp_all add: flip_def)

lemma xor_pixel_byte:
  assumes "mode_ok f" "fb_front f" "x < 2 ^ 31" "y < 2 ^ 31" "on_screen f i j" "k < px_bytes f"
  shows "px_byte t (fb_xor_pixel x y f) i j k = px_byte t f i j k XOR flip (t = Front \<and> x = int i \<and> y = int j \<and> k < 3)"
proof (cases "off_screen_px x y f")
  case True
  then have "\<not> (x = int i \<and> y = int j)" using on_screen_int [OF assms(1,3,4)] assms(5) by auto
  moreover have "fb_xor_pixel x y f = f" using True by (simp add: fb_xor_pixel_def fb_front_pixel_def)
  ultimately show ?thesis by (auto simp: flip_def)
next
  case False
  then have on: "0 \<le> x" "0 \<le> y" "on_screen f (nat x) (nat y)" using on_screen_int [OF assms(1,3,4)] by auto
  let ?c = "fb_front_get x y f XOR 0x00FFFFFF"
  have "fb_xor_pixel x y f = set_px Front ?c (nat x, nat y) f"
    using False assms(2) px_off_start [OF assms(1) on] by (simp add: fb_xor_pixel_def fb_front_pixel_def set_px_def)
  then have e: "px_byte t (fb_xor_pixel x y f) i j k = (if t = Front \<and> i = nat x \<and> j = nat y then color_byte ?c k else px_byte t f i j k)"
    using set_px_byte [OF assms(1) _ on(3) assms(5,6), of Front t ?c] by simp
  have "k < 4" using assms(6) px_bytes_pos(2) [of f] by linarith
  then have "color_byte ?c k = px_byte Front f i j k XOR flip (k < 3)" if "i = nat x" "j = nat y"
    using front_get_byte [OF assms(1,2,5,6)] that on(1,2) by (simp add: color_byte_xor color_byte_white flip_def)
  moreover have "i = nat x \<longleftrightarrow> x = int i" "j = nat y \<longleftrightarrow> y = int j" using on(1,2) by auto
  ultimately show ?thesis unfolding e by auto
qed

lemma fold_xor_byte:
  assumes "mode_ok f" "fb_front f" "\<forall>(x, y) \<in> set ps. x < 2 ^ 31 \<and> y < 2 ^ 31" "distinct ps" "on_screen f i j" "k < px_bytes f"
  shows "px_byte t (fold (\<lambda>(x, y). fb_xor_pixel x y) ps f) i j k = px_byte t f i j k XOR flip (t = Front \<and> (int i, int j) \<in> set ps \<and> k < 3)"
  using assms
proof (induction ps arbitrary: f)
  case (Cons p ps)
  obtain x y where p: "p = (x, y)" by fastforce
  let ?g = "fb_xor_pixel x y f"
  note M = mode_cong [OF xor_pixel_mode [of f x y]]
  have g: "mode_ok ?g" "fb_front ?g" "on_screen ?g i j" "k < px_bytes ?g" using Cons.prems by (simp_all add: M)
  have b: "x < 2 ^ 31" "y < 2 ^ 31" "\<forall>(x, y) \<in> set ps. x < 2 ^ 31 \<and> y < 2 ^ 31" "distinct ps" "(x, y) \<notin> set ps"
    using Cons.prems by (simp_all add: p)
  show ?case using Cons.IH [OF g(1,2) b(3,4) g(3,4)] xor_pixel_byte [OF Cons.prems(1,2) b(1,2) Cons.prems(5,6), of t] b(5)
    by (auto simp: p flip_def)
qed simp

definition cross :: "int \<Rightarrow> int \<Rightarrow> (int \<times> int) list" where
  "cross x y = [(x, y), (x + 1, y), (x - 1, y), (x, y + 1), (x, y - 1), (x + 2, y), (x - 2, y), (x, y + 2), (x, y - 2)]"

lemma pointer_fold: "fb_pointer x y f = (if fb_front f then fold (\<lambda>(x, y). fb_xor_pixel x y) (cross x y) f else f)"
  by (simp add: fb_pointer_def cross_def)

lemma pointer_mode [simp]: "same_mode f (fb_pointer x y f)"
proof -
  have "same_mode f (fold (\<lambda>(x, y). fb_xor_pixel x y) ps f)" for ps by (rule same_mode_fold) (simp split: prod.split)
  then show ?thesis by (simp add: pointer_fold)
qed

lemma pointer_byte:
  assumes "mode_ok f" "fb_front f" "x < 2 ^ 31 - 2" "y < 2 ^ 31 - 2" "on_screen f i j" "k < px_bytes f"
  shows "px_byte t (fb_pointer x y f) i j k = px_byte t f i j k XOR flip (t = Front \<and> (int i, int j) \<in> set (cross x y) \<and> k < 3)"
proof -
  have "\<forall>(a, b) \<in> set (cross x y). a < 2 ^ 31 \<and> b < 2 ^ 31" "distinct (cross x y)" using assms(3,4) by (auto simp: cross_def)
  from fold_xor_byte [OF assms(1,2) this assms(5,6)] show ?thesis using assms(2) by (simp add: pointer_fold)
qed

section \<open>What the display shows\<close>

lemma copy_px_mode [simp]: "same_mode f (copy_px n off f)"
  unfolding copy_px_def by (rule same_mode_fold) simp

lemma copy_px_get:
  "buf_get Shadow o' (copy_px n off f) = buf_get Shadow o' f"
  "buf_get Front o' (copy_px n off f) = (if off \<le> o' \<and> o' < off + n then buf_get Shadow o' f else buf_get Front o' f)"
proof -
  have "buf_get Shadow o' (copy_px n off f) = buf_get Shadow o' f \<and>
    buf_get Front o' (copy_px n off f) = (if off \<le> o' \<and> o' < off + n then buf_get Shadow o' f else buf_get Front o' f)" for o'
  proof (induction n arbitrary: o')
    case (Suc n)
    have "copy_px (Suc n) off f = buf_put Front (off + n) (buf_get Shadow (off + n) (copy_px n off f)) (copy_px n off f)" by (simp add: copy_px_def)
    then show ?case using Suc.IH [of o'] Suc.IH [of "off + n"] by (auto simp: buf_get_put)
  qed (auto simp: copy_px_def)
  then show "buf_get Shadow o' (copy_px n off f) = buf_get Shadow o' f"
    "buf_get Front o' (copy_px n off f) = (if off \<le> o' \<and> o' < off + n then buf_get Shadow o' f else buf_get Front o' f)" by blast+
qed

lemma fold_copy_get:
  "buf_get Shadow o' (fold (\<lambda>p. copy_px n (st p)) ps f) = buf_get Shadow o' f"
  "buf_get Front o' (fold (\<lambda>p. copy_px n (st p)) ps f) =
     (if \<exists>p \<in> set ps. st p \<le> o' \<and> o' < st p + n then buf_get Shadow o' f else buf_get Front o' f)"
  by (induction ps arbitrary: f) (auto simp: copy_px_get)

lemma copy_rows_fold:
  assumes "mode_ok f"
  shows "copy_rows f = fold (\<lambda>p. copy_px (px_bytes f) (px_start f (fst p) (snd p))) (area 0 0 (unat (fb_w f)) (unat (fb_h f))) f"
proof -
  have "(if fast_rows f then copy_px 4 (y * unat (fb_pitch f) + 4 * x) g
         else copy_px (px_bytes f) (y * unat (fb_pitch f) + x * unat (fb_bpp f div 8)) g) = copy_px (px_bytes f) (px_start f x y) g" for x y g
    using px_bytes_div [OF assms] by (auto simp: fast_rows_def px_bytes_def px_start_def mult.commute)
  then show ?thesis unfolding copy_rows_def area_def
    using fold_nested [where step = "\<lambda>p. copy_px (px_bytes f) (px_start f (fst p) (snd p))"] by simp
qed

lemma copy_rows_byte:
  assumes "mode_ok f" "on_screen f i j" "k < px_bytes f"
  shows "same_mode f (copy_rows f)" "px_byte Shadow (copy_rows f) i j k = px_byte Shadow f i j k"
    "px_byte Front (copy_rows f) i j k = px_byte Shadow f i j k"
proof -
  let ?ps = "area 0 0 (unat (fb_w f)) (unat (fb_h f))"
  show M: "same_mode f (copy_rows f)" unfolding copy_rows_fold [OF assms(1)] by (rule same_mode_fold) simp
  note C = fold_copy_get [where n = "px_bytes f" and st = "\<lambda>p. px_start f (fst p) (snd p)" and ps = ?ps and f = f, folded copy_rows_fold [OF assms(1)]]
  have "(i, j) \<in> set ?ps" using assms(2) by (simp add: on_screen_def)
  then have "\<exists>p \<in> set ?ps. px_start f (fst p) (snd p) \<le> px_start f i j + k \<and> px_start f i j + k < px_start f (fst p) (snd p) + px_bytes f"
    using assms(3) by (intro bexI [of _ "(i, j)"]) simp_all
  then show "px_byte Shadow (copy_rows f) i j k = px_byte Shadow f i j k" "px_byte Front (copy_rows f) i j k = px_byte Shadow f i j k"
    using C by (simp_all add: px_byte_def mode_cong(2) [OF M])
qed

text \<open>The display is the shadow with the pointer, if it is on, drawn over it.\<close>

definition pointer_here :: "mouse \<Rightarrow> nat \<Rightarrow> nat \<Rightarrow> bool" where
  "pointer_here m i j \<longleftrightarrow> ptr_on m \<and> (int i, int j) \<in> set (cross (ptr_x m) (ptr_y m))"

definition display_ok :: "mouse \<Rightarrow> fb \<Rightarrow> bool" where
  "display_ok m f \<longleftrightarrow> (\<forall>i j k. on_screen f i j \<longrightarrow> k < px_bytes f \<longrightarrow>
     px_byte Front f i j k = px_byte Shadow f i j k XOR flip (pointer_here m i j \<and> k < 3))"

definition shadowed :: "fb \<Rightarrow> bool" where
  "shadowed f \<longleftrightarrow> mode_ok f \<and> fb_front f \<and> fb_mem f = Shadow \<and> fb_h f \<noteq> 0 \<and> uint (fb_w f) < 2 ^ 30 \<and> uint (fb_h f) < 2 ^ 30"

lemma shadowed_mode: "same_mode f g \<Longrightarrow> shadowed g = shadowed f"
  using mode_cong [of f g] by (simp add: shadowed_def)

definition mouse_ok :: "fb \<Rightarrow> mouse \<Rightarrow> bool" where
  "mouse_ok f m \<longleftrightarrow> max_x m = uint (fb_w f) \<and> max_y m = uint (fb_h f) \<and> 0 \<le> mx m \<and> mx m < max_x m \<and> 0 \<le> my m \<and> my m < max_y m \<and>
     (ptr_on m \<longrightarrow> ptr_x m < max_x m \<and> ptr_y m < max_y m) \<and> length (pkt m) = 3 \<and> pkt_i m < 3"

lemma mouse_ok_mode: "same_mode f g \<Longrightarrow> mouse_ok g m = mouse_ok f m"
  using mode_cong [of f g] by (simp add: mouse_ok_def)

lemma present_ok:
  assumes "shadowed f" "mouse_ok f m" "fb_present m f = (r, f')"
  shows "r" "same_mode f f'" "display_ok m f'"
proof -
  have S: "mode_ok f" "fb_front f" "fb_mem f = Shadow" "fb_w f \<noteq> 0" "fb_h f \<noteq> 0"
    using assms(1) by (auto simp: shadowed_def mode_ok_def unat_gt_0)
  then have r: "r" "f' = mouse_repaint m (copy_rows f)" using assms(3) by (simp_all add: fb_present_def)
  show r by (rule r(1))
  have M1: "same_mode f (copy_rows f)" unfolding copy_rows_fold [OF S(1)] by (rule same_mode_fold) simp
  show M: "same_mode f f'" using same_mode_trans [OF M1] by (simp add: r(2) mouse_repaint_def M1)
  note C = mode_cong [OF M1]
  have "px_byte Front f' i j k = px_byte Shadow f' i j k XOR flip (pointer_here m i j \<and> k < 3)"
    if on: "on_screen f i j" "k < px_bytes f" for i j k
  proof (cases "ptr_on m")
    case False
    then show ?thesis using copy_rows_byte [OF S(1) on] by (simp add: r(2) mouse_repaint_def pointer_here_def)
  next
    case True
    have b: "ptr_x m < 2 ^ 31 - 2" "ptr_y m < 2 ^ 31 - 2" using assms(1,2) True by (auto simp: shadowed_def mouse_ok_def)
    have "px_byte t f' i j k = px_byte t (copy_rows f) i j k XOR flip (t = Front \<and> (int i, int j) \<in> set (cross (ptr_x m) (ptr_y m)) \<and> k < 3)" for t
      using pointer_byte [OF _ _ b, of "copy_rows f" i j k t] True S on by (simp add: r(2) mouse_repaint_def C)
    then show ?thesis using copy_rows_byte [OF S(1) on] True by (simp add: pointer_here_def)
  qed
  then show "display_ok m f'" by (simp add: display_ok_def mode_cong [OF M])
qed

lemma clamp_ok:
  assumes "0 < max_x m" "0 < max_y m"
  shows "0 \<le> mx (clamp_pos m)" "mx (clamp_pos m) < max_x m" "0 \<le> my (clamp_pos m)" "my (clamp_pos m) < max_y m"
    "ptr_on (clamp_pos m) = ptr_on m" "ptr_x (clamp_pos m) = ptr_x m" "ptr_y (clamp_pos m) = ptr_y m" "max_x (clamp_pos m) = max_x m"
    "max_y (clamp_pos m) = max_y m" "pkt (clamp_pos m) = pkt m" "pkt_i (clamp_pos m) = pkt_i m" "left_down (clamp_pos m) = left_down m"
  using assms by (simp_all add: clamp_pos_def Let_def)

lemma clamp_mouse:
  assumes "max_x m = uint (fb_w f)" "max_y m = uint (fb_h f)" "0 < max_x m" "0 < max_y m"
    and "ptr_on m \<longrightarrow> ptr_x m < max_x m \<and> ptr_y m < max_y m" "length (pkt m) = 3" "pkt_i m < 3"
  shows "mouse_ok f (clamp_pos m)"
  using assms clamp_ok [OF assms(3,4)] by (simp add: mouse_ok_def)

lemma draw_text_mode [simp]: "same_mode f (draw_text_loop px y s f)"
proof (induction s arbitrary: px f)
  case (Cons c s)
  show ?case using same_mode_trans [OF same_mode_glyph(3) Cons.IH] by simp
qed simp

section \<open>Drawing on the shadow\<close>

text \<open>Drawing changes the shadow and the column of the prompt and nothing else.\<close>

definition draws :: "fb \<Rightarrow> fb \<Rightarrow> bool" where
  "draws f g \<longleftrightarrow> fb_front g = fb_front f \<and> fb_mem g = fb_mem f \<and> fb_w g = fb_w f \<and> fb_h g = fb_h f \<and> fb_pitch g = fb_pitch f \<and>
     fb_bpp g = fb_bpp f \<and> fb_phys g = fb_phys f \<and> front g = front f"

lemma draws_refl [simp]: "draws f f" by (simp add: draws_def)

lemma draws_trans: "draws f g \<Longrightarrow> draws g h \<Longrightarrow> draws f h" by (simp add: draws_def)

lemma draws_fields:
  assumes "draws f g"
  shows "fb_mem g = fb_mem f" "shadowed g = shadowed f" "mouse_ok g m = mouse_ok f m" "on_screen g = on_screen f" "px_bytes g = px_bytes f"
    "px_byte Front g = px_byte Front f"
  using assms by (simp_all add: draws_def shadowed_def mode_ok_def mouse_ok_def on_screen_def px_bytes_def px_byte_def px_start_def buf_get_def fun_eq_iff)

lemma draws_fold:
  assumes "\<And>x g. fb_mem g = Shadow \<Longrightarrow> draws g (step x g)" "fb_mem f = Shadow"
  shows "draws f (fold step xs f)"
  using assms(2)
proof (induction xs arbitrary: f)
  case (Cons x xs)
  have d: "draws f (step x f)" by (rule assms(1)) (rule Cons.prems)
  have "draws (step x f) (fold step xs (step x f))" by (rule Cons.IH) (simp add: draws_fields(1) [OF d] Cons.prems)
  then show ?case using draws_trans [OF d] by simp
qed simp

lemma draws_px: "fb_mem f = Shadow \<Longrightarrow> draws f (put_px (fb_mem f) n off color f)"
proof -
  assume "fb_mem f = Shadow"
  moreover have "draws f (fold (\<lambda>k. buf_put Shadow (off + k) (color_byte color k)) ks f)" for ks
  proof (induction ks arbitrary: f)
    case (Cons k ks)
    have "draws f (buf_put Shadow (off + k) (color_byte color k) f)" by (simp add: draws_def buf_put_def)
    then show ?case using draws_trans Cons by auto
  qed simp
  ultimately show ?thesis by (simp add: put_px_def)
qed

lemma draws_pixel: "fb_mem f = Shadow \<Longrightarrow> draws f (fb_pixel x y color f)"
  using draws_px by (simp add: fb_pixel_def)

lemma draws_cell: "fb_mem f = Shadow \<Longrightarrow> draws f (fb_overlay_cell x y c f)" "fb_mem f = Shadow \<Longrightarrow> draws f (fb_glyph_1x x y c f)"
proof -
  have p: "draws g (scaled_pixel sc x y gx gy color g)" if "fb_mem g = Shadow" for sc x y gx gy color g
    unfolding scaled_pixel_def by (intro draws_fold draws_pixel that)
  have "draws g (cell_glyph sc x y c g)" if "fb_mem g = Shadow" for sc x y c g
    unfolding cell_glyph_def by (intro draws_fold p that)
  then show "fb_mem f = Shadow \<Longrightarrow> draws f (fb_overlay_cell x y c f)" "fb_mem f = Shadow \<Longrightarrow> draws f (fb_glyph_1x x y c f)"
    by (simp_all add: fb_overlay_cell_def fb_glyph_1x_def)
qed

lemma draws_col [simp]: "draws f (f\<lparr>overlay_col := c\<rparr>)" by (simp add: draws_def)

lemma draws_clear: "fb_mem f = Shadow \<Longrightarrow> draws f (clear_cells col y f)"
proof (induction col y f rule: clear_cells.induct)
  case (1 col y f)
  note c = draws_cell(1) [OF "1.prems", of "col * fb_prompt_cell" y "CHR '' ''"]
  show ?case using 1 draws_trans [OF c] draws_fields(1) [OF c] by (subst clear_cells.simps) (simp add: Let_def)
qed

lemma draws_clear_from: "fb_mem f = Shadow \<Longrightarrow> draws f (fb_overlay_clear_from col f)"
  by (simp add: fb_overlay_clear_from_def Let_def draws_clear)

lemma draws_cells: "fb_mem f = Shadow \<Longrightarrow> draw_cells y col cs f = (r, g) \<Longrightarrow> draws f g"
proof (induction y col cs f rule: draw_cells.induct)
  case (2 y col c cs f)
  note d = draws_cell(1) [OF "2.prems"(1), of "col * fb_prompt_cell" y c]
  show ?case using 2 draws_trans [OF d] draws_fields(1) [OF d] by (simp add: Let_def split: if_splits)
qed simp

lemma draws_text: "fb_mem f = Shadow \<Longrightarrow> draws f (draw_text_loop px y s f)"
proof (induction px y s f rule: draw_text_loop.induct)
  case (2 px y c cs f)
  note d = draws_cell(1) [OF "2.prems"(1), of px y c]
  show ?case using 2 draws_trans [OF d] draws_fields(1) [OF d] by simp
qed simp

lemma draws_ops:
  assumes "fb_mem f = Shadow"
  shows "draws f (snd (fb_fill_rect x y w h color f))" "draws f (fb_vga_blit v f)" "draws f (fb_overlay_putc c f)" "draws f (fb_prompt_line p l f)"
proof -
  have "draws f (fill_area a b a1 b1 color f)" for a b a1 b1
    unfolding fill_area_def fill_words_def fill_pixels_def using assms by (auto intro!: draws_fold draws_px draws_pixel)
  then show "draws f (snd (fb_fill_rect x y w h color f))" by (simp add: fb_fill_rect_def Let_def)
  show "draws f (fb_vga_blit v f)"
    unfolding fb_vga_blit_def Let_def using assms by (auto intro!: draws_fold draws_cell)
  have col: "draws f (f\<lparr>overlay_col := c\<rparr>)" "fb_mem (f\<lparr>overlay_col := c\<rparr>) = Shadow" for c using assms by simp_all
  have "draws f (fb_overlay_clear_from 0 (f\<lparr>overlay_col := 0\<rparr>))" by (rule draws_trans [OF col(1) draws_clear_from [OF col(2)]])
  moreover have "draws f (fb_overlay_cell x y d (f\<lparr>overlay_col := c\<rparr>))" for x y d c by (rule draws_trans [OF col(1) draws_cell(1) [OF col(2)]])
  moreover have "draws f ((fb_overlay_cell x y d f)\<lparr>overlay_col := c\<rparr>)" for x y d c by (rule draws_trans [OF draws_cell(1) [OF assms] draws_col])
  ultimately show "draws f (fb_overlay_putc c f)" by (simp add: fb_overlay_putc_def Let_def)
  show "draws f (fb_prompt_line p l f)"
  proof -
    let ?y = "fb_overlay_y f" and ?f1 = "fb_overlay_clear_from 0 f"
    obtain dn col g where c: "draw_cells ?y 0 (case p of None \<Rightarrow> [] | Some p \<Rightarrow> p) ?f1 = ((dn, col), g)" by (metis prod.exhaust)
    have d1: "draws f ?f1" using assms by (rule draws_clear_from)
    have d2: "draws ?f1 g" by (rule draws_cells [OF _ c]) (simp add: draws_fields(1) [OF d1] assms)
    have d: "draws f g" using draws_trans [OF d1 d2] .
    have m: "fb_mem g = Shadow" by (simp add: draws_fields(1) [OF d] assms)
    have "draws f (g'\<lparr>overlay_col := col'\<rparr>)" if "draw_cells ?y col b g = (q, g')" for b q col' g'
      using draws_trans [OF draws_trans [OF d draws_cells [OF m that]] draws_col] .
    then show ?thesis using draws_trans [OF d draws_col] by (auto simp: fb_prompt_line_def Let_def c split: option.splits prod.splits)
  qed
qed

section \<open>The picture on the display\<close>

text \<open>The display shows a picture when it is the picture with the pointer, if it is on, drawn over it.\<close>

definition shows_pic :: "(nat \<Rightarrow> nat \<Rightarrow> nat \<Rightarrow> u8) \<Rightarrow> mouse \<Rightarrow> fb \<Rightarrow> bool" where
  "shows_pic pic m f \<longleftrightarrow> (\<forall>i j k. on_screen f i j \<longrightarrow> k < px_bytes f \<longrightarrow>
     px_byte Front f i j k = pic i j k XOR flip (pointer_here m i j \<and> k < 3))"

lemma shows_pic_mouse: "ptr_on n = ptr_on m \<Longrightarrow> ptr_x n = ptr_x m \<Longrightarrow> ptr_y n = ptr_y m \<Longrightarrow> shows_pic pic n f = shows_pic pic m f"
  by (simp add: shows_pic_def pointer_here_def)

lemma shows_pic_draws: "draws f g \<Longrightarrow> shows_pic pic m g = shows_pic pic m f"
  by (simp add: shows_pic_def draws_fields)

lemma present_shows:
  assumes "shadowed f" "mouse_ok f m" "fb_present m f = (r, f')"
  shows "r" "same_mode f f'" "shows_pic (px_byte Shadow f') m f'"
  using present_ok [OF assms] by (simp_all add: shows_pic_def display_ok_def)

lemma move_shows:
  assumes "shadowed f" "mouse_ok f m" "shows_pic pic m f" "move_pointer m f = (m', f')"
  shows "same_mode f f'" "mouse_ok f' m'" "shows_pic pic m' f'" "pkt m' = pkt m" "left_down m' = left_down m" "pkt_i m' = pkt_i m"
proof -
  let ?f1 = "if ptr_on m then fb_pointer (ptr_x m) (ptr_y m) f else f"
  have r: "f' = fb_pointer (mx m) (my m) ?f1" "m' = m\<lparr>ptr_x := mx m, ptr_y := my m, ptr_on := True\<rparr>"
    using assms(4) by (auto simp: move_pointer_def Let_def)
  have M1: "same_mode f ?f1" by simp
  then show M: "same_mode f f'" unfolding r(1) using same_mode_trans pointer_mode by blast
  have ok: "mouse_ok f m'" using assms(2) by (simp add: mouse_ok_def r(2))
  then show "mouse_ok f' m'" by (simp add: mouse_ok_mode [OF M])
  show "pkt m' = pkt m" "left_down m' = left_down m" "pkt_i m' = pkt_i m" by (simp_all add: r(2))
  note C = mode_cong [OF M1]
  have S: "mode_ok f" "fb_front f" using assms(1) by (simp_all add: shadowed_def)
  have b: "mx m < 2 ^ 31 - 2" "my m < 2 ^ 31 - 2" using assms(1,2) by (auto simp: shadowed_def mouse_ok_def)
  have b0: "ptr_x m < 2 ^ 31 - 2" "ptr_y m < 2 ^ 31 - 2" if "ptr_on m" using assms(1,2) that by (auto simp: shadowed_def mouse_ok_def)
  have "px_byte Front f' i j k = pic i j k XOR flip (pointer_here m' i j \<and> k < 3)"
    if on: "on_screen f i j" "k < px_bytes f" for i j k
  proof -
    have p2: "px_byte Front f' i j k = px_byte Front ?f1 i j k XOR flip ((int i, int j) \<in> set (cross (mx m) (my m)) \<and> k < 3)"
      unfolding r(1) using pointer_byte [OF _ _ b, of ?f1 i j k Front] S on by (simp add: C)
    have p1: "px_byte Front ?f1 i j k = px_byte Front f i j k XOR flip (pointer_here m i j \<and> k < 3)"
      using pointer_byte [OF S b0 on, of Front] by (auto simp: pointer_here_def)
    have d: "px_byte Front f i j k = pic i j k XOR flip (pointer_here m i j \<and> k < 3)" using assms(3) on by (simp add: shows_pic_def)
    have "pointer_here m' i j \<longleftrightarrow> (int i, int j) \<in> set (cross (mx m) (my m))" by (simp add: pointer_here_def r(2))
    then show ?thesis using p2 p1 d by (simp add: xor.assoc)
  qed
  then show "shows_pic pic m' f'" by (simp add: shows_pic_def mode_cong [OF M])
qed

lemma draw_text_shows:
  assumes "shadowed f" "mouse_ok f m" "0 \<le> y"
  shows "same_mode f (fb_draw_text x y s m f)" "shows_pic (px_byte Shadow (fb_draw_text x y s m f)) m (fb_draw_text x y s m f)"
proof -
  let ?g = "draw_text_loop x y s f"
  obtain r f' where p: "fb_present m ?g = (r, f')" by fastforce
  have M: "same_mode f ?g" by simp
  have P: "same_mode ?g f'" "shows_pic (px_byte Shadow f') m f'"
    using present_shows [OF _ _ p] assms(1,2) by (simp_all add: shadowed_mode [OF M] mouse_ok_mode [OF M])
  have "fb_draw_text x y s m f = f'" using p assms(1,3) by (simp add: fb_draw_text_def shadowed_def)
  then show "same_mode f (fb_draw_text x y s m f)" "shows_pic (px_byte Shadow (fb_draw_text x y s m f)) m (fb_draw_text x y s m f)"
    using P same_mode_trans [OF M P(1)] by simp_all
qed

text \<open>The byte that completes the packet of a new click writes its position on the screen.\<close>

definition click_byte :: "mouse \<Rightarrow> bool" where
  "click_byte m \<longleftrightarrow> pkt_i m = 2 \<and> pkt m ! 0 AND MOUSE_OVERFLOW = 0 \<and> pkt m ! 0 AND MOUSE_LEFT \<noteq> 0 \<and> \<not> left_down m"

lemma mouse_byte_shows:
  assumes "shadowed f" "mouse_ok f m" "shows_pic pic m f" "mouse_on_byte data (v, m, f) = (v', m', f')"
  shows "same_mode f f' \<and> mouse_ok f' m' \<and> shows_pic (if click_byte m then px_byte Shadow f' else pic) m' f'"
proof -
  let ?m1 = "m\<lparr>pkt := (pkt m)[pkt_i m := data], pkt_i := pkt_i m + 1\<rparr>"
  let ?m2 = "?m1\<lparr>pkt_i := 0\<rparr>"
  let ?m3 = "clamp_pos (?m2\<lparr>mx := mx ?m2 + sint (pkt ?m2 ! 1), my := my ?m2 - sint (pkt ?m2 ! 2)\<rparr>)"
  have same: "shows_pic pic n f" if "ptr_on n = ptr_on m" "ptr_x n = ptr_x m" "ptr_y n = ptr_y m" for n
    using assms(3) shows_pic_mouse [OF that] by simp
  have pos: "0 < max_x m" "0 < max_y m" "pkt_i m < 3" using assms(2) by (auto simp: mouse_ok_def)
  consider (skip) "pkt_i m = 0 \<and> data AND MOUSE_ALWAYS1 = 0" | (part) "\<not> (pkt_i m = 0 \<and> data AND MOUSE_ALWAYS1 = 0)" "pkt_i ?m1 < MOUSE_PKT"
    | (over) "\<not> (pkt_i m = 0 \<and> data AND MOUSE_ALWAYS1 = 0)" "\<not> pkt_i ?m1 < MOUSE_PKT" "pkt ?m2 ! 0 AND MOUSE_OVERFLOW \<noteq> 0"
    | (move) "\<not> (pkt_i m = 0 \<and> data AND MOUSE_ALWAYS1 = 0)" "\<not> pkt_i ?m1 < MOUSE_PKT" "pkt ?m2 ! 0 AND MOUSE_OVERFLOW = 0" by blast
  then show ?thesis
  proof cases
    case skip
    then show ?thesis using assms by (simp add: mouse_on_byte_def click_byte_def)
  next
    case part
    then have "m' = ?m1 \<and> f' = f" using assms(4) unfolding mouse_on_byte_def prod.case if_not_P [OF part(1)] Let_def if_P [OF part(2)] by simp
    then show ?thesis using part(2) assms(2) same by (auto simp: mouse_ok_def MOUSE_PKT_def click_byte_def)
  next
    case over
    then have "m' = ?m2 \<and> f' = f"
      using assms(4) unfolding mouse_on_byte_def prod.case if_not_P [OF over(1)] Let_def if_not_P [OF over(2)] if_P [OF over(3)] by simp
    moreover have "\<not> click_byte m" using over(2,3) pos by (auto simp: click_byte_def MOUSE_PKT_def)
    ultimately show ?thesis using assms(2) same by (auto simp: mouse_ok_def)
  next
    case move
    obtain m4 f4 where mv: "move_pointer ?m3 f = (m4, f4)" by fastforce
    let ?left = "pkt m4 ! 0 AND MOUSE_LEFT \<noteq> 0"
    obtain v5 f5 where pc: "(if ?left \<and> \<not> left_down m4 then print_click m4 (v, f4) else (v, f4)) = (v5, f5)" by fastforce
    have res: "m' = m4\<lparr>left_down := ?left\<rparr>" "f' = f5" 
      using assms(4) move(3) mv pc unfolding mouse_on_byte_def prod.case if_not_P [OF move(1)] Let_def if_not_P [OF move(2)] by simp_all
    have ok3: "mouse_ok f ?m3" by (rule clamp_mouse) (use assms(2) in \<open>auto simp: mouse_ok_def\<close>)
    have sh3: "shows_pic pic ?m3 f" by (rule same) (use pos in \<open>simp_all add: clamp_ok\<close>)
    note V = move_shows [OF assms(1) ok3 sh3 mv]
    have i2: "pkt_i m = 2" using move(2) pos by (simp add: MOUSE_PKT_def)
    have click: "click_byte m \<longleftrightarrow> ?left \<and> \<not> left_down m4" using move(3) pos by (simp add: click_byte_def i2 V clamp_ok)
    have sh: "shadowed f4" using assms(1) by (simp add: shadowed_mode [OF V(1)])
    have F5: "same_mode f4 f5" "shows_pic (if click_byte m then px_byte Shadow f5 else pic) m4 f5"
      unfolding click using pc draw_text_shows [OF sh V(2), of 8 8 "click_text m4"] V(3) by (auto simp: print_click_def split: if_splits)
    have "mouse_ok f5 m4" using V(2) by (simp add: mouse_ok_mode [OF F5(1)])
    then have "mouse_ok f' m'" by (auto simp: res mouse_ok_def)
    moreover have "shows_pic (if click_byte m then px_byte Shadow f' else pic) m' f'"
      using F5(2) shows_pic_mouse [of m' m4] by (simp add: res split: if_splits)
    ultimately show ?thesis using same_mode_trans [OF V(1) F5(1)] by (simp add: res)
  qed
qed

text \<open>What changes the frame buffer after boot, and the picture that was put on the display last.\<close>

datatype screen_op = Mouse_Byte u8 | Present | Draw_Text int int string
  | Fill_Rect u32 u32 u32 u32 u32 | Overlay_Putc char | Prompt_Line "string option" "string option" | Vga_Blit

fun screen_step :: "screen_op \<Rightarrow> vga \<times> mouse \<times> fb \<Rightarrow> vga \<times> mouse \<times> fb" where
  "screen_step (Mouse_Byte b) s = mouse_on_byte b s"
| "screen_step Present (v, m, f) = (v, m, snd (fb_present m f))"
| "screen_step (Draw_Text x y t) (v, m, f) = (v, m, fb_draw_text x y t m f)"
| "screen_step (Fill_Rect x y w h color) (v, m, f) = (v, m, snd (fb_fill_rect x y w h color f))"
| "screen_step (Overlay_Putc c) (v, m, f) = (v, m, fb_overlay_putc c f)"
| "screen_step (Prompt_Line p l) (v, m, f) = (v, m, fb_prompt_line p l f)"
| "screen_step Vga_Blit (v, m, f) = (v, m, fb_vga_blit v f)"

fun presents :: "screen_op \<Rightarrow> mouse \<Rightarrow> bool" where
  "presents (Mouse_Byte b) m = click_byte m"
| "presents Present m = True"
| "presents (Draw_Text x y t) m = (0 \<le> y)"
| "presents _ m = False"

fun screen_run :: "screen_op list \<Rightarrow> vga \<times> mouse \<times> fb \<Rightarrow> (nat \<Rightarrow> nat \<Rightarrow> nat \<Rightarrow> u8) \<Rightarrow> (vga \<times> mouse \<times> fb) \<times> (nat \<Rightarrow> nat \<Rightarrow> nat \<Rightarrow> u8)" where
  "screen_run [] s pic = (s, pic)"
| "screen_run (op # ops) (v, m, f) pic =
     (case screen_step op (v, m, f) of (v', m', f') \<Rightarrow>
       screen_run ops (v', m', f') (if presents op m then px_byte Shadow f' else pic))"

lemma screen_step_shows:
  assumes "shadowed f" "mouse_ok f m" "shows_pic pic m f" "screen_step op (v, m, f) = (v', m', f')"
  shows "shadowed f' \<and> mouse_ok f' m' \<and> on_screen f' = on_screen f \<and> px_bytes f' = px_bytes f \<and> shows_pic (if presents op m then px_byte Shadow f' else pic) m' f'"
proof -
  have S: "fb_mem f = Shadow" using assms(1) by (simp add: shadowed_def)
  have dr: ?thesis if "draws f f'" "m' = m" "\<not> presents op m" using that assms(1-3) by (simp add: draws_fields [OF that(1)] shows_pic_draws [OF that(1)])
  have md: ?thesis if "same_mode f f'" "m' = m" "presents op m" "shows_pic (px_byte Shadow f') m f'"
    using that assms(1,2) by (simp add: shadowed_mode mouse_ok_mode mode_cong [OF that(1)])
  show ?thesis
  proof (cases op)
    case (Mouse_Byte b)
    then show ?thesis using mouse_byte_shows [OF assms(1-3), of b v v' m' f'] assms(1,4) by (auto simp: shadowed_mode mode_cong)
  next
    case Present
    then show ?thesis using md present_shows [OF assms(1,2)] assms(4) by (metis prod.inject presents.simps(2) prod.collapse screen_step.simps(2))
  next
    case (Draw_Text x y t)
    show ?thesis
    proof (cases "0 \<le> y")
      case True
      have e: "f' = fb_draw_text x y t m f" "m' = m" using Draw_Text assms(4) by auto
      show ?thesis by (rule md) (use e True Draw_Text draw_text_shows [OF assms(1,2) True, of x t] in simp_all)
    next
      case False
      then show ?thesis using Draw_Text assms by (simp add: fb_draw_text_def)
    qed
  qed (use dr draws_ops [OF S] assms(4) in auto)
qed

lemma screen_run_shows:
  assumes "shadowed f" "mouse_ok f m" "shows_pic pic m f" "screen_run ops (v, m, f) pic = ((v', m', f'), pic')"
  shows "mouse_ok f' m' \<and> on_screen f' = on_screen f \<and> px_bytes f' = px_bytes f \<and> shows_pic pic' m' f'"
  using assms
proof (induction ops arbitrary: v m f pic)
  case (Cons op ops)
  obtain v2 m2 f2 where s: "screen_step op (v, m, f) = (v2, m2, f2)" by (metis prod.exhaust)
  note B = screen_step_shows [OF Cons.prems(1-3) s]
  have "mouse_ok f' m' \<and> on_screen f' = on_screen f2 \<and> px_bytes f' = px_bytes f2 \<and> shows_pic pic' m' f'"
    by (rule Cons.IH [of f2 m2 "if presents op m then px_byte Shadow f2 else pic" v2]) (use B Cons.prems(4) s in simp_all)
  then show ?case using B by simp
qed simp

text \<open>
  C38. The pointer leaves no trace. With a shadow buffer, from a first present on, whatever drawing on
  the shadow, presents, texts and bytes from the mouse follow, in any order, the display shows the picture
  that was last presented (the shadow at that moment, not what was drawn on it since) with exactly the
  nine pixels of the pointer, where it is now, inverted; the pointer stays on the screen, and the packet
  buffer within its bounds.
\<close>

theorem pointer_leaves_no_trace:
  assumes "shadowed f" "mouse_ok f m" "fb_present m f = (r, f1)" "screen_run ops (v, m, f1) (px_byte Shadow f1) = ((v', m', f'), pic)"
  shows "r \<and> mouse_ok f' m' \<and> on_screen f' = on_screen f \<and> px_bytes f' = px_bytes f \<and> (\<forall>i j k. on_screen f' i j \<longrightarrow> k < px_bytes f' \<longrightarrow>
    px_byte Front f' i j k = pic i j k XOR flip (pointer_here m' i j \<and> k < 3))"
proof -
  note P = present_shows [OF assms(1-3)]
  have "shadowed f1" "mouse_ok f1 m" using assms(1,2) by (simp_all add: shadowed_mode [OF P(2)] mouse_ok_mode [OF P(2)])
  then have "mouse_ok f' m' \<and> on_screen f' = on_screen f1 \<and> px_bytes f' = px_bytes f1 \<and> shows_pic pic m' f'"
    using P(3) assms(4) by (rule screen_run_shows)
  then show ?thesis using P(1) by (simp add: shows_pic_def mode_cong [OF P(2)])
qed

definition mouse_demo :: mouse where
  "mouse_demo = \<lparr>mx = 160, my = 100, max_x = 320, max_y = 200, ptr_x = 160, ptr_y = 100, ptr_on = True, left_down = False, pkt = [0, 0, 0], pkt_i = 0\<rparr>"

definition screen_demo :: "screen_op list" where
  "screen_demo = [Fill_Rect 300 10 20 2 0x00FF8040, Mouse_Byte 8, Mouse_Byte 5, Mouse_Byte 251, Prompt_Line (Some ''$'') None, Present, Overlay_Putc CHR ''x'',
     Mouse_Byte 9, Mouse_Byte 10, Mouse_Byte 0]"

theorem pointer_leaves_no_trace_witness:
  "\<exists>v' m' f' pic. screen_run screen_demo (\<lparr>cells = [], text_mem = [], cursor_row = 0, cursor_col = 0, serial_out = [], vga_oob = False\<rparr>,
     mouse_demo, snd (fb_present mouse_demo fb_demo)) (px_byte Shadow (snd (fb_present mouse_demo fb_demo))) = ((v', m', f'), pic) \<and>
     px_byte Front f' 175 105 0 = pic 175 105 0 XOR 0xFF \<and> px_byte Front f' 165 105 0 = pic 165 105 0 \<and> px_byte Front f' 160 100 0 = pic 160 100 0"
proof -
  let ?v = "\<lparr>cells = [], text_mem = [], cursor_row = 0, cursor_col = 0, serial_out = [], vga_oob = False\<rparr>"
  obtain r f1 where p: "fb_present mouse_demo fb_demo = (r, f1)" by fastforce
  obtain v' m' f' pic where run: "screen_run screen_demo (?v, mouse_demo, f1) (px_byte Shadow f1) = ((v', m', f'), pic)" by (metis prod.exhaust)
  have sh: "shadowed fb_demo" using fb_demo_ok by (simp add: shadowed_def fb_demo_def)
  have ok: "mouse_ok fb_demo mouse_demo" by (simp add: mouse_ok_def mouse_demo_def fb_demo_def)
  note T = pointer_leaves_no_trace [OF sh ok p run]
  have m': "ptr_on m'" "ptr_x m' = 175" "ptr_y m' = 105"
    using run by (auto simp: screen_demo_def mouse_demo_def mouse_on_byte_def move_pointer_def clamp_pos_def Let_def print_click_def
      MOUSE_ALWAYS1_def MOUSE_PKT_def MOUSE_OVERFLOW_def MOUSE_LEFT_def)
  have g: "on_screen fb_demo i j \<longleftrightarrow> i < 320 \<and> j < 200" "px_bytes fb_demo = 4" for i j by (simp_all add: fb_demo_def on_screen_def px_bytes_def)
  have "px_byte Front f' i j 0 = pic i j 0 XOR flip ((int i, int j) \<in> set (cross 175 105))" if "i < 320" "j < 200" for i j
    using T that by (simp add: g pointer_here_def m')
  then show ?thesis using run p by (simp add: cross_def flip_def)
qed

text \<open>Without a shadow, presenting inverts the pointer where it is drawn already, and so removes it.\<close>

lemma present_without_shadow:
  assumes "mode_ok f" "fb_front f" "fb_mem f = Front" "fb_h f \<noteq> 0" "ptr_on m" "ptr_x m < 2 ^ 31 - 2" "ptr_y m < 2 ^ 31 - 2" "on_screen f i j" "k < px_bytes f"
  shows "px_byte Front (snd (fb_present m (fb_pointer (ptr_x m) (ptr_y m) f))) i j k = px_byte Front f i j k"
proof -
  let ?g = "fb_pointer (ptr_x m) (ptr_y m) f"
  note M = mode_cong [OF pointer_mode [of f "ptr_x m" "ptr_y m"]]
  have "fb_w f \<noteq> 0" using assms(1) by (auto simp: mode_ok_def unat_gt_0)
  then have "snd (fb_present m ?g) = fb_pointer (ptr_x m) (ptr_y m) ?g" using assms(2-5) by (simp add: fb_present_def mouse_repaint_def M)
  then show ?thesis using pointer_byte [OF assms(1,2,6-9), of Front] pointer_byte [of ?g "ptr_x m" "ptr_y m" i j k Front] assms
    by (simp add: M xor.assoc)
qed

end
