(* ===== verification/Rtc.thy ===== *)
theory Rtc
  imports Prelude
begin

text \<open>
  The wall clock: \<open>kernel/rtc.c\<close>. A snapshot of the CMOS clock is taken once; the time is the
  snapshot plus the seconds the timer has counted since. The chip is the argument \<open>cmos\<close>: the
  value that its \<open>n\<close>-th read, of a given register, returns. The fields of a date are the words of
  the source, in a tuple of year, month, day, hour, minute, second.
\<close>

section \<open>The code\<close>

definition CMOS_UIP :: u8 where "CMOS_UIP = 0x80"
definition CMOS_BIN :: u8 where "CMOS_BIN = 0x04"
definition CMOS_24H :: u8 where "CMOS_24H = 0x02"
definition CMOS_HOUR_PM :: u8 where "CMOS_HOUR_PM = 0x80"
definition PIT_HZ :: u32 where "PIT_HZ = 100"

type_synonym date = "u32 \<times> u32 \<times> u32 \<times> u32 \<times> u32 \<times> u32"

record rtc =
  snap :: date
  snap_ticks :: u32
  have_snap :: bool

definition from_bcd :: "u32 \<Rightarrow> u32" where
  "from_bcd v = (v AND 0x0F) + 10 * (drop_bit 4 v AND 0x0F)"

definition digit_at :: "u32 \<Rightarrow> u32 \<Rightarrow> char" where
  "digit_at v p = char_of (48 + unat ((v div p) mod 10))"

definition put2 :: "u32 \<Rightarrow> string" where
  "put2 v = [digit_at v 10, digit_at v 1]"

definition month_days :: "u32 \<Rightarrow> u32 \<Rightarrow> u32" where
  "month_days y m =
     (if m = 2 then if y mod 4 = 0 \<and> (y mod 100 \<noteq> 0 \<or> y mod 400 = 0) then 29 else 28
      else if m = 4 \<or> m = 6 \<or> m = 9 \<or> m = 11 then 30 else 31)"

function carry_days :: "u32 \<Rightarrow> u32 \<Rightarrow> u32 \<Rightarrow> u32 \<times> u32 \<times> u32" where
  "carry_days y mon day =
     (let dim = month_days y mon in
      if day \<le> dim then (y, mon, day)
      else let mon' = mon + 1 in
        if mon' > 12 then carry_days (y + 1) 1 (day - dim) else carry_days y mon' (day - dim))"
  by pat_completeness auto
termination
proof (relation "measure (\<lambda>(y, mon, day). unat day)")
  have less: "unat (day - month_days y mon) < unat day" if "\<not> day \<le> month_days y mon" for y mon day
  proof -
    have "month_days y mon \<noteq> 0" by (simp add: month_days_def)
    then have "0 < unat (month_days y mon)" by (simp add: unat_gt_0)
    moreover have "unat (day - month_days y mon) = unat day - unat (month_days y mon)" using that by (intro unat_sub_le) simp
    moreover have "unat (month_days y mon) < unat day" using that by (simp add: word_le_nat_alt)
    ultimately show ?thesis by simp
  qed
  show "((y + 1, 1, day - x), y, mon, day) \<in> measure (\<lambda>(y, mon, day). unat day)"
    if "x = month_days y mon" "\<not> day \<le> x" for y mon day x using less that by simp
  show "((y, m, day - x), y, mon, day) \<in> measure (\<lambda>(y, mon, day). unat day)"
    if "x = month_days y mon" "\<not> day \<le> x" for y mon day x m using less that by simp
qed simp

declare carry_days.simps [simp del]

definition add_seconds :: "date \<Rightarrow> u32 \<Rightarrow> date" where
  "add_seconds d add =
     (case d of (y, mon, day, h, mi, sec) \<Rightarrow>
      let t0 = sec + add; t1 = mi + t0 div 60; t2 = h + t1 div 60
      in case carry_days y mon (day + t2 div 24) of
           (y', mon', day') \<Rightarrow> (y', mon', day', t2 mod 24, t1 mod 60, t0 mod 60))"

text \<open>The bytes of one pass over the registers: second, minute, hour, day, month, year, century, status B.\<close>

type_synonym regs8 = "u8 \<times> u8 \<times> u8 \<times> u8 \<times> u8 \<times> u8 \<times> u8 \<times> u8"

partial_function (option) wait_uip :: "(nat \<Rightarrow> u8 \<Rightarrow> u8) \<Rightarrow> nat \<Rightarrow> nat option" where
  "wait_uip cmos n = (if cmos n 0x0A AND CMOS_UIP \<noteq> 0 then wait_uip cmos (Suc n) else Some (Suc n))"

fun read_cmos :: "(nat \<Rightarrow> u8 \<Rightarrow> u8) \<Rightarrow> nat \<Rightarrow> nat \<Rightarrow> (regs8 \<times> nat) option" where
  "read_cmos cmos n tries =
     (case wait_uip cmos n of None \<Rightarrow> None
      | Some m \<Rightarrow>
          let r = (cmos m 0x00, cmos (m + 1) 0x02, cmos (m + 2) 0x04, cmos (m + 3) 0x07, cmos (m + 4) 0x08,
                   cmos (m + 5) 0x09, cmos (m + 6) 0x32, cmos (m + 7) 0x0B);
              sec2 = cmos (m + 8) 0x00
          in if sec2 \<noteq> cmos m 0x00 \<and> 1 < tries then read_cmos cmos (m + 9) (tries - 1) else Some (r, m + 9))"

definition decode_cmos :: "regs8 \<Rightarrow> date" where
  "decode_cmos r =
     (case r of (sec, mi, hour0, day, mon, year, cent, stb) \<Rightarrow>
      let pm = (stb AND CMOS_24H = 0 \<and> hour0 AND CMOS_HOUR_PM \<noteq> 0);
          hour = (if stb AND CMOS_24H = 0 then hour0 AND 0x7F else hour0);
          cv = (\<lambda>b. if stb AND CMOS_BIN = 0 then ucast (ucast (from_bcd (ucast b)) :: u8) else ucast b :: u32);
          h0 = cv hour;
          h = (if stb AND CMOS_24H = 0
               then if h0 = 12 then (if pm then 12 else 0) else if pm then h0 + 12 else h0
               else h0);
          c0 = cv cent; c = (if c0 < 19 \<or> c0 > 99 then 20 else c0)
      in (cv year + c * 100, cv mon, cv day, h, cv mi, cv sec))"

definition latch_cmos :: "(nat \<Rightarrow> u8 \<Rightarrow> u8) \<Rightarrow> nat \<Rightarrow> u32 \<Rightarrow> rtc \<Rightarrow> (rtc \<times> nat) option" where
  "latch_cmos cmos n ticks s =
     (case read_cmos cmos n 4 of None \<Rightarrow> None
      | Some (r, n') \<Rightarrow> Some (s\<lparr>snap := decode_cmos r, snap_ticks := ticks, have_snap := True\<rparr>, n'))"

definition rtc_init :: "(nat \<Rightarrow> u8 \<Rightarrow> u8) \<Rightarrow> nat \<Rightarrow> u32 \<Rightarrow> rtc \<Rightarrow> (rtc \<times> nat) option" where
  "rtc_init cmos n ticks s = (if have_snap s then Some (s, n) else latch_cmos cmos n ticks s)"

definition date_text :: "date \<Rightarrow> string" where
  "date_text d =
     (case d of (y, mon, day, h, mi, sec) \<Rightarrow>
      [digit_at y 1000, digit_at y 100, digit_at y 10, digit_at y 1, CHR ''-''] @ put2 mon @ ''-'' @ put2 day @ '' '' @
      put2 h @ '':'' @ put2 mi @ '':'' @ put2 sec)"

definition rtc_format :: "(nat \<Rightarrow> u8 \<Rightarrow> u8) \<Rightarrow> nat \<Rightarrow> u32 \<Rightarrow> rtc \<Rightarrow> (string \<times> rtc \<times> nat) option" where
  "rtc_format cmos n ticks s =
     (case rtc_init cmos n ticks s of None \<Rightarrow> None
      | Some (s1, n1) \<Rightarrow> Some (date_text (add_seconds (snap s1) ((ticks - snap_ticks s1) div PIT_HZ)), s1, n1))"

declare read_cmos.simps [simp del]

section \<open>The calendar\<close>

definition leap :: "nat \<Rightarrow> bool" where
  "leap y \<longleftrightarrow> y mod 4 = 0 \<and> (y mod 100 \<noteq> 0 \<or> y mod 400 = 0)"

definition month_len :: "nat \<Rightarrow> nat \<Rightarrow> nat" where
  "month_len y m = (if m = 2 then if leap y then 29 else 28 else if m \<in> {4, 6, 9, 11} then 30 else 31)"

definition year_len :: "nat \<Rightarrow> nat" where
  "year_len y = (if leap y then 366 else 365)"

text \<open>Days and seconds since the beginning of the year 0.\<close>

definition day_number :: "nat \<Rightarrow> nat \<Rightarrow> nat \<Rightarrow> nat" where
  "day_number y m d = (\<Sum>i < y. year_len i) + (\<Sum>i = 1..<m. month_len y i) + d"

definition second_number :: "date \<Rightarrow> nat" where
  "second_number d = (case d of (y, mon, day, h, mi, sec) \<Rightarrow>
     ((day_number (unat y) (unat mon) (unat day) * 24 + unat h) * 60 + unat mi) * 60 + unat sec)"

definition valid_date :: "date \<Rightarrow> bool" where
  "valid_date d \<longleftrightarrow> (case d of (y, mon, day, h, mi, sec) \<Rightarrow>
     1 \<le> mon \<and> mon \<le> 12 \<and> 1 \<le> day \<and> day \<le> month_days y mon \<and> h < 24 \<and> mi < 60 \<and> sec < 60)"

lemma unat_month_days: "unat (month_days y m) = month_len (unat y) (unat m)"
proof -
  have e: "m = of_nat k \<longleftrightarrow> unat m = k" if "k < 2 ^ 32" for k
    using that by (auto simp: unat_of_nat)
  have m: "m = 2 \<longleftrightarrow> unat m = 2" "m = 4 \<longleftrightarrow> unat m = 4" "m = 6 \<longleftrightarrow> unat m = 6" "m = 9 \<longleftrightarrow> unat m = 9" "m = 11 \<longleftrightarrow> unat m = 11"
    using e [of 2] e [of 4] e [of 6] e [of 9] e [of 11] by simp_all
  have z: "y mod k = 0 \<longleftrightarrow> unat y mod unat k = 0" for k :: u32 by (metis unat_mod unsigned_eq_0_iff)
  have "y mod 4 = 0 \<and> (y mod 100 \<noteq> 0 \<or> y mod 400 = 0) \<longleftrightarrow> leap (unat y)" unfolding leap_def z by simp
  then show ?thesis unfolding month_days_def month_len_def m by simp
qed

lemma year_months: "(\<Sum>i = 1..<13. month_len y i) = year_len y"
proof -
  have "{1..<13} = set [1..<13 :: nat]" by (rule set_upt [symmetric])
  also have "[1..<13 :: nat] = [1, 2, 3, 4, 5, 6, 7, 8, 9, 10, 11, 12]" by (simp add: upt_rec)
  finally have "{1..<13} = {1, 2, 3, 4, 5, 6, 7, 8, 9, 10, 11, 12 :: nat}" by simp
  then show ?thesis by (simp add: month_len_def year_len_def)
qed

lemma day_number_next:
  "1 \<le> m \<Longrightarrow> month_len y m \<le> d \<Longrightarrow> day_number y (Suc m) (d - month_len y m) = day_number y m d"
  "month_len y 12 \<le> d \<Longrightarrow> day_number (Suc y) 1 (d - month_len y 12) = day_number y 12 d"
proof -
  show a: "1 \<le> m \<Longrightarrow> month_len y m \<le> d \<Longrightarrow> day_number y (Suc m) (d - month_len y m) = day_number y m d" for m
    by (simp add: day_number_def)
  assume "month_len y 12 \<le> d"
  moreover have "day_number (Suc y) 1 x = day_number y 13 x" for x using year_months [of y] by (simp add: day_number_def)
  ultimately show "day_number (Suc y) 1 (d - month_len y 12) = day_number y 12 d" using a [of 12] by simp
qed

lemma carry_days_spec:
  assumes "1 \<le> mon" "mon \<le> 12" "1 \<le> day" "unat y + unat day < 2 ^ 32" "carry_days y mon day = (y', mon', day')"
  shows "1 \<le> mon' \<and> mon' \<le> 12 \<and> 1 \<le> day' \<and> day' \<le> month_days y' mon' \<and>
    day_number (unat y') (unat mon') (unat day') = day_number (unat y) (unat mon) (unat day)"
  using assms
proof (induction y mon day rule: carry_days.induct)
  case (1 y mon day)
  let ?dim = "month_days y mon"
  note md = unat_month_days [of y mon]
  show ?case
  proof (cases "day \<le> ?dim")
    case True
    then show ?thesis using 1 by (simp add: carry_days.simps)
  next
    case False
    have lt: "unat ?dim < unat day" using False by (simp add: word_le_nat_alt)
    have sub: "unat (day - ?dim) = unat day - month_len (unat y) (unat mon)" using False md by (subst unat_sub_le) auto
    have pos: "1 \<le> day - ?dim" using lt sub md by (simp add: word_le_nat_alt)
    have big: "28 \<le> month_len (unat y) (unat mon)" by (simp add: month_len_def)
    have mon: "1 \<le> unat mon" "unat mon \<le> 12" using 1(3,4) by (simp_all add: word_le_nat_alt)
    then have m1: "unat (mon + 1) = Suc (unat mon)" by (simp add: unat_word_ariths)
    show ?thesis
    proof (cases "mon + 1 > 12")
      case True
      then have m12: "unat mon = 12" using mon m1 by (simp add: word_less_nat_alt)
      have y1: "unat (y + 1) = Suc (unat y)" using 1(6) lt by (simp add: unat_word_ariths)
      have run: "carry_days (y + 1) 1 (day - ?dim) = (y', mon', day')" using 1(7) False True by (simp add: carry_days.simps [of y mon day] Let_def)
      have "unat (y + 1) + unat (day - ?dim) < 2 ^ 32" using 1(6) y1 sub lt md big by simp
      from 1(1) [OF refl False refl True _ _ pos this run] show ?thesis
        using day_number_next(2) [of "unat y" "unat day"] lt md m12 sub y1 by simp
    next
      case nm: False
      then have m2: "mon + 1 \<le> 12" "1 \<le> mon + 1" using m1 by (simp_all add: word_le_nat_alt word_less_nat_alt)
      have run: "carry_days y (mon + 1) (day - ?dim) = (y', mon', day')" using 1(7) False nm by (simp add: carry_days.simps [of y mon day] Let_def)
      have "unat y + unat (day - ?dim) < 2 ^ 32" using 1(6) sub by simp
      from 1(2) [OF refl False refl nm m2(2,1) pos this run] show ?thesis
        using day_number_next(1) [OF mon(1), of "unat y" "unat day"] lt md m1 sub by simp
    qed
  qed
qed

lemma add_seconds_spec:
  assumes "valid_date d" "unat (fst d) < 2 ^ 30" "unat add < 2 ^ 30"
  shows "valid_date (add_seconds d add) \<and> second_number (add_seconds d add) = second_number d + unat add"
proof -
  obtain y mon day h mi sec where d: "d = (y, mon, day, h, mi, sec)" by (metis prod.exhaust)
  have v: "1 \<le> mon" "mon \<le> 12" "1 \<le> day" "day \<le> month_days y mon" "unat h < 24" "unat mi < 60" "unat sec < 60"
    using assms(1) by (auto simp: valid_date_def d word_less_nat_alt)
  have y: "unat y < 2 ^ 30" using assms(2) by (simp add: d)
  define t0 t1 t2 where "t0 = sec + add" and "t1 = mi + t0 div 60" and "t2 = h + t1 div 60"
  have u0: "unat t0 = unat sec + unat add" using v assms(3) by (simp add: t0_def unat_word_ariths)
  have u1: "unat t1 = unat mi + unat t0 div 60" using v assms(3) u0 by (simp add: t1_def unat_word_ariths unat_div)
  have u2: "unat t2 = unat h + unat t1 div 60" using v assms(3) u0 u1 by (simp add: t2_def unat_word_ariths unat_div)
  have dl: "unat day \<le> 31" using v(4) unat_month_days [of y mon] by (auto simp: word_le_nat_alt month_len_def split: if_splits)
  have ud: "unat (day + t2 div 24) = unat day + unat t2 div 24"
    using dl v assms(3) u0 u1 u2 by (simp add: unat_word_ariths unat_div)
  obtain y' mon' day' where c: "carry_days y mon (day + t2 div 24) = (y', mon', day')" by (metis prod.exhaust)
  have "1 \<le> day + t2 div 24" using v(3) ud by (simp add: word_le_nat_alt)
  moreover have "unat y + unat (day + t2 div 24) < 2 ^ 32" using y ud dl u0 u1 u2 v assms(3) by simp
  ultimately have C: "1 \<le> mon'" "mon' \<le> 12" "1 \<le> day'" "day' \<le> month_days y' mon'"
    "day_number (unat y') (unat mon') (unat day') = day_number (unat y) (unat mon) (unat (day + t2 div 24))"
    using carry_days_spec [OF v(1,2) _ _ c] by auto
  have r: "add_seconds d add = (y', mon', day', t2 mod 24, t1 mod 60, t0 mod 60)"
    using c by (simp add: add_seconds_def d t0_def t1_def t2_def Let_def)
  have m: "unat (t2 mod 24) = unat t2 mod 24" "unat (t1 mod 60) = unat t1 mod 60" "unat (t0 mod 60) = unat t0 mod 60"
    by (simp_all add: unat_mod)
  have val: "valid_date (add_seconds d add)" unfolding r valid_date_def using C m by (simp add: word_less_nat_alt)
  have D: "day_number (unat y') (unat mon') (unat day') = day_number (unat y) (unat mon) (unat day) + unat t2 div 24"
    unfolding C(5) ud by (simp add: day_number_def)
  have "second_number (add_seconds d add) = second_number d + unat add"
    unfolding r unfolding d second_number_def prod.case m D
    using u0 u1 u2 div_mult_mod_eq [of "unat t2" 24] div_mult_mod_eq [of "unat t1" 60] div_mult_mod_eq [of "unat t0" 60] by simp
  then show ?thesis using val by simp
qed

text \<open>
  Adding seconds to a date. The result is a date of the Gregorian calendar, with the days of
  its month and the leap years, and it lies exactly so many seconds after the start.
\<close>

theorem add_seconds_exact:
  assumes "valid_date d" "unat (fst d) < 2 ^ 30" "unat add < 2 ^ 30"
  shows "valid_date (add_seconds d add) \<and> second_number (add_seconds d add) = second_number d + unat add"
  by (rule add_seconds_spec [OF assms])

theorem add_seconds_exact_witness:
  "second_number (add_seconds (2024, 2, 28, 23, 59, 30) 90000) = second_number (2024, 2, 28, 23, 59, 30) + 90000"
  using add_seconds_exact [of "(2024, 2, 28, 23, 59, 30)" 90000] by (simp add: valid_date_def month_days_def)


section \<open>The chip's encodings\<close>

text \<open>What the chip holds for a date: binary or BCD, hours of the day or twelve with a mark after noon.\<close>

definition chip_byte :: "u8 \<Rightarrow> nat \<Rightarrow> u8" where
  "chip_byte stb v = (if stb AND CMOS_BIN = 0 then of_nat (v div 10 * 16 + v mod 10) else of_nat v)"

definition chip_hour :: "u8 \<Rightarrow> nat \<Rightarrow> u8" where
  "chip_hour stb h =
     (if stb AND CMOS_24H = 0
      then chip_byte stb (if h mod 12 = 0 then 12 else h mod 12) OR (if 12 \<le> h then CMOS_HOUR_PM else 0)
      else chip_byte stb h)"

definition chip_regs :: "u8 \<Rightarrow> date \<Rightarrow> regs8" where
  "chip_regs stb d = (case d of (y, mon, day, h, mi, sec) \<Rightarrow>
     (chip_byte stb (unat sec), chip_byte stb (unat mi), chip_hour stb (unat h), chip_byte stb (unat day),
      chip_byte stb (unat mon), chip_byte stb (unat y mod 100), chip_byte stb (unat y div 100), stb))"

definition unchip :: "bool \<Rightarrow> u8 \<Rightarrow> u32" where
  "unchip bcd b = (if bcd then ucast (ucast (from_bcd (ucast b)) :: u8) else ucast b)"

definition unchip_hour :: "bool \<Rightarrow> bool \<Rightarrow> u8 \<Rightarrow> u32" where
  "unchip_hour bcd twelve b =
     (let pm = (twelve \<and> b AND CMOS_HOUR_PM \<noteq> 0); h0 = unchip bcd (if twelve then b AND 0x7F else b)
      in if twelve then if h0 = 12 then (if pm then 12 else 0) else if pm then h0 + 12 else h0 else h0)"

lemma decode_unchip:
  "decode_cmos (sec, mi, hour, day, mon, year, cent, stb) =
     (let bcd = (stb AND CMOS_BIN = 0); c0 = unchip bcd cent in
      (unchip bcd year + (if c0 < 19 \<or> c0 > 99 then 20 else c0) * 100, unchip bcd mon, unchip bcd day,
       unchip_hour bcd (stb AND CMOS_24H = 0) hour, unchip bcd mi, unchip bcd sec))"
  by (simp add: decode_cmos_def unchip_def unchip_hour_def Let_def)

lemma unchip_table:
  "list_all (\<lambda>v. unchip True (of_nat (v div 10 * 16 + v mod 10)) = of_nat v \<and> unchip False (of_nat v) = of_nat v) [0..<100]"
  by code_simp

lemma unchip_byte: "v < 100 \<Longrightarrow> unchip (stb AND CMOS_BIN = 0) (chip_byte stb v) = of_nat v"
  using unchip_table by (auto simp: chip_byte_def list_all_iff)

lemma unchip_hour_table:
  "list_all (\<lambda>h. let c = (if h mod 12 = 0 then 12 else h mod 12); pm = (if 12 \<le> h then CMOS_HOUR_PM else 0) in
     unchip_hour True True (of_nat (c div 10 * 16 + c mod 10) OR pm) = of_nat h \<and> unchip_hour False True (of_nat c OR pm) = of_nat h \<and>
     unchip_hour True False (of_nat (h div 10 * 16 + h mod 10)) = of_nat h \<and> unchip_hour False False (of_nat h) = of_nat h) [0..<24]"
  by code_simp

lemma unchip_hour_byte: "h < 24 \<Longrightarrow> unchip_hour (stb AND CMOS_BIN = 0) (stb AND CMOS_24H = 0) (chip_hour stb h) = of_nat h"
  using unchip_hour_table unfolding list_all_iff Let_def by (auto simp: chip_hour_def chip_byte_def)

text \<open>
  The clock chip is read right in each of its four formats, binary or BCD and with 24 or 12
  hours: what \<open>latch_cmos\<close> makes of the registers of a date is that date.
\<close>

theorem decode_cmos_roundtrip:
  assumes "valid_date d" "1900 \<le> unat (fst d)" "unat (fst d) < 10000"
  shows "decode_cmos (chip_regs stb d) = d"
proof -
  obtain y mon day h mi sec where d: "d = (y, mon, day, h, mi, sec)" by (metis prod.exhaust)
  have v: "unat mon < 100" "unat day < 100" "unat h < 24" "unat mi < 100" "unat sec < 100"
    using assms(1) unat_month_days [of y mon]
    by (auto simp: valid_date_def d word_less_nat_alt word_le_nat_alt month_len_def split: if_splits)
  have y: "1900 \<le> unat y" "unat y < 10000" using assms(2,3) by (simp_all add: d)
  define c where "c = unat y div 100"
  have cb: "19 \<le> c" "c < 100" using y by (auto simp: c_def)
  have uc: "unat (of_nat c :: u32) = c" using cb by (simp add: unat_of_nat)
  have cc: "\<not> (of_nat c < (19 :: u32) \<or> of_nat c > (99 :: u32))" using cb uc by (auto simp: word_less_nat_alt)
  have "of_nat (unat y mod 100) + of_nat c * 100 = (of_nat (unat y mod 100 + c * 100) :: u32)" by simp
  then have yy: "of_nat (unat y mod 100) + of_nat c * 100 = y" unfolding c_def mod_div_mult_eq by simp
  show ?thesis
    unfolding d chip_regs_def prod.case decode_unchip Let_def c_def [symmetric]
    using unchip_byte v cb cc yy unchip_hour_byte [OF v(3)] by simp
qed

theorem decode_cmos_roundtrip_witness:
  "decode_cmos (chip_regs 0 (2026, 1, 31, 12, 5, 9)) = (2026, 1, 31, 12, 5, 9)"
  using decode_cmos_roundtrip [of "(2026, 1, 31, 12, 5, 9)" 0] by (simp add: valid_date_def month_days_def)

section \<open>The text\<close>

definition num_of :: "string \<Rightarrow> nat" where
  "num_of t = foldl (\<lambda>n c. n * 10 + (of_char c - 48)) 0 t"

definition read_date :: "string \<Rightarrow> nat list" where
  "read_date t = map (\<lambda>(i, n). num_of (take n (drop i t))) [(0, 4), (5, 2), (8, 2), (11, 2), (14, 2), (17, 2)]"

lemma digit_val: "of_char (digit_at v p) - 48 = unat v div unat p mod 10"
proof -
  have "unat ((v div p) mod 10) = unat v div unat p mod 10" by (simp add: unat_div unat_mod)
  then show ?thesis by (simp add: digit_at_def)
qed

lemma date_text_reads:
  assumes "unat y < 10000" "unat mon < 100" "unat day < 100" "unat h < 100" "unat mi < 100" "unat sec < 100"
  shows "read_date (date_text (y, mon, day, h, mi, sec)) = [unat y, unat mon, unat day, unat h, unat mi, unat sec]"
    "length (date_text (y, mon, day, h, mi, sec)) = 19"
proof -
  have two: "x div 10 mod 10 * 10 + x mod 10 = x" if "x < 100" for x :: nat using that by (simp add: mod_less div_less)
  have four: "((x div 1000 mod 10 * 10 + x div 100 mod 10) * 10 + x div 10 mod 10) * 10 + x mod 10 = x" if "x < 10000" for x :: nat
  proof -
    have "x div 10 div 10 = x div 100" "x div 100 div 10 = x div 1000" by (simp_all add: div_mult2_eq [symmetric])
    then have "x div 100 * 10 + x div 10 mod 10 = x div 10" "x div 1000 * 10 + x div 100 mod 10 = x div 100" "x div 10 * 10 + x mod 10 = x"
      using div_mult_mod_eq [of "x div 10" 10] div_mult_mod_eq [of "x div 100" 10] div_mult_mod_eq [of x 10] by simp_all
    moreover have "x div 1000 mod 10 = x div 1000" using that by (intro mod_less) simp
    ultimately show ?thesis by simp
  qed
  show "read_date (date_text (y, mon, day, h, mi, sec)) = [unat y, unat mon, unat day, unat h, unat mi, unat sec]"
    using two [OF assms(2)] two [OF assms(3)] two [OF assms(4)] two [OF assms(5)] two [OF assms(6)] four [OF assms(1)]
    by (simp add: read_date_def date_text_def put2_def num_of_def digit_val)
  show "length (date_text (y, mon, day, h, mi, sec)) = 19" by (simp add: date_text_def put2_def)
qed

section \<open>The clock answers\<close>

lemma wait_uip_ends:
  assumes "cmos (n + k) 0x0A AND CMOS_UIP = 0"
  shows "\<exists>m. wait_uip cmos n = Some m"
  using assms
proof (induction k arbitrary: n)
  case 0
  then show ?case by (simp add: wait_uip.simps)
next
  case (Suc k)
  then show ?case by (cases "cmos n 0x0A AND CMOS_UIP = 0") (simp_all add: wait_uip.simps [of _ n])
qed

lemma read_cmos_ends:
  assumes "\<forall>n. \<exists>k. cmos (n + k) 0x0A AND CMOS_UIP = 0"
  shows "\<exists>r. read_cmos cmos n tries = Some r"
proof (induction tries arbitrary: n rule: less_induct)
  case (less tries)
  obtain k where "cmos (n + k) 0x0A AND CMOS_UIP = 0" using assms by blast
  then obtain m where m: "wait_uip cmos n = Some m" using wait_uip_ends by blast
  have "\<exists>r. read_cmos cmos (m + 9) (tries - 1) = Some r" if "1 < tries" using less that by simp
  then show ?case unfolding read_cmos.simps [of cmos n tries] m Let_def by simp
qed

lemma carry_year:
  assumes "carry_days y mon day = (y', mon', day')" "unat y + unat day < 2 ^ 32"
  shows "unat y' \<le> unat y + unat day"
  using assms
proof (induction y mon day rule: carry_days.induct)
  case (1 y mon day)
  let ?dim = "month_days y mon"
  show ?case
  proof (cases "day \<le> ?dim")
    case True
    then show ?thesis using 1(3) by (simp add: carry_days.simps)
  next
    case False
    have big: "28 \<le> unat ?dim" unfolding unat_month_days by (simp add: month_len_def)
    have lt: "unat ?dim < unat day" using False by (simp add: word_le_nat_alt)
    have sub: "unat (day - ?dim) = unat day - unat ?dim" using False by (subst unat_sub_le) auto
    have y1: "unat (y + 1) = Suc (unat y)" using 1(4) lt by (simp add: unat_word_ariths)
    show ?thesis
    proof (cases "mon + 1 > 12")
      case True
      then have "carry_days (y + 1) 1 (day - ?dim) = (y', mon', day')" using 1(3) False by (simp add: carry_days.simps [of y mon day] Let_def)
      moreover have "unat (y + 1) + unat (day - ?dim) < 2 ^ 32" using 1(4) big lt sub y1 by linarith
      ultimately have "unat y' \<le> unat (y + 1) + unat (day - ?dim)" by (rule 1(1) [OF refl False refl True])
      then show ?thesis using big lt sub y1 by linarith
    next
      case nm: False
      then have "carry_days y (mon + 1) (day - ?dim) = (y', mon', day')" using 1(3) False by (simp add: carry_days.simps [of y mon day] Let_def)
      moreover have "unat y + unat (day - ?dim) < 2 ^ 32" using 1(4) lt sub by linarith
      ultimately have "unat y' \<le> unat y + unat (day - ?dim)" by (rule 1(2) [OF refl False refl nm])
      then show ?thesis using lt sub by linarith
    qed
  qed
qed

lemma elapsed_bound: "unat ((a - b) div PIT_HZ) \<le> 42949672"
  using unat_bound [of "a - b"] by (simp add: PIT_HZ_def unat_div)

lemma add_seconds_year:
  assumes "valid_date (y, mon, day, h, mi, sec)" "unat y < 9000" "unat add \<le> 42949672"
    and "add_seconds (y, mon, day, h, mi, sec) add = (y', r)"
  shows "unat y' < 10000"
proof -
  have v: "unat day \<le> 31" "unat h < 24" "unat mi < 60" "unat sec < 60"
    using assms(1) unat_month_days [of y mon] by (auto simp: valid_date_def word_less_nat_alt word_le_nat_alt month_len_def split: if_splits)
  define t0 t1 t2 where "t0 = sec + add" and "t1 = mi + t0 div 60" and "t2 = h + t1 div 60"
  have u0: "unat t0 = unat sec + unat add" using v assms(3) by (simp add: t0_def unat_word_ariths)
  have u1: "unat t1 = unat mi + unat t0 div 60" using v assms(3) u0 by (simp add: t1_def unat_word_ariths unat_div)
  have u2: "unat t2 = unat h + unat t1 div 60" using v assms(3) u0 u1 by (simp add: t2_def unat_word_ariths unat_div)
  have ud: "unat (day + t2 div 24) = unat day + unat t2 div 24" using v assms(3) u0 u1 u2 by (simp add: unat_word_ariths unat_div)
  have "unat t2 div 24 \<le> 500" using v assms(3) u0 u1 u2 by simp
  then have b: "unat y + unat (day + t2 div 24) < 10000" using assms(2) v ud by simp
  obtain m d where c: "carry_days y mon (day + t2 div 24) = (y', m, d)"
    using assms(4) by (auto simp: add_seconds_def t0_def t1_def t2_def Let_def split: prod.splits)
  have "unat y' \<le> unat y + unat (day + t2 div 24)" by (rule carry_year [OF c]) (use b in simp)
  then show ?thesis using b by simp
qed

text \<open>
  C23. The clock answers, when the chip does not stay busy for ever: \<open>rtc_format\<close> returns, and when
  the snapshot is a date its text shows the valid date that lies after it by exactly the seconds
  that the timer has counted.
\<close>

theorem rtc_format_shows:
  assumes "\<forall>n. \<exists>k. cmos (n + k) 0x0A AND CMOS_UIP = 0"
  shows "\<exists>t s' n'. rtc_format cmos n ticks s = Some (t, s', n') \<and> have_snap s' \<and>
    (valid_date (snap s') \<longrightarrow> unat (fst (snap s')) < 9000 \<longrightarrow>
      (\<exists>y mon day h mi sec. length t = 19 \<and> read_date t = map unat [y, mon, day, h, mi, sec] \<and> valid_date (y, mon, day, h, mi, sec) \<and>
        second_number (y, mon, day, h, mi, sec) = second_number (snap s') + unat ((ticks - snap_ticks s') div PIT_HZ)))"
proof -
  obtain r m where "read_cmos cmos n 4 = Some (r, m)" using read_cmos_ends [where cmos = cmos and n = n and tries = 4] assms by auto
  then obtain s' n' where i: "rtc_init cmos n ticks s = Some (s', n')" "have_snap s'"
    by (cases "have_snap s") (auto simp: rtc_init_def latch_cmos_def)
  let ?add = "(ticks - snap_ticks s') div PIT_HZ"
  obtain y mon day h mi sec where d: "add_seconds (snap s') ?add = (y, mon, day, h, mi, sec)" by (metis prod.exhaust)
  have f: "rtc_format cmos n ticks s = Some (date_text (y, mon, day, h, mi, sec), s', n')" using i d by (simp add: rtc_format_def)
  have "\<exists>y mon day h mi sec. length (date_text (add_seconds (snap s') ?add)) = 19 \<and>
      read_date (date_text (add_seconds (snap s') ?add)) = map unat [y, mon, day, h, mi, sec] \<and> valid_date (y, mon, day, h, mi, sec) \<and>
      second_number (y, mon, day, h, mi, sec) = second_number (snap s') + unat ?add"
    if v: "valid_date (snap s')" "unat (fst (snap s')) < 9000"
  proof -
    have A: "valid_date (y, mon, day, h, mi, sec)" "second_number (y, mon, day, h, mi, sec) = second_number (snap s') + unat ?add"
      using add_seconds_spec [OF v(1), of ?add] v(2) elapsed_bound [of ticks "snap_ticks s'"] d by auto
    obtain y0 r0 where s0: "snap s' = (y0, r0)" by (metis surj_pair)
    have "unat y < 10000"
      using add_seconds_year [of y0 "fst r0" "fst (snd r0)" "fst (snd (snd r0))" "fst (snd (snd (snd r0)))" "snd (snd (snd (snd r0)))" ?add y]
        v elapsed_bound d s0 by simp
    moreover have "unat mon < 100" "unat day < 100" "unat h < 100" "unat mi < 100" "unat sec < 100"
      using A(1) unat_month_days [of y mon] by (auto simp: valid_date_def word_less_nat_alt word_le_nat_alt month_len_def split: if_splits)
    ultimately show ?thesis unfolding d using date_text_reads A by fastforce
  qed
  then show ?thesis using f i(2) unfolding d by blast
qed

theorem rtc_format_shows_witness:
  "\<exists>t s' n' y mon day h mi sec.
     rtc_format (\<lambda>_ _. 0) 0 500 \<lparr>snap = (2025, 12, 31, 23, 59, 58), snap_ticks = 0, have_snap = True\<rparr> = Some (t, s', n') \<and>
     read_date t = map unat [y, mon, day, h, mi, sec] \<and> valid_date (y, mon, day, h, mi, sec) \<and>
     second_number (y, mon, day, h, mi, sec) = second_number (2025, 12, 31, 23, 59, 58) + 5"
proof -
  let ?s = "\<lparr>snap = (2025, 12, 31, 23, 59, 58), snap_ticks = 0, have_snap = True\<rparr>"
  obtain t s' n' where r: "rtc_format (\<lambda>_ _. 0) 0 500 ?s = Some (t, s', n')"
    and sh: "valid_date (snap s') \<longrightarrow> unat (fst (snap s')) < 9000 \<longrightarrow>
      (\<exists>y mon day h mi sec. length t = 19 \<and> read_date t = map unat [y, mon, day, h, mi, sec] \<and> valid_date (y, mon, day, h, mi, sec) \<and>
        second_number (y, mon, day, h, mi, sec) = second_number (snap s') + unat ((500 - snap_ticks s') div PIT_HZ))"
    using rtc_format_shows [where cmos = "\<lambda>_ _. 0" and n = 0 and ticks = 500 and s = ?s]
    by (metis (no_types, lifting) and_zero_eq zero_and_eq)
  have s': "s' = ?s" using r by (auto simp: rtc_format_def rtc_init_def)
  have "valid_date (snap s')" unfolding s' by (simp add: valid_date_def month_days_def)
  moreover have "unat ((500 - snap_ticks s') div PIT_HZ) = 5" unfolding s' by (simp add: PIT_HZ_def)
  moreover have "snap s' = (2025, 12, 31, 23, 59, 58)" by (simp add: s')
  ultimately show ?thesis using sh r by fastforce
qed

end
