(* ===== verification/Kbd.thy ===== *)
theory Kbd
  imports User_Run Mouse Rtc Heap
begin

text \<open>
  The keyboard and the built-in shell: \<open>kernel/kbd.c\<close>. Scan codes become characters, characters a
  line, and a line either the input of a waiting task or a command of the kernel.

  The record \<open>os\<close> is the whole machine state that a command can touch: the kernel with scheduler,
  memory, screen and file system, the display, the mouse, the clock, the kernel heap and the static
  variables of the file. The buffer of the command line is its first \<open>line_len\<close> characters, or \<open>None\<close>
  without a buffer. \<open>stale\<close> are the bytes that follow the names on the stack of \<open>run_ls\<close>, up to the next
  zero byte: the function does not terminate them. A result \<open>None\<close> is a call that does not return.
\<close>

section \<open>State\<close>

definition LINE_MAX :: nat where "LINE_MAX = 80"
definition SCAN_RELEASE :: u8 where "SCAN_RELEASE = 0x80"
definition SCAN_EXT :: u8 where "SCAN_EXT = 0xE0"
definition SCAN_LSHIFT :: u8 where "SCAN_LSHIFT = 0x2A"
definition SCAN_RSHIFT :: u8 where "SCAN_RSHIFT = 0x36"
definition SCAN_LCTRL :: u8 where "SCAN_LCTRL = 0x1D"
definition SCAN_C :: u8 where "SCAN_C = 0x2E"
definition SCAN_CAPS :: u8 where "SCAN_CAPS = 0x3A"

definition scan_map :: "(nat \<times> char) list" where
  "scan_map =
     [(0x02, CHR ''1''), (0x03, CHR ''2''), (0x04, CHR ''3''), (0x05, CHR ''4''), (0x06, CHR ''5''), (0x07, CHR ''6''),
      (0x08, CHR ''7''), (0x09, CHR ''8''), (0x0A, CHR ''9''), (0x0B, CHR ''0''), (0x0C, CHR ''-''), (0x0D, CHR ''=''),
      (0x0E, CHR 0x08), (0x0F, CHR 0x09), (0x10, CHR ''q''), (0x11, CHR ''w''), (0x12, CHR ''e''), (0x13, CHR ''r''),
      (0x14, CHR ''t''), (0x15, CHR ''y''), (0x16, CHR ''u''), (0x17, CHR ''i''), (0x18, CHR ''o''), (0x19, CHR ''p''),
      (0x1A, CHR ''[''), (0x1B, CHR '']''), (0x1C, CHR 0x0A), (0x1E, CHR ''a''), (0x1F, CHR ''s''), (0x20, CHR ''d''),
      (0x21, CHR ''f''), (0x22, CHR ''g''), (0x23, CHR ''h''), (0x24, CHR ''j''), (0x25, CHR ''k''), (0x26, CHR ''l''),
      (0x27, CHR '';''), (0x28, CHR 0x27), (0x29, CHR 0x60), (0x2B, CHR 0x5C), (0x2C, CHR ''z''), (0x2D, CHR ''x''),
      (0x2E, CHR ''c''), (0x2F, CHR ''v''), (0x30, CHR ''b''), (0x31, CHR ''n''), (0x32, CHR ''m''), (0x33, CHR '',''),
      (0x34, CHR ''.''), (0x35, CHR ''/''), (0x39, CHR '' '')]"

definition scan_map_shift :: "(nat \<times> char) list" where
  "scan_map_shift =
     [(0x02, CHR ''!''), (0x03, CHR ''@''), (0x04, CHR ''#''), (0x05, CHR ''$''), (0x06, CHR ''%''), (0x07, CHR ''^''),
      (0x08, CHR ''&''), (0x09, CHR ''*''), (0x0A, CHR ''(''), (0x0B, CHR '')''), (0x0C, CHR ''_''), (0x0D, CHR ''+''),
      (0x0E, CHR 0x08), (0x0F, CHR 0x09), (0x10, CHR ''Q''), (0x11, CHR ''W''), (0x12, CHR ''E''), (0x13, CHR ''R''),
      (0x14, CHR ''T''), (0x15, CHR ''Y''), (0x16, CHR ''U''), (0x17, CHR ''I''), (0x18, CHR ''O''), (0x19, CHR ''P''),
      (0x1A, CHR ''{''), (0x1B, CHR ''}''), (0x1C, CHR 0x0A), (0x1E, CHR ''A''), (0x1F, CHR ''S''), (0x20, CHR ''D''),
      (0x21, CHR ''F''), (0x22, CHR ''G''), (0x23, CHR ''H''), (0x24, CHR ''J''), (0x25, CHR ''K''), (0x26, CHR ''L''),
      (0x27, CHR '':''), (0x28, CHR 0x22), (0x29, CHR 0x7E), (0x2B, CHR ''|''), (0x2C, CHR ''Z''), (0x2D, CHR ''X''),
      (0x2E, CHR ''C''), (0x2F, CHR ''V''), (0x30, CHR ''B''), (0x31, CHR ''N''), (0x32, CHR ''M''), (0x33, CHR ''<''),
      (0x34, CHR ''>''), (0x35, CHR ''?''), (0x39, CHR '' '')]"

record kbd =
  shift :: bool
  caps :: bool
  ctrl :: bool
  ext :: bool
  line :: "string option"
  stdin_buf :: string
  stdin_len :: nat
  stdin_have :: nat
  kbd_irq_frame :: "interrupt_frame option"

record 'd os =
  kn :: "'d kern"
  disp :: fb
  mou :: mouse
  wall :: rtc
  cmos_n :: nat
  kheap :: heap
  kb :: kbd
  stale :: string

definition on_kern :: "('d kern \<Rightarrow> 'a \<times> 'd kern) \<Rightarrow> 'd os \<Rightarrow> 'a \<times> 'd os" where
  "on_kern g s = (case g (kn s) of (r, k) \<Rightarrow> (r, s\<lparr>kn := k\<rparr>))"

definition on_files :: "('d fs \<Rightarrow> 'a \<times> 'd fs) \<Rightarrow> 'd os \<Rightarrow> 'a \<times> 'd os" where
  "on_files g s = on_kern (on_fs g) s"

abbreviation con :: "'d os \<Rightarrow> vga" where "con s \<equiv> scr (sc (kn s))"

definition set_con :: "vga \<Rightarrow> 'd os \<Rightarrow> 'd os" where
  "set_con v s = s\<lparr>kn := (kn s)\<lparr>sc := (sc (kn s))\<lparr>scr := v\<rparr>\<rparr>\<rparr>"

definition set_kb :: "(kbd \<Rightarrow> kbd) \<Rightarrow> 'd os \<Rightarrow> 'd os" where
  "set_kb g s = s\<lparr>kb := g (kb s)\<rparr>"

definition set_sched :: "(sched \<Rightarrow> sched) \<Rightarrow> 'd os \<Rightarrow> 'd os" where
  "set_sched g s = s\<lparr>kn := (kn s)\<lparr>sc := g (sc (kn s))\<rparr>\<rparr>"

section \<open>Output\<close>

definition putc :: "char \<Rightarrow> 'd os \<Rightarrow> 'd os" where
  "putc c s = set_con (vga_putc c (con s)) s"

definition puts_cur :: "string \<Rightarrow> 'd os \<Rightarrow> 'd os" where
  "puts_cur str s = fold putc str s"

text \<open>The answer to a command that failed.\<close>

definition ask :: "bool \<times> 'd os \<Rightarrow> 'd os" where
  "ask r = (case r of (ok, s) \<Rightarrow> if ok then s else putc CHR ''?'' s)"

definition uint_text :: "u32 \<Rightarrow> string" where
  "uint_text v = (if v = 0 then ''0'' else rev (dec_digits 10 (unat v)))"

definition kbd_put_uint :: "u32 \<Rightarrow> 'd os \<Rightarrow> 'd os" where
  "kbd_put_uint v s = puts_cur (uint_text v) s"

definition draw_at :: "int \<Rightarrow> int \<Rightarrow> string \<Rightarrow> 'd os \<Rightarrow> 'd os" where
  "draw_at x y str s = s\<lparr>disp := fb_draw_text x y str (mou s) (disp s)\<rparr>"

definition line_text :: "'d os \<Rightarrow> string" where
  "line_text s = (case line (kb s) of None \<Rightarrow> [] | Some l \<Rightarrow> l)"

definition stdin_text :: "'d os \<Rightarrow> string" where
  "stdin_text s = take (stdin_len (kb s)) (stdin_buf (kb s))"

definition prompt_line :: "bool \<Rightarrow> 'd os \<Rightarrow> 'd os" where
  "prompt_line dollar s =
     s\<lparr>disp := (if dollar then fb_prompt_line (Some ''$'') (Some (stdin_text s)) (disp s)
                else fb_prompt_line (Some ''kbd>'') (Some (line_text s)) (disp s))\<rparr>"

definition copy_screen :: "'d os \<Rightarrow> 'd os" where
  "copy_screen s = s\<lparr>disp := fb_vga_blit (con s) (disp s)\<rparr>"

definition show_fb :: "'d os \<Rightarrow> 'd os" where
  "show_fb s = s\<lparr>disp := snd (fb_present (mou s) (disp s))\<rparr>"

definition fb_line :: "bool \<Rightarrow> 'd os \<Rightarrow> 'd os" where
  "fb_line dollar s = show_fb (prompt_line dollar (copy_screen s))"

definition prompt :: "'d os \<Rightarrow> 'd os" where
  "prompt s = fb_line False (puts_cur ''kbd>'' s)"

section \<open>Words\<close>

definition cmd_is :: "string \<Rightarrow> string \<Rightarrow> bool" where
  "cmd_is l cmd \<longleftrightarrow> take (length cmd) l = cmd \<and> (drop (length cmd) l = [] \<or> hd (drop (length cmd) l) = CHR '' '')"

definition skip_ws :: "string \<Rightarrow> string" where
  "skip_ws s = dropWhile (\<lambda>c. c = CHR '' '') s"

text \<open>The word at the start of a string, at most \<open>room - 1\<close> characters of it, and what follows.\<close>

definition word_at_start :: "nat \<Rightarrow> string \<Rightarrow> string \<times> string" where
  "word_at_start room s = (let w = take (room - 1) (takeWhile (\<lambda>c. c \<noteq> CHR '' '') s) in (w, drop (length w) s))"

definition take_word :: "nat \<Rightarrow> string \<Rightarrow> string \<times> string" where
  "take_word room s = word_at_start room (skip_ws s)"

definition is_num :: "char \<Rightarrow> bool" where
  "is_num c \<longleftrightarrow> (48 :: nat) \<le> of_char c \<and> of_char c \<le> (57 :: nat)"

text \<open>The digits at the start of a string as a number that wraps around, and what follows.\<close>

definition read_num :: "string \<Rightarrow> u32 \<times> string" where
  "read_num s =
     (foldl (\<lambda>n c. n * 10 + (of_char c - 48)) 0 (takeWhile is_num s), dropWhile is_num s)"

definition two_words :: "string \<Rightarrow> string \<times> string" where
  "two_words arg = (case take_word 40 arg of (src, r) \<Rightarrow> (src, fst (take_word 40 r)))"

definition file_text :: "'d os \<Rightarrow> u64 \<Rightarrow> u32 \<Rightarrow> string" where
  "file_text s p ln = map (\<lambda>b. char_of (unat b)) (take (unat ln) (file_page_bytes (kn s) p))"

section \<open>Commands\<close>

definition run_date :: "(nat \<Rightarrow> u8 \<Rightarrow> u8) \<Rightarrow> 'd os \<Rightarrow> 'd os option" where
  "run_date cmos s =
     (case rtc_format cmos (cmos_n s) (ticks (sc (kn s))) (wall s) of
        None \<Rightarrow> None
      | Some (t, w, n) \<Rightarrow> Some (puts_cur t (s\<lparr>wall := w, cmos_n := n\<rparr>)))"

definition list_text :: "'d fs \<Rightarrow> string" where
  "list_text fs =
     concat (map (\<lambda>i. (if i \<noteq> 0 then '' '' else []) @ (case fs_name (int i) fs of None \<Rightarrow> [] | Some n \<Rightarrow> n) @
       (if fs_isdir (int i) fs then ''/'' else [])) [0..<nat (fs_count fs)])"

definition run_ls :: "string \<Rightarrow> 'd os \<Rightarrow> 'd os" where
  "run_ls arg0 s =
     (let arg = skip_ws arg0; here = fs_cwd (fsys (kn s)); path_here = take 79 (fs_pwd (fsys (kn s))) in
      case (if arg \<noteq> [] then on_files (fs_chdir (Some arg)) s else (True, s)) of (ok, s1) \<Rightarrow>
        if \<not> ok then putc CHR ''?'' s1
        else let s2 = puts_cur (list_text (fsys (kn s1))) s1;
                 names = fs_readdir 80 (fsys (kn s2));
                 s3 = (if names \<noteq> [] then draw_at 8 104 (names @ stale s2) s2 else s2)
          in if arg \<noteq> [] then snd (on_files (fs_setpwd (Some path_here)) (snd (on_files (fs_setcwd here) s3))) else s3)"

definition run_cat :: "string \<Rightarrow> 'd os \<Rightarrow> 'd os" where
  "run_cat arg0 s =
     (let arg = skip_ws arg0 in
      case (if arg = [] then (None, s) else on_files (fs_lookup (Some arg)) s) of
        (None, s1) \<Rightarrow> draw_at 8 56 ''?    '' (putc CHR ''?'' s1)
      | (Some (p, ln), s1) \<Rightarrow>
          let t = file_text s1 p ln; s2 = puts_cur t s1
          in if 0 < ln \<and> ln < 40 then draw_at 8 56 (cstr t) s2 else s2)"

definition run_put :: "string \<Rightarrow> 'd os \<Rightarrow> 'd os" where
  "run_put arg s =
     (case take_word 40 arg of (name, r) \<Rightarrow>
      let t = skip_ws r in
      if name = [] \<or> t = [] then putc CHR ''?'' s
      else ask (on_files (fs_write (Some name) (Some (map of_char t)) (of_nat (length t))) s))"

definition run_fill :: "string \<Rightarrow> 'd os \<Rightarrow> 'd os option" where
  "run_fill arg s =
     (case take_word 40 arg of (name, r) \<Rightarrow>
      let ln = fst (read_num (skip_ws r)) in
      if name = [] \<or> ln = 0 \<or> 0x1000 < ln then Some (putc CHR ''?'' s)
      else case kmalloc (ucast ln) (kheap s) of
          None \<Rightarrow> None
        | Some (buf, h) \<Rightarrow>
            if buf = 0 then Some (putc CHR ''?'' (s\<lparr>kheap := h\<rparr>))
            else let s1 = ask (on_files (fs_write (Some name) (Some (replicate (unat ln) (of_char CHR ''x''))) ln) (s\<lparr>kheap := h\<rparr>))
              in Some (s1\<lparr>kheap := kfree buf (kheap s1)\<rparr>))"

definition run_trunc :: "string \<Rightarrow> 'd os \<Rightarrow> 'd os" where
  "run_trunc arg s =
     (case take_word 40 arg of (name, r) \<Rightarrow>
      let d = skip_ws r in
      if name = [] \<or> \<not> (d \<noteq> [] \<and> is_num (hd d)) then putc CHR ''?'' s
      else ask (on_files (fs_truncate (Some name) (fst (read_num d))) s))"

definition run_sync :: "'d os \<Rightarrow> 'd os" where
  "run_sync s = ask (on_files fs_sync s)"

definition run_devs :: "'d os \<Rightarrow> 'd os" where
  "run_devs s =
     (case bdev_list (dev (fsys (kn s))) (replicate 32 NUL) 32 of (n, buf) \<Rightarrow>
      if n \<le> 0 then putc CHR ''?'' s else draw_at 8 72 (cstr buf) (puts_cur (cstr buf) s))"

text \<open>Commands with one or with two names, which fail without them.\<close>

definition on_name :: "(string option \<Rightarrow> 'd fs \<Rightarrow> bool \<times> 'd fs) \<Rightarrow> string \<Rightarrow> 'd os \<Rightarrow> 'd os" where
  "on_name g arg s =
     (let a = skip_ws arg in if a = [] then putc CHR ''?'' s else ask (on_files (g (Some a)) s))"

definition on_two :: "(string option \<Rightarrow> string option \<Rightarrow> 'd fs \<Rightarrow> bool \<times> 'd fs) \<Rightarrow> string \<Rightarrow> 'd os \<Rightarrow> 'd os" where
  "on_two g arg s =
     (case two_words arg of (src, dst) \<Rightarrow>
      if src = [] \<or> dst = [] then putc CHR ''?'' s else ask (on_files (g (Some src) (Some dst)) s))"

definition run_rm :: "string \<Rightarrow> 'd os \<Rightarrow> 'd os" where "run_rm = on_name fs_remove"
definition run_mv :: "string \<Rightarrow> 'd os \<Rightarrow> 'd os" where "run_mv = on_two fs_rename"
definition run_cp :: "string \<Rightarrow> 'd os \<Rightarrow> 'd os" where "run_cp = on_two fs_copy"
definition run_ln :: "string \<Rightarrow> 'd os \<Rightarrow> 'd os" where "run_ln = on_two fs_link"
definition run_mkdir :: "string \<Rightarrow> 'd os \<Rightarrow> 'd os" where "run_mkdir = on_name fs_mkdir"
definition run_rmdir :: "string \<Rightarrow> 'd os \<Rightarrow> 'd os" where "run_rmdir = on_name fs_rmdir"
definition run_cd :: "string \<Rightarrow> 'd os \<Rightarrow> 'd os" where "run_cd = on_name fs_chdir"

definition run_pwd :: "'d os \<Rightarrow> 'd os" where
  "run_pwd s = puts_cur (fs_pwd (fsys (kn s))) s"

section \<open>The list of tasks\<close>

definition slot_text :: "nat \<Rightarrow> sched \<Rightarrow> string option" where
  "slot_text i s =
     (case sched_slot_state_name (int i) s of
        None \<Rightarrow> None
      | Some st \<Rightarrow> Some (uint_text (of_nat i) @ '' '' @
          (case sched_slot_name (int i) s of None \<Rightarrow> [] | Some nm \<Rightarrow> nm @ '' '') @ st @ '' '' @ uint_text (sched_slot_ticks (int i) s)))"

fun join :: "string list \<Rightarrow> string" where
  "join [] = []"
| "join (t # ts) = t @ (if ts = [] then [] else '' '' @ join ts)"

definition ps_text :: "sched \<Rightarrow> string" where
  "ps_text s = join (List.map_filter (\<lambda>i. slot_text i s) [0..<sched_slots s])"

fun back_to :: "string \<Rightarrow> nat \<Rightarrow> nat" where
  "back_to l b = (if 8 < b \<and> l ! (b - 1) \<noteq> CHR '' '' then back_to l (b - 1) else b)"

declare back_to.simps [simp del]

text \<open>One row of at most 38 characters, cut after a space where the text goes on, and how much of the text it uses.\<close>

definition ps_row :: "string \<Rightarrow> string \<times> nat" where
  "ps_row t =
     (let l = take 38 t; n = length l;
          b = (if n < length t then let x = back_to l n in if 8 < x \<and> x < n then x else n else n)
      in (rev (dropWhile (\<lambda>c. c = CHR '' '') (rev (take b l))), b))"

function ps_rows :: "int \<Rightarrow> string \<Rightarrow> 'd os \<Rightarrow> 'd os" where
  "ps_rows y t s =
     (if t = [] then s
      else case ps_row t of (l, b) \<Rightarrow>
        let s1 = draw_at 8 y l s in if 220 < y + 16 then s1 else ps_rows (y + 16) (drop b t) s1)"
  by pat_completeness auto
termination
  by (relation "measure (\<lambda>(y, t, s). nat (221 - y))") auto

declare ps_rows.simps [simp del]

text \<open>The copy for the display is built character by character next to the output and stops after 479.\<close>

definition run_ps :: "'d os \<Rightarrow> 'd os" where
  "run_ps s = (let t = ps_text (sc (kn s)) in ps_rows 120 (take 479 t) (puts_cur t s))"

section \<open>Programs\<close>

definition run_kill :: "string \<Rightarrow> 'd os \<Rightarrow> 'd os" where
  "run_kill arg0 s =
     (let arg = skip_ws arg0 in
      case read_num arg of (pid, r) \<Rightarrow>
        if \<not> (arg \<noteq> [] \<and> is_num (hd arg)) \<or> skip_ws r \<noteq> [] then putc CHR ''?'' s
        else case sched_kill_at (sint pid) 0 (kbd_irq_frame (kb s)) (sc (kn s)) of (ok, fo, sd) \<Rightarrow>
          ask (ok, set_kb (\<lambda>k. k\<lparr>kbd_irq_frame := fo\<rparr>) (set_sched (\<lambda>_. sd) s)))"

definition start_prog :: "string \<Rightarrow> string option \<Rightarrow> 'd os \<Rightarrow> 'd os" where
  "start_prog name arg s = ask (on_kern (user_run name arg) s)"

definition run_prog :: "string \<Rightarrow> 'd os \<Rightarrow> 'd os" where
  "run_prog arg s =
     (case take_word 40 arg of (name, r) \<Rightarrow>
      let path = skip_ws r in
      if name = [] then putc CHR ''?'' s
      else if name = ''cat'' \<or> name = ''stat'' \<or> name = ''kill'' then
        (if path = [] then putc CHR ''?'' s else start_prog name (Some path) s)
      else if name = ''sh'' \<or> name = ''echo'' then start_prog name (if path \<noteq> [] then Some path else None) s
      else if path \<noteq> [] then putc CHR ''?'' s
      else start_prog name None s)"

definition parse_side :: "string \<Rightarrow> (string \<times> string) option" where
  "parse_side s0 =
     (let s = skip_ws s0 in
      if s = [] then None
      else case take_word 40 s of (name, r) \<Rightarrow>
        if name = [] then None
        else if name = ''run'' then
          (case take_word 40 r of (name2, r2) \<Rightarrow> if name2 = [] then None else Some (name2, skip_ws r2))
        else Some (name, skip_ws r))"

definition strip_end :: "string \<Rightarrow> string" where
  "strip_end s = rev (dropWhile (\<lambda>c. c = CHR '' '') (rev s))"

definition no_arg :: "string \<Rightarrow> string option" where
  "no_arg a = (if a = [] then None else Some a)"

definition run_pipe_line :: "string \<Rightarrow> 'd os \<Rightarrow> 'd os" where
  "run_pipe_line cmd s =
     (if length (filter (\<lambda>c. c = CHR ''|'') cmd) \<noteq> 1 then putc CHR ''?'' s
      else let l = takeWhile (\<lambda>c. c \<noteq> CHR ''|'') cmd; r = drop (Suc (length l)) cmd in
        case (parse_side (strip_end l), parse_side r) of
          (Some (left_name, left_arg), Some (right_name, right_arg)) \<Rightarrow>
            ask (on_kern (user_run_pipeline left_name (no_arg left_arg) right_name (no_arg right_arg)) s)
        | _ \<Rightarrow> putc CHR ''?'' s)"

text \<open>The redirections of a line: how many inputs, outputs and appending outputs, and where the last one stands.\<close>

fun redir_scan :: "nat \<Rightarrow> string \<Rightarrow> nat \<times> nat \<times> nat \<times> nat \<Rightarrow> nat \<times> nat \<times> nat \<times> nat" where
  "redir_scan i [] acc = acc"
| "redir_scan i (c # us) (n_in, n_out, n_app, op) =
     (if c = CHR ''<'' then redir_scan (Suc i) us (Suc n_in, n_out, n_app, i)
      else if c = CHR ''>'' \<and> us \<noteq> [] \<and> hd us = CHR ''>'' then redir_scan (i + 2) (tl us) (n_in, Suc n_out, Suc n_app, i)
      else if c = CHR ''>'' then redir_scan (Suc i) us (n_in, Suc n_out, n_app, i)
      else redir_scan (Suc i) us (n_in, n_out, n_app, op))"

text \<open>The output file before the program starts: emptied, or for appending created if it is missing; \<open>Some\<close> the offset.\<close>

definition redir_file :: "bool \<Rightarrow> bool \<Rightarrow> string \<Rightarrow> 'd os \<Rightarrow> u32 option \<times> 'd os" where
  "redir_file out app name s =
     (if \<not> out then (Some 0, s)
      else if app then
        (case on_files (fs_lookup (Some name)) s of
           (Some (p, ln), s1) \<Rightarrow> (Some ln, s1)
         | (None, s1) \<Rightarrow> (case on_files (fs_write (Some name) (Some []) 0) s1 of (ok, s2) \<Rightarrow> (if ok then Some 0 else None, s2)))
      else (case on_files (fs_write (Some name) (Some []) 0) s of (ok, s1) \<Rightarrow> (if ok then Some 0 else None, s1)))"

definition run_redir_line :: "string \<Rightarrow> 'd os \<Rightarrow> 'd os" where
  "run_redir_line cmd s =
     (case redir_scan 0 cmd (0, 0, 0, 0) of (n_in, n_out, n_app, op) \<Rightarrow>
      if n_in + n_out \<noteq> 1 then putc CHR ''?'' s
      else let name = fst (take_word 40 (drop (op + (if n_app \<noteq> 0 then 2 else 1)) cmd)) in
        if name = [] then putc CHR ''?'' s
        else case parse_side (strip_end (take op cmd)) of
            None \<Rightarrow> putc CHR ''?'' s
          | Some (prog, arg) \<Rightarrow>
              (case redir_file (n_out \<noteq> 0) (n_app \<noteq> 0) name s of
                 (None, s1) \<Rightarrow> putc CHR ''?'' s1
               | (Some off, s1) \<Rightarrow>
                   (case on_kern (user_run prog (no_arg arg)) s1 of (ok, s2) \<Rightarrow>
                      if \<not> ok then putc CHR ''?'' s2
                      else ask (on_kern (on_sched (sched_fd_bind_file (if n_in \<noteq> 0 then 0 else 1) (Some name) off)) s2))))"

definition help_text :: string where
  "help_text = ''help ls mem cat run put rm mv cp ln fill trunc sync devs mkdir rmdir cd pwd ps kill uptime date | < > >>''"

definition run_mem :: "'d os \<Rightarrow> 'd os" where
  "run_mem s = kbd_put_uint (ucast (pmm_free_count (pm (vm (sc (kn s)))))) s"

definition run_uptime :: "'d os \<Rightarrow> 'd os" where
  "run_uptime s = kbd_put_uint (ticks (sc (kn s)) div 100) s"

definition run_cmd :: "(nat \<Rightarrow> u8 \<Rightarrow> u8) \<Rightarrow> string \<Rightarrow> 'd os \<Rightarrow> 'd os option" where
  "run_cmd cmos cmd s =
     (if CHR ''|'' \<in> set cmd then Some (run_pipe_line cmd s)
      else if CHR ''<'' \<in> set cmd \<or> CHR ''>'' \<in> set cmd then Some (run_redir_line cmd s)
      else if cmd = ''help'' then Some (puts_cur help_text s)
      else if cmd = ''mem'' then Some (run_mem s)
      else if cmd = ''uptime'' then Some (run_uptime s)
      else if cmd = ''date'' then run_date cmos s
      else if cmd = ''pwd'' then Some (run_pwd s)
      else if cmd = ''ps'' then Some (run_ps s)
      else if cmd_is cmd ''kill'' then Some (run_kill (drop 4 cmd) s)
      else if cmd_is cmd ''ls'' then Some (run_ls (drop 2 cmd) s)
      else if cmd_is cmd ''cat'' then Some (run_cat (drop 3 cmd) s)
      else if cmd_is cmd ''run'' then Some (run_prog (drop 3 cmd) s)
      else if cmd_is cmd ''put'' then Some (run_put (drop 3 cmd) s)
      else if cmd_is cmd ''rmdir'' then Some (run_rmdir (drop 5 cmd) s)
      else if cmd_is cmd ''rm'' then Some (run_rm (drop 2 cmd) s)
      else if cmd_is cmd ''mv'' then Some (run_mv (drop 2 cmd) s)
      else if cmd_is cmd ''cp'' then Some (run_cp (drop 2 cmd) s)
      else if cmd_is cmd ''ln'' then Some (run_ln (drop 2 cmd) s)
      else if cmd_is cmd ''fill'' then run_fill (drop 4 cmd) s
      else if cmd_is cmd ''trunc'' then Some (run_trunc (drop 5 cmd) s)
      else if cmd = ''sync'' then Some (run_sync s)
      else if cmd = ''devs'' then Some (run_devs s)
      else if cmd_is cmd ''mkdir'' then Some (run_mkdir (drop 5 cmd) s)
      else if cmd_is cmd ''cd'' then Some (run_cd (drop 2 cmd) s)
      else Some (putc CHR ''?'' s))"

definition run_line :: "(nat \<Rightarrow> u8 \<Rightarrow> u8) \<Rightarrow> 'd os \<Rightarrow> 'd os option" where
  "run_line cmos s =
     (let cmd = strip_end (skip_ws (line_text s)) in
      if cmd = [] then Some s else run_cmd cmos cmd (putc CHR 0x0A s))"

section \<open>Lines for tasks\<close>

definition kbd_reset :: "kbd \<Rightarrow> kbd" where
  "kbd_reset k = k\<lparr>shift := False, caps := False, ctrl := False, ext := False, line := None, stdin_len := 0, stdin_have := 0\<rparr>"

definition KBD_DATA :: nat where "KBD_DATA = 0x60"
definition KBD_STATUS :: nat where "KBD_STATUS = 0x64"
definition KBD_STATUS_OUT :: u8 where "KBD_STATUS_OUT = 0x01"
definition KBD_STATUS_AUX :: u8 where "KBD_STATUS_AUX = 0x20"

text \<open>The number of reads of the controller until its output is empty.\<close>

partial_function (option) kbd_drain :: "ports \<Rightarrow> nat \<Rightarrow> nat option" where
  "kbd_drain port n = (if port n KBD_STATUS AND KBD_STATUS_OUT \<noteq> 0 then kbd_drain port (n + 2) else Some (Suc n))"

definition kbd_init :: "ports \<Rightarrow> nat \<Rightarrow> 'd os \<Rightarrow> (nat \<times> 'd os) option" where
  "kbd_init port n s =
     (case kbd_drain port n of None \<Rightarrow> None
      | Some n1 \<Rightarrow> Some (n1, set_sched (\<lambda>x. x\<lparr>stdin_ready := False\<rparr>) (set_kb kbd_reset s)))"

definition kbd_console_init :: "'d os \<Rightarrow> 'd os option" where
  "kbd_console_init s =
     (case kmalloc (of_nat LINE_MAX) (kheap s) of
        None \<Rightarrow> None
      | Some (p, h) \<Rightarrow> Some (set_sched (\<lambda>x. x\<lparr>stdin_ready := False\<rparr>)
          (set_kb (\<lambda>k. k\<lparr>line := (if p = 0 then None else Some []), stdin_len := 0, stdin_have := 0\<rparr>) (s\<lparr>kheap := h\<rparr>))))"

definition kbd_prompt :: "'d os \<Rightarrow> 'd os" where
  "kbd_prompt s = prompt s"

definition kbd_stdin_prompt :: "'d os \<Rightarrow> 'd os" where
  "kbd_stdin_prompt s = fb_line True s"

definition kbd_overlay_refresh :: "'d os \<Rightarrow> 'd os" where
  "kbd_overlay_refresh s = prompt_line (sched_kbd_waiting (sc (kn s))) s"

definition kbd_console_sync :: "'d os \<Rightarrow> 'd os" where
  "kbd_console_sync s = show_fb (kbd_overlay_refresh (copy_screen s))"

definition kbd_stdin_ready :: "'d os \<Rightarrow> bool" where
  "kbd_stdin_ready s = stdin_ready (sc (kn s))"

text \<open>\<open>None\<close> is the result -2: no line yet.\<close>

definition kbd_stdin_take :: "u32 \<Rightarrow> 'd os \<Rightarrow> u8 list option \<times> 'd os" where
  "kbd_stdin_take room s =
     (if \<not> stdin_ready (sc (kn s)) then (None, s)
      else (Some (map of_char (take (min (stdin_have (kb s)) (unat room)) (stdin_buf (kb s)))),
            set_sched (\<lambda>x. x\<lparr>stdin_ready := False\<rparr>) (set_kb (\<lambda>k. k\<lparr>stdin_have := 0\<rparr>) s)))"

definition line_has_meta :: "string \<Rightarrow> bool" where
  "line_has_meta t \<longleftrightarrow> list_ex (\<lambda>c. c = CHR ''|'' \<or> c = CHR ''<'' \<or> c = CHR ''>'') t"

text \<open>The commands that the kernel runs itself while a task waits for a line.\<close>

definition dollar_cmd :: "string \<Rightarrow> bool" where
  "dollar_cmd t \<longleftrightarrow>
     t = ''ps'' \<or> t = ''help'' \<or> t = ''sync'' \<or> t = ''devs'' \<or> t = ''mem'' \<or> t = ''date'' \<or>
     cmd_is t ''mkdir'' \<or> cmd_is t ''mv'' \<or> cmd_is t ''cp'' \<or> cmd_is t ''ln'' \<or> cmd_is t ''rm'' \<or> cmd_is t ''fill'' \<or>
     cmd_is t ''trunc'' \<or> cmd_is t ''run'' \<or> cmd_is t ''kill'' \<or>
     (cmd_is t ''cat'' \<and> \<not> line_has_meta t) \<or> (cmd_is t ''ls'' \<and> \<not> line_has_meta t)"

definition dollar_run :: "(nat \<Rightarrow> u8 \<Rightarrow> u8) \<Rightarrow> string \<Rightarrow> 'd os \<Rightarrow> 'd os option" where
  "dollar_run cmos t s =
     (if t = ''ps'' then Some (run_ps s)
      else if cmd_is t ''kill'' then Some (run_kill (drop 4 t) s)
      else if t = ''help'' then Some (puts_cur help_text s)
      else if t = ''mem'' then Some (run_mem s)
      else if t = ''date'' then run_date cmos s
      else if t = ''sync'' then Some (run_sync s)
      else if t = ''devs'' then Some (run_devs s)
      else if cmd_is t ''mkdir'' then Some (run_mkdir (drop 5 t) s)
      else if cmd_is t ''fill'' then run_fill (drop 4 t) s
      else if cmd_is t ''trunc'' then Some (run_trunc (drop 5 t) s)
      else if cmd_is t ''run'' then Some (run_prog (drop 3 t) s)
      else if cmd_is t ''ls'' \<and> \<not> line_has_meta t then Some (run_ls (drop 2 t) s)
      else if cmd_is t ''cat'' \<and> \<not> line_has_meta t then Some (run_cat (drop 3 t) s)
      else if cmd_is t ''cp'' then Some (run_cp (drop 2 t) s)
      else if cmd_is t ''ln'' then Some (run_ln (drop 2 t) s)
      else if cmd_is t ''rm'' then Some (run_rm (drop 2 t) s)
      else Some (run_mv (drop 2 t) s))"

definition kbd_dollar_builtin :: "(nat \<Rightarrow> u8 \<Rightarrow> u8) \<Rightarrow> 'd os \<Rightarrow> (bool \<times> 'd os) option" where
  "kbd_dollar_builtin cmos s =
     (let t = strip_end (skip_ws (stdin_text s)) in
      if LINE_MAX \<le> stdin_len (kb s) + 1 then Some (False, s)
      else if \<not> dollar_cmd t then Some (False, s)
      else case dollar_run cmos t (putc CHR 0x0A s) of
          None \<Rightarrow> None
        | Some s1 \<Rightarrow> Some (True, kbd_stdin_prompt (set_kb (\<lambda>k. k\<lparr>stdin_len := 0\<rparr>) s1)))"

definition kbd_store :: "char \<Rightarrow> kbd \<Rightarrow> kbd" where
  "kbd_store c k =
     (if stdin_len k + 1 < LINE_MAX then k\<lparr>stdin_buf := (stdin_buf k)[stdin_len k := c], stdin_len := stdin_len k + 1\<rparr> else k)"

definition kbd_interrupt :: "'d os \<Rightarrow> 'd os" where
  "kbd_interrupt s =
     (case sched_signal_fg SIGINT 0 (kbd_irq_frame (kb s)) (sc (kn s)) of (ok, fo, sd) \<Rightarrow>
        set_kb (\<lambda>k. k\<lparr>kbd_irq_frame := fo\<rparr>) (set_sched (\<lambda>_. sd) s))"

text \<open>A character while a task waits for a line.\<close>

definition feed_stdin :: "(nat \<Rightarrow> u8 \<Rightarrow> u8) \<Rightarrow> char \<Rightarrow> 'd os \<Rightarrow> 'd os option" where
  "feed_stdin cmos c s =
     (if c = CHR 0x0A then
        (case kbd_dollar_builtin cmos s of
           None \<Rightarrow> None
         | Some (True, s1) \<Rightarrow> Some s1
         | Some (False, s1) \<Rightarrow>
             let s2 = set_kb (\<lambda>k. let k1 = kbd_store CHR 0x0A k in k1\<lparr>stdin_have := stdin_len k1, stdin_len := 0\<rparr>) s1
             in Some (fb_line True (putc CHR 0x0A (set_sched (\<lambda>x. sched_wake_kbd (x\<lparr>stdin_ready := True\<rparr>)) s2))))
      else if c = CHR 0x08 then
        Some (if 0 < stdin_len (kb s) then fb_line True (putc CHR 0x08 (set_kb (\<lambda>k. k\<lparr>stdin_len := stdin_len k - 1\<rparr>) s)) else s)
      else if c = CHR 0x09 then Some s
      else Some (fb_line True (putc c (set_kb (kbd_store c) s))))"

definition feed_line :: "(nat \<Rightarrow> u8 \<Rightarrow> u8) \<Rightarrow> char \<Rightarrow> 'd os \<Rightarrow> 'd os option" where
  "feed_line cmos c s =
     (if c = CHR 0x0A then
        (case (if line (kb s) \<noteq> None
               then map_option (set_kb (\<lambda>k. k\<lparr>line := Some []\<rparr>)) (run_line cmos s)
               else Some s) of
           None \<Rightarrow> None
         | Some s1 \<Rightarrow> Some (prompt (putc CHR 0x0A s1)))
      else if c = CHR 0x08 then
        Some (if line_text s \<noteq> [] then fb_line False (putc CHR 0x08 (set_kb (\<lambda>k. k\<lparr>line := Some (butlast (line_text s))\<rparr>) s)) else s)
      else if c = CHR 0x09 then Some s
      else let s1 = (if line (kb s) \<noteq> None \<and> length (line_text s) + 1 < LINE_MAX
                     then set_kb (\<lambda>k. k\<lparr>line := Some (line_text s @ [c])\<rparr>) s else s)
        in Some (fb_line False (putc c s1)))"

definition kbd_feed :: "(nat \<Rightarrow> u8 \<Rightarrow> u8) \<Rightarrow> char \<Rightarrow> 'd os \<Rightarrow> 'd os option" where
  "kbd_feed cmos c s =
     (if c = NUL then Some s
      else if c = CHR 0x03 then Some (kbd_interrupt s)
      else if sched_kbd_waiting (sc (kn s)) then feed_stdin cmos c s else feed_line cmos c s)"

section \<open>Scan codes\<close>

definition char_range :: "char \<Rightarrow> char \<Rightarrow> char \<Rightarrow> bool" where
  "char_range lo hi c \<longleftrightarrow> (of_char lo :: nat) \<le> of_char c \<and> of_char c \<le> (of_char hi :: nat)"

text \<open>The character of a key, under the shift and the caps lock keys; \<open>NUL\<close> for none.\<close>

definition key_char :: "bool \<Rightarrow> bool \<Rightarrow> u8 \<Rightarrow> char" where
  "key_char up cap code =
     (let c = (case map_of (if up then scan_map_shift else scan_map) (unat code) of None \<Rightarrow> NUL | Some c \<Rightarrow> c) in
      if c = NUL then NUL
      else if cap \<and> char_range CHR ''a'' CHR ''z'' c then char_of (of_char c - 97 + 65 :: nat)
      else if cap \<and> char_range CHR ''A'' CHR ''Z'' c \<and> \<not> up then char_of (of_char c - 65 + 97 :: nat)
      else c)"

definition kbd_scancode :: "(nat \<Rightarrow> u8 \<Rightarrow> u8) \<Rightarrow> u8 \<Rightarrow> 'd os \<Rightarrow> 'd os option" where
  "kbd_scancode cmos b s =
     (if b = SCAN_EXT then Some (set_kb (\<lambda>k. k\<lparr>ext := True\<rparr>) s)
      else if ext (kb s) then
        Some (set_kb (\<lambda>k. (if b = SCAN_LCTRL then k\<lparr>ctrl := True\<rparr> else if b = SCAN_LCTRL OR SCAN_RELEASE then k\<lparr>ctrl := False\<rparr> else k)
                \<lparr>ext := False\<rparr>) s)
      else if b = SCAN_LSHIFT \<or> b = SCAN_RSHIFT then Some (set_kb (\<lambda>k. k\<lparr>shift := True\<rparr>) s)
      else if b = SCAN_LSHIFT OR SCAN_RELEASE \<or> b = SCAN_RSHIFT OR SCAN_RELEASE then Some (set_kb (\<lambda>k. k\<lparr>shift := False\<rparr>) s)
      else if b = SCAN_LCTRL then Some (set_kb (\<lambda>k. k\<lparr>ctrl := True\<rparr>) s)
      else if b = SCAN_LCTRL OR SCAN_RELEASE then Some (set_kb (\<lambda>k. k\<lparr>ctrl := False\<rparr>) s)
      else if b = SCAN_CAPS then Some (set_kb (\<lambda>k. k\<lparr>caps := \<not> caps k\<rparr>) s)
      else if b AND SCAN_RELEASE \<noteq> 0 then Some s
      else let code = b AND 0x7F in
        if ctrl (kb s) \<and> code = SCAN_C then Some (kbd_interrupt s)
        else let c = key_char (shift (kb s)) (caps (kb s)) code in
          if c = NUL then Some s else kbd_feed cmos c s)"

definition kbd_set_irq_frame :: "interrupt_frame option \<Rightarrow> 'd os \<Rightarrow> 'd os" where
  "kbd_set_irq_frame fo s = set_kb (\<lambda>k. k\<lparr>kbd_irq_frame := fo\<rparr>) s"

definition os_mouse :: "u8 \<Rightarrow> 'd os \<Rightarrow> 'd os" where
  "os_mouse b s = (case mouse_on_byte b (con s, mou s, disp s) of (v, m, f) \<Rightarrow> set_con v (s\<lparr>mou := m, disp := f\<rparr>))"

text \<open>Up to sixteen bytes from the controller; \<open>n\<close> counts its reads.\<close>

fun kbd_poll :: "ports \<Rightarrow> (nat \<Rightarrow> u8 \<Rightarrow> u8) \<Rightarrow> nat \<Rightarrow> nat \<Rightarrow> 'd os \<Rightarrow> (nat \<times> 'd os) option" where
  "kbd_poll port cmos 0 n s = Some (n, s)"
| "kbd_poll port cmos (Suc i) n s =
     (let st = port n KBD_STATUS in
      if st AND KBD_STATUS_OUT = 0 then Some (Suc n, s)
      else let b = port (Suc n) KBD_DATA in
        case (if st AND KBD_STATUS_AUX \<noteq> 0 then Some (os_mouse b s) else kbd_scancode cmos b s) of
            None \<Rightarrow> None
          | Some s1 \<Rightarrow> kbd_poll port cmos i (n + 2) s1)"

definition kbd_handle :: "ports \<Rightarrow> (nat \<Rightarrow> u8 \<Rightarrow> u8) \<Rightarrow> interrupt_frame option \<Rightarrow> nat \<Rightarrow> 'd os \<Rightarrow> (nat \<times> 'd os) option" where
  "kbd_handle port cmos fo n s = kbd_poll port cmos 16 n (kbd_set_irq_frame fo s)"

end
