(* ===== verification/User_Start.thy ===== *)
theory User_Start
  imports User_Run
begin

text \<open>
  What the program start of \<open>kernel/user.c\<close> achieves: the arguments of a program on its stack, the
  working directory around a call, and mappings that are undone.
\<close>

section \<open>A page of one's own\<close>

text \<open>The page of \<open>va\<close> is mapped writable and no other entry maps its frame.\<close>

definition owned_page :: "u64 set \<Rightarrow> vmm \<Rightarrow> u64 \<Rightarrow> u64 \<Rightarrow> bool" where
  "owned_page S v R va \<longleftrightarrow> (\<exists>a. user_page v R va = Some (a, True, True) \<and> card (maps S v a) = 1)"

lemma own_mask: "va AND ADDR_MASK = wa AND ADDR_MASK \<Longrightarrow> owned_page S v R va = owned_page S v R wa"
  using user_page_mask [of va wa] by (simp add: owned_page_def)

lemma break_own:
  assumes ok: "spaces_ok S v" and R: "R \<in> S" and va: "pml4_ix va < 256" and own: "owned_page S v R va"
    and run: "vmm_cow_break R va v = (r, v')"
  shows "r" "owned_page S v' R va"
proof -
  let ?e = "pte v R (va_place va) (pt_ix va)"
  have m: "mapped ?e" "bit ?e 9" "card (maps S v (?e AND ADDR_MASK)) = 1"
    using own by (auto simp: owned_page_def user_page_def Let_def split: if_splits)
  then have ne: "maps S v (?e AND ADDR_MASK) \<noteq> {}" by auto
  have refs: "cow_refs (cow_tab v) (?e AND ADDR_MASK) \<le> 1" using refs_le_1 [OF ok ne] m(3) by simp
  have l: "vmm_leaf_pte R (va AND ADDR_MASK) v = Some (the (node v R (va_place va)), pt_ix va)"
    using leaf_pte_spec [OF spaces_okD(1) [OF ok] R, of "va AND ADDR_MASK"] va m(1) by simp
  have t: "tab_get v (the (node v R (va_place va))) (pt_ix va) = ?e" using pte_mapped_node [OF m(1)] by auto
  show r using run refs m(2) unfolding cow_break_alloc Let_def l option.case prod.case t by auto
  then show "owned_page S v' R va" using break_bytes(2) [OF ok R va run] by (auto simp: owned_page_def)
qed

lemma to_user_own:
  assumes "vm_ok S v" "R \<in> S" "user_range va (length bs)" "\<forall>i < length bs. (va + of_nat i) AND ADDR_MASK = p AND ADDR_MASK"
    and "pb = p AND ADDR_MASK \<longrightarrow> (\<exists>x. user_page v R p = Some (pg, True, x) \<and> card (maps S v pg) = 1)"
    and "owned_page S v R p" "to_user_loop R va pb pg bs v = (r, v')"
  shows "r \<and> owned_page S v' R p"
  using assms(1,3-7)
proof (induction bs arbitrary: va pb pg v)
  case Nil
  then show ?case by simp
next
  case (Cons b bs)
  have vap: "va AND ADDR_MASK = p AND ADDR_MASK" using Cons.prems(3) by force
  have va: "pml4_ix va < 256" using user_range_ix Cons.prems(2) by simp
  have rg: "user_range (va + 1) (length bs)" using user_range_Suc [of va "length bs"] Cons.prems(2) by simp
  have nx: "\<forall>i < length bs. (va + 1 + of_nat i) AND ADDR_MASK = p AND ADDR_MASK"
  proof (intro allI impI)
    fix i assume "i < length bs"
    then show "(va + 1 + of_nat i) AND ADDR_MASK = p AND ADDR_MASK" using Cons.prems(3) [rule_format, of "Suc i"] by (simp add: ac_simps)
  qed
  have step: "r \<and> owned_page S v' R p"
    if ok1: "vm_ok S v1" and up: "user_page v1 R va = Some (q, True, True)" "card (maps S v1 q) = 1"
      and run: "to_user_loop R (va + 1) (va AND ADDR_MASK) q bs (set_page_byte q (va AND 0xFFF) b v1) = (r, v')" for v1 q
  proof -
    have sp1: "spaces_ok S v1" using ok1 by (simp add: vm_ok_def)
    note P = poke_ok [OF sp1 assms(2) va up, where b = b]
    let ?v2 = "set_page_byte q (va AND 0xFFF) b v1"
    have pp: "user_page ?v2 R p = Some (q, True, True)" "card (maps S ?v2 q) = 1"
      using P(2) P(3) [OF assms(2) va] up user_page_mask [OF vap, of ?v2 R] by simp_all
    have q1: "va AND ADDR_MASK = p AND ADDR_MASK \<longrightarrow> (\<exists>x. user_page ?v2 R p = Some (q, True, x) \<and> card (maps S ?v2 q) = 1)"
      using pp by blast
    have q2: "owned_page S ?v2 R p" using pp unfolding owned_page_def by blast
    show ?thesis by (rule Cons.IH [OF vm_ok_step [OF P(1) ok1] rg nx q1 q2 run])
  qed
  obtain a where a: "user_page v R va = Some (a, True, True)" "card (maps S v a) = 1"
    using Cons.prems(5) [folded own_mask [OF vap]] by (auto simp: owned_page_def)
  show ?case
  proof (cases "va AND ADDR_MASK = pb")
    case True
    then have "pg = a" using Cons.prems(4) a(1) vap user_page_mask [OF vap, of v R] by auto
    then show ?thesis using step [OF Cons.prems(1) a] Cons.prems(6) True by (simp add: Let_def)
  next
    case False
    have sp: "spaces_ok S v" using Cons.prems(1) by (simp add: vm_ok_def)
    obtain ok v1 where br: "vmm_cow_break R va v = (ok, v1)" by fastforce
    have ok1: "vm_ok S v1" by (rule vm_ok_step [OF vm_step.cow_break [OF assms(2) va br] Cons.prems(1)])
    have ok "owned_page S v1 R va" using break_own [OF sp assms(2) va _ br] Cons.prems(5) own_mask [OF vap] by simp_all
    then obtain q where q: "user_page v1 R va = Some (q, True, True)" "card (maps S v1 q) = 1" by (auto simp: owned_page_def)
    have tr: "trees_ok S v1" using ok1 by (simp add: vm_ok_def spaces_okD(1))
    have "seek_page v1 R va (NOT 0) 0 = Some q"
      using seek_page_spec [OF tr assms(2) va, of "NOT 0" 0] no_page_yet [of va] q(1) by simp
    then obtain ph where ph: "vmm_translate_user R va v1 = Some ph" "ph AND ADDR_MASK = q"
      using no_page_yet [of va] by (auto simp: seek_page_def)
    have "to_user_loop R (va + 1) (va AND ADDR_MASK) q bs (set_page_byte q (va AND 0xFFF) b v1) = (r, v')"
      using Cons.prems(6) False br \<open>ok\<close> ph by (simp add: Let_def)
    then show ?thesis by (rule step [OF ok1 q])
  qed
qed

section \<open>The arguments of a program\<close>

lemma to_user_writes:
  assumes "vm_ok S v" "R \<in> S" "user_range va (length bs)" "\<forall>i < length bs. (va + of_nat i) AND ADDR_MASK = p AND ADDR_MASK" "owned_page S v R p"
  shows "\<exists>v'. copy_to_user_pml4 R va bs v = (True, v') \<and> vm_ok S v' \<and> owned_page S v' R p \<and> wrote S R va bs v v'"
proof -
  have R0: "R \<noteq> 0" using assms(1,2) trees_okD(4) spaces_okD(1) unfolding vm_ok_def by blast
  obtain r v' where run: "to_user_loop R va (NOT 0) 0 bs v = (r, v')" by fastforce
  then have c: "copy_to_user_pml4 R va bs v = (r, v')" using R0 by (cases bs) (simp_all add: copy_to_user_pml4_def)
  have C: "copied_out S R va bs v r v'"
    by (rule to_user_loop_spec [OF assms(1-3) _ run]) (use no_page_yet [of va] in simp)
  have "r \<and> owned_page S v' R p"
    by (rule to_user_own [OF assms(1-4) _ assms(5) run]) (use no_page_yet [of p] in metis)
  then show ?thesis using C c vm_ok_steps [OF _ assms(1)] unfolding copied_out_def by auto
qed

text \<open>Nothing changed but bytes of \<open>R\<close> from \<open>lo\<close> up to \<open>hi\<close>.\<close>

definition only_area :: "u64 set \<Rightarrow> u64 \<Rightarrow> nat \<Rightarrow> nat \<Rightarrow> vmm \<Rightarrow> vmm \<Rightarrow> bool" where
  "only_area S R lo hi v v' \<longleftrightarrow> (\<forall>R' \<in> S. \<forall>wa :: u64. unat wa < 2 ^ 47 \<longrightarrow> R' \<noteq> R \<or> unat wa < lo \<or> hi \<le> unat wa \<longrightarrow>
     user_byte v' R' wa = user_byte v R' wa)"

lemma only_area_refl: "only_area S R lo hi v v" by (simp add: only_area_def)

lemma only_area_wrote: "wrote S R va bs v v' \<Longrightarrow> lo \<le> unat va \<Longrightarrow> unat va + length bs \<le> hi \<Longrightarrow> only_area S R lo hi v v'"
  by (auto simp: only_area_def wrote_def)

lemma only_area_trans: "only_area S R lo hi v v1 \<Longrightarrow> only_area S R lo' hi' v1 v' \<Longrightarrow> lo'' \<le> lo \<Longrightarrow> lo'' \<le> lo' \<Longrightarrow> hi \<le> hi'' \<Longrightarrow> hi' \<le> hi'' \<Longrightarrow> only_area S R lo'' hi'' v v'"
  by (force simp: only_area_def)

lemma only_area_bytes:
  assumes "only_area S R lo hi v v'" "R \<in> S" "user_range wa n" "unat wa + n \<le> lo \<or> hi \<le> unat wa"
  shows "user_bytes v' R wa n = user_bytes v R wa n"
proof -
  have "user_byte v' R (wa + of_nat i) = user_byte v R (wa + of_nat i)" if i: "i < n" for i
  proof -
    have "unat (wa + of_nat i) = unat wa + i" using assms(3) i by (simp add: user_range_def unat_word_ariths unat_of_nat)
    moreover have "unat wa + i < lo \<or> hi \<le> unat wa + i" "unat wa + i < 2 ^ 47" using assms(3,4) i by (auto simp: user_range_def)
    ultimately show ?thesis using assms(1,2) unfolding only_area_def by metis
  qed
  then have "map (\<lambda>i. user_byte v' R (wa + of_nat i)) [0..<n] = map (\<lambda>i. user_byte v R (wa + of_nat i)) [0..<n]" by simp
  then show ?thesis by (simp only: user_bytes_def)
qed

definition str_at :: "vmm \<Rightarrow> u64 \<Rightarrow> u64 \<Rightarrow> string \<Rightarrow> bool" where
  "str_at v R va a \<longleftrightarrow> user_bytes v R va (Suc (length a)) = cstr_bytes a"

definition word_at :: "vmm \<Rightarrow> u64 \<Rightarrow> u64 \<Rightarrow> u64 \<Rightarrow> bool" where
  "word_at v R va w \<longleftrightarrow> user_bytes v R va 8 = le_bytes w"

text \<open>Addresses of the page below \<open>top\<close>.\<close>

lemma same_mask:
  assumes "unat va div 4096 = unat p div 4096"
  shows "(va :: u64) AND ADDR_MASK = p AND ADDR_MASK"
proof -
  have "unat (x AND ADDR_MASK) = unat x div 4096 * 4096" for x :: u64 unfolding ADDR_MASK_mask unat_and_not_mask by simp
  then show ?thesis using assms by (simp add: word_eq_by_unat)
qed

definition in_page :: "u64 \<Rightarrow> u64 \<Rightarrow> nat \<Rightarrow> bool" where
  "in_page p va n \<longleftrightarrow> unat p mod 4096 = 0 \<and> unat p + 4096 \<le> 2 ^ 47 \<and> unat p \<le> unat va \<and> unat va + n \<le> unat p + 4096"

lemma in_page_masks:
  assumes "in_page p va n"
  shows "\<forall>i < n. (va + of_nat i) AND ADDR_MASK = p AND ADDR_MASK" "user_range va n"
proof -
  show rg: "user_range va n" using assms by (simp add: in_page_def user_range_def)
  show "\<forall>i < n. (va + of_nat i) AND ADDR_MASK = p AND ADDR_MASK"
  proof (intro allI impI same_mask)
    fix i assume i: "i < n"
    have "unat (va + of_nat i) = unat va + i" using rg i by (simp add: user_range_def unat_word_ariths unat_of_nat)
    moreover have "(unat va + i) div 4096 = unat p div 4096"
      using assms i div_mult_mod_eq [of "unat p" 4096] by (intro div_nat_eqI) (auto simp: in_page_def)
    ultimately show "unat (va + of_nat i) div 4096 = unat p div 4096" by simp
  qed
qed

lemma page_writes:
  assumes "vm_ok S v" "R \<in> S" "in_page p va (length bs)" "owned_page S v R p"
  shows "\<exists>v'. copy_to_user_pml4 R va bs v = (True, v') \<and> vm_ok S v' \<and> owned_page S v' R p \<and>
    only_area S R (unat va) (unat va + length bs) v v' \<and> user_bytes v' R va (length bs) = bs"
proof -
  note I = in_page_masks [OF assms(3)]
  from to_user_writes [OF assms(1,2) I(2,1) assms(4)]
  obtain v' where "copy_to_user_pml4 R va bs v = (True, v')" "vm_ok S v'" "owned_page S v' R p" "wrote S R va bs v v'" by blast
  then show ?thesis using only_area_wrote [of S R va bs v v' "unat va" "unat va + length bs"] wrote_bytes [OF _ assms(2) I(2)] by auto
qed

lemma push_words_spec:
  assumes "vm_ok S v" "R \<in> S" "in_page p sp (8 * length ws)" "owned_page S v R p"
  shows "\<exists>v'. push_words R sp ws v = (True, v') \<and> vm_ok S v' \<and> owned_page S v' R p \<and> only_area S R (unat sp) (unat sp + 8 * length ws) v v' \<and>
    (\<forall>i < length ws. word_at v' R (sp + of_nat (8 * i)) (ws ! i))"
  using assms(1,3,4)
proof (induction ws arbitrary: sp v)
  case Nil
  then show ?case by (simp add: only_area_refl)
next
  case (Cons w ws)
  have l8: "length (le_bytes w) = 8" by (simp add: le_bytes_def)
  have "in_page p sp (length (le_bytes w))" using Cons.prems(2) by (simp add: in_page_def l8)
  from page_writes [OF Cons.prems(1) assms(2) this Cons.prems(3)]
  obtain v1 where v1: "copy_to_user_pml4 R sp (le_bytes w) v = (True, v1)" "vm_ok S v1" "owned_page S v1 R p"
    "only_area S R (unat sp) (unat sp + 8) v v1" "word_at v1 R sp w" by (auto simp: l8 word_at_def)
  have u8: "unat (sp + 8) = unat sp + 8" using Cons.prems(2) by (simp add: in_page_def unat_word_ariths)
  have "in_page p (sp + 8) (8 * length ws)" using Cons.prems(2) by (simp add: in_page_def u8)
  from Cons.IH [OF v1(2) this v1(3)]
  obtain v' where v': "push_words R (sp + 8) ws v1 = (True, v')" "vm_ok S v'" "owned_page S v' R p"
    "only_area S R (unat sp + 8) (unat sp + 8 + 8 * length ws) v1 v'"
    and w': "\<forall>i < length ws. word_at v' R (sp + 8 + of_nat (8 * i)) (ws ! i)" unfolding u8 by blast
  have "user_range sp 8" using Cons.prems(2) by (simp add: in_page_def user_range_def)
  then have w0: "word_at v' R sp w" using v1(5) only_area_bytes [OF v'(4) assms(2), of sp 8] by (simp add: word_at_def)
  have "word_at v' R (sp + of_nat (8 * i)) ((w # ws) ! i)" if "i < length (w # ws)" for i
  proof (cases i)
    case 0
    then show ?thesis using w0 by simp
  next
    case (Suc j)
    then show ?thesis using w' that by (simp add: ac_simps)
  qed
  moreover have "only_area S R (unat sp) (unat sp + 8 * length (w # ws)) v v'" by (rule only_area_trans [OF v1(4) v'(4)]) simp_all
  ultimately show ?case using v1(1) v' by simp
qed

definition args_size :: "string list \<Rightarrow> nat" where
  "args_size argv = sum_list (map (\<lambda>a. Suc (length a)) argv)"

lemma push_strings_spec:
  assumes "vm_ok S v" "R \<in> S" "\<forall>a \<in> set argv. a \<noteq> [] \<and> length a < FD_PATH_MAX" "owned_page S v R p"
    and "unat p mod 4096 = 0" "unat p + 4096 \<le> 2 ^ 47" "unat sp \<le> unat p + 4096" "unat p + args_size argv \<le> unat sp"
  shows "\<exists>sp' vas v'. push_strings R p sp argv v = (Some (sp', vas), v') \<and> vm_ok S v' \<and> owned_page S v' R p \<and>
    unat sp' + args_size argv = unat sp \<and> length vas = length argv \<and> only_area S R (unat sp') (unat sp) v v' \<and>
    (\<forall>i < length argv. unat sp' \<le> unat (vas ! i) \<and> unat (vas ! i) + length (argv ! i) < unat sp \<and> str_at v' R (vas ! i) (argv ! i))"
  using assms(1,3,4,7,8)
proof (induction argv arbitrary: sp v)
  case Nil
  then show ?case by (simp add: args_size_def only_area_refl)
next
  case (Cons a argv)
  let ?n = "of_nat (length a) + 1 :: u64"
  have a: "a \<noteq> []" "length a < 32" using Cons.prems(2) by (simp_all add: FD_PATH_MAX_def)
  have n: "unat ?n = Suc (length a)" using a(2) by (simp add: unat_word_ariths unat_of_nat)
  have sz: "args_size (a # argv) = Suc (length a) + args_size argv" by (simp add: args_size_def)
  have pn: "unat (p + ?n) = unat p + Suc (length a)" using n a(2) assms(6) by (simp add: unat_word_ariths)
  have ge: "\<not> sp < p + ?n" using Cons.prems(5) sz pn by (simp add: word_less_nat_alt)
  have "unat ?n \<le> unat sp" unfolding n using Cons.prems(5) sz by linarith
  then have un: "unat (sp - ?n) = unat sp - Suc (length a)" using n by (metis unat_sub_le word_le_nat_alt)
  have l: "length (cstr_bytes a) = Suc (length a)" by (simp add: cstr_bytes_def)
  have "in_page p (sp - ?n) (length (cstr_bytes a))" using assms(5,6) Cons.prems(4,5) sz un by (simp add: in_page_def l)
  from page_writes [OF Cons.prems(1) assms(2) this Cons.prems(3)]
  obtain v1 where v1: "copy_to_user_pml4 R (sp - ?n) (cstr_bytes a) v = (True, v1)" "vm_ok S v1" "owned_page S v1 R p"
    "only_area S R (unat (sp - ?n)) (unat (sp - ?n) + Suc (length a)) v v1" "str_at v1 R (sp - ?n) a" unfolding l str_at_def by blast
  have b: "unat (sp - ?n) \<le> unat p + 4096" "unat p + args_size argv \<le> unat (sp - ?n)" "\<forall>a \<in> set argv. a \<noteq> [] \<and> length a < FD_PATH_MAX"
    using un Cons.prems(2,4,5) sz by simp_all
  from Cons.IH [OF v1(2) b(3) v1(3) b(1,2)]
  obtain sp' vas v' where v': "push_strings R p (sp - ?n) argv v1 = (Some (sp', vas), v')" "vm_ok S v'" "owned_page S v' R p"
    "unat sp' + args_size argv = unat (sp - ?n)" "length vas = length argv" "only_area S R (unat sp') (unat (sp - ?n)) v1 v'"
    and st: "\<forall>i < length argv. unat sp' \<le> unat (vas ! i) \<and> unat (vas ! i) + length (argv ! i) < unat (sp - ?n) \<and> str_at v' R (vas ! i) (argv ! i)"
    by blast
  have "user_range (sp - ?n) (Suc (length a))" using un Cons.prems(4,5) sz assms(6) by (simp add: user_range_def)
  then have "str_at v' R (sp - ?n) a" using v1(5) only_area_bytes [OF v'(6) assms(2)] by (simp add: str_at_def)
  then have all: "unat sp' \<le> unat (((sp - ?n) # vas) ! i) \<and> unat (((sp - ?n) # vas) ! i) + length ((a # argv) ! i) < unat sp \<and>
      str_at v' R (((sp - ?n) # vas) ! i) ((a # argv) ! i)" if "i < length (a # argv)" for i
    using that st v'(4) un Cons.prems(5) sz by (cases i) fastforce+
  have "only_area S R (unat sp') (unat sp) v v'" by (rule only_area_trans [OF v1(4) v'(6)]) (use v'(4) un Cons.prems(5) sz in simp_all)
  moreover have "push_strings R p sp (a # argv) v = (Some (sp', (sp - ?n) # vas), v')"
    using a ge v1(1) v'(1) by (simp add: FD_PATH_MAX_def Let_def)
  moreover have "unat sp' + args_size (a # argv) = unat sp" using v'(4) un Cons.prems(5) sz by linarith
  ultimately show ?case using v'(2,3,5) all by (intro exI [of _ sp'] exI [of _ "(sp - ?n) # vas"] exI [of _ v']) auto
qed

lemma push_strings_bad: "\<not> (\<forall>a \<in> set argv. a \<noteq> [] \<and> length a < FD_PATH_MAX) \<Longrightarrow> fst (push_strings R p sp argv v) = None"
proof (induction argv arbitrary: sp v)
  case (Cons a argv)
  show ?case
  proof (cases "a \<noteq> [] \<and> length a < FD_PATH_MAX")
    case True
    then have n: "fst (push_strings R p x argv v1) = None" for x v1 using Cons by simp
    have "(case push_strings R p x argv v1 of (None, v2) \<Rightarrow> (None, v2) | (Some (sp', vas), v2) \<Rightarrow> (Some (sp', x # vas), v2)) =
        (None, snd (push_strings R p x argv v1))" for x v1 using n [of x v1] by (cases "push_strings R p x argv v1") simp
    then show ?thesis using True by (auto simp: Let_def split: prod.splits)
  qed (auto simp: Let_def)
qed simp

lemma unat_align8: "unat (x AND NOT 7 :: u64) = unat x div 8 * 8"
proof -
  have "(7 :: u64) = mask 3" by (simp add: mask_eq_exp_minus_1)
  then have "unat (x AND NOT 7) = unat x div 2 ^ 3 * 2 ^ 3" by (simp only: unat_and_not_mask)
  moreover have "(2 :: nat) ^ 3 = 8" by simp
  ultimately show ?thesis by (simp only:)
qed

lemma args_size_bound: "\<forall>a \<in> set argv. length a < FD_PATH_MAX \<Longrightarrow> args_size argv \<le> 32 * length argv"
  by (induction argv) (auto simp: args_size_def FD_PATH_MAX_def)

definition args_ok :: "string list \<Rightarrow> bool" where
  "args_ok argv \<longleftrightarrow> argv \<noteq> [] \<and> length argv \<le> USER_ARGV_MAX \<and> (\<forall>a \<in> set argv. a \<noteq> [] \<and> length a < FD_PATH_MAX)"

text \<open>The stack of a program: the count, the pointers to the arguments, a zero; and the arguments above.\<close>

definition args_at :: "vmm \<Rightarrow> u64 \<Rightarrow> u64 \<Rightarrow> string list \<Rightarrow> bool" where
  "args_at v R sp argv \<longleftrightarrow> word_at v R sp (of_nat (length argv)) \<and> word_at v R (sp + of_nat (8 * Suc (length argv))) 0 \<and>
     (\<forall>i < length argv. \<exists>va. word_at v R (sp + of_nat (8 * Suc i)) va \<and> str_at v R va (argv ! i) \<and>
        unat sp + 8 * (length argv + 2) \<le> unat va)"

text \<open>
  C11. The arguments of a program. On a page of its own below the top of the stack, one to four
  non-empty arguments of less than 32 bytes are always stored: the stack pointer that
  \<open>user_push_argv\<close> returns is aligned and lies in the page; it points to the count, the pointers to
  the terminated strings and a zero word; and no byte outside that area changes in any address
  space. All other argument lists are refused.
\<close>

theorem argv_on_stack:
  assumes "vm_ok S v" "R \<in> S" "owned_page S v R (tp - PAGE_4K)" "unat tp mod 4096 = 0" "4096 \<le> unat tp" "unat tp \<le> 2 ^ 47"
  shows "if args_ok argv
    then \<exists>sp v'. user_push_argv R tp argv v = (Some sp, v') \<and> vm_ok S v' \<and> args_at v' R sp argv \<and>
      unat sp mod 8 = 0 \<and> unat tp - 4096 \<le> unat sp \<and> unat sp < unat tp \<and> only_area S R (unat sp) (unat tp) v v'
    else fst (user_push_argv R tp argv v) = None"
proof (cases "args_ok argv")
  case bad: False
  show ?thesis
  proof (cases "argv = [] \<or> USER_ARGV_MAX < length argv")
    case True
    then show ?thesis using bad by (simp add: user_push_argv_def)
  next
    case False
    then have "\<not> (\<forall>a \<in> set argv. a \<noteq> [] \<and> length a < FD_PATH_MAX)" using bad unfolding args_ok_def by auto
    from push_strings_bad [OF this] obtain v1 where "push_strings R (tp - PAGE_4K) tp argv v = (None, v1)" by (metis eq_fst_iff)
    then show ?thesis using bad by (simp add: user_push_argv_def)
  qed
next
  case True
  let ?p = "tp - PAGE_4K"
  let ?k = "length argv"
  have R0: "R \<noteq> 0" using assms(1,2) trees_okD(4) spaces_okD(1) unfolding vm_ok_def by blast
  have A: "argv \<noteq> []" "?k \<le> 4" "0 < ?k" "\<forall>a \<in> set argv. a \<noteq> [] \<and> length a < FD_PATH_MAX"
    using True by (auto simp: args_ok_def USER_ARGV_MAX_def)
  have sz: "args_size argv \<le> 128" using args_size_bound [of argv] A by simp
  have p: "unat ?p = unat tp - 4096" using assms(5) by (subst unat_sub_le) (simp_all add: word_le_nat_alt)
  have pm: "unat ?p mod 4096 = 0" "unat ?p + 4096 \<le> 2 ^ 47" "unat tp \<le> unat ?p + 4096" "unat ?p + args_size argv \<le> unat tp"
    using p assms(4-6) sz by (simp_all add: mod_eq_0_iff_dvd)
  from push_strings_spec [OF assms(1,2) A(4) assms(3) pm]
  obtain sp0 vas v1 where s1: "push_strings R ?p tp argv v = (Some (sp0, vas), v1)" "vm_ok S v1" "owned_page S v1 R ?p"
    "unat sp0 + args_size argv = unat tp" "length vas = ?k" "only_area S R (unat sp0) (unat tp) v v1"
    and st: "\<forall>i < ?k. unat sp0 \<le> unat (vas ! i) \<and> unat (vas ! i) + length (argv ! i) < unat tp \<and> str_at v1 R (vas ! i) (argv ! i)"
    by blast
  define sp1 n8 where "sp1 = sp0 AND NOT 7" and "n8 = (of_nat ?k + 2 :: u64) * 8"
  have u1: "unat sp1 = unat sp0 div 8 * 8" unfolding sp1_def by (rule unat_align8)
  have n8: "unat n8 = 8 * (?k + 2)" using A(2) by (simp add: n8_def unat_word_ariths unat_of_nat)
  have m8: "unat sp0 mod 8 < 8" by simp
  have big: "unat ?p + unat n8 \<le> unat sp1" "unat sp1 \<le> unat sp0"
    using u1 n8 A(2) s1(4) sz p assms(5) m8 div_mult_mod_eq [of "unat sp0" 8] by presburger+
  have pn: "unat (?p + n8) = unat ?p + unat n8" using big pm(2) n8 A(2) by (simp add: unat_word_ariths)
  then have nlt: "\<not> sp1 < ?p + n8" using big by (simp add: word_less_nat_alt)
  have "n8 \<le> sp1" using big by (simp add: word_le_nat_alt)
  then have u2: "unat (sp1 - n8) = unat sp1 - unat n8" by (rule unat_sub_le)
  let ?ws = "of_nat ?k # vas @ [0 :: u64]"
  have lw: "8 * length ?ws = unat n8" using s1(5) n8 by simp
  have "in_page ?p (sp1 - n8) (8 * length ?ws)" unfolding lw using pm(1,2) u2 big s1(4) p assms(5) by (simp add: in_page_def)
  from push_words_spec [OF s1(2) assms(2) this s1(3)]
  obtain v2 where w: "push_words R (sp1 - n8) ?ws v1 = (True, v2)" "vm_ok S v2" "only_area S R (unat (sp1 - n8)) (unat sp1) v1 v2"
    and ws: "\<forall>i < length ?ws. word_at v2 R (sp1 - n8 + of_nat (8 * i)) (?ws ! i)" unfolding lw u2 using big by auto
  have run: "user_push_argv R tp argv v = (Some (sp1 - n8), v2)"
    using R0 A assms(5) s1(1) nlt w(1) by (auto simp: user_push_argv_def USER_ARGV_MAX_def Let_def sp1_def n8_def)
  have "word_at v2 R (sp1 - n8 + of_nat (8 * Suc i)) (vas ! i) \<and> str_at v2 R (vas ! i) (argv ! i) \<and> unat (sp1 - n8) + 8 * (?k + 2) \<le> unat (vas ! i)"
    if i: "i < ?k" for i
  proof (intro conjI)
    show "word_at v2 R (sp1 - n8 + of_nat (8 * Suc i)) (vas ! i)"
      using ws [rule_format, of "Suc i"] i s1(5) by (simp add: nth_append)
    have "user_range (vas ! i) (Suc (length (argv ! i)))" using st i assms(6) by (force simp: user_range_def)
    then show "str_at v2 R (vas ! i) (argv ! i)"
      using st i big(2) only_area_bytes [OF w(3) assms(2)] by (force simp: str_at_def)
    show "unat (sp1 - n8) + 8 * (?k + 2) \<le> unat (vas ! i)" using st i u2 n8 big by force
  qed
  moreover have "word_at v2 R (sp1 - n8) (of_nat ?k)" using ws [rule_format, of 0] by simp
  moreover have "word_at v2 R (sp1 - n8 + of_nat (8 * Suc ?k)) 0" using ws [rule_format, of "Suc ?k"] s1(5) by (simp add: nth_append)
  ultimately have "args_at v2 R (sp1 - n8) argv" unfolding args_at_def by blast
  moreover have "unat (sp1 - n8) mod 8 = 0" unfolding u2 u1 n8 by (simp add: mod_eq_0_iff_dvd)
  moreover have "only_area S R (unat (sp1 - n8)) (unat tp) v v2"
    by (rule only_area_trans [OF s1(6) w(3)]) (use u2 big s1(4) in simp_all)
  moreover have "unat tp - 4096 \<le> unat (sp1 - n8)" "unat (sp1 - n8) < unat tp"
    using u2 big p n8 s1(4) by (linarith, simp)
  ultimately show ?thesis using run w(2) True by auto
qed

lemma demo_own: "owned_page {demo_root} demo_page demo_root 0x400000"
proof -
  let ?va = "0x400000 :: u64"
  have "leaf_place (va_place ?va) (pt_ix ?va)" by (rule leaf_place_va) (simp add: pml4_ix_def)
  moreover have "mapped (pte demo_page demo_root (va_place ?va) (pt_ix ?va))" "pte demo_page demo_root (va_place ?va) (pt_ix ?va) AND ADDR_MASK = 0x100000"
    using demo_page_ok(2) unfolding user_page_def Let_def by (simp_all split: if_splits)
  ultimately have "(demo_root, va_place ?va, pt_ix ?va) \<in> maps {demo_root} demo_page 0x100000" by (simp add: maps_here)
  then have "maps {demo_root} demo_page 0x100000 \<noteq> {}" by blast
  moreover have "finite (maps {demo_root} demo_page 0x100000)" by (rule finite_maps) simp
  ultimately have "0 < card (maps {demo_root} demo_page 0x100000)" by (simp add: card_gt_0_iff)
  then have "card (maps {demo_root} demo_page 0x100000) = 1" using demo_page_ok(4) [of "0x100000"] by linarith
  then show ?thesis using demo_page_ok(2) by (auto simp: owned_page_def)
qed

theorem argv_on_stack_witness:
  "\<exists>sp v'. user_push_argv demo_root 0x401000 [''sh'', ''/BIN''] demo_page = (Some sp, v') \<and> args_at v' demo_root sp [''sh'', ''/BIN'']"
proof -
  have a: "args_ok [''sh'', ''/BIN'']" by (simp add: args_ok_def USER_ARGV_MAX_def FD_PATH_MAX_def)
  have "owned_page {demo_root} demo_page demo_root (0x401000 - PAGE_4K)" using demo_own by simp
  from argv_on_stack [OF demo_exclusive _ this, of "[''sh'', ''/BIN'']", unfolded if_P [OF a]] show ?thesis by auto
qed

section \<open>Mappings\<close>

lemma mmap_loop_count: "mmap_loop c src va m n v = (m', v') \<Longrightarrow> m \<le> m' \<and> m' \<le> m + n"
  by (induction n arbitrary: va m v) (fastforce split: prod.splits if_splits)+

text \<open>The loop with its undoing is the one of \<open>user_brk\<close>.\<close>

lemma map_pages_loop:
  "map_pages c src va m n v =
     (case mmap_loop c src va m n v of (m', v') \<Rightarrow>
        if m' = m + n then (True, v') else (False, unmap_back c (va + of_nat (m' - m) * PAGE_4K) m' v'))"
proof (induction n arbitrary: va m v)
  case 0
  then show ?case by simp
next
  case (Suc n)
  obtain phys v1 where a: "alloc_user_page v = (phys, v1)" by fastforce
  obtain ok v2 where b: "vmm_map_user c va phys (poke_bytes phys 0 (src m) v1) = (ok, v2)" by fastforce
  obtain m' v' where l: "mmap_loop c src (va + PAGE_4K) (Suc m) n v2 = (m', v')" by fastforce
  have "Suc m \<le> m'" using mmap_loop_count [OF l] by simp
  then have e: "va + PAGE_4K + of_nat (m' - Suc m) * PAGE_4K = va + of_nat (m' - m) * PAGE_4K"
    by (cases m') (simp_all add: Suc_diff_le algebra_simps)
  show ?case using a b l Suc.IH [of "va + PAGE_4K" "Suc m" v2, unfolded l prod.case e] by auto
qed

lemma user_mmap_anonymous:
  assumes "sched_fd_kind fd (sc k) \<noteq> FD_KIND_FILE"
  shows "user_mmap hint n fd k =
    (case mmap_range hint n (sc k) of None \<Rightarrow> (- 1, k)
     | Some np \<Rightarrow> (case mmap_fill hint np None (sc k) of (r, s) \<Rightarrow> (r, k\<lparr>sc := s\<rparr>)))"
proof (cases "mmap_range hint n (sc k)")
  case (Some np)
  obtain m v where l: "mmap_loop (sched_current_cr3 (sc k)) (file_page None) hint 0 np (vm (sc k)) = (m, v)" by fastforce
  then show ?thesis using Some assms
    by (simp add: user_mmap_def mmap_file_def mmap_fill_def map_pages_loop on_vm_def Let_def)
qed (simp add: user_mmap_def)

text \<open>
  C10. \<open>mmap\<close> without a file. A range that fails the checks changes nothing. Otherwise either the call
  returns the address, every byte of the new pages reads zero, and \<open>munmap\<close> of the same range, if it
  lies outside the program and its stack, gives every task back exactly the view it had before; or
  memory is short, the call returns -1, and no task sees a difference.
\<close>

theorem mmap_munmap_roundtrip:
  assumes "vm_ok S (vm (sc k))" "sched_current_cr3 (sc k) \<in> S" "user_range hint 65536" "sched_fd_kind fd (sc k) \<noteq> FD_KIND_FILE"
    and "user_mmap hint n fd k = (r, k')"
  shows "case mmap_range hint n (sc k) of
      None \<Rightarrow> r = - 1 \<and> k' = k
    | Some np \<Rightarrow> vm_ok S (vm (sc k')) \<and>
        (if r = hint
         then (\<forall>i < np * 4096. user_byte (vm (sc k')) (sched_current_cr3 (sc k)) (hint + of_nat i) = Some 0) \<and>
           ((\<forall>i < np. \<not> (sched_current_base (sc k) \<le> hint + of_nat i * PAGE_4K \<and> hint + of_nat i * PAGE_4K < sched_current_base (sc k) + 2 * PAGE_4K)) \<longrightarrow>
             (\<exists>s. user_munmap hint n (sc k') = (0, s) \<and> vm_ok S (vm s) \<and>
               (\<forall>R \<in> S. \<forall>wa :: u64. unat wa < 2 ^ 47 \<longrightarrow> sees (vm s) R wa = sees (vm (sc k)) R wa)))
         else r = - 1 \<and> card (free_frames (pm (vm (sc k)))) < 4 * np \<and>
           (\<forall>R \<in> S. \<forall>wa :: u64. unat wa < 2 ^ 47 \<longrightarrow> sees (vm (sc k')) R wa = sees (vm (sc k)) R wa))"
proof (cases "mmap_range hint n (sc k)")
  case None
  then show ?thesis using assms(5) by (simp add: user_mmap_anonymous [OF assms(4)])
next
  case (Some np)
  let ?R = "sched_current_cr3 (sc k)"
  obtain s' where s': "mmap_fill hint np None (sc k) = (r, s')" "sc k' = s'"
    using assms(5) Some by (auto simp: user_mmap_anonymous [OF assms(4)] split: prod.splits)
  note F = mmap_fill_spec [OF assms(1-3) Some s'(1)]
  have zero: "user_byte (vm s') ?R (hint + of_nat i) = Some 0" if "r = hint" "i < np * 4096" for i
  proof -
    have g: "grown S ?R hint np (file_byte None) (vm (sc k)) (vm s')" using F that(1) by simp
    note U = mmap_unmapped(3) [OF assms(1-3) Some]
    have u: "unat (hint + of_nat i) = unat hint + i" "unat hint + i < 2 ^ 47"
      using U that(2) by (simp_all add: user_range_def unat_word_ariths unat_of_nat)
    have lt: "unat (hint + of_nat i) < 2 ^ 47" using u by simp
    show ?thesis using g [unfolded grown_def, rule_format, OF assms(2) lt] u(1) that(2) by (auto simp: sees_def file_byte_def)
  qed
  have un: "\<exists>s. user_munmap hint n s' = (0, s) \<and> vm_ok S (vm s) \<and> (\<forall>R \<in> S. \<forall>wa :: u64. unat wa < 2 ^ 47 \<longrightarrow> sees (vm s) R wa = sees (vm (sc k)) R wa)"
    if h: "r = hint" "\<forall>i < np. \<not> (sched_current_base (sc k) \<le> hint + of_nat i * PAGE_4K \<and> hint + of_nat i * PAGE_4K < sched_current_base (sc k) + 2 * PAGE_4K)"
  proof -
    note M = mmap_fill_munmap [OF assms(1-3) Some h(2) s'(1) [unfolded h(1)]]
    obtain s where s: "user_munmap hint n s' = (0, s)" "vm_ok S (vm s)" using M [OF assms(2), of 0] by auto
    then show ?thesis using M by auto
  qed
  show ?thesis unfolding Some option.case s'(2) using F zero un by (cases "r = hint") simp_all
qed

definition demo_kern :: "(nat \<Rightarrow> u8 list) kern" where
  "demo_kern = \<lparr>sc = demo_run,
     fsys = \<lparr>files = [], g_fat = None, g_sec = None, g_first_data = 3, g_first_root = 2, g_rsvd = 1, g_fatsz = 0, g_root_ent = 16,
       g_clusters = 0, g_cwd = 0, g_saved_cwd = 0, g_path = ''/'', g_dir = None, g_dir_bytes = 0, g_view = 0,
       ram = (\<lambda>p. replicate 4096 0), mem = pm demo_page, hhdm = True, dev = bio_demo\<rparr>,
     enter_ready = True, user_row = 0, run_row = 0, file_buf = [],
     cwd_saved_cl = 0, cwd_saved_path = [], cwd_switched = False\<rparr>"

theorem mmap_munmap_roundtrip_witness:
  "\<exists>k' s. user_mmap 0x500000 0x234 (- 1) demo_kern = (0x500000, k') \<and> user_munmap 0x500000 0x234 (sc k') = (0, s) \<and>
     sees (vm s) demo_root 0x500000 = sees demo_page demo_root 0x500000"
proof -
  obtain r k' where run: "user_mmap 0x500000 0x234 (- 1) demo_kern = (r, k')" by fastforce
  have sc: "sc demo_kern = demo_run" by (simp add: demo_kern_def)
  have fd: "sched_fd_kind (- 1) demo_run \<noteq> FD_KIND_FILE" by (simp add: sched_fd_kind_def valid_fd_def)
  have ok: "vm_ok {demo_root} (vm demo_run)" "sched_current_cr3 demo_run \<in> {demo_root}" "user_range 0x500000 65536"
    using demo_exclusive by (simp_all add: demo_run_current user_range_def)
  obtain s' where "mmap_fill 0x500000 1 None demo_run = (0x500000, s')" using demo_mmap(2) by blast
  then have r: "r = 0x500000" using run fd demo_mmap(1) by (simp add: user_mmap_anonymous sc)
  note T = mmap_munmap_roundtrip [OF ok [folded sc] fd [folded sc] run, unfolded sc demo_mmap(1) option.case if_P [OF r]]
  have "\<exists>s. user_munmap 0x500000 0x234 (sc k') = (0, s) \<and> vm_ok {demo_root} (vm s) \<and>
      (\<forall>R \<in> {demo_root}. \<forall>wa :: u64. unat wa < 2 ^ 47 \<longrightarrow> sees (vm s) R wa = sees (vm demo_run) R wa)"
    using T by (simp add: demo_current)
  then show ?thesis using run r by (auto simp: demo_run_current)
qed

end
