(* ===== verification/User_Calls.thy ===== *)
theory User_Calls
  imports Kbd User_Start
begin

text \<open>
  The system calls: \<open>user_on_syscall\<close> of \<open>kernel/user.c\<close>, one function for each call. The number and
  the arguments are in the registers of the frame \<open>f\<close>; the result is where the processor goes on, with
  the frame it returns through, and the new state. In the first half of the dispatcher a call runs on
  the tables of its task and switches to the boot tables (\<open>kernel_map\<close>) and back (\<open>task_map\<close>) itself; the
  second half runs on the boot tables.
\<close>

section \<open>Helpers\<close>

definition USER_STR_MAX :: nat where "USER_STR_MAX = 80"
definition FD_STDIN :: int where "FD_STDIN = 0"
definition FD_CONSOLE :: int where "FD_CONSOLE = 1"

abbreviation sched_of :: "'d os \<Rightarrow> sched" where "sched_of s \<equiv> sc (kn s)"

definition on_tasks :: "(sched \<Rightarrow> 'a \<times> sched) \<Rightarrow> 'd os \<Rightarrow> 'a \<times> 'd os" where
  "on_tasks g s = on_kern (on_sched g) s"

definition load_cr3 :: "u64 \<Rightarrow> 'd os \<Rightarrow> 'd os" where
  "load_cr3 c s = set_sched (\<lambda>x. x\<lparr>vm := vmm_set_cr3 c (vm x)\<rparr>) s"

definition kernel_map :: "'d os \<Rightarrow> 'd os" where
  "kernel_map s = load_cr3 vmm_boot_cr3 s"

definition task_map :: "'d os \<Rightarrow> 'd os" where
  "task_map s = load_cr3 (sched_current_cr3 (sched_of s)) s"

definition ret :: "u64 \<Rightarrow> interrupt_frame \<Rightarrow> 'd os \<Rightarrow> Sched.outcome \<times> 'd os" where
  "ret v f s = (Run (Some (f\<lparr>rax := v\<rparr>)), s)"

text \<open>A call that came back to a task continues on the tables of the running task.\<close>

definition resume :: "Sched.outcome \<times> 'd os \<Rightarrow> Sched.outcome \<times> 'd os" where
  "resume r = (case r of (Run fo, s) \<Rightarrow> (Run fo, task_map s) | (w, s) \<Rightarrow> (w, s))"

definition user_fail :: "interrupt_frame option \<Rightarrow> 'd os \<Rightarrow> Sched.outcome \<times> 'd os" where
  "user_fail fo s = (Run fo, set_con (vga_write_at (user_row (kn s)) 0 (Some ''user fail'') (con s)) s)"

definition buf_store :: "u8 list \<Rightarrow> 'd os \<Rightarrow> 'd os" where
  "buf_store bs s = s\<lparr>kn := (kn s)\<lparr>file_buf := blit 0 bs (file_buf (kn s))\<rparr>\<rparr>"

definition enter_cwd :: "'d os \<Rightarrow> bool \<times> 'd os" where
  "enter_cwd s = on_kern enter_task_cwd s"

definition leave_cwd :: "'d os \<Rightarrow> 'd os" where
  "leave_cwd s = s\<lparr>kn := leave_task_cwd (kn s)\<rparr>"

definition chars :: "u8 list \<Rightarrow> string" where
  "chars bs = map (\<lambda>b. char_of (unat b)) bs"

text \<open>The string at a user address: \<open>copy_from_user\<close> into the buffer of \<open>USER_STR_MAX\<close> bytes.\<close>

definition user_str :: "u64 \<Rightarrow> 'd os \<Rightarrow> string option" where
  "user_str va s =
     (case copy_from_user va (of_nat USER_STR_MAX) (sched_of s) of (ok, bs) \<Rightarrow> if ok then Some (chars (butlast bs)) else None)"

text \<open>Bytes into user memory; the result is their number, or -1 if they cannot be stored.\<close>

definition give :: "u64 \<Rightarrow> u8 list \<Rightarrow> u64 \<Rightarrow> interrupt_frame \<Rightarrow> 'd os \<Rightarrow> Sched.outcome \<times> 'd os" where
  "give dst bs v f s =
     (if bs = [] then ret v f s
      else case on_tasks (copy_to_user dst bs) s of (ok, s1) \<Rightarrow> ret (if ok then v else - 1) f s1)"

definition le32 :: "u32 \<Rightarrow> u8 list" where
  "le32 w = map (\<lambda>i. ucast (drop_bit (8 * i) w)) [0..<4]"

definition cap_len :: "u64 \<Rightarrow> u32" where
  "cap_len w = (let want = ucast w in if FILE_MAX < want then FILE_MAX else want)"

definition retry :: "interrupt_frame \<Rightarrow> interrupt_frame" where
  "retry f = f\<lparr>rip := rip f - 2\<rparr>"

section \<open>Write\<close>

definition write_pipe :: "int \<Rightarrow> u32 \<Rightarrow> interrupt_frame \<Rightarrow> 'd os \<Rightarrow> Sched.outcome \<times> 'd os" where
  "write_pipe fd want f s =
     (if want = 0 then ret 0 f s
      else case copy_from_user_n (rsi f) (ucast want) (sched_of s) of (ok, bs) \<Rightarrow>
        let s1 = buf_store bs s in
        if \<not> ok then ret (- 1) f s1
        else case on_tasks (sched_pipe_write fd (Some (file_buf (kn s1))) want) s1 of
            (WBlock, s2) \<Rightarrow> on_tasks (sched_block_pipe (Some (retry f)) (sched_fd_pipe fd (sched_of s2))) s2
          | (WErr, s2) \<Rightarrow> ret (- 1) f s2
          | (Took n, s2) \<Rightarrow> ret (ucast n) f s2)"

text \<open>
  The buffer of a write past the beginning of a file: the old contents up to the offset and then the
  new bytes; \<open>None\<close> when the file is missing, shorter than the offset, or would grow too long.
\<close>

definition append_buf :: "string \<Rightarrow> u32 \<Rightarrow> u32 \<Rightarrow> 'd os \<Rightarrow> bool \<times> 'd os" where
  "append_buf path off want s =
     (if off = 0 then (True, s)
      else case on_files (fs_lookup (Some path)) s of
          (None, s1) \<Rightarrow> (False, s1)
        | (Some (p, ln), s1) \<Rightarrow>
            if ln < off \<or> FILE_MAX < off + want then (False, s1)
            else (True, buf_store (take (unat off) (file_page_bytes (kn s1) p) @ take (unat want) (file_buf (kn s1))) s1))"

definition write_to_file :: "int \<Rightarrow> u32 \<Rightarrow> interrupt_frame \<Rightarrow> 'd os \<Rightarrow> Sched.outcome \<times> 'd os" where
  "write_to_file fd want f s =
     (case sched_fd_path fd (sched_of s) of
        None \<Rightarrow> ret (- 1) f s
      | Some path0 \<Rightarrow>
          let path = cstr path0 in
          if want = 0 then ret 0 f s
          else case copy_from_user_n (rsi f) (ucast want) (sched_of s) of (ok, bs) \<Rightarrow>
            let s1 = buf_store bs s in
            if \<not> ok then ret (- 1) f s1
            else case enter_cwd (kernel_map s1) of (ok2, s2) \<Rightarrow>
              if \<not> ok2 then resume (ret (- 1) f (leave_cwd s2))
              else let off = sched_fd_offset fd (sched_of s2) in
                case append_buf path off want s2 of (ok3, s3) \<Rightarrow>
                  if \<not> ok3 then resume (ret (- 1) f (leave_cwd s3))
                  else case on_files (fs_write (Some path) (Some (file_buf (kn s3))) (if off = 0 then want else off + want)) s3 of
                    (ok4, s4) \<Rightarrow>
                      if \<not> ok4 then resume (ret (- 1) f (leave_cwd s4))
                      else resume (ret (ucast want) f (snd (on_tasks (sched_fd_lseek fd (off + want)) (leave_cwd s4)))))"

definition write_console :: "u32 \<Rightarrow> interrupt_frame \<Rightarrow> 'd os \<Rightarrow> Sched.outcome \<times> 'd os" where
  "write_console want0 f s =
     (let want = (if of_nat USER_STR_MAX \<le> want0 then of_nat USER_STR_MAX - 1 else want0) in
      case copy_from_user_n (rsi f) (ucast want) (sched_of s) of (ok, bs) \<Rightarrow>
        if \<not> ok then ret (- 1) f s
        else let s1 = snd (on_tasks sched_note_write (kernel_map s))
          in resume (ret (ucast want) f (kbd_console_sync (puts_cur (chars bs) s1))))"

definition write_legacy :: "interrupt_frame \<Rightarrow> 'd os \<Rightarrow> Sched.outcome \<times> 'd os" where
  "write_legacy f s =
     (case user_str (rdi f) s of
        None \<Rightarrow> user_fail (Some f) s
      | Some str \<Rightarrow>
          let s1 = kernel_map s; row = sched_row (sched_of s1) in
          case on_tasks sched_note_write s1 of (n, s2) \<Rightarrow>
            let k = int (length str);
                s3 = (if n \<le> 8 \<or> n AND 31 = 0
                      then set_con (vga_write_dec_at row (k + 1) n (vga_write_at row k (Some (replicate 10 CHR '' ''))
                             (vga_write_at row 0 (Some str) (con s2)))) s2
                      else s2)
            in resume (Run (Some f), s3))"

definition sys_write :: "interrupt_frame \<Rightarrow> 'd os \<Rightarrow> Sched.outcome \<times> 'd os" where
  "sys_write f s =
     (if rdi f < of_nat FD_MAX then
        (let fd = int_arg (rdi f); want = cap_len (rdx f); kind = sched_fd_kind fd (sched_of s) in
         if kind = FD_KIND_PIPE_W then write_pipe fd want f s
         else if kind = FD_KIND_PIPE_R then ret (- 1) f s
         else if kind = FD_KIND_FILE then write_to_file fd want f s
         else if kind = FD_KIND_CONSOLE_W \<or> (fd = FD_CONSOLE \<and> kind = FD_KIND_NONE) then write_console want f s
         else ret (- 1) f s)
      else write_legacy f s)"

section \<open>Read\<close>

definition read_pipe :: "int \<Rightarrow> u32 \<Rightarrow> interrupt_frame \<Rightarrow> 'd os \<Rightarrow> Sched.outcome \<times> 'd os" where
  "read_pipe fd want f s =
     (if want = 0 then ret 0 f s
      else case on_tasks (sched_pipe_read fd True want) s of
          (Block, s1) \<Rightarrow> on_tasks (sched_block_pipe (Some (retry f)) (sched_fd_pipe fd (sched_of s1))) s1
        | (Err, s1) \<Rightarrow> ret (- 1) f s1
        | (Bytes bs, s1) \<Rightarrow> give (rsi f) bs (of_nat (length bs)) f (buf_store bs s1))"

text \<open>\<open>sched_block_kbd\<close> redraws the prompt of the display when it comes to wait.\<close>

definition block_kbd :: "interrupt_frame \<Rightarrow> 'd os \<Rightarrow> Sched.outcome \<times> 'd os" where
  "block_kbd f s =
     (let x = sched_of s;
          waits = (task_count x \<noteq> 0 \<and> \<not> task_has_pending (current x) x \<and> \<not> stdin_ready x)
      in on_tasks (sched_block_kbd (Some f)) (if waits then kbd_stdin_prompt s else s))"

definition read_console :: "u32 \<Rightarrow> interrupt_frame \<Rightarrow> 'd os \<Rightarrow> Sched.outcome \<times> 'd os" where
  "read_console want f s =
     (if want = 0 then ret 0 f s
      else case kbd_stdin_take want s of
          (None, s1) \<Rightarrow> block_kbd (retry f) s1
        | (Some bs, s1) \<Rightarrow> give (rsi f) bs (of_nat (length bs)) f (buf_store bs s1))"

definition read_file :: "int \<Rightarrow> u32 \<Rightarrow> interrupt_frame \<Rightarrow> 'd os \<Rightarrow> Sched.outcome \<times> 'd os" where
  "read_file fd want f s =
     (case sched_fd_path fd (sched_of s) of
        None \<Rightarrow> ret (- 1) f s
      | Some path \<Rightarrow> (case enter_cwd (kernel_map s) of (ok, s1) \<Rightarrow>
          case (if ok then on_files (fs_lookup (Some (cstr path))) s1 else (None, s1)) of
              (None, s2) \<Rightarrow> resume (ret (- 1) f (leave_cwd s2))
            | (Some (p, len0), s2) \<Rightarrow>
                let ln = (if FILE_MAX < len0 then FILE_MAX else len0);
                    off = sched_fd_offset fd (sched_of s2);
                    got = (if ln \<le> off then 0 else if ln - off < want then ln - off else want);
                    bs = take (unat got) (drop (unat off) (file_page_bytes (kn s2) p));
                    s3 = task_map (leave_cwd (buf_store bs s2))
                in case (if got = 0 then (True, s3) else on_tasks (copy_to_user (rsi f) bs) s3) of (ok4, s4) \<Rightarrow>
                     if \<not> ok4 then ret (- 1) f s4
                     else ret (ucast got) f (if got \<noteq> 0 then snd (on_tasks (sched_fd_lseek fd (off + got)) s4) else s4)))"

definition sys_read :: "interrupt_frame \<Rightarrow> 'd os \<Rightarrow> Sched.outcome \<times> 'd os" where
  "sys_read f s =
     (let fd = int_arg (rdi f); want = cap_len (rdx f); kind = sched_fd_kind fd (sched_of s) in
      if kind = FD_KIND_PIPE_R then read_pipe fd want f s
      else if kind = FD_KIND_PIPE_W then ret (- 1) f s
      else if kind = FD_KIND_CONSOLE_R \<or> (fd = FD_STDIN \<and> kind = FD_KIND_NONE) then read_console want f s
      else read_file fd want f s)"

section \<open>Directories and files\<close>

definition sys_readdir :: "interrupt_frame \<Rightarrow> 'd os \<Rightarrow> Sched.outcome \<times> 'd os" where
  "sys_readdir f s =
     (case enter_cwd (kernel_map s) of (ok, s1) \<Rightarrow>
      if \<not> ok then resume (ret (- 1) f s1)
      else let bs = map of_char (fs_readdir (cap_len (rsi f)) (fsys (kn s1)));
               s2 = task_map (leave_cwd (buf_store bs s1))
        in give (rdi f) bs (of_nat (length bs)) f s2)"

definition sys_getcwd :: "interrupt_frame \<Rightarrow> 'd os \<Rightarrow> Sched.outcome \<times> 'd os" where
  "sys_getcwd f s =
     (let want = cap_len (rsi f) in
      if want = 0 then ret (- 1) f s
      else let s1 = kernel_map s;
               pwd0 = sched_current_pwd (sched_of s1);
               pwd = (if pwd0 = [] then ''/'' else pwd0);
               out = map of_char (take (unat want - 1) pwd)
        in if unat want \<le> length pwd then resume (ret (- 1) f (buf_store out s1))
           else give (rdi f) out (of_nat (length out)) f (task_map (buf_store (out @ [0]) s1)))"

text \<open>Looking up a name, and for the modes 1 and 2 creating it first if it is missing.\<close>

definition open_lookup :: "u64 \<Rightarrow> string \<Rightarrow> 'd os \<Rightarrow> (u64 \<times> u32) option \<times> 'd os" where
  "open_lookup mode path s =
     (case on_files (fs_lookup (Some path)) s of
        (Some r, s1) \<Rightarrow> (Some r, s1)
      | (None, s1) \<Rightarrow>
          if mode \<noteq> 1 \<and> mode \<noteq> 2 then (None, s1)
          else case on_files (fs_write (Some path) (Some []) 0) s1 of (ok, s2) \<Rightarrow>
            if \<not> ok then (None, s2) else on_files (fs_lookup (Some path)) s2)"

definition sys_open :: "interrupt_frame \<Rightarrow> 'd os \<Rightarrow> Sched.outcome \<times> 'd os" where
  "sys_open f s =
     (case user_str (rdi f) s of
        None \<Rightarrow> ret (- 1) f s
      | Some path \<Rightarrow> (case enter_cwd (kernel_map s) of (ok, s1) \<Rightarrow>
          if \<not> ok then resume (ret (- 1) f (leave_cwd s1))
          else case open_lookup (rsi f) path s1 of
              (None, s2) \<Rightarrow> resume (ret (- 1) f (leave_cwd s2))
            | (Some (p, ln), s2) \<Rightarrow>
                (case on_tasks (sched_fd_open (Some path)) (leave_cwd s2) of
                   (None, s3) \<Rightarrow> resume (ret (- 1) f s3)
                 | (Some fd, s3) \<Rightarrow>
                     resume (ret (of_nat fd) f (if rsi f = 2 then snd (on_tasks (sched_fd_lseek (int fd) ln) s3) else s3)))))"

definition sys_stat :: "interrupt_frame \<Rightarrow> 'd os \<Rightarrow> Sched.outcome \<times> 'd os" where
  "sys_stat f s =
     (case user_str (rdi f) s of
        None \<Rightarrow> ret (- 1) f s
      | Some path \<Rightarrow> (case enter_cwd (kernel_map s) of (ok, s1) \<Rightarrow>
          case (if ok then on_files (fs_stat (Some path)) s1 else (None, s1)) of
              (None, s2) \<Rightarrow> resume (ret (- 1) f (leave_cwd s2))
            | (Some (sz, cl, dir), s2) \<Rightarrow>
                give (rsi f) (le32 sz @ le32 cl @ le32 (if dir then 1 else 0)) 0 f (task_map (leave_cwd s2))))"

definition sys_chdir :: "interrupt_frame \<Rightarrow> 'd os \<Rightarrow> Sched.outcome \<times> 'd os" where
  "sys_chdir f s =
     (case user_str (rdi f) s of
        None \<Rightarrow> ret (- 1) f s
      | Some path \<Rightarrow> (case on_kern (user_chdir path) (kernel_map s) of (ok, s1) \<Rightarrow>
          resume (ret (if ok then 0 else - 1) f s1)))"

definition sys_pipe :: "interrupt_frame \<Rightarrow> 'd os \<Rightarrow> Sched.outcome \<times> 'd os" where
  "sys_pipe f s =
     (case on_tasks sched_pipe s of
        (None, s1) \<Rightarrow> ret (- 1) f s1
      | (Some (r, w), s1) \<Rightarrow>
          (case on_tasks (copy_to_user (rdi f) (le32 (of_nat r) @ le32 (of_nat w))) s1 of (ok, s2) \<Rightarrow>
             if ok then ret 0 f s2
             else ret (- 1) f (snd (on_tasks (sched_fd_close (int w)) (snd (on_tasks (sched_fd_close (int r)) s2))))))"

definition sys_exec :: "interrupt_frame \<Rightarrow> 'd os \<Rightarrow> Sched.outcome \<times> 'd os" where
  "sys_exec f s =
     (case user_str (rdi f) s of
        None \<Rightarrow> ret (- 1) f s
      | Some name \<Rightarrow>
          if name = [] \<or> FD_PATH_MAX \<le> length name then ret (- 1) f s
          else let s1 = kernel_map s in
            case user_exec_current (Some f) name (kn s1) of (r, fo, k) \<Rightarrow>
              let s2 = s1\<lparr>kn := k\<rparr> in
              case r of
                Gone \<Rightarrow> on_tasks (sched_exit (map_option (\<lambda>g. g\<lparr>rdi := 0\<rparr>) fo)) s2
              | Kept \<Rightarrow> resume (ret (- 1) f s2)
              | Loaded _ _ \<Rightarrow> (Run fo, s2))"

section \<open>Tasks, memory and devices\<close>

text \<open>Calls of the second half: they run on the boot tables.\<close>

definition sched_call :: "(sched \<Rightarrow> Sched.outcome \<times> sched) \<Rightarrow> 'd os \<Rightarrow> Sched.outcome \<times> 'd os" where
  "sched_call g s = resume (on_tasks g s)"

definition frame_call :: "(sched \<Rightarrow> interrupt_frame option \<times> sched) \<Rightarrow> 'd os \<Rightarrow> Sched.outcome \<times> 'd os" where
  "frame_call g s = (case on_tasks g s of (fo, s1) \<Rightarrow> resume (Run fo, s1))"

definition value_call :: "(sched \<Rightarrow> u64 \<times> sched) \<Rightarrow> interrupt_frame \<Rightarrow> 'd os \<Rightarrow> Sched.outcome \<times> 'd os" where
  "value_call g f s = (case on_tasks g s of (v, s1) \<Rightarrow> resume (ret v f s1))"

definition sys_close :: "interrupt_frame \<Rightarrow> 'd os \<Rightarrow> Sched.outcome \<times> 'd os" where
  "sys_close f s = (case on_tasks (sched_fd_close (int_arg (rdi f))) s of (ok, s1) \<Rightarrow> resume (ret (if ok then 0 else - 1) f s1))"

definition sys_dup2 :: "interrupt_frame \<Rightarrow> 'd os \<Rightarrow> Sched.outcome \<times> 'd os" where
  "sys_dup2 f s =
     (case on_tasks (sched_fd_dup2 (int_arg (rdi f)) (int_arg (rsi f))) s of
        (None, s1) \<Rightarrow> resume (ret (- 1) f s1)
      | (Some fd, s1) \<Rightarrow> resume (ret (of_int fd) f s1))"

definition sys_lseek :: "interrupt_frame \<Rightarrow> 'd os \<Rightarrow> Sched.outcome \<times> 'd os" where
  "sys_lseek f s =
     (if 0x7FFFFFFF < rsi f then resume (ret (- 1) f s)
      else case on_tasks (sched_fd_lseek (int_arg (rdi f)) (ucast (rsi f))) s of (v, s1) \<Rightarrow>
        resume (ret (if v < 0 then - 1 else of_int v) f s1))"

definition sys_mmap :: "interrupt_frame \<Rightarrow> 'd os \<Rightarrow> Sched.outcome \<times> 'd os" where
  "sys_mmap f s = (case on_kern (user_mmap (rdi f) (rsi f) (int_arg (rdx f))) s of (v, s1) \<Rightarrow> resume (ret v f s1))"

definition sys_fbinfo :: "interrupt_frame \<Rightarrow> 'd os \<Rightarrow> Sched.outcome \<times> 'd os" where
  "sys_fbinfo f s =
     (case fb_query (disp s) of
        None \<Rightarrow> resume (ret (- 1) f s)
      | Some (w, h, p, ph) \<Rightarrow> resume (give (rdi f) (le32 w @ le32 h @ le32 p @ le32 ph) 0 f s))"

definition int_at :: "u8 list \<Rightarrow> nat \<Rightarrow> u32" where
  "int_at bs i = ucast (bs ! (4 * i)) OR push_bit 8 (ucast (bs ! (4 * i + 1))) OR push_bit 16 (ucast (bs ! (4 * i + 2))) OR
     push_bit 24 (ucast (bs ! (4 * i + 3)))"

definition sys_fbpix :: "interrupt_frame \<Rightarrow> 'd os \<Rightarrow> Sched.outcome \<times> 'd os" where
  "sys_fbpix f s =
     (case copy_from_user_n (rdi f) 20 (sched_of s) of (ok, bs) \<Rightarrow>
      if \<not> ok then resume (ret (- 1) f s)
      else let s1 = kernel_map s in
        case fb_fill_rect (int_at bs 0) (int_at bs 1) (int_at bs 2) (int_at bs 3) (int_at bs 4) (disp s1) of (ok2, g) \<Rightarrow>
          let s2 = s1\<lparr>disp := g\<rparr> in
          if \<not> ok2 then resume (ret (- 1) f s2)
          else resume (ret 0 f (if fb_hits_overlay (int_at bs 1) (int_at bs 3) (disp s2) then kbd_overlay_refresh s2 else s2)))"

definition sys_fbpresent :: "interrupt_frame \<Rightarrow> 'd os \<Rightarrow> Sched.outcome \<times> 'd os" where
  "sys_fbpresent f s =
     (case fb_present (mou s) (disp s) of (ok, g) \<Rightarrow> resume (ret (if ok then 0 else - 1) f ((kernel_map s)\<lparr>disp := g\<rparr>)))"

definition sys_uptime :: "interrupt_frame \<Rightarrow> 'd os \<Rightarrow> Sched.outcome \<times> 'd os" where
  "sys_uptime f s = resume (ret (ucast (ticks (sched_of s) div 100)) f s)"

definition RTC_STR_LEN :: u32 where "RTC_STR_LEN = 19"

text \<open>The two errors of \<open>SYS_DATE\<close> return without \<open>task_map\<close>.\<close>

definition sys_date :: "(nat \<Rightarrow> u8 \<Rightarrow> u8) \<Rightarrow> interrupt_frame \<Rightarrow> 'd os \<Rightarrow> (Sched.outcome \<times> 'd os) option" where
  "sys_date cmos f s =
     (if rdi f = 0 \<or> (ucast (rsi f) :: u32) < RTC_STR_LEN then Some (ret (- 1) f s)
      else case rtc_format cmos (cmos_n s) (ticks (sched_of s)) (wall s) of
          None \<Rightarrow> None
        | Some (t, w, n) \<Rightarrow>
            (case on_tasks (copy_to_user (rdi f) (map of_char (take 19 t))) (s\<lparr>wall := w, cmos_n := n\<rparr>) of (ok, s1) \<Rightarrow>
               Some (if ok then resume (ret (ucast RTC_STR_LEN) f s1) else ret (- 1) f s1)))"

definition sys_sync :: "interrupt_frame \<Rightarrow> 'd os \<Rightarrow> Sched.outcome \<times> 'd os" where
  "sys_sync f s = (case on_files fs_sync s of (ok, s1) \<Rightarrow> resume (ret (if ok then 0 else - 1) f s1))"

section \<open>The dispatcher\<close>

definition syscall_low :: "interrupt_frame \<Rightarrow> 'd os \<Rightarrow> (Sched.outcome \<times> 'd os) option" where
  "syscall_low f s =
     (let n = rax f in
      if n = 1 then Some (sys_write f s)
      else if n = 8 then Some (sys_read f s)
      else if n = 9 then Some (sys_readdir f s)
      else if n = 21 then Some (sys_getcwd f s)
      else if n = 6 then Some (sys_open f s)
      else if n = 16 then Some (sys_stat f s)
      else if n = 20 then Some (sys_chdir f s)
      else if n = 11 then Some (sys_pipe f s)
      else if n = 10 then Some (sys_exec f s)
      else None)"

definition syscall_high :: "(nat \<Rightarrow> u8 \<Rightarrow> u8) \<Rightarrow> interrupt_frame \<Rightarrow> 'd os \<Rightarrow> (Sched.outcome \<times> 'd os) option" where
  "syscall_high cmos f s =
     (let n = rax f in
      if n = 7 then Some (sys_close f s)
      else if n = 2 then Some (on_tasks (sched_exit (Some f)) s)
      else if n = 3 then Some (frame_call (sched_yield (Some f)) s)
      else if n = 4 then Some (sched_call (sched_sleep (Some f) (rdi f)) s)
      else if n = 5 then Some (sched_call (sched_wait (Some f)) s)
      else if n = 12 then Some (value_call (user_brk (rdi f)) f s)
      else if n = 13 then Some (value_call (user_fork (Some f)) f s)
      else if n = 14 then Some (sys_dup2 f s)
      else if n = 15 then Some (sys_lseek f s)
      else if n = 17 then Some (frame_call (sched_kill (Some f)) s)
      else if n = 18 then Some (sys_mmap f s)
      else if n = 23 then Some (value_call (user_munmap (rdi f) (rsi f)) f s)
      else if n = 28 then Some (value_call (user_mprotect (rdi f) (rsi f) (rdx f)) f s)
      else if n = 24 then Some (sys_fbinfo f s)
      else if n = 25 then Some (sys_fbpix f s)
      else if n = 26 then Some (sys_fbpresent f s)
      else if n = 27 then Some (frame_call (sched_sigaction (Some f)) s)
      else if n = 19 then Some (sys_uptime f s)
      else if n = 29 then sys_date cmos f s
      else if n = 22 then Some (sys_sync f s)
      else Some (resume (user_fail (Some f) s)))"

text \<open>\<open>None\<close> is a call that never returns.\<close>

definition user_on_syscall :: "(nat \<Rightarrow> u8 \<Rightarrow> u8) \<Rightarrow> interrupt_frame option \<Rightarrow> 'd os \<Rightarrow> (Sched.outcome \<times> 'd os) option" where
  "user_on_syscall cmos fo s =
     (if \<not> user_frame fo then Some (user_fail fo s)
      else let f = the fo in
        case syscall_low f s of Some r \<Rightarrow> Some r | None \<Rightarrow> syscall_high cmos f (kernel_map s))"

end
