(* ===== verification/Kbd_Line.thy ===== *)
theory Kbd_Line
  imports User_Calls
begin

text \<open>
  What the line editor of \<open>kernel/kbd.c\<close> promises to a task that reads the keyboard.
\<close>

section \<open>A typed line\<close>

text \<open>
  The line editor as a specification: a backspace removes the last character, a tab is ignored, and
  any other character is appended while there is room for it and a terminator.
\<close>

definition edit :: "char \<Rightarrow> string \<Rightarrow> string" where
  "edit c t =
     (if c = CHR 0x08 then butlast t
      else if c = CHR 0x09 \<or> LINE_MAX \<le> length t + 1 then t
      else t @ [c])"

primrec type_keys :: "(nat \<Rightarrow> u8 \<Rightarrow> u8) \<Rightarrow> string \<Rightarrow> 'd os \<Rightarrow> 'd os option" where
  "type_keys cmos [] s = Some s"
| "type_keys cmos (c # ks) s = (case kbd_feed cmos c s of None \<Rightarrow> None | Some s1 \<Rightarrow> type_keys cmos ks s1)"

definition plain_key :: "char \<Rightarrow> bool" where
  "plain_key c \<longleftrightarrow> c \<noteq> NUL \<and> c \<noteq> CHR 0x03 \<and> c \<noteq> CHR 0x0A"

text \<open>\<open>s\<close> is \<open>s0\<close> but for the screen, the display and the input buffer, which holds \<open>t\<close>.\<close>

definition typed :: "'d os \<Rightarrow> string \<Rightarrow> 'd os \<Rightarrow> bool" where
  "typed s0 t s \<longleftrightarrow>
     (\<exists>v. kn s = (kn s0)\<lparr>sc := (sc (kn s0))\<lparr>scr := v\<rparr>\<rparr>) \<and> length (stdin_buf (kb s)) = LINE_MAX \<and>
     stdin_len (kb s) = length t \<and> take (length t) (stdin_buf (kb s)) = t \<and> length t < LINE_MAX"

lemma fb_line_fields [simp]: "kn (fb_line d s) = kn s" "kb (fb_line d s) = kb s"
  by (simp_all add: fb_line_def show_fb_def prompt_line_def copy_screen_def)

lemma putc_fields [simp]:
  "kn (putc c s) = (kn s)\<lparr>sc := (sc (kn s))\<lparr>scr := vga_putc c (con s)\<rparr>\<rparr>" "kb (putc c s) = kb s"
  by (simp_all add: putc_def set_con_def)

lemma set_kb_fields [simp]: "kn (set_kb g s) = kn s" "kb (set_kb g s) = g (kb s)"
  by (simp_all add: set_kb_def)

lemma set_sched_fields [simp]: "kn (set_sched g s) = (kn s)\<lparr>sc := g (sc (kn s))\<rparr>" "kb (set_sched g s) = kb s"
  by (simp_all add: set_sched_def)

lemma store_key:
  assumes "length (stdin_buf k) = LINE_MAX" "stdin_len k = length t" "take (length t) (stdin_buf k) = t" "length t + 1 < LINE_MAX"
  shows "stdin_len (kbd_store c k) = Suc (length t)" "take (Suc (length t)) (stdin_buf (kbd_store c k)) = t @ [c]"
    "length (stdin_buf (kbd_store c k)) = LINE_MAX"
  using assms by (simp_all add: kbd_store_def take_Suc_conv_app_nth)

lemma feed_key:
  assumes "typed s0 t s" "sched_kbd_waiting (sc (kn s0))" "plain_key c"
  shows "\<exists>s1. kbd_feed cmos c s = Some s1 \<and> typed s0 (edit c t) s1"
proof -
  have w: "sched_kbd_waiting (sc (kn s))" using assms(1,2) by (auto simp: typed_def sched_kbd_waiting_def task_at_def)
  have f: "kbd_feed cmos c s = feed_stdin cmos c s" using w assms(3) by (simp add: kbd_feed_def plain_key_def)
  have t: "length (stdin_buf (kb s)) = LINE_MAX" "stdin_len (kb s) = length t" "take (length t) (stdin_buf (kb s)) = t"
    "\<exists>v. kn s = (kn s0)\<lparr>sc := (sc (kn s0))\<lparr>scr := v\<rparr>\<rparr>" "length t < LINE_MAX"
    using assms(1) by (auto simp: typed_def)
  have n: "c \<noteq> CHR 0x0A" using assms(3) by (simp add: plain_key_def)
  consider "c = CHR 0x08" | "c = CHR 0x09" | "c \<noteq> CHR 0x08" "c \<noteq> CHR 0x09" by blast
  thus ?thesis
  proof cases
    case 1
    have "take (length t - 1) (stdin_buf (kb s)) = butlast t"
      by (metis butlast_take diff_le_self butlast_conv_take t(3) take_take min.absorb1)
    thus ?thesis using assms(1) t(4) 1 unfolding f by (auto simp: feed_stdin_def edit_def typed_def)
  next
    case 2
    thus ?thesis using assms(1) unfolding f by (simp add: feed_stdin_def edit_def)
  next
    case 3
    show ?thesis
    proof (cases "length t + 1 < LINE_MAX")
      case True
      note st = store_key [OF t(1-3) True, of c]
      show ?thesis using 3 n True t(4) st unfolding f by (auto simp: feed_stdin_def edit_def typed_def)
    next
      case False
      hence "kbd_store c (kb s) = kb s" using t(2) by (simp add: kbd_store_def)
      thus ?thesis using 3 n False t unfolding f by (auto simp: feed_stdin_def edit_def typed_def)
    qed
  qed
qed

lemma type_keys_append:
  "type_keys cmos (ks @ ls) s = (case type_keys cmos ks s of None \<Rightarrow> None | Some s1 \<Rightarrow> type_keys cmos ls s1)"
  by (induction ks arbitrary: s) (auto split: option.splits)

lemma type_plain:
  assumes "typed s0 t s" "sched_kbd_waiting (sc (kn s0))" "list_all plain_key ks"
  shows "\<exists>s1. type_keys cmos ks s = Some s1 \<and> typed s0 (fold edit ks t) s1"
  using assms
proof (induction ks arbitrary: s t)
  case (Cons c ks)
  obtain s1 where s1: "kbd_feed cmos c s = Some s1" "typed s0 (edit c t) s1"
    using feed_key [OF Cons.prems(1,2)] Cons.prems(3) by auto
  thus ?case using Cons.IH [OF s1(2) Cons.prems(2)] Cons.prems(3) by auto
qed simp

text \<open>The newline of a line: it belongs to the line if there is room for it.\<close>

definition line_end :: "string \<Rightarrow> string" where
  "line_end t = (if length t + 1 < LINE_MAX then t @ [CHR 0x0A] else t)"

lemma feed_newline:
  assumes "typed s0 t s" "sched_kbd_waiting (sc (kn s0))" "\<not> dollar_cmd (strip_end (skip_ws t)) \<or> length t + 1 = LINE_MAX"
  shows "\<exists>s1 v. kbd_feed cmos CHR 0x0A s = Some s1 \<and>
    kn s1 = (kn s0)\<lparr>sc := (sched_wake_kbd ((sc (kn s0))\<lparr>stdin_ready := True\<rparr>))\<lparr>scr := v\<rparr>\<rparr> \<and>
    stdin_len (kb s1) = 0 \<and> take (stdin_have (kb s1)) (stdin_buf (kb s1)) = line_end t"
proof -
  have w: "sched_kbd_waiting (sc (kn s))" using assms(1,2) by (auto simp: typed_def sched_kbd_waiting_def task_at_def)
  have t: "length (stdin_buf (kb s)) = LINE_MAX" "stdin_len (kb s) = length t" "take (length t) (stdin_buf (kb s)) = t" "length t < LINE_MAX"
    using assms(1) by (auto simp: typed_def)
  obtain v where v: "kn s = (kn s0)\<lparr>sc := (sc (kn s0))\<lparr>scr := v\<rparr>\<rparr>" using assms(1) by (auto simp: typed_def)
  have b: "kbd_dollar_builtin cmos s = Some (False, s)"
    using assms(3) t by (auto simp: kbd_dollar_builtin_def stdin_text_def Let_def)
  have l: "take (stdin_len (kbd_store CHR 0x0A (kb s))) (stdin_buf (kbd_store CHR 0x0A (kb s))) = line_end t"
  proof (cases "length t + 1 < LINE_MAX")
    case True
    thus ?thesis using store_key [OF t(1-3) True, of "CHR 0x0A"] by (simp add: line_end_def)
  next
    case False
    thus ?thesis using t by (simp add: kbd_store_def line_end_def)
  qed
  have n: "CHR 0x0A \<noteq> NUL" by code_simp
  show ?thesis using w b l v n
    by (auto simp: kbd_feed_def feed_stdin_def Let_def sched_wake_kbd_def map_tasks_def)
qed

lemma line_end_nonempty: "line_end t \<noteq> []"
  by (auto simp: line_end_def LINE_MAX_def)

lemma read_line:
  assumes "stdin_ready (sched_of x)" "take (stdin_have (kb x)) (stdin_buf (kb x)) = l" "l \<noteq> []" "cap_len (rdx f) \<noteq> 0"
    and "sched_fd_kind (int_arg (rdi f)) (sched_of x) = FD_KIND_CONSOLE_R \<or>
      int_arg (rdi f) = FD_STDIN \<and> sched_fd_kind (int_arg (rdi f)) (sched_of x) = FD_KIND_NONE"
    and "copy_to_user (rsi f) (map of_char (take (unat (cap_len (rdx f))) l)) ((sched_of x)\<lparr>stdin_ready := False\<rparr>) = (ok, y)"
  shows "\<exists>x'. sys_read f x = (Run (Some (f\<lparr>rax := (if ok then of_nat (length (take (unat (cap_len (rdx f))) l)) else - 1)\<rparr>)), x') \<and> sched_of x' = y"
proof -
  let ?n = "unat (cap_len (rdx f))"
  have e: "take (min (stdin_have (kb x)) ?n) (stdin_buf (kb x)) = take ?n l" by (simp flip: assms(2) add: min.commute)
  have ne: "take ?n l \<noteq> []" using assms(3,4) by (simp add: unat_eq_0)
  have "sys_read f x = read_console (cap_len (rdx f)) f x" using assms(5) by (auto simp: sys_read_def Let_def)
  then show ?thesis using assms(1,4,6) ne e
    by (auto simp: read_console_def kbd_stdin_take_def give_def ret_def on_tasks_def on_kern_def on_sched_def buf_store_def split: prod.splits)
qed

text \<open>The reading call of \<open>f\<close> is for the console.\<close>

definition reads_console :: "interrupt_frame \<Rightarrow> 'd os \<Rightarrow> bool" where
  "reads_console f x \<longleftrightarrow> (let kind = sched_fd_kind (int_arg (rdi f)) (sched_of x) in
     kind = FD_KIND_CONSOLE_R \<or> int_arg (rdi f) = FD_STDIN \<and> kind = FD_KIND_NONE)"


definition waiting_os :: "(nat \<Rightarrow> u8 list) os" where
  "waiting_os = \<lparr>kn = demo_kern\<lparr>sc := demo_run\<lparr>tasks := map (\<lambda>t. t\<lparr>t_state := TASK_KBD\<rparr>) (tasks demo_run)\<rparr>\<rparr>,
     disp = fb_demo, mou = mouse_demo, wall = \<lparr>snap = (2026, 1, 1, 0, 0, 0), snap_ticks = 0, have_snap = False\<rparr>, cmos_n = 0,
     kheap = heap_demo,
     kb = \<lparr>shift = False, caps = False, ctrl = False, ext = False, line = None, stdin_buf = replicate 80 NUL, stdin_len = 0,
       stdin_have = 0, kbd_irq_frame = None\<rparr>, stale = []\<rparr>"

lemma waiting_os_ok:
  "task_count (sc (kn waiting_os)) \<le> length (tasks (sc (kn waiting_os)))" "sched_kbd_waiting (sc (kn waiting_os))"
  "stdin_len (kb waiting_os) = 0" "length (stdin_buf (kb waiting_os)) = LINE_MAX"
  by (simp_all add: waiting_os_def demo_kern_def demo_run_def one_task_sel sched_kbd_waiting_def task_at_def LINE_MAX_def)

text \<open>A copy within a page of the demonstration task succeeds.\<close>

lemma demo_copy:
  assumes "vm x = demo_page" "sched_current_cr3 x = demo_root"
  shows "fst (copy_to_user 0x400010 [a, b, c] x)"
proof -
  let ?va = "0x400010 :: u64"
  have R: "demo_root \<in> {demo_root}" by simp
  have va: "pml4_ix ?va < 256" by (simp add: pml4_ix_def)
  have sm: "user_page demo_page demo_root ?va = Some (0x100000, True, True)"
    using demo_page_ok(2) user_page_mask [of ?va "0x400000" demo_page demo_root] by (simp add: ADDR_MASK_def)
  obtain ok v1 where br: "vmm_cow_break demo_root ?va demo_page = (ok, v1)" by fastforce
  have ne: "free_frames (pm demo_page) \<noteq> {}" using demo_page_ok(3) by auto
  note B = break_bytes(2) [OF demo_page_ok(1) R va br]
  have ok using B sm ne by (auto split: if_splits)
  then obtain q where q: "user_page v1 demo_root ?va = Some (q, True, True)" using B by auto
  have "vm_ok {demo_root} v1" by (rule vm_ok_step [OF vm_step.cow_break [OF R va br] demo_exclusive])
  then have tr: "trees_ok {demo_root} v1" by (simp add: vm_ok_def spaces_ok_def)
  obtain ph where ph: "vmm_translate_user demo_root ?va v1 = Some ph" using translate_user_page [OF tr R va] q by auto
  have nz: "demo_root \<noteq> 0" using trees_okD(4) [OF tr R] .
  have m: "(0x400011 :: u64) AND ADDR_MASK = ?va AND ADDR_MASK" "(0x400012 :: u64) AND ADDR_MASK = ?va AND ADDR_MASK" by (simp_all add: ADDR_MASK_def)
  show ?thesis using \<open>ok\<close> br ph m no_page_yet [of ?va] nz assms
    by (simp add: copy_to_user_def copy_to_user_pml4_def Let_def)
qed


end
