(* ===== verification/Call_Tables.thy ===== *)
theory Call_Tables
  imports User_Calls Kbd_Line
begin

text \<open>
  The page tables after a system call: whichever task runs next, it runs on its own tables. The
  functions of the scheduler either leave the running task and the table register alone (\<open>keeps\<close>) or
  end in a switch, which loads both.
\<close>

section \<open>The running task and the table register\<close>

definition keeps :: "sched \<Rightarrow> sched \<Rightarrow> bool" where
  "keeps x y \<longleftrightarrow> map cr3 (tasks y) = map cr3 (tasks x) \<and> task_count y = task_count x \<and> current y = current x \<and>
     cr3_reg (vm y) = cr3_reg (vm x)"

definition on_tables :: "sched \<Rightarrow> bool" where
  "on_tables x \<longleftrightarrow> cr3_reg (vm x) = sched_current_cr3 x"

lemma cr3_nth: "map cr3 ts = map cr3 us \<Longrightarrow> cr3 (ts ! i) = cr3 (us ! i)" for ts us :: "task list"
proof (induction ts arbitrary: us i)
  case (Cons t ts)
  then obtain u us' where "us = u # us'" by (cases us) auto
  thus ?case using Cons by (cases i) auto
qed simp

lemma keeps_current: "keeps x y \<Longrightarrow> sched_current_cr3 y = sched_current_cr3 x"
  using cr3_nth [of "tasks y" "tasks x" "current x"] by (auto simp: keeps_def sched_current_cr3_def cur_task_def task_at_def)

lemma keeps_tables: "keeps x y \<Longrightarrow> on_tables x \<Longrightarrow> on_tables y"
  by (simp add: on_tables_def keeps_current) (simp add: keeps_def)

lemma keeps_refl [simp]: "keeps x x" by (simp add: keeps_def)

lemma keeps_trans: "keeps x y \<Longrightarrow> keeps y z \<Longrightarrow> keeps x z" by (simp add: keeps_def)

lemma keeps_task [simp]: "(\<And>t. cr3 (g t) = cr3 t) \<Longrightarrow> keeps x (upd_task i g x)"
proof -
  assume g: "\<And>t. cr3 (g t) = cr3 t"
  show ?thesis
  proof (cases "i < length (tasks x)")
    case True
    have "map cr3 ((tasks x)[i := g (tasks x ! i)]) = (map cr3 (tasks x))[i := cr3 (tasks x ! i)]" by (simp add: map_update g)
    also have "\<dots> = map cr3 (tasks x)" using True by (metis list_update_id nth_map)
    finally show ?thesis by (simp add: keeps_def upd_task_def)
  qed (simp add: keeps_def upd_task_def list_update_beyond)
qed

lemma keeps_cur [simp]: "(\<And>t. cr3 (g t) = cr3 t) \<Longrightarrow> keeps x (upd_cur g x)"
  by (simp add: upd_cur_def)

lemma keeps_map_tasks [simp]: "(\<And>t. cr3 (g t) = cr3 t) \<Longrightarrow> keeps x (map_tasks g x)"
  by (simp add: keeps_def map_tasks_def o_def) (metis append_take_drop_id map_append)

lemma keeps_vm [simp]: "cr3_reg v = cr3_reg (vm x) \<Longrightarrow> keeps x (x\<lparr>vm := v\<rparr>)"
  by (simp add: keeps_def)

lemma keeps_pipe [simp]: "keeps x (upd_pipe p g x)" by (simp add: keeps_def upd_pipe_def)

lemma keeps_fd [simp]: "keeps x (set_fd i j e x)" by (simp add: set_fd_def)

lemma keeps_wake_pipe [simp]: "keeps x (wake_pipe_waiters p x)" by (simp add: wake_pipe_waiters_def)

section \<open>Calls that keep the tables\<close>

lemma free_page_cr3 [simp]: "cr3_reg (free_page p v) = cr3_reg v" by (simp add: free_page_def)
lemma alloc_page_cr3: "alloc_page v = (p, w) \<Longrightarrow> cr3_reg w = cr3_reg v" by (auto simp: alloc_page_def split: prod.splits)
lemma alloc_above_cr3: "alloc_page_above a v = (p, w) \<Longrightarrow> cr3_reg w = cr3_reg v" by (auto simp: alloc_page_above_def split: prod.splits)
lemma tab_set_cr3 [simp]: "cr3_reg (tab_set t i e v) = cr3_reg v" by (simp add: tab_set_def)

lemma copy_page_cr3 [simp]: "cr3_reg (copy_page d p v) = cr3_reg v"
proof -
  have "cr3_reg (fold (\<lambda>i v. tab_set d (of_nat i) (tab_get v p (of_nat i)) v) is v) = cr3_reg v" for "is"
    by (induction "is" arbitrary: v) auto
  thus ?thesis by (simp add: copy_page_def for_idx_def)
qed

lemma cow_break_cr3: "vmm_cow_break c va v = (r, w) \<Longrightarrow> cr3_reg w = cr3_reg v"
  by (auto simp: vmm_cow_break_def Let_def split: option.splits if_splits prod.splits dest!: alloc_page_cr3 alloc_above_cr3)

lemma set_page_byte_cr3 [simp]: "cr3_reg (set_page_byte p off b v) = cr3_reg v"
  by (simp add: set_page_byte_def Let_def)

lemma to_user_cr3: "to_user_loop c va pb pg bs v = (r, w) \<Longrightarrow> cr3_reg w = cr3_reg v"
proof (induction c va pb pg bs v rule: to_user_loop.induct)
  case (2 c va pb pg b bs v)
  thus ?case by (auto simp: Let_def split: if_splits prod.splits option.splits dest!: cow_break_cr3)
qed simp

lemma keeps_copy: "copy_to_user dst bs x = (r, y) \<Longrightarrow> keeps x y"
  by (auto simp: copy_to_user_def copy_to_user_pml4_def split: prod.splits if_splits dest!: to_user_cr3)

lemma keeps_free_pipe [simp]: "keeps x (free_pipe p x)"
  by (auto simp: free_pipe_def Let_def intro: keeps_trans [OF keeps_vm keeps_pipe])

lemma keeps_alloc_pipe: "alloc_pipe x = (r, y) \<Longrightarrow> keeps x y"
  by (auto simp: alloc_pipe_def split: option.splits prod.splits if_splits dest!: alloc_page_cr3 alloc_above_cr3
      intro: keeps_trans [OF keeps_vm keeps_pipe])

lemma keeps_drop_fd [simp]: "keeps x (drop_fd i j x)"
  unfolding drop_fd_def Let_def
  by (auto intro: keeps_trans [OF _ keeps_fd] keeps_trans [OF keeps_pipe keeps_wake_pipe]
      keeps_trans [OF keeps_trans [OF keeps_pipe keeps_wake_pipe] keeps_free_pipe])

lemma keeps_close: "sched_fd_close fd x = (r, y) \<Longrightarrow> keeps x y"
  by (auto simp: sched_fd_close_def split: if_splits)

lemma keeps_lseek: "sched_fd_lseek fd off x = (r, y) \<Longrightarrow> keeps x y"
  by (auto simp: sched_fd_lseek_def Let_def split: if_splits)

lemma keeps_sched_pipe: "sched_pipe x = (r, y) \<Longrightarrow> keeps x y"
  by (auto simp: sched_pipe_def Let_def split: if_splits option.splits prod.splits dest!: keeps_alloc_pipe
      intro: keeps_trans [OF keeps_trans [OF keeps_trans [OF _ keeps_pipe] keeps_fd] keeps_fd])

lemma keeps_pipe_write: "sched_pipe_write fd src n x = (r, y) \<Longrightarrow> keeps x y"
  by (auto simp: sched_pipe_write_def Let_def split: if_splits option.splits prod.splits
      intro: keeps_trans [OF keeps_pipe keeps_wake_pipe])

lemma keeps_pipe_read: "sched_pipe_read fd d n x = (r, y) \<Longrightarrow> keeps x y"
  by (auto simp: sched_pipe_read_def Let_def split: if_splits option.splits prod.splits
      intro: keeps_trans [OF keeps_pipe keeps_wake_pipe])

lemma push_user_cr3: "push_user_u64 c va w v = (r, v') \<Longrightarrow> cr3_reg v' = cr3_reg v"
  by (auto simp: push_user_u64_def put_bytes_def Let_def split: if_splits prod.splits option.splits dest!: cow_break_cr3)

section \<open>Switches\<close>

lemma pick_next_count: "pick_next n x = Some i \<Longrightarrow> task_count x \<noteq> 0"
  by (cases "task_count x") (auto simp: pick_next_def)

lemma dispatch_tables: "dispatch f i x = (r, y) \<Longrightarrow> task_count x \<noteq> 0 \<Longrightarrow> on_tables y"
  by (auto simp: dispatch_def load_task_def set_current_def on_tables_def sched_current_cr3_def vmm_set_cr3_def vmm_boot_cr3_def
      cur_task_def task_at_def)

lemma idle_loop_count: "idle_loop qs x = (Some i, y) \<Longrightarrow> task_count y \<noteq> 0"
  by (induction qs x rule: idle_loop.induct) (auto simp: Let_def split: option.splits dest: pick_next_count)

lemma idle_tables: "idle_until_ready f x = (Run fo, y) \<Longrightarrow> on_tables y"
  by (auto simp: idle_until_ready_def Let_def split: prod.splits option.splits dest: dispatch_tables idle_loop_count)

lemma block_tables: "block f x = (Run fo, y) \<Longrightarrow> on_tables y"
  by (auto simp: block_def split: option.splits dest: idle_tables dispatch_tables pick_next_count)

lemma exit_tables: "sched_exit g x = (Run fo, y) \<Longrightarrow> on_tables y"
  by (auto simp: sched_exit_def Let_def split: option.splits dest!: pick_next_count dest: dispatch_tables)

lemma deliver_tables: "sched_deliver_pending g x = (Run fo, y) \<Longrightarrow> on_tables x \<Longrightarrow> on_tables y"
proof -
  assume run: "sched_deliver_pending g x = (Run fo, y)" and x: "on_tables x"
  let ?s = "\<lambda>sig. upd_cur (set_sig_handler sig 0) (upd_cur (\<lambda>t. t\<lparr>pending := pending t AND NOT (sig_bit sig)\<rparr>) x)"
  have "keeps x (?s sig)" for sig
    by (rule keeps_trans [of _ "upd_cur (\<lambda>t. t\<lparr>pending := pending t AND NOT (sig_bit sig)\<rparr>) x"]) (simp_all add: set_sig_handler_def)
  then have "keeps x ((?s sig)\<lparr>vm := v\<rparr>)" if "cr3_reg v = cr3_reg (vm (?s sig))" for sig v
    using that keeps_trans keeps_vm by blast
  then show ?thesis
    using run x
    by (auto simp: sched_deliver_pending_def exit_pending_def Let_def split: if_splits prod.splits dest!: exit_tables push_user_cr3
        dest: keeps_tables)
qed

lemma block_pipe_tables: "sched_block_pipe g p x = (Run fo, y) \<Longrightarrow> on_tables x \<Longrightarrow> on_tables y"
  by (auto simp: sched_block_pipe_def Let_def save_task_eq split: if_splits dest!: block_tables deliver_tables
      intro: keeps_tables [OF keeps_trans [OF keeps_cur keeps_cur]])

lemma block_kbd_tables: "sched_block_kbd g x = (Run fo, y) \<Longrightarrow> on_tables x \<Longrightarrow> on_tables y"
  by (auto simp: sched_block_kbd_def Let_def save_task_eq split: if_splits dest!: block_tables deliver_tables
      intro: keeps_tables [OF keeps_trans [OF keeps_cur keeps_cur]])

section \<open>System calls\<close>

definition returns_ok :: "Sched.outcome \<times> 'd os \<Rightarrow> bool" where
  "returns_ok r \<longleftrightarrow> (\<forall>fo. fst r = Run fo \<longrightarrow> on_tables (sched_of (snd r)))"

lemma task_map_tables [simp]: "on_tables (sched_of (task_map s))"
  by (auto simp: task_map_def load_cr3_def on_tables_def vmm_set_cr3_def sched_current_cr3_def vmm_boot_cr3_def cur_task_def task_at_def)

lemma resume_ok [simp]: "returns_ok (resume r)"
  by (auto simp: returns_ok_def resume_def split: prod.splits Sched.outcome.splits)

lemma ret_ok: "on_tables (sched_of s) \<Longrightarrow> returns_ok (ret v f s)"
  by (simp add: returns_ok_def ret_def)

lemma on_tasks_eq: "on_tasks g s = (r, s1) \<longleftrightarrow> (\<exists>x. g (sched_of s) = (r, x) \<and> s1 = s\<lparr>kn := (kn s)\<lparr>sc := x\<rparr>\<rparr>)"
  by (auto simp: on_tasks_def on_kern_def on_sched_def split: prod.splits)

lemma on_tasks_keeps:
  assumes "on_tasks g s = (r, s1)" "\<And>r x y. g x = (r, y) \<Longrightarrow> keeps x y" "on_tables (sched_of s)"
  shows "on_tables (sched_of s1)"
proof -
  obtain x where x: "g (sched_of s) = (r, x)" "s1 = s\<lparr>kn := (kn s)\<lparr>sc := x\<rparr>\<rparr>" using assms(1) by (auto simp: on_tasks_eq)
  show ?thesis using keeps_tables [OF assms(2) [OF x(1)] assms(3)] x(2) by simp
qed

lemma on_tasks_returns:
  assumes "\<And>fo x y. g x = (Run fo, y) \<Longrightarrow> on_tables x \<Longrightarrow> on_tables y" "on_tables (sched_of s)"
  shows "returns_ok (on_tasks g s)"
proof -
  obtain r x where x: "g (sched_of s) = (r, x)" by fastforce
  have "on_tasks g s = (r, s\<lparr>kn := (kn s)\<lparr>sc := x\<rparr>\<rparr>)" using x by (simp add: on_tasks_eq)
  thus ?thesis using assms x by (auto simp: returns_ok_def)
qed

lemma buf_store_sched [simp]: "sched_of (buf_store bs s) = sched_of s" by (simp add: buf_store_def)

lemma give_ok: "on_tables (sched_of s) \<Longrightarrow> returns_ok (give dst bs v f s)"
  by (auto simp: give_def intro!: ret_ok split: prod.splits dest: on_tasks_keeps [OF _ keeps_copy])

lemma write_pipe_ok:
  assumes "on_tables (sched_of s)"
  shows "returns_ok (write_pipe fd want f s)"
proof -
  obtain ok bs where c: "copy_from_user_n (rsi f) (ucast want) (sched_of s) = (ok, bs)" by fastforce
  obtain r s2 where w: "on_tasks (sched_pipe_write fd (Some (file_buf (kn (buf_store bs s)))) want) (buf_store bs s) = (r, s2)" by fastforce
  have t: "on_tables (sched_of s2)" by (rule on_tasks_keeps [OF w keeps_pipe_write]) (simp_all add: assms)
  show ?thesis
    using assms t ret_ok [OF t, of _ f] on_tasks_returns [OF block_pipe_tables t]
    by (simp add: write_pipe_def c w Let_def ret_ok split: write_result.splits)
qed

lemma call_write_ok: "on_tables (sched_of s) \<Longrightarrow> returns_ok (sys_write f s)"
proof -
  assume s: "on_tables (sched_of s)"
  have fi: "returns_ok (write_to_file fd want f s)" for fd want
    using s unfolding write_to_file_def by (simp add: Let_def ret_ok split: option.splits prod.splits)
  have c: "returns_ok (write_console want f s)" for want
    using s unfolding write_console_def by (simp add: Let_def ret_ok split: prod.splits)
  have l: "returns_ok (write_legacy f s)"
  proof (cases "user_str (rdi f) s")
    case None
    have "keeps (sched_of s) (sched_of (snd (user_fail (Some f) s)))" by (simp add: user_fail_def set_con_def keeps_def)
    thus ?thesis using s None keeps_tables by (auto simp: write_legacy_def returns_ok_def)
  next
    case (Some str)
    thus ?thesis by (simp add: write_legacy_def Let_def split: prod.splits)
  qed
  show ?thesis using s write_pipe_ok [OF s] fi c l by (simp add: sys_write_def Let_def ret_ok)
qed

lemma read_pipe_ok:
  assumes "on_tables (sched_of s)"
  shows "returns_ok (read_pipe fd want f s)"
proof -
  obtain r s2 where w: "on_tasks (sched_pipe_read fd True want) s = (r, s2)" by fastforce
  have t: "on_tables (sched_of s2)" by (rule on_tasks_keeps [OF w keeps_pipe_read assms])
  show ?thesis
    using assms t ret_ok [OF t, of _ f] on_tasks_returns [OF block_pipe_tables t] give_ok [of "buf_store _ s2"]
    by (simp add: read_pipe_def w ret_ok split: pipe_result.splits)
qed

lemma read_console_ok:
  assumes "on_tables (sched_of s)"
  shows "returns_ok (read_console want f s)"
proof (cases "kbd_stdin_take want s")
  case (Pair r s1)
  have "keeps (sched_of s) (sched_of s1)" using Pair by (auto simp: kbd_stdin_take_def keeps_def split: if_splits)
  then have t: "on_tables (sched_of s1)" using assms by (rule keeps_tables)
  have p: "on_tables (sched_of (kbd_stdin_prompt s1))" using t by (simp add: kbd_stdin_prompt_def)
  show ?thesis
    using assms t give_ok [of "buf_store _ s1"] on_tasks_returns [OF block_kbd_tables p] on_tasks_returns [OF block_kbd_tables t]
    by (simp add: read_console_def block_kbd_def Pair Let_def ret_ok split: option.splits)
qed

lemma read_file_ok:
  assumes "on_tables (sched_of s)"
  shows "returns_ok (read_file fd want f s)"
proof -
  have k: "returns_ok (case (if got = 0 then (True, task_map s3) else on_tasks (copy_to_user (rsi f) bs) (task_map s3)) of (ok4, s4) \<Rightarrow>
      if \<not> ok4 then ret (- 1) f s4
      else ret (ucast got) f (if got \<noteq> 0 then snd (on_tasks (sched_fd_lseek fd (off + got)) s4) else s4))" for got s3 bs off
  proof (cases "got = 0")
    case False
    obtain ok s4 where c: "on_tasks (copy_to_user (rsi f) bs) (task_map s3) = (ok, s4)" by fastforce
    obtain r s5 where l: "on_tasks (sched_fd_lseek fd (off + got)) s4 = (r, s5)" by fastforce
    have t: "on_tables (sched_of s4)" by (rule on_tasks_keeps [OF c keeps_copy]) simp_all
    have "on_tables (sched_of s5)" by (rule on_tasks_keeps [OF l keeps_lseek t])
    then show ?thesis using False t by (simp add: c l ret_ok)
  qed (simp add: ret_ok)
  show ?thesis
  proof (cases "sched_fd_path fd (sched_of s)")
    case (Some path)
    obtain ok s1 where e: "enter_cwd (kernel_map s) = (ok, s1)" by fastforce
    obtain r s2 where l: "(if ok then on_files (fs_lookup (Some (cstr path))) s1 else (None, s1)) = (r, s2)" by fastforce
    show ?thesis
    proof (cases r)
      case None
      show ?thesis unfolding read_file_def Some option.case e prod.case l None by simp
    next
      case (Some q)
      obtain a b where q: "q = (a, b)" by fastforce
      show ?thesis unfolding read_file_def \<open>sched_fd_path fd (sched_of s) = Some path\<close> option.case e prod.case l Some q Let_def by (rule k)
    qed
  qed (use assms in \<open>simp add: read_file_def ret_ok\<close>)
qed

lemma call_read_ok: "on_tables (sched_of s) \<Longrightarrow> returns_ok (sys_read f s)"
  by (simp add: sys_read_def Let_def ret_ok read_pipe_ok read_console_ok read_file_ok)

lemma pipe_ok:
  assumes "on_tables (sched_of s)"
  shows "returns_ok (sys_pipe f s)"
proof -
  obtain r s1 where p: "on_tasks sched_pipe s = (r, s1)" by fastforce
  have t: "on_tables (sched_of s1)" by (rule on_tasks_keeps [OF p keeps_sched_pipe]) (simp_all add: assms)
  show ?thesis
  proof (cases r)
    case (Some rw)
    obtain a b where rw: "rw = (a, b)" by fastforce
    obtain ok s2 where c: "on_tasks (copy_to_user (rdi f) (le32 (of_nat a) @ le32 (of_nat b))) s1 = (ok, s2)" by fastforce
    obtain u s3 where x: "on_tasks (sched_fd_close (int a)) s2 = (u, s3)" by fastforce
    obtain w s4 where y: "on_tasks (sched_fd_close (int b)) s3 = (w, s4)" by fastforce
    have t2: "on_tables (sched_of s2)" by (rule on_tasks_keeps [OF c keeps_copy]) (simp_all add: t)
    have t3: "on_tables (sched_of s3)" by (rule on_tasks_keeps [OF x keeps_close]) (simp_all add: t2)
    have "on_tables (sched_of s4)" by (rule on_tasks_keeps [OF y keeps_close]) (simp_all add: t3)
    with t2 show ?thesis by (simp add: sys_pipe_def p Some rw c x y ret_ok)
  qed (use t in \<open>simp add: sys_pipe_def p ret_ok\<close>)
qed

lemma low_ok:
  assumes "on_tables (sched_of s)" "syscall_low f s = Some r" "rax f \<noteq> 10"
  shows "returns_ok r"
proof -
  have "returns_ok (sys_readdir f s)" using assms(1) by (simp add: sys_readdir_def Let_def give_ok split: prod.splits)
  moreover have "returns_ok (sys_getcwd f s)" using assms(1) by (simp add: sys_getcwd_def Let_def give_ok ret_ok split: prod.splits)
  moreover have "returns_ok (sys_open f s)" using assms(1) by (simp add: sys_open_def Let_def ret_ok split: prod.splits option.splits)
  moreover have "returns_ok (sys_stat f s)" using assms(1) by (simp add: sys_stat_def Let_def ret_ok give_ok split: prod.splits option.splits)
  moreover have "returns_ok (sys_chdir f s)" using assms(1) by (simp add: sys_chdir_def Let_def ret_ok split: prod.splits option.splits)
  ultimately show ?thesis
    using assms(2,3) call_write_ok [OF assms(1), of f] call_read_ok [OF assms(1), of f] pipe_ok [OF assms(1), of f]
    by (simp add: syscall_low_def Let_def split: if_splits)
qed

lemma exit_call_ok: "returns_ok (on_tasks (sched_exit fo) s)"
proof -
  obtain r x where x: "sched_exit fo (sched_of s) = (r, x)" by fastforce
  have "on_tasks (sched_exit fo) s = (r, s\<lparr>kn := (kn s)\<lparr>sc := x\<rparr>\<rparr>)" using x by (simp add: on_tasks_eq)
  then show ?thesis using x by (auto simp: returns_ok_def dest: exit_tables)
qed

lemma high_ok:
  assumes "syscall_high cmos f s = Some r" "rax f \<noteq> 29"
  shows "returns_ok r"
  using assms exit_call_ok [of "Some f" s]
  unfolding syscall_high_def Let_def sys_close_def frame_call_def sched_call_def value_call_def sys_dup2_def sys_lseek_def sys_mmap_def
    sys_fbinfo_def sys_fbpix_def sys_fbpresent_def sys_uptime_def sys_sync_def
  by (simp split: if_splits prod.splits option.splits) auto

text \<open>
  C8. After a system call the task that runs next runs on its own page tables. Whatever the call
  is but \<open>exec\<close> and \<open>date\<close>, and whichever way it ends, with a result, an error, a signal handler or the
  switch to another task, the table register holds the tables of the running task.
\<close>

theorem calls_return_on_task_tables:
  assumes "cr3_reg (vm (sched_of s)) = sched_current_cr3 (sched_of s)" "user_on_syscall cmos (Some f) s = Some (Run fo, s')"
    "rax f \<noteq> 10" "rax f \<noteq> 29"
  shows "cr3_reg (vm (sched_of s')) = sched_current_cr3 (sched_of s')"
proof -
  have s: "on_tables (sched_of s)" using assms(1) by (simp add: on_tables_def)
  have "returns_ok (Run fo, s')"
  proof (cases "user_frame (Some f)")
    case True
    then show ?thesis
      using assms(2) low_ok [OF s _ assms(3)] high_ok [OF _ assms(4)] by (auto simp: user_on_syscall_def Let_def split: option.splits)
  next
    case False
    have "keeps (sched_of s) (sched_of (snd (user_fail (Some f) s)))" by (simp add: user_fail_def set_con_def keeps_def)
    then show ?thesis using False assms(2) s keeps_tables by (auto simp: user_on_syscall_def returns_ok_def user_fail_def)
  qed
  then show ?thesis by (simp add: returns_ok_def on_tables_def)
qed

definition running_os :: "(nat \<Rightarrow> u8 list) os" where
  "running_os = waiting_os\<lparr>kn := demo_kern\<lparr>sc := demo_run\<lparr>vm := demo_page\<lparr>cr3_reg := demo_root\<rparr>\<rparr>\<rparr>\<rparr>"

theorem calls_return_on_task_tables_witness:
  "\<exists>fo s'. user_on_syscall (\<lambda>_ _. 0) (Some (frame0\<lparr>rax := 19\<rparr>)) running_os = Some (Run fo, s') \<and>
     cr3_reg (vm (sched_of s')) = demo_root"
proof -
  let ?f = "frame0\<lparr>rax := 19\<rparr>"
  have c: "sched_current_cr3 (sched_of running_os) = demo_root"
    using demo_run_current(2) unfolding sched_current_cr3_def cur_task_def task_at_def by (auto simp: running_os_def demo_kern_def split: if_splits)
  have "\<exists>fo s'. user_on_syscall (\<lambda>_ _. 0) (Some ?f) running_os = Some (Run fo, s')"
    by (simp add: user_on_syscall_def user_frame_def frame0_def regs.defs interrupt_frame.defs user_regs_def USER_CS_def syscall_low_def syscall_high_def sys_uptime_def resume_def ret_def)
  then obtain fo s' where r: "user_on_syscall (\<lambda>_ _. 0) (Some ?f) running_os = Some (Run fo, s')" by blast
  have "cr3_reg (vm (sched_of running_os)) = sched_current_cr3 (sched_of running_os)" unfolding c by (simp add: running_os_def)
  from calls_return_on_task_tables [OF this r] have "cr3_reg (vm (sched_of s')) = sched_current_cr3 (sched_of s')"
    by (simp_all add: frame0_def regs.defs)
  moreover have "sched_current_cr3 (sched_of s') = demo_root"
    using r c by (auto simp: user_on_syscall_def user_frame_def frame0_def regs.defs interrupt_frame.defs user_regs_def USER_CS_def syscall_low_def syscall_high_def sys_uptime_def resume_def ret_def
        kernel_map_def task_map_def load_cr3_def sched_current_cr3_def cur_task_def task_at_def Let_def)
  ultimately show ?thesis using r by auto
qed

end
