(* ===== verification/Spec2Isabelle.thy ===== *)
theory Spec2Isabelle
  imports Isolation Elf Sched_Props Fs_Names Fs_Pages Fs_Data Malloc_Brk Printf Call_Tables
begin

text \<open>
  Vampire OS: a verification library for the kernel under \<open>src/kernel\<close>.

  The kernel boots on one x86-64 processor, builds its own page tables, runs user tasks in
  separate address spaces, switches between them on timer ticks, and keeps files on a FAT12
  disk. Its parts call each other downwards: the system calls (\<open>user.c\<close>) use the scheduler
  (\<open>sched.c\<close>), the file system (\<open>fs.c\<close>), the loader (\<open>elf.c\<close>) and the page tables (\<open>vmm.c\<close>);
  these use the page allocator (\<open>pmm.c\<close>) and the block layer (\<open>bio.c\<close>); all of them run on one
  processor without preemption inside the kernel, so a call is one step of the model.

  \<^bold>\<open>How the code is translated.\<close> A C structure is a \<open>record\<close> with the fields of the source; the
  static variables of a file are the fields of one state record (\<open>pmm\<close>, \<open>heap\<close>, \<open>vmm\<close>, \<open>sched\<close>,
  \<open>bio\<close>, \<open>fs\<close>). A function of the source is a function of the same name that returns its result
  and the new state; 0 against -1 becomes a Boolean or an option. Integers keep their width
  (\<open>u8\<close>, \<open>u32\<close>, \<open>u64\<close>) wherever the source can wrap around. A loop is a recursive function: those
  that hop along a cluster chain carry the hop limit \<open>CHAIN_MAX\<close> (8) of the source as a counter,
  and every other one has a termination proof, so no function needs fuel of its own. A C string
  is a list of characters without its terminator; a null pointer is \<open>None\<close> where the code tests it.

  \<^bold>\<open>Theories, sources and results.\<close>

  \<^item> \<open>Prelude\<close>: machine types, alignment, and generic facts on words and lists.
  \<^item> \<open>Vga\<close> (\<open>vga.c\<close>), \<open>E820\<close> (\<open>e820.c\<close>): the text console and the firmware's memory map.
  \<^item> \<open>Pmm\<close> (\<open>pmm.c\<close>): the bitmap of page frames. The locale \<open>page_source\<close> is its contract; the
    free counter, first fit, spans, and that no page is handed out twice.
  \<^item> \<open>Blocks\<close>, \<open>Heap\<close> (\<open>heap.c\<close>): the kernel heap as a list of blocks; live payloads never overlap.
    The locale \<open>block_heap\<close> states what a client of the heap may use.
  \<^item> \<open>Hhdm\<close>, \<open>Cow\<close>, \<open>Vmm\<close>, \<open>Vmm_Space\<close>, \<open>Vmm_Maps\<close>, \<open>Vmm_Teardown\<close>, \<open>Vmm_Fork\<close>, \<open>Address_Space\<close>,
    \<open>Isolation\<close> (\<open>vmm.c\<close>): four-level page tables in memory, reference counts of shared frames (locale
    \<open>refcount\<close>), mapping, unmapping, copy on write, fork. An abstract address space is what a
    walk of the tables yields; \<open>Isolation\<close> shows that two tasks never see each other's stores.
  \<^item> \<open>Elf\<close> (\<open>elf.c\<close>): headers, segments and the image that is loaded.
  \<^item> \<open>Bio\<close> (\<open>bio.c\<close>): devices, partition start and the bounds check of every transfer.
  \<^item> \<open>Sched\<close>, \<open>Sched_Pipe\<close>, \<open>Sched_Inv\<close>, \<open>Sched_Ops\<close>, \<open>Sched_Fds\<close>, \<open>Sched_Machine\<close>, \<open>Sched_Demo\<close>,
    \<open>Sched_Resume\<close>, \<open>Sched_Props\<close> (\<open>sched.c\<close>, the frame of \<open>idt.h\<close>): tasks, descriptors, pipes, signals. \<open>sched_step\<close>
    is the step relation of all entry points; its invariant is proved by rule induction on
    the reachable states: exact reference counts of pipes, no lost wake-up, well-formed tables.
    The ring of a pipe is interpreted as a bounded queue (locale \<open>byte_queue\<close>). \<open>Sched_Resume\<close> follows a
    task that was switched away from until a later switch loads its registers again.
  \<^item> \<open>Fat\<close>, \<open>Fat_Name\<close>, \<open>Fs_Path\<close>, \<open>Fs\<close>, \<open>Fs_Ops\<close> (\<open>fs.c\<close>): the packed table of cluster chains, names,
    paths, the directory buffer and every operation of \<open>fs.h\<close>. \<open>Fs_Names\<close>: long names are read back
    as they were written. \<open>Fs_Frame\<close>: each call returns to the directory it started in.
    \<open>Fs_Pages\<close>: the pages of the files are balanced against the allocator. \<open>Fs_Data\<close>: contents stored
    along a chain are loaded from it.

  \<^item> \<open>User_Copy\<close>, \<open>User_Mem\<close>, \<open>User_Brk\<close>, \<open>User_Mmap\<close>, \<open>User_Run\<close>, \<open>User_Start\<close> (\<open>user.c\<close>): the system calls
    on memory. Copies between kernel and user memory go byte by byte through the tables of a task;
    \<open>brk\<close>, \<open>mmap\<close>, \<open>munmap\<close> and \<open>mprotect\<close> are described by what every task sees at every address (\<open>sees\<close>),
    in any state that satisfies the invariant of \<open>Isolation\<close> (\<open>vm_ok\<close>). \<open>User_Run\<close> joins scheduler, memory
    and file system in the record \<open>kern\<close>: program start, arguments, exec, fork, working directories.
  \<^item> \<open>Rtc\<close> (\<open>rtc.c\<close>): the wall clock, from the registers of the chip to the text of the date.
  \<^item> \<open>Fb\<close> (\<open>fb.c\<close>), \<open>Mouse\<close> (\<open>mouse.c\<close>): the display as bytes of its memory and of its shadow. A fill
    colours exactly the visible part of its rectangle. With a shadow, after any sequence of drawing, presents and
    mouse bytes the display is the picture last presented with the pointer drawn over it, and nothing else.
  \<^item> \<open>Kbd\<close>, \<open>Kbd_Line\<close> (\<open>kbd.c\<close>): scan codes, the line editors and the shell of the kernel. The record \<open>os\<close>
    joins \<open>kern\<close> with display, mouse, clock and kernel heap. A line typed for a waiting
    task is the line that its read call returns, up to the 79 characters of the editor.
  \<^item> \<open>User_Calls\<close>, \<open>Call_Tables\<close> (\<open>user.c\<close>): the dispatcher \<open>user_on_syscall\<close>, a function for every call. A
    call returns on the page tables of the running task.
  \<^item> \<open>Malloc\<close>, \<open>Malloc_Brk\<close> (\<open>user/malloc.c\<close>): the allocator of user programs on the blocks of \<open>Blocks\<close>, for
    any \<open>brk\<close> that keeps \<open>brk_law\<close>; \<open>Malloc_Brk\<close> proves that \<open>user_brk\<close> does. For sizes up to $2^{62}$ and a heap that
    is tiled or new, \<open>malloc\<close> ends with a block of its own, or with null if the kernel refuses to move the break.
  \<^item> \<open>Printf\<close> (\<open>user/printf.c\<close>): the formatter shows the text of its format.

  \<^bold>\<open>What stands for the outside.\<close> The interrupts that arrive while a blocking call idles are a
  list in the scheduler's state: timer ticks, lines for a waiting reader, and Ctrl+C. Commands that the
  kernel runs itself from the keyboard interrupt while it idles are not among them. A disk driver is a record of functions over an arbitrary device
  state; bounds, paths and page ownership hold for every driver, and only the round trips of
  contents assume that a successful write stores and a successful read returns a sector. The contents of a
  page fresh from the allocator are arbitrary.

  \<^bold>\<open>Not modelled.\<close> The disk drivers (\<open>ata.c\<close>, \<open>ahci.c\<close>, \<open>virtio.c\<close>) and \<open>pic.c\<close>, \<open>pit.c\<close>, \<open>serial.c\<close> are
  protocols with hardware registers; \<open>kmain.c\<close> calls the initialisers; the descriptor tables,
  \<open>user_init\<close> and \<open>user_enter\<close> set up the processor; the boot loader and the stubs are assembly. The
  other user programs are not translated. The keyboard controller and the clock chip are
  parameters: the value that the n-th read of a register returns.
  The file system's three buffers in one page are three separate lists, which they are as long as
  the table has at most four sectors, and \<open>fs_init\<close> refuses a larger one.
\<close>

end
